(* ===== verification/KkPrelude.thy ===== *)
theory KkPrelude
  imports Main "HOL-Library.Word"
begin

text \<open>
  Shared vocabulary of the development: machine integers and byte strings, the error type of
  \<^verbatim>\<open>src/src/error.rs\<close>, the outcome of a fallible Rust function, and the contracts
  (locales) that several components share. An outcome is \<open>Ok v\<close>, \<open>Err e\<close> for a returned
  \<^verbatim>\<open>KkdbError\<close>, or \<open>Panic\<close> where the Rust code would unwind (a slice out of range, an
  arithmetic overflow that the following slice operation turns into a panic).
\<close>

section \<open>Machine integers and bytes\<close>

type_synonym u8 = "8 word"
type_synonym u16 = "16 word"
type_synonym u32 = "32 word"
type_synonym u64 = "64 word"
type_synonym i64 = "64 word"
type_synonym bytes = "u8 list"

unbundle bit_operations_syntax

named_theorems codec_simps \<open>decoder applied to its own encoder\<close>

section \<open>Errors and outcomes\<close>

datatype kkdb_error =
    Io string
  | SyntaxError string
  | ParseError string
  | RuntimeError string
  | TypeError string
  | TableAlreadyExists string
  | TableNotFound string
  | ColumnNotFound string
  | ColumnCountMismatch nat nat
  | PageOutOfRange u32
  | BTreeError string
  | DatabaseFull
  | CorruptDatabase string
  | ConstraintViolation string
  | Internal string
  | NotImplemented string
  | LockConflict string

datatype 'a res = Ok 'a | Err kkdb_error | Panic

text \<open>The \<open>?\<close> operator: errors and panics propagate.\<close>

fun res_bind :: "'a res \<Rightarrow> ('a \<Rightarrow> 'b res) \<Rightarrow> 'b res" where
  "res_bind (Ok a) f = f a"
| "res_bind (Err e) f = Err e"
| "res_bind Panic f = Panic"

text \<open>\<open>Result::ok\<close>, on outcomes that may also be a panic of the callee.\<close>

fun res_ok :: "'a res \<Rightarrow> 'a option res" where
  "res_ok (Ok a) = Ok (Some a)"
| "res_ok (Err e) = Ok None"
| "res_ok Panic = Panic"

text \<open>The \<open>?\<close> operator of functions that return an \<open>Option\<close>.\<close>

fun opt_bind :: "'a option res \<Rightarrow> ('a \<Rightarrow> 'b option res) \<Rightarrow> 'b option res" where
  "opt_bind (Ok (Some a)) f = f a"
| "opt_bind (Ok None) f = Ok None"
| "opt_bind (Err e) f = Err e"
| "opt_bind Panic f = Panic"

text \<open>\<open>is_ok\<close>.\<close>

fun is_ok :: "'a res \<Rightarrow> bool" where
  "is_ok (Ok _) = True"
| "is_ok _ = False"

text \<open>The slice expression \<open>&data[i..j]\<close>: it panics unless \<open>i \<le> j \<le> data.len()\<close>.\<close>

definition slice_range :: "'a list \<Rightarrow> nat \<Rightarrow> nat \<Rightarrow> 'a list res" where
  "slice_range xs i j = (if i \<le> j \<and> j \<le> length xs then Ok (take (j - i) (drop i xs)) else Panic)"

definition slice_from :: "'a list \<Rightarrow> nat \<Rightarrow> 'a list res" where
  "slice_from xs i = (if i \<le> length xs then Ok (drop i xs) else Panic)"

text \<open>
  \<open>usize\<close> is 64 bits wide. An addition that overflows panics in a debug build and wraps in a
  release build; it is used only where the wrapped sum is the end of a slice whose start is one
  of the summands, so that the slice panics in the release build too.
\<close>

definition usize_add :: "nat \<Rightarrow> nat \<Rightarrow> nat res" where
  "usize_add a b = (if a + b < 2 ^ 64 then Ok (a + b) else Panic)"

section \<open>Decimal and hexadecimal display\<close>

definition digit_char :: "nat \<Rightarrow> char" where
  "digit_char d = char_of (if d < 10 then 48 + d else 87 + d)"

fun show_nat :: "nat \<Rightarrow> string" where
  "show_nat n = (if n < 10 then [digit_char n] else show_nat (n div 10) @ [digit_char (n mod 10)])"

declare show_nat.simps [simp del]

definition show_int :: "int \<Rightarrow> string" where
  "show_int i = (if i < 0 then CHR ''-'' # show_nat (nat (- i)) else show_nat (nat i))"

definition show_hex2 :: "u8 \<Rightarrow> string" where
  "show_hex2 b = [digit_char (unat b div 16), digit_char (unat b mod 16)]"

section \<open>Little-endian integers\<close>

text \<open>\<open>to_le_bytes\<close> of an unsigned integer of \<open>n\<close> bytes, and \<open>from_le_bytes\<close>.\<close>

definition le_bytes :: "nat \<Rightarrow> 'a::len word \<Rightarrow> bytes" where
  "le_bytes n w = map (\<lambda>i. ucast (drop_bit (8 * i) w)) [0..<n]"

fun from_le :: "bytes \<Rightarrow> 'a::len word" where
  "from_le [] = 0"
| "from_le (b # bs) = ucast b OR push_bit 8 (from_le bs)"

section \<open>Repeated decoding\<close>

text \<open>
  The loop \<^verbatim>\<open>for _ in 0..n { let (v, c) = dec(&data[offset..])?; out.push(v); offset += c; }\<close>
  over any decoder that returns a value and the number of bytes it consumed.
\<close>

fun decode_many :: "(bytes \<Rightarrow> ('a \<times> nat) res) \<Rightarrow> nat \<Rightarrow> bytes \<Rightarrow> nat \<Rightarrow> 'a list res" where
  "decode_many dec 0 data offset = Ok []"
| "decode_many dec (Suc n) data offset =
     res_bind (slice_from data offset) (\<lambda>rest.
     res_bind (dec rest) (\<lambda>(v, consumed).
     res_bind (decode_many dec n data (offset + consumed)) (\<lambda>vs. Ok (v # vs))))"

section \<open>Lemmas on outcomes\<close>

lemma res_bind_Ok_iff: "res_bind m f = Ok b \<longleftrightarrow> (\<exists>a. m = Ok a \<and> f a = Ok b)"
  by (cases m) auto

lemma res_bind_Panic_iff: "res_bind m f = Panic \<longleftrightarrow> m = Panic \<or> (\<exists>a. m = Ok a \<and> f a = Panic)"
  by (cases m) auto

lemma res_bind_Err_iff: "res_bind m f = Err e \<longleftrightarrow> m = Err e \<or> (\<exists>a. m = Ok a \<and> f a = Err e)"
  by (cases m) auto

lemma res_bind_assoc: "res_bind (res_bind m f) g = res_bind m (\<lambda>a. res_bind (f a) g)"
  by (cases m) auto

lemma res_bind_cong [fundef_cong]:
  assumes "m = m'" and "\<And>a. m' = Ok a \<Longrightarrow> f a = f' a"
  shows "res_bind m f = res_bind m' f'"
  using assms by (cases m) auto

lemma opt_bind_Some_iff:
  "opt_bind m f = Ok (Some b) \<longleftrightarrow> (\<exists>a. m = Ok (Some a) \<and> f a = Ok (Some b))"
  by (cases "(m, f)" rule: opt_bind.cases) auto

lemma opt_bind_Panic_iff:
  "opt_bind m f = Panic \<longleftrightarrow> m = Panic \<or> (\<exists>a. m = Ok (Some a) \<and> f a = Panic)"
  by (cases "(m, f)" rule: opt_bind.cases) auto

lemma res_ok_Some_iff [simp]: "res_ok m = Ok (Some a) \<longleftrightarrow> m = Ok a"
  by (cases m) auto

lemma res_ok_Panic_iff [simp]: "res_ok m = Panic \<longleftrightarrow> m = Panic"
  by (cases m) auto

lemma slice_range_Ok [simp]: "i \<le> j \<Longrightarrow> j \<le> length xs \<Longrightarrow> slice_range xs i j = Ok (take (j - i) (drop i xs))"
  by (simp add: slice_range_def)

lemma slice_range_append_mid [simp]:
  "slice_range (xs @ ys @ zs) (length xs) (length xs + length ys) = Ok ys"
  by (simp add: slice_range_def)

lemma slice_from_Ok [simp]: "i \<le> length xs \<Longrightarrow> slice_from xs i = Ok (drop i xs)"
  by (simp add: slice_from_def)

lemma slice_range_Panic_iff: "slice_range xs i j = Panic \<longleftrightarrow> \<not> (i \<le> j \<and> j \<le> length xs)"
  by (simp add: slice_range_def)

lemma slice_from_Panic_iff: "slice_from xs i = Panic \<longleftrightarrow> length xs < i"
  by (auto simp: slice_from_def)

lemma slice_range_length: "slice_range xs i j = Ok ys \<Longrightarrow> length ys = j - i"
  by (auto simp: slice_range_def split: if_splits)

section \<open>Lemmas on little-endian integers\<close>

lemma length_le_bytes [simp]: "length (le_bytes n w) = n"
  by (simp add: le_bytes_def)

lemma bit_from_le:
  "bit (from_le bs :: 'a::len word) n \<longleftrightarrow>
     n < LENGTH('a) \<and> n div 8 < length bs \<and> bit (bs ! (n div 8)) (n mod 8)"
proof (induction bs arbitrary: n)
  case Nil
  then show ?case by simp
next
  case (Cons b bs)
  show ?case
  proof (cases "n < 8")
    case True
    then show ?thesis by (auto simp: bit_or_iff bit_push_bit_iff bit_ucast_iff)
  next
    case False
    then have n: "n div 8 = Suc ((n - 8) div 8)" "n mod 8 = (n - 8) mod 8"
      by (simp_all add: le_div_geq le_mod_geq)
    have "\<not> bit b n" using False by (auto dest: bit_imp_le_length)
    with False Cons.IH [of "n - 8"] show ?thesis
      by (auto simp: bit_or_iff bit_push_bit_iff bit_ucast_iff n)
  qed
qed

lemma from_le_le_bytes [codec_simps]:
  fixes w :: "'a::len word"
  assumes "LENGTH('a) \<le> 8 * n"
  shows "from_le (le_bytes n w) = w"
proof (rule bit_word_eqI)
  fix k assume "k < LENGTH('a)"
  with assms have "k div 8 < n" by (simp add: less_mult_imp_div_less mult.commute)
  then show "bit (from_le (le_bytes n w) :: 'a word) k = bit w k"
    using \<open>k < LENGTH('a)\<close>
    by (simp add: bit_from_le le_bytes_def bit_ucast_iff bit_drop_bit_eq)
qed

lemma from_le_u16 [simp]: "from_le (le_bytes 2 (w::u16)) = w"
  by (rule from_le_le_bytes) simp

lemma from_le_u32 [simp]: "from_le (le_bytes 4 (w::u32)) = w"
  by (rule from_le_le_bytes) simp

lemma from_le_u64 [simp]: "from_le (le_bytes 8 (w::u64)) = w"
  by (rule from_le_le_bytes) simp

lemma unat_u64_succ: "(n::u64) \<noteq> - 1 \<Longrightarrow> unat (n + 1) = Suc (unat n)"
proof -
  assume "n \<noteq> - 1"
  then have "1 + n \<noteq> 0" by (metis add.commute add_eq_0_iff)
  then show ?thesis by (simp add: unatSuc add.commute)
qed

lemma u64_less_succ: "(n::u64) \<noteq> - 1 \<Longrightarrow> t < n + 1 \<longleftrightarrow> t < n \<or> t = n"
  by (auto simp: word_less_nat_alt less_Suc_eq word_unat_eq_iff unat_u64_succ)

lemma le_bytes_from_le:
  assumes "length bs = n" and "LENGTH('a) = 8 * n"
  shows "le_bytes n (from_le bs :: 'a::len word) = bs"
proof (rule nth_equalityI)
  fix i assume "i < length (le_bytes n (from_le bs :: 'a word))"
  then have i: "i < n" by simp
  show "le_bytes n (from_le bs :: 'a word) ! i = bs ! i"
  proof (rule bit_word_eqI)
    fix k assume "k < LENGTH(8)"
    then have k: "k < 8" by simp
    then have "8 * i + k < LENGTH('a)" using i assms(2) by simp
    with i k assms(1) show "bit (le_bytes n (from_le bs :: 'a word) ! i) k = bit (bs ! i) k"
      by (simp add: le_bytes_def bit_ucast_iff bit_drop_bit_eq bit_from_le)
  qed
qed (simp add: assms)

section \<open>Contracts shared by the serialisers\<close>

text \<open>
  A codec promises that decoding what was encoded gives the value back and consumes exactly its
  encoding, whatever bytes follow. Its clients only need that law.
\<close>

locale codec =
  fixes enc :: "'a \<Rightarrow> bytes"
    and dec :: "bytes \<Rightarrow> ('a \<times> nat) res"
    and wf :: "'a \<Rightarrow> bool"
  assumes dec_enc: "wf x \<Longrightarrow> dec (enc x @ rest) = Ok (x, length (enc x))"
begin

lemma enc_prefix_free:
  assumes "wf x" and "wf y" and eq: "enc x @ r = enc y @ s"
  shows "x = y \<and> r = s"
proof -
  have "dec (enc x @ r) = dec (enc y @ s)" by (simp only: eq)
  then have "x = y" by (simp add: dec_enc [OF assms(1)] dec_enc [OF assms(2)])
  with eq show ?thesis by simp
qed

lemma decode_many_enc:
  assumes "\<And>x. x \<in> set xs \<Longrightarrow> wf x"
  shows "decode_many dec (length xs) (pre @ concat (map enc xs) @ rest) (length pre) = Ok xs"
  using assms
proof (induction xs arbitrary: pre)
  case Nil
  then show ?case by simp
next
  case (Cons x xs)
  from Cons.prems have "dec (enc x @ concat (map enc xs) @ rest) = Ok (x, length (enc x))"
    by (simp add: dec_enc)
  moreover have "decode_many dec (length xs) ((pre @ enc x) @ concat (map enc xs) @ rest)
      (length (pre @ enc x)) = Ok xs"
    using Cons.prems by (intro Cons.IH) simp
  ultimately show ?case by simp
qed

end

text \<open>
  The same law for decoders that answer \<open>None\<close> on corrupt input, and its use by a reader that
  keeps an offset into a larger buffer.
\<close>

locale field_codec =
  fixes enc :: "'a \<Rightarrow> bytes"
    and dec :: "bytes \<Rightarrow> ('a \<times> nat) option res"
    and wf :: "'a \<Rightarrow> bool"
  assumes field_dec_enc: "wf x \<Longrightarrow> dec (enc x @ rest) = Ok (Some (x, length (enc x)))"
begin

lemma field_step:
  assumes "wf x" and "off \<le> length data" and "drop off data = enc x @ rest"
  shows "res_bind (slice_from data off) dec = Ok (Some (x, length (enc x)))"
    and "off + length (enc x) \<le> length data"
    and "drop (off + length (enc x)) data = rest"
proof -
  show "res_bind (slice_from data off) dec = Ok (Some (x, length (enc x)))"
    using assms by (simp add: field_dec_enc)
  have "length (drop off data) = length (enc x @ rest)" by (simp only: assms(3))
  with assms(2) show "off + length (enc x) \<le> length data" by simp
  have "drop (length (enc x)) (drop off data) = rest" by (simp only: assms(3)) simp
  then show "drop (off + length (enc x)) data = rest" by (simp add: add.commute)
qed

end

sublocale codec \<subseteq> field: field_codec enc "\<lambda>d. res_ok (dec d)" wf
  by unfold_locales (simp add: dec_enc)

text \<open>
  A safe decoder never panics, whatever bytes it is given, and never claims to have consumed more
  than it was given. Repeating it stays safe.
\<close>

locale safe_decoder =
  fixes dec :: "bytes \<Rightarrow> ('a \<times> nat) res"
  assumes no_panic: "dec data \<noteq> Panic"
    and consumed_le: "dec data = Ok (x, n) \<Longrightarrow> n \<le> length data"
begin

lemma decode_many_no_panic:
  "offset \<le> length data \<Longrightarrow> decode_many dec n data offset \<noteq> Panic"
proof (induction n arbitrary: offset)
  case 0
  then show ?case by simp
next
  case (Suc n)
  have "decode_many dec n data (offset + c) \<noteq> Panic"
    if "dec (drop offset data) = Ok (v, c)" for v c
    using Suc consumed_le [OF that] by simp
  with Suc.prems no_panic [of "drop offset data"] show ?case
    by (auto simp: res_bind_Panic_iff)
qed

end

end
