(* ===== verification/Varint.thy ===== *)
theory Varint
  imports KkPrelude
begin

text \<open>
  The LEB128 variable-length integers and the ZigZag transform of \<^verbatim>\<open>src/src/varint.rs\<close>,
  on 64-bit words. The write loop appends to the buffer; the read loop threads the accumulator,
  the shift and the number of bytes consumed.
\<close>

section \<open>The code\<close>

function write_varint_u64 :: "u64 \<Rightarrow> bytes \<Rightarrow> bytes" where
  "write_varint_u64 val buf =
     (let byte = (ucast (val AND 0x7F) :: u8);
          val' = drop_bit 7 val;
          byte' = (if val' \<noteq> 0 then byte OR 0x80 else byte);
          buf' = buf @ [byte']
      in if val' = 0 then buf' else write_varint_u64 val' buf')"
  by pat_completeness auto

lemma unat_drop_bit_7: "unat (drop_bit 7 (v::u64)) = unat v div 128"
  by (simp add: drop_bit_eq_div unat_div)

termination write_varint_u64
proof (relation "measure (\<lambda>(v, _). unat v)")
  fix val :: u64 and buf :: bytes
  fix byte val' byte' buf'
  assume "val' = drop_bit 7 val" and nz: "\<not> val' = 0"
  then have v: "unat val' = unat val div 128" by (simp add: unat_drop_bit_7)
  have "unat val' \<noteq> 0" using nz by (simp add: unat_eq_zero)
  with v show "((val', buf'), val, buf) \<in> measure (\<lambda>(v, _). unat v)"
    by simp
qed simp

declare write_varint_u64.simps [simp del]

fun read_varint_loop :: "bytes \<Rightarrow> u64 \<Rightarrow> nat \<Rightarrow> nat \<Rightarrow> (u64 \<times> nat) res" where
  "read_varint_loop [] val shift consumed = Err (CorruptDatabase ''truncated varint'')"
| "read_varint_loop (byte # data) val shift consumed =
     (let consumed' = consumed + 1 in
      if shift \<ge> 63 then
        (if byte > 0x01 then Err (CorruptDatabase ''varint overflowed 64 bits'')
         else Ok (val OR push_bit shift (ucast byte), consumed'))
      else
        (let val' = val OR push_bit shift (ucast (byte AND 0x7F)) in
         if byte AND 0x80 = 0 then Ok (val', consumed')
         else read_varint_loop data val' (shift + 7) consumed'))"

definition read_varint_u64 :: "bytes \<Rightarrow> (u64 \<times> nat) res" where
  "read_varint_u64 data = read_varint_loop data 0 0 0"

definition zigzag_encode :: "i64 \<Rightarrow> u64" where
  "zigzag_encode val = push_bit 1 val XOR signed_drop_bit 63 val"

definition zigzag_decode :: "u64 \<Rightarrow> i64" where
  "zigzag_decode val = drop_bit 1 val XOR - (val AND 1)"

section \<open>Encoding from the empty buffer\<close>

lemma write_varint_last: "drop_bit 7 val = 0 \<Longrightarrow> write_varint_u64 val buf = buf @ [ucast (val AND 0x7F)]"
  by (simp add: write_varint_u64.simps [of val buf])

lemma write_varint_more:
  "drop_bit 7 val \<noteq> 0 \<Longrightarrow>
     write_varint_u64 val buf = write_varint_u64 (drop_bit 7 val) (buf @ [ucast (val AND 0x7F) OR 0x80])"
  by (simp add: write_varint_u64.simps [of val buf])

lemma varint_induct [case_names last more]:
  assumes last: "\<And>v. drop_bit 7 v = 0 \<Longrightarrow> P v"
    and more: "\<And>v. drop_bit 7 v \<noteq> 0 \<Longrightarrow> P (drop_bit 7 v) \<Longrightarrow> P v"
  shows "P (v::u64)"
proof (induction "unat v" arbitrary: v rule: less_induct)
  case less
  show ?case
  proof (cases "drop_bit 7 v = 0")
    case True
    then show ?thesis by (rule last)
  next
    case False
    then have "unat (drop_bit 7 v) \<noteq> 0" by (simp add: unat_eq_zero)
    then have "unat (drop_bit 7 v) < unat v" by (simp add: unat_drop_bit_7)
    then have "P (drop_bit 7 v)" by (rule less)
    with False show ?thesis by (rule more)
  qed
qed

lemma write_varint_u64_append: "write_varint_u64 val buf = buf @ write_varint_u64 val []"
proof (induction val arbitrary: buf rule: varint_induct)
  case (last v)
  then show ?case by (simp add: write_varint_last)
next
  case (more v)
  have "write_varint_u64 v b = b @ [ucast (v AND 0x7F) OR 0x80] @ write_varint_u64 (drop_bit 7 v) []" for b
    by (simp only: write_varint_more [OF more.hyps] more.IH [of "b @ _"] append_assoc)
  from this [of buf] this [of "[]"] show ?case by simp
qed

text \<open>The bytes of a varint, as a function of the value alone.\<close>

abbreviation varint :: "u64 \<Rightarrow> bytes" where
  "varint v \<equiv> write_varint_u64 v []"

lemma varint_Cons:
  "drop_bit 7 v \<noteq> 0 \<Longrightarrow> varint v = (ucast (v AND 0x7F) OR 0x80) # varint (drop_bit 7 v)"
  by (subst write_varint_more, assumption, subst write_varint_u64_append) simp

lemma varint_nonempty: "varint v \<noteq> []"
  by (cases "drop_bit 7 v = 0") (simp_all add: varint_Cons write_varint_last)

lemma varint_length_bound: "unat v < 2 ^ (7 * Suc k) \<Longrightarrow> length (varint v) \<le> Suc k"
proof (induction v arbitrary: k rule: varint_induct)
  case (last v)
  then show ?case by (simp add: write_varint_last)
next
  case (more v)
  then obtain j where k: "k = Suc j"
    by (cases k) (auto simp: unat_drop_bit_7 unat_eq_zero [symmetric])
  with more.prems have "unat (drop_bit 7 v) < 2 ^ (7 * Suc j)"
    by (simp add: unat_drop_bit_7 power_add less_mult_imp_div_less)
  then have "length (varint (drop_bit 7 v)) \<le> Suc j" by (rule more.IH)
  with more.hyps k show ?case by (simp add: varint_Cons)
qed

section \<open>Reading back what was written\<close>

lemma bit_7F: "bit (0x7F :: int) n \<longleftrightarrow> n < 7"
proof -
  have "(0x7F :: int) = mask 7" by (simp add: mask_eq_exp_minus_1)
  then show ?thesis by (simp only: bit_mask_iff) auto
qed

lemma bit_80: "bit (0x80 :: int) n \<longleftrightarrow> n = 7"
proof -
  have "(0x80 :: int) = 2 ^ 7" by simp
  then show ?thesis by (simp only: bit_exp_iff) auto
qed

lemma low7_split:
  fixes v :: u64
  shows "push_bit s (ucast (ucast (v AND 0x7F) :: u8)) OR push_bit (s + 7) (drop_bit 7 v) = push_bit s v"
proof (rule bit_word_eqI)
  fix n assume "n < LENGTH(64)"
  then show "bit (push_bit s (ucast (ucast (v AND 0x7F) :: u8)) OR push_bit (s + 7) (drop_bit 7 v)) n
      = bit (push_bit s v) n"
    by (cases "n < s + 7")
      (auto simp: bit_or_iff bit_push_bit_iff bit_ucast_iff bit_drop_bit_eq bit_and_iff bit_7F not_less)
qed

lemma low7_marked: "(ucast (v AND 0x7F) OR 0x80 :: u8) AND 0x7F = ucast ((v::u64) AND 0x7F)"
  by (rule bit_word_eqI)
    (auto simp: bit_or_iff bit_and_iff bit_ucast_iff bit_7F bit_80)

lemma low7_clear: "(ucast (v AND 0x7F) :: u8) AND 0x7F = ucast ((v::u64) AND 0x7F)"
  by (rule bit_word_eqI) (auto simp: bit_and_iff bit_ucast_iff bit_7F)

lemma mark_clear: "(ucast ((v::u64) AND 0x7F) :: u8) AND 0x80 = 0"
  by (rule bit_word_eqI) (auto simp: bit_and_iff bit_ucast_iff bit_7F bit_80)

lemma mark_set: "(x OR 0x80 :: u8) AND 0x80 \<noteq> 0"
proof
  assume "(x OR 0x80) AND 0x80 = 0"
  then have "bit ((x OR 0x80) AND 0x80) 7 = bit (0::u8) 7" by simp
  then show False by (simp add: bit_and_iff bit_or_iff bit_80)
qed

text \<open>
  Reading at shift \<open>s = 7 * k\<close> a value that still fits in the remaining \<open>64 - s\<close> bits: the
  loop adds the value at its shift to the accumulator and consumes exactly its bytes.
\<close>

lemma read_varint_loop_varint:
  assumes "s = 7 * k" and "k \<le> 9" and "unat v < 2 ^ (64 - s)"
  shows "read_varint_loop (varint v @ rest) acc s c = Ok (acc OR push_bit s v, c + length (varint v))"
  using assms
proof (induction v arbitrary: k s acc c rule: varint_induct)
  case (last v)
  let ?b = "ucast (v AND 0x7F) :: u8"
  have split: "push_bit s (ucast ?b) = push_bit s v"
    using low7_split [of s v] last.hyps by simp
  show ?case
  proof (cases "s \<ge> 63")
    case True
    with last.prems have "s = 63" by simp
    with last.prems have "unat v < 2" by simp
    then have "unat v = 0 \<or> unat v = 1" by arith
    then have "v = 0 \<or> v = 1" by (metis unat_0 unat_1 word_unat_eq_iff)
    then have "\<not> ?b > 1" by auto
    with True split last.hyps show ?thesis by (simp add: write_varint_last)
  next
    case False
    with split last.hyps show ?thesis by (simp add: write_varint_last low7_clear mark_clear)
  qed
next
  case (more v)
  let ?b = "ucast (v AND 0x7F) OR 0x80 :: u8"
  have "unat (drop_bit 7 v) \<noteq> 0" using more.hyps by (simp add: unat_eq_zero)
  then have big: "128 \<le> unat v" by (simp add: unat_drop_bit_7 div_eq_0_iff)
  have k: "k < 9"
  proof (rule ccontr)
    assume "\<not> k < 9"
    with more.prems have "s = 63" by simp
    with more.prems have "unat v < 2" by simp
    with big show False by simp
  qed
  then have s: "s + 7 = 7 * Suc k" "Suc k \<le> 9" "s < 63" using more.prems by auto
  have "64 - s = 7 + (64 - (s + 7))" using s by simp
  then have "(2::nat) ^ (64 - s) = 2 ^ 7 * 2 ^ (64 - (s + 7))" by (simp only: power_add)
  with more.prems have "unat (drop_bit 7 v) < 2 ^ (64 - (s + 7))"
    by (simp add: unat_drop_bit_7 less_mult_imp_div_less mult.commute)
  from more.IH [OF s(1,2) this, of "acc OR push_bit s (ucast (?b AND 0x7F))" "c + 1"]
  show ?case using s(3) more.hyps mark_set [of "ucast (v AND 0x7F)"] low7_split [of s v]
    by (simp add: varint_Cons low7_marked or.assoc Let_def)
qed

lemma read_write_varint: "read_varint_u64 (write_varint_u64 v [] @ rest) = Ok (v, length (varint v))"
  using read_varint_loop_varint [of 0 0 v rest 0 0] unsigned_less [of v, where ?'a = nat]
  by (simp add: read_varint_u64_def)

interpretation varint_codec: codec "\<lambda>v. write_varint_u64 v []" read_varint_u64 "\<lambda>_. True"
  by unfold_locales (rule read_write_varint)

lemma varint_length_le: "length (varint v) \<le> 10"
  using varint_length_bound [of v 9] unsigned_less [of v, where ?'a = nat] by simp

lemma read_varint_loop_safe:
  "read_varint_loop data acc s c \<noteq> Panic \<and>
   (read_varint_loop data acc s c = Ok (v, n) \<longrightarrow> c < n \<and> n \<le> c + length data)"
proof (induction data arbitrary: acc s c)
  case (Cons b data)
  from Cons.IH [of "acc OR push_bit s (ucast (b AND 127))" "s + 7" "Suc c"]
  show ?case by (auto simp: Let_def)
qed simp

lemma read_varint_consumed: "read_varint_u64 data = Ok (v, n) \<Longrightarrow> 0 < n \<and> n \<le> length data"
  using read_varint_loop_safe [of data 0 0 0 v n] by (simp add: read_varint_u64_def)

lemma read_varint_no_panic: "read_varint_u64 data \<noteq> Panic"
  using read_varint_loop_safe [of data 0 0 0] by (simp add: read_varint_u64_def)

interpretation varint_dec: safe_decoder read_varint_u64
  by unfold_locales (auto simp: read_varint_no_panic dest: read_varint_consumed)

section \<open>ZigZag\<close>

lemma signed_drop_bit_63: "signed_drop_bit 63 (v::i64) = (if bit v 63 then - 1 else 0)"
  by (rule bit_word_eqI) (auto simp: bit_signed_drop_bit_iff min_def not_le)

lemma bit_zigzag_encode:
  "bit (zigzag_encode v) n \<longleftrightarrow> n < 64 \<and> ((0 < n \<and> bit v (n - 1)) \<noteq> bit v 63)"
proof -
  have "bit (push_bit 1 v) n \<longleftrightarrow> 0 < n \<and> n < 64 \<and> bit v (n - 1)"
    by (simp only: bit_push_bit_iff) (auto dest: bit_imp_le_length)
  moreover have "bit (signed_drop_bit 63 v) n \<longleftrightarrow> n < 64 \<and> bit v 63"
    by (simp add: signed_drop_bit_63)
  ultimately show ?thesis by (auto simp: zigzag_encode_def bit_xor_iff simp del: push_bit_numeral push_bit_of_1)
qed

lemma bit_zigzag_decode:
  "bit (zigzag_decode u) n \<longleftrightarrow> n < 64 \<and> (bit u (Suc n) \<noteq> bit u 0)"
proof -
  have "bit (drop_bit 1 u) n \<longleftrightarrow> bit u (Suc n)"
    by (simp only: bit_drop_bit_eq comp_def) simp
  moreover have "bit (- (u AND 1)) n \<longleftrightarrow> n < 64 \<and> bit u 0"
    by (cases "bit u 0") (simp_all add: and_one_eq mod_2_eq_odd bit_0)
  moreover have "n < 64" if "bit u (Suc n)" using bit_imp_le_length [OF that] by simp
  ultimately show ?thesis by (simp only: zigzag_decode_def bit_xor_iff) blast
qed

lemma zigzag_round_trip: "zigzag_decode (zigzag_encode v) = v"
proof (rule bit_word_eqI)
  fix n assume "n < LENGTH(64)"
  then show "bit (zigzag_decode (zigzag_encode v)) n = bit v n"
    by (cases "n = 63") (auto simp: bit_zigzag_decode bit_zigzag_encode)
qed

lemma zigzag_decode_encode: "zigzag_encode (zigzag_decode u) = u"
proof (rule bit_word_eqI)
  fix n assume "n < LENGTH(64)"
  moreover have "\<not> bit u 64" by (auto dest: bit_imp_le_length)
  ultimately show "bit (zigzag_encode (zigzag_decode u)) n = bit u n"
    by (cases n) (auto simp: bit_zigzag_decode bit_zigzag_encode)
qed

text \<open>reading what was written gives the value back and consumes exactly the bytes written, whatever
  follows them, and an encoding has at most ten bytes.\<close>

lemma varint_round_trip:
  "read_varint_u64 (write_varint_u64 v [] @ rest) = Ok (v, length (write_varint_u64 v []))
     \<and> length (write_varint_u64 v []) \<le> 10"
  by (simp add: read_write_varint varint_length_le)

text \<open>The zigzag mapping is a bijection between signed and unsigned 64-bit integers.\<close>

lemma zigzag_bijection:
  "zigzag_decode (zigzag_encode v) = v \<and> zigzag_encode (zigzag_decode u) = u"
  by (simp add: zigzag_round_trip zigzag_decode_encode)

end
