(* ===== verification/Float64.thy ===== *)
theory Float64
  imports KkPrelude
begin

text \<open>
  The part of Rust's \<^verbatim>\<open>f64\<close> that the value layer uses: a double is its IEEE 754 bit pattern,
  compared by sign and magnitude (NaN is unordered, the two zeros are equal), an \<^verbatim>\<open>i64\<close> is
  converted with round-to-nearest-even, and \<^verbatim>\<open>as i64\<close> truncates and saturates.
\<close>

section \<open>Bit patterns\<close>

type_synonym f64 = u64

datatype ordering = Less | Equal | Greater

fun ordering_reverse :: "ordering \<Rightarrow> ordering" where
  "ordering_reverse Less = Greater"
| "ordering_reverse Equal = Equal"
| "ordering_reverse Greater = Less"

definition int_cmp :: "int \<Rightarrow> int \<Rightarrow> ordering" where
  "int_cmp a b = (if a < b then Less else if a = b then Equal else Greater)"

definition f64_magnitude :: "f64 \<Rightarrow> nat" where
  "f64_magnitude b = unat b mod 2 ^ 63"

definition f64_negative :: "f64 \<Rightarrow> bool" where
  "f64_negative b \<longleftrightarrow> 2 ^ 63 \<le> unat b"

definition f64_infinity_bits :: nat where
  "f64_infinity_bits = 2047 * 2 ^ 52"

definition f64_is_nan :: "f64 \<Rightarrow> bool" where
  "f64_is_nan b \<longleftrightarrow> f64_infinity_bits < f64_magnitude b"

text \<open>Doubles that are not NaN are ordered like this integer.\<close>

definition f64_key :: "f64 \<Rightarrow> int" where
  "f64_key b = (if f64_negative b then - int (f64_magnitude b) else int (f64_magnitude b))"

definition f64_eq :: "f64 \<Rightarrow> f64 \<Rightarrow> bool" where
  "f64_eq a b \<longleftrightarrow> \<not> f64_is_nan a \<and> \<not> f64_is_nan b \<and> f64_key a = f64_key b"

definition f64_partial_cmp :: "f64 \<Rightarrow> f64 \<Rightarrow> ordering option" where
  "f64_partial_cmp a b =
     (if f64_is_nan a \<or> f64_is_nan b then None else Some (int_cmp (f64_key a) (f64_key b)))"

section \<open>Conversions\<close>

fun bit_len :: "nat \<Rightarrow> nat" where
  "bit_len n = (if n = 0 then 0 else Suc (bit_len (n div 2)))"

declare bit_len.simps [simp del]

text \<open>The magnitude bits of the double nearest to \<open>m\<close>, ties to even.\<close>

definition nat_to_f64_bits :: "nat \<Rightarrow> nat" where
  "nat_to_f64_bits m =
     (if m = 0 then 0
      else let e = bit_len m - 1 in
        if e \<le> 52 then (e + 1023) * 2 ^ 52 + (m * 2 ^ (52 - e) - 2 ^ 52)
        else let sh = e - 52; q = m div 2 ^ sh; r = m mod 2 ^ sh; half = 2 ^ (sh - 1);
                 q' = (if half < r \<or> (r = half \<and> odd q) then Suc q else q)
             in (e + 1023) * 2 ^ 52 + (q' - 2 ^ 52))"

definition i64_as_f64 :: "i64 \<Rightarrow> f64" where
  "i64_as_f64 v =
     word_of_nat ((if sint v < 0 then 2 ^ 63 else 0) + nat_to_f64_bits (nat \<bar>sint v\<bar>))"

text \<open>The integer part of the magnitude of a finite double.\<close>

definition f64_trunc_magnitude :: "f64 \<Rightarrow> nat" where
  "f64_trunc_magnitude b =
     (let e = f64_magnitude b div 2 ^ 52; m = f64_magnitude b mod 2 ^ 52 in
      if e = 0 then 0
      else if 1075 \<le> e then (2 ^ 52 + m) * 2 ^ (e - 1075) else (2 ^ 52 + m) div 2 ^ (1075 - e))"

definition f64_as_i64 :: "f64 \<Rightarrow> i64" where
  "f64_as_i64 b =
     (if f64_is_nan b then 0
      else let t = (if f64_negative b then - int (f64_trunc_magnitude b) else int (f64_trunc_magnitude b))
           in word_of_int (max (- (2 ^ 63)) (min (2 ^ 63 - 1) t)))"

section \<open>Order laws\<close>

lemma int_cmp_reverse: "int_cmp b a = ordering_reverse (int_cmp a b)"
  by (simp add: int_cmp_def)

lemma int_cmp_Equal [simp]: "int_cmp a b = Equal \<longleftrightarrow> a = b"
  by (simp add: int_cmp_def)

lemma int_cmp_Less [simp]: "int_cmp a b = Less \<longleftrightarrow> a < b"
  by (simp add: int_cmp_def)

lemma f64_partial_cmp_reverse: "f64_partial_cmp b a = map_option ordering_reverse (f64_partial_cmp a b)"
  by (auto simp: f64_partial_cmp_def int_cmp_reverse [of "f64_key b"])

lemma f64_partial_cmp_Equal: "f64_partial_cmp a b = Some Equal \<longleftrightarrow> f64_eq a b"
  by (simp add: f64_partial_cmp_def f64_eq_def)

lemma f64_partial_cmp_None: "f64_partial_cmp a b = None \<longleftrightarrow> f64_is_nan a \<or> f64_is_nan b"
  by (simp add: f64_partial_cmp_def)

section \<open>A converted integer is never NaN\<close>

lemma bit_len_bounds: "0 < n \<Longrightarrow> 2 ^ (bit_len n - 1) \<le> n \<and> n < 2 ^ bit_len n \<and> 0 < bit_len n"
proof (induction n rule: bit_len.induct)
  case (1 n)
  show ?case
  proof (cases "n div 2 = 0")
    case True
    with 1 have "n = 1" by (simp add: div_eq_0_iff)
    then show ?thesis by (simp add: bit_len.simps)
  next
    case False
    with 1 have IH: "2 ^ (bit_len (n div 2) - 1) \<le> n div 2" "n div 2 < 2 ^ bit_len (n div 2)"
      "0 < bit_len (n div 2)" by auto
    have step: "bit_len n = Suc (bit_len (n div 2))" using 1 by (simp add: bit_len.simps [of n])
    obtain k where k: "bit_len (n div 2) = Suc k" using IH(3) by (cases "bit_len (n div 2)") auto
    have "2 * 2 ^ k \<le> n \<and> n < 4 * 2 ^ k" using IH(1,2) unfolding k by (simp; arith)
    with step k show ?thesis by simp
  qed
qed

text \<open>
  The significand with its hidden bit, before the exponent is added: exact below \<open>2 ^ 53\<close>, rounded
  above.
\<close>

definition round_half_even :: "nat \<Rightarrow> nat \<Rightarrow> nat" where
  "round_half_even m sh =
     (let q = m div 2 ^ sh; r = m mod 2 ^ sh; half = 2 ^ (sh - 1)
      in if half < r \<or> (r = half \<and> odd q) then Suc q else q)"

definition significand :: "nat \<Rightarrow> nat \<Rightarrow> nat" where
  "significand e m = (if e \<le> 52 then m * 2 ^ (52 - e) else round_half_even m (e - 52))"

lemma nat_to_f64_bits_eq:
  assumes "0 < m" and e: "e = bit_len m - 1"
  shows "nat_to_f64_bits m = (e + 1023) * 2 ^ 52 + (significand e m - 2 ^ 52)"
proof -
  from assms have "m \<noteq> 0" by simp
  then show ?thesis unfolding nat_to_f64_bits_def significand_def round_half_even_def Let_def e
    by (simp only: if_False split: if_split) blast
qed

lemma bit_len_exponent:
  assumes "0 < m"
  shows "2 ^ (bit_len m - 1) \<le> m" and "m < 2 ^ Suc (bit_len m - 1)"
  using bit_len_bounds [OF assms] by simp_all

lemma significand_bound:
  assumes "m < 2 ^ Suc e"
  shows "significand e m \<le> 2 ^ 53"
proof (cases "e \<le> 52")
  case True
  have "m * 2 ^ (52 - e) \<le> 2 ^ Suc e * 2 ^ (52 - e)" using assms by (intro mult_right_mono) simp_all
  also have "\<dots> = 2 ^ 53" using True by (simp flip: power_add power_Suc)
  finally show ?thesis using True by (simp add: significand_def)
next
  case False
  then have "Suc e = 53 + (e - 52)" by simp
  then have "2 ^ Suc e = (2::nat) ^ 53 * 2 ^ (e - 52)" by (simp only: power_add)
  with assms have "m div 2 ^ (e - 52) < 2 ^ 53" by (simp only: less_mult_imp_div_less)
  with False show ?thesis by (auto simp: significand_def round_half_even_def Let_def)
qed

lemma nat_to_f64_bits_upper:
  assumes "0 < m"
  shows "nat_to_f64_bits m \<le> (bit_len m - 1 + 1024) * 2 ^ 52"
proof -
  have "significand (bit_len m - 1) m - 2 ^ 52 \<le> 2 ^ 52"
    using significand_bound [OF bit_len_exponent(2) [OF assms]] by simp
  then show ?thesis
    by (simp only: nat_to_f64_bits_eq [OF assms refl] add_mult_distrib)
qed

lemma bit_len_le: "0 < m \<Longrightarrow> m < 2 ^ k \<Longrightarrow> bit_len m \<le> k"
proof -
  assume "0 < m" "m < 2 ^ k"
  then have "(2::nat) ^ (bit_len m - 1) < 2 ^ k" using bit_len_exponent(1) [of m] le_less_trans by blast
  then have "bit_len m - 1 < k" by (rule power_less_imp_less_exp [rotated]) simp
  then show ?thesis by simp
qed

lemma bit_len_mono: "m \<le> n \<Longrightarrow> bit_len m \<le> bit_len n"
proof (cases "m = 0")
  case True
  then show ?thesis by (simp add: bit_len.simps)
next
  case False
  moreover assume "m \<le> n"
  ultimately have "m < 2 ^ bit_len n" using bit_len_bounds [of n] by simp
  with False show ?thesis by (simp add: bit_len_le)
qed

lemma nat_to_f64_bits_bound:
  assumes "m < 2 ^ 64"
  shows "nat_to_f64_bits m \<le> 1087 * 2 ^ 52"
proof (cases "m = 0")
  case True
  then show ?thesis by (simp add: nat_to_f64_bits_def)
next
  case False
  with assms have "bit_len m \<le> 64" by (simp add: bit_len_le)
  then have "(bit_len m - 1 + 1024) * 2 ^ 52 \<le> 1087 * (2 ^ 52 :: nat)" by simp
  moreover have "nat_to_f64_bits m \<le> (bit_len m - 1 + 1024) * 2 ^ 52"
    using False by (intro nat_to_f64_bits_upper) simp
  ultimately show ?thesis by (rule le_trans [rotated])
qed

lemma round_half_even_mono:
  assumes "m \<le> n"
  shows "round_half_even m sh \<le> round_half_even n sh"
proof (cases "m div 2 ^ sh = n div 2 ^ sh")
  case True
  then have "n div 2 ^ sh * 2 ^ sh + m mod 2 ^ sh \<le> n div 2 ^ sh * 2 ^ sh + n mod 2 ^ sh"
    using assms by (metis div_mult_mod_eq)
  then have "m mod 2 ^ sh \<le> n mod 2 ^ sh" by (rule add_le_imp_le_left)
  with True show ?thesis by (auto simp: round_half_even_def Let_def)
next
  case False
  with assms have "m div 2 ^ sh < n div 2 ^ sh" by (simp add: div_le_mono order_less_le)
  then show ?thesis by (auto simp: round_half_even_def Let_def)
qed

lemma nat_to_f64_bits_mono:
  assumes "m \<le> n"
  shows "nat_to_f64_bits m \<le> nat_to_f64_bits n"
proof (cases "m = 0")
  case True
  then show ?thesis by (simp add: nat_to_f64_bits_def)
next
  case False
  with assms have pos: "0 < m" "0 < n" by simp_all
  let ?e = "\<lambda>k. bit_len k - 1"
  have "?e m \<le> ?e n" using bit_len_mono [OF assms] by simp
  then consider "?e m = ?e n" | "?e m < ?e n" by linarith
  then show ?thesis
  proof cases
    case 1
    have "significand (?e n) m \<le> significand (?e n) n"
      using assms by (simp add: significand_def round_half_even_mono)
    with 1 show ?thesis
      by (simp add: nat_to_f64_bits_eq [OF pos(1) refl] nat_to_f64_bits_eq [OF pos(2) refl] diff_le_mono)
  next
    case 2
    have "nat_to_f64_bits m \<le> (?e m + 1024) * 2 ^ 52" by (rule nat_to_f64_bits_upper [OF pos(1)])
    also have "\<dots> \<le> (?e n + 1023) * 2 ^ 52" using 2 by (intro mult_right_mono) simp_all
    also have "\<dots> \<le> nat_to_f64_bits n" by (simp only: nat_to_f64_bits_eq [OF pos(2) refl] le_add1)
    finally show ?thesis .
  qed
qed

lemma i64_magnitude_bound: "nat_to_f64_bits (nat \<bar>sint (v::i64)\<bar>) \<le> 1087 * 2 ^ 52"
proof -
  have "\<bar>sint v\<bar> \<le> 2 ^ 63" using sint_greater_eq [of v] sint_less [of v] by simp
  then show ?thesis by (intro nat_to_f64_bits_bound) simp
qed

lemma unat_i64_as_f64:
  "unat (i64_as_f64 v) = (if sint v < 0 then 2 ^ 63 else 0) + nat_to_f64_bits (nat \<bar>sint v\<bar>)"
  using i64_magnitude_bound [of v]
  by (simp only: i64_as_f64_def unat_of_nat) (auto intro!: mod_less)

lemma f64_magnitude_i64: "f64_magnitude (i64_as_f64 v) = nat_to_f64_bits (nat \<bar>sint v\<bar>)"
  using i64_magnitude_bound [of v] by (auto simp: unat_i64_as_f64 f64_magnitude_def intro: mod_less)

lemma i64_as_f64_not_nan: "\<not> f64_is_nan (i64_as_f64 v)"
  using i64_magnitude_bound [of v] by (simp add: f64_is_nan_def f64_magnitude_i64 f64_infinity_bits_def)

lemma f64_key_i64:
  "f64_key (i64_as_f64 v) = (if sint v < 0 then - 1 else 1) * int (nat_to_f64_bits (nat \<bar>sint v\<bar>))"
  using i64_magnitude_bound [of v]
  by (auto simp: f64_key_def f64_magnitude_i64 f64_negative_def unat_i64_as_f64)

lemma i64_as_f64_mono: "sint a \<le> sint b \<Longrightarrow> f64_key (i64_as_f64 a) \<le> f64_key (i64_as_f64 b)"
  by (auto simp: f64_key_i64 intro: nat_to_f64_bits_mono)

lemma i64_as_f64_strict: "f64_key (i64_as_f64 a) < f64_key (i64_as_f64 b) \<Longrightarrow> sint a < sint b"
  using i64_as_f64_mono [of b a] by linarith

end
