(* ===== verification/ValueTypes.thy ===== *)
theory ValueTypes
  imports Varint Float64
begin

text \<open>
  Dynamically typed values and rows, \<^verbatim>\<open>src/src/types.rs\<close>: type names, the tagged binary
  format of a value, the row format (column count, then the values), equality, ordering and
  truth of values. A Rust string is its UTF-8 bytes; the conversion from bytes checks them
  with \<open>utf8_valid\<close>, the well-formed byte sequences of the Unicode standard that
  \<^verbatim>\<open>std::str::from_utf8\<close> accepts.
\<close>

section \<open>Strings\<close>

definition utf8_cont :: "u8 \<Rightarrow> bool" where
  "utf8_cont b \<longleftrightarrow> 0x80 \<le> b \<and> b \<le> 0xBF"

definition utf8_second :: "u8 \<Rightarrow> u8 \<Rightarrow> bool" where
  "utf8_second a b \<longleftrightarrow>
     (if a = 0xE0 then 0xA0 \<le> b \<and> b \<le> 0xBF
      else if a = 0xED then 0x80 \<le> b \<and> b \<le> 0x9F
      else if a = 0xF0 then 0x90 \<le> b \<and> b \<le> 0xBF
      else if a = 0xF4 then 0x80 \<le> b \<and> b \<le> 0x8F
      else utf8_cont b)"

fun utf8_valid :: "bytes \<Rightarrow> bool" where
  "utf8_valid [] = True"
| "utf8_valid (a # bs) =
     (if a < 0x80 then utf8_valid bs
      else if 0xC2 \<le> a \<and> a \<le> 0xDF then
        (case bs of b # r \<Rightarrow> utf8_cont b \<and> utf8_valid r | _ \<Rightarrow> False)
      else if 0xE0 \<le> a \<and> a \<le> 0xEF then
        (case bs of b # c # r \<Rightarrow> utf8_second a b \<and> utf8_cont c \<and> utf8_valid r | _ \<Rightarrow> False)
      else if 0xF0 \<le> a \<and> a \<le> 0xF4 then
        (case bs of b # c # d # r \<Rightarrow> utf8_second a b \<and> utf8_cont c \<and> utf8_cont d \<and> utf8_valid r
         | _ \<Rightarrow> False)
      else False)"

definition ascii_upper :: "char \<Rightarrow> char" where
  "ascii_upper c = (let n = (of_char c :: nat) in if 97 \<le> n \<and> n \<le> 122 then char_of (n - 32) else c)"

definition to_ascii_uppercase :: "string \<Rightarrow> string" where
  "to_ascii_uppercase s = map ascii_upper s"

definition eq_ignore_ascii_case :: "string \<Rightarrow> string \<Rightarrow> bool" where
  "eq_ignore_ascii_case s t \<longleftrightarrow> to_ascii_uppercase s = to_ascii_uppercase t"

definition starts_with :: "string \<Rightarrow> string \<Rightarrow> bool" where
  "starts_with s p \<longleftrightarrow> take (length p) s = p"

section \<open>Types and values\<close>

datatype data_type = DtNull | DtInteger | DtReal | DtText | DtBlob | DtTimestamp

definition data_type_display :: "data_type \<Rightarrow> string" where
  "data_type_display d =
     (case d of DtNull \<Rightarrow> ''NULL'' | DtInteger \<Rightarrow> ''INTEGER'' | DtReal \<Rightarrow> ''REAL'' | DtText \<Rightarrow> ''TEXT''
      | DtBlob \<Rightarrow> ''BLOB'' | DtTimestamp \<Rightarrow> ''TIMESTAMP'')"

definition data_type_from_str :: "string \<Rightarrow> data_type" where
  "data_type_from_str s =
     (if eq_ignore_ascii_case s ''INTEGER'' \<or> eq_ignore_ascii_case s ''INT''
         \<or> eq_ignore_ascii_case s ''BIGINT'' \<or> eq_ignore_ascii_case s ''SMALLINT''
         \<or> eq_ignore_ascii_case s ''TINYINT'' then DtInteger
      else if eq_ignore_ascii_case s ''REAL'' \<or> eq_ignore_ascii_case s ''FLOAT''
         \<or> eq_ignore_ascii_case s ''DOUBLE'' \<or> eq_ignore_ascii_case s ''DOUBLE PRECISION''
         \<or> eq_ignore_ascii_case s ''DECIMAL'' \<or> eq_ignore_ascii_case s ''NUMERIC''
         \<or> starts_with (to_ascii_uppercase s) ''DECIMAL(''
         \<or> starts_with (to_ascii_uppercase s) ''NUMERIC('' then DtReal
      else if eq_ignore_ascii_case s ''BLOB'' \<or> eq_ignore_ascii_case s ''BINARY''
         \<or> eq_ignore_ascii_case s ''VARBINARY'' then DtBlob
      else if eq_ignore_ascii_case s ''TIMESTAMP'' \<or> eq_ignore_ascii_case s ''DATETIME''
         \<or> eq_ignore_ascii_case s ''DATE'' \<or> eq_ignore_ascii_case s ''TIME'' then DtTimestamp
      else DtText)"

datatype "value" =
    Null
  | Integer i64
  | Real f64
  | Text bytes
  | Blob bytes

type_synonym row = "value list"

definition data_type_of :: "value \<Rightarrow> data_type" where
  "data_type_of v =
     (case v of Null \<Rightarrow> DtNull | Integer _ \<Rightarrow> DtInteger | Real _ \<Rightarrow> DtReal | Text _ \<Rightarrow> DtText
      | Blob _ \<Rightarrow> DtBlob)"

section \<open>The binary format of a value\<close>

fun serialized_size :: "value \<Rightarrow> nat" where
  "serialized_size Null = 1"
| "serialized_size (Integer _) = 10"
| "serialized_size (Real _) = 9"
| "serialized_size (Text v) = 1 + 9 + length v"
| "serialized_size (Blob v) = 1 + 9 + length v"

fun serialize_into :: "value \<Rightarrow> bytes \<Rightarrow> bytes" where
  "serialize_into Null buf = buf @ [0x00]"
| "serialize_into (Integer v) buf = write_varint_u64 (zigzag_encode v) (buf @ [0x01])"
| "serialize_into (Real v) buf = (buf @ [0x02]) @ le_bytes 8 v"
| "serialize_into (Text v) buf = write_varint_u64 (word_of_nat (length v)) (buf @ [0x03]) @ v"
| "serialize_into (Blob v) buf = write_varint_u64 (word_of_nat (length v)) (buf @ [0x04]) @ v"

definition serialize :: "value \<Rightarrow> bytes" where
  "serialize v = serialize_into v []"

definition MAX_VALUE_LEN :: nat where
  "MAX_VALUE_LEN = 256 * 1024 * 1024"

definition deserialize :: "bytes \<Rightarrow> (value \<times> nat) res" where
  "deserialize data =
     (if data = [] then Err (CorruptDatabase ''empty value data'')
      else let tag = data ! 0 in
        if tag = 0x00 then Ok (Null, 1)
        else if tag = 0x01 then
          res_bind (slice_from data 1) (\<lambda>d.
          res_bind (read_varint_u64 d) (\<lambda>(v_u64, consumed).
            Ok (Integer (zigzag_decode v_u64), 1 + consumed)))
        else if tag = 0x02 then
          (if length data < 9 then Err (CorruptDatabase ''truncated real'')
           else res_bind (slice_range data 1 9) (\<lambda>b. Ok (Real (from_le b), 9)))
        else if tag = 0x03 then
          res_bind (slice_from data 1) (\<lambda>d.
          res_bind (read_varint_u64 d) (\<lambda>(len_u64, consumed).
            if MAX_VALUE_LEN < unat len_u64 then
              Err (CorruptDatabase
                (''text value length '' @ show_nat (unat len_u64) @ '' exceeds maximum''))
            else let start = 1 + consumed; stop = start + unat len_u64 in
              if length data < stop then Err (CorruptDatabase ''truncated text data'')
              else res_bind (slice_range data start stop) (\<lambda>s.
                if utf8_valid s then Ok (Text s, stop)
                else Err (CorruptDatabase ''invalid utf-8 in text value''))))
        else if tag = 0x04 then
          res_bind (slice_from data 1) (\<lambda>d.
          res_bind (read_varint_u64 d) (\<lambda>(len_u64, consumed).
            if MAX_VALUE_LEN < unat len_u64 then
              Err (CorruptDatabase
                (''blob value length '' @ show_nat (unat len_u64) @ '' exceeds maximum''))
            else let start = 1 + consumed; stop = start + unat len_u64 in
              if length data < stop then Err (CorruptDatabase ''truncated blob data'')
              else res_bind (slice_range data start stop) (\<lambda>v. Ok (Blob v, stop))))
        else Err (CorruptDatabase (''unknown value tag: 0x'' @ show_hex2 tag)))"

section \<open>The row format\<close>

definition serialize_row_into :: "row \<Rightarrow> bytes \<Rightarrow> bytes" where
  "serialize_row_into row buf =
     fold serialize_into row (write_varint_u64 (word_of_nat (length row)) [])"

definition serialize_row :: "row \<Rightarrow> bytes" where
  "serialize_row row = fold serialize_into row (write_varint_u64 (word_of_nat (length row)) [])"

definition MAX_COLUMNS :: nat where
  "MAX_COLUMNS = 4096"

definition deserialize_row :: "bytes \<Rightarrow> row res" where
  "deserialize_row data =
     (if data = [] then Err (CorruptDatabase ''row data too short'')
      else res_bind (read_varint_u64 data) (\<lambda>(col_count_u64, offset).
        if MAX_COLUMNS < unat col_count_u64 then
          Err (CorruptDatabase (''row column count '' @ show_nat (unat col_count_u64)
            @ '' exceeds maximum '' @ show_nat MAX_COLUMNS))
        else decode_many deserialize (unat col_count_u64) data offset))"

section \<open>Truth, conversion, equality and ordering\<close>

fun is_truthy :: "value \<Rightarrow> bool" where
  "is_truthy Null = False"
| "is_truthy (Integer v) = (v \<noteq> 0)"
| "is_truthy (Real v) = (\<not> f64_eq v 0)"
| "is_truthy (Text v) = (v \<noteq> [])"
| "is_truthy (Blob v) = (v \<noteq> [])"

text \<open>\<open>str::parse::<i64>\<close>: an optional sign and at least one decimal digit, within range.\<close>

fun parse_digits :: "bytes \<Rightarrow> nat \<Rightarrow> nat option" where
  "parse_digits [] acc = Some acc"
| "parse_digits (b # bs) acc =
     (if 48 \<le> b \<and> b \<le> 57 then parse_digits bs (10 * acc + (unat b - 48)) else None)"

definition parse_i64 :: "bytes \<Rightarrow> i64 option" where
  "parse_i64 s =
     (let neg = (s \<noteq> [] \<and> hd s = 45);
          ds = (if s \<noteq> [] \<and> (hd s = 45 \<or> hd s = 43) then tl s else s)
      in if ds = [] then None
         else case parse_digits ds 0 of None \<Rightarrow> None
           | Some n \<Rightarrow>
               let i = (if neg then - int n else int n)
               in if - (2 ^ 63) \<le> i \<and> i < 2 ^ 63 then Some (word_of_int i) else None)"

fun to_i64 :: "value \<Rightarrow> i64 option" where
  "to_i64 (Integer v) = Some v"
| "to_i64 (Real v) = Some (f64_as_i64 v)"
| "to_i64 (Text v) = parse_i64 v"
| "to_i64 _ = None"

definition i64_cmp :: "i64 \<Rightarrow> i64 \<Rightarrow> ordering" where
  "i64_cmp a b = int_cmp (sint a) (sint b)"

text \<open>Byte strings (and so \<open>str\<close>) are ordered lexicographically by byte.\<close>

fun bytes_cmp :: "bytes \<Rightarrow> bytes \<Rightarrow> ordering" where
  "bytes_cmp [] [] = Equal"
| "bytes_cmp [] (_ # _) = Less"
| "bytes_cmp (_ # _) [] = Greater"
| "bytes_cmp (a # as) (b # bs) = (if a < b then Less else if a = b then bytes_cmp as bs else Greater)"

fun value_eq :: "value \<Rightarrow> value \<Rightarrow> bool" where
  "value_eq Null Null = True"
| "value_eq (Integer a) (Integer b) = (a = b)"
| "value_eq (Real a) (Real b) = f64_eq a b"
| "value_eq (Integer a) (Real b) = f64_eq (i64_as_f64 a) b"
| "value_eq (Real a) (Integer b) = f64_eq a (i64_as_f64 b)"
| "value_eq (Text a) (Text b) = (a = b)"
| "value_eq (Blob a) (Blob b) = (a = b)"
| "value_eq _ _ = False"

fun value_partial_cmp :: "value \<Rightarrow> value \<Rightarrow> ordering option" where
  "value_partial_cmp Null Null = Some Equal"
| "value_partial_cmp Null _ = Some Less"
| "value_partial_cmp _ Null = Some Greater"
| "value_partial_cmp (Integer a) (Integer b) = Some (i64_cmp a b)"
| "value_partial_cmp (Real a) (Real b) = f64_partial_cmp a b"
| "value_partial_cmp (Integer a) (Real b) = f64_partial_cmp (i64_as_f64 a) b"
| "value_partial_cmp (Real a) (Integer b) = f64_partial_cmp a (i64_as_f64 b)"
| "value_partial_cmp (Text a) (Text b) = Some (bytes_cmp a b)"
| "value_partial_cmp (Blob a) (Blob b) = Some (bytes_cmp a b)"
| "value_partial_cmp (Integer _) (Text _) = Some Less"
| "value_partial_cmp (Integer _) (Blob _) = Some Less"
| "value_partial_cmp (Real _) (Text _) = Some Less"
| "value_partial_cmp (Real _) (Blob _) = Some Less"
| "value_partial_cmp (Text _) (Integer _) = Some Greater"
| "value_partial_cmp (Text _) (Real _) = Some Greater"
| "value_partial_cmp (Blob _) (Integer _) = Some Greater"
| "value_partial_cmp (Blob _) (Real _) = Some Greater"
| "value_partial_cmp (Text _) (Blob _) = Some Less"
| "value_partial_cmp (Blob _) (Text _) = Some Greater"

section \<open>Well-formed values\<close>

text \<open>
  What a Rust value of this type guarantees (text is UTF-8) and what the format can carry
  (text and blobs up to 256 MiB).
\<close>

fun wf_value :: "value \<Rightarrow> bool" where
  "wf_value (Text v) = (utf8_valid v \<and> length v \<le> MAX_VALUE_LEN)"
| "wf_value (Blob v) = (length v \<le> MAX_VALUE_LEN)"
| "wf_value _ = True"

definition wf_row :: "row \<Rightarrow> bool" where
  "wf_row row \<longleftrightarrow> length row \<le> MAX_COLUMNS \<and> list_all wf_value row"

section \<open>Values: decoding what was encoded\<close>

lemma serialize_into_append: "serialize_into v buf = buf @ serialize v"
  by (cases v) (simp_all add: serialize_def write_varint_u64_append [of _ "_ @ _"]
      write_varint_u64_append [of _ "[_]"])

lemma serialize_simps:
  "serialize Null = [0x00]"
  "serialize (Integer i) = 0x01 # varint (zigzag_encode i)"
  "serialize (Real r) = 0x02 # le_bytes 8 r"
  "serialize (Text t) = 0x03 # varint (word_of_nat (length t)) @ t"
  "serialize (Blob t) = 0x04 # varint (word_of_nat (length t)) @ t"
  by (simp_all add: serialize_def write_varint_u64_append [of _ "[_]"])

lemma unat_word_of_nat_len: "n \<le> MAX_VALUE_LEN \<Longrightarrow> unat (word_of_nat n :: u64) = n"
  by (simp add: unat_of_nat MAX_VALUE_LEN_def)

lemma slice_range_after_varint:
  "slice_range (a # varint w @ t @ rest) (Suc (length (varint w))) (Suc (length (varint w)) + length t) = Ok t"
  using slice_range_append_mid [of "a # varint w" t rest] by simp

lemma deserialize_serialize:
  assumes "wf_value v"
  shows "deserialize (serialize v @ rest) = Ok (v, length (serialize v))"
proof (cases v)
  case Null
  then show ?thesis by (simp add: deserialize_def serialize_simps)
next
  case (Integer i)
  then show ?thesis
    by (simp add: deserialize_def serialize_simps read_write_varint zigzag_round_trip)
next
  case (Real r)
  have "from_le (le_bytes 8 r) = r" by (rule from_le_le_bytes) simp
  with Real show ?thesis by (simp add: deserialize_def serialize_simps)
next
  case (Text t)
  with assms have t: "utf8_valid t" "length t \<le> MAX_VALUE_LEN" by simp_all
  then show ?thesis using Text
    by (simp add: deserialize_def serialize_simps read_write_varint unat_word_of_nat_len
        slice_range_after_varint [simplified])
next
  case (Blob t)
  with assms have "length t \<le> MAX_VALUE_LEN" by simp
  then show ?thesis using Blob
    by (simp add: deserialize_def serialize_simps read_write_varint unat_word_of_nat_len
        slice_range_after_varint [simplified])
qed

interpretation value_codec: codec serialize deserialize wf_value
  by unfold_locales (rule deserialize_serialize)

lemma deserialize_no_panic: "deserialize data \<noteq> Panic"
proof (cases data)
  case Nil
  then show ?thesis by (simp add: deserialize_def)
next
  case (Cons tag d)
  then show ?thesis
    using read_varint_no_panic [of d] read_varint_consumed [of d]
    by (auto simp: deserialize_def Let_def res_bind_Panic_iff slice_range_Panic_iff split: if_splits)
qed

lemma deserialize_consumed: "deserialize data = Ok (v, n) \<Longrightarrow> 0 < n \<and> n \<le> length data"
proof (cases data)
  case Nil
  then show "deserialize data = Ok (v, n) \<Longrightarrow> ?thesis" by (simp add: deserialize_def)
next
  case (Cons tag d)
  assume "deserialize data = Ok (v, n)"
  with Cons show ?thesis
    using read_varint_consumed [of d]
    by (auto simp: deserialize_def Let_def res_bind_Ok_iff split: if_splits)
qed

text \<open>What the decoder accepts is a well-formed value.\<close>

lemma deserialize_wf: "deserialize data = Ok (v, n) \<Longrightarrow> wf_value v"
  by (cases data)
    (auto simp: deserialize_def Let_def res_bind_Ok_iff dest!: slice_range_length split: if_splits)

interpretation value_dec: safe_decoder deserialize
  by unfold_locales (auto simp: deserialize_no_panic dest: deserialize_consumed)

section \<open>Rows\<close>

lemma fold_serialize_into: "fold serialize_into row buf = buf @ concat (map serialize row)"
  by (induction row arbitrary: buf) (simp_all add: serialize_into_append)

lemma serialize_row_eq: "serialize_row row = varint (word_of_nat (length row)) @ concat (map serialize row)"
  by (simp add: serialize_row_def fold_serialize_into)

lemma serialize_row_into_eq: "serialize_row_into row buf = serialize_row row"
  by (simp add: serialize_row_into_def serialize_row_def)

lemma deserialize_row_serialize:
  assumes "wf_row row"
  shows "deserialize_row (serialize_row row @ rest) = Ok row"
proof -
  let ?n = "word_of_nat (length row) :: u64"
  from assms have n: "unat ?n = length row" "length row \<le> MAX_COLUMNS"
    by (simp_all add: wf_row_def unat_of_nat MAX_COLUMNS_def)
  have "decode_many deserialize (length row) (varint ?n @ concat (map serialize row) @ rest)
      (length (varint ?n)) = Ok row"
    using assms by (intro value_codec.decode_many_enc) (simp add: wf_row_def list_all_iff)
  with n show ?thesis
    by (simp add: deserialize_row_def serialize_row_eq read_write_varint varint_nonempty)
qed

text \<open>C38: a row of up to 4096 well-formed values, written by \<open>serialize_row\<close>, is read back
  by \<open>deserialize_row\<close> unchanged, even when other bytes follow it.\<close>

theorem row_round_trip: "wf_row row \<Longrightarrow> deserialize_row (serialize_row row @ rest) = Ok row"
  by (rule deserialize_row_serialize)

lemma row_round_trip_witness:
  "deserialize_row (serialize_row [Integer (- 5), Text [104, 105], Null, Blob [0, 255]] @ [1, 2])
     = Ok [Integer (- 5), Text [104, 105], Null, Blob [0, 255]]"
  by (rule row_round_trip)
    (simp add: wf_row_def MAX_COLUMNS_def MAX_VALUE_LEN_def)

text \<open>whatever bytes are stored, decoding a row returns a row or an error; it never indexes
  out of bounds.\<close>

lemma deserialize_row_no_panic: "deserialize_row data \<noteq> Panic"
proof -
  have "decode_many deserialize n data k \<noteq> Panic" if "read_varint_u64 data = Ok (w, k)" for n w k
    using read_varint_consumed [OF that] by (intro value_dec.decode_many_no_panic) simp
  then show ?thesis
    using read_varint_no_panic [of data]
    by (auto simp: deserialize_row_def res_bind_Panic_iff)
qed

lemma decode_many_wf: "decode_many deserialize n data k = Ok row \<Longrightarrow> length row = n \<and> list_all wf_value row"
  by (induction n arbitrary: k row) (auto simp: res_bind_Ok_iff dest: deserialize_wf)

lemma deserialize_row_wf: "deserialize_row data = Ok row \<Longrightarrow> wf_row row"
  by (auto simp: deserialize_row_def res_bind_Ok_iff wf_row_def dest!: decode_many_wf split: if_splits)

text \<open>C39: Whatever bytes a row is decoded from, the result is a well-formed row: the texts in it are valid UTF-8, the lengths fit
  their fields, and encoding it again gives bytes that are decoded to the same row.\<close>

theorem decoded_row_well_formed:
  assumes "deserialize_row data = Ok row"
  shows "wf_row row \<and> deserialize_row (serialize_row row) = Ok row"
  using deserialize_row_wf [OF assms] deserialize_row_serialize [of row "[]"] by simp

theorem decoded_row_well_formed_witness:
  "deserialize_row [2, 1, 10, 0] = Ok [Integer 5, Null] \<and> wf_row [Integer 5, Null] \<and> deserialize_row (serialize_row [Integer 5, Null]) = Ok [Integer 5, Null]"
proof -
  have "deserialize_row [2, 1, 10, 0] = Ok [Integer 5, Null]" by code_simp
  then show ?thesis using decoded_row_well_formed by blast
qed

section \<open>Ordering\<close>

lemma bytes_cmp_reverse: "bytes_cmp b a = ordering_reverse (bytes_cmp a b)"
  by (induction a b rule: bytes_cmp.induct) (auto simp: order_less_le)

lemma bytes_cmp_Equal [simp]: "bytes_cmp a b = Equal \<longleftrightarrow> a = b"
  by (induction a b rule: bytes_cmp.induct) auto

lemma i64_cmp_Equal [simp]: "i64_cmp a b = Equal \<longleftrightarrow> a = b"
  by (auto simp: i64_cmp_def intro: signed_word_eqI)

lemma i64_cmp_reverse: "i64_cmp b a = ordering_reverse (i64_cmp a b)"
  by (simp add: i64_cmp_def int_cmp_reverse [of "sint b"])

text \<open>The definitions that evaluate a comparison of concrete numbers.\<close>

lemmas f64_cmp_eval = f64_eq_def f64_is_nan_def f64_key_def f64_magnitude_def f64_negative_def
  f64_partial_cmp_def int_cmp_def i64_as_f64_def nat_to_f64_bits_def f64_infinity_bits_def
  bit_len.simps Let_def

fun is_nan_value :: "value \<Rightarrow> bool" where
  "is_nan_value (Real r) = f64_is_nan r"
| "is_nan_value _ = False"

fun is_numeric :: "value \<Rightarrow> bool" where
  "is_numeric (Integer _) = True"
| "is_numeric (Real _) = True"
| "is_numeric _ = False"

text \<open>the order of values is coherent: swapping the operands reverses the result, equality is
  exactly the result \<open>Equal\<close>, and two values are incomparable only when both are numbers and
  one of them is a NaN.\<close>

lemma value_order_coherent:
  "value_partial_cmp b a = map_option ordering_reverse (value_partial_cmp a b) \<and>
   (value_partial_cmp a b = Some Equal \<longleftrightarrow> value_eq a b) \<and>
   (value_partial_cmp a b = None \<longleftrightarrow>
      is_numeric a \<and> is_numeric b \<and> (is_nan_value a \<or> is_nan_value b))"
  by (cases a; cases b)
    (simp_all add: f64_partial_cmp_None f64_partial_cmp_Equal i64_as_f64_not_nan
      i64_cmp_reverse [symmetric] bytes_cmp_reverse [symmetric] f64_partial_cmp_reverse [symmetric])

lemma bytes_cmp_trans: "bytes_cmp a b = Less \<Longrightarrow> bytes_cmp b c = Less \<Longrightarrow> bytes_cmp a c = Less"
proof (induction a b arbitrary: c rule: bytes_cmp.induct)
  case (2 x xs)
  then show ?case by (cases c) auto
next
  case (4 a as b bs)
  then show ?case by (cases c) (auto split: if_splits)
qed simp_all

lemma f64_cmp_Less: "f64_partial_cmp a b = Some Less \<longleftrightarrow>
    \<not> f64_is_nan a \<and> \<not> f64_is_nan b \<and> f64_key a < f64_key b"
  by (simp add: f64_partial_cmp_def)

lemma i64_cmp_Less: "i64_cmp a b = Less \<longleftrightarrow> sint a < sint b"
  by (simp add: i64_cmp_def)

text \<open>the strict order that sorting and range scans use is transitive, also across integers
  and reals, where an integer is first rounded to the nearest double.\<close>

lemma value_less_trans:
  assumes "value_partial_cmp a b = Some Less" and "value_partial_cmp b c = Some Less"
  shows "value_partial_cmp a c = Some Less"
proof -
  have mono: "f64_key (i64_as_f64 x) \<le> f64_key (i64_as_f64 y)" if "sint x < sint y" for x y
    using that by (intro i64_as_f64_mono) simp
  show ?thesis using assms
    by (cases a; cases b; cases c)
      (auto simp: f64_cmp_Less i64_cmp_Less i64_as_f64_not_nan
        dest: bytes_cmp_trans mono intro: i64_as_f64_strict)
qed

lemma value_less_trans_witness:
  "value_partial_cmp (Integer 1) (Integer 3) = Some Less"
proof (rule value_less_trans)
  show "value_partial_cmp (Integer 1) (Real 0x4000000000000000) = Some Less"
    by (simp add: f64_cmp_eval)
  show "value_partial_cmp (Real 0x4000000000000000) (Integer 3) = Some Less"
    by (simp add: f64_cmp_eval)
qed

text \<open>equality of values is not transitive. The integers \<open>2 ^ 53\<close> and \<open>2 ^ 53 + 1\<close> are
  distinct, yet both equal the real \<open>2 ^ 53\<close>, because the comparison first rounds the integer
  to a double.\<close>

lemma value_eq_not_transitive:
  "\<exists>a b c. value_eq a b \<and> value_eq b c \<and> \<not> value_eq a c"
proof -
  let ?r = "Real 0x4340000000000000"
  have "value_eq (Integer 9007199254740993) ?r" by (simp add: f64_cmp_eval)
  moreover have "value_eq ?r (Integer 9007199254740992)" by (simp add: f64_cmp_eval)
  moreover have "\<not> value_eq (Integer 9007199254740993) (Integer 9007199254740992)" by simp
  ultimately show ?thesis by blast
qed

section \<open>Sizes\<close>

lemma serialize_length_le: "length (serialize v) \<le> serialized_size v + 1"
  using varint_length_le by (cases v) (simp_all add: serialize_simps)


end
