(* ===== verification/PrefixCompress.thy ===== *)
theory PrefixCompress
  imports ValueTypes
begin

text \<open>
  Prefix compression of index keys: \<^verbatim>\<open>src/src/storage/prefix_compress.rs\<close> (a key is stored as
  the length of the prefix it shares with the previous key and the rest) and the index row format
  of \<^verbatim>\<open>src/src/types.rs\<close> built on it, with the page encoder and decoder that carry the
  previous key from row to row.
\<close>

section \<open>Keys\<close>

definition shared_prefix :: "bytes \<Rightarrow> bytes \<Rightarrow> nat" where
  "shared_prefix prev cur = min (length (takeWhile (\<lambda>(a, b). a = b) (zip prev cur))) 255"

definition prefix_encode :: "bytes \<Rightarrow> bytes \<Rightarrow> bytes" where
  "prefix_encode prev cur =
     (let shared = shared_prefix prev cur; suffix = drop shared cur in
      if 65535 < length suffix then
        (0 :: u8) # le_bytes 2 (65535 :: u16) @ take 65535 cur
      else
        (word_of_nat shared :: u8) # le_bytes 2 (word_of_nat (length suffix) :: u16) @ suffix)"

definition prefix_decode :: "bytes \<Rightarrow> bytes \<Rightarrow> bytes" where
  "prefix_decode prev encoded =
     (if length encoded < 3 then encoded
      else let shared = unat (encoded ! 0);
               suffix_len = unat (from_le (take 2 (drop 1 encoded)) :: u16);
               suffix = (if 3 + suffix_len \<le> length encoded then take suffix_len (drop 3 encoded)
                         else drop 3 encoded);
               safe_shared = min shared (length prev)
           in take safe_shared prev @ suffix)"

fun estimate_loop :: "bytes \<Rightarrow> bytes list \<Rightarrow> nat" where
  "estimate_loop prev [] = 0"
| "estimate_loop prev (key # keys) =
     1 + 2 + min (length key - shared_prefix prev key) 65535 + estimate_loop key keys"

definition estimate_compressed_size :: "bytes list \<Rightarrow> nat" where
  "estimate_compressed_size keys = estimate_loop [] keys"

section \<open>Index rows\<close>

fun index_row_values :: "bytes \<Rightarrow> bool \<Rightarrow> row \<Rightarrow> bytes \<Rightarrow> bytes \<Rightarrow> bytes \<times> bytes" where
  "index_row_values prev_key is_first [] buf new_prev = (buf, new_prev)"
| "index_row_values prev_key is_first (val # vals) buf new_prev =
     (case (is_first, val) of
        (True, Text raw) \<Rightarrow>
          (let encoded = prefix_encode prev_key raw;
               buf' = write_varint_u64 (word_of_nat (length encoded)) (buf @ [0x03]) @ encoded
           in index_row_values prev_key False vals buf' raw)
      | _ \<Rightarrow> index_row_values prev_key False vals (serialize_into val buf) new_prev)"

definition serialize_index_row_compressed :: "row \<Rightarrow> bytes \<Rightarrow> bytes \<times> bytes" where
  "serialize_index_row_compressed row prev_key =
     index_row_values prev_key True row (write_varint_u64 (word_of_nat (length row)) []) prev_key"

fun index_row_decode :: "bytes \<Rightarrow> bytes \<Rightarrow> nat \<Rightarrow> bool \<Rightarrow> nat \<Rightarrow> bytes \<Rightarrow> (row \<times> bytes) res" where
  "index_row_decode data prev_key 0 is_first offset new_prev = Ok ([], new_prev)"
| "index_row_decode data prev_key (Suc n) is_first offset new_prev =
     (if is_first \<and> offset < length data \<and> data ! offset = 0x03 then
        res_bind (slice_from data (offset + 1)) (\<lambda>d.
        res_bind (read_varint_u64 d) (\<lambda>(enc_len, consumed).
        res_bind (usize_add (offset + 1 + consumed) (unat enc_len)) (\<lambda>enc_end.
          if length data < enc_end then
            Err (CorruptDatabase (''prefix-compressed index payload truncated: enc_end='' @ show_nat enc_end
              @ '' > data_len='' @ show_nat (length data)))
          else
            res_bind (slice_range data (offset + 1 + consumed) enc_end) (\<lambda>encoded.
              let decoded_bytes = prefix_decode prev_key encoded in
              if utf8_valid decoded_bytes then
                res_bind (index_row_decode data prev_key n False enc_end decoded_bytes) (\<lambda>(vals, np).
                  Ok (Text decoded_bytes # vals, np))
              else Err (CorruptDatabase ''invalid utf-8 in index key'')))))
      else
        res_bind (slice_from data offset) (\<lambda>d.
        res_bind (deserialize d) (\<lambda>(val, consumed).
        res_bind (index_row_decode data prev_key n False (offset + consumed) new_prev) (\<lambda>(vals, np).
          Ok (val # vals, np)))))"

definition deserialize_index_row_with_prefix :: "bytes \<Rightarrow> bytes \<Rightarrow> (row \<times> bytes) res" where
  "deserialize_index_row_with_prefix data prev_key =
     (if data = [] then Err (CorruptDatabase ''row data too short'')
      else res_bind (read_varint_u64 data) (\<lambda>(col_count_u64, offset).
        if MAX_COLUMNS < unat col_count_u64 then
          Err (CorruptDatabase (''index row col_count '' @ show_nat (unat col_count_u64)
            @ '' exceeds MAX_COLUMNS '' @ show_nat MAX_COLUMNS))
        else index_row_decode data prev_key (unat col_count_u64) True offset prev_key))"

section \<open>Page encoder and decoder\<close>

record prefix_page =
  prev_key :: bytes

definition prefix_page_new :: prefix_page where
  "prefix_page_new = \<lparr>prev_key = []\<rparr>"

definition page_encode :: "prefix_page \<Rightarrow> row \<Rightarrow> bytes \<times> prefix_page" where
  "page_encode e row =
     (let (data, new_prev) = serialize_index_row_compressed row (prev_key e)
      in (data, e\<lparr>prev_key := new_prev\<rparr>))"

definition page_decode :: "prefix_page \<Rightarrow> bytes \<Rightarrow> (row \<times> prefix_page) res" where
  "page_decode d data =
     res_bind (deserialize_index_row_with_prefix data (prev_key d)) (\<lambda>(row, new_prev).
       Ok (row, d\<lparr>prev_key := new_prev\<rparr>))"

definition page_reset :: "prefix_page \<Rightarrow> prefix_page" where
  "page_reset p = p\<lparr>prev_key := []\<rparr>"

text \<open>A page is written row by row and scanned row by row.\<close>

fun encode_page :: "prefix_page \<Rightarrow> row list \<Rightarrow> bytes list" where
  "encode_page e [] = []"
| "encode_page e (row # rows) = (let (data, e') = page_encode e row in data # encode_page e' rows)"

fun decode_page :: "prefix_page \<Rightarrow> bytes list \<Rightarrow> row list res" where
  "decode_page d [] = Ok []"
| "decode_page d (data # rest) =
     res_bind (page_decode d data) (\<lambda>(row, d'). res_bind (decode_page d' rest) (\<lambda>rows. Ok (row # rows)))"

section \<open>Keys: decoding what was encoded\<close>

lemma takeWhile_zip_eq_take:
  "take (length (takeWhile (\<lambda>(a, b). a = b) (zip xs ys))) xs
     = take (length (takeWhile (\<lambda>(a, b). a = b) (zip xs ys))) ys"
  by (induction xs ys rule: list_induct2') auto

lemma shared_prefix_take: "take (shared_prefix prev cur) prev = take (shared_prefix prev cur) cur"
proof -
  let ?k = "length (takeWhile (\<lambda>(a, b). a = b) (zip prev cur))"
  have "take 255 (take ?k prev) = take 255 (take ?k cur)" by (simp only: takeWhile_zip_eq_take)
  then show ?thesis by (simp add: shared_prefix_def min.commute)
qed

lemma shared_prefix_le:
  "shared_prefix prev cur \<le> length prev" "shared_prefix prev cur \<le> length cur" "shared_prefix prev cur \<le> 255"
  using length_takeWhile_le [of "\<lambda>(a, b). a = b" "zip prev cur"]
  by (auto simp: shared_prefix_def)

lemma take_drop_le_bytes:
  "take 2 (le_bytes 2 (w::u16) @ xs) = le_bytes 2 w" "drop 2 (le_bytes 2 (w::u16) @ xs) = xs"
  by simp_all

lemma prefix_decode_frame:
  assumes "s \<le> 255" and "length suffix \<le> 65535"
  shows "prefix_decode prev ((word_of_nat s :: u8) # le_bytes 2 (word_of_nat (length suffix) :: u16) @ suffix)
     = take s prev @ suffix"
proof -
  have s: "unat (word_of_nat s :: u8) = s" using assms by (simp add: unat_of_nat)
  have n: "unat (word_of_nat (length suffix) :: u16) = length suffix" using assms by (simp add: unat_of_nat)
  have le: "from_le (le_bytes 2 (word_of_nat (length suffix) :: u16)) = (word_of_nat (length suffix) :: u16)"
    by (rule from_le_le_bytes) simp
  have d: "drop 3 ((word_of_nat s :: u8) # le_bytes 2 (word_of_nat (length suffix) :: u16) @ suffix) = suffix"
    by (simp add: numeral_3_eq_3)
  show ?thesis
    by (simp add: prefix_decode_def Let_def s n le d min_def)
qed

lemma prefix_decode_encode:
  "prefix_decode prev (prefix_encode prev cur) =
     (if length cur - shared_prefix prev cur \<le> 65535 then cur else take 65535 cur)"
proof (cases "length cur - shared_prefix prev cur \<le> 65535")
  case True
  have "take (shared_prefix prev cur) prev @ drop (shared_prefix prev cur) cur = cur"
    by (simp add: shared_prefix_take)
  then show ?thesis
    using True prefix_decode_frame [of "shared_prefix prev cur" "drop (shared_prefix prev cur) cur" prev]
      shared_prefix_le(3) [of prev cur]
    by (simp add: prefix_encode_def Let_def)
next
  case False
  then have len: "length (take 65535 cur) = 65535" by simp
  from False show ?thesis
    using prefix_decode_frame [of 0 "take 65535 cur" prev] unfolding len
    by (simp add: prefix_encode_def Let_def)
qed

text \<open>a key whose unshared part fits the 16-bit length is reconstructed exactly from the
  previous key; a longer one comes back cut to its first 65535 bytes.\<close>

lemma prefix_round_trip:
  "prefix_decode prev (prefix_encode prev cur) =
     (if length cur - shared_prefix prev cur \<le> 65535 then cur else take 65535 cur)"
  by (rule prefix_decode_encode)

lemma length_prefix_encode:
  "length (prefix_encode prev key) = 3 + min (length key - shared_prefix prev key) 65535"
  by (auto simp: prefix_encode_def Let_def min_def)

lemma estimate_loop_exact:
  "estimate_loop prev keys
     = sum_list (map (\<lambda>(p, k). length (prefix_encode p k)) (zip (prev # keys) keys))"
  by (induction keys arbitrary: prev) (simp_all add: length_prefix_encode)

text \<open>The size estimate for a sequence of keys is the exact size of the keys compressed one
  after the other.\<close>

lemma estimate_compressed_size_exact:
  "estimate_compressed_size keys
     = sum_list (map (\<lambda>(p, k). length (prefix_encode p k)) (zip ([] # keys) keys))"
  by (simp add: estimate_compressed_size_def estimate_loop_exact)

section \<open>Index rows: decoding what was encoded\<close>

lemma index_row_values_rest:
  "index_row_values p False vals buf np = (buf @ concat (map serialize vals), np)"
  by (induction vals arbitrary: buf) (simp_all add: serialize_into_append)

lemma index_row_decode_rest:
  "index_row_decode data p n False offset np =
     res_bind (decode_many deserialize n data offset) (\<lambda>vals. Ok (vals, np))"
proof (induction n arbitrary: offset)
  case 0
  then show ?case by simp
next
  case (Suc n)
  show ?case
    by (simp add: Suc res_bind_assoc case_prod_unfold)
qed

text \<open>The keys the format can carry: text keys whose unshared part fits a 16-bit length.\<close>

definition wf_index_row :: "bytes \<Rightarrow> row \<Rightarrow> bool" where
  "wf_index_row prev row \<longleftrightarrow> wf_row row \<and>
     (case row of Text t # _ \<Rightarrow> length t - shared_prefix prev t \<le> 65535 | _ \<Rightarrow> True)"

definition row_key :: "bytes \<Rightarrow> row \<Rightarrow> bytes" where
  "row_key prev row = (case row of Text t # _ \<Rightarrow> t | _ \<Rightarrow> prev)"

lemma serialize_index_row_text:
  "serialize_index_row_compressed (Text t # vals) prev =
     (varint (word_of_nat (Suc (length vals))) @ 0x03 # varint (word_of_nat (length (prefix_encode prev t)))
        @ prefix_encode prev t @ concat (map serialize vals), t)"
  by (simp add: serialize_index_row_compressed_def Let_def index_row_values_rest
      write_varint_u64_append [of _ "_ @ _"])

lemma serialize_index_row_other:
  assumes "\<nexists>t vals. row = Text t # vals"
  shows "serialize_index_row_compressed row prev = (serialize_row row, prev)"
proof (cases row)
  case Nil
  then show ?thesis by (simp add: serialize_index_row_compressed_def serialize_row_def)
next
  case (Cons v vals)
  with assms show ?thesis
    by (cases v)
      (auto simp: serialize_index_row_compressed_def serialize_row_eq index_row_values_rest
        serialize_into_append)
qed

lemma index_row_key: "snd (serialize_index_row_compressed row prev) = row_key prev row"
proof (cases "\<exists>t vals. row = Text t # vals")
  case True
  then show ?thesis by (auto simp: serialize_index_row_text row_key_def)
next
  case False
  then show ?thesis
    by (cases row; cases "hd row") (auto simp: serialize_index_row_other row_key_def)
qed

lemma index_row_decode_text:
  fixes prev t pre rest :: bytes
  defines "enc \<equiv> prefix_encode prev t"
  defines "w \<equiv> word_of_nat (length enc) :: u64"
  assumes key: "length t - shared_prefix prev t \<le> 65535" "utf8_valid t"
    and small: "length pre + length (varint w) + length enc < 2 ^ 64 - 1"
  shows "index_row_decode (pre @ 0x03 # varint w @ enc @ rest) prev (Suc n) True (length pre) prev =
     res_bind (decode_many deserialize n (pre @ 0x03 # varint w @ enc @ rest)
       (length pre + 1 + length (varint w) + length enc)) (\<lambda>vals. Ok (Text t # vals, t))"
proof -
  have "length enc \<le> 65538" by (simp add: enc_def length_prefix_encode)
  then have len: "unat w = length enc" by (simp add: w_def unat_of_nat)
  have "slice_range ((pre @ 0x03 # varint w) @ enc @ rest) (length (pre @ 0x03 # varint w))
      (length (pre @ 0x03 # varint w) + length enc) = Ok enc"
    by (rule slice_range_append_mid)
  moreover have "prefix_decode prev enc = t" using key by (simp add: enc_def prefix_decode_encode)
  ultimately show ?thesis
    using key small
    by (simp add: read_write_varint len usize_add_def nth_append index_row_decode_rest
        add.assoc [symmetric] case_prod_unfold res_bind_assoc)
qed

lemma index_row_decode_plain:
  "n = 0 \<or> data ! offset \<noteq> 0x03 \<Longrightarrow>
     index_row_decode data p n True offset np =
       res_bind (decode_many deserialize n data offset) (\<lambda>vals. Ok (vals, np))"
  by (cases n) (auto simp: index_row_decode_rest res_bind_assoc case_prod_unfold)

lemma serialize_hd_not_text: "\<nexists>t. v = Text t \<Longrightarrow> serialize v ! 0 \<noteq> 0x03"
  by (cases v) (auto simp: serialize_simps)

lemma serialize_nonempty: "serialize v \<noteq> []"
  by (cases v) (auto simp: serialize_simps)

lemma unat_col_count: "length row \<le> MAX_COLUMNS \<Longrightarrow> unat (word_of_nat (length row) :: u64) = length row"
  by (simp add: unat_of_nat MAX_COLUMNS_def)

lemma index_row_round_trip_text:
  assumes wf: "wf_index_row prev (Text t # vals)"
  shows "deserialize_index_row_with_prefix (fst (serialize_index_row_compressed (Text t # vals) prev)) prev
     = Ok (Text t # vals, t)"
proof -
  define w :: u64 where "w = word_of_nat (length (prefix_encode prev t))"
  define k :: u64 where "k = word_of_nat (Suc (length vals))"
  define rest where "rest = concat (map serialize vals)"
  from wf have n: "unat k = Suc (length vals)" "Suc (length vals) \<le> MAX_COLUMNS"
    using unat_col_count [of "Text t # vals"] by (simp_all add: k_def wf_index_row_def wf_row_def)
  have "length (varint k) + length (varint w) + length (prefix_encode prev t) \<le> 65558"
    using varint_length_le [of k] varint_length_le [of w] by (simp add: length_prefix_encode)
  then have small: "length (varint k) + length (varint w) + length (prefix_encode prev t) < 2 ^ 64 - 1" by simp
  have "decode_many deserialize (length vals)
      ((varint k @ 0x03 # varint w @ prefix_encode prev t) @ rest @ [])
      (length (varint k @ 0x03 # varint w @ prefix_encode prev t)) = Ok vals"
    unfolding rest_def using wf
    by (intro value_codec.decode_many_enc) (auto simp: wf_index_row_def wf_row_def list_all_iff)
  then have dec: "decode_many deserialize (length vals)
      (varint k @ 0x03 # varint w @ prefix_encode prev t @ rest)
      (length (varint k) + 1 + length (varint w) + length (prefix_encode prev t)) = Ok vals"
    by (simp add: add.assoc)
  have "index_row_decode (varint k @ 0x03 # varint w @ prefix_encode prev t @ rest) prev
      (Suc (length vals)) True (length (varint k)) prev = Ok (Text t # vals, t)"
    using wf small dec unfolding w_def
    by (subst index_row_decode_text) (simp_all add: wf_index_row_def wf_row_def)
  moreover have "fst (serialize_index_row_compressed (Text t # vals) prev)
      = varint k @ 0x03 # varint w @ prefix_encode prev t @ rest"
    by (simp only: serialize_index_row_text fst_conv k_def w_def rest_def)
  ultimately show ?thesis using n
    by (simp add: deserialize_index_row_with_prefix_def read_write_varint varint_nonempty
        del: index_row_decode.simps)
qed

lemma index_row_round_trip_other:
  assumes wf: "wf_row row" and other: "\<nexists>t vals. row = Text t # vals"
  shows "deserialize_index_row_with_prefix (serialize_row row) prev = Ok (row, prev)"
proof -
  let ?k = "word_of_nat (length row) :: u64"
  from wf have n: "unat ?k = length row" "length row \<le> MAX_COLUMNS"
    using unat_col_count [of row] by (simp_all add: wf_row_def)
  have dec: "decode_many deserialize (length row) (varint ?k @ concat (map serialize row) @ [])
      (length (varint ?k)) = Ok row"
    using wf by (intro value_codec.decode_many_enc) (simp add: wf_row_def list_all_iff)
  have "length row = 0 \<or> (varint ?k @ concat (map serialize row)) ! length (varint ?k) \<noteq> 0x03"
    using other serialize_hd_not_text serialize_nonempty
    by (cases row) (auto simp: nth_append)
  with n dec show ?thesis
    by (simp add: deserialize_index_row_with_prefix_def serialize_row_eq read_write_varint
        varint_nonempty index_row_decode_plain)
qed

lemma index_row_round_trip:
  assumes "wf_index_row prev row"
  shows "deserialize_index_row_with_prefix (fst (serialize_index_row_compressed row prev)) prev
     = Ok (row, row_key prev row)"
proof (cases "\<exists>t vals. row = Text t # vals")
  case True
  with assms show ?thesis by (auto simp: index_row_round_trip_text row_key_def)
next
  case False
  then have "row_key prev row = prev"
    by (cases row; cases "hd row") (auto simp: row_key_def)
  with False assms show ?thesis
    by (simp add: serialize_index_row_other index_row_round_trip_other wf_index_row_def)
qed

text \<open>Rows of one page, each relative to the key of the row before it.\<close>

fun wf_index_rows :: "bytes \<Rightarrow> row list \<Rightarrow> bool" where
  "wf_index_rows prev [] = True"
| "wf_index_rows prev (row # rows) = (wf_index_row prev row \<and> wf_index_rows (row_key prev row) rows)"

lemma page_decode_encode:
  assumes "wf_index_row (prev_key p) row"
  shows "page_decode p (fst (page_encode p row)) = Ok (row, snd (page_encode p row))"
  using index_row_round_trip [OF assms] index_row_key [of row "prev_key p"]
  by (simp add: page_decode_def page_encode_def case_prod_unfold)

lemma page_encode_key: "prev_key (snd (page_encode p row)) = row_key (prev_key p) row"
  by (simp add: page_encode_def case_prod_unfold index_row_key)

text \<open>scanning a page of prefix-compressed index rows from its start gives back the rows in
  order: encoder and decoder stay in step on the previous key.\<close>

lemma page_round_trip:
  assumes "wf_index_rows (prev_key p) rows"
  shows "decode_page p (encode_page p rows) = Ok rows"
  using assms
proof (induction rows arbitrary: p)
  case Nil
  then show ?case by simp
next
  case (Cons row rows)
  then have "decode_page (snd (page_encode p row)) (encode_page (snd (page_encode p row)) rows) = Ok rows"
    by (intro Cons.IH) (simp add: page_encode_key)
  with Cons.prems page_decode_encode [of p row] show ?case by (simp add: case_prod_unfold Let_def)
qed

lemma page_round_trip_witness:
  "decode_page prefix_page_new (encode_page prefix_page_new
      [[Text [97, 98, 99], Integer 1], [Text [97, 98, 100], Integer 2], [Integer 7]])
     = Ok [[Text [97, 98, 99], Integer 1], [Text [97, 98, 100], Integer 2], [Integer 7]]"
  by (rule page_round_trip)
    (simp add: prefix_page_new_def wf_index_row_def wf_row_def MAX_COLUMNS_def MAX_VALUE_LEN_def row_key_def
      shared_prefix_def)

end
