(* ===== verification/Framing.thy ===== *)
theory Framing
  imports KkPrelude
begin

text \<open>
  The contract of a framed append-only log, shared by the binary log and the Raft log: a frame is
  recognised whatever follows it, and a frame that was only partly written is not. From these laws
  alone, reading a log that ends in a torn frame yields exactly the complete frames.
\<close>

text \<open>All payloads from the start of the data, with the number of bytes they take.\<close>

function payloads :: "(bytes \<Rightarrow> (bytes \<times> nat) option) \<Rightarrow> bytes \<Rightarrow> bytes list \<times> nat" where
  "payloads decode data =
     (case decode data of
        None \<Rightarrow> ([], 0)
      | Some (p, n) \<Rightarrow>
          if 0 < n \<and> n \<le> length data
          then (let (ps, m) = payloads decode (drop n data) in (p # ps, n + m))
          else ([], 0))"
  by pat_completeness auto
termination
  by (relation "measure (\<lambda>(_, data). length data)") auto

declare payloads.simps [simp del]

lemma payloads_None: "decode data = None \<Longrightarrow> payloads decode data = ([], 0)"
  by (simp add: payloads.simps)

lemma payloads_Some:
  "decode data = Some (p, n) \<Longrightarrow> 0 < n \<Longrightarrow> n \<le> length data \<Longrightarrow>
     payloads decode data = (p # fst (payloads decode (drop n data)), n + snd (payloads decode (drop n data)))"
  by (subst payloads.simps) (simp add: case_prod_unfold Let_def)

locale framed_log =
  fixes frame :: "bytes \<Rightarrow> bytes"
    and decode :: "bytes \<Rightarrow> (bytes \<times> nat) option"
    and fits :: "bytes \<Rightarrow> bool"
  assumes next_frame: "fits p \<Longrightarrow> decode (frame p @ rest) = Some (p, length (frame p))"
    and next_torn: "fits p \<Longrightarrow> k < length (frame p) \<Longrightarrow> decode (take k (frame p)) = None"
    and frame_nonempty: "fits p \<Longrightarrow> frame p \<noteq> []"
begin

lemma payloads_stop:
  assumes "\<And>p. p \<in> set ps \<Longrightarrow> fits p" and "decode tail = None"
  shows "payloads decode (concat (map frame ps) @ tail) = (ps, length (concat (map frame ps)))"
  using assms(1)
proof (induction ps)
  case Nil
  with assms(2) show ?case by (simp add: payloads_None)
next
  case (Cons p ps)
  let ?rest = "concat (map frame ps) @ tail"
  from Cons.prems have p: "fits p" by simp
  have "payloads decode (frame p @ ?rest)
      = (p # fst (payloads decode ?rest), length (frame p) + snd (payloads decode ?rest))"
    using payloads_Some [of decode "frame p @ ?rest", OF next_frame [OF p]] frame_nonempty [OF p] by simp
  with Cons show ?case by simp
qed

text \<open>Every complete frame is recovered, and nothing of a torn last frame.\<close>

lemma payloads_torn:
  assumes "\<And>p. p \<in> set ps \<Longrightarrow> fits p" and "fits q" and "k < length (frame q)"
  shows "payloads decode (concat (map frame ps) @ take k (frame q)) = (ps, length (concat (map frame ps)))"
  using assms by (intro payloads_stop next_torn)

lemma payloads_all:
  assumes "\<And>p. p \<in> set ps \<Longrightarrow> fits p" and "\<exists>q. fits q"
  shows "payloads decode (concat (map frame ps)) = (ps, length (concat (map frame ps)))"
proof -
  from assms(2) obtain q where "fits q" by blast
  then have "decode [] = None" using next_torn [of q 0] frame_nonempty [of q] by simp
  with assms(1) payloads_stop [of ps "[]"] show ?thesis by simp
qed

end

end
