(* ===== verification/OrdMap.thy ===== *)
theory OrdMap
  imports KkPrelude
begin

text \<open>
  Rust's \<^verbatim>\<open>BTreeMap\<close> as the code uses it: an association list with strictly increasing keys,
  so that iteration is in key order. The operations are those the sources call; the laws connect them
  with the partial function \<open>om_get\<close>.
\<close>

type_synonym ('k, 'v) ordmap = "('k \<times> 'v) list"

definition om_get :: "('k, 'v) ordmap \<Rightarrow> 'k \<Rightarrow> 'v option" where
  "om_get m k = map_of m k"

fun om_insert :: "'k::linorder \<Rightarrow> 'v \<Rightarrow> ('k, 'v) ordmap \<Rightarrow> ('k, 'v) ordmap" where
  "om_insert k v [] = [(k, v)]"
| "om_insert k v ((k', v') # m) =
     (if k < k' then (k, v) # (k', v') # m
      else if k = k' then (k, v) # m
      else (k', v') # om_insert k v m)"

definition om_retain :: "('k \<Rightarrow> bool) \<Rightarrow> ('k, 'v) ordmap \<Rightarrow> ('k, 'v) ordmap" where
  "om_retain P m = filter (\<lambda>(k, _). P k) m"

definition om_remove :: "'k \<Rightarrow> ('k, 'v) ordmap \<Rightarrow> ('k, 'v) ordmap" where
  "om_remove k m = om_retain (\<lambda>k'. k' \<noteq> k) m"

definition om_ok :: "('k::linorder, 'v) ordmap \<Rightarrow> bool" where
  "om_ok m \<longleftrightarrow> sorted_wrt (<) (map fst m)"

lemma om_get_Nil [simp]: "om_get [] k = None"
  by (simp add: om_get_def)

lemma om_get_insert [simp]: "om_get (om_insert k v m) = (om_get m)(k \<mapsto> v)"
proof
  show "om_get (om_insert k v m) x = ((om_get m)(k \<mapsto> v)) x" for x
    by (induction k v m rule: om_insert.induct) (auto simp: om_get_def)
qed

lemma om_get_retain [simp]: "om_get (om_retain P m) k = (if P k then om_get m k else None)"
  by (induction m) (auto simp: om_get_def om_retain_def)

lemma om_get_remove [simp]: "om_get (om_remove k m) = (om_get m)(k := None)"
  by (auto simp: om_remove_def)

lemma om_ok_Nil [simp]: "om_ok []"
  by (simp add: om_ok_def)

lemma fst_om_insert: "fst ` set (om_insert k v m) = insert k (fst ` set m)"
  by (induction k v m rule: om_insert.induct) auto

lemma om_ok_insert [simp]: "om_ok m \<Longrightarrow> om_ok (om_insert k v m)"
proof (induction k v m rule: om_insert.induct)
  case (2 k v k' v' m)
  have "x \<in> fst ` set (om_insert k v m) \<Longrightarrow> x = k \<or> x \<in> fst ` set m" for x
    by (simp add: fst_om_insert)
  with 2 show ?case by (fastforce simp: om_ok_def)
qed (simp add: om_ok_def)

lemma om_ok_retain [simp]: "om_ok m \<Longrightarrow> om_ok (om_retain P m)"
  by (auto simp: om_ok_def om_retain_def sorted_wrt_map intro: sorted_wrt_filter)

lemma om_ok_remove [simp]: "om_ok m \<Longrightarrow> om_ok (om_remove k m)"
  by (simp add: om_remove_def)

lemma om_get_set: "om_ok m \<Longrightarrow> om_get m k = Some v \<longleftrightarrow> (k, v) \<in> set m"
  by (simp add: om_get_def om_ok_def strict_sorted_iff)

lemma om_insert_last: "(\<And>x. x \<in> fst ` set m \<Longrightarrow> x < k) \<Longrightarrow> om_insert k v m = m @ [(k, v)]"
  by (induction k v m rule: om_insert.induct) (auto dest: order_less_not_sym)

lemma om_rebuild: "om_ok (pre @ m) \<Longrightarrow> fold (\<lambda>(k, v). om_insert k v) m pre = pre @ m"
proof (induction m arbitrary: pre)
  case (Cons a m)
  obtain k v where a: "a = (k, v)" by (cases a)
  have "om_insert k v pre = pre @ [(k, v)]"
    using Cons.prems by (intro om_insert_last) (auto simp: om_ok_def sorted_wrt_append a)
  with Cons a show ?case by simp
qed simp

lemma om_ext:
  assumes "om_ok m" and "om_ok n" and "om_get m = om_get n"
  shows "m = n"
proof -
  have sets: "set m = set n"
    using om_get_set [OF assms(1)] om_get_set [OF assms(2)] assms(3) by auto
  have fsts: "map fst m = map fst n"
    using sets assms(1,2) by (intro strict_sorted_equal) (auto simp: om_ok_def)
  have vals: "map snd l = map (\<lambda>k. the (om_get l k)) (map fst l)" if "om_ok l" for l :: "('a, 'b) ordmap"
    using om_get_set [OF that] by auto (metis option.sel)
  have "map snd m = map snd n"
    by (simp only: vals [OF assms(1)] vals [OF assms(2)] fsts assms(3))
  with fsts show ?thesis by (metis zip_map_fst_snd)
qed

lemma om_retain_insert:
  assumes "om_ok m"
  shows "om_retain P (om_insert k v m)
     = (if P k then om_insert k v (om_retain P m) else om_retain P m)"
  using assms by (intro om_ext) (auto simp: fun_eq_iff)

lemma om_retain_id: "(\<And>k. k \<in> fst ` set m \<Longrightarrow> P k) \<Longrightarrow> om_retain P m = m"
  by (force simp: om_retain_def filter_id_conv)

lemma om_retain_retain [simp]: "om_retain P (om_retain Q m) = om_retain (\<lambda>k. Q k \<and> P k) m"
  by (simp add: om_retain_def case_prod_unfold)

lemma om_values_all: "om_ok m \<Longrightarrow> list_all P (map snd m) \<longleftrightarrow> (\<forall>k v. om_get m k = Some v \<longrightarrow> P v)"
  by (auto simp: om_get_set list_all_iff)

lemma om_values_ex: "om_ok m \<Longrightarrow> list_ex P (map snd m) \<longleftrightarrow> (\<exists>k v. om_get m k = Some v \<and> P v)"
  by (auto simp: om_get_set list_ex_iff) force+

lemma om_get_filter_value:
  "om_ok m \<Longrightarrow> om_get (filter (\<lambda>(_, v). P v) m) k = (case om_get m k of Some v \<Rightarrow> if P v then Some v else None | None \<Rightarrow> None)"
proof -
  assume ok: "om_ok m"
  then have ok': "om_ok (filter (\<lambda>(_, v). P v) m)"
    by (auto simp: om_ok_def sorted_wrt_map intro: sorted_wrt_filter)
  let ?f = "filter (\<lambda>(_, v). P v) m"
  have eq: "om_get ?f k = Some v \<longleftrightarrow> om_get m k = Some v \<and> P v" for v
    by (simp add: om_get_set [OF ok] om_get_set [OF ok'])
  show ?thesis
  proof (cases "om_get ?f k")
    case None
    with eq show ?thesis by (cases "om_get m k") auto
  next
    case (Some v)
    with eq [of v] show ?thesis by simp
  qed
qed

lemma om_ok_filter: "om_ok m \<Longrightarrow> om_ok (filter P m)"
  by (auto simp: om_ok_def sorted_wrt_map intro: sorted_wrt_filter)

lemma om_ok_map_values: "om_ok (map (\<lambda>(k, v). (k, f v)) m) = om_ok m"
  by (simp add: om_ok_def comp_def case_prod_unfold)

end
