(* ===== verification/RaftLog.thy ===== *)
theory RaftLog
  imports Framing OrdMap
begin

text \<open>
  The persistent Raft log of \<^verbatim>\<open>src/src/raft/log_store.rs\<close>: the CRC-protected record file, the
  in-memory log, vote and purge state, replay on open, compaction, and the operations that the Raft
  library calls. JSON encoding (the \<^verbatim>\<open>serde_json\<close> crate) is a parameter \<open>json\<close>: for the log
  records, the vote and the log id, a printer and a parser, of which the code relies on the parser
  inverting the printer. File operations succeed; an entry's payload is a type parameter.
\<close>

section \<open>Records of the file\<close>

fun crc_bits :: "nat \<Rightarrow> u32 \<Rightarrow> u32" where
  "crc_bits 0 c = c"
| "crc_bits (Suc n) c =
     crc_bits n (if c AND 1 \<noteq> 0 then drop_bit 1 c XOR 0xEDB88320 else drop_bit 1 c)"

definition crc32 :: "bytes \<Rightarrow> u32" where
  "crc32 data = NOT (foldl (\<lambda>c b. crc_bits 8 (c XOR ucast b)) 0xFFFFFFFF data)"

definition write_record :: "bytes \<Rightarrow> bytes" where
  "write_record payload =
     le_bytes 4 (word_of_nat (length payload) :: u32) @ payload @ le_bytes 4 (crc32 payload)"

datatype io_error = UnexpectedEof | InvalidData

text \<open>Reading one record: an error, the end of the file, or the payload and what follows it.\<close>

definition read_record :: "bytes \<Rightarrow> io_error + (bytes \<times> bytes) option" where
  "read_record r =
     (if length r < 4 then Inr None
      else let len = unat (from_le (take 4 r) :: u32); r1 = drop 4 r in
        if length r1 < len then Inl UnexpectedEof
        else let payload = take len r1; r2 = drop len r1 in
          if length r2 < 4 then Inl UnexpectedEof
          else let recorded = (from_le (take 4 r2) :: u32) in
            if crc32 payload \<noteq> recorded then Inl InvalidData
            else Inr (Some (payload, drop 4 r2)))"

section \<open>State\<close>

record log_id =
  lterm :: u64
  lnode :: u64
  index :: u64

record 'p entry =
  elog_id :: log_id
  payload :: 'p

record vote =
  vterm :: u64
  vnode :: u64
  committed :: bool

datatype 'p wal_record = Append "'p entry" | Truncate u64

record 'p json =
  rec_to :: "'p wal_record \<Rightarrow> bytes"
  rec_from :: "bytes \<Rightarrow> 'p wal_record option"
  vote_to :: "vote \<Rightarrow> bytes"
  vote_from :: "bytes \<Rightarrow> vote option"
  lid_to :: "log_id \<Rightarrow> bytes"
  lid_from :: "bytes \<Rightarrow> log_id option"

text \<open>The files \<^verbatim>\<open>wal.log\<close>, \<^verbatim>\<open>vote.json\<close> and \<^verbatim>\<open>purge.json\<close>.\<close>

record raft_dir =
  wal_log :: "bytes option"
  vote_json :: "bytes option"
  purge_json :: "bytes option"

record 'p log_store =
  last_purged :: "log_id option"
  log :: "(u64, 'p entry) ordmap"
  voted_for :: "vote option"
  persistent :: bool
  total_records :: nat
  compact_threshold :: nat
  compaction_count :: nat
  total_dead_eliminated :: nat

definition COMPACT_THRESHOLD :: nat where
  "COMPACT_THRESHOLD = 1000"

section \<open>Opening\<close>

lemma read_record_shorter: "read_record r = Inr (Some (p, rest)) \<Longrightarrow> length rest < length r"
  by (auto simp: read_record_def Let_def split: if_splits)

definition apply_record :: "'p wal_record option \<Rightarrow> (u64, 'p entry) ordmap \<Rightarrow> (u64, 'p entry) ordmap" where
  "apply_record r lg =
     (case r of
        Some (Append e) \<Rightarrow> om_insert (index (elog_id e)) e lg
      | Some (Truncate from_index) \<Rightarrow> om_retain (\<lambda>k. k < from_index) lg
      | None \<Rightarrow> lg)"

function replay :: "'p json \<Rightarrow> bytes \<Rightarrow> (u64, 'p entry) ordmap \<Rightarrow> nat \<Rightarrow> (u64, 'p entry) ordmap \<times> nat" where
  "replay j r lg n =
     (case read_record r of
        Inr (Some (p, rest)) \<Rightarrow> replay j rest (apply_record (rec_from j p) lg) (n + 1)
      | Inr None \<Rightarrow> (lg, n)
      | Inl _ \<Rightarrow> (lg, n))"
  by pat_completeness auto
termination
  by (relation "measure (\<lambda>(j, r, lg, n). length r)") (auto dest: read_record_shorter)

declare replay.simps [simp del]

definition log_store_open :: "'p json \<Rightarrow> raft_dir \<Rightarrow> 'p log_store" where
  "log_store_open j d =
     (let v = (case vote_json d of None \<Rightarrow> None | Some b \<Rightarrow> vote_from j b);
          lp = (case purge_json d of None \<Rightarrow> None | Some b \<Rightarrow> lid_from j b);
          (lg, n) = (case wal_log d of None \<Rightarrow> ([], 0)
                     | Some b \<Rightarrow>
                         (let (l, n) = replay j b [] 0
                          in (case lp of None \<Rightarrow> l | Some p \<Rightarrow> om_retain (\<lambda>k. index p < k) l, n)))
      in \<lparr>last_purged = lp, log = lg, voted_for = v, persistent = True, total_records = n,
          compact_threshold = COMPACT_THRESHOLD, compaction_count = 0, total_dead_eliminated = 0\<rparr>)"

section \<open>Operations\<close>

definition append_file :: "bytes \<Rightarrow> raft_dir \<Rightarrow> raft_dir" where
  "append_file b d = d\<lparr>wal_log := Some ((case wal_log d of None \<Rightarrow> [] | Some w \<Rightarrow> w) @ b)\<rparr>"

definition wal_append :: "'p json \<Rightarrow> 'p entry \<Rightarrow> raft_dir \<Rightarrow> raft_dir" where
  "wal_append j e d = append_file (write_record (rec_to j (Append e))) d"

definition wal_truncate :: "'p json \<Rightarrow> u64 \<Rightarrow> raft_dir \<Rightarrow> raft_dir" where
  "wal_truncate j from_index d = append_file (write_record (rec_to j (Truncate from_index))) d"

definition write_vote :: "'p json \<Rightarrow> vote \<Rightarrow> raft_dir \<Rightarrow> raft_dir" where
  "write_vote j v d = d\<lparr>vote_json := Some (vote_to j v)\<rparr>"

definition write_purge :: "'p json \<Rightarrow> log_id \<Rightarrow> raft_dir \<Rightarrow> raft_dir" where
  "write_purge j l d = d\<lparr>purge_json := Some (lid_to j l)\<rparr>"

definition compact :: "'p json \<Rightarrow> 'p log_store \<times> raft_dir \<Rightarrow> nat \<times> 'p log_store \<times> raft_dir" where
  "compact j = (\<lambda>(s, d).
     if \<not> persistent s then (0, s, d)
     else let live_count = length (log s); dead = total_records s - live_count in
       if dead = 0 then (0, s, d)
       else (dead,
         s\<lparr>total_records := live_count, compaction_count := compaction_count s + 1,
           total_dead_eliminated := total_dead_eliminated s + dead\<rparr>,
         d\<lparr>wal_log := Some (concat (map (\<lambda>(_, e). write_record (rec_to j (Append e))) (log s)))\<rparr>))"

fun log_append :: "'p json \<Rightarrow> 'p entry list \<Rightarrow> 'p log_store \<times> raft_dir \<Rightarrow> 'p log_store \<times> raft_dir" where
  "log_append j [] (s, d) = (s, d)"
| "log_append j (e # es) (s, d) =
     (let (s1, d1) = (if persistent s then (s\<lparr>total_records := total_records s + 1\<rparr>, wal_append j e d) else (s, d))
      in log_append j es (s1\<lparr>log := om_insert (index (elog_id e)) e (log s1)\<rparr>, d1))"

definition log_truncate :: "'p json \<Rightarrow> log_id \<Rightarrow> 'p log_store \<times> raft_dir \<Rightarrow> 'p log_store \<times> raft_dir" where
  "log_truncate j l = (\<lambda>(s, d).
     let (s1, d1) =
       (if persistent s then
          (s\<lparr>total_records := total_records s + (1 + length (om_retain (\<lambda>k. index l \<le> k) (log s)))\<rparr>,
           wal_truncate j (index l) d)
        else (s, d))
     in (s1\<lparr>log := om_retain (\<lambda>k. k < index l) (log s1)\<rparr>, d1))"

definition log_purge :: "'p json \<Rightarrow> log_id \<Rightarrow> 'p log_store \<times> raft_dir \<Rightarrow> 'p log_store \<times> raft_dir" where
  "log_purge j l = (\<lambda>(s, d).
     let purged_count = length (om_retain (\<lambda>k. k \<le> index l) (log s));
         s1 = s\<lparr>last_purged := Some l, log := om_retain (\<lambda>k. index l < k) (log s)\<rparr>;
         d1 = (if persistent s then write_purge j l d else d);
         dead = (total_records s1 - length (log s1)) + purged_count
     in if compact_threshold s1 < dead then snd (compact j (s1, d1)) else (s1, d1))"

definition save_vote :: "'p json \<Rightarrow> vote \<Rightarrow> 'p log_store \<times> raft_dir \<Rightarrow> 'p log_store \<times> raft_dir" where
  "save_vote j v = (\<lambda>(s, d).
     (s\<lparr>voted_for := Some v\<rparr>, if persistent s then write_vote j v d else d))"

definition set_compact_threshold :: "nat \<Rightarrow> 'p log_store \<times> raft_dir \<Rightarrow> 'p log_store \<times> raft_dir" where
  "set_compact_threshold t = (\<lambda>(s, d). (s\<lparr>compact_threshold := t\<rparr>, d))"

definition get_log_state :: "'p log_store \<Rightarrow> log_id option \<times> log_id option" where
  "get_log_state s =
     (last_purged s,
      case log s of [] \<Rightarrow> last_purged s | lg \<Rightarrow> Some (elog_id (snd (last lg))))"

definition try_get_log_entries :: "(u64 \<Rightarrow> bool) \<Rightarrow> 'p log_store \<Rightarrow> 'p entry list" where
  "try_get_log_entries in_range s = map snd (om_retain in_range (log s))"

definition read_vote :: "'p log_store \<Rightarrow> vote option" where
  "read_vote s = voted_for s"

definition compaction_stats :: "'p log_store \<Rightarrow> nat \<times> nat \<times> nat" where
  "compaction_stats s = (length (log s), total_records s, total_records s - length (log s))"

section \<open>The record file as a framed log\<close>

definition fits_record :: "bytes \<Rightarrow> bool" where
  "fits_record p \<longleftrightarrow> length p < 2 ^ 32"

definition next_record :: "bytes \<Rightarrow> (bytes \<times> nat) option" where
  "next_record r =
     (case read_record r of Inr (Some (p, rest)) \<Rightarrow> Some (p, length r - length rest) | _ \<Rightarrow> None)"

lemma length_write_record [simp]: "length (write_record p) = 8 + length p"
  by (simp add: write_record_def)

lemma read_write_record:
  assumes "fits_record p"
  shows "read_record (write_record p @ rest) = Inr (Some (p, rest))"
proof -
  have "unat (word_of_nat (length p) :: u32) = length p"
    using assms by (simp add: fits_record_def unat_of_nat)
  then show ?thesis by (simp add: read_record_def write_record_def Let_def)
qed

lemma next_record_torn:
  assumes "fits_record p" and "k < length (write_record p)"
  shows "next_record (take k (write_record p)) = None"
proof -
  have len: "unat (word_of_nat (length p) :: u32) = length p"
    using assms by (simp add: fits_record_def unat_of_nat)
  have "take 4 (take k (write_record p)) = le_bytes 4 (word_of_nat (length p) :: u32)" if "4 \<le> k"
    using that by (simp add: write_record_def min_def)
  with assms len show ?thesis
    by (auto simp: next_record_def read_record_def Let_def split: if_splits)
qed

interpretation raft_frames: framed_log write_record next_record fits_record
proof unfold_locales
  show "fits_record p \<Longrightarrow> next_record (write_record p @ rest) = Some (p, length (write_record p))" for p rest
    by (simp add: next_record_def read_write_record)
  show "fits_record p \<Longrightarrow> write_record p \<noteq> []" for p
    using length_write_record [of p] by (metis add_is_0 list.size(3) zero_neq_numeral)
qed (rule next_record_torn)

definition apply_payloads :: "'p json \<Rightarrow> bytes list \<Rightarrow> (u64, 'p entry) ordmap \<Rightarrow> (u64, 'p entry) ordmap" where
  "apply_payloads j ps lg = fold (\<lambda>p. apply_record (rec_from j p)) ps lg"

lemma read_record_drop:
  "read_record r = Inr (Some (p, rest)) \<Longrightarrow> rest = drop (length r - length rest) r \<and> length rest < length r"
  by (auto simp: read_record_def Let_def split: if_splits)

lemma replay_payloads:
  "replay j r lg n = (apply_payloads j (fst (payloads next_record r)) lg, n + length (fst (payloads next_record r)))"
proof (induction j r lg n rule: replay.induct)
  case (1 j r lg n)
  show ?case
  proof (cases "\<exists>p rest. read_record r = Inr (Some (p, rest))")
    case True
    then obtain p rest where r: "read_record r = Inr (Some (p, rest))" by blast
    note d = read_record_drop [OF r]
    have "next_record r = Some (p, length r - length rest)" by (simp add: next_record_def r)
    from payloads_Some [of next_record r, OF this] d
    have "fst (payloads next_record r) = p # fst (payloads next_record rest)"
      by (metis diff_le_self fst_conv zero_less_diff)
    with 1 [OF r] show ?thesis
      by (subst replay.simps) (simp add: r apply_payloads_def)
  next
    case False
    then have "next_record r = None" "replay j r lg n = (lg, n)"
      by (auto simp: next_record_def replay.simps split: sum.splits option.splits)
    then show ?thesis by (simp add: payloads_None apply_payloads_def)
  qed
qed

section \<open>Memory and disk agree\<close>

text \<open>What the code relies on of the JSON library: parsing inverts printing.\<close>

definition json_ok :: "'p json \<Rightarrow> bool" where
  "json_ok j \<longleftrightarrow> (\<forall>r. rec_from j (rec_to j r) = Some r) \<and> (\<forall>v. vote_from j (vote_to j v) = Some v)
     \<and> (\<forall>l. lid_from j (lid_to j l) = Some l)"

definition past :: "log_id option \<Rightarrow> u64 \<Rightarrow> bool" where
  "past lp k = (case lp of None \<Rightarrow> True | Some p \<Rightarrow> index p < k)"

lemma past_simps: "past None = (\<lambda>_. True)" "past (Some p) = (\<lambda>k. index p < k)"
  by (simp_all add: past_def fun_eq_iff)

definition wal_records :: "'p json \<Rightarrow> 'p wal_record list \<Rightarrow> bytes" where
  "wal_records j rs = concat (map (\<lambda>r. write_record (rec_to j r)) rs)"

definition fits_rec :: "'p json \<Rightarrow> 'p wal_record \<Rightarrow> bool" where
  "fits_rec j r = fits_record (rec_to j r)"

definition replayed :: "'p wal_record list \<Rightarrow> (u64, 'p entry) ordmap" where
  "replayed rs = fold (\<lambda>r. apply_record (Some r)) rs []"

definition wal_bytes :: "raft_dir \<Rightarrow> bytes" where
  "wal_bytes d = (case wal_log d of None \<Rightarrow> [] | Some w \<Rightarrow> w)"

definition store_inv :: "'p json \<Rightarrow> 'p log_store \<times> raft_dir \<Rightarrow> bool" where
  "store_inv j = (\<lambda>(s, d).
     persistent s \<and> om_ok (log s)
     \<and> (\<forall>(k, e) \<in> set (log s). index (elog_id e) = k \<and> fits_rec j (Append e) \<and> past (last_purged s) k)
     \<and> (\<exists>rs. wal_bytes d = wal_records j rs \<and> list_all (fits_rec j) rs
          \<and> log s = om_retain (past (last_purged s)) (replayed rs))
     \<and> vote_json d = map_option (vote_to j) (voted_for s)
     \<and> purge_json d = map_option (lid_to j) (last_purged s))"

lemma om_ok_apply_record: "om_ok lg \<Longrightarrow> om_ok (apply_record r lg)"
  by (auto simp: apply_record_def split: option.splits wal_record.splits)

lemma om_ok_replayed: "om_ok (replayed rs)"
proof -
  have "om_ok lg \<Longrightarrow> om_ok (fold (\<lambda>r. apply_record (Some r)) rs lg)" for lg
    by (induction rs arbitrary: lg) (simp_all add: om_ok_apply_record)
  then show ?thesis by (simp add: replayed_def)
qed

lemma replayed_snoc: "replayed (rs @ [r]) = apply_record (Some r) (replayed rs)"
  by (simp add: replayed_def)

lemma apply_payloads_records:
  "json_ok j \<Longrightarrow> apply_payloads j (map (rec_to j) rs) lg = fold (\<lambda>r. apply_record (Some r)) rs lg"
  by (induction rs arbitrary: lg) (simp_all add: apply_payloads_def json_ok_def)

lemma replay_records:
  assumes "json_ok j" and "list_all (fits_rec j) rs" and "next_record tail = None"
  shows "replay j (wal_records j rs @ tail) [] 0 = (replayed rs, length rs)"
proof -
  have "payloads next_record (concat (map write_record (map (rec_to j) rs)) @ tail)
      = (map (rec_to j) rs, length (concat (map write_record (map (rec_to j) rs))))"
    using assms by (intro raft_frames.payloads_stop) (auto simp: list_all_iff fits_rec_def)
  then have "fst (payloads next_record (wal_records j rs @ tail)) = map (rec_to j) rs"
    by (simp add: wal_records_def comp_def)
  with assms show ?thesis
    by (simp add: replay_payloads apply_payloads_records replayed_def)
qed

lemma open_state:
  assumes "json_ok j" and "list_all (fits_rec j) rs" and "next_record tail = None"
    and "wal_bytes d = wal_records j rs @ tail"
    and "vote_json d = map_option (vote_to j) v" and "purge_json d = map_option (lid_to j) lp"
  shows "log (log_store_open j d) = om_retain (past lp) (replayed rs)"
    and "voted_for (log_store_open j d) = v" and "last_purged (log_store_open j d) = lp"
    and "persistent (log_store_open j d)"
proof -
  have v: "(case vote_json d of None \<Rightarrow> None | Some b \<Rightarrow> vote_from j b) = v"
    and lp: "(case purge_json d of None \<Rightarrow> None | Some b \<Rightarrow> lid_from j b) = lp"
    using assms by (auto simp: json_ok_def split: option.splits)
  have all: "om_retain (\<lambda>k. True) m = m" for m :: "(u64, 'a entry) ordmap"
    by (simp add: om_retain_def)
  have wal: "(case wal_log d of None \<Rightarrow> ([], 0) | Some b \<Rightarrow>
      (let (l, n) = replay j b [] 0 in (case lp of None \<Rightarrow> l | Some p \<Rightarrow> om_retain (\<lambda>k. index p < k) l, n)))
      = (om_retain (past lp) (replayed rs), if wal_log d = None then 0 else length rs)"
  proof (cases "wal_log d")
    case None
    with assms(4) have "wal_records j rs = []" by (simp add: wal_bytes_def)
    then have "rs = []" using raft_frames.frame_nonempty assms(2)
      by (cases rs) (auto simp: wal_records_def fits_rec_def)
    with None show ?thesis by (simp add: replayed_def om_retain_def)
  next
    case (Some b)
    with assms(4) have "b = wal_records j rs @ tail" by (simp add: wal_bytes_def)
    with Some replay_records [OF assms(1-3)] show ?thesis
      by (simp add: past_simps all split: option.splits)
  qed
  show "log (log_store_open j d) = om_retain (past lp) (replayed rs)"
    and "voted_for (log_store_open j d) = v" and "last_purged (log_store_open j d) = lp"
    and "persistent (log_store_open j d)"
    by (simp_all add: log_store_open_def v lp wal Let_def)
qed

lemma wal_bytes_append_file: "wal_bytes (append_file b d) = wal_bytes d @ b"
  by (simp add: wal_bytes_def append_file_def)

lemma append_file_fields [simp]:
  "vote_json (append_file b d) = vote_json d" "purge_json (append_file b d) = purge_json d"
  by (simp_all add: append_file_def)

lemma wal_records_snoc: "wal_records j (rs @ [r]) = wal_records j rs @ write_record (rec_to j r)"
  by (simp add: wal_records_def)

lemma store_invE:
  assumes "store_inv j (s, d)"
  obtains rs where "persistent s" and "om_ok (log s)"
    and "\<And>k e. (k, e) \<in> set (log s) \<Longrightarrow> index (elog_id e) = k \<and> fits_rec j (Append e) \<and> past (last_purged s) k"
    and "wal_bytes d = wal_records j rs" and "list_all (fits_rec j) rs"
    and "log s = om_retain (past (last_purged s)) (replayed rs)"
    and "vote_json d = map_option (vote_to j) (voted_for s)"
    and "purge_json d = map_option (lid_to j) (last_purged s)"
  using assms by (fastforce simp: store_inv_def)

text \<open>A record appended to the file and applied to the log in memory keeps the two in step.\<close>

lemma store_inv_record:
  assumes inv: "store_inv j (s, d)" and fit: "fits_rec j r"
    and mem: "log s' = apply_record (Some r) (log s)" "last_purged s' = last_purged s"
      "voted_for s' = voted_for s" "persistent s' = persistent s"
    and new: "case r of Append e \<Rightarrow> past (last_purged s) (index (elog_id e)) | Truncate _ \<Rightarrow> True"
  shows "store_inv j (s', append_file (write_record (rec_to j r)) d)"
proof -
  from inv obtain rs where I: "persistent s" "om_ok (log s)"
    "\<And>k e. (k, e) \<in> set (log s) \<Longrightarrow> index (elog_id e) = k \<and> fits_rec j (Append e) \<and> past (last_purged s) k"
    "wal_bytes d = wal_records j rs" "list_all (fits_rec j) rs"
    "log s = om_retain (past (last_purged s)) (replayed rs)"
    "vote_json d = map_option (vote_to j) (voted_for s)"
    "purge_json d = map_option (lid_to j) (last_purged s)"
    by (rule store_invE) blast
  have "log s' = om_retain (past (last_purged s)) (replayed (rs @ [r]))"
    using I(6) new om_ok_replayed [of rs]
    by (cases r) (auto simp: mem replayed_snoc apply_record_def om_retain_insert conj_commute)
  moreover have "index (elog_id e) = k \<and> fits_rec j (Append e) \<and> past (last_purged s) k"
    if "(k, e) \<in> set (log s')" for k e
  proof (cases r)
    case (Append f)
    from that I(2) have "om_get (om_insert (index (elog_id f)) f (log s)) k = Some e"
      by (subst om_get_set) (simp_all add: mem apply_record_def Append)
    then show ?thesis using I(2,3) fit new Append
      by (auto simp: om_get_set split: if_splits)
  next
    case (Truncate i)
    with that I(3) show ?thesis by (auto simp: mem apply_record_def om_retain_def)
  qed
  moreover have "om_ok (log s')" using I(2) by (simp add: mem om_ok_apply_record)
  ultimately show ?thesis
    using I fit by (auto simp: store_inv_def mem wal_bytes_append_file wal_records_snoc [symmetric]
        intro!: exI [of _ "rs @ [r]"])
qed

lemma store_inv_append:
  assumes "store_inv j (s, d)"
    and "\<And>e. e \<in> set es \<Longrightarrow> fits_rec j (Append e) \<and> past (last_purged s) (index (elog_id e))"
  shows "store_inv j (log_append j es (s, d))"
  using assms
proof (induction es arbitrary: s d)
  case (Cons e es)
  define s' where "s' = s\<lparr>total_records := total_records s + 1, log := om_insert (index (elog_id e)) e (log s)\<rparr>"
  have "store_inv j (s', wal_append j e d)"
    unfolding wal_append_def using Cons.prems
    by (intro store_inv_record [OF Cons.prems(1)]) (simp_all add: s'_def apply_record_def)
  then have "store_inv j (log_append j es (s', wal_append j e d))"
    using Cons.prems by (intro Cons.IH) (simp_all add: s'_def)
  moreover have "persistent s" using Cons.prems(1) by (simp add: store_inv_def)
  ultimately show ?case by (simp add: s'_def)
qed simp

lemma store_inv_truncate:
  assumes "store_inv j (s, d)" and "fits_rec j (Truncate (index l))"
  shows "store_inv j (log_truncate j l (s, d))"
proof -
  have "persistent s" using assms(1) by (simp add: store_inv_def)
  then show ?thesis
    using store_inv_record [OF assms, of "fst (log_truncate j l (s, d))"]
    by (simp add: log_truncate_def wal_truncate_def apply_record_def)
qed

lemma om_rebuild_entries:
  assumes "om_ok lg" and "\<And>k e. (k, e) \<in> set lg \<Longrightarrow> index (elog_id e) = k"
  shows "replayed (map (\<lambda>(_, e). Append e) lg) = lg"
proof -
  have "fold (\<lambda>r. apply_record (Some r)) (map (\<lambda>(_, e). Append e) lg) [] = fold (\<lambda>(k, e). om_insert k e) lg []"
    using assms(2) by (auto simp: fold_map apply_record_def comp_def case_prod_unfold intro!: fold_cong)
  with om_rebuild [of "[]" lg] assms(1) show ?thesis by (simp add: replayed_def)
qed

lemma store_inv_compact:
  assumes "store_inv j (s, d)"
  shows "store_inv j (snd (compact j (s, d)))"
proof -
  from assms obtain rs where I: "persistent s" "om_ok (log s)"
    "\<And>k e. (k, e) \<in> set (log s) \<Longrightarrow> index (elog_id e) = k \<and> fits_rec j (Append e) \<and> past (last_purged s) k"
    "wal_bytes d = wal_records j rs"
    by (rule store_invE) blast
  let ?rs = "map (\<lambda>(_, e). Append e) (log s)"
  have "replayed ?rs = log s" using I(2,3) by (intro om_rebuild_entries) auto
  moreover have "om_retain (past (last_purged s)) (log s) = log s"
    using I(3) by (intro om_retain_id) auto
  ultimately have "log s = om_retain (past (last_purged s)) (replayed ?rs)" by simp
  moreover have "concat (map (\<lambda>(_, e). write_record (rec_to j (Append e))) (log s)) = wal_records j ?rs"
    by (simp add: wal_records_def comp_def case_prod_unfold)
  moreover have "list_all (fits_rec j) ?rs" using I(3) by (auto simp: list_all_iff)
  ultimately show ?thesis using assms
    by (auto simp: compact_def store_inv_def Let_def wal_bytes_def)
qed

lemma store_inv_purge:
  assumes inv: "store_inv j (s, d)" and mono: "\<And>p. last_purged s = Some p \<Longrightarrow> index p \<le> index l"
  shows "store_inv j (log_purge j l (s, d))"
proof -
  from inv obtain rs where I: "persistent s" "om_ok (log s)"
    "\<And>k e. (k, e) \<in> set (log s) \<Longrightarrow> index (elog_id e) = k \<and> fits_rec j (Append e) \<and> past (last_purged s) k"
    "wal_bytes d = wal_records j rs" "list_all (fits_rec j) rs"
    "log s = om_retain (past (last_purged s)) (replayed rs)"
    "vote_json d = map_option (vote_to j) (voted_for s)"
    "purge_json d = map_option (lid_to j) (last_purged s)"
    by (rule store_invE) blast
  define s1 where "s1 = s\<lparr>last_purged := Some l, log := om_retain (\<lambda>k. index l < k) (log s)\<rparr>"
  have "past (last_purged s) k \<and> index l < k \<longleftrightarrow> index l < k" for k
    using mono by (cases "last_purged s") (auto simp: past_simps)
  then have "log s1 = om_retain (past (Some l)) (replayed rs)"
    by (simp add: s1_def I(6) past_simps)
  moreover have "index (elog_id e) = k \<and> fits_rec j (Append e) \<and> past (Some l) k" if "(k, e) \<in> set (log s1)" for k e
    using that I(3) by (auto simp: s1_def om_retain_def past_simps)
  moreover have "om_ok (log s1)" using I(2) by (simp add: s1_def)
  moreover have "last_purged s1 = Some l" "persistent s1" "voted_for s1 = voted_for s"
    using I(1) by (simp_all add: s1_def)
  moreover have "wal_bytes (write_purge j l d) = wal_records j rs"
    "vote_json (write_purge j l d) = map_option (vote_to j) (voted_for s)"
    "purge_json (write_purge j l d) = Some (lid_to j l)"
    using I(4,7) by (simp_all add: write_purge_def wal_bytes_def)
  ultimately have "store_inv j (s1, write_purge j l d)"
    using I(5) by (auto simp: store_inv_def)
  with store_inv_compact [OF this] I(1) show ?thesis
    by (simp add: log_purge_def Let_def s1_def)
qed

lemma store_inv_restart:
  assumes "json_ok j" and inv: "store_inv j (s, d)"
  shows "store_inv j (log_store_open j d, d)"
    and "log (log_store_open j d) = log s" and "voted_for (log_store_open j d) = voted_for s"
    and "last_purged (log_store_open j d) = last_purged s"
proof -
  from inv obtain rs where I: "persistent s" "om_ok (log s)"
    "wal_bytes d = wal_records j rs" "list_all (fits_rec j) rs"
    "log s = om_retain (past (last_purged s)) (replayed rs)"
    "vote_json d = map_option (vote_to j) (voted_for s)"
    "purge_json d = map_option (lid_to j) (last_purged s)"
    by (rule store_invE) blast
  have "next_record [] = None" by (simp add: next_record_def read_record_def)
  note o = open_state [OF assms(1) I(4) this, where d = d, unfolded append_Nil2, OF I(3,6,7)]
  from o I(5) show "log (log_store_open j d) = log s" "voted_for (log_store_open j d) = voted_for s"
    "last_purged (log_store_open j d) = last_purged s" by simp_all
  with inv o(4) show "store_inv j (log_store_open j d, d)" by (simp add: store_inv_def)
qed

section \<open>Runs of the store\<close>

text \<open>
  The steps of a node: the calls of the Raft library, under the rules it follows (an appended entry
  lies past the purged prefix, the purged prefix only grows, a record fits its 32-bit length), and a
  restart, which discards the memory and opens the directory again.
\<close>

definition empty_dir :: raft_dir where
  "empty_dir = \<lparr>wal_log = None, vote_json = None, purge_json = None\<rparr>"

inductive store_step :: "'p json \<Rightarrow> 'p log_store \<times> raft_dir \<Rightarrow> 'p log_store \<times> raft_dir \<Rightarrow> bool"
  for j :: "'p json" where
  append: "(\<And>e. e \<in> set es \<Longrightarrow> fits_rec j (Append e) \<and> past (last_purged s) (index (elog_id e))) \<Longrightarrow>
     store_step j (s, d) (log_append j es (s, d))"
| truncate: "fits_rec j (Truncate (index l)) \<Longrightarrow> store_step j (s, d) (log_truncate j l (s, d))"
| purge: "(\<And>p. last_purged s = Some p \<Longrightarrow> index p \<le> index l) \<Longrightarrow> store_step j (s, d) (log_purge j l (s, d))"
| vote: "store_step j (s, d) (save_vote j v (s, d))"
| compact: "store_step j (s, d) (snd (compact j (s, d)))"
| threshold: "store_step j (s, d) (set_compact_threshold t (s, d))"
| restart: "store_step j (s, d) (log_store_open j d, d)"

inductive store_reach :: "'p json \<Rightarrow> 'p log_store \<times> raft_dir \<Rightarrow> bool" for j :: "'p json" where
  start: "store_reach j (log_store_open j empty_dir, empty_dir)"
| step: "store_reach j \<sigma> \<Longrightarrow> store_step j \<sigma> \<sigma>' \<Longrightarrow> store_reach j \<sigma>'"

lemma store_step_inv: "store_step j \<sigma> \<sigma>' \<Longrightarrow> json_ok j \<Longrightarrow> store_inv j \<sigma> \<Longrightarrow> store_inv j \<sigma>'"
proof (induction rule: store_step.induct)
  case (vote s d v)
  then show ?case by (auto simp: store_inv_def save_vote_def write_vote_def wal_bytes_def)
next
  case (threshold s d t)
  then show ?case by (auto simp: store_inv_def set_compact_threshold_def)
qed (auto intro: store_inv_append store_inv_truncate store_inv_purge store_inv_compact store_inv_restart)

lemma store_reach_inv: "store_reach j \<sigma> \<Longrightarrow> json_ok j \<Longrightarrow> store_inv j \<sigma>"
proof (induction rule: store_reach.induct)
  case start
  show ?case
    by (auto simp: store_inv_def log_store_open_def empty_dir_def wal_bytes_def wal_records_def replayed_def
        om_retain_def intro!: exI [of _ "[]"])
next
  case (step \<sigma> \<sigma>')
  then show ?case by (blast intro: store_step_inv)
qed

text \<open>C1: durability. In every state a node can reach, through any sequence of appends, truncations,
  purges (with their automatic compactions), votes and restarts, opening its directory again gives
  the same log entries, the same vote and the same purge point as the memory has.\<close>

theorem raft_log_durable:
  assumes "json_ok j" and "store_reach j (s, d)"
  shows "log (log_store_open j d) = log s \<and> voted_for (log_store_open j d) = voted_for s
     \<and> last_purged (log_store_open j d) = last_purged s"
  using store_inv_restart [OF assms(1) store_reach_inv [OF assms(2,1)]] by blast

text \<open>A concrete printer and parser in the place of the JSON library, for entries that carry bytes.\<close>

definition lid_bytes :: "log_id \<Rightarrow> bytes" where
  "lid_bytes l = le_bytes 8 (lterm l) @ le_bytes 8 (lnode l) @ le_bytes 8 (index l)"

definition lid_parse :: "bytes \<Rightarrow> log_id" where
  "lid_parse b = \<lparr>lterm = from_le (take 8 b), lnode = from_le (take 8 (drop 8 b)),
     index = from_le (take 8 (drop 16 b))\<rparr>"

lemma length_lid_bytes [simp]: "length (lid_bytes l) = 24"
  by (simp add: lid_bytes_def)

lemma lid_parse_bytes [simp]: "lid_parse (lid_bytes l @ b) = l" "lid_parse (lid_bytes l) = l"
  by (simp_all add: lid_parse_def lid_bytes_def)

definition plain_json :: "bytes json" where
  "plain_json =
     \<lparr>rec_to = (\<lambda>r. case r of Append e \<Rightarrow> 0 # lid_bytes (elog_id e) @ payload e | Truncate i \<Rightarrow> 1 # le_bytes 8 i),
      rec_from = (\<lambda>b. case b of [] \<Rightarrow> None
                  | t # b' \<Rightarrow> Some (if t = 0 then Append \<lparr>elog_id = lid_parse b', payload = drop 24 b'\<rparr>
                                    else Truncate (from_le b'))),
      vote_to = (\<lambda>v. (if committed v then 1 else 0) # le_bytes 8 (vterm v) @ le_bytes 8 (vnode v)),
      vote_from = (\<lambda>b. Some \<lparr>vterm = from_le (take 8 (tl b)), vnode = from_le (drop 8 (tl b)), committed = hd b = 1\<rparr>),
      lid_to = lid_bytes, lid_from = Some o lid_parse\<rparr>"

lemma plain_json_ok: "json_ok plain_json"
  by (auto simp: json_ok_def plain_json_def split: wal_record.splits)

lemma length_plain_append [simp]: "length (rec_to plain_json (Append e)) = 25 + length (payload e)"
  by (simp add: plain_json_def)

lemma plain_json_fits: "length (payload e) < 2 ^ 31 \<Longrightarrow> fits_rec plain_json (Append e)"
  by (simp add: fits_rec_def fits_record_def)

definition sample_entry :: "u64 \<Rightarrow> bytes \<Rightarrow> bytes entry" where
  "sample_entry i b = \<lparr>elog_id = \<lparr>lterm = 1, lnode = 7, index = i\<rparr>, payload = b\<rparr>"

lemma sample_entry_simps [simp]: "index (elog_id (sample_entry i b)) = i" "payload (sample_entry i b) = b"
  by (simp_all add: sample_entry_def)

definition sample_store :: "bytes log_store \<times> raft_dir" where
  "sample_store = log_append plain_json [sample_entry 5 []] (log_store_open plain_json empty_dir, empty_dir)"

lemma sample_store_reach: "store_reach plain_json sample_store"
  unfolding sample_store_def
  by (rule store_reach.step [OF store_reach.start], rule store_step.append)
    (simp add: plain_json_fits log_store_open_def empty_dir_def past_def)

lemma sample_store_log: "log (fst sample_store) = [(5, sample_entry 5 [])]"
  by (simp add: sample_store_def log_store_open_def empty_dir_def)

theorem raft_log_durable_witness:
  "log (log_store_open plain_json (snd sample_store)) = [(5, sample_entry 5 [])]"
  using raft_log_durable [OF plain_json_ok, of "fst sample_store" "snd sample_store"] sample_store_reach
    sample_store_log by simp

section \<open>Torn writes\<close>

text \<open>A crash in the middle of a record: the file ends with a part of it.\<close>

lemma open_torn:
  assumes "json_ok j" and "store_reach j (s, d)" and "next_record tail = None"
  shows "log (log_store_open j (append_file tail d)) = log s
     \<and> voted_for (log_store_open j (append_file tail d)) = voted_for s
     \<and> last_purged (log_store_open j (append_file tail d)) = last_purged s
     \<and> persistent (log_store_open j (append_file tail d))"
proof -
  from store_reach_inv [OF assms(2,1)] obtain rs where I:
    "wal_bytes d = wal_records j rs" "list_all (fits_rec j) rs"
    "log s = om_retain (past (last_purged s)) (replayed rs)"
    "vote_json d = map_option (vote_to j) (voted_for s)"
    "purge_json d = map_option (lid_to j) (last_purged s)"
    by (rule store_invE) blast
  have "wal_bytes (append_file tail d) = wal_records j rs @ tail"
    by (simp add: wal_bytes_append_file I(1))
  from open_state [OF assms(1) I(2) assms(3) this, of "voted_for s" "last_purged s"] I(3-5)
  show ?thesis by (simp add: append_file_def)
qed

text \<open>a record that a crash cut anywhere is ignored by the next open: the node comes back with
  the entries, the vote and the purge point it had before that record.\<close>

lemma raft_log_torn_record:
  assumes "json_ok j" and "store_reach j (s, d)" and "fits_rec j r"
    and "k < length (write_record (rec_to j r))"
  shows "let d' = append_file (take k (write_record (rec_to j r))) d
     in log (log_store_open j d') = log s \<and> voted_for (log_store_open j d') = voted_for s
      \<and> last_purged (log_store_open j d') = last_purged s"
  using open_torn [OF assms(1,2) next_record_torn [OF assms(3) [unfolded fits_rec_def] assms(4)]]
  by (simp add: Let_def)

lemma raft_log_torn_record_witness:
  "log (log_store_open plain_json
     (append_file (take 30 (write_record (rec_to plain_json (Append (sample_entry 6 []))))) (snd sample_store)))
   = [(5, sample_entry 5 [])]"
  using raft_log_torn_record [OF plain_json_ok, of "fst sample_store" "snd sample_store" "Append (sample_entry 6 [])" 30]
    sample_store_reach sample_store_log by (simp add: Let_def plain_json_fits)

lemma next_record_swallowed:
  assumes "fits_record p" and "4 \<le> k" and "k + length g < length (write_record p)"
  shows "next_record (take k (write_record p) @ g) = None"
proof -
  have len: "unat (word_of_nat (length p) :: u32) = length p"
    using assms by (simp add: fits_record_def unat_of_nat)
  have "take 4 (take k (write_record p) @ g) = le_bytes 4 (word_of_nat (length p) :: u32)"
    using assms(2) by (simp add: write_record_def min_def)
  with assms len show ?thesis
    by (auto simp: next_record_def read_record_def Let_def split: if_splits)
qed

lemma append_file_append: "append_file b (append_file a d) = append_file (a @ b) d"
  by (simp add: append_file_def split: option.splits)

text \<open>the torn bytes stay in the file, though. An entry that the reopened node appends (and
  reports as flushed) lies behind them: as long as the length of the torn record has not been
  reached, the next open reads the new entry as its payload and drops it. The log is then the one from
  before the crash, without the acknowledged entry.\<close>

lemma raft_log_entry_lost_after_torn:
  assumes "json_ok j" and "store_reach j (s, d)" and "fits_rec j r" and "4 \<le> k"
    and "k + length (write_record (rec_to j (Append e))) < length (write_record (rec_to j r))"
  shows "let d' = append_file (take k (write_record (rec_to j r))) d;
             (s2, d2) = log_append j [e] (log_store_open j d', d')
     in om_get (log s2) (index (elog_id e)) = Some e \<and> log (log_store_open j d2) = log s"
proof -
  let ?t = "take k (write_record (rec_to j r))"
  have "next_record (?t @ []) = None"
    using assms by (intro next_record_swallowed) (simp_all add: fits_rec_def)
  then have t: "next_record ?t = None" by simp
  have tg: "next_record (?t @ write_record (rec_to j (Append e))) = None"
    using assms by (intro next_record_swallowed) (simp_all add: fits_rec_def)
  from open_torn [OF assms(1,2) t] open_torn [OF assms(1,2) tg] show ?thesis
    by (simp add: Let_def wal_append_def append_file_append)
qed

lemma raft_log_entry_lost_after_torn_witness:
  "let r = Append (sample_entry 6 (replicate 100 0));
       d' = append_file (take 10 (write_record (rec_to plain_json r))) (snd sample_store);
       (s2, d2) = log_append plain_json [sample_entry 6 []] (log_store_open plain_json d', d')
   in om_get (log s2) 6 = Some (sample_entry 6 []) \<and> log (log_store_open plain_json d2) = [(5, sample_entry 5 [])]"
  using raft_log_entry_lost_after_torn [OF plain_json_ok, of "fst sample_store" "snd sample_store"
      "Append (sample_entry 6 (replicate 100 0))" 10 "sample_entry 6 []"]
    sample_store_reach sample_store_log by (simp add: Let_def plain_json_fits del: log_append.simps)

end
