(* ===== verification/StdLib.thy ===== *)
theory StdLib
  imports ValueTypes
begin

text \<open>
  Operations of Rust's standard library that the transaction layer uses on strings (UTF-8 bytes, one
  \<open>char\<close> each) and on vectors: ASCII lower case, trimming of Unicode white space, the last position
  that satisfies a predicate.
\<close>

section \<open>Strings\<close>

definition ascii_lower :: "char \<Rightarrow> char" where
  "ascii_lower c = (let n = (of_char c :: nat) in if 65 \<le> n \<and> n \<le> 90 then char_of (n + 32) else c)"

definition to_ascii_lowercase :: "string \<Rightarrow> string" where
  "to_ascii_lowercase s = map ascii_lower s"

text \<open>The UTF-8 forms of the characters with the Unicode property \<^verbatim>\<open>White_Space\<close>.\<close>

definition whitespaces :: "string list" where
  "whitespaces =
     [[CHR 0x09], [CHR 0x0A], [CHR 0x0B], [CHR 0x0C], [CHR 0x0D], [CHR 0x20],
      [CHR 0xC2, CHR 0x85], [CHR 0xC2, CHR 0xA0], [CHR 0xE1, CHR 0x9A, CHR 0x80]]
     @ map (\<lambda>n. [CHR 0xE2, CHR 0x80, char_of n]) ([0x80..<0x8B] @ [0xA8, 0xA9, 0xAF :: nat])
     @ [[CHR 0xE2, CHR 0x81, CHR 0x9F], [CHR 0xE3, CHR 0x80, CHR 0x80]]"

fun strip_front :: "string list \<Rightarrow> nat \<Rightarrow> string \<Rightarrow> string" where
  "strip_front ws 0 s = s"
| "strip_front ws (Suc n) s =
     (case find (starts_with s) ws of
        None \<Rightarrow> s
      | Some w \<Rightarrow> strip_front ws n (drop (length w) s))"

definition trim_end :: "string \<Rightarrow> string" where
  "trim_end t = rev (strip_front (map rev whitespaces) (length t) (rev t))"

definition trim :: "string \<Rightarrow> string" where
  "trim s = trim_end (strip_front whitespaces (length s) s)"

text \<open>\<^verbatim>\<open>str::replace\<close> of any of a set of characters by a string.\<close>

definition replace_chars :: "char list \<Rightarrow> string \<Rightarrow> string \<Rightarrow> string" where
  "replace_chars cs r s = concat (map (\<lambda>c. if c \<in> set cs then r else [c]) s)"

lemma ascii_lower_idem [simp]: "ascii_lower (ascii_lower c) = ascii_lower c"
  by (auto simp: ascii_lower_def Let_def)

lemma to_ascii_lowercase_idem [simp]: "to_ascii_lowercase (to_ascii_lowercase s) = to_ascii_lowercase s"
  by (simp add: to_ascii_lowercase_def comp_def)

definition graphic :: "char \<Rightarrow> bool" where
  "graphic c \<longleftrightarrow> 32 < (of_char c :: nat) \<and> (of_char c :: nat) < 128"

lemma whitespaces_not_graphic:
  "list_all (\<lambda>w. w \<noteq> [] \<and> \<not> graphic (hd w)) whitespaces"
  "list_all (\<lambda>w. w \<noteq> [] \<and> \<not> graphic (hd w)) (map rev whitespaces)"
  by code_simp+

lemma strip_front_graphic:
  assumes "graphic c" and "list_all (\<lambda>w. w \<noteq> [] \<and> \<not> graphic (hd w)) ws"
  shows "strip_front ws n (c # s) = c # s"
proof -
  have "\<not> starts_with (c # s) w" if "w \<in> set ws" for w
    using assms that by (cases w) (auto simp: starts_with_def list_all_iff)
  then have "find (starts_with (c # s)) ws = None" by (simp add: find_None_iff)
  then show ?thesis by (cases n) simp_all
qed

text \<open>A string that starts and ends with a graphic ASCII character has nothing to trim.\<close>

lemma trim_graphic: "graphic c \<Longrightarrow> graphic (last (c # s)) \<Longrightarrow> trim (c # s) = c # s"
proof -
  assume c: "graphic c" "graphic (last (c # s))"
  have "rev (c # s) = last (c # s) # rev (butlast (c # s))"
    by (metis append_butlast_last_id list.distinct(1) rev_eq_Cons_iff rev_rev_ident)
  then show ?thesis
    using strip_front_graphic [OF c(2) whitespaces_not_graphic(2)]
    by (simp only: trim_def trim_end_def strip_front_graphic [OF c(1) whitespaces_not_graphic(1)])
      (metis rev_rev_ident)
qed

section \<open>Vectors\<close>

text \<open>\<^verbatim>\<open>Iterator::rposition\<close>: the last position whose element satisfies the predicate.\<close>

definition rposition :: "('a \<Rightarrow> bool) \<Rightarrow> 'a list \<Rightarrow> nat option" where
  "rposition P xs =
     (let ps = filter (\<lambda>i. P (xs ! i)) [0..<length xs] in if ps = [] then None else Some (last ps))"

lemma rposition_None: "rposition P xs = None \<longleftrightarrow> (\<forall>x \<in> set xs. \<not> P x)"
  by (auto simp: rposition_def Let_def filter_empty_conv all_set_conv_all_nth)

lemma rposition_Nil [simp]: "rposition P [] = None"
  by (simp add: rposition_def)

lemma rposition_snoc: "rposition P (xs @ [x]) = (if P x then Some (length xs) else rposition P xs)"
proof -
  have "filter (\<lambda>i. P ((xs @ [x]) ! i)) [0..<length xs] = filter (\<lambda>i. P (xs ! i)) [0..<length xs]"
    by (rule filter_cong) (auto simp: nth_append)
  then show ?thesis by (simp add: rposition_def Let_def)
qed

lemma rposition_Some:
  "rposition P xs = Some i \<longleftrightarrow> i < length xs \<and> P (xs ! i) \<and> (\<forall>j. i < j \<and> j < length xs \<longrightarrow> \<not> P (xs ! j))"
proof (induction xs rule: rev_induct)
  case (snoc x xs)
  show ?case
  proof (cases "P x")
    case True
    then have last: "P ((xs @ [x]) ! length xs)" by simp
    have "length xs = i" if "i < Suc (length xs)" "\<forall>j. i < j \<and> j < Suc (length xs) \<longrightarrow> \<not> P ((xs @ [x]) ! j)"
      using that last by (cases "i < length xs") auto
    with True show ?thesis by (auto simp: rposition_snoc)
  next
    case False
    have "(\<forall>j. i < j \<and> j < Suc (length xs) \<longrightarrow> \<not> P ((xs @ [x]) ! j))
        \<longleftrightarrow> (\<forall>j. i < j \<and> j < length xs \<longrightarrow> \<not> P (xs ! j))"
      using False by (auto simp: less_Suc_eq nth_append)
    with False show ?thesis by (auto simp: rposition_snoc snoc.IH nth_append less_Suc_eq)
  qed
qed simp

lemma rposition_append:
  "rposition P (xs @ ys)
     = (case rposition P ys of Some i \<Rightarrow> Some (length xs + i) | None \<Rightarrow> rposition P xs)"
  by (induction ys rule: rev_induct) (simp_all add: rposition_snoc flip: append_assoc)

text \<open>\<^verbatim>\<open>Iterator::min\<close> on a vector.\<close>

fun list_min :: "'a::linorder list \<Rightarrow> 'a option" where
  "list_min [] = None"
| "list_min (x # xs) = (case list_min xs of None \<Rightarrow> Some x | Some m \<Rightarrow> Some (min x m))"

lemma list_min_None [simp]: "list_min xs = None \<longleftrightarrow> xs = []"
  by (cases xs) (auto split: option.splits)

lemma list_min_le: "list_min xs = Some m \<Longrightarrow> x \<in> set xs \<Longrightarrow> m \<le> x"
  by (induction xs arbitrary: m) (auto simp: min_le_iff_disj split: option.splits)

lemma list_min_in: "list_min xs = Some m \<Longrightarrow> m \<in> set xs"
  by (induction xs arbitrary: m) (auto simp: min_def split: option.splits if_splits)

end
