(* ===== verification/Mvcc.thy ===== *)
theory Mvcc
  imports StdLib
begin

text \<open>
  Multi-version concurrency control, \<^verbatim>\<open>src/src/vm/mvcc.rs\<close>: the undo log with savepoints and
  purging, isolation levels, the transaction registry and its snapshots, and the visibility filter
  that a scan applies. The size of a \<^verbatim>\<open>Value\<close> in memory (\<^verbatim>\<open>size_of_val\<close>), which only enters the
  size statistics, is the parameter \<open>vsize\<close>.
\<close>

section \<open>Undo log\<close>

datatype undo_entry =
    UndoInsert string i64 u64
  | UndoUpdate string i64 row u64
  | UndoDelete string i64 row u64
  | UndoSavepoint string u64

fun txn_id :: "undo_entry \<Rightarrow> u64" where
  "txn_id (UndoInsert _ _ t) = t"
| "txn_id (UndoUpdate _ _ _ t) = t"
| "txn_id (UndoDelete _ _ _ t) = t"
| "txn_id (UndoSavepoint _ t) = t"

fun table_name :: "undo_entry \<Rightarrow> string option" where
  "table_name (UndoInsert tbl _ _) = Some tbl"
| "table_name (UndoUpdate tbl _ _ _) = Some tbl"
| "table_name (UndoDelete tbl _ _ _) = Some tbl"
| "table_name (UndoSavepoint _ _) = None"

record undo_log =
  undo_entries :: "undo_entry list"
  size_bytes :: nat

definition undo_new :: undo_log where
  "undo_new = \<lparr>undo_entries = [], size_bytes = 0\<rparr>"

fun entry_size :: "nat \<Rightarrow> undo_entry \<Rightarrow> nat" where
  "entry_size vsize (UndoInsert tbl _ _) = 64 + length tbl"
| "entry_size vsize (UndoUpdate tbl _ old_row _) = 64 + length tbl + sum_list (map (\<lambda>v. vsize + 16) old_row)"
| "entry_size vsize (UndoDelete tbl _ old_row _) = 64 + length tbl + sum_list (map (\<lambda>v. vsize + 16) old_row)"
| "entry_size vsize (UndoSavepoint name _) = 64 + length name"

definition undo_push :: "nat \<Rightarrow> undo_entry \<Rightarrow> undo_log \<Rightarrow> undo_log" where
  "undo_push vsize e l =
     l\<lparr>size_bytes := size_bytes l + entry_size vsize e, undo_entries := undo_entries l @ [e]\<rparr>"

definition undo_savepoint :: "nat \<Rightarrow> string \<Rightarrow> u64 \<Rightarrow> undo_log \<Rightarrow> undo_log" where
  "undo_savepoint vsize name t l = undo_push vsize (UndoSavepoint name t) l"

definition undo_clear :: "undo_log \<Rightarrow> undo_log" where
  "undo_clear l = l\<lparr>undo_entries := [], size_bytes := 0\<rparr>"

definition sizes :: "nat \<Rightarrow> undo_entry list \<Rightarrow> nat" where
  "sizes vsize es = sum_list (map (entry_size vsize) es)"

fun is_savepoint :: "string \<Rightarrow> undo_entry \<Rightarrow> bool" where
  "is_savepoint name (UndoSavepoint n _) \<longleftrightarrow> eq_ignore_ascii_case n name"
| "is_savepoint name _ \<longleftrightarrow> False"

definition rollback_to_savepoint :: "nat \<Rightarrow> string \<Rightarrow> undo_log \<Rightarrow> undo_entry list \<times> undo_log" where
  "rollback_to_savepoint vsize name l =
     (case rposition (is_savepoint name) (undo_entries l) of
        Some idx \<Rightarrow>
          (let kept = take (idx + 1) (undo_entries l)
           in (rev (drop (idx + 1) (undo_entries l)),
               l\<lparr>undo_entries := kept, size_bytes := sizes vsize kept\<rparr>))
      | None \<Rightarrow> ([], l))"

definition undo_purge :: "nat \<Rightarrow> u64 \<Rightarrow> undo_log \<Rightarrow> undo_log" where
  "undo_purge vsize min_active l =
     (let kept = filter (\<lambda>e. min_active \<le> txn_id e) (undo_entries l)
      in l\<lparr>undo_entries := kept, size_bytes := sizes vsize kept\<rparr>)"

record undo_log_stats =
  total_entries :: nat
  stat_size_bytes :: nat
  inserts :: nat
  updates :: nat
  deletes :: nat
  savepoints :: nat

fun count_entry :: "undo_entry \<Rightarrow> undo_log_stats \<Rightarrow> undo_log_stats" where
  "count_entry (UndoInsert _ _ _) s = s\<lparr>inserts := inserts s + 1\<rparr>"
| "count_entry (UndoUpdate _ _ _ _) s = s\<lparr>updates := updates s + 1\<rparr>"
| "count_entry (UndoDelete _ _ _ _) s = s\<lparr>deletes := deletes s + 1\<rparr>"
| "count_entry (UndoSavepoint _ _) s = s\<lparr>savepoints := savepoints s + 1\<rparr>"

definition undo_stats :: "undo_log \<Rightarrow> undo_log_stats" where
  "undo_stats l =
     fold count_entry (undo_entries l)
       \<lparr>total_entries = length (undo_entries l), stat_size_bytes = size_bytes l,
        inserts = 0, updates = 0, deletes = 0, savepoints = 0\<rparr>"

section \<open>Isolation levels\<close>

datatype isolation_level = Serializable | RepeatableRead | ReadCommitted | ReadUncommitted

fun isolation_display :: "isolation_level \<Rightarrow> string" where
  "isolation_display Serializable = ''SERIALIZABLE''"
| "isolation_display RepeatableRead = ''REPEATABLE READ''"
| "isolation_display ReadCommitted = ''READ COMMITTED''"
| "isolation_display ReadUncommitted = ''READ UNCOMMITTED''"

definition isolation_of_name :: "string \<Rightarrow> isolation_level option" where
  "isolation_of_name n =
     (if n = ''serializable'' \<or> n = ''snapshot'' then Some Serializable
      else if n = ''repeatable read'' \<or> n = ''repeatableread'' then Some RepeatableRead
      else if n = ''read committed'' \<or> n = ''readcommitted'' then Some ReadCommitted
      else if n = ''read uncommitted'' \<or> n = ''readuncommitted'' then Some ReadUncommitted
      else None)"

definition isolation_from_str_loose :: "string \<Rightarrow> isolation_level option" where
  "isolation_from_str_loose s =
     isolation_of_name (trim (replace_chars [CHR ''-'', CHR ''_''] '' '' (to_ascii_lowercase s)))"

definition uses_begin_snapshot :: "isolation_level \<Rightarrow> bool" where
  "uses_begin_snapshot l \<longleftrightarrow> l = Serializable \<or> l = RepeatableRead"

definition requires_read_set_validation :: "isolation_level \<Rightarrow> bool" where
  "requires_read_set_validation l \<longleftrightarrow> l = Serializable"

definition allows_dirty_reads :: "isolation_level \<Rightarrow> bool" where
  "allows_dirty_reads l \<longleftrightarrow> l = ReadUncommitted"

section \<open>Snapshots and the registry\<close>

record mvcc_snapshot =
  reader_txn_id :: u64
  active_txn_ids :: "u64 list"
  max_committed_txn_id :: u64

definition is_visible :: "mvcc_snapshot \<Rightarrow> u64 \<Rightarrow> bool" where
  "is_visible s creator =
     (if creator = reader_txn_id s then True
      else if creator > max_committed_txn_id s then False
      else if creator \<in> set (active_txn_ids s) then False
      else True)"

record transaction_registry =
  active_txns :: "u64 list"
  next_txn_id :: u64
  max_committed :: u64

definition registry_new :: transaction_registry where
  "registry_new = \<lparr>active_txns = [], next_txn_id = 1, max_committed = 0\<rparr>"

definition registry_begin :: "transaction_registry \<Rightarrow> u64 \<times> transaction_registry" where
  "registry_begin r =
     (let t = next_txn_id r
      in (t, r\<lparr>next_txn_id := next_txn_id r + 1, active_txns := active_txns r @ [t]\<rparr>))"

definition registry_commit :: "u64 \<Rightarrow> transaction_registry \<Rightarrow> transaction_registry" where
  "registry_commit t r =
     (let r1 = r\<lparr>active_txns := filter (\<lambda>i. i \<noteq> t) (active_txns r)\<rparr>
      in if t > max_committed r1 then r1\<lparr>max_committed := t\<rparr> else r1)"

definition registry_abort :: "u64 \<Rightarrow> transaction_registry \<Rightarrow> transaction_registry" where
  "registry_abort t r = r\<lparr>active_txns := filter (\<lambda>i. i \<noteq> t) (active_txns r)\<rparr>"

definition registry_snapshot :: "transaction_registry \<Rightarrow> u64 \<Rightarrow> mvcc_snapshot" where
  "registry_snapshot r reader =
     \<lparr>reader_txn_id = reader, active_txn_ids = active_txns r, max_committed_txn_id = max_committed r\<rparr>"

definition min_active_txn_id :: "transaction_registry \<Rightarrow> u64" where
  "min_active_txn_id r = (case list_min (active_txns r) of Some m \<Rightarrow> m | None \<Rightarrow> next_txn_id r)"

definition auto_purge :: "nat \<Rightarrow> transaction_registry \<Rightarrow> undo_log \<Rightarrow> nat \<times> undo_log" where
  "auto_purge vsize r l =
     (let l' = undo_purge vsize (min_active_txn_id r) l
      in (length (undo_entries l) - length (undo_entries l'), l'))"

definition snapshot_read_uncommitted :: "transaction_registry \<Rightarrow> u64 \<Rightarrow> mvcc_snapshot" where
  "snapshot_read_uncommitted r reader =
     \<lparr>reader_txn_id = reader, active_txn_ids = [], max_committed_txn_id = - 1\<rparr>"

definition snapshot_for_isolation :: "transaction_registry \<Rightarrow> u64 \<Rightarrow> isolation_level \<Rightarrow> mvcc_snapshot" where
  "snapshot_for_isolation r reader level =
     (case level of
        ReadUncommitted \<Rightarrow> snapshot_read_uncommitted r reader
      | _ \<Rightarrow> registry_snapshot r reader)"

section \<open>Visibility filter\<close>

fun delta_entry :: "mvcc_snapshot \<Rightarrow> string \<Rightarrow> undo_entry \<Rightarrow> i64 set \<times> (i64 \<times> row) list \<Rightarrow> i64 set \<times> (i64 \<times> row) list" where
  "delta_entry s tbl (UndoInsert t rowid x) (hid, rst) =
     (if to_ascii_lowercase t = tbl \<and> \<not> is_visible s x then (insert rowid hid, rst) else (hid, rst))"
| "delta_entry s tbl (UndoDelete t rowid old x) (hid, rst) =
     (if to_ascii_lowercase t = tbl \<and> \<not> is_visible s x then (hid, rst @ [(rowid, old)]) else (hid, rst))"
| "delta_entry s tbl (UndoUpdate t rowid old x) (hid, rst) =
     (if to_ascii_lowercase t = tbl \<and> \<not> is_visible s x then (insert rowid hid, rst @ [(rowid, old)]) else (hid, rst))"
| "delta_entry s tbl (UndoSavepoint _ _) (hid, rst) = (hid, rst)"

definition compute_visibility_delta ::
    "undo_log \<Rightarrow> mvcc_snapshot \<Rightarrow> string \<Rightarrow> i64 set \<times> (i64 \<times> row) list" where
  "compute_visibility_delta l s name =
     fold (delta_entry s (to_ascii_lowercase name)) (undo_entries l) ({}, [])"

text \<open>The scan of a table under a snapshot (\<^verbatim>\<open>VM::eval_from\<close> in \<^verbatim>\<open>src/src/vm/exec_select.rs\<close>), on
  the rows that the B-tree scan gives.\<close>

definition snapshot_scan :: "undo_log \<Rightarrow> mvcc_snapshot \<Rightarrow> string \<Rightarrow> (i64 \<times> row) list \<Rightarrow> row list" where
  "snapshot_scan l s name all_rows =
     (let (hid, rst) = compute_visibility_delta l s name
      in map snd (filter (\<lambda>(rowid, _). rowid \<notin> hid) all_rows) @ map snd rst)"

section \<open>Properties of the undo log\<close>

definition undo_inv :: "nat \<Rightarrow> undo_log \<Rightarrow> bool" where
  "undo_inv vsize l \<longleftrightarrow> size_bytes l = sizes vsize (undo_entries l)"

lemma undo_inv_ops [simp]:
  "undo_inv v undo_new" "undo_inv v l \<Longrightarrow> undo_inv v (undo_push v e l)"
  "undo_inv v (undo_clear l)" "undo_inv v (undo_purge v m l)"
  "undo_inv v l \<Longrightarrow> undo_inv v (snd (rollback_to_savepoint v n l))"
  by (auto simp: undo_inv_def undo_new_def undo_push_def undo_clear_def undo_purge_def
      rollback_to_savepoint_def sizes_def Let_def split: option.splits)

lemma undo_push_all:
  "fold (undo_push v) es l = l\<lparr>size_bytes := size_bytes l + sizes v es, undo_entries := undo_entries l @ es\<rparr>"
  by (induction es arbitrary: l) (simp_all add: undo_push_def sizes_def)

text \<open>partial rollback. After a savepoint and any further entries without a savepoint of that name
  (compared without case), rolling back to the savepoint returns exactly those entries, newest first,
  and leaves the log as it was right after the savepoint, its size estimate included.\<close>

lemma rollback_to_savepoint_undoes:
  assumes "undo_inv v l" and "eq_ignore_ascii_case name name'"
    and "list_all (\<lambda>e. \<not> is_savepoint name' e) es"
  shows "rollback_to_savepoint v name' (fold (undo_push v) es (undo_savepoint v name t l))
     = (rev es, undo_savepoint v name t l)"
proof -
  have "rposition (is_savepoint name') es = None"
    using assms(3) by (simp add: rposition_None list_all_iff)
  then have "rposition (is_savepoint name') (undo_entries l @ UndoSavepoint name t # es)
      = Some (length (undo_entries l))"
    using assms(2) rposition_append [of "is_savepoint name'" "undo_entries l @ [UndoSavepoint name t]" es]
    by (simp add: rposition_snoc)
  then show ?thesis
    using assms(1)
    by (simp add: rollback_to_savepoint_def undo_savepoint_def undo_push_all undo_push_def undo_inv_def sizes_def)
qed

lemma rollback_to_savepoint_undoes_witness:
  "rollback_to_savepoint 24 ''SP1''
     (undo_push 24 (UndoInsert ''t'' 7 3) (undo_savepoint 24 ''sp1'' 3 undo_new))
   = ([UndoInsert ''t'' 7 3], undo_savepoint 24 ''sp1'' 3 undo_new)"
proof -
  have "eq_ignore_ascii_case ''sp1'' ''SP1''" by code_simp
  then show ?thesis
    using rollback_to_savepoint_undoes [of 24 undo_new "''sp1''" "''SP1''" "[UndoInsert ''t'' 7 3]" 3] by simp
qed

section \<open>Isolation levels are parsed as they are printed\<close>

lemma isolation_normal_form:
  "replace_chars [CHR ''-'', CHR ''_''] '' '' (to_ascii_lowercase (isolation_display l)) =
     (case l of Serializable \<Rightarrow> ''serializable'' | RepeatableRead \<Rightarrow> ''repeatable read''
      | ReadCommitted \<Rightarrow> ''read committed'' | ReadUncommitted \<Rightarrow> ''read uncommitted'')"
  by (cases l) (simp_all add: to_ascii_lowercase_def ascii_lower_def replace_chars_def char_of_def bit_0)

lemma isolation_round_trip: "isolation_from_str_loose (isolation_display l) = Some l"
  unfolding isolation_from_str_loose_def isolation_normal_form
  by (cases l) (simp_all add: trim_graphic graphic_def isolation_of_name_def)

section \<open>Runs of the registry\<close>

text \<open>
  A run interleaves any number of transactions. Beside the registry a state has the transactions that
  committed and those that aborted so far. The counter does not wrap around.
\<close>

type_synonym txn_state = "transaction_registry \<times> u64 set \<times> u64 set"

inductive txn_step :: "txn_state \<Rightarrow> txn_state \<Rightarrow> bool" where
  txn_begin: "next_txn_id r \<noteq> - 1 \<Longrightarrow> txn_step (r, C, A) (snd (registry_begin r), C, A)"
| txn_commit: "t \<in> set (active_txns r) \<Longrightarrow> txn_step (r, C, A) (registry_commit t r, insert t C, A)"
| txn_abort: "t \<in> set (active_txns r) \<Longrightarrow> txn_step (r, C, A) (registry_abort t r, C, insert t A)"

abbreviation txn_runs :: "txn_state \<Rightarrow> txn_state \<Rightarrow> bool" where
  "txn_runs \<equiv> txn_step\<^sup>*\<^sup>*"

definition txn_start :: txn_state where
  "txn_start = (registry_new, {}, {})"

definition txn_inv :: "txn_state \<Rightarrow> bool" where
  "txn_inv = (\<lambda>(r, C, A).
     distinct (active_txns r) \<and> 0 < next_txn_id r
     \<and> set (active_txns r) \<union> C \<union> A = {t. 0 < t \<and> t < next_txn_id r}
     \<and> set (active_txns r) \<inter> C = {} \<and> set (active_txns r) \<inter> A = {} \<and> C \<inter> A = {}
     \<and> (\<forall>t \<in> C. t \<le> max_committed r) \<and> (max_committed r = 0 \<or> max_committed r \<in> C))"

lemma txn_inv_step: "txn_step x y \<Longrightarrow> txn_inv x \<Longrightarrow> txn_inv y"
proof (induction rule: txn_step.induct)
  case (txn_begin r C A)
  let ?n = "next_txn_id r"
  have "{t. 0 < t \<and> t < ?n + 1} = insert ?n {t. 0 < t \<and> t < ?n}"
    using txn_begin u64_less_succ [of ?n] by (auto simp: txn_inv_def)
  moreover have "0 < ?n + 1" using u64_less_succ [OF txn_begin.hyps, of 0] txn_begin.prems
    by (simp add: txn_inv_def)
  ultimately show ?case
    using txn_begin by (auto simp: txn_inv_def registry_begin_def Let_def)
next
  case (txn_commit t r C A)
  then show ?case by (auto simp: txn_inv_def registry_commit_def Let_def)
next
  case (txn_abort t r C A)
  then show ?case by (auto simp: txn_inv_def registry_abort_def)
qed

lemma txn_inv_runs: "txn_runs x y \<Longrightarrow> txn_inv x \<Longrightarrow> txn_inv y"
  by (induction rule: rtranclp_induct) (auto intro: txn_inv_step)

lemma txn_inv_start: "txn_inv txn_start"
  by (auto simp: txn_inv_def txn_start_def registry_new_def word_less_nat_alt)

lemma txn_runs_mono: "txn_runs (r, C, A) (r', C', A') \<Longrightarrow> C \<subseteq> C' \<and> A \<subseteq> A'"
  by (induction "(r', C', A')" arbitrary: r' C' A' rule: rtranclp_induct)
    (auto elim!: txn_step.cases)

text \<open>what a snapshot shows. In every reachable state of the registry, the snapshot of a reader
  shows another transaction exactly if it has committed, or if it has aborted (its writes are gone) and
  lies below the newest committed one; it shows no running and no future transaction.\<close>

lemma snapshot_visible_iff:
  assumes "txn_runs txn_start (r, C, A)" and "0 < t" and "t \<noteq> reader"
  shows "is_visible (registry_snapshot r reader) t \<longleftrightarrow> t \<in> C \<or> t \<in> A \<and> t < max_committed r"
proof -
  have inv: "txn_inv (r, C, A)" using txn_inv_runs [OF assms(1) txn_inv_start] .
  then have "t \<noteq> max_committed r" if "t \<in> A" using that assms(2) by (auto simp: txn_inv_def)
  moreover have "max_committed r < next_txn_id r"
    using inv by (auto simp: txn_inv_def)
  then have "t < next_txn_id r" if "t \<le> max_committed r" using that by simp
  ultimately show ?thesis
    using inv assms(2,3) by (auto simp: is_visible_def registry_snapshot_def txn_inv_def not_less)
qed

definition sample_registry :: transaction_registry where
  "sample_registry = \<lparr>active_txns = [1, 3], next_txn_id = 4, max_committed = 2\<rparr>"

lemma sample_registry_runs: "txn_runs txn_start (sample_registry, {2}, {})"
proof -
  let ?b = "\<lambda>r. snd (registry_begin r)"
  have step: "txn_runs txn_start (?b r, {}, {})"
    if "txn_runs txn_start (r, {}, {})" "next_txn_id r \<noteq> - 1" for r
    using that by (meson rtranclp.rtrancl_into_rtrancl txn_begin)
  have "txn_runs txn_start (registry_new, {}, {})" by (simp add: txn_start_def)
  then have "txn_runs txn_start (?b (?b (?b registry_new)), {}, {})"
    by (intro step) (simp_all add: registry_new_def registry_begin_def)
  moreover have "2 \<in> set (active_txns (?b (?b (?b registry_new))))"
    by (simp add: registry_new_def registry_begin_def)
  ultimately have "txn_runs txn_start (registry_commit 2 (?b (?b (?b registry_new))), {2}, {})"
    by (meson rtranclp.rtrancl_into_rtrancl txn_commit)
  then show ?thesis by (simp add: registry_new_def registry_begin_def registry_commit_def sample_registry_def)
qed

lemma snapshot_visible_iff_witness:
  "is_visible (registry_snapshot sample_registry 3) 2 \<and> \<not> is_visible (registry_snapshot sample_registry 3) 1"
  using snapshot_visible_iff [OF sample_registry_runs, of 2 3] snapshot_visible_iff [OF sample_registry_runs, of 1 3]
  by simp

text \<open>C33: snapshot isolation. A transaction that commits after a snapshot was taken stays invisible in
  it, whatever happened in between; one that had committed before stays visible.\<close>

theorem snapshot_isolation:
  assumes "txn_runs txn_start (r, C, A)" and "txn_runs (r, C, A) (r', C', A')"
    and "t \<in> C'" and "t \<noteq> reader"
  shows "is_visible (registry_snapshot r reader) t \<longleftrightarrow> t \<in> C"
proof -
  have inv: "txn_inv (r, C, A)" using txn_inv_runs [OF assms(1) txn_inv_start] .
  have inv': "txn_inv (r', C', A')" using txn_inv_runs [OF assms(2) inv] .
  have "A \<subseteq> A'" using txn_runs_mono [OF assms(2)] by simp
  with assms(3) inv' have "0 < t" "t \<notin> A" by (auto simp: txn_inv_def)
  moreover have "t \<le> max_committed r \<Longrightarrow> t < next_txn_id r"
    using inv by (auto simp: txn_inv_def intro: le_less_trans)
  ultimately show ?thesis
    using inv assms(4) by (auto simp: is_visible_def registry_snapshot_def txn_inv_def not_less)
qed

theorem snapshot_isolation_witness:
  "\<not> is_visible (registry_snapshot sample_registry 3) 1 \<and> is_visible (registry_snapshot sample_registry 3) 2"
proof -
  have "txn_runs (sample_registry, {2}, {}) (registry_commit 1 sample_registry, {1, 2}, {})"
    by (intro r_into_rtranclp txn_commit) (simp add: sample_registry_def)
  note iso = snapshot_isolation [OF sample_registry_runs this]
  from iso [of 1 3] iso [of 2 3] show ?thesis by simp
qed

text \<open>Purging the undo log for the registry keeps every entry of a transaction that still runs and
  removes only entries of older ones; the number returned is the number of entries removed.\<close>

lemma auto_purge_keeps_active:
  "let (n, l') = auto_purge v r l in
     undo_entries l' = filter (\<lambda>e. min_active_txn_id r \<le> txn_id e) (undo_entries l)
     \<and> n + length (undo_entries l') = length (undo_entries l)
     \<and> {e \<in> set (undo_entries l). txn_id e \<in> set (active_txns r)} \<subseteq> set (undo_entries l')"
  by (auto simp: auto_purge_def undo_purge_def min_active_txn_id_def Let_def length_filter_le
      dest: list_min_le split: option.splits)

section \<open>The visibility filter undoes the invisible entries\<close>

text \<open>The meaning of an undo entry on the rows of its table, as the entries are documented.\<close>

fun undo_on :: "undo_entry \<Rightarrow> (i64 \<rightharpoonup> row) \<Rightarrow> (i64 \<rightharpoonup> row)" where
  "undo_on (UndoInsert _ k _) m = m(k := None)"
| "undo_on (UndoUpdate _ k old _) m = m(k \<mapsto> old)"
| "undo_on (UndoDelete _ k old _) m = m(k \<mapsto> old)"
| "undo_on (UndoSavepoint _ _) m = m"

fun rowids :: "undo_entry list \<Rightarrow> i64 list" where
  "rowids [] = []"
| "rowids (UndoInsert _ k _ # es) = k # rowids es"
| "rowids (UndoUpdate _ k _ _ # es) = k # rowids es"
| "rowids (UndoDelete _ k _ _ # es) = k # rowids es"
| "rowids (UndoSavepoint _ _ # es) = rowids es"

fun deleted_rowids :: "undo_entry list \<Rightarrow> i64 list" where
  "deleted_rowids [] = []"
| "deleted_rowids (UndoDelete _ k _ _ # es) = k # deleted_rowids es"
| "deleted_rowids (_ # es) = deleted_rowids es"

definition hides :: "mvcc_snapshot \<Rightarrow> string \<Rightarrow> undo_entry \<Rightarrow> bool" where
  "hides s tbl e \<longleftrightarrow>
     (case table_name e of Some t \<Rightarrow> to_ascii_lowercase t = tbl | None \<Rightarrow> False) \<and> \<not> is_visible s (txn_id e)"

definition hidden_entries :: "undo_log \<Rightarrow> mvcc_snapshot \<Rightarrow> string \<Rightarrow> undo_entry list" where
  "hidden_entries l s name = filter (hides s (to_ascii_lowercase name)) (undo_entries l)"

fun hidden_ids :: "undo_entry list \<Rightarrow> i64 set" where
  "hidden_ids [] = {}"
| "hidden_ids (UndoInsert _ k _ # es) = insert k (hidden_ids es)"
| "hidden_ids (UndoUpdate _ k _ _ # es) = insert k (hidden_ids es)"
| "hidden_ids (_ # es) = hidden_ids es"

fun restored_rows :: "undo_entry list \<Rightarrow> (i64 \<times> row) list" where
  "restored_rows [] = []"
| "restored_rows (UndoUpdate _ k old _ # es) = (k, old) # restored_rows es"
| "restored_rows (UndoDelete _ k old _ # es) = (k, old) # restored_rows es"
| "restored_rows (_ # es) = restored_rows es"

lemma fold_delta_entry:
  "fold (delta_entry s tbl) es (h, r)
     = (h \<union> hidden_ids (filter (hides s tbl) es), r @ restored_rows (filter (hides s tbl) es))"
proof (induction es arbitrary: h r)
  case (Cons e es)
  then show ?case by (cases e) (auto simp: hides_def)
qed simp

lemma compute_visibility_delta_eq:
  "compute_visibility_delta l s name
     = (hidden_ids (hidden_entries l s name), restored_rows (hidden_entries l s name))"
  by (simp add: compute_visibility_delta_def hidden_entries_def fold_delta_entry)

lemma restored_rowids: "fst ` set (restored_rows es) \<subseteq> set (rowids es)"
  by (induction es rule: rowids.induct) auto

lemma hidden_restored_distinct: "distinct (rowids es) \<Longrightarrow> distinct (map fst (restored_rows es))"
  using restored_rowids by (induction es rule: rowids.induct) auto

lemma restored_fresh: "k \<notin> set (rowids es) \<Longrightarrow> map_of (restored_rows es) k = None"
  using restored_rowids [of es] by (auto simp: map_of_eq_None_iff)

lemma hidden_fresh: "k \<notin> set (rowids es) \<Longrightarrow> k \<notin> hidden_ids es"
  by (induction es rule: rowids.induct) auto

definition delta_view :: "(i64 \<rightharpoonup> row) \<Rightarrow> undo_entry list \<Rightarrow> (i64 \<rightharpoonup> row)" where
  "delta_view m es = map_of (restored_rows es) ++ (m |` (- hidden_ids es))"

lemma delta_view_undoes:
  assumes "distinct (rowids es)" and "\<forall>k \<in> set (deleted_rowids es). m k = None"
  shows "delta_view m es = fold undo_on (rev es) m"
  using assms
proof (induction es rule: rowids.induct)
  case (2 t k x es)
  from "2.prems" have "delta_view m (UndoInsert t k x # es) = (delta_view m es)(k := None)"
    by (auto simp: delta_view_def map_add_def restrict_map_def restored_fresh fun_eq_iff split: option.splits)
  with 2 show ?case by simp
next
  case (3 t k old x es)
  from "3.prems" have "delta_view m (UndoUpdate t k old x # es) = (delta_view m es)(k \<mapsto> old)"
    by (auto simp: delta_view_def map_add_def restrict_map_def restored_fresh fun_eq_iff split: option.splits)
  with 3 show ?case by simp
next
  case (4 t k old x es)
  from "4.prems" have "delta_view m (UndoDelete t k old x # es) = (delta_view m es)(k \<mapsto> old)"
    by (auto simp: delta_view_def map_add_def restrict_map_def fun_eq_iff split: option.splits)
  with 4 show ?case by simp
qed (simp_all add: delta_view_def restrict_map_def)

lemma map_of_filter_key: "map_of (filter (\<lambda>(k, _). P k) xs) = map_of xs |` {k. P k}"
  by (induction xs) (auto simp: restrict_map_def fun_eq_iff)

text \<open>C37: the scan of a table under a snapshot. If the snapshot does not see some writers of the table
  and each of their entries concerns another row, the scan returns exactly the rows of the table from
  before these writes, each row once: undoing the invisible entries, newest first, on the scanned table.\<close>

theorem snapshot_scan_undoes_invisible:
  assumes "distinct (map fst rows)" and "distinct (rowids (hidden_entries l s name))"
    and "set (deleted_rowids (hidden_entries l s name)) \<inter> fst ` set rows = {}"
  shows "\<exists>L. snapshot_scan l s name rows = map snd L \<and> distinct (map fst L)
     \<and> map_of L = fold undo_on (rev (hidden_entries l s name)) (map_of rows)"
proof -
  let ?es = "hidden_entries l s name"
  let ?L = "filter (\<lambda>(k, _). k \<notin> hidden_ids ?es) rows @ restored_rows ?es"
  have "snapshot_scan l s name rows = map snd ?L"
    by (simp add: snapshot_scan_def compute_visibility_delta_eq)
  moreover have "k \<in> hidden_ids es \<or> k \<in> set (deleted_rowids es)" if "k \<in> fst ` set (restored_rows es)" for k es
    using that by (induction es rule: rowids.induct) auto
  then have "fst ` {x \<in> set rows. fst x \<notin> hidden_ids ?es} \<inter> fst ` set (restored_rows ?es) = {}"
    using assms(3) by auto
  then have "distinct (map fst ?L)"
    using assms(1) hidden_restored_distinct [OF assms(2)]
    by (simp add: distinct_map_filter case_prod_unfold)
  moreover have "map_of ?L = fold undo_on (rev ?es) (map_of rows)"
    using assms by (subst delta_view_undoes [symmetric])
      (auto simp: delta_view_def map_of_filter_key Compl_eq map_of_eq_None_iff)
  ultimately show ?thesis by blast
qed

text \<open>An uncommitted transaction, number 1 of the registry above, changed a table that reader 3 scans.\<close>

definition sample_log :: "undo_entry list \<Rightarrow> undo_log" where
  "sample_log es = fold (undo_push 24) es undo_new"

lemma sample_log_hidden:
  "list_all (\<lambda>e. table_name e = Some ''t'' \<and> txn_id e = 1) es \<Longrightarrow>
     hidden_entries (sample_log es) (registry_snapshot sample_registry 3) ''t'' = es"
  by (auto simp: hidden_entries_def sample_log_def undo_push_all undo_new_def filter_id_conv list_all_iff
      hides_def is_visible_def registry_snapshot_def sample_registry_def)

theorem snapshot_scan_undoes_invisible_witness:
  "\<exists>L :: (i64 \<times> row) list. snapshot_scan (sample_log [UndoUpdate ''t'' 1 [Integer 10] 1, UndoInsert ''t'' 2 1])
       (registry_snapshot sample_registry 3) ''t'' [(1, [Integer 11]), (2, [Integer 20])] = map snd L
     \<and> distinct (map fst L) \<and> map_of L = [1 \<mapsto> [Integer 10]]"
proof -
  let ?es = "[UndoUpdate ''t'' 1 [Integer 10] 1, UndoInsert ''t'' 2 1]"
  have "hidden_entries (sample_log ?es) (registry_snapshot sample_registry 3) ''t'' = ?es"
    by (rule sample_log_hidden) simp
  then show ?thesis
    using snapshot_scan_undoes_invisible [of "[(1, [Integer 11]), (2, [Integer 20])]" "sample_log ?es"
        "registry_snapshot sample_registry 3" "''t''"] by (simp add: fun_upd_twist)
qed

text \<open>without that condition the filter lets uncommitted data through. Transaction 1, still running,
  inserted a row and then updated it; the scan of reader 3 returns the inserted version, though before
  these writes the table was empty and undoing both gives the empty table.\<close>

lemma snapshot_scan_dirty_read:
  "let es = [UndoInsert ''t'' 2 1, UndoUpdate ''t'' 2 [Integer 20] 1]; s = registry_snapshot sample_registry 3
   in \<not> is_visible s 1
    \<and> snapshot_scan (sample_log es) s ''t'' [(2, [Integer 21])] = [[Integer 20]]
    \<and> fold undo_on (rev es) (map_of [(2, [Integer 21])]) = Map.empty"
proof -
  let ?es = "[UndoInsert ''t'' 2 1, UndoUpdate ''t'' 2 [Integer 20] 1]"
  have "hidden_entries (sample_log ?es) (registry_snapshot sample_registry 3) ''t'' = ?es"
    by (rule sample_log_hidden) simp
  then show ?thesis
    by (simp add: snapshot_scan_def compute_visibility_delta_eq is_visible_def registry_snapshot_def sample_registry_def)
qed

end
