(* ===== verification/LockSpec.thy ===== *)
theory LockSpec
  imports KkPrelude
begin

text \<open>
  Contracts of the concurrency components. \<open>write_locks\<close> is what a manager of exclusive locks
  promises; a transaction that holds a lock keeps it, and every other one is refused, until it releases.
  Keys that denote the same resource have the same canonical form. \<open>deadlock_check\<close> is what a wait-for graph promises; adding only the waits that pass the check keeps
  the graph without cycles.
\<close>

section \<open>Exclusive locks\<close>

datatype ('k, 't) lock_op = Acquire 'k 't | Release 't

fun run_lock_op :: "('k \<Rightarrow> 't \<Rightarrow> 's \<Rightarrow> 's option) \<Rightarrow> ('t \<Rightarrow> 's \<Rightarrow> 's) \<Rightarrow> ('k, 't) lock_op \<Rightarrow> 's \<Rightarrow> 's" where
  "run_lock_op acquire release (Acquire k t) s = (case acquire k t s of Some s' \<Rightarrow> s' | None \<Rightarrow> s)"
| "run_lock_op acquire release (Release t) s = release t s"

fun run_locks :: "('k \<Rightarrow> 't \<Rightarrow> 's \<Rightarrow> 's option) \<Rightarrow> ('t \<Rightarrow> 's \<Rightarrow> 's) \<Rightarrow> ('k, 't) lock_op list \<Rightarrow> 's \<Rightarrow> 's" where
  "run_locks acquire release [] s = s"
| "run_locks acquire release (x # xs) s = run_locks acquire release xs (run_lock_op acquire release x s)"

locale write_locks =
  fixes canon :: "'k \<Rightarrow> 'c"
    and holder :: "'s \<Rightarrow> 'c \<Rightarrow> 't option"
    and acquire :: "'k \<Rightarrow> 't \<Rightarrow> 's \<Rightarrow> 's option"
    and release :: "'t \<Rightarrow> 's \<Rightarrow> 's"
    and lock_ok :: "'s \<Rightarrow> bool"
  assumes acquire_refused: "lock_ok s \<Longrightarrow> acquire k t s = None \<longleftrightarrow> (\<exists>u. holder s (canon k) = Some u \<and> u \<noteq> t)"
    and acquire_granted: "lock_ok s \<Longrightarrow> acquire k t s = Some s' \<Longrightarrow> holder s' = (holder s)(canon k \<mapsto> t)"
    and acquire_ok: "lock_ok s \<Longrightarrow> acquire k t s = Some s' \<Longrightarrow> lock_ok s'"
    and release_holder: "lock_ok s \<Longrightarrow> holder (release t s) c = (if holder s c = Some t then None else holder s c)"
    and release_ok: "lock_ok s \<Longrightarrow> lock_ok (release t s)"
begin

lemma run_op_ok: "lock_ok s \<Longrightarrow> lock_ok (run_lock_op acquire release x s)"
  by (cases x) (auto simp: acquire_ok release_ok split: option.splits)

lemma run_ok: "lock_ok s \<Longrightarrow> lock_ok (run_locks acquire release xs s)"
  by (induction xs arbitrary: s) (simp_all add: run_op_ok)

lemma run_op_keeps:
  assumes "lock_ok s" and "holder s c = Some t" and "x \<noteq> Release t"
  shows "holder (run_lock_op acquire release x s) c = Some t"
proof (cases x)
  case (Acquire k' u)
  show ?thesis
  proof (cases "acquire k' u s")
    case (Some s')
    moreover have "u = t" if "canon k' = c"
      using Some that acquire_refused [OF assms(1), of k' u] assms(2) by auto
    ultimately show ?thesis using acquire_granted [OF assms(1) Some] assms(2) Acquire by simp
  qed (simp add: Acquire assms(2))
next
  case (Release u)
  with assms release_holder [OF assms(1)] show ?thesis by simp
qed

lemma held_until_release:
  assumes "lock_ok s" and "holder s c = Some t" and "Release t \<notin> set xs"
  shows "holder (run_locks acquire release xs s) c = Some t"
    and "u \<noteq> t \<Longrightarrow> canon k = c \<Longrightarrow> acquire k u (run_locks acquire release xs s) = None"
proof -
  show held: "holder (run_locks acquire release xs s) c = Some t"
    using assms by (induction xs arbitrary: s) (auto simp: run_op_keeps run_op_ok)
  show "u \<noteq> t \<Longrightarrow> canon k = c \<Longrightarrow> acquire k u (run_locks acquire release xs s) = None"
    using acquire_refused [OF run_ok [OF assms(1)]] held by auto
qed

lemma free_after_release:
  "lock_ok s \<Longrightarrow> holder s (canon k) = None \<or> holder s (canon k) = Some t \<Longrightarrow> acquire k u (release t s) \<noteq> None"
  using acquire_refused [OF release_ok, of s k u t] release_holder [of s t "canon k"] by auto

end

section \<open>Wait-for graphs\<close>

datatype 't wait_op = Wait 't 't | StopWaiting 't | Forget 't

text \<open>A client that adds a wait only if the check finds no deadlock.\<close>

fun run_wait_op ::
    "('t \<Rightarrow> 't \<Rightarrow> 'g \<Rightarrow> bool) \<Rightarrow> ('t \<Rightarrow> 't \<Rightarrow> 'g \<Rightarrow> 'g) \<Rightarrow> ('t \<Rightarrow> 'g \<Rightarrow> 'g) \<Rightarrow> ('t \<Rightarrow> 'g \<Rightarrow> 'g) \<Rightarrow> 't wait_op \<Rightarrow> 'g \<Rightarrow> 'g" where
  "run_wait_op deadlocks add stop forget (Wait w h) g = (if deadlocks w h g then g else add w h g)"
| "run_wait_op deadlocks add stop forget (StopWaiting t) g = stop t g"
| "run_wait_op deadlocks add stop forget (Forget t) g = forget t g"

locale deadlock_check =
  fixes waits :: "'g \<Rightarrow> ('t \<times> 't) set"
    and deadlocks :: "'t \<Rightarrow> 't \<Rightarrow> 'g \<Rightarrow> bool"
    and add :: "'t \<Rightarrow> 't \<Rightarrow> 'g \<Rightarrow> 'g"
    and stop :: "'t \<Rightarrow> 'g \<Rightarrow> 'g"
    and forget :: "'t \<Rightarrow> 'g \<Rightarrow> 'g"
  assumes check_exact: "deadlocks w h g \<longleftrightarrow> (h, w) \<in> (waits g)\<^sup>*"
    and add_waits: "waits (add w h g) \<subseteq> insert (w, h) (waits g)"
    and stop_waits: "waits (stop t g) \<subseteq> waits g"
    and forget_waits: "waits (forget t g) \<subseteq> waits g"
begin

lemma add_acyclic:
  assumes "acyclic (waits g)" and "\<not> deadlocks w h g"
  shows "acyclic (waits (add w h g))"
proof (rule acyclic_subset [OF _ add_waits])
  show "acyclic (insert (w, h) (waits g))"
    using assms by (simp add: check_exact)
qed

lemma guarded_acyclic:
  "acyclic (waits g) \<Longrightarrow> acyclic (waits (fold (run_wait_op deadlocks add stop forget) xs g))"
proof (induction xs arbitrary: g)
  case (Cons x xs)
  have "acyclic (waits (run_wait_op deadlocks add stop forget x g))"
    using Cons.prems acyclic_subset [OF _ stop_waits] acyclic_subset [OF _ forget_waits]
    by (cases x) (auto simp: add_acyclic)
  then show ?case by (simp add: Cons.IH)
qed simp

end

end
