(* ===== verification/RowLocks.thy ===== *)
theory RowLocks
  imports Mvcc LockSpec
begin

text \<open>
  The rest of \<^verbatim>\<open>src/src/vm/mvcc.rs\<close>: row locks with optimistic read-set validation, the
  wait-for graph and the transaction timeouts. A \<^verbatim>\<open>HashMap\<close> is a partial function; where the code
  iterates over one, the order does not matter. Time is a number of the clock that the caller reads.
\<close>

section \<open>Row locks\<close>

type_synonym row_lock_key = "string \<times> i64"

record row_lock_manager =
  row_locks :: "row_lock_key \<rightharpoonup> u64"
  txn_locks :: "u64 \<rightharpoonup> row_lock_key list"
  read_sets :: "u64 \<rightharpoonup> row_lock_key list"
  committed_versions :: "row_lock_key \<rightharpoonup> u64"

definition row_lock_manager_new :: row_lock_manager where
  "row_lock_manager_new =
     \<lparr>row_locks = Map.empty, txn_locks = Map.empty, read_sets = Map.empty, committed_versions = Map.empty\<rparr>"

text \<open>\<^verbatim>\<open>entry(k).or_default()\<close> of a map to vectors.\<close>

definition or_default :: "('k \<rightharpoonup> 'v list) \<Rightarrow> 'k \<Rightarrow> 'v list" where
  "or_default m k = (case m k of None \<Rightarrow> [] | Some vs \<Rightarrow> vs)"

definition try_lock_row :: "string \<Rightarrow> i64 \<Rightarrow> u64 \<Rightarrow> row_lock_manager \<Rightarrow> unit res \<times> row_lock_manager" where
  "try_lock_row tbl rowid t m =
     (let key = (to_ascii_lowercase tbl, rowid) in
      case row_locks m key of
        Some h \<Rightarrow>
          if h = t then (Ok (), m)
          else (Err (Internal (''Write-write conflict: row ('' @ fst key @ '', '' @ show_int (sint rowid)
                  @ '') is locked by txn '' @ show_nat (unat h) @ '', txn '' @ show_nat (unat t) @ '' cannot acquire'')), m)
      | None \<Rightarrow>
          (Ok (), m\<lparr>row_locks := (row_locks m)(key \<mapsto> t),
                    txn_locks := (txn_locks m)(t \<mapsto> or_default (txn_locks m) t @ [key])\<rparr>))"

definition record_read :: "string \<Rightarrow> i64 \<Rightarrow> u64 \<Rightarrow> row_lock_manager \<Rightarrow> row_lock_manager" where
  "record_read tbl rowid t m =
     (let key = (to_ascii_lowercase tbl, rowid); rs = or_default (read_sets m) t
      in m\<lparr>read_sets := (read_sets m)(t \<mapsto> (if key \<in> set rs then rs else rs @ [key]))\<rparr>)"

definition release_all :: "u64 \<Rightarrow> row_lock_manager \<Rightarrow> row_lock_manager" where
  "release_all t m =
     (let m1 = (case txn_locks m t of
                  Some keys \<Rightarrow>
                    m\<lparr>txn_locks := (txn_locks m)(t := None),
                      row_locks := fold (\<lambda>key ls. ls(key := None)) keys (row_locks m)\<rparr>
                | None \<Rightarrow> m)
      in m1\<lparr>read_sets := (read_sets m1)(t := None)\<rparr>)"

definition commit_version :: "u64 \<Rightarrow> row_lock_manager \<Rightarrow> row_lock_manager" where
  "commit_version t m =
     (case txn_locks m t of
        Some keys \<Rightarrow>
          m\<lparr>committed_versions := fold (\<lambda>key cs. cs(key \<mapsto> t)) keys (committed_versions m)\<rparr>
      | None \<Rightarrow> m)"

fun validate_reads :: "(row_lock_key \<rightharpoonup> u64) \<Rightarrow> u64 \<Rightarrow> u64 \<Rightarrow> row_lock_key list \<Rightarrow> unit res" where
  "validate_reads cv t snap [] = Ok ()"
| "validate_reads cv t snap (key # keys) =
     (case cv key of
        Some by_txn \<Rightarrow>
          if by_txn > snap \<and> by_txn \<noteq> t
          then Err (Internal (''Serialization failure: row ('' @ fst key @ '', '' @ show_int (sint (snd key))
                 @ '') was modified by committed txn '' @ show_nat (unat by_txn) @ '' after snapshot ''
                 @ show_nat (unat snap)))
          else validate_reads cv t snap keys
      | None \<Rightarrow> validate_reads cv t snap keys)"

definition validate_read_set :: "u64 \<Rightarrow> u64 \<Rightarrow> row_lock_manager \<Rightarrow> unit res" where
  "validate_read_set t snap m =
     (case read_sets m t of
        Some reads \<Rightarrow> validate_reads (committed_versions m) t snap reads
      | None \<Rightarrow> Ok ())"

definition lock_count :: "row_lock_manager \<Rightarrow> nat" where
  "lock_count m = card (dom (row_locks m))"

definition read_set_size :: "u64 \<Rightarrow> row_lock_manager \<Rightarrow> nat" where
  "read_set_size t m = (case read_sets m t of None \<Rightarrow> 0 | Some rs \<Rightarrow> length rs)"

definition gc_versions :: "u64 \<Rightarrow> row_lock_manager \<Rightarrow> row_lock_manager" where
  "gc_versions min_txn m =
     m\<lparr>committed_versions := (\<lambda>k. case committed_versions m k of
          Some v \<Rightarrow> if v \<ge> min_txn then Some v else None | None \<Rightarrow> None)\<rparr>"

section \<open>Wait-for graph\<close>

type_synonym wait_for_graph = "u64 \<rightharpoonup> u64"

definition add_wait :: "u64 \<Rightarrow> u64 \<Rightarrow> wait_for_graph \<Rightarrow> wait_for_graph" where
  "add_wait waiter holder g = g(waiter \<mapsto> holder)"

definition remove_wait :: "u64 \<Rightarrow> wait_for_graph \<Rightarrow> wait_for_graph" where
  "remove_wait waiter g = g(waiter := None)"

definition remove_transaction :: "u64 \<Rightarrow> wait_for_graph \<Rightarrow> wait_for_graph" where
  "remove_transaction t g = (\<lambda>w. if w = t \<or> g w = Some t then None else g w)"

lemma card_compl_insert: "x \<notin> V \<Longrightarrow> card (- insert x V) < card (- (V :: u64 set))"
  by (intro psubset_card_mono) auto

text \<open>The loop ends because every round adds a transaction to the visited ones.\<close>

function follow_waits :: "wait_for_graph \<Rightarrow> u64 \<Rightarrow> u64 set \<Rightarrow> u64 list \<Rightarrow> u64 \<Rightarrow> u64 list option" where
  "follow_waits g waiter visited cycle current =
     (case g current of
        Some nxt \<Rightarrow>
          if nxt = waiter then Some (cycle @ [waiter])
          else if nxt \<in> visited then None
          else follow_waits g waiter (insert nxt visited) (cycle @ [nxt]) nxt
      | None \<Rightarrow> None)"
  by pat_completeness auto
termination
  by (relation "measure (\<lambda>(g, waiter, visited, cycle, current). card (- visited))")
    (simp_all add: card_compl_insert)

declare follow_waits.simps [simp del]

definition detect_deadlock :: "u64 \<Rightarrow> u64 \<Rightarrow> wait_for_graph \<Rightarrow> u64 list option" where
  "detect_deadlock waiter holder g =
     (if waiter = holder then Some [waiter, holder]
      else follow_waits g waiter {waiter, holder} [waiter, holder] holder)"

definition edge_count :: "wait_for_graph \<Rightarrow> nat" where
  "edge_count g = card (dom g)"

section \<open>Timeouts\<close>

record timeout_manager =
  start_times :: "u64 \<rightharpoonup> nat"
  default_timeout :: nat
  timeouts :: "u64 \<rightharpoonup> nat"

definition timeout_manager_new :: "nat \<Rightarrow> timeout_manager" where
  "timeout_manager_new d = \<lparr>start_times = Map.empty, default_timeout = d, timeouts = Map.empty\<rparr>"

definition timeout_begin :: "nat \<Rightarrow> u64 \<Rightarrow> timeout_manager \<Rightarrow> timeout_manager" where
  "timeout_begin now t m = m\<lparr>start_times := (start_times m)(t \<mapsto> now)\<rparr>"

definition set_timeout :: "u64 \<Rightarrow> nat \<Rightarrow> timeout_manager \<Rightarrow> timeout_manager" where
  "set_timeout t d m = m\<lparr>timeouts := (timeouts m)(t \<mapsto> d)\<rparr>"

definition timeout_end :: "u64 \<Rightarrow> timeout_manager \<Rightarrow> timeout_manager" where
  "timeout_end t m = m\<lparr>start_times := (start_times m)(t := None), timeouts := (timeouts m)(t := None)\<rparr>"

definition timeout_for :: "u64 \<Rightarrow> timeout_manager \<Rightarrow> nat" where
  "timeout_for t m = (case timeouts m t of Some d \<Rightarrow> d | None \<Rightarrow> default_timeout m)"

definition is_timed_out :: "nat \<Rightarrow> u64 \<Rightarrow> timeout_manager \<Rightarrow> bool" where
  "is_timed_out now t m = (case start_times m t of Some start \<Rightarrow> now - start \<ge> timeout_for t m | None \<Rightarrow> False)"

definition timed_out_transactions :: "nat \<Rightarrow> timeout_manager \<Rightarrow> u64 set" where
  "timed_out_transactions now m = {t \<in> dom (start_times m). is_timed_out now t m}"

definition set_default_timeout :: "nat \<Rightarrow> timeout_manager \<Rightarrow> timeout_manager" where
  "set_default_timeout d m = m\<lparr>default_timeout := d\<rparr>"

section \<open>Row locks exclude each other\<close>

definition row_canon :: "string \<times> i64 \<Rightarrow> row_lock_key" where
  "row_canon = (\<lambda>(tbl, rowid). (to_ascii_lowercase tbl, rowid))"

definition row_acquire :: "string \<times> i64 \<Rightarrow> u64 \<Rightarrow> row_lock_manager \<Rightarrow> row_lock_manager option" where
  "row_acquire k t m = (case try_lock_row (fst k) (snd k) t m of (Ok _, m') \<Rightarrow> Some m' | _ \<Rightarrow> None)"

definition row_lock_ok :: "row_lock_manager \<Rightarrow> bool" where
  "row_lock_ok m \<longleftrightarrow> (\<forall>k t. row_locks m k = Some t \<longleftrightarrow> k \<in> set (or_default (txn_locks m) t))"

lemma row_lock_ok_new [simp]: "row_lock_ok row_lock_manager_new"
  by (simp add: row_lock_ok_def row_lock_manager_new_def or_default_def)

lemma row_lock_okD: "row_lock_ok m \<Longrightarrow> k \<in> set (or_default (txn_locks m) t) \<longleftrightarrow> row_locks m k = Some t"
  unfolding row_lock_ok_def by blast

lemma row_lock_okI: "(\<And>k t. row_locks m k = Some t \<longleftrightarrow> k \<in> set (or_default (txn_locks m) t)) \<Longrightarrow> row_lock_ok m"
  unfolding row_lock_ok_def by blast

lemma or_default_upd [simp]: "or_default (m(k \<mapsto> v)) k' = (if k' = k then v else or_default m k')"
  "or_default (m(k := None)) k' = (if k' = k then [] else or_default m k')"
  by (simp_all add: or_default_def)

lemma fold_remove_keys: "fold (\<lambda>k ls. ls(k := None)) ks m = (\<lambda>k. if k \<in> set ks then None else m k)"
  by (induction ks arbitrary: m) auto

lemma fold_put_keys: "fold (\<lambda>k ls. ls(k \<mapsto> v)) ks m = (\<lambda>k. if k \<in> set ks then Some v else m k)"
  by (induction ks arbitrary: m) auto

lemma release_all_locks:
  "row_locks (release_all t m) = (\<lambda>k. if k \<in> set (or_default (txn_locks m) t) then None else row_locks m k)"
  "txn_locks (release_all t m) = (txn_locks m)(t := None)"
  by (auto simp: release_all_def Let_def fold_remove_keys or_default_def fun_eq_iff split: option.splits)

lemma row_acquire_eq:
  "row_acquire k t m =
     (case row_locks m (row_canon k) of
        Some h \<Rightarrow> if h = t then Some m else None
      | None \<Rightarrow> Some (m\<lparr>row_locks := (row_locks m)(row_canon k \<mapsto> t),
                       txn_locks := (txn_locks m)(t \<mapsto> or_default (txn_locks m) t @ [row_canon k])\<rparr>))"
  by (cases k) (simp add: row_acquire_def try_lock_row_def row_canon_def Let_def split: option.split)

lemma row_acquire_Some:
  assumes "row_acquire k t m = Some m'"
  shows "m' = m \<and> row_locks m (row_canon k) = Some t \<or>
     row_locks m (row_canon k) = None \<and> row_locks m' = (row_locks m)(row_canon k \<mapsto> t)
     \<and> txn_locks m' = (txn_locks m)(t \<mapsto> or_default (txn_locks m) t @ [row_canon k])"
  using assms by (auto simp: row_acquire_eq split: option.splits if_splits)

interpretation row_lk: write_locks row_canon row_locks row_acquire release_all row_lock_ok
proof unfold_locales
  fix m k t m'
  assume ok: "row_lock_ok m"
  show "row_acquire k t m = None \<longleftrightarrow> (\<exists>u. row_locks m (row_canon k) = Some u \<and> u \<noteq> t)"
    by (auto simp: row_acquire_eq split: option.splits)
  show "row_locks (release_all t m) c = (if row_locks m c = Some t then None else row_locks m c)" for c
    using ok by (simp add: release_all_locks row_lock_okD)
  show "row_lock_ok (release_all t m)"
    using ok by (intro row_lock_okI) (auto simp: release_all_locks row_lock_okD)
  assume a: "row_acquire k t m = Some m'"
  from row_acquire_Some [OF a] show "row_locks m' = (row_locks m)(row_canon k \<mapsto> t)"
    by auto
  show "row_lock_ok m'"
  proof (rule row_lock_okI)
    show "row_locks m' c = Some u \<longleftrightarrow> c \<in> set (or_default (txn_locks m') u)" for c u
      using row_acquire_Some [OF a] ok by (cases "c = row_canon k") (auto simp: row_lock_okD split: if_splits)
  qed
qed

text \<open>C36: mutual exclusion on rows. Once a transaction has obtained the lock of a row, whatever happened
  before, every attempt of another transaction on that row (the table name in any case) fails, through
  any sequence of lock attempts and releases in which the holder does not release.\<close>

theorem row_lock_exclusive:
  assumes "m = run_locks row_acquire release_all before row_lock_manager_new"
    and "try_lock_row tbl rowid t m = (Ok (), m1)" and "Release t \<notin> set between" and "u \<noteq> t"
    and "to_ascii_lowercase tbl' = to_ascii_lowercase tbl"
  shows "\<exists>msg. fst (try_lock_row tbl' rowid u (run_locks row_acquire release_all between m1)) = Err (Internal msg)"
proof -
  have ok: "row_lock_ok m" unfolding assms(1) by (rule row_lk.run_ok) simp
  have a: "row_acquire (tbl, rowid) t m = Some m1" using assms(2) by (simp add: row_acquire_def)
  have "row_locks m1 (row_canon (tbl, rowid)) = Some t" using row_lk.acquire_granted [OF ok a] by simp
  then have "row_locks (run_locks row_acquire release_all between m1) (row_canon (tbl, rowid)) = Some t"
    by (rule row_lk.held_until_release(1) [OF row_lk.acquire_ok [OF ok a] _ assms(3)])
  then show ?thesis using assms(4,5) by (simp add: try_lock_row_def row_canon_def Let_def)
qed

theorem row_lock_exclusive_witness:
  "\<exists>msg. fst (try_lock_row ''T'' 7 2 (run_locks row_acquire release_all [Acquire (''t'', 8) 2, Release 2]
     (snd (try_lock_row ''t'' 7 1 row_lock_manager_new)))) = Err (Internal msg)"
proof -
  have "fst (try_lock_row ''t'' 7 1 row_lock_manager_new) = Ok ()"
    by (simp add: try_lock_row_def row_lock_manager_new_def Let_def)
  then have "try_lock_row ''t'' 7 1 (run_locks row_acquire release_all [] row_lock_manager_new)
      = (Ok (), snd (try_lock_row ''t'' 7 1 row_lock_manager_new))"
    by (simp add: prod_eq_iff)
  moreover have "to_ascii_lowercase ''T'' = to_ascii_lowercase ''t''" by code_simp
  ultimately show ?thesis
    using row_lock_exclusive [OF refl, of "''t''" 7 1 "[]" _ "[Acquire (''t'', 8) 2, Release 2]" 2 "''T''"] by simp
qed

section \<open>Optimistic validation\<close>

lemma validate_reads_Ok:
  "validate_reads cv t snap ks = Ok () \<longleftrightarrow> {k \<in> set ks. \<exists>c. cv k = Some c \<and> c > snap \<and> c \<noteq> t} = {}"
  by (induction ks) (auto split: option.splits)

lemma validate_read_set_conflict:
  assumes "k \<in> set (or_default (read_sets m) t)" and "committed_versions m k = Some c" and "c > snap" and "c \<noteq> t"
  shows "validate_read_set t snap m \<noteq> Ok ()"
proof (cases "read_sets m t")
  case (Some rs)
  with assms have "k \<in> {k \<in> set rs. \<exists>c. committed_versions m k = Some c \<and> c > snap \<and> c \<noteq> t}"
    by (simp add: or_default_def)
  then have "validate_reads (committed_versions m) t snap rs \<noteq> Ok ()"
    unfolding validate_reads_Ok by blast
  with Some show ?thesis by (simp add: validate_read_set_def)
qed (use assms(1) in \<open>simp add: or_default_def\<close>)

text \<open>first committer wins. If a transaction has read a row and another one, newer than the reader's
  snapshot, then locks that row and commits, the reader's validation fails.\<close>

lemma first_committer_wins:
  assumes "row_canon (tbl, rowid) \<in> set (or_default (read_sets m) t)" and "u \<noteq> t" and "u > snap"
    and "row_lock_ok m" and "try_lock_row tbl rowid u m = (Ok (), m1)"
  shows "validate_read_set t snap (release_all u (commit_version u m1)) \<noteq> Ok ()"
proof -
  let ?k = "row_canon (tbl, rowid)" and ?m2 = "commit_version u m1"
  have a: "row_acquire (tbl, rowid) u m = Some m1" using assms(5) by (simp add: row_acquire_def)
  have "?k \<in> set (or_default (txn_locks m1) u)"
    using row_lk.acquire_granted [OF assms(4) a] by (simp add: row_lock_okD [OF row_lk.acquire_ok [OF assms(4) a]])
  then have "committed_versions ?m2 ?k = Some u"
    by (auto simp: commit_version_def fold_put_keys or_default_def split: option.splits)
  then have cv: "committed_versions (release_all u ?m2) ?k = Some u"
    by (simp add: release_all_def Let_def split: option.splits)
  have "read_sets m1 = read_sets m"
    using a by (auto simp: row_acquire_eq split: option.splits if_splits)
  then have "read_sets ?m2 = read_sets m" by (simp add: commit_version_def split: option.splits)
  then have "or_default (read_sets (release_all u ?m2)) t = or_default (read_sets m) t"
    using assms(2) by (simp add: release_all_def Let_def or_default_def split: option.splits)
  with assms(1-3) cv show ?thesis by (intro validate_read_set_conflict) simp_all
qed

lemma first_committer_wins_witness:
  "validate_read_set 3 2 (release_all 5 (commit_version 5
     (snd (try_lock_row ''t'' 7 5 (record_read ''t'' 7 3 row_lock_manager_new))))) \<noteq> Ok ()"
proof -
  let ?m = "record_read ''t'' 7 3 row_lock_manager_new"
  have "row_canon (''t'', 7) \<in> set (or_default (read_sets ?m) 3)" "row_lock_ok ?m"
    by (simp_all add: record_read_def row_lock_manager_new_def row_canon_def Let_def or_default_def row_lock_ok_def)
  moreover have "try_lock_row ''t'' 7 5 ?m = (Ok (), snd (try_lock_row ''t'' 7 5 ?m))"
    by (simp add: try_lock_row_def record_read_def row_lock_manager_new_def Let_def)
  ultimately show ?thesis by (intro first_committer_wins [of "''t''" 7 ?m 3 5 2]) simp_all
qed

text \<open>the comparison of ids misses an older writer. Transaction 1 is invisible in the snapshot of
  transaction 3 because it was running then, though transaction 2 had committed. If 1 now locks a row
  that 3 has read, and commits, the validation of 3 against the snapshot still succeeds.\<close>

lemma validation_misses_older_writer:
  "let snap = registry_snapshot sample_registry 3;
       m1 = record_read ''t'' 7 3 row_lock_manager_new;
       (r, m2) = try_lock_row ''t'' 7 1 m1;
       m3 = release_all 1 (commit_version 1 m2)
   in \<not> is_visible snap 1 \<and> r = Ok () \<and> committed_versions m3 (row_canon (''t'', 7)) = Some 1
    \<and> validate_read_set 3 (max_committed_txn_id snap) m3 = Ok ()"
  by (simp add: Let_def registry_snapshot_def sample_registry_def is_visible_def try_lock_row_def record_read_def
      row_lock_manager_new_def commit_version_def release_all_def or_default_def validate_read_set_def row_canon_def)

section \<open>Deadlocks are found exactly\<close>

definition wait_edges :: "wait_for_graph \<Rightarrow> (u64 \<times> u64) set" where
  "wait_edges g = {(a, b). g a = Some b}"

lemma wait_reach_step:
  assumes "a \<noteq> b"
  shows "(a, b) \<in> (wait_edges g)\<^sup>* \<longleftrightarrow> (case g a of Some c \<Rightarrow> (c, b) \<in> (wait_edges g)\<^sup>* | None \<Rightarrow> False)"
  using assms by (auto simp: wait_edges_def elim: converse_rtranclE
      intro: converse_rtrancl_into_rtrancl split: option.split)

lemma wait_closed_unreachable:
  assumes "(a, b) \<in> (wait_edges g)\<^sup>*" and "a \<in> S" and "\<And>x y. x \<in> S \<Longrightarrow> g x = Some y \<Longrightarrow> y \<in> S"
  shows "b \<in> S"
  using assms by (induction rule: rtrancl_induct) (auto simp: wait_edges_def)

text \<open>The transactions visited so far, the waiter and the current one apart, wait only for visited ones.\<close>

lemma follow_waits_None:
  assumes "current \<in> visited" and "current \<noteq> waiter"
    and "\<And>x y. x \<in> visited - {waiter, current} \<Longrightarrow> g x = Some y \<Longrightarrow> y \<in> visited - {waiter}"
  shows "follow_waits g waiter visited cycle current = None \<longleftrightarrow> (current, waiter) \<notin> (wait_edges g)\<^sup>*"
  using assms
proof (induction g waiter visited cycle current rule: follow_waits.induct)
  case (1 g waiter visited cycle current)
  show ?case
  proof (cases "g current")
    case (Some nxt)
    note step = wait_reach_step [OF "1.prems"(2), of g, unfolded Some option.case]
    consider "nxt = waiter" | "nxt \<noteq> waiter" "nxt \<in> visited" | "nxt \<noteq> waiter" "nxt \<notin> visited" by blast
    then show ?thesis
    proof cases
      case 2
      have "x \<in> visited - {waiter} \<Longrightarrow> g x = Some y \<Longrightarrow> y \<in> visited - {waiter}" for x y
        using "1.prems"(3) [of x y] 2 Some by (cases "x = current") auto
      then have "(nxt, waiter) \<notin> (wait_edges g)\<^sup>*"
        using wait_closed_unreachable [of nxt waiter g "visited - {waiter}"] 2 by blast
      with 2 Some step show ?thesis by (subst follow_waits.simps) simp
    next
      case 3
      have "follow_waits g waiter (insert nxt visited) (cycle @ [nxt]) nxt = None
          \<longleftrightarrow> (nxt, waiter) \<notin> (wait_edges g)\<^sup>*"
      proof (rule "1.IH" [OF Some 3])
        show "y \<in> insert nxt visited - {waiter}"
          if "x \<in> insert nxt visited - {waiter, nxt}" "g x = Some y" for x y
          using "1.prems"(3) [of x y] that 3 Some by (cases "x = current") auto
      qed (use 3 in auto)
      with 3 Some step show ?thesis by (subst follow_waits.simps) simp
    qed (use Some step in \<open>subst follow_waits.simps, simp\<close>)
  next
    case None
    then show ?thesis using wait_reach_step [OF "1.prems"(2), of g]
      by (subst follow_waits.simps) simp
  qed
qed

lemma detect_deadlock_exact:
  "detect_deadlock w h g \<noteq> None \<longleftrightarrow> (h, w) \<in> (wait_edges g)\<^sup>*"
proof (cases "w = h")
  case False
  have "follow_waits g w {w, h} [w, h] h = None \<longleftrightarrow> (h, w) \<notin> (wait_edges g)\<^sup>*"
    using False by (intro follow_waits_None) auto
  with False show ?thesis by (simp add: detect_deadlock_def)
qed (simp add: detect_deadlock_def)

definition would_deadlock :: "u64 \<Rightarrow> u64 \<Rightarrow> wait_for_graph \<Rightarrow> bool" where
  "would_deadlock w h g \<longleftrightarrow> detect_deadlock w h g \<noteq> None"

interpretation wfg: deadlock_check wait_edges would_deadlock add_wait remove_wait remove_transaction
proof unfold_locales
  show "would_deadlock w h g \<longleftrightarrow> (h, w) \<in> (wait_edges g)\<^sup>*" for w h g
    by (simp only: would_deadlock_def detect_deadlock_exact)
qed (auto simp: wait_edges_def add_wait_def remove_wait_def remove_transaction_def split: if_splits)

lemma follow_waits_cycle:
  assumes "follow_waits g w visited cycle current = Some c" and "cycle \<noteq> []" and "last cycle = current"
    and "successively (\<lambda>a b. (a, b) \<in> insert e (wait_edges g)) cycle"
  shows "hd c = hd cycle \<and> last c = w \<and> successively (\<lambda>a b. (a, b) \<in> insert e (wait_edges g)) c"
  using assms
proof (induction g w visited cycle current rule: follow_waits.induct)
  case (1 g w visited cycle current)
  from "1.prems"(1) obtain nxt where nxt: "g current = Some nxt"
    by (subst (asm) follow_waits.simps) (auto split: option.splits)
  have ext: "successively (\<lambda>a b. (a, b) \<in> insert e (wait_edges g)) (cycle @ [nxt])"
    using "1.prems"(2-4) nxt by (simp add: successively_append_iff wait_edges_def)
  show ?case
  proof (cases "nxt = w")
    case True
    with "1.prems"(1,2) nxt ext show ?thesis by (subst (asm) follow_waits.simps) auto
  next
    case False
    then have "nxt \<notin> visited" "follow_waits g w (insert nxt visited) (cycle @ [nxt]) nxt = Some c"
      using "1.prems"(1) nxt by (subst (asm) follow_waits.simps, simp split: if_splits)+
    with "1.IH" [OF nxt False] ext "1.prems"(2) show ?thesis by simp
  qed
qed

text \<open>the deadlock check is exact. If it reports nothing, the holder does not wait, directly or
  through others, for the waiter. If it reports a list, that list is a cycle from the waiter to itself
  along the wait edges and the new one.\<close>

lemma detect_deadlock_correct:
  "case detect_deadlock w h g of
     None \<Rightarrow> (h, w) \<notin> (wait_edges g)\<^sup>*
   | Some c \<Rightarrow> (h, w) \<in> (wait_edges g)\<^sup>* \<and> hd c = w \<and> last c = w
       \<and> successively (\<lambda>a b. (a, b) \<in> insert (w, h) (wait_edges g)) c"
proof (cases "detect_deadlock w h g")
  case None
  with detect_deadlock_exact [of w h g] show ?thesis by simp
next
  case (Some c)
  then have "hd c = w \<and> last c = w \<and> successively (\<lambda>a b. (a, b) \<in> insert (w, h) (wait_edges g)) c"
    using follow_waits_cycle [of g w "{w, h}" "[w, h]" h c "(w, h)"]
    by (auto simp: detect_deadlock_def split: if_splits)
  with Some detect_deadlock_exact [of w h g] show ?thesis by simp
qed

text \<open>a client that asks the check before it lets a transaction wait never builds a deadlock: the
  wait-for graph has no cycle after any sequence of waits, ended waits and ended transactions.\<close>

lemma wait_for_graph_acyclic:
  "acyclic (wait_edges (fold (run_wait_op would_deadlock add_wait remove_wait remove_transaction) ops Map.empty))"
  by (rule wfg.guarded_acyclic) (simp add: wait_edges_def acyclic_def)

end
