(* ===== verification/TableLocks.thy ===== *)
theory TableLocks
  imports StdLib LockSpec
begin

text \<open>
  The process-wide table locks, \<^verbatim>\<open>src/src/vm/lock_manager.rs\<close>: shared and exclusive locks per
  table, the waiters that a refused request registers while it looks for a cycle, and the search for
  that cycle. The mutex around the table makes every operation one step.
\<close>

section \<open>State\<close>

datatype lock_mode = Shared | Exclusive

record lock_entry =
  mode :: lock_mode
  holder_txn :: u64

record lock_table =
  locks :: "string \<rightharpoonup> lock_entry list"
  waiters :: "u64 \<rightharpoonup> string list"

definition lock_table_new :: lock_table where
  "lock_table_new = \<lparr>locks = Map.empty, waiters = Map.empty\<rparr>"

section \<open>Cycle search\<close>

text \<open>The transactions that hold locks on the tables a transaction waits for, in the order visited.\<close>

definition blockers :: "lock_table \<Rightarrow> u64 \<Rightarrow> u64 list" where
  "blockers lt t =
     (case waiters lt t of
        None \<Rightarrow> []
      | Some tbls \<Rightarrow>
          concat (map (\<lambda>tbl. case locks lt tbl of None \<Rightarrow> [] | Some es \<Rightarrow> map holder_txn es) tbls))"

text \<open>One round of the loop: \<open>None\<close> when the start is found, otherwise the visited ones and the stack.\<close>

fun visit_blockers :: "u64 \<Rightarrow> u64 \<Rightarrow> u64 list \<Rightarrow> u64 set \<Rightarrow> u64 list \<Rightarrow> (u64 set \<times> u64 list) option" where
  "visit_blockers start t [] visited stack = Some (visited, stack)"
| "visit_blockers start t (h # hs) visited stack =
     (if h = t then visit_blockers start t hs visited stack
      else if h = start then None
      else if h \<notin> visited then visit_blockers start t hs (insert h visited) (stack @ [h])
      else visit_blockers start t hs visited stack)"

lemma card_compl_insert64: "x \<notin> V \<Longrightarrow> card (- V) = Suc (card (- insert x (V :: u64 set)))"
  by (metis ComplI Compl_insert card_Suc_Diff1 finite)

lemma visit_blockers_measure:
  "visit_blockers start t hs visited stack = Some (v', s') \<Longrightarrow>
     2 * card (- v') + length s' \<le> 2 * card (- visited) + length stack"
  by (induction start t hs visited stack rule: visit_blockers.induct)
    (fastforce simp: card_compl_insert64 split: if_splits)+

function search_cycle :: "lock_table \<Rightarrow> u64 \<Rightarrow> u64 set \<Rightarrow> u64 list \<Rightarrow> bool" where
  "search_cycle lt start visited stack =
     (if stack = [] then False
      else case visit_blockers start (last stack) (blockers lt (last stack)) visited (butlast stack) of
             None \<Rightarrow> True
           | Some (visited', stack') \<Rightarrow> search_cycle lt start visited' stack')"
  by pat_completeness auto
termination
  by (relation "measure (\<lambda>(lt, start, visited, stack). 2 * card (- visited) + length stack)")
    (auto dest!: visit_blockers_measure simp: less_Suc_eq_le length_greater_0_conv [symmetric]
      simp del: length_greater_0_conv)

declare search_cycle.simps [simp del]

definition has_cycle :: "u64 \<Rightarrow> lock_table \<Rightarrow> bool" where
  "has_cycle start lt = search_cycle lt start {} [start]"

section \<open>Operations\<close>

definition default_list :: "'v list option \<Rightarrow> 'v list" where
  "default_list o' = (case o' of None \<Rightarrow> [] | Some vs \<Rightarrow> vs)"

fun upgrade_mine :: "u64 \<Rightarrow> lock_mode \<Rightarrow> lock_entry list \<Rightarrow> lock_entry list" where
  "upgrade_mine t m [] = []"
| "upgrade_mine t m (e # es) =
     (if holder_txn e = t then (if m = Exclusive then e\<lparr>mode := Exclusive\<rparr> else e) # es
      else e # upgrade_mine t m es)"

fun mode_debug :: "lock_mode \<Rightarrow> string" where
  "mode_debug Shared = ''Shared''"
| "mode_debug Exclusive = ''Exclusive''"

text \<open>The first lock of another transaction that conflicts with the requested mode.\<close>

definition first_conflict :: "u64 \<Rightarrow> lock_mode \<Rightarrow> lock_entry list \<Rightarrow> lock_entry option" where
  "first_conflict t m es = find (\<lambda>e. \<not> (mode e = Shared \<and> m = Shared)) (filter (\<lambda>e. holder_txn e \<noteq> t) es)"

definition try_acquire :: "string \<Rightarrow> lock_mode \<Rightarrow> u64 \<Rightarrow> lock_table \<Rightarrow> unit res \<times> lock_table" where
  "try_acquire tbl0 m t lt =
     (let tbl = to_ascii_lowercase tbl0;
          es = default_list (locks lt tbl);
          lt0 = lt\<lparr>locks := (locks lt)(tbl \<mapsto> es)\<rparr> in
      if list_ex (\<lambda>e. holder_txn e = t) es
      then (Ok (), lt0\<lparr>locks := (locks lt0)(tbl \<mapsto> upgrade_mine t m es)\<rparr>)
      else
        case first_conflict t m es of
          Some e \<Rightarrow>
            (let lt1 = lt0\<lparr>waiters := (waiters lt0)(t \<mapsto> default_list (waiters lt0 t) @ [tbl])\<rparr>;
                 deadlock = has_cycle t lt1;
                 v = filter (\<lambda>x. x \<noteq> tbl) (default_list (waiters lt1 t));
                 lt2 = lt1\<lparr>waiters := (if v = [] then (waiters lt1)(t := None) else (waiters lt1)(t \<mapsto> v))\<rparr> in
             if deadlock
             then (Err (Internal (''Deadlock detected: txn '' @ show_nat (unat t) @ '' and txn ''
                     @ show_nat (unat (holder_txn e)) @ '' form a cycle on table `'' @ tbl @ ''`'')), lt2)
             else (Err (Internal (''Lock conflict: table `'' @ tbl @ ''` is '' @ mode_debug (mode e)
                     @ ''-locked by txn '' @ show_nat (unat (holder_txn e)) @ '', txn '' @ show_nat (unat t)
                     @ '' cannot acquire '' @ mode_debug m)), lt2))
        | None \<Rightarrow>
            (Ok (), lt0\<lparr>locks := (locks lt0)(tbl \<mapsto> es @ [\<lparr>mode = m, holder_txn = t\<rparr>])\<rparr>))"

definition table_release_all :: "u64 \<Rightarrow> lock_table \<Rightarrow> lock_table" where
  "table_release_all t lt =
     lt\<lparr>locks := (\<lambda>tbl. case locks lt tbl of
            None \<Rightarrow> None
          | Some es \<Rightarrow> (let es' = filter (\<lambda>e. holder_txn e \<noteq> t) es in if es' = [] then None else Some es')),
        waiters := (waiters lt)(t := None)\<rparr>"

section \<open>The cycle search is exact\<close>

definition blocked_by :: "lock_table \<Rightarrow> (u64 \<times> u64) set" where
  "blocked_by lt = {(a, b). b \<in> set (blockers lt a) \<and> b \<noteq> a}"

lemma visit_blockers_None:
  "visit_blockers start t hs visited stack = None \<longleftrightarrow> start \<in> set hs \<and> start \<noteq> t"
  by (induction start t hs visited stack rule: visit_blockers.induct) auto

lemma visit_blockers_Some:
  "visit_blockers start t hs visited stack = Some (v', s') \<Longrightarrow>
     v' = visited \<union> {h \<in> set hs. h \<noteq> t} \<and> set s' = set stack \<union> {h \<in> set hs. h \<noteq> t \<and> h \<notin> visited}"
proof (induction hs arbitrary: visited stack)
  case (Cons h hs)
  show ?case
  proof (cases "h = t \<or> h \<in> visited")
    case True
    with Cons.prems have "visit_blockers start t hs visited stack = Some (v', s')"
      by (simp split: if_splits)
    from Cons.IH [OF this] True show ?thesis by auto
  next
    case False
    with Cons.prems have "visit_blockers start t hs (insert h visited) (stack @ [h]) = Some (v', s')"
      by (simp split: if_splits)
    from Cons.IH [OF this] False show ?thesis by auto
  qed
qed simp

lemma search_cycle_exact:
  assumes "set stack \<subseteq> insert start visited"
    and "\<And>x. x \<in> insert start visited \<Longrightarrow> (start, x) \<in> (blocked_by lt)\<^sup>*"
    and "\<And>x y. x \<in> insert start visited \<Longrightarrow> x \<notin> set stack \<Longrightarrow> (x, y) \<in> blocked_by lt \<Longrightarrow> y \<in> visited \<and> y \<noteq> start"
  shows "search_cycle lt start visited stack \<longleftrightarrow> (start, start) \<in> (blocked_by lt)\<^sup>+"
  using assms
proof (induction lt start visited stack rule: search_cycle.induct)
  case (1 lt start visited stack)
  show ?case
  proof (cases "stack = []")
    case True
    have "y \<in> visited - {start}" if "(start, y) \<in> (blocked_by lt)\<^sup>+" for y
      using that
    proof (induction rule: trancl_induct)
      case (base y)
      with "1.prems"(3) [of start y] True show ?case by simp
    next
      case (step y z)
      with "1.prems"(3) [of y z] True show ?case by simp
    qed
    then show ?thesis using True by (subst search_cycle.simps) auto
  next
    case False
    let ?t = "last stack" and ?rest = "butlast stack"
    have split: "set stack = insert ?t (set ?rest)"
      using arg_cong [OF append_butlast_last_id [OF False], of set] by auto
    have t: "(start, ?t) \<in> (blocked_by lt)\<^sup>*" using "1.prems"(1,2) split by blast
    show ?thesis
    proof (cases "visit_blockers start ?t (blockers lt ?t) visited ?rest")
      case None
      then have "(?t, start) \<in> blocked_by lt" by (auto simp: visit_blockers_None blocked_by_def)
      with t have "(start, start) \<in> (blocked_by lt)\<^sup>+" by (rule rtrancl_into_trancl1)
      with None False show ?thesis by (subst search_cycle.simps) simp
    next
      case (Some a)
      obtain v' s' where a: "a = (v', s')" by (cases a)
      note vb = visit_blockers_Some [OF Some [unfolded a]]
      have no_start: "start \<notin> set (blockers lt ?t) \<or> start = ?t"
        using Some visit_blockers_None [of start ?t "blockers lt ?t" visited ?rest] by auto
      have "search_cycle lt start v' s' \<longleftrightarrow> (start, start) \<in> (blocked_by lt)\<^sup>+"
      proof (rule "1.IH" [OF False Some a [symmetric]])
        show "set s' \<subseteq> insert start v'" using vb "1.prems"(1) split by auto
        show "(start, x) \<in> (blocked_by lt)\<^sup>*" if "x \<in> insert start v'" for x
          using that "1.prems"(2) vb t by (auto simp: blocked_by_def intro: rtrancl_into_rtrancl)
        show "y \<in> v' \<and> y \<noteq> start" if "x \<in> insert start v'" "x \<notin> set s'" "(x, y) \<in> blocked_by lt" for x y
        proof (cases "x = ?t")
          case True
          with that(3) vb no_start show ?thesis by (auto simp: blocked_by_def)
        next
          case x: False
          with that(1,2) vb split have "x \<in> insert start visited" "x \<notin> set stack" by auto
          from "1.prems"(3) [OF this that(3)] vb show ?thesis by auto
        qed
      qed
      with Some False a show ?thesis by (subst search_cycle.simps) simp
    qed
  qed
qed

lemma has_cycle_exact: "has_cycle start lt \<longleftrightarrow> (start, start) \<in> (blocked_by lt)\<^sup>+"
  unfolding has_cycle_def by (rule search_cycle_exact) auto

section \<open>Runs\<close>

datatype table_op = TryAcquire string lock_mode u64 | ReleaseAll u64

fun table_step :: "table_op \<Rightarrow> lock_table \<Rightarrow> lock_table" where
  "table_step (TryAcquire tbl m t) lt = snd (try_acquire tbl m t lt)"
| "table_step (ReleaseAll t) lt = table_release_all t lt"

definition table_run :: "table_op list \<Rightarrow> lock_table" where
  "table_run ops = fold table_step ops lock_table_new"

lemma table_step_waiters: "waiters lt = Map.empty \<Longrightarrow> waiters (table_step op lt) = Map.empty"
  by (cases op) (auto simp: try_acquire_def table_release_all_def Let_def default_list_def split: option.split)

lemma table_run_waiters: "waiters (table_run ops) = Map.empty"
proof -
  have "waiters lt = Map.empty \<Longrightarrow> waiters (fold table_step ops lt) = Map.empty" for lt
    by (induction ops arbitrary: lt) (simp_all add: table_step_waiters)
  then show ?thesis by (simp add: table_run_def lock_table_new_def)
qed

text \<open>A request is granted exactly if the transaction holds a lock on the table already or no other one
  holds a conflicting lock.\<close>

definition entries_of :: "lock_table \<Rightarrow> string \<Rightarrow> lock_entry list" where
  "entries_of lt tbl = default_list (locks lt (to_ascii_lowercase tbl))"

lemma first_conflict_None:
  "first_conflict t m es = None \<longleftrightarrow> {e \<in> set es. holder_txn e \<noteq> t \<and> (mode e = Exclusive \<or> m = Exclusive)} = {}"
  using lock_mode.exhaust by (auto simp: first_conflict_def find_None_iff)

lemma first_conflict_Some: "first_conflict t m es = Some e \<Longrightarrow> e \<in> set es"
  by (auto simp: first_conflict_def find_Some_iff dest: nth_mem)

lemma try_acquire_cases:
  obtains (mine) "\<exists>e \<in> set (entries_of lt tbl). holder_txn e = t"
      "try_acquire tbl m t lt = (Ok (), lt\<lparr>locks := (locks lt)(to_ascii_lowercase tbl \<mapsto> upgrade_mine t m (entries_of lt tbl))\<rparr>)"
  | (grant) "\<forall>e \<in> set (entries_of lt tbl). holder_txn e \<noteq> t" "first_conflict t m (entries_of lt tbl) = None"
      "try_acquire tbl m t lt = (Ok (), lt\<lparr>locks := (locks lt)(to_ascii_lowercase tbl \<mapsto> entries_of lt tbl @ [\<lparr>mode = m, holder_txn = t\<rparr>])\<rparr>)"
  | (refuse) e where "\<forall>e \<in> set (entries_of lt tbl). holder_txn e \<noteq> t" "first_conflict t m (entries_of lt tbl) = Some e"
      "fst (try_acquire tbl m t lt) \<noteq> Ok ()"
      "locks (snd (try_acquire tbl m t lt)) = (locks lt)(to_ascii_lowercase tbl \<mapsto> entries_of lt tbl)"
proof (cases "\<exists>e \<in> set (entries_of lt tbl). holder_txn e = t")
  case True
  then show ?thesis by (intro mine) (simp_all add: try_acquire_def entries_of_def Let_def list_ex_iff)
next
  case no: False
  show ?thesis
  proof (cases "first_conflict t m (entries_of lt tbl)")
    case None
    with no show ?thesis by (intro grant) (simp_all add: try_acquire_def entries_of_def Let_def list_ex_iff)
  next
    case (Some e)
    with no show ?thesis by (intro refuse [of e]) (simp_all add: try_acquire_def entries_of_def Let_def list_ex_iff)
  qed
qed

lemma conflict_no_cycle:
  assumes "waiters lt = [t \<mapsto> [tbl]]" and "\<forall>e \<in> set (default_list (locks lt tbl)). holder_txn e \<noteq> t"
  shows "\<not> has_cycle t lt"
proof
  have bl: "blockers lt x = (if x = t then map holder_txn (default_list (locks lt tbl)) else [])" for x
    using assms(1) by (simp add: blockers_def default_list_def split: option.split)
  assume "has_cycle t lt"
  then have "(t, t) \<in> (blocked_by lt)\<^sup>+" by (simp add: has_cycle_exact)
  then obtain u where "(u, t) \<in> blocked_by lt" by (auto elim: tranclE)
  with bl assms(2) show False by (auto simp: blocked_by_def split: if_splits)
qed

text \<open>the deadlock report cannot be reached. A refused request takes back its registration as a waiter
  before it returns, so in every reachable table nobody else waits when a request is examined, and the
  (exact) cycle search finds nothing: a refused request always reports a plain conflict.\<close>

lemma deadlock_never_reported:
  "fst (try_acquire tbl m t (table_run ops)) = Ok () \<or>
   (\<exists>e \<in> set (entries_of (table_run ops) tbl). fst (try_acquire tbl m t (table_run ops)) =
      Err (Internal (''Lock conflict: table `'' @ to_ascii_lowercase tbl @ ''` is '' @ mode_debug (mode e)
        @ ''-locked by txn '' @ show_nat (unat (holder_txn e)) @ '', txn '' @ show_nat (unat t)
        @ '' cannot acquire '' @ mode_debug m)))"
proof -
  define lt where "lt = table_run ops"
  let ?tbl = "to_ascii_lowercase tbl" and ?es = "entries_of lt tbl"
  show ?thesis
  proof (cases rule: try_acquire_cases [of lt tbl t m])
    case (refuse e)
    have "\<not> has_cycle t (lt\<lparr>locks := (locks lt)(?tbl \<mapsto> ?es), waiters := [t \<mapsto> [?tbl]]\<rparr>)"
      using refuse(1) by (intro conflict_no_cycle) (auto simp: default_list_def)
    moreover have "waiters lt = Map.empty" by (simp add: lt_def table_run_waiters)
    ultimately show ?thesis
      using refuse first_conflict_Some [OF refuse(2)]
      by (auto simp: try_acquire_def entries_of_def Let_def lt_def [symmetric] default_list_def list_ex_iff)
  qed (simp_all add: lt_def)
qed

section \<open>Which locks coexist\<close>

definition compatible :: "lock_entry list \<Rightarrow> bool" where
  "compatible es \<longleftrightarrow> distinct (map holder_txn es) \<and> (length es \<le> 1 \<or> list_all (\<lambda>e. mode e = Shared) es)"

definition table_ok :: "lock_table \<Rightarrow> bool" where
  "table_ok lt \<longleftrightarrow> (\<forall>tbl. compatible (default_list (locks lt tbl)))"

text \<open>The request is not an upgrade to an exclusive lock beside other holders.\<close>

definition sole_upgrade :: "string \<Rightarrow> lock_mode \<Rightarrow> u64 \<Rightarrow> lock_table \<Rightarrow> bool" where
  "sole_upgrade tbl m t lt \<longleftrightarrow>
     m = Shared \<or> list_all (\<lambda>e. holder_txn e \<noteq> t) (entries_of lt tbl) \<or> length (entries_of lt tbl) = 1"

inductive table_reach :: "lock_table \<Rightarrow> bool" where
  new: "table_reach lock_table_new"
| acquire: "table_reach lt \<Longrightarrow> sole_upgrade tbl m t lt \<Longrightarrow> table_reach (snd (try_acquire tbl m t lt))"
| release: "table_reach lt \<Longrightarrow> table_reach (table_release_all t lt)"

lemma upgrade_mine_holders [simp]: "map holder_txn (upgrade_mine t m es) = map holder_txn es"
  by (induction es) auto

lemma upgrade_mine_length [simp]: "length (upgrade_mine t m es) = length es"
  by (induction es) auto

lemma upgrade_mine_Shared [simp]: "upgrade_mine t Shared es = es"
  by (induction es) auto

lemma table_ok_upd:
  "table_ok lt \<Longrightarrow> compatible es \<Longrightarrow> locks lt' = (locks lt)(tbl \<mapsto> es) \<Longrightarrow> table_ok lt'"
  by (auto simp: table_ok_def default_list_def)

lemma compatible_grant:
  assumes "compatible es" and "\<forall>e \<in> set es. holder_txn e \<noteq> t" and "first_conflict t m es = None"
  shows "compatible (es @ [\<lparr>mode = m, holder_txn = t\<rparr>])"
proof -
  have "es = [] \<or> m = Shared \<and> list_all (\<lambda>e. mode e = Shared) es"
    using assms(2,3) lock_mode.exhaust by (cases es) (auto simp: first_conflict_None list_all_iff)
  with assms(1,2) show ?thesis by (auto simp: compatible_def)
qed

lemma table_ok_acquire:
  assumes ok: "table_ok lt" and "sole_upgrade tbl m t lt"
  shows "table_ok (snd (try_acquire tbl m t lt))"
proof -
  have es: "compatible (entries_of lt tbl)" using ok by (simp add: table_ok_def entries_of_def)
  show ?thesis
  proof (cases rule: try_acquire_cases [of lt tbl t m])
    case mine
    have "compatible (upgrade_mine t m (entries_of lt tbl))"
      using es assms(2) mine(1) by (cases m) (auto simp: compatible_def sole_upgrade_def list_all_iff)
    with mine show ?thesis by (intro table_ok_upd [OF ok]) simp_all
  next
    case grant
    with compatible_grant [OF es grant(1,2)] show ?thesis by (intro table_ok_upd [OF ok]) simp_all
  next
    case (refuse e)
    with es show ?thesis by (intro table_ok_upd [OF ok]) simp_all
  qed
qed

lemma compatible_filter: "compatible es \<Longrightarrow> compatible (filter P es)"
  unfolding compatible_def
  by (rule conjI) (auto simp: distinct_map_filter list_all_iff intro: order_trans [OF length_filter_le])

lemma table_reach_ok: "table_reach lt \<Longrightarrow> table_ok lt"
proof (induction rule: table_reach.induct)
  case new
  show ?case by (simp add: table_ok_def lock_table_new_def default_list_def compatible_def)
next
  case (release lt t)
  have "default_list (locks (table_release_all t lt) tbl) = filter (\<lambda>e. holder_txn e \<noteq> t) (default_list (locks lt tbl))" for tbl
    by (simp add: table_release_all_def default_list_def Let_def split: option.split)
  with release.IH show ?case by (simp add: table_ok_def compatible_filter)
qed (rule table_ok_acquire)

text \<open>an exclusive lock excludes every other lock. In every state reachable by requests and
  releases, where no transaction upgrades its shared lock while others share the table, a table with an
  exclusive lock has no second lock, and no transaction has two locks on a table.\<close>

lemma table_locks_exclude:
  assumes "table_reach lt" and "e \<in> set (entries_of lt tbl)" and "mode e = Exclusive"
  shows "entries_of lt tbl = [e]"
proof -
  have "compatible (entries_of lt tbl)"
    using table_reach_ok [OF assms(1)] by (simp add: table_ok_def entries_of_def)
  with assms(2,3) show ?thesis
    by (cases "entries_of lt tbl") (auto simp: compatible_def list_all_iff)
qed

lemma table_locks_exclude_witness:
  "entries_of (snd (try_acquire ''T'' Exclusive 4 lock_table_new)) ''t'' = [\<lparr>mode = Exclusive, holder_txn = 4\<rparr>]"
proof -
  let ?lt = "snd (try_acquire ''T'' Exclusive 4 lock_table_new)"
  have "sole_upgrade ''T'' Exclusive 4 lock_table_new"
    by (simp add: sole_upgrade_def entries_of_def lock_table_new_def default_list_def)
  then have "table_reach ?lt" by (intro table_reach.intros)
  moreover have "to_ascii_lowercase ''T'' = to_ascii_lowercase ''t''" by code_simp
  then have "\<lparr>mode = Exclusive, holder_txn = 4\<rparr> \<in> set (entries_of ?lt ''t'')"
    by (simp add: try_acquire_def entries_of_def lock_table_new_def default_list_def first_conflict_def Let_def)
  ultimately show ?thesis by (rule table_locks_exclude) simp
qed

text \<open>an upgrade beside other holders breaks the exclusion: two transactions share a table, and each
  is then granted the exclusive lock.\<close>

lemma upgrade_gives_two_writers:
  "let lt = table_run [TryAcquire ''t'' Shared 1, TryAcquire ''t'' Shared 2, TryAcquire ''t'' Exclusive 1];
       (r, lt') = try_acquire ''t'' Exclusive 2 lt
   in r = Ok () \<and> entries_of lt' ''t'' = [\<lparr>mode = Exclusive, holder_txn = 1\<rparr>, \<lparr>mode = Exclusive, holder_txn = 2\<rparr>]"
  by (simp add: table_run_def try_acquire_def entries_of_def lock_table_new_def default_list_def
      first_conflict_def Let_def)

end
