(* ===== verification/VmTxn.thy ===== *)
theory VmTxn
  imports RowLocks TableLocks
begin

text \<open>
  How the virtual machine drives the concurrency components at \<^verbatim>\<open>BEGIN\<close>, before each statement,
  at \<^verbatim>\<open>COMMIT\<close>, \<^verbatim>\<open>ROLLBACK\<close> and \<^verbatim>\<open>SAVEPOINT\<close> (\<^verbatim>\<open>src/src/vm/execute.rs\<close>):
  the part of each handler that works on the registry, the snapshot, the undo log, the table locks and the
  row locks. The whole handlers, with the pagers and the binary log, are in \<open>VmStatements\<close>.
\<close>

record vm_txn =
  current_txn_id :: u64
  txn_registry :: transaction_registry
  vm_snapshot :: "mvcc_snapshot option"
  mvcc_undo_log :: undo_log
  vm_row_locks :: row_lock_manager
  vm_lock_table :: lock_table
  vm_isolation :: isolation_level

definition vm_begin :: "vm_txn \<Rightarrow> vm_txn" where
  "vm_begin v =
     (let (t, r) = registry_begin (txn_registry v)
      in v\<lparr>current_txn_id := t, txn_registry := r,
           vm_snapshot := Some (snapshot_for_isolation r t (vm_isolation v)),
           mvcc_undo_log := undo_clear (mvcc_undo_log v)\<rparr>)"

text \<open>The refresh of the snapshot before a statement, inside a transaction.\<close>

definition vm_refresh :: "vm_txn \<Rightarrow> vm_txn" where
  "vm_refresh v =
     (if current_txn_id v \<noteq> 0 \<and> vm_isolation v = ReadCommitted
      then v\<lparr>vm_snapshot := Some (registry_snapshot (txn_registry v) (current_txn_id v))\<rparr>
      else if current_txn_id v \<noteq> 0 \<and> vm_isolation v = ReadUncommitted
      then v\<lparr>vm_snapshot := Some (snapshot_read_uncommitted (txn_registry v) (current_txn_id v))\<rparr>
      else v)"

definition vm_commit :: "nat \<Rightarrow> vm_txn \<Rightarrow> unit res \<times> vm_txn" where
  "vm_commit vsize v =
     (let t = current_txn_id v;
          r = registry_commit t (txn_registry v);
          v1 = v\<lparr>mvcc_undo_log := undo_purge vsize (min_active_txn_id r) (undo_clear (mvcc_undo_log v)),
                 txn_registry := r, vm_snapshot := None,
                 vm_lock_table := table_release_all t (vm_lock_table v)\<rparr>;
          valid = (case vm_snapshot v1 of
                     Some snap \<Rightarrow> validate_read_set t (max_committed_txn_id snap) (vm_row_locks v1)
                   | None \<Rightarrow> Ok ())
      in case valid of
           Ok _ \<Rightarrow> (Ok (), v1\<lparr>vm_row_locks := release_all t (commit_version t (vm_row_locks v1)), current_txn_id := 0\<rparr>)
         | Err e \<Rightarrow> (Err e, v1)
         | Panic \<Rightarrow> (Panic, v1))"

definition vm_rollback :: "vm_txn \<Rightarrow> vm_txn" where
  "vm_rollback v =
     (let t = current_txn_id v
      in v\<lparr>mvcc_undo_log := undo_clear (mvcc_undo_log v), txn_registry := registry_abort t (txn_registry v),
           vm_snapshot := None, vm_lock_table := table_release_all t (vm_lock_table v),
           vm_row_locks := release_all t (vm_row_locks v), current_txn_id := 0\<rparr>)"

definition vm_savepoint :: "nat \<Rightarrow> string \<Rightarrow> vm_txn \<Rightarrow> vm_txn" where
  "vm_savepoint vsize name v = v\<lparr>mvcc_undo_log := undo_savepoint vsize name (current_txn_id v) (mvcc_undo_log v)\<rparr>"

section \<open>The end of a transaction\<close>

definition vm_holds_nothing :: "u64 \<Rightarrow> vm_txn \<Rightarrow> bool" where
  "vm_holds_nothing t v \<longleftrightarrow> t \<notin> ran (row_locks (vm_row_locks v)) \<and> t \<notin> set (active_txns (txn_registry v))
     \<and> (\<forall>tbl. \<forall>e \<in> set (entries_of (vm_lock_table v) tbl). holder_txn e \<noteq> t)
     \<and> read_sets (vm_row_locks v) t = None"

lemma table_release_all_entries: "entries_of (table_release_all t lt) tbl = filter (\<lambda>e. holder_txn e \<noteq> t) (entries_of lt tbl)"
  by (simp add: entries_of_def table_release_all_def default_list_def Let_def split: option.split)

lemma release_all_holds_nothing:
  assumes "row_lock_ok m"
  shows "t \<notin> ran (row_locks (release_all t m))" and "read_sets (release_all t m) t = None"
proof -
  show "t \<notin> ran (row_locks (release_all t m))"
    using row_lk.release_holder [OF assms, of t] by (auto simp: ran_def split: if_splits)
  show "read_sets (release_all t m) t = None" by (simp add: release_all_def Let_def)
qed

lemma commit_version_ok: "row_lock_ok m \<Longrightarrow> row_lock_ok (commit_version t m)"
  by (auto simp: commit_version_def row_lock_ok_def split: option.split)

lemma registry_end_inactive:
  "t \<notin> set (active_txns (registry_commit t r))" "t \<notin> set (active_txns (registry_abort t r))"
  by (simp_all add: registry_commit_def registry_abort_def Let_def)

text \<open>when a transaction has committed or rolled back it holds nothing: no row lock, no table lock, no
  read set and no place among the running transactions; and no snapshot and no undo entry is left.\<close>

lemma vm_end_releases:
  assumes "row_lock_ok (vm_row_locks v)" and "v' = snd (vm_commit n v) \<or> v' = vm_rollback v"
  shows "vm_holds_nothing (current_txn_id v) v' \<and> current_txn_id v' = 0 \<and> vm_snapshot v' = None
     \<and> undo_entries (mvcc_undo_log v') = []"
  using assms(2)
proof
  assume v': "v' = snd (vm_commit n v)"
  show ?thesis
    using release_all_holds_nothing [OF commit_version_ok [OF assms(1)], of "current_txn_id v"]
    by (simp add: v' vm_commit_def vm_holds_nothing_def table_release_all_entries registry_end_inactive Let_def
        undo_purge_def undo_clear_def)
next
  assume v': "v' = vm_rollback v"
  show ?thesis
    using release_all_holds_nothing [OF assms(1), of "current_txn_id v"]
    by (simp add: v' vm_rollback_def vm_holds_nothing_def table_release_all_entries registry_end_inactive Let_def
        undo_clear_def)
qed

definition sample_vm :: vm_txn where
  "sample_vm =
     \<lparr>current_txn_id = 3, txn_registry = sample_registry, vm_snapshot = Some (registry_snapshot sample_registry 3),
      mvcc_undo_log = undo_new,
      vm_row_locks = release_all 5 (commit_version 5 (snd (try_lock_row ''t'' 7 5 (record_read ''t'' 7 3 row_lock_manager_new)))),
      vm_lock_table = lock_table_new, vm_isolation = Serializable\<rparr>"

lemma sample_vm_locks: "row_lock_ok (vm_row_locks sample_vm)"
proof -
  have ok: "row_lock_ok (record_read ''t'' 7 3 row_lock_manager_new)"
    using row_lock_ok_new by (simp add: record_read_def row_lock_ok_def Let_def)
  have "row_acquire (''t'', 7) 5 (record_read ''t'' 7 3 row_lock_manager_new)
      = Some (snd (try_lock_row ''t'' 7 5 (record_read ''t'' 7 3 row_lock_manager_new)))"
    by (simp add: row_acquire_def try_lock_row_def record_read_def row_lock_manager_new_def Let_def)
  from row_lk.acquire_ok [OF ok this] show ?thesis
    by (simp add: sample_vm_def row_lk.release_ok commit_version_ok)
qed

lemma vm_end_releases_witness: "vm_holds_nothing 3 (snd (vm_commit 24 sample_vm))"
  using vm_end_releases [OF sample_vm_locks, of "snd (vm_commit 24 sample_vm)" 24]
  by (simp add: sample_vm_def)

section \<open>Validation at commit\<close>

text \<open>a commit never fails validation. The handler clears the snapshot before it looks for one to
  validate against, so it always succeeds, also at the level \<^verbatim>\<open>SERIALIZABLE\<close> in a state in
  which validating the read set against the snapshot of the transaction gives an error.\<close>

lemma vm_commit_skips_validation:
  "fst (vm_commit n v) = Ok ()
   \<and> (vm_isolation sample_vm = Serializable
      \<and> validate_read_set (current_txn_id sample_vm)
          (max_committed_txn_id (the (vm_snapshot sample_vm))) (vm_row_locks sample_vm) \<noteq> Ok ()
      \<and> fst (vm_commit n sample_vm) = Ok ())"
proof -
  have commit: "fst (vm_commit n v) = Ok ()" for v by (simp add: vm_commit_def Let_def)
  moreover have "validate_read_set 3 2 (vm_row_locks sample_vm) \<noteq> Ok ()"
    by (simp add: sample_vm_def try_lock_row_def record_read_def row_lock_manager_new_def commit_version_def
        release_all_def or_default_def validate_read_set_def Let_def)
  ultimately show ?thesis by (simp add: sample_vm_def registry_snapshot_def sample_registry_def)
qed

section \<open>Isolation levels\<close>

text \<open>what a statement sees at each level. Under \<^verbatim>\<open>READ COMMITTED\<close> the refreshed snapshot shows
  every transaction committed so far; under \<^verbatim>\<open>READ UNCOMMITTED\<close> it shows every transaction; at the two
  other levels the snapshot of \<^verbatim>\<open>BEGIN\<close> stays.\<close>

lemma vm_refresh_levels:
  assumes "txn_runs txn_start (txn_registry v, C, A)" and "current_txn_id v \<noteq> 0"
  shows "case vm_isolation v of
      ReadCommitted \<Rightarrow> \<exists>s. vm_snapshot (vm_refresh v) = Some s \<and> C \<subseteq> {t. is_visible s t}
    | ReadUncommitted \<Rightarrow> \<exists>s. vm_snapshot (vm_refresh v) = Some s \<and> {t. is_visible s t} = UNIV
    | _ \<Rightarrow> vm_refresh v = v"
proof -
  have "is_visible (registry_snapshot (txn_registry v) r) t" if "t \<in> C" for r t
    using that txn_inv_runs [OF assms(1) txn_inv_start]
    by (auto simp: is_visible_def registry_snapshot_def txn_inv_def not_less)
  moreover have "is_visible (snapshot_read_uncommitted (txn_registry v) r) t" for r t
    by (simp add: is_visible_def snapshot_read_uncommitted_def)
  ultimately show ?thesis
    using assms(2) by (auto simp: vm_refresh_def split: isolation_level.split)
qed

lemma vm_refresh_levels_witness:
  "\<exists>s. vm_snapshot (vm_refresh (sample_vm\<lparr>vm_isolation := ReadCommitted\<rparr>)) = Some s \<and> is_visible s 2"
  using vm_refresh_levels [of "sample_vm\<lparr>vm_isolation := ReadCommitted\<rparr>" "{2}" "{}"] sample_registry_runs
  by (simp add: sample_vm_def)

end
