(* ===== verification/PageFile.thy ===== *)
theory PageFile
  imports OrdMap
begin

text \<open>
  Files of fixed-size pages, as the pager and its write-ahead log use them: writing and reading at an
  offset, setting the length, and the 32-bit FNV-1a checksum that both formats store. The page size is
  the default of \<^verbatim>\<open>src/src/storage/pager.rs\<close>; no proof depends on its value beyond that it is positive
  and leaves room for the headers. A file handle has the content that the process sees and the content that the last
  \<^verbatim>\<open>sync_data\<close> made durable.
\<close>

definition PAGE_SIZE :: nat where
  "PAGE_SIZE = 4096"

lemma PAGE_SIZE_pos [simp]: "0 < PAGE_SIZE" "PAGE_SIZE \<noteq> 0"
  by (simp_all add: PAGE_SIZE_def)

section \<open>Checksum\<close>

definition FNV32_OFFSET_BASIS :: u32 where
  "FNV32_OFFSET_BASIS = 0x811C9DC5"

definition FNV32_PRIME :: u32 where
  "FNV32_PRIME = 16777619"

definition fnv32 :: "bytes \<Rightarrow> u32" where
  "fnv32 data = foldl (\<lambda>h b. (h XOR ucast b) * FNV32_PRIME) FNV32_OFFSET_BASIS data"

section \<open>Files\<close>

record os_file =
  content :: bytes
  synced :: bytes

text \<open>Seeking and writing: a gap behind the end is filled with zeros.\<close>

definition write_at :: "nat \<Rightarrow> bytes \<Rightarrow> bytes \<Rightarrow> bytes" where
  "write_at off bs f = take off f @ replicate (off - length f) 0 @ bs @ drop (off + length bs) f"

definition set_len :: "nat \<Rightarrow> bytes \<Rightarrow> bytes" where
  "set_len n f = take n f @ replicate (n - length f) 0"

text \<open>Seeking and \<^verbatim>\<open>read_exact\<close>: nothing when the file ends too early.\<close>

definition read_at :: "nat \<Rightarrow> nat \<Rightarrow> bytes \<Rightarrow> bytes option" where
  "read_at off n f = (if off + n \<le> length f then Some (take n (drop off f)) else None)"

definition page_offset :: "u32 \<Rightarrow> nat" where
  "page_offset p = (unat p - 1) * PAGE_SIZE"

definition file_page :: "bytes \<Rightarrow> u32 \<Rightarrow> bytes option" where
  "file_page f p = read_at (page_offset p) PAGE_SIZE f"

definition file_sync :: "os_file \<Rightarrow> os_file" where
  "file_sync f = f\<lparr>synced := content f\<rparr>"

definition file_write :: "nat \<Rightarrow> bytes \<Rightarrow> os_file \<Rightarrow> os_file" where
  "file_write off bs f = f\<lparr>content := write_at off bs (content f)\<rparr>"

section \<open>Laws\<close>

lemma length_write_at [simp]: "length (write_at off bs f) = max (length f) (off + length bs)"
  by (simp add: write_at_def)

lemma length_set_len [simp]: "length (set_len n f) = n"
  by (simp add: set_len_def)

lemma write_at_end: "write_at (length f) bs f = f @ bs"
  by (simp add: write_at_def)

lemma nth_write_at:
  assumes "i < length (write_at off bs f)"
  shows "write_at off bs f ! i =
    (if off \<le> i \<and> i < off + length bs then bs ! (i - off) else if i < length f then f ! i else 0)"
  using assms by (auto simp: write_at_def nth_append min_def)

lemma nth_set_len: "i < n \<Longrightarrow> set_len n f ! i = (if i < length f then f ! i else 0)"
  by (auto simp: set_len_def nth_append min_def)

lemma read_at_Some: "read_at off n f = Some b \<longleftrightarrow> off + n \<le> length f \<and> length b = n \<and> (\<forall>i<n. b ! i = f ! (off + i))"
  by (auto simp: read_at_def list_eq_iff_nth_eq)

lemma read_at_write_at_same [simp]: "n = length bs \<Longrightarrow> read_at off n (write_at off bs f) = Some bs"
  by (simp add: read_at_Some nth_write_at)

lemma read_at_write_at_other:
  assumes "read_at o2 n f = Some b" and "o2 + n \<le> off \<or> off + length bs \<le> o2"
  shows "read_at o2 n (write_at off bs f) = Some b"
  using assms by (auto simp: read_at_Some nth_write_at)

lemma page_offset_apart:
  assumes "p \<noteq> q" and "p \<noteq> 0" and "q \<noteq> 0"
  shows "page_offset q + PAGE_SIZE \<le> page_offset p \<or> page_offset p + PAGE_SIZE \<le> page_offset q"
proof -
  from assms have "unat p \<noteq> unat q" "0 < unat p" "0 < unat q"
    by (auto simp: unat_gt_0 simp flip: word_unat_eq_iff)
  then have "Suc (unat q - 1) \<le> unat p - 1 \<or> Suc (unat p - 1) \<le> unat q - 1" by linarith
  then have "Suc (unat q - 1) * PAGE_SIZE \<le> (unat p - 1) * PAGE_SIZE \<or> Suc (unat p - 1) * PAGE_SIZE \<le> (unat q - 1) * PAGE_SIZE"
    using mult_le_mono1 by blast
  then show ?thesis by (simp add: page_offset_def add.commute)
qed

lemma file_page_write_same: "length bs = PAGE_SIZE \<Longrightarrow> file_page (write_at (page_offset p) bs f) p = Some bs"
  by (simp add: file_page_def)

lemma file_page_write_other:
  assumes "file_page f q = Some b" and "p \<noteq> q" and "p \<noteq> 0" and "q \<noteq> 0" and "length bs = PAGE_SIZE"
  shows "file_page (write_at (page_offset p) bs f) q = Some b"
  using assms page_offset_apart [of p q] unfolding file_page_def by (intro read_at_write_at_other) auto

lemma page_offset_end: "p \<noteq> 0 \<Longrightarrow> page_offset p + PAGE_SIZE = unat p * PAGE_SIZE"
proof -
  assume "p \<noteq> 0"
  then have "unat p = Suc (unat p - 1)" using unat_eq_zero [of p] by simp
  then show ?thesis unfolding page_offset_def by (metis add.commute mult_Suc)
qed

lemma file_page_set_len:
  assumes "file_page f p = Some b" and "p \<noteq> 0" and "unat p \<le> n"
  shows "file_page (set_len (n * PAGE_SIZE) f) p = Some b"
proof -
  have "page_offset p + PAGE_SIZE \<le> n * PAGE_SIZE"
    using assms(2,3) by (simp add: page_offset_end)
  with assms(1) show ?thesis by (simp add: file_page_def read_at_Some nth_set_len)
qed

end
