(* ===== verification/Wal.thy ===== *)
theory Wal
  imports StdLib PageFile
begin

text \<open>
  The write-ahead log of the pager, \<^verbatim>\<open>src/src/storage/wal.rs\<close>: header and frame formats, the scan
  that rebuilds the index when a log is opened, buffered page writes, commit in its three sync modes,
  checkpoints, and reader snapshots. File operations succeed and a clock reading (nanoseconds) is an
  argument. The page map is an ordered map; a checkpoint visits it in key order, which does not show in
  its result because each page is written once.
\<close>

section \<open>Header\<close>

definition WAL_MAGIC :: bytes where
  "WAL_MAGIC = [0x57, 0x4C, 0x4F, 0x47]"

definition WAL_VERSION :: u32 where
  "WAL_VERSION = 1"

definition WAL_HEADER_SIZE :: nat where
  "WAL_HEADER_SIZE = 32"

definition WAL_FRAME_HEADER_SIZE :: nat where
  "WAL_FRAME_HEADER_SIZE = 24"

definition WAL_FRAME_SIZE :: nat where
  "WAL_FRAME_SIZE = WAL_FRAME_HEADER_SIZE + PAGE_SIZE"

record wal_header =
  wh_version :: u32
  db_uuid_prefix :: bytes
  wh_page_size :: u32
  salt1 :: u32
  salt2 :: u32

definition wal_header_new :: "nat \<Rightarrow> bytes \<Rightarrow> u32 \<Rightarrow> wal_header" where
  "wal_header_new nanos db_uuid page_size =
     \<lparr>wh_version = WAL_VERSION, db_uuid_prefix = take 8 db_uuid, wh_page_size = page_size,
      salt1 = word_of_nat nanos, salt2 = word_of_nat (nanos div 2 ^ 32)\<rparr>"

definition header_serialize :: "wal_header \<Rightarrow> bytes" where
  "header_serialize h =
     WAL_MAGIC @ le_bytes 4 (wh_version h) @ db_uuid_prefix h @ le_bytes 4 (wh_page_size h)
     @ le_bytes 4 (salt1 h) @ le_bytes 4 (salt2 h) @ replicate 4 0"

definition header_deserialize :: "bytes \<Rightarrow> wal_header res" where
  "header_deserialize buf =
     (if length buf < WAL_HEADER_SIZE then Err (CorruptDatabase ''WAL header too short'')
      else if take 4 buf \<noteq> WAL_MAGIC then Err (CorruptDatabase ''invalid WAL magic'')
      else let version = (from_le (take 4 (drop 4 buf)) :: u32) in
        if version \<noteq> WAL_VERSION then Err (CorruptDatabase (''unsupported WAL version: '' @ show_nat (unat version)))
        else Ok \<lparr>wh_version = version, db_uuid_prefix = take 8 (drop 8 buf),
                 wh_page_size = from_le (take 4 (drop 16 buf)), salt1 = from_le (take 4 (drop 20 buf)),
                 salt2 = from_le (take 4 (drop 24 buf))\<rparr>)"

section \<open>Frames\<close>

record wal_frame =
  page_num :: u32
  commit_size :: u32
  checksum :: u32
  page_data :: bytes

definition frame_prefix :: "u32 \<Rightarrow> u32 \<Rightarrow> wal_frame \<Rightarrow> bytes" where
  "frame_prefix s1 s2 f = le_bytes 4 (page_num f) @ le_bytes 4 (commit_size f) @ le_bytes 4 s1 @ le_bytes 4 s2"

definition frame_serialize :: "u32 \<Rightarrow> u32 \<Rightarrow> wal_frame \<Rightarrow> bytes" where
  "frame_serialize s1 s2 f =
     frame_prefix s1 s2 f @ le_bytes 4 (fnv32 (frame_prefix s1 s2 f @ page_data f)) @ le_bytes 4 (0::u32) @ page_data f"

definition frame_deserialize :: "bytes \<Rightarrow> u32 \<Rightarrow> u32 \<Rightarrow> wal_frame res" where
  "frame_deserialize buf s1 s2 =
     (if length buf < WAL_FRAME_SIZE then Err (CorruptDatabase ''WAL frame too short'')
      else let pn = from_le (take 4 buf); cs = from_le (take 4 (drop 4 buf));
               fs1 = (from_le (take 4 (drop 8 buf)) :: u32); fs2 = (from_le (take 4 (drop 12 buf)) :: u32) in
        if fs1 \<noteq> s1 \<or> fs2 \<noteq> s2 then Err (CorruptDatabase ''WAL frame salt mismatch (stale WAL?)'')
        else let stored = (from_le (take 4 (drop 16 buf)) :: u32); data = take PAGE_SIZE (drop 24 buf);
                 computed = fnv32 (take 16 buf @ data) in
          if stored \<noteq> computed then Err (CorruptDatabase ''WAL frame checksum mismatch'')
          else Ok \<lparr>page_num = pn, commit_size = cs, checksum = stored, page_data = data\<rparr>)"

section \<open>The log\<close>

record wal_index =
  page_map :: "(u32, nat) ordmap"
  total_frames :: nat
  indexed_frames :: nat
  db_page_count :: u32

definition wal_index_new :: wal_index where
  "wal_index_new = \<lparr>page_map = [], total_frames = 0, indexed_frames = 0, db_page_count = 0\<rparr>"

datatype wal_sync_mode = Immediate | GroupCommit | NoSync

record wal_stats =
  total_commits :: nat
  total_fsyncs :: nat
  group_syncs :: nat
  total_frames_written :: nat
  stat_pending_sync_commits :: nat
  total_checkpoints :: nat
  total_checkpoint_frames :: nat
  blocked_checkpoints :: nat
  max_batch_size :: nat
  wal_file_bytes :: nat

definition wal_stats_new :: wal_stats where
  "wal_stats_new = \<lparr>total_commits = 0, total_fsyncs = 0, group_syncs = 0, total_frames_written = 0,
     stat_pending_sync_commits = 0, total_checkpoints = 0, total_checkpoint_frames = 0, blocked_checkpoints = 0,
     max_batch_size = 0, wal_file_bytes = 0\<rparr>"

record group_commit_config =
  max_batch_commits :: nat
  auto_sync_on_batch :: bool

record snapshot_entry =
  snap_id :: u64
  visible_frames :: nat

record wal =
  wal_file :: "os_file option"
  wheader :: wal_header
  windex :: wal_index
  uncommitted :: "wal_frame list"
  committed_frames :: "wal_frame list"
  auto_checkpoint_threshold :: nat
  sync_mode :: wal_sync_mode
  pending_sync_commits :: nat
  wstats :: wal_stats
  active_snapshots :: "snapshot_entry list"
  next_snapshot_id :: u64
  gc_config :: group_commit_config

definition usize_max :: nat where
  "usize_max = 2 ^ 64 - 1"

definition wal_make :: "os_file option \<Rightarrow> wal_header \<Rightarrow> wal_index \<Rightarrow> wal_frame list \<Rightarrow> nat \<Rightarrow> wal" where
  "wal_make file hdr idx frames threshold =
     \<lparr>wal_file = file, wheader = hdr, windex = idx, uncommitted = [], committed_frames = frames,
      auto_checkpoint_threshold = threshold, sync_mode = Immediate, pending_sync_commits = 0,
      wstats = wal_stats_new, active_snapshots = [], next_snapshot_id = 1,
      gc_config = \<lparr>max_batch_commits = 0, auto_sync_on_batch = False\<rparr>\<rparr>"

definition wal_create :: "nat \<Rightarrow> bytes \<Rightarrow> wal" where
  "wal_create nanos db_uuid =
     (let hdr = wal_header_new nanos db_uuid (word_of_nat PAGE_SIZE);
          file = file_sync (file_write 0 (header_serialize hdr) \<lparr>content = [], synced = []\<rparr>)
      in wal_make (Some file) hdr wal_index_new [] 1000)"

text \<open>One frame of the scan: the index changes only at a commit frame.\<close>

definition scan_frame ::
    "wal_frame \<Rightarrow> wal_index \<times> wal_frame list \<times> (u32, nat) ordmap \<Rightarrow> wal_index \<times> wal_frame list \<times> (u32, nat) ordmap" where
  "scan_frame f = (\<lambda>(idx, frames, pending).
     let pending1 = om_insert (page_num f) (length frames) pending; frames1 = frames @ [f] in
     if 0 < commit_size f
     then (idx\<lparr>page_map := fold (\<lambda>(p, i). om_insert p i) pending1 (page_map idx),
               indexed_frames := length frames1, db_page_count := commit_size f\<rparr>, frames1, [])
     else (idx, frames1, pending1))"

function wal_scan ::
    "u32 \<Rightarrow> u32 \<Rightarrow> bytes \<Rightarrow> wal_index \<times> wal_frame list \<times> (u32, nat) ordmap \<Rightarrow> wal_index \<times> wal_frame list \<times> (u32, nat) ordmap" where
  "wal_scan s1 s2 rest st =
     (if WAL_FRAME_SIZE \<le> length rest then
        (case frame_deserialize (take WAL_FRAME_SIZE rest) s1 s2 of
           Ok f \<Rightarrow> wal_scan s1 s2 (drop WAL_FRAME_SIZE rest) (scan_frame f st)
         | _ \<Rightarrow> st)
      else st)"
  by pat_completeness auto
termination
  by (relation "measure (\<lambda>(s1, s2, rest, st). length rest)") (auto simp: WAL_FRAME_SIZE_def WAL_FRAME_HEADER_SIZE_def)

declare wal_scan.simps [simp del]

definition wal_open :: "os_file option \<Rightarrow> wal res" where
  "wal_open path =
     (case path of
        None \<Rightarrow> Err (RuntimeError ''WAL file does not exist'')
      | Some file \<Rightarrow>
          if length (content file) < WAL_HEADER_SIZE then Err (CorruptDatabase ''WAL file too short'')
          else res_bind (header_deserialize (take WAL_HEADER_SIZE (content file))) (\<lambda>hdr.
            let (idx, frames, _) =
                  wal_scan (salt1 hdr) (salt2 hdr) (drop WAL_HEADER_SIZE (content file)) (wal_index_new, [], [])
            in Ok (wal_make (Some file) hdr (idx\<lparr>total_frames := length frames\<rparr>)
                     (take (indexed_frames idx) frames) 1000)))"

definition wal_open_or_create :: "nat \<Rightarrow> os_file option \<Rightarrow> bytes \<Rightarrow> wal res" where
  "wal_open_or_create nanos path db_uuid =
     (case path of
        Some file \<Rightarrow> if WAL_HEADER_SIZE \<le> length (content file) then wal_open path else Ok (wal_create nanos db_uuid)
      | None \<Rightarrow> Ok (wal_create nanos db_uuid))"

definition wal_open_memory :: "nat \<Rightarrow> bytes \<Rightarrow> wal" where
  "wal_open_memory nanos db_uuid =
     wal_make None (wal_header_new nanos db_uuid (word_of_nat PAGE_SIZE)) wal_index_new [] usize_max"

section \<open>Writing\<close>

definition wal_write_page :: "u32 \<Rightarrow> bytes \<Rightarrow> wal \<Rightarrow> wal" where
  "wal_write_page p data w =
     w\<lparr>uncommitted := uncommitted w @ [\<lparr>page_num = p, commit_size = 0, checksum = 0, page_data = data\<rparr>]\<rparr>"

definition group_sync :: "wal \<Rightarrow> nat \<times> wal" where
  "group_sync w =
     (let pending = pending_sync_commits w in
      if pending = 0 then (0, w)
      else let w1 = (case wal_file w of
                       Some f \<Rightarrow> w\<lparr>wal_file := Some (file_sync f),
                                   wstats := (wstats w)\<lparr>total_fsyncs := total_fsyncs (wstats w) + 1,
                                                        group_syncs := group_syncs (wstats w) + 1\<rparr>\<rparr>
                     | None \<Rightarrow> w)
        in (pending, w1\<lparr>pending_sync_commits := 0, wstats := (wstats w1)\<lparr>stat_pending_sync_commits := 0\<rparr>\<rparr>))"

text \<open>The frames of a commit: the last one carries the page count.\<close>

definition mark_commit :: "u32 \<Rightarrow> wal_frame list \<Rightarrow> wal_frame list" where
  "mark_commit n fs = butlast fs @ [(last fs)\<lparr>commit_size := n\<rparr>]"

definition frame_bytes :: "wal_header \<Rightarrow> wal_frame list \<Rightarrow> bytes" where
  "frame_bytes h fs = concat (map (frame_serialize (salt1 h) (salt2 h)) fs)"

text \<open>Writing the frames at the end that the index knows, and syncing as the mode says.\<close>

definition commit_write :: "wal_frame list \<Rightarrow> wal \<Rightarrow> wal" where
  "commit_write frames w =
     (case wal_file w of
        None \<Rightarrow> w
      | Some f \<Rightarrow>
          let f1 = file_write (WAL_HEADER_SIZE + total_frames (windex w) * WAL_FRAME_SIZE)
                     (frame_bytes (wheader w) frames) f in
          (case sync_mode w of
             Immediate \<Rightarrow> w\<lparr>wal_file := Some (file_sync f1),
                            wstats := (wstats w)\<lparr>total_fsyncs := total_fsyncs (wstats w) + 1\<rparr>\<rparr>
           | GroupCommit \<Rightarrow> w\<lparr>wal_file := Some f1, pending_sync_commits := pending_sync_commits w + 1\<rparr>
           | NoSync \<Rightarrow> w\<lparr>wal_file := Some f1\<rparr>))"

text \<open>Moving the frames into committed storage.\<close>

definition commit_index :: "u32 \<Rightarrow> wal_frame list \<Rightarrow> wal \<Rightarrow> wal" where
  "commit_index n frames w =
     (let base = length (committed_frames w); all = committed_frames w @ frames in
      w\<lparr>uncommitted := [], committed_frames := all,
        windex := \<lparr>page_map = fold (\<lambda>(i, f). om_insert (page_num f) (base + i)) (enumerate 0 frames) (page_map (windex w)),
                   total_frames = length all, indexed_frames = length all, db_page_count = n\<rparr>\<rparr>)"

definition commit_stats :: "nat \<Rightarrow> wal \<Rightarrow> wal" where
  "commit_stats frame_count w =
     w\<lparr>wstats := (wstats w)\<lparr>total_commits := total_commits (wstats w) + 1,
          total_frames_written := total_frames_written (wstats w) + frame_count,
          stat_pending_sync_commits := pending_sync_commits w,
          wal_file_bytes := (if wal_file w = None then wal_file_bytes (wstats w)
                             else WAL_HEADER_SIZE + length (committed_frames w) * WAL_FRAME_SIZE),
          max_batch_size := max (max_batch_size (wstats w)) (pending_sync_commits w)\<rparr>\<rparr>"

definition wal_commit :: "u32 \<Rightarrow> wal \<Rightarrow> wal" where
  "wal_commit n w =
     (if uncommitted w = [] then w
      else let frames = mark_commit n (uncommitted w);
               w1 = commit_stats (length frames) (commit_index n frames (commit_write frames w)) in
        if auto_sync_on_batch (gc_config w1) \<and> 0 < max_batch_commits (gc_config w1)
             \<and> max_batch_commits (gc_config w1) \<le> pending_sync_commits w1
        then snd (group_sync w1) else w1)"

definition set_sync_mode :: "wal_sync_mode \<Rightarrow> wal \<Rightarrow> wal" where
  "set_sync_mode m w = w\<lparr>sync_mode := m\<rparr>"

definition set_group_commit_config :: "group_commit_config \<Rightarrow> wal \<Rightarrow> wal" where
  "set_group_commit_config c w = w\<lparr>gc_config := c\<rparr>"

definition wal_rollback :: "wal \<Rightarrow> wal" where
  "wal_rollback w = w\<lparr>uncommitted := []\<rparr>"

definition wal_read_page :: "wal \<Rightarrow> u32 \<Rightarrow> bytes option" where
  "wal_read_page w p =
     (case find (\<lambda>f. page_num f = p) (rev (uncommitted w)) of
        Some f \<Rightarrow> Some (page_data f)
      | None \<Rightarrow>
          (case om_get (page_map (windex w)) p of
             Some i \<Rightarrow> if i < length (committed_frames w) then Some (page_data (committed_frames w ! i)) else None
           | None \<Rightarrow> None))"

section \<open>Checkpoints\<close>

definition safe_checkpoint_boundary :: "wal \<Rightarrow> nat" where
  "safe_checkpoint_boundary w =
     (if active_snapshots w = [] then length (committed_frames w)
      else let min_visible = (case list_min (map visible_frames (active_snapshots w)) of Some m \<Rightarrow> m | None \<Rightarrow> 0) in
        if length (committed_frames w) \<le> min_visible then length (committed_frames w) else 0)"

text \<open>Copying pages into the database file. A page number 0 would give a negative offset.\<close>

definition copy_page :: "wal_frame list \<Rightarrow> u32 \<times> nat \<Rightarrow> bytes res \<Rightarrow> bytes res" where
  "copy_page frames = (\<lambda>(p, i) db. res_bind db (\<lambda>f.
     if i < length frames \<and> p \<noteq> 0 then Ok (write_at (page_offset p) (page_data (frames ! i)) f) else Panic))"

definition copy_pages :: "wal_frame list \<Rightarrow> (u32, nat) ordmap \<Rightarrow> bytes \<Rightarrow> bytes res" where
  "copy_pages frames pm db = fold (copy_page frames) pm (Ok db)"

definition full_checkpoint :: "nat \<Rightarrow> wal \<Rightarrow> os_file \<Rightarrow> (nat \<times> wal \<times> os_file) res" where
  "full_checkpoint nanos w db =
     res_bind (copy_pages (committed_frames w) (page_map (windex w)) (content db)) (\<lambda>c.
       let n = db_page_count (windex w);
           c1 = (if 0 < n then set_len (unat n * PAGE_SIZE) c else c);
           hdr = (wheader w)\<lparr>salt1 := word_of_nat nanos, salt2 := word_of_nat (nanos div 2 ^ 32)\<rparr>;
           file = (case wal_file w of
                     None \<Rightarrow> None
                   | Some f \<Rightarrow> Some (file_sync (f\<lparr>content := set_len WAL_HEADER_SIZE
                                                    (write_at 0 (header_serialize hdr) (content f))\<rparr>)))
       in Ok (length (committed_frames w),
              w\<lparr>committed_frames := [], uncommitted := [], windex := wal_index_new, wheader := hdr, wal_file := file,
                wstats := (wstats w)\<lparr>wal_file_bytes := WAL_HEADER_SIZE\<rparr>\<rparr>,
              file_sync (db\<lparr>content := c1\<rparr>)))"

definition partial_checkpoint :: "nat \<Rightarrow> wal \<Rightarrow> os_file \<Rightarrow> (nat \<times> wal \<times> os_file) res" where
  "partial_checkpoint boundary w db =
     (if boundary = 0 then Ok (0, w, db)
      else res_bind (copy_pages (committed_frames w) (filter (\<lambda>(p, i). i < boundary) (page_map (windex w))) (content db)) (\<lambda>c.
        let frames = drop boundary (committed_frames w) in
        Ok (boundary,
            w\<lparr>committed_frames := frames,
              windex := (windex w)\<lparr>page_map := fold (\<lambda>(i, f). om_insert (page_num f) i) (enumerate 0 frames) [],
                                   indexed_frames := length frames, total_frames := length frames\<rparr>,
              active_snapshots := map (\<lambda>s. s\<lparr>visible_frames := visible_frames s - boundary\<rparr>) (active_snapshots w)\<rparr>,
            file_sync (db\<lparr>content := c\<rparr>))))"

definition wal_checkpoint :: "nat \<Rightarrow> wal \<Rightarrow> os_file \<Rightarrow> (nat \<times> wal \<times> os_file) res" where
  "wal_checkpoint nanos w db =
     (let boundary = safe_checkpoint_boundary w in
      if boundary = 0 \<and> active_snapshots w \<noteq> [] then
        Ok (0, w\<lparr>wstats := (wstats w)\<lparr>blocked_checkpoints := blocked_checkpoints (wstats w) + 1\<rparr>\<rparr>, db)
      else res_bind (if length (committed_frames w) \<le> boundary then full_checkpoint nanos w db
                     else partial_checkpoint boundary w db) (\<lambda>(n, w1, db1).
        Ok (n, w1\<lparr>wstats := (wstats w1)\<lparr>total_checkpoints := total_checkpoints (wstats w1) + 1,
                    total_checkpoint_frames := total_checkpoint_frames (wstats w1) + n\<rparr>\<rparr>, db1)))"

definition should_checkpoint :: "wal \<Rightarrow> bool" where
  "should_checkpoint w \<longleftrightarrow> auto_checkpoint_threshold w \<le> length (committed_frames w)"

definition wal_is_empty :: "wal \<Rightarrow> bool" where
  "wal_is_empty w \<longleftrightarrow> committed_frames w = [] \<and> uncommitted w = []"

section \<open>Reader snapshots\<close>

record wal_snapshot =
  snap_page_map :: "(u32, nat) ordmap"
  snapshot_end :: nat

definition wal_take_snapshot :: "wal \<Rightarrow> wal_snapshot" where
  "wal_take_snapshot w = \<lparr>snap_page_map = page_map (windex w), snapshot_end = length (committed_frames w)\<rparr>"

definition register_snapshot :: "wal \<Rightarrow> (u64 \<times> wal_snapshot) \<times> wal" where
  "register_snapshot w =
     (let i = next_snapshot_id w; s = wal_take_snapshot w in
      ((i, s), w\<lparr>next_snapshot_id := i + 1,
                 active_snapshots := active_snapshots w @ [\<lparr>snap_id = i, visible_frames = snapshot_end s\<rparr>]\<rparr>))"

definition release_snapshot :: "u64 \<Rightarrow> wal \<Rightarrow> bool \<times> wal" where
  "release_snapshot i w =
     (let snaps = filter (\<lambda>s. snap_id s \<noteq> i) (active_snapshots w)
      in (length snaps < length (active_snapshots w), w\<lparr>active_snapshots := snaps\<rparr>))"

definition is_checkpoint_blocked :: "wal \<Rightarrow> bool" where
  "is_checkpoint_blocked w = (if active_snapshots w = [] then False else safe_checkpoint_boundary w = 0)"

definition read_page_snapshot :: "wal \<Rightarrow> u32 \<Rightarrow> wal_snapshot \<Rightarrow> bytes option" where
  "read_page_snapshot w p s =
     (case om_get (snap_page_map s) p of
        Some i \<Rightarrow> if i < snapshot_end s \<and> i < length (committed_frames w)
                  then Some (page_data (committed_frames w ! i)) else None
      | None \<Rightarrow> None)"

definition snapshot_has_page :: "wal_snapshot \<Rightarrow> u32 \<Rightarrow> bool" where
  "snapshot_has_page s p = (case om_get (snap_page_map s) p of Some i \<Rightarrow> i < snapshot_end s | None \<Rightarrow> False)"

section \<open>Formats\<close>

lemma wal_sizes [simp]: "0 < WAL_FRAME_SIZE" "WAL_FRAME_SIZE \<noteq> 0"
  by (simp_all add: WAL_FRAME_SIZE_def)

definition header_ok :: "wal_header \<Rightarrow> bool" where
  "header_ok h \<longleftrightarrow> wh_version h = WAL_VERSION \<and> length (db_uuid_prefix h) = 8"

lemma length_header_serialize [simp]: "header_ok h \<Longrightarrow> length (header_serialize h) = WAL_HEADER_SIZE"
  by (simp add: header_ok_def header_serialize_def WAL_MAGIC_def WAL_HEADER_SIZE_def)

lemma header_round_trip: "header_ok h \<Longrightarrow> header_deserialize (header_serialize h) = Ok h"
  by (cases h) (simp add: header_ok_def header_deserialize_def header_serialize_def WAL_MAGIC_def WAL_HEADER_SIZE_def
      Let_def)

definition frame_ok :: "wal_frame \<Rightarrow> bool" where
  "frame_ok f \<longleftrightarrow> length (page_data f) = PAGE_SIZE"

text \<open>A frame as it is read back: with its checksum filled in.\<close>

definition sealed :: "wal_header \<Rightarrow> wal_frame \<Rightarrow> wal_frame" where
  "sealed h f = f\<lparr>checksum := fnv32 (frame_prefix (salt1 h) (salt2 h) f @ page_data f)\<rparr>"

lemma sealed_simps [simp]:
  "page_num (sealed h f) = page_num f" "commit_size (sealed h f) = commit_size f" "page_data (sealed h f) = page_data f"
  "frame_ok (sealed h f) = frame_ok f" "frame_serialize s1 s2 (sealed h f) = frame_serialize s1 s2 f"
  by (simp_all add: sealed_def frame_ok_def frame_serialize_def frame_prefix_def)

lemma length_frame_prefix [simp]: "length (frame_prefix s1 s2 f) = 16"
  by (simp add: frame_prefix_def)

lemma length_frame_serialize [simp]: "frame_ok f \<Longrightarrow> length (frame_serialize s1 s2 f) = WAL_FRAME_SIZE"
  by (simp add: frame_ok_def frame_serialize_def WAL_FRAME_SIZE_def WAL_FRAME_HEADER_SIZE_def)

lemma frame_round_trip:
  assumes "frame_ok f"
  shows "frame_deserialize (frame_serialize (salt1 h) (salt2 h) f) (salt1 h) (salt2 h) = Ok (sealed h f)"
proof -
  let ?b = "frame_serialize (salt1 h) (salt2 h) f" and ?p = "frame_prefix (salt1 h) (salt2 h) f"
  have fields: "take 4 ?b = le_bytes 4 (page_num f)" "take 4 (drop 4 ?b) = le_bytes 4 (commit_size f)"
    "take 4 (drop 8 ?b) = le_bytes 4 (salt1 h)" "take 4 (drop 12 ?b) = le_bytes 4 (salt2 h)"
    "take 16 ?b = ?p" "take 4 (drop 16 ?b) = le_bytes 4 (fnv32 (?p @ page_data f))"
    "take PAGE_SIZE (drop 24 ?b) = page_data f"
    using assms by (simp_all add: frame_ok_def frame_serialize_def frame_prefix_def)
  show ?thesis
    using length_frame_serialize [OF assms, of "salt1 h" "salt2 h"]
    by (simp add: frame_deserialize_def fields Let_def sealed_def)
qed

section \<open>Scanning\<close>

lemma length_frame_bytes: "list_all frame_ok fs \<Longrightarrow> length (frame_bytes h fs) = length fs * WAL_FRAME_SIZE"
  by (induction fs) (simp_all add: frame_bytes_def)

lemma frame_bytes_append [simp]: "frame_bytes h (fs @ gs) = frame_bytes h fs @ frame_bytes h gs"
  by (simp add: frame_bytes_def)

lemma frame_bytes_simps [simp]: "frame_bytes h [] = []"
  "frame_bytes h (f # fs) = frame_serialize (salt1 h) (salt2 h) f @ frame_bytes h fs"
  "frame_bytes h (map (sealed h) fs) = frame_bytes h fs"
  by (simp_all add: frame_bytes_def comp_def)

lemma wal_scan_frames:
  assumes "list_all frame_ok fs" and "length tail < WAL_FRAME_SIZE"
  shows "wal_scan (salt1 h) (salt2 h) (frame_bytes h fs @ tail) st = fold scan_frame (map (sealed h) fs) st"
  using assms(1)
proof (induction fs arbitrary: st)
  case Nil
  with assms(2) show ?case by (simp add: wal_scan.simps)
next
  case (Cons f fs)
  then have "frame_ok f" by simp
  then show ?case using Cons
    by (subst wal_scan.simps) (simp add: frame_round_trip)
qed

definition last_index :: "wal_frame list \<Rightarrow> u32 \<Rightarrow> nat option" where
  "last_index fs p = rposition (\<lambda>f. page_num f = p) fs"

definition committed_prefix :: "wal_frame list \<Rightarrow> nat" where
  "committed_prefix fs = (case rposition (\<lambda>f. 0 < commit_size f) fs of None \<Rightarrow> 0 | Some i \<Rightarrow> Suc i)"

lemma last_index_simps [simp]:
  "last_index [] p = None"
  "last_index (fs @ [f]) p = (if page_num f = p then Some (length fs) else last_index fs p)"
  by (simp_all add: last_index_def rposition_snoc)

lemma last_index_less: "last_index fs p = Some i \<Longrightarrow> i < length fs \<and> page_num (fs ! i) = p"
  by (simp add: last_index_def rposition_Some)

lemma committed_prefix_simps [simp]:
  "committed_prefix [] = 0"
  "committed_prefix (fs @ [f]) = (if 0 < commit_size f then Suc (length fs) else committed_prefix fs)"
  by (simp_all add: committed_prefix_def rposition_snoc)

lemma committed_prefix_le: "committed_prefix fs \<le> length fs"
  by (induction fs rule: rev_induct) auto

lemma last_index_sealed [simp]: "last_index (map (sealed h) fs) = last_index fs"
  by (rule ext, induction fs rule: rev_induct) simp_all

lemma committed_prefix_sealed [simp]: "committed_prefix (map (sealed h) fs) = committed_prefix fs"
  by (induction fs rule: rev_induct) simp_all

lemma om_get_empty: "om_get [] = Map.empty"
  by (rule ext) simp

lemma om_get_fold_insert:
  "om_ok m \<Longrightarrow> om_get (fold (\<lambda>(p, i). om_insert p i) m b) = om_get b ++ om_get m"
proof (induction m arbitrary: b)
  case (Cons a m)
  obtain p i where a: "a = (p, i)" by (cases a)
  have "om_ok m" and "om_get m p = None"
    using Cons.prems by (auto simp: om_ok_def a om_get_def map_of_eq_None_iff)
  with Cons.IH [of "om_insert p i b"] show ?case
    by (auto simp: a om_get_def map_add_def fun_eq_iff split: option.splits)
qed (simp add: om_get_def map_add_def fun_eq_iff)

lemma om_ok_fold_insert: "om_ok b \<Longrightarrow> om_ok (fold (\<lambda>(p, i). om_insert p i) m b)"
  by (induction m arbitrary: b) auto

definition scan_inv :: "wal_frame list \<Rightarrow> wal_index \<times> wal_frame list \<times> (u32, nat) ordmap \<Rightarrow> bool" where
  "scan_inv fs = (\<lambda>(idx, frames, pending).
     let k = committed_prefix fs in
     frames = fs \<and> om_ok (page_map idx) \<and> om_ok pending \<and> total_frames idx = 0 \<and> indexed_frames idx = k
     \<and> om_get (page_map idx) = last_index (take k fs)
     \<and> om_get (page_map idx) ++ om_get pending = last_index fs
     \<and> db_page_count idx = (if k = 0 then 0 else commit_size (fs ! (k - 1))))"

lemma scan_inv_frames: "scan_inv fs (fold scan_frame fs (wal_index_new, [], []))"
proof (induction fs rule: rev_induct)
  case Nil
  show ?case by (simp add: scan_inv_def wal_index_new_def fun_eq_iff)
next
  case (snoc f fs)
  obtain idx frames pending where st: "fold scan_frame fs (wal_index_new, [], []) = (idx, frames, pending)"
    by (cases "fold scan_frame fs (wal_index_new, [], [])")
  have I: "frames = fs" "om_ok (page_map idx)" "om_ok pending" "total_frames idx = 0"
    "indexed_frames idx = committed_prefix fs" "om_get (page_map idx) = last_index (take (committed_prefix fs) fs)"
    "om_get (page_map idx) ++ om_get pending = last_index fs"
    "db_page_count idx = (if committed_prefix fs = 0 then 0 else commit_size (fs ! (committed_prefix fs - 1)))"
    using snoc unfolding st scan_inv_def Let_def prod.case by blast+
  have new: "om_get (page_map idx) ++ (om_get pending)(page_num f \<mapsto> length fs) = last_index (fs @ [f])"
    using I(7) by (auto simp: fun_eq_iff map_add_def split: if_splits option.splits)
  have keep: "(fs @ [f]) ! (committed_prefix fs - 1) = fs ! (committed_prefix fs - 1)" if "committed_prefix fs \<noteq> 0"
    using that committed_prefix_le [of fs] by (simp add: nth_append)
  have step: "fold scan_frame (fs @ [f]) (wal_index_new, [], []) = scan_frame f (idx, fs, pending)"
    by (simp add: st I(1))
  show ?case
  proof (cases "0 < commit_size f")
    case True
    then show ?thesis unfolding step scan_inv_def
      using I(2-4) new by (simp add: scan_frame_def Let_def om_get_fold_insert om_ok_fold_insert om_get_empty)
  next
    case False
    then show ?thesis unfolding step scan_inv_def
      using I(2-6,8) new keep committed_prefix_le [of fs] by (simp add: scan_frame_def Let_def)
  qed
qed

section \<open>Opening\<close>

definition index_of :: "wal_frame list \<Rightarrow> wal_index \<Rightarrow> bool" where
  "index_of fs idx \<longleftrightarrow> om_ok (page_map idx) \<and> om_get (page_map idx) = last_index fs
     \<and> indexed_frames idx = length fs \<and> db_page_count idx = (if fs = [] then 0 else commit_size (last fs))"

lemma take_last_nth: "0 < k \<Longrightarrow> k \<le> length xs \<Longrightarrow> take k xs \<noteq> [] \<and> last (take k xs) = xs ! (k - 1)"
proof -
  assume k: "0 < k" "k \<le> length xs"
  then have ne: "take k xs \<noteq> []" by auto
  with k show ?thesis by (simp add: last_conv_nth [OF ne])
qed

lemma wal_open_frames:
  assumes "header_ok h" and "list_all frame_ok fs" and "length tail < WAL_FRAME_SIZE"
    and "content f = header_serialize h @ frame_bytes h fs @ tail"
  obtains idx where "wal_open (Some f) = Ok (wal_make (Some f) h idx (map (sealed h) (take (committed_prefix fs) fs)) 1000)"
    and "index_of (take (committed_prefix fs) fs) idx" and "total_frames idx = length fs"
proof -
  let ?fs = "map (sealed h) fs" and ?k = "committed_prefix fs"
  obtain idx frames pending where st: "fold scan_frame ?fs (wal_index_new, [], []) = (idx, frames, pending)"
    by (cases "fold scan_frame ?fs (wal_index_new, [], [])")
  have I: "frames = ?fs" "om_ok (page_map idx)" "indexed_frames idx = ?k"
    "om_get (page_map idx) = last_index (take ?k fs)"
    "db_page_count idx = (if ?k = 0 then 0 else commit_size (?fs ! (?k - 1)))"
    using scan_inv_frames [of ?fs] unfolding st scan_inv_def Let_def prod.case
    by (simp_all add: take_map)
  have cnt: "db_page_count idx = (if take ?k fs = [] then 0 else commit_size (last (take ?k fs)))"
    using I(5) take_last_nth [of ?k fs] committed_prefix_le [of fs] by (cases "?k = 0") auto
  have "wal_open (Some f) = Ok (wal_make (Some f) h (idx\<lparr>total_frames := length fs\<rparr>) (map (sealed h) (take ?k fs)) 1000)"
    using assms(1) wal_scan_frames [OF assms(2,3), of h "(wal_index_new, [], [])"]
    by (simp add: wal_open_def assms(4) header_round_trip st I(1,3) take_map)
  moreover have "index_of (take ?k fs) (idx\<lparr>total_frames := length fs\<rparr>)"
    using I cnt committed_prefix_le [of fs] by (simp add: index_of_def)
  ultimately show ?thesis by (rule that) simp
qed

section \<open>Reachable states\<close>

definition wal_inv :: "wal \<Rightarrow> bool" where
  "wal_inv w \<longleftrightarrow> header_ok (wheader w)
     \<and> list_all (\<lambda>f. frame_ok f \<and> page_num f \<noteq> 0) (committed_frames w)
     \<and> list_all (\<lambda>f. frame_ok f \<and> page_num f \<noteq> 0) (uncommitted w) \<and> list_all (\<lambda>f. commit_size f = 0) (uncommitted w)
     \<and> committed_prefix (committed_frames w) = length (committed_frames w)
     \<and> index_of (committed_frames w) (windex w) \<and> total_frames (windex w) = length (committed_frames w)
     \<and> (\<exists>f. wal_file w = Some f
          \<and> content f = header_serialize (wheader w) @ frame_bytes (wheader w) (committed_frames w))"

text \<open>The operations that change the log alone.\<close>

datatype wal_op =
    WriteOp u32 bytes
  | CommitOp u32
  | RollbackOp
  | GroupSyncOp
  | SyncModeOp wal_sync_mode
  | ConfigOp group_commit_config
  | RegisterOp
  | ReleaseOp u64

fun run_wal_op :: "wal_op \<Rightarrow> wal \<Rightarrow> wal" where
  "run_wal_op (WriteOp p d) w = wal_write_page p d w"
| "run_wal_op (CommitOp n) w = wal_commit n w"
| "run_wal_op RollbackOp w = wal_rollback w"
| "run_wal_op GroupSyncOp w = snd (group_sync w)"
| "run_wal_op (SyncModeOp m) w = set_sync_mode m w"
| "run_wal_op (ConfigOp c) w = set_group_commit_config c w"
| "run_wal_op RegisterOp w = snd (register_snapshot w)"
| "run_wal_op (ReleaseOp i) w = snd (release_snapshot i w)"

text \<open>How the pager uses them: whole pages with a valid number, and a positive page count at a commit. With
  the flag unset, the mode without syncing is not used.\<close>

fun wal_op_ok :: "bool \<Rightarrow> wal_op \<Rightarrow> bool" where
  "wal_op_ok nosync (WriteOp p d) \<longleftrightarrow> p \<noteq> 0 \<and> length d = PAGE_SIZE"
| "wal_op_ok nosync (CommitOp n) \<longleftrightarrow> n \<noteq> 0"
| "wal_op_ok nosync (SyncModeOp m) \<longleftrightarrow> m \<noteq> NoSync \<or> nosync"
| "wal_op_ok nosync _ \<longleftrightarrow> True"

text \<open>With the flag unset, the log is not reopened while commits wait for their sync either.\<close>

inductive wal_step :: "bool \<Rightarrow> wal \<times> os_file \<Rightarrow> wal \<times> os_file \<Rightarrow> bool" for nosync :: bool where
  op: "wal_op_ok nosync op \<Longrightarrow> wal_step nosync (w, db) (run_wal_op op w, db)"
| checkpoint: "wal_checkpoint nanos w db = Ok (n, w', db') \<Longrightarrow> wal_step nosync (w, db) (w', db')"
| reopen: "pending_sync_commits w = 0 \<or> nosync \<Longrightarrow> wal_open (wal_file w) = Ok w' \<Longrightarrow> wal_step nosync (w, db) (w', db)"

inductive wal_reach :: "bool \<Rightarrow> wal \<times> os_file \<Rightarrow> bool" for nosync :: bool where
  start: "length uuid = 16 \<Longrightarrow> wal_reach nosync (wal_create nanos uuid, db)"
| step: "wal_reach nosync s \<Longrightarrow> wal_step nosync s s' \<Longrightarrow> wal_reach nosync s'"

lemma header_ok_new [simp]: "length uuid = 16 \<Longrightarrow> header_ok (wal_header_new nanos uuid n)"
  by (simp add: header_ok_def wal_header_new_def)

lemma wal_inv_create: "length uuid = 16 \<Longrightarrow> wal_inv (wal_create nanos uuid)"
  by (simp add: wal_inv_def wal_create_def wal_make_def Let_def index_of_def wal_index_new_def fun_eq_iff
      file_sync_def file_write_def write_at_def)

lemma last_index_append:
  "last_index (fs @ gs) p = (case last_index gs p of Some i \<Rightarrow> Some (length fs + i) | None \<Rightarrow> last_index fs p)"
  by (simp add: last_index_def rposition_append split: option.split)

lemma fold_enumerate_insert:
  "om_get (fold (\<lambda>(i, f). om_insert (page_num f) (base + i)) (enumerate 0 fs) m)
     = om_get m ++ (\<lambda>p. map_option ((+) base) (last_index fs p))"
  "om_ok m \<Longrightarrow> om_ok (fold (\<lambda>(i, f). om_insert (page_num f) (base + i)) (enumerate 0 fs) m)"
proof (induction fs rule: rev_induct)
  case Nil
  { case 1 show ?case by (simp add: map_add_def fun_eq_iff) }
  { case 2 then show ?case by simp }
next
  case (snoc f fs)
  { case 1 show ?case using snoc(1) by (simp add: enumerate_append_eq map_add_def fun_eq_iff) }
  { case 2 with snoc(2) show ?case by (simp add: enumerate_append_eq) }
qed

lemma mark_commit_simps:
  assumes "fs \<noteq> []"
  shows "length (mark_commit n fs) = length fs" "list_all frame_ok fs \<Longrightarrow> list_all frame_ok (mark_commit n fs)"
    "last_index (mark_commit n fs) = last_index fs" "last (mark_commit n fs) = (last fs)\<lparr>commit_size := n\<rparr>"
    "mark_commit n fs \<noteq> []" "map page_num (mark_commit n fs) = map page_num fs" "map page_data (mark_commit n fs) = map page_data fs"
proof -
  from assms obtain gs g where fs: "fs = gs @ [g]" by (metis rev_exhaust)
  show "length (mark_commit n fs) = length fs" "list_all frame_ok fs \<Longrightarrow> list_all frame_ok (mark_commit n fs)"
    "last_index (mark_commit n fs) = last_index fs" "last (mark_commit n fs) = (last fs)\<lparr>commit_size := n\<rparr>"
    "mark_commit n fs \<noteq> []" "map page_num (mark_commit n fs) = map page_num fs" "map page_data (mark_commit n fs) = map page_data fs"
    by (auto simp: fs mark_commit_def frame_ok_def fun_eq_iff)
qed

lemma group_sync_fields [simp]:
  "wheader (snd (group_sync w)) = wheader w" "windex (snd (group_sync w)) = windex w"
  "uncommitted (snd (group_sync w)) = uncommitted w" "committed_frames (snd (group_sync w)) = committed_frames w"
  "map_option content (wal_file (snd (group_sync w))) = map_option content (wal_file w)"
  "active_snapshots (snd (group_sync w)) = active_snapshots w" "sync_mode (snd (group_sync w)) = sync_mode w"
  by (auto simp: group_sync_def Let_def file_sync_def split: option.split)

lemma commit_write_fields [simp]:
  "wheader (commit_write fs w) = wheader w" "windex (commit_write fs w) = windex w"
  "uncommitted (commit_write fs w) = uncommitted w" "committed_frames (commit_write fs w) = committed_frames w"
  "active_snapshots (commit_write fs w) = active_snapshots w" "sync_mode (commit_write fs w) = sync_mode w"
  "map_option content (wal_file (commit_write fs w))
     = map_option (\<lambda>f. write_at (WAL_HEADER_SIZE + total_frames (windex w) * WAL_FRAME_SIZE)
                          (frame_bytes (wheader w) fs) (content f)) (wal_file w)"
  by (auto simp: commit_write_def Let_def file_sync_def file_write_def split: option.split wal_sync_mode.split)

lemma commit_index_fields [simp]:
  "wheader (commit_index n fs w) = wheader w" "uncommitted (commit_index n fs w) = []"
  "committed_frames (commit_index n fs w) = committed_frames w @ fs" "wal_file (commit_index n fs w) = wal_file w"
  "total_frames (windex (commit_index n fs w)) = length (committed_frames w @ fs)"
  "active_snapshots (commit_index n fs w) = active_snapshots w" "sync_mode (commit_index n fs w) = sync_mode w"
  "pending_sync_commits (commit_index n fs w) = pending_sync_commits w"
  by (simp_all add: commit_index_def Let_def)

lemma commit_stats_fields [simp]:
  "wheader (commit_stats k w) = wheader w" "windex (commit_stats k w) = windex w"
  "uncommitted (commit_stats k w) = uncommitted w" "committed_frames (commit_stats k w) = committed_frames w"
  "wal_file (commit_stats k w) = wal_file w" "active_snapshots (commit_stats k w) = active_snapshots w"
  "sync_mode (commit_stats k w) = sync_mode w" "pending_sync_commits (commit_stats k w) = pending_sync_commits w"
  by (simp_all add: commit_stats_def)

lemma wal_commit_fields:
  assumes "uncommitted w \<noteq> []"
  shows "wheader (wal_commit n w) = wheader w"
    "windex (wal_commit n w) = windex (commit_index n (mark_commit n (uncommitted w)) (commit_write (mark_commit n (uncommitted w)) w))"
    "uncommitted (wal_commit n w) = []" "committed_frames (wal_commit n w) = committed_frames w @ mark_commit n (uncommitted w)"
    "map_option content (wal_file (wal_commit n w))
       = map_option (\<lambda>f. write_at (WAL_HEADER_SIZE + total_frames (windex w) * WAL_FRAME_SIZE)
                            (frame_bytes (wheader w) (mark_commit n (uncommitted w))) (content f)) (wal_file w)"
    "active_snapshots (wal_commit n w) = active_snapshots w" "sync_mode (wal_commit n w) = sync_mode w"
  using assms by (simp_all add: wal_commit_def Let_def)

lemma commit_index_index_of:
  assumes "index_of (committed_frames w) (windex w)" and "fs \<noteq> []" and "commit_size (last fs) = n"
  shows "index_of (committed_frames w @ fs) (windex (commit_index n fs w))"
proof -
  have "om_get (page_map (windex w)) ++ (\<lambda>p. map_option ((+) (length (committed_frames w))) (last_index fs p))
      = last_index (committed_frames w @ fs)"
    using assms(1) by (auto simp: fun_eq_iff map_add_def index_of_def last_index_append split: option.split)
  with assms show ?thesis
    by (simp add: index_of_def commit_index_def Let_def fold_enumerate_insert)
qed

lemma mark_commit_prefix: "fs \<noteq> [] \<Longrightarrow> n \<noteq> 0 \<Longrightarrow> committed_prefix (cs @ mark_commit n fs) = length (cs @ mark_commit n fs)"
proof -
  assume "fs \<noteq> []" "n \<noteq> 0"
  then have "committed_prefix ((cs @ butlast fs) @ [(last fs)\<lparr>commit_size := n\<rparr>]) = Suc (length (cs @ butlast fs))"
    by (subst committed_prefix_simps) (simp add: word_gt_0)
  then show ?thesis by (simp add: mark_commit_def)
qed

lemma mark_commit_ok:
  assumes "fs \<noteq> []" and "list_all (\<lambda>f. frame_ok f \<and> page_num f \<noteq> 0) fs"
  shows "list_all (\<lambda>f. frame_ok f \<and> page_num f \<noteq> 0) (mark_commit n fs)"
proof -
  from assms(1) obtain gs g where "fs = gs @ [g]" by (metis rev_exhaust)
  with assms(2) show ?thesis by (simp add: mark_commit_def frame_ok_def)
qed

lemma wal_inv_commit:
  assumes inv: "wal_inv w" and n: "n \<noteq> 0"
  shows "wal_inv (wal_commit n w)"
proof (cases "uncommitted w = []")
  case True
  with inv show ?thesis by (simp add: wal_commit_def)
next
  case False
  let ?fs = "mark_commit n (uncommitted w)"
  note F = wal_commit_fields [OF False, of n]
  from inv obtain f where f: "wal_file w = Some f"
      "content f = header_serialize (wheader w) @ frame_bytes (wheader w) (committed_frames w)"
    by (auto simp: wal_inv_def)
  have ok: "list_all frame_ok (committed_frames w)" and hdr: "header_ok (wheader w)"
    using inv by (auto simp: wal_inv_def list_all_iff)
  have "length (content f) = WAL_HEADER_SIZE + total_frames (windex w) * WAL_FRAME_SIZE"
    using inv hdr by (simp add: f(2) length_frame_bytes [OF ok] wal_inv_def)
  then have "map_option content (wal_file (wal_commit n w)) = Some (content f @ frame_bytes (wheader w) ?fs)"
    unfolding F(5) f(1) by (metis option.map(2) write_at_end)
  then have wfile: "\<exists>g. wal_file (wal_commit n w) = Some g
      \<and> content g = header_serialize (wheader w) @ frame_bytes (wheader w) (committed_frames w @ ?fs)"
    by (auto simp: f(2))
  have "index_of (committed_frames w @ ?fs) (windex (wal_commit n w))"
    unfolding F(2) using commit_index_index_of [of "commit_write ?fs w" ?fs n] inv
    by (simp add: mark_commit_simps [OF False] wal_inv_def)
  with inv wfile False n show ?thesis
    by (simp add: wal_inv_def F mark_commit_ok mark_commit_prefix mark_commit_simps(2))
qed

section \<open>Checkpoints keep what is read\<close>

definition copyable :: "wal_frame list \<Rightarrow> (u32, nat) ordmap \<Rightarrow> bool" where
  "copyable frames pm \<longleftrightarrow> distinct (map fst pm)
     \<and> list_all (\<lambda>(p, i). i < length frames \<and> p \<noteq> 0 \<and> frame_ok (frames ! i)) pm"

lemma copy_pages_Ok:
  assumes "copyable frames pm"
  obtains c where "copy_pages frames pm db = Ok c" and "length db \<le> length c"
    and "\<And>p i. (p, i) \<in> set pm \<Longrightarrow> file_page c p = Some (page_data (frames ! i))"
    and "\<And>q b. q \<notin> fst ` set pm \<Longrightarrow> q \<noteq> 0 \<Longrightarrow> file_page db q = Some b \<Longrightarrow> file_page c q = Some b"
  using assms
proof (induction pm arbitrary: thesis rule: rev_induct)
  case Nil
  show ?case by (rule Nil(1) [of db]) (simp_all add: copy_pages_def)
next
  case (snoc a pm)
  obtain p i where a: "a = (p, i)" by (cases a)
  have pm: "copyable frames pm" and new: "i < length frames" "p \<noteq> 0" "frame_ok (frames ! i)" "p \<notin> fst ` set pm"
    using snoc.prems(2) by (auto simp: copyable_def a)
  obtain c where c: "copy_pages frames pm db = Ok c" "length db \<le> length c"
      "\<And>p i. (p, i) \<in> set pm \<Longrightarrow> file_page c p = Some (page_data (frames ! i))"
      "\<And>q b. q \<notin> fst ` set pm \<Longrightarrow> q \<noteq> 0 \<Longrightarrow> file_page db q = Some b \<Longrightarrow> file_page c q = Some b"
    using snoc.IH [OF _ pm] by blast
  have nz: "q \<noteq> 0" if "(q, j) \<in> set pm" for q j
    using pm that by (auto simp: copyable_def list_all_iff)
  let ?c = "write_at (page_offset p) (page_data (frames ! i)) c"
  show ?case
  proof (rule snoc.prems(1) [of ?c])
    show "copy_pages frames (pm @ [a]) db = Ok ?c"
      using c(1) new by (simp add: copy_pages_def copy_page_def a)
    show "length db \<le> length ?c" using c(2) by simp
    show "file_page ?c q = Some (page_data (frames ! j))" if "(q, j) \<in> set (pm @ [a])" for q j
    proof (cases "(q, j) \<in> set pm")
      case True
      with new(4) have "p \<noteq> q" by force
      with True c(3) new nz show ?thesis by (intro file_page_write_other) (auto simp: frame_ok_def)
    next
      case False
      with that have "q = p" "j = i" by (simp_all add: a)
      with new(3) show ?thesis by (simp add: file_page_write_same frame_ok_def)
    qed
    show "file_page ?c q = Some b" if "q \<notin> fst ` set (pm @ [a])" "q \<noteq> 0" "file_page db q = Some b" for q b
      using that c(4) new by (intro file_page_write_other) (auto simp: a frame_ok_def)
  qed
qed

lemma wal_inv_copyable: "wal_inv w \<Longrightarrow> copyable (committed_frames w) (page_map (windex w))"
proof -
  assume inv: "wal_inv w"
  then have pm: "om_ok (page_map (windex w))" "om_get (page_map (windex w)) = last_index (committed_frames w)"
    by (simp_all add: wal_inv_def index_of_def)
  have "i < length (committed_frames w) \<and> p \<noteq> 0 \<and> frame_ok (committed_frames w ! i)"
    if "(p, i) \<in> set (page_map (windex w))" for p i
  proof -
    have "last_index (committed_frames w) p = Some i" using that by (simp add: om_get_set [OF pm(1)] flip: pm(2))
    then have "i < length (committed_frames w)" "page_num (committed_frames w ! i) = p"
      by (auto dest: last_index_less)
    with inv show ?thesis by (auto simp: wal_inv_def list_all_length)
  qed
  with pm(1) show ?thesis by (auto simp: copyable_def list_all_iff om_ok_def strict_sorted_iff)
qed

lemma copyable_take: "copyable frames pm \<Longrightarrow> copyable frames (take k pm)"
  by (auto simp: copyable_def list_all_iff take_map [symmetric] dest: in_set_takeD)

text \<open>What a reader sees of a page: the log first, then the database file.\<close>

definition page_view :: "wal \<Rightarrow> bytes \<Rightarrow> u32 \<Rightarrow> bytes option" where
  "page_view w db p = (case wal_read_page w p of Some d \<Rightarrow> Some d | None \<Rightarrow> file_page db p)"

lemma wal_read_committed:
  assumes "wal_inv w" and "uncommitted w = []"
  shows "wal_read_page w p = map_option (\<lambda>i. page_data (committed_frames w ! i)) (last_index (committed_frames w) p)"
  using assms by (auto simp: wal_read_page_def wal_inv_def index_of_def dest: last_index_less split: option.split)

lemma wal_checkpoint_cases:
  "wal_checkpoint nanos w db =
     (if active_snapshots w \<noteq> [] \<and> safe_checkpoint_boundary w = 0
      then Ok (0, w\<lparr>wstats := (wstats w)\<lparr>blocked_checkpoints := blocked_checkpoints (wstats w) + 1\<rparr>\<rparr>, db)
      else res_bind (full_checkpoint nanos w db) (\<lambda>(n, w1, db1).
        Ok (n, w1\<lparr>wstats := (wstats w1)\<lparr>total_checkpoints := total_checkpoints (wstats w1) + 1,
                    total_checkpoint_frames := total_checkpoint_frames (wstats w1) + n\<rparr>\<rparr>, db1)))"
  by (auto simp: wal_checkpoint_def Let_def safe_checkpoint_boundary_def)

lemma full_checkpoint_state:
  assumes inv: "wal_inv w"
  obtains w' c where "full_checkpoint nanos w db
      = Ok (length (committed_frames w), w', file_sync (db\<lparr>content := if 0 < db_page_count (windex w)
                                                       then set_len (unat (db_page_count (windex w)) * PAGE_SIZE) c else c\<rparr>))"
    and "copy_pages (committed_frames w) (page_map (windex w)) (content db) = Ok c"
    and "wal_inv w'" and "committed_frames w' = []" and "uncommitted w' = []" and "active_snapshots w' = active_snapshots w"
    and "sync_mode w' = sync_mode w" and "map_option synced (wal_file w') = map_option content (wal_file w')"
    and "windex w' = wal_index_new"
proof -
  obtain c where c: "copy_pages (committed_frames w) (page_map (windex w)) (content db) = Ok c"
    by (rule copy_pages_Ok [OF wal_inv_copyable [OF inv]])
  from inv obtain f where f: "wal_file w = Some f" by (auto simp: wal_inv_def)
  define hdr where "hdr = (wheader w)\<lparr>salt1 := word_of_nat nanos, salt2 := word_of_nat (nanos div 2 ^ 32)\<rparr>"
  have hdr: "header_ok hdr" using inv by (simp add: wal_inv_def header_ok_def hdr_def)
  have reset: "set_len WAL_HEADER_SIZE (write_at 0 (header_serialize hdr) g) = header_serialize hdr" for g
    using length_header_serialize [OF hdr] by (simp add: set_len_def write_at_def)
  define w' where "w' = w\<lparr>committed_frames := [], uncommitted := [], windex := wal_index_new, wheader := hdr,
    wal_file := Some (file_sync (f\<lparr>content := header_serialize hdr\<rparr>)),
    wstats := (wstats w)\<lparr>wal_file_bytes := WAL_HEADER_SIZE\<rparr>\<rparr>"
  have "full_checkpoint nanos w db
      = Ok (length (committed_frames w), w', file_sync (db\<lparr>content := if 0 < db_page_count (windex w)
                                            then set_len (unat (db_page_count (windex w)) * PAGE_SIZE) c else c\<rparr>))"
    unfolding full_checkpoint_def c res_bind.simps Let_def hdr_def [symmetric] f option.case reset w'_def ..
  then show ?thesis
    by (rule that [OF _ c, of w'])
      (simp_all add: hdr w'_def file_sync_def wal_inv_def index_of_def wal_index_new_def fun_eq_iff)
qed

lemma page_view_copied:
  assumes inv: "wal_inv w" and unc: "uncommitted w = []" and c: "copy_pages (committed_frames w) (page_map (windex w)) db = Ok c"
    and view: "page_view w db p = Some d" and p: "p \<noteq> 0"
  shows "file_page c p = Some d"
proof -
  let ?fs = "committed_frames w" and ?pm = "page_map (windex w)"
  have pm: "om_ok ?pm" "om_get ?pm = last_index ?fs" using inv by (simp_all add: wal_inv_def index_of_def)
  obtain c' where c': "copy_pages ?fs ?pm db = Ok c'"
      "\<And>p i. (p, i) \<in> set ?pm \<Longrightarrow> file_page c' p = Some (page_data (?fs ! i))"
      "\<And>q b. q \<notin> fst ` set ?pm \<Longrightarrow> q \<noteq> 0 \<Longrightarrow> file_page db q = Some b \<Longrightarrow> file_page c' q = Some b"
    by (rule copy_pages_Ok [OF wal_inv_copyable [OF inv], of db]) blast
  with c have eq: "c' = c" by simp
  show ?thesis
  proof (cases "last_index ?fs p")
    case None
    then have "\<nexists>i. (p, i) \<in> set ?pm" by (simp flip: pm(2) om_get_set [OF pm(1)])
    then have "p \<notin> fst ` set ?pm" by force
    with c'(3) p view None show ?thesis
      by (simp add: page_view_def wal_read_committed [OF inv unc] eq)
  next
    case (Some i)
    then have "(p, i) \<in> set ?pm" by (simp flip: pm(2) om_get_set [OF pm(1)])
    with c'(2) view Some show ?thesis
      by (simp add: page_view_def wal_read_committed [OF inv unc] eq)
  qed
qed

lemma wal_checkpoint_inv:
  assumes inv: "wal_inv w" and ck: "wal_checkpoint nanos w db = Ok (n, w', db')"
  shows "wal_inv w'"
proof -
  obtain w1 c where full: "full_checkpoint nanos w db = Ok (length (committed_frames w), w1,
      file_sync (db\<lparr>content := if 0 < db_page_count (windex w)
                     then set_len (unat (db_page_count (windex w)) * PAGE_SIZE) c else c\<rparr>))" "wal_inv w1"
    by (rule full_checkpoint_state [OF inv, of nanos db]) blast
  show ?thesis
    using ck inv full(2) unfolding wal_checkpoint_cases full(1)
    by (auto simp: wal_inv_def split: if_splits)
qed

lemma wal_inv_opened:
  assumes inv: "wal_inv w"
  obtains w' where "wal_open (wal_file w) = Ok w'" and "wal_inv w'" and "uncommitted w' = []"
    and "wal_file w' = wal_file w" and "committed_frames w' = map (sealed (wheader w)) (committed_frames w)"
    and "db_page_count (windex w') = db_page_count (windex w)" and "pending_sync_commits w' = 0" and "sync_mode w' = Immediate"
proof -
  let ?fs = "committed_frames w"
  from inv obtain f where f: "wal_file w = Some f" "content f = header_serialize (wheader w) @ frame_bytes (wheader w) ?fs @ []"
    by (auto simp: wal_inv_def)
  have h: "header_ok (wheader w)" "list_all frame_ok ?fs" "committed_prefix ?fs = length ?fs"
    using inv by (auto simp: wal_inv_def list_all_iff)
  obtain idx where o: "wal_open (Some f) = Ok (wal_make (Some f) (wheader w) idx (map (sealed (wheader w)) (take (committed_prefix ?fs) ?fs)) 1000)"
      "index_of (take (committed_prefix ?fs) ?fs) idx" "total_frames idx = length ?fs"
    by (rule wal_open_frames [OF h(1,2) _ f(2)]) auto
  let ?w = "wal_make (Some f) (wheader w) idx (map (sealed (wheader w)) ?fs) 1000"
  have idx: "index_of (map (sealed (wheader w)) ?fs) idx"
    using o(2) h(3) by (auto simp: index_of_def last_map)
  show ?thesis
  proof (rule that [of ?w])
    show "wal_open (wal_file w) = Ok ?w" using o(1) by (simp add: f(1) h(3))
    show "wal_inv ?w" using inv idx o(3) h f
      by (simp add: wal_inv_def wal_make_def list_all_iff)
    show "db_page_count (windex ?w) = db_page_count (windex w)"
      using inv idx by (auto simp: wal_make_def wal_inv_def index_of_def last_map)
  qed (simp_all add: wal_make_def f(1))
qed

lemma wal_inv_group_sync: "wal_inv w \<Longrightarrow> wal_inv (snd (group_sync w))"
proof -
  assume inv: "wal_inv w"
  then obtain f where f: "wal_file w = Some f" "content f = header_serialize (wheader w) @ frame_bytes (wheader w) (committed_frames w)"
    by (auto simp: wal_inv_def)
  have "map_option content (wal_file (snd (group_sync w))) = Some (content f)"
    by (simp only: group_sync_fields f(1) option.map)
  then have "\<exists>g. wal_file (snd (group_sync w)) = Some g
      \<and> content g = header_serialize (wheader w) @ frame_bytes (wheader w) (committed_frames w)"
    unfolding f(2) map_option_eq_Some by blast
  with inv show ?thesis by (simp add: wal_inv_def)
qed

lemma wal_inv_op: "wal_op_ok nosync op \<Longrightarrow> wal_inv w \<Longrightarrow> wal_inv (run_wal_op op w)"
proof (induction op w rule: run_wal_op.induct)
  case (1 p d w)
  then show ?case by (simp add: wal_inv_def wal_write_page_def frame_ok_def)
qed (simp_all add: wal_inv_commit wal_inv_group_sync, simp_all add: wal_inv_def wal_rollback_def set_sync_mode_def
    set_group_commit_config_def register_snapshot_def release_snapshot_def Let_def)

lemma wal_step_inv: "wal_step nosync s s' \<Longrightarrow> wal_inv (fst s) \<Longrightarrow> wal_inv (fst s')"
proof (induction rule: wal_step.induct)
  case (reopen w w' db)
  then have inv: "wal_inv w" by simp
  obtain w1 where "wal_open (wal_file w) = Ok w1" "wal_inv w1" by (rule wal_inv_opened [OF inv]) blast
  with reopen show ?case by simp
qed (auto intro: wal_checkpoint_inv wal_inv_op)

lemma wal_reach_inv: "wal_reach nosync s \<Longrightarrow> wal_inv (fst s)"
  by (induction rule: wal_reach.induct) (auto simp: wal_inv_create intro: wal_step_inv)

lemma wal_rollback_inv: "wal_inv w \<Longrightarrow> wal_inv (wal_rollback w)"
  by (simp add: wal_inv_def wal_rollback_def)

lemma reads_of_frames:
  assumes "wal_inv w" and "uncommitted w = []" and "wal_inv v" and "uncommitted v = []"
    and "committed_frames w = map (sealed h) (committed_frames v)"
  shows "wal_read_page w = wal_read_page v"
  using wal_read_committed [OF assms(1,2)] wal_read_committed [OF assms(3,4)] assms(5)
  by (auto simp: fun_eq_iff option.map_comp dest: last_index_less intro!: option.map_cong0 split: option.split)

section \<open>Durability\<close>

text \<open>Syncing: nothing is pending exactly when all content is durable, unless syncing was turned off.\<close>

definition wal_synced :: "bool \<Rightarrow> wal \<Rightarrow> bool" where
  "wal_synced nosync w \<longleftrightarrow> nosync \<or> (sync_mode w \<noteq> NoSync
     \<and> (pending_sync_commits w = 0 \<longrightarrow> map_option synced (wal_file w) = map_option content (wal_file w)))"

lemma group_sync_synced: "wal_synced nosync w \<Longrightarrow> wal_synced nosync (snd (group_sync w))"
  by (auto simp: wal_synced_def group_sync_def Let_def file_sync_def split: option.split)

lemma commit_write_synced: "wal_synced nosync w \<Longrightarrow> wal_synced nosync (commit_write fs w)"
  by (auto simp: wal_synced_def commit_write_def Let_def file_sync_def split: option.split wal_sync_mode.split)

lemma wal_commit_synced: "wal_synced nosync w \<Longrightarrow> wal_synced nosync (wal_commit n w)"
proof -
  assume w: "wal_synced nosync w"
  have "wal_synced nosync (commit_stats k (commit_index n fs v)) = wal_synced nosync v" for k fs v
    by (simp add: wal_synced_def)
  with commit_write_synced [OF w] show ?thesis
    by (auto simp: wal_commit_def Let_def w intro!: group_sync_synced)
qed

lemma wal_step_synced:
  "wal_step nosync s s' \<Longrightarrow> wal_inv (fst s) \<Longrightarrow> wal_synced nosync (fst s) \<Longrightarrow> wal_synced nosync (fst s')"
proof (induction rule: wal_step.induct)
  case (op op w db)
  then show ?case
    by (cases op) (simp_all add: wal_commit_synced group_sync_synced, auto simp: wal_synced_def wal_write_page_def
        wal_rollback_def set_sync_mode_def set_group_commit_config_def register_snapshot_def release_snapshot_def Let_def)
next
  case (checkpoint nanos w db n w' db')
  then have inv: "wal_inv w" by simp
  obtain w1 c where full: "full_checkpoint nanos w db = Ok (length (committed_frames w), w1,
      file_sync (db\<lparr>content := if 0 < db_page_count (windex w)
                     then set_len (unat (db_page_count (windex w)) * PAGE_SIZE) c else c\<rparr>))"
      "sync_mode w1 = sync_mode w" "map_option synced (wal_file w1) = map_option content (wal_file w1)"
    by (rule full_checkpoint_state [OF inv, of nanos db]) blast
  then show ?case
    using checkpoint unfolding wal_checkpoint_cases full(1)
    by (auto simp: wal_synced_def split: if_splits)
next
  case (reopen w w' db)
  then have inv: "wal_inv w" by simp
  obtain w1 where "wal_open (wal_file w) = Ok w1" "wal_file w1 = wal_file w" "sync_mode w1 = Immediate"
    by (rule wal_inv_opened [OF inv]) blast
  with reopen show ?case by (auto simp: wal_synced_def)
qed

lemma wal_reach_synced: "wal_reach nosync s \<Longrightarrow> wal_synced nosync (fst s)"
proof (induction rule: wal_reach.induct)
  case (start uuid nanos db)
  show ?case by (simp add: wal_synced_def wal_create_def wal_make_def Let_def file_sync_def file_write_def)
next
  case (step s s')
  from wal_step_synced [OF step(2) wal_reach_inv [OF step(1)] step(3)] show ?case .
qed

text \<open>C27: the log survives a restart. In every reachable state, opening the file gives every reader the committed
  pages and the page count, and the buffered ones are gone; and as long as syncing was never turned off and no
  commit waits for a group sync, all of the file is durable.\<close>

theorem wal_durable:
  assumes "wal_reach nosync (w, db)"
  shows "\<exists>f w'. wal_file w = Some f \<and> wal_open (Some f) = Ok w' \<and> wal_read_page w' = wal_read_page (wal_rollback w)
     \<and> db_page_count (windex w') = db_page_count (windex w)
     \<and> (nosync \<or> pending_sync_commits w \<noteq> 0 \<or> synced f = content f)"
proof -
  have inv: "wal_inv w" using wal_reach_inv [OF assms] by simp
  obtain w' where o: "wal_open (wal_file w) = Ok w'" "wal_inv w'" "uncommitted w' = []"
      "committed_frames w' = map (sealed (wheader w)) (committed_frames w)"
      "db_page_count (windex w') = db_page_count (windex w)"
    by (rule wal_inv_opened [OF inv]) blast
  have "wal_read_page w' = wal_read_page (wal_rollback w)"
    using o(2-4) wal_rollback_inv [OF inv] by (intro reads_of_frames [where h = "wheader w"]) (simp_all add: wal_rollback_def)
  moreover obtain f where "wal_file w = Some f" using inv by (auto simp: wal_inv_def)
  ultimately show ?thesis
    using o(1,5) wal_reach_synced [OF assms] by (auto simp: wal_synced_def)
qed

section \<open>Crashes during a commit\<close>

lemma wal_rollback_id: "uncommitted w = [] \<Longrightarrow> wal_rollback w = w"
  by (cases w) (simp add: wal_rollback_def)

lemma take_frame_bytes:
  assumes "list_all frame_ok fs" and "k < length (frame_bytes h fs)"
  obtains j tail where "take k (frame_bytes h fs) = frame_bytes h (take j fs) @ tail" and "j < length fs"
    and "length tail < WAL_FRAME_SIZE"
  using assms
proof (induction fs arbitrary: k thesis)
  case (Cons f fs)
  then have f: "frame_ok f" "list_all frame_ok fs" by simp_all
  show ?case
  proof (cases "k < WAL_FRAME_SIZE")
    case True
    show ?thesis
      by (rule Cons.prems(1) [of 0 "take k (frame_bytes h (f # fs))"]) (use True in simp_all)
  next
    case False
    then have "k - WAL_FRAME_SIZE < length (frame_bytes h fs)" using Cons.prems(3) f by simp
    with Cons.IH f obtain j tail where
      j: "take (k - WAL_FRAME_SIZE) (frame_bytes h fs) = frame_bytes h (take j fs) @ tail" "j < length fs" "length tail < WAL_FRAME_SIZE"
      by metis
    show ?thesis
      by (rule Cons.prems(1) [of "Suc j" tail]) (use False j f in simp_all)
  qed
qed simp

lemma wal_open_torn:
  assumes inv: "wal_inv w" and f: "wal_file w = Some f" and ok: "list_all frame_ok gs" "list_all (\<lambda>g. commit_size g = 0) gs"
    and tail: "length tail < WAL_FRAME_SIZE" and c: "content f' = content f @ frame_bytes (wheader w) gs @ tail"
  obtains w' where "wal_open (Some f') = Ok w'" and "wal_read_page w' = wal_read_page (wal_rollback w)"
    and "uncommitted w' = []" and "wheader w' = wheader w" and "wal_file w' = Some f'"
    and "committed_frames w' = map (sealed (wheader w)) (committed_frames w)"
    and "total_frames (windex w') = length (committed_frames w) + length gs"
    and "index_of (committed_frames w) (windex w')"
proof -
  let ?fs = "committed_frames w" and ?h = "wheader w"
  have h: "header_ok ?h" "list_all frame_ok (?fs @ gs)" "content f' = header_serialize ?h @ frame_bytes ?h (?fs @ gs) @ tail"
    using inv f c ok(1) by (auto simp: wal_inv_def list_all_iff)
  have "committed_prefix (?fs @ gs) = length ?fs"
    using ok(2)
  proof (induction gs rule: rev_induct)
    case Nil
    with inv show ?case by (simp add: wal_inv_def)
  next
    case (snoc g gs)
    then show ?case by (simp flip: append_assoc)
  qed
  then obtain idx where o: "wal_open (Some f') = Ok (wal_make (Some f') ?h idx (map (sealed ?h) ?fs) 1000)"
      "index_of ?fs idx" "total_frames idx = length (?fs @ gs)"
    using wal_open_frames [OF h(1,2) tail h(3)] by auto
  let ?w = "wal_make (Some f') ?h idx (map (sealed ?h) ?fs) 1000"
  have "wal_read_page ?w p = wal_read_page (wal_rollback w) p" for p
    using o(2) inv by (auto simp: wal_read_page_def wal_make_def wal_rollback_def wal_inv_def index_of_def
        dest: last_index_less split: option.split)
  then show ?thesis using o by (intro that [of ?w]) (auto simp: wal_make_def)
qed

text \<open>C28: a commit is atomic. If a crash leaves any part of the frames that a commit writes behind the log, the
  next open shows the state before the transaction; only when the last frame is complete, the one after it.\<close>

theorem wal_commit_atomic:
  assumes "wal_reach nosync (w, db)" and "wal_file w = Some f" and "uncommitted w \<noteq> []" and "n \<noteq> 0"
    and "bs = frame_bytes (wheader w) (mark_commit n (uncommitted w))" and "k \<le> length bs"
  shows "\<exists>w'. wal_open (Some (f\<lparr>content := content f @ take k bs\<rparr>)) = Ok w'
     \<and> wal_read_page w' = (if k < length bs then wal_read_page (wal_rollback w) else wal_read_page (wal_commit n w))"
proof -
  let ?u = "mark_commit n (uncommitted w)" and ?h = "wheader w"
  have inv: "wal_inv w" using wal_reach_inv [OF assms(1)] by simp
  have ok: "list_all frame_ok (uncommitted w)" "list_all (\<lambda>g. commit_size g = 0) (uncommitted w)"
    using inv by (auto simp: wal_inv_def list_all_iff)
  show ?thesis
  proof (cases "k < length bs")
    case True
    then obtain j tail where j: "take k bs = frame_bytes ?h (take j ?u) @ tail" "j < length ?u" "length tail < WAL_FRAME_SIZE"
      using take_frame_bytes [OF mark_commit_simps(2) [OF assms(3) ok(1)]] assms(5) by blast
    have pre: "take j ?u = take j (butlast (uncommitted w))"
      using j(2) by (simp add: mark_commit_def)
    have "list_all frame_ok (take j ?u)" "list_all (\<lambda>g. commit_size g = 0) (take j ?u)"
      using ok unfolding pre by (auto simp: list_all_iff dest!: in_set_takeD in_set_butlastD)
    then show ?thesis
      using wal_open_torn [OF inv assms(2) _ _ j(3), of "take j ?u" "f\<lparr>content := content f @ take k bs\<rparr>"] True j(1) by auto
  next
    case False
    then have k: "take k bs = bs" using assms(6) by simp
    have inv': "wal_inv (wal_commit n w)" by (rule wal_inv_commit [OF inv assms(4)])
    obtain g where g: "wal_file (wal_commit n w) = Some g" using inv' by (auto simp: wal_inv_def)
    have "content g = content f @ bs"
      using inv inv' assms(2,5) g by (simp add: wal_inv_def wal_commit_fields [OF assms(3)])
    then obtain w' where "wal_open (Some (f\<lparr>content := content f @ bs\<rparr>)) = Ok w'"
        "wal_read_page w' = wal_read_page (wal_rollback (wal_commit n w))"
      using wal_open_torn [OF inv' g, of "[]" "[]" "f\<lparr>content := content f @ bs\<rparr>"] by auto
    with False k show ?thesis
      by (simp add: wal_rollback_id wal_commit_fields(3) [OF assms(3)])
  qed
qed

text \<open>A log with one committed page, and one with a second page still buffered.\<close>

definition filled_page :: "u8 \<Rightarrow> bytes" where
  "filled_page b = replicate PAGE_SIZE b"

definition sample_wal :: wal where
  "sample_wal = wal_commit 3 (wal_write_page 3 (filled_page 1) (wal_create 0 (replicate 16 0)))"

definition sample_wal_open :: wal where
  "sample_wal_open = wal_write_page 4 (filled_page 3) (wal_write_page 3 (filled_page 2) sample_wal)"

lemma sample_wal_reach: "wal_reach False (sample_wal, db)" "wal_reach False (sample_wal_open, db)"
proof -
  have w: "wal_step False (w, db) (wal_write_page p (filled_page b) w, db)" if "p \<noteq> 0" for p b w
    using wal_step.op [of False "WriteOp p (filled_page b)" w db] that by (simp add: filled_page_def)
  have c: "wal_step False (w, db) (wal_commit 3 w, db)" for w
    using wal_step.op [of False "CommitOp 3" w db] by simp
  show 1: "wal_reach False (sample_wal, db)"
    unfolding sample_wal_def by (rule wal_reach.step [OF wal_reach.step [OF wal_reach.start w] c]) simp_all
  show "wal_reach False (sample_wal_open, db)"
    unfolding sample_wal_open_def by (rule wal_reach.step [OF wal_reach.step [OF 1 w] w]) simp_all
qed

lemmas sample_wal_simps = sample_wal_def sample_wal_open_def wal_commit_def wal_write_page_def wal_create_def wal_make_def
  commit_write_def commit_index_def commit_stats_def mark_commit_def group_sync_def wal_index_new_def wal_rollback_def
  wal_read_page_def Let_def om_get_def

lemma sample_wal_read:
  "wal_read_page sample_wal 3 = Some (filled_page 1)" "wal_read_page (wal_rollback sample_wal_open) 3 = Some (filled_page 1)"
  "wal_read_page sample_wal_open 3 = Some (filled_page 2)" "uncommitted sample_wal = []"
  "uncommitted sample_wal_open = [\<lparr>page_num = 3, commit_size = 0, checksum = 0, page_data = filled_page 2\<rparr>,
     \<lparr>page_num = 4, commit_size = 0, checksum = 0, page_data = filled_page 3\<rparr>]"
  "pending_sync_commits sample_wal = 0"
  by (simp_all add: sample_wal_simps)

theorem wal_durable_witness:
  "\<exists>f w'. wal_file sample_wal = Some f \<and> synced f = content f \<and> wal_open (Some f) = Ok w'
     \<and> wal_read_page w' 3 = Some (filled_page 1)"
  using wal_durable [OF sample_wal_reach(1)] by (auto simp: sample_wal_read wal_rollback_id)

theorem wal_commit_atomic_witness:
  "\<exists>f w'. wal_file sample_wal_open = Some f
     \<and> wal_open (Some (f\<lparr>content := content f
          @ take 5000 (frame_bytes (wheader sample_wal_open) (mark_commit 4 (uncommitted sample_wal_open)))\<rparr>)) = Ok w'
     \<and> wal_read_page w' 3 = Some (filled_page 1)"
proof -
  let ?u = "mark_commit 4 (uncommitted sample_wal_open)"
  obtain f where f: "wal_file sample_wal_open = Some f"
    using wal_reach_inv [OF sample_wal_reach(2)] by (auto simp: wal_inv_def)
  have "list_all frame_ok ?u"
    by (simp add: sample_wal_read mark_commit_def frame_ok_def filled_page_def)
  from length_frame_bytes [OF this] have "5000 < length (frame_bytes (wheader sample_wal_open) ?u)"
    by (simp add: sample_wal_read mark_commit_def WAL_FRAME_SIZE_def WAL_FRAME_HEADER_SIZE_def PAGE_SIZE_def)
  with wal_commit_atomic [OF sample_wal_reach(2) f _ _ refl, of 4 5000] f sample_wal_read show ?thesis by auto
qed

section \<open>Checkpoints and readers\<close>

lemma wal_read_page_stats [simp]: "wal_read_page (w\<lparr>wstats := x\<rparr>) = wal_read_page w"
  by (rule ext) (simp add: wal_read_page_def split: option.split)



lemma run_wal_op_frames: "\<exists>ext. committed_frames (run_wal_op op w) = committed_frames w @ ext"
proof (cases op)
  case (CommitOp n)
  then show ?thesis
    by (cases "uncommitted w = []") (simp_all add: wal_commit_fields, simp add: wal_commit_def)
qed (simp_all add: wal_write_page_def wal_rollback_def set_sync_mode_def set_group_commit_config_def register_snapshot_def
    release_snapshot_def Let_def)

lemma run_wal_ops_frames: "\<exists>ext. committed_frames (fold run_wal_op ops w) = committed_frames w @ ext"
proof (induction ops arbitrary: w)
  case (Cons op ops)
  from run_wal_op_frames [of op w] Cons [of "run_wal_op op w"] show ?case by auto
qed simp

text \<open>a reader keeps its view. Whatever is written, committed, rolled back, registered and released after a
  snapshot was taken, reading through it gives the pages that were committed when it was taken.\<close>

lemma wal_snapshot_stable:
  assumes "wal_reach nosync (w, db)" and "register_snapshot w = ((i, s), w0)"
  shows "read_page_snapshot (fold run_wal_op ops w0) p s = wal_read_page (wal_rollback w) p"
proof -
  have inv: "wal_inv w" using wal_reach_inv [OF assms(1)] by simp
  have s: "s = wal_take_snapshot w" "committed_frames w0 = committed_frames w"
    using assms(2) by (auto simp: register_snapshot_def Let_def)
  obtain ext where "committed_frames (fold run_wal_op ops w0) = committed_frames w @ ext"
    using run_wal_ops_frames [of ops w0] s(2) by auto
  with inv show ?thesis
    by (auto simp: read_page_snapshot_def s(1) wal_take_snapshot_def wal_read_page_def wal_rollback_def wal_inv_def index_of_def
        nth_append dest: last_index_less split: option.split)
qed

lemma wal_snapshot_stable_witness:
  "read_page_snapshot (fold run_wal_op [WriteOp 3 (filled_page 2), CommitOp 3] (snd (register_snapshot sample_wal))) 3
     (wal_take_snapshot sample_wal) = Some (filled_page 1)"
  using wal_snapshot_stable [OF sample_wal_reach(1), of "next_snapshot_id sample_wal" "wal_take_snapshot sample_wal"
      "snd (register_snapshot sample_wal)" "[WriteOp 3 (filled_page 2), CommitOp 3]" 3]
  by (simp add: register_snapshot_def Let_def sample_wal_read wal_rollback_id)

text \<open>but a checkpoint is not blocked by a reader that sees the whole log. It empties the log, and the frame
  numbers that the reader keeps then point to later frames: asking for page 3, it gets the content of page 4.\<close>

lemma wal_snapshot_reads_wrong_page:
  "let w1 = wal_commit 3 (wal_write_page 3 a (wal_create t uuid)); ((i, s), w2) = register_snapshot w1
   in read_page_snapshot w2 3 s = Some a
      \<and> (\<exists>n w3 db'. wal_checkpoint t' w2 db = Ok (n, w3, db')
           \<and> read_page_snapshot (wal_commit 4 (wal_write_page 4 b w3)) 3 s = Some b)"
  by (simp add: sample_wal_simps register_snapshot_def wal_take_snapshot_def read_page_snapshot_def wal_checkpoint_def
      safe_checkpoint_boundary_def full_checkpoint_def copy_pages_def copy_page_def)

section \<open>Frames of a transaction that never committed\<close>

lemma reopened_commit_file:
  assumes inv: "wal_inv w" and f: "wal_file w = Some f" and g: "frame_ok g" "commit_size g = 0"
    and o: "wheader w1 = wheader w" "uncommitted w1 = []" "wal_file w1 = Some (f\<lparr>content := content f @ frame_bytes (wheader w) [g]\<rparr>)"
      "total_frames (windex w1) = Suc (length (committed_frames w))"
  shows "map_option content (wal_file (wal_commit m (wal_write_page q d w1)))
     = Some (header_serialize (wheader w)
         @ frame_bytes (wheader w) (committed_frames w @ [g, \<lparr>page_num = q, commit_size = m, checksum = 0, page_data = d\<rparr>]))"
proof -
  let ?v = "wal_write_page q d w1" and ?new = "\<lparr>page_num = q, commit_size = m, checksum = 0, page_data = d\<rparr>"
  have u: "uncommitted ?v = [\<lparr>page_num = q, commit_size = 0, checksum = 0, page_data = d\<rparr>]" "uncommitted ?v \<noteq> []"
      "wheader ?v = wheader w" "windex ?v = windex w1" "wal_file ?v = wal_file w1"
    using o by (simp_all add: wal_write_page_def)
  have ok: "list_all frame_ok (committed_frames w @ [g])" "header_ok (wheader w)"
    using inv g by (auto simp: wal_inv_def list_all_iff)
  have c: "content f @ frame_bytes (wheader w) [g] = header_serialize (wheader w) @ frame_bytes (wheader w) (committed_frames w @ [g])"
    using inv f by (simp add: wal_inv_def)
  have len: "length (header_serialize (wheader w) @ frame_bytes (wheader w) (committed_frames w @ [g]))
      = WAL_HEADER_SIZE + total_frames (windex w1) * WAL_FRAME_SIZE"
    using ok(2) by (simp only: length_append length_frame_bytes [OF ok(1)] length_header_serialize o(4)) simp
  show ?thesis
    unfolding wal_commit_fields(5) [OF u(2)] u(1,3,4,5) o(3)
    by (simp only: option.map os_file.simps c flip: len) (simp add: mark_commit_def write_at_def)
qed

text \<open>a transaction that a crash stopped can come back. If its first frame was written and the crash came before
  its commit frame, the reopened log rightly does not show it; but it counts the frame, the next commit of
  another transaction is written behind it, and at the next open the frame belongs to that commit.\<close>

lemma wal_uncommitted_frame_returns:
  assumes "wal_reach nosync (w, db)" and "wal_file w = Some f" and "uncommitted w = g # gs"
    and "q \<noteq> page_num g" and "m \<noteq> 0" and "length d = PAGE_SIZE"
  shows "\<exists>w1. wal_open (Some (f\<lparr>content := content f @ frame_bytes (wheader w) [g]\<rparr>)) = Ok w1
     \<and> wal_read_page w1 = wal_read_page (wal_rollback w)
     \<and> (\<exists>w2. wal_open (wal_file (wal_commit m (wal_write_page q d w1))) = Ok w2
          \<and> wal_read_page w2 (page_num g) = Some (page_data g))"
proof -
  let ?h = "wheader w" and ?cs = "committed_frames w" and ?f = "f\<lparr>content := content f @ frame_bytes (wheader w) [g]\<rparr>"
  let ?new = "\<lparr>page_num = q, commit_size = m, checksum = 0, page_data = d\<rparr>"
  have inv: "wal_inv w" using wal_reach_inv [OF assms(1)] by simp
  have g: "frame_ok g" "commit_size g = 0" using inv assms(3) by (simp_all add: wal_inv_def)
  obtain w1 where w1: "wal_open (Some ?f) = Ok w1" "wal_read_page w1 = wal_read_page (wal_rollback w)"
      "wheader w1 = ?h" "uncommitted w1 = []" "wal_file w1 = Some ?f" "total_frames (windex w1) = Suc (length ?cs)"
    using wal_open_torn [OF inv assms(2), of "[g]" "[]" ?f] g by auto
  obtain f2 where f2: "wal_file (wal_commit m (wal_write_page q d w1)) = Some f2"
      "content f2 = header_serialize ?h @ frame_bytes ?h (?cs @ [g, ?new]) @ []"
    using reopened_commit_file [OF inv assms(2) g w1(3-6), of m q d] by auto
  have fs: "header_ok ?h" "list_all frame_ok (?cs @ [g, ?new])"
    using inv g assms(6) by (auto simp: wal_inv_def list_all_iff frame_ok_def)
  have "committed_prefix ((?cs @ [g]) @ [?new]) = Suc (length (?cs @ [g]))"
    using assms(5) by (subst committed_prefix_simps) (simp add: word_gt_0)
  then have all: "committed_prefix (?cs @ [g, ?new]) = length (?cs @ [g, ?new])" by simp
  obtain idx where o: "wal_open (Some f2) = Ok (wal_make (Some f2) ?h idx (map (sealed ?h) (?cs @ [g, ?new])) 1000)"
      "index_of (?cs @ [g, ?new]) idx"
    using wal_open_frames [OF fs _ f2(2)] all by auto
  have "last_index ((?cs @ [g]) @ [?new]) (page_num g) = Some (length ?cs)"
    using assms(4) by (subst last_index_simps) simp
  then have "om_get (page_map idx) (page_num g) = Some (length ?cs)" using o(2) by (simp add: index_of_def)
  then have "wal_read_page (wal_make (Some f2) ?h idx (map (sealed ?h) (?cs @ [g, ?new])) 1000) (page_num g) = Some (page_data g)"
    by (simp add: wal_read_page_def wal_make_def nth_append)
  with w1(1,2) f2(1) o(1) show ?thesis by auto
qed

lemma wal_uncommitted_frame_returns_witness:
  "\<exists>f w1 w2. wal_file sample_wal_open = Some f
     \<and> wal_open (Some (f\<lparr>content := content f @ frame_bytes (wheader sample_wal_open) [hd (uncommitted sample_wal_open)]\<rparr>)) = Ok w1
     \<and> wal_read_page w1 3 = Some (filled_page 1)
     \<and> wal_open (wal_file (wal_commit 5 (wal_write_page 5 (filled_page 9) w1))) = Ok w2
     \<and> wal_read_page w2 3 = Some (filled_page 2)"
proof -
  obtain f where f: "wal_file sample_wal_open = Some f"
    using wal_reach_inv [OF sample_wal_reach(2)] by (auto simp: wal_inv_def)
  show ?thesis
    using wal_uncommitted_frame_returns [OF sample_wal_reach(2) f sample_wal_read(5), of 5 5 "filled_page 9"] f
    by (auto simp: sample_wal_read filled_page_def)
qed

end
