(* ===== verification/Pager.thy ===== *)
theory Pager
  imports Wal
begin

text \<open>
  The pager, \<^verbatim>\<open>src/src/storage/pager.rs\<close>: the superblocks of the file format, opening and creating a
  database, the page cache with its clock eviction, page allocation and the free lists, transactions with
  page snapshots, savepoints, and the flush to the database file or the write-ahead log. An operation takes
  the pager and returns an outcome with the pager as it is then, also after an error. File operations
  succeed; the LZ4 codec (the \<^verbatim>\<open>lz4_flex\<close> crate) is the parameter \<open>z\<close>. An abort of the
  process by an injected failure is the outcome \<open>Panic\<close>.
\<close>

section \<open>Outcomes with a state\<close>

type_synonym ('s, 'a) op = "'s \<Rightarrow> 'a res \<times> 's"

definition op_return :: "'a \<Rightarrow> ('s, 'a) op" where
  "op_return a = (\<lambda>s. (Ok a, s))"

definition op_fail :: "kkdb_error \<Rightarrow> ('s, 'a) op" where
  "op_fail e = (\<lambda>s. (Err e, s))"

definition op_bind :: "('s, 'a) op \<Rightarrow> ('a \<Rightarrow> ('s, 'b) op) \<Rightarrow> ('s, 'b) op" where
  "op_bind m f = (\<lambda>s. case m s of (Ok a, s') \<Rightarrow> f a s' | (Err e, s') \<Rightarrow> (Err e, s') | (Panic, s') \<Rightarrow> (Panic, s'))"

definition op_modify :: "('s \<Rightarrow> 's) \<Rightarrow> ('s, unit) op" where
  "op_modify f = (\<lambda>s. (Ok (), f s))"

text \<open>A computation that depends on the state it starts in.\<close>

definition op_get :: "('s \<Rightarrow> ('s, 'a) op) \<Rightarrow> ('s, 'a) op" where
  "op_get f = (\<lambda>s. f s s)"

section \<open>Format\<close>

definition MAX_PAGES :: u32 where
  "MAX_PAGES = 1048576"

definition COW_MAGIC :: bytes where
  "COW_MAGIC = [0x4B, 0x4B, 0x44, 0x42, 0x20, 0x43, 0x4F, 0x57, 0x20, 0x76, 0x32, 0, 0, 0, 0, 0]"

definition COW_SUPERBLOCK_SIZE :: nat where
  "COW_SUPERBLOCK_SIZE = 68"

datatype superblock_slot = SlotA | SlotB

fun slot_page_num :: "superblock_slot \<Rightarrow> u32" where
  "slot_page_num SlotA = 1"
| "slot_page_num SlotB = 2"

fun slot_inactive :: "superblock_slot \<Rightarrow> superblock_slot" where
  "slot_inactive SlotA = SlotB"
| "slot_inactive SlotB = SlotA"

datatype pager_failpoint = AfterDataPagesWrite | AfterDataPagesSync | AfterSuperblockWrite | AfterSuperblockSync

datatype pager_fail_action = FailError | AbortProcess

record page =
  pdata :: bytes
  dirty :: bool
  snapshotted :: bool
  recently_used :: bool

definition page_new :: page where
  "page_new = \<lparr>pdata = replicate PAGE_SIZE 0, dirty = False, snapshotted = False, recently_used = False\<rparr>"

record db_header =
  hdr_page_size :: u16
  total_pages :: u32
  first_freelist_page :: u32
  freelist_count :: u32
  hdr_schema_version :: u32

definition page_size_to_u16 :: u16 where
  "page_size_to_u16 = (if PAGE_SIZE = 65536 then 0 else word_of_nat PAGE_SIZE)"

definition u16_to_page_size :: "u16 \<Rightarrow> nat" where
  "u16_to_page_size v = (if v = 0 then 65536 else unat v)"

definition page_size_to_u16_val :: "nat \<Rightarrow> u16" where
  "page_size_to_u16_val v = (if 65536 \<le> v then 0 else word_of_nat v)"

record superblock =
  sb_format_version :: u16
  sb_page_size :: u16
  sb_flags :: u32
  generation :: u64
  db_uuid :: bytes
  schema_root :: u32
  free_root :: u32
  pending_free_root :: u32
  page_count :: u32
  sb_checksum :: u32

definition superblock_new :: "bytes \<Rightarrow> superblock" where
  "superblock_new uuid =
     \<lparr>sb_format_version = 2, sb_page_size = page_size_to_u16, sb_flags = 0, generation = 1, db_uuid = uuid,
      schema_root = 3, free_root = 0, pending_free_root = 0, page_count = 2, sb_checksum = 0\<rparr>"

definition checksum32 :: "bytes \<Rightarrow> u32" where
  "checksum32 data = foldl (\<lambda>h b. (h XOR ucast b) * FNV32_PRIME) FNV32_OFFSET_BASIS data"

text \<open>The 64 bytes that the checksum covers.\<close>

definition superblock_body :: "superblock \<Rightarrow> bytes" where
  "superblock_body sb =
     COW_MAGIC @ le_bytes 2 (sb_format_version sb) @ le_bytes 2 (sb_page_size sb) @ le_bytes 4 (sb_flags sb)
     @ le_bytes 8 (generation sb) @ db_uuid sb @ le_bytes 4 (schema_root sb) @ le_bytes 4 (free_root sb)
     @ le_bytes 4 (pending_free_root sb) @ le_bytes 4 (page_count sb)"

text \<open>Serialising into a buffer of \<open>n\<close> bytes, which is filled with zeros first.\<close>

definition superblock_serialize :: "superblock \<Rightarrow> nat \<Rightarrow> bytes res" where
  "superblock_serialize sb n =
     (if n < COW_SUPERBLOCK_SIZE then Err (CorruptDatabase ''superblock buffer too short'')
      else Ok (superblock_body sb @ le_bytes 4 (checksum32 (superblock_body sb)) @ replicate (n - COW_SUPERBLOCK_SIZE) 0))"

definition superblock_deserialize :: "bytes \<Rightarrow> superblock res" where
  "superblock_deserialize buf =
     (if length buf < COW_SUPERBLOCK_SIZE then Err (CorruptDatabase ''superblock too short'')
      else if take 16 buf \<noteq> COW_MAGIC then Err (CorruptDatabase ''invalid superblock magic'')
      else let fv = (from_le (take 2 (drop 16 buf)) :: u16) in
        if fv \<noteq> 2 then Err (CorruptDatabase (''unsupported superblock version: '' @ show_nat (unat fv)))
        else let ps = (from_le (take 2 (drop 18 buf)) :: u16) in
          if u16_to_page_size ps \<noteq> PAGE_SIZE then Err (CorruptDatabase (''unsupported page size: '' @ show_nat (unat ps)))
          else let stored = (from_le (take 4 (drop 64 buf)) :: u32) in
            if stored \<noteq> checksum32 (take 64 buf) then Err (CorruptDatabase ''superblock checksum mismatch'')
            else Ok \<lparr>sb_format_version = fv, sb_page_size = ps, sb_flags = from_le (take 4 (drop 20 buf)),
                     generation = from_le (take 8 (drop 24 buf)), db_uuid = take 16 (drop 32 buf),
                     schema_root = from_le (take 4 (drop 48 buf)), free_root = from_le (take 4 (drop 52 buf)),
                     pending_free_root = from_le (take 4 (drop 56 buf)), page_count = from_le (take 4 (drop 60 buf)),
                     sb_checksum = stored\<rparr>)"

definition generate_db_uuid :: "nat \<Rightarrow> u32 \<Rightarrow> bytes" where
  "generate_db_uuid nanos pid =
     le_bytes 8 (word_of_nat nanos :: u64) @ le_bytes 4 pid @ le_bytes 4 (word_of_nat (nanos div 2 ^ 64) :: u32)"

section \<open>State\<close>

record cow_txn_state =
  txid :: u64
  base_generation :: u64
  target_generation :: u64
  freed_root :: "u32 option"
  freed_tail :: "u32 option"

record cow_pager_state =
  active_superblock :: superblock
  active_slot :: superblock_slot
  next_txid :: u64
  active_tx :: "cow_txn_state option"

record txn_snapshot =
  ts_header :: db_header
  ts_superblock :: superblock
  ts_slot :: superblock_slot
  original_pages :: "(u32, bytes) ordmap"
  ts_total_pages :: u32

record savepoint_marker =
  sp_name :: string
  sp_header :: db_header
  sp_superblock :: superblock
  sp_slot :: superblock_slot
  sp_total_pages :: u32
  watermark_keys :: "u32 set"

datatype flush_method = Fsync | FdataSync | FlushNone

record engine_config =
  buffer_pool_pages :: nat
  wal_auto_checkpoint :: nat
  wal_enabled :: bool
  cfg_use_lz4 :: bool
  cfg_flush_method :: flush_method

definition engine_config_default :: engine_config where
  "engine_config_default = \<lparr>buffer_pool_pages = 256, wal_auto_checkpoint = 1000, wal_enabled = True,
     cfg_use_lz4 = False, cfg_flush_method = Fsync\<rparr>"

record pager =
  pg_file :: "os_file option"
  header :: db_header
  pages :: "page list"
  loaded :: "bool list"
  is_memory :: bool
  cow_state :: "cow_pager_state option"
  failpoint :: "pager_failpoint option"
  fail_action :: pager_fail_action
  txn_snapshot :: "txn_snapshot option"
  savepoint_stack :: "savepoint_marker list"
  bulk_mode :: bool
  max_buffer_pages :: nat
  lru_queue :: "u32 list"
  lru_loaded_count :: nat
  use_lz4 :: bool
  dirty_pages :: "u32 list"
  pg_wal :: "wal option"
  has_db_path :: bool
  pg_config :: engine_config
  current_lsn :: u64
  page_lsn :: "u32 \<rightharpoonup> u64"

definition upd_page :: "nat \<Rightarrow> (page \<Rightarrow> page) \<Rightarrow> pager \<Rightarrow> pager" where
  "upd_page i f pg = pg\<lparr>pages := (pages pg)[i := f (pages pg ! i)]\<rparr>"

definition page_idx :: "u32 \<Rightarrow> nat" where
  "page_idx n = unat (n - 1)"

definition upd_cow :: "(cow_pager_state \<Rightarrow> cow_pager_state) \<Rightarrow> pager \<Rightarrow> pager" where
  "upd_cow f pg = pg\<lparr>cow_state := map_option f (cow_state pg)\<rparr>"

definition upd_superblock :: "(superblock \<Rightarrow> superblock) \<Rightarrow> pager \<Rightarrow> pager" where
  "upd_superblock f = upd_cow (\<lambda>s. s\<lparr>active_superblock := f (active_superblock s)\<rparr>)"

text \<open>\<^verbatim>\<open>u64::saturating_add(1)\<close>.\<close>

definition sat_succ :: "u64 \<Rightarrow> u64" where
  "sat_succ n = (if n = - 1 then n else n + 1)"

section \<open>Superblocks in the file\<close>

definition init_leaf_table_page :: "bytes \<Rightarrow> bytes" where
  "init_leaf_table_page pg = [0x0D] @ le_bytes 2 (0::u16) @ le_bytes 2 page_size_to_u16 @ [0] @ drop 6 pg"

definition read_superblock :: "bytes \<Rightarrow> u32 \<Rightarrow> superblock res" where
  "read_superblock file n =
     (case file_page file n of
        None \<Rightarrow> Err (CorruptDatabase (''short read for superblock '' @ show_nat (unat n)))
      | Some pg \<Rightarrow> superblock_deserialize (take COW_SUPERBLOCK_SIZE pg))"

definition superblock_fits_file :: "superblock \<Rightarrow> nat \<Rightarrow> bool" where
  "superblock_fits_file sb len = (if page_count sb < 3 then False else unat (page_count sb) * PAGE_SIZE \<le> len)"

definition choose_openable_superblock ::
    "superblock res \<Rightarrow> superblock res \<Rightarrow> nat \<Rightarrow> (superblock \<times> superblock_slot) res" where
  "choose_openable_superblock left right len =
     (case (left, right) of
        (Ok a, Ok b) \<Rightarrow>
          if db_uuid a \<noteq> db_uuid b then Err (CorruptDatabase ''superblock UUID mismatch across slots'')
          else (case (superblock_fits_file a len, superblock_fits_file b len) of
                  (True, True) \<Rightarrow> if generation a < generation b then Ok (b, SlotB) else Ok (a, SlotA)
                | (True, False) \<Rightarrow> Ok (a, SlotA)
                | (False, True) \<Rightarrow> Ok (b, SlotB)
                | (False, False) \<Rightarrow> Err (CorruptDatabase (''no openable superblock slot for file len '' @ show_nat len)))
      | (Ok a, _) \<Rightarrow>
          if superblock_fits_file a len then Ok (a, SlotA)
          else Err (CorruptDatabase (''superblock A does not fit file len '' @ show_nat len))
      | (_, Ok b) \<Rightarrow>
          if superblock_fits_file b len then Ok (b, SlotB)
          else Err (CorruptDatabase (''superblock B does not fit file len '' @ show_nat len))
      | _ \<Rightarrow> Err (CorruptDatabase ''both superblock slots are invalid''))"

text \<open>The whole page that a superblock fills.\<close>

definition superblock_page :: "superblock \<Rightarrow> bytes" where
  "superblock_page sb = superblock_body sb @ le_bytes 4 (checksum32 (superblock_body sb)) @ replicate (PAGE_SIZE - COW_SUPERBLOCK_SIZE) 0"

definition write_superblock :: "superblock_slot \<Rightarrow> superblock \<Rightarrow> os_file \<Rightarrow> os_file" where
  "write_superblock slot sb f = file_write (page_offset (slot_page_num slot)) (superblock_page sb) f"

definition slot_debug :: "superblock_slot \<Rightarrow> string" where
  "slot_debug s = (case s of SlotA \<Rightarrow> ''A'' | SlotB \<Rightarrow> ''B'')"

definition write_superblock_memory :: "superblock_slot \<Rightarrow> superblock \<Rightarrow> (pager, unit) op" where
  "write_superblock_memory slot sb = (\<lambda>pg.
     let i = page_idx (slot_page_num slot) in
     if length (pages pg) \<le> i then (Err (CorruptDatabase (''missing superblock page for slot '' @ slot_debug slot)), pg)
     else (Ok (), upd_page i (\<lambda>p. p\<lparr>pdata := superblock_page sb, dirty := False\<rparr>) pg))"

definition write_v2_superblock :: "superblock_slot \<Rightarrow> superblock \<Rightarrow> (pager, unit) op" where
  "write_v2_superblock slot sb = (\<lambda>pg.
     case pg_file pg of
       Some f \<Rightarrow> (Ok (), pg\<lparr>pg_file := Some (write_superblock slot sb f)\<rparr>)
     | None \<Rightarrow> write_superblock_memory slot sb pg)"

definition sync_db_file :: "(pager, unit) op" where
  "sync_db_file = op_modify (\<lambda>pg. pg\<lparr>pg_file := map_option file_sync (pg_file pg)\<rparr>)"

definition failpoint_debug :: "pager_failpoint \<Rightarrow> string" where
  "failpoint_debug fp = (case fp of AfterDataPagesWrite \<Rightarrow> ''AfterDataPagesWrite'' | AfterDataPagesSync \<Rightarrow> ''AfterDataPagesSync''
     | AfterSuperblockWrite \<Rightarrow> ''AfterSuperblockWrite'' | AfterSuperblockSync \<Rightarrow> ''AfterSuperblockSync'')"

definition maybe_failpoint :: "pager_failpoint \<Rightarrow> (pager, unit) op" where
  "maybe_failpoint fp = (\<lambda>pg.
     if failpoint pg = Some fp then
       (case fail_action pg of
          FailError \<Rightarrow> (Err (RuntimeError (''injected pager failpoint: '' @ failpoint_debug fp)), pg)
        | AbortProcess \<Rightarrow> (Panic, pg))
     else (Ok (), pg))"

section \<open>Opening and creating\<close>

definition pager_make :: "os_file option \<Rightarrow> u32 \<Rightarrow> page list \<Rightarrow> bool list \<Rightarrow> cow_pager_state \<Rightarrow> engine_config \<Rightarrow> pager" where
  "pager_make file n ps ld cow cfg =
     \<lparr>pg_file = file,
      header = \<lparr>hdr_page_size = page_size_to_u16, total_pages = n, first_freelist_page = 0, freelist_count = 0,
                hdr_schema_version = 0\<rparr>,
      pages = ps, loaded = ld, is_memory = (file = None), cow_state = Some cow, failpoint = None, fail_action = FailError,
      txn_snapshot = None, savepoint_stack = [], bulk_mode = False, max_buffer_pages = buffer_pool_pages cfg, lru_queue = [],
      lru_loaded_count = 0, use_lz4 = False, dirty_pages = [], pg_wal = None, has_db_path = (file \<noteq> None),
      pg_config = cfg, current_lsn = 0, page_lsn = Map.empty\<rparr>"

definition FLAG_LZ4 :: u32 where
  "FLAG_LZ4 = 1"

definition open_cow_v2 :: "os_file \<Rightarrow> pager res" where
  "open_cow_v2 file =
     (let c = content file; len = length c in
      if len < PAGE_SIZE * 2 then Err (CorruptDatabase ''format v2 file is too small'')
      else if take 16 c \<noteq> COW_MAGIC then Err (CorruptDatabase ''database is not format v2'')
      else res_bind (choose_openable_superblock (read_superblock c 1) (read_superblock c 2) len) (\<lambda>(sb, slot).
        let total = unat (page_count sb) in
        Ok ((pager_make (Some file) (page_count sb) (replicate total page_new) (replicate total False)
               \<lparr>active_superblock = sb, active_slot = slot, next_txid = sat_succ (generation sb), active_tx = None\<rparr>
               engine_config_default)
            \<lparr>use_lz4 := sb_flags sb AND FLAG_LZ4 \<noteq> 0\<rparr>)))"

definition create_cow_v2 :: "os_file option \<Rightarrow> bytes \<Rightarrow> pager res" where
  "create_cow_v2 existing uuid =
     (if existing \<noteq> None then Err (Io ''file exists'')
      else let sb_a = (superblock_new uuid)\<lparr>generation := 1, page_count := 3\<rparr>; sb_b = sb_a\<lparr>generation := 0\<rparr>;
               f1 = write_superblock SlotB sb_b (write_superblock SlotA sb_a \<lparr>content = [], synced = []\<rparr>);
               f2 = file_sync (file_write ((3 - 1) * PAGE_SIZE) (init_leaf_table_page (replicate PAGE_SIZE 0)) f1)
        in open_cow_v2 f2)"

definition pager_open :: "os_file option \<Rightarrow> bytes \<Rightarrow> pager res" where
  "pager_open path uuid =
     (case path of
        None \<Rightarrow> create_cow_v2 None uuid
      | Some file \<Rightarrow>
          if length (content file) < 16 then Err (CorruptDatabase ''database file is too short'')
          else if take 16 (content file) = COW_MAGIC then open_cow_v2 file
          else Err (RuntimeError ''unsupported database format: only format v2 is supported''))"

definition pager_open_memory :: "bytes \<Rightarrow> pager" where
  "pager_open_memory uuid =
     (let sb_a = (superblock_new uuid)\<lparr>generation := 1, page_count := 3\<rparr>; sb_b = sb_a\<lparr>generation := 0\<rparr>
      in pager_make None 3
           [page_new\<lparr>pdata := superblock_page sb_a\<rparr>, page_new\<lparr>pdata := superblock_page sb_b\<rparr>,
            page_new\<lparr>pdata := init_leaf_table_page (replicate PAGE_SIZE 0)\<rparr>]
           [True, True, True]
           \<lparr>active_superblock = sb_a, active_slot = SlotA, next_txid = 2, active_tx = None\<rparr>
           (engine_config_default\<lparr>buffer_pool_pages := 0, wal_enabled := False\<rparr>))"

section \<open>Compressed pages\<close>

text \<open>The codec: the compressed block of a page, if it fits the scratch buffer, and the decoder of a block behind
  its four-byte size.\<close>

record lz4 =
  compress_into :: "bytes \<Rightarrow> bytes option"
  decompress_size_prepended :: "bytes \<Rightarrow> string + bytes"

definition raw_slot :: "bytes \<Rightarrow> bytes" where
  "raw_slot data = le_bytes 2 (0xFFFF::u16) @ take (PAGE_SIZE - 2) data"

definition compress_for_disk :: "lz4 \<Rightarrow> bytes \<Rightarrow> bytes" where
  "compress_for_disk z data =
     (case compress_into z data of
        None \<Rightarrow> raw_slot data
      | Some block \<Rightarrow>
          let total = 4 + length block in
          if total < PAGE_SIZE - 2
          then le_bytes 2 (word_of_nat total :: u16) @ le_bytes 4 (word_of_nat PAGE_SIZE :: u32) @ block
                 @ replicate (PAGE_SIZE - 2 - total) 0
          else raw_slot data)"

definition decompress_from_disk :: "lz4 \<Rightarrow> bytes \<Rightarrow> bytes res" where
  "decompress_from_disk z slot =
     (let comp_len = (from_le (take 2 slot) :: u16) in
      if comp_len = 0xFFFF then Ok (drop 2 slot @ [0, 0])
      else let comp_end = min (2 + unat comp_len) PAGE_SIZE in
        (case decompress_size_prepended z (drop 2 (take comp_end slot)) of
           Inl e \<Rightarrow> Err (CorruptDatabase (''LZ4 decompress failed: '' @ e))
         | Inr d \<Rightarrow>
             if length d \<noteq> PAGE_SIZE
             then Err (CorruptDatabase (''LZ4 decompressed to '' @ show_nat (length d) @ '' bytes, expected '' @ show_nat PAGE_SIZE))
             else Ok d))"

definition enable_lz4 :: "pager \<Rightarrow> pager" where
  "enable_lz4 pg = upd_superblock (\<lambda>sb. sb\<lparr>sb_flags := sb_flags sb OR FLAG_LZ4\<rparr>) (pg\<lparr>use_lz4 := True\<rparr>)"

section \<open>Page cache\<close>

text \<open>The clock sweep. Each round looks at one queue entry; the number of rounds left is the first argument.\<close>

fun evict_loop :: "nat \<Rightarrow> nat \<Rightarrow> nat \<Rightarrow> nat \<Rightarrow> nat \<Rightarrow> pager \<Rightarrow> pager" where
  "evict_loop 0 queue_len target checked passes pg = pg"
| "evict_loop (Suc left) queue_len target checked passes pg =
     (if lru_loaded_count pg \<le> target then pg
      else case lru_queue pg of
        [] \<Rightarrow> pg
      | pn # rest \<Rightarrow>
          let i = page_idx pn; pg1 = pg\<lparr>lru_queue := rest\<rparr>; again = pg\<lparr>lru_queue := rest @ [pn]\<rparr> in
          if length (loaded pg) \<le> i \<or> \<not> loaded pg ! i then evict_loop left queue_len target (checked + 1) passes pg1
          else if dirty (pages pg ! i) then evict_loop left queue_len target (checked + 1) passes again
          else if recently_used (pages pg ! i) then
            (let pg2 = upd_page i (\<lambda>p. p\<lparr>recently_used := False\<rparr>) again;
                 full_pass = 0 < queue_len \<and> (checked + 1) mod queue_len = 0;
                 passes1 = (if full_pass then passes + 1 else passes)
             in if full_pass \<and> 2 \<le> passes1 then pg2
                else evict_loop left queue_len target (checked + 1) passes1 pg2)
          else evict_loop left queue_len target (checked + 1) passes
                 ((upd_page i (\<lambda>_. page_new) pg1)\<lparr>loaded := (loaded pg)[i := False],
                     lru_loaded_count := lru_loaded_count pg - 1\<rparr>))"

definition evict_lru_if_needed :: "pager \<Rightarrow> pager" where
  "evict_lru_if_needed pg =
     (if max_buffer_pages pg = 0 \<or> lru_loaded_count pg \<le> max_buffer_pages pg then pg
      else evict_loop (length (lru_queue pg) * 2) (length (lru_queue pg)) (max_buffer_pages pg) 0 0 pg)"

definition short_read :: "u32 \<Rightarrow> kkdb_error" where
  "short_read n = CorruptDatabase (''short read for page '' @ show_nat (unat n))"

text \<open>Reading a page into a cache slot; without a file the slot stays as it is.\<close>

definition load_page_from_disk :: "lz4 \<Rightarrow> u32 \<Rightarrow> (pager, unit) op" where
  "load_page_from_disk z n = (\<lambda>pg.
     case pg_file pg of
       None \<Rightarrow> (Ok (), pg)
     | Some f \<Rightarrow>
         (case file_page (content f) n of
            None \<Rightarrow> (Err (short_read n), pg)
          | Some slot \<Rightarrow>
              (case (if use_lz4 pg \<and> 2 < n then decompress_from_disk z slot else Ok slot) of
                 Ok d \<Rightarrow> (Ok (), upd_page (page_idx n) (\<lambda>p. p\<lparr>pdata := d\<rparr>) pg)
               | Err e \<Rightarrow> (Err e, pg)
               | Panic \<Rightarrow> (Panic, pg))))"

definition mark_loaded :: "u32 \<Rightarrow> pager \<Rightarrow> pager" where
  "mark_loaded n pg = pg\<lparr>loaded := (loaded pg)[page_idx n := True], lru_loaded_count := lru_loaded_count pg + 1,
     lru_queue := lru_queue pg @ [n]\<rparr>"

definition touch_page :: "u32 \<Rightarrow> pager \<Rightarrow> pager" where
  "touch_page n pg = (if 0 < max_buffer_pages pg then upd_page (page_idx n) (\<lambda>p. p\<lparr>recently_used := True\<rparr>) pg else pg)"

text \<open>The range check of the page accessors, and the index panics behind it.\<close>

definition check_page :: "u32 \<Rightarrow> (pager, unit) op" where
  "check_page n = (\<lambda>pg.
     if n = 0 \<or> total_pages (header pg) < n then (Err (PageOutOfRange n), pg)
     else if length (loaded pg) \<le> page_idx n \<or> length (pages pg) \<le> page_idx n then (Panic, pg)
     else (Ok (), pg))"

definition load_from_disk :: "lz4 \<Rightarrow> u32 \<Rightarrow> (pager, unit) op" where
  "load_from_disk z n =
     op_bind (op_modify evict_lru_if_needed) (\<lambda>_.
     op_bind (load_page_from_disk z n) (\<lambda>_.
     op_modify (mark_loaded n)))"

definition get_page :: "lz4 \<Rightarrow> u32 \<Rightarrow> (pager, bytes) op" where
  "get_page z n =
     op_bind (check_page n) (\<lambda>_.
     op_bind (op_get (\<lambda>pg.
       if loaded pg ! page_idx n then op_return ()
       else case (case pg_wal pg of Some w \<Rightarrow> wal_read_page w n | None \<Rightarrow> None) of
         Some d \<Rightarrow> op_modify (\<lambda>pg. mark_loaded n (upd_page (page_idx n) (\<lambda>p. p\<lparr>pdata := d\<rparr>) (evict_lru_if_needed pg)))
       | None \<Rightarrow> load_from_disk z n)) (\<lambda>_.
     op_bind (op_modify (touch_page n)) (\<lambda>_.
     op_get (\<lambda>pg. op_return (pdata (pages pg ! page_idx n))))))"

text \<open>Saving the original of a page on its first write in a transaction.\<close>

definition snapshot_page :: "u32 \<Rightarrow> pager \<Rightarrow> pager" where
  "snapshot_page n pg =
     (case txn_snapshot pg of
        None \<Rightarrow> pg
      | Some snap \<Rightarrow>
          let i = page_idx n in
          if snapshotted (pages pg ! i) then pg
          else upd_page i (\<lambda>p. p\<lparr>snapshotted := True\<rparr>)
                 (pg\<lparr>txn_snapshot := Some (snap\<lparr>original_pages := om_insert n (pdata (pages pg ! i)) (original_pages snap)\<rparr>)\<rparr>))"

definition mark_dirty :: "u32 \<Rightarrow> pager \<Rightarrow> pager" where
  "mark_dirty n pg =
     (let i = page_idx n; pg1 = (if dirty (pages pg ! i) then pg else pg\<lparr>dirty_pages := dirty_pages pg @ [n]\<rparr>)
      in upd_page i (\<lambda>p. p\<lparr>dirty := True\<rparr>) pg1)"

definition get_page_mut :: "lz4 \<Rightarrow> u32 \<Rightarrow> (pager, unit) op" where
  "get_page_mut z n =
     op_bind (check_page n) (\<lambda>_.
     op_bind (op_get (\<lambda>pg. if loaded pg ! page_idx n then op_return () else load_from_disk z n)) (\<lambda>_.
     op_modify (\<lambda>pg. mark_dirty n (snapshot_page n (touch_page n pg)))))"

text \<open>What a caller does with the mutable page.\<close>

definition write_page_data :: "u32 \<Rightarrow> (bytes \<Rightarrow> bytes) \<Rightarrow> (pager, unit) op" where
  "write_page_data n f = op_modify (upd_page (page_idx n) (\<lambda>p. p\<lparr>pdata := f (pdata p)\<rparr>))"

definition modify_page :: "lz4 \<Rightarrow> u32 \<Rightarrow> (bytes \<Rightarrow> bytes) \<Rightarrow> (pager, unit) op" where
  "modify_page z n f = op_bind (get_page_mut z n) (\<lambda>_. write_page_data n f)"

section \<open>Allocation\<close>

definition set_next_pointer :: "u32 \<Rightarrow> bytes \<Rightarrow> bytes" where
  "set_next_pointer n d = le_bytes 4 n @ drop 4 d"

definition zero_page :: "bytes \<Rightarrow> bytes" where
  "zero_page d = replicate (length d) 0"

text \<open>The page that the free list offers, after rotating the pending list in.\<close>

definition free_candidate :: "(pager, u32 option) op" where
  "free_candidate = (\<lambda>pg.
     case cow_state pg of
       None \<Rightarrow> (Ok None, pg)
     | Some s \<Rightarrow>
         let sb = active_superblock s in
         if free_root sb \<noteq> 0 then (Ok (Some (free_root sb)), pg)
         else if pending_free_root sb \<noteq> 0
         then (Ok (Some (pending_free_root sb)),
               upd_superblock (\<lambda>sb. sb\<lparr>free_root := pending_free_root sb, pending_free_root := 0\<rparr>) pg)
         else (Ok None, pg))"

definition extend_pages :: "(pager, u32) op" where
  "extend_pages = (\<lambda>pg.
     let n = total_pages (header pg) + 1
     in (Ok n, pg\<lparr>header := (header pg)\<lparr>total_pages := n\<rparr>, pages := pages pg @ [page_new], loaded := loaded pg @ [True]\<rparr>))"

definition allocate_page :: "lz4 \<Rightarrow> (pager, u32) op" where
  "allocate_page z = op_get (\<lambda>pg.
     if MAX_PAGES \<le> total_pages (header pg) then op_fail DatabaseFull
     else op_bind free_candidate (\<lambda>c.
       case c of
         Some n \<Rightarrow>
           op_bind (get_page z n) (\<lambda>d.
           op_bind (op_modify (upd_superblock (\<lambda>sb. sb\<lparr>free_root := from_le (take 4 d)\<rparr>))) (\<lambda>_.
           op_bind (modify_page z n zero_page) (\<lambda>_. op_return n)))
       | None \<Rightarrow> extend_pages))"

text \<open>Linking a freed page into the list of the transaction, or into the pending list without one: which
  page gets which next pointer.\<close>

definition link_freed :: "u32 \<Rightarrow> (pager, (u32 \<times> u32) option) op" where
  "link_freed n = (\<lambda>pg.
     case cow_state pg of
       None \<Rightarrow> (Ok None, pg)
     | Some s \<Rightarrow>
         (case active_tx s of
            Some tx \<Rightarrow>
              (case freed_tail tx of
                 Some tail \<Rightarrow> (Ok (Some (tail, n)), upd_cow (\<lambda>s. s\<lparr>active_tx := Some (tx\<lparr>freed_tail := Some n\<rparr>)\<rparr>) pg)
               | None \<Rightarrow> (Ok None, upd_cow (\<lambda>s. s\<lparr>active_tx := Some (tx\<lparr>freed_root := Some n, freed_tail := Some n\<rparr>)\<rparr>) pg))
          | None \<Rightarrow>
              (Ok (Some (n, pending_free_root (active_superblock s))),
               upd_superblock (\<lambda>sb. sb\<lparr>pending_free_root := n\<rparr>) pg)))"

definition free_page :: "lz4 \<Rightarrow> u32 \<Rightarrow> (pager, unit) op" where
  "free_page z n = op_get (\<lambda>pg.
     if n = 0 \<or> total_pages (header pg) < n then op_fail (PageOutOfRange n)
     else op_bind (modify_page z n (\<lambda>d. set_next_pointer 0 (zero_page d))) (\<lambda>_.
       op_bind (link_freed n) (\<lambda>l.
         case l of
           None \<Rightarrow> op_return ()
         | Some (m, ptr) \<Rightarrow> modify_page z m (set_next_pointer ptr))))"

section \<open>Writing back\<close>

definition reserved_error :: kkdb_error where
  "reserved_error = RuntimeError ''format v2 reserves page 1/2 for superblocks''"

definition write_one_page :: "lz4 \<Rightarrow> u32 \<Rightarrow> pager \<Rightarrow> pager" where
  "write_one_page z n pg =
     (let i = page_idx n; d = pdata (pages pg ! i);
          pg1 = (case pg_wal pg of
                   Some w \<Rightarrow> pg\<lparr>current_lsn := current_lsn pg + 1, page_lsn := (page_lsn pg)(n \<mapsto> current_lsn pg + 1),
                                pg_wal := Some (wal_write_page n d w)\<rparr>
                 | None \<Rightarrow> pg\<lparr>pg_file := map_option (file_write (page_offset n)
                                             (if use_lz4 pg then compress_for_disk z d else d)) (pg_file pg)\<rparr>)
      in upd_page i (\<lambda>p. p\<lparr>dirty := False\<rparr>) pg1)"

fun write_dirty_pages :: "lz4 \<Rightarrow> u32 list \<Rightarrow> (pager, unit) op" where
  "write_dirty_pages z [] pg = (Ok (), pg)"
| "write_dirty_pages z (n # ns) pg =
     (if length (pages pg) \<le> page_idx n \<or> \<not> dirty (pages pg ! page_idx n) then write_dirty_pages z ns pg
      else if n \<le> 2 then (Err reserved_error, pg)
      else write_dirty_pages z ns (write_one_page z n pg))"

definition write_v2_data_pages :: "lz4 \<Rightarrow> (pager, unit) op" where
  "write_v2_data_pages z = (\<lambda>pg.
     if 2 \<le> length (pages pg) \<and> (dirty (pages pg ! 0) \<or> dirty (pages pg ! 1)) then (Err reserved_error, pg)
     else write_dirty_pages z (dirty_pages pg) (pg\<lparr>dirty_pages := []\<rparr>))"

definition flush_v2_data_pages :: "lz4 \<Rightarrow> (pager, unit) op" where
  "flush_v2_data_pages z = op_bind (write_v2_data_pages z) (\<lambda>_. sync_db_file)"

definition sync_unless_deferred :: "(pager, unit) op" where
  "sync_unless_deferred = op_get (\<lambda>pg. if \<not> bulk_mode pg \<and> pg_wal pg = None then sync_db_file else op_return ())"

definition commit_wal :: "(pager, unit) op" where
  "commit_wal = op_modify (\<lambda>pg. pg\<lparr>pg_wal := map_option (wal_commit (total_pages (header pg))) (pg_wal pg)\<rparr>)"

text \<open>The four steps of a commit: data pages, sync, superblock, sync, each followed by a failure point.\<close>

definition write_and_switch :: "lz4 \<Rightarrow> superblock_slot \<Rightarrow> superblock \<Rightarrow> (pager, unit) op" where
  "write_and_switch z slot sb =
     op_bind (write_v2_data_pages z) (\<lambda>_.
     op_bind commit_wal (\<lambda>_.
     op_bind (maybe_failpoint AfterDataPagesWrite) (\<lambda>_.
     op_bind sync_unless_deferred (\<lambda>_.
     op_bind (maybe_failpoint AfterDataPagesSync) (\<lambda>_.
     op_bind (write_v2_superblock slot sb) (\<lambda>_.
     op_bind (maybe_failpoint AfterSuperblockWrite) (\<lambda>_.
     op_bind sync_unless_deferred (\<lambda>_.
     op_bind (maybe_failpoint AfterSuperblockSync) (\<lambda>_.
     op_modify (upd_cow (\<lambda>s. s\<lparr>active_superblock := sb, active_slot := slot\<rparr>)))))))))))"

definition rotate_free_lists :: "superblock \<Rightarrow> superblock" where
  "rotate_free_lists sb =
     (if free_root sb = 0 \<and> pending_free_root sb \<noteq> 0
      then sb\<lparr>free_root := pending_free_root sb, pending_free_root := 0\<rparr> else sb)"

text \<open>The freed pages of a transaction go in front of the pending list.\<close>

definition publish_freed :: "lz4 \<Rightarrow> (pager, unit) op" where
  "publish_freed z = op_get (\<lambda>pg.
     case cow_state pg of
       None \<Rightarrow> op_return ()
     | Some s \<Rightarrow>
         (case active_tx s of
            None \<Rightarrow> op_return ()
          | Some tx \<Rightarrow>
              (case (freed_root tx, freed_tail tx) of
                 (Some root, Some tail) \<Rightarrow>
                   op_bind (op_modify (upd_superblock (\<lambda>sb. sb\<lparr>pending_free_root := root\<rparr>))) (\<lambda>_.
                   modify_page z tail (set_next_pointer (pending_free_root (active_superblock s))))
               | _ \<Rightarrow> op_return ())))"

text \<open>Clearing the flags of the pages that the transaction saved.\<close>

definition clear_snapshotted :: "pager \<Rightarrow> pager" where
  "clear_snapshotted pg =
     (case txn_snapshot pg of
        None \<Rightarrow> pg
      | Some snap \<Rightarrow>
          pg\<lparr>txn_snapshot := None,
             pages := fold (\<lambda>n ps. if page_idx n < length ps then ps[page_idx n := (ps ! page_idx n)\<lparr>snapshotted := False\<rparr>] else ps)
                        (map fst (original_pages snap)) (pages pg)\<rparr>)"

definition commit_transaction_v2 :: "lz4 \<Rightarrow> (pager, unit) op" where
  "commit_transaction_v2 z = op_get (\<lambda>pg.
     case cow_state pg of
       None \<Rightarrow> op_fail (Internal ''missing v2 state'')
     | Some s \<Rightarrow>
         (case active_tx s of
            None \<Rightarrow> op_fail (RuntimeError ''transaction not active'')
          | Some tx \<Rightarrow>
              if base_generation tx \<noteq> generation (active_superblock s)
              then op_fail (RuntimeError (''stale v2 transaction state for txid '' @ show_nat (unat (txid tx))))
              else op_bind (write_and_switch z (slot_inactive (active_slot s))
                     ((active_superblock s)\<lparr>generation := target_generation tx, page_count := total_pages (header pg)\<rparr>)) (\<lambda>_.
                op_bind (publish_freed z) (\<lambda>_.
                op_modify (\<lambda>pg. clear_snapshotted
                  (upd_cow (\<lambda>s. s\<lparr>active_superblock := rotate_free_lists (active_superblock s), active_tx := None\<rparr>) pg))))))"

definition auto_checkpoint :: "nat \<Rightarrow> (pager, unit) op" where
  "auto_checkpoint nanos = (\<lambda>pg.
     case pg_wal pg of
       None \<Rightarrow> (Ok (), pg)
     | Some w \<Rightarrow>
         if 0 < wal_auto_checkpoint (pg_config pg) \<and> wal_auto_checkpoint (pg_config pg) \<le> length (committed_frames w)
         then (case pg_file pg of
                 None \<Rightarrow> (Ok (), pg\<lparr>page_lsn := Map.empty\<rparr>)
               | Some f \<Rightarrow>
                   (case Wal.wal_checkpoint nanos w f of
                      Ok (_, w', f') \<Rightarrow> (Ok (), pg\<lparr>pg_wal := Some w', pg_file := Some f', page_lsn := Map.empty\<rparr>)
                    | Err _ \<Rightarrow> (Ok (), pg\<lparr>page_lsn := Map.empty\<rparr>)
                    | Panic \<Rightarrow> (Panic, pg)))
         else (Ok (), pg))"

definition flush_v2_autocommit :: "lz4 \<Rightarrow> nat \<Rightarrow> (pager, unit) op" where
  "flush_v2_autocommit z nanos = op_get (\<lambda>pg.
     case cow_state pg of
       None \<Rightarrow> op_fail (Internal ''missing v2 state'')
     | Some s \<Rightarrow>
         op_bind (write_and_switch z (slot_inactive (active_slot s))
           ((active_superblock s)\<lparr>generation := sat_succ (generation (active_superblock s)), page_count := total_pages (header pg)\<rparr>)) (\<lambda>_.
         op_bind (op_modify (upd_cow (\<lambda>s. s\<lparr>active_superblock := rotate_free_lists (active_superblock s),
                                               next_txid := sat_succ (next_txid s)\<rparr>))) (\<lambda>_.
         auto_checkpoint nanos)))"

definition in_transaction :: "pager \<Rightarrow> bool" where
  "in_transaction pg = (case cow_state pg of None \<Rightarrow> False | Some s \<Rightarrow> active_tx s \<noteq> None)"

definition pager_flush :: "lz4 \<Rightarrow> nat \<Rightarrow> (pager, unit) op" where
  "pager_flush z nanos = op_get (\<lambda>pg. if in_transaction pg then flush_v2_data_pages z else flush_v2_autocommit z nanos)"

section \<open>Write-ahead log\<close>

definition enable_wal :: "nat \<Rightarrow> os_file option \<Rightarrow> (pager, unit) op" where
  "enable_wal nanos wal_path = (\<lambda>pg.
     if is_memory pg \<or> pg_wal pg \<noteq> None \<or> \<not> has_db_path pg then (Ok (), pg)
     else let uuid = (case cow_state pg of Some s \<Rightarrow> db_uuid (active_superblock s) | None \<Rightarrow> replicate 16 0) in
       (case wal_open_or_create nanos wal_path uuid of
          Ok w \<Rightarrow> (Ok (), pg\<lparr>pg_wal := Some w\<rparr>)
        | Err e \<Rightarrow> (Err e, pg)
        | Panic \<Rightarrow> (Panic, pg)))"

definition pager_checkpoint :: "nat \<Rightarrow> (pager, nat) op" where
  "pager_checkpoint nanos = (\<lambda>pg.
     case (pg_wal pg, pg_file pg) of
       (Some w, Some f) \<Rightarrow>
         (case Wal.wal_checkpoint nanos w f of
            Ok (n, w', f') \<Rightarrow> (Ok n, pg\<lparr>pg_wal := Some w', pg_file := Some f', page_lsn := Map.empty\<rparr>)
          | Err e \<Rightarrow> (Err e, pg)
          | Panic \<Rightarrow> (Panic, pg))
     | _ \<Rightarrow> (Ok 0, pg))"

definition apply_engine_config :: "nat \<Rightarrow> os_file option \<Rightarrow> engine_config \<Rightarrow> (pager, unit) op" where
  "apply_engine_config nanos wal_path cfg =
     op_bind (op_modify (\<lambda>pg. pg\<lparr>max_buffer_pages := buffer_pool_pages cfg, use_lz4 := cfg_use_lz4 cfg\<rparr>)) (\<lambda>_.
     op_bind (op_get (\<lambda>pg. if wal_enabled cfg \<and> \<not> is_memory pg then enable_wal nanos wal_path else op_return ())) (\<lambda>_.
     op_modify (\<lambda>pg. pg\<lparr>pg_config := cfg\<rparr>)))"

section \<open>Transactions\<close>

definition begin_transaction :: "(pager, unit) op" where
  "begin_transaction = (\<lambda>pg.
     if in_transaction pg then (Err (RuntimeError ''transaction already active''), pg)
     else case cow_state pg of
       None \<Rightarrow> (Err (Internal ''missing v2 state''), pg)
     | Some s \<Rightarrow>
         let base = generation (active_superblock s) in
         (Ok (), pg\<lparr>txn_snapshot := Some \<lparr>ts_header = header pg, ts_superblock = active_superblock s, ts_slot = active_slot s,
                                          original_pages = [], ts_total_pages = total_pages (header pg)\<rparr>,
                    cow_state := Some (s\<lparr>next_txid := sat_succ (next_txid s),
                      active_tx := Some \<lparr>txid = next_txid s, base_generation = base, target_generation = sat_succ base,
                                         freed_root = None, freed_tail = None\<rparr>\<rparr>)\<rparr>))"

definition active_txid :: "pager \<Rightarrow> u64 option" where
  "active_txid pg = (case cow_state pg of None \<Rightarrow> None | Some s \<Rightarrow> map_option txid (active_tx s))"

definition commit_transaction :: "lz4 \<Rightarrow> (pager, unit) op" where
  "commit_transaction z = op_get (\<lambda>pg. if \<not> in_transaction pg then op_return () else commit_transaction_v2 z)"

text \<open>Putting saved originals back; the source indexes the page vector and panics outside of it.\<close>

fun restore_pages :: "(u32 \<times> bytes) list \<Rightarrow> page list \<Rightarrow> page list option" where
  "restore_pages [] ps = Some ps"
| "restore_pages ((n, d) # rest) ps =
     (if page_idx n < length ps
      then restore_pages rest (ps[page_idx n := (ps ! page_idx n)\<lparr>pdata := d, dirty := False, snapshotted := False\<rparr>])
      else None)"

definition truncate_pages :: "u32 \<Rightarrow> pager \<Rightarrow> pager" where
  "truncate_pages n pg = pg\<lparr>pages := take (unat n) (pages pg), loaded := take (unat n) (loaded pg)\<rparr>"

definition rollback_transaction :: "(pager, unit) op" where
  "rollback_transaction = (\<lambda>pg.
     let pg1 = pg\<lparr>savepoint_stack := [], pg_wal := map_option wal_rollback (pg_wal pg)\<rparr> in
     case txn_snapshot pg1 of
       None \<Rightarrow> (Ok (), upd_cow (\<lambda>s. s\<lparr>active_tx := None\<rparr>) pg1)
     | Some snap \<Rightarrow>
         let pg2 = upd_cow (\<lambda>s. s\<lparr>active_superblock := ts_superblock snap, active_slot := ts_slot snap, active_tx := None\<rparr>)
                     (pg1\<lparr>txn_snapshot := None, header := ts_header snap\<rparr>) in
         (case restore_pages (original_pages snap) (pages pg2) of
            None \<Rightarrow> (Panic, pg2)
          | Some ps \<Rightarrow> (Ok (), truncate_pages (ts_total_pages snap) (pg2\<lparr>pages := ps, dirty_pages := []\<rparr>))))"

section \<open>Savepoints\<close>

definition named :: "string \<Rightarrow> savepoint_marker \<Rightarrow> bool" where
  "named name m = eq_ignore_ascii_case (sp_name m) name"

definition savepoint :: "string \<Rightarrow> (pager, unit) op" where
  "savepoint name =
     op_bind (op_get (\<lambda>pg. if in_transaction pg then op_return () else begin_transaction)) (\<lambda>_.
     op_bind (op_modify (\<lambda>pg. pg\<lparr>savepoint_stack := filter (\<lambda>m. \<not> named name m) (savepoint_stack pg)\<rparr>)) (\<lambda>_.
     op_get (\<lambda>pg.
       case cow_state pg of
         None \<Rightarrow> op_fail (Internal ''missing v2 state'')
       | Some s \<Rightarrow>
           let keys = (case txn_snapshot pg of Some snap \<Rightarrow> fst ` set (original_pages snap) | None \<Rightarrow> {}) in
           op_modify (\<lambda>pg. pg\<lparr>savepoint_stack := savepoint_stack pg @
             [\<lparr>sp_name = name, sp_header = header pg, sp_superblock = active_superblock s, sp_slot = active_slot s,
               sp_total_pages = total_pages (header pg), watermark_keys = keys\<rparr>]\<rparr>))))"

definition no_savepoint :: "string \<Rightarrow> kkdb_error" where
  "no_savepoint name = RuntimeError (''savepoint '' @ [CHR 0x27] @ name @ [CHR 0x27] @ '' not found'')"

definition release_savepoint :: "string \<Rightarrow> (pager, unit) op" where
  "release_savepoint name = (\<lambda>pg.
     case rposition (named name) (savepoint_stack pg) of
       None \<Rightarrow> (Err (no_savepoint name), pg)
     | Some pos \<Rightarrow> (Ok (), pg\<lparr>savepoint_stack := take pos (savepoint_stack pg)\<rparr>))"

text \<open>The snapshot of the transaction after the pages since a savepoint were put back.\<close>

definition trim_snapshot :: "savepoint_marker \<Rightarrow> txn_snapshot \<Rightarrow> txn_snapshot" where
  "trim_snapshot m snap =
     snap\<lparr>original_pages := om_retain (\<lambda>n. n \<in> watermark_keys m) (original_pages snap), ts_header := sp_header m,
          ts_superblock := sp_superblock m, ts_slot := sp_slot m, ts_total_pages := sp_total_pages m\<rparr>"

definition pager_rollback_to_savepoint :: "string \<Rightarrow> (pager, unit) op" where
  "pager_rollback_to_savepoint name = (\<lambda>pg.
     case rposition (named name) (savepoint_stack pg) of
       None \<Rightarrow> (Err (no_savepoint name), pg)
     | Some pos \<Rightarrow>
         let m = savepoint_stack pg ! pos;
             pg1 = upd_cow (\<lambda>s. s\<lparr>active_superblock := sp_superblock m, active_slot := sp_slot m\<rparr>)
                     (pg\<lparr>savepoint_stack := take (pos + 1) (savepoint_stack pg), header := sp_header m\<rparr>);
             since = (case txn_snapshot pg1 of Some snap \<Rightarrow> om_retain (\<lambda>n. n \<notin> watermark_keys m) (original_pages snap) | None \<Rightarrow> []) in
         (case restore_pages since (pages pg1) of
            None \<Rightarrow> (Panic, pg1)
          | Some ps \<Rightarrow>
              let pg2 = truncate_pages (sp_total_pages m)
                          (pg1\<lparr>pages := ps, txn_snapshot := map_option (trim_snapshot m) (txn_snapshot pg1)\<rparr>)
              in (Ok (), pg2\<lparr>dirty_pages := filter (\<lambda>n. page_idx n < length (pages pg2) \<and> dirty (pages pg2 ! page_idx n))
                                              (dirty_pages pg2)\<rparr>)))"

section \<open>Settings\<close>

definition set_max_buffer_pages :: "nat \<Rightarrow> pager \<Rightarrow> pager" where
  "set_max_buffer_pages n pg = pg\<lparr>max_buffer_pages := n, pg_config := (pg_config pg)\<lparr>buffer_pool_pages := n\<rparr>\<rparr>"

definition set_bulk_mode :: "bool \<Rightarrow> pager \<Rightarrow> pager" where
  "set_bulk_mode b pg = pg\<lparr>bulk_mode := b\<rparr>"

definition schema_root_page :: "pager \<Rightarrow> u32" where
  "schema_root_page pg = (case cow_state pg of Some s \<Rightarrow> schema_root (active_superblock s) | None \<Rightarrow> 3)"

definition set_schema_root_page :: "u32 \<Rightarrow> (pager, unit) op" where
  "set_schema_root_page n = op_get (\<lambda>pg.
     if n < 3 \<or> total_pages (header pg) < n then op_fail (PageOutOfRange n)
     else case cow_state pg of
       None \<Rightarrow> op_fail (Internal ''missing v2 state'')
     | Some _ \<Rightarrow> op_modify (upd_superblock (\<lambda>sb. sb\<lparr>schema_root := n\<rparr>)))"

definition set_failpoint :: "pager_failpoint option \<Rightarrow> pager \<Rightarrow> pager" where
  "set_failpoint fp pg = pg\<lparr>failpoint := fp\<rparr>"

definition set_failpoint_action :: "pager_fail_action \<Rightarrow> pager \<Rightarrow> pager" where
  "set_failpoint_action a pg = pg\<lparr>fail_action := a\<rparr>"

end
