(* ===== verification/PageStore.thy ===== *)
theory PageStore
  imports PageFile
begin

text \<open>
  What the layers above the pager rely on: pages are an array of byte strings of one size, reading a page returns
  its content, and changing a page changes that page only. The contract \<open>page_store\<close> states this for a
  pair of operations on some state with an invariant; in it, a sequence of operations has the outcomes that the plain array
  gives. The pager instantiates it in theory \<open>PagerTxn\<close>.
\<close>

datatype store_op = StoreRead u32 | StoreModify u32 "bytes \<Rightarrow> bytes"

definition keeps_size :: "(bytes \<Rightarrow> bytes) \<Rightarrow> bool" where
  "keeps_size f \<longleftrightarrow> (\<forall>d. length d = PAGE_SIZE \<longrightarrow> length (f d) = PAGE_SIZE)"

fun store_op_ok :: "store_op \<Rightarrow> bool" where
  "store_op_ok (StoreRead n) = True"
| "store_op_ok (StoreModify n f) = keeps_size f"

section \<open>The plain array\<close>

fun array_step :: "store_op \<Rightarrow> (u32 \<rightharpoonup> bytes) \<Rightarrow> bytes res \<times> (u32 \<rightharpoonup> bytes)" where
  "array_step (StoreRead n) a = (case a n of None \<Rightarrow> Err (PageOutOfRange n) | Some d \<Rightarrow> Ok d, a)"
| "array_step (StoreModify n f) a = (case a n of None \<Rightarrow> (Err (PageOutOfRange n), a) | Some d \<Rightarrow> (Ok [], a(n \<mapsto> f d)))"

fun array_run :: "store_op list \<Rightarrow> (u32 \<rightharpoonup> bytes) \<Rightarrow> bytes res list \<times> (u32 \<rightharpoonup> bytes)" where
  "array_run [] a = ([], a)"
| "array_run (t # ts) a = (case array_step t a of (r, a') \<Rightarrow> case array_run ts a' of (rs, a'') \<Rightarrow> (r # rs, a''))"

section \<open>The same operations on an implementation\<close>

text \<open>The unit result of a change is shown as an empty byte string.\<close>

fun unit_result :: "unit res \<Rightarrow> bytes res" where
  "unit_result (Ok _) = Ok []"
| "unit_result (Err e) = Err e"
| "unit_result Panic = Panic"

fun store_step :: "(u32 \<Rightarrow> 's \<Rightarrow> bytes res \<times> 's) \<Rightarrow> (u32 \<Rightarrow> (bytes \<Rightarrow> bytes) \<Rightarrow> 's \<Rightarrow> unit res \<times> 's) \<Rightarrow> store_op \<Rightarrow> 's \<Rightarrow> bytes res \<times> 's" where
  "store_step read modify (StoreRead n) s = read n s"
| "store_step read modify (StoreModify n f) s = (case modify n f s of (r, s') \<Rightarrow> (unit_result r, s'))"

fun store_run :: "(u32 \<Rightarrow> 's \<Rightarrow> bytes res \<times> 's) \<Rightarrow> (u32 \<Rightarrow> (bytes \<Rightarrow> bytes) \<Rightarrow> 's \<Rightarrow> unit res \<times> 's) \<Rightarrow> store_op list \<Rightarrow> 's
    \<Rightarrow> bytes res list \<times> 's" where
  "store_run read modify [] s = ([], s)"
| "store_run read modify (t # ts) s =
     (case store_step read modify t s of (r, s') \<Rightarrow> case store_run read modify ts s' of (rs, s'') \<Rightarrow> (r # rs, s''))"

section \<open>The contract\<close>

locale page_store =
  fixes inv :: "'s \<Rightarrow> bool" and val :: "'s \<Rightarrow> u32 \<rightharpoonup> bytes"
    and read :: "u32 \<Rightarrow> 's \<Rightarrow> bytes res \<times> 's" and modify :: "u32 \<Rightarrow> (bytes \<Rightarrow> bytes) \<Rightarrow> 's \<Rightarrow> unit res \<times> 's"
  assumes read_found: "inv s \<Longrightarrow> val s n = Some d \<Longrightarrow> \<exists>s'. read n s = (Ok d, s') \<and> inv s' \<and> val s' = val s"
    and read_missing: "inv s \<Longrightarrow> val s n = None \<Longrightarrow> read n s = (Err (PageOutOfRange n), s)"
    and modify_found: "inv s \<Longrightarrow> val s n = Some d \<Longrightarrow> keeps_size f \<Longrightarrow>
      \<exists>s'. modify n f s = (Ok (), s') \<and> inv s' \<and> val s' = (val s)(n \<mapsto> f d)"
    and modify_missing: "inv s \<Longrightarrow> val s n = None \<Longrightarrow> modify n f s = (Err (PageOutOfRange n), s)"
begin

lemma step_refines:
  assumes "inv s" and "store_op_ok t"
  shows "\<exists>s'. store_step read modify t s = (fst (array_step t (val s)), s') \<and> inv s' \<and> val s' = snd (array_step t (val s))"
proof (cases t)
  case (StoreRead n)
  then show ?thesis
    using assms(1) read_found [of s n] read_missing [of s n] by (cases "val s n") auto
next
  case (StoreModify n f)
  then show ?thesis
    using assms modify_found [of s n _ f] modify_missing [of s n f] by (cases "val s n") fastforce+
qed

lemma run_refines:
  "inv s \<Longrightarrow> list_all store_op_ok ts \<Longrightarrow>
     \<exists>s'. store_run read modify ts s = (fst (array_run ts (val s)), s') \<and> inv s' \<and> val s' = snd (array_run ts (val s))"
proof (induction ts arbitrary: s)
  case (Cons t ts)
  obtain s1 where s1: "store_step read modify t s = (fst (array_step t (val s)), s1)" "inv s1" "val s1 = snd (array_step t (val s))"
    using step_refines [of s t] Cons.prems by auto
  with Cons.IH [OF s1(2)] Cons.prems show ?case by (auto simp: case_prod_unfold)
qed simp

end

end
