(* ===== verification/PagerTxn.thy ===== *)
theory PagerTxn
  imports Pager PageStore
begin

text \<open>
  What the pager guarantees. The page cache is invisible: reading, loading and evicting pages never change
  the content that a page number stands for, and a write changes exactly one page (contract \<open>page_store\<close>).
  On it, a rollback restores every page and the free lists as they were when the transaction began. The other
  properties concern the file: the two superblocks, a commit, and what a crash leaves.
\<close>

section \<open>Contents of pages\<close>

definition on_disk :: "pager \<Rightarrow> u32 \<Rightarrow> bytes option" where
  "on_disk pg n = (case pg_file pg of None \<Rightarrow> None | Some f \<Rightarrow> file_page (content f) n)"

definition page_value :: "pager \<Rightarrow> u32 \<Rightarrow> bytes option" where
  "page_value pg n =
     (if n = 0 \<or> total_pages (header pg) < n then None
      else if loaded pg ! page_idx n then Some (pdata (pages pg ! page_idx n))
      else on_disk pg n)"

text \<open>The number of pages that may be on disk only: those from before the running transaction.\<close>

definition base_total :: "pager \<Rightarrow> u32" where
  "base_total pg = (case txn_snapshot pg of None \<Rightarrow> total_pages (header pg) | Some s \<Rightarrow> ts_total_pages s)"

definition saved :: "pager \<Rightarrow> u32 \<Rightarrow> bytes option" where
  "saved pg = (case txn_snapshot pg of None \<Rightarrow> Map.empty | Some s \<Rightarrow> om_get (original_pages s))"

definition in_range :: "pager \<Rightarrow> u32 \<Rightarrow> bool" where
  "in_range pg n \<longleftrightarrow> n \<noteq> 0 \<and> n \<le> total_pages (header pg)"

lemma page_idx_less: "n \<noteq> 0 \<Longrightarrow> n \<le> m \<Longrightarrow> page_idx n < unat m"
  by (simp add: page_idx_def unat_minus_one word_le_nat_alt unat_gt_0) (metis Suc_pred le_neq_implies_less less_imp_diff_less not_less_eq unat_gt_0)

lemma page_idx_inj: "n \<noteq> 0 \<Longrightarrow> m \<noteq> 0 \<Longrightarrow> page_idx n = page_idx m \<longleftrightarrow> n = m"
  by (simp add: page_idx_def flip: word_unat_eq_iff)

text \<open>Pages of one slot, as a record of facts about one page number.\<close>

definition page_ok :: "pager \<Rightarrow> u32 \<Rightarrow> bool" where
  "page_ok pg n \<longleftrightarrow>
     (let p = pages pg ! page_idx n; ld = loaded pg ! page_idx n in
      length (pdata p) = PAGE_SIZE
      \<and> (dirty p \<longrightarrow> ld \<and> n \<in> set (dirty_pages pg))
      \<and> (snapshotted p \<longleftrightarrow> saved pg n \<noteq> None)
      \<and> (txn_snapshot pg \<noteq> None \<longrightarrow> dirty p = snapshotted p)
      \<and> (\<not> ld \<longrightarrow> n \<le> base_total pg \<and> (\<exists>b. on_disk pg n = Some b \<and> length b = PAGE_SIZE))
      \<and> (n \<in> set (lru_queue pg) \<and> ld \<and> \<not> dirty p \<longrightarrow> on_disk pg n = Some (pdata p))
      \<and> (n \<in> set (lru_queue pg) \<longrightarrow> saved pg n \<noteq> None \<longrightarrow> on_disk pg n = saved pg n))"

definition snap_ok :: "pager \<Rightarrow> bool" where
  "snap_ok pg = (case txn_snapshot pg of
       None \<Rightarrow> True
     | Some s \<Rightarrow> om_ok (original_pages s) \<and> ts_total_pages s \<le> total_pages (header pg) \<and> total_pages (ts_header s) = ts_total_pages s
         \<and> list_all (\<lambda>(n, d). in_range pg n \<and> length d = PAGE_SIZE) (original_pages s))"

definition pager_inv :: "pager \<Rightarrow> bool" where
  "pager_inv pg \<longleftrightarrow>
     length (pages pg) = unat (total_pages (header pg)) \<and> length (loaded pg) = unat (total_pages (header pg))
     \<and> pg_wal pg = None \<and> \<not> use_lz4 pg \<and> cow_state pg \<noteq> None \<and> (in_transaction pg \<longleftrightarrow> txn_snapshot pg \<noteq> None)
     \<and> (\<forall>n. in_range pg n \<longrightarrow> page_ok pg n)
     \<and> list_all (\<lambda>n. n \<noteq> 0 \<and> n \<le> base_total pg) (lru_queue pg) \<and> snap_ok pg"

text \<open>The parts of a pager that the cache does not touch.\<close>

definition same_store :: "pager \<Rightarrow> pager \<Rightarrow> bool" where
  "same_store pg pg' \<longleftrightarrow> header pg' = header pg \<and> cow_state pg' = cow_state pg \<and> txn_snapshot pg' = txn_snapshot pg
     \<and> pg_file pg' = pg_file pg \<and> pg_wal pg' = pg_wal pg \<and> use_lz4 pg' = use_lz4 pg \<and> dirty_pages pg' = dirty_pages pg
     \<and> savepoint_stack pg' = savepoint_stack pg \<and> failpoint pg' = failpoint pg \<and> bulk_mode pg' = bulk_mode pg
     \<and> length (pages pg') = length (pages pg) \<and> length (loaded pg') = length (loaded pg)"

lemma same_store_refl [simp]: "same_store pg pg"
  by (simp add: same_store_def)

lemma same_store_trans: "same_store a b \<Longrightarrow> same_store b c \<Longrightarrow> same_store a c"
  by (simp add: same_store_def)

lemma same_store_simps:
  assumes "same_store pg pg'"
  shows "header pg' = header pg" "cow_state pg' = cow_state pg" "txn_snapshot pg' = txn_snapshot pg" "in_range pg' = in_range pg"
    "on_disk pg' = on_disk pg" "base_total pg' = base_total pg" "saved pg' = saved pg" "snap_ok pg' = snap_ok pg"
    "in_transaction pg' = in_transaction pg" "dirty_pages pg' = dirty_pages pg" "pg_file pg' = pg_file pg"
  using assms
  by (simp_all add: same_store_def in_range_def on_disk_def base_total_def saved_def snap_ok_def in_transaction_def fun_eq_iff
      split: option.split)

lemma base_total_le: "pager_inv pg \<Longrightarrow> base_total pg \<le> total_pages (header pg)"
  by (auto simp: pager_inv_def base_total_def snap_ok_def split: option.splits)

lemma pager_inv_idx:
  assumes "pager_inv pg" and "in_range pg n"
  shows "page_idx n < length (pages pg)" "page_idx n < length (loaded pg)"
  using assms by (simp_all add: pager_inv_def in_range_def page_idx_less)

lemma pager_inv_page: "pager_inv pg \<Longrightarrow> in_range pg n \<Longrightarrow> page_ok pg n"
  by (simp add: pager_inv_def)

lemma pager_inv_queue: "pager_inv pg \<Longrightarrow> n \<in> set (lru_queue pg) \<Longrightarrow> in_range pg n \<and> n \<le> base_total pg"
  using base_total_le [of pg] by (auto simp: pager_inv_def in_range_def list_all_iff)

lemma pager_inv_same_store:
  assumes "pager_inv pg" and "same_store pg pg'" and "\<And>n. in_range pg n \<Longrightarrow> page_ok pg' n"
    and "\<And>n. n \<in> set (lru_queue pg') \<Longrightarrow> n \<noteq> 0 \<and> n \<le> base_total pg"
  shows "pager_inv pg'"
  using assms(1,3,4) same_store_simps [OF assms(2)] assms(2)
  by (simp add: pager_inv_def list_all_iff same_store_def)

text \<open>A change of the cache: nothing but slots, flags of use and the queue.\<close>

definition cache_step :: "pager \<Rightarrow> pager \<Rightarrow> bool" where
  "cache_step pg pg' \<longleftrightarrow> same_store pg pg' \<and> pager_inv pg' \<and> page_value pg' = page_value pg"

lemma cache_step_trans: "cache_step a b \<Longrightarrow> cache_step b c \<Longrightarrow> cache_step a c"
  by (auto simp: cache_step_def intro: same_store_trans)

lemma cache_step_refl: "pager_inv pg \<Longrightarrow> cache_step pg pg"
  by (simp add: cache_step_def)

lemma cache_stepI:
  assumes "pager_inv pg" and "same_store pg pg'" and "\<And>n. in_range pg n \<Longrightarrow> page_ok pg' n"
    and "\<And>n. n \<in> set (lru_queue pg') \<Longrightarrow> n \<noteq> 0 \<and> n \<le> base_total pg"
    and "\<And>n. in_range pg n \<Longrightarrow> page_value pg' n = page_value pg n"
  shows "cache_step pg pg'"
proof -
  have "page_value pg' n = page_value pg n" for n
    using assms(5) [of n] same_store_simps(1) [OF assms(2)] by (cases "in_range pg n") (auto simp: in_range_def page_value_def not_le)
  then show ?thesis using pager_inv_same_store [OF assms(1-4)] assms(2) by (auto simp: cache_step_def)
qed

text \<open>Page facts depend on the slot, the queue and the dirty list only.\<close>

lemma page_ok_cong:
  assumes "same_store pg pg'" and "page_ok pg n"
    and "pdata (pages pg' ! page_idx n) = pdata (pages pg ! page_idx n)" "dirty (pages pg' ! page_idx n) = dirty (pages pg ! page_idx n)"
    "snapshotted (pages pg' ! page_idx n) = snapshotted (pages pg ! page_idx n)" "loaded pg' ! page_idx n = loaded pg ! page_idx n"
    and "n \<in> set (lru_queue pg') \<Longrightarrow> n \<in> set (lru_queue pg)"
  shows "page_ok pg' n"
  using assms(2-7) same_store_simps [OF assms(1)] by (auto simp: page_ok_def Let_def)

lemma page_value_cong:
  assumes "same_store pg pg'" and "pdata (pages pg' ! page_idx n) = pdata (pages pg ! page_idx n)"
    and "loaded pg' ! page_idx n = loaded pg ! page_idx n"
  shows "page_value pg' n = page_value pg n"
  using assms(2,3) same_store_simps [OF assms(1)] by (simp add: page_value_def)

lemma nth_upd_page: "page_idx m < length (pages pg) \<Longrightarrow> m \<noteq> 0 \<Longrightarrow> n \<noteq> 0 \<Longrightarrow>
   pages (upd_page (page_idx m) f pg) ! page_idx n = (if n = m then f (pages pg ! page_idx n) else pages pg ! page_idx n)"
  by (auto simp: upd_page_def page_idx_inj nth_list_update)

lemma upd_page_fields [simp]:
  "header (upd_page i f pg) = header pg" "cow_state (upd_page i f pg) = cow_state pg" "txn_snapshot (upd_page i f pg) = txn_snapshot pg"
  "pg_file (upd_page i f pg) = pg_file pg" "pg_wal (upd_page i f pg) = pg_wal pg" "use_lz4 (upd_page i f pg) = use_lz4 pg"
  "dirty_pages (upd_page i f pg) = dirty_pages pg" "savepoint_stack (upd_page i f pg) = savepoint_stack pg"
  "failpoint (upd_page i f pg) = failpoint pg" "bulk_mode (upd_page i f pg) = bulk_mode pg" "loaded (upd_page i f pg) = loaded pg"
  "lru_queue (upd_page i f pg) = lru_queue pg" "length (pages (upd_page i f pg)) = length (pages pg)"
  "max_buffer_pages (upd_page i f pg) = max_buffer_pages pg" "lru_loaded_count (upd_page i f pg) = lru_loaded_count pg"
  by (simp_all add: upd_page_def)

lemma same_store_upd_page [simp]: "same_store pg (upd_page i f pg)"
  by (simp add: same_store_def)

section \<open>Eviction\<close>

lemma requeue_step:
  assumes "pager_inv pg" and "set q \<subseteq> set (lru_queue pg)"
  shows "cache_step pg (pg\<lparr>lru_queue := q\<rparr>)"
proof -
  have same: "same_store pg (pg\<lparr>lru_queue := q\<rparr>)" by (simp add: same_store_def)
  show ?thesis
  proof (rule cache_stepI [OF assms(1) same])
    show "page_ok (pg\<lparr>lru_queue := q\<rparr>) n" if "in_range pg n" for n
      by (rule page_ok_cong [OF same pager_inv_page [OF assms(1) that]]) (use assms(2) in auto)
    show "page_value (pg\<lparr>lru_queue := q\<rparr>) n = page_value pg n" if "in_range pg n" for n
      by (rule page_value_cong [OF same]) simp_all
    show "n \<noteq> 0 \<and> n \<le> base_total pg" if "n \<in> set (lru_queue (pg\<lparr>lru_queue := q\<rparr>))" for n
      using that assms pager_inv_queue [OF assms(1), of n] by (auto simp: in_range_def)
  qed
qed

lemma use_flag_step:
  assumes "pager_inv pg" and "in_range pg m"
  shows "cache_step pg (upd_page (page_idx m) (\<lambda>p. p\<lparr>recently_used := b\<rparr>) pg)"
proof (rule cache_stepI [OF assms(1) same_store_upd_page])
  let ?pg = "upd_page (page_idx m) (\<lambda>p. p\<lparr>recently_used := b\<rparr>) pg"
  have m: "page_idx m < length (pages pg)" "m \<noteq> 0" using pager_inv_idx [OF assms] assms(2) by (simp_all add: in_range_def)
  show "page_ok ?pg n" if "in_range pg n" for n
    by (rule page_ok_cong [OF same_store_upd_page pager_inv_page [OF assms(1) that]])
      (use that m in \<open>simp_all add: nth_upd_page in_range_def\<close>)
  show "page_value ?pg n = page_value pg n" if "in_range pg n" for n
    by (rule page_value_cong [OF same_store_upd_page]) (use that m in \<open>simp_all add: nth_upd_page in_range_def\<close>)
  show "n \<noteq> 0 \<and> n \<le> base_total pg" if "n \<in> set (lru_queue ?pg)" for n
    using pager_inv_queue [OF assms(1), of n] that by (simp add: in_range_def)
qed

lemma evict_step:
  assumes inv: "pager_inv pg" and m: "m \<in> set (lru_queue pg)" and ld: "loaded pg ! page_idx m" "\<not> dirty (pages pg ! page_idx m)"
    and pg': "pg' = (upd_page (page_idx m) (\<lambda>_. page_new) pg)\<lparr>loaded := (loaded pg)[page_idx m := False], lru_loaded_count := k\<rparr>"
  shows "cache_step pg pg'"
proof -
  have mr: "in_range pg m" "m \<le> base_total pg" using pager_inv_queue [OF inv m] by auto
  have mi: "page_idx m < length (pages pg)" "page_idx m < length (loaded pg)" "m \<noteq> 0"
    using pager_inv_idx [OF inv mr(1)] mr(1) by (simp_all add: in_range_def)
  have ok: "page_ok pg m" by (rule pager_inv_page [OF inv mr(1)])
  then have disk: "on_disk pg m = Some (pdata (pages pg ! page_idx m))" "length (pdata (pages pg ! page_idx m)) = PAGE_SIZE"
    and unsaved: "saved pg m = None"
    using m ld by (auto simp: page_ok_def Let_def saved_def split: option.splits)
  have same: "same_store pg pg'" by (simp add: same_store_def pg')
  note S = same_store_simps [OF same]
  have slot: "pages pg' ! page_idx n = (if n = m then page_new else pages pg ! page_idx n)"
      "loaded pg' ! page_idx n = (n \<noteq> m \<and> loaded pg ! page_idx n)" if "n \<noteq> 0" for n
    using nth_upd_page [OF mi(1) mi(3) that] mi that by (auto simp: pg' nth_list_update page_idx_inj)
  show ?thesis
  proof (rule cache_stepI [OF inv same])
    fix n assume n: "in_range pg n"
    then have nz: "n \<noteq> 0" by (simp add: in_range_def)
    show "page_ok pg' n"
    proof (cases "n = m")
      case True
      then show ?thesis using disk unsaved mr(2) nz by (simp add: page_ok_def Let_def slot S page_new_def)
    next
      case False
      then show ?thesis
        by (intro page_ok_cong [OF same pager_inv_page [OF inv n]]) (simp_all add: slot nz, simp add: pg')
    qed
    show "page_value pg' n = page_value pg n"
      using slot [OF nz] disk ld by (auto simp: page_value_def S)
  next
    show "n \<noteq> 0 \<and> n \<le> base_total pg" if "n \<in> set (lru_queue pg')" for n
      using pager_inv_queue [OF inv, of n] that by (simp add: in_range_def pg')
  qed
qed

text \<open>An invariant of the sweep: kept by moving the head of the queue, by clearing a flag of use, and by
  dropping a clean page.\<close>

definition drop_page :: "u32 \<Rightarrow> pager \<Rightarrow> pager" where
  "drop_page m pg = (upd_page (page_idx m) (\<lambda>_. page_new) pg)
     \<lparr>loaded := (loaded pg)[page_idx m := False], lru_loaded_count := lru_loaded_count pg - 1\<rparr>"

lemma evict_loop_rule:
  assumes start: "P pg"
    and requeue: "\<And>pg pn rest q. P pg \<Longrightarrow> lru_queue pg = pn # rest \<Longrightarrow> q = rest \<or> q = rest @ [pn] \<Longrightarrow> P (pg\<lparr>lru_queue := q\<rparr>)"
    and flag: "\<And>pg pn. P pg \<Longrightarrow> pn \<in> set (lru_queue pg) \<Longrightarrow> P (upd_page (page_idx pn) (\<lambda>p. p\<lparr>recently_used := False\<rparr>) pg)"
    and evict: "\<And>pg pn rest. P pg \<Longrightarrow> lru_queue pg = pn # rest \<Longrightarrow> page_idx pn < length (loaded pg) \<Longrightarrow> loaded pg ! page_idx pn
        \<Longrightarrow> \<not> dirty (pages pg ! page_idx pn) \<Longrightarrow> P ((drop_page pn pg)\<lparr>lru_queue := rest\<rparr>)"
  shows "P (evict_loop left queue_len target checked passes pg)"
  using start
proof (induction left queue_len target checked passes pg rule: evict_loop.induct)
  case (1 queue_len target checked passes pg)
  then show ?case by simp
next
  case (2 left queue_len target checked passes pg)
  note IH = 2(1-4) and pg = 2(5)
  show ?case
  proof (cases "lru_loaded_count pg \<le> target \<or> lru_queue pg = []")
    case True
    with pg show ?thesis by (auto split: list.split)
  next
    case False
    then obtain pn rest where q: "lru_queue pg = pn # rest" and big: "\<not> lru_loaded_count pg \<le> target" by (cases "lru_queue pg") auto
    let ?i = "page_idx pn" and ?again = "pg\<lparr>lru_queue := rest @ [pn]\<rparr>"
    have r: "P (pg\<lparr>lru_queue := rest\<rparr>)" "P ?again" using requeue [OF pg q] by simp_all
    note start = big q refl refl refl
    consider (gone) "length (loaded pg) \<le> ?i \<or> \<not> loaded pg ! ?i"
      | (dirty) "\<not> (length (loaded pg) \<le> ?i \<or> \<not> loaded pg ! ?i)" "dirty (pages pg ! ?i)"
      | (used) "\<not> (length (loaded pg) \<le> ?i \<or> \<not> loaded pg ! ?i)" "\<not> dirty (pages pg ! ?i)" "recently_used (pages pg ! ?i)"
      | (out) "\<not> (length (loaded pg) \<le> ?i \<or> \<not> loaded pg ! ?i)" "\<not> dirty (pages pg ! ?i)" "\<not> recently_used (pages pg ! ?i)"
      by blast
    then show ?thesis
    proof cases
      case gone
      then show ?thesis using IH(1) [OF start gone r(1)] big by (simp add: q Let_def)
    next
      case dirty
      then show ?thesis using IH(2) [OF start dirty r(2)] big by (simp add: q Let_def)
    next
      case used
      have "P (upd_page ?i (\<lambda>p. p\<lparr>recently_used := False\<rparr>) ?again)" by (rule flag [OF r(2)]) simp
      then show ?thesis using IH(3) [OF start used refl refl refl] used big by (simp add: q Let_def)
    next
      case out
      have "P ((drop_page pn pg)\<lparr>lru_queue := rest\<rparr>)" by (rule evict [OF pg q]) (use out in auto)
      moreover have "(drop_page pn pg)\<lparr>lru_queue := rest\<rparr> = (upd_page ?i (\<lambda>_. page_new) (pg\<lparr>lru_queue := rest\<rparr>))
          \<lparr>loaded := (loaded pg)[?i := False], lru_loaded_count := lru_loaded_count pg - 1\<rparr>"
        by (simp add: upd_page_def drop_page_def)
      ultimately show ?thesis using IH(4) [OF start out] out big by (simp add: q Let_def)
    qed
  qed
qed

lemma evict_loop_step:
  assumes "pager_inv pg"
  shows "cache_step pg (evict_loop left queue_len target checked passes pg)"
proof (rule evict_loop_rule)
  show "cache_step pg pg" by (rule cache_step_refl [OF assms])
next
  fix s pn rest and q :: "u32 list"
  assume s: "cache_step pg s" "lru_queue s = pn # rest" "q = rest \<or> q = rest @ [pn]"
  then have "cache_step s (s\<lparr>lru_queue := q\<rparr>)" by (intro requeue_step) (auto simp: cache_step_def)
  with s(1) show "cache_step pg (s\<lparr>lru_queue := q\<rparr>)" by (rule cache_step_trans)
next
  fix s pn assume s: "cache_step pg s" "pn \<in> set (lru_queue s)"
  then have "cache_step s (upd_page (page_idx pn) (\<lambda>p. p\<lparr>recently_used := False\<rparr>) s)"
    using pager_inv_queue [of s pn] by (intro use_flag_step) (auto simp: cache_step_def)
  with s(1) show "cache_step pg (upd_page (page_idx pn) (\<lambda>p. p\<lparr>recently_used := False\<rparr>) s)" by (rule cache_step_trans)
next
  fix s pn rest assume s: "cache_step pg s" "lru_queue s = pn # rest" "loaded s ! page_idx pn" "\<not> dirty (pages s ! page_idx pn)"
  have "cache_step s (drop_page pn s)"
    by (rule evict_step [OF _ _ s(3,4) drop_page_def]) (use s in \<open>auto simp: cache_step_def\<close>)
  moreover from this have "cache_step (drop_page pn s) ((drop_page pn s)\<lparr>lru_queue := rest\<rparr>)"
    by (intro requeue_step) (auto simp: cache_step_def drop_page_def s(2))
  ultimately show "cache_step pg ((drop_page pn s)\<lparr>lru_queue := rest\<rparr>)" using s(1) by (blast intro: cache_step_trans)
qed

lemma evict_lru_step: "pager_inv pg \<Longrightarrow> cache_step pg (evict_lru_if_needed pg)"
  by (simp add: evict_lru_if_needed_def cache_step_refl evict_loop_step)

lemma evict_loop_loaded:
  assumes "i < length (loaded pg)" and "\<not> loaded pg ! i"
  shows "i < length (loaded (evict_loop left queue_len target checked passes pg))
    \<and> \<not> loaded (evict_loop left queue_len target checked passes pg) ! i"
  by (rule evict_loop_rule) (use assms in \<open>auto simp: drop_page_def nth_list_update\<close>)

lemma evict_lru_loaded: "i < length (loaded pg) \<Longrightarrow> \<not> loaded pg ! i \<Longrightarrow> \<not> loaded (evict_lru_if_needed pg) ! i"
  using evict_loop_loaded by (auto simp: evict_lru_if_needed_def)

section \<open>Reading and writing pages\<close>

lemma op_bind_Ok: "m s = (Ok a, s') \<Longrightarrow> op_bind m f s = f a s'"
  by (simp add: op_bind_def)

lemmas op_simps = op_bind_def op_return_def op_fail_def op_modify_def op_get_def

lemma load_step:
  assumes inv: "pager_inv pg" and n: "in_range pg n" and ld: "\<not> loaded pg ! page_idx n"
  obtains pg' where "load_from_disk z n pg = (Ok (), pg')" and "cache_step pg pg'" and "loaded pg' ! page_idx n"
proof -
  define e where "e = evict_lru_if_needed pg"
  have e: "cache_step pg e" unfolding e_def by (rule evict_lru_step [OF inv])
  then have inve: "pager_inv e" and same: "same_store pg e" by (simp_all add: cache_step_def)
  have ne: "in_range e n" using n same_store_simps(4) [OF same] by simp
  have lde: "\<not> loaded e ! page_idx n"
    unfolding e_def using pager_inv_idx(2) [OF inv n] ld by (rule evict_lru_loaded)
  note ix = pager_inv_idx [OF inve ne]
  have nz: "n \<noteq> 0" using n by (simp add: in_range_def)
  have ok: "page_ok e n" by (rule pager_inv_page [OF inve ne])
  then obtain b where b: "on_disk e n = Some b" "length b = PAGE_SIZE" "n \<le> base_total e"
      and flags: "\<not> dirty (pages e ! page_idx n)"
    using lde by (auto simp: page_ok_def Let_def)
  from b(1) obtain f where f: "pg_file e = Some f" "file_page (content f) n = Some b"
    by (auto simp: on_disk_def split: option.splits)
  define g where "g = mark_loaded n (upd_page (page_idx n) (\<lambda>p. p\<lparr>pdata := b\<rparr>) e)"
  have load: "load_from_disk z n pg = (Ok (), g)"
    using f inve by (simp add: load_from_disk_def op_simps load_page_from_disk_def pager_inv_def g_def flip: e_def)
  have sg: "same_store e g" by (simp add: g_def mark_loaded_def same_store_def)
  note S = same_store_simps [OF sg]
  have slot: "pages g ! page_idx k = (if k = n then (pages e ! page_idx n)\<lparr>pdata := b\<rparr> else pages e ! page_idx k)"
      "loaded g ! page_idx k = (k = n \<or> loaded e ! page_idx k)" if "k \<noteq> 0" for k
    using nth_upd_page [OF ix(1) nz that] ix nz that by (auto simp: g_def mark_loaded_def nth_list_update page_idx_inj)
  have "cache_step e g"
  proof (rule cache_stepI [OF inve sg])
    fix k assume k: "in_range e k"
    then have kz: "k \<noteq> 0" by (simp add: in_range_def)
    show "page_ok g k"
    proof (cases "k = n")
      case True
      then show ?thesis using ok b flags nz by (auto simp: page_ok_def Let_def slot S saved_def split: option.splits)
    next
      case False
      then show ?thesis
        by (intro page_ok_cong [OF sg pager_inv_page [OF inve k]]) (simp_all add: slot kz, simp add: g_def mark_loaded_def)
    qed
    show "page_value g k = page_value e k"
      using slot [OF kz] b lde by (auto simp: page_value_def S)
  next
    show "k \<noteq> 0 \<and> k \<le> base_total e" if "k \<in> set (lru_queue g)" for k
      using that pager_inv_queue [OF inve, of k] b(3) nz by (auto simp: g_def mark_loaded_def in_range_def)
  qed
  with e load slot [OF nz] show ?thesis by (intro that [of g]) (auto intro: cache_step_trans)
qed

lemma touch_step: "pager_inv pg \<Longrightarrow> in_range pg n \<Longrightarrow> cache_step pg (touch_page n pg)"
  by (simp add: touch_page_def cache_step_refl use_flag_step)

lemma check_page_cases: "pager_inv pg \<Longrightarrow>
   check_page n pg = (if in_range pg n then (Ok (), pg) else (Err (PageOutOfRange n), pg))"
  using pager_inv_idx [of pg n] by (cases "in_range pg n") (auto simp: check_page_def in_range_def not_le not_less)

lemma cache_step_in_range: "cache_step pg pg' \<Longrightarrow> in_range pg' = in_range pg"
  by (simp add: cache_step_def same_store_simps)

lemma ensure_loaded:
  assumes "pager_inv pg" and "in_range pg n"
  obtains pg' where "(if loaded pg ! page_idx n then op_return () else load_from_disk z n) pg = (Ok (), pg')"
    and "cache_step pg pg'" and "loaded pg' ! page_idx n"
proof (cases "loaded pg ! page_idx n")
  case True
  then show ?thesis using assms by (intro that [of pg]) (simp_all add: op_return_def cache_step_refl)
next
  case False
  from load_step [OF assms False, of z] that False show ?thesis by (metis (full_types))
qed

lemma touch_loaded [simp]: "loaded (touch_page n pg) = loaded pg"
  by (simp add: touch_page_def)

lemma get_page_value:
  assumes inv: "pager_inv pg" and n: "in_range pg n"
  obtains pg' d where "get_page z n pg = (Ok d, pg')" and "cache_step pg pg'" and "page_value pg n = Some d"
proof -
  obtain pg1 where l: "(if loaded pg ! page_idx n then op_return () else load_from_disk z n) pg = (Ok (), pg1)"
      "cache_step pg pg1" "loaded pg1 ! page_idx n"
    by (rule ensure_loaded [OF inv n])
  have inv1: "pager_inv pg1" "in_range pg1 n" using l(2) n cache_step_in_range [OF l(2)] by (simp_all add: cache_step_def)
  have t: "cache_step pg (touch_page n pg1)" by (rule cache_step_trans [OF l(2) touch_step [OF inv1]])
  let ?d = "pdata (pages (touch_page n pg1) ! page_idx n)"
  have "get_page z n pg = (Ok ?d, touch_page n pg1)"
    using l(1) inv by (simp add: get_page_def op_simps check_page_cases n pager_inv_def split: if_splits)
  moreover have "page_value (touch_page n pg1) n = Some ?d"
  proof -
    have "header (touch_page n pg1) = header pg" using t by (auto simp: cache_step_def same_store_def)
    then show ?thesis using l(3) n by (auto simp: page_value_def in_range_def not_le)
  qed
  ultimately show ?thesis using t by (intro that) (auto simp: cache_step_def)
qed

lemma get_page_out_of_range: "pager_inv pg \<Longrightarrow> \<not> in_range pg n \<Longrightarrow> get_page z n pg = (Err (PageOutOfRange n), pg)"
  by (simp add: get_page_def op_simps check_page_cases)

text \<open>The state of a page as the running transaction found it.\<close>

definition txn_base :: "pager \<Rightarrow> u32 \<Rightarrow> bytes option" where
  "txn_base pg n = (if n = 0 \<or> base_total pg < n then None
     else case saved pg n of Some d \<Rightarrow> Some d | None \<Rightarrow> page_value pg n)"

definition update_page :: "u32 \<Rightarrow> (bytes \<Rightarrow> bytes) \<Rightarrow> pager \<Rightarrow> pager" where
  "update_page n f pg = upd_page (page_idx n) (\<lambda>p. p\<lparr>pdata := f (pdata p)\<rparr>) (mark_dirty n (snapshot_page n pg))"

lemma update_page_slots:
  assumes "page_idx n < length (pages pg)" and "n \<noteq> 0"
  shows "k \<noteq> 0 \<Longrightarrow> pages (update_page n f pg) ! page_idx k =
      (if k = n then (pages pg ! page_idx n)\<lparr>pdata := f (pdata (pages pg ! page_idx n)), dirty := True,
          snapshotted := snapshotted (pages pg ! page_idx n) \<or> txn_snapshot pg \<noteq> None\<rparr>
       else pages pg ! page_idx k)"
    "length (pages (update_page n f pg)) = length (pages pg)"
    "set (dirty_pages (update_page n f pg)) = (if dirty (pages pg ! page_idx n) then set (dirty_pages pg) else insert n (set (dirty_pages pg)))"
  using assms
  by (auto simp: update_page_def mark_dirty_def snapshot_page_def upd_page_def Let_def nth_list_update page_idx_inj split: option.split)

lemma update_page_fields [simp]:
  "header (update_page n f pg) = header pg" "cow_state (update_page n f pg) = cow_state pg" "loaded (update_page n f pg) = loaded pg"
  "lru_queue (update_page n f pg) = lru_queue pg" "pg_file (update_page n f pg) = pg_file pg" "pg_wal (update_page n f pg) = pg_wal pg"
  "use_lz4 (update_page n f pg) = use_lz4 pg" "savepoint_stack (update_page n f pg) = savepoint_stack pg"
  "failpoint (update_page n f pg) = failpoint pg" "bulk_mode (update_page n f pg) = bulk_mode pg"
  "on_disk (update_page n f pg) = on_disk pg" "in_range (update_page n f pg) = in_range pg"
  "in_transaction (update_page n f pg) = in_transaction pg"
  by (simp_all add: update_page_def mark_dirty_def snapshot_page_def Let_def on_disk_def in_range_def in_transaction_def fun_eq_iff
      split: option.split)

lemma update_page_snapshot:
  "txn_snapshot (update_page n f pg) =
     (if snapshotted (pages pg ! page_idx n) then txn_snapshot pg
      else map_option (\<lambda>s. s\<lparr>original_pages := om_insert n (pdata (pages pg ! page_idx n)) (original_pages s)\<rparr>) (txn_snapshot pg))"
  by (auto simp: update_page_def mark_dirty_def snapshot_page_def Let_def split: option.split)

lemma update_page_saved:
  "base_total (update_page n f pg) = base_total pg"
  "saved (update_page n f pg) =
     (if snapshotted (pages pg ! page_idx n) \<or> txn_snapshot pg = None then saved pg
      else (saved pg)(n \<mapsto> pdata (pages pg ! page_idx n)))"
  by (auto simp: base_total_def saved_def update_page_snapshot split: option.split)

lemma snap_list: "om_ok m \<Longrightarrow> list_all (\<lambda>(n, d). Q n d) m \<longleftrightarrow> (\<forall>n d. om_get m n = Some d \<longrightarrow> Q n d)"
  by (auto simp: list_all_iff om_get_set)

lemma saved_in_range: "pager_inv pg \<Longrightarrow> saved pg n = Some d \<Longrightarrow> in_range pg n \<and> length d = PAGE_SIZE"
  by (auto simp: pager_inv_def snap_ok_def snap_list saved_def split: option.splits)

lemma snap_ok_update:
  assumes "snap_ok pg" and "in_range pg n" and "length (pdata (pages pg ! page_idx n)) = PAGE_SIZE"
  shows "snap_ok (update_page n f pg)"
  using assms by (auto simp: snap_ok_def update_page_snapshot snap_list split: option.splits if_splits)

lemma page_ok_simp:
  assumes "pager_inv pg" and "in_range pg n"
  shows "length (pdata (pages pg ! page_idx n)) = PAGE_SIZE"
    "snapshotted (pages pg ! page_idx n) \<longleftrightarrow> saved pg n \<noteq> None"
    "txn_snapshot pg \<noteq> None \<Longrightarrow> dirty (pages pg ! page_idx n) \<longleftrightarrow> saved pg n \<noteq> None"
    "dirty (pages pg ! page_idx n) \<Longrightarrow> loaded pg ! page_idx n \<and> n \<in> set (dirty_pages pg)"
    "n \<in> set (lru_queue pg) \<Longrightarrow> loaded pg ! page_idx n \<Longrightarrow> \<not> dirty (pages pg ! page_idx n) \<Longrightarrow> on_disk pg n = Some (pdata (pages pg ! page_idx n))"
    "n \<in> set (lru_queue pg) \<Longrightarrow> saved pg n \<noteq> None \<Longrightarrow> on_disk pg n = saved pg n"
    "\<not> loaded pg ! page_idx n \<Longrightarrow> n \<le> base_total pg \<and> (\<exists>b. on_disk pg n = Some b \<and> length b = PAGE_SIZE)"
  using pager_inv_page [OF assms] by (auto simp: page_ok_def Let_def)

lemma update_page_inv:
  assumes inv: "pager_inv pg" and n: "in_range pg n" and ld: "loaded pg ! page_idx n"
    and len: "length (f (pdata (pages pg ! page_idx n))) = PAGE_SIZE"
  shows "pager_inv (update_page n f pg)"
proof -
  let ?u = "update_page n f pg"
  note ok = page_ok_simp [OF inv n]
  have ix: "page_idx n < length (pages pg)" "n \<noteq> 0" using pager_inv_idx [OF inv n] n by (simp_all add: in_range_def)
  note slots = update_page_slots [OF ix]
  have "page_ok ?u k" if k: "in_range pg k" for k
  proof (cases "k = n")
    case True
    have ok': "n \<in> set (lru_queue pg) \<Longrightarrow> txn_snapshot pg \<noteq> None \<Longrightarrow> saved pg n = None \<Longrightarrow> on_disk pg n = Some (pdata (pages pg ! page_idx n))"
      using ok(3,5) ld by auto
    have "n \<in> set (dirty_pages ?u)" using ok(4) by (simp add: slots(3))
    moreover have "saved pg n \<noteq> None \<Longrightarrow> txn_snapshot pg \<noteq> None" by (auto simp: saved_def split: option.splits)
    ultimately show ?thesis
      using ld len True ok(2) ok(6) ok' ix by (auto simp: page_ok_def Let_def slots(1) update_page_saved update_page_snapshot)
  next
    case False
    from k have kz: "k \<noteq> 0" by (simp add: in_range_def)
    have "set (dirty_pages pg) \<subseteq> set (dirty_pages ?u)" by (auto simp: slots(3))
    moreover have "saved ?u k = saved pg k" using False by (simp add: update_page_saved)
    moreover have "txn_snapshot ?u = None \<longleftrightarrow> txn_snapshot pg = None" by (simp add: update_page_snapshot)
    ultimately show ?thesis
      using pager_inv_page [OF inv k] False kz by (auto simp: page_ok_def Let_def slots(1) update_page_saved(1))
  qed
  moreover have "snap_ok ?u" using inv ok(1) by (intro snap_ok_update [OF _ n]) (simp_all add: pager_inv_def)
  moreover have "txn_snapshot ?u = None \<longleftrightarrow> txn_snapshot pg = None" by (simp add: update_page_snapshot)
  ultimately show ?thesis using inv by (simp add: pager_inv_def slots(2) update_page_saved(1))
qed

lemma update_page_value:
  assumes inv: "pager_inv pg" and n: "in_range pg n" and ld: "loaded pg ! page_idx n"
  shows "page_value (update_page n f pg) = (page_value pg)(n := map_option f (page_value pg n))"
    and "txn_snapshot pg \<noteq> None \<Longrightarrow> txn_base (update_page n f pg) = txn_base pg"
proof -
  let ?u = "update_page n f pg"
  have ix: "page_idx n < length (pages pg)" "n \<noteq> 0" using pager_inv_idx [OF inv n] n by (simp_all add: in_range_def)
  have nr: "\<not> total_pages (header pg) < n" using n by (simp add: in_range_def not_less)
  show val: "page_value ?u = (page_value pg)(n := map_option f (page_value pg n))"
  proof
    fix k show "page_value ?u k = ((page_value pg)(n := map_option f (page_value pg n))) k"
      using ld nr ix by (cases "k = 0") (auto simp: page_value_def update_page_slots(1) [OF ix])
  qed
  assume t: "txn_snapshot pg \<noteq> None"
  show "txn_base ?u = txn_base pg"
  proof
    fix k show "txn_base ?u k = txn_base pg k"
    proof (cases "k = n")
      case True
      then show ?thesis
        using t page_ok_simp(2) [OF inv n] ld nr ix
        by (auto simp: txn_base_def update_page_saved page_value_def split: option.split)
    next
      case False
      then show ?thesis by (simp add: txn_base_def update_page_saved val split: option.split)
    qed
  qed
qed

text \<open>What a step inside a transaction keeps: the pages that a rollback goes back to, and the rest of the snapshot.\<close>

definition same_txn :: "pager \<Rightarrow> pager \<Rightarrow> bool" where
  "same_txn pg pg' \<longleftrightarrow> pager_inv pg' \<and> in_transaction pg' = in_transaction pg \<and> pg_file pg' = pg_file pg
     \<and> (case (txn_snapshot pg, txn_snapshot pg') of
          (None, None) \<Rightarrow> True
        | (Some s, Some s') \<Rightarrow> ts_header s' = ts_header s \<and> ts_superblock s' = ts_superblock s \<and> ts_slot s' = ts_slot s
            \<and> ts_total_pages s' = ts_total_pages s \<and> txn_base pg' = txn_base pg
        | _ \<Rightarrow> False)"

lemma same_txn_refl: "pager_inv pg \<Longrightarrow> same_txn pg pg"
  by (simp add: same_txn_def split: option.split)

lemma same_txn_trans: "same_txn a b \<Longrightarrow> same_txn b c \<Longrightarrow> same_txn a c"
  by (auto simp: same_txn_def split: option.splits)

lemma cache_step_same_txn: "cache_step pg pg' \<Longrightarrow> same_txn pg pg'"
  by (auto simp: cache_step_def same_txn_def same_store_simps txn_base_def fun_eq_iff split: option.split)

lemma update_page_same_txn:
  assumes "pager_inv pg" and "in_range pg n" and "loaded pg ! page_idx n" and "length (f (pdata (pages pg ! page_idx n))) = PAGE_SIZE"
  shows "same_txn pg (update_page n f pg)"
  using update_page_inv [OF assms(1-3), of f] assms(4) update_page_value(2) [OF assms(1-3)]
  by (auto simp: same_txn_def update_page_snapshot split: option.split)

lemma modify_page_step:
  assumes inv: "pager_inv pg" and n: "in_range pg n" and len: "\<And>d. length d = PAGE_SIZE \<Longrightarrow> length (f d) = PAGE_SIZE"
  obtains pg' where "modify_page z n f pg = (Ok (), pg')" and "same_txn pg pg'" and "header pg' = header pg" and "cow_state pg' = cow_state pg"
    and "page_value pg' = (page_value pg)(n := map_option f (page_value pg n))"
proof -
  obtain pg1 where l: "(if loaded pg ! page_idx n then op_return () else load_from_disk z n) pg = (Ok (), pg1)"
      "cache_step pg pg1" "loaded pg1 ! page_idx n"
    by (rule ensure_loaded [OF inv n])
  have inv1: "pager_inv pg1" "in_range pg1 n" using l(2) n cache_step_in_range [OF l(2)] by (simp_all add: cache_step_def)
  let ?t = "touch_page n pg1"
  have t: "cache_step pg ?t" by (rule cache_step_trans [OF l(2) touch_step [OF inv1]])
  then have T: "pager_inv ?t" "in_range ?t n" "loaded ?t ! page_idx n"
    using l(3) n cache_step_in_range [OF t] by (simp_all add: cache_step_def)
  have "modify_page z n f pg = (Ok (), update_page n f ?t)"
    using l(1) inv
    by (simp add: modify_page_def get_page_mut_def write_page_data_def op_simps check_page_cases n update_page_def split: if_splits)
  moreover have "same_txn ?t (update_page n f ?t)"
    by (rule update_page_same_txn [OF T]) (rule len [OF page_ok_simp(1) [OF T(1,2)]])
  ultimately show ?thesis
    using t update_page_value(1) [OF T, of f] same_txn_trans [OF cache_step_same_txn [OF t]]
    by (intro that [of "update_page n f ?t"]) (simp_all add: cache_step_def same_store_def)
qed

lemma modify_page_out_of_range: "pager_inv pg \<Longrightarrow> \<not> in_range pg n \<Longrightarrow> modify_page z n f pg = (Err (PageOutOfRange n), pg)"
  by (simp add: modify_page_def get_page_mut_def op_simps check_page_cases)

section \<open>Allocation keeps the invariant\<close>

text \<open>Changes of the copy-on-write state that neither begin nor end a transaction.\<close>

lemma upd_cow_fields [simp]:
  "header (upd_cow g pg) = header pg" "txn_snapshot (upd_cow g pg) = txn_snapshot pg" "pages (upd_cow g pg) = pages pg"
  "loaded (upd_cow g pg) = loaded pg" "lru_queue (upd_cow g pg) = lru_queue pg" "pg_file (upd_cow g pg) = pg_file pg"
  "pg_wal (upd_cow g pg) = pg_wal pg" "use_lz4 (upd_cow g pg) = use_lz4 pg" "dirty_pages (upd_cow g pg) = dirty_pages pg"
  "on_disk (upd_cow g pg) = on_disk pg" "page_value (upd_cow g pg) = page_value pg" "saved (upd_cow g pg) = saved pg"
  "base_total (upd_cow g pg) = base_total pg" "in_range (upd_cow g pg) = in_range pg" "txn_base (upd_cow g pg) = txn_base pg"
  "page_ok (upd_cow g pg) = page_ok pg" "snap_ok (upd_cow g pg) = snap_ok pg"
  by (simp_all add: upd_cow_def on_disk_def page_value_def saved_def base_total_def in_range_def txn_base_def page_ok_def Let_def
      snap_ok_def fun_eq_iff split: option.split)

lemma upd_cow_same_txn:
  assumes "pager_inv pg" and "\<And>s. cow_state pg = Some s \<Longrightarrow> active_tx (g s) = None \<longleftrightarrow> active_tx s = None"
  shows "same_txn pg (upd_cow g pg)"
proof -
  have "in_transaction (upd_cow g pg) = in_transaction pg"
    using assms(2) by (auto simp: in_transaction_def upd_cow_def split: option.split)
  moreover have "cow_state (upd_cow g pg) \<noteq> None" using assms(1) by (simp add: upd_cow_def pager_inv_def)
  ultimately show ?thesis using assms(1) by (simp add: same_txn_def pager_inv_def split: option.split)
qed

lemma upd_superblock_same_txn: "pager_inv pg \<Longrightarrow> same_txn pg (upd_superblock g pg)"
  unfolding upd_superblock_def by (rule upd_cow_same_txn) simp_all

lemma extend_same_txn:
  assumes inv: "pager_inv pg" and room: "total_pages (header pg) < MAX_PAGES"
  shows "same_txn pg (snd (extend_pages pg))"
proof -
  let ?t = "total_pages (header pg)" and ?u = "snd (extend_pages pg)"
  have t1: "unat (?t + 1) = Suc (unat ?t)"
    using room by (simp add: unat_word_ariths(1) MAX_PAGES_def word_less_nat_alt)
  have lens: "length (pages pg) = unat ?t" "length (loaded pg) = unat ?t" using inv by (simp_all add: pager_inv_def)
  have fields: "txn_snapshot ?u = txn_snapshot pg" "saved ?u = saved pg" "on_disk ?u = on_disk pg" "lru_queue ?u = lru_queue pg"
      "dirty_pages ?u = dirty_pages pg" "pg_file ?u = pg_file pg" "in_transaction ?u = in_transaction pg" "total_pages (header ?u) = ?t + 1"
      "pages ?u = pages pg @ [page_new]" "loaded ?u = loaded pg @ [True]" "pg_wal ?u = pg_wal pg" "use_lz4 ?u = use_lz4 pg"
      "cow_state ?u = cow_state pg"
    by (simp_all add: extend_pages_def Let_def saved_def on_disk_def in_transaction_def fun_eq_iff)
  have range: "in_range ?u n \<longleftrightarrow> in_range pg n \<or> n = ?t + 1" for n
    using t1 by (auto simp: in_range_def fields word_le_nat_alt le_Suc_eq unat_eq_zero word_unat_eq_iff [of n "?t + 1"])
  have fresh: "\<not> in_range pg (?t + 1)" "page_idx (?t + 1) = unat ?t" using t1 by (simp_all add: in_range_def page_idx_def word_le_nat_alt)
  have old: "page_idx n < unat ?t" if "in_range pg n" for n using that page_idx_less by (simp add: in_range_def)
  have base: "base_total pg \<le> base_total ?u" "txn_snapshot pg \<noteq> None \<Longrightarrow> base_total ?u = base_total pg"
    using t1 by (auto simp: base_total_def fields word_le_nat_alt split: option.split)
  have "page_ok ?u n" if "in_range ?u n" for n
  proof (cases "n = ?t + 1")
    case True
    have "saved pg n = None"
      using saved_in_range [OF inv, of n] fresh(1) True by (cases "saved pg n") auto
    moreover have "n \<notin> set (lru_queue pg)" using pager_inv_queue [OF inv, of n] fresh(1) True by auto
    ultimately show ?thesis
      using True fresh lens by (simp add: page_ok_def Let_def fields nth_append page_new_def)
  next
    case False
    with that range have n: "in_range pg n" by simp
    show ?thesis using pager_inv_page [OF inv n] old [OF n] base(1) lens
      by (auto simp: page_ok_def Let_def fields nth_append)
  qed
  moreover have "snap_ok ?u" using inv range t1
    by (auto simp: pager_inv_def snap_ok_def fields snap_list word_le_nat_alt split: option.splits)
  moreover have "list_all (\<lambda>n. n \<noteq> 0 \<and> n \<le> base_total ?u) (lru_queue ?u)"
    using inv base(1) by (auto simp: pager_inv_def fields list_all_iff)
  ultimately have inv': "pager_inv ?u" using inv t1 by (simp add: pager_inv_def fields)
  have "txn_base ?u = txn_base pg" if "txn_snapshot pg \<noteq> None"
  proof
    fix n show "txn_base ?u n = txn_base pg n"
      using base_total_le [OF inv] old [of n] lens range [of n] base(2) [OF that]
      by (auto simp: txn_base_def fields page_value_def in_range_def nth_append not_le not_less split: option.split)
  qed
  with inv' show ?thesis by (auto simp: same_txn_def fields split: option.split)
qed

text \<open>An operation that, whatever its outcome, keeps the invariant and what a rollback goes back to.\<close>

definition op_safe :: "pager \<Rightarrow> (pager, 'a) op \<Rightarrow> bool" where
  "op_safe pg m = (case m pg of (r, pg') \<Rightarrow> same_txn pg pg' \<and> r \<noteq> Panic)"

named_theorems safe_intros \<open>operations that keep the invariant inside a transaction\<close>

lemma op_safe_return [safe_intros]: "pager_inv pg \<Longrightarrow> op_safe pg (op_return a)"
  by (simp add: op_safe_def op_return_def same_txn_refl)

lemma op_safe_fail [safe_intros]: "pager_inv pg \<Longrightarrow> op_safe pg (op_fail e)"
  by (simp add: op_safe_def op_fail_def same_txn_refl)

lemma op_safe_get [safe_intros]: "op_safe pg (f pg) \<Longrightarrow> op_safe pg (op_get f)"
  by (simp add: op_safe_def op_get_def)

lemma op_safe_modify [safe_intros]: "same_txn pg (f pg) \<Longrightarrow> op_safe pg (op_modify f)"
  by (simp add: op_safe_def op_modify_def)

lemma op_safe_bind [safe_intros]:
  assumes "op_safe pg m" and "\<And>a pg'. m pg = (Ok a, pg') \<Longrightarrow> pager_inv pg' \<Longrightarrow> op_safe pg' (f a)"
  shows "op_safe pg (op_bind m f)"
proof -
  obtain r pg' where m: "m pg = (r, pg')" by (cases "m pg")
  with assms(1) have s: "same_txn pg pg'" "r \<noteq> Panic" by (simp_all add: op_safe_def)
  then have inv': "pager_inv pg'" by (simp add: same_txn_def)
  show ?thesis
  proof (cases r)
    case (Ok a)
    with m assms(2) inv' have "op_safe pg' (f a)" by simp
    with Ok m s show ?thesis by (auto simp: op_safe_def op_bind_def intro: same_txn_trans)
  qed (use m s in \<open>simp_all add: op_safe_def op_bind_def\<close>)
qed

lemma get_page_safe [safe_intros]:
  assumes "pager_inv pg"
  shows "op_safe pg (get_page z n)"
proof (cases "in_range pg n")
  case True
  then show ?thesis by (rule get_page_value [OF assms, of n z]) (simp add: op_safe_def cache_step_same_txn)
qed (simp add: assms op_safe_def get_page_out_of_range same_txn_refl)

lemma modify_page_safe [safe_intros]:
  assumes "pager_inv pg" and "keeps_size f"
  shows "op_safe pg (modify_page z n f)"
proof (cases "in_range pg n")
  case True
  show ?thesis
    by (rule modify_page_step [OF assms(1) True, of f z]) (use assms(2) in \<open>simp_all add: op_safe_def keeps_size_def\<close>)
qed (simp add: assms op_safe_def modify_page_out_of_range same_txn_refl)

lemma keeps_size_zero [simp]: "keeps_size zero_page"
  and keeps_size_next [simp]: "keeps_size (set_next_pointer p)"
  and keeps_size_clear [simp]: "keeps_size (\<lambda>d. set_next_pointer p (zero_page d))"
  by (simp_all add: keeps_size_def zero_page_def set_next_pointer_def PAGE_SIZE_def)

lemma free_candidate_safe: "pager_inv pg \<Longrightarrow> op_safe pg free_candidate"
  and free_candidate_header: "free_candidate pg = (Ok c, pg') \<Longrightarrow> header pg' = header pg"
  by (auto simp: op_safe_def free_candidate_def Let_def same_txn_refl upd_superblock_same_txn split: option.splits if_splits)
    (simp add: upd_superblock_def)

lemma extend_safe: "pager_inv pg \<Longrightarrow> total_pages (header pg) < MAX_PAGES \<Longrightarrow> op_safe pg extend_pages"
  using extend_same_txn [of pg] by (simp add: op_safe_def extend_pages_def Let_def)

lemma allocate_page_safe [safe_intros]: "pager_inv pg \<Longrightarrow> op_safe pg (allocate_page z)"
  unfolding allocate_page_def
  by (auto intro!: safe_intros free_candidate_safe extend_safe upd_superblock_same_txn simp: not_le free_candidate_header
      split: option.split)

lemma link_freed_safe: "pager_inv pg \<Longrightarrow> op_safe pg (link_freed n)"
  by (auto simp: op_safe_def link_freed_def same_txn_refl intro!: upd_cow_same_txn upd_superblock_same_txn split: option.split)

lemma free_page_safe [safe_intros]: "pager_inv pg \<Longrightarrow> op_safe pg (free_page z n)"
  unfolding free_page_def by (auto intro!: safe_intros link_freed_safe split: option.split)

lemma set_schema_root_safe [safe_intros]: "pager_inv pg \<Longrightarrow> op_safe pg (set_schema_root_page n)"
  unfolding set_schema_root_page_def by (auto intro!: safe_intros upd_superblock_same_txn split: option.split)

section \<open>Rollback\<close>

lemma restore_pages_slots:
  assumes "om_ok m" and "\<And>n d. (n, d) \<in> set m \<Longrightarrow> n \<noteq> 0 \<and> page_idx n < length ps"
  shows "\<exists>ps'. restore_pages m ps = Some ps' \<and> length ps' = length ps \<and>
    (\<forall>k. k \<noteq> 0 \<longrightarrow> page_idx k < length ps \<longrightarrow> ps' ! page_idx k =
       (case om_get m k of Some d \<Rightarrow> (ps ! page_idx k)\<lparr>pdata := d, dirty := False, snapshotted := False\<rparr> | None \<Rightarrow> ps ! page_idx k))"
  using assms
proof (induction m arbitrary: ps)
  case (Cons e m)
  obtain n d where e: "e = (n, d)" by (cases e)
  let ?p = "(ps ! page_idx n)\<lparr>pdata := d, dirty := False, snapshotted := False\<rparr>"
  have n: "n \<noteq> 0" "page_idx n < length ps" using Cons.prems(2) e by auto
  have ok: "om_ok m" "om_get m n = None"
    using Cons.prems(1) by (auto simp: om_ok_def e om_get_def map_of_eq_None_iff)
  obtain ps' where ps': "restore_pages m (ps[page_idx n := ?p]) = Some ps'" "length ps' = length ps"
      "\<And>k. k \<noteq> 0 \<Longrightarrow> page_idx k < length ps \<Longrightarrow> ps' ! page_idx k =
         (case om_get m k of Some d \<Rightarrow> (ps[page_idx n := ?p] ! page_idx k)\<lparr>pdata := d, dirty := False, snapshotted := False\<rparr>
          | None \<Rightarrow> ps[page_idx n := ?p] ! page_idx k)"
    using Cons.IH [OF ok(1), of "ps[page_idx n := ?p]"] Cons.prems(2) e by auto
  have "ps' ! page_idx k =
      (case om_get (e # m) k of Some d \<Rightarrow> (ps ! page_idx k)\<lparr>pdata := d, dirty := False, snapshotted := False\<rparr> | None \<Rightarrow> ps ! page_idx k)"
    if k: "k \<noteq> 0" "page_idx k < length ps" for k
    using ps'(3) [OF k] ok(2) n k by (auto simp: e om_get_def nth_list_update page_idx_inj split: option.split)
  with ps' n show ?case by (auto simp: e)
qed simp

lemma rollback_step:
  assumes inv: "pager_inv pg" and snap: "txn_snapshot pg = Some s"
  obtains pg' where "rollback_transaction pg = (Ok (), pg')" and "pager_inv pg'" and "page_value pg' = txn_base pg"
    and "header pg' = ts_header s" and "txn_snapshot pg' = None" and "pg_file pg' = pg_file pg" and "dirty_pages pg' = []"
    and "cow_state pg' = map_option (\<lambda>c. c\<lparr>active_superblock := ts_superblock s, active_slot := ts_slot s, active_tx := None\<rparr>) (cow_state pg)"
proof -
  let ?g = "\<lambda>c. c\<lparr>active_superblock := ts_superblock s, active_slot := ts_slot s, active_tx := None\<rparr>" and ?b = "ts_total_pages s"
  have sv: "saved pg = om_get (original_pages s)" and bt: "base_total pg = ?b" by (simp_all add: saved_def base_total_def snap)
  have S: "om_ok (original_pages s)" "?b \<le> total_pages (header pg)" "total_pages (ts_header s) = ?b"
      and keys: "\<And>n d. (n, d) \<in> set (original_pages s) \<Longrightarrow> in_range pg n"
    using inv by (auto simp: pager_inv_def snap_ok_def snap list_all_iff)
  obtain ps where ps: "restore_pages (original_pages s) (pages pg) = Some ps" "length ps = length (pages pg)"
      "\<And>k. k \<noteq> 0 \<Longrightarrow> page_idx k < length (pages pg) \<Longrightarrow> ps ! page_idx k =
         (case saved pg k of Some d \<Rightarrow> (pages pg ! page_idx k)\<lparr>pdata := d, dirty := False, snapshotted := False\<rparr> | None \<Rightarrow> pages pg ! page_idx k)"
    using restore_pages_slots [OF S(1), of "pages pg"] keys pager_inv_idx(1) [OF inv] by (auto simp: sv in_range_def)
  define u where "u = truncate_pages ?b (upd_cow ?g (pg\<lparr>savepoint_stack := [], pg_wal := map_option wal_rollback (pg_wal pg),
     txn_snapshot := None, header := ts_header s\<rparr>)\<lparr>pages := ps, dirty_pages := []\<rparr>)"
  have run: "rollback_transaction pg = (Ok (), u)"
    using ps(1) by (simp add: rollback_transaction_def Let_def snap u_def)
  have F: "header u = ts_header s" "txn_snapshot u = None" "pg_file u = pg_file pg" "cow_state u = map_option ?g (cow_state pg)"
      "pages u = take (unat ?b) ps" "loaded u = take (unat ?b) (loaded pg)" "lru_queue u = lru_queue pg" "use_lz4 u = use_lz4 pg"
      "pg_wal u = map_option wal_rollback (pg_wal pg)" "dirty_pages u = []" "on_disk u = on_disk pg" "saved u = Map.empty" "base_total u = ?b"
    by (simp_all add: u_def truncate_pages_def upd_cow_def on_disk_def saved_def base_total_def fun_eq_iff S(3))
  have len: "unat ?b \<le> length (pages pg)" "unat ?b \<le> length (loaded pg)"
    using inv S(2) by (simp_all add: pager_inv_def word_le_nat_alt)
  have range: "in_range u k \<longleftrightarrow> k \<noteq> 0 \<and> k \<le> ?b" for k by (simp add: in_range_def F S(3))
  have slot: "pages u ! page_idx k = (case saved pg k of
         Some d \<Rightarrow> (pages pg ! page_idx k)\<lparr>pdata := d, dirty := False, snapshotted := False\<rparr> | None \<Rightarrow> pages pg ! page_idx k)"
      "loaded u ! page_idx k = loaded pg ! page_idx k" "in_range pg k" if "in_range u k" for k
  proof -
    have k: "k \<noteq> 0" "k \<le> ?b" using that by (simp_all add: range)
    from k S(2) show "in_range pg k" by (simp add: in_range_def)
    show "pages u ! page_idx k = (case saved pg k of
         Some d \<Rightarrow> (pages pg ! page_idx k)\<lparr>pdata := d, dirty := False, snapshotted := False\<rparr> | None \<Rightarrow> pages pg ! page_idx k)"
        "loaded u ! page_idx k = loaded pg ! page_idx k"
      using ps(3) [OF k(1)] page_idx_less [OF k] len by (simp_all add: F)
  qed
  have "page_ok u k" if k: "in_range u k" for k
    using slot [OF k] page_ok_simp [OF inv slot(3) [OF k]] k saved_in_range [OF inv, of k]
    by (auto simp: page_ok_def Let_def F range snap bt split: option.splits)
  moreover have "list_all (\<lambda>n. n \<noteq> 0 \<and> n \<le> ?b) (lru_queue pg)" using inv by (simp add: pager_inv_def bt)
  ultimately have "pager_inv u"
    using inv ps(2) len by (auto simp: pager_inv_def F S(3) snap_ok_def in_transaction_def split: option.splits)
  moreover have "page_value u = txn_base pg"
  proof
    fix k show "page_value u k = txn_base pg k"
    proof (cases "in_range u k")
      case True
      then show ?thesis
        using slot [OF True] page_ok_simp [OF inv slot(3) [OF True]] snap S(2)
        by (auto simp: page_value_def txn_base_def F S(3) bt range split: option.splits)
    next
      case False
      then show ?thesis by (auto simp: page_value_def txn_base_def F S(3) bt range not_le)
    qed
  qed
  ultimately show ?thesis using run F by (intro that [of u]) simp_all
qed

section \<open>Whole transactions\<close>

text \<open>What the storage engine does with the pager inside a transaction. A statement may fail and the
  transaction goes on.\<close>

datatype txn_op =
    TxRead u32
  | TxModify u32 "bytes \<Rightarrow> bytes"
  | TxAllocate
  | TxFree u32
  | TxSchemaRoot u32
  | TxSavepoint string
  | TxRelease string

fun txn_step :: "lz4 \<Rightarrow> txn_op \<Rightarrow> pager \<Rightarrow> pager" where
  "txn_step z (TxRead n) pg = snd (get_page z n pg)"
| "txn_step z (TxModify n f) pg = snd (modify_page z n f pg)"
| "txn_step z TxAllocate pg = snd (allocate_page z pg)"
| "txn_step z (TxFree n) pg = snd (free_page z n pg)"
| "txn_step z (TxSchemaRoot n) pg = snd (set_schema_root_page n pg)"
| "txn_step z (TxSavepoint name) pg = snd (savepoint name pg)"
| "txn_step z (TxRelease name) pg = snd (release_savepoint name pg)"

fun txn_op_ok :: "txn_op \<Rightarrow> bool" where
  "txn_op_ok (TxModify n f) = keeps_size f"
| "txn_op_ok _ = True"

definition clean :: "pager \<Rightarrow> bool" where
  "clean pg = list_all (\<lambda>p. \<not> dirty p) (pages pg)"

lemma stack_same_txn: "pager_inv pg \<Longrightarrow> same_txn pg (pg\<lparr>savepoint_stack := st\<rparr>)"
proof -
  assume inv: "pager_inv pg"
  let ?u = "pg\<lparr>savepoint_stack := st\<rparr>"
  have same: "on_disk ?u = on_disk pg" "saved ?u = saved pg" "base_total ?u = base_total pg" "in_range ?u = in_range pg"
      "in_transaction ?u = in_transaction pg" "page_value ?u = page_value pg" "snap_ok ?u = snap_ok pg"
    by (simp_all add: on_disk_def saved_def base_total_def in_range_def in_transaction_def page_value_def snap_ok_def fun_eq_iff
        split: option.split)
  then have "page_ok ?u = page_ok pg" "txn_base ?u = txn_base pg" by (simp_all add: page_ok_def txn_base_def Let_def fun_eq_iff split: option.split)
  with inv same show ?thesis by (simp add: same_txn_def pager_inv_def split: option.split)
qed

lemma txn_step_same_txn:
  assumes inv: "pager_inv pg" and tx: "in_transaction pg" and ok: "txn_op_ok t"
  shows "same_txn pg (txn_step z t pg)"
proof -
  have safe: "op_safe pg m \<Longrightarrow> same_txn pg (snd (m pg))" for m :: "(pager, 'a) op"
    by (simp add: op_safe_def split: prod.splits)
  have "op_safe pg (savepoint name)" "op_safe pg (release_savepoint name)" for name
    unfolding savepoint_def release_savepoint_def
    by (auto intro!: safe_intros stack_same_txn inv simp: tx Let_def split: option.split)
      (simp add: op_safe_def inv same_txn_refl stack_same_txn split: option.split)
  then show ?thesis using ok inv by (cases t) (auto intro!: safe safe_intros)
qed

lemma run_txn_same_txn:
  "pager_inv pg \<Longrightarrow> in_transaction pg \<Longrightarrow> list_all txn_op_ok ts \<Longrightarrow> same_txn pg (fold (txn_step z) ts pg)"
proof (induction ts arbitrary: pg)
  case (Cons t ts)
  then have s: "same_txn pg (txn_step z t pg)" by (simp add: txn_step_same_txn)
  then have "pager_inv (txn_step z t pg)" "in_transaction (txn_step z t pg)" using Cons.prems by (simp_all add: same_txn_def)
  with Cons s show ?case by (auto intro: same_txn_trans)
qed (simp add: same_txn_refl)

lemma begin_step:
  assumes inv: "pager_inv pg" and idle: "\<not> in_transaction pg" and cl: "clean pg"
  obtains pg' s where "begin_transaction pg = (Ok (), pg')" and "pager_inv pg'" and "txn_snapshot pg' = Some s" and "in_transaction pg'"
    and "txn_base pg' = page_value pg" and "ts_header s = header pg" and "pg_file pg' = pg_file pg"
    and "map_option active_superblock (cow_state pg) = Some (ts_superblock s)" and "map_option active_slot (cow_state pg) = Some (ts_slot s)"
proof -
  from inv obtain c where c: "cow_state pg = Some c" by (auto simp: pager_inv_def)
  define u where "u = snd (begin_transaction pg)"
  define s where "s = \<lparr>ts_header = header pg, ts_superblock = active_superblock c, ts_slot = active_slot c,
    original_pages = [], ts_total_pages = total_pages (header pg)\<rparr>"
  have run: "begin_transaction pg = (Ok (), u)" using idle c by (simp add: begin_transaction_def u_def Let_def)
  have none: "txn_snapshot pg = None" using inv idle by (auto simp: pager_inv_def)
  have F: "header u = header pg" "pages u = pages pg" "loaded u = loaded pg" "lru_queue u = lru_queue pg" "dirty_pages u = dirty_pages pg"
      "txn_snapshot u = Some s" "in_transaction u" "pg_file u = pg_file pg" "pg_wal u = pg_wal pg" "use_lz4 u = use_lz4 pg" "cow_state u \<noteq> None"
    using idle c by (simp_all add: u_def begin_transaction_def Let_def in_transaction_def s_def)
  have G: "on_disk u = on_disk pg" "saved u = Map.empty" "saved pg = Map.empty" "base_total u = base_total pg" "in_range u = in_range pg"
      "page_value u = page_value pg" "base_total pg = total_pages (header pg)"
    by (simp_all add: on_disk_def saved_def base_total_def in_range_def page_value_def F none s_def fun_eq_iff)
  have "\<not> dirty (pages pg ! page_idx n)" if "in_range pg n" for n
    using cl pager_inv_idx(1) [OF inv that] by (auto simp: clean_def list_all_length)
  then have "page_ok u n" if "in_range pg n" for n
    using pager_inv_page [OF inv that] that by (auto simp: page_ok_def Let_def F G)
  then have "pager_inv u" using inv by (simp add: pager_inv_def F G snap_ok_def s_def)
  moreover have "txn_base u = page_value pg" by (simp add: txn_base_def G page_value_def fun_eq_iff)
  ultimately show ?thesis using run F c by (intro that [of u s]) (simp_all add: s_def)
qed

text \<open>
  C2: ROLLBACK undoes a transaction. Whatever pages a transaction reads, changes, allocates and frees, with or without
  errors and while the cache evicts and reloads pages, rolling it back succeeds and leaves every page, the number of pages
  and the free lists of the superblock as they were at BEGIN. The pager starts without unwritten pages.
\<close>

theorem rollback_restores:
  assumes "pager_inv pg" and "\<not> in_transaction pg" and "clean pg" and "list_all txn_op_ok ts"
  shows "\<exists>pg1 pg2. begin_transaction pg = (Ok (), pg1) \<and> rollback_transaction (fold (txn_step z) ts pg1) = (Ok (), pg2)
    \<and> page_value pg2 = page_value pg \<and> header pg2 = header pg
    \<and> map_option active_superblock (cow_state pg2) = map_option active_superblock (cow_state pg)
    \<and> map_option active_slot (cow_state pg2) = map_option active_slot (cow_state pg)
    \<and> \<not> in_transaction pg2 \<and> pager_inv pg2"
proof -
  obtain pg1 s where b: "begin_transaction pg = (Ok (), pg1)" "pager_inv pg1" "txn_snapshot pg1 = Some s" "in_transaction pg1"
      "txn_base pg1 = page_value pg" "ts_header s = header pg"
      "map_option active_superblock (cow_state pg) = Some (ts_superblock s)" "map_option active_slot (cow_state pg) = Some (ts_slot s)"
    by (rule begin_step [OF assms(1-3)])
  let ?m = "fold (txn_step z) ts pg1"
  have m: "same_txn pg1 ?m" by (rule run_txn_same_txn [OF b(2,4) assms(4)])
  then obtain s' where s': "txn_snapshot ?m = Some s'" "ts_header s' = ts_header s" "ts_superblock s' = ts_superblock s"
      "ts_slot s' = ts_slot s" "txn_base ?m = txn_base pg1" and inv: "pager_inv ?m"
    using b(3) by (auto simp: same_txn_def split: option.splits)
  from inv obtain c where c: "cow_state ?m = Some c" by (auto simp: pager_inv_def)
  obtain pg2 where "rollback_transaction ?m = (Ok (), pg2)" "pager_inv pg2" "page_value pg2 = txn_base ?m" "header pg2 = ts_header s'"
      "txn_snapshot pg2 = None"
      "cow_state pg2 = map_option (\<lambda>c. c\<lparr>active_superblock := ts_superblock s', active_slot := ts_slot s', active_tx := None\<rparr>) (cow_state ?m)"
    by (rule rollback_step [OF inv s'(1)])
  moreover from this have "\<not> in_transaction pg2" by (simp add: pager_inv_def)
  ultimately show ?thesis using b s' c by (intro exI [of _ pg1] exI [of _ pg2]) auto
qed

section \<open>The pager as a page store\<close>

interpretation ps: page_store pager_inv page_value "get_page z" "modify_page z" for z
proof unfold_locales
  fix s n d assume inv: "pager_inv s" and v: "page_value s n = Some d"
  then have n: "in_range s n" by (auto simp: page_value_def in_range_def not_less split: if_splits)
  show "\<exists>s'. get_page z n s = (Ok d, s') \<and> pager_inv s' \<and> page_value s' = page_value s"
    by (rule get_page_value [OF inv n, of z]) (use v in \<open>auto simp: cache_step_def\<close>)
  fix f assume f: "keeps_size f"
  show "\<exists>s'. modify_page z n f s = (Ok (), s') \<and> pager_inv s' \<and> page_value s' = (page_value s)(n \<mapsto> f d)"
    by (rule modify_page_step [OF inv n, of f z]) (use v f in \<open>auto simp: same_txn_def keeps_size_def\<close>)
next
  fix s n f assume inv: "pager_inv s" and v: "page_value s n = None"
  have "\<not> in_range s n" using get_page_value [OF inv, of n] v by fastforce
  then show "get_page z n s = (Err (PageOutOfRange n), s)" "modify_page z n f s = (Err (PageOutOfRange n), s)"
    by (simp_all add: inv get_page_out_of_range modify_page_out_of_range)
qed

text \<open>
  C26: The page cache is invisible. A sequence of reads and changes of pages through the cache, which loads pages
  on demand and evicts clean ones, has the outcomes and the final contents of the same sequence on a plain
  array of pages; pages out of range are reported as such.
\<close>

theorem page_cache_transparent:
  assumes "pager_inv pg" and "list_all store_op_ok ts"
  shows "\<exists>pg'. store_run (get_page z) (modify_page z) ts pg = (fst (array_run ts (page_value pg)), pg')
    \<and> pager_inv pg' \<and> page_value pg' = snd (array_run ts (page_value pg))"
  using ps.run_refines [OF assms] .

section \<open>A database in memory\<close>

lemma length_superblock_page: "length (db_uuid sb) = 16 \<Longrightarrow> length (superblock_page sb) = PAGE_SIZE"
  by (simp add: superblock_page_def superblock_body_def COW_MAGIC_def COW_SUPERBLOCK_SIZE_def PAGE_SIZE_def)

lemma length_leaf_page: "length (init_leaf_table_page (replicate PAGE_SIZE 0)) = PAGE_SIZE"
  by (simp add: init_leaf_table_page_def PAGE_SIZE_def)

lemma pager_open_memory_inv:
  assumes "length uuid = 16"
  shows "pager_inv (pager_open_memory uuid)" "clean (pager_open_memory uuid)" "\<not> in_transaction (pager_open_memory uuid)"
proof -
  let ?m = "pager_open_memory uuid"
  have three: "n = 1 \<or> n = 2 \<or> n = 3" if "n \<noteq> 0" "n \<le> 3" for n :: u32
  proof -
    have "unat n \<le> 3" "unat n \<noteq> 0" using that by (simp_all add: word_le_nat_alt unat_eq_zero)
    then have "unat n = 1 \<or> unat n = 2 \<or> unat n = 3" by linarith
    then show ?thesis by (auto simp: word_unat_eq_iff)
  qed
  have "page_ok ?m n" if "in_range ?m n" for n
  proof -
    have "n = 1 \<or> n = 2 \<or> n = 3" using that by (intro three) (auto simp: in_range_def pager_open_memory_def pager_make_def Let_def)
    then show ?thesis using assms
      by (auto simp: page_ok_def pager_open_memory_def pager_make_def Let_def page_new_def saved_def page_idx_def
          length_superblock_page length_leaf_page superblock_new_def)
  qed
  then show "pager_inv ?m"
    by (simp add: pager_inv_def snap_ok_def pager_open_memory_def pager_make_def Let_def in_transaction_def)
  show "clean ?m" "\<not> in_transaction ?m"
    by (simp_all add: clean_def in_transaction_def pager_open_memory_def pager_make_def Let_def page_new_def)
qed

text \<open>A codec that never compresses, for concrete runs.\<close>

definition lz4_off :: lz4 where
  "lz4_off = \<lparr>compress_into = \<lambda>_. None, decompress_size_prepended = \<lambda>_. Inl ''off''\<rparr>"

theorem rollback_restores_witness:
  "\<exists>pg1 pg2. begin_transaction (pager_open_memory (replicate 16 7)) = (Ok (), pg1)
    \<and> rollback_transaction (fold (txn_step lz4_off) [TxModify 3 zero_page, TxAllocate, TxFree 3, TxRead 9] pg1) = (Ok (), pg2)
    \<and> page_value pg2 = page_value (pager_open_memory (replicate 16 7)) \<and> header pg2 = header (pager_open_memory (replicate 16 7))
    \<and> map_option active_superblock (cow_state pg2) = map_option active_superblock (cow_state (pager_open_memory (replicate 16 7)))
    \<and> map_option active_slot (cow_state pg2) = map_option active_slot (cow_state (pager_open_memory (replicate 16 7)))
    \<and> \<not> in_transaction pg2 \<and> pager_inv pg2"
  by (rule rollback_restores) (simp_all add: pager_open_memory_inv)

theorem page_cache_transparent_witness:
  "\<exists>pg'. store_run (get_page lz4_off) (modify_page lz4_off) [StoreModify 3 zero_page, StoreRead 3, StoreRead 4] (pager_open_memory (replicate 16 7))
      = (fst (array_run [StoreModify 3 zero_page, StoreRead 3, StoreRead 4] (page_value (pager_open_memory (replicate 16 7)))), pg')
    \<and> pager_inv pg' \<and> page_value pg' = snd (array_run [StoreModify 3 zero_page, StoreRead 3, StoreRead 4] (page_value (pager_open_memory (replicate 16 7))))"
  by (rule page_cache_transparent) (simp_all add: pager_open_memory_inv)

end
