(* ===== verification/PagerFile.thy ===== *)
theory PagerFile
  imports PagerTxn
begin

text \<open>
  The pager and its file: the superblock format, what opening a file gives, what a commit writes, and what a
  process that opens the file later sees, also when the commit was interrupted.
\<close>

section \<open>Superblock format\<close>

definition superblock_wf :: "superblock \<Rightarrow> bool" where
  "superblock_wf sb \<longleftrightarrow> sb_format_version sb = 2 \<and> u16_to_page_size (sb_page_size sb) = PAGE_SIZE \<and> length (db_uuid sb) = 16"

lemma length_superblock_body [simp]: "length (db_uuid sb) = 16 \<Longrightarrow> length (superblock_body sb) = 64"
  by (simp add: superblock_body_def COW_MAGIC_def)

lemma superblock_page_serialize: "superblock_serialize sb PAGE_SIZE = Ok (superblock_page sb)"
  by (simp add: superblock_serialize_def superblock_page_def COW_SUPERBLOCK_SIZE_def PAGE_SIZE_def)

lemma superblock_body_fields:
  assumes "length (db_uuid sb) = 16"
  shows "take 16 (superblock_body sb @ r) = COW_MAGIC"
    "take 2 (drop 16 (superblock_body sb @ r)) = le_bytes 2 (sb_format_version sb)"
    "take 2 (drop 18 (superblock_body sb @ r)) = le_bytes 2 (sb_page_size sb)"
    "take 4 (drop 20 (superblock_body sb @ r)) = le_bytes 4 (sb_flags sb)"
    "take 8 (drop 24 (superblock_body sb @ r)) = le_bytes 8 (generation sb)"
    "take 16 (drop 32 (superblock_body sb @ r)) = db_uuid sb"
    "take 4 (drop 48 (superblock_body sb @ r)) = le_bytes 4 (schema_root sb)"
    "take 4 (drop 52 (superblock_body sb @ r)) = le_bytes 4 (free_root sb)"
    "take 4 (drop 56 (superblock_body sb @ r)) = le_bytes 4 (pending_free_root sb)"
    "take 4 (drop 60 (superblock_body sb @ r)) = le_bytes 4 (page_count sb)"
    "drop 64 (superblock_body sb @ r) = r" "take 64 (superblock_body sb @ r) = superblock_body sb"
proof -
  have m: "length COW_MAGIC = 16" by (simp add: COW_MAGIC_def)
  show "take 16 (superblock_body sb @ r) = COW_MAGIC"
    "take 2 (drop 16 (superblock_body sb @ r)) = le_bytes 2 (sb_format_version sb)"
    "take 2 (drop 18 (superblock_body sb @ r)) = le_bytes 2 (sb_page_size sb)"
    "take 4 (drop 20 (superblock_body sb @ r)) = le_bytes 4 (sb_flags sb)"
    "take 8 (drop 24 (superblock_body sb @ r)) = le_bytes 8 (generation sb)"
    "take 16 (drop 32 (superblock_body sb @ r)) = db_uuid sb"
    "take 4 (drop 48 (superblock_body sb @ r)) = le_bytes 4 (schema_root sb)"
    "take 4 (drop 52 (superblock_body sb @ r)) = le_bytes 4 (free_root sb)"
    "take 4 (drop 56 (superblock_body sb @ r)) = le_bytes 4 (pending_free_root sb)"
    "take 4 (drop 60 (superblock_body sb @ r)) = le_bytes 4 (page_count sb)"
    by (simp_all add: superblock_body_def m assms)
  show "drop 64 (superblock_body sb @ r) = r" "take 64 (superblock_body sb @ r) = superblock_body sb" by (simp_all add: assms)
qed

text \<open>The checksum is recomputed on writing, so it is the one field that may change.\<close>

definition seal_superblock :: "superblock \<Rightarrow> superblock" where
  "seal_superblock sb = sb\<lparr>sb_checksum := checksum32 (superblock_body sb)\<rparr>"

lemma deserialize_superblock_body:
  assumes "superblock_wf sb"
  shows "superblock_deserialize (superblock_body sb @ le_bytes 4 (checksum32 (superblock_body sb)) @ r) = Ok (seal_superblock sb)"
proof -
  have u: "length (db_uuid sb) = 16" "sb_format_version sb = 2" "u16_to_page_size (sb_page_size sb) = PAGE_SIZE"
    using assms by (simp_all add: superblock_wf_def)
  show ?thesis
    by (simp only: superblock_deserialize_def superblock_body_fields [OF u(1)] Let_def)
      (simp add: u seal_superblock_def COW_SUPERBLOCK_SIZE_def)
qed

lemma superblock_page_deserialize:
  "superblock_wf sb \<Longrightarrow> superblock_deserialize (take COW_SUPERBLOCK_SIZE (superblock_page sb)) = Ok (seal_superblock sb)"
  using deserialize_superblock_body [of sb "[]"]
  by (simp add: superblock_page_def COW_SUPERBLOCK_SIZE_def superblock_wf_def)

text \<open>
  A superblock is read back as it was written: serialising it into a page and parsing the page
  gives the same superblock with its checksum filled in.
\<close>

lemma superblock_round_trip:
  assumes "superblock_wf sb" and "COW_SUPERBLOCK_SIZE \<le> n"
  shows "res_bind (superblock_serialize sb n) superblock_deserialize = Ok (sb\<lparr>sb_checksum := checksum32 (superblock_body sb)\<rparr>)"
  using assms deserialize_superblock_body by (simp add: superblock_serialize_def seal_superblock_def not_less)

lemma superblock_new_wf: "length uuid = 16 \<Longrightarrow> superblock_wf (superblock_new uuid)"
  by (simp add: superblock_wf_def superblock_new_def page_size_to_u16_def u16_to_page_size_def PAGE_SIZE_def)

lemma superblock_round_trip_witness:
  "res_bind (superblock_serialize (superblock_new (replicate 16 7)) 100) superblock_deserialize
     = Ok ((superblock_new (replicate 16 7))\<lparr>sb_checksum := checksum32 (superblock_body (superblock_new (replicate 16 7)))\<rparr>)"
  by (rule superblock_round_trip) (simp_all add: superblock_new_wf COW_SUPERBLOCK_SIZE_def)

section \<open>Compressed pages\<close>

text \<open>What the code relies on: the codec decodes what it encoded, behind the size prefix.\<close>

definition lz4_codec :: "lz4 \<Rightarrow> bool" where
  "lz4_codec z \<longleftrightarrow> (\<forall>d b. length d = PAGE_SIZE \<longrightarrow> compress_into z d = Some b \<longrightarrow>
     decompress_size_prepended z (le_bytes 4 (word_of_nat PAGE_SIZE :: u32) @ b) = Inr d)"

definition compressible :: "lz4 \<Rightarrow> bytes \<Rightarrow> bool" where
  "compressible z d = (case compress_into z d of None \<Rightarrow> False | Some b \<Rightarrow> 4 + length b < PAGE_SIZE - 2)"

lemma raw_slot_read:
  assumes "length d = PAGE_SIZE"
  shows "decompress_from_disk z (raw_slot d) = Ok (take (PAGE_SIZE - 2) d @ [0, 0])"
  using assms by (simp add: decompress_from_disk_def raw_slot_def Let_def PAGE_SIZE_def)

text \<open>
  A page that is written compressed is read back as it was. A page that the codec does not make small enough is
  stored raw behind a two-byte marker, and its last two bytes come back as zeros.
\<close>

lemma lz4_page_round_trip:
  assumes "lz4_codec z" and "length d = PAGE_SIZE"
  shows "decompress_from_disk z (compress_for_disk z d) = Ok (if compressible z d then d else take (PAGE_SIZE - 2) d @ [0, 0])"
proof (cases "compressible z d")
  case False
  then have "compress_for_disk z d = raw_slot d" by (auto simp: compressible_def compress_for_disk_def Let_def split: option.splits)
  with False assms(2) show ?thesis by (simp add: raw_slot_read)
next
  case True
  then obtain b where b: "compress_into z d = Some b" "4 + length b < PAGE_SIZE - 2"
    by (auto simp: compressible_def split: option.splits)
  let ?t = "4 + length b"
  have small: "?t < 65535" "2 + ?t \<le> PAGE_SIZE" using b(2) by (simp_all add: PAGE_SIZE_def)
  have t: "unat (word_of_nat ?t :: u16) = ?t" using small(1) by (simp only: unat_of_nat) simp
  then have "(word_of_nat ?t :: u16) \<noteq> 0xFFFF" using small(1) by (auto simp: word_unat_eq_iff)
  moreover have "decompress_size_prepended z (le_bytes 4 (word_of_nat PAGE_SIZE :: u32) @ b) = Inr d"
    using assms b(1) by (simp add: lz4_codec_def)
  moreover have "compress_for_disk z d = le_bytes 2 (word_of_nat ?t :: u16) @ le_bytes 4 (word_of_nat PAGE_SIZE :: u32) @ b @ replicate (PAGE_SIZE - 2 - ?t) 0"
    using b by (simp add: compress_for_disk_def Let_def)
  ultimately show ?thesis
    using True assms(2) t small(2) by (simp add: decompress_from_disk_def Let_def min_def)
qed

text \<open>A codec that shortens pages of one repeated byte.\<close>

definition lz4_runs :: lz4 where
  "lz4_runs = \<lparr>compress_into = \<lambda>d. if d = replicate (length d) (hd d) then Some [hd d] else None,
     decompress_size_prepended = \<lambda>s. if length s = 5 then Inr (replicate (unat (from_le (take 4 s) :: u32)) (s ! 4)) else Inl ''size''\<rparr>"

lemma lz4_page_round_trip_witness:
  "decompress_from_disk lz4_runs (compress_for_disk lz4_runs (replicate PAGE_SIZE 7)) = Ok (replicate PAGE_SIZE 7)
   \<and> decompress_from_disk lz4_runs (compress_for_disk lz4_runs (1 # replicate (PAGE_SIZE - 1) 7)) = Ok (take (PAGE_SIZE - 2) (1 # replicate (PAGE_SIZE - 1) 7) @ [0, 0])"
proof -
  have c: "lz4_codec lz4_runs" unfolding lz4_codec_def
  proof (intro allI impI)
    fix d b assume d: "length d = PAGE_SIZE" "compress_into lz4_runs d = Some b"
    then have "d = replicate PAGE_SIZE (hd d)" and b: "b = [hd d]" by (auto simp: lz4_runs_def split: if_splits)
    moreover have "unat (word_of_nat PAGE_SIZE :: u32) = PAGE_SIZE" by (simp add: PAGE_SIZE_def)
    ultimately show "decompress_size_prepended lz4_runs (le_bytes 4 (word_of_nat PAGE_SIZE :: u32) @ b) = Inr d"
      by (simp add: lz4_runs_def nth_append)
  qed
  have "hd (replicate PAGE_SIZE (7::u8)) = 7" by (simp add: hd_replicate)
  moreover have "1 # replicate (PAGE_SIZE - 1) (7::u8) \<noteq> replicate (length (1 # replicate (PAGE_SIZE - 1) (7::u8))) 1"
  proof
    assume "1 # replicate (PAGE_SIZE - 1) (7::u8) = replicate (length (1 # replicate (PAGE_SIZE - 1) (7::u8))) 1"
    from arg_cong [OF this, of set] show False by (auto simp: PAGE_SIZE_def)
  qed
  ultimately show ?thesis
    using lz4_page_round_trip [OF c, of "replicate PAGE_SIZE 7"] lz4_page_round_trip [OF c, of "1 # replicate (PAGE_SIZE - 1) 7"]
    by (simp add: compressible_def lz4_runs_def PAGE_SIZE_def)
qed

section \<open>Opening\<close>

lemma slot_pages [simp]: "slot_page_num s \<noteq> 0" "slot_page_num s \<noteq> slot_page_num (slot_inactive s)" "slot_inactive (slot_inactive s) = s"
  by (cases s; simp)+

lemma slot_le_2: "slot_page_num s \<le> 2"
  by (cases s) simp_all

lemma read_superblock_write_same:
  "superblock_wf sb \<Longrightarrow> read_superblock (write_at (page_offset (slot_page_num s)) (superblock_page sb) c) (slot_page_num s) = Ok (seal_superblock sb)"
  by (simp add: read_superblock_def file_page_write_same length_superblock_page superblock_page_deserialize superblock_wf_def)

text \<open>What a process finds when it opens the file: the chosen superblock and its slot.\<close>

definition chosen :: "bytes \<Rightarrow> (superblock \<times> superblock_slot) res" where
  "chosen c = choose_openable_superblock (read_superblock c 1) (read_superblock c 2) (length c)"

lemma chosen_newest:
  assumes "read_superblock c (slot_page_num s) = Ok sb" and "superblock_fits_file sb (length c)"
    and "\<And>sb'. read_superblock c (slot_page_num (slot_inactive s)) = Ok sb' \<Longrightarrow> db_uuid sb' = db_uuid sb \<and> generation sb' < generation sb"
  shows "chosen c = Ok (sb, s)"
proof (cases s)
  case SlotA
  with assms show ?thesis
    by (cases "read_superblock c 2") (auto simp: chosen_def choose_openable_superblock_def split: bool.split)
next
  case SlotB
  with assms show ?thesis
    by (cases "read_superblock c 1") (auto simp: chosen_def choose_openable_superblock_def split: bool.split)
qed

lemma open_result:
  assumes "chosen (content f) = Ok (sb, slot)" and "PAGE_SIZE * 2 \<le> length (content f)" and "take 16 (content f) = COW_MAGIC"
  obtains pg where "open_cow_v2 f = Ok pg" and "pg_file pg = Some f" and "total_pages (header pg) = page_count sb"
    and "pages pg = replicate (unat (page_count sb)) page_new" and "loaded pg = replicate (unat (page_count sb)) False"
    and "cow_state pg = Some \<lparr>active_superblock = sb, active_slot = slot, next_txid = sat_succ (generation sb), active_tx = None\<rparr>"
    and "use_lz4 pg \<longleftrightarrow> sb_flags sb AND FLAG_LZ4 \<noteq> 0" and "txn_snapshot pg = None" and "pg_wal pg = None" and "lru_queue pg = []"
    and "failpoint pg = None" and "bulk_mode pg = False" and "dirty_pages pg = []"
proof -
  obtain pg where pg: "open_cow_v2 f = Ok pg" using assms by (auto simp: open_cow_v2_def chosen_def Let_def)
  with assms show ?thesis
    by (intro that [of pg]) (auto simp: open_cow_v2_def chosen_def Let_def pager_make_def)
qed

lemma fits_pages:
  assumes "superblock_fits_file sb (length c)" and "n \<noteq> 0" and "n \<le> page_count sb"
  shows "\<exists>b. file_page c n = Some b \<and> length b = PAGE_SIZE"
proof -
  have "unat n * PAGE_SIZE \<le> unat (page_count sb) * PAGE_SIZE" using assms(3) by (simp add: word_le_nat_alt)
  also have "\<dots> \<le> length c" using assms(1) by (simp add: superblock_fits_file_def split: if_splits)
  finally show ?thesis using page_offset_end [OF assms(2)] by (auto simp: file_page_def read_at_def)
qed

lemma chosen_fits: "chosen c = Ok (sb, s) \<Longrightarrow> superblock_fits_file sb (length c)"
  by (auto simp: chosen_def choose_openable_superblock_def split: res.splits if_splits bool.splits)

lemma unloaded_pager:
  assumes "loaded pg = replicate (unat (total_pages (header pg))) False" and "pages pg = replicate (unat (total_pages (header pg))) page_new"
  shows "in_range pg n \<Longrightarrow> \<not> loaded pg ! page_idx n \<and> pages pg ! page_idx n = page_new"
    and "page_value pg n = (if in_range pg n then on_disk pg n else None)"
  using assms page_idx_less [of n "total_pages (header pg)"] by (auto simp: in_range_def page_value_def not_le not_less)

lemma open_reads:
  assumes "open_cow_v2 f = Ok pg" and "\<not> use_lz4 pg"
  shows "pager_inv pg \<and> clean pg \<and> \<not> in_transaction pg
    \<and> page_value pg = (\<lambda>n. if n \<noteq> 0 \<and> n \<le> total_pages (header pg) then file_page (content f) n else None)
    \<and> (\<exists>sb slot. choose_openable_superblock (read_superblock (content f) 1) (read_superblock (content f) 2) (length (content f)) = Ok (sb, slot)
        \<and> total_pages (header pg) = page_count sb)"
proof -
  from assms(1) obtain sb slot where c: "chosen (content f) = Ok (sb, slot)" "PAGE_SIZE * 2 \<le> length (content f)" "take 16 (content f) = COW_MAGIC"
    by (auto simp: open_cow_v2_def chosen_def Let_def res_bind_Ok_iff not_less split: if_splits)
  obtain pg' where pg': "open_cow_v2 f = Ok pg'" "pg_file pg' = Some f" "total_pages (header pg') = page_count sb"
      "pages pg' = replicate (unat (page_count sb)) page_new" "loaded pg' = replicate (unat (page_count sb)) False"
      "cow_state pg' = Some \<lparr>active_superblock = sb, active_slot = slot, next_txid = sat_succ (generation sb), active_tx = None\<rparr>"
      "txn_snapshot pg' = None" "pg_wal pg' = None" "lru_queue pg' = []"
    by (rule open_result [OF c])
  have pg: "pg' = pg" using assms(1) pg'(1) by simp
  note F = pg'(2-9) [unfolded pg]
  note U = unloaded_pager [of pg, unfolded F(2), OF F(4,3)]
  have disk: "on_disk pg n = file_page (content f) n" for n by (simp add: on_disk_def F)
  have "page_ok pg n" if n: "in_range pg n" for n
  proof -
    obtain b where "file_page (content f) n = Some b" "length b = PAGE_SIZE"
      using fits_pages [OF chosen_fits [OF c(1)], of n] n F(2) by (auto simp: in_range_def)
    then show ?thesis using U(1) [OF n] n by (simp add: page_ok_def Let_def page_new_def saved_def base_total_def F disk in_range_def)
  qed
  then have "pager_inv pg" using assms(2) by (simp add: pager_inv_def F snap_ok_def in_transaction_def)
  moreover have "page_value pg = (\<lambda>n. if n \<noteq> 0 \<and> n \<le> total_pages (header pg) then file_page (content f) n else None)"
    using U(2) by (auto simp: disk in_range_def fun_eq_iff)
  ultimately show ?thesis using c(1) F by (auto simp: clean_def in_transaction_def page_new_def list_all_iff chosen_def)
qed

text \<open>
  Opening an existing file either fails with an error or gives a pager in a good state: no page is dirty, no
  transaction runs, and each page up to the page count of the chosen superblock has the content it has in the file.
\<close>

lemma open_cow_v2_reads_file:
  assumes "open_cow_v2 f = Ok pg" and "\<not> use_lz4 pg"
  shows "pager_inv pg \<and> clean pg \<and> \<not> in_transaction pg
    \<and> page_value pg = (\<lambda>n. if n \<noteq> 0 \<and> n \<le> total_pages (header pg) then file_page (content f) n else None)
    \<and> (\<exists>sb slot. choose_openable_superblock (read_superblock (content f) 1) (read_superblock (content f) 2) (length (content f)) = Ok (sb, slot)
        \<and> total_pages (header pg) = page_count sb)"
  using assms by (rule open_reads)

section \<open>Writing dirty pages\<close>

text \<open>The pager \<open>pg'\<close> is \<open>pg\<close> with those dirty pages written whose numbers are in \<open>N\<close>.\<close>

definition wrote :: "u32 set \<Rightarrow> pager \<Rightarrow> pager \<Rightarrow> bool" where
  "wrote N pg pg' \<longleftrightarrow> (\<exists>f f'. pg_file pg = Some f \<and> pg' = pg\<lparr>pages := pages pg', pg_file := Some f'\<rparr>
     \<and> length (pages pg') = length (pages pg)
     \<and> (\<forall>k. k \<noteq> 0 \<longrightarrow> page_idx k < length (pages pg) \<longrightarrow>
          pages pg' ! page_idx k = (pages pg ! page_idx k)\<lparr>dirty := dirty (pages pg ! page_idx k) \<and> k \<notin> N\<rparr>)
     \<and> (\<forall>k. k \<noteq> 0 \<longrightarrow> (if k \<in> N \<and> page_idx k < length (pages pg) \<and> dirty (pages pg ! page_idx k)
          then file_page (content f') k = Some (pdata (pages pg ! page_idx k))
          else file_page (content f) k \<noteq> None \<longrightarrow> file_page (content f') k = file_page (content f) k)))"

lemma wrote_idle:
  assumes "pg_file pg = Some f" and "\<And>k. k \<in> N \<Longrightarrow> page_idx k < length (pages pg) \<Longrightarrow> \<not> dirty (pages pg ! page_idx k)"
  shows "wrote N pg pg"
proof -
  have "pg = pg\<lparr>pages := pages pg, pg_file := Some f\<rparr>" using assms(1) by (cases pg) simp
  moreover have "p = p\<lparr>dirty := dirty p \<and> P\<rparr>" if "P \<or> \<not> dirty p" for p :: page and P using that by (cases p) auto
  ultimately show ?thesis using assms unfolding wrote_def by (rule_tac exI [of _ f], rule_tac exI [of _ f]) auto
qed

lemma wrote_trans:
  assumes "wrote N pg pg1" and "wrote M pg1 pg2"
  shows "wrote (N \<union> M) pg pg2"
proof -
  from assms(1) obtain f f1 where 1: "pg_file pg = Some f" "pg1 = pg\<lparr>pages := pages pg1, pg_file := Some f1\<rparr>" "length (pages pg1) = length (pages pg)"
    "\<And>k. k \<noteq> 0 \<Longrightarrow> page_idx k < length (pages pg) \<Longrightarrow> pages pg1 ! page_idx k = (pages pg ! page_idx k)\<lparr>dirty := dirty (pages pg ! page_idx k) \<and> k \<notin> N\<rparr>"
    "\<And>k. k \<noteq> 0 \<Longrightarrow> (if k \<in> N \<and> page_idx k < length (pages pg) \<and> dirty (pages pg ! page_idx k)
          then file_page (content f1) k = Some (pdata (pages pg ! page_idx k))
          else file_page (content f) k \<noteq> None \<longrightarrow> file_page (content f1) k = file_page (content f) k)"
    by (auto simp: wrote_def)
  have f1: "pg_file pg1 = Some f1" by (subst 1(2)) simp
  with assms(2) obtain f2 where 2: "pg2 = pg1\<lparr>pages := pages pg2, pg_file := Some f2\<rparr>" "length (pages pg2) = length (pages pg1)"
    "\<And>k. k \<noteq> 0 \<Longrightarrow> page_idx k < length (pages pg1) \<Longrightarrow> pages pg2 ! page_idx k = (pages pg1 ! page_idx k)\<lparr>dirty := dirty (pages pg1 ! page_idx k) \<and> k \<notin> M\<rparr>"
    "\<And>k. k \<noteq> 0 \<Longrightarrow> (if k \<in> M \<and> page_idx k < length (pages pg1) \<and> dirty (pages pg1 ! page_idx k)
          then file_page (content f2) k = Some (pdata (pages pg1 ! page_idx k))
          else file_page (content f1) k \<noteq> None \<longrightarrow> file_page (content f2) k = file_page (content f1) k)"
    by (auto simp: wrote_def)
  have "pg2 = pg\<lparr>pages := pages pg2, pg_file := Some f2\<rparr>" by (subst 2(1), subst 1(2)) simp
  moreover have "pages pg2 ! page_idx k = (pages pg ! page_idx k)\<lparr>dirty := dirty (pages pg ! page_idx k) \<and> k \<notin> N \<union> M\<rparr>"
    if "k \<noteq> 0" "page_idx k < length (pages pg)" for k
    using 1(4) [OF that] 2(3) [OF that(1)] that(2) 1(3) by auto
  moreover have "if k \<in> N \<union> M \<and> page_idx k < length (pages pg) \<and> dirty (pages pg ! page_idx k)
          then file_page (content f2) k = Some (pdata (pages pg ! page_idx k))
          else file_page (content f) k \<noteq> None \<longrightarrow> file_page (content f2) k = file_page (content f) k" if "k \<noteq> 0" for k
    using 1(4) [OF that] 1(5) [OF that] 2(4) [OF that] 1(3) by (auto split: if_splits)
  ultimately show ?thesis using 1(1,3) 2(2) unfolding wrote_def by (rule_tac exI [of _ f], rule_tac exI [of _ f2]) auto
qed

lemma wrote_one:
  assumes "pg_file pg = Some f" and "pg_wal pg = None" and "\<not> use_lz4 pg" and "n \<noteq> 0" and "page_idx n < length (pages pg)"
    and "dirty (pages pg ! page_idx n)" and "length (pdata (pages pg ! page_idx n)) = PAGE_SIZE"
  shows "wrote {n} pg (write_one_page z n pg)"
proof -
  let ?d = "pdata (pages pg ! page_idx n)" and ?u = "write_one_page z n pg"
  let ?f = "file_write (page_offset n) ?d f"
  have u: "?u = pg\<lparr>pages := (pages pg)[page_idx n := (pages pg ! page_idx n)\<lparr>dirty := False\<rparr>], pg_file := Some ?f\<rparr>"
    using assms by (simp add: write_one_page_def Let_def upd_page_def)
  have slots: "pages ?u ! page_idx k = (pages pg ! page_idx k)\<lparr>dirty := dirty (pages pg ! page_idx k) \<and> k \<notin> {n}\<rparr>"
    if "k \<noteq> 0" "page_idx k < length (pages pg)" for k
    using that assms(4,5) by (auto simp: u nth_list_update page_idx_inj)
  have same: "file_page (content ?f) n = Some ?d" using assms(7) by (simp add: file_write_def file_page_write_same)
  have other: "file_page (content f) k \<noteq> None \<Longrightarrow> file_page (content ?f) k = file_page (content f) k" if "k \<noteq> 0" "k \<noteq> n" for k
    using file_page_write_other [of "content f" k _ n ?d] that assms(4,7) by (auto simp: file_write_def)
  show ?thesis unfolding wrote_def
  proof (rule exI [of _ f], rule exI [of _ ?f], intro conjI allI impI)
    show "?u = pg\<lparr>pages := pages ?u, pg_file := Some ?f\<rparr>" by (simp add: u)
    show "length (pages ?u) = length (pages pg)" by (simp add: u)
    show "if k \<in> {n} \<and> page_idx k < length (pages pg) \<and> dirty (pages pg ! page_idx k)
        then file_page (content ?f) k = Some (pdata (pages pg ! page_idx k))
        else file_page (content f) k \<noteq> None \<longrightarrow> file_page (content ?f) k = file_page (content f) k" if "k \<noteq> 0" for k
      using same other [OF that] assms(5,6) by auto
  qed (use assms(1) slots in auto)
qed

lemma wrote_fields:
  assumes "wrote N pg pg'"
  shows "pg_wal pg' = pg_wal pg" "use_lz4 pg' = use_lz4 pg" "length (pages pg') = length (pages pg)" "header pg' = header pg"
    "cow_state pg' = cow_state pg" "txn_snapshot pg' = txn_snapshot pg" "loaded pg' = loaded pg" "lru_queue pg' = lru_queue pg"
    "failpoint pg' = failpoint pg" "fail_action pg' = fail_action pg" "bulk_mode pg' = bulk_mode pg" "dirty_pages pg' = dirty_pages pg"
    "\<exists>f'. pg_file pg' = Some f'"
    "\<And>k. k \<noteq> 0 \<Longrightarrow> page_idx k < length (pages pg) \<Longrightarrow> pages pg' ! page_idx k = (pages pg ! page_idx k)\<lparr>dirty := dirty (pages pg ! page_idx k) \<and> k \<notin> N\<rparr>"
proof -
  from assms obtain f' where pg': "pg' = pg\<lparr>pages := pages pg', pg_file := Some f'\<rparr>" by (auto simp: wrote_def)
  show "pg_wal pg' = pg_wal pg" "use_lz4 pg' = use_lz4 pg" "header pg' = header pg"
    "cow_state pg' = cow_state pg" "txn_snapshot pg' = txn_snapshot pg" "loaded pg' = loaded pg" "lru_queue pg' = lru_queue pg"
    "failpoint pg' = failpoint pg" "fail_action pg' = fail_action pg" "bulk_mode pg' = bulk_mode pg" "dirty_pages pg' = dirty_pages pg"
    "\<exists>f'. pg_file pg' = Some f'"
    by (subst pg', simp)+
  show "length (pages pg') = length (pages pg)"
    "\<And>k. k \<noteq> 0 \<Longrightarrow> page_idx k < length (pages pg) \<Longrightarrow> pages pg' ! page_idx k = (pages pg ! page_idx k)\<lparr>dirty := dirty (pages pg ! page_idx k) \<and> k \<notin> N\<rparr>"
    using assms by (auto simp: wrote_def)
qed

lemma write_dirty_pages_wrote:
  assumes "pg_file pg = Some f" and "pg_wal pg = None" and "\<not> use_lz4 pg" and "0 \<notin> set ns"
    and "\<And>k. k \<in> set ns \<Longrightarrow> page_idx k < length (pages pg) \<Longrightarrow> dirty (pages pg ! page_idx k) \<Longrightarrow>
      2 < k \<and> length (pdata (pages pg ! page_idx k)) = PAGE_SIZE"
  shows "\<exists>pg'. write_dirty_pages z ns pg = (Ok (), pg') \<and> wrote (set ns) pg pg'"
  using assms
proof (induction ns arbitrary: pg f)
  case Nil
  then show ?case by (auto intro: wrote_idle)
next
  case (Cons n ns)
  show ?case
  proof (cases "length (pages pg) \<le> page_idx n \<or> \<not> dirty (pages pg ! page_idx n)")
    case True
    from Cons.IH [OF Cons.prems(1-3)] Cons.prems(4,5) obtain pg' where "write_dirty_pages z ns pg = (Ok (), pg')" "wrote (set ns) pg pg'"
      by auto
    moreover have "wrote {n} pg pg" using True by (intro wrote_idle [OF Cons.prems(1)]) auto
    ultimately show ?thesis using True wrote_trans [of "{n}" pg pg "set ns" pg'] by auto
  next
    case False
    let ?pg1 = "write_one_page z n pg"
    have n: "2 < n" "length (pdata (pages pg ! page_idx n)) = PAGE_SIZE" "n \<noteq> 0" "page_idx n < length (pages pg)"
      using Cons.prems(4) Cons.prems(5) [of n] False by auto
    have w: "wrote {n} pg ?pg1" using Cons.prems n False by (intro wrote_one) auto
    note W = wrote_fields [OF w]
    have "\<exists>pg'. write_dirty_pages z ns ?pg1 = (Ok (), pg') \<and> wrote (set ns) ?pg1 pg'"
    proof -
      obtain f1 where f1: "pg_file ?pg1 = Some f1" using W(13) by blast
      show ?thesis
      proof (rule Cons.IH [OF f1])
        fix k assume k: "k \<in> set ns" "page_idx k < length (pages ?pg1)" "dirty (pages ?pg1 ! page_idx k)"
        then have "k \<noteq> 0" using Cons.prems(4) by auto
        with k W(3) W(14) [of k] show "2 < k \<and> length (pdata (pages ?pg1 ! page_idx k)) = PAGE_SIZE"
          using Cons.prems(5) [of k] by auto
      qed (use Cons.prems W in auto)
    qed
    with wrote_trans [OF w] False n(1) show ?thesis by (fastforce simp: not_le)
  qed
qed

section \<open>Commit\<close>

text \<open>Reserved pages are never dirty, and every other clean page is in the file.\<close>

definition backed :: "pager \<Rightarrow> bool" where
  "backed pg \<longleftrightarrow> (\<forall>n. in_range pg n \<longrightarrow> (if n \<le> 2 then \<not> dirty (pages pg ! page_idx n)
     else dirty (pages pg ! page_idx n) \<or> on_disk pg n = page_value pg n)) \<and> 0 \<notin> set (dirty_pages pg)"

text \<open>The superblock in memory stems from the newest one in the file.\<close>

definition superblock_current :: "bytes \<Rightarrow> superblock \<Rightarrow> superblock_slot \<Rightarrow> bool" where
  "superblock_current c mem slot \<longleftrightarrow>
     superblock_wf mem \<and> take 16 c = COW_MAGIC \<and> sb_flags mem AND FLAG_LZ4 = 0
     \<and> (case read_superblock c (slot_page_num slot) of
          Ok sb \<Rightarrow> superblock_fits_file sb (length c) \<and> db_uuid sb = db_uuid mem
            \<and> generation sb = generation mem \<and> sb_flags sb AND FLAG_LZ4 = 0
            \<and> (case read_superblock c (slot_page_num (slot_inactive slot)) of
                 Ok sb' \<Rightarrow> db_uuid sb' = db_uuid sb \<and> generation sb' < generation sb
               | _ \<Rightarrow> True)
        | _ \<Rightarrow> False)"

definition file_ok :: "pager \<Rightarrow> bool" where
  "file_ok pg = (case (pg_file pg, cow_state pg) of
       (Some f, Some s) \<Rightarrow> superblock_current (content f) (active_superblock s) (active_slot s)
     | _ \<Rightarrow> False)"

text \<open>A file with all pages of a pager.\<close>

definition holds_pages :: "bytes \<Rightarrow> pager \<Rightarrow> bool" where
  "holds_pages c pg \<longleftrightarrow> (\<forall>n. in_range pg n \<longrightarrow> 2 < n \<longrightarrow> file_page c n = page_value pg n)"

lemma dirty_listed: "pager_inv pg \<Longrightarrow> in_range pg n \<Longrightarrow> dirty (pages pg ! page_idx n) \<Longrightarrow> n \<in> set (dirty_pages pg)"
  by (simp add: page_ok_simp)

lemma write_v2_data_pages_ok:
  assumes inv: "pager_inv pg" and b: "backed pg" and f: "pg_file pg = Some f" and big: "3 \<le> total_pages (header pg)"
  obtains pg1 f1 where "write_v2_data_pages z pg = (Ok (), pg1)" and "wrote (set (dirty_pages pg)) (pg\<lparr>dirty_pages := []\<rparr>) pg1"
    and "pg_file pg1 = Some f1" and "holds_pages (content f1) pg"
    and "\<forall>k. k \<noteq> 0 \<longrightarrow> file_page (content f) k \<noteq> None \<longrightarrow> file_page (content f1) k \<noteq> None"
    and "\<forall>k. k \<noteq> 0 \<longrightarrow> k \<le> 2 \<longrightarrow> file_page (content f) k \<noteq> None \<longrightarrow> file_page (content f1) k = file_page (content f) k"
proof -
  let ?pg = "pg\<lparr>dirty_pages := []\<rparr>"
  have len: "length (pages pg) = unat (total_pages (header pg))" using inv by (simp add: pager_inv_def)
  have range: "in_range pg k" if "k \<noteq> 0" "page_idx k < length (pages pg)" for k
  proof -
    have "unat k = Suc (page_idx k)" using that(1) by (simp add: page_idx_def unat_minus_one unat_gt_0)
    then show ?thesis using that len by (simp add: in_range_def word_le_nat_alt)
  qed
  have clean12: "\<not> dirty (pages pg ! 0)" "\<not> dirty (pages pg ! 1)"
  proof -
    have "(1::u32) \<le> total_pages (header pg)" "(2::u32) \<le> total_pages (header pg)" using big by (simp_all add: word_le_nat_alt)
    then have "in_range pg 1" "in_range pg 2" by (simp_all add: in_range_def)
    then have "\<not> dirty (pages pg ! page_idx 1)" "\<not> dirty (pages pg ! page_idx 2)" using b by (auto simp: backed_def)
    then show "\<not> dirty (pages pg ! 0)" "\<not> dirty (pages pg ! 1)" by (simp_all add: page_idx_def)
  qed
  have "\<exists>pg'. write_dirty_pages z (dirty_pages pg) ?pg = (Ok (), pg') \<and> wrote (set (dirty_pages pg)) ?pg pg'"
  proof (rule write_dirty_pages_wrote)
    fix k assume k: "k \<in> set (dirty_pages pg)" "page_idx k < length (pages ?pg)" "dirty (pages ?pg ! page_idx k)"
    have r: "in_range pg k" using k b by (intro range) (auto simp: backed_def)
    then show "2 < k \<and> length (pdata (pages ?pg ! page_idx k)) = PAGE_SIZE"
      using k(3) b page_ok_simp(1) [OF inv r] by (auto simp: backed_def not_le [symmetric])
  qed (use inv f b in \<open>auto simp: pager_inv_def backed_def\<close>)
  then obtain pg1 where w: "write_dirty_pages z (dirty_pages pg) ?pg = (Ok (), pg1)" "wrote (set (dirty_pages pg)) ?pg pg1" by auto
  have run: "write_v2_data_pages z pg = (Ok (), pg1)" using w(1) clean12 by (simp add: write_v2_data_pages_def)
  from w(2) f obtain f1 where f1: "pg1 = ?pg\<lparr>pages := pages pg1, pg_file := Some f1\<rparr>"
      "\<And>k. k \<noteq> 0 \<Longrightarrow> (if k \<in> set (dirty_pages pg) \<and> page_idx k < length (pages pg) \<and> dirty (pages pg ! page_idx k)
          then file_page (content f1) k = Some (pdata (pages pg ! page_idx k))
          else file_page (content f) k \<noteq> None \<longrightarrow> file_page (content f1) k = file_page (content f) k)"
    by (auto simp: wrote_def)
  have "holds_pages (content f1) pg" unfolding holds_pages_def
  proof (intro allI impI)
    fix n assume n: "in_range pg n" "2 < n"
    have n0: "n \<noteq> 0" using n(1) by (simp add: in_range_def)
    obtain d where d: "page_value pg n = Some d" using get_page_value [OF inv n(1)] by blast
    show "file_page (content f1) n = page_value pg n"
    proof (cases "dirty (pages pg ! page_idx n)")
      case True
      moreover have "loaded pg ! page_idx n" using page_ok_simp(4) [OF inv n(1)] True by simp
      moreover have "page_value pg n = Some (pdata (pages pg ! page_idx n))"
        using n(1) calculation(2) by (auto simp: page_value_def in_range_def)
      ultimately show ?thesis
        using f1(2) [OF n0] dirty_listed [OF inv n(1)] pager_inv_idx(1) [OF inv n(1)] by simp
    next
      case False
      moreover have "\<not> n \<le> 2" using n(2) by (simp add: not_le)
      ultimately have "on_disk pg n = page_value pg n" using b n(1) by (auto simp: backed_def)
      then have "file_page (content f) n = Some d" using d f by (simp add: on_disk_def)
      with f1(2) [OF n0] False d show ?thesis by simp
    qed
  qed
  moreover have "file_page (content f1) k = file_page (content f) k" if "k \<noteq> 0" "k \<le> 2" "file_page (content f) k \<noteq> None" for k
    using f1(2) [OF that(1)] that range [OF that(1)] b by (auto simp: backed_def split: if_splits)
  moreover have "file_page (content f1) k \<noteq> None" if "k \<noteq> 0" "file_page (content f) k \<noteq> None" for k
    using f1(2) [OF that(1)] that(2) by (auto split: if_splits)
  moreover have "pg_file pg1 = Some f1" by (subst f1(1)) simp
  ultimately show ?thesis by (intro that [OF run w(2)]) blast+
qed

lemma reopen:
  assumes c: "chosen (content f) = Ok (sb, slot)" and m: "take 16 (content f) = COW_MAGIC" and lz: "sb_flags sb AND FLAG_LZ4 = 0"
  obtains pg2 where "open_cow_v2 f = Ok pg2" and "total_pages (header pg2) = page_count sb"
    and "\<And>n. n \<noteq> 0 \<Longrightarrow> n \<le> page_count sb \<Longrightarrow> page_value pg2 n = file_page (content f) n"
    and "cow_state pg2 = Some \<lparr>active_superblock = sb, active_slot = slot, next_txid = sat_succ (generation sb), active_tx = None\<rparr>"
proof -
  have "3 \<le> page_count sb" "unat (page_count sb) * PAGE_SIZE \<le> length (content f)"
    using chosen_fits [OF c] by (auto simp: superblock_fits_file_def not_less split: if_splits)
  then have "PAGE_SIZE * 2 \<le> length (content f)" by (simp add: word_le_nat_alt PAGE_SIZE_def)
  from open_result [OF c this m] obtain pg2 where pg2: "open_cow_v2 f = Ok pg2" "total_pages (header pg2) = page_count sb"
      "use_lz4 pg2 \<longleftrightarrow> sb_flags sb AND FLAG_LZ4 \<noteq> 0"
      "cow_state pg2 = Some \<lparr>active_superblock = sb, active_slot = slot, next_txid = sat_succ (generation sb), active_tx = None\<rparr>"
    by metis
  with open_reads [OF pg2(1)] lz show ?thesis by (intro that [of pg2]) auto
qed

lemma maybe_failpoint_off [simp]: "failpoint pg = None \<Longrightarrow> maybe_failpoint fp pg = (Ok (), pg)"
  by (simp add: maybe_failpoint_def)

text \<open>The file after a superblock switch, and the switch itself when no failure is injected.\<close>

definition switched :: "superblock_slot \<Rightarrow> superblock \<Rightarrow> os_file \<Rightarrow> os_file" where
  "switched slot sb f = file_sync (write_superblock slot sb (file_sync f))"

lemma write_and_switch_ok:
  assumes "write_v2_data_pages z pg = (Ok (), pg1)" and "pg_file pg1 = Some f1" and "pg_wal pg1 = None" and "failpoint pg1 = None" and "\<not> bulk_mode pg1"
  shows "write_and_switch z slot sb pg =
    (Ok (), upd_cow (\<lambda>s. s\<lparr>active_superblock := sb, active_slot := slot\<rparr>) (pg1\<lparr>pg_wal := None, pg_file := Some (switched slot sb f1)\<rparr>))"
  using assms
  by (simp add: write_and_switch_def op_simps commit_wal_def sync_unless_deferred_def sync_db_file_def write_v2_superblock_def switched_def)

lemma switched_content: "content (switched slot sb f) = write_at (page_offset (slot_page_num slot)) (superblock_page sb) (content f)"
    and switched_synced: "synced (switched slot sb f) = content (switched slot sb f)"
  by (simp_all add: switched_def write_superblock_def file_sync_def file_write_def)

lemma file_ok_parts:
  assumes "file_ok pg" and "pg_file pg = Some f" and "cow_state pg = Some s"
  obtains sb where "read_superblock (content f) (slot_page_num (active_slot s)) = Ok sb" and "superblock_fits_file sb (length (content f))"
    and "db_uuid sb = db_uuid (active_superblock s)" and "generation sb = generation (active_superblock s)" and "sb_flags sb AND FLAG_LZ4 = 0"
    and "\<And>sb'. read_superblock (content f) (slot_page_num (slot_inactive (active_slot s))) = Ok sb' \<Longrightarrow> db_uuid sb' = db_uuid sb \<and> generation sb' < generation sb"
    and "superblock_wf (active_superblock s)" and "take 16 (content f) = COW_MAGIC" and "sb_flags (active_superblock s) AND FLAG_LZ4 = 0"
  using assms by (auto simp: file_ok_def superblock_current_def split: res.splits)

lemma read_superblock_page: "read_superblock c n = Ok sb \<Longrightarrow> file_page c n \<noteq> None"
  by (auto simp: read_superblock_def split: option.splits)

lemma read_superblock_eq: "file_page c' n = file_page c n \<Longrightarrow> read_superblock c' n = read_superblock c n"
  by (simp add: read_superblock_def)

lemma magic_of_page:
  assumes "file_page c 1 = Some b"
  shows "take 16 c = take 16 b"
proof -
  have "b = take PAGE_SIZE c" using assms by (simp add: file_page_def read_at_def page_offset_def split: if_splits)
  then show ?thesis by (simp add: PAGE_SIZE_def min_def)
qed

lemma holds_pages_fits:
  assumes "holds_pages c pg" and "pager_inv pg" and "3 \<le> total_pages (header pg)" and "page_count sb = total_pages (header pg)"
  shows "superblock_fits_file sb (length c)"
proof -
  let ?t = "total_pages (header pg)"
  have t: "?t \<noteq> 0" "2 < ?t" using assms(3) by (auto simp: word_le_nat_alt word_less_nat_alt)
  have r: "in_range pg ?t" using t by (simp add: in_range_def)
  obtain d where "page_value pg ?t = Some d" using get_page_value [OF assms(2) r] by blast
  then have "file_page c ?t = Some d" using assms(1) r t(2) by (simp add: holds_pages_def)
  then have "page_offset ?t + PAGE_SIZE \<le> length c" by (simp add: file_page_def read_at_Some)
  then show ?thesis using page_offset_end [OF t(1)] assms(3,4) by (simp add: superblock_fits_file_def not_less)
qed

lemma seal_superblock_fields [simp]:
  "db_uuid (seal_superblock sb) = db_uuid sb" "generation (seal_superblock sb) = generation sb" "page_count (seal_superblock sb) = page_count sb"
  "sb_flags (seal_superblock sb) = sb_flags sb" "schema_root (seal_superblock sb) = schema_root sb" "superblock_fits_file (seal_superblock sb) = superblock_fits_file sb"
  by (simp_all add: seal_superblock_def superblock_fits_file_def fun_eq_iff)

lemma superblock_page_magic: "length (db_uuid sb) = 16 \<Longrightarrow> take 16 (superblock_page sb) = COW_MAGIC"
  by (simp add: superblock_page_def superblock_body_def COW_MAGIC_def)

lemma switch_pages:
  assumes wf: "superblock_wf sb"
  shows "n \<noteq> 0 \<Longrightarrow> n \<noteq> slot_page_num slot \<Longrightarrow> file_page c n \<noteq> None \<Longrightarrow>
      file_page (write_at (page_offset (slot_page_num slot)) (superblock_page sb) c) n = file_page c n"
    and "take 16 c = COW_MAGIC \<Longrightarrow> file_page c 1 \<noteq> None \<or> slot = SlotA \<Longrightarrow>
      take 16 (write_at (page_offset (slot_page_num slot)) (superblock_page sb) c) = COW_MAGIC"
proof -
  have len: "length (superblock_page sb) = PAGE_SIZE" using wf by (simp add: length_superblock_page superblock_wf_def)
  show other: "file_page (write_at (page_offset (slot_page_num slot)) (superblock_page sb) c) n = file_page c n"
    if "n \<noteq> 0" "n \<noteq> slot_page_num slot" "file_page c n \<noteq> None" for n
    using that file_page_write_other [of c n _ "slot_page_num slot" "superblock_page sb"] len by auto
  assume m: "take 16 c = COW_MAGIC" "file_page c 1 \<noteq> None \<or> slot = SlotA"
  show "take 16 (write_at (page_offset (slot_page_num slot)) (superblock_page sb) c) = COW_MAGIC"
  proof (cases slot)
    case SlotA
    with magic_of_page [OF file_page_write_same [OF len, of 1 c]] superblock_page_magic wf
    show ?thesis by (simp add: superblock_wf_def)
  next
    case SlotB
    then obtain b where b: "file_page c 1 = Some b" using m(2) by auto
    with other [of 1] SlotB have "file_page (write_at (page_offset (slot_page_num slot)) (superblock_page sb) c) 1 = Some b" by simp
    with b m(1) magic_of_page show ?thesis by metis
  qed
qed

lemma switch_chosen:
  assumes wf: "superblock_wf sb" and fits: "superblock_fits_file sb (length c)"
    and old: "read_superblock c (slot_page_num (slot_inactive slot)) = Ok sb0" "db_uuid sb0 = db_uuid sb" "generation sb0 < generation sb"
  shows "chosen (write_at (page_offset (slot_page_num slot)) (superblock_page sb) c) = Ok (seal_superblock sb, slot)"
proof (rule chosen_newest)
  let ?c = "write_at (page_offset (slot_page_num slot)) (superblock_page sb) c"
  show "read_superblock ?c (slot_page_num slot) = Ok (seal_superblock sb)" by (rule read_superblock_write_same [OF wf])
  show "superblock_fits_file (seal_superblock sb) (length ?c)" using fits by (auto simp: superblock_fits_file_def split: if_splits)
  fix sb' assume new: "read_superblock ?c (slot_page_num (slot_inactive slot)) = Ok sb'"
  have "file_page ?c (slot_page_num (slot_inactive slot)) = file_page c (slot_page_num (slot_inactive slot))"
    using slot_pages(2) [of slot, THEN not_sym] by (intro switch_pages(1) [OF wf] read_superblock_page [OF old(1)]) auto
  from read_superblock_eq [OF this] new old show "db_uuid sb' = db_uuid (seal_superblock sb) \<and> generation sb' < generation (seal_superblock sb)" by simp
qed

text \<open>The freed pages of the running transaction are known to the cache.\<close>

definition freed_ok :: "pager \<Rightarrow> bool" where
  "freed_ok pg = (case cow_state pg of None \<Rightarrow> True | Some s \<Rightarrow> (case active_tx s of None \<Rightarrow> True | Some tx \<Rightarrow>
     (case freed_tail tx of None \<Rightarrow> True | Some t \<Rightarrow> in_range pg t \<and> loaded pg ! page_idx t)))"

lemma modify_loaded:
  assumes "n \<noteq> 0" and "n \<le> total_pages (header pg)" and "page_idx n < length (loaded pg)" and "page_idx n < length (pages pg)" and "loaded pg ! page_idx n"
  shows "modify_page z n f pg = (Ok (), update_page n f (touch_page n pg))"
  using assms
  by (simp add: modify_page_def get_page_mut_def write_page_data_def op_simps check_page_def update_page_def not_less)

lemma touch_fields [simp]:
  "header (touch_page n pg) = header pg" "cow_state (touch_page n pg) = cow_state pg" "pg_file (touch_page n pg) = pg_file pg"
  "txn_snapshot (touch_page n pg) = txn_snapshot pg"
  by (simp_all add: touch_page_def)

lemma clear_snapshotted_fields [simp]:
  "pg_file (clear_snapshotted pg) = pg_file pg" "header (clear_snapshotted pg) = header pg" "cow_state (clear_snapshotted pg) = cow_state pg"
  "txn_snapshot (clear_snapshotted pg) = None"
  by (simp_all add: clear_snapshotted_def split: option.split)

lemma publish_freed_ok:
  assumes "freed_ok pg" and "length (pages pg) = unat (total_pages (header pg))" and "length (loaded pg) = unat (total_pages (header pg))"
  shows "\<exists>pg'. publish_freed z pg = (Ok (), pg') \<and> pg_file pg' = pg_file pg \<and> header pg' = header pg"
proof -
  have run: "\<exists>pg'. modify_page z t f (upd_superblock g pg) = (Ok (), pg') \<and> pg_file pg' = pg_file pg \<and> header pg' = header pg"
    if "in_range pg t" "loaded pg ! page_idx t" for t f g
    using that assms(2,3) page_idx_less [of t "total_pages (header pg)"] by (auto simp: upd_superblock_def in_range_def modify_loaded)
  show ?thesis using assms(1) run
    by (auto simp: publish_freed_def freed_ok_def op_simps split: option.split)
qed

lemma sat_succ_less: "n \<noteq> - 1 \<Longrightarrow> n < sat_succ n"
  by (simp add: sat_succ_def word_less_nat_alt unat_u64_succ)

text \<open>The file after the data pages and the superblock of a commit: what a later open finds in it.\<close>

lemma switched_reopen:
  assumes inv: "pager_inv pg" and ok: "file_ok pg" and b: "backed pg" and big: "3 \<le> total_pages (header pg)"
    and s: "cow_state pg = Some s" and f: "pg_file pg = Some f" and gen: "generation (active_superblock s) < g"
  obtains pg1 f1 pg2 where "write_v2_data_pages z pg = (Ok (), pg1)" and "wrote (set (dirty_pages pg)) (pg\<lparr>dirty_pages := []\<rparr>) pg1" and "pg_file pg1 = Some f1"
    and "open_cow_v2 (switched (slot_inactive (active_slot s)) ((active_superblock s)\<lparr>generation := g, page_count := total_pages (header pg)\<rparr>) f1) = Ok pg2"
    and "total_pages (header pg2) = total_pages (header pg)" and "\<forall>n>2. page_value pg2 n = page_value pg n"
    and "map_option (generation \<circ> active_superblock) (cow_state pg2) = Some g"
    and "map_option (schema_root \<circ> active_superblock) (cow_state pg2) = Some (schema_root (active_superblock s))"
proof -
  let ?sb = "(active_superblock s)\<lparr>generation := g, page_count := total_pages (header pg)\<rparr>" and ?slot = "slot_inactive (active_slot s)"
  obtain sb where P: "read_superblock (content f) (slot_page_num (active_slot s)) = Ok sb"
      "db_uuid sb = db_uuid (active_superblock s)" "generation sb = generation (active_superblock s)"
      "superblock_wf (active_superblock s)" "take 16 (content f) = COW_MAGIC" "sb_flags (active_superblock s) AND FLAG_LZ4 = 0"
      "superblock_fits_file sb (length (content f))"
    by (rule file_ok_parts [OF ok f s])
  obtain pg1 f1 where w: "write_v2_data_pages z pg = (Ok (), pg1)" "wrote (set (dirty_pages pg)) (pg\<lparr>dirty_pages := []\<rparr>) pg1" "pg_file pg1 = Some f1"
      "holds_pages (content f1) pg"
      "\<forall>k. k \<noteq> 0 \<longrightarrow> k \<le> 2 \<longrightarrow> file_page (content f) k \<noteq> None \<longrightarrow> file_page (content f1) k = file_page (content f) k"
    by (rule write_v2_data_pages_ok [OF inv b f big, where z = z])
  let ?c = "write_at (page_offset (slot_page_num ?slot)) (superblock_page ?sb) (content f1)"
  have cc: "content (switched ?slot ?sb f1) = ?c" by (rule switched_content)
  have wf: "superblock_wf ?sb" using P(4) by (simp add: superblock_wf_def)
  have "file_page (content f1) (slot_page_num (active_slot s)) = file_page (content f) (slot_page_num (active_slot s))"
    using w(5) slot_le_2 read_superblock_page [OF P(1)] by simp
  from read_superblock_eq [OF this] have old: "read_superblock (content f1) (slot_page_num (slot_inactive ?slot)) = Ok sb" using P(1) by simp
  have one: "file_page (content f) 1 \<noteq> None"
    using fits_pages [OF P(7), of 1] P(7) by (fastforce simp: superblock_fits_file_def word_le_nat_alt not_less split: if_splits)
  with w(5) [rule_format, of 1] P(5) magic_of_page have magic1: "take 16 (content f1) = COW_MAGIC" "file_page (content f1) 1 \<noteq> None" by force+
  have ch: "chosen ?c = Ok (seal_superblock ?sb, ?slot)"
    by (rule switch_chosen [OF wf holds_pages_fits [OF w(4) inv big] old]) (simp_all add: P gen)
  obtain pg2 where pg2: "open_cow_v2 (switched ?slot ?sb f1) = Ok pg2" "total_pages (header pg2) = page_count (seal_superblock ?sb)"
      "\<And>n. n \<noteq> 0 \<Longrightarrow> n \<le> page_count (seal_superblock ?sb) \<Longrightarrow> page_value pg2 n = file_page ?c n"
      "cow_state pg2 = Some \<lparr>active_superblock = seal_superblock ?sb, active_slot = ?slot, next_txid = sat_succ (generation (seal_superblock ?sb)), active_tx = None\<rparr>"
    by (rule reopen [of "switched ?slot ?sb f1" "seal_superblock ?sb" ?slot, unfolded cc, OF ch])
      (use switch_pages(2) [OF wf magic1(1)] magic1(2) P(6) in auto)
  have vals: "page_value pg2 n = page_value pg n" if n: "2 < n" for n
  proof (cases "in_range pg n")
    case True
    then have fp: "file_page (content f1) n = page_value pg n" using w(4) n by (simp add: holds_pages_def)
    obtain d where "page_value pg n = Some d" using get_page_value [OF inv True] by blast
    moreover have "n \<noteq> slot_page_num ?slot" using n slot_le_2 [of ?slot] by auto
    ultimately have "file_page ?c n = page_value pg n"
      using switch_pages(1) [OF wf, of n ?slot "content f1"] True fp by (simp add: in_range_def)
    then show ?thesis using pg2(3) [of n] True by (simp add: in_range_def)
  next
    case False
    then have "page_value pg n = None" "page_value pg2 n = None" using pg2(2) by (auto simp: page_value_def in_range_def)
    then show ?thesis by simp
  qed
  show ?thesis by (rule that [OF w(1,2,3) pg2(1)]) (simp_all add: pg2 vals)
qed

text \<open>
  C3: A committed transaction is durable. COMMIT writes the changed pages, syncs, writes the superblock of the next generation into
  the other slot and syncs; after it, opening the file, as far as it was synced, succeeds and gives every data page, the number of
  pages and the schema root of the transaction, with the new generation.
\<close>

theorem commit_durable:
  assumes "pager_inv pg" and "file_ok pg" and "backed pg" and "freed_ok pg" and "3 \<le> total_pages (header pg)"
    and "failpoint pg = None" and "\<not> bulk_mode pg" and "cow_state pg = Some s" and "active_tx s = Some tx"
    and "base_generation tx = generation (active_superblock s)" and "generation (active_superblock s) < target_generation tx"
  shows "\<exists>pg1 f1 pg2. commit_transaction z pg = (Ok (), pg1) \<and> pg_file pg1 = Some f1 \<and> synced f1 = content f1
    \<and> open_cow_v2 f1 = Ok pg2 \<and> total_pages (header pg2) = total_pages (header pg) \<and> (\<forall>n>2. page_value pg2 n = page_value pg n)
    \<and> map_option (generation \<circ> active_superblock) (cow_state pg2) = Some (target_generation tx)
    \<and> map_option (schema_root \<circ> active_superblock) (cow_state pg2) = Some (schema_root (active_superblock s))"
proof -
  let ?sb = "(active_superblock s)\<lparr>generation := target_generation tx, page_count := total_pages (header pg)\<rparr>"
  let ?slot = "slot_inactive (active_slot s)"
  from assms(2,8) obtain f where f: "pg_file pg = Some f" by (auto simp: file_ok_def split: option.splits)
  obtain pg1 f1 pg2 where w: "write_v2_data_pages z pg = (Ok (), pg1)" "wrote (set (dirty_pages pg)) (pg\<lparr>dirty_pages := []\<rparr>) pg1" "pg_file pg1 = Some f1"
      and o: "open_cow_v2 (switched ?slot ?sb f1) = Ok pg2" "total_pages (header pg2) = total_pages (header pg)"
        "\<forall>n>2. page_value pg2 n = page_value pg n" "map_option (generation \<circ> active_superblock) (cow_state pg2) = Some (target_generation tx)"
        "map_option (schema_root \<circ> active_superblock) (cow_state pg2) = Some (schema_root (active_superblock s))"
    by (rule switched_reopen [OF assms(1-3,5,8) f assms(11), where z = z])
  note W = wrote_fields [OF w(2)]
  define u where "u = upd_cow (\<lambda>s. s\<lparr>active_superblock := ?sb, active_slot := ?slot\<rparr>) (pg1\<lparr>pg_wal := None, pg_file := Some (switched ?slot ?sb f1)\<rparr>)"
  have sw: "write_and_switch z ?slot ?sb pg = (Ok (), u)"
    unfolding u_def using assms(1,6,7) W by (intro write_and_switch_ok [OF w(1,3)]) (simp_all add: pager_inv_def)
  have "freed_ok u" using assms(4) W assms(8,9) by (simp add: u_def freed_ok_def upd_cow_def in_range_def split: option.splits)
  moreover have "length (pages u) = unat (total_pages (header u))" "length (loaded u) = unat (total_pages (header u))"
    using assms(1) W by (simp_all add: u_def pager_inv_def)
  ultimately obtain pg3 where pg3: "publish_freed z u = (Ok (), pg3)" "pg_file pg3 = pg_file u"
    using publish_freed_ok by blast
  have tx: "in_transaction pg" using assms(8,9) by (simp add: in_transaction_def)
  obtain pg4 where pg4: "commit_transaction z pg = (Ok (), pg4)" "pg_file pg4 = Some (switched ?slot ?sb f1)"
    using sw pg3 tx assms(8-10)
    by (auto simp: commit_transaction_def commit_transaction_v2_def op_simps u_def)
  then show ?thesis using o switched_synced by (intro exI [of _ pg4] exI [of _ "switched ?slot ?sb f1"] exI [of _ pg2]) simp
qed

section \<open>A new database file\<close>

lemma create_file_pages:
  fixes a b l :: bytes
  assumes "length a = PAGE_SIZE" and "length b = PAGE_SIZE" and "length l = PAGE_SIZE"
  shows "write_at (2 * PAGE_SIZE) l (write_at (page_offset 2) b (write_at (page_offset 1) a [])) = a @ b @ l"
  using assms by (simp add: write_at_def page_offset_def)

lemma file_page_concat:
  assumes "length a = PAGE_SIZE" and "length b = PAGE_SIZE" and "length l = PAGE_SIZE"
  shows "file_page (a @ b @ l) 1 = Some a" "file_page (a @ b @ l) 2 = Some b" "file_page (a @ b @ l) 3 = Some l"
  using assms by (simp_all add: file_page_def read_at_def page_offset_def)

lemma create_ok:
  assumes u: "length uuid = 16"
  obtains pg where "create_cow_v2 None uuid = Ok pg" and "pager_inv pg" and "file_ok pg" and "backed pg" and "clean pg" and "\<not> in_transaction pg"
    and "total_pages (header pg) = 3" and "failpoint pg = None" and "\<not> bulk_mode pg"
    and "map_option (generation \<circ> active_superblock) (cow_state pg) = Some 1"
proof -
  let ?a = "(superblock_new uuid)\<lparr>generation := 1, page_count := 3\<rparr>" and ?l = "init_leaf_table_page (replicate PAGE_SIZE 0)"
  let ?b = "?a\<lparr>generation := 0\<rparr>"
  let ?c = "superblock_page ?a @ superblock_page ?b @ ?l"
  have wf: "superblock_wf ?a" "superblock_wf ?b" using superblock_new_wf [OF u] by (simp_all add: superblock_wf_def)
  have len: "length (superblock_page ?a) = PAGE_SIZE" "length (superblock_page ?b) = PAGE_SIZE" "length ?l = PAGE_SIZE"
    using wf length_leaf_page by (simp_all add: length_superblock_page superblock_wf_def)
  note fp = file_page_concat [OF len]
  have rd: "read_superblock ?c 1 = Ok (seal_superblock ?a)" "read_superblock ?c 2 = Ok (seal_superblock ?b)"
    unfolding read_superblock_def fp using superblock_page_deserialize [OF wf(1)] superblock_page_deserialize [OF wf(2)] by simp_all
  have fits: "superblock_fits_file (seal_superblock ?a) (length ?c)" using len by (simp add: superblock_fits_file_def)
  define f where "f = \<lparr>content = ?c, synced = ?c\<rparr>"
  have ch: "chosen (content f) = Ok (seal_superblock ?a, SlotA)"
    by (rule chosen_newest) (use rd fits in \<open>simp_all add: f_def\<close>)
  have magic: "take 16 (content f) = COW_MAGIC"
    using magic_of_page [OF fp(1)] superblock_page_magic [of ?a] wf by (simp add: f_def superblock_wf_def)
  have big: "PAGE_SIZE * 2 \<le> length (content f)" using len by (simp add: f_def)
  obtain pg where pg: "open_cow_v2 f = Ok pg" "pg_file pg = Some f" "total_pages (header pg) = page_count (seal_superblock ?a)"
      "pages pg = replicate (unat (page_count (seal_superblock ?a))) page_new" "loaded pg = replicate (unat (page_count (seal_superblock ?a))) False"
      "cow_state pg = Some \<lparr>active_superblock = seal_superblock ?a, active_slot = SlotA, next_txid = sat_succ (generation (seal_superblock ?a)), active_tx = None\<rparr>"
      "use_lz4 pg \<longleftrightarrow> sb_flags (seal_superblock ?a) AND FLAG_LZ4 \<noteq> 0" "failpoint pg = None" "bulk_mode pg = False" "dirty_pages pg = []"
    by (rule open_result [OF ch big magic])
  have lz: "sb_flags (superblock_new uuid) = 0" by (simp add: superblock_new_def)
  have U: "in_range pg n \<Longrightarrow> \<not> loaded pg ! page_idx n \<and> pages pg ! page_idx n = page_new" "page_value pg n = (if in_range pg n then on_disk pg n else None)" for n
    using unloaded_pager [of pg n] pg(3,4,5) by simp_all
  have "create_cow_v2 None uuid = open_cow_v2 f"
    using create_file_pages [OF len]
    by (simp add: create_cow_v2_def Let_def f_def file_sync_def file_write_def write_superblock_def)
  moreover have "pager_inv pg" "clean pg" "\<not> in_transaction pg" using open_reads [OF pg(1)] pg(7) lz by simp_all
  moreover have "backed pg" using U pg(10) by (simp add: backed_def page_new_def)
  moreover have "file_ok pg" using rd fits wf magic pg(2,6) lz by (simp add: file_ok_def superblock_current_def f_def superblock_wf_def seal_superblock_def)
  ultimately show ?thesis using pg by (intro that [of pg]) simp_all
qed

lemma file_ok_cong:
  assumes "pg_file pg' = pg_file pg" and "map_option active_superblock (cow_state pg') = map_option active_superblock (cow_state pg)"
    and "map_option active_slot (cow_state pg') = map_option active_slot (cow_state pg)"
  shows "file_ok pg' = file_ok pg"
  using assms by (cases "cow_state pg'"; cases "cow_state pg") (simp_all add: file_ok_def split: option.split)

lemma begin_keeps:
  assumes "begin_transaction pg = (Ok (), pg')"
  shows "file_ok pg' = file_ok pg" "backed pg' = backed pg" "freed_ok pg'" "header pg' = header pg" "failpoint pg' = failpoint pg"
    "bulk_mode pg' = bulk_mode pg" "fail_action pg' = fail_action pg"
    "\<exists>s tx. cow_state pg' = Some s \<and> active_tx s = Some tx \<and> base_generation tx = generation (active_superblock s)
      \<and> target_generation tx = sat_succ (generation (active_superblock s)) \<and> map_option active_superblock (cow_state pg) = Some (active_superblock s)"
proof -
  show "file_ok pg' = file_ok pg" by (rule file_ok_cong) (use assms in \<open>auto simp: begin_transaction_def Let_def split: if_splits option.splits\<close>)
qed (use assms in \<open>auto simp: begin_transaction_def Let_def backed_def freed_ok_def in_range_def page_value_def on_disk_def
      split: if_splits option.splits\<close>)

text \<open>A new database inside its first transaction.\<close>

lemma fresh_transaction:
  assumes "length uuid = 16"
  obtains pg0 pg s tx where "create_cow_v2 None uuid = Ok pg0" and "begin_transaction pg0 = (Ok (), pg)" and "pager_inv pg" and "file_ok pg"
    and "backed pg" and "freed_ok pg" and "3 \<le> total_pages (header pg)" and "failpoint pg = None" and "\<not> bulk_mode pg" and "cow_state pg = Some s"
    and "active_tx s = Some tx" and "base_generation tx = generation (active_superblock s)" and "generation (active_superblock s) < target_generation tx"
    and "target_generation tx = 2" and "generation (active_superblock s) = 1" and "in_transaction pg" and "header pg = header pg0"
proof -
  obtain pg0 where c: "create_cow_v2 None uuid = Ok pg0" "pager_inv pg0" "file_ok pg0" "backed pg0" "clean pg0" "\<not> in_transaction pg0"
      "total_pages (header pg0) = 3" "failpoint pg0 = None" "\<not> bulk_mode pg0"
      "map_option (generation \<circ> active_superblock) (cow_state pg0) = Some 1"
    by (rule create_ok [OF assms])
  obtain pg where b: "begin_transaction pg0 = (Ok (), pg)" "pager_inv pg" "in_transaction pg" by (rule begin_step [OF c(2,6,5)])
  note K = begin_keeps [OF b(1)]
  from K(8) obtain s tx where s: "cow_state pg = Some s" "active_tx s = Some tx" "base_generation tx = generation (active_superblock s)"
      "target_generation tx = sat_succ (generation (active_superblock s))" "map_option active_superblock (cow_state pg0) = Some (active_superblock s)"
    by auto
  have g: "generation (active_superblock s) = 1" using c(10) s(5) by auto
  then have "target_generation tx = 2" using s(4) by (simp add: sat_succ_def)
  with c b K s g show ?thesis by (intro that [of pg0 pg s tx]) simp_all
qed

theorem commit_durable_witness:
  "\<exists>pg0 pg pg1 f1 pg2. create_cow_v2 None (replicate 16 7) = Ok pg0 \<and> begin_transaction pg0 = (Ok (), pg)
    \<and> commit_transaction lz4_off pg = (Ok (), pg1) \<and> pg_file pg1 = Some f1 \<and> synced f1 = content f1
    \<and> open_cow_v2 f1 = Ok pg2 \<and> total_pages (header pg2) = total_pages (header pg)
    \<and> map_option (generation \<circ> active_superblock) (cow_state pg2) = Some 2"
proof -
  obtain pg0 pg s tx where t: "create_cow_v2 None (replicate 16 7) = Ok pg0" "begin_transaction pg0 = (Ok (), pg)" "pager_inv pg" "file_ok pg"
    "backed pg" "freed_ok pg" "3 \<le> total_pages (header pg)" "failpoint pg = None" "\<not> bulk_mode pg" "cow_state pg = Some s"
    "active_tx s = Some tx" "base_generation tx = generation (active_superblock s)" "generation (active_superblock s) < target_generation tx"
    "target_generation tx = 2"
    by (rule fresh_transaction [of "replicate 16 7"]) simp
  from commit_durable [OF t(3-13), of lz4_off] t(1,2,14) show ?thesis by auto
qed

lemma open_cow_v2_reads_file_witness:
  "\<exists>f pg. open_cow_v2 f = Ok pg \<and> \<not> use_lz4 pg \<and> pager_inv pg \<and> clean pg \<and> total_pages (header pg) = 3
    \<and> page_value pg 3 = file_page (content f) 3"
proof -
  obtain pg where c: "create_cow_v2 None (replicate 16 7) = Ok pg" "pager_inv pg" "total_pages (header pg) = 3"
    by (rule create_ok [of "replicate 16 7"]) simp
  then obtain f where f: "open_cow_v2 f = Ok pg" by (auto simp: create_cow_v2_def Let_def)
  have lz: "\<not> use_lz4 pg" using c(2) by (simp add: pager_inv_def)
  from open_cow_v2_reads_file [OF f lz] c(3) lz f show ?thesis by (intro exI [of _ f] exI [of _ pg]) simp
qed

end
