(* ===== verification/PagerCrash.thy ===== *)
theory PagerCrash
  imports PagerFile
begin

text \<open>
  Where the pager falls short of its design: a commit that is interrupted after its data pages were written has already
  changed them in place, a rollback to a savepoint does not restore pages that were changed before it, it leaves
  the pages that were freed after the savepoint in the list of freed pages, and with a write-ahead
  log a change of a page that is not cached starts from an outdated content.
\<close>

section \<open>An interrupted commit\<close>

lemma commit_aborts:
  assumes "write_v2_data_pages z pg = (Ok (), pg1)" and "pg_file pg1 = Some f1" and "pg_wal pg1 = None" and "\<not> bulk_mode pg1"
    and "failpoint pg1 = Some AfterDataPagesSync" and "fail_action pg1 = AbortProcess"
  shows "write_and_switch z slot sb pg = (Panic, pg1\<lparr>pg_wal := None, pg_file := Some (file_sync f1)\<rparr>)"
  using assms by (simp add: write_and_switch_def op_simps commit_wal_def sync_unless_deferred_def sync_db_file_def maybe_failpoint_def)

text \<open>
  A commit is not atomic. When the process dies after the data pages of a commit were synced and before
  the superblock is written, the next open finds the superblock of the old generation, as if the transaction had never
  committed, but every data page has the content that the transaction wrote.
\<close>

lemma interrupted_commit_exposes_writes:
  assumes "pager_inv pg" and "file_ok pg" and "backed pg" and "3 \<le> total_pages (header pg)"
    and "failpoint pg = Some AfterDataPagesSync" and "fail_action pg = AbortProcess" and "\<not> bulk_mode pg"
    and "cow_state pg = Some s" and "active_tx s = Some tx" and "base_generation tx = generation (active_superblock s)"
  shows "\<exists>pg1 f1 pg2. commit_transaction z pg = (Panic, pg1) \<and> pg_file pg1 = Some f1
    \<and> open_cow_v2 \<lparr>content = synced f1, synced = synced f1\<rparr> = Ok pg2
    \<and> map_option (generation \<circ> active_superblock) (cow_state pg2) = Some (generation (active_superblock s))
    \<and> (\<forall>n. 2 < n \<longrightarrow> n \<le> total_pages (header pg) \<longrightarrow> n \<le> total_pages (header pg2) \<longrightarrow> page_value pg2 n = page_value pg n)"
proof -
  from assms(2,8) obtain f where f: "pg_file pg = Some f" by (auto simp: file_ok_def split: option.splits)
  obtain sb where P: "read_superblock (content f) (slot_page_num (active_slot s)) = Ok sb" "superblock_fits_file sb (length (content f))"
      "db_uuid sb = db_uuid (active_superblock s)" "generation sb = generation (active_superblock s)" "sb_flags sb AND FLAG_LZ4 = 0"
      "\<And>sb'. read_superblock (content f) (slot_page_num (slot_inactive (active_slot s))) = Ok sb' \<Longrightarrow> db_uuid sb' = db_uuid sb \<and> generation sb' < generation sb"
      "take 16 (content f) = COW_MAGIC"
    using file_ok_parts [OF assms(2) f assms(8)] by metis
  obtain pg1 f1 where w: "write_v2_data_pages z pg = (Ok (), pg1)" "wrote (set (dirty_pages pg)) (pg\<lparr>dirty_pages := []\<rparr>) pg1" "pg_file pg1 = Some f1"
      "holds_pages (content f1) pg" "\<forall>k. k \<noteq> 0 \<longrightarrow> file_page (content f) k \<noteq> None \<longrightarrow> file_page (content f1) k \<noteq> None"
      "\<forall>k. k \<noteq> 0 \<longrightarrow> k \<le> 2 \<longrightarrow> file_page (content f) k \<noteq> None \<longrightarrow> file_page (content f1) k = file_page (content f) k"
    by (rule write_v2_data_pages_ok [OF assms(1,3) f assms(4), where z = z])
  note W = wrote_fields [OF w(2)]
  let ?r = "\<lparr>content = content f1, synced = content f1\<rparr>"
  have count: "3 \<le> page_count sb" "page_count sb \<noteq> 0" using P(2) by (auto simp: superblock_fits_file_def not_less split: if_splits)
  have pages: "file_page (content f) k \<noteq> None" if "k \<noteq> 0" "k \<le> page_count sb" for k using fits_pages [OF P(2) that] by auto
  have low: "file_page (content f1) (slot_page_num sl) = file_page (content f) (slot_page_num sl)" for sl
  proof -
    have "slot_page_num sl \<le> page_count sb" using order_trans [OF slot_le_2] count(1) by (auto simp: word_le_nat_alt)
    then show ?thesis using w(6) slot_le_2 pages by simp
  qed
  have rd: "read_superblock (content f1) (slot_page_num sl) = read_superblock (content f) (slot_page_num sl)" for sl
    by (rule read_superblock_eq [OF low])
  have "file_page (content f1) (page_count sb) \<noteq> None" using w(5) pages count(2) by simp
  then have "page_offset (page_count sb) + PAGE_SIZE \<le> length (content f1)" by (auto simp: file_page_def read_at_Some)
  then have fits: "superblock_fits_file sb (length (content f1))"
    using page_offset_end [OF count(2)] count(1) by (simp add: superblock_fits_file_def not_less)
  have ch: "chosen (content ?r) = Ok (sb, active_slot s)" by (rule chosen_newest) (use rd P fits in simp_all)
  have "file_page (content f1) 1 = file_page (content f) 1" "file_page (content f) 1 \<noteq> None"
    using low [of SlotA] pages [of 1] count(1) by (auto simp: word_le_nat_alt)
  then have magic: "take 16 (content ?r) = COW_MAGIC" using P(7) magic_of_page by force
  obtain pg2 where pg2: "open_cow_v2 ?r = Ok pg2" "total_pages (header pg2) = page_count sb"
      "\<And>n. n \<noteq> 0 \<Longrightarrow> n \<le> page_count sb \<Longrightarrow> page_value pg2 n = file_page (content ?r) n"
      "cow_state pg2 = Some \<lparr>active_superblock = sb, active_slot = active_slot s, next_txid = sat_succ (generation sb), active_tx = None\<rparr>"
    using reopen [OF ch magic P(5)] by metis
  have "page_value pg2 n = page_value pg n" if "2 < n" "n \<le> total_pages (header pg)" "n \<le> total_pages (header pg2)" for n
    using that pg2(2) pg2(3) [of n] w(4) by (cases "n = 0") (auto simp: holds_pages_def in_range_def)
  moreover have "commit_transaction z pg = (Panic, pg1\<lparr>pg_wal := None, pg_file := Some (file_sync f1)\<rparr>)"
    using commit_aborts [OF w(1,3)] assms(1,5-10) W
    by (simp add: commit_transaction_def commit_transaction_v2_def op_simps in_transaction_def pager_inv_def)
  ultimately show ?thesis using pg2 P(4)
    by (intro exI [of _ "pg1\<lparr>pg_wal := None, pg_file := Some (file_sync f1)\<rparr>"] exI [of _ "file_sync f1"] exI [of _ pg2]) (simp add: file_sync_def)
qed

lemma interrupted_commit_exposes_writes_witness:
  "\<exists>pg0 pg pg1 f1 pg2. create_cow_v2 None (replicate 16 7) = Ok pg0
    \<and> begin_transaction (set_failpoint_action AbortProcess (set_failpoint (Some AfterDataPagesSync) pg0)) = (Ok (), pg)
    \<and> commit_transaction lz4_off pg = (Panic, pg1) \<and> pg_file pg1 = Some f1 \<and> open_cow_v2 \<lparr>content = synced f1, synced = synced f1\<rparr> = Ok pg2
    \<and> map_option (generation \<circ> active_superblock) (cow_state pg2) = Some 1"
proof -
  obtain pg0 where c: "create_cow_v2 None (replicate 16 7) = Ok pg0" "pager_inv pg0" "file_ok pg0" "backed pg0" "clean pg0" "\<not> in_transaction pg0"
      "total_pages (header pg0) = 3" "\<not> bulk_mode pg0" "map_option (generation \<circ> active_superblock) (cow_state pg0) = Some 1"
    by (rule create_ok [of "replicate 16 7"]) simp
  let ?p = "set_failpoint_action AbortProcess (set_failpoint (Some AfterDataPagesSync) pg0)"
  have F: "header ?p = header pg0" "pages ?p = pages pg0" "loaded ?p = loaded pg0" "cow_state ?p = cow_state pg0" "pg_file ?p = pg_file pg0"
      "txn_snapshot ?p = txn_snapshot pg0" "pg_wal ?p = pg_wal pg0" "use_lz4 ?p = use_lz4 pg0" "lru_queue ?p = lru_queue pg0" "dirty_pages ?p = dirty_pages pg0"
      "bulk_mode ?p = bulk_mode pg0" "failpoint ?p = Some AfterDataPagesSync" "fail_action ?p = AbortProcess"
    by (simp_all add: set_failpoint_def set_failpoint_action_def)
  have none: "txn_snapshot pg0 = None" using c(2,6) by (simp add: pager_inv_def)
  have G: "on_disk ?p = on_disk pg0" "saved ?p = saved pg0" "base_total ?p = base_total pg0" "in_range ?p = in_range pg0" "page_value ?p = page_value pg0"
      "in_transaction ?p = in_transaction pg0" "clean ?p = clean pg0" "file_ok ?p = file_ok pg0" "snap_ok ?p = snap_ok pg0"
    by (simp_all add: F none on_disk_def saved_def base_total_def in_range_def page_value_def in_transaction_def clean_def file_ok_def snap_ok_def fun_eq_iff)
  have "page_ok ?p = page_ok pg0" by (simp add: page_ok_def F G fun_eq_iff)
  then have inv: "pager_inv ?p" "\<not> in_transaction ?p" "clean ?p" using c by (simp_all add: pager_inv_def F G)
  obtain pg where b: "begin_transaction ?p = (Ok (), pg)" "pager_inv pg" by (rule begin_step [OF inv])
  note K = begin_keeps [OF b(1)]
  from K(8) obtain s tx where s: "cow_state pg = Some s" "active_tx s = Some tx" "base_generation tx = generation (active_superblock s)"
      "map_option active_superblock (cow_state ?p) = Some (active_superblock s)"
    by auto
  have "backed ?p = backed pg0" by (simp add: backed_def F G)
  then have "\<exists>pg1 f1 pg2. commit_transaction lz4_off pg = (Panic, pg1) \<and> pg_file pg1 = Some f1
    \<and> open_cow_v2 \<lparr>content = synced f1, synced = synced f1\<rparr> = Ok pg2
    \<and> map_option (generation \<circ> active_superblock) (cow_state pg2) = Some (generation (active_superblock s))
    \<and> (\<forall>n. 2 < n \<longrightarrow> n \<le> total_pages (header pg) \<longrightarrow> n \<le> total_pages (header pg2) \<longrightarrow> page_value pg2 n = page_value pg n)"
    using c K F G s b by (intro interrupted_commit_exposes_writes) simp_all
  moreover have "generation (active_superblock s) = 1" using s(4) c(9) F by auto
  ultimately show ?thesis using c(1) b(1) by auto
qed

section \<open>Savepoints\<close>

text \<open>Evaluation of the pager's operations on a database in memory.\<close>

lemmas pager_eval = op_simps begin_transaction_def in_transaction_def pager_open_memory_def Let_def pager_make_def savepoint_def free_page_def
  modify_page_def get_page_mut_def check_page_def page_idx_def touch_page_def snapshot_page_def mark_dirty_def write_page_data_def upd_page_def
  link_freed_def upd_cow_def page_new_def named_def eq_ignore_ascii_case_def pager_rollback_to_savepoint_def rposition_def om_retain_def
  trim_snapshot_def truncate_pages_def page_value_def on_disk_def

lemmas commit_eval = commit_transaction_def commit_transaction_v2_def write_and_switch_def write_v2_data_pages_def commit_wal_def
  maybe_failpoint_def sync_unless_deferred_def sync_db_file_def write_v2_superblock_def write_superblock_memory_def publish_freed_def
  upd_superblock_def rotate_free_lists_def clear_snapshotted_def set_next_pointer_def

lemmas allocate_eval = allocate_page_def free_candidate_def extend_pages_def get_page_def MAX_PAGES_def schema_root_page_def superblock_new_def

text \<open>The root page of the schema is freed after a savepoint, and the transaction goes back to the savepoint.\<close>

definition free_and_return :: "(pager, unit) op" where
  "free_and_return = op_bind begin_transaction (\<lambda>_. op_bind (savepoint ''a'') (\<lambda>_. op_bind (free_page lz4_off 3) (\<lambda>_.
     pager_rollback_to_savepoint ''a'')))"

text \<open>
  A page that is freed after a savepoint stays in the list of freed pages when the transaction is rolled back to
  the savepoint. In a new database the root page of the schema is freed, the transaction is rolled back to the savepoint, so that the page is
  in use again with its old content, and committed; the next allocation hands out the root page of the schema.
\<close>

lemma savepoint_rollback_frees_live_page:
  "fst (free_and_return (pager_open_memory uuid)) = Ok ()
   \<and> page_value (snd (free_and_return (pager_open_memory uuid))) 3 = page_value (pager_open_memory uuid) 3
   \<and> fst (op_bind free_and_return (\<lambda>_. op_bind (commit_transaction lz4_off) (\<lambda>_. allocate_page lz4_off)) (pager_open_memory uuid)) = Ok 3
   \<and> schema_root_page (snd (op_bind free_and_return (\<lambda>_. commit_transaction lz4_off) (pager_open_memory uuid))) = 3"
  by (simp add: free_and_return_def pager_eval commit_eval allocate_eval)

text \<open>
  Rolling back to a savepoint does not undo a change to a page that the transaction had changed before the
  savepoint as well: the page keeps the later content, not the one it had at the savepoint.
\<close>

lemma savepoint_rollback_keeps_later_change:
  "\<exists>pg. op_bind begin_transaction (\<lambda>_. op_bind (modify_page z 3 (\<lambda>_. before)) (\<lambda>_. op_bind (savepoint ''a'') (\<lambda>_.
      op_bind (modify_page z 3 (\<lambda>_. later)) (\<lambda>_. pager_rollback_to_savepoint ''a'')))) (pager_open_memory uuid) = (Ok (), pg)
    \<and> page_value pg 3 = Some later"
  by (simp add: pager_eval)

text \<open>
  After a rollback to a savepoint, ROLLBACK no longer goes back to BEGIN: a page that the transaction allocated
  before the savepoint stays allocated.
\<close>

lemma rollback_after_savepoint_keeps_allocation:
  "\<exists>pg. op_bind begin_transaction (\<lambda>_. op_bind (allocate_page z) (\<lambda>_. op_bind (savepoint ''a'') (\<lambda>_.
      op_bind (pager_rollback_to_savepoint ''a'') (\<lambda>_. rollback_transaction)))) (pager_open_memory uuid) = (Ok (), pg)
    \<and> total_pages (header (pager_open_memory uuid)) = 3 \<and> total_pages (header pg) = 4"
  by (simp add: pager_eval allocate_eval rollback_transaction_def)

section \<open>Writing with a write-ahead log\<close>

text \<open>
  With a write-ahead log, a change of a page that is not cached starts from the content in the database file, also when the log holds a newer
  committed one: reading the page gives the newer content, changing it builds on the older one.
\<close>

lemma wal_mode_change_is_lost:
  assumes "in_range pg n" and "page_idx n < length (pages pg)" and "page_idx n < length (loaded pg)" and "\<not> loaded pg ! page_idx n"
    and "pg_wal pg = Some w" and "wal_read_page w n = Some newer" and "pg_file pg = Some f" and "file_page (content f) n = Some older"
    and "\<not> use_lz4 pg" and "lru_loaded_count pg \<le> max_buffer_pages pg"
  shows "\<exists>pg1 pg2. get_page z n pg = (Ok newer, pg1) \<and> modify_page z n g pg = (Ok (), pg2) \<and> page_value pg2 n = Some (g older)"
proof -
  have n: "n \<noteq> 0" "\<not> total_pages (header pg) < n" using assms(1) by (simp_all add: in_range_def not_less)
  have e: "evict_lru_if_needed pg = pg" using assms(10) by (simp add: evict_lru_if_needed_def)
  have "fst (get_page z n pg) = Ok newer"
    using assms n by (simp add: get_page_def op_simps check_page_def not_le e mark_loaded_def upd_page_def touch_page_def)
  then obtain pg1 where "get_page z n pg = (Ok newer, pg1)" by (metis prod.collapse)
  moreover obtain pg2 where "modify_page z n g pg = (Ok (), pg2)" "page_value pg2 n = Some (g older)"
  proof -
    let ?l = "mark_loaded n (upd_page (page_idx n) (\<lambda>p. p\<lparr>pdata := older\<rparr>) pg)"
    have "modify_page z n g pg = (Ok (), update_page n g (touch_page n ?l))"
      using assms n by (simp add: modify_page_def get_page_mut_def write_page_data_def op_simps check_page_def not_le load_from_disk_def
          load_page_from_disk_def e update_page_def)
    moreover have "page_value (update_page n g (touch_page n ?l)) n = Some (g older)"
      using assms n by (simp add: page_value_def update_page_slots touch_page_def mark_loaded_def upd_page_def)
    ultimately show ?thesis by (rule that)
  qed
  ultimately show ?thesis by blast
qed

text \<open>A database in a file of three pages whose third page has a newer version in the log.\<close>

definition sample_wal_pager :: pager where
  "sample_wal_pager = (pager_open_memory (replicate 16 7))\<lparr>pg_file := Some \<lparr>content = replicate (3 * PAGE_SIZE) 0, synced = []\<rparr>,
     loaded := [False, False, False], pg_wal := Some (wal_commit 3 (wal_write_page 3 (replicate PAGE_SIZE 1) (wal_open_memory 0 (replicate 16 7))))\<rparr>"

lemma wal_mode_change_is_lost_witness:
  "\<exists>pg1 pg2. get_page lz4_off 3 sample_wal_pager = (Ok (replicate PAGE_SIZE 1), pg1)
    \<and> modify_page lz4_off 3 (\<lambda>d. d[0 := 9]) sample_wal_pager = (Ok (), pg2) \<and> page_value pg2 3 = Some ((replicate PAGE_SIZE 0)[0 := 9])"
proof -
  have w: "wal_read_page (wal_commit 3 (wal_write_page 3 (replicate PAGE_SIZE 1) (wal_open_memory 0 (replicate 16 7)))) 3 = Some (replicate PAGE_SIZE 1)"
    by (simp add: sample_wal_simps wal_read_page_def wal_open_memory_def)
  show ?thesis
    by (rule wal_mode_change_is_lost [OF _ _ _ _ _ w, where f = "\<lparr>content = replicate (3 * PAGE_SIZE) 0, synced = []\<rparr>"])
      (simp_all add: sample_wal_pager_def pager_open_memory_def pager_make_def Let_def in_range_def page_idx_def file_page_def read_at_def page_offset_def)
qed

end
