(* ===== verification/Binlog.thy ===== *)
theory Binlog
  imports ValueTypes Framing
begin

text \<open>
  The binary log of \<^verbatim>\<open>src/src/binlog/mod.rs\<close>: the record format, the framed append-only log
  (length, checksum, payload) in its file-backed and in-memory modes, scanning from a position,
  and crash recovery. The checksum function of the \<^verbatim>\<open>crc32fast\<close> crate is a parameter
  \<open>crc\<close>; no property needs more of it than that it is a function. File operations succeed:
  the model has the file's content and the bytes a \<^verbatim>\<open>BufWriter\<close> still holds back.
\<close>

section \<open>Records\<close>

datatype log_record =
    Begin u64
  | Insert u64 bytes i64 row
  | Update u64 bytes i64 row row
  | Delete u64 bytes i64 "row option"
  | Prepare u64
  | Commit u64
  | Rollback u64
  | Sql bytes bytes u64

definition write_string :: "bytes \<Rightarrow> bytes \<Rightarrow> bytes" where
  "write_string s buf = write_varint_u64 (word_of_nat (length s)) buf @ s"

definition write_row :: "row \<Rightarrow> bytes \<Rightarrow> bytes" where
  "write_row row buf =
     (let row_buf = serialize_row_into row []
      in write_varint_u64 (word_of_nat (length row_buf)) buf @ row_buf)"

fun log_serialize :: "log_record \<Rightarrow> bytes \<Rightarrow> bytes" where
  "log_serialize (Begin txid) buf = write_varint_u64 txid (buf @ [1])"
| "log_serialize (Insert txid table_name rowid row) buf =
     write_row row (write_varint_u64 (zigzag_encode rowid)
       (write_string table_name (write_varint_u64 txid (buf @ [2]))))"
| "log_serialize (Update txid table_name rowid old_row new_row) buf =
     write_row new_row (write_row old_row (write_varint_u64 (zigzag_encode rowid)
       (write_string table_name (write_varint_u64 txid (buf @ [3])))))"
| "log_serialize (Delete txid table_name rowid row) buf =
     (let b = write_varint_u64 (zigzag_encode rowid)
                (write_string table_name (write_varint_u64 txid (buf @ [4])))
      in case row of Some r \<Rightarrow> write_row r (b @ [1]) | None \<Rightarrow> b @ [0])"
| "log_serialize (Prepare txid) buf = write_varint_u64 txid (buf @ [5])"
| "log_serialize (Commit txid) buf = write_varint_u64 txid (buf @ [6])"
| "log_serialize (Rollback txid) buf = write_varint_u64 txid (buf @ [7])"
| "log_serialize (Sql sql user_id raft_index) buf =
     write_string user_id (write_string sql (write_varint_u64 raft_index (buf @ [8])))"

definition read_string :: "bytes \<Rightarrow> (bytes \<times> nat) option res" where
  "read_string data =
     opt_bind (res_ok (read_varint_u64 data)) (\<lambda>(len, n).
     res_bind (usize_add n (unat len)) (\<lambda>stop.
       if length data < stop then Ok None
       else res_bind (slice_range data n stop) (\<lambda>s.
         if utf8_valid s then Ok (Some (s, stop)) else Ok None)))"

definition read_row :: "bytes \<Rightarrow> (row \<times> nat) option res" where
  "read_row data =
     opt_bind (res_ok (read_varint_u64 data)) (\<lambda>(len, n).
     res_bind (usize_add n (unat len)) (\<lambda>stop.
       if length data < stop then Ok None
       else res_bind (slice_range data n stop) (\<lambda>s.
         opt_bind (res_ok (deserialize_row s)) (\<lambda>row. Ok (Some (row, stop))))))"

text \<open>Reading one field at an offset: the slice \<open>&data[off..]\<close>, then the reader.\<close>

definition varint_at :: "bytes \<Rightarrow> nat \<Rightarrow> (u64 \<times> nat) option res" where
  "varint_at data off = res_bind (slice_from data off) (\<lambda>d. res_ok (read_varint_u64 d))"

definition string_at :: "bytes \<Rightarrow> nat \<Rightarrow> (bytes \<times> nat) option res" where
  "string_at data off = res_bind (slice_from data off) read_string"

definition row_at :: "bytes \<Rightarrow> nat \<Rightarrow> (row \<times> nat) option res" where
  "row_at data off = res_bind (slice_from data off) read_row"

definition log_deserialize :: "bytes \<Rightarrow> nat \<Rightarrow> (log_record \<times> nat) option res" where
  "log_deserialize data pos =
     (if length data \<le> pos then Ok None
      else let tag = data ! pos; off = pos + 1 in
        if tag = 1 then
          opt_bind (varint_at data off) (\<lambda>(txid, n). Ok (Some (Begin txid, off + n)))
        else if tag = 2 then
          opt_bind (varint_at data off) (\<lambda>(txid, n). let off = off + n in
          opt_bind (string_at data off) (\<lambda>(table_name, n). let off = off + n in
          opt_bind (varint_at data off) (\<lambda>(rowid_enc, n). let off = off + n in
          opt_bind (row_at data off) (\<lambda>(row, n). let off = off + n in
            Ok (Some (Insert txid table_name (zigzag_decode rowid_enc) row, off))))))
        else if tag = 3 then
          opt_bind (varint_at data off) (\<lambda>(txid, n). let off = off + n in
          opt_bind (string_at data off) (\<lambda>(table_name, n). let off = off + n in
          opt_bind (varint_at data off) (\<lambda>(rowid_enc, n). let off = off + n in
          opt_bind (row_at data off) (\<lambda>(old_row, n). let off = off + n in
          opt_bind (row_at data off) (\<lambda>(new_row, n). let off = off + n in
            Ok (Some (Update txid table_name (zigzag_decode rowid_enc) old_row new_row, off)))))))
        else if tag = 4 then
          opt_bind (varint_at data off) (\<lambda>(txid, n). let off = off + n in
          opt_bind (string_at data off) (\<lambda>(table_name, n). let off = off + n in
          opt_bind (varint_at data off) (\<lambda>(rowid_enc, n). let off = off + n in
            if length data \<le> off then Ok None
            else if data ! off \<noteq> 0 then
              opt_bind (row_at data (off + 1)) (\<lambda>(r, n).
                Ok (Some (Delete txid table_name (zigzag_decode rowid_enc) (Some r), off + 1 + n)))
            else Ok (Some (Delete txid table_name (zigzag_decode rowid_enc) None, off + 1)))))
        else if tag = 5 then
          opt_bind (varint_at data off) (\<lambda>(txid, n). Ok (Some (Prepare txid, off + n)))
        else if tag = 6 then
          opt_bind (varint_at data off) (\<lambda>(txid, n). Ok (Some (Commit txid, off + n)))
        else if tag = 7 then
          opt_bind (varint_at data off) (\<lambda>(txid, n). Ok (Some (Rollback txid, off + n)))
        else if tag = 8 then
          opt_bind (varint_at data off) (\<lambda>(raft_index, n). let off = off + n in
          opt_bind (string_at data off) (\<lambda>(sql, n). let off = off + n in
          opt_bind (string_at data off) (\<lambda>(user_id, n). let off = off + n in
            Ok (Some (Sql sql user_id raft_index, off)))))
        else Ok None)"

section \<open>The log\<close>

record binlog_manager =
  file_backed :: bool
  disk :: bytes
  pending :: bytes
  write_pos :: nat
  mem_buf :: bytes

definition BUF_CAPACITY :: nat where
  "BUF_CAPACITY = 64 * 1024"

definition binlog_open :: "bytes \<Rightarrow> binlog_manager" where
  "binlog_open content =
     \<lparr>file_backed = True, disk = content, pending = [], write_pos = length content, mem_buf = []\<rparr>"

definition binlog_open_memory :: binlog_manager where
  "binlog_open_memory =
     \<lparr>file_backed = False, disk = [], pending = [], write_pos = 0, mem_buf = []\<rparr>"

definition bufw_flush :: "binlog_manager \<Rightarrow> binlog_manager" where
  "bufw_flush m = m\<lparr>disk := disk m @ pending m, pending := []\<rparr>"

text \<open>\<open>BufWriter::write_all\<close>: data that fits goes to the buffer; otherwise the buffer is flushed
  first, and data as large as the buffer goes to the file directly.\<close>

definition bufw_write :: "bytes \<Rightarrow> binlog_manager \<Rightarrow> binlog_manager" where
  "bufw_write data m =
     (if length data \<le> BUF_CAPACITY - length (pending m) \<and> length data < BUF_CAPACITY
      then m\<lparr>pending := pending m @ data\<rparr>
      else let m' = (if BUF_CAPACITY - length (pending m) < length data then bufw_flush m else m) in
        if BUF_CAPACITY \<le> length data then m'\<lparr>disk := disk m' @ data\<rparr>
        else m'\<lparr>pending := pending m' @ data\<rparr>)"

definition frame_header :: "(bytes \<Rightarrow> u32) \<Rightarrow> bytes \<Rightarrow> bytes" where
  "frame_header crc record_buf =
     le_bytes 4 (word_of_nat (length record_buf) :: u32) @ le_bytes 4 (crc record_buf)"

definition binlog_append :: "(bytes \<Rightarrow> u32) \<Rightarrow> log_record \<Rightarrow> binlog_manager \<Rightarrow> nat \<times> binlog_manager" where
  "binlog_append crc record m =
     (let start_pos = write_pos m;
          record_buf = log_serialize record [];
          header = frame_header crc record_buf;
          m' = (if file_backed m then bufw_write record_buf (bufw_write header m)
                else m\<lparr>mem_buf := mem_buf m @ header @ record_buf\<rparr>)
      in (start_pos, m'\<lparr>write_pos := write_pos m + (8 + length record_buf)\<rparr>))"

definition binlog_fsync :: "binlog_manager \<Rightarrow> binlog_manager" where
  "binlog_fsync m = (if file_backed m then bufw_flush m else m)"

text \<open>The frame at a position: its payload and the position after it, when the header is there, the
  payload is complete and its checksum matches.\<close>

definition frame_at :: "(bytes \<Rightarrow> u32) \<Rightarrow> bytes \<Rightarrow> nat \<Rightarrow> (bytes \<times> nat) option" where
  "frame_at crc content pos =
     (if pos + 8 \<le> length content then
        (let record_len = unat (from_le (take 4 (drop pos content)) :: u32);
             stored_crc = from_le (take 4 (drop (pos + 4) content)) :: u32;
             data_start = pos + 8;
             data_end = data_start + record_len
         in if length content < data_end then None
            else if crc (take record_len (drop data_start content)) \<noteq> stored_crc then None
            else Some (take record_len (drop data_start content), data_end))
      else None)"

lemma frame_at_Some:
  "frame_at crc content pos = Some (payload, next) \<Longrightarrow> pos + 8 \<le> next \<and> next \<le> length content"
  by (auto simp: frame_at_def Let_def split: if_splits)

function scan_frames :: "(bytes \<Rightarrow> u32) \<Rightarrow> bytes \<Rightarrow> nat \<Rightarrow> (nat \<times> bytes) list" where
  "scan_frames crc content pos =
     (case frame_at crc content pos of
        None \<Rightarrow> []
      | Some (payload, data_end) \<Rightarrow>
          (data_end, take (data_end - pos) (drop pos content)) # scan_frames crc content data_end)"
  by pat_completeness auto
termination
  by (relation "measure (\<lambda>(crc, content, pos). length content - pos)") (auto dest!: frame_at_Some)

declare scan_frames.simps [simp del]

definition binlog_read_from :: "(bytes \<Rightarrow> u32) \<Rightarrow> nat \<Rightarrow> binlog_manager \<Rightarrow> (nat \<times> bytes) list" where
  "binlog_read_from crc from_pos m =
     (if file_backed m then scan_frames crc (disk m) from_pos else scan_frames crc (mem_buf m) from_pos)"

text \<open>The recovery loop: the transactions prepared, those ended, and the end of the last valid record.\<close>

function recover_loop ::
  "(bytes \<Rightarrow> u32) \<Rightarrow> bytes \<Rightarrow> nat \<Rightarrow> u64 set \<Rightarrow> u64 set \<Rightarrow> (u64 set \<times> u64 set \<times> nat) res" where
  "recover_loop crc content pos prepared committed =
     (case frame_at crc content pos of
        None \<Rightarrow> Ok (prepared, committed, pos)
      | Some (payload, data_end) \<Rightarrow>
          res_bind (log_deserialize payload 0) (\<lambda>r.
            case r of
              None \<Rightarrow> Ok (prepared, committed, pos)
            | Some (record, _) \<Rightarrow>
                (case record of
                   Prepare txid \<Rightarrow> recover_loop crc content data_end (insert txid prepared) committed
                 | Commit txid \<Rightarrow> recover_loop crc content data_end prepared (insert txid committed)
                 | Rollback txid \<Rightarrow> recover_loop crc content data_end prepared (insert txid committed)
                 | _ \<Rightarrow> recover_loop crc content data_end prepared committed)))"
  by pat_completeness auto
termination
  by (relation "measure (\<lambda>(crc, content, pos, _). length content - pos)") (auto dest!: frame_at_Some)

declare recover_loop.simps [simp del]

definition binlog_recover :: "(bytes \<Rightarrow> u32) \<Rightarrow> binlog_manager \<Rightarrow> (u64 set \<times> binlog_manager) res" where
  "binlog_recover crc m =
     (if \<not> file_backed m then Ok ({}, m)
      else let m' = bufw_flush m; content = disk m' in
        res_bind (recover_loop crc content 0 {} {}) (\<lambda>(prepared, committed, last_valid).
          let m'' = (if last_valid < length content then m'\<lparr>disk := take last_valid content\<rparr> else m')
          in Ok (prepared - committed, m''\<lparr>write_pos := last_valid\<rparr>)))"

section \<open>Fields\<close>

abbreviation lstring :: "bytes \<Rightarrow> bytes" where
  "lstring s \<equiv> varint (word_of_nat (length s)) @ s"

abbreviation lrow :: "row \<Rightarrow> bytes" where
  "lrow row \<equiv> varint (word_of_nat (length (serialize_row row))) @ serialize_row row"

lemma write_string_eq: "write_string s buf = buf @ lstring s"
  by (simp add: write_string_def write_varint_u64_append [of _ buf])

lemma write_row_eq: "write_row row buf = buf @ lrow row"
  by (simp add: write_row_def Let_def serialize_row_into_eq write_varint_u64_append [of _ buf])

definition wf_string :: "bytes \<Rightarrow> bool" where
  "wf_string s \<longleftrightarrow> utf8_valid s \<and> length s < 2 ^ 63"

lemma slice_range_after: "slice_range (varint w @ s @ rest) (length (varint w)) (length (varint w) + length s) = Ok s"
  by (rule slice_range_append_mid)

lemma usize_add_varint: "n < 2 ^ 63 \<Longrightarrow> usize_add (length (varint w)) n = Ok (length (varint w) + n)"
  using varint_length_le [of w] by (simp add: usize_add_def)

lemma unat_of_len: "n < 2 ^ 63 \<Longrightarrow> unat (word_of_nat n :: u64) = n"
  by (simp add: unat_of_nat)

lemma read_string_lstring:
  "wf_string s \<Longrightarrow> read_string (lstring s @ rest) = Ok (Some (s, length (lstring s)))"
  by (simp add: read_string_def wf_string_def read_write_varint unat_of_len usize_add_varint slice_range_after)

interpretation string_codec: field_codec lstring read_string wf_string
  by unfold_locales (rule read_string_lstring)

lemma serialize_row_length: "wf_row row \<Longrightarrow> length (serialize_row row) < 2 ^ 63"
proof -
  assume wf: "wf_row row"
  have "length (serialize v) \<le> MAX_VALUE_LEN + 11" if "v \<in> set row" for v
  proof -
    from wf that have "wf_value v" by (simp add: wf_row_def list_all_iff)
    then have "serialized_size v \<le> MAX_VALUE_LEN + 10" by (cases v) simp_all
    with serialize_length_le [of v] show ?thesis by simp
  qed
  then have "sum_list (map (\<lambda>v. length (serialize v)) row) \<le> sum_list (map (\<lambda>_. MAX_VALUE_LEN + 11) row)"
    by (rule sum_list_mono)
  also have "\<dots> = length row * (MAX_VALUE_LEN + 11)" by (simp add: sum_list_triv)
  also have "\<dots> \<le> MAX_COLUMNS * (MAX_VALUE_LEN + 11)" using wf by (intro mult_right_mono) (simp_all add: wf_row_def)
  finally show ?thesis
    using varint_length_le [of "word_of_nat (length row)"]
    by (simp add: serialize_row_eq length_concat comp_def MAX_COLUMNS_def MAX_VALUE_LEN_def)
qed

lemma read_row_lrow: "wf_row row \<Longrightarrow> read_row (lrow row @ rest) = Ok (Some (row, length (lrow row)))"
  using deserialize_row_serialize [of row "[]"] serialize_row_length [of row]
  by (simp add: read_row_def read_write_varint unat_of_len usize_add_varint slice_range_after)

interpretation row_codec: field_codec lrow read_row wf_row
  by unfold_locales (rule read_row_lrow)

lemmas field_defs = varint_at_def string_at_def row_at_def

section \<open>Records: decoding what was encoded\<close>

fun wf_record :: "log_record \<Rightarrow> bool" where
  "wf_record (Insert _ t _ r) = (wf_string t \<and> wf_row r)"
| "wf_record (Update _ t _ r r') = (wf_string t \<and> wf_row r \<and> wf_row r')"
| "wf_record (Delete _ t _ r) = (wf_string t \<and> (case r of None \<Rightarrow> True | Some x \<Rightarrow> wf_row x))"
| "wf_record (Sql s u _) = (wf_string s \<and> wf_string u)"
| "wf_record _ = True"

lemma log_serialize_append: "log_serialize r buf = buf @ log_serialize r []"
  by (cases r)
    (simp_all add: write_string_eq write_row_eq write_varint_u64_append [of _ "_ @ _"]
      write_varint_u64_append [of _ "_ # _"] Let_def split: option.splits)

lemma log_serialize_eqs:
  "log_serialize (Begin x) [] = 1 # varint x"
  "log_serialize (Insert x t i r) [] = 2 # varint x @ lstring t @ varint (zigzag_encode i) @ lrow r"
  "log_serialize (Update x t i r r') [] =
     3 # varint x @ lstring t @ varint (zigzag_encode i) @ lrow r @ lrow r'"
  "log_serialize (Delete x t i d) [] =
     4 # varint x @ lstring t @ varint (zigzag_encode i) @ (case d of None \<Rightarrow> [0] | Some r \<Rightarrow> 1 # lrow r)"
  "log_serialize (Prepare x) [] = 5 # varint x"
  "log_serialize (Commit x) [] = 6 # varint x"
  "log_serialize (Rollback x) [] = 7 # varint x"
  "log_serialize (Sql s u x) [] = 8 # varint x @ lstring s @ lstring u"
  by (simp_all add: write_string_eq write_row_eq write_varint_u64_append [of _ "_ @ _"]
      write_varint_u64_append [of _ "_ # _"] Let_def split: option.splits)

declare log_serialize.simps [simp del]

lemmas varint_field = varint_codec.field.field_step [OF TrueI, folded varint_at_def]
lemmas string_field = string_codec.field_step [folded string_at_def]
lemmas row_field = row_codec.field_step [folded row_at_def]

lemma drop_Suc_append: "drop (length pre + 1) (pre @ a # xs) = xs" "length pre + 1 \<le> length (pre @ a # xs)"
  by simp_all

text \<open>The fields that the row records have in common.\<close>

lemma record_head:
  assumes "wf_string t" and "off \<le> length data" and "drop off data = varint x @ lstring t @ varint z @ rest"
  shows "varint_at data off = Ok (Some (x, length (varint x)))"
    and "string_at data (off + length (varint x)) = Ok (Some (t, length (lstring t)))"
    and "varint_at data (off + length (varint x) + length (lstring t)) = Ok (Some (z, length (varint z)))"
    and "off + length (varint x) + length (lstring t) + length (varint z) \<le> length data"
    and "drop (off + length (varint x) + length (lstring t) + length (varint z)) data = rest"
proof -
  note 1 = varint_field [OF assms(2,3)]
  note 2 = string_field [OF assms(1) 1(2,3)]
  note 3 = varint_field [OF 2(2,3)]
  from 1(1) 2(1) 3 show "varint_at data off = Ok (Some (x, length (varint x)))"
    and "string_at data (off + length (varint x)) = Ok (Some (t, length (lstring t)))"
    and "varint_at data (off + length (varint x) + length (lstring t)) = Ok (Some (z, length (varint z)))"
    and "off + length (varint x) + length (lstring t) + length (varint z) \<le> length data"
    and "drop (off + length (varint x) + length (lstring t) + length (varint z)) data = rest"
    by auto
qed

lemma drop_Cons_less: "drop n xs = y # ys \<Longrightarrow> n < length xs"
  by (metis drop_eq_Nil list.distinct(1) not_le)

lemma drop_Cons_Suc:
  assumes "drop n xs = y # ys"
  shows "n + 1 \<le> length xs" and "drop (n + 1) xs = ys"
  using assms drop_Cons_less [OF assms] Cons_nth_drop_Suc [of n xs] by simp_all

lemma log_serialize_Cons: "log_serialize r [] \<noteq> []"
  by (cases r) (simp_all add: log_serialize_eqs)

lemma log_deserialize_at:
  assumes "wf_record r"
  shows "log_deserialize (pre @ log_serialize r [] @ rest) (length pre)
     = Ok (Some (r, length pre + length (log_serialize r [])))"
proof -
  define data where "data = pre @ log_serialize r [] @ rest"
  let ?off = "length pre + 1"
  have data: "length pre < length data" "data ! length pre = hd (log_serialize r [])"
    "?off \<le> length data" "drop ?off data = tl (log_serialize r []) @ rest"
    using log_serialize_Cons [of r] by (auto simp: data_def neq_Nil_conv nth_append)
  have "log_deserialize data (length pre) = Ok (Some (r, length pre + length (log_serialize r [])))"
  proof (cases r)
    case (Insert x t i row)
    with assms have wf: "wf_string t" "wf_row row" by simp_all
    from Insert data have "drop ?off data = varint x @ lstring t @ varint (zigzag_encode i) @ lrow row @ rest"
      by (simp add: log_serialize_eqs)
    note h = record_head [OF wf(1) data(3) this]
    from row_field(1) [OF wf(2) h(4,5)] h(1-3) Insert data(1,2) show ?thesis
      by (simp add: log_deserialize_def log_serialize_eqs zigzag_round_trip add.assoc)
  next
    case (Update x t i row row')
    with assms have wf: "wf_string t" "wf_row row" "wf_row row'" by simp_all
    from Update data have "drop ?off data =
        varint x @ lstring t @ varint (zigzag_encode i) @ lrow row @ lrow row' @ rest"
      by (simp add: log_serialize_eqs)
    note h = record_head [OF wf(1) data(3) this]
    note r1 = row_field [OF wf(2) h(4,5)]
    from row_field(1) [OF wf(3) r1(2,3)] r1(1) h(1-3) Update data(1,2) show ?thesis
      by (simp add: log_deserialize_def log_serialize_eqs zigzag_round_trip add.assoc)
  next
    case (Delete x t i d)
    with assms have wf: "wf_string t" by simp
    show ?thesis
    proof (cases d)
      case None
      with Delete data have "drop ?off data = varint x @ lstring t @ varint (zigzag_encode i) @ 0 # rest"
        by (simp add: log_serialize_eqs)
      note h = record_head [OF wf(1) data(3) this]
      note flag = nth_via_drop [OF h(5)] drop_Cons_less [OF h(5)]
      from flag h(1-3) Delete None data(1,2) show ?thesis
        by (simp add: log_deserialize_def log_serialize_eqs zigzag_round_trip add.assoc)
    next
      case (Some row)
      with assms Delete have wfr: "wf_row row" by simp
      from Delete Some data have "drop ?off data =
          varint x @ lstring t @ varint (zigzag_encode i) @ 1 # lrow row @ rest"
        by (simp add: log_serialize_eqs)
      note h = record_head [OF wf(1) data(3) this]
      note flag = nth_via_drop [OF h(5)] drop_Cons_less [OF h(5)]
      from row_field(1) [OF wfr drop_Cons_Suc [OF h(5)]] flag h(1-3) Delete Some data(1,2) show ?thesis
        by (simp add: log_deserialize_def log_serialize_eqs zigzag_round_trip add.assoc)
    qed
  next
    case (Sql s u x)
    with assms have wf: "wf_string s" "wf_string u" by simp_all
    from Sql data have "drop ?off data = varint x @ lstring s @ lstring u @ rest"
      by (simp add: log_serialize_eqs)
    note 1 = varint_field [OF data(3) this]
    note 2 = string_field [OF wf(1) 1(2,3)]
    from string_field(1) [OF wf(2) 2(2,3)] 1(1) 2(1) Sql data(1,2) show ?thesis
      by (simp add: log_deserialize_def log_serialize_eqs add.assoc)
  qed (use data varint_field(1) [OF data(3)] in \<open>simp_all add: log_deserialize_def log_serialize_eqs\<close>)
  then show ?thesis by (simp add: data_def)
qed

section \<open>Frames\<close>

definition frame :: "(bytes \<Rightarrow> u32) \<Rightarrow> bytes \<Rightarrow> bytes" where
  "frame crc payload = frame_header crc payload @ payload"

definition fits_frame :: "bytes \<Rightarrow> bool" where
  "fits_frame p \<longleftrightarrow> length p < 2 ^ 32"

lemma length_frame [simp]: "length (frame crc p) = 8 + length p"
  by (simp add: frame_def frame_header_def)

lemma frame_at_frame:
  assumes "fits_frame p"
  shows "frame_at crc (frame crc p @ rest) 0 = Some (p, length (frame crc p))"
proof -
  have "unat (word_of_nat (length p) :: u32) = length p"
    using assms by (simp add: fits_frame_def unat_of_nat)
  then show ?thesis by (simp add: frame_at_def frame_def frame_header_def Let_def)
qed

lemma frame_at_torn:
  assumes "fits_frame p" and "k < length (frame crc p)"
  shows "frame_at crc (take k (frame crc p)) 0 = None"
proof -
  have len: "unat (word_of_nat (length p) :: u32) = length p"
    using assms by (simp add: fits_frame_def unat_of_nat)
  have "take 4 (take k (frame crc p)) = le_bytes 4 (word_of_nat (length p) :: u32)" if "8 \<le> k"
    using that by (simp add: frame_def frame_header_def min_def)
  with assms len show ?thesis by (simp add: frame_at_def Let_def)
qed

lemma frame_at_drop:
  "pos \<le> length content \<Longrightarrow>
     frame_at crc content pos = map_option (\<lambda>(p, n). (p, pos + n)) (frame_at crc (drop pos content) 0)"
  by (auto simp: frame_at_def Let_def add.commute add.left_commute)

interpretation binlog_frames: framed_log "frame crc" "\<lambda>data. frame_at crc data 0" fits_frame
  for crc
  by unfold_locales (simp_all add: frame_at_frame frame_at_torn del: length_frame, simp add: frame_def frame_header_def le_bytes_def)

lemma frame_at_inverse:
  assumes "frame_at crc content 0 = Some (p, n)"
  shows "take n content = frame crc p \<and> fits_frame p \<and> n = length (frame crc p)"
proof -
  let ?len = "from_le (take 4 content) :: u32"
  have len: "8 \<le> length content" "n = 8 + unat ?len" "n \<le> length content"
    "p = take (unat ?len) (drop 8 content)" "from_le (take 4 (drop 4 content)) = crc p"
    using assms by (auto simp: frame_at_def Let_def split: if_splits)
  have p: "length p = unat ?len" using len by simp
  have "le_bytes 4 ?len = take 4 content" "le_bytes 4 (crc p) = take 4 (drop 4 content)"
    using len(1) by (simp_all add: le_bytes_from_le flip: len(5))
  then have "frame crc p = take 4 content @ take 4 (drop 4 content) @ p"
    by (simp add: frame_def frame_header_def p word_of_nat_eq_iff)
  also have "\<dots> = take 8 content @ p"
    by (simp flip: append_assoc take_add)
  also have "\<dots> = take n content" unfolding len(2) by (simp add: take_add len(4))
  finally show ?thesis using p len(2,3) unsigned_less [of ?len, where ?'a = nat]
    by (simp add: fits_frame_def)
qed

fun positioned :: "nat \<Rightarrow> bytes list \<Rightarrow> (nat \<times> bytes) list" where
  "positioned pos [] = []"
| "positioned pos (f # fs) = (pos + length f, f) # positioned (pos + length f) fs"

lemma scan_frames_payloads:
  "pos \<le> length content \<Longrightarrow> scan_frames crc content pos =
     positioned pos (map (frame crc) (fst (payloads (\<lambda>d. frame_at crc d 0) (drop pos content))))"
proof (induction crc content pos rule: scan_frames.induct)
  case (1 crc content pos)
  show ?case
  proof (cases "frame_at crc (drop pos content) 0")
    case None
    with 1 show ?thesis
      by (subst scan_frames.simps) (simp add: frame_at_drop [of pos content crc] payloads_None)
  next
    case (Some a)
    obtain p n where a: "a = (p, n)" by (cases a)
    with Some have n: "frame_at crc (drop pos content) 0 = Some (p, n)" by simp
    from frame_at_inverse [OF n] have inv: "take n (drop pos content) = frame crc p" "length (frame crc p) = n"
      by blast+
    from frame_at_Some [OF n] have bounds: "0 < n" "n \<le> length (drop pos content)" by auto
    from 1 n have at: "frame_at crc content pos = Some (p, pos + n)"
      by (simp add: frame_at_drop [of pos content crc])
    have "scan_frames crc content (pos + n) = positioned (pos + n)
        (map (frame crc) (fst (payloads (\<lambda>d. frame_at crc d 0) (drop (pos + n) content))))"
      using 1 at bounds by (intro "1.IH") auto
    with at inv payloads_Some [of "\<lambda>d. frame_at crc d 0", OF n bounds] show ?thesis
      by (subst scan_frames.simps) (simp add: add.commute del: length_frame)
  qed
qed

section \<open>Appending and reading back\<close>

definition log_image :: "(bytes \<Rightarrow> u32) \<Rightarrow> log_record list \<Rightarrow> bytes" where
  "log_image crc rs = concat (map (frame crc) (map (\<lambda>r. log_serialize r []) rs))"

definition loggable :: "log_record \<Rightarrow> bool" where
  "loggable r \<longleftrightarrow> wf_record r \<and> fits_frame (log_serialize r [])"

fun append_all :: "(bytes \<Rightarrow> u32) \<Rightarrow> log_record list \<Rightarrow> binlog_manager \<Rightarrow> binlog_manager" where
  "append_all crc [] m = m"
| "append_all crc (r # rs) m = append_all crc rs (snd (binlog_append crc r m))"

text \<open>The bytes the manager is responsible for, wherever they are.\<close>

definition log_content :: "binlog_manager \<Rightarrow> bytes" where
  "log_content m = (if file_backed m then disk m @ pending m else mem_buf m)"

lemma log_content_bufw_write:
  "disk (bufw_write data m) @ pending (bufw_write data m) = disk m @ pending m @ data"
proof (cases "length data \<le> BUF_CAPACITY - length (pending m) \<and> BUF_CAPACITY \<le> length data")
  case True
  then have "BUF_CAPACITY \<le> BUF_CAPACITY - length (pending m)" by (elim conjE) (rule le_trans)
  then have "length (pending m) = 0" unfolding BUF_CAPACITY_def by arith
  then show ?thesis by (simp add: bufw_write_def bufw_flush_def Let_def)
next
  case False
  then show ?thesis by (auto simp: bufw_write_def bufw_flush_def Let_def)
qed

lemma bufw_write_fields [simp]:
  "file_backed (bufw_write data m) = file_backed m" "mem_buf (bufw_write data m) = mem_buf m"
  "write_pos (bufw_write data m) = write_pos m"
  by (simp_all add: bufw_write_def bufw_flush_def Let_def)

lemma binlog_append_content:
  "log_content (snd (binlog_append crc r m)) = log_content m @ frame crc (log_serialize r [])"
  by (simp add: binlog_append_def log_content_def Let_def frame_def log_content_bufw_write
      flip: append_assoc)

lemma binlog_append_fields:
  "file_backed (snd (binlog_append crc r m)) = file_backed m"
  "write_pos (snd (binlog_append crc r m)) = write_pos m + length (frame crc (log_serialize r []))"
  "fst (binlog_append crc r m) = write_pos m"
  by (simp_all add: binlog_append_def Let_def)

lemma append_all_content: "log_content (append_all crc rs m) = log_content m @ log_image crc rs"
  by (induction rs arbitrary: m) (simp_all add: log_image_def binlog_append_content)

lemma append_all_fields:
  "file_backed (append_all crc rs m) = file_backed m"
  "write_pos (append_all crc rs m) = write_pos m + length (log_image crc rs)"
  by (induction rs arbitrary: m) (simp_all add: log_image_def binlog_append_fields)

lemma binlog_fsync_content:
  "log_content (binlog_fsync m) = log_content m" "file_backed (binlog_fsync m) = file_backed m"
  "file_backed m \<Longrightarrow> disk (binlog_fsync m) = log_content m"
  "\<not> file_backed m \<Longrightarrow> mem_buf (binlog_fsync m) = log_content m"
  by (simp_all add: binlog_fsync_def log_content_def bufw_flush_def)

lemma scan_log_image:
  assumes "list_all loggable rs" and "fits_frame q" and "k < length (frame crc q)"
  shows "scan_frames crc (pre @ log_image crc rs @ take k (frame crc q)) (length pre)
     = positioned (length pre) (map (\<lambda>r. frame crc (log_serialize r [])) rs)"
proof -
  have "payloads (\<lambda>d. frame_at crc d 0) (log_image crc rs @ take k (frame crc q))
      = (map (\<lambda>r. log_serialize r []) rs, length (log_image crc rs))"
    unfolding log_image_def using assms by (intro binlog_frames.payloads_torn) (auto simp: loggable_def list_all_iff)
  then show ?thesis by (simp add: scan_frames_payloads comp_def)
qed

text \<open>after any appends and a flush, reading from where they started returns each record's frame
  in order, with the position after it, in the file-backed and in the in-memory mode.\<close>

lemma binlog_read_back:
  assumes "list_all loggable rs"
  shows "binlog_read_from crc (length (log_content m)) (binlog_fsync (append_all crc rs m))
     = positioned (length (log_content m)) (map (\<lambda>r. frame crc (log_serialize r [])) rs)"
proof -
  have "fits_frame []" by (simp add: fits_frame_def)
  from scan_log_image [OF assms this, where k = 0 and crc = crc and pre = "log_content m"] show ?thesis
    by (cases "file_backed m")
      (simp_all add: binlog_read_from_def binlog_fsync_content append_all_content append_all_fields)
qed

lemma binlog_read_back_witness:
  "binlog_read_from (\<lambda>_. 0) 0 (binlog_fsync (append_all (\<lambda>_. 0) [Begin 7, Commit 7] binlog_open_memory))
     = positioned 0 [frame (\<lambda>_. 0) [1, 7], frame (\<lambda>_. 0) [6, 7]]"
proof -
  have ser: "log_serialize (Begin 7) [] = [1, 7]" "log_serialize (Commit 7) [] = [6, 7]"
    by (simp_all add: log_serialize_eqs write_varint_last)
  have "list_all loggable [Begin 7, Commit 7]"
    by (simp add: loggable_def fits_frame_def ser)
  from binlog_read_back [OF this, where crc = "\<lambda>_. 0" and m = binlog_open_memory] show ?thesis
    by (simp add: ser log_content_def binlog_open_memory_def)
qed

section \<open>Crash recovery\<close>

definition prepared_txids :: "log_record list \<Rightarrow> u64 set" where
  "prepared_txids rs = {x. Prepare x \<in> set rs}"

definition ended_txids :: "log_record list \<Rightarrow> u64 set" where
  "ended_txids rs = {x. Commit x \<in> set rs \<or> Rollback x \<in> set rs}"

lemma recover_loop_image:
  assumes "list_all loggable rs" and "frame_at crc tail 0 = None"
  shows "recover_loop crc (pre @ log_image crc rs @ tail) (length pre) P C
     = Ok (P \<union> prepared_txids rs, C \<union> ended_txids rs, length pre + length (log_image crc rs))"
  using assms(1)
proof (induction rs arbitrary: pre P C)
  case Nil
  then show ?case
    by (subst recover_loop.simps)
      (simp add: log_image_def frame_at_drop [of "length pre"] assms(2) prepared_txids_def ended_txids_def)
next
  case (Cons r rs)
  let ?p = "log_serialize r []" and ?rest = "log_image crc rs @ tail"
  have image: "log_image crc (r # rs) = frame crc ?p @ log_image crc rs" by (simp add: log_image_def)
  from Cons.prems have r: "wf_record r" "fits_frame ?p" by (simp_all add: loggable_def)
  define D where "D = pre @ frame crc ?p @ ?rest"
  have at: "frame_at crc D (length pre) = Some (?p, length (pre @ frame crc ?p))"
    using frame_at_frame [OF r(2), of crc ?rest] by (simp add: D_def frame_at_drop [of "length pre"])
  have des: "log_deserialize ?p 0 = Ok (Some (r, length ?p))"
    using log_deserialize_at [OF r(1), of "[]" "[]"] by simp
  have "recover_loop crc D (length pre) P C = recover_loop crc D (length (pre @ frame crc ?p))
      (P \<union> prepared_txids [r]) (C \<union> ended_txids [r])"
    by (subst recover_loop.simps)
      (simp add: at des prepared_txids_def ended_txids_def del: length_append split: log_record.split)
  also have "\<dots> = Ok (P \<union> prepared_txids [r] \<union> prepared_txids rs, C \<union> ended_txids [r] \<union> ended_txids rs,
      length (pre @ frame crc ?p) + length (log_image crc rs))"
    using Cons.IH [of "pre @ frame crc ?p"] Cons.prems by (simp add: D_def)
  also have "P \<union> prepared_txids [r] \<union> prepared_txids rs = P \<union> prepared_txids (r # rs)"
    by (auto simp: prepared_txids_def)
  also have "C \<union> ended_txids [r] \<union> ended_txids rs = C \<union> ended_txids (r # rs)"
    by (auto simp: ended_txids_def)
  finally show ?case by (simp add: D_def image)
qed

text \<open>C35: recovery of a file that holds the frames of some records and then a torn frame (a crash in
  the middle of a write) returns exactly the transactions prepared and neither committed nor rolled
  back, and cuts the file at the end of the last complete record.\<close>

theorem binlog_recover_torn:
  assumes "list_all loggable rs" and "fits_frame q" and "k < length (frame crc q)"
    and "file_backed m" and "disk m @ pending m = log_image crc rs @ take k (frame crc q)"
  shows "binlog_recover crc m = Ok (prepared_txids rs - ended_txids rs,
     m\<lparr>disk := log_image crc rs, pending := [], write_pos := length (log_image crc rs)\<rparr>)"
proof -
  have "frame_at crc (take k (frame crc q)) 0 = None"
    using assms(2,3) by (rule frame_at_torn)
  from recover_loop_image [OF assms(1) this, of "[]" "{}" "{}"]
  have "recover_loop crc (disk (bufw_flush m)) 0 {} {}
      = Ok (prepared_txids rs, ended_txids rs, length (log_image crc rs))"
    by (simp add: bufw_flush_def assms(5))
  with assms(4,5) show ?thesis
    by (simp add: binlog_recover_def Let_def bufw_flush_def)
qed

lemma binlog_recover_torn_witness:
  "binlog_recover (\<lambda>_. 0) (binlog_open (log_image (\<lambda>_. 0) [Prepare 1, Prepare 2, Commit 1] @ take 9 (frame (\<lambda>_. 0) [6, 2])))
     = Ok ({2}, (binlog_open (log_image (\<lambda>_. 0) [Prepare 1, Prepare 2, Commit 1])))"
proof -
  have ser: "log_serialize (Prepare 1) [] = [5, 1]" "log_serialize (Prepare 2) [] = [5, 2]"
    "log_serialize (Commit 1) [] = [6, 1]"
    by (simp_all add: log_serialize_eqs write_varint_last)
  have "list_all loggable [Prepare 1, Prepare 2, Commit 1]"
    by (simp add: loggable_def fits_frame_def ser)
  moreover have "fits_frame [6, 2]" by (simp add: fits_frame_def)
  moreover have "prepared_txids [Prepare 1, Prepare 2, Commit 1] - ended_txids [Prepare 1, Prepare 2, Commit 1] = {2}"
    by (auto simp: prepared_txids_def ended_txids_def)
  ultimately show ?thesis
    using binlog_recover_torn [of "[Prepare 1, Prepare 2, Commit 1]" "[6, 2]" 9 "\<lambda>_. 0"
        "binlog_open (log_image (\<lambda>_. 0) [Prepare 1, Prepare 2, Commit 1] @ take 9 (frame (\<lambda>_. 0) [6, 2]))"]
    by (simp add: binlog_open_def)
qed

text \<open>a log record of any kind, written by \<open>serialize\<close>, is read back by \<open>deserialize\<close>
  at its position in a larger buffer, with the position after it.\<close>

lemma log_record_round_trip:
  "wf_record r \<Longrightarrow> log_deserialize (pre @ log_serialize r [] @ rest) (length pre)
     = Ok (Some (r, length pre + length (log_serialize r [])))"
  by (rule log_deserialize_at)

lemma log_record_round_trip_witness:
  "log_deserialize ([9] @ log_serialize (Delete 3 [116] (- 1) (Some [Integer 5, Null])) [] @ [0]) (length [9 :: u8])
     = Ok (Some (Delete 3 [116] (- 1) (Some [Integer 5, Null]),
         length [9 :: u8] + length (log_serialize (Delete 3 [116] (- 1) (Some [Integer 5, Null])) [])))"
  by (rule log_record_round_trip)
    (simp add: wf_string_def wf_row_def MAX_COLUMNS_def)

text \<open>the decoder is not total on corrupt input: a string length near \<open>2 ^ 64\<close> overflows the
  end-of-string computation and the slice panics, where the function promises \<open>None\<close>.\<close>

lemma log_deserialize_panics: "log_deserialize (8 # varint 0 @ varint (- 1)) 0 = Panic"
proof -
  have "varint_at (8 # varint 0 @ varint (- 1)) 1 = Ok (Some (0, length (varint 0)))"
    by (simp add: varint_at_def read_write_varint)
  moreover have "string_at (8 # varint 0 @ varint (- 1)) (1 + length (varint 0)) = Panic"
  proof -
    have "unat (- 1 :: u64) = 2 ^ 64 - 1" by (simp add: unsigned_minus_1_eq_mask mask_eq_exp_minus_1)
    then have "usize_add (length (varint (- 1))) (unat (- 1 :: u64)) = Panic"
      using varint_nonempty [of "- 1"] by (auto simp: usize_add_def neq_Nil_conv)
    then show ?thesis
      using read_write_varint [of "- 1" "[]"] by (simp add: string_at_def read_string_def)
  qed
  ultimately show ?thesis by (simp add: log_deserialize_def)
qed

end
