(* ===== verification/VmStatements.thy ===== *)
theory VmStatements
  imports VmTxn PagerCrash Binlog
begin

text \<open>
  The transaction statements of the virtual machine as a whole (\<^verbatim>\<open>src/src/vm/execute.rs\<close>): \<^verbatim>\<open>BEGIN\<close>,
  \<^verbatim>\<open>COMMIT\<close>, \<^verbatim>\<open>ROLLBACK\<close> and the savepoint statements, over the catalogue pager, the pagers of the tables
  (one file per table), the binary log, the schema and its snapshot, the index caches, and the concurrency state of theory
  \<open>VmTxn\<close>. The type of the schema is a parameter. Where the handler drops the result of a call (\<^verbatim>\<open>let _ =\<close>), the model
  does the same; a panic ends the statement.
\<close>

record 's vm =
  vm_pager :: pager
  table_pagers :: "(string \<times> pager) list"
  vm_schema :: 's
  schema_snapshot :: "'s option"
  index_eq_cache :: "string \<rightharpoonup> (bytes \<rightharpoonup> i64 list)"
  index_rowid_cache :: "string \<rightharpoonup> (i64 \<rightharpoonup> i64)"
  index_ordered_cache :: "string \<rightharpoonup> (value \<times> i64) list"
  vm_binlog :: binlog_manager
  vm_conc :: vm_txn

definition clear_index_caches :: "'s vm \<Rightarrow> 's vm" where
  "clear_index_caches v = v\<lparr>index_eq_cache := Map.empty, index_rowid_cache := Map.empty, index_ordered_cache := Map.empty\<rparr>"

text \<open>A call on every table pager whose result is dropped.\<close>

fun each_table :: "(pager \<Rightarrow> 'a res \<times> pager) \<Rightarrow> (string \<times> pager) list \<Rightarrow> unit res \<times> (string \<times> pager) list" where
  "each_table f [] = (Ok (), [])"
| "each_table f ((n, p) # ps) =
     (case f p of
        (Panic, p') \<Rightarrow> (Panic, (n, p') # ps)
      | (_, p') \<Rightarrow> (case each_table f ps of (r, ps') \<Rightarrow> (r, (n, p') # ps')))"

definition if_in_transaction :: "(pager, unit) op \<Rightarrow> (pager, unit) op" where
  "if_in_transaction m = op_get (\<lambda>p. if in_transaction p then m else op_return ())"

definition txid_or_0 :: "pager \<Rightarrow> u64" where
  "txid_or_0 pg = (case active_txid pg of Some t \<Rightarrow> t | None \<Rightarrow> 0)"

definition log_append :: "(bytes \<Rightarrow> u32) \<Rightarrow> log_record \<Rightarrow> 's vm \<Rightarrow> 's vm" where
  "log_append crc r v = v\<lparr>vm_binlog := snd (binlog_append crc r (vm_binlog v))\<rparr>"

definition log_fsync :: "'s vm \<Rightarrow> 's vm" where
  "log_fsync v = v\<lparr>vm_binlog := binlog_fsync (vm_binlog v)\<rparr>"

definition exec_begin :: "(bytes \<Rightarrow> u32) \<Rightarrow> 's vm \<Rightarrow> string res \<times> 's vm" where
  "exec_begin crc v =
     (let actual_txid = txid_or_0 (vm_pager v) in
      case begin_transaction (vm_pager v) of
        (Ok _, pg) \<Rightarrow>
          (case each_table begin_transaction (table_pagers v) of
             (Ok _, ts) \<Rightarrow>
               let new_txid = (case active_txid pg of Some t \<Rightarrow> t | None \<Rightarrow> actual_txid);
                   v1 = log_append crc (Begin new_txid) (v\<lparr>vm_pager := pg, table_pagers := ts, vm_conc := vm_begin (vm_conc v)\<rparr>)
               in (Ok ''Transaction started'', clear_index_caches (v1\<lparr>schema_snapshot := Some (vm_schema v)\<rparr>))
           | (r, ts) \<Rightarrow> (Panic, v\<lparr>vm_pager := pg, table_pagers := ts\<rparr>))
      | (Err e, pg) \<Rightarrow> (Err e, v\<lparr>vm_pager := pg\<rparr>)
      | (Panic, pg) \<Rightarrow> (Panic, v\<lparr>vm_pager := pg\<rparr>))"

definition exec_commit :: "(bytes \<Rightarrow> u32) \<Rightarrow> lz4 \<Rightarrow> nat \<Rightarrow> 's vm \<Rightarrow> string res \<times> 's vm" where
  "exec_commit crc z vsize v =
     (let txid = txid_or_0 (vm_pager v); v1 = log_fsync (log_append crc (Prepare txid) v) in
      case commit_transaction z (vm_pager v1) of
        (Ok _, pg) \<Rightarrow>
          (case each_table (if_in_transaction (commit_transaction z)) (table_pagers v1) of
             (Ok _, ts) \<Rightarrow>
               let v2 = log_fsync (log_append crc (Commit txid) (v1\<lparr>vm_pager := pg, table_pagers := ts\<rparr>)) in
               (case vm_commit vsize (vm_conc v2) of
                  (Ok _, c) \<Rightarrow> (Ok ''Committed'', clear_index_caches (v2\<lparr>vm_conc := c, schema_snapshot := None\<rparr>))
                | (Err e, c) \<Rightarrow> (Err e, v2\<lparr>vm_conc := c\<rparr>)
                | (Panic, c) \<Rightarrow> (Panic, v2\<lparr>vm_conc := c\<rparr>))
           | (r, ts) \<Rightarrow> (Panic, v1\<lparr>vm_pager := pg, table_pagers := ts\<rparr>))
      | (Err e, pg) \<Rightarrow> (Err e, v1\<lparr>vm_pager := pg\<rparr>)
      | (Panic, pg) \<Rightarrow> (Panic, v1\<lparr>vm_pager := pg\<rparr>))"

text \<open>The steps on the concurrency state before and after the pagers roll back.\<close>

definition abort_txn :: "vm_txn \<Rightarrow> vm_txn" where
  "abort_txn c = c\<lparr>mvcc_undo_log := undo_clear (mvcc_undo_log c), txn_registry := registry_abort (current_txn_id c) (txn_registry c),
     vm_snapshot := None\<rparr>"

definition release_locks :: "vm_txn \<Rightarrow> vm_txn" where
  "release_locks c = c\<lparr>vm_lock_table := table_release_all (current_txn_id c) (vm_lock_table c),
     vm_row_locks := release_all (current_txn_id c) (vm_row_locks c), current_txn_id := 0\<rparr>"

definition take_schema_snapshot :: "'s vm \<Rightarrow> 's vm" where
  "take_schema_snapshot v = (case schema_snapshot v of None \<Rightarrow> v | Some s \<Rightarrow> v\<lparr>vm_schema := s, schema_snapshot := None\<rparr>)"

definition exec_rollback :: "(bytes \<Rightarrow> u32) \<Rightarrow> 's vm \<Rightarrow> string res \<times> 's vm" where
  "exec_rollback crc v =
     (let v1 = (log_append crc (Rollback (txid_or_0 (vm_pager v))) v)\<lparr>vm_conc := abort_txn (vm_conc v)\<rparr> in
      case rollback_transaction (vm_pager v1) of
        (Ok _, pg) \<Rightarrow>
          (case each_table (if_in_transaction rollback_transaction) (table_pagers v1) of
             (Ok _, ts) \<Rightarrow>
               let v2 = take_schema_snapshot (v1\<lparr>vm_pager := pg, table_pagers := ts\<rparr>)
               in (Ok ''Rolled back'', clear_index_caches (v2\<lparr>vm_conc := release_locks (vm_conc v2)\<rparr>))
           | (r, ts) \<Rightarrow> (Panic, v1\<lparr>vm_pager := pg, table_pagers := ts\<rparr>))
      | (Err e, pg) \<Rightarrow> (Err e, v1\<lparr>vm_pager := pg\<rparr>)
      | (Panic, pg) \<Rightarrow> (Panic, v1\<lparr>vm_pager := pg\<rparr>))"

definition exec_savepoint :: "nat \<Rightarrow> string \<Rightarrow> 's vm \<Rightarrow> string res \<times> 's vm" where
  "exec_savepoint vsize name v =
     (case savepoint name (vm_pager v) of
        (Ok _, pg) \<Rightarrow> (Ok (''SAVEPOINT '' @ name), v\<lparr>vm_pager := pg, vm_conc := vm_savepoint vsize name (vm_conc v)\<rparr>)
      | (Err e, pg) \<Rightarrow> (Err e, v\<lparr>vm_pager := pg\<rparr>)
      | (Panic, pg) \<Rightarrow> (Panic, v\<lparr>vm_pager := pg\<rparr>))"

definition exec_release_savepoint :: "string \<Rightarrow> 's vm \<Rightarrow> string res \<times> 's vm" where
  "exec_release_savepoint name v =
     (case release_savepoint name (vm_pager v) of
        (Ok _, pg) \<Rightarrow> (Ok (''RELEASE SAVEPOINT '' @ name), v\<lparr>vm_pager := pg\<rparr>)
      | (Err e, pg) \<Rightarrow> (Err e, v\<lparr>vm_pager := pg\<rparr>)
      | (Panic, pg) \<Rightarrow> (Panic, v\<lparr>vm_pager := pg\<rparr>))"

definition exec_rollback_to_savepoint :: "string \<Rightarrow> 's vm \<Rightarrow> string res \<times> 's vm" where
  "exec_rollback_to_savepoint name v =
     (case pager_rollback_to_savepoint name (vm_pager v) of
        (Ok _, pg) \<Rightarrow> (Ok (''ROLLBACK TO SAVEPOINT '' @ name), clear_index_caches (take_schema_snapshot (v\<lparr>vm_pager := pg\<rparr>)))
      | (Err e, pg) \<Rightarrow> (Err e, v\<lparr>vm_pager := pg\<rparr>)
      | (Panic, pg) \<Rightarrow> (Panic, v\<lparr>vm_pager := pg\<rparr>))"

section \<open>Which pager a table uses\<close>

text \<open>\<^verbatim>\<open>get_table_pager_mut\<close>, as the function that applies a change to the pager of a table.\<close>

definition on_table_pager :: "string \<Rightarrow> (pager \<Rightarrow> pager) \<Rightarrow> 's vm \<Rightarrow> 's vm" where
  "on_table_pager name f v =
     (let key = to_ascii_lowercase name in
      if key \<in> fst ` set (table_pagers v)
      then v\<lparr>table_pagers := map (\<lambda>(n, p). (n, if n = key then f p else p)) (table_pagers v)\<rparr>
      else v\<lparr>vm_pager := f (vm_pager v)\<rparr>)"

text \<open>\<^verbatim>\<open>open_or_create_table_pager\<close>: the file of the table, if it exists, is an argument.\<close>

definition open_or_create_table_pager :: "os_file option \<Rightarrow> bytes \<Rightarrow> string \<Rightarrow> bool \<Rightarrow> (string \<times> pager) list \<Rightarrow> (string \<times> pager) list res" where
  "open_or_create_table_pager file uuid name in_txn ts =
     (let key = to_ascii_lowercase name in
      if key \<in> fst ` set ts then Ok ts
      else res_bind (pager_open file uuid) (\<lambda>p. Ok (ts @ [(key, if in_txn then snd (begin_transaction p) else p)])))"

definition is_safe_table_name :: "string \<Rightarrow> bool" where
  "is_safe_table_name name \<longleftrightarrow> name \<noteq> [] \<and>
     list_all (\<lambda>c. (let n = of_char c :: nat in 48 \<le> n \<and> n \<le> 57 \<or> 65 \<le> n \<and> n \<le> 90 \<or> 97 \<le> n \<and> n \<le> 122) \<or> c = CHR ''_'') name"

section \<open>Whole transactions\<close>

text \<open>A statement inside a transaction works on pages of tables or of the catalogue, or changes the schema.\<close>

datatype 's vm_op = TablePage string txn_op | SchemaChange 's

fun vm_op_step :: "lz4 \<Rightarrow> 's vm_op \<Rightarrow> 's vm \<Rightarrow> 's vm" where
  "vm_op_step z (TablePage name t) v = on_table_pager name (txn_step z t) v"
| "vm_op_step z (SchemaChange s) v = v\<lparr>vm_schema := s\<rparr>"

fun vm_op_ok :: "'s vm_op \<Rightarrow> bool" where
  "vm_op_ok (TablePage name t) = txn_op_ok t"
| "vm_op_ok (SchemaChange s) = True"

definition ready :: "pager \<Rightarrow> bool" where
  "ready pg \<longleftrightarrow> pager_inv pg \<and> \<not> in_transaction pg \<and> clean pg"

text \<open>The pager \<open>p\<close> is in a transaction that started at \<open>p0\<close>.\<close>

definition since :: "pager \<Rightarrow> pager \<Rightarrow> bool" where
  "since p0 p \<longleftrightarrow> pager_inv p \<and> in_transaction p \<and> txn_base p = page_value p0
     \<and> (case txn_snapshot p of None \<Rightarrow> False | Some s \<Rightarrow> ts_header s = header p0
          \<and> map_option active_superblock (cow_state p0) = Some (ts_superblock s) \<and> map_option active_slot (cow_state p0) = Some (ts_slot s))"

definition restored :: "pager \<Rightarrow> pager \<Rightarrow> bool" where
  "restored p0 p \<longleftrightarrow> page_value p = page_value p0 \<and> header p = header p0
     \<and> map_option active_superblock (cow_state p) = map_option active_superblock (cow_state p0)
     \<and> map_option active_slot (cow_state p) = map_option active_slot (cow_state p0) \<and> \<not> in_transaction p \<and> pager_inv p"

lemma begin_since:
  assumes "ready pg"
  obtains pg' where "begin_transaction pg = (Ok (), pg')" and "since pg pg'"
proof -
  obtain pg' s where "begin_transaction pg = (Ok (), pg')" "pager_inv pg'" "txn_snapshot pg' = Some s" "in_transaction pg'"
      "txn_base pg' = page_value pg" "ts_header s = header pg"
      "map_option active_superblock (cow_state pg) = Some (ts_superblock s)" "map_option active_slot (cow_state pg) = Some (ts_slot s)"
    using begin_step [of pg] assms unfolding ready_def by metis
  then show ?thesis by (intro that [of pg']) (simp_all add: since_def)
qed

lemma since_step: "since p0 p \<Longrightarrow> txn_op_ok t \<Longrightarrow> since p0 (txn_step z t p)"
  using txn_step_same_txn [of p t z] by (auto simp: since_def same_txn_def split: option.splits)

lemma rollback_since:
  assumes "since p0 p"
  obtains p' where "rollback_transaction p = (Ok (), p')" and "restored p0 p'"
proof -
  from assms obtain s where s: "pager_inv p" "txn_snapshot p = Some s" "txn_base p = page_value p0" "ts_header s = header p0"
      "map_option active_superblock (cow_state p0) = Some (ts_superblock s)" "map_option active_slot (cow_state p0) = Some (ts_slot s)"
    by (auto simp: since_def split: option.splits)
  from s(1) obtain c where c: "cow_state p = Some c" by (auto simp: pager_inv_def)
  obtain p' where p': "rollback_transaction p = (Ok (), p')" "pager_inv p'" "page_value p' = txn_base p" "header p' = ts_header s" "txn_snapshot p' = None"
      "cow_state p' = map_option (\<lambda>c. c\<lparr>active_superblock := ts_superblock s, active_slot := ts_slot s, active_tx := None\<rparr>) (cow_state p)"
    by (rule rollback_step [OF s(1,2)])
  moreover from p' have "\<not> in_transaction p'" by (simp add: pager_inv_def)
  ultimately show ?thesis using s c by (intro that [of p']) (auto simp: restored_def)
qed

text \<open>The pagers of two lists of tables, pairwise.\<close>

definition tables_rel :: "(pager \<Rightarrow> pager \<Rightarrow> bool) \<Rightarrow> (string \<times> pager) list \<Rightarrow> (string \<times> pager) list \<Rightarrow> bool" where
  "tables_rel R = list_all2 (\<lambda>(n, p) (n', p'). n' = n \<and> R p p')"

lemma each_table_rel:
  assumes "tables_rel R ps0 ps" and "\<And>p0 p. R p0 p \<Longrightarrow> \<exists>p'. f p = (Ok (), p') \<and> Q p0 p'"
  shows "\<exists>ps'. each_table f ps = (Ok (), ps') \<and> tables_rel Q ps0 ps'"
  using assms(1) unfolding tables_rel_def
proof (induction rule: list_all2_induct)
  case (Cons x xs y ys)
  obtain n p0 p where xy: "x = (n, p0)" "y = (n, p)" "R p0 p" using Cons(1) by auto
  from assms(2) [OF xy(3)] obtain p' where "f p = (Ok (), p')" "Q p0 p'" by blast
  with Cons(3) show ?case by (auto simp: xy)
qed simp

lemma tables_rel_map:
  "tables_rel R ps0 ps \<Longrightarrow> (\<And>p0 p. R p0 p \<Longrightarrow> R p0 (f p)) \<Longrightarrow> tables_rel R ps0 (map (\<lambda>(n, p). (n, if n = key then f p else p)) ps)"
  by (auto simp: tables_rel_def list_all2_map2 elim!: list_all2_mono)

definition vm_since :: "'s vm \<Rightarrow> 's vm \<Rightarrow> bool" where
  "vm_since v0 v \<longleftrightarrow> since (vm_pager v0) (vm_pager v) \<and> tables_rel since (table_pagers v0) (table_pagers v)
     \<and> schema_snapshot v = Some (vm_schema v0)"

lemma vm_op_since: "vm_since v0 v \<Longrightarrow> vm_op_ok t \<Longrightarrow> vm_since v0 (vm_op_step z t v)"
  by (cases t) (auto simp: vm_since_def on_table_pager_def Let_def since_step intro!: tables_rel_map)

lemma vm_ops_since: "vm_since v0 v \<Longrightarrow> list_all vm_op_ok ts \<Longrightarrow> vm_since v0 (fold (vm_op_step z) ts v)"
  by (induction ts arbitrary: v) (simp_all add: vm_op_since)

lemma vm_ops_conc: "vm_conc (fold (vm_op_step z) ts v) = vm_conc v"
proof (induction ts arbitrary: v)
  case (Cons t ts)
  then show ?case by (cases t) (simp_all add: on_table_pager_def Let_def)
qed simp

lemma log_fields [simp]:
  "vm_pager (log_append crc r v) = vm_pager v" "table_pagers (log_append crc r v) = table_pagers v" "vm_schema (log_append crc r v) = vm_schema v"
  "schema_snapshot (log_append crc r v) = schema_snapshot v" "vm_conc (log_append crc r v) = vm_conc v"
  "vm_pager (log_fsync v) = vm_pager v" "table_pagers (log_fsync v) = table_pagers v" "vm_schema (log_fsync v) = vm_schema v"
  "schema_snapshot (log_fsync v) = schema_snapshot v" "vm_conc (log_fsync v) = vm_conc v"
  by (simp_all add: log_append_def log_fsync_def)

lemma clear_index_caches_fields [simp]:
  "vm_pager (clear_index_caches v) = vm_pager v" "table_pagers (clear_index_caches v) = table_pagers v" "vm_schema (clear_index_caches v) = vm_schema v"
  "schema_snapshot (clear_index_caches v) = schema_snapshot v" "vm_conc (clear_index_caches v) = vm_conc v" "vm_binlog (clear_index_caches v) = vm_binlog v"
  by (simp_all add: clear_index_caches_def)

lemma exec_begin_since:
  assumes "ready (vm_pager v)" and "list_all (\<lambda>(n, p). ready p) (table_pagers v)"
  shows "\<exists>v'. exec_begin crc v = (Ok ''Transaction started'', v') \<and> vm_since v v'"
proof -
  obtain pg where pg: "begin_transaction (vm_pager v) = (Ok (), pg)" "since (vm_pager v) pg" by (rule begin_since [OF assms(1)])
  have "tables_rel (\<lambda>p0 p. ready p0 \<and> p = p0) (table_pagers v) (table_pagers v)"
    using assms(2) by (auto simp: tables_rel_def list_all2_same list_all_iff)
  from each_table_rel [OF this, of begin_transaction since] obtain ts where
      "each_table begin_transaction (table_pagers v) = (Ok (), ts)" "tables_rel since (table_pagers v) ts"
    using begin_since by blast
  with pg show ?thesis by (simp add: exec_begin_def Let_def vm_since_def)
qed

lemma exec_rollback_restored:
  assumes "vm_since v0 v"
  shows "\<exists>v'. exec_rollback crc v = (Ok ''Rolled back'', v') \<and> restored (vm_pager v0) (vm_pager v')
    \<and> tables_rel restored (table_pagers v0) (table_pagers v') \<and> vm_schema v' = vm_schema v0 \<and> schema_snapshot v' = None
    \<and> vm_conc v' = release_locks (abort_txn (vm_conc v))"
proof -
  have s: "since (vm_pager v0) (vm_pager v)" "tables_rel since (table_pagers v0) (table_pagers v)" "schema_snapshot v = Some (vm_schema v0)"
    using assms by (simp_all add: vm_since_def)
  obtain pg where pg: "rollback_transaction (vm_pager v) = (Ok (), pg)" "restored (vm_pager v0) pg" by (rule rollback_since [OF s(1)])
  have tab: "\<exists>p'. if_in_transaction rollback_transaction p = (Ok (), p') \<and> restored p0 p'" if sp: "since p0 p" for p0 p
  proof -
    have "in_transaction p" using sp by (simp add: since_def)
    then show ?thesis using rollback_since [OF sp] by (auto simp: if_in_transaction_def op_simps)
  qed
  from each_table_rel [OF s(2), of "if_in_transaction rollback_transaction" restored] obtain ts where
      "each_table (if_in_transaction rollback_transaction) (table_pagers v) = (Ok (), ts)" "tables_rel restored (table_pagers v0) ts"
    using tab by blast
  with pg s(3) show ?thesis by (simp add: exec_rollback_def Let_def take_schema_snapshot_def)
qed

lemma release_abort: "release_locks (abort_txn c) = vm_rollback c"
  by (simp add: release_locks_def abort_txn_def vm_rollback_def Let_def)


text \<open>A database with its catalogue and two tables in memory.\<close>

definition sample_database :: "nat vm" where
  "sample_database = \<lparr>vm_pager = pager_open_memory (replicate 16 1),
     table_pagers = [(''t'', pager_open_memory (replicate 16 2)), (''u'', pager_open_memory (replicate 16 3))],
     vm_schema = 0, schema_snapshot = None, index_eq_cache = Map.empty, index_rowid_cache = Map.empty, index_ordered_cache = Map.empty,
     vm_binlog = binlog_open [], vm_conc = sample_vm\<rparr>"

lemma sample_database_ready:
  "ready (vm_pager sample_database)" "list_all (\<lambda>(n, p). ready p) (table_pagers sample_database)"
  "row_lock_ok (vm_row_locks (vm_conc sample_database))"
  using pager_open_memory_inv sample_vm_locks by (simp_all add: sample_database_def ready_def)


section \<open>The commit and the binary log\<close>

lemma loggable_marks: "loggable (Prepare t)" "loggable (Commit t)"
  using varint_length_le [of t] by (simp_all add: loggable_def fits_frame_def log_serialize_eqs)

lemma log_image_append: "log_image crc (rs @ ss) = log_image crc rs @ log_image crc ss"
  by (simp add: log_image_def)

lemma recover_image:
  assumes "list_all loggable rs"
  shows "\<exists>m. binlog_recover crc (binlog_open (log_image crc rs)) = Ok (prepared_txids rs - ended_txids rs, m)"
proof -
  have "frame_at crc [] 0 = None" by (simp add: frame_at_def)
  from recover_loop_image [OF assms this, of "[]" "{}" "{}"] show ?thesis
    by (simp add: binlog_recover_def binlog_open_def bufw_flush_def Let_def)
qed

text \<open>The log holds the frames of some records, in the file or in the buffer before it.\<close>

definition log_holds :: "(bytes \<Rightarrow> u32) \<Rightarrow> log_record list \<Rightarrow> 's vm \<Rightarrow> bool" where
  "log_holds crc rs v \<longleftrightarrow> file_backed (vm_binlog v) \<and> log_content (vm_binlog v) = log_image crc rs"

lemma log_holds_append: "log_holds crc rs v \<Longrightarrow> log_holds crc (rs @ [r]) (log_append crc r v)"
  by (simp add: log_holds_def log_append_def binlog_append_content binlog_append_fields log_image_append) (simp add: log_image_def)

lemma log_holds_fsync: "log_holds crc rs v \<Longrightarrow> log_holds crc rs (log_fsync v)"
    and log_holds_disk: "log_holds crc rs v \<Longrightarrow> disk (vm_binlog (log_fsync v)) = log_image crc rs"
  by (simp_all add: log_holds_def log_fsync_def binlog_fsync_content)

lemma log_holds_cong: "vm_binlog v' = vm_binlog v \<Longrightarrow> log_holds crc rs v' = log_holds crc rs v"
  by (simp add: log_holds_def)



section \<open>What the handlers miss with several files\<close>

lemma catalogue_savepoint:
  "\<exists>pg1 pg2 pg3. begin_transaction (pager_open_memory u) = (Ok (), pg1) \<and> savepoint ''a'' pg1 = (Ok (), pg2)
     \<and> pager_rollback_to_savepoint ''a'' pg2 = (Ok (), pg3)"
  by (simp add: pager_eval)

lemma changed_table:
  "\<exists>p1. begin_transaction (pager_open_memory u) = (Ok (), p1) \<and> page_value (snd (modify_page lz4_off 3 (\<lambda>_. d) p1)) 3 = Some d"
  by (simp add: pager_eval)

text \<open>
  With one file per table, ROLLBACK TO SAVEPOINT does not undo changes to tables. The savepoint exists only in the catalogue: a
  page of a table that was changed after the savepoint keeps the change, although the statement reports success.
\<close>

lemma rollback_to_savepoint_skips_tables:
  "\<exists>v1 v2 v3 p. exec_begin crc sample_database = (Ok ''Transaction started'', v1)
    \<and> exec_savepoint 24 ''a'' v1 = (Ok ''SAVEPOINT a'', v2)
    \<and> exec_rollback_to_savepoint ''a'' (vm_op_step lz4_off (TablePage ''t'' (TxModify 3 (\<lambda>_. d))) v2) = (Ok ''ROLLBACK TO SAVEPOINT a'', v3)
    \<and> map_of (table_pagers v3) ''t'' = Some p \<and> page_value p 3 = Some d"
proof -
  obtain pg1 pg2 pg3 where c: "begin_transaction (pager_open_memory (replicate 16 1)) = (Ok (), pg1)" "savepoint ''a'' pg1 = (Ok (), pg2)"
      "pager_rollback_to_savepoint ''a'' pg2 = (Ok (), pg3)"
    using catalogue_savepoint by blast
  obtain p1 where t: "begin_transaction (pager_open_memory (replicate 16 2)) = (Ok (), p1)" "page_value (snd (modify_page lz4_off 3 (\<lambda>_. d) p1)) 3 = Some d"
    using changed_table by blast
  obtain q1 where u: "begin_transaction (pager_open_memory (replicate 16 3)) = (Ok (), q1)" using catalogue_savepoint by blast
  have "to_ascii_lowercase ''t'' = ''t''" by (simp add: to_ascii_lowercase_def ascii_lower_def)
  with c t u show ?thesis
    by (simp add: exec_begin_def exec_savepoint_def exec_rollback_to_savepoint_def sample_database_def clear_index_caches_def
        take_schema_snapshot_def on_table_pager_def log_append_def Let_def)
qed

text \<open>The sample database in which writing a table fails.\<close>

definition failing_database :: "nat vm" where
  "failing_database = sample_database\<lparr>table_pagers := [(''t'', set_failpoint (Some AfterDataPagesWrite) (pager_open_memory (replicate 16 2)))]\<rparr>"

lemma failing_table:
  "\<exists>p1 p2 e. begin_transaction (set_failpoint (Some AfterDataPagesWrite) (pager_open_memory u)) = (Ok (), p1) \<and> in_transaction p1
     \<and> commit_transaction lz4_off p1 = (Err e, p2) \<and> in_transaction p2"
  by (simp add: pager_eval commit_eval set_failpoint_def failpoint_debug_def)

lemma committed_catalogue:
  "\<exists>pg1 pg2. begin_transaction (pager_open_memory u) = (Ok (), pg1) \<and> commit_transaction lz4_off pg1 = (Ok (), pg2)"
  by (simp add: pager_eval commit_eval)

text \<open>
  COMMIT reports success although the commit of a table failed. The error of a table's pager is dropped: the statement answers
  that it has committed and logs the commit, while the table is still inside its transaction.
\<close>

lemma commit_drops_table_error:
  "\<exists>v1 v2 p. exec_begin crc failing_database = (Ok ''Transaction started'', v1) \<and> exec_commit crc lz4_off 24 v1 = (Ok ''Committed'', v2)
    \<and> map_of (table_pagers v2) ''t'' = Some p \<and> in_transaction p"
proof -
  obtain pg1 pg2 where c: "begin_transaction (pager_open_memory (replicate 16 1)) = (Ok (), pg1)" "commit_transaction lz4_off pg1 = (Ok (), pg2)"
    using committed_catalogue by blast
  obtain p1 p2 e where t: "begin_transaction (set_failpoint (Some AfterDataPagesWrite) (pager_open_memory (replicate 16 2))) = (Ok (), p1)" "in_transaction p1"
      "commit_transaction lz4_off p1 = (Err e, p2)" "in_transaction p2"
    using failing_table by blast
  from c t show ?thesis
    by (simp add: exec_begin_def exec_commit_def failing_database_def sample_database_def clear_index_caches_def log_append_def log_fsync_def
        if_in_transaction_def op_simps vm_commit_def Let_def)
qed


end
