(* ===== verification/Dtx.thy ===== *)
theory Dtx
  imports OrdMap
begin

text \<open>
  The distributed transaction coordinator and its participants, \<^verbatim>\<open>src/src/raft/features/dtx.rs\<close>:
  two-phase commit with the optional pre-commit phase. The maps of the code are ordered maps here (the
  order of a \<^verbatim>\<open>HashMap\<close> only shows in the text of an abort reason and in the order of the messages
  that a timeout sends). The clock reading is an argument; the counters of the statistics are naturals. A
  local execution, commit or rollback is the argument that the code takes as a closure, and the
  \<^verbatim>\<open>Mutex\<close> makes every operation one step.
\<close>

section \<open>Data\<close>

datatype dtx_state = Init | Preparing | PreCommitted | Committing | Aborting | Committed | Aborted

fun dtx_state_display :: "dtx_state \<Rightarrow> string" where
  "dtx_state_display Init = ''INIT''"
| "dtx_state_display Preparing = ''PREPARING''"
| "dtx_state_display PreCommitted = ''PRE_COMMITTED''"
| "dtx_state_display Committing = ''COMMITTING''"
| "dtx_state_display Aborting = ''ABORTING''"
| "dtx_state_display Committed = ''COMMITTED''"
| "dtx_state_display Aborted = ''ABORTED''"

datatype dtx_vote = VoteCommit | VoteAbort

fun vote_debug :: "dtx_vote \<Rightarrow> string" where
  "vote_debug VoteCommit = ''Commit''"
| "vote_debug VoteAbort = ''Abort''"

type_synonym dtx_id = u64
type_synonym participant_id = u64

datatype dtx_message =
    Prepare dtx_id string
  | VoteResult dtx_id participant_id dtx_vote "string option"
  | PreCommit dtx_id
  | PreCommitAck dtx_id participant_id
  | CommitMsg dtx_id
  | AbortMsg dtx_id string
  | Ack dtx_id participant_id bool

record participant_state =
  ps_id :: participant_id
  ps_vote :: "dtx_vote option"
  ps_vote_reason :: "string option"
  ps_pre_commit_acked :: bool
  ps_committed :: bool
  ps_aborted :: bool

definition participant_state_new :: "participant_id \<Rightarrow> participant_state" where
  "participant_state_new i =
     \<lparr>ps_id = i, ps_vote = None, ps_vote_reason = None, ps_pre_commit_acked = False,
      ps_committed = False, ps_aborted = False\<rparr>"

record distributed_transaction =
  dt_id :: dtx_id
  dt_sql :: string
  dt_state :: dtx_state
  dt_participants :: "(participant_id, participant_state) ordmap"
  dt_use_3pc :: bool
  dt_phase_timeout :: nat
  dt_phase_start :: nat
  dt_decision_log :: "string list"

definition dtx_name :: "dtx_id \<Rightarrow> string" where
  "dtx_name i = ''DTX-'' @ show_nat (unat i)"

definition dtx_new :: "nat \<Rightarrow> dtx_id \<Rightarrow> string \<Rightarrow> participant_id list \<Rightarrow> bool \<Rightarrow> nat \<Rightarrow> distributed_transaction" where
  "dtx_new now i sql ps use_3pc timeout =
     \<lparr>dt_id = i, dt_sql = sql, dt_state = Init,
      dt_participants = fold (\<lambda>p m. om_insert p (participant_state_new p) m) ps [],
      dt_use_3pc = use_3pc, dt_phase_timeout = timeout, dt_phase_start = now,
      dt_decision_log = [dtx_name i @ '': created'']\<rparr>"

definition ps_values :: "distributed_transaction \<Rightarrow> participant_state list" where
  "ps_values d = map snd (dt_participants d)"

definition all_votes_received :: "distributed_transaction \<Rightarrow> bool" where
  "all_votes_received d \<longleftrightarrow> list_all (\<lambda>p. ps_vote p \<noteq> None) (ps_values d)"

definition all_voted_commit :: "distributed_transaction \<Rightarrow> bool" where
  "all_voted_commit d \<longleftrightarrow> list_all (\<lambda>p. ps_vote p = Some VoteCommit) (ps_values d)"

definition any_voted_abort :: "distributed_transaction \<Rightarrow> bool" where
  "any_voted_abort d \<longleftrightarrow> list_ex (\<lambda>p. ps_vote p = Some VoteAbort) (ps_values d)"

definition all_pre_commit_acked :: "distributed_transaction \<Rightarrow> bool" where
  "all_pre_commit_acked d \<longleftrightarrow> list_all ps_pre_commit_acked (ps_values d)"

definition all_committed :: "distributed_transaction \<Rightarrow> bool" where
  "all_committed d \<longleftrightarrow> list_all ps_committed (ps_values d)"

definition all_aborted :: "distributed_transaction \<Rightarrow> bool" where
  "all_aborted d \<longleftrightarrow> list_all ps_aborted (ps_values d)"

definition phase_timed_out :: "nat \<Rightarrow> distributed_transaction \<Rightarrow> bool" where
  "phase_timed_out now d \<longleftrightarrow> now - dt_phase_start d > dt_phase_timeout d"

definition unknown_participant :: "participant_id \<Rightarrow> string" where
  "unknown_participant p = ''unknown participant '' @ show_nat (unat p)"

definition dtx_log :: "string \<Rightarrow> distributed_transaction \<Rightarrow> distributed_transaction" where
  "dtx_log s d = d\<lparr>dt_decision_log := dt_decision_log d @ [s]\<rparr>"

definition set_participant :: "participant_id \<Rightarrow> participant_state \<Rightarrow> distributed_transaction \<Rightarrow> distributed_transaction" where
  "set_participant p ps d = d\<lparr>dt_participants := om_insert p ps (dt_participants d)\<rparr>"

definition record_vote ::
    "participant_id \<Rightarrow> dtx_vote \<Rightarrow> string option \<Rightarrow> distributed_transaction \<Rightarrow> string + distributed_transaction" where
  "record_vote p v reason d =
     (case om_get (dt_participants d) p of
        None \<Rightarrow> Inl (unknown_participant p)
      | Some ps \<Rightarrow>
          if ps_vote ps \<noteq> None then Inl (''participant '' @ show_nat (unat p) @ '' already voted'')
          else Inr (dtx_log (dtx_name (dt_id d) @ '': participant '' @ show_nat (unat p) @ '' voted '' @ vote_debug v
                      @ (case reason of None \<Rightarrow> [] | Some r \<Rightarrow> '' ('' @ r @ '')''))
                    (set_participant p (ps\<lparr>ps_vote := Some v, ps_vote_reason := reason\<rparr>) d)))"

definition record_pre_commit_ack :: "participant_id \<Rightarrow> distributed_transaction \<Rightarrow> string + distributed_transaction" where
  "record_pre_commit_ack p d =
     (case om_get (dt_participants d) p of
        None \<Rightarrow> Inl (unknown_participant p)
      | Some ps \<Rightarrow>
          Inr (dtx_log (dtx_name (dt_id d) @ '': participant '' @ show_nat (unat p) @ '' pre-commit-acked'')
                 (set_participant p (ps\<lparr>ps_pre_commit_acked := True\<rparr>) d)))"

definition record_committed :: "participant_id \<Rightarrow> distributed_transaction \<Rightarrow> string + distributed_transaction" where
  "record_committed p d =
     (case om_get (dt_participants d) p of
        None \<Rightarrow> Inl (unknown_participant p)
      | Some ps \<Rightarrow>
          Inr (dtx_log (dtx_name (dt_id d) @ '': participant '' @ show_nat (unat p) @ '' committed'')
                 (set_participant p (ps\<lparr>ps_committed := True\<rparr>) d)))"

definition record_aborted :: "participant_id \<Rightarrow> distributed_transaction \<Rightarrow> string + distributed_transaction" where
  "record_aborted p d =
     (case om_get (dt_participants d) p of
        None \<Rightarrow> Inl (unknown_participant p)
      | Some ps \<Rightarrow>
          Inr (dtx_log (dtx_name (dt_id d) @ '': participant '' @ show_nat (unat p) @ '' aborted'')
                 (set_participant p (ps\<lparr>ps_aborted := True\<rparr>) d)))"

section \<open>Coordinator\<close>

record dtx_stats =
  total_transactions :: nat
  total_committed :: nat
  total_aborted :: nat
  total_timeouts :: nat
  active_transactions :: nat

record coordinator =
  transactions :: "(dtx_id, distributed_transaction) ordmap"
  next_id :: dtx_id
  completed_log :: "(dtx_id \<times> dtx_state) list"
  max_completed_log :: nat
  dtx_statistics :: dtx_stats

definition coordinator_new :: coordinator where
  "coordinator_new =
     \<lparr>transactions = [], next_id = 1, completed_log = [], max_completed_log = 100,
      dtx_statistics = \<lparr>total_transactions = 0, total_committed = 0, total_aborted = 0, total_timeouts = 0,
                  active_transactions = 0\<rparr>\<rparr>"

definition dtx_begin ::
    "nat \<Rightarrow> string \<Rightarrow> participant_id list \<Rightarrow> bool \<Rightarrow> nat \<Rightarrow> coordinator \<Rightarrow> (dtx_id \<times> dtx_message list) \<times> coordinator" where
  "dtx_begin now sql ps use_3pc timeout c =
     (let i = next_id c; st = dtx_statistics c;
          c1 = c\<lparr>next_id := next_id c + 1,
                 dtx_statistics := st\<lparr>total_transactions := total_transactions st + 1,
                               active_transactions := active_transactions st + 1\<rparr>,
                 transactions := om_insert i (dtx_new now i sql ps use_3pc timeout) (transactions c)\<rparr>
      in ((i, map (\<lambda>_. Prepare i sql) ps), c1))"

definition put_dtx :: "dtx_id \<Rightarrow> distributed_transaction \<Rightarrow> coordinator \<Rightarrow> coordinator" where
  "put_dtx i d c = c\<lparr>transactions := om_insert i d (transactions c)\<rparr>"

definition not_found :: "dtx_id \<Rightarrow> string" where
  "not_found i = dtx_name i @ '' not found''"

fun join :: "string \<Rightarrow> string list \<Rightarrow> string" where
  "join sep [] = []"
| "join sep [s] = s"
| "join sep (s # ss) = s @ sep @ join sep ss"

definition abort_reason :: "distributed_transaction \<Rightarrow> string" where
  "abort_reason d =
     join ''; '' (List.map_filter (\<lambda>p. if ps_vote p = Some VoteAbort then ps_vote_reason p else None) (ps_values d))"

definition process_vote ::
    "nat \<Rightarrow> dtx_id \<Rightarrow> participant_id \<Rightarrow> dtx_vote \<Rightarrow> string option \<Rightarrow> coordinator \<Rightarrow> (string + dtx_message list) \<times> coordinator" where
  "process_vote now i p v reason c =
     (case om_get (transactions c) i of
        None \<Rightarrow> (Inl (not_found i), c)
      | Some d \<Rightarrow>
          (case record_vote p v reason d of
             Inl e \<Rightarrow> (Inl e, c)
           | Inr d1 \<Rightarrow>
               if any_voted_abort d1 then
                 (let d2 = d1\<lparr>dt_state := Aborting\<rparr>; r = abort_reason d2
                  in (Inr [AbortMsg i r], put_dtx i (dtx_log (dtx_name i @ '': decision=ABORT ('' @ r @ '')'') d2) c))
               else if all_votes_received d1 \<and> all_voted_commit d1 then
                 (if dt_use_3pc d1 then
                    (Inr [PreCommit i],
                     put_dtx i (dtx_log (dtx_name i @ '': all voted COMMIT, entering PRE_COMMIT'')
                       (d1\<lparr>dt_state := PreCommitted, dt_phase_start := now\<rparr>)) c)
                  else
                    (Inr [CommitMsg i],
                     put_dtx i (dtx_log (dtx_name i @ '': all voted COMMIT, decision=COMMIT'')
                       (d1\<lparr>dt_state := Committing, dt_phase_start := now\<rparr>)) c))
               else (Inr [], put_dtx i d1 c)))"

definition process_pre_commit_ack ::
    "nat \<Rightarrow> dtx_id \<Rightarrow> participant_id \<Rightarrow> coordinator \<Rightarrow> (string + dtx_message list) \<times> coordinator" where
  "process_pre_commit_ack now i p c =
     (case om_get (transactions c) i of
        None \<Rightarrow> (Inl (not_found i), c)
      | Some d \<Rightarrow>
          (case record_pre_commit_ack p d of
             Inl e \<Rightarrow> (Inl e, c)
           | Inr d1 \<Rightarrow>
               if all_pre_commit_acked d1 then
                 (Inr [CommitMsg i],
                  put_dtx i (dtx_log (dtx_name i @ '': all pre-commit acked, decision=COMMIT'')
                    (d1\<lparr>dt_state := Committing, dt_phase_start := now\<rparr>)) c)
               else (Inr [], put_dtx i d1 c)))"

definition complete :: "dtx_id \<Rightarrow> dtx_state \<Rightarrow> coordinator \<Rightarrow> coordinator" where
  "complete i s c =
     (let l = completed_log c @ [(i, s)]; st = dtx_statistics c
      in c\<lparr>dtx_statistics := st\<lparr>active_transactions := active_transactions st - 1\<rparr>,
           completed_log := (if length l > max_completed_log c then tl l else l)\<rparr>)"

definition process_ack ::
    "dtx_id \<Rightarrow> participant_id \<Rightarrow> bool \<Rightarrow> coordinator \<Rightarrow> (string + dtx_state option) \<times> coordinator" where
  "process_ack i p was_commit c =
     (case om_get (transactions c) i of
        None \<Rightarrow> (Inl (not_found i), c)
      | Some d \<Rightarrow>
          if was_commit then
            (case record_committed p d of
               Inl e \<Rightarrow> (Inl e, c)
             | Inr d1 \<Rightarrow>
                 if all_committed d1 then
                   (let c1 = put_dtx i (d1\<lparr>dt_state := Committed\<rparr>) c; st = dtx_statistics c1
                    in (Inr (Some Committed),
                        complete i Committed (c1\<lparr>dtx_statistics := st\<lparr>total_committed := total_committed st + 1\<rparr>\<rparr>)))
                 else (Inr None, put_dtx i d1 c))
          else
            (case record_aborted p d of
               Inl e \<Rightarrow> (Inl e, c)
             | Inr d1 \<Rightarrow>
                 if all_aborted d1 then
                   (let c1 = put_dtx i (d1\<lparr>dt_state := Aborted\<rparr>) c; st = dtx_statistics c1
                    in (Inr (Some Aborted),
                        complete i Aborted (c1\<lparr>dtx_statistics := st\<lparr>total_aborted := total_aborted st + 1\<rparr>\<rparr>)))
                 else (Inr None, put_dtx i d1 c)))"

definition abort_timed_out :: "dtx_id \<Rightarrow> coordinator \<Rightarrow> coordinator" where
  "abort_timed_out i c =
     (case om_get (transactions c) i of
        None \<Rightarrow> c
      | Some d \<Rightarrow>
          (let d1 = d\<lparr>dt_state := Aborting\<rparr>;
               d2 = dtx_log (dtx_name i @ '': TIMEOUT in state '' @ dtx_state_display (dt_state d1)) d1;
               st = dtx_statistics c
           in (put_dtx i d2 c)\<lparr>dtx_statistics := st\<lparr>total_timeouts := total_timeouts st + 1\<rparr>\<rparr>))"

definition timed_out_ids :: "nat \<Rightarrow> coordinator \<Rightarrow> dtx_id list" where
  "timed_out_ids now c =
     map fst (filter (\<lambda>(_, d). phase_timed_out now d \<and> dt_state d \<noteq> Committed \<and> dt_state d \<noteq> Aborted) (transactions c))"

definition check_timeouts :: "nat \<Rightarrow> coordinator \<Rightarrow> (dtx_id \<times> dtx_message) list \<times> coordinator" where
  "check_timeouts now c =
     (let ids = timed_out_ids now c
      in (map (\<lambda>i. (i, AbortMsg i ''coordinator timeout'')) ids, fold abort_timed_out ids c))"

definition get_state :: "dtx_id \<Rightarrow> coordinator \<Rightarrow> dtx_state option" where
  "get_state i c = map_option dt_state (om_get (transactions c) i)"

definition get_decision_log :: "dtx_id \<Rightarrow> coordinator \<Rightarrow> string list option" where
  "get_decision_log i c = map_option dt_decision_log (om_get (transactions c) i)"

definition cleanup :: "dtx_id \<Rightarrow> coordinator \<Rightarrow> bool \<times> coordinator" where
  "cleanup i c = (om_get (transactions c) i \<noteq> None, c\<lparr>transactions := om_remove i (transactions c)\<rparr>)"

section \<open>Participant\<close>

record prepared_transaction =
  pt_dtx_id :: dtx_id
  pt_sql :: string
  pt_prepared_at :: nat
  pt_local_ok :: bool
  pt_local_error :: "string option"

record participant =
  node_id :: participant_id
  prepared :: "(dtx_id, prepared_transaction) ordmap"
  total_prepares :: nat
  total_commits :: nat
  total_aborts :: nat
  active_prepared :: nat

definition participant_new :: "participant_id \<Rightarrow> participant" where
  "participant_new i =
     \<lparr>node_id = i, prepared = [], total_prepares = 0, total_commits = 0, total_aborts = 0, active_prepared = 0\<rparr>"

definition handle_prepare ::
    "nat \<Rightarrow> dtx_id \<Rightarrow> string \<Rightarrow> (string \<Rightarrow> string + unit) \<Rightarrow> participant \<Rightarrow> dtx_message \<times> participant" where
  "handle_prepare now i sql local_execute q =
     (let (v, reason, okay, err) =
            (case local_execute sql of
               Inr _ \<Rightarrow> (VoteCommit, None, True, None)
             | Inl e \<Rightarrow> (VoteAbort, Some e, False, Some e));
          pr = om_insert i \<lparr>pt_dtx_id = i, pt_sql = sql, pt_prepared_at = now, pt_local_ok = okay,
                 pt_local_error = err\<rparr> (prepared q)
      in (VoteResult i (node_id q) v reason,
          q\<lparr>total_prepares := total_prepares q + 1, prepared := pr, active_prepared := length pr\<rparr>))"

definition handle_commit :: "dtx_id \<Rightarrow> (dtx_id \<Rightarrow> bool) \<Rightarrow> participant \<Rightarrow> dtx_message \<times> participant" where
  "handle_commit i local_commit q =
     (let success = local_commit i; pr = om_remove i (prepared q)
      in (Ack i (node_id q) success,
          q\<lparr>prepared := pr, total_commits := total_commits q + 1, active_prepared := length pr\<rparr>))"

definition handle_abort :: "dtx_id \<Rightarrow> (dtx_id \<Rightarrow> bool) \<Rightarrow> participant \<Rightarrow> dtx_message \<times> participant" where
  "handle_abort i local_abort q =
     (let success = local_abort i; pr = om_remove i (prepared q)
      in (Ack i (node_id q) success,
          q\<lparr>prepared := pr, total_aborts := total_aborts q + 1, active_prepared := length pr\<rparr>))"

definition handle_pre_commit :: "dtx_id \<Rightarrow> participant \<Rightarrow> dtx_message" where
  "handle_pre_commit i q = PreCommitAck i (node_id q)"

definition is_prepared :: "dtx_id \<Rightarrow> participant \<Rightarrow> bool" where
  "is_prepared i q \<longleftrightarrow> om_get (prepared q) i \<noteq> None"

section \<open>The system\<close>

text \<open>
  Coordinator, nodes and network. A message that was sent may arrive any number of times, at any node and
  in any order, or never. \<open>committed_at\<close> and \<open>aborted_at\<close> record which node ended which
  transaction how. Acknowledgements reach the coordinator with any outcome.
\<close>

record dtx_system =
  coord :: coordinator
  nodes :: "participant_id \<Rightarrow> participant"
  sent :: "dtx_message set"
  committed_at :: "(participant_id \<times> dtx_id) set"
  aborted_at :: "(participant_id \<times> dtx_id) set"

definition dtx_system_new :: dtx_system where
  "dtx_system_new = \<lparr>coord = coordinator_new, nodes = participant_new, sent = {}, committed_at = {}, aborted_at = {}\<rparr>"

fun messages :: "string + dtx_message list \<Rightarrow> dtx_message set" where
  "messages (Inl e) = {}"
| "messages (Inr ms) = set ms"

inductive dtx_step :: "dtx_system \<Rightarrow> dtx_system \<Rightarrow> bool" where
  dtx_begins: "next_id (coord s) \<noteq> - 1 \<Longrightarrow> dtx_begin now sql ps use_3pc timeout (coord s) = ((i, ms), c') \<Longrightarrow>
     dtx_step s (s\<lparr>coord := c', sent := sent s \<union> set ms\<rparr>)"
| node_prepares: "Prepare i sql \<in> sent s \<Longrightarrow> handle_prepare now i sql local_execute (nodes s p) = (m, q') \<Longrightarrow>
     dtx_step s (s\<lparr>nodes := (nodes s)(p := q'), sent := insert m (sent s)\<rparr>)"
| vote_arrives: "VoteResult i p v reason \<in> sent s \<Longrightarrow> process_vote now i p v reason (coord s) = (r, c') \<Longrightarrow>
     dtx_step s (s\<lparr>coord := c', sent := sent s \<union> messages r\<rparr>)"
| node_pre_commits: "PreCommit i \<in> sent s \<Longrightarrow>
     dtx_step s (s\<lparr>sent := insert (handle_pre_commit i (nodes s p)) (sent s)\<rparr>)"
| pre_commit_ack_arrives: "PreCommitAck i p \<in> sent s \<Longrightarrow> process_pre_commit_ack now i p (coord s) = (r, c') \<Longrightarrow>
     dtx_step s (s\<lparr>coord := c', sent := sent s \<union> messages r\<rparr>)"
| node_commits: "CommitMsg i \<in> sent s \<Longrightarrow> handle_commit i local_commit (nodes s p) = (m, q') \<Longrightarrow>
     dtx_step s (s\<lparr>nodes := (nodes s)(p := q'), sent := insert m (sent s), committed_at := insert (p, i) (committed_at s)\<rparr>)"
| node_aborts: "AbortMsg i reason \<in> sent s \<Longrightarrow> handle_abort i local_abort (nodes s p) = (m, q') \<Longrightarrow>
     dtx_step s (s\<lparr>nodes := (nodes s)(p := q'), sent := insert m (sent s), aborted_at := insert (p, i) (aborted_at s)\<rparr>)"
| ack_arrives: "Ack i p success \<in> sent s \<Longrightarrow> process_ack i p was_commit (coord s) = (r, c') \<Longrightarrow>
     dtx_step s (s\<lparr>coord := c'\<rparr>)"
| cleans_up: "cleanup i (coord s) = (b, c') \<Longrightarrow> dtx_step s (s\<lparr>coord := c'\<rparr>)"

inductive timeout_step :: "dtx_system \<Rightarrow> dtx_system \<Rightarrow> bool" where
  times_out: "check_timeouts now (coord s) = (ms, c') \<Longrightarrow>
     timeout_step s (s\<lparr>coord := c', sent := sent s \<union> snd ` set ms\<rparr>)"

section \<open>Agreement\<close>

definition decided_commit :: "dtx_message set \<Rightarrow> dtx_id \<Rightarrow> bool" where
  "decided_commit S i \<longleftrightarrow> PreCommit i \<in> S \<or> CommitMsg i \<in> S"

definition decided_abort :: "dtx_message set \<Rightarrow> dtx_id \<Rightarrow> bool" where
  "decided_abort S i \<longleftrightarrow> (\<exists>r. AbortMsg i r \<in> S)"

definition dtx_inv :: "coordinator \<Rightarrow> dtx_message set \<Rightarrow> bool" where
  "dtx_inv c S \<longleftrightarrow>
     (\<forall>i d. om_get (transactions c) i = Some d \<longrightarrow> i < next_id c \<and> om_ok (dt_participants d)
        \<and> (decided_commit S i \<longrightarrow> all_voted_commit d) \<and> (decided_abort S i \<longrightarrow> any_voted_abort d))
     \<and> (\<forall>i. decided_commit S i \<or> decided_abort S i \<longrightarrow> i < next_id c)
     \<and> (\<forall>i. \<not> (decided_commit S i \<and> decided_abort S i))
     \<and> (\<forall>i p. PreCommitAck i p \<in> S \<longrightarrow> PreCommit i \<in> S)"

lemma all_voted_commit_get:
  "om_ok (dt_participants d) \<Longrightarrow>
     all_voted_commit d \<longleftrightarrow> (\<forall>p ps. om_get (dt_participants d) p = Some ps \<longrightarrow> ps_vote ps = Some VoteCommit)"
  by (simp add: all_voted_commit_def ps_values_def om_values_all)

lemma any_voted_abort_get:
  "om_ok (dt_participants d) \<Longrightarrow>
     any_voted_abort d \<longleftrightarrow> (\<exists>p ps. om_get (dt_participants d) p = Some ps \<and> ps_vote ps = Some VoteAbort)"
  by (simp add: any_voted_abort_def ps_values_def om_values_ex)

text \<open>Writing a transaction back, with messages that decide nothing about other transactions.\<close>

lemma dtx_inv_put:
  assumes inv: "dtx_inv c S" and "om_get (transactions c) i = Some d"
    and c': "transactions c' = om_insert i d' (transactions c)" "next_id c' = next_id c"
    and "om_ok (dt_participants d')"
    and "\<And>j. j \<noteq> i \<Longrightarrow> decided_commit S' j = decided_commit S j" "\<And>j. j \<noteq> i \<Longrightarrow> decided_abort S' j = decided_abort S j"
    and "decided_commit S' i \<Longrightarrow> all_voted_commit d'" "decided_abort S' i \<Longrightarrow> any_voted_abort d'"
    and "\<not> (decided_commit S' i \<and> decided_abort S' i)"
    and "\<And>j p. PreCommitAck j p \<in> S' \<Longrightarrow> PreCommit j \<in> S'"
  shows "dtx_inv c' S'"
proof -
  have "j < next_id c'" if "decided_commit S' j \<or> decided_abort S' j" for j
    using that assms by (cases "j = i") (auto simp: dtx_inv_def)
  moreover have "\<not> (decided_commit S' j \<and> decided_abort S' j)" for j
    using assms by (cases "j = i") (auto simp: dtx_inv_def)
  moreover have "j < next_id c' \<and> om_ok (dt_participants e) \<and> (decided_commit S' j \<longrightarrow> all_voted_commit e)
      \<and> (decided_abort S' j \<longrightarrow> any_voted_abort e)" if "om_get (transactions c') j = Some e" for j e
    using that assms by (cases "j = i") (auto simp: dtx_inv_def)
  ultimately show ?thesis using assms(11) by (simp add: dtx_inv_def)
qed

lemma voted_dtx_log [simp]:
  "all_voted_commit (dtx_log s d) = all_voted_commit d" "any_voted_abort (dtx_log s d) = any_voted_abort d"
  "all_voted_commit (d\<lparr>dt_state := st\<rparr>) = all_voted_commit d" "any_voted_abort (d\<lparr>dt_state := st\<rparr>) = any_voted_abort d"
  "all_voted_commit (d\<lparr>dt_phase_start := n\<rparr>) = all_voted_commit d" "any_voted_abort (d\<lparr>dt_phase_start := n\<rparr>) = any_voted_abort d"
  "dt_participants (dtx_log s d) = dt_participants d" "dt_use_3pc (dtx_log s d) = dt_use_3pc d"
  by (simp_all add: all_voted_commit_def any_voted_abort_def ps_values_def dtx_log_def)

lemma decided_empty [simp]: "\<not> decided_commit {} j" "\<not> decided_abort {} j"
  by (simp_all add: decided_commit_def decided_abort_def)

lemma decided_insert [simp]:
  "decided_commit (insert m S) j \<longleftrightarrow> m = PreCommit j \<or> m = CommitMsg j \<or> decided_commit S j"
  "decided_abort (insert m S) j \<longleftrightarrow> (\<exists>r. m = AbortMsg j r) \<or> decided_abort S j"
  by (auto simp: decided_commit_def decided_abort_def)

lemma record_vote_Inr:
  assumes "record_vote p v reason d = Inr d1"
  obtains ps where "om_get (dt_participants d) p = Some ps" "ps_vote ps = None"
    "dt_participants d1 = om_insert p (ps\<lparr>ps_vote := Some v, ps_vote_reason := reason\<rparr>) (dt_participants d)"
  using assms by (auto simp: record_vote_def set_participant_def split: option.splits if_splits)

lemma vote_effect:
  assumes "record_vote p v reason d = Inr d1" and "om_ok (dt_participants d)"
  shows "om_ok (dt_participants d1)" and "\<not> all_voted_commit d" and "any_voted_abort d \<Longrightarrow> any_voted_abort d1"
    and "all_voted_commit d1 \<Longrightarrow> \<not> any_voted_abort d1"
proof -
  from assms(1) obtain ps where ps: "om_get (dt_participants d) p = Some ps" "ps_vote ps = None"
    "dt_participants d1 = om_insert p (ps\<lparr>ps_vote := Some v, ps_vote_reason := reason\<rparr>) (dt_participants d)"
    by (rule record_vote_Inr)
  show ok1: "om_ok (dt_participants d1)" using assms(2) by (simp add: ps(3))
  show "\<not> all_voted_commit d" using ps(1,2) by (auto simp: all_voted_commit_get [OF assms(2)] intro!: exI)
  show "any_voted_abort d \<Longrightarrow> any_voted_abort d1"
  proof -
    assume "any_voted_abort d"
    then obtain q qs where "om_get (dt_participants d) q = Some qs" "ps_vote qs = Some VoteAbort"
      by (auto simp: any_voted_abort_get [OF assms(2)])
    with ps have "om_get (dt_participants d1) q = Some qs" "ps_vote qs = Some VoteAbort" by auto
    then show ?thesis by (auto simp: any_voted_abort_get [OF ok1])
  qed
  show "all_voted_commit d1 \<Longrightarrow> \<not> any_voted_abort d1"
    by (auto simp: any_voted_abort_get [OF ok1] all_voted_commit_get [OF ok1])
qed

lemma dtx_inv_vote:
  assumes inv: "dtx_inv c S" and pv: "process_vote now i p v reason c = (r, c')"
  shows "dtx_inv c' (S \<union> messages r)"
proof (cases "om_get (transactions c) i")
  case None
  with pv inv show ?thesis by (auto simp: process_vote_def)
next
  case d: (Some d)
  show ?thesis
  proof (cases "record_vote p v reason d")
    case (Inl e)
    with pv inv d show ?thesis by (auto simp: process_vote_def)
  next
    case (Inr d1)
    have okd: "om_ok (dt_participants d)" using inv d by (auto simp: dtx_inv_def)
    note eff = vote_effect [OF Inr okd]
    have no_commit: "\<not> decided_commit S i" using inv d eff(2) by (auto simp: dtx_inv_def)
    have ab: "decided_abort S i \<Longrightarrow> any_voted_abort d1" using inv d eff(3) by (auto simp: dtx_inv_def)
    have acks: "PreCommitAck j q \<in> S \<Longrightarrow> PreCommit j \<in> S" for j q using inv by (auto simp: dtx_inv_def)
    have acks': "PreCommitAck j q \<in> S \<union> messages r \<Longrightarrow> PreCommit j \<in> S \<union> messages r" for j q
      using acks pv d Inr by (auto simp: process_vote_def Let_def split: if_splits)
    consider "any_voted_abort d1" | "\<not> any_voted_abort d1" "all_votes_received d1 \<and> all_voted_commit d1"
      | "\<not> any_voted_abort d1" "\<not> (all_votes_received d1 \<and> all_voted_commit d1)" by blast
    then show ?thesis
    proof cases
      case 1
      with pv d Inr obtain s where c': "messages r = {AbortMsg i (abort_reason (d1\<lparr>dt_state := Aborting\<rparr>))}"
        "c' = put_dtx i (dtx_log s (d1\<lparr>dt_state := Aborting\<rparr>)) c"
        by (auto simp: process_vote_def Let_def)
      show ?thesis
        by (rule dtx_inv_put [OF inv d, of _ "dtx_log s (d1\<lparr>dt_state := Aborting\<rparr>)"])
          (use 1 eff(1) no_commit acks' in \<open>auto simp: c' put_dtx_def\<close>)
    next
      case 2
      with pv d Inr obtain s st m where c': "messages r = {m}" "m = PreCommit i \<or> m = CommitMsg i"
        "c' = put_dtx i (dtx_log s (d1\<lparr>dt_state := st, dt_phase_start := now\<rparr>)) c"
        by (auto simp: process_vote_def split: if_splits)
      show ?thesis
        by (rule dtx_inv_put [OF inv d, of _ "dtx_log s (d1\<lparr>dt_state := st, dt_phase_start := now\<rparr>)"])
          (use 2 c'(2) eff(1) ab acks' in \<open>auto simp: c'(1,3) put_dtx_def\<close>)
    next
      case 3
      with pv d Inr have c': "messages r = {}" "c' = put_dtx i d1 c" by (auto simp: process_vote_def)
      show ?thesis
        by (rule dtx_inv_put [OF inv d, of _ d1])
          (use eff(1) no_commit ab acks in \<open>auto simp: c' put_dtx_def\<close>)
    qed
  qed
qed

text \<open>The acknowledgements leave the votes alone.\<close>

lemma ack_keeps_votes:
  assumes "om_get (dt_participants d) p = Some ps" and "dt_participants d1 = om_insert p ps' (dt_participants d)"
    and "ps_vote ps' = ps_vote ps" and ok: "om_ok (dt_participants d)"
  shows "om_ok (dt_participants d1)" and "all_voted_commit d1 = all_voted_commit d"
    and "any_voted_abort d1 = any_voted_abort d"
proof -
  show ok1: "om_ok (dt_participants d1)" using ok by (simp add: assms(2))
  have "(\<exists>qs. om_get (dt_participants d1) q = Some qs \<and> ps_vote qs = w)
      \<longleftrightarrow> (\<exists>qs. om_get (dt_participants d) q = Some qs \<and> ps_vote qs = w)" for q w
    using assms(1-3) by (cases "q = p") auto
  then show "all_voted_commit d1 = all_voted_commit d" "any_voted_abort d1 = any_voted_abort d"
    unfolding all_voted_commit_get [OF ok] all_voted_commit_get [OF ok1]
      any_voted_abort_get [OF ok] any_voted_abort_get [OF ok1] by metis+
qed

lemma dtx_inv_ack_put:
  assumes inv: "dtx_inv c S" and d: "om_get (transactions c) i = Some d"
    and c': "transactions c' = om_insert i d' (transactions c)" "next_id c' = next_id c"
    and p: "om_get (dt_participants d) p = Some ps" "dt_participants d' = om_insert p ps' (dt_participants d)"
      "ps_vote ps' = ps_vote ps"
    and S': "S' = S \<or> S' = insert (CommitMsg i) S \<and> decided_commit S i"
  shows "dtx_inv c' S'"
proof -
  have "om_ok (dt_participants d)" using inv d by (auto simp: dtx_inv_def)
  note keep = ack_keeps_votes [OF p this]
  from S' have "decided_commit S' j = decided_commit S j" "decided_abort S' j = decided_abort S j" for j
    by auto
  with S' inv d keep show ?thesis
    by (intro dtx_inv_put [OF inv d c' keep(1), of S']) (auto simp: dtx_inv_def)
qed

lemma record_ack_Inr:
  assumes "record_pre_commit_ack p d = Inr d1 \<or> record_committed p d = Inr d1 \<or> record_aborted p d = Inr d1"
  obtains ps ps' where "om_get (dt_participants d) p = Some ps"
    "dt_participants d1 = om_insert p ps' (dt_participants d)" "ps_vote ps' = ps_vote ps"
  using assms by (auto simp: record_pre_commit_ack_def record_committed_def record_aborted_def set_participant_def
      split: option.splits)

lemma dtx_inv_pre_commit_ack:
  assumes inv: "dtx_inv c S" and "PreCommitAck i p \<in> S" and pa: "process_pre_commit_ack now i p c = (r, c')"
  shows "dtx_inv c' (S \<union> messages r)"
proof (cases "om_get (transactions c) i")
  case None
  with pa inv show ?thesis by (auto simp: process_pre_commit_ack_def)
next
  case d: (Some d)
  have dec: "decided_commit S i" using inv assms(2) by (auto simp: dtx_inv_def decided_commit_def)
  show ?thesis
  proof (cases "record_pre_commit_ack p d")
    case (Inl e)
    with pa inv d show ?thesis by (auto simp: process_pre_commit_ack_def)
  next
    case (Inr d1)
    then obtain ps ps' where ps: "om_get (dt_participants d) p = Some ps"
      "dt_participants d1 = om_insert p ps' (dt_participants d)" "ps_vote ps' = ps_vote ps"
      using record_ack_Inr by blast
    let ?e = "dtx_log (dtx_name i @ '': all pre-commit acked, decision=COMMIT'')
      (d1\<lparr>dt_state := Committing, dt_phase_start := now\<rparr>)"
    from pa d Inr consider "c' = put_dtx i ?e c" "messages r = {CommitMsg i}" | "c' = put_dtx i d1 c" "messages r = {}"
      by (auto simp: process_pre_commit_ack_def split: if_splits)
    then show ?thesis
    proof cases
      case 1
      show ?thesis by (rule dtx_inv_ack_put [OF inv d, of _ ?e p ps ps']) (use 1 ps dec in \<open>simp_all add: put_dtx_def\<close>)
    next
      case 2
      show ?thesis by (rule dtx_inv_ack_put [OF inv d, of _ d1 p ps ps']) (use 2 ps in \<open>simp_all add: put_dtx_def\<close>)
    qed
  qed
qed

lemma complete_keeps [simp]:
  "transactions (complete i s c) = transactions c" "next_id (complete i s c) = next_id c"
  by (simp_all add: complete_def Let_def)

lemma dtx_inv_ack:
  assumes inv: "dtx_inv c S" and pa: "process_ack i p b c = (r, c')"
  shows "dtx_inv c' S"
proof (cases "om_get (transactions c) i")
  case None
  with pa inv show ?thesis by (auto simp: process_ack_def)
next
  case d: (Some d)
  let ?rec = "if b then record_committed p d else record_aborted p d"
  show ?thesis
  proof (cases ?rec)
    case (Inl e)
    with pa inv d show ?thesis by (auto simp: process_ack_def split: if_splits)
  next
    case (Inr d1)
    then obtain ps ps' where ps: "om_get (dt_participants d) p = Some ps"
      "dt_participants d1 = om_insert p ps' (dt_participants d)" "ps_vote ps' = ps_vote ps"
      using record_ack_Inr [of p d d1] by (auto split: if_splits)
    from pa d Inr have
      "transactions c' = om_insert i (d1\<lparr>dt_state := Committed\<rparr>) (transactions c)
        \<or> transactions c' = om_insert i (d1\<lparr>dt_state := Aborted\<rparr>) (transactions c)
        \<or> transactions c' = om_insert i d1 (transactions c)"
      and n: "next_id c' = next_id c"
      by (auto simp: process_ack_def put_dtx_def Let_def split: if_splits)
    then obtain e where "transactions c' = om_insert i e (transactions c)" "dt_participants e = dt_participants d1"
      by (elim disjE) auto
    with ps show ?thesis by (intro dtx_inv_ack_put [OF inv d _ n, of e p ps ps']) simp_all
  qed
qed

lemma fold_participants_ok: "om_ok m \<Longrightarrow> om_ok (fold (\<lambda>p m. om_insert p (f p) m) ps m)"
  by (induction ps arbitrary: m) simp_all

lemma dtx_inv_begin:
  assumes inv: "dtx_inv c S" and n: "next_id c \<noteq> - 1"
    and b: "dtx_begin now sql ps use_3pc timeout c = ((i, ms), c')"
  shows "dtx_inv c' (S \<union> set ms)"
proof -
  have i: "i = next_id c" "next_id c' = next_id c + 1" "set ms \<subseteq> {Prepare i sql}"
    "transactions c' = om_insert i (dtx_new now i sql ps use_3pc timeout) (transactions c)"
    using b by (auto simp: dtx_begin_def Let_def)
  have up: "j < next_id c'" if "j < next_id c" for j using that n by (simp add: i u64_less_succ)
  have less: "i < next_id c'" using n by (simp add: i u64_less_succ)
  have fresh: "\<not> decided_commit S i" "\<not> decided_abort S i" using inv by (auto simp: dtx_inv_def i(1))
  have same: "decided_commit (S \<union> set ms) j = decided_commit S j" "decided_abort (S \<union> set ms) j = decided_abort S j" for j
    using i(3) by (auto simp: decided_commit_def decided_abort_def)
  have ok: "om_ok (dt_participants (dtx_new now i sql ps use_3pc timeout))"
    by (simp add: dtx_new_def fold_participants_ok)
  have "j < next_id c' \<and> om_ok (dt_participants d) \<and> (decided_commit S j \<longrightarrow> all_voted_commit d)
      \<and> (decided_abort S j \<longrightarrow> any_voted_abort d)" if "om_get (transactions c') j = Some d" for j d
    using that inv fresh ok less up by (cases "j = i") (auto simp: i(4) dtx_inv_def)
  moreover have "PreCommit j \<in> S \<union> set ms" if "PreCommitAck j p \<in> S \<union> set ms" for j p
    using that inv i(3) by (auto simp: dtx_inv_def)
  ultimately show ?thesis using inv up unfolding dtx_inv_def same by auto
qed

lemma dtx_inv_node:
  assumes "dtx_inv c S" and "\<And>i r. m \<noteq> PreCommit i \<and> m \<noteq> CommitMsg i \<and> m \<noteq> AbortMsg i r"
    and "\<And>i p. m = PreCommitAck i p \<Longrightarrow> PreCommit i \<in> S"
  shows "dtx_inv c (insert m S)"
proof -
  have "decided_commit (insert m S) j = decided_commit S j" "decided_abort (insert m S) j = decided_abort S j" for j
    using assms(2) by auto
  with assms show ?thesis unfolding dtx_inv_def by auto
qed

text \<open>The invariant of the system: the decisions agree, and a node ends a transaction only as decided.\<close>

definition sys_inv :: "dtx_system \<Rightarrow> bool" where
  "sys_inv s \<longleftrightarrow> dtx_inv (coord s) (sent s)
     \<and> (\<forall>(p, i) \<in> committed_at s. decided_commit (sent s) i) \<and> (\<forall>(p, i) \<in> aborted_at s. decided_abort (sent s) i)"

lemma sys_invI:
  assumes "sys_inv s" and "dtx_inv (coord s') (sent s')" and "sent s \<subseteq> sent s'"
    and "committed_at s' = committed_at s \<or> (\<exists>p i. committed_at s' = insert (p, i) (committed_at s) \<and> CommitMsg i \<in> sent s)"
    and "aborted_at s' = aborted_at s \<or> (\<exists>p i r. aborted_at s' = insert (p, i) (aborted_at s) \<and> AbortMsg i r \<in> sent s)"
  shows "sys_inv s'"
proof -
  have mono: "decided_commit (sent s) i \<Longrightarrow> decided_commit (sent s') i"
    "decided_abort (sent s) i \<Longrightarrow> decided_abort (sent s') i" for i
    using assms(3) by (auto simp: decided_commit_def decided_abort_def)
  have sent: "CommitMsg i \<in> sent s \<Longrightarrow> decided_commit (sent s) i" "AbortMsg i r \<in> sent s \<Longrightarrow> decided_abort (sent s) i" for i r
    by (auto simp: decided_commit_def decided_abort_def)
  have "decided_commit (sent s') i" if "(p, i) \<in> committed_at s'" for p i
    using that assms(1,4) sent(1) by (intro mono(1)) (auto simp: sys_inv_def)
  moreover have "decided_abort (sent s') i" if "(p, i) \<in> aborted_at s'" for p i
    using that assms(1,5) sent(2) by (intro mono(2)) (auto simp: sys_inv_def)
  ultimately show ?thesis using assms(2) by (auto simp: sys_inv_def)
qed

lemma sys_inv_step: "dtx_step s s' \<Longrightarrow> sys_inv s \<Longrightarrow> sys_inv s'"
proof (induction rule: dtx_step.induct)
  case (dtx_begins s now sql ps use_3pc timeout i ms c')
  then show ?case by (intro sys_invI [OF dtx_begins.prems]) (auto simp: sys_inv_def intro: dtx_inv_begin)
next
  case (node_prepares i sql s now local_execute p m q')
  then obtain v r where "m = VoteResult i (node_id (nodes s p)) v r"
    by (auto simp: handle_prepare_def Let_def split: prod.splits)
  with node_prepares show ?case by (intro sys_invI [OF node_prepares.prems]) (auto simp: sys_inv_def intro: dtx_inv_node)
next
  case (vote_arrives i p v reason s now r c')
  then show ?case by (intro sys_invI [OF vote_arrives.prems]) (auto simp: sys_inv_def intro: dtx_inv_vote)
next
  case (node_pre_commits i s p)
  then show ?case by (intro sys_invI [OF node_pre_commits.prems])
      (auto simp: sys_inv_def handle_pre_commit_def intro: dtx_inv_node)
next
  case (pre_commit_ack_arrives i p s now r c')
  then show ?case by (intro sys_invI [OF pre_commit_ack_arrives.prems])
      (auto simp: sys_inv_def intro: dtx_inv_pre_commit_ack)
next
  case (node_commits i s local_commit p m q')
  then have "m = Ack i (node_id (nodes s p)) (local_commit i)" by (auto simp: handle_commit_def Let_def)
  with node_commits show ?case by (intro sys_invI [OF node_commits.prems]) (auto simp: sys_inv_def intro: dtx_inv_node)
next
  case (node_aborts i reason s local_abort p m q')
  then have "m = Ack i (node_id (nodes s p)) (local_abort i)" by (auto simp: handle_abort_def Let_def)
  with node_aborts show ?case by (intro sys_invI [OF node_aborts.prems]) (auto simp: sys_inv_def intro: dtx_inv_node)
next
  case (ack_arrives i p success s was_commit r c')
  then show ?case by (intro sys_invI [OF ack_arrives.prems]) (auto simp: sys_inv_def intro: dtx_inv_ack)
next
  case (cleans_up i s b c')
  then have "dtx_inv c' (sent s)" by (auto simp: cleanup_def sys_inv_def dtx_inv_def split: if_splits)
  then show ?case by (intro sys_invI [OF cleans_up.prems]) auto
qed

abbreviation dtx_runs :: "dtx_system \<Rightarrow> dtx_system \<Rightarrow> bool" where
  "dtx_runs \<equiv> dtx_step\<^sup>*\<^sup>*"

lemma sys_inv_runs: "dtx_runs dtx_system_new s \<Longrightarrow> sys_inv s"
proof (induction rule: rtranclp_induct)
  case base
  show ?case by (auto simp: sys_inv_def dtx_system_new_def dtx_inv_def coordinator_new_def decided_commit_def decided_abort_def)
qed (rule sys_inv_step)

text \<open>C32: atomicity of distributed transactions. In every run of coordinator, nodes and network (messages
  lost, repeated and reordered, two or three phases, any outcome of the local executions) in which no phase
  times out, no node aborts a transaction that some node has committed; and while the coordinator still
  keeps the transaction, every participant has voted to commit.\<close>

theorem two_phase_commit_atomic:
  assumes "dtx_runs dtx_system_new s" and "(p, i) \<in> committed_at s"
  shows "(q, i) \<notin> aborted_at s
     \<and> (case om_get (transactions (coord s)) i of None \<Rightarrow> True | Some d \<Rightarrow> all_voted_commit d)"
proof -
  have inv: "dtx_inv (coord s) (sent s)" and dec: "decided_commit (sent s) i"
    and ab: "(q, i) \<in> aborted_at s \<Longrightarrow> decided_abort (sent s) i"
    using sys_inv_runs [OF assms(1)] assms(2) by (auto simp: sys_inv_def)
  from inv dec have "\<not> decided_abort (sent s) i" by (simp add: dtx_inv_def)
  with ab inv dec show ?thesis by (auto simp: dtx_inv_def split: option.split)
qed

text \<open>A run with two nodes that vote to commit, until the coordinator sends the decision and node 1
  carries it out.\<close>

abbreviation dsys :: "coordinator \<Rightarrow> (participant_id \<Rightarrow> participant) \<Rightarrow> dtx_message set \<Rightarrow>
    (participant_id \<times> dtx_id) set \<Rightarrow> (participant_id \<times> dtx_id) set \<Rightarrow> dtx_system" where
  "dsys c n S C A \<equiv> \<lparr>coord = c, nodes = n, sent = S, committed_at = C, aborted_at = A\<rparr>"

definition sample_c1 :: coordinator where
  "sample_c1 = snd (dtx_begin 0 [] [1, 2] False 10 coordinator_new)"

definition sample_c2 :: coordinator where
  "sample_c2 = snd (process_vote 1 1 1 VoteCommit None sample_c1)"

definition sample_c3 :: coordinator where
  "sample_c3 = snd (process_vote 2 1 2 VoteCommit None sample_c2)"

definition sample_prepared :: "participant_id \<Rightarrow> participant" where
  "sample_prepared p = snd (handle_prepare 0 1 [] (\<lambda>_. Inr ()) (participant_new p))"

lemma sample_votes:
  "fst (process_vote 1 1 1 VoteCommit None sample_c1) = Inr []"
  "fst (process_vote 2 1 2 VoteCommit None sample_c2) = Inr [CommitMsg 1]"
  by code_simp+

lemma sample_step_eqs:
  "dtx_begin 0 [] [1, 2] False 10 coordinator_new = ((1, [Prepare 1 [], Prepare 1 []]), sample_c1)"
  "process_vote 1 1 1 VoteCommit None sample_c1 = (Inr [], sample_c2)"
  "process_vote 2 1 2 VoteCommit None sample_c2 = (Inr [CommitMsg 1], sample_c3)"
  "handle_prepare 0 1 [] (\<lambda>_. Inr ()) (participant_new p) = (VoteResult 1 p VoteCommit None, sample_prepared p)"
  using sample_votes
  by (simp_all add: prod_eq_iff sample_c1_def sample_c2_def sample_c3_def sample_prepared_def dtx_begin_def Let_def
      coordinator_new_def handle_prepare_def participant_new_def del: process_vote_def)

definition sample_sent :: "dtx_message set" where
  "sample_sent = {CommitMsg 1, VoteResult 1 2 VoteCommit None, VoteResult 1 1 VoteCommit None, Prepare 1 []}"

definition sample_nodes :: "participant_id \<Rightarrow> participant" where
  "sample_nodes = participant_new(1 := sample_prepared 1, 2 := sample_prepared 2)"

lemma sample_decided: "dtx_runs dtx_system_new (dsys sample_c3 sample_nodes sample_sent {} {})"
proof -
  let ?S1 = "{Prepare 1 []}"
  let ?S2 = "insert (VoteResult 1 1 VoteCommit None) ?S1"
  let ?S3 = "insert (VoteResult 1 2 VoteCommit None) ?S2"
  let ?n1 = "participant_new(1 := sample_prepared 1)"
  have "dtx_step dtx_system_new (dsys sample_c1 participant_new ?S1 {} {})"
    using dtx_begins [of dtx_system_new 0 "[]" "[1, 2]" False 10] sample_step_eqs(1)
    by (simp add: dtx_system_new_def coordinator_new_def)
  moreover have "dtx_step (dsys sample_c1 participant_new ?S1 {} {}) (dsys sample_c1 ?n1 ?S2 {} {})"
    using node_prepares [of 1 "[]" "dsys sample_c1 participant_new ?S1 {} {}" 0 "\<lambda>_. Inr ()" 1]
    by (simp add: sample_step_eqs(4))
  moreover have "dtx_step (dsys sample_c1 ?n1 ?S2 {} {}) (dsys sample_c1 sample_nodes ?S3 {} {})"
    using node_prepares [of 1 "[]" "dsys sample_c1 ?n1 ?S2 {} {}" 0 "\<lambda>_. Inr ()" 2]
    by (simp add: sample_step_eqs(4) sample_nodes_def)
  moreover have "dtx_step (dsys sample_c1 sample_nodes ?S3 {} {}) (dsys sample_c2 sample_nodes ?S3 {} {})"
    using vote_arrives [of 1 1 VoteCommit None "dsys sample_c1 sample_nodes ?S3 {} {}" 1 "Inr []" sample_c2]
      sample_step_eqs(2) by simp
  moreover have "dtx_step (dsys sample_c2 sample_nodes ?S3 {} {}) (dsys sample_c3 sample_nodes sample_sent {} {})"
    using vote_arrives [of 1 2 VoteCommit None "dsys sample_c2 sample_nodes ?S3 {} {}" 2 "Inr [CommitMsg 1]" sample_c3]
      sample_step_eqs(3) by (simp add: sample_sent_def)
  ultimately show ?thesis by (meson converse_rtranclp_into_rtranclp rtranclp.rtrancl_refl)
qed

definition sample_committed :: dtx_system where
  "sample_committed = dsys sample_c3 (sample_nodes(1 := snd (handle_commit 1 (\<lambda>_. True) (sample_prepared 1))))
     (insert (Ack 1 1 True) sample_sent) {(1, 1)} {}"

lemma sample_committed_runs: "dtx_runs dtx_system_new sample_committed"
proof -
  have "dtx_step (dsys sample_c3 sample_nodes sample_sent {} {}) sample_committed"
    using node_commits [of 1 "dsys sample_c3 sample_nodes sample_sent {} {}" "\<lambda>_. True" 1 "Ack 1 1 True"
        "snd (handle_commit 1 (\<lambda>_. True) (sample_prepared 1))"]
    by (simp add: sample_committed_def sample_sent_def sample_nodes_def handle_commit_def Let_def
        sample_prepared_def handle_prepare_def participant_new_def)
  with sample_decided show ?thesis by (rule rtranclp.rtrancl_into_rtrancl)
qed

theorem two_phase_commit_atomic_witness:
  "(1, 1) \<in> committed_at sample_committed \<and> (2, 1) \<notin> aborted_at sample_committed"
  using two_phase_commit_atomic [OF sample_committed_runs, of 1 1 2]
  by (simp add: sample_committed_def)

text \<open>a timeout breaks atomicity. From the state above, in which the decision to commit has been sent and
  node 1 has committed, the coordinator's timeout check sends an abort for the same transaction, and
  node 2, which still waits for the decision, aborts it.\<close>

lemma timeout_breaks_atomicity:
  "\<exists>s s'. dtx_runs dtx_system_new sample_committed \<and> timeout_step sample_committed s \<and> dtx_step s s'
     \<and> (1, 1) \<in> committed_at s' \<and> (2, 1) \<in> aborted_at s'"
proof -
  have ids: "timed_out_ids 100 sample_c3 = [1]" by code_simp
  define c where "c = snd (check_timeouts 100 sample_c3)"
  define s where "s = sample_committed\<lparr>coord := c, sent := insert (AbortMsg 1 ''coordinator timeout'') (sent sample_committed)\<rparr>"
  have "check_timeouts 100 sample_c3 = ([(1, AbortMsg 1 ''coordinator timeout'')], c)"
    by (simp add: check_timeouts_def ids c_def)
  then have t: "timeout_step sample_committed s"
    using times_out [of 100 sample_committed] by (simp add: sample_committed_def s_def insert_commute)
  have "AbortMsg 1 ''coordinator timeout'' \<in> sent s" by (simp add: s_def)
  moreover obtain m q where "handle_abort 1 (\<lambda>_. True) (nodes s 2) = (m, q)" by fastforce
  moreover define s' where "s' = s\<lparr>nodes := (nodes s)(2 := q), sent := insert m (sent s), aborted_at := insert (2, 1) (aborted_at s)\<rparr>"
  ultimately have "dtx_step s s'" by (simp only: node_aborts)
  moreover have "(1, 1) \<in> committed_at s'" "(2, 1) \<in> aborted_at s'" by (simp_all add: s'_def s_def sample_committed_def)
  ultimately show ?thesis using t sample_committed_runs by blast
qed

end
