(* ===== verification/Gc.thy ===== *)
theory Gc
  imports StdLib OrdMap
begin

text \<open>
  Version garbage collection, the isolation verifier and the foreign-key cascades of
  \<^verbatim>\<open>src/src/vm/gc.rs\<close>. Maps are ordered maps (no result depends on the order), the counters
  of purged bytes and versions are naturals, and a creation time is a clock reading.
\<close>

section \<open>Versions\<close>

record versioned_row =
  vr_row_id :: u64
  vr_txn_id :: u64
  vr_data :: bytes
  vr_deleted :: bool
  vr_created_at :: nat

definition versioned_row_new :: "nat \<Rightarrow> u64 \<Rightarrow> u64 \<Rightarrow> bytes \<Rightarrow> versioned_row" where
  "versioned_row_new now i t d = \<lparr>vr_row_id = i, vr_txn_id = t, vr_data = d, vr_deleted = False, vr_created_at = now\<rparr>"

definition versioned_row_new_deleted :: "nat \<Rightarrow> u64 \<Rightarrow> u64 \<Rightarrow> versioned_row" where
  "versioned_row_new_deleted now i t = \<lparr>vr_row_id = i, vr_txn_id = t, vr_data = [], vr_deleted = True, vr_created_at = now\<rparr>"

record mvcc_gc =
  gc_versions_of :: "(u64, versioned_row list) ordmap"
  gc_watermark :: u64
  gc_bytes_purged :: nat
  gc_versions_purged :: nat

definition gc_new :: "u64 \<Rightarrow> mvcc_gc" where
  "gc_new w = \<lparr>gc_versions_of = [], gc_watermark = w, gc_bytes_purged = 0, gc_versions_purged = 0\<rparr>"

definition add_version :: "versioned_row \<Rightarrow> mvcc_gc \<Rightarrow> mvcc_gc" where
  "add_version v g =
     (let vs = (case om_get (gc_versions_of g) (vr_row_id v) of None \<Rightarrow> [] | Some vs \<Rightarrow> vs)
      in g\<lparr>gc_versions_of := om_insert (vr_row_id v) (vs @ [v]) (gc_versions_of g)\<rparr>)"

definition advance_watermark :: "u64 \<Rightarrow> mvcc_gc \<Rightarrow> mvcc_gc" where
  "advance_watermark w g = (if w > gc_watermark g then g\<lparr>gc_watermark := w\<rparr> else g)"

text \<open>The number of versions of one row that a purge removes from the front.\<close>

definition purge_cut :: "u64 \<Rightarrow> versioned_row list \<Rightarrow> nat" where
  "purge_cut w vs =
     (if length vs \<le> 1 then 0
      else case rposition (\<lambda>v. vr_txn_id v \<le> w) vs of Some idx \<Rightarrow> idx | None \<Rightarrow> 0)"

definition gc_purge :: "mvcc_gc \<Rightarrow> nat \<times> mvcc_gc" where
  "gc_purge g =
     (let w = gc_watermark g;
          removed = concat (map (\<lambda>(_, vs). take (purge_cut w vs) vs) (gc_versions_of g));
          total = length removed
      in (total,
          g\<lparr>gc_versions_of := map (\<lambda>(k, vs). (k, drop (purge_cut w vs) vs)) (gc_versions_of g),
            gc_bytes_purged := gc_bytes_purged g + sum_list (map (\<lambda>r. length (vr_data r)) removed),
            gc_versions_purged := gc_versions_purged g + total\<rparr>))"

definition is_tombstone :: "u64 \<Rightarrow> versioned_row list \<Rightarrow> bool" where
  "is_tombstone w vs \<longleftrightarrow> length vs = 1 \<and> vr_deleted (vs ! 0) \<and> vr_txn_id (vs ! 0) \<le> w"

definition purge_tombstones :: "mvcc_gc \<Rightarrow> nat \<times> mvcc_gc" where
  "purge_tombstones g =
     (let kept = filter (\<lambda>(_, vs). \<not> is_tombstone (gc_watermark g) vs) (gc_versions_of g);
          purged = length (gc_versions_of g) - length kept
      in (purged, g\<lparr>gc_versions_of := kept, gc_versions_purged := gc_versions_purged g + purged\<rparr>))"

definition row_count :: "mvcc_gc \<Rightarrow> nat" where
  "row_count g = length (gc_versions_of g)"

definition version_count :: "mvcc_gc \<Rightarrow> nat" where
  "version_count g = sum_list (map (\<lambda>(_, vs). length vs) (gc_versions_of g))"

definition reset_stats :: "mvcc_gc \<Rightarrow> mvcc_gc" where
  "reset_stats g = g\<lparr>gc_bytes_purged := 0, gc_versions_purged := 0\<rparr>"

section \<open>Isolation verifier\<close>

datatype gc_isolation = GcReadUncommitted | GcReadCommitted | GcRepeatableRead | GcSerializable

record isolation_verifier =
  iv_level :: gc_isolation
  iv_read_set :: "(string \<times> u64) set"
  iv_write_set :: "(string \<times> u64) set"
  iv_phantom_ranges :: "(string \<times> string) list"

definition verifier_new :: "gc_isolation \<Rightarrow> isolation_verifier" where
  "verifier_new l = \<lparr>iv_level = l, iv_read_set = {}, iv_write_set = {}, iv_phantom_ranges = []\<rparr>"

definition verifier_record_read :: "string \<Rightarrow> u64 \<Rightarrow> isolation_verifier \<Rightarrow> isolation_verifier" where
  "verifier_record_read tbl i v = v\<lparr>iv_read_set := insert (tbl, i) (iv_read_set v)\<rparr>"

definition verifier_record_write :: "string \<Rightarrow> u64 \<Rightarrow> isolation_verifier \<Rightarrow> isolation_verifier" where
  "verifier_record_write tbl i v = v\<lparr>iv_write_set := insert (tbl, i) (iv_write_set v)\<rparr>"

definition record_range_predicate :: "string \<Rightarrow> string \<Rightarrow> isolation_verifier \<Rightarrow> isolation_verifier" where
  "record_range_predicate tbl p v = v\<lparr>iv_phantom_ranges := iv_phantom_ranges v @ [(tbl, p)]\<rparr>"

definition has_write_conflict :: "(string \<times> u64) set \<Rightarrow> isolation_verifier \<Rightarrow> bool" where
  "has_write_conflict other v \<longleftrightarrow> iv_write_set v \<inter> other \<noteq> {}"

definition can_have_non_repeatable_read :: "(string \<times> u64) set \<Rightarrow> isolation_verifier \<Rightarrow> bool" where
  "can_have_non_repeatable_read other v =
     (case iv_level v of
        GcReadUncommitted \<Rightarrow> iv_read_set v \<inter> other \<noteq> {}
      | GcReadCommitted \<Rightarrow> iv_read_set v \<inter> other \<noteq> {}
      | _ \<Rightarrow> False)"

definition can_have_phantom_read :: "isolation_verifier \<Rightarrow> bool" where
  "can_have_phantom_read v = (case iv_level v of GcSerializable \<Rightarrow> False | _ \<Rightarrow> iv_phantom_ranges v \<noteq> [])"

section \<open>Foreign-key cascades\<close>

datatype cascade_action = NoAction | Restrict | Cascade | SetNull | SetDefault

record foreign_key_def =
  fk_name :: string
  fk_child_table :: string
  fk_child_columns :: "string list"
  fk_parent_table :: string
  fk_parent_columns :: "string list"
  fk_on_delete :: cascade_action
  fk_on_update :: cascade_action

record cascade_op =
  co_child_table :: string
  co_child_columns :: "string list"
  co_action :: cascade_action
  co_parent_key_values :: "string list"

type_synonym foreign_key_cascade = "string \<rightharpoonup> foreign_key_def list"

definition add_fk :: "foreign_key_def \<Rightarrow> foreign_key_cascade \<Rightarrow> foreign_key_cascade" where
  "add_fk fk m =
     m(fk_parent_table fk \<mapsto> (case m (fk_parent_table fk) of None \<Rightarrow> [] | Some fks \<Rightarrow> fks) @ [fk])"

definition remove_fks_for_child :: "string \<Rightarrow> foreign_key_cascade \<Rightarrow> foreign_key_cascade" where
  "remove_fks_for_child child m =
     (\<lambda>p. map_option (filter (\<lambda>fk. fk_child_table fk \<noteq> child)) (m p))"

definition cascade_ops :: "(foreign_key_def \<Rightarrow> cascade_action) \<Rightarrow> string list \<Rightarrow> foreign_key_def list \<Rightarrow> cascade_op list" where
  "cascade_ops act key_values fks =
     map (\<lambda>fk. \<lparr>co_child_table = fk_child_table fk, co_child_columns = fk_child_columns fk,
                co_action = act fk, co_parent_key_values = key_values\<rparr>)
       (filter (\<lambda>fk. act fk \<noteq> NoAction) fks)"

definition on_delete :: "string \<Rightarrow> string list \<Rightarrow> foreign_key_cascade \<Rightarrow> cascade_op list" where
  "on_delete parent key_values m =
     (case m parent of None \<Rightarrow> [] | Some fks \<Rightarrow> cascade_ops fk_on_delete key_values fks)"

definition on_update :: "string \<Rightarrow> string list \<Rightarrow> foreign_key_cascade \<Rightarrow> cascade_op list" where
  "on_update parent key_values m =
     (case m parent of None \<Rightarrow> [] | Some fks \<Rightarrow> cascade_ops fk_on_update key_values fks)"

definition would_restrict_delete :: "string \<Rightarrow> foreign_key_cascade \<Rightarrow> bool" where
  "would_restrict_delete parent m =
     (case m parent of None \<Rightarrow> False | Some fks \<Rightarrow> list_ex (\<lambda>fk. fk_on_delete fk = Restrict) fks)"

section \<open>Collection is invisible to readers\<close>

text \<open>What a reader with a snapshot at a transaction id sees of a row: the last version up to it, if it is
  not a deletion.\<close>

definition read_version :: "u64 \<Rightarrow> versioned_row list \<Rightarrow> bytes option" where
  "read_version t vs =
     (case rposition (\<lambda>v. vr_txn_id v \<le> t) vs of
        None \<Rightarrow> None
      | Some i \<Rightarrow> if vr_deleted (vs ! i) then None else Some (vr_data (vs ! i)))"

definition gc_read :: "u64 \<Rightarrow> u64 \<Rightarrow> mvcc_gc \<Rightarrow> bytes option" where
  "gc_read t k g = (case om_get (gc_versions_of g) k of None \<Rightarrow> None | Some vs \<Rightarrow> read_version t vs)"

lemma purge_cut_le: "purge_cut w vs \<le> length vs"
  by (auto simp: purge_cut_def rposition_Some split: option.splits)

lemma read_version_purge:
  assumes "w \<le> t"
  shows "read_version t (drop (purge_cut w vs) vs) = read_version t vs"
proof (cases "purge_cut w vs = 0")
  case False
  then obtain idx where idx: "rposition (\<lambda>v. vr_txn_id v \<le> w) vs = Some idx" "purge_cut w vs = idx"
    by (auto simp: purge_cut_def split: if_splits option.splits)
  then have "idx < length vs" "vr_txn_id (vs ! idx) \<le> t"
    using assms by (auto simp: rposition_Some)
  then have "vs ! idx \<in> set (drop idx vs)" by (metis Cons_nth_drop_Suc list.set_intros(1))
  then have "rposition (\<lambda>v. vr_txn_id v \<le> t) (drop idx vs) \<noteq> None"
    using \<open>vr_txn_id (vs ! idx) \<le> t\<close> by (auto simp: rposition_None)
  then obtain j where j: "rposition (\<lambda>v. vr_txn_id v \<le> t) (drop idx vs) = Some j" by blast
  have "rposition (\<lambda>v. vr_txn_id v \<le> t) (take idx vs @ drop idx vs) = Some (idx + j)"
    using j \<open>idx < length vs\<close> by (simp only: rposition_append option.case length_take min.absorb4)
  with j idx(2) \<open>idx < length vs\<close> show ?thesis by (simp add: read_version_def)
qed simp

lemma om_get_map_values: "om_get (map (\<lambda>(k, v). (k, f v)) m) k = map_option f (om_get m k)"
  by (induction m) (auto simp: om_get_def)

lemma gc_read_purge: "gc_watermark g \<le> t \<Longrightarrow> gc_read t k (snd (gc_purge g)) = gc_read t k g"
  by (simp add: gc_read_def gc_purge_def Let_def om_get_map_values read_version_purge split: option.split)

lemma read_version_tombstone: "is_tombstone w vs \<Longrightarrow> w \<le> t \<Longrightarrow> read_version t vs = None"
proof -
  assume "is_tombstone w vs" "w \<le> t"
  then obtain v where "vs = [] @ [v]" "vr_deleted v" "vr_txn_id v \<le> t"
    by (cases vs) (auto simp: is_tombstone_def)
  then show ?thesis by (simp only: read_version_def rposition_snoc) simp
qed

definition gc_ok :: "mvcc_gc \<Rightarrow> bool" where
  "gc_ok g \<longleftrightarrow> om_ok (gc_versions_of g)"

lemma gc_ok_ops [simp]:
  "gc_ok (gc_new w)" "gc_ok g \<Longrightarrow> gc_ok (add_version v g)" "gc_ok g \<Longrightarrow> gc_ok (advance_watermark w g)"
  "gc_ok g \<Longrightarrow> gc_ok (snd (gc_purge g))" "gc_ok g \<Longrightarrow> gc_ok (snd (purge_tombstones g))"
  by (simp_all add: gc_ok_def gc_new_def add_version_def advance_watermark_def gc_purge_def purge_tombstones_def
      Let_def om_ok_filter om_ok_map_values)

lemma gc_read_tombstones:
  assumes "gc_ok g" and "gc_watermark g \<le> t"
  shows "gc_read t k (snd (purge_tombstones g)) = gc_read t k g"
  using assms om_get_filter_value [of "gc_versions_of g" "\<lambda>vs. \<not> is_tombstone (gc_watermark g) vs" k]
  by (auto simp: gc_read_def gc_ok_def purge_tombstones_def Let_def read_version_tombstone split: option.split)

datatype gc_op = GcPurge | GcPurgeTombstones | GcAdvance u64 | GcResetStats

fun gc_step :: "gc_op \<Rightarrow> mvcc_gc \<Rightarrow> mvcc_gc" where
  "gc_step GcPurge g = snd (gc_purge g)"
| "gc_step GcPurgeTombstones g = snd (purge_tombstones g)"
| "gc_step (GcAdvance w) g = advance_watermark w g"
| "gc_step GcResetStats g = reset_stats g"

lemma gc_step_ok: "gc_ok g \<Longrightarrow> gc_ok (gc_step op g)"
  by (cases op) (simp_all add: reset_stats_def gc_ok_def [of "g\<lparr>gc_bytes_purged := 0, gc_versions_purged := 0\<rparr>"] gc_ok_def [symmetric])

lemma gc_watermark_step: "gc_watermark g \<le> gc_watermark (gc_step op g)"
  by (cases op) (auto simp: gc_purge_def purge_tombstones_def advance_watermark_def reset_stats_def Let_def)

lemma gc_watermark_run: "gc_watermark g \<le> gc_watermark (fold gc_step ops g)"
  by (induction ops arbitrary: g) (auto intro: order_trans [OF gc_watermark_step])

lemma gc_read_step: "gc_ok g \<Longrightarrow> gc_watermark g \<le> t \<Longrightarrow> gc_read t k (gc_step op g) = gc_read t k g"
  by (cases op) (auto simp: gc_read_purge gc_read_tombstones, simp_all add: gc_read_def advance_watermark_def reset_stats_def)

text \<open>collection is invisible. Whatever purges, tombstone removals and advances of the watermark run, a
  reader whose snapshot is not below the final watermark reads the same data of every row as before.\<close>

lemma gc_preserves_reads:
  assumes "gc_ok g" and "gc_watermark (fold gc_step ops g) \<le> t"
  shows "gc_read t k (fold gc_step ops g) = gc_read t k g"
  using assms
proof (induction ops arbitrary: g)
  case (Cons op ops)
  have "gc_watermark g \<le> t"
    using Cons.prems(2) gc_watermark_run [of g "op # ops"] by simp
  with Cons show ?case by (simp add: gc_step_ok gc_read_step)
qed simp

lemma gc_preserves_reads_witness:
  "let g = add_version (versioned_row_new 0 1 7 [9]) (add_version (versioned_row_new 0 1 3 [8]) (gc_new 0))
   in gc_read 7 1 (fold gc_step [GcAdvance 7, GcPurge] g) = Some [9] \<and> version_count (fold gc_step [GcAdvance 7, GcPurge] g) = 1"
proof -
  let ?g = "add_version (versioned_row_new 0 1 7 [9]) (add_version (versioned_row_new 0 1 3 [8]) (gc_new 0))"
  have "gc_read 7 1 (fold gc_step [GcAdvance 7, GcPurge] ?g) = gc_read 7 1 ?g"
    by (rule gc_preserves_reads, simp, code_simp)
  moreover have "gc_read 7 1 ?g = Some [9]" by code_simp
  moreover have "version_count (fold gc_step [GcAdvance 7, GcPurge] ?g) = 1" by code_simp
  ultimately show ?thesis by (simp add: Let_def)
qed

text \<open>a purge removes as many versions as it returns and adds to its statistics, and it never empties a
  row: every row keeps at least one version.\<close>

lemma gc_purge_accounting:
  "let (n, g') = gc_purge g in
     version_count g' + n = version_count g \<and> gc_versions_purged g' = gc_versions_purged g + n
     \<and> map (\<lambda>(k, vs). (k, vs = [])) (gc_versions_of g') = map (\<lambda>(k, vs). (k, vs = [])) (gc_versions_of g)"
proof -
  have "drop (purge_cut w vs) vs = [] \<longleftrightarrow> vs = []" for w vs
    by (auto simp: purge_cut_def rposition_Some split: option.splits)
  moreover have "sum_list (map (\<lambda>(_, vs). length vs) (map (\<lambda>(k, vs). (k, drop (purge_cut w vs) vs)) m))
      + length (concat (map (\<lambda>(_, vs). take (purge_cut w vs) vs) m)) = sum_list (map (\<lambda>(_, vs). length vs) m)"
    for w and m :: "(u64, versioned_row list) ordmap"
  proof (induction m)
    case (Cons a m)
    with purge_cut_le [of w "snd a"] show ?case by (cases a) (simp add: min_absorb2)
  qed simp
  ultimately show ?thesis by (simp add: gc_purge_def version_count_def Let_def case_prod_unfold comp_def)
qed

section \<open>Cascades\<close>

text \<open>Dropping a child table removes exactly its cascades and keeps all others in order, and a delete is
  reported as restricted exactly if one of its cascade operations is a restriction.\<close>

lemma cascade_consistent:
  "on_delete p ks (remove_fks_for_child c m) = filter (\<lambda>x. co_child_table x \<noteq> c) (on_delete p ks m)
   \<and> on_update p ks (remove_fks_for_child c m) = filter (\<lambda>x. co_child_table x \<noteq> c) (on_update p ks m)
   \<and> (would_restrict_delete p m \<longleftrightarrow> Restrict \<in> co_action ` set (on_delete p ks m))"
proof -
  have "cascade_ops act ks (filter (\<lambda>fk. fk_child_table fk \<noteq> c) fks)
      = filter (\<lambda>x. co_child_table x \<noteq> c) (cascade_ops act ks fks)" for act fks
    by (simp add: cascade_ops_def filter_map comp_def conj_commute)
  moreover have "list_ex (\<lambda>fk. fk_on_delete fk = Restrict) fks
      \<longleftrightarrow> Restrict \<in> co_action ` set (cascade_ops fk_on_delete ks fks)" for fks
    by (simp add: cascade_ops_def list_ex_iff image_iff) (metis cascade_action.distinct(1))
  ultimately show ?thesis
    by (simp add: on_delete_def on_update_def remove_fks_for_child_def would_restrict_delete_def split: option.split)
qed

end
