(* ===== verification/DistTxn.thy ===== *)
theory DistTxn
  imports StdLib OrdMap
begin

text \<open>
  Distributed transactions and schema changes, \<^verbatim>\<open>src/src/raft/features/dist_txn.rs\<close>: shared,
  update and exclusive locks with upgrades, the global serializer that validates commits backwards, the
  phases of a distributed schema change, and the versions of a table's schema. Where the code collects a
  \<^verbatim>\<open>HashSet\<close> into a vector, the model takes the order in which the elements were declared.
\<close>

section \<open>Lock upgrades\<close>

datatype dlock_mode = DShared | DUpdate | DExclusive

definition is_compatible :: "dlock_mode \<Rightarrow> dlock_mode \<Rightarrow> bool" where
  "is_compatible a b \<longleftrightarrow> (a, b) = (DShared, DShared) \<or> (a, b) = (DShared, DUpdate) \<or> (a, b) = (DUpdate, DShared)"

record held_lock =
  hl_txn_id :: u64
  hl_resource :: string
  hl_mode :: dlock_mode

record lock_upgrade_manager =
  lu_locks :: "held_lock list"
  lu_upgrade_queue :: "(u64 \<times> string) list"

definition lu_new :: lock_upgrade_manager where
  "lu_new = \<lparr>lu_locks = [], lu_upgrade_queue = []\<rparr>"

definition lu_acquire :: "u64 \<Rightarrow> string \<Rightarrow> dlock_mode \<Rightarrow> lock_upgrade_manager \<Rightarrow> bool \<times> lock_upgrade_manager" where
  "lu_acquire t r m s =
     (if list_ex (\<lambda>l. hl_resource l = r \<and> hl_txn_id l \<noteq> t \<and> \<not> is_compatible m (hl_mode l)) (lu_locks s)
      then (False, s)
      else (True, s\<lparr>lu_locks := lu_locks s @ [\<lparr>hl_txn_id = t, hl_resource = r, hl_mode = m\<rparr>]\<rparr>))"

fun upgrade_first :: "u64 \<Rightarrow> string \<Rightarrow> held_lock list \<Rightarrow> held_lock list" where
  "upgrade_first t r [] = []"
| "upgrade_first t r (l # ls) =
     (if hl_txn_id l = t \<and> hl_resource l = r then l\<lparr>hl_mode := DExclusive\<rparr> # ls
      else l # upgrade_first t r ls)"

definition lu_upgrade :: "u64 \<Rightarrow> string \<Rightarrow> lock_upgrade_manager \<Rightarrow> bool \<times> lock_upgrade_manager" where
  "lu_upgrade t r s =
     (if \<not> list_ex (\<lambda>l. hl_txn_id l = t \<and> hl_resource l = r \<and> hl_mode l = DShared) (lu_locks s) then (False, s)
      else if list_ex (\<lambda>l. hl_resource l = r \<and> hl_txn_id l \<noteq> t) (lu_locks s)
      then (False, s\<lparr>lu_upgrade_queue := lu_upgrade_queue s @ [(t, r)]\<rparr>)
      else (True, s\<lparr>lu_locks := upgrade_first t r (lu_locks s)\<rparr>))"

definition lu_release :: "u64 \<Rightarrow> lock_upgrade_manager \<Rightarrow> lock_upgrade_manager" where
  "lu_release t s =
     s\<lparr>lu_locks := filter (\<lambda>l. hl_txn_id l \<noteq> t) (lu_locks s),
       lu_upgrade_queue := filter (\<lambda>(i, _). i \<noteq> t) (lu_upgrade_queue s)\<rparr>"

definition holds_lock :: "u64 \<Rightarrow> string \<Rightarrow> dlock_mode \<Rightarrow> lock_upgrade_manager \<Rightarrow> bool" where
  "holds_lock t r m s \<longleftrightarrow> list_ex (\<lambda>l. hl_txn_id l = t \<and> hl_resource l = r \<and> hl_mode l = m) (lu_locks s)"

section \<open>Global serializer\<close>

record commit_entry =
  ce_txn_id :: u64
  ce_commit_ts :: u64
  ce_read_set :: "string set"
  ce_write_set :: "string set"

record global_serializer =
  gs_committed :: "commit_entry list"
  gs_next_ts :: u64

definition gs_new :: global_serializer where
  "gs_new = \<lparr>gs_committed = [], gs_next_ts = 1\<rparr>"

definition allocate_ts :: "global_serializer \<Rightarrow> u64 \<times> global_serializer" where
  "allocate_ts g = (gs_next_ts g, g\<lparr>gs_next_ts := gs_next_ts g + 1\<rparr>)"

definition gs_validate :: "u64 \<Rightarrow> string set \<Rightarrow> string set \<Rightarrow> u64 \<Rightarrow> global_serializer \<Rightarrow> bool" where
  "gs_validate t reads writes begin_ts g =
     list_all (\<lambda>e. ce_commit_ts e \<le> begin_ts
                 \<or> (ce_write_set e \<inter> reads = {} \<and> ce_write_set e \<inter> writes = {})) (gs_committed g)"

definition gs_commit :: "u64 \<Rightarrow> string set \<Rightarrow> string set \<Rightarrow> global_serializer \<Rightarrow> u64 \<times> global_serializer" where
  "gs_commit t reads writes g =
     (let (ts, g1) = allocate_ts g
      in (ts, g1\<lparr>gs_committed := gs_committed g1
            @ [\<lparr>ce_txn_id = t, ce_commit_ts = ts, ce_read_set = reads, ce_write_set = writes\<rparr>]\<rparr>))"

definition current_ts :: "global_serializer \<Rightarrow> u64" where
  "current_ts g = gs_next_ts g - 1"

section \<open>Distributed schema changes\<close>

datatype ddl_phase = DdlPropose | DdlPrepare | DdlExecute | DdlCommit | DdlRollback | DdlCompleted

record ddl_operation =
  op_id :: u64
  op_sql :: string
  op_phase :: ddl_phase
  participating_nodes :: "u64 set"
  op_acks :: "u64 set"

record ddl_coordinator =
  operations :: "(u64, ddl_operation) ordmap"
  ddl_next_id :: u64

definition ddl_new :: ddl_coordinator where
  "ddl_new = \<lparr>operations = [], ddl_next_id = 1\<rparr>"

definition propose :: "string \<Rightarrow> u64 set \<Rightarrow> ddl_coordinator \<Rightarrow> u64 \<times> ddl_coordinator" where
  "propose sql nodes c =
     (let i = ddl_next_id c
      in (i, c\<lparr>ddl_next_id := ddl_next_id c + 1,
              operations := om_insert i \<lparr>op_id = i, op_sql = sql, op_phase = DdlPropose,
                participating_nodes = nodes, op_acks = {}\<rparr> (operations c)\<rparr>))"

fun next_phase :: "ddl_phase \<Rightarrow> ddl_phase" where
  "next_phase DdlPropose = DdlPrepare"
| "next_phase DdlPrepare = DdlExecute"
| "next_phase DdlExecute = DdlCommit"
| "next_phase DdlCommit = DdlCompleted"
| "next_phase DdlRollback = DdlRollback"
| "next_phase DdlCompleted = DdlCompleted"

definition receive_ack :: "u64 \<Rightarrow> u64 \<Rightarrow> ddl_coordinator \<Rightarrow> ddl_phase option \<times> ddl_coordinator" where
  "receive_ack i node c =
     (case om_get (operations c) i of
        None \<Rightarrow> (None, c)
      | Some d \<Rightarrow>
          (let d1 = (if node \<in> participating_nodes d then d\<lparr>op_acks := insert node (op_acks d)\<rparr> else d) in
           if card (op_acks d1) = card (participating_nodes d1)
           then (let d2 = d1\<lparr>op_phase := next_phase (op_phase d1), op_acks := {}\<rparr>
                 in (Some (op_phase d2), c\<lparr>operations := om_insert i d2 (operations c)\<rparr>))
           else (Some (op_phase d1), c\<lparr>operations := om_insert i d1 (operations c)\<rparr>)))"

definition ddl_rollback :: "u64 \<Rightarrow> ddl_coordinator \<Rightarrow> bool \<times> ddl_coordinator" where
  "ddl_rollback i c =
     (case om_get (operations c) i of
        None \<Rightarrow> (False, c)
      | Some d \<Rightarrow> (True, c\<lparr>operations := om_insert i (d\<lparr>op_phase := DdlRollback\<rparr>) (operations c)\<rparr>))"

definition ddl_phase_of :: "u64 \<Rightarrow> ddl_coordinator \<Rightarrow> ddl_phase option" where
  "ddl_phase_of i c = map_option op_phase (om_get (operations c) i)"

definition active_operations :: "ddl_coordinator \<Rightarrow> nat" where
  "active_operations c =
     length (filter (\<lambda>(_, d). op_phase d \<noteq> DdlCompleted \<and> op_phase d \<noteq> DdlRollback) (operations c))"

section \<open>Schema versions\<close>

record schema_version =
  sv_version :: u64
  sv_columns :: "(string \<times> string) list"
  sv_created_at :: u64
  sv_is_active :: bool

datatype schema_compat =
    Compatible
  | AddedColumns "string list"
  | DroppedColumns "string list"
  | Incompatible string

record schema_version_manager =
  sv_versions :: "string \<rightharpoonup> schema_version list"
  sv_next_version :: u64

definition sv_new :: schema_version_manager where
  "sv_new = \<lparr>sv_versions = Map.empty, sv_next_version = 1\<rparr>"

definition add_schema_version ::
    "string \<Rightarrow> (string \<times> string) list \<Rightarrow> u64 \<Rightarrow> schema_version_manager \<Rightarrow> u64 \<times> schema_version_manager" where
  "add_schema_version tbl cols timestamp s =
     (let ver = sv_next_version s;
          v = \<lparr>sv_version = ver, sv_columns = cols, sv_created_at = timestamp, sv_is_active = True\<rparr>;
          vs = (case sv_versions s tbl of
                  Some olds \<Rightarrow> map (\<lambda>w. w\<lparr>sv_is_active := False\<rparr>) olds @ [v]
                | None \<Rightarrow> [v])
      in (ver, s\<lparr>sv_next_version := ver + 1, sv_versions := (sv_versions s)(tbl \<mapsto> vs)\<rparr>))"

definition active_version :: "string \<Rightarrow> schema_version_manager \<Rightarrow> schema_version option" where
  "active_version tbl s =
     (case sv_versions s tbl of None \<Rightarrow> None | Some vs \<Rightarrow> find sv_is_active (rev vs))"

text \<open>\<^verbatim>\<open>{:?}\<close> of a vector of strings; characters beyond ASCII are printed as they are.\<close>

definition hex_digit :: "nat \<Rightarrow> char" where
  "hex_digit n = (if n < 10 then char_of (48 + n) else char_of (87 + n))"

definition debug_char :: "char \<Rightarrow> string" where
  "debug_char c =
     (let n = (of_char c :: nat) in
      if n = 0 then [CHR 0x5C, CHR ''0''] else if n = 9 then [CHR 0x5C, CHR ''t'']
      else if n = 10 then [CHR 0x5C, CHR ''n''] else if n = 13 then [CHR 0x5C, CHR ''r'']
      else if n = 34 \<or> n = 92 then [CHR 0x5C, c]
      else if n < 16 then [CHR 0x5C, CHR ''u'', CHR ''{'', hex_digit n, CHR ''}'']
      else if n < 32 \<or> n = 127 then [CHR 0x5C, CHR ''u'', CHR ''{'', hex_digit (n div 16), hex_digit (n mod 16), CHR ''}'']
      else [c])"

definition debug_string :: "string \<Rightarrow> string" where
  "debug_string s = [CHR 0x22] @ concat (map debug_char s) @ [CHR 0x22]"

fun comma_separated :: "string list \<Rightarrow> string" where
  "comma_separated [] = []"
| "comma_separated [s] = s"
| "comma_separated (s # ss) = s @ '', '' @ comma_separated ss"

definition debug_strings :: "string list \<Rightarrow> string" where
  "debug_strings ss = ''['' @ comma_separated (map debug_string ss) @ '']''"

definition column_difference :: "(string \<times> string) list \<Rightarrow> (string \<times> string) list \<Rightarrow> string list" where
  "column_difference cs ds = filter (\<lambda>n. n \<notin> fst ` set ds) (remdups (map fst cs))"

definition check_compat :: "string \<Rightarrow> u64 \<Rightarrow> u64 \<Rightarrow> schema_version_manager \<Rightarrow> schema_compat" where
  "check_compat tbl v1 v2 s =
     (case sv_versions s tbl of
        None \<Rightarrow> Incompatible ''table not found''
      | Some vs \<Rightarrow>
          (case find (\<lambda>v. sv_version v = v1) vs of
             None \<Rightarrow> Incompatible ''v1 not found''
           | Some s1 \<Rightarrow>
               (case find (\<lambda>v. sv_version v = v2) vs of
                  None \<Rightarrow> Incompatible ''v2 not found''
                | Some s2 \<Rightarrow>
                    (let added = column_difference (sv_columns s2) (sv_columns s1);
                         dropped = column_difference (sv_columns s1) (sv_columns s2)
                     in if added = [] \<and> dropped = [] then Compatible
                        else if added \<noteq> [] \<and> dropped = [] then AddedColumns added
                        else if added = [] \<and> dropped \<noteq> [] then DroppedColumns dropped
                        else Incompatible (''added '' @ debug_strings added @ '', dropped '' @ debug_strings dropped)))))"

definition sv_version_count :: "string \<Rightarrow> schema_version_manager \<Rightarrow> nat" where
  "sv_version_count tbl s = (case sv_versions s tbl of None \<Rightarrow> 0 | Some vs \<Rightarrow> length vs)"

section \<open>Locks of different transactions are compatible\<close>

datatype lu_op = LuAcquire u64 string dlock_mode | LuUpgrade u64 string | LuRelease u64

fun lu_step :: "lu_op \<Rightarrow> lock_upgrade_manager \<Rightarrow> lock_upgrade_manager" where
  "lu_step (LuAcquire t r m) s = snd (lu_acquire t r m s)"
| "lu_step (LuUpgrade t r) s = snd (lu_upgrade t r s)"
| "lu_step (LuRelease t) s = lu_release t s"

definition lu_ok :: "lock_upgrade_manager \<Rightarrow> bool" where
  "lu_ok s \<longleftrightarrow> (\<forall>k \<in> set (lu_locks s). \<forall>l \<in> set (lu_locks s).
     hl_resource k = hl_resource l \<longrightarrow> hl_txn_id k \<noteq> hl_txn_id l \<longrightarrow> is_compatible (hl_mode k) (hl_mode l))"

lemma is_compatible_sym: "is_compatible a b = is_compatible b a"
  by (auto simp: is_compatible_def)

lemma upgrade_first_elem:
  "l \<in> set (upgrade_first t r ls) \<Longrightarrow>
     (\<exists>k \<in> set ls. hl_txn_id k = hl_txn_id l \<and> hl_resource k = hl_resource l \<and> (hl_mode k = hl_mode l \<or> hl_txn_id l = t \<and> hl_resource l = r))"
  by (induction ls) (auto split: if_splits)

lemma lu_ok_step: "lu_ok s \<Longrightarrow> lu_ok (lu_step op s)"
proof (cases op)
  case (LuAcquire t r m)
  assume "lu_ok s"
  then show ?thesis
    by (auto simp: LuAcquire lu_acquire_def lu_ok_def list_ex_iff) (metis is_compatible_sym)+
next
  case (LuUpgrade t r)
  assume ok: "lu_ok s"
  show ?thesis
  proof (cases "fst (lu_upgrade t r s)")
    case True
    then have alone: "hl_resource l = r \<Longrightarrow> hl_txn_id l = t" if "l \<in> set (lu_locks s)" for l
      using that by (auto simp: lu_upgrade_def list_ex_iff split: if_splits)
    have "lu_locks (snd (lu_upgrade t r s)) = upgrade_first t r (lu_locks s)"
      using True by (auto simp: lu_upgrade_def split: if_splits)
    moreover have "is_compatible (hl_mode k) (hl_mode l)"
      if "k \<in> set (upgrade_first t r (lu_locks s))" "l \<in> set (upgrade_first t r (lu_locks s))"
        "hl_resource k = hl_resource l" "hl_txn_id k \<noteq> hl_txn_id l" for k l
      using upgrade_first_elem [OF that(1)] upgrade_first_elem [OF that(2)] that(3,4) ok alone
      by (metis lu_ok_def)
    ultimately show ?thesis by (simp add: lu_ok_def LuUpgrade)
  next
    case False
    with ok show ?thesis by (auto simp: LuUpgrade lu_upgrade_def lu_ok_def split: if_splits)
  qed
qed (auto simp: lu_ok_def lu_release_def)

text \<open>in every state that acquisitions, upgrades and releases can produce, two locks of different
  transactions on one resource are compatible; so an exclusive or an update lock is never beside another
  exclusive or update lock.\<close>

lemma lock_upgrade_compatible:
  "\<not> (\<exists>k l. k \<in> set (lu_locks (fold lu_step ops lu_new)) \<and> l \<in> set (lu_locks (fold lu_step ops lu_new))
     \<and> hl_resource k = hl_resource l \<and> hl_txn_id k \<noteq> hl_txn_id l \<and> \<not> is_compatible (hl_mode k) (hl_mode l))"
proof -
  have "lu_ok s \<Longrightarrow> lu_ok (fold lu_step ops s)" for s
    by (induction ops arbitrary: s) (simp_all add: lu_ok_step)
  from this [of lu_new] show ?thesis by (auto simp: lu_ok_def lu_new_def)
qed

section \<open>Validated commits are serializable\<close>

text \<open>
  A transaction reads the state of its begin timestamp and computes new values of its write set from its
  read set alone. \<open>gs_run\<close> lets any number of transactions overlap: each commits when the serializer
  validates it, against the state of its begin.
\<close>

record 'v txn_prog =
  tp_reads :: "string set"
  tp_writes :: "string set"
  tp_body :: "(string \<Rightarrow> 'v) \<Rightarrow> string \<Rightarrow> 'v"

definition local_prog :: "'v txn_prog \<Rightarrow> bool" where
  "local_prog p \<longleftrightarrow> (\<forall>s s'. (\<forall>x \<in> tp_reads p. s x = s' x) \<longrightarrow> (\<forall>x \<in> tp_writes p. tp_body p s x = tp_body p s' x))"

definition run_txn :: "'v txn_prog \<Rightarrow> (string \<Rightarrow> 'v) \<Rightarrow> (string \<Rightarrow> 'v) \<Rightarrow> string \<Rightarrow> 'v" where
  "run_txn p view s = (\<lambda>x. if x \<in> tp_writes p then tp_body p view x else s x)"

inductive gs_run :: "(string \<Rightarrow> 'v) \<Rightarrow> global_serializer \<Rightarrow> (string \<Rightarrow> 'v) list \<Rightarrow> 'v txn_prog list \<Rightarrow> bool"
  for s0 :: "string \<Rightarrow> 'v" where
  gs_start: "gs_run s0 gs_new [s0] []"
| gs_commits: "gs_run s0 g S ps \<Longrightarrow> local_prog p \<Longrightarrow> begin_ts \<le> current_ts g \<Longrightarrow> gs_next_ts g \<noteq> - 1 \<Longrightarrow>
     gs_validate t (tp_reads p) (tp_writes p) begin_ts g \<Longrightarrow>
     gs_run s0 (snd (gs_commit t (tp_reads p) (tp_writes p) g)) (S @ [run_txn p (S ! unat begin_ts) (last S)]) (ps @ [p])"

definition gs_inv :: "global_serializer \<Rightarrow> (string \<Rightarrow> 'v) list \<Rightarrow> bool" where
  "gs_inv g S \<longleftrightarrow> length S = Suc (length (gs_committed g)) \<and> unat (gs_next_ts g) = Suc (length (gs_committed g))
     \<and> (\<forall>k < length (gs_committed g). unat (ce_commit_ts (gs_committed g ! k)) = Suc k
          \<and> (\<forall>x. x \<notin> ce_write_set (gs_committed g ! k) \<longrightarrow> (S ! Suc k) x = (S ! k) x))"

lemma gs_commit_eqs:
  "gs_committed (snd (gs_commit t R W g)) = gs_committed g
     @ [\<lparr>ce_txn_id = t, ce_commit_ts = gs_next_ts g, ce_read_set = R, ce_write_set = W\<rparr>]"
  "gs_next_ts (snd (gs_commit t R W g)) = gs_next_ts g + 1"
  by (simp_all add: gs_commit_def allocate_ts_def)

lemma gs_inv_last: "gs_inv g S \<Longrightarrow> last S = S ! length (gs_committed g)"
  by (subst last_conv_nth) (auto simp: gs_inv_def)

lemma gs_inv_commit:
  assumes "gs_inv g S" and "gs_next_ts g \<noteq> - 1"
  shows "gs_inv (snd (gs_commit t R (tp_writes p) g)) (S @ [run_txn p view (last S)])"
proof -
  let ?n = "length (gs_committed g)"
  have S: "last S = S ! ?n" using assms(1) by (rule gs_inv_last)
  have "(S @ [run_txn p view (last S)]) ! Suc k = S ! Suc k" "(S @ [run_txn p view (last S)]) ! k = S ! k" if "k < ?n" for k
    using that assms(1) by (simp_all add: nth_append gs_inv_def)
  then show ?thesis
    using assms S by (auto simp: gs_inv_def gs_commit_eqs unat_u64_succ nth_append less_Suc_eq run_txn_def)
qed

lemma gs_run_inv: "gs_run s0 g S ps \<Longrightarrow> gs_inv g S"
proof (induction rule: gs_run.induct)
  case gs_start
  show ?case by (simp add: gs_inv_def gs_new_def)
qed (rule gs_inv_commit)

lemma unchanged_since:
  assumes "gs_inv g S" and "gs_validate t R W begin_ts g" and "x \<in> R"
  shows "unat begin_ts \<le> k \<Longrightarrow> k \<le> length (gs_committed g) \<Longrightarrow> (S ! k) x = (S ! unat begin_ts) x"
proof (induction k rule: dec_induct)
  case (step k)
  let ?e = "gs_committed g ! k"
  have k: "k < length (gs_committed g)" using step.prems by simp
  have "unat (ce_commit_ts ?e) = Suc k" using assms(1) k by (simp add: gs_inv_def)
  then have "\<not> ce_commit_ts ?e \<le> begin_ts" using step.hyps by (simp add: word_le_nat_alt)
  moreover have "?e \<in> set (gs_committed g)" using k by simp
  ultimately have "x \<notin> ce_write_set ?e"
    using assms(2,3) by (auto simp: gs_validate_def list_all_iff)
  then have "(S ! Suc k) x = (S ! k) x" using assms(1) k by (simp add: gs_inv_def)
  with step k show ?case by simp
qed simp

text \<open>C34: serializability. However transactions overlap, if each commits only after the serializer validated
  it, the final state is the one of running them alone, one after the other, in the order of their commits.\<close>

theorem validated_commits_serializable:
  assumes "gs_run s0 g S ps"
  shows "last S = fold (\<lambda>p s. run_txn p s s) ps s0"
  using assms
proof (induction rule: gs_run.induct)
  case (gs_commits g S ps p begin_ts t)
  have inv: "gs_inv g S" using gs_run_inv [OF gs_commits.hyps(1)] .
  have S: "last S = S ! length (gs_committed g)" using inv by (rule gs_inv_last)
  have "unat (gs_next_ts g - 1) = length (gs_committed g)"
    using inv by (simp add: gs_inv_def unat_sub word_le_nat_alt)
  then have b: "unat begin_ts \<le> length (gs_committed g)"
    using gs_commits.hyps(3) by (simp add: current_ts_def word_le_nat_alt)
  have "(S ! unat begin_ts) x = last S x" if "x \<in> tp_reads p" for x
    using unchanged_since [OF inv gs_commits.hyps(5) that b] by (simp add: S)
  then have "run_txn p (S ! unat begin_ts) (last S) = run_txn p (last S) (last S)"
    using gs_commits.hyps(2) unfolding local_prog_def run_txn_def by (metis (no_types, lifting))
  with gs_commits.IH show ?case by simp
qed simp

definition sample_set :: "nat txn_prog" where
  "sample_set = \<lparr>tp_reads = {}, tp_writes = {''x''}, tp_body = (\<lambda>s x. 1)\<rparr>"

definition sample_copy :: "nat txn_prog" where
  "sample_copy = \<lparr>tp_reads = {''y''}, tp_writes = {''z''}, tp_body = (\<lambda>s x. s ''y'' + 1)\<rparr>"

text \<open>Both transactions begin before either commits.\<close>

theorem validated_commits_serializable_witness:
  "\<exists>g S. gs_run (\<lambda>_. 0) g S [sample_set, sample_copy] \<and> last S ''x'' = 1 \<and> last S ''z'' = 1"
proof -
  let ?g1 = "snd (gs_commit 7 {} {''x''} gs_new)"
  have "gs_run (\<lambda>_. 0) ?g1 ([\<lambda>_. 0] @ [run_txn sample_set ([\<lambda>_. 0] ! unat (0::u64)) (last [\<lambda>_. 0])]) ([] @ [sample_set])"
    using gs_commits [OF gs_start, of sample_set 0 7]
    by (simp add: sample_set_def local_prog_def gs_validate_def gs_new_def current_ts_def)
  from gs_commits [OF this, of sample_copy 0 8]
  obtain g S where run: "gs_run (\<lambda>_. 0) g S [sample_set, sample_copy]"
    by (auto simp: sample_copy_def local_prog_def gs_validate_def gs_commit_eqs gs_new_def current_ts_def)
  with validated_commits_serializable [OF run] show ?thesis
    by (intro exI [of _ g] exI [of _ S]) (simp add: run_txn_def sample_set_def sample_copy_def)
qed

section \<open>Rounds of a schema change\<close>

lemma receive_ack_partial:
  assumes "om_get (operations c) i = Some d" and "finite (participating_nodes d)" and "n \<in> participating_nodes d"
    and "insert n (op_acks d) \<subset> participating_nodes d"
  shows "om_get (operations (snd (receive_ack i n c))) i = Some (d\<lparr>op_acks := insert n (op_acks d)\<rparr>)"
proof -
  have "card (insert n (op_acks d)) < card (participating_nodes d)"
    using assms(2,4) by (rule psubset_card_mono)
  with assms(1,3) show ?thesis by (simp add: receive_ack_def Let_def)
qed

lemma receive_ack_last:
  assumes "om_get (operations c) i = Some d" and "n \<in> participating_nodes d" and "insert n (op_acks d) = participating_nodes d"
  shows "om_get (operations (snd (receive_ack i n c))) i = Some (d\<lparr>op_phase := next_phase (op_phase d), op_acks := {}\<rparr>)"
  using assms by (simp add: receive_ack_def Let_def)

lemma acks_accumulate:
  assumes "om_get (operations c) i = Some d" and "distinct ns" and "set ns \<inter> op_acks d = {}"
    and "set ns \<union> op_acks d \<subset> participating_nodes d" and "finite (participating_nodes d)"
  shows "om_get (operations (fold (\<lambda>n c. snd (receive_ack i n c)) ns c)) i = Some (d\<lparr>op_acks := set ns \<union> op_acks d\<rparr>)"
  using assms
proof (induction ns arbitrary: c d)
  case (Cons n ns)
  have "om_get (operations (snd (receive_ack i n c))) i = Some (d\<lparr>op_acks := insert n (op_acks d)\<rparr>)"
    using Cons.prems by (intro receive_ack_partial) auto
  from Cons.IH [OF this] Cons.prems show ?case by (simp add: insert_commute)
qed simp

text \<open>one round of a distributed schema change. As long as a participating node has not acknowledged,
  the phase stays; when the last one has, in whatever order they came, the operation enters the next phase
  and waits for all of them again.\<close>

lemma ddl_round_advances:
  assumes "om_get (operations c) i = Some d" and "op_acks d = {}" and "finite (participating_nodes d)"
    and "distinct (ns @ [n])" and "set (ns @ [n]) = participating_nodes d"
  shows "ddl_phase_of i (fold (\<lambda>n c. snd (receive_ack i n c)) ns c) = Some (op_phase d)
     \<and> om_get (operations (fold (\<lambda>n c. snd (receive_ack i n c)) (ns @ [n]) c)) i
        = Some (d\<lparr>op_phase := next_phase (op_phase d)\<rparr>)"
proof -
  have "set ns \<union> op_acks d \<subset> participating_nodes d" using assms(2,4,5) by auto
  then have mid: "om_get (operations (fold (\<lambda>n c. snd (receive_ack i n c)) ns c)) i = Some (d\<lparr>op_acks := set ns\<rparr>)"
    using acks_accumulate [of c i d ns] assms by simp
  moreover have "d\<lparr>op_acks := {}\<rparr> = d" using assms(2) by (cases d) simp
  moreover have "d\<lparr>op_phase := q, op_acks := {}\<rparr> = d\<lparr>op_acks := {}\<rparr>\<lparr>op_phase := q\<rparr>" for q by (cases d) simp
  ultimately show ?thesis
    using receive_ack_last [OF mid, of n] assms(5) [symmetric] by (simp add: ddl_phase_of_def)
qed

lemma ddl_round_advances_witness:
  "let c = snd (propose ''ALTER'' {1, 2} ddl_new) in
     ddl_phase_of 1 (fold (\<lambda>n c. snd (receive_ack 1 n c)) [2, 1] c) = Some DdlPrepare"
proof -
  let ?d = "\<lparr>op_id = 1, op_sql = ''ALTER'', op_phase = DdlPropose, participating_nodes = {1, 2}, op_acks = {}\<rparr>"
  have "om_get (operations (snd (propose ''ALTER'' {1, 2} ddl_new))) 1 = Some ?d"
    by (simp add: propose_def ddl_new_def Let_def om_get_def)
  from ddl_round_advances [OF this, of "[2]" 1] show ?thesis
    by (simp add: ddl_phase_of_def Let_def insert_commute)
qed

text \<open>a rollback is final: no acknowledgement afterwards changes the phase of the operation.\<close>

lemma ddl_rollback_final:
  "fst (ddl_rollback i c) = (ddl_phase_of i c \<noteq> None) \<and>
   ddl_phase_of i (fold (\<lambda>n c. snd (receive_ack i n c)) ns (snd (ddl_rollback i c)))
     = (if ddl_phase_of i c = None then None else Some DdlRollback)"
proof -
  have step: "ddl_phase_of i (snd (receive_ack i n c)) = map_option (\<lambda>_. DdlRollback) (ddl_phase_of i c)"
    if "ddl_phase_of i c = None \<or> ddl_phase_of i c = Some DdlRollback" for c n
    using that by (auto simp: receive_ack_def ddl_phase_of_def Let_def split: option.splits)
  have "ddl_phase_of i (fold (\<lambda>n c. snd (receive_ack i n c)) ns c) = ddl_phase_of i c"
    if "ddl_phase_of i c = None \<or> ddl_phase_of i c = Some DdlRollback" for c
    using that
  proof (induction ns arbitrary: c)
    case (Cons n ns)
    have "ddl_phase_of i (snd (receive_ack i n c)) = ddl_phase_of i c"
      using step [OF Cons.prems, of n] Cons.prems by auto
    with Cons show ?case by simp
  qed simp
  moreover have "ddl_phase_of i (snd (ddl_rollback i c)) = (if ddl_phase_of i c = None then None else Some DdlRollback)"
    by (auto simp: ddl_rollback_def ddl_phase_of_def split: option.splits)
  moreover have "fst (ddl_rollback i c) = (ddl_phase_of i c \<noteq> None)"
    by (auto simp: ddl_rollback_def ddl_phase_of_def split: option.splits)
  ultimately show ?thesis by simp
qed

section \<open>Schema versions\<close>

text \<open>The version just added is the active one of its table and the only one, and the other tables keep
  theirs.\<close>

lemma add_schema_version_active:
  "let (ver, s') = add_schema_version tbl cols ts s in
     active_version tbl' s' =
       (if tbl' = tbl then Some \<lparr>sv_version = ver, sv_columns = cols, sv_created_at = ts, sv_is_active = True\<rparr>
        else active_version tbl' s)
     \<and> (case sv_versions s' tbl of None \<Rightarrow> False | Some vs \<Rightarrow> length (filter sv_is_active vs) = 1)"
  by (auto simp: add_schema_version_def active_version_def Let_def filter_map comp_def split: option.split)

text \<open>The compatibility check compares only the names: two versions of a table whose column changed its
  type from text to blob are reported as compatible.\<close>

lemma check_compat_ignores_types:
  "let (v1, s1) = add_schema_version ''t'' [(''a'', ''TEXT'')] 0 sv_new;
       (v2, s2) = add_schema_version ''t'' [(''a'', ''BLOB'')] 1 s1
   in check_compat ''t'' v1 v2 s2 = Compatible"
  by (simp add: add_schema_version_def sv_new_def check_compat_def column_difference_def Let_def)

end
