(* ===== verification/PageHeap.thy ===== *)
theory PageHeap
  imports PageStore
begin

text \<open>
  What the users of pages rely on when they allocate and free them. The contract \<open>page_heap\<close> extends \<open>page_store\<close> by
  a set of free pages: an allocation returns a page that is free or new, filled with zeros; freeing a page adds it to the set and may
  change free pages only. In it, a client that only touches pages it holds finds in them what it wrote, and is
  never given a page that it holds already. The pager instantiates it in theory \<open>PagerHeap\<close>.
\<close>

definition zeros :: bytes where
  "zeros = replicate PAGE_SIZE 0"

lemma map_le_Some: "m \<subseteq>\<^sub>m m' \<Longrightarrow> m x = Some d \<Longrightarrow> m' x = Some d"
  by (metis domI map_le_def)

lemma length_zeros [simp]: "length zeros = PAGE_SIZE"
  by (simp add: zeros_def)

datatype heap_op = HeapAlloc | HeapFree u32 | HeapWrite u32 "bytes \<Rightarrow> bytes" | HeapRead u32

fun heap_op_ok :: "heap_op \<Rightarrow> bool" where
  "heap_op_ok (HeapWrite n f) = keeps_size f"
| "heap_op_ok _ = True"

text \<open>
  A client with the pages that it holds and their contents as it expects them. The last component turns false when an
  operation on a page that it holds fails, a read differs from the expectation, or an allocation fails or returns a page that it holds.
  Operations on other pages are skipped.
\<close>

fun client_step :: "('s \<Rightarrow> u32 res \<times> 's) \<Rightarrow> (u32 \<Rightarrow> 's \<Rightarrow> unit res \<times> 's) \<Rightarrow> (u32 \<Rightarrow> 's \<Rightarrow> bytes res \<times> 's)
    \<Rightarrow> (u32 \<Rightarrow> (bytes \<Rightarrow> bytes) \<Rightarrow> 's \<Rightarrow> unit res \<times> 's) \<Rightarrow> heap_op \<Rightarrow> 's \<times> (u32 \<rightharpoonup> bytes) \<times> bool \<Rightarrow> 's \<times> (u32 \<rightharpoonup> bytes) \<times> bool" where
  "client_step alloc free read modify HeapAlloc (s, held, fine) =
     (case alloc s of (Ok n, s') \<Rightarrow> (s', held(n \<mapsto> zeros), fine \<and> held n = None) | (_, s') \<Rightarrow> (s', held, False))"
| "client_step alloc free read modify (HeapFree n) (s, held, fine) =
     (if held n = None then (s, held, fine) else case free n s of (r, s') \<Rightarrow> (s', held(n := None), fine \<and> r = Ok ()))"
| "client_step alloc free read modify (HeapWrite n f) (s, held, fine) =
     (if held n = None then (s, held, fine) else case modify n f s of (r, s') \<Rightarrow> (s', held(n := map_option f (held n)), fine \<and> r = Ok ()))"
| "client_step alloc free read modify (HeapRead n) (s, held, fine) =
     (if held n = None then (s, held, fine) else case read n s of (r, s') \<Rightarrow> (s', held, fine \<and> r = Ok (the (held n))))"

definition client_run :: "('s \<Rightarrow> u32 res \<times> 's) \<Rightarrow> (u32 \<Rightarrow> 's \<Rightarrow> unit res \<times> 's) \<Rightarrow> (u32 \<Rightarrow> 's \<Rightarrow> bytes res \<times> 's)
    \<Rightarrow> (u32 \<Rightarrow> (bytes \<Rightarrow> bytes) \<Rightarrow> 's \<Rightarrow> unit res \<times> 's) \<Rightarrow> heap_op list \<Rightarrow> 's \<times> (u32 \<rightharpoonup> bytes) \<times> bool \<Rightarrow> 's \<times> (u32 \<rightharpoonup> bytes) \<times> bool" where
  "client_run alloc free read modify = fold (client_step alloc free read modify)"

text \<open>How many allocations a sequence of operations contains.\<close>

definition alloc_count :: "heap_op list \<Rightarrow> nat" where
  "alloc_count ts = length (filter (\<lambda>t. t = HeapAlloc) ts)"

locale page_heap = page_store inv val read modify
  for inv :: "'s \<Rightarrow> bool" and val :: "'s \<Rightarrow> u32 \<rightharpoonup> bytes"
    and read :: "u32 \<Rightarrow> 's \<Rightarrow> bytes res \<times> 's" and modify :: "u32 \<Rightarrow> (bytes \<Rightarrow> bytes) \<Rightarrow> 's \<Rightarrow> unit res \<times> 's" +
  fixes frees :: "'s \<Rightarrow> u32 set \<Rightarrow> bool" and room :: "'s \<Rightarrow> nat \<Rightarrow> bool"
    and alloc :: "'s \<Rightarrow> u32 res \<times> 's" and free :: "u32 \<Rightarrow> 's \<Rightarrow> unit res \<times> 's"
  assumes read_heap: "inv s \<Longrightarrow> frees s F \<Longrightarrow> room s k \<Longrightarrow> read n s = (Ok d, s') \<Longrightarrow> frees s' F \<and> room s' k"
    and modify_heap: "inv s \<Longrightarrow> frees s F \<Longrightarrow> room s k \<Longrightarrow> keeps_size f \<Longrightarrow> n \<notin> F \<Longrightarrow> modify n f s = (Ok (), s') \<Longrightarrow> frees s' F \<and> room s' k"
    and alloc_law: "inv s \<Longrightarrow> frees s F \<Longrightarrow> room s (Suc k) \<Longrightarrow>
      \<exists>n s'. alloc s = (Ok n, s') \<and> inv s' \<and> frees s' (F - {n}) \<and> room s' k \<and> val s' = (val s)(n \<mapsto> zeros)
        \<and> n \<noteq> 0 \<and> (n \<in> F \<or> val s n = None)"
    and free_law: "inv s \<Longrightarrow> frees s F \<Longrightarrow> room s k \<Longrightarrow> val s n = Some d \<Longrightarrow> n \<notin> F \<Longrightarrow>
      \<exists>s'. free n s = (Ok (), s') \<and> inv s' \<and> frees s' (insert n F) \<and> room s' k
        \<and> (\<forall>p. p \<notin> insert n F \<longrightarrow> val s' p = val s p) \<and> dom (val s') = dom (val s)"
begin

text \<open>The client's expectations are met: its pages are not free and have the contents it expects.\<close>

lemma client_step_fine:
  assumes "inv s" and "frees s F" and "room s (k + (if t = HeapAlloc then 1 else 0))" and "held \<subseteq>\<^sub>m val s" and "dom held \<inter> F = {}" and "heap_op_ok t"
  shows "\<exists>s' held' F'. client_step alloc free read modify t (s, held, True) = (s', held', True)
    \<and> inv s' \<and> frees s' F' \<and> room s' k \<and> held' \<subseteq>\<^sub>m val s' \<and> dom held' \<inter> F' = {}"
proof (cases t)
  case HeapAlloc
  then obtain n s' where a: "alloc s = (Ok n, s')" "inv s'" "frees s' (F - {n})" "room s' k" "val s' = (val s)(n \<mapsto> zeros)" "n \<in> F \<or> val s n = None"
    using alloc_law [OF assms(1,2), of k] assms(3) by auto
  then have "held n = None" using assms(4,5) by (cases "held n") (auto simp: map_le_def dom_def)
  moreover have "held(n \<mapsto> zeros) \<subseteq>\<^sub>m val s'" using assms(4) a(5) by (auto simp: map_le_def)
  ultimately show ?thesis using HeapAlloc a assms(5) by (intro exI [of _ s'] exI [of _ "held(n \<mapsto> zeros)"] exI [of _ "F - {n}"]) auto
next
  case (HeapFree n)
  show ?thesis
  proof (cases "held n")
    case None
    then show ?thesis using HeapFree assms by auto
  next
    case (Some d)
    then have "val s n = Some d" "n \<notin> F" using map_le_Some [OF assms(4)] assms(5) by auto
    then obtain s' where f: "free n s = (Ok (), s')" "inv s'" "frees s' (insert n F)" "room s' k"
        "\<forall>p. p \<notin> insert n F \<longrightarrow> val s' p = val s p"
      using free_law [OF assms(1,2), of k n d] assms(3) HeapFree by auto
    moreover have "held(n := None) \<subseteq>\<^sub>m val s'"
      unfolding map_le_def
    proof
      fix p assume "p \<in> dom (held(n := None))"
      then have p: "p \<noteq> n" "p \<in> dom held" by (auto split: if_splits)
      then have "val s p = held p" "p \<notin> F" using assms(4,5) by (auto simp: map_le_def)
      then show "(held(n := None)) p = val s' p" using f(5) p(1) by simp
    qed
    ultimately show ?thesis using HeapFree Some assms(5)
      by (intro exI [of _ s'] exI [of _ "held(n := None)"] exI [of _ "insert n F"]) auto
  qed
next
  case (HeapWrite n f)
  show ?thesis
  proof (cases "held n")
    case None
    then show ?thesis using HeapWrite assms by auto
  next
    case (Some d)
    then have v: "val s n = Some d" "n \<notin> F" using map_le_Some [OF assms(4)] assms(5) by auto
    obtain s' where m: "modify n f s = (Ok (), s')" "inv s'" "val s' = (val s)(n \<mapsto> f d)"
      using modify_found [OF assms(1) v(1), of f] assms(6) HeapWrite by auto
    then have "frees s' F \<and> room s' k" using modify_heap [OF assms(1,2) _ _ v(2) m(1)] assms(3,6) HeapWrite by simp
    moreover have "held(n := map_option f (held n)) \<subseteq>\<^sub>m val s'" using assms(4) m(3) Some by (auto simp: map_le_def)
    ultimately show ?thesis using HeapWrite Some m assms(5)
      by (intro exI [of _ s'] exI [of _ "held(n := map_option f (held n))"] exI [of _ F]) auto
  qed
next
  case (HeapRead n)
  show ?thesis
  proof (cases "held n")
    case None
    then show ?thesis using HeapRead assms by auto
  next
    case (Some d)
    then have "val s n = Some d" using map_le_Some [OF assms(4)] by auto
    then obtain s' where r: "read n s = (Ok d, s')" "inv s'" "val s' = val s" using read_found [OF assms(1)] by blast
    then have "frees s' F \<and> room s' k" using read_heap [OF assms(1,2) _ r(1)] assms(3) HeapRead by simp
    then show ?thesis using HeapRead Some r assms(4,5) by auto
  qed
qed

lemma client_run_fine:
  "inv s \<Longrightarrow> frees s F \<Longrightarrow> room s (alloc_count ts) \<Longrightarrow> held \<subseteq>\<^sub>m val s \<Longrightarrow> dom held \<inter> F = {} \<Longrightarrow> list_all heap_op_ok ts \<Longrightarrow>
     \<exists>s' held'. client_run alloc free read modify ts (s, held, True) = (s', held', True) \<and> held' \<subseteq>\<^sub>m val s'"
proof (induction ts arbitrary: s held F)
  case (Cons t ts)
  have "room s (alloc_count ts + (if t = HeapAlloc then 1 else 0))" using Cons.prems(3) by (simp add: alloc_count_def split: if_splits)
  with client_step_fine [OF Cons.prems(1,2) this Cons.prems(4,5)] Cons.prems(6) obtain s' held' F' where
    "client_step alloc free read modify t (s, held, True) = (s', held', True)" "inv s'" "frees s' F'" "room s' (alloc_count ts)"
    "held' \<subseteq>\<^sub>m val s'" "dom held' \<inter> F' = {}" by auto
  with Cons.IH [of s' F' held'] Cons.prems(6) show ?case by (simp add: client_run_def)
qed (auto simp: client_run_def)

end

end
