(* ===== verification/PagerHeap.thy ===== *)
theory PagerHeap
  imports PagerTxn PageHeap
begin

text \<open>
  The pager as a heap of pages: its free list, the list of pages that wait for the next commit and the list of pages that the running
  transaction freed are disjoint chains, allocation takes a page from the first two or extends the database, and freeing
  appends to the third or, without a transaction, pushes to the second. With that the pager satisfies the contract
  \<open>page_heap\<close>.
\<close>

section \<open>Chains of pages\<close>

definition next_ptr :: "bytes \<Rightarrow> u32" where
  "next_ptr d = from_le (take 4 d)"

fun page_chain :: "(u32 \<rightharpoonup> bytes) \<Rightarrow> u32 \<Rightarrow> u32 list \<Rightarrow> bool" where
  "page_chain m r [] \<longleftrightarrow> r = 0"
| "page_chain m r (x # xs) \<longleftrightarrow> r = x \<and> x \<noteq> 0 \<and> (\<exists>d. m x = Some d \<and> page_chain m (next_ptr d) xs)"

lemma page_chain_cong: "(\<And>x. x \<in> set xs \<Longrightarrow> m' x = m x) \<Longrightarrow> page_chain m' r xs = page_chain m r xs"
  by (induction xs arbitrary: r) auto

lemma page_chain_dom: "page_chain m r xs \<Longrightarrow> set xs \<subseteq> dom m \<and> 0 \<notin> set xs"
  by (induction xs arbitrary: r) fastforce+

lemma page_chain_root: "page_chain m r xs \<Longrightarrow> r \<noteq> 0 \<Longrightarrow> \<exists>ys. xs = r # ys"
  by (cases xs) auto

lemma page_chain_zero: "page_chain m 0 xs \<longleftrightarrow> xs = []"
  by (cases xs) auto

lemma next_ptr_set [simp]: "next_ptr (set_next_pointer n d) = n"
  by (simp add: next_ptr_def set_next_pointer_def)

lemma page_chain_snoc:
  assumes "page_chain m r xs" and "xs \<noteq> []" and "distinct xs" and "n \<notin> set xs" and "n \<noteq> 0" and "m n = Some d" and "next_ptr d = 0"
  shows "page_chain (m(last xs := map_option (set_next_pointer n) (m (last xs)))) r (xs @ [n])"
  using assms
proof (induction xs arbitrary: r)
  case (Cons x xs)
  then obtain dx where x: "r = x" "x \<noteq> 0" "m x = Some dx" "page_chain m (next_ptr dx) xs" by auto
  show ?case
  proof (cases xs)
    case Nil
    then show ?thesis using x Cons.prems by auto
  next
    case (Cons y ys)
    then have "last xs \<noteq> x" using Cons.prems(3) by (metis distinct.simps(2) last_in_set list.distinct(1))
    with Cons x Cons.IH [OF x(4)] Cons.prems show ?thesis by auto
  qed
qed simp

section \<open>The free pages of a pager\<close>

text \<open>The pages that the running transaction freed.\<close>

fun freed_list :: "(u32 \<rightharpoonup> bytes) \<Rightarrow> cow_txn_state option \<Rightarrow> u32 list \<Rightarrow> bool" where
  "freed_list m None c \<longleftrightarrow> c = []"
| "freed_list m (Some tx) c \<longleftrightarrow>
     (if c = [] then freed_root tx = None \<and> freed_tail tx = None
      else freed_root tx = Some (hd c) \<and> freed_tail tx = Some (last c) \<and> page_chain m (hd c) c)"

definition free_lists :: "pager \<Rightarrow> u32 list \<Rightarrow> u32 list \<Rightarrow> u32 list \<Rightarrow> bool" where
  "free_lists pg a b c \<longleftrightarrow> (case cow_state pg of None \<Rightarrow> False | Some s \<Rightarrow>
     page_chain (page_value pg) (free_root (active_superblock s)) a \<and> page_chain (page_value pg) (pending_free_root (active_superblock s)) b
     \<and> freed_list (page_value pg) (active_tx s) c \<and> distinct (a @ b @ c))"

definition frees :: "pager \<Rightarrow> u32 set \<Rightarrow> bool" where
  "frees pg F \<longleftrightarrow> (\<exists>a b c. free_lists pg a b c \<and> F = set (a @ b @ c))"

definition room :: "pager \<Rightarrow> nat \<Rightarrow> bool" where
  "room pg k \<longleftrightarrow> unat (total_pages (header pg)) + k \<le> unat MAX_PAGES"

lemma freed_list_cong: "(\<And>x. x \<in> set c \<Longrightarrow> m' x = m x) \<Longrightarrow> freed_list m' t c = freed_list m t c"
  by (cases t) (auto cong: page_chain_cong)

lemma free_lists_cong:
  assumes "cow_state pg' = cow_state pg" and "\<And>x. x \<in> set (a @ b @ c) \<Longrightarrow> page_value pg' x = page_value pg x"
  shows "free_lists pg' a b c = free_lists pg a b c"
  using assms by (auto simp: free_lists_def cong: page_chain_cong freed_list_cong split: option.split)

lemma freed_list_dom: "freed_list m t c \<Longrightarrow> set c \<subseteq> dom m \<and> 0 \<notin> set c"
  using page_chain_dom [of m "hd c" c] by (cases t) (auto split: if_splits)

lemma free_lists_dom: "free_lists pg a b c \<Longrightarrow> set (a @ b @ c) \<subseteq> dom (page_value pg)"
  by (auto simp: free_lists_def dest: page_chain_dom freed_list_dom split: option.splits)

lemma page_value_range: "pager_inv pg \<Longrightarrow> page_value pg n = Some d \<Longrightarrow> in_range pg n \<and> length d = PAGE_SIZE"
proof -
  assume inv: "pager_inv pg" and v: "page_value pg n = Some d"
  then have n: "in_range pg n" by (auto simp: page_value_def in_range_def not_less split: if_splits)
  then show ?thesis using page_ok_simp(1,7) [OF inv n] v by (auto simp: page_value_def split: if_splits)
qed

lemma get_page_frees:
  assumes "pager_inv pg" and "get_page z n pg = (Ok d, pg')"
  shows "frees pg' F = frees pg F" "room pg' k = room pg k" "header pg' = header pg" "cow_state pg' = cow_state pg"
proof -
  have n: "in_range pg n" using assms get_page_out_of_range [OF assms(1), of n z] by fastforce
  obtain pg1 d1 where "get_page z n pg = (Ok d1, pg1)" and c: "cache_step pg pg1" by (rule get_page_value [OF assms(1) n, of z])
  then have eq: "pg' = pg1" using assms(2) by simp
  then show "header pg' = header pg" "cow_state pg' = cow_state pg" using c by (simp_all add: cache_step_def same_store_def)
  then show "frees pg' F = frees pg F" "room pg' k = room pg k"
    using c eq free_lists_cong [of pg' pg] by (simp_all add: cache_step_def frees_def room_def)
qed

lemma modify_page_frees:
  assumes "pager_inv pg" and "modify_page z n f pg = (Ok (), pg')" and "keeps_size f" and "frees pg F" and "n \<notin> F"
  shows "frees pg' F" "room pg' k = room pg k"
proof -
  have n: "in_range pg n" using assms(2) modify_page_out_of_range [OF assms(1), of n z f] by fastforce
  obtain pg1 where "modify_page z n f pg = (Ok (), pg1)" and h: "header pg1 = header pg" "cow_state pg1 = cow_state pg"
      "page_value pg1 = (page_value pg)(n := map_option f (page_value pg n))"
    by (rule modify_page_step [OF assms(1) n, of f z]) (use assms(3) in \<open>auto simp: keeps_size_def\<close>)
  then have eq: "pg' = pg1" using assms(2) by simp
  show "room pg' k = room pg k" using h(1) eq by (simp add: room_def)
  obtain a b c where F: "free_lists pg a b c" "F = set (a @ b @ c)" using assms(4) by (auto simp: frees_def)
  have "free_lists pg' a b c = free_lists pg a b c" using h eq F(2) assms(5) by (intro free_lists_cong) auto
  then show "frees pg' F" using F by (auto simp: frees_def)
qed

section \<open>Allocation\<close>

text \<open>Taking the head of the free list.\<close>

lemma take_free_page:
  fixes z :: lz4
  assumes inv: "pager_inv pg" and fl: "free_lists pg (n # a) b c"
  defines "take_op \<equiv> op_bind (get_page z n) (\<lambda>d. op_bind (op_modify (upd_superblock (\<lambda>sb. sb\<lparr>free_root := from_le (take 4 d)\<rparr>))) (\<lambda>_.
           op_bind (modify_page z n zero_page) (\<lambda>_. op_return n)))"
  shows "\<exists>pg'. take_op pg = (Ok n, pg') \<and> pager_inv pg' \<and> page_value pg' = (page_value pg)(n \<mapsto> zeros) \<and> free_lists pg' a b c
    \<and> header pg' = header pg"
proof -
  obtain s where s: "cow_state pg = Some s" "free_root (active_superblock s) = n" "n \<noteq> 0" "distinct (n # a @ b @ c)"
    using fl by (auto simp: free_lists_def split: option.splits)
  obtain d where d: "page_value pg n = Some d" "page_chain (page_value pg) (next_ptr d) a" using fl s by (auto simp: free_lists_def)
  have n: "in_range pg n" "length d = PAGE_SIZE" using page_value_range [OF inv d(1)] by auto
  obtain pg1 where g: "get_page z n pg = (Ok d, pg1)" "pager_inv pg1" "page_value pg1 = page_value pg"
    using ps.read_found [OF inv d(1), of z] by blast
  note keep = get_page_frees [OF inv g(1)]
  define pg2 where "pg2 = upd_superblock (\<lambda>sb. sb\<lparr>free_root := next_ptr d\<rparr>) pg1"
  have inv2: "pager_inv pg2" using upd_superblock_same_txn [OF g(2)] by (simp add: pg2_def same_txn_def)
  have v2: "page_value pg2 = page_value pg" "header pg2 = header pg" using g(3) keep(3) by (simp_all add: pg2_def upd_superblock_def)
  have s2: "cow_state pg2 = Some (s\<lparr>active_superblock := (active_superblock s)\<lparr>free_root := next_ptr d\<rparr>\<rparr>)"
    using keep(4) s(1) by (simp add: pg2_def upd_superblock_def upd_cow_def)
  have n2: "in_range pg2 n" using n(1) v2(2) by (simp add: in_range_def)
  obtain pg3 where m: "modify_page z n zero_page pg2 = (Ok (), pg3)" "same_txn pg2 pg3" "header pg3 = header pg2" "cow_state pg3 = cow_state pg2"
    "page_value pg3 = (page_value pg2)(n := map_option zero_page (page_value pg2 n))"
    by (rule modify_page_step [OF inv2 n2, of zero_page z]) (auto simp: zero_page_def)
  have v3: "page_value pg3 = (page_value pg)(n \<mapsto> zeros)" using m(5) v2(1) d(1) n(2) by (simp add: zero_page_def zeros_def)
  have "take_op pg = (Ok n, pg3)" using g(1) m(1) by (simp add: take_op_def op_simps pg2_def next_ptr_def)
  moreover have "free_lists pg3 a b c"
  proof -
    have "page_chain (page_value pg3) r xs = page_chain (page_value pg) r xs" if "n \<notin> set xs" for r xs
      by (rule page_chain_cong) (use that v3 in auto)
    moreover have "freed_list (page_value pg3) t c = freed_list (page_value pg) t c" for t
      by (rule freed_list_cong) (use s(4) v3 in auto)
    ultimately show ?thesis using fl d(2) s m(4) s2 by (simp add: free_lists_def)
  qed
  moreover have "pager_inv pg3" using m(2) by (simp add: same_txn_def)
  ultimately show ?thesis using v3 m(3) v2(2) by (intro exI [of _ pg3]) simp
qed

lemma free_candidate_lists:
  assumes "pager_inv pg" and "free_lists pg a b c"
  obtains (Free) n a' b' pg' where "free_candidate pg = (Ok (Some n), pg')" "pager_inv pg'" "free_lists pg' (n # a') b' c"
      "insert n (set a' \<union> set b') = set a \<union> set b" "page_value pg' = page_value pg" "header pg' = header pg"
  | (NoFree) "free_candidate pg = (Ok None, pg)" "a = []" "b = []"
proof -
  obtain s where s: "cow_state pg = Some s" using assms(2) by (auto simp: free_lists_def split: option.splits)
  let ?sb = "active_superblock s"
  have ch: "page_chain (page_value pg) (free_root ?sb) a" "page_chain (page_value pg) (pending_free_root ?sb) b"
    using assms(2) s by (simp_all add: free_lists_def)
  show ?thesis
  proof (cases "free_root ?sb = 0")
    case False
    then obtain a' where "a = free_root ?sb # a'" using page_chain_root [OF ch(1)] by blast
    then show ?thesis using False s assms by (intro Free [of "free_root ?sb" pg a' b]) (auto simp: free_candidate_def Let_def)
  next
    case True
    then have a: "a = []" using ch(1) by (simp add: page_chain_zero)
    show ?thesis
    proof (cases "pending_free_root ?sb = 0")
      case False
      then obtain b' where b: "b = pending_free_root ?sb # b'" using page_chain_root [OF ch(2)] by blast
      let ?pg = "upd_superblock (\<lambda>sb. sb\<lparr>free_root := pending_free_root sb, pending_free_root := 0\<rparr>) pg"
      have v: "page_value ?pg = page_value pg" "header ?pg = header pg" by (simp_all add: upd_superblock_def)
      have "cow_state ?pg = Some (s\<lparr>active_superblock := ?sb\<lparr>free_root := pending_free_root ?sb, pending_free_root := 0\<rparr>\<rparr>)"
        using s by (simp add: upd_superblock_def upd_cow_def)
      then have "free_lists ?pg b [] c" using assms(2) s by (simp add: free_lists_def v)
      then show ?thesis using False True s assms upd_superblock_same_txn [OF assms(1)] a b v
        by (intro Free [of "pending_free_root ?sb" ?pg b' "[]"]) (auto simp: free_candidate_def Let_def same_txn_def)
    next
      case True2: True
      then show ?thesis using True s a ch(2) by (intro NoFree) (auto simp: free_candidate_def Let_def page_chain_zero)
    qed
  qed
qed

lemma extend_value:
  assumes "pager_inv pg" and "total_pages (header pg) < MAX_PAGES"
  defines "n \<equiv> total_pages (header pg) + 1"
  shows "page_value (snd (extend_pages pg)) = (page_value pg)(n \<mapsto> zeros)" "page_value pg n = None" "n \<noteq> 0" "unat n = unat (total_pages (header pg)) + 1"
proof -
  let ?t = "total_pages (header pg)"
  have t1: "unat n = Suc (unat ?t)" using assms(2) by (simp add: n_def unat_word_ariths(1) MAX_PAGES_def word_less_nat_alt)
  then show "n \<noteq> 0" "unat n = unat ?t + 1" by auto
  show none: "page_value pg n = None" using t1 by (simp add: page_value_def word_less_nat_alt)
  have lens: "length (pages pg) = unat ?t" "length (loaded pg) = unat ?t" using assms(1) by (simp_all add: pager_inv_def)
  show "page_value (snd (extend_pages pg)) = (page_value pg)(n \<mapsto> zeros)"
  proof
    fix k show "page_value (snd (extend_pages pg)) k = ((page_value pg)(n \<mapsto> zeros)) k"
    proof (cases "k = n")
      case True
      then show ?thesis using lens t1 \<open>n \<noteq> 0\<close>
        by (simp add: page_value_def extend_pages_def Let_def page_idx_def n_def nth_append page_new_def zeros_def)
    next
      case False
      have lt: "?t + 1 < k \<longleftrightarrow> ?t < k" using False t1 by (auto simp: word_less_nat_alt n_def word_unat_eq_iff)
      have "on_disk (snd (extend_pages pg)) k = on_disk pg k" by (simp add: on_disk_def extend_pages_def Let_def)
      moreover have "\<not> ?t < k \<Longrightarrow> k \<noteq> 0 \<Longrightarrow> page_idx k < unat ?t" using page_idx_less by (simp add: not_less)
      ultimately show ?thesis using lens lt False by (auto simp: page_value_def extend_pages_def Let_def nth_append)
    qed
  qed
qed

lemma allocate_step:
  assumes inv: "pager_inv pg" and fr: "frees pg F" and rm: "room pg (Suc k)"
  shows "\<exists>n pg'. allocate_page z pg = (Ok n, pg') \<and> pager_inv pg' \<and> frees pg' (F - {n}) \<and> room pg' k
    \<and> page_value pg' = (page_value pg)(n \<mapsto> zeros) \<and> n \<noteq> 0 \<and> (n \<in> F \<or> page_value pg n = None)"
proof -
  have lt: "total_pages (header pg) < MAX_PAGES" using rm by (simp add: room_def word_less_nat_alt)
  obtain a b c where fl: "free_lists pg a b c" "F = set (a @ b @ c)" using fr by (auto simp: frees_def)
  show ?thesis
  proof (cases rule: free_candidate_lists [OF inv fl(1), case_names Free NoFree])
    case (Free n a' b' pg1)
    obtain pg' where t: "op_bind (get_page z n) (\<lambda>d. op_bind (op_modify (upd_superblock (\<lambda>sb. sb\<lparr>free_root := from_le (take 4 d)\<rparr>))) (\<lambda>_.
           op_bind (modify_page z n zero_page) (\<lambda>_. op_return n))) pg1 = (Ok n, pg')" "pager_inv pg'"
        "page_value pg' = (page_value pg1)(n \<mapsto> zeros)" "free_lists pg' a' b' c" "header pg' = header pg1"
      using take_free_page [OF Free(2,3), of z] by auto
    have "allocate_page z pg = (Ok n, pg')"
      using Free(1) t(1) lt by (simp add: allocate_page_def op_get_def op_bind_Ok [of free_candidate pg] flip: not_less)
    moreover have "n \<notin> set (a' @ b' @ c)" "n \<noteq> 0" using Free(3) by (auto simp: free_lists_def split: option.splits)
    moreover have "F - {n} = set (a' @ b' @ c)" "n \<in> F" using calculation(2) Free(4) fl(2) by auto
    ultimately show ?thesis using t Free(5,6) rm by (intro exI [of _ n] exI [of _ pg']) (auto simp: frees_def room_def)
  next
    case NoFree
    let ?pg = "snd (extend_pages pg)" and ?n = "total_pages (header pg) + 1"
    note E = extend_value [OF inv lt]
    have "allocate_page z pg = (Ok ?n, ?pg)"
      using lt NoFree(1) by (simp add: allocate_page_def op_get_def op_bind_def extend_pages_def Let_def flip: not_less)
    moreover have "pager_inv ?pg" using extend_same_txn [OF inv lt] by (simp add: same_txn_def)
    moreover have "?n \<notin> F" using free_lists_dom [OF fl(1)] fl(2) E(2) by auto
    moreover have "free_lists ?pg a b c = free_lists pg a b c"
      using \<open>?n \<notin> F\<close> fl(2) E(1) by (intro free_lists_cong) (auto simp: extend_pages_def Let_def)
    moreover have "room ?pg k" using rm E(4) by (simp add: room_def extend_pages_def Let_def)
    ultimately show ?thesis using E fl by (intro exI [of _ ?n] exI [of _ ?pg]) (auto simp: frees_def)
  qed
qed

section \<open>Freeing\<close>

definition link_op :: "lz4 \<Rightarrow> u32 \<Rightarrow> (pager, unit) op" where
  "link_op z n = op_bind (link_freed n) (\<lambda>l. case l of None \<Rightarrow> op_return () | Some (m, ptr) \<Rightarrow> modify_page z m (set_next_pointer ptr))"

text \<open>Changing the free lists in the state and then a link in a page.\<close>

lemma link_page_step:
  assumes inv: "pager_inv pg" and q: "page_value pg q \<noteq> None" and s: "cow_state pg = Some s"
    and g: "\<And>s. active_tx (g s) = None \<longleftrightarrow> active_tx s = None"
  shows "\<exists>pg'. modify_page z q (set_next_pointer p) (upd_cow g pg) = (Ok (), pg') \<and> pager_inv pg' \<and> cow_state pg' = Some (g s)
    \<and> header pg' = header pg \<and> page_value pg' = (page_value pg)(q := map_option (set_next_pointer p) (page_value pg q))"
proof -
  have u: "pager_inv (upd_cow g pg)" using upd_cow_same_txn [OF inv, of g] g by (simp add: same_txn_def)
  from q obtain dq where "page_value pg q = Some dq" by auto
  then have r: "in_range (upd_cow g pg) q" using page_value_range [OF inv] by simp
  have len: "length (set_next_pointer p d) = PAGE_SIZE" if "length d = PAGE_SIZE" for d
    using that keeps_size_next [of p] by (simp add: keeps_size_def)
  obtain pg' where "modify_page z q (set_next_pointer p) (upd_cow g pg) = (Ok (), pg')" "same_txn (upd_cow g pg) pg'"
    "header pg' = header (upd_cow g pg)" "cow_state pg' = cow_state (upd_cow g pg)"
    "page_value pg' = (page_value (upd_cow g pg))(q := map_option (set_next_pointer p) (page_value (upd_cow g pg) q))"
    by (rule modify_page_step [OF u r, of "set_next_pointer p" z, OF len])
  moreover have "cow_state (upd_cow g pg) = Some (g s)" using s by (simp add: upd_cow_def)
  ultimately show ?thesis by (intro exI [of _ pg']) (simp add: same_txn_def)
qed

text \<open>What linking a freed page achieves: it joins the free pages, and only free pages change.\<close>

definition links_page :: "lz4 \<Rightarrow> pager \<Rightarrow> u32 \<Rightarrow> u32 set \<Rightarrow> bool" where
  "links_page z pg n F \<longleftrightarrow> (\<exists>pg'. link_op z n pg = (Ok (), pg') \<and> pager_inv pg' \<and> frees pg' (insert n F) \<and> header pg' = header pg
     \<and> (\<forall>p. p \<notin> insert n F \<longrightarrow> page_value pg' p = page_value pg p) \<and> dom (page_value pg') = dom (page_value pg))"

lemma links_pageI:
  assumes "link_op z n pg = (Ok (), pg')" and "pager_inv pg'" and "free_lists pg' a b' c'" and "set b' \<union> set c' = insert n (set b \<union> set c)"
    and "header pg' = header pg" and "page_value pg' = (page_value pg)(q := map_option h (page_value pg q))" and "q \<in> insert n (set (a @ b @ c))"
  shows "links_page z pg n (set (a @ b @ c))"
  unfolding links_page_def
proof (intro exI [of _ pg'] conjI)
  have "insert n (set (a @ b @ c)) = set (a @ b' @ c')" using assms(4) by auto
  then show "frees pg' (insert n (set (a @ b @ c)))" using assms(3) unfolding frees_def by blast
  show "\<forall>p. p \<notin> insert n (set (a @ b @ c)) \<longrightarrow> page_value pg' p = page_value pg p" using assms(6,7) by auto
  show "dom (page_value pg') = dom (page_value pg)" using assms(6) by (auto simp: dom_def split: if_splits)
qed (use assms in auto)

lemma link_pending:
  assumes inv: "pager_inv pg" and fl: "free_lists pg a b c" and v: "page_value pg n = Some d" and n: "n \<notin> set (a @ b @ c)" "n \<noteq> 0"
    and s: "cow_state pg = Some s" "active_tx s = None"
  shows "links_page z pg n (set (a @ b @ c))"
proof -
  define g where "g = (\<lambda>s::cow_pager_state. s\<lparr>active_superblock := (active_superblock s)\<lparr>pending_free_root := n\<rparr>\<rparr>)"
  let ?p = "pending_free_root (active_superblock s)"
  have F: "page_chain (page_value pg) (free_root (active_superblock s)) a" "page_chain (page_value pg) ?p b" "c = []" "distinct (a @ b @ c)"
    using fl s by (auto simp: free_lists_def)
  have "page_value pg n \<noteq> None" "\<And>s. active_tx (g s) = None \<longleftrightarrow> active_tx s = None" by (simp_all add: v g_def)
  from link_page_step [OF inv this(1) s(1) this(2), of z ?p] obtain pg' where
    pg': "modify_page z n (set_next_pointer ?p) (upd_cow g pg) = (Ok (), pg')" "pager_inv pg'" "cow_state pg' = Some (g s)" "header pg' = header pg"
    "page_value pg' = (page_value pg)(n := map_option (set_next_pointer ?p) (page_value pg n))" by blast
  have op: "link_op z n pg = (Ok (), pg')"
    using s pg'(1) by (simp add: link_op_def link_freed_def op_bind_def upd_superblock_def g_def)
  have same: "page_chain (page_value pg') r xs = page_chain (page_value pg) r xs" if "n \<notin> set xs" for r xs
    by (rule page_chain_cong) (use that pg'(5) in auto)
  have "free_lists pg' a (n # b) c"
    using F n same s v by (simp add: free_lists_def pg'(3) g_def) (simp add: pg'(5))
  then show ?thesis using F(3) by (intro links_pageI [OF op pg'(2) _ _ pg'(4,5)]) auto
qed

lemma link_first:
  assumes inv: "pager_inv pg" and fl: "free_lists pg a b []" and v: "page_value pg n = Some d" "next_ptr d = 0" and n: "n \<notin> set (a @ b @ [])" "n \<noteq> 0"
    and s: "cow_state pg = Some s" "active_tx s = Some tx"
  shows "links_page z pg n (set (a @ b @ []))"
proof -
  define g where "g = (\<lambda>s::cow_pager_state. s\<lparr>active_tx := Some (tx\<lparr>freed_root := Some n, freed_tail := Some n\<rparr>)\<rparr>)"
  let ?pg = "upd_cow g pg"
  have F: "page_chain (page_value pg) (free_root (active_superblock s)) a" "page_chain (page_value pg) (pending_free_root (active_superblock s)) b"
    "distinct (a @ b)" "freed_tail tx = None"
    using fl s by (simp_all add: free_lists_def)
  have op: "link_op z n pg = (Ok (), ?pg)" using s F by (simp add: link_op_def link_freed_def op_bind_def op_return_def g_def)
  have cow: "cow_state ?pg = Some (g s)" using s by (simp add: upd_cow_def)
  have "free_lists ?pg a b [n]" using F n v cow by (simp add: free_lists_def) (simp add: g_def)
  moreover have "pager_inv ?pg" using upd_cow_same_txn [OF inv, of g] s by (simp add: same_txn_def g_def)
  ultimately show ?thesis by (intro links_pageI [OF op, where q = n and h = id and b' = b and c' = "[n]"]) (auto simp: option.map_id)
qed

lemma link_tail:
  assumes inv: "pager_inv pg" and fl: "free_lists pg a b c" and v: "page_value pg n = Some d" "next_ptr d = 0" and n: "n \<notin> set (a @ b @ c)" "n \<noteq> 0"
    and s: "cow_state pg = Some s" "active_tx s = Some tx" and c: "c \<noteq> []"
  shows "links_page z pg n (set (a @ b @ c))"
proof -
  define g where "g = (\<lambda>s::cow_pager_state. s\<lparr>active_tx := (case active_tx s of None \<Rightarrow> None | Some _ \<Rightarrow> Some (tx\<lparr>freed_tail := Some n\<rparr>))\<rparr>)"
  have F: "page_chain (page_value pg) (free_root (active_superblock s)) a" "page_chain (page_value pg) (pending_free_root (active_superblock s)) b"
    "distinct (a @ b @ c)" "freed_root tx = Some (hd c)" "freed_tail tx = Some (last c)" "page_chain (page_value pg) (hd c) c"
    using fl s c by (simp_all add: free_lists_def)
  have "last c \<in> dom (page_value pg)" using page_chain_dom [OF F(6)] last_in_set [OF c] by blast
  then have q: "last c \<in> set c" "page_value pg (last c) \<noteq> None" using c by auto
  have "\<And>s. active_tx (g s) = None \<longleftrightarrow> active_tx s = None" by (simp add: g_def split: option.split)
  from link_page_step [OF inv q(2) s(1) this, of z n] obtain pg' where
    pg': "modify_page z (last c) (set_next_pointer n) (upd_cow g pg) = (Ok (), pg')" "pager_inv pg'" "cow_state pg' = Some (g s)" "header pg' = header pg"
    "page_value pg' = (page_value pg)(last c := map_option (set_next_pointer n) (page_value pg (last c)))" by blast
  have "upd_cow g pg = upd_cow (\<lambda>s. s\<lparr>active_tx := Some (tx\<lparr>freed_tail := Some n\<rparr>)\<rparr>) pg" using s by (simp add: upd_cow_def g_def)
  then have op: "link_op z n pg = (Ok (), pg')" using s F pg'(1) by (simp add: link_op_def link_freed_def op_bind_def)
  have same: "page_chain (page_value pg') r xs = page_chain (page_value pg) r xs" if "last c \<notin> set xs" for r xs
    by (rule page_chain_cong) (use that pg'(5) in auto)
  have "page_chain (page_value pg') (hd c) (c @ [n])"
    unfolding pg'(5) using F n v c by (intro page_chain_snoc) auto
  moreover have "last c \<notin> set a" "last c \<notin> set b" using F(3) q(1) by auto
  ultimately have "free_lists pg' a b (c @ [n])"
    using F n s c same by (simp add: free_lists_def pg'(3) g_def)
  then show ?thesis using q(1) by (intro links_pageI [OF op pg'(2) _ _ pg'(4,5)]) auto
qed

lemma free_step:
  assumes inv: "pager_inv pg" and fr: "frees pg F" and v: "page_value pg n = Some d" and new: "n \<notin> F"
  shows "\<exists>pg'. free_page z n pg = (Ok (), pg') \<and> pager_inv pg' \<and> frees pg' (insert n F) \<and> header pg' = header pg
    \<and> (\<forall>p. p \<notin> insert n F \<longrightarrow> page_value pg' p = page_value pg p) \<and> dom (page_value pg') = dom (page_value pg)"
proof -
  let ?c = "\<lambda>d. set_next_pointer 0 (zero_page d)"
  obtain a b c where fl: "free_lists pg a b c" "F = set (a @ b @ c)" using fr by (auto simp: frees_def)
  have n: "in_range pg n" "n \<noteq> 0" using page_value_range [OF inv v] by (simp_all add: in_range_def)
  obtain pg1 where m: "modify_page z n ?c pg = (Ok (), pg1)" "same_txn pg pg1" "header pg1 = header pg" "cow_state pg1 = cow_state pg"
    "page_value pg1 = (page_value pg)(n := map_option ?c (page_value pg n))"
    by (rule modify_page_step [OF inv n(1), of ?c z]) (simp_all add: set_next_pointer_def zero_page_def PAGE_SIZE_def)
  have v1: "page_value pg1 n = Some (?c d)" "next_ptr (?c d) = 0" and inv1: "pager_inv pg1" using m(2,5) v by (simp_all add: same_txn_def)
  have fl1: "free_lists pg1 a b c" using fl m(5) new by (subst free_lists_cong [of pg1 pg]) (auto simp: m(4))
  then obtain s where s: "cow_state pg1 = Some s" by (auto simp: free_lists_def split: option.splits)
  have nF: "n \<notin> set (a @ b @ c)" using new fl(2) by simp
  have "links_page z pg1 n F"
  proof (cases "active_tx s")
    case None
    then show ?thesis using link_pending [OF inv1 fl1 v1(1) nF n(2) s] fl(2) by simp
  next
    case (Some tx)
    then show ?thesis
      using link_first [OF inv1 _ v1 _ n(2) s, of a b tx z] link_tail [OF inv1 fl1 v1 nF n(2) s, of tx z] fl1 fl(2) nF by (cases "c = []") auto
  qed
  then obtain pg' where l: "link_op z n pg1 = (Ok (), pg')" "pager_inv pg'" "frees pg' (insert n F)" "header pg' = header pg1"
    "\<And>p. p \<notin> insert n F \<Longrightarrow> page_value pg' p = page_value pg1 p" "dom (page_value pg') = dom (page_value pg1)"
    unfolding links_page_def by blast
  have "free_page z n pg = (Ok (), pg')"
    using n m(1) l(1) by (simp add: free_page_def op_get_def op_bind_Ok [of "modify_page z n ?c" pg, OF m(1)] in_range_def link_op_def flip: not_less)
  moreover have "\<forall>p. p \<notin> insert n F \<longrightarrow> page_value pg' p = page_value pg p" using l(5) m(5) by auto
  moreover have "dom (page_value pg') = dom (page_value pg)" using l(6) m(5) by (auto simp: dom_def split: if_splits)
  ultimately show ?thesis using l m(3) by (intro exI [of _ pg']) simp
qed

section \<open>The contract\<close>

interpretation ph: page_heap pager_inv page_value "get_page z" "modify_page z" frees room "allocate_page z" "free_page z" for z
proof unfold_locales
  show "frees s' F \<and> room s' k" if "pager_inv s" "frees s F" "room s k" "get_page z n s = (Ok d, s')" for s F k n d s'
    using that get_page_frees(1,2) [OF that(1,4)] by simp
  show "frees s' F \<and> room s' k"
    if "pager_inv s" "frees s F" "room s k" "keeps_size f" "n \<notin> F" "modify_page z n f s = (Ok (), s')" for s F k f n s'
    using that modify_page_frees [OF that(1,6,4,2,5)] by simp
  show "\<exists>n s'. allocate_page z s = (Ok n, s') \<and> pager_inv s' \<and> frees s' (F - {n}) \<and> room s' k \<and> page_value s' = (page_value s)(n \<mapsto> zeros)
      \<and> n \<noteq> 0 \<and> (n \<in> F \<or> page_value s n = None)" if "pager_inv s" "frees s F" "room s (Suc k)" for s F k
    by (rule allocate_step [OF that])
  show "\<exists>s'. free_page z n s = (Ok (), s') \<and> pager_inv s' \<and> frees s' (insert n F) \<and> room s' k
      \<and> (\<forall>p. p \<notin> insert n F \<longrightarrow> page_value s' p = page_value s p) \<and> dom (page_value s') = dom (page_value s)"
    if "pager_inv s" "frees s F" "room s k" "page_value s n = Some d" "n \<notin> F" for s F k n d
    using free_step [OF that(1,2,4,5), of z] that(3) by (auto simp: room_def)
qed

text \<open>
  C4: Allocation and freeing keep the users of pages apart. A client that allocates, frees, reads and changes pages in any
  order and only touches pages that it holds never sees an error, is never given a page that it holds already, and finds in each
  of its pages what it last wrote there, from any state in which the pages it holds are not in a free list.
\<close>

theorem allocation_keeps_pages_apart:
  assumes "pager_inv pg" and "frees pg F" and "room pg (alloc_count ts)" and "held \<subseteq>\<^sub>m page_value pg" and "dom held \<inter> F = {}" and "list_all heap_op_ok ts"
  shows "\<exists>pg' held'. client_run (allocate_page z) (free_page z) (get_page z) (modify_page z) ts (pg, held, True) = (pg', held', True)
    \<and> held' \<subseteq>\<^sub>m page_value pg'"
  using ph.client_run_fine [OF assms] .

lemma memory_frees: "length uuid = 16 \<Longrightarrow> frees (pager_open_memory uuid) {}"
  by (auto simp: frees_def free_lists_def pager_open_memory_def pager_make_def Let_def superblock_new_def intro!: exI [of _ "[]"])

lemma memory_room: "k < 1000000 \<Longrightarrow> room (pager_open_memory uuid) k"
  by (simp add: room_def pager_open_memory_def pager_make_def Let_def MAX_PAGES_def)

theorem allocation_keeps_pages_apart_witness:
  "\<exists>pg' held'. client_run (allocate_page lz4_off) (free_page lz4_off) (get_page lz4_off) (modify_page lz4_off)
     [HeapAlloc, HeapWrite 4 (\<lambda>d. d[0 := 1]), HeapAlloc, HeapFree 4, HeapAlloc, HeapRead 5] (pager_open_memory (replicate 16 7), Map.empty, True) = (pg', held', True)
    \<and> held' \<subseteq>\<^sub>m page_value pg'"
  by (rule allocation_keeps_pages_apart [OF pager_open_memory_inv(1) memory_frees])
    (simp_all add: memory_room alloc_count_def keeps_size_def)

end
