(* ===== verification/BTreePage.thy ===== *)
theory BTreePage
  imports Pager ValueTypes
begin

text \<open>
  The pages of the B+tree, \<^verbatim>\<open>src/src/storage/btree.rs\<close>, as byte strings: header fields, the array of cell
  pointers, binary search over it, and the insertion and removal of cells in leaf and interior pages. A page is
  \<open>PAGE_SIZE\<close> bytes, so header fields at a fixed offset are always there; an offset that was read from the page may
  point outside of it, where the source panics. The functions return the changed page; where one fails the source has
  not changed the page yet.
\<close>

section \<open>Bytes of a page\<close>

definition sub_bytes :: "bytes \<Rightarrow> nat \<Rightarrow> nat \<Rightarrow> bytes" where
  "sub_bytes d off n = take n (drop off d)"

definition u16_at :: "bytes \<Rightarrow> nat \<Rightarrow> u16" where
  "u16_at d off = from_le (sub_bytes d off 2)"

definition u32_at :: "bytes \<Rightarrow> nat \<Rightarrow> u32" where
  "u32_at d off = from_le (sub_bytes d off 4)"

definition i64_at :: "bytes \<Rightarrow> nat \<Rightarrow> i64" where
  "i64_at d off = from_le (sub_bytes d off 8)"

text \<open>Reads and writes at an offset that need not lie in the page.\<close>

definition rd16 :: "bytes \<Rightarrow> nat \<Rightarrow> nat res" where
  "rd16 d off = res_bind (slice_range d off (off + 2)) (\<lambda>b. Ok (unat (from_le b :: u16)))"

definition rd32 :: "bytes \<Rightarrow> nat \<Rightarrow> u32 res" where
  "rd32 d off = res_bind (slice_range d off (off + 4)) (\<lambda>b. Ok (from_le b))"

definition rd64 :: "bytes \<Rightarrow> nat \<Rightarrow> i64 res" where
  "rd64 d off = res_bind (slice_range d off (off + 8)) (\<lambda>b. Ok (from_le b))"

definition copy_into :: "nat \<Rightarrow> bytes \<Rightarrow> bytes \<Rightarrow> bytes res" where
  "copy_into off bs d = (if off + length bs \<le> length d then Ok (write_at off bs d) else Panic)"

text \<open>\<^verbatim>\<open>Vec::insert\<close>.\<close>

definition list_insert :: "nat \<Rightarrow> 'a \<Rightarrow> 'a list \<Rightarrow> 'a list" where
  "list_insert i x xs = take i xs @ x # drop i xs"

section \<open>Layout\<close>

definition LEAF_TABLE :: u8 where
  "LEAF_TABLE = 0x0D"

definition INTERIOR_TABLE :: u8 where
  "INTERIOR_TABLE = 0x05"

definition OVERFLOW_DATA_SIZE :: nat where
  "OVERFLOW_DATA_SIZE = PAGE_SIZE - 4"

definition MAX_INLINE_PAYLOAD :: nat where
  "MAX_INLINE_PAYLOAD = PAGE_SIZE div 2 - 32"

definition OVERFLOW_FLAG :: u32 where
  "OVERFLOW_FLAG = 0x80000000"

definition LEAF_HEADER_SIZE :: nat where
  "LEAF_HEADER_SIZE = 14"

definition INTERIOR_HEADER_SIZE :: nat where
  "INTERIOR_HEADER_SIZE = 10"

record page_header =
  ph_page_type :: u8
  ph_cell_count :: u16
  ph_cell_content_offset :: u16
  ph_right_child :: "u32 option"

definition validate_cell_offset :: "nat \<Rightarrow> nat \<Rightarrow> nat res" where
  "validate_cell_offset off needed =
     (if PAGE_SIZE < off + needed
      then Err (CorruptDatabase (''cell offset '' @ show_nat off @ '' + '' @ show_nat needed @ '' exceeds page size '' @ show_nat PAGE_SIZE))
      else Ok off)"

text \<open>Header fields, and the header as a whole.\<close>

definition page_type :: "bytes \<Rightarrow> u8" where
  "page_type d = d ! 0"

definition cell_count :: "bytes \<Rightarrow> nat" where
  "cell_count d = unat (u16_at d 1)"

definition content_offset :: "bytes \<Rightarrow> nat" where
  "content_offset d = u16_to_page_size (u16_at d 3)"

definition write_page_header :: "page_header \<Rightarrow> bytes \<Rightarrow> bytes" where
  "write_page_header h d =
     (let d1 = write_at 6 (le_bytes 4 (case ph_right_child h of Some c \<Rightarrow> c | None \<Rightarrow> 0))
                 (write_at 5 [0] (write_at 3 (le_bytes 2 (ph_cell_content_offset h))
                 (write_at 1 (le_bytes 2 (ph_cell_count h)) (write_at 0 [ph_page_type h] d))))
      in if ph_page_type h = LEAF_TABLE then write_at 10 (le_bytes 4 (0::u32)) d1 else d1)"

definition get_next_leaf :: "bytes \<Rightarrow> u32" where
  "get_next_leaf d = u32_at d 6"

definition set_next_leaf :: "u32 \<Rightarrow> bytes \<Rightarrow> bytes" where
  "set_next_leaf n d = write_at 6 (le_bytes 4 n) d"

definition get_prev_leaf :: "bytes \<Rightarrow> u32" where
  "get_prev_leaf d = u32_at d 10"

definition set_prev_leaf :: "u32 \<Rightarrow> bytes \<Rightarrow> bytes" where
  "set_prev_leaf n d = write_at 10 (le_bytes 4 n) d"

definition right_child :: "bytes \<Rightarrow> u32" where
  "right_child d = u32_at d 6"

definition init_leaf_page :: "bytes \<Rightarrow> bytes" where
  "init_leaf_page = write_page_header \<lparr>ph_page_type = LEAF_TABLE, ph_cell_count = 0,
     ph_cell_content_offset = page_size_to_u16, ph_right_child = None\<rparr>"

definition init_interior_page :: "u32 \<Rightarrow> bytes \<Rightarrow> bytes" where
  "init_interior_page right = write_page_header \<lparr>ph_page_type = INTERIOR_TABLE, ph_cell_count = 0,
     ph_cell_content_offset = page_size_to_u16, ph_right_child = Some right\<rparr>"

section \<open>Cells\<close>

definition make_leaf_cell :: "i64 \<Rightarrow> bytes \<Rightarrow> bytes" where
  "make_leaf_cell rowid payload = le_bytes 4 (word_of_nat (length payload) :: u32) @ le_bytes 8 rowid @ payload"

definition make_overflow_cell :: "i64 \<Rightarrow> u32 \<Rightarrow> u32 \<Rightarrow> bytes" where
  "make_overflow_cell rowid total_len first = le_bytes 4 OVERFLOW_FLAG @ le_bytes 8 rowid @ le_bytes 4 total_len @ le_bytes 4 first"

definition make_interior_cell :: "i64 \<Rightarrow> u32 \<Rightarrow> bytes" where
  "make_interior_cell key left = le_bytes 4 left @ le_bytes 8 key"

section \<open>Binary search\<close>

text \<open>
  The loop that all searches share. The probe looks at one entry; a search that accepts equal keys
  on the left never answers \<open>Equal\<close>. The result is the index of an equal entry, or the index where the
  loop ends.
\<close>

function bsearch :: "(nat \<Rightarrow> ordering res) \<Rightarrow> nat \<Rightarrow> nat \<Rightarrow> (nat + nat) res" where
  "bsearch probe lo hi =
     (if lo < hi then
        let mid = lo + (hi - lo) div 2 in
        res_bind (probe mid) (\<lambda>c. case c of
            Equal \<Rightarrow> Ok (Inl mid)
          | Less \<Rightarrow> bsearch probe (mid + 1) hi
          | Greater \<Rightarrow> bsearch probe lo mid)
      else Ok (Inr lo))"
  by pat_completeness auto
termination
  by (relation "measure (\<lambda>(_, lo, hi). hi - lo)") auto

declare bsearch.simps [simp del]

text \<open>The key of an entry (a rowid in a leaf, a divider in an interior page), with and without validation of its offset.\<close>

definition cell_key :: "bool \<Rightarrow> bytes \<Rightarrow> nat \<Rightarrow> nat \<Rightarrow> i64 res" where
  "cell_key validate d base i =
     res_bind (rd16 d (base + i * 2)) (\<lambda>off.
     res_bind (if validate then validate_cell_offset off 12 else Ok off) (\<lambda>off.
     rd64 d (off + 4)))"

text \<open>Searching for a rowid in a leaf: the entry against the rowid.\<close>

definition leaf_probe :: "bool \<Rightarrow> bytes \<Rightarrow> i64 \<Rightarrow> nat \<Rightarrow> ordering res" where
  "leaf_probe validate d rowid i =
     res_bind (cell_key validate d LEAF_HEADER_SIZE i) (\<lambda>k. Ok (i64_cmp k rowid))"

text \<open>Searching for the first divider beyond a key.\<close>

definition interior_probe :: "bool \<Rightarrow> bytes \<Rightarrow> i64 \<Rightarrow> nat \<Rightarrow> ordering res" where
  "interior_probe validate d key i =
     res_bind (cell_key validate d INTERIOR_HEADER_SIZE i) (\<lambda>k. Ok (if sint key < sint k then Greater else Less))"

definition unique_error :: "i64 \<Rightarrow> kkdb_error" where
  "unique_error rowid = ConstraintViolation (''UNIQUE constraint failed: rowid '' @ show_int (sint rowid))"

definition leaf_insert_index :: "bytes \<Rightarrow> nat \<Rightarrow> i64 \<Rightarrow> nat res" where
  "leaf_insert_index d count rowid =
     res_bind (bsearch (leaf_probe False d rowid) 0 count) (\<lambda>r. case r of
         Inl _ \<Rightarrow> Err (unique_error rowid)
       | Inr i \<Rightarrow> Ok i)"

section \<open>Inserting a cell\<close>

text \<open>\<^verbatim>\<open>for i in (insert_idx..cell_count).rev()\<close>: moving the pointers up by one.\<close>

fun shift_right :: "nat \<Rightarrow> nat \<Rightarrow> nat \<Rightarrow> bytes \<Rightarrow> bytes res" where
  "shift_right base idx 0 d = Ok d"
| "shift_right base idx (Suc i) d =
     (if i < idx then Ok d
      else res_bind (rd16 d (base + i * 2)) (\<lambda>v.
           res_bind (copy_into (base + (i + 1) * 2) (le_bytes 2 (word_of_nat v :: u16)) d) (\<lambda>d.
           shift_right base idx i d)))"

text \<open>The end of every insertion: pointers, cell count and content offset.\<close>

definition link_cell :: "nat \<Rightarrow> nat \<Rightarrow> nat \<Rightarrow> nat \<Rightarrow> bytes \<Rightarrow> bytes res" where
  "link_cell base idx count new_offset d =
     res_bind (shift_right base idx count d) (\<lambda>d.
     res_bind (copy_into (base + idx * 2) (le_bytes 2 (word_of_nat new_offset :: u16)) d) (\<lambda>d.
     Ok (write_at 3 (le_bytes 2 (word_of_nat new_offset :: u16)) (write_at 1 (le_bytes 2 (word_of_nat (count + 1) :: u16)) d))))"

definition leaf_overflow_error :: kkdb_error where
  "leaf_overflow_error = CorruptDatabase ''leaf page overflow: cell_content_offset < cell size''"

definition write_cell_to_leaf :: "bytes \<Rightarrow> nat \<Rightarrow> nat \<Rightarrow> bytes \<Rightarrow> bytes res" where
  "write_cell_to_leaf cell idx count d =
     (if content_offset d < length cell then Err leaf_overflow_error
      else let new_offset = content_offset d - length cell in
        res_bind (copy_into new_offset cell d) (link_cell LEAF_HEADER_SIZE idx count new_offset))"

definition insert_cell_into_leaf :: "i64 \<Rightarrow> bytes \<Rightarrow> bytes \<Rightarrow> bytes res" where
  "insert_cell_into_leaf rowid cell d =
     res_bind (leaf_insert_index d (cell_count d) rowid) (\<lambda>idx. write_cell_to_leaf cell idx (cell_count d) d)"

text \<open>The fast paths write the fields of the cell one by one.\<close>

definition insert_cell_into_leaf_raw :: "i64 \<Rightarrow> bytes \<Rightarrow> bytes \<Rightarrow> bytes res" where
  "insert_cell_into_leaf_raw rowid payload d =
     res_bind (leaf_insert_index d (cell_count d) rowid) (\<lambda>idx.
     let cell_len = 12 + length payload in
     if content_offset d < cell_len then Err leaf_overflow_error
     else let new_offset = content_offset d - cell_len in
       res_bind (copy_into new_offset (le_bytes 4 (word_of_nat (length payload) :: u32)) d) (\<lambda>d1.
       res_bind (copy_into (new_offset + 4) (le_bytes 8 rowid) d1) (\<lambda>d2.
       res_bind (copy_into (new_offset + 12) payload d2) (\<lambda>d3.
       link_cell LEAF_HEADER_SIZE idx (cell_count d) new_offset d3))))"

definition insert_overflow_cell_raw :: "i64 \<Rightarrow> u32 \<Rightarrow> u32 \<Rightarrow> bytes \<Rightarrow> bytes res" where
  "insert_overflow_cell_raw rowid total_len first d =
     res_bind (leaf_insert_index d (cell_count d) rowid) (\<lambda>idx.
     if content_offset d < 20 then Err leaf_overflow_error
     else let new_offset = content_offset d - 20 in
       res_bind (copy_into new_offset (le_bytes 4 OVERFLOW_FLAG) d) (\<lambda>d1.
       res_bind (copy_into (new_offset + 4) (le_bytes 8 rowid) d1) (\<lambda>d2.
       res_bind (copy_into (new_offset + 12) (le_bytes 4 total_len) d2) (\<lambda>d3.
       res_bind (copy_into (new_offset + 16) (le_bytes 4 first) d3) (\<lambda>d4.
       link_cell LEAF_HEADER_SIZE idx (cell_count d) new_offset d4)))))"

definition insert_interior_cell :: "i64 \<Rightarrow> u32 \<Rightarrow> bytes \<Rightarrow> bytes res" where
  "insert_interior_cell key left d =
     res_bind (bsearch (interior_probe False d key) 0 (cell_count d)) (\<lambda>r.
     let idx = (case r of Inl i \<Rightarrow> i | Inr i \<Rightarrow> i); cell = make_interior_cell key left in
     if content_offset d < length cell
     then Err (CorruptDatabase ''interior page overflow: cell_content_offset < cell size'')
     else let new_offset = content_offset d - length cell in
       res_bind (copy_into new_offset cell d) (link_cell INTERIOR_HEADER_SIZE idx (cell_count d) new_offset))"

section \<open>Interior pages\<close>

definition find_child_page :: "bytes \<Rightarrow> i64 \<Rightarrow> u32 res" where
  "find_child_page d rowid =
     (if cell_count d = 0 then Ok (right_child d)
      else res_bind (bsearch (interior_probe True d rowid) 0 (cell_count d)) (\<lambda>r.
        let lo = (case r of Inl i \<Rightarrow> i | Inr i \<Rightarrow> i) in
        if lo < cell_count d
        then res_bind (rd16 d (INTERIOR_HEADER_SIZE + lo * 2)) (\<lambda>off.
             res_bind (validate_cell_offset off 4) (\<lambda>off. rd32 d off))
        else Ok (right_child d)))"

text \<open>The first cell with the divider key, from index \<open>i\<close> on, with \<open>n\<close> cells to go.\<close>

fun find_divider :: "bytes \<Rightarrow> i64 \<Rightarrow> nat \<Rightarrow> nat \<Rightarrow> nat option res" where
  "find_divider d key i 0 = Ok None"
| "find_divider d key i (Suc n) =
     res_bind (cell_key True d INTERIOR_HEADER_SIZE i) (\<lambda>k. if k = key then Ok (Some i) else find_divider d key (i + 1) n)"

definition replace_child_pointer :: "i64 \<Rightarrow> u32 \<Rightarrow> bytes \<Rightarrow> bytes res" where
  "replace_child_pointer divider new_page d =
     res_bind (find_divider d divider 0 (cell_count d)) (\<lambda>r. case r of
         None \<Rightarrow> Err (BTreeError ''divider key not found after insert'')
       | Some i \<Rightarrow>
           if i + 1 < cell_count d
           then res_bind (rd16 d (INTERIOR_HEADER_SIZE + (i + 1) * 2)) (\<lambda>off. copy_into off (le_bytes 4 new_page) d)
           else Ok (write_at 6 (le_bytes 4 new_page) d))"

section \<open>Removing a cell\<close>

text \<open>\<^verbatim>\<open>for i in mid..cell_count - 1\<close>: moving the pointers down by one, \<open>n\<close> of them.\<close>

fun shift_left :: "nat \<Rightarrow> nat \<Rightarrow> nat \<Rightarrow> bytes \<Rightarrow> bytes res" where
  "shift_left base i 0 d = Ok d"
| "shift_left base i (Suc n) d =
     res_bind (rd16 d (base + (i + 1) * 2)) (\<lambda>v.
     res_bind (copy_into (base + i * 2) (le_bytes 2 (word_of_nat v :: u16)) d) (\<lambda>d.
     shift_left base (i + 1) n d))"

text \<open>
  The leaf part of the deletion. The result says whether the rowid was there, and gives the first page of its
  overflow chain if it has one.
\<close>

definition delete_from_leaf :: "i64 \<Rightarrow> bytes \<Rightarrow> ((bool \<times> u32 option) \<times> bytes) res" where
  "delete_from_leaf rowid d =
     res_bind (bsearch (leaf_probe True d rowid) 0 (cell_count d)) (\<lambda>r. case r of
         Inr _ \<Rightarrow> Ok ((False, None), d)
       | Inl mid \<Rightarrow>
           res_bind (rd16 d (LEAF_HEADER_SIZE + mid * 2)) (\<lambda>off.
           res_bind (rd32 d off) (\<lambda>raw.
           res_bind (if raw AND OVERFLOW_FLAG \<noteq> 0 then res_bind (rd32 d (off + 16)) (\<lambda>p. Ok (Some p)) else Ok None) (\<lambda>first.
           res_bind (shift_left LEAF_HEADER_SIZE mid (cell_count d - 1 - mid) d) (\<lambda>d1.
           Ok ((True, first), write_at 1 (le_bytes 2 (word_of_nat (cell_count d - 1) :: u16)) d1))))))"

text \<open>The offset and the size field of the cell with a rowid.\<close>

definition find_in_leaf :: "i64 \<Rightarrow> bytes \<Rightarrow> (nat \<times> u32) option res" where
  "find_in_leaf rowid d =
     res_bind (bsearch (leaf_probe True d rowid) 0 (cell_count d)) (\<lambda>r. case r of
         Inr _ \<Rightarrow> Ok None
       | Inl mid \<Rightarrow>
           res_bind (rd16 d (LEAF_HEADER_SIZE + mid * 2)) (\<lambda>off.
           res_bind (rd32 d off) (\<lambda>raw. Ok (Some (off, raw)))))"

section \<open>Collecting the cells\<close>

text \<open>The raw cells of a leaf, as \<^verbatim>\<open>split_leaf\<close> collects them.\<close>

fun collect_leaf_cells :: "bytes \<Rightarrow> nat \<Rightarrow> nat \<Rightarrow> (i64 \<times> bytes) list res" where
  "collect_leaf_cells d i 0 = Ok []"
| "collect_leaf_cells d i (Suc n) =
     res_bind (rd16 d (LEAF_HEADER_SIZE + i * 2)) (\<lambda>off.
     res_bind (validate_cell_offset off 12) (\<lambda>off.
     res_bind (rd32 d off) (\<lambda>raw.
     res_bind (rd64 d (off + 4)) (\<lambda>rid.
     let cell_len = (if raw AND OVERFLOW_FLAG \<noteq> 0 then 20 else 12 + unat raw) in
     res_bind (validate_cell_offset off cell_len) (\<lambda>off.
     res_bind (slice_range d off (off + cell_len)) (\<lambda>cell.
     res_bind (collect_leaf_cells d (i + 1) n) (\<lambda>rest. Ok ((rid, cell) # rest))))))))"

text \<open>The children and dividers of an interior page, as \<^verbatim>\<open>split_interior\<close> collects them.\<close>

fun collect_interior_cells :: "bytes \<Rightarrow> nat \<Rightarrow> nat \<Rightarrow> (u32 \<times> i64) list res" where
  "collect_interior_cells d i 0 = Ok []"
| "collect_interior_cells d i (Suc n) =
     res_bind (rd16 d (INTERIOR_HEADER_SIZE + i * 2)) (\<lambda>off.
     res_bind (validate_cell_offset off 12) (\<lambda>off.
     res_bind (rd32 d off) (\<lambda>child.
     res_bind (rd64 d (off + 4)) (\<lambda>key.
     res_bind (collect_interior_cells d (i + 1) n) (\<lambda>rest. Ok ((child, key) # rest))))))"

end
