(* ===== verification/BTree.thy ===== *)
theory BTree
  imports BTreePage PrefixCompress
begin

text \<open>
  The B+tree of \<^verbatim>\<open>src/src/storage/btree.rs\<close> on the pager: overflow chains, insertion with splits of leaf and
  interior pages, lookup, deletion, update, scans along the linked leaves in both directions, counting,
  fragmentation statistics and defragmentation. The pages themselves are in theory \<open>BTreePage\<close>. A descent or a
  walk along linked pages is cut after as many pages as the database has, with the outcome \<open>Panic\<close>: it would
  visit a page twice, which in the source ends in an exhausted stack or in no end at all.
\<close>

section \<open>Access to pages\<close>

definition op_lift :: "'a res \<Rightarrow> (pager, 'a) op" where
  "op_lift r = (\<lambda>pg. (r, pg))"

text \<open>A change of a page through its mutable reference, with a result; a failing change leaves the page.\<close>

definition edit_page :: "lz4 \<Rightarrow> u32 \<Rightarrow> (bytes \<Rightarrow> ('a \<times> bytes) res) \<Rightarrow> (pager, 'a) op" where
  "edit_page z n f =
     op_bind (get_page_mut z n) (\<lambda>_. op_get (\<lambda>pg.
     op_bind (op_lift (f (pdata (pages pg ! page_idx n)))) (\<lambda>(a, d).
     op_bind (write_page_data n (\<lambda>_. d)) (\<lambda>_. op_return a))))"

definition update_page_res :: "lz4 \<Rightarrow> u32 \<Rightarrow> (bytes \<Rightarrow> bytes res) \<Rightarrow> (pager, unit) op" where
  "update_page_res z n f = edit_page z n (\<lambda>d. res_bind (f d) (\<lambda>d'. Ok ((), d')))"

fun op_map :: "('a \<Rightarrow> (pager, 'b) op) \<Rightarrow> 'a list \<Rightarrow> (pager, 'b list) op" where
  "op_map f [] = op_return []"
| "op_map f (x # xs) = op_bind (f x) (\<lambda>y. op_bind (op_map f xs) (\<lambda>ys. op_return (y # ys)))"

text \<open>The number of pages of the database, the bound of every walk.\<close>

definition with_bound :: "(nat \<Rightarrow> (pager, 'a) op) \<Rightarrow> (pager, 'a) op" where
  "with_bound f = op_get (\<lambda>pg. f (unat (total_pages (header pg)) + 1))"

section \<open>Tables and overflow chains\<close>

definition create_table :: "lz4 \<Rightarrow> (pager, u32) op" where
  "create_table z =
     op_bind (allocate_page z) (\<lambda>n.
     op_bind (modify_page z n init_leaf_page) (\<lambda>_. op_return n))"

function chunks :: "nat \<Rightarrow> 'a list \<Rightarrow> 'a list list" where
  "chunks n xs = (if n = 0 \<or> xs = [] then [] else take n xs # chunks n (drop n xs))"
  by pat_completeness auto
termination
  by (relation "measure (\<lambda>(_, xs). length xs)") auto

declare chunks.simps [simp del]

definition overflow_data :: "u32 \<Rightarrow> bytes \<Rightarrow> bytes \<Rightarrow> bytes" where
  "overflow_data next_page chunk d =
     (let d1 = write_at 4 chunk (write_at 0 (le_bytes 4 next_page) d) in
      if next_page = 0 \<and> length chunk < OVERFLOW_DATA_SIZE
      then write_at (4 + length chunk) (replicate (PAGE_SIZE - (4 + length chunk)) 0) d1 else d1)"

fun write_chunks :: "lz4 \<Rightarrow> u32 \<Rightarrow> bytes list \<Rightarrow> (pager, unit) op" where
  "write_chunks z cur [] = op_return ()"
| "write_chunks z cur [c] = modify_page z cur (overflow_data 0 c)"
| "write_chunks z cur (c # c' # cs) =
     op_bind (allocate_page z) (\<lambda>next_page.
     op_bind (modify_page z cur (overflow_data next_page c)) (\<lambda>_. write_chunks z next_page (c' # cs)))"

definition write_overflow_chain :: "lz4 \<Rightarrow> bytes \<Rightarrow> (pager, u32) op" where
  "write_overflow_chain z payload =
     op_bind (allocate_page z) (\<lambda>first_page.
     op_bind (write_chunks z first_page (chunks OVERFLOW_DATA_SIZE payload)) (\<lambda>_. op_return first_page))"

text \<open>Following a chain. Each page adds at least one byte, so the missing bytes bound the number of pages.\<close>

primrec follow_chain :: "nat \<Rightarrow> lz4 \<Rightarrow> u32 \<Rightarrow> nat \<Rightarrow> bytes \<Rightarrow> (pager, bytes) op" where
  "follow_chain 0 z cur total_len acc = op_return acc"
| "follow_chain (Suc left) z cur total_len acc =
     (if cur = 0 \<or> total_len \<le> length acc then op_return acc
      else op_bind (get_page z cur) (\<lambda>d.
        follow_chain left z (u32_at d 0) total_len (acc @ sub_bytes d 4 (min (total_len - length acc) OVERFLOW_DATA_SIZE))))"

definition read_cell_payload :: "lz4 \<Rightarrow> u32 \<Rightarrow> nat \<Rightarrow> bytes \<Rightarrow> (pager, bytes) op" where
  "read_cell_payload z raw start d =
     (if raw AND OVERFLOW_FLAG = 0 then
        if length d < start + unat raw
        then op_fail (CorruptDatabase (''inline payload extends beyond page boundary: offset '' @ show_nat start @ '' + len ''
               @ show_nat (unat raw) @ '' > page_size '' @ show_nat (length d)))
        else op_return (sub_bytes d start (unat raw))
      else let inline_len = unat (raw AND NOT OVERFLOW_FLAG) in
        if length d < start + 8 then op_fail (CorruptDatabase ''overflow header extends beyond page boundary'')
        else if length d < start + 8 + inline_len then op_fail (CorruptDatabase ''overflow inline bytes extend beyond page boundary'')
        else let total_len = unat (u32_at d start) in
          follow_chain total_len z (u32_at d (start + 4)) total_len (sub_bytes d (start + 8) inline_len))"

primrec free_chain :: "nat \<Rightarrow> lz4 \<Rightarrow> u32 \<Rightarrow> (pager, unit) op" where
  "free_chain 0 z cur = (if cur = 0 then op_return () else op_lift Panic)"
| "free_chain (Suc left) z cur =
     (if cur = 0 then op_return ()
      else op_bind (get_page z cur) (\<lambda>d. op_bind (free_page z cur) (\<lambda>_. free_chain left z (u32_at d 0))))"

definition free_overflow_chain :: "lz4 \<Rightarrow> u32 \<Rightarrow> (pager, unit) op" where
  "free_overflow_chain z first_page = with_bound (\<lambda>n. free_chain n z first_page)"

section \<open>Insertion\<close>

datatype insert_result = Done | Split i64 u32

fun fill_leaf :: "lz4 \<Rightarrow> u32 \<Rightarrow> (i64 \<times> bytes) list \<Rightarrow> (pager, unit) op" where
  "fill_leaf z n [] = op_return ()"
| "fill_leaf z n ((rid, cell) # cells) =
     op_bind (update_page_res z n (insert_cell_into_leaf rid cell)) (\<lambda>_. fill_leaf z n cells)"

fun fill_interior :: "lz4 \<Rightarrow> u32 \<Rightarrow> (u32 \<times> i64) list \<Rightarrow> (pager, unit) op" where
  "fill_interior z n [] = op_return ()"
| "fill_interior z n ((child, key) # cells) =
     op_bind (update_page_res z n (insert_interior_cell key child)) (\<lambda>_. fill_interior z n cells)"

text \<open>The cells of a split with the new one in place, and where they are divided.\<close>

definition split_position :: "('a \<Rightarrow> i64) \<Rightarrow> i64 \<Rightarrow> 'a list \<Rightarrow> nat" where
  "split_position key k xs = length (takeWhile (\<lambda>x. \<not> sint k < sint (key x)) xs)"

definition split_mid :: "nat \<Rightarrow> nat \<Rightarrow> nat" where
  "split_mid n insert_pos = (if insert_pos = n - 1 then n - 1 else n div 2)"

definition split_leaf :: "lz4 \<Rightarrow> u32 \<Rightarrow> i64 \<Rightarrow> bytes \<Rightarrow> (pager, insert_result) op" where
  "split_leaf z n rowid cell =
     op_bind (get_page z n) (\<lambda>d1. let old_next = get_next_leaf d1 in
     op_bind (get_page z n) (\<lambda>d2. let old_prev = get_prev_leaf d2 in
     op_bind (get_page z n) (\<lambda>d.
     op_bind (op_lift (collect_leaf_cells d 0 (cell_count d))) (\<lambda>old.
     let pos = split_position fst rowid old; cells = list_insert pos (rowid, cell) old;
         mid = split_mid (length cells) pos; divider = fst (cells ! mid) in
     op_bind (modify_page z n init_leaf_page) (\<lambda>_.
     op_bind (fill_leaf z n (take mid cells)) (\<lambda>_.
     op_bind (allocate_page z) (\<lambda>right.
     op_bind (modify_page z right init_leaf_page) (\<lambda>_.
     op_bind (fill_leaf z right (drop mid cells)) (\<lambda>_.
     op_bind (modify_page z n (set_next_leaf right)) (\<lambda>_.
     op_bind (modify_page z n (set_prev_leaf old_prev)) (\<lambda>_.
     op_bind (modify_page z right (set_next_leaf old_next)) (\<lambda>_.
     op_bind (modify_page z right (set_prev_leaf n)) (\<lambda>_.
     op_bind (if old_next \<noteq> 0 then modify_page z old_next (set_prev_leaf right) else op_return ()) (\<lambda>_.
     op_return (Split divider right)))))))))))))))"

text \<open>The children and dividers of a split interior page: the entries, the last child.\<close>

definition interior_entries :: "i64 \<Rightarrow> u32 \<Rightarrow> u32 \<Rightarrow> (u32 \<times> i64) list \<Rightarrow> u32 \<Rightarrow> (u32 \<times> i64) list \<times> u32" where
  "interior_entries new_key left right old old_right =
     (let pos = split_position snd new_key old; cells = list_insert pos (left, new_key) old in
      if pos + 1 < length cells then (cells[pos + 1 := (right, snd (cells ! (pos + 1)))], old_right)
      else (cells, right))"

definition split_interior :: "lz4 \<Rightarrow> u32 \<Rightarrow> i64 \<Rightarrow> u32 \<Rightarrow> u32 \<Rightarrow> (pager, insert_result) op" where
  "split_interior z n new_key left right =
     op_bind (get_page z n) (\<lambda>d.
     op_bind (op_lift (collect_interior_cells d 0 (cell_count d))) (\<lambda>old.
     let (cells, final_right) = interior_entries new_key left right old (right_child d);
         mid = split_mid (length cells) (split_position snd new_key old) in
     op_bind (modify_page z n (init_interior_page (fst (cells ! mid)))) (\<lambda>_.
     op_bind (fill_interior z n (take mid cells)) (\<lambda>_.
     op_bind (allocate_page z) (\<lambda>new_page.
     op_bind (modify_page z new_page (init_interior_page final_right)) (\<lambda>_.
     op_bind (fill_interior z new_page (drop (mid + 1) cells)) (\<lambda>_.
     op_return (Split (snd (cells ! mid)) new_page))))))))"

definition insert_into_leaf :: "lz4 \<Rightarrow> u32 \<Rightarrow> bytes \<Rightarrow> i64 \<Rightarrow> bytes \<Rightarrow> (pager, insert_result) op" where
  "insert_into_leaf z n d rowid payload =
     (let needs_overflow = MAX_INLINE_PAYLOAD < length payload;
          cell_len = (if needs_overflow then 12 + 8 else 12 + length payload);
          available = content_offset d - (LEAF_HEADER_SIZE + cell_count d * 2) in
      if cell_len + 2 \<le> available then
        op_bind
          (if needs_overflow
           then op_bind (write_overflow_chain z payload) (\<lambda>first.
                update_page_res z n (insert_overflow_cell_raw rowid (word_of_nat (length payload)) first))
           else update_page_res z n (insert_cell_into_leaf_raw rowid payload)) (\<lambda>_. op_return Done)
      else
        op_bind
          (if needs_overflow
           then op_bind (write_overflow_chain z payload) (\<lambda>first.
                op_return (make_overflow_cell rowid (word_of_nat (length payload)) first))
           else op_return (make_leaf_cell rowid payload)) (split_leaf z n rowid))"

definition invalid_page_type :: "string \<Rightarrow> u8 \<Rightarrow> kkdb_error" where
  "invalid_page_type what t = BTreeError (what @ '' page type: 0x'' @ show_hex2 t)"

text \<open>What an interior page does with the split of a child.\<close>

definition insert_divider :: "lz4 \<Rightarrow> u32 \<Rightarrow> u32 \<Rightarrow> i64 \<Rightarrow> u32 \<Rightarrow> (pager, insert_result) op" where
  "insert_divider z n child divider new_page =
     op_bind (get_page z n) (\<lambda>d.
     if 12 + 2 \<le> content_offset d - (INTERIOR_HEADER_SIZE + cell_count d * 2) then
       op_bind (update_page_res z n (insert_interior_cell divider child)) (\<lambda>_.
       op_bind (update_page_res z n (replace_child_pointer divider new_page)) (\<lambda>_. op_return Done))
     else split_interior z n divider child new_page)"

primrec insert_into_page :: "nat \<Rightarrow> lz4 \<Rightarrow> u32 \<Rightarrow> i64 \<Rightarrow> bytes \<Rightarrow> (pager, insert_result) op" where
  "insert_into_page 0 z n rowid payload = op_lift Panic"
| "insert_into_page (Suc left) z n rowid payload =
     (if 2 ^ 32 - 1 < length payload
      then op_fail (BTreeError (''payload too large: '' @ show_nat (length payload) @ '' bytes exceeds u32::MAX''))
      else op_bind (get_page z n) (\<lambda>d.
        if page_type d = LEAF_TABLE then insert_into_leaf z n d rowid payload
        else if page_type d = INTERIOR_TABLE then
          op_bind (get_page z n) (\<lambda>d'.
          op_bind (op_lift (find_child_page d' rowid)) (\<lambda>child.
          op_bind (insert_into_page left z child rowid payload) (\<lambda>r. case r of
              Done \<Rightarrow> op_return Done
            | Split divider new_page \<Rightarrow> insert_divider z n child divider new_page)))
        else op_fail (invalid_page_type ''invalid'' (page_type d))))"

text \<open>A split of the root makes a new root above it.\<close>

definition new_root :: "lz4 \<Rightarrow> u32 \<Rightarrow> i64 \<Rightarrow> u32 \<Rightarrow> (pager, u32) op" where
  "new_root z root divider new_page =
     op_bind (allocate_page z) (\<lambda>n.
     op_bind (modify_page z n (init_interior_page new_page)) (\<lambda>_.
     op_bind (update_page_res z n (insert_interior_cell divider root)) (\<lambda>_. op_return n)))"

definition insert_payload :: "lz4 \<Rightarrow> u32 \<Rightarrow> i64 \<Rightarrow> bytes \<Rightarrow> (pager, u32) op" where
  "insert_payload z root rowid payload =
     op_bind (with_bound (\<lambda>n. insert_into_page n z root rowid payload)) (\<lambda>r. case r of
         Done \<Rightarrow> op_return root
       | Split divider new_page \<Rightarrow> new_root z root divider new_page)"

definition btree_insert :: "lz4 \<Rightarrow> u32 \<Rightarrow> i64 \<Rightarrow> row \<Rightarrow> (pager, u32) op" where
  "btree_insert z root rowid row = insert_payload z root rowid (serialize_row row)"

definition insert_with_buf :: "lz4 \<Rightarrow> u32 \<Rightarrow> i64 \<Rightarrow> row \<Rightarrow> bytes \<Rightarrow> (pager, u32 \<times> bytes) op" where
  "insert_with_buf z root rowid row buf =
     (let buf' = serialize_row_into row buf in
      op_bind (insert_payload z root rowid buf') (\<lambda>root'. op_return (root', buf')))"

definition insert_compressed :: "lz4 \<Rightarrow> u32 \<Rightarrow> i64 \<Rightarrow> row \<Rightarrow> bytes \<Rightarrow> (pager, u32 \<times> bytes) op" where
  "insert_compressed z root rowid row prev =
     (let (payload, new_prev) = serialize_index_row_compressed row prev in
      op_bind (with_bound (\<lambda>n. insert_into_page n z root rowid payload)) (\<lambda>r. case r of
          Done \<Rightarrow> op_return (root, new_prev)
        | Split divider new_page \<Rightarrow>
            op_bind (new_root z root divider new_page) (\<lambda>_.
            op_fail (BTreeError (''page split occurred during prefix-compressed insert; compressed index may be corrupt ''
               @ [CHR 0xE2, CHR 0x80, CHR 0x94] @ '' rebuild the index'')))))"

section \<open>Lookup\<close>

primrec find_row :: "nat \<Rightarrow> lz4 \<Rightarrow> u32 \<Rightarrow> i64 \<Rightarrow> (pager, (i64 \<times> row) option) op" where
  "find_row 0 z n target = op_lift Panic"
| "find_row (Suc left) z n target =
     op_bind (get_page z n) (\<lambda>d.
     if page_type d = LEAF_TABLE then
       op_bind (op_lift (find_in_leaf target d)) (\<lambda>r. case r of
           None \<Rightarrow> op_return None
         | Some (off, raw) \<Rightarrow>
             op_bind (get_page z n) (\<lambda>d2.
             op_bind (read_cell_payload z raw (off + 12) d2) (\<lambda>payload.
             op_bind (op_lift (deserialize_row payload)) (\<lambda>row. op_return (Some (target, row))))))
     else if page_type d = INTERIOR_TABLE then
       op_bind (get_page z n) (\<lambda>d2.
       op_bind (op_lift (find_child_page d2 target)) (\<lambda>child. find_row left z child target))
     else op_fail (invalid_page_type ''unexpected'' (page_type d)))"

definition find_by_rowid :: "lz4 \<Rightarrow> u32 \<Rightarrow> i64 \<Rightarrow> (pager, (i64 \<times> row) option) op" where
  "find_by_rowid z root target = with_bound (\<lambda>n. find_row n z root target)"

section \<open>Deletion and update\<close>

primrec delete_from_page :: "nat \<Rightarrow> lz4 \<Rightarrow> u32 \<Rightarrow> i64 \<Rightarrow> (pager, bool) op" where
  "delete_from_page 0 z n target = op_lift Panic"
| "delete_from_page (Suc left) z n target =
     op_bind (get_page z n) (\<lambda>d.
     if page_type d = LEAF_TABLE then
       op_bind (edit_page z n (delete_from_leaf target)) (\<lambda>(deleted, first).
         case first of
           None \<Rightarrow> op_return deleted
         | Some p \<Rightarrow> op_bind (free_overflow_chain z p) (\<lambda>_. op_return deleted))
     else if page_type d = INTERIOR_TABLE then
       op_bind (get_page z n) (\<lambda>d2.
       op_bind (op_lift (find_child_page d2 target)) (\<lambda>child. delete_from_page left z child target))
     else op_fail (invalid_page_type ''unexpected'' (page_type d)))"

definition delete_by_rowid :: "lz4 \<Rightarrow> u32 \<Rightarrow> i64 \<Rightarrow> (pager, bool \<times> u32) op" where
  "delete_by_rowid z root target =
     op_bind (with_bound (\<lambda>n. delete_from_page n z root target)) (\<lambda>deleted. op_return (deleted, root))"

definition update_row :: "lz4 \<Rightarrow> u32 \<Rightarrow> i64 \<Rightarrow> row \<Rightarrow> (pager, u32) op" where
  "update_row z root rowid row =
     op_bind (delete_by_rowid z root rowid) (\<lambda>(_, current_root). btree_insert z current_root rowid row)"

definition update_row_with_buf :: "lz4 \<Rightarrow> u32 \<Rightarrow> i64 \<Rightarrow> row \<Rightarrow> bytes \<Rightarrow> (pager, u32 \<times> bytes) op" where
  "update_row_with_buf z root rowid row buf =
     op_bind (delete_by_rowid z root rowid) (\<lambda>(_, current_root). insert_with_buf z current_root rowid row buf)"

section \<open>Scans\<close>

primrec leftmost_leaf :: "nat \<Rightarrow> lz4 \<Rightarrow> u32 \<Rightarrow> (pager, u32) op" where
  "leftmost_leaf 0 z cur = op_lift Panic"
| "leftmost_leaf (Suc left) z cur =
     op_bind (get_page z cur) (\<lambda>d.
     if page_type d = LEAF_TABLE then op_return cur
     else op_bind (op_lift
            (if 0 < cell_count d
             then res_bind (rd16 d INTERIOR_HEADER_SIZE) (\<lambda>off. res_bind (validate_cell_offset off 4) (rd32 d))
             else Ok (right_child d))) (leftmost_leaf left z))"

definition find_leftmost_leaf :: "lz4 \<Rightarrow> u32 \<Rightarrow> (pager, u32) op" where
  "find_leftmost_leaf z root = with_bound (\<lambda>n. leftmost_leaf n z root)"

primrec rightmost_leaf :: "nat \<Rightarrow> lz4 \<Rightarrow> u32 \<Rightarrow> (pager, u32) op" where
  "rightmost_leaf 0 z n = op_lift Panic"
| "rightmost_leaf (Suc left) z n =
     op_bind (get_page z n) (\<lambda>d.
     if page_type d = LEAF_TABLE then op_return n
     else if page_type d = INTERIOR_TABLE then rightmost_leaf left z (right_child d)
     else op_fail (invalid_page_type ''unexpected'' (page_type d)))"

definition find_rightmost_leaf :: "lz4 \<Rightarrow> u32 \<Rightarrow> (pager, u32) op" where
  "find_rightmost_leaf z root = with_bound (\<lambda>n. rightmost_leaf n z root)"

text \<open>One cell of a leaf; \<open>needed\<close> bytes of it are validated first (none for \<open>0\<close>).\<close>

definition cell_at :: "nat \<Rightarrow> bytes \<Rightarrow> nat \<Rightarrow> (nat \<times> u32) res" where
  "cell_at needed d i =
     res_bind (rd16 d (LEAF_HEADER_SIZE + i * 2)) (\<lambda>off.
     res_bind (if needed = 0 then Ok off else validate_cell_offset off needed) (\<lambda>off.
     res_bind (rd32 d off) (\<lambda>raw. Ok (off, raw))))"

definition scan_row :: "lz4 \<Rightarrow> nat \<Rightarrow> bytes \<Rightarrow> nat \<Rightarrow> (pager, row) op" where
  "scan_row z needed d i =
     op_bind (op_lift (cell_at needed d i)) (\<lambda>(off, raw).
     op_bind (read_cell_payload z raw (off + 12) d) (\<lambda>payload. op_lift (deserialize_row payload)))"

definition scan_entry :: "lz4 \<Rightarrow> nat \<Rightarrow> bytes \<Rightarrow> nat \<Rightarrow> (pager, i64 \<times> row) op" where
  "scan_entry z needed d i =
     op_bind (op_lift (cell_at needed d i)) (\<lambda>(off, raw).
     op_bind (op_lift (rd64 d (off + 4))) (\<lambda>rowid.
     op_bind (read_cell_payload z raw (off + 12) d) (\<lambda>payload.
     op_bind (op_lift (deserialize_row payload)) (\<lambda>row. op_return (rowid, row)))))"

text \<open>Walking along the leaves: what a leaf gives, and which leaf comes next.\<close>

primrec walk_leaves :: "nat \<Rightarrow> lz4 \<Rightarrow> (bytes \<Rightarrow> (pager, 'a list) op) \<Rightarrow> (bytes \<Rightarrow> u32) \<Rightarrow> u32 \<Rightarrow> (pager, 'a list) op" where
  "walk_leaves 0 z items next_leaf cur = (if cur = 0 then op_return [] else op_lift Panic)"
| "walk_leaves (Suc left) z items next_leaf cur =
     (if cur = 0 then op_return []
      else op_bind (get_page z cur) (\<lambda>d.
        op_bind (items d) (\<lambda>xs.
        op_bind (walk_leaves left z items next_leaf (next_leaf d)) (\<lambda>ys. op_return (xs @ ys)))))"

definition scan_all :: "lz4 \<Rightarrow> u32 \<Rightarrow> (pager, (i64 \<times> row) list) op" where
  "scan_all z root =
     op_bind (find_leftmost_leaf z root) (\<lambda>leaf.
     with_bound (\<lambda>n. walk_leaves n z (\<lambda>d. op_map (scan_entry z 0 d) [0..<cell_count d]) get_next_leaf leaf))"

definition scan_rows :: "lz4 \<Rightarrow> u32 \<Rightarrow> (pager, row list) op" where
  "scan_rows z root =
     op_bind (find_leftmost_leaf z root) (\<lambda>leaf.
     with_bound (\<lambda>n. walk_leaves n z (\<lambda>d. op_map (scan_row z 4 d) [0..<cell_count d]) get_next_leaf leaf))"

definition scan_all_reverse :: "lz4 \<Rightarrow> u32 \<Rightarrow> (pager, (i64 \<times> row) list) op" where
  "scan_all_reverse z root =
     op_bind (find_rightmost_leaf z root) (\<lambda>leaf.
     with_bound (\<lambda>n. walk_leaves n z (\<lambda>d. op_map (scan_entry z 12 d) (rev [0..<cell_count d])) get_prev_leaf leaf))"

text \<open>With a limit: the scan stops at the first cell that would exceed it.\<close>

fun take_cells :: "(nat \<Rightarrow> (pager, 'a) op) \<Rightarrow> nat list \<Rightarrow> nat \<Rightarrow> (pager, 'a list \<times> bool) op" where
  "take_cells item [] limit = op_return ([], False)"
| "take_cells item (i # is) limit =
     (if limit = 0 then op_return ([], True)
      else op_bind (item i) (\<lambda>x. op_bind (take_cells item is (limit - 1)) (\<lambda>(xs, stop). op_return (x # xs, stop))))"

primrec walk_leaves_limit ::
    "nat \<Rightarrow> lz4 \<Rightarrow> (bytes \<Rightarrow> nat \<Rightarrow> (pager, 'a) op) \<Rightarrow> (bytes \<Rightarrow> nat list) \<Rightarrow> (bytes \<Rightarrow> u32) \<Rightarrow> u32 \<Rightarrow> nat \<Rightarrow> (pager, 'a list) op" where
  "walk_leaves_limit 0 z item order next_leaf cur limit = (if cur = 0 then op_return [] else op_lift Panic)"
| "walk_leaves_limit (Suc left) z item order next_leaf cur limit =
     (if cur = 0 then op_return []
      else op_bind (get_page z cur) (\<lambda>d.
        op_bind (take_cells (item d) (order d) limit) (\<lambda>(xs, stop).
        if stop then op_return xs
        else op_bind (walk_leaves_limit left z item order next_leaf (next_leaf d) (limit - length xs)) (\<lambda>ys. op_return (xs @ ys)))))"

definition scan_rows_limit :: "lz4 \<Rightarrow> u32 \<Rightarrow> nat \<Rightarrow> (pager, row list) op" where
  "scan_rows_limit z root limit =
     op_bind (find_leftmost_leaf z root) (\<lambda>leaf.
     with_bound (\<lambda>n. walk_leaves_limit n z (scan_row z 4) (\<lambda>d. [0..<cell_count d]) get_next_leaf leaf limit))"

definition scan_rows_reverse_limit :: "lz4 \<Rightarrow> u32 \<Rightarrow> nat \<Rightarrow> (pager, row list) op" where
  "scan_rows_reverse_limit z root limit =
     op_bind (find_rightmost_leaf z root) (\<lambda>leaf.
     with_bound (\<lambda>n. walk_leaves_limit n z (scan_row z 4) (\<lambda>d. rev [0..<cell_count d]) get_prev_leaf leaf limit))"

text \<open>The scan of a prefix-compressed index; the previous key starts empty on every leaf.\<close>

fun scan_compressed_cells :: "lz4 \<Rightarrow> bytes \<Rightarrow> nat list \<Rightarrow> bytes \<Rightarrow> (pager, (i64 \<times> row) list) op" where
  "scan_compressed_cells z d [] prev = op_return []"
| "scan_compressed_cells z d (i # is) prev =
     op_bind (op_lift (cell_at 12 d i)) (\<lambda>(off, raw).
     op_bind (op_lift (rd64 d (off + 4))) (\<lambda>rowid.
     op_bind (read_cell_payload z raw (off + 12) d) (\<lambda>payload.
     op_bind (op_lift (deserialize_index_row_with_prefix payload prev)) (\<lambda>(row, new_prev).
     op_bind (scan_compressed_cells z d is new_prev) (\<lambda>rest. op_return ((rowid, row) # rest))))))"

definition scan_all_compressed :: "lz4 \<Rightarrow> u32 \<Rightarrow> (pager, (i64 \<times> row) list) op" where
  "scan_all_compressed z root =
     op_bind (find_leftmost_leaf z root) (\<lambda>leaf.
     with_bound (\<lambda>n. walk_leaves n z (\<lambda>d. scan_compressed_cells z d [0..<cell_count d] []) get_next_leaf leaf))"

section \<open>Counting and the largest rowid\<close>

primrec max_rowid_from :: "nat \<Rightarrow> lz4 \<Rightarrow> u32 \<Rightarrow> (pager, i64) op" where
  "max_rowid_from 0 z n = op_lift Panic"
| "max_rowid_from (Suc left) z n =
     op_bind (get_page z n) (\<lambda>d.
     if page_type d = LEAF_TABLE then
       if cell_count d = 0 then op_return 0
       else op_lift (cell_key True d LEAF_HEADER_SIZE (cell_count d - 1))
     else if page_type d = INTERIOR_TABLE then max_rowid_from left z (right_child d)
     else op_fail (invalid_page_type ''unexpected'' (page_type d)))"

definition max_rowid :: "lz4 \<Rightarrow> u32 \<Rightarrow> (pager, i64) op" where
  "max_rowid z root = with_bound (\<lambda>n. max_rowid_from n z root)"

definition MAX_INTERIOR_CHILDREN :: nat where
  "MAX_INTERIOR_CHILDREN = (PAGE_SIZE - INTERIOR_HEADER_SIZE) div 14 + 2"

fun left_children :: "bytes \<Rightarrow> nat \<Rightarrow> nat \<Rightarrow> u32 list res" where
  "left_children d i 0 = Ok []"
| "left_children d i (Suc n) =
     res_bind (rd16 d (INTERIOR_HEADER_SIZE + i * 2)) (\<lambda>off.
     res_bind (validate_cell_offset off 4) (\<lambda>off.
     res_bind (rd32 d off) (\<lambda>child.
     res_bind (left_children d (i + 1) n) (\<lambda>rest. Ok (child # rest)))))"

text \<open>All children, in an array of fixed size whose bound the last write checks.\<close>

definition count_children :: "bytes \<Rightarrow> u32 list res" where
  "count_children d =
     res_bind (left_children d 0 (min (cell_count d) MAX_INTERIOR_CHILDREN)) (\<lambda>cs.
     if MAX_INTERIOR_CHILDREN \<le> cell_count d then Panic else Ok (cs @ [right_child d]))"

primrec count_rows_from :: "nat \<Rightarrow> lz4 \<Rightarrow> u32 \<Rightarrow> (pager, nat) op" where
  "count_rows_from 0 z n = op_lift Panic"
| "count_rows_from (Suc left) z n =
     op_bind (get_page z n) (\<lambda>d.
     if page_type d = LEAF_TABLE then op_return (cell_count d)
     else if page_type d = INTERIOR_TABLE then
       op_bind (op_lift (count_children d)) (\<lambda>cs.
       op_bind (op_map (count_rows_from left z) cs) (\<lambda>ns. op_return (sum_list ns)))
     else op_return 0)"

definition count_rows :: "lz4 \<Rightarrow> u32 \<Rightarrow> (pager, nat) op" where
  "count_rows z root = with_bound (\<lambda>n. count_rows_from n z root)"

section \<open>Fragmentation\<close>

record frag_stats =
  fs_leaves :: nat
  fs_frag :: nat
  fs_overflow :: nat
  fs_free :: nat

primrec overflow_length :: "nat \<Rightarrow> lz4 \<Rightarrow> u32 \<Rightarrow> (pager, nat) op" where
  "overflow_length 0 z cur = (if cur = 0 then op_return 0 else op_lift Panic)"
| "overflow_length (Suc left) z cur =
     (if cur = 0 then op_return 0
      else op_bind (get_page z cur) (\<lambda>d. op_bind (overflow_length left z (u32_at d 0)) (\<lambda>n. op_return (n + 1))))"

definition count_overflow_pages :: "lz4 \<Rightarrow> u32 \<Rightarrow> (pager, nat) op" where
  "count_overflow_pages z first_page = with_bound (\<lambda>n. overflow_length n z first_page)"

text \<open>The first overflow pages of a leaf as the statistics find them: cell \<open>i\<close> of \<open>n\<close> that are left.\<close>

fun overflow_starts :: "bytes \<Rightarrow> nat \<Rightarrow> nat \<Rightarrow> u32 list" where
  "overflow_starts d i 0 = []"
| "overflow_starts d i (Suc n) =
     (if PAGE_SIZE < LEAF_HEADER_SIZE + i * 2 + 2 then []
      else let off = u16_to_page_size (u16_at d (LEAF_HEADER_SIZE + i * 2)) in
        if off + 12 \<le> PAGE_SIZE \<and> PAGE_SIZE - 12 < unat (u32_at d off)
        then u32_at d (off + 8) # overflow_starts d (i + 1) n
        else overflow_starts d (i + 1) n)"

text \<open>The children of an interior page, without the entries that lie outside of the page.\<close>

fun children_in_page :: "bytes \<Rightarrow> nat \<Rightarrow> nat \<Rightarrow> u32 list" where
  "children_in_page d i 0 = [right_child d]"
| "children_in_page d i (Suc n) =
     (if PAGE_SIZE < INTERIOR_HEADER_SIZE + i * 2 + 2 then [right_child d]
      else let off = u16_to_page_size (u16_at d (INTERIOR_HEADER_SIZE + i * 2)) in
        if off + 4 \<le> PAGE_SIZE then u32_at d off # children_in_page d (i + 1) n
        else children_in_page d (i + 1) n)"

definition add_stats :: "frag_stats \<Rightarrow> frag_stats \<Rightarrow> frag_stats" where
  "add_stats a b = \<lparr>fs_leaves = fs_leaves a + fs_leaves b, fs_frag = fs_frag a + fs_frag b,
     fs_overflow = fs_overflow a + fs_overflow b, fs_free = fs_free a + fs_free b\<rparr>"

definition no_stats :: frag_stats where
  "no_stats = \<lparr>fs_leaves = 0, fs_frag = 0, fs_overflow = 0, fs_free = 0\<rparr>"

primrec collect_frag_stats :: "nat \<Rightarrow> lz4 \<Rightarrow> u32 \<Rightarrow> (pager, frag_stats) op" where
  "collect_frag_stats 0 z n = op_lift Panic"
| "collect_frag_stats (Suc left) z n =
     op_bind (get_page z n) (\<lambda>d.
     if page_type d = LEAF_TABLE then
       op_bind (get_page z n) (\<lambda>d2.
       op_bind (op_map (count_overflow_pages z) (overflow_starts d2 0 (cell_count d))) (\<lambda>ns.
       op_return \<lparr>fs_leaves = 1, fs_frag = unat (d ! 5), fs_overflow = sum_list ns,
                  fs_free = content_offset d - (LEAF_HEADER_SIZE + cell_count d * 2)\<rparr>))
     else if page_type d = INTERIOR_TABLE then
       op_bind (get_page z n) (\<lambda>d2.
       op_bind (op_map (collect_frag_stats left z) (children_in_page d2 0 (cell_count d))) (\<lambda>sts.
       op_return (foldr add_stats sts no_stats)))
     else op_return no_stats)"

definition fragmentation_stats :: "lz4 \<Rightarrow> u32 \<Rightarrow> (pager, frag_stats) op" where
  "fragmentation_stats z root = with_bound (\<lambda>n. collect_frag_stats n z root)"

text \<open>The cells of a leaf as the defragmentation takes them, with their index in the pointer array.\<close>

fun defragment_cells :: "bytes \<Rightarrow> nat \<Rightarrow> nat \<Rightarrow> (nat \<times> bytes) list res" where
  "defragment_cells d i 0 = Ok []"
| "defragment_cells d i (Suc n) =
     (if PAGE_SIZE < LEAF_HEADER_SIZE + i * 2 + 2 then Ok []
      else let off = u16_to_page_size (u16_at d (LEAF_HEADER_SIZE + i * 2)) in
        if PAGE_SIZE < off + 4 then defragment_cells d (i + 1) n
        else let size = unat (u32_at d off);
                 inline = (if PAGE_SIZE - 12 < size then 4 else size);
                 cell_end = min (off + (4 + 8 + inline)) PAGE_SIZE in
          res_bind (defragment_cells d (i + 1) n) (\<lambda>rest. Ok ((i, sub_bytes d off (cell_end - off)) # rest)))"

text \<open>Writing them back from the end of the page; the page is full when an offset would fall below zero.\<close>

fun write_compact :: "(nat \<times> bytes) list \<Rightarrow> nat \<Rightarrow> bytes \<Rightarrow> (nat \<times> bytes) res" where
  "write_compact [] off d = Ok (off, d)"
| "write_compact ((i, cell) # cells) off d =
     (if off < length cell then Panic
      else let off' = off - length cell in
        res_bind (copy_into off' cell d) (\<lambda>d1.
        res_bind (copy_into (LEAF_HEADER_SIZE + i * 2) (le_bytes 2 (page_size_to_u16_val off')) d1) (\<lambda>d2.
        write_compact cells off' d2)))"

definition compact_leaf :: "(nat \<times> bytes) list \<Rightarrow> nat \<Rightarrow> bytes \<Rightarrow> bytes res" where
  "compact_leaf cells count d =
     (let ptr_end = LEAF_HEADER_SIZE + count * 2 in
      if PAGE_SIZE < ptr_end then Panic
      else res_bind (write_compact cells PAGE_SIZE (write_at ptr_end (replicate (PAGE_SIZE - ptr_end) 0) d)) (\<lambda>(off, d1).
        Ok (write_at 5 [0] (write_at 3 (le_bytes 2 (page_size_to_u16_val off)) d1))))"

definition defragment_leaf :: "lz4 \<Rightarrow> u32 \<Rightarrow> (pager, bool) op" where
  "defragment_leaf z n =
     op_bind (get_page z n) (\<lambda>d.
     if page_type d \<noteq> LEAF_TABLE \<or> d ! 5 = 0 then op_return False
     else op_bind (get_page z n) (\<lambda>d2.
       op_bind (op_lift (defragment_cells d2 0 (cell_count d))) (\<lambda>cells.
       op_bind (update_page_res z n (compact_leaf cells (cell_count d))) (\<lambda>_. op_return True))))"

primrec defragment_from :: "nat \<Rightarrow> lz4 \<Rightarrow> u32 \<Rightarrow> (pager, nat) op" where
  "defragment_from 0 z n = op_lift Panic"
| "defragment_from (Suc left) z n =
     op_bind (get_page z n) (\<lambda>d.
     if page_type d = LEAF_TABLE then
       op_bind (defragment_leaf z n) (\<lambda>b. op_return (if b then 1 else 0))
     else if page_type d = INTERIOR_TABLE then
       op_bind (get_page z n) (\<lambda>d2.
       op_bind (op_map (defragment_from left z) (children_in_page d2 0 (cell_count d2))) (\<lambda>ns. op_return (sum_list ns)))
     else op_return 0)"

definition defragment_all :: "lz4 \<Rightarrow> u32 \<Rightarrow> (pager, nat) op" where
  "defragment_all z root = with_bound (\<lambda>n. defragment_from n z root)"

end
