(* ===== verification/BTreeStore.thy ===== *)
theory BTreeStore
  imports PagerHeap BTree
begin

text \<open>
  Total correctness of operations on pages. The pager appears here as a heap: the contents of its pages, the set of free
  pages and the number of pages that can still be added. \<open>runs h m Q\<close> says that the operation \<open>m\<close>, started in any pager that is such a heap,
  ends in a pager whose heap satisfies \<open>Q\<close> together with the outcome. The rules below run an operation of the B+tree step by
  step; they rest on the contract \<open>page_heap\<close> of the pager.
\<close>

section \<open>Heaps\<close>

type_synonym page_map = "u32 \<rightharpoonup> bytes"

type_synonym heap = "page_map \<times> u32 set \<times> nat"

fun heap_is :: "pager \<Rightarrow> heap \<Rightarrow> bool" where
  "heap_is pg (m, F, k) \<longleftrightarrow> pager_inv pg \<and> page_value pg = m \<and> frees pg F \<and> room pg k"

declare heap_is.simps [simp del]

definition runs :: "heap \<Rightarrow> (pager, 'a) op \<Rightarrow> ('a res \<Rightarrow> heap \<Rightarrow> bool) \<Rightarrow> bool" where
  "runs h p Q \<longleftrightarrow> (\<forall>pg. heap_is pg h \<longrightarrow> (\<exists>r pg' h'. p pg = (r, pg') \<and> heap_is pg' h' \<and> Q r h'))"

lemma runsI:
  assumes "\<And>pg. heap_is pg h \<Longrightarrow> \<exists>r pg' h'. p pg = (r, pg') \<and> heap_is pg' h' \<and> Q r h'"
  shows "runs h p Q"
  using assms by (simp add: runs_def)

lemma runs_mono: "runs h p Q \<Longrightarrow> (\<And>r h'. Q r h' \<Longrightarrow> Q' r h') \<Longrightarrow> runs h p Q'"
  unfolding runs_def by blast

lemma runs_bind:
  assumes "runs h p Q1" and "\<And>a h'. Q1 (Ok a) h' \<Longrightarrow> runs h' (f a) Q"
    and "\<And>e h'. Q1 (Err e) h' \<Longrightarrow> Q (Err e) h'" and "\<And>h'. Q1 Panic h' \<Longrightarrow> Q Panic h'"
  shows "runs h (op_bind p f) Q"
proof (rule runsI)
  fix pg assume "heap_is pg h"
  then obtain r pg1 h1 where 1: "p pg = (r, pg1)" "heap_is pg1 h1" "Q1 r h1" using assms(1) unfolding runs_def by blast
  show "\<exists>r pg' h'. op_bind p f pg = (r, pg') \<and> heap_is pg' h' \<and> Q r h'"
  proof (cases r)
    case (Ok a)
    with 1 assms(2) [of a h1] obtain r' pg' h' where "f a pg1 = (r', pg')" "heap_is pg' h'" "Q r' h'" unfolding runs_def by blast
    moreover have "op_bind p f pg = f a pg1" using 1(1) Ok by (simp add: op_bind_def)
    ultimately show ?thesis by metis
  next
    case (Err e)
    then have "op_bind p f pg = (Err e, pg1)" "Q (Err e) h1" using 1 assms(3) by (simp_all add: op_bind_def)
    then show ?thesis using 1(2) by blast
  next
    case Panic
    then have "op_bind p f pg = (Panic, pg1)" "Q Panic h1" using 1 assms(4) by (simp_all add: op_bind_def)
    then show ?thesis using 1(2) by blast
  qed
qed

text \<open>Sequencing behind an operation that succeeds.\<close>

lemma runs_seq:
  assumes "runs h p (\<lambda>r h'. \<exists>a. r = Ok a \<and> P a h')" and "\<And>a h'. P a h' \<Longrightarrow> runs h' (f a) Q"
  shows "runs h (op_bind p f) Q"
  by (rule runs_bind [OF assms(1)]) (use assms(2) in auto)

lemma runs_return: "Q (Ok a) h \<Longrightarrow> runs h (op_return a) Q"
  unfolding runs_def op_return_def by blast

lemma runs_fail: "Q (Err e) h \<Longrightarrow> runs h (op_fail e) Q"
  unfolding runs_def op_fail_def by blast

lemma runs_lift: "Q r h \<Longrightarrow> runs h (op_lift r) Q"
  unfolding runs_def op_lift_def by blast

lemma runs_assoc: "runs h (op_bind (op_bind p f) g) Q = runs h (op_bind p (\<lambda>a. op_bind (f a) g)) Q"
proof -
  have "op_bind (op_bind p f) g = op_bind p (\<lambda>a. op_bind (f a) g)"
    by (auto simp: op_bind_def fun_eq_iff split: prod.split res.split)
  then show ?thesis by simp
qed

lemma runs_return_bind: "runs h (f a) Q \<Longrightarrow> runs h (op_bind (op_return a) f) Q"
  by (simp add: op_bind_def op_return_def)

lemma runs_lift_bind: "r = Ok a \<Longrightarrow> runs h (f a) Q \<Longrightarrow> runs h (op_bind (op_lift r) f) Q"
  by (simp add: op_bind_def op_lift_def)

lemma runs_lift_err: "r = Err e \<Longrightarrow> Q (Err e) h \<Longrightarrow> runs h (op_bind (op_lift r) f) Q"
  by (rule runs_bind [OF runs_lift [where Q = "\<lambda>r' h'. r' = Err e \<and> h' = h"]]) auto

section \<open>Pages\<close>

lemma runs_get_page:
  assumes "m n = Some d" and "runs (m, F, k) (f d) Q"
  shows "runs (m, F, k) (op_bind (get_page z n) f) Q"
proof (rule runsI)
  fix pg assume h: "heap_is pg (m, F, k)"
  then obtain pg1 where g: "get_page z n pg = (Ok d, pg1)" "pager_inv pg1" "page_value pg1 = page_value pg"
    using ps.read_found [of pg n d z] assms(1) by (auto simp: heap_is.simps)
  then have "heap_is pg1 (m, F, k)" using h ph.read_heap [OF _ _ _ g(1)] by (auto simp: heap_is.simps)
  with assms(2) show "\<exists>r pg' h'. op_bind (get_page z n) f pg = (r, pg') \<and> heap_is pg' h' \<and> Q r h'"
    using g(1) by (simp add: runs_def op_bind_Ok [of "get_page z n" pg])
qed

lemma runs_modify:
  assumes "m n = Some d" and "n \<notin> F" and "keeps_size g" and "runs (m(n \<mapsto> g d), F, k) (f ()) Q"
  shows "runs (m, F, k) (op_bind (modify_page z n g) f) Q"
proof (rule runsI)
  fix pg assume h: "heap_is pg (m, F, k)"
  then obtain pg1 where g: "modify_page z n g pg = (Ok (), pg1)" "pager_inv pg1" "page_value pg1 = (page_value pg)(n \<mapsto> g d)"
    using ps.modify_found [of pg n d g z] assms(1,3) by (auto simp: heap_is.simps)
  then have "heap_is pg1 (m(n \<mapsto> g d), F, k)" using h ph.modify_heap [OF _ _ _ assms(3,2) g(1)] by (auto simp: heap_is.simps)
  with assms(4) show "\<exists>r pg' h'. op_bind (modify_page z n g) f pg = (r, pg') \<and> heap_is pg' h' \<and> Q r h'"
    using g(1) by (simp add: runs_def op_bind_Ok [of "modify_page z n g" pg])
qed

lemma op_bind_return [simp]: "op_bind p op_return = p"
  by (auto simp: op_bind_def op_return_def fun_eq_iff split: prod.split res.split)

lemma runs_modify_last:
  assumes "m n = Some d" and "n \<notin> F" and "keeps_size g" and "Q (Ok ()) (m(n \<mapsto> g d), F, k)"
  shows "runs (m, F, k) (modify_page z n g) Q"
  using runs_modify [where f = op_return, OF assms(1,2,3) runs_return [where Q = Q, OF assms(4)], of z] by simp

text \<open>The mutable reference: the page is loaded and has its content, and nothing else changes.\<close>

lemma get_page_mut_step:
  assumes inv: "pager_inv pg" and v: "page_value pg n = Some d"
  obtains pg1 where "get_page_mut z n pg = (Ok (), pg1)" and "pdata (pages pg1 ! page_idx n) = d"
    and "\<forall>g. modify_page z n g pg = (Ok (), upd_page (page_idx n) (\<lambda>p. p\<lparr>pdata := g (pdata p)\<rparr>) pg1)"
    and "modify_page z n (\<lambda>d. d) pg = (Ok (), pg1)"
proof -
  have n: "in_range pg n" using page_value_range [OF inv v] by simp
  obtain pgl where l: "(if loaded pg ! page_idx n then op_return () else load_from_disk z n) pg = (Ok (), pgl)"
      "cache_step pg pgl" "loaded pgl ! page_idx n"
    by (rule ensure_loaded [OF inv n])
  let ?t = "touch_page n pgl" let ?pg1 = "mark_dirty n (snapshot_page n ?t)"
  have inv1: "pager_inv pgl" "in_range pgl n" using l(2) n cache_step_in_range [OF l(2)] by (simp_all add: cache_step_def)
  have t: "cache_step pg ?t" by (rule cache_step_trans [OF l(2) touch_step [OF inv1]])
  have T: "pager_inv ?t" "in_range ?t n" "loaded ?t ! page_idx n" "page_value ?t n = Some d"
    using t l(3) n v cache_step_in_range [OF t] by (simp_all add: cache_step_def)
  have g: "get_page_mut z n pg = (Ok (), ?pg1)"
    using l(1) inv by (simp add: get_page_mut_def op_simps check_page_cases n split: if_splits)
  have ix: "page_idx n < length (pages ?t)" using pager_inv_idx [OF T(1,2)] by simp
  have d: "pdata (pages ?pg1 ! page_idx n) = d"
    using T(3,4) ix by (auto simp: mark_dirty_def snapshot_page_def upd_page_def Let_def page_value_def split: option.split if_splits)
  have m: "modify_page z n h pg = (Ok (), upd_page (page_idx n) (\<lambda>p. p\<lparr>pdata := h (pdata p)\<rparr>) ?pg1)" for h
    using g by (simp add: modify_page_def write_page_data_def op_simps)
  then have all: "\<forall>g. modify_page z n g pg = (Ok (), upd_page (page_idx n) (\<lambda>p. p\<lparr>pdata := g (pdata p)\<rparr>) ?pg1)" by blast
  have "upd_page (page_idx n) (\<lambda>p. p\<lparr>pdata := pdata p\<rparr>) ?pg1 = ?pg1" by (simp add: upd_page_def)
  with m [of "\<lambda>d. d"] have "modify_page z n (\<lambda>d. d) pg = (Ok (), ?pg1)" by simp
  from that [OF g d all this] show ?thesis .
qed

lemma runs_edit:
  assumes "m n = Some d" and "n \<notin> F" and "g d = Ok (a, d')" and "length d' = PAGE_SIZE" and "runs (m(n \<mapsto> d'), F, k) (f a) Q"
  shows "runs (m, F, k) (op_bind (edit_page z n g) f) Q"
proof (rule runsI)
  fix pg assume h: "heap_is pg (m, F, k)"
  then have inv: "pager_inv pg" "page_value pg n = Some d" using assms(1) by (auto simp: heap_is.simps)
  obtain pg1 where 0: "get_page_mut z n pg = (Ok (), pg1)" "pdata (pages pg1 ! page_idx n) = d"
      "\<forall>g. modify_page z n g pg = (Ok (), upd_page (page_idx n) (\<lambda>p. p\<lparr>pdata := g (pdata p)\<rparr>) pg1)"
    by (rule get_page_mut_step [OF inv, of z])
  note 1 = 0(1,2) 0(3) [rule_format, of "\<lambda>_. d'"]
  let ?pg = "upd_page (page_idx n) (\<lambda>p. p\<lparr>pdata := d'\<rparr>) pg1"
  have k: "keeps_size (\<lambda>_. d')" using assms(4) by (simp add: keeps_size_def)
  have "pager_inv ?pg \<and> page_value ?pg = (page_value pg)(n \<mapsto> d')" using ps.modify_found [OF inv k, of z] 1(3) by (auto simp: heap_is.simps)
  then have "heap_is ?pg (m(n \<mapsto> d'), F, k)" using h ph.modify_heap [OF _ _ _ k assms(2) 1(3)] by (auto simp: heap_is.simps)
  moreover have "op_bind (edit_page z n g) f pg = f a ?pg"
    using 1(1,2) assms(3) by (simp add: edit_page_def op_simps op_lift_def write_page_data_def)
  ultimately show "\<exists>r pg' h'. op_bind (edit_page z n g) f pg = (r, pg') \<and> heap_is pg' h' \<and> Q r h'"
    using assms(5) by (simp add: runs_def)
qed

text \<open>A change that fails leaves all contents.\<close>

lemma runs_edit_err:
  assumes "m n = Some d" and "n \<notin> F" and "g d = Err e" and "Q (Err e) (m, F, k)"
  shows "runs (m, F, k) (op_bind (edit_page z n g) f) Q"
proof (rule runsI)
  fix pg assume h: "heap_is pg (m, F, k)"
  then have inv: "pager_inv pg" "page_value pg n = Some d" using assms(1) by (auto simp: heap_is.simps)
  obtain pg1 where 1: "get_page_mut z n pg = (Ok (), pg1)" "pdata (pages pg1 ! page_idx n) = d" "modify_page z n (\<lambda>d. d) pg = (Ok (), pg1)"
    by (rule get_page_mut_step [OF inv, of z])
  have k: "keeps_size (\<lambda>d. d)" by (simp add: keeps_size_def)
  have "pager_inv pg1 \<and> page_value pg1 = page_value pg" using ps.modify_found [OF inv k, of z] 1(3) inv(2) by (auto simp: fun_upd_idem)
  then have "heap_is pg1 (m, F, k)" using h ph.modify_heap [OF _ _ _ k assms(2) 1(3)] by (auto simp: heap_is.simps)
  moreover have "op_bind (edit_page z n g) f pg = (Err e, pg1)"
    using 1(1,2) assms(3) by (simp add: edit_page_def op_simps op_lift_def)
  ultimately show "\<exists>r pg' h'. op_bind (edit_page z n g) f pg = (r, pg') \<and> heap_is pg' h' \<and> Q r h'"
    using assms(4) by auto
qed

lemma runs_update:
  assumes "m n = Some d" and "n \<notin> F" and "g d = Ok d'" and "length d' = PAGE_SIZE" and "runs (m(n \<mapsto> d'), F, k) (f ()) Q"
  shows "runs (m, F, k) (op_bind (update_page_res z n g) f) Q"
  unfolding update_page_res_def using assms by (intro runs_edit [where d = d and d' = d']) auto

lemma runs_update_err:
  assumes "m n = Some d" and "n \<notin> F" and "g d = Err e" and "Q (Err e) (m, F, k)"
  shows "runs (m, F, k) (op_bind (update_page_res z n g) f) Q"
  unfolding update_page_res_def using assms by (intro runs_edit_err [where d = d]) auto

lemma runs_allocate:
  assumes "\<And>n. n \<noteq> 0 \<Longrightarrow> n \<in> F \<or> m n = None \<Longrightarrow> runs (m(n \<mapsto> zeros), F - {n}, k) (f n) Q"
  shows "runs (m, F, Suc k) (op_bind (allocate_page z) f) Q"
proof (rule runsI)
  fix pg assume h: "heap_is pg (m, F, Suc k)"
  then obtain n pg1 where a: "allocate_page z pg = (Ok n, pg1)" "heap_is pg1 (m(n \<mapsto> zeros), F - {n}, k)" "n \<noteq> 0" "n \<in> F \<or> m n = None"
    using ph.alloc_law [of pg F k z] by (auto simp: heap_is.simps)
  then show "\<exists>r pg' h'. op_bind (allocate_page z) f pg = (r, pg') \<and> heap_is pg' h' \<and> Q r h'"
    using assms [OF a(3,4)] by (simp add: runs_def op_bind_Ok [of "allocate_page z" pg])
qed

lemma runs_free:
  assumes "m n = Some d" and "n \<notin> F"
    and "\<And>m'. (\<And>p. p \<notin> insert n F \<Longrightarrow> m' p = m p) \<Longrightarrow> dom m' = dom m \<Longrightarrow> runs (m', insert n F, k) (f ()) Q"
  shows "runs (m, F, k) (op_bind (free_page z n) f) Q"
proof (rule runsI)
  fix pg assume h: "heap_is pg (m, F, k)"
  then obtain pg1 where a: "free_page z n pg = (Ok (), pg1)" "pager_inv pg1" "frees pg1 (insert n F)" "room pg1 k"
      "\<And>p. p \<notin> insert n F \<Longrightarrow> page_value pg1 p = m p" "dom (page_value pg1) = dom m"
    using ph.free_law [of pg F k n d z] assms(1,2) by (auto simp: heap_is.simps)
  then have "runs (page_value pg1, insert n F, k) (f ()) Q" by (intro assms(3)) auto
  with a show "\<exists>r pg' h'. op_bind (free_page z n) f pg = (r, pg') \<and> heap_is pg' h' \<and> Q r h'"
    by (simp add: runs_def op_bind_Ok [of "free_page z n" pg] heap_is.simps)
qed

text \<open>The bound of walks exceeds the number of pages.\<close>

lemma page_value_bound: "pager_inv pg \<Longrightarrow> dom (page_value pg) \<subseteq> {n. n \<noteq> 0 \<and> n \<le> total_pages (header pg)}"
  by (auto simp: page_value_def split: if_splits)

lemma card_pages: "card {n::u32. n \<noteq> 0 \<and> n \<le> t} \<le> unat t"
proof -
  have "inj_on unat {n::u32. n \<noteq> 0 \<and> n \<le> t}" by (auto simp: inj_on_def word_unat_eq_iff)
  then have "card {n::u32. n \<noteq> 0 \<and> n \<le> t} = card (unat ` {n::u32. n \<noteq> 0 \<and> n \<le> t})" by (simp add: card_image)
  also have "\<dots> \<le> card {1..unat t}"
    by (rule card_mono) (auto simp: word_le_nat_alt Suc_le_eq unat_gt_0)
  finally show ?thesis by simp
qed

lemma runs_bound:
  assumes "\<And>b. card (dom m) < b \<Longrightarrow> runs (m, F, k) (f b) Q"
  shows "runs (m, F, k) (with_bound f) Q"
proof (rule runsI)
  fix pg assume h: "heap_is pg (m, F, k)"
  then have "dom m \<subseteq> {n. n \<noteq> 0 \<and> n \<le> total_pages (header pg)}" using page_value_bound by (auto simp: heap_is.simps)
  then have "card (dom m) \<le> card {n. n \<noteq> 0 \<and> n \<le> total_pages (header pg)}" by (rule card_mono [rotated]) simp
  also have "\<dots> \<le> unat (total_pages (header pg))" by (rule card_pages)
  finally have "card (dom m) \<le> unat (total_pages (header pg))" .
  with assms [of "unat (total_pages (header pg)) + 1"] h show "\<exists>r pg' h'. with_bound f pg = (r, pg') \<and> heap_is pg' h' \<and> Q r h'"
    by (simp add: runs_def with_bound_def op_get_def heap_is.simps)
qed

lemma runs_bound_bind:
  assumes "\<And>b. card (dom m) < b \<Longrightarrow> runs (m, F, k) (op_bind (f b) g) Q"
  shows "runs (m, F, k) (op_bind (with_bound f) g) Q"
proof -
  have "op_bind (with_bound f) g = with_bound (\<lambda>b. op_bind (f b) g)" by (simp add: fun_eq_iff op_bind_def with_bound_def op_get_def)
  then show ?thesis using runs_bound [of m F k "\<lambda>b. op_bind (f b) g" Q] assms by simp
qed

text \<open>A property of a heap that any pager with this heap has, read off a run.\<close>

lemma runsE:
  assumes "runs h p Q" and "heap_is pg h"
  obtains r pg' h' where "p pg = (r, pg')" and "heap_is pg' h'" and "Q r h'"
  using assms unfolding runs_def by blast

lemma heap_size: "heap_is pg (m, F, k) \<Longrightarrow> m n = Some d \<Longrightarrow> length d = PAGE_SIZE"
  using page_value_range by (fastforce simp: heap_is.simps)

section \<open>Operations that only read\<close>

definition reads :: "page_map \<Rightarrow> (pager, 'a) op \<Rightarrow> 'a res \<Rightarrow> bool" where
  "reads m p v \<longleftrightarrow> (\<forall>F k. runs (m, F, k) p (\<lambda>r h. r = v \<and> h = (m, F, k)))"

named_theorems reads_intros \<open>outcomes of operations that only read\<close>

lemma reads_runs: "reads m p v \<Longrightarrow> Q v (m, F, k) \<Longrightarrow> runs (m, F, k) p Q"
  unfolding reads_def by (rule runs_mono [where Q = "\<lambda>r h. r = v \<and> h = (m, F, k)"]) auto

lemma reads_runs_bind: "reads m p (Ok a) \<Longrightarrow> runs (m, F, k) (f a) Q \<Longrightarrow> runs (m, F, k) (op_bind p f) Q"
  by (rule runs_bind [OF reads_runs [where Q = "\<lambda>r h. r = Ok a \<and> h = (m, F, k)"]]) auto

lemma reads_bind:
  assumes "reads m p v" and "\<And>a. v = Ok a \<Longrightarrow> reads m (f a) (g a)"
  shows "reads m (op_bind p f) (res_bind v g)"
  unfolding reads_def
proof (intro allI)
  fix F k
  show "runs (m, F, k) (op_bind p f) (\<lambda>r h. r = res_bind v g \<and> h = (m, F, k))"
    by (rule runs_bind [OF reads_runs [OF assms(1), where Q = "\<lambda>r h. r = v \<and> h = (m, F, k)"]])
      (use assms(2) in \<open>auto simp: reads_def\<close>)
qed

lemma reads_bind_Ok [reads_intros]: "reads m p (Ok a) \<Longrightarrow> reads m (f a) v \<Longrightarrow> reads m (op_bind p f) v"
  using reads_bind [of m p "Ok a" f "\<lambda>_. v"] by simp

lemma reads_return [reads_intros]: "reads m (op_return a) (Ok a)"
  by (simp add: reads_def runs_return)

lemma reads_lift [reads_intros]: "reads m (op_lift v) v"
  by (simp add: reads_def runs_lift)

lemma reads_lift_Ok: "v = Ok a \<Longrightarrow> reads m (op_lift v) (Ok a)"
  by (simp add: reads_lift)

lemma reads_fail [reads_intros]: "reads m (op_fail e) (Err e)"
  by (simp add: reads_def runs_fail)

lemma reads_get [reads_intros]: "m n = Some d \<Longrightarrow> reads m (get_page z n) (Ok d)"
  using runs_get_page [where f = op_return] by (simp add: reads_def runs_return)

lemma reads_bound: "(\<And>b. card (dom m) < b \<Longrightarrow> reads m (f b) v) \<Longrightarrow> reads m (with_bound f) v"
  unfolding reads_def by (blast intro: runs_bound)

fun res_map :: "('a \<Rightarrow> 'b res) \<Rightarrow> 'a list \<Rightarrow> 'b list res" where
  "res_map f [] = Ok []"
| "res_map f (x # xs) = res_bind (f x) (\<lambda>y. res_bind (res_map f xs) (\<lambda>ys. Ok (y # ys)))"

lemma res_map_append: "res_map f (xs @ ys) = res_bind (res_map f xs) (\<lambda>us. res_bind (res_map f ys) (\<lambda>vs. Ok (us @ vs)))"
proof (induction xs)
  case (Cons x xs)
  then show ?case by (cases "f x"; cases "res_map f xs"; cases "res_map f ys") simp_all
qed (cases "res_map f ys", simp_all)

lemma res_map_Ok: "(\<And>x. x \<in> set xs \<Longrightarrow> f x = Ok (g x)) \<Longrightarrow> res_map f xs = Ok (map g xs)"
  by (induction xs) auto

lemma reads_map: "(\<And>x. x \<in> set xs \<Longrightarrow> reads m (f x) (g x)) \<Longrightarrow> reads m (op_map f xs) (res_map g xs)"
  by (induction xs) (auto intro!: reads_bind reads_return)

text \<open>What a read means for a pager.\<close>

lemma readsE:
  assumes "reads m p v" and "heap_is pg (m, F, k)"
  obtains pg' where "p pg = (v, pg')" and "heap_is pg' (m, F, k)"
  using assms unfolding reads_def runs_def by blast

end
