(* ===== verification/BTreeSlots.thy ===== *)
theory BTreeSlots
  imports BTreePage
begin

text \<open>
  Pages as lists of cells. A page of cells has an array of pointers that grows up from the header and cell contents that
  grow down from the end; \<open>slotted\<close> says that a page holds a given list of cells. Inserting a cell,
  removing one and searching for a key are list operations under it, in leaf and interior pages alike.
\<close>

section \<open>Reading after writing\<close>

named_theorems page_simps \<open>fields of a page after a write\<close>

lemma length_sub_bytes [simp]: "off + n \<le> length d \<Longrightarrow> length (sub_bytes d off n) = n"
  by (simp add: sub_bytes_def)

lemma nth_sub_bytes: "off + n \<le> length d \<Longrightarrow> i < n \<Longrightarrow> sub_bytes d off n ! i = d ! (off + i)"
  by (simp add: sub_bytes_def)

lemma sub_bytes_eqI:
  assumes "off + n \<le> length d" and "off + n \<le> length d'" and "\<And>i. i < n \<Longrightarrow> d' ! (off + i) = d ! (off + i)"
  shows "sub_bytes d' off n = sub_bytes d off n"
  using assms by (auto simp: list_eq_iff_nth_eq nth_sub_bytes)

lemma sub_bytes_write_same [simp]: "n = length bs \<Longrightarrow> sub_bytes (write_at off bs d) off n = bs"
  by (simp add: list_eq_iff_nth_eq nth_sub_bytes nth_write_at)

lemma sub_bytes_write_other:
  assumes "o2 + n \<le> length d" and "o2 + n \<le> off \<or> off + length bs \<le> o2"
  shows "sub_bytes (write_at off bs d) o2 n = sub_bytes d o2 n"
  using assms by (intro sub_bytes_eqI) (auto simp: nth_write_at)

lemma sub_bytes_sub_bytes: "o2 + k \<le> n \<Longrightarrow> sub_bytes (sub_bytes d off n) o2 k = sub_bytes d (off + o2) k"
  by (simp add: sub_bytes_def drop_take min_def add.commute)

lemma sub_bytes_append1 [simp]: "off + n \<le> length xs \<Longrightarrow> sub_bytes (xs @ ys) off n = sub_bytes xs off n"
  by (simp add: sub_bytes_def)

lemma sub_bytes_append2 [simp]: "length xs \<le> off \<Longrightarrow> sub_bytes (xs @ ys) off n = sub_bytes ys (off - length xs) n"
  by (simp add: sub_bytes_def)

lemma sub_bytes_all [simp]: "n = length d \<Longrightarrow> sub_bytes d 0 n = d"
  by (simp add: sub_bytes_def)

lemma length_write_in [simp]: "off + length bs \<le> length d \<Longrightarrow> length (write_at off bs d) = length d"
  by simp

lemma at_write_same [simp]:
  "u16_at (write_at off (le_bytes 2 v) d) off = v"
  "u32_at (write_at off (le_bytes 4 w) d) off = w"
  "i64_at (write_at off (le_bytes 8 r) d) off = r"
  by (simp_all add: u16_at_def u32_at_def i64_at_def)

lemma at_write_other:
  "o2 + 2 \<le> length d \<Longrightarrow> o2 + 2 \<le> off \<or> off + length bs \<le> o2 \<Longrightarrow> u16_at (write_at off bs d) o2 = u16_at d o2"
  "o2 + 4 \<le> length d \<Longrightarrow> o2 + 4 \<le> off \<or> off + length bs \<le> o2 \<Longrightarrow> u32_at (write_at off bs d) o2 = u32_at d o2"
  "o2 + 8 \<le> length d \<Longrightarrow> o2 + 8 \<le> off \<or> off + length bs \<le> o2 \<Longrightarrow> i64_at (write_at off bs d) o2 = i64_at d o2"
  by (simp_all add: u16_at_def u32_at_def i64_at_def sub_bytes_write_other)

lemma rd_Ok [simp]:
  "off + 2 \<le> length d \<Longrightarrow> rd16 d off = Ok (unat (u16_at d off))"
  "off + 4 \<le> length d \<Longrightarrow> rd32 d off = Ok (u32_at d off)"
  "off + 8 \<le> length d \<Longrightarrow> rd64 d off = Ok (i64_at d off)"
  by (simp_all add: rd16_def rd32_def rd64_def u16_at_def u32_at_def i64_at_def sub_bytes_def)

lemma copy_into_Ok [simp]: "off + length bs \<le> length d \<Longrightarrow> copy_into off bs d = Ok (write_at off bs d)"
  by (simp add: copy_into_def)

lemma validate_Ok [simp]: "off + n \<le> PAGE_SIZE \<Longrightarrow> validate_cell_offset off n = Ok off"
  by (simp add: validate_cell_offset_def)

lemma write_at_append:
  assumes "off + length as + length bs \<le> length d"
  shows "write_at (off + length as) bs (write_at off as d) = write_at off (as @ bs) d"
  using assms by (auto simp: list_eq_iff_nth_eq nth_write_at nth_append)

section \<open>Slots\<close>

definition cell_ptr :: "nat \<Rightarrow> bytes \<Rightarrow> nat \<Rightarrow> nat" where
  "cell_ptr base d i = unat (u16_at d (base + i * 2))"

definition cells_apart :: "nat \<Rightarrow> bytes \<Rightarrow> bytes list \<Rightarrow> nat \<Rightarrow> nat \<Rightarrow> bool" where
  "cells_apart base d cs i j \<longleftrightarrow>
     cell_ptr base d i + length (cs ! i) \<le> cell_ptr base d j \<or> cell_ptr base d j + length (cs ! j) \<le> cell_ptr base d i"

definition slotted :: "nat \<Rightarrow> bytes \<Rightarrow> bytes list \<Rightarrow> bool" where
  "slotted base d cs \<longleftrightarrow> length d = PAGE_SIZE \<and> cell_count d = length cs
     \<and> base + 2 * length cs \<le> content_offset d \<and> content_offset d \<le> PAGE_SIZE
     \<and> (\<forall>i < length cs. content_offset d \<le> cell_ptr base d i \<and> cell_ptr base d i + length (cs ! i) \<le> PAGE_SIZE
          \<and> sub_bytes d (cell_ptr base d i) (length (cs ! i)) = cs ! i)
     \<and> (\<forall>j < length cs. \<forall>i < j. cells_apart base d cs i j)"

lemma slottedD:
  assumes "slotted base d cs"
  shows "length d = PAGE_SIZE" "cell_count d = length cs" "base + 2 * length cs \<le> content_offset d" "content_offset d \<le> PAGE_SIZE"
    "i < length cs \<Longrightarrow> content_offset d \<le> cell_ptr base d i"
    "i < length cs \<Longrightarrow> cell_ptr base d i + length (cs ! i) \<le> PAGE_SIZE"
    "i < length cs \<Longrightarrow> sub_bytes d (cell_ptr base d i) (length (cs ! i)) = cs ! i"
    "i < j \<Longrightarrow> j < length cs \<Longrightarrow> cells_apart base d cs i j"
  using assms by (auto simp: slotted_def)

definition remove_nth :: "nat \<Rightarrow> 'a list \<Rightarrow> 'a list" where
  "remove_nth i xs = take i xs @ drop (Suc i) xs"

lemma length_list_insert [simp]: "i \<le> length xs \<Longrightarrow> length (list_insert i x xs) = Suc (length xs)"
  by (simp add: list_insert_def)

lemma nth_list_insert:
  "i \<le> length xs \<Longrightarrow> j \<le> length xs \<Longrightarrow> list_insert i x xs ! j = (if j < i then xs ! j else if j = i then x else xs ! (j - 1))"
  by (auto simp: list_insert_def nth_append nth_Cons' min_def)

lemma length_remove_nth [simp]: "i < length xs \<Longrightarrow> length (remove_nth i xs) = length xs - 1"
  by (simp add: remove_nth_def)

lemma nth_remove_nth:
  "i < length xs \<Longrightarrow> j < length xs - 1 \<Longrightarrow> remove_nth i xs ! j = (if j < i then xs ! j else xs ! Suc j)"
  by (auto simp: remove_nth_def nth_append min_def)

text \<open>Moving pointers changes the pointer array only.\<close>

lemma shift_right_Ok:
  assumes "base + 2 * n + 2 \<le> length d"
  shows "\<exists>d'. shift_right base idx n d = Ok d' \<and> length d' = length d
    \<and> (\<forall>i. idx \<le> i \<and> i < n \<longrightarrow> cell_ptr base d' (i + 1) = cell_ptr base d i)
    \<and> (\<forall>off k. off + k \<le> base + 2 * idx + 2 \<or> base + 2 * n + 2 \<le> off \<longrightarrow> off + k \<le> length d \<longrightarrow> sub_bytes d' off k = sub_bytes d off k)"
  using assms
proof (induction n arbitrary: d)
  case (Suc i)
  show ?case
  proof (cases "i < idx")
    case False
    let ?w = "write_at (base + (i + 1) * 2) (le_bytes 2 (u16_at d (base + i * 2))) d"
    have len: "length ?w = length d" using Suc.prems by (intro length_write_in) simp
    then obtain d' where d': "shift_right base idx i ?w = Ok d'" "length d' = length d"
      "\<And>j. idx \<le> j \<Longrightarrow> j < i \<Longrightarrow> cell_ptr base d' (j + 1) = cell_ptr base ?w j"
      "\<And>off k. off + k \<le> base + 2 * idx + 2 \<or> base + 2 * i + 2 \<le> off \<Longrightarrow> off + k \<le> length d \<Longrightarrow> sub_bytes d' off k = sub_bytes ?w off k"
      using Suc.IH [of ?w] Suc.prems by auto
    have "shift_right base idx (Suc i) d = Ok d'" using False Suc.prems d'(1) by simp
    moreover have "cell_ptr base d' (j + 1) = cell_ptr base d j" if "idx \<le> j" "j < Suc i" for j
    proof (cases "j = i")
      case True
      have "sub_bytes d' (base + (i + 1) * 2) 2 = sub_bytes ?w (base + (i + 1) * 2) 2" using Suc.prems by (intro d'(4)) simp_all
      then show ?thesis by (simp add: True cell_ptr_def u16_at_def)
    next
      case False
      with that have "j < i" by simp
      then show ?thesis using Suc.prems that(1) d'(3) [of j] by (simp add: cell_ptr_def at_write_other)
    qed
    moreover have "sub_bytes d' off k = sub_bytes d off k"
      if "off + k \<le> base + 2 * idx + 2 \<or> base + 2 * Suc i + 2 \<le> off" "off + k \<le> length d" for off k
    proof -
      have "sub_bytes d' off k = sub_bytes ?w off k" using that by (intro d'(4)) auto
      also have "\<dots> = sub_bytes d off k" using that False by (intro sub_bytes_write_other) auto
      finally show ?thesis .
    qed
    ultimately show ?thesis using d'(2) by blast
  qed auto
qed simp

lemma shift_left_Ok:
  assumes "base + 2 * (i + n) + 2 \<le> length d"
  shows "\<exists>d'. shift_left base i n d = Ok d' \<and> length d' = length d
    \<and> (\<forall>j. i \<le> j \<and> j < i + n \<longrightarrow> cell_ptr base d' j = cell_ptr base d (j + 1))
    \<and> (\<forall>off k. off + k \<le> base + 2 * i \<or> base + 2 * (i + n) \<le> off \<longrightarrow> off + k \<le> length d \<longrightarrow> sub_bytes d' off k = sub_bytes d off k)"
  using assms
proof (induction n arbitrary: i d)
  case (Suc n)
  let ?w = "write_at (base + i * 2) (le_bytes 2 (u16_at d (base + (i + 1) * 2))) d"
  have len: "length ?w = length d" using Suc.prems by (intro length_write_in) simp
  then obtain d' where d': "shift_left base (i + 1) n ?w = Ok d'" "length d' = length d"
    "\<And>j. i + 1 \<le> j \<Longrightarrow> j < i + 1 + n \<Longrightarrow> cell_ptr base d' j = cell_ptr base ?w (j + 1)"
    "\<And>off k. off + k \<le> base + 2 * (i + 1) \<or> base + 2 * (i + 1 + n) \<le> off \<Longrightarrow> off + k \<le> length d \<Longrightarrow> sub_bytes d' off k = sub_bytes ?w off k"
    using Suc.IH [of "i + 1" ?w] Suc.prems by auto
  have "shift_left base i (Suc n) d = Ok d'" using Suc.prems d'(1) by simp
  moreover have "cell_ptr base d' j = cell_ptr base d (j + 1)" if "i \<le> j" "j < i + Suc n" for j
  proof (cases "j = i")
    case True
    have "sub_bytes d' (base + i * 2) 2 = sub_bytes ?w (base + i * 2) 2" using Suc.prems by (intro d'(4)) simp_all
    then show ?thesis by (simp add: True cell_ptr_def u16_at_def)
  next
    case False
    with that show ?thesis using Suc.prems d'(3) [of j] by (simp add: cell_ptr_def at_write_other)
  qed
  moreover have "sub_bytes d' off k = sub_bytes d off k"
    if "off + k \<le> base + 2 * i \<or> base + 2 * (i + Suc n) \<le> off" "off + k \<le> length d" for off k
  proof -
    have "sub_bytes d' off k = sub_bytes ?w off k" using that by (intro d'(4)) auto
    also have "\<dots> = sub_bytes d off k" using that by (intro sub_bytes_write_other) auto
    finally show ?thesis .
  qed
  ultimately show ?case using d'(2) by blast
qed simp

lemma link_cell_Ok:
  assumes "base + 2 * n + 2 \<le> new" and "new \<le> length d" and "idx \<le> n" and "5 \<le> base" and "length d = PAGE_SIZE"
  shows "\<exists>d'. link_cell base idx n new d = Ok d' \<and> length d' = PAGE_SIZE \<and> cell_count d' = n + 1 \<and> content_offset d' = new
    \<and> (\<forall>i \<le> n. cell_ptr base d' i = (if i < idx then cell_ptr base d i else if i = idx then new else cell_ptr base d (i - 1)))
    \<and> (\<forall>off k. off + k \<le> 1 \<or> 5 \<le> off \<and> off + k \<le> base \<or> new \<le> off \<and> off + k \<le> PAGE_SIZE \<longrightarrow> sub_bytes d' off k = sub_bytes d off k)"
proof -
  obtain d1 where d1: "shift_right base idx n d = Ok d1" "length d1 = length d"
    "\<And>i. idx \<le> i \<Longrightarrow> i < n \<Longrightarrow> cell_ptr base d1 (i + 1) = cell_ptr base d i"
    "\<And>off k. off + k \<le> base + 2 * idx + 2 \<or> base + 2 * n + 2 \<le> off \<Longrightarrow> off + k \<le> length d \<Longrightarrow> sub_bytes d1 off k = sub_bytes d off k"
    using shift_right_Ok [of base n d idx] assms(1,2) by auto
  define v :: u16 where "v = word_of_nat new"
  define d2 where "d2 = write_at (base + idx * 2) (le_bytes 2 v) d1"
  define d' where "d' = write_at 3 (le_bytes 2 v) (write_at 1 (le_bytes 2 (word_of_nat (n + 1) :: u16)) d2)"
  have sz: "new < 65536" "n + 1 < 65536" "0 < new" using assms by (auto simp: PAGE_SIZE_def)
  then have v: "unat v = new" "v \<noteq> 0" by (simp_all add: v_def unat_of_nat take_bit_eq_mod word_unat_eq_iff)
  have len: "length d2 = PAGE_SIZE" "length d' = PAGE_SIZE" using assms d1(2) by (simp_all add: d2_def d'_def)
  have link: "link_cell base idx n new d = Ok d'"
    using assms d1(1,2) by (simp add: link_cell_def d2_def d'_def v_def)
  have far: "sub_bytes d' off k = sub_bytes d2 off k" if "off + k \<le> 1 \<or> 5 \<le> off" "off + k \<le> PAGE_SIZE" for off k
    unfolding d'_def using that len by (auto simp: sub_bytes_write_other le_max_iff_disj)
  have d2: "sub_bytes d2 off k = sub_bytes d1 off k" if "off + k \<le> base + idx * 2 \<or> base + idx * 2 + 2 \<le> off" "off + k \<le> PAGE_SIZE" for off k
    using that assms d1(2) by (simp add: d2_def sub_bytes_write_other)
  have cnt: "cell_count d' = n + 1"
  proof -
    have "u16_at d' 1 = word_of_nat (n + 1)" using len by (simp add: d'_def at_write_other)
    then show ?thesis using sz by (simp add: cell_count_def unat_of_nat take_bit_eq_mod del: of_nat_Suc of_nat_add)
  qed
  have co: "content_offset d' = new" using v by (simp add: content_offset_def d'_def u16_to_page_size_def)
  have ptr: "cell_ptr base d' i = cell_ptr base d2 i" if "i \<le> n" for i
    using far [of "base + i * 2" 2] that assms by (simp add: cell_ptr_def u16_at_def)
  have ptrs: "cell_ptr base d' i = (if i < idx then cell_ptr base d i else if i = idx then new else cell_ptr base d (i - 1))" if i: "i \<le> n" for i
  proof -
    consider "i < idx" | "i = idx" | "idx < i" by linarith
    then show ?thesis
    proof cases
      case 1
      then show ?thesis using ptr [OF i] d2 [of "base + i * 2" 2] d1(4) [of "base + i * 2" 2] i assms
        by (simp add: cell_ptr_def u16_at_def)
    next
      case 2
      then show ?thesis using ptr [OF i] v by (simp add: cell_ptr_def d2_def)
    next
      case 3
      then have "cell_ptr base d2 i = cell_ptr base d1 i" using d2 [of "base + i * 2" 2] i assms by (simp add: cell_ptr_def u16_at_def)
      then show ?thesis using 3 ptr [OF i] d1(3) [of "i - 1"] i by simp
    qed
  qed
  have keep: "sub_bytes d' off k = sub_bytes d off k"
    if "off + k \<le> 1 \<or> 5 \<le> off \<and> off + k \<le> base \<or> new \<le> off \<and> off + k \<le> PAGE_SIZE" for off k
  proof -
    have "sub_bytes d' off k = sub_bytes d2 off k" using that assms by (intro far) auto
    also have "\<dots> = sub_bytes d1 off k" using that assms by (intro d2) auto
    also have "\<dots> = sub_bytes d off k" using that assms by (intro d1(4)) auto
    finally show ?thesis .
  qed
  show ?thesis using link len cnt co ptrs keep by blast
qed

text \<open>Inserting a cell that fits.\<close>

lemma slotted_insert:
  assumes sl: "slotted base d cs" and idx: "idx \<le> length cs" and fit: "base + 2 * length cs + 2 + length c \<le> content_offset d" and base: "5 \<le> base"
  shows "\<exists>d'. res_bind (copy_into (content_offset d - length c) c d) (link_cell base idx (length cs) (content_offset d - length c)) = Ok d'
    \<and> slotted base d' (list_insert idx c cs) \<and> content_offset d' = content_offset d - length c
    \<and> (\<forall>off k. off + k \<le> 1 \<or> 5 \<le> off \<and> off + k \<le> base \<longrightarrow> sub_bytes d' off k = sub_bytes d off k)"
proof -
  note S = slottedD [OF sl]
  let ?new = "content_offset d - length c"
  let ?d1 = "write_at ?new c d"
  have len1: "length ?d1 = PAGE_SIZE" using S(1,4) fit by (simp add: max_def)
  have w: "sub_bytes ?d1 off k = sub_bytes d off k" if "off + k \<le> ?new \<or> content_offset d \<le> off" "off + k \<le> PAGE_SIZE" for off k
    using that S(1) fit by (intro sub_bytes_write_other) auto
  have "base + 2 * length cs + 2 \<le> ?new" "?new \<le> length ?d1" using fit len1 S(4) by auto
  from link_cell_Ok [OF this idx base len1]
  obtain d' where d': "link_cell base idx (length cs) ?new ?d1 = Ok d'" "length d' = PAGE_SIZE" "cell_count d' = length cs + 1"
      "content_offset d' = ?new"
    and ptrs: "\<And>i. i \<le> length cs \<Longrightarrow> cell_ptr base d' i = (if i < idx then cell_ptr base ?d1 i else if i = idx then ?new else cell_ptr base ?d1 (i - 1))"
    and keep: "\<And>off k. off + k \<le> 1 \<or> 5 \<le> off \<and> off + k \<le> base \<or> ?new \<le> off \<and> off + k \<le> PAGE_SIZE \<Longrightarrow> sub_bytes d' off k = sub_bytes ?d1 off k"
    by blast
  have ptr1: "cell_ptr base ?d1 i = cell_ptr base d i" if "i < length cs" for i
    using w [of "base + i * 2" 2] that fit S(4) by (simp add: cell_ptr_def u16_at_def)
  have old: "?new \<le> cell_ptr base d j \<and> cell_ptr base d j + length (cs ! j) \<le> PAGE_SIZE
      \<and> sub_bytes d' (cell_ptr base d j) (length (cs ! j)) = cs ! j" if j: "j < length cs" for j
  proof -
    have "?new \<le> cell_ptr base d j" using S(5) [OF j] by simp
    then show ?thesis
      using S(5-7) [OF j] keep [of "cell_ptr base d j" "length (cs ! j)"] w [of "cell_ptr base d j" "length (cs ! j)"] by simp
  qed
  have new: "?new + length c \<le> PAGE_SIZE \<and> sub_bytes d' ?new (length c) = c"
    using keep [of ?new "length c"] fit S(4) by auto
  have "slotted base d' (list_insert idx c cs)"
    unfolding slotted_def
  proof (intro conjI allI impI)
    fix i assume "i < length (list_insert idx c cs)"
    then have i: "i \<le> length cs" using idx by simp
    show "content_offset d' \<le> cell_ptr base d' i" "cell_ptr base d' i + length (list_insert idx c cs ! i) \<le> PAGE_SIZE"
      "sub_bytes d' (cell_ptr base d' i) (length (list_insert idx c cs ! i)) = list_insert idx c cs ! i"
      using i idx new old [of i] old [of "i - 1"] ptr1 [of i] ptr1 [of "i - 1"] d'(4)
      by (auto simp: ptrs nth_list_insert split: if_splits)
  next
    fix i j assume "j < length (list_insert idx c cs)" and ij: "i < j"
    then have j: "j \<le> length cs" "i \<le> length cs" using idx by simp_all
    consider "j < idx" | "j = idx" | "i < idx" "idx < j" | "i = idx" | "idx < i" using ij by linarith
    then show "cells_apart base d' (list_insert idx c cs) i j"
    proof cases
      case 1
      then show ?thesis using S(8) [of i j] ij j idx ptr1 by (simp add: cells_apart_def ptrs nth_list_insert)
    next
      case 2
      then show ?thesis using S(5) [of i] ij j idx ptr1 fit by (simp add: cells_apart_def ptrs nth_list_insert)
    next
      case 3
      then show ?thesis using S(8) [of i "j - 1"] j idx ptr1 by (simp add: cells_apart_def ptrs nth_list_insert)
    next
      case 4
      then show ?thesis using S(5) [of "j - 1"] ij j idx ptr1 fit by (simp add: cells_apart_def ptrs nth_list_insert)
    next
      case 5
      then show ?thesis using S(8) [of "i - 1" "j - 1"] ij j idx ptr1 by (simp add: cells_apart_def ptrs nth_list_insert)
    qed
  qed (use d' idx fit S(4) in auto)
  moreover have "sub_bytes d' off k = sub_bytes d off k" if "off + k \<le> 1 \<or> 5 \<le> off \<and> off + k \<le> base" for off k
    using that keep [of off k] w [of off k] fit S(4) base by auto
  ultimately show ?thesis using d'(1,4) S(1,4) fit by auto
qed

text \<open>Removing the pointer of a cell. The bytes of the cell stay where they are.\<close>

lemma slotted_delete:
  assumes sl: "slotted base d cs" and mid: "mid < length cs" and base: "5 \<le> base"
  shows "\<exists>d1. shift_left base mid (length cs - 1 - mid) d = Ok d1
    \<and> (let d' = write_at 1 (le_bytes 2 (word_of_nat (length cs - 1) :: u16)) d1 in
       slotted base d' (remove_nth mid cs) \<and> content_offset d' = content_offset d
       \<and> (\<forall>off k. off + k \<le> 1 \<or> 5 \<le> off \<and> off + k \<le> base \<longrightarrow> sub_bytes d' off k = sub_bytes d off k))"
proof -
  note S = slottedD [OF sl]
  let ?n = "length cs - 1"
  have "base + 2 * (mid + (?n - mid)) + 2 \<le> length d" using S(1,3,4) mid by simp
  from shift_left_Ok [OF this] obtain d1 where d1: "shift_left base mid (?n - mid) d = Ok d1" "length d1 = PAGE_SIZE"
    "\<And>j. mid \<le> j \<Longrightarrow> j < ?n \<Longrightarrow> cell_ptr base d1 j = cell_ptr base d (j + 1)"
    "\<And>off k. off + k \<le> base + 2 * mid \<or> base + 2 * ?n \<le> off \<Longrightarrow> off + k \<le> PAGE_SIZE \<Longrightarrow> sub_bytes d1 off k = sub_bytes d off k"
    using S(1) mid by (auto simp: Suc_le_eq)
  define d' where "d' = write_at 1 (le_bytes 2 (word_of_nat ?n :: u16)) d1"
  have P: "PAGE_SIZE < 65536" "5 \<le> PAGE_SIZE" by (simp_all add: PAGE_SIZE_def)
  have len: "length d' = PAGE_SIZE" using d1(2) P by (simp add: d'_def)
  have "?n < 65536" using S(3,4) P by linarith
  then have cnt: "cell_count d' = ?n" by (simp add: cell_count_def d'_def unat_of_nat take_bit_eq_mod)
  have far: "sub_bytes d' off k = sub_bytes d1 off k" if "off + k \<le> 1 \<or> 3 \<le> off" "off + k \<le> PAGE_SIZE" for off k
    unfolding d'_def using that d1(2) by (intro sub_bytes_write_other) auto
  have keep: "sub_bytes d' off k = sub_bytes d off k"
    if "off + k \<le> 1 \<or> 3 \<le> off \<and> off + k \<le> base \<or> content_offset d \<le> off" "off + k \<le> PAGE_SIZE" for off k
    using that far [of off k] d1(4) [of off k] S(3) base mid by auto
  have co: "content_offset d' = content_offset d" using keep [of 3 2] base P by (simp add: content_offset_def u16_at_def)
  have ptr: "cell_ptr base d' i = cell_ptr base d1 i" if "i < ?n" for i
    using far [of "base + i * 2" 2] that base S(3,4) by (simp add: cell_ptr_def u16_at_def)
  have ptrs: "cell_ptr base d' i = cell_ptr base d (if i < mid then i else Suc i)" if i: "i < ?n" for i
    using ptr [OF i] d1(3) [of i] d1(4) [of "base + i * 2" 2] i S(3,4) by (auto simp: cell_ptr_def u16_at_def)
  have old: "sub_bytes d' (cell_ptr base d j) (length (cs ! j)) = cs ! j" if "j < length cs" for j
    using S(5-7) [OF that] keep [of "cell_ptr base d j" "length (cs ! j)"] by simp
  have "slotted base d' (remove_nth mid cs)"
    unfolding slotted_def
  proof (intro conjI allI impI)
    fix i assume "i < length (remove_nth mid cs)"
    then have i: "i < ?n" using mid by simp
    then show "content_offset d' \<le> cell_ptr base d' i" "cell_ptr base d' i + length (remove_nth mid cs ! i) \<le> PAGE_SIZE"
      "sub_bytes d' (cell_ptr base d' i) (length (remove_nth mid cs ! i)) = remove_nth mid cs ! i"
      using S(5,6) [of i] S(5,6) [of "Suc i"] old [of i] old [of "Suc i"] mid
      by (auto simp: co ptrs nth_remove_nth split: if_splits)
  next
    fix i j assume "j < length (remove_nth mid cs)" and ij: "i < j"
    then have "j < ?n" "i < ?n" using mid by simp_all
    then show "cells_apart base d' (remove_nth mid cs) i j"
      using mid ij S(8) [of "if i < mid then i else Suc i" "if j < mid then j else Suc j"]
      by (auto simp: cells_apart_def ptrs nth_remove_nth split: if_splits)
  qed (use len cnt co mid S(3,4) in auto)
  then show ?thesis using d1(1) co keep S(3,4) base by (auto simp: d'_def Let_def)
qed

section \<open>Searching\<close>

lemma bsearch_cases:
  assumes "\<And>i. i < n \<Longrightarrow> probe i = Ok (c i)" and "hi \<le> n" and "lo \<le> hi"
    and "\<And>i j. i < j \<Longrightarrow> j < n \<Longrightarrow> c j = Less \<Longrightarrow> c i = Less" and "\<And>i j. i < j \<Longrightarrow> j < n \<Longrightarrow> c i = Greater \<Longrightarrow> c j = Greater"
    and "\<And>i. i < lo \<Longrightarrow> c i = Less" and "\<And>i. hi \<le> i \<Longrightarrow> i < n \<Longrightarrow> c i = Greater"
  shows "(\<exists>m < n. bsearch probe lo hi = Ok (Inl m) \<and> c m = Equal)
    \<or> (\<exists>m \<le> n. bsearch probe lo hi = Ok (Inr m) \<and> (\<forall>i < m. c i = Less) \<and> (\<forall>i. m \<le> i \<and> i < n \<longrightarrow> c i = Greater))"
  using assms(2,3,6,7)
proof (induction "hi - lo" arbitrary: lo hi rule: less_induct)
  case less
  show ?case
  proof (cases "lo < hi")
    case True
    let ?m = "lo + (hi - lo) div 2"
    have m: "?m < hi" "?m < n" "lo \<le> ?m" using True less.prems by auto
    show ?thesis
    proof (cases "c ?m")
      case Equal
      then show ?thesis using True m assms(1) [OF m(2)] by (auto simp: bsearch.simps [of probe lo hi] Let_def)
    next
      case Less
      have "c i = Less" if "i < ?m + 1" for i using that Less assms(4) [of i ?m] m by (cases "i = ?m") auto
      moreover have "hi - (?m + 1) < hi - lo" using m by linarith
      ultimately show ?thesis
        using less.hyps [of hi "?m + 1"] less.prems m assms(1) [OF m(2)] Less True
        by (simp add: bsearch.simps [of probe lo hi] Let_def)
    next
      case Greater
      have "c i = Greater" if "?m \<le> i" "i < n" for i using that Greater assms(5) [of ?m i] m by (cases "i = ?m") auto
      moreover have "?m - lo < hi - lo" using m by linarith
      ultimately show ?thesis
        using less.hyps [of ?m lo] less.prems m assms(1) [OF m(2)] Greater True
        by (simp add: bsearch.simps [of probe lo hi] Let_def)
    qed
  next
    case False
    then have "lo = hi" using less.prems by simp
    moreover from False have "bsearch probe lo hi = Ok (Inr lo)" by (subst bsearch.simps) simp
    ultimately show ?thesis using less.prems by auto
  qed
qed

text \<open>The number of keys below a bound, and at most a bound.\<close>

definition lower_index :: "int list \<Rightarrow> int \<Rightarrow> nat" where
  "lower_index ks k = length (takeWhile (\<lambda>x. x < k) ks)"

definition upper_index :: "int list \<Rightarrow> int \<Rightarrow> nat" where
  "upper_index ks k = length (takeWhile (\<lambda>x. x \<le> k) ks)"

lemma takeWhile_index:
  assumes "m \<le> length ks" and "\<And>i. i < m \<Longrightarrow> P (ks ! i)" and "m < length ks \<Longrightarrow> \<not> P (ks ! m)"
  shows "length (takeWhile P ks) = m"
  using assms by (metis length_takeWhile_less_P_nth le_less length_takeWhile_le linorder_neqE_nat nth_length_takeWhile order_less_le_trans takeWhile_eq_take_P_nth length_take min.absorb2)

lemma int_cmp_iff: "int_cmp a b = Less \<longleftrightarrow> a < b" "int_cmp a b = Equal \<longleftrightarrow> a = b" "int_cmp a b = Greater \<longleftrightarrow> b < a"
  by (auto simp: int_cmp_def)

lemma bsearch_leaf:
  assumes sorted: "sorted_wrt (<) ks" and probe: "\<And>i. i < length ks \<Longrightarrow> probe i = Ok (int_cmp (ks ! i) k)"
  shows "bsearch probe 0 (length ks) = Ok (if k \<in> set ks then Inl (lower_index ks k) else Inr (lower_index ks k))"
proof -
  let ?c = "\<lambda>i. int_cmp (ks ! i) k"
  have lt: "ks ! i < ks ! j" if "i < j" "j < length ks" for i j using sorted that by (simp add: sorted_wrt_iff_nth_less)
  have "(\<exists>m < length ks. bsearch probe 0 (length ks) = Ok (Inl m) \<and> ?c m = Equal)
    \<or> (\<exists>m \<le> length ks. bsearch probe 0 (length ks) = Ok (Inr m) \<and> (\<forall>i < m. ?c i = Less) \<and> (\<forall>i. m \<le> i \<and> i < length ks \<longrightarrow> ?c i = Greater))"
    using probe lt by (intro bsearch_cases) (force simp: int_cmp_iff)+
  then show ?thesis
  proof
    assume "\<exists>m < length ks. bsearch probe 0 (length ks) = Ok (Inl m) \<and> ?c m = Equal"
    then obtain m where m: "m < length ks" "bsearch probe 0 (length ks) = Ok (Inl m)" "ks ! m = k"
      by (metis int_cmp_iff(2))
    then have "lower_index ks k = m" unfolding lower_index_def using lt by (intro takeWhile_index) auto
    moreover have "k \<in> set ks" using m(1,3) by auto
    ultimately show ?thesis using m(2) by simp
  next
    assume "\<exists>m \<le> length ks. bsearch probe 0 (length ks) = Ok (Inr m) \<and> (\<forall>i < m. ?c i = Less) \<and> (\<forall>i. m \<le> i \<and> i < length ks \<longrightarrow> ?c i = Greater)"
    then obtain m where m: "m \<le> length ks" "bsearch probe 0 (length ks) = Ok (Inr m)" "\<And>i. i < m \<Longrightarrow> ks ! i < k"
      "\<And>i. m \<le> i \<Longrightarrow> i < length ks \<Longrightarrow> k < ks ! i" by (metis int_cmp_iff(1,3))
    then have "lower_index ks k = m" unfolding lower_index_def by (intro takeWhile_index) force+
    moreover have "k \<notin> set ks" using m(3,4) by (metis in_set_conv_nth less_irrefl not_le)
    ultimately show ?thesis using m(2) by simp
  qed
qed

lemma bsearch_interior:
  assumes sorted: "sorted_wrt (\<le>) ks" and probe: "\<And>i. i < length ks \<Longrightarrow> probe i = Ok (if k < ks ! i then Greater else Less)"
  shows "bsearch probe 0 (length ks) = Ok (Inr (upper_index ks k))"
proof -
  let ?c = "\<lambda>i. if k < ks ! i then Greater else Less"
  have le: "ks ! i \<le> ks ! j" if "i < j" "j < length ks" for i j using sorted that by (simp add: sorted_wrt_iff_nth_less)
  have "(\<exists>m < length ks. bsearch probe 0 (length ks) = Ok (Inl m) \<and> ?c m = Equal)
    \<or> (\<exists>m \<le> length ks. bsearch probe 0 (length ks) = Ok (Inr m) \<and> (\<forall>i < m. ?c i = Less) \<and> (\<forall>i. m \<le> i \<and> i < length ks \<longrightarrow> ?c i = Greater))"
    using probe le by (intro bsearch_cases) (force split: if_splits)+
  then obtain m where m: "m \<le> length ks" "bsearch probe 0 (length ks) = Ok (Inr m)" "\<And>i. i < m \<Longrightarrow> ks ! i \<le> k"
      "\<And>i. m \<le> i \<Longrightarrow> i < length ks \<Longrightarrow> k < ks ! i"
    by (metis not_less ordering.distinct)
  then have "upper_index ks k = m" unfolding upper_index_def by (intro takeWhile_index) force+
  then show ?thesis using m(2) by simp
qed

section \<open>Leaves\<close>

definition cell_rowid :: "bytes \<Rightarrow> int" where
  "cell_rowid c = sint (i64_at c 4)"

text \<open>The length of a cell as its first field states it.\<close>

definition cell_size :: "bytes \<Rightarrow> nat" where
  "cell_size c = (if u32_at c 0 AND OVERFLOW_FLAG \<noteq> 0 then 20 else 12 + unat (u32_at c 0))"

definition leaf_page :: "bytes \<Rightarrow> bytes list \<Rightarrow> bool" where
  "leaf_page d cs \<longleftrightarrow> slotted LEAF_HEADER_SIZE d cs \<and> page_type d = LEAF_TABLE
     \<and> list_all (\<lambda>c. length c = cell_size c) cs \<and> sorted_wrt (<) (map cell_rowid cs)"

lemma cell_size_ge: "12 \<le> cell_size c"
  by (simp add: cell_size_def)

lemma slotted_field:
  assumes "slotted base d cs" and "i < length cs" and "off + n \<le> length (cs ! i)"
  shows "sub_bytes d (cell_ptr base d i + off) n = sub_bytes (cs ! i) off n"
  using slottedD(7) [OF assms(1,2)] assms(3) by (metis sub_bytes_sub_bytes)

lemma slotted_ptr:
  assumes "slotted base d cs" and "i < length cs"
  shows "rd16 d (base + i * 2) = Ok (cell_ptr base d i)"
  using slottedD [OF assms(1)] assms(2) by (simp add: cell_ptr_def)

lemma slotted_read:
  assumes "slotted base d cs" and "i < length cs"
  shows "off + 4 \<le> length (cs ! i) \<Longrightarrow> rd32 d (cell_ptr base d i + off) = Ok (u32_at (cs ! i) off)"
    "off + 8 \<le> length (cs ! i) \<Longrightarrow> rd64 d (cell_ptr base d i + off) = Ok (i64_at (cs ! i) off)"
  using slottedD(1) [OF assms(1)] slottedD(6) [OF assms] slotted_field [OF assms] by (simp_all add: u32_at_def i64_at_def)

lemma slotted_read0:
  assumes "slotted base d cs" and "i < length cs" and "4 \<le> length (cs ! i)"
  shows "rd32 d (cell_ptr base d i) = Ok (u32_at (cs ! i) 0)"
  using slotted_read(1) [OF assms(1,2), of 0] assms(3) by simp

lemma slotted_valid: "slotted base d cs \<Longrightarrow> i < length cs \<Longrightarrow> n \<le> length (cs ! i) \<Longrightarrow> validate_cell_offset (cell_ptr base d i) n = Ok (cell_ptr base d i)"
  using slottedD(6) [of base d cs i] by simp

lemma cell_key_slotted:
  assumes "slotted base d cs" and "i < length cs" and "12 \<le> length (cs ! i)"
  shows "cell_key v d base i = Ok (i64_at (cs ! i) 4)"
  using assms slotted_read(2) [OF assms(1,2), of 4] by (simp add: cell_key_def slotted_ptr slotted_valid)

lemma leaf_pageD:
  assumes "leaf_page d cs"
  shows "slotted LEAF_HEADER_SIZE d cs" "page_type d = LEAF_TABLE" "c \<in> set cs \<Longrightarrow> length c = cell_size c" "sorted_wrt (<) (map cell_rowid cs)"
    "i < length cs \<Longrightarrow> 12 \<le> length (cs ! i)" "cell_count d = length cs" "length d = PAGE_SIZE"
  using assms cell_size_ge [of "cs ! i"] by (auto simp: leaf_page_def list_all_iff slotted_def)

lemma leaf_search:
  assumes "leaf_page d cs"
  shows "bsearch (leaf_probe v d r) 0 (length cs) =
    Ok (if sint r \<in> set (map cell_rowid cs) then Inl (lower_index (map cell_rowid cs) (sint r)) else Inr (lower_index (map cell_rowid cs) (sint r)))"
proof -
  have "leaf_probe v d r i = Ok (int_cmp (map cell_rowid cs ! i) (sint r))" if "i < length (map cell_rowid cs)" for i
    using that leaf_pageD(1,5) [OF assms] by (simp add: leaf_probe_def cell_key_slotted i64_cmp_def cell_rowid_def)
  from bsearch_leaf [OF leaf_pageD(4) [OF assms] this] show ?thesis by simp
qed

lemma list_insert_insort: "list_insert (lower_index (map f cs) (f c)) c cs = insort_key f c cs"
  by (induction cs) (auto simp: lower_index_def list_insert_def)

lemma sorted_insort_less:
  fixes f :: "'a \<Rightarrow> int"
  shows "sorted_wrt (<) (map f cs) \<Longrightarrow> f c \<notin> f ` set cs \<Longrightarrow> sorted_wrt (<) (map f (insort_key f c cs))"
  by (induction cs) (auto simp: set_insort_key)

lemma lower_index_le [simp]: "lower_index ks k \<le> length ks"
  by (simp add: lower_index_def length_takeWhile_le)

lemma lower_index_nth:
  assumes "sorted_wrt (<) ks" and "k \<in> set ks"
  shows "lower_index ks k < length ks" "ks ! lower_index ks k = k"
proof -
  from assms(2) obtain i where i: "i < length ks" "ks ! i = k" by (auto simp: in_set_conv_nth)
  then have "lower_index ks k = i"
    unfolding lower_index_def using assms(1) by (intro takeWhile_index) (auto simp: sorted_wrt_iff_nth_less)
  with i show "lower_index ks k < length ks" "ks ! lower_index ks k = k" by simp_all
qed

text \<open>The header fields that an insertion or a removal of cells keeps.\<close>

definition same_links :: "bytes \<Rightarrow> bytes \<Rightarrow> bool" where
  "same_links d d' \<longleftrightarrow> page_type d' = page_type d \<and> sub_bytes d' 5 9 = sub_bytes d 5 9"

lemma same_links_next: "same_links d d' \<Longrightarrow> get_next_leaf d' = get_next_leaf d \<and> get_prev_leaf d' = get_prev_leaf d"
  using sub_bytes_sub_bytes [of 1 4 9 d 5] sub_bytes_sub_bytes [of 1 4 9 d' 5] sub_bytes_sub_bytes [of 5 4 9 d 5] sub_bytes_sub_bytes [of 5 4 9 d' 5]
  by (simp add: same_links_def get_next_leaf_def get_prev_leaf_def u32_at_def)

lemma page_type_keep: "length d = PAGE_SIZE \<Longrightarrow> length d' = PAGE_SIZE \<Longrightarrow> sub_bytes d' 0 1 = sub_bytes d 0 1 \<Longrightarrow> page_type d' = page_type d"
  by (cases d; cases d') (auto simp: page_type_def sub_bytes_def)

definition leaf_room :: "bytes \<Rightarrow> nat" where
  "leaf_room d = content_offset d - (LEAF_HEADER_SIZE + 2 * cell_count d)"

lemma insert_cell_into_leaf_dup:
  assumes "leaf_page d cs" and "sint r \<in> cell_rowid ` set cs"
  shows "insert_cell_into_leaf r c d = Err (unique_error r)"
  using assms leaf_search [OF assms(1), of False r] leaf_pageD(6) [OF assms(1)]
  by (simp add: insert_cell_into_leaf_def leaf_insert_index_def)

lemma insert_cell_into_leaf_ok:
  assumes lp: "leaf_page d cs" and new: "cell_rowid c \<notin> cell_rowid ` set cs" and c: "length c = cell_size c" "cell_rowid c = sint r"
    and fit: "length c + 2 \<le> leaf_room d"
  shows "\<exists>d'. insert_cell_into_leaf r c d = Ok d' \<and> leaf_page d' (insort_key cell_rowid c cs) \<and> same_links d d'
    \<and> content_offset d' = content_offset d - length c"
proof -
  note L = leaf_pageD [OF lp]
  let ?i = "lower_index (map cell_rowid cs) (cell_rowid c)"
  have fit': "LEAF_HEADER_SIZE + 2 * length cs + 2 + length c \<le> content_offset d" using fit L(6) by (simp add: leaf_room_def)
  have i: "?i \<le> length cs" using lower_index_le [of "map cell_rowid cs"] by simp
  have base: "5 \<le> LEAF_HEADER_SIZE" by (simp add: LEAF_HEADER_SIZE_def)
  from slotted_insert [OF L(1) i fit' base] obtain d' where d':
    "res_bind (copy_into (content_offset d - length c) c d) (link_cell LEAF_HEADER_SIZE ?i (length cs) (content_offset d - length c)) = Ok d'"
    "slotted LEAF_HEADER_SIZE d' (insort_key cell_rowid c cs)" "content_offset d' = content_offset d - length c"
    "\<And>off k. off + k \<le> 1 \<or> 5 \<le> off \<and> off + k \<le> LEAF_HEADER_SIZE \<Longrightarrow> sub_bytes d' off k = sub_bytes d off k"
    by (auto simp: list_insert_insort)
  have "insert_cell_into_leaf r c d = Ok d'"
    using leaf_search [OF lp, of False r] new c L(6) fit' d'(1)
    by (simp add: insert_cell_into_leaf_def leaf_insert_index_def write_cell_to_leaf_def)
  moreover have links: "same_links d d'"
    using d'(4) [of 0 1] d'(4) [of 5 9] slottedD(1) [OF d'(2)] L(7) page_type_keep [of d d'] by (simp add: same_links_def LEAF_HEADER_SIZE_def)
  moreover have "leaf_page d' (insort_key cell_rowid c cs)"
    using d'(2) links L(2-4) new c(1) sorted_insort_less [OF L(4) new]
    by (auto simp: leaf_page_def same_links_def list_all_iff set_insort_key)
  ultimately show ?thesis using d'(3) by blast
qed

lemma length_make_cell [simp]:
  "length (make_leaf_cell r payload) = 12 + length payload" "length (make_overflow_cell r n p) = 20" "length (make_interior_cell k p) = 12"
  by (simp_all add: make_leaf_cell_def make_overflow_cell_def make_interior_cell_def)

lemma leaf_raw_insert:
  "insert_cell_into_leaf_raw r payload d = insert_cell_into_leaf r (make_leaf_cell r payload) d"
proof -
  let ?a = "le_bytes 4 (word_of_nat (length payload) :: u32)" and ?b = "le_bytes 8 r"
  have eq: "res_bind (copy_into new ?a d) (\<lambda>d1. res_bind (copy_into (new + 4) ?b d1) (\<lambda>d2. res_bind (copy_into (new + 12) payload d2) g))
      = res_bind (copy_into new (make_leaf_cell r payload) d) g" for new and g :: "bytes \<Rightarrow> bytes res"
    using write_at_append [of new ?a ?b d] write_at_append [of new "?a @ ?b" payload d]
    by (auto simp: copy_into_def add.assoc max_def make_leaf_cell_def)
  show ?thesis
    unfolding insert_cell_into_leaf_raw_def insert_cell_into_leaf_def write_cell_to_leaf_def Let_def eq length_make_cell ..
qed

text \<open>
  The fast insertion of a row into a leaf, which writes the fields of the cell straight into the page, is the insertion of the
  cell that \<^verbatim>\<open>make_leaf_cell\<close> builds, on every page, also where it fails or panics.
\<close>

lemma leaf_raw_insert_eq:
  "insert_cell_into_leaf_raw r payload d = insert_cell_into_leaf r (make_leaf_cell r payload) d"
  by (rule leaf_raw_insert)

lemma overflow_raw_insert_eq:
  "insert_overflow_cell_raw r n p d = insert_cell_into_leaf r (make_overflow_cell r n p) d"
proof -
  let ?a = "le_bytes 4 OVERFLOW_FLAG" and ?b = "le_bytes 8 r" and ?c = "le_bytes 4 n" and ?e = "le_bytes 4 p"
  have eq: "res_bind (copy_into new ?a d) (\<lambda>d1. res_bind (copy_into (new + 4) ?b d1) (\<lambda>d2. res_bind (copy_into (new + 12) ?c d2)
          (\<lambda>d3. res_bind (copy_into (new + 16) ?e d3) g)))
      = res_bind (copy_into new (make_overflow_cell r n p) d) g" for new and g :: "bytes \<Rightarrow> bytes res"
    using write_at_append [of new ?a ?b d] write_at_append [of new "?a @ ?b" ?c d] write_at_append [of new "?a @ ?b @ ?c" ?e d]
    by (auto simp: copy_into_def add.assoc max_def make_overflow_cell_def)
  show ?thesis
    unfolding insert_overflow_cell_raw_def insert_cell_into_leaf_def write_cell_to_leaf_def Let_def eq length_make_cell ..
qed

text \<open>Fields of the cells.\<close>

lemma flag_clear: "n < 2 ^ 31 \<Longrightarrow> (word_of_nat n :: u32) AND OVERFLOW_FLAG = 0"
proof (rule bit_word_eqI)
  fix i assume n: "n < 2 ^ 31" and "i < LENGTH(32)"
  have f: "OVERFLOW_FLAG = (2::u32) ^ 31" by (simp add: OVERFLOW_FLAG_def)
  have "bit OVERFLOW_FLAG i \<longleftrightarrow> i = 31" unfolding f bit_exp_iff by auto
  moreover have "\<not> bit (word_of_nat n :: u32) 31" using n by (simp add: bit_simps) (simp add: bit_nat_def)
  ultimately show "bit ((word_of_nat n :: u32) AND OVERFLOW_FLAG) i = bit (0::u32) i" by (auto simp: bit_and_iff)
qed

lemma unat_u32_of_nat: "n < 2 ^ 32 \<Longrightarrow> unat (word_of_nat n :: u32) = n"
  by (simp add: unat_of_nat take_bit_eq_mod)

lemma leaf_cell_fields:
  assumes "length payload < 2 ^ 31"
  shows "u32_at (make_leaf_cell r payload) 0 = word_of_nat (length payload)" "i64_at (make_leaf_cell r payload) 4 = r"
    "cell_size (make_leaf_cell r payload) = 12 + length payload" "cell_rowid (make_leaf_cell r payload) = sint r"
proof -
  show u: "u32_at (make_leaf_cell r payload) 0 = word_of_nat (length payload)" and i: "i64_at (make_leaf_cell r payload) 4 = r"
    by (simp_all add: make_leaf_cell_def u32_at_def i64_at_def)
  show "cell_size (make_leaf_cell r payload) = 12 + length payload" using assms by (simp add: cell_size_def u flag_clear unat_u32_of_nat)
  show "cell_rowid (make_leaf_cell r payload) = sint r" by (simp add: cell_rowid_def i)
qed

lemma overflow_cell_fields:
  "u32_at (make_overflow_cell r n p) 0 = OVERFLOW_FLAG" "i64_at (make_overflow_cell r n p) 4 = r"
  "u32_at (make_overflow_cell r n p) 12 = n" "u32_at (make_overflow_cell r n p) 16 = p"
  "cell_size (make_overflow_cell r n p) = 20" "cell_rowid (make_overflow_cell r n p) = sint r"
  by (simp_all add: make_overflow_cell_def u32_at_def i64_at_def cell_size_def cell_rowid_def OVERFLOW_FLAG_def)

lemma interior_cell_fields:
  "u32_at (make_interior_cell k p) 0 = p" "i64_at (make_interior_cell k p) 4 = k"
  by (simp_all add: make_interior_cell_def u32_at_def i64_at_def)

text \<open>Removing and finding a row.\<close>

lemma remove_nth_filter:
  fixes f :: "'a \<Rightarrow> int"
  shows "sorted_wrt (<) (map f cs) \<Longrightarrow> k \<in> f ` set cs \<Longrightarrow> remove_nth (lower_index (map f cs) k) cs = filter (\<lambda>c. f c \<noteq> k) cs"
proof (induction cs)
  case (Cons c cs)
  show ?case
  proof (cases "f c = k")
    case True
    then have "filter (\<lambda>c. f c \<noteq> k) cs = cs" using Cons.prems by (auto simp: filter_id_conv)
    with True show ?thesis by (simp add: lower_index_def remove_nth_def)
  next
    case False
    then have "k \<in> f ` set cs" "f c < k" using Cons.prems by auto
    with Cons show ?thesis by (simp add: lower_index_def remove_nth_def False)
  qed
qed simp

lemma delete_from_leaf_missing:
  assumes "leaf_page d cs" and "sint r \<notin> cell_rowid ` set cs"
  shows "delete_from_leaf r d = Ok ((False, None), d)"
  using assms leaf_search [OF assms(1), of True r] leaf_pageD(6) [OF assms(1)] by (simp add: delete_from_leaf_def)

lemma leaf_found:
  assumes "leaf_page d cs" and "c \<in> set cs"
  shows "lower_index (map cell_rowid cs) (cell_rowid c) < length cs" "cs ! lower_index (map cell_rowid cs) (cell_rowid c) = c"
proof -
  let ?i = "lower_index (map cell_rowid cs) (cell_rowid c)"
  have i: "?i < length (map cell_rowid cs)" "map cell_rowid cs ! ?i = cell_rowid c"
    using lower_index_nth [OF leaf_pageD(4) [OF assms(1)], of "cell_rowid c"] assms(2) by auto
  then show "?i < length cs" by simp
  from assms(2) obtain j where j: "j < length cs" "cs ! j = c" by (auto simp: in_set_conv_nth)
  have "inj_on (\<lambda>i. map cell_rowid cs ! i) {..<length cs}"
    using leaf_pageD(4) [OF assms(1)] by (auto simp: strict_sorted_iff distinct_conv_nth inj_on_def)
  then have "?i = j" using i j by (auto simp: inj_on_def)
  with j show "cs ! ?i = c" by simp
qed

definition first_overflow :: "bytes \<Rightarrow> u32 option" where
  "first_overflow c = (if u32_at c 0 AND OVERFLOW_FLAG \<noteq> 0 then Some (u32_at c 16) else None)"

lemma delete_from_leaf_found:
  assumes lp: "leaf_page d cs" and c: "c \<in> set cs" "cell_rowid c = sint r"
  shows "\<exists>d'. delete_from_leaf r d = Ok ((True, first_overflow c), d') \<and> leaf_page d' (filter (\<lambda>c. cell_rowid c \<noteq> sint r) cs)
    \<and> same_links d d' \<and> content_offset d' = content_offset d"
proof -
  note L = leaf_pageD [OF lp]
  let ?i = "lower_index (map cell_rowid cs) (sint r)"
  have i: "?i < length cs" "cs ! ?i = c" using leaf_found [OF lp c(1)] c(2) by simp_all
  have base: "5 \<le> LEAF_HEADER_SIZE" by (simp add: LEAF_HEADER_SIZE_def)
  have len: "12 \<le> length c" "u32_at c 0 AND OVERFLOW_FLAG \<noteq> 0 \<Longrightarrow> length c = 20" using L(3) [OF c(1)] cell_size_ge [of c] by (simp_all add: cell_size_def)
  obtain d1 where d1: "shift_left LEAF_HEADER_SIZE ?i (length cs - 1 - ?i) d = Ok d1"
    and d': "let d' = write_at 1 (le_bytes 2 (word_of_nat (length cs - 1) :: u16)) d1 in
       slotted LEAF_HEADER_SIZE d' (remove_nth ?i cs) \<and> content_offset d' = content_offset d
       \<and> (\<forall>off k. off + k \<le> 1 \<or> 5 \<le> off \<and> off + k \<le> LEAF_HEADER_SIZE \<longrightarrow> sub_bytes d' off k = sub_bytes d off k)"
    using slotted_delete [OF L(1) i(1) base] by blast
  define d2 where "d2 = write_at 1 (le_bytes 2 (word_of_nat (length cs - 1) :: u16)) d1"
  have rm: "remove_nth ?i cs = filter (\<lambda>c. cell_rowid c \<noteq> sint r) cs"
    using c by (intro remove_nth_filter L(4)) (auto intro!: image_eqI [of _ _ c])
  have D: "slotted LEAF_HEADER_SIZE d2 (filter (\<lambda>c. cell_rowid c \<noteq> sint r) cs)" "content_offset d2 = content_offset d"
    "sub_bytes d2 0 1 = sub_bytes d 0 1" "sub_bytes d2 5 9 = sub_bytes d 5 9"
    using d' rm by (auto simp: Let_def d2_def LEAF_HEADER_SIZE_def)
  have first: "(if u32_at c 0 AND OVERFLOW_FLAG \<noteq> 0 then res_bind (rd32 d (cell_ptr LEAF_HEADER_SIZE d ?i + 16)) (\<lambda>p. Ok (Some p)) else Ok None)
      = Ok (first_overflow c)"
    using slotted_read(1) [OF L(1) i(1), of 16] len(2) by (simp add: i(2) first_overflow_def)
  have "sint r \<in> cell_rowid ` set cs" using c by force
  then have "delete_from_leaf r d = Ok ((True, first_overflow c), d2)"
    using leaf_search [OF lp, of True r] L(6) d1 len(1) slotted_ptr [OF L(1) i(1)] slotted_read0 [OF L(1) i(1)] first
    by (simp add: delete_from_leaf_def i(2) d2_def)
  moreover have links: "same_links d d2" using D(3,4) L(7) slottedD(1) [OF D(1)] page_type_keep [of d d2] by (simp add: same_links_def)
  moreover have "leaf_page d2 (filter (\<lambda>c. cell_rowid c \<noteq> sint r) cs)"
    using D(1) links L(2,3) sorted_wrt_filter [of "\<lambda>x y. cell_rowid x < cell_rowid y" cs] L(4)
    by (auto simp: leaf_page_def same_links_def list_all_iff sorted_wrt_map)
  ultimately show ?thesis using D(2) by blast
qed

lemma find_in_leaf_missing:
  assumes "leaf_page d cs" and "sint r \<notin> cell_rowid ` set cs"
  shows "find_in_leaf r d = Ok None"
  using assms leaf_search [OF assms(1), of True r] leaf_pageD(6) [OF assms(1)] by (simp add: find_in_leaf_def)

lemma find_in_leaf_found:
  assumes lp: "leaf_page d cs" and c: "c \<in> set cs" "cell_rowid c = sint r"
  shows "\<exists>off. find_in_leaf r d = Ok (Some (off, u32_at c 0)) \<and> off + length c \<le> PAGE_SIZE \<and> sub_bytes d off (length c) = c"
proof -
  note L = leaf_pageD [OF lp]
  let ?i = "lower_index (map cell_rowid cs) (sint r)"
  have i: "?i < length cs" "cs ! ?i = c" using leaf_found [OF lp c(1)] c(2) by simp_all
  have len: "12 \<le> length c" using L(3) [OF c(1)] cell_size_ge [of c] by simp
  have "sint r \<in> cell_rowid ` set cs" using c by force
  then have "find_in_leaf r d = Ok (Some (cell_ptr LEAF_HEADER_SIZE d ?i, u32_at c 0))"
    using leaf_search [OF lp, of True r] L(6) slotted_ptr [OF L(1) i(1)] slotted_read0 [OF L(1) i(1)] len by (simp add: find_in_leaf_def i(2))
  then show ?thesis using slottedD(6,7) [OF L(1) i(1)] i(2) by auto
qed

lemma collect_leaf:
  assumes "leaf_page d cs"
  shows "i + n = length cs \<Longrightarrow> collect_leaf_cells d i n = Ok (map (\<lambda>c. (i64_at c 4, c)) (drop i cs))"
proof (induction n arbitrary: i)
  case (Suc n)
  note L = leaf_pageD [OF assms]
  have i: "i < length cs" using Suc.prems by simp
  have len: "12 \<le> length (cs ! i)" "length (cs ! i) = (if u32_at (cs ! i) 0 AND OVERFLOW_FLAG \<noteq> 0 then 20 else 12 + unat (u32_at (cs ! i) 0))"
    using L(3) [OF nth_mem [OF i]] L(5) [OF i] by (simp_all add: cell_size_def)
  have sl: "slice_range d (cell_ptr LEAF_HEADER_SIZE d i) (cell_ptr LEAF_HEADER_SIZE d i + length (cs ! i)) = Ok (cs ! i)"
    using slottedD(6,7) [OF L(1) i] L(7) by (simp add: sub_bytes_def)
  show ?case
    using Suc.IH [of "i + 1"] Suc.prems slotted_ptr [OF L(1) i] slotted_valid [OF L(1) i] slotted_read0 [OF L(1) i] slotted_read(2) [OF L(1) i, of 4] sl len(1)
    by (simp flip: len(2)) (simp add: Cons_nth_drop_Suc [OF i, symmetric])
qed simp

text \<open>A fresh leaf.\<close>

lemma init_leaf:
  assumes "length d = PAGE_SIZE"
  shows "leaf_page (init_leaf_page d) []" "content_offset (init_leaf_page d) = PAGE_SIZE"
    "get_next_leaf (init_leaf_page d) = 0" "get_prev_leaf (init_leaf_page d) = 0"
proof -
  have len: "length (init_leaf_page d) = PAGE_SIZE" using assms by (simp add: init_leaf_page_def write_page_header_def Let_def PAGE_SIZE_def)
  have "u16_at (init_leaf_page d) 1 = 0" "u16_at (init_leaf_page d) 3 = page_size_to_u16" "page_type (init_leaf_page d) = LEAF_TABLE"
    and l: "get_next_leaf (init_leaf_page d) = 0" "get_prev_leaf (init_leaf_page d) = 0"
    using assms by (simp_all add: init_leaf_page_def write_page_header_def Let_def PAGE_SIZE_def at_write_other get_next_leaf_def
        get_prev_leaf_def page_type_def nth_write_at)
  then show "leaf_page (init_leaf_page d) []" "content_offset (init_leaf_page d) = PAGE_SIZE"
    using len by (simp_all add: leaf_page_def slotted_def cell_count_def content_offset_def page_size_to_u16_def u16_to_page_size_def PAGE_SIZE_def LEAF_HEADER_SIZE_def)
  show "get_next_leaf (init_leaf_page d) = 0" "get_prev_leaf (init_leaf_page d) = 0" by (fact l)+
qed

section \<open>Interior pages\<close>

type_synonym entry = "u32 \<times> i64"

definition entry_cell :: "entry \<Rightarrow> bytes" where
  "entry_cell e = make_interior_cell (snd e) (fst e)"

definition entry_key :: "entry \<Rightarrow> int" where
  "entry_key e = sint (snd e)"

definition interior_page :: "bytes \<Rightarrow> entry list \<Rightarrow> u32 \<Rightarrow> bool" where
  "interior_page d es right \<longleftrightarrow> slotted INTERIOR_HEADER_SIZE d (map entry_cell es) \<and> page_type d = INTERIOR_TABLE
     \<and> right_child d = right \<and> sorted_wrt (\<le>) (map entry_key es)"

text \<open>The children of an interior page in order.\<close>

definition children :: "entry list \<Rightarrow> u32 \<Rightarrow> u32 list" where
  "children es right = map fst es @ [right]"

lemma interior_pageD:
  assumes "interior_page d es right"
  shows "slotted INTERIOR_HEADER_SIZE d (map entry_cell es)" "page_type d = INTERIOR_TABLE" "right_child d = right"
    "sorted_wrt (\<le>) (map entry_key es)" "cell_count d = length es" "length d = PAGE_SIZE"
  using assms by (auto simp: interior_page_def slotted_def)

lemma length_entry_cell [simp]: "length (entry_cell e) = 12"
  by (simp add: entry_cell_def)

lemma interior_search:
  assumes "interior_page d es right"
  shows "bsearch (interior_probe v d k) 0 (length es) = Ok (Inr (upper_index (map entry_key es) (sint k)))"
proof -
  have "interior_probe v d k i = Ok (if sint k < map entry_key es ! i then Greater else Less)" if "i < length (map entry_key es)" for i
    using that cell_key_slotted [OF interior_pageD(1) [OF assms], of i v]
    by (simp add: interior_probe_def entry_key_def) (simp add: entry_cell_def interior_cell_fields)
  from bsearch_interior [OF interior_pageD(4) [OF assms] this] show ?thesis by simp
qed

lemma interior_child:
  assumes "interior_page d es right" and "i < length es"
  shows "rd16 d (INTERIOR_HEADER_SIZE + i * 2) = Ok (cell_ptr INTERIOR_HEADER_SIZE d i)"
    "rd32 d (cell_ptr INTERIOR_HEADER_SIZE d i) = Ok (fst (es ! i))" "rd64 d (cell_ptr INTERIOR_HEADER_SIZE d i + 4) = Ok (snd (es ! i))"
    "n \<le> 12 \<Longrightarrow> validate_cell_offset (cell_ptr INTERIOR_HEADER_SIZE d i) n = Ok (cell_ptr INTERIOR_HEADER_SIZE d i)"
  using slotted_ptr [OF interior_pageD(1) [OF assms(1)], of i] slotted_read0 [OF interior_pageD(1) [OF assms(1)], of i]
    slotted_read(2) [OF interior_pageD(1) [OF assms(1)], of i 4] slotted_valid [OF interior_pageD(1) [OF assms(1)], of i n] assms(2)
  by (simp_all add: entry_cell_def interior_cell_fields)

lemma upper_index_le [simp]: "upper_index ks k \<le> length ks"
  by (simp add: upper_index_def length_takeWhile_le)

lemma find_child_page_ok:
  assumes "interior_page d es right"
  shows "find_child_page d r = Ok (children es right ! upper_index (map entry_key es) (sint r))"
proof -
  let ?i = "upper_index (map entry_key es) (sint r)"
  have le: "?i \<le> length es" using upper_index_le [of "map entry_key es"] by simp
  show ?thesis
  proof (cases "es = []")
    case True
    then show ?thesis using interior_pageD(3,5) [OF assms] by (simp add: find_child_page_def children_def upper_index_def)
  next
    case False
    show ?thesis
    proof (cases "?i < length es")
      case True
      then show ?thesis
        using False interior_search [OF assms, of True r] interior_pageD(5) [OF assms] interior_child(1,2,4) [OF assms True]
        by (simp add: find_child_page_def children_def nth_append)
    next
      case i: False
      then show ?thesis
        using False le interior_search [OF assms, of True r] interior_pageD(3,5) [OF assms]
        by (simp add: find_child_page_def children_def nth_append)
    qed
  qed
qed

lemma map_list_insert: "map f (list_insert i x xs) = list_insert i (f x) (map f xs)"
  by (simp add: list_insert_def take_map drop_map)

lemma sorted_insert_upper:
  "sorted_wrt (\<le>) ks \<Longrightarrow> sorted_wrt (\<le>) (list_insert (upper_index ks k) (k::int) ks)"
proof (induction ks)
  case (Cons a ks)
  have "x \<in> set (list_insert (upper_index ks k) k ks) \<Longrightarrow> x = k \<or> x \<in> set ks" for x
    by (auto simp: list_insert_def dest: in_set_takeD in_set_dropD)
  with Cons show ?case by (auto simp: upper_index_def list_insert_def not_le dest: in_set_takeD)
qed (simp add: upper_index_def list_insert_def)

definition interior_room :: "bytes \<Rightarrow> nat" where
  "interior_room d = content_offset d - (INTERIOR_HEADER_SIZE + 2 * cell_count d)"

lemma insert_interior_cell_ok:
  assumes ip: "interior_page d es right" and fit: "14 \<le> interior_room d"
  shows "\<exists>d'. insert_interior_cell k p d = Ok d' \<and> interior_page d' (list_insert (upper_index (map entry_key es) (sint k)) (p, k) es) right
    \<and> content_offset d' = content_offset d - 12"
proof -
  note I = interior_pageD [OF ip]
  let ?i = "upper_index (map entry_key es) (sint k)" and ?c = "make_interior_cell k p"
  have fit': "INTERIOR_HEADER_SIZE + 2 * length (map entry_cell es) + 2 + length ?c \<le> content_offset d"
    using fit I(5) by (simp add: interior_room_def)
  have i: "?i \<le> length (map entry_cell es)" using upper_index_le [of "map entry_key es"] by simp
  have base: "5 \<le> INTERIOR_HEADER_SIZE" by (simp add: INTERIOR_HEADER_SIZE_def)
  from slotted_insert [OF I(1) i fit' base] obtain d' where d':
    "res_bind (copy_into (content_offset d - 12) ?c d) (link_cell INTERIOR_HEADER_SIZE ?i (length es) (content_offset d - 12)) = Ok d'"
    "slotted INTERIOR_HEADER_SIZE d' (list_insert ?i ?c (map entry_cell es))" "content_offset d' = content_offset d - 12"
    "\<And>off n. off + n \<le> 1 \<or> 5 \<le> off \<and> off + n \<le> INTERIOR_HEADER_SIZE \<Longrightarrow> sub_bytes d' off n = sub_bytes d off n"
    by auto
  have "insert_interior_cell k p d = Ok d'"
    using interior_search [OF ip, of False k] I(5) fit' d'(1) by (simp add: insert_interior_cell_def Let_def)
  moreover have "page_type d' = INTERIOR_TABLE" "right_child d' = right"
    using d'(4) [of 0 1] d'(4) [of 6 4] slottedD(1) [OF d'(2)] I(2,3,6) page_type_keep [of d d']
    by (simp_all add: right_child_def u32_at_def INTERIOR_HEADER_SIZE_def)
  ultimately show ?thesis
    using d'(2,3) sorted_insert_upper [OF I(4), of "sint k"] by (auto simp: interior_page_def map_list_insert entry_cell_def entry_key_def)
qed

lemma find_divider_ok:
  assumes "interior_page d es right"
  shows "i + n = length es \<Longrightarrow> find_divider d k i n =
    Ok (if k \<in> snd ` set (drop i es) then Some (i + length (takeWhile (\<lambda>e. snd e \<noteq> k) (drop i es))) else None)"
proof (induction n arbitrary: i)
  case (Suc n)
  then have i: "i < length es" by simp
  have "cell_key True d INTERIOR_HEADER_SIZE i = Ok (snd (es ! i))"
    using cell_key_slotted [OF interior_pageD(1) [OF assms], of i True] i by simp (simp add: entry_cell_def interior_cell_fields)
  with Suc.IH [of "i + 1"] Suc.prems show ?case by (auto simp: Cons_nth_drop_Suc [OF i, symmetric])
qed simp

text \<open>The child behind the first divider with the key is replaced.\<close>

lemma slotted_patch:
  assumes sl: "slotted base d cs" and j: "j < length cs" and base: "5 \<le> base" and n: "length bs \<le> length (cs ! j)"
  shows "slotted base (write_at (cell_ptr base d j) bs d) (cs[j := write_at 0 bs (cs ! j)])"
    "off + k \<le> base \<Longrightarrow> sub_bytes (write_at (cell_ptr base d j) bs d) off k = sub_bytes d off k"
    "content_offset (write_at (cell_ptr base d j) bs d) = content_offset d"
proof -
  note S = slottedD [OF sl]
  let ?d = "write_at (cell_ptr base d j) bs d" and ?cs = "cs[j := write_at 0 bs (cs ! j)]"
  have len: "length ?d = PAGE_SIZE" using S(1) S(6) [OF j] n by simp
  have low: "sub_bytes ?d off k = sub_bytes d off k" if "off + k \<le> content_offset d" for off k
    using that S(5) [OF j] S(1,4) by (intro sub_bytes_write_other) auto
  then show "off + k \<le> base \<Longrightarrow> sub_bytes ?d off k = sub_bytes d off k" using S(3) by simp
  show co: "content_offset ?d = content_offset d" using low [of 3 2] base S(3) by (simp add: content_offset_def u16_at_def)
  have cnt: "cell_count ?d = length cs" using low [of 1 2] base S(2,3) by (simp add: cell_count_def u16_at_def)
  have ptr: "cell_ptr base ?d i = cell_ptr base d i" if "i < length cs" for i
    using low [of "base + i * 2" 2] that S(3) by (simp add: cell_ptr_def u16_at_def)
  have lens: "length (?cs ! i) = length (cs ! i)" if "i < length cs" for i using n that by (cases "i = j") auto
  have cells: "sub_bytes ?d (cell_ptr base d i) (length (cs ! i)) = ?cs ! i" if i: "i < length cs" for i
  proof (cases "i = j")
    case True
    have "sub_bytes ?d (cell_ptr base d j) (length (cs ! j)) = write_at 0 bs (cs ! j)"
    proof (rule nth_equalityI)
      fix m assume "m < length (sub_bytes ?d (cell_ptr base d j) (length (cs ! j)))"
      then have m: "m < length (cs ! j)" using S(6) [OF j] len by simp
      have "sub_bytes d (cell_ptr base d j) (length (cs ! j)) ! m = cs ! j ! m" using S(7) [OF j] by simp
      then have "d ! (cell_ptr base d j + m) = cs ! j ! m" using m S(1) S(6) [OF j] by (simp add: nth_sub_bytes)
      then show "sub_bytes ?d (cell_ptr base d j) (length (cs ! j)) ! m = write_at 0 bs (cs ! j) ! m"
        using m n S(1) S(6) [OF j] len by (simp add: nth_sub_bytes nth_write_at)
    qed (use S(6) [OF j] len n in simp)
    with True j show ?thesis by simp
  next
    case False
    have "cells_apart base d cs i j \<or> cells_apart base d cs j i" using S(8) [of i j] S(8) [of j i] i j False by linarith
    then have "sub_bytes ?d (cell_ptr base d i) (length (cs ! i)) = sub_bytes d (cell_ptr base d i) (length (cs ! i))"
      using S(1) S(6) [OF i] n by (intro sub_bytes_write_other) (auto simp: cells_apart_def)
    with False show ?thesis using S(7) [OF i] by simp
  qed
  show "slotted base ?d ?cs"
    unfolding slotted_def
  proof (intro conjI allI impI)
    fix i assume "i < length ?cs"
    then have i: "i < length cs" by simp
    show "content_offset ?d \<le> cell_ptr base ?d i" "cell_ptr base ?d i + length (?cs ! i) \<le> PAGE_SIZE"
      "sub_bytes ?d (cell_ptr base ?d i) (length (?cs ! i)) = ?cs ! i"
      using S(5,6) [OF i] cells [OF i] by (simp_all only: co ptr [OF i] lens [OF i])
  next
    fix i k assume "k < length ?cs" "i < k"
    then show "cells_apart base ?d ?cs i k" using S(8) [of i k] by (simp add: cells_apart_def ptr lens del: nth_list_update)
  qed (use len cnt co S(3,4) in simp_all)
qed

lemma replace_child_pointer_ok:
  assumes ip: "interior_page d es right" and k: "k \<in> snd ` set es"
  defines "i \<equiv> length (takeWhile (\<lambda>e. snd e \<noteq> k) es)"
  shows "\<exists>d'. replace_child_pointer k p d = Ok d' \<and> content_offset d' = content_offset d
    \<and> (if i + 1 < length es then interior_page d' (es[i + 1 := (p, snd (es ! (i + 1)))]) right else interior_page d' es p)"
proof -
  note I = interior_pageD [OF ip]
  have base: "5 \<le> INTERIOR_HEADER_SIZE" by (simp add: INTERIOR_HEADER_SIZE_def)
  have div: "find_divider d k 0 (cell_count d) = Ok (Some i)" using find_divider_ok [OF ip, of 0 "length es" k] k I(5) by (simp add: i_def)
  show ?thesis
  proof (cases "i + 1 < length es")
    case True
    let ?d = "write_at (cell_ptr INTERIOR_HEADER_SIZE d (i + 1)) (le_bytes 4 p) d"
    have j: "i + 1 < length (map entry_cell es)" using True by simp
    have eq: "write_at 0 (le_bytes 4 p) (entry_cell e) = entry_cell (p, snd e)" for e
      by (simp add: entry_cell_def make_interior_cell_def write_at_def)
    have P: "slotted INTERIOR_HEADER_SIZE ?d ((map entry_cell es)[i + 1 := entry_cell (p, snd (es ! (i + 1)))])"
      "content_offset ?d = content_offset d" "sub_bytes ?d 0 1 = sub_bytes d 0 1" "sub_bytes ?d 6 4 = sub_bytes d 6 4"
      using slotted_patch [OF I(1) j base, of "le_bytes 4 p"] j eq by (simp_all add: INTERIOR_HEADER_SIZE_def)
    have "replace_child_pointer k p d = Ok ?d"
      using True div I(5,6) interior_child(1) [OF ip True] slottedD(6) [OF I(1) j] by (simp add: replace_child_pointer_def)
    moreover have "page_type ?d = INTERIOR_TABLE" "right_child ?d = right"
      using P(3,4) slottedD(1) [OF P(1)] I(2,3,6) page_type_keep [of d ?d] by (simp_all add: right_child_def u32_at_def)
    moreover have "map entry_key (es[i + 1 := (p, snd (es ! (i + 1)))]) = map entry_key es"
      using True by (simp add: map_update entry_key_def list_update_same_conv)
    ultimately show ?thesis using P(1,2) True I(4) by (simp add: interior_page_def map_update)
  next
    case False
    let ?d = "write_at 6 (le_bytes 4 p) d"
    have "6 + length (le_bytes 4 p) \<le> length d" using I(6) by (simp add: PAGE_SIZE_def)
    then have len: "length ?d = PAGE_SIZE" using I(6) by (simp only: length_write_in)
    have keep: "sub_bytes ?d off n = sub_bytes d off n" if "off + n \<le> 6 \<or> 10 \<le> off" "off + n \<le> PAGE_SIZE" for off n
      using that I(6) by (intro sub_bytes_write_other) auto
    have P: "cell_count ?d = cell_count d" "content_offset ?d = content_offset d" "page_type ?d = page_type d"
      using keep [of 1 2] keep [of 3 2] keep [of 0 1] len I(6) page_type_keep [of d ?d]
      by (simp_all add: cell_count_def content_offset_def u16_at_def PAGE_SIZE_def)
    have ptr: "cell_ptr INTERIOR_HEADER_SIZE ?d j = cell_ptr INTERIOR_HEADER_SIZE d j" if "j < length es" for j
      using keep [of "INTERIOR_HEADER_SIZE + j * 2" 2] that slottedD(3,4) [OF I(1)] by (simp add: cell_ptr_def u16_at_def INTERIOR_HEADER_SIZE_def)
    have "slotted INTERIOR_HEADER_SIZE ?d (map entry_cell es)"
      unfolding slotted_def
    proof (intro conjI allI impI)
      fix j assume "j < length (map entry_cell es)"
      then have j: "j < length es" "j < length (map entry_cell es)" by simp_all
      show "content_offset ?d \<le> cell_ptr INTERIOR_HEADER_SIZE ?d j" "cell_ptr INTERIOR_HEADER_SIZE ?d j + length (map entry_cell es ! j) \<le> PAGE_SIZE"
        "sub_bytes ?d (cell_ptr INTERIOR_HEADER_SIZE ?d j) (length (map entry_cell es ! j)) = map entry_cell es ! j"
        using slottedD(5-7) [OF I(1) j(2)] slottedD(3) [OF I(1)] keep [of "cell_ptr INTERIOR_HEADER_SIZE d j" 12] P(2) ptr [OF j(1)]
        by (simp_all add: INTERIOR_HEADER_SIZE_def j)
    next
      fix j m assume "m < length (map entry_cell es)" "j < m"
      then show "cells_apart INTERIOR_HEADER_SIZE ?d (map entry_cell es) j m" using slottedD(8) [OF I(1), of j m] by (simp add: cells_apart_def ptr)
    qed (use len P slottedD(2-4) [OF I(1)] in simp_all)
    moreover have "replace_child_pointer k p d = Ok ?d" using False div I(5) by (simp add: replace_child_pointer_def)
    ultimately show ?thesis using False P I(2,4) by (auto simp: interior_page_def right_child_def)
  qed
qed

lemma collect_interior:
  assumes "interior_page d es right"
  shows "i + n = length es \<Longrightarrow> collect_interior_cells d i n = Ok (drop i es)"
proof (induction n arbitrary: i)
  case (Suc n)
  then have i: "i < length es" by simp
  show ?case
    using Suc.IH [of "i + 1"] Suc.prems interior_child [OF assms i] by (simp add: Cons_nth_drop_Suc [OF i, symmetric])
qed simp

lemma init_interior:
  assumes "length d = PAGE_SIZE"
  shows "interior_page (init_interior_page r d) [] r" "content_offset (init_interior_page r d) = PAGE_SIZE"
proof -
  have len: "length (init_interior_page r d) = PAGE_SIZE" using assms by (simp add: init_interior_page_def write_page_header_def Let_def PAGE_SIZE_def)
  have "u16_at (init_interior_page r d) 1 = 0" "u16_at (init_interior_page r d) 3 = page_size_to_u16"
    "page_type (init_interior_page r d) = INTERIOR_TABLE" "right_child (init_interior_page r d) = r"
    using assms by (simp_all add: init_interior_page_def write_page_header_def Let_def PAGE_SIZE_def at_write_other right_child_def
        page_type_def nth_write_at LEAF_TABLE_def INTERIOR_TABLE_def)
  then show "interior_page (init_interior_page r d) [] r" "content_offset (init_interior_page r d) = PAGE_SIZE"
    using len by (simp_all add: interior_page_def slotted_def cell_count_def content_offset_def page_size_to_u16_def u16_to_page_size_def PAGE_SIZE_def INTERIOR_HEADER_SIZE_def)
qed

end
