(* ===== verification/BTreeTree.thy ===== *)
theory BTreeTree
  imports BTreeStore BTreeSlots
begin

text \<open>
  What the pages of a B+tree stand for. A \<open>btree\<close> has the page numbers of the stored tree and, in its leaves, the rows with their
  payloads and the pages of their overflow chains. \<open>tree_in m t\<close> says that the pages \<open>m\<close> hold \<open>t\<close>, \<open>ordered lo hi t\<close> that the
  dividers separate its rows, \<open>linked\<close> that its leaves form a doubly linked list. \<open>table_in\<close> puts them together, with all pages
  distinct and none of them free.
\<close>

section \<open>Trees\<close>

text \<open>A stored row: its rowid, its payload, and the pages of its overflow chain (none when the payload is in the leaf).\<close>

type_synonym stored = "i64 \<times> bytes \<times> u32 list"

datatype btree = Leaf u32 "stored list" | Node u32 "btree list" "i64 list"

fun stored_key :: "stored \<Rightarrow> int" where
  "stored_key (r, _, _) = sint r"

fun stored_cell :: "stored \<Rightarrow> bytes" where
  "stored_cell (r, bs, ps) = (case ps of [] \<Rightarrow> make_leaf_cell r bs | p # _ \<Rightarrow> make_overflow_cell r (word_of_nat (length bs)) p)"

fun chain_in :: "page_map \<Rightarrow> u32 list \<Rightarrow> bytes \<Rightarrow> bool" where
  "chain_in m [] bs \<longleftrightarrow> False"
| "chain_in m [p] bs \<longleftrightarrow> p \<noteq> 0 \<and> bs \<noteq> [] \<and> length bs \<le> OVERFLOW_DATA_SIZE \<and>
     (\<exists>d. m p = Some d \<and> length d = PAGE_SIZE \<and> u32_at d 0 = 0 \<and> sub_bytes d 4 (length bs) = bs)"
| "chain_in m (p # q # ps) bs \<longleftrightarrow> p \<noteq> 0 \<and> OVERFLOW_DATA_SIZE < length bs \<and>
     (\<exists>d. m p = Some d \<and> length d = PAGE_SIZE \<and> u32_at d 0 = q \<and> sub_bytes d 4 OVERFLOW_DATA_SIZE = take OVERFLOW_DATA_SIZE bs)
     \<and> chain_in m (q # ps) (drop OVERFLOW_DATA_SIZE bs)"

fun stored_in :: "page_map \<Rightarrow> stored \<Rightarrow> bool" where
  "stored_in m (r, bs, ps) \<longleftrightarrow>
     (if ps = [] then length bs \<le> MAX_INLINE_PAYLOAD
      else MAX_INLINE_PAYLOAD < length bs \<and> length bs < 2 ^ 32 \<and> chain_in m ps bs)"

fun root_page :: "btree \<Rightarrow> u32" where
  "root_page (Leaf n ss) = n"
| "root_page (Node n ts ks) = n"

fun rows :: "btree \<Rightarrow> stored list" where
  "rows (Leaf n ss) = ss"
| "rows (Node n ts ks) = concat (map rows ts)"

fun leaf_pages :: "btree \<Rightarrow> u32 list" where
  "leaf_pages (Leaf n ss) = [n]"
| "leaf_pages (Node n ts ks) = concat (map leaf_pages ts)"

fun tree_pages :: "btree \<Rightarrow> u32 list" where
  "tree_pages (Leaf n ss) = [n]"
| "tree_pages (Node n ts ks) = n # concat (map tree_pages ts)"

definition chain_pages :: "stored list \<Rightarrow> u32 list" where
  "chain_pages ss = concat (map (\<lambda>(r, bs, ps). ps) ss)"

definition all_pages :: "btree \<Rightarrow> u32 list" where
  "all_pages t = tree_pages t @ chain_pages (rows t)"

fun height :: "btree \<Rightarrow> nat" where
  "height (Leaf n ss) = 1"
| "height (Node n ts ks) = Suc (foldr max (map height ts) 0)"

definition contents :: "btree \<Rightarrow> i64 \<rightharpoonup> bytes" where
  "contents t = map_of (map (\<lambda>(r, bs, ps). (r, bs)) (rows t))"

section \<open>Trees in pages\<close>

fun tree_in :: "page_map \<Rightarrow> btree \<Rightarrow> bool" where
  "tree_in m (Leaf n ss) \<longleftrightarrow> (\<exists>d. m n = Some d \<and> leaf_page d (map stored_cell ss)) \<and> (\<forall>s \<in> set ss. stored_in m s)"
| "tree_in m (Node n ts ks) \<longleftrightarrow>
     (\<exists>d. m n = Some d \<and> interior_page d (zip (map root_page ts) ks) (root_page (last ts)) \<and> content_offset d + 12 * length ks = PAGE_SIZE)
     \<and> length ts = Suc (length ks) \<and> (\<forall>t \<in> set ts. tree_in m t)"

text \<open>
  The order: rowids from \<open>lo\<close> on and below \<open>hi\<close>. The second function takes the children with their upper bounds; each
  bound is the next lower bound. Bounds grow strictly.
\<close>

fun ordered :: "int \<Rightarrow> int \<Rightarrow> btree \<Rightarrow> bool" and ordered_kids :: "int \<Rightarrow> btree list \<Rightarrow> int list \<Rightarrow> bool" where
  "ordered lo hi (Leaf n ss) \<longleftrightarrow> sorted_wrt (<) (map stored_key ss) \<and> (\<forall>s \<in> set ss. lo \<le> stored_key s \<and> stored_key s < hi)"
| "ordered lo hi (Node n ts ks) \<longleftrightarrow> ordered_kids lo ts (map sint ks @ [hi])"
| "ordered_kids lo [] us \<longleftrightarrow> us = []"
| "ordered_kids lo (t # ts) us \<longleftrightarrow> (case us of [] \<Rightarrow> False | u # us' \<Rightarrow> lo < u \<and> ordered lo u t \<and> ordered_kids u ts us')"

text \<open>The leaves, from the page before them to the page after them.\<close>

fun linked :: "page_map \<Rightarrow> u32 \<Rightarrow> u32 list \<Rightarrow> u32 \<Rightarrow> bool" where
  "linked m prev [] nxt \<longleftrightarrow> True"
| "linked m prev (p # ps) nxt \<longleftrightarrow>
     (\<exists>d. m p = Some d \<and> get_prev_leaf d = prev \<and> get_next_leaf d = hd (ps @ [nxt])) \<and> linked m p ps nxt"

definition table_in :: "page_map \<Rightarrow> u32 set \<Rightarrow> btree \<Rightarrow> bool" where
  "table_in m F t \<longleftrightarrow> tree_in m t \<and> ordered (- (2 ^ 63)) (2 ^ 63) t \<and> linked m 0 (leaf_pages t) 0
     \<and> distinct (all_pages t) \<and> 0 \<notin> set (all_pages t) \<and> set (all_pages t) \<inter> F = {}"

section \<open>Order\<close>

lemma ordered_kids_append:
  "length ts = length us \<Longrightarrow> ordered_kids lo (ts @ ts') (us @ us') \<longleftrightarrow> ordered_kids lo ts us \<and> ordered_kids (last (lo # us)) ts' us'"
  by (induction ts us arbitrary: lo rule: list_induct2) auto

lemma ordered_kids_length: "ordered_kids lo ts us \<Longrightarrow> length ts = length us"
  by (induction ts arbitrary: lo us) (auto split: list.splits)

lemma ordered_kids_last: "ordered_kids lo ts us \<Longrightarrow> lo \<le> last (lo # us)"
  by (induction ts arbitrary: lo us) (fastforce split: list.splits)+

lemma sorted_wrt_less_append:
  fixes f :: "'a \<Rightarrow> int"
  assumes "sorted_wrt (<) (map f xs)" and "sorted_wrt (<) (map f ys)" and "\<forall>x \<in> set xs. f x < k" and "\<forall>y \<in> set ys. k \<le> f y"
  shows "sorted_wrt (<) (map f (xs @ ys))"
  using assms by (fastforce simp: sorted_wrt_append)

lemma ordered_rows:
  "ordered lo hi t \<Longrightarrow> sorted_wrt (<) (map stored_key (rows t)) \<and> (\<forall>s \<in> set (rows t). lo \<le> stored_key s \<and> stored_key s < hi)"
  "ordered_kids lo ts us \<Longrightarrow> sorted_wrt (<) (map stored_key (concat (map rows ts)))
     \<and> (\<forall>s \<in> set (concat (map rows ts)). lo \<le> stored_key s \<and> stored_key s < last (lo # us))"
proof (induction lo hi t and lo ts us rule: ordered_ordered_kids.induct)
  case (4 lo t ts us)
  then obtain u us' where u: "us = u # us'" "lo < u" "ordered lo u t" "ordered_kids u ts us'" by (cases us) auto
  note t = 4(1) [OF u(1,3)] and ts = 4(2) [OF u(1,4)]
  have "u \<le> last (u # us')" using ordered_kids_last [OF u(4)] .
  then have "\<forall>s \<in> set (rows t @ concat (map rows ts)). lo \<le> stored_key s \<and> stored_key s < last (lo # us)"
    using t ts u(1,2) by fastforce
  moreover have "sorted_wrt (<) (map stored_key (rows t @ concat (map rows ts)))"
    using t ts by (intro sorted_wrt_less_append [of _ _ _ u]) auto
  ultimately show ?case by simp
qed auto

text \<open>The child that a descent takes: the rowid lies between its bounds.\<close>

lemma upper_index_split:
  assumes "sorted_wrt (\<le>) (ks :: int list)" and "i = upper_index ks k"
  shows "\<forall>x \<in> set (take i ks). x \<le> k" "\<forall>x \<in> set (drop i ks). k < x"
proof -
  have i: "take i ks = takeWhile (\<lambda>x. x \<le> k) ks" "drop i ks = dropWhile (\<lambda>x. x \<le> k) ks"
    using assms(2) by (metis upper_index_def takeWhile_eq_take, metis upper_index_def dropWhile_eq_drop)
  show "\<forall>x \<in> set (take i ks). x \<le> k" unfolding i by (auto dest: set_takeWhileD)
  show "\<forall>x \<in> set (drop i ks). k < x" unfolding i using assms(1) by (induction ks) auto
qed

lemma ordered_kids_bounds: "ordered_kids lo ts us \<Longrightarrow> sorted_wrt (<) (lo # us)"
proof (induction ts arbitrary: lo us)
  case (Cons t ts)
  then obtain u us' where u: "us = u # us'" "lo < u" "ordered_kids u ts us'" by (cases us) auto
  with Cons.IH [OF u(3)] show ?case by auto
qed simp

lemma descend:
  assumes o: "ordered_kids lo ts (map sint ks @ [hi])" and r: "lo \<le> r" "r < hi" and len: "length ts = Suc (length ks)"
  obtains pre t post kpre kpost lo' hi' us where "ts = pre @ t # post" and "ks = kpre @ kpost" and "length pre = length kpre"
    and "length pre = upper_index (map sint ks) r"
    and "ordered_kids lo pre (map sint kpre)" and "lo' = last (lo # map sint kpre)" and "ordered lo' hi' t"
    and "map sint kpost @ [hi] = hi' # us" and "ordered_kids hi' post us" and "lo' \<le> r" and "r < hi'"
proof -
  define i where "i = upper_index (map sint ks) r"
  have b: "sorted_wrt (<) (lo # map sint ks @ [hi])" using ordered_kids_bounds [OF o] .
  then have "sorted_wrt (\<le>) (map sint ks)" by (auto simp: sorted_wrt_append intro: sorted_wrt_mono_rel [rotated])
  note ui = upper_index_split [OF this i_def]
  have il: "i \<le> length ks" unfolding i_def using upper_index_le [of "map sint ks" r] by simp
  define pre t post kpre kpost where "pre = take i ts" and "t = ts ! i" and "post = drop (Suc i) ts" and "kpre = take i ks" and "kpost = drop i ks"
  have ts: "ts = pre @ t # post" using il len unfolding pre_def t_def post_def by (simp add: id_take_nth_drop)
  have ks: "ks = kpre @ kpost" by (simp add: kpre_def kpost_def)
  have l: "length pre = length kpre" "length post = length kpost" "length kpre = i"
    using il len by (simp_all add: pre_def post_def kpre_def kpost_def)
  have "ordered_kids lo (pre @ t # post) (map sint kpre @ (map sint kpost @ [hi]))" using o ts ks by simp
  then have "ordered_kids lo pre (map sint kpre) \<and> ordered_kids (last (lo # map sint kpre)) (t # post) (map sint kpost @ [hi])"
    using ordered_kids_append [of pre "map sint kpre"] l by simp
  moreover have "last (lo # map sint kpre) \<le> r"
    using ui(1) r(1) by (cases kpre rule: rev_cases) (auto simp: kpre_def take_map)
  moreover have "r < hd (map sint kpost @ [hi])"
    using ui(2) r(2) by (cases kpost) (auto simp: kpost_def drop_map)
  moreover obtain hi' us where "map sint kpost @ [hi] = hi' # us" by (cases "map sint kpost @ [hi]") auto
  ultimately show ?thesis using that [OF ts ks l(1)] l(1,3) i_def by auto
qed

end
