(* ===== verification/BTreeRead.thy ===== *)
theory BTreeRead
  imports BTreeTree
begin

text \<open>
  Reading a B+tree: payloads in the leaf and in overflow chains, the descent to a leaf, lookup, scans along the leaves in both
  directions, counting and the largest rowid. Each operation leaves all pages as they are.
\<close>

section \<open>Cells and payloads\<close>

lemma page_consts: "MAX_INLINE_PAYLOAD = 2016" "OVERFLOW_DATA_SIZE = 4092" "PAGE_SIZE = 4096" "LEAF_HEADER_SIZE = 14" "INTERIOR_HEADER_SIZE = 10"
  by (simp_all add: MAX_INLINE_PAYLOAD_def OVERFLOW_DATA_SIZE_def PAGE_SIZE_def LEAF_HEADER_SIZE_def INTERIOR_HEADER_SIZE_def)

lemma stored_cell_fields:
  assumes "stored_in m s"
  shows "cell_rowid (stored_cell s) = stored_key s" "length (stored_cell s) = cell_size (stored_cell s)" "i64_at (stored_cell s) 4 = fst s"
proof -
  obtain r bs ps where s: "s = (r, bs, ps)" by (cases s)
  have "ps = [] \<Longrightarrow> length bs < 2 ^ 31" using assms by (simp add: s page_consts)
  then show "cell_rowid (stored_cell s) = stored_key s" "length (stored_cell s) = cell_size (stored_cell s)" "i64_at (stored_cell s) 4 = fst s"
    by (auto simp: s leaf_cell_fields overflow_cell_fields split: list.split)
qed

lemma stored_rowids: "\<forall>s \<in> set ss. stored_in m s \<Longrightarrow> map cell_rowid (map stored_cell ss) = map stored_key ss"
  using stored_cell_fields(1) [of m] by simp

lemma overflow_flag: "OVERFLOW_FLAG \<noteq> 0" "OVERFLOW_FLAG AND NOT OVERFLOW_FLAG = 0"
  by (simp_all add: OVERFLOW_FLAG_def)

lemma stored_first_overflow:
  assumes "stored_in m (r, bs, ps)"
  shows "first_overflow (stored_cell (r, bs, ps)) = (case ps of [] \<Rightarrow> None | p # _ \<Rightarrow> Some p)"
proof (cases ps)
  case Nil
  then have "length bs < 2 ^ 31" using assms by (simp add: page_consts)
  then show ?thesis by (simp add: Nil first_overflow_def leaf_cell_fields flag_clear)
qed (simp add: first_overflow_def overflow_cell_fields overflow_flag)

lemma sub_bytes_take: "sub_bytes d off n = take n (drop off d)"
  by (simp add: sub_bytes_def)

lemma follow_chain_reads:
  assumes "chain_in m ps bs" and "length bs \<le> left" and "len = length acc + length bs"
  shows "reads m (follow_chain left z (hd ps) len acc) (Ok (acc @ bs))"
  using assms
proof (induction ps arbitrary: bs left acc)
  case (Cons p ps)
  show ?case
  proof (cases ps)
    case Nil
    with Cons.prems(1) obtain d where d: "p \<noteq> 0" "bs \<noteq> []" "length bs \<le> OVERFLOW_DATA_SIZE" "m p = Some d" "sub_bytes d 4 (length bs) = bs"
      by auto
    then obtain l where l: "left = Suc l" using Cons.prems(2) by (cases left) auto
    have "follow_chain l z n len (acc @ bs) = op_return (acc @ bs)" for n using Cons.prems(3) by (cases l) simp_all
    then show ?thesis using d Cons.prems(3) by (auto simp: l Nil intro!: reads_intros)
  next
    case (Cons q qs)
    with Cons.prems(1) obtain d where d: "p \<noteq> 0" "OVERFLOW_DATA_SIZE < length bs" "m p = Some d" "u32_at d 0 = q"
      "sub_bytes d 4 OVERFLOW_DATA_SIZE = take OVERFLOW_DATA_SIZE bs" "chain_in m ps (drop OVERFLOW_DATA_SIZE bs)"
      by auto
    have pos: "0 < OVERFLOW_DATA_SIZE" by (simp add: page_consts)
    obtain l where l: "left = Suc l" using Cons.prems(2) d(2) by (cases left) auto
    have "reads m (follow_chain l z (hd ps) len (acc @ take OVERFLOW_DATA_SIZE bs)) (Ok ((acc @ take OVERFLOW_DATA_SIZE bs) @ drop OVERFLOW_DATA_SIZE bs))"
      using d Cons.prems(2-) pos by (intro Cons.IH [OF d(6)]) (auto simp: l)
    then show ?thesis using d Cons.prems(3) by (auto simp: l Cons min_def intro!: reads_bind_Ok [OF reads_get])
  qed
qed simp

text \<open>A cell at an offset of a page gives the payload of its row.\<close>

lemma read_payload_reads:
  assumes s: "stored_in m s" and off: "off + length (stored_cell s) \<le> PAGE_SIZE" and d: "length d = PAGE_SIZE"
    and c: "sub_bytes d off (length (stored_cell s)) = stored_cell s"
  shows "reads m (read_cell_payload z (u32_at (stored_cell s) 0) (off + 12) d) (Ok (fst (snd s)))"
proof -
  obtain r bs ps where s': "s = (r, bs, ps)" by (cases s)
  have field: "sub_bytes d (off + o2) n = sub_bytes (stored_cell s) o2 n" if "o2 + n \<le> length (stored_cell s)" for o2 n
    using sub_bytes_sub_bytes [OF that, of d off] c by simp
  show ?thesis
  proof (cases ps)
    case Nil
    have len: "length bs < 2 ^ 31" "length (stored_cell s) = 12 + length bs" using s by (simp_all add: s' Nil page_consts)
    have raw: "u32_at (stored_cell s) 0 = word_of_nat (length bs)" "unat (word_of_nat (length bs) :: u32) = length bs"
      using len leaf_cell_fields(1) [OF len(1)] by (simp_all add: s' Nil unat_u32_of_nat)
    have "sub_bytes d (off + 12) (length bs) = bs" using field [of 12 "length bs"] len(2) by (simp add: s' Nil make_leaf_cell_def)
    then have "read_cell_payload z (u32_at (stored_cell s) 0) (off + 12) d = op_return bs"
      using raw len off d flag_clear [OF len(1)] by (simp add: read_cell_payload_def)
    then show ?thesis by (simp add: s' reads_return)
  next
    case (Cons p qs)
    have len: "length bs < 2 ^ 32" "length (stored_cell s) = 20" "chain_in m ps bs" using s by (simp_all add: s' Cons page_consts)
    have raw: "u32_at (stored_cell s) 0 = OVERFLOW_FLAG" by (simp add: s' Cons overflow_cell_fields)
    have "u32_at d (off + 12) = u32_at (stored_cell s) 12" "u32_at d (off + 16) = u32_at (stored_cell s) 16"
      using field [of 12 4] field [of 16 4] len(2) by (simp_all add: u32_at_def)
    then have f: "u32_at d (off + 12) = word_of_nat (length bs)" "u32_at d (off + 16) = p" "unat (word_of_nat (length bs) :: u32) = length bs"
      using len(1) by (simp_all add: s' Cons overflow_cell_fields unat_u32_of_nat)
    have "read_cell_payload z OVERFLOW_FLAG (off + 12) d = follow_chain (length bs) z p (length bs) []"
      using f off d len(2) by (simp add: read_cell_payload_def Let_def overflow_flag sub_bytes_def add.assoc)
    then show ?thesis using raw follow_chain_reads [OF len(3), of "length bs" "length bs" "[]" z] by (simp add: s' Cons)
  qed
qed

section \<open>Trees\<close>

lemma children_zip: "length ts = Suc (length ks) \<Longrightarrow> children (zip (map root_page ts) ks) (root_page (last ts)) = map root_page ts"
  by (cases ts rule: rev_cases) (simp_all add: children_def map_fst_zip_take)

lemma entry_keys_zip: "length ts = Suc (length ks) \<Longrightarrow> map entry_key (zip (map root_page ts) ks) = map sint ks"
proof -
  assume "length ts = Suc (length ks)"
  then have "map snd (zip (map root_page ts) ks) = ks" by (simp add: map_snd_zip_take)
  then have "map sint (map snd (zip (map root_page ts) ks)) = map sint ks" by simp
  then show ?thesis by (simp add: entry_key_def o_def [abs_def] cong: map_cong)
qed

lemma find_child_tree:
  assumes "interior_page d (zip (map root_page ts) ks) (root_page (last ts))" and "ts = pre @ t # post" and "length ts = Suc (length ks)"
    and "length pre = upper_index (map sint ks) (sint r)"
  shows "find_child_page d r = Ok (root_page t)"
proof -
  have "find_child_page d r = Ok (map root_page ts ! length pre)"
    using find_child_page_ok [OF assms(1), of r] assms(4) by (simp add: children_zip [OF assms(3)] entry_keys_zip [OF assms(3)])
  then show ?thesis using assms(2) by (simp add: nth_append)
qed

lemma tree_in_size: "tree_in m t \<Longrightarrow> m (root_page t) = Some d \<Longrightarrow> length d = PAGE_SIZE"
  by (cases t) (auto dest: leaf_pageD(7) interior_pageD(6))

lemma height_child: "t \<in> set ts \<Longrightarrow> height t \<le> foldr max (map height ts) 0"
  by (induction ts) auto

lemma height_pos: "0 < height t"
  by (cases t) simp_all

lemma height_bound: "height t \<le> length (tree_pages t)"
proof (induction t)
  case (Node n ts ks)
  have "foldr max (map height ts) 0 \<le> length (concat (map tree_pages ts))"
    using Node by (induction ts) (fastforce intro: le_trans)+
  then show ?case by simp
qed simp

lemma leaf_pages_sub: "set (leaf_pages t) \<subseteq> set (tree_pages t)"
  by (induction t) auto

lemma leaf_pages_distinct: "distinct (tree_pages t) \<Longrightarrow> distinct (leaf_pages t)"
proof (induction t)
  case (Node n ts ks)
  then have "distinct (concat (map tree_pages ts))" by simp
  with Node.IH show ?case
  proof (induction ts)
    case (Cons t ts)
    have "set (concat (map leaf_pages ts)) \<subseteq> set (concat (map tree_pages ts))" using leaf_pages_sub by fastforce
    moreover have "distinct (leaf_pages t)" "distinct (concat (map leaf_pages ts))" using Cons by auto
    ultimately show ?case using Cons.prems(2) leaf_pages_sub [of t] by (auto simp: disjoint_iff)
  qed simp
qed simp

lemma tree_pages_dom: "tree_in m t \<Longrightarrow> set (tree_pages t) \<subseteq> dom m"
  by (induction t) auto

lemma tree_pages_card:
  assumes "tree_in m t" and "distinct (tree_pages t)"
  shows "length (tree_pages t) \<le> card (dom m)"
  using card_mono [of "dom m" "set (tree_pages t)"] tree_pages_dom [OF assms(1)] distinct_card [OF assms(2)] by simp

lemma tree_height_card: "tree_in m t \<Longrightarrow> distinct (tree_pages t) \<Longrightarrow> height t \<le> card (dom m)"
  using tree_pages_card height_bound by (meson le_trans)

lemma leaf_pages_card: "tree_in m t \<Longrightarrow> distinct (tree_pages t) \<Longrightarrow> length (leaf_pages t) \<le> card (dom m)"
  using card_mono [of "dom m" "set (leaf_pages t)"] tree_pages_dom leaf_pages_sub [of t] distinct_card [OF leaf_pages_distinct] by fastforce

lemma table_in_bounds:
  assumes "table_in m F t" and "card (dom m) < b"
  shows "height t \<le> b" "length (leaf_pages t) \<le> b"
  using assms tree_height_card [of m t] leaf_pages_card [of m t] by (auto simp: table_in_def all_pages_def)

section \<open>Lookup\<close>

lemma map_of_key_range: "\<forall>x \<in> set xs. P (fst x) \<Longrightarrow> \<not> P r \<Longrightarrow> map_of xs r = None"
  by (auto simp: map_of_eq_None_iff)

lemma rows_outside:
  assumes "ordered_kids lo ts us" and "k < lo \<or> last (lo # us) \<le> k"
  shows "k \<notin> stored_key ` set (concat (map rows ts))"
  using ordered_rows(2) [OF assms(1)] assms(2) by force

lemma map_of_no_key: "sint r \<notin> stored_key ` set ss \<Longrightarrow> map_of (map (\<lambda>(r, bs, ps). (r, bs)) ss) r = None"
  by (force simp: map_of_eq_None_iff)

lemma contents_child:
  assumes "ordered_kids lo pre us" and "ordered_kids hi post us'" and "last (lo # us) \<le> sint r" and "sint r < hi"
  shows "contents (Node n (pre @ t # post) ks) r = contents t r"
  using map_of_no_key [OF rows_outside [OF assms(1)]] map_of_no_key [OF rows_outside [OF assms(2)]] assms(3,4)
  by (auto simp: contents_def map_add_def split: option.split)

definition lookup_result :: "btree \<Rightarrow> i64 \<Rightarrow> (i64 \<times> row) option res" where
  "lookup_result t r = (case contents t r of None \<Rightarrow> Ok None | Some bs \<Rightarrow> res_bind (deserialize_row bs) (\<lambda>row. Ok (Some (r, row))))"

lemma leaf_types [simp]: "LEAF_TABLE \<noteq> INTERIOR_TABLE" "INTERIOR_TABLE \<noteq> LEAF_TABLE"
  by (simp_all add: LEAF_TABLE_def INTERIOR_TABLE_def)

lemma mem_stored_key: "sint r \<in> stored_key ` S \<longleftrightarrow> r \<in> fst ` S"
proof -
  have "stored_key = sint \<circ> fst" by (auto simp: fun_eq_iff)
  then have "stored_key ` S = sint ` (fst ` S)" by (simp add: image_comp)
  moreover have "inj (sint :: i64 \<Rightarrow> int)" by (auto simp: inj_on_def signed_word_eqI)
  ultimately show ?thesis by (simp add: inj_image_mem_iff)
qed

lemma contents_leaf:
  assumes "sorted_wrt (<) (map stored_key ss)"
  shows "contents (Leaf n ss) r = Some bs \<longleftrightarrow> (\<exists>ps. (r, bs, ps) \<in> set ss)"
    "contents (Leaf n ss) r = None \<longleftrightarrow> sint r \<notin> stored_key ` set ss"
proof -
  have "distinct (map stored_key ss)" using assms strict_sorted_iff by (metis sorted_wrt_map strict_sorted_iff)
  moreover have "map stored_key ss = map sint (map fst (map (\<lambda>(r, bs, ps). (r, bs)) ss))" by (auto simp: o_def split_def intro: map_cong)
  ultimately have "distinct (map fst (map (\<lambda>(r, bs, ps). (r, bs)) ss))" using distinct_map by metis
  from map_of_eq_Some_iff [OF this] show "contents (Leaf n ss) r = Some bs \<longleftrightarrow> (\<exists>ps. (r, bs, ps) \<in> set ss)"
    by (force simp: contents_def)
  show "contents (Leaf n ss) r = None \<longleftrightarrow> sint r \<notin> stored_key ` set ss"
    by (simp add: contents_def map_of_eq_None_iff image_image split_def mem_stored_key)
qed

lemma find_row_leaf:
  assumes t: "tree_in m (Leaf n ss)"
  shows "reads m (find_row (Suc b) z n r) (lookup_result (Leaf n ss) r)"
proof -
  obtain d where d: "m n = Some d" "leaf_page d (map stored_cell ss)" and s: "\<forall>s \<in> set ss. stored_in m s" using t by auto
  have keys: "cell_rowid ` set (map stored_cell ss) = stored_key ` set ss" using stored_rowids [OF s] by (metis list.set_map)
  have srt: "sorted_wrt (<) (map stored_key ss)" using leaf_pageD(4) [OF d(2)] stored_rowids [OF s] by metis
  show ?thesis
  proof (cases "contents (Leaf n ss) r")
    case None
    then have "find_in_leaf r d = Ok None" using find_in_leaf_missing [OF d(2)] contents_leaf(2) [OF srt] keys by simp
    then show ?thesis using d None
      by (auto simp: leaf_pageD(2) lookup_result_def intro!: reads_bind_Ok [OF reads_get] reads_bind_Ok [OF reads_lift_Ok] reads_return)
  next
    case (Some bs)
    then obtain ps where sm: "(r, bs, ps) \<in> set ss" using contents_leaf(1) [OF srt] by auto
    let ?c = "stored_cell (r, bs, ps)"
    have si: "stored_in m (r, bs, ps)" and cm: "?c \<in> set (map stored_cell ss)" using s sm by (auto simp del: stored_cell.simps)
    obtain off where o: "find_in_leaf r d = Ok (Some (off, u32_at ?c 0))" "off + length ?c \<le> PAGE_SIZE" "sub_bytes d off (length ?c) = ?c"
      using find_in_leaf_found [OF d(2) cm] stored_cell_fields(1) [OF si] by auto
    have "reads m (op_bind (read_cell_payload z (u32_at ?c 0) (off + 12) d)
        (\<lambda>payload. op_bind (op_lift (deserialize_row payload)) (\<lambda>row. op_return (Some (r, row))))) (lookup_result (Leaf n ss) r)"
      using reads_bind_Ok [OF read_payload_reads [OF si o(2) leaf_pageD(7) [OF d(2)] o(3)] reads_bind [OF reads_lift reads_return]] Some
      by (simp add: lookup_result_def)
    then show ?thesis using d o(1)
      by (auto simp: leaf_pageD(2) intro!: reads_bind_Ok [OF reads_get] reads_bind_Ok [OF reads_lift_Ok] simp del: stored_cell.simps)
  qed
qed

lemma find_row_reads:
  "tree_in m t \<Longrightarrow> ordered lo hi t \<Longrightarrow> lo \<le> sint r \<Longrightarrow> sint r < hi \<Longrightarrow> height t \<le> b \<Longrightarrow> reads m (find_row b z (root_page t) r) (lookup_result t r)"
proof (induction t arbitrary: lo hi b)
  case (Leaf n ss)
  then show ?case using find_row_leaf [OF Leaf.prems(1)] by (cases b) (auto simp del: find_row.simps)
next
  case (Node n ts ks)
  obtain d where d: "m n = Some d" "interior_page d (zip (map root_page ts) ks) (root_page (last ts))" "length ts = Suc (length ks)" "\<forall>t \<in> set ts. tree_in m t"
    using Node.prems(1) by auto
  obtain b' where b: "b = Suc b'" using Node.prems(5) by (cases b) auto
  have "ordered_kids lo ts (map sint ks @ [hi])" using Node.prems(2) by simp
  then obtain pre t post kpre kpost lo' hi' us where c: "ts = pre @ t # post" "ks = kpre @ kpost" "length pre = length kpre"
      "length pre = upper_index (map sint ks) (sint r)" "ordered_kids lo pre (map sint kpre)" "lo' = last (lo # map sint kpre)" "ordered lo' hi' t"
      "map sint kpost @ [hi] = hi' # us" "ordered_kids hi' post us" "lo' \<le> sint r" "sint r < hi'"
    by (rule descend [OF _ Node.prems(3,4) d(3)])
  have t: "t \<in> set ts" using c(1) by simp
  have "lookup_result (Node n ts ks) r = lookup_result t r"
    using contents_child [OF c(5,9) _ c(11)] c(1,6,10) by (simp add: lookup_result_def)
  moreover have "reads m (find_row b' z (root_page t) r) (lookup_result t r)"
    using Node.prems(5) d(4) t height_child [OF t] b by (intro Node.IH [OF t _ c(7,10,11)]) auto
  ultimately show ?case using d(1) find_child_tree [OF d(2) c(1) d(3) c(4)] interior_pageD(2) [OF d(2)]
    by (auto simp: b intro!: reads_bind_Ok [OF reads_get] reads_bind_Ok [OF reads_lift_Ok])
qed

lemma sint_i64_range: "- (2 ^ 63) \<le> sint (r :: i64)" "sint (r :: i64) < 2 ^ 63"
  using sint_range_size [of r] by (simp_all add: word_size)

lemma find_by_rowid_reads:
  assumes "table_in m F t"
  shows "reads m (find_by_rowid z (root_page t) r) (lookup_result t r)"
  unfolding find_by_rowid_def
proof (rule reads_bound)
  fix b assume "card (dom m) < b"
  from table_in_bounds(1) [OF assms this] assms show "reads m (find_row b z (root_page t) r) (lookup_result t r)"
    by (intro find_row_reads [OF _ _ sint_i64_range]) (auto simp: table_in_def)
qed

end
