(* ===== verification/BTreeScan.thy ===== *)
theory BTreeScan
  imports BTreeRead
begin

text \<open>
  Scans of a B+tree along its linked leaves, forwards and backwards, with and without a limit; the number of rows and the
  largest rowid.
\<close>

section \<open>Leaves in order\<close>

fun leaf_rows :: "btree \<Rightarrow> (u32 \<times> stored list) list" where
  "leaf_rows (Leaf n ss) = [(n, ss)]"
| "leaf_rows (Node n ts ks) = concat (map leaf_rows ts)"

lemma leaf_rows_pages: "map fst (leaf_rows t) = leaf_pages t"
  by (induction t) (auto simp: map_concat o_def intro: arg_cong [where f = concat])

lemma leaf_rows_rows: "concat (map snd (leaf_rows t)) = rows t"
proof (induction t)
  case (Node n ts ks)
  then show ?case by (induction ts) auto
qed simp

text \<open>A leaf page with rows.\<close>

definition leaf_holds :: "page_map \<Rightarrow> bytes \<Rightarrow> stored list \<Rightarrow> bool" where
  "leaf_holds m d ss \<longleftrightarrow> leaf_page d (map stored_cell ss) \<and> (\<forall>s \<in> set ss. stored_in m s)"

lemma tree_leaves: "tree_in m t \<Longrightarrow> (n, ss) \<in> set (leaf_rows t) \<Longrightarrow> \<exists>d. m n = Some d \<and> leaf_holds m d ss"
  by (induction t) (auto simp: leaf_holds_def)

lemma leaf_pages_nonempty: "tree_in m t \<Longrightarrow> leaf_pages t \<noteq> []"
proof (induction t)
  case (Node n ts ks)
  then show ?case by (cases ts) auto
qed simp

lemma leftmost_reads: "tree_in m t \<Longrightarrow> height t \<le> b \<Longrightarrow> reads m (leftmost_leaf b z (root_page t)) (Ok (hd (leaf_pages t)))"
proof (induction t arbitrary: b)
  case (Leaf n ss)
  then obtain d b' where "m n = Some d" "page_type d = LEAF_TABLE" "b = Suc b'" by (cases b) (auto dest: leaf_pageD(2))
  then show ?case by (auto intro!: reads_bind_Ok [OF reads_get] reads_return)
next
  case (Node n ts ks)
  obtain d where d: "m n = Some d" "interior_page d (zip (map root_page ts) ks) (root_page (last ts))" "length ts = Suc (length ks)" "\<forall>t \<in> set ts. tree_in m t"
    using Node.prems(1) by auto
  obtain b' where b: "b = Suc b'" using Node.prems(2) by (cases b) auto
  obtain t ts' where ts: "ts = t # ts'" using d(3) by (cases ts) auto
  then have t: "t \<in> set ts" by simp
  have IH: "reads m (leftmost_leaf b' z (root_page t)) (Ok (hd (leaf_pages t)))"
    using Node.prems(2) d(4) t height_child [OF t] b by (intro Node.IH [OF t]) auto
  have hd: "hd (leaf_pages (Node n ts ks)) = hd (leaf_pages t)" using leaf_pages_nonempty [of m t] d(4) t ts by simp
  have "(if 0 < cell_count d
         then res_bind (rd16 d INTERIOR_HEADER_SIZE) (\<lambda>off. res_bind (validate_cell_offset off 4) (rd32 d))
         else Ok (right_child d)) = Ok (root_page t)"
    using interior_child [OF d(2), of 0] interior_pageD(3,5) [OF d(2)] d(3) by (cases ks) (auto simp: ts)
  then show ?case using IH hd d(1) interior_pageD(2) [OF d(2)]
    by (auto simp: b intro!: reads_bind_Ok [OF reads_get] reads_bind_Ok [OF reads_lift_Ok])
qed

lemma rightmost_reads: "tree_in m t \<Longrightarrow> height t \<le> b \<Longrightarrow> reads m (rightmost_leaf b z (root_page t)) (Ok (last (leaf_pages t)))"
proof (induction t arbitrary: b)
  case (Leaf n ss)
  then obtain d b' where "m n = Some d" "page_type d = LEAF_TABLE" "b = Suc b'" by (cases b) (auto dest: leaf_pageD(2))
  then show ?case by (auto intro!: reads_bind_Ok [OF reads_get] reads_return)
next
  case (Node n ts ks)
  obtain d where d: "m n = Some d" "interior_page d (zip (map root_page ts) ks) (root_page (last ts))" "length ts = Suc (length ks)" "\<forall>t \<in> set ts. tree_in m t"
    using Node.prems(1) by auto
  obtain b' where b: "b = Suc b'" using Node.prems(2) by (cases b) auto
  have t: "last ts \<in> set ts" using d(3) by (cases ts) auto
  have IH: "reads m (rightmost_leaf b' z (root_page (last ts))) (Ok (last (leaf_pages (last ts))))"
    using Node.prems(2) d(4) t height_child [OF t] b by (intro Node.IH [OF t]) auto
  have "last (leaf_pages (Node n ts ks)) = last (leaf_pages (last ts))"
    using leaf_pages_nonempty [of m "last ts"] d(4) t d(3) by (cases ts rule: rev_cases) auto
  then show ?case using IH d(1) interior_pageD(2,3) [OF d(2)]
    by (auto simp: b intro!: reads_bind_Ok [OF reads_get])
qed

section \<open>Cells of a leaf\<close>

lemma cell_at_leaf:
  assumes "leaf_page d cs" and "i < length cs" and "needed \<le> 12"
  shows "cell_at needed d i = Ok (cell_ptr LEAF_HEADER_SIZE d i, u32_at (cs ! i) 0)"
  using slotted_ptr [OF leaf_pageD(1) [OF assms(1)] assms(2)] slotted_read0 [OF leaf_pageD(1) [OF assms(1)] assms(2)]
    slotted_valid [OF leaf_pageD(1) [OF assms(1)] assms(2), of needed] leaf_pageD(5) [OF assms(1,2)] assms(3)
  by (simp add: cell_at_def)

fun entry_of :: "stored \<Rightarrow> (i64 \<times> row) res" where
  "entry_of (r, bs, ps) = res_bind (deserialize_row bs) (\<lambda>row. Ok (r, row))"

fun row_of :: "stored \<Rightarrow> row res" where
  "row_of (r, bs, ps) = deserialize_row bs"

lemma leaf_payload_reads:
  assumes h: "leaf_holds m d ss" and i: "i < length ss"
  shows "reads m (read_cell_payload z (u32_at (stored_cell (ss ! i)) 0) (cell_ptr LEAF_HEADER_SIZE d i + 12) d) (Ok (fst (snd (ss ! i))))"
proof -
  have lp: "leaf_page d (map stored_cell ss)" "stored_in m (ss ! i)" using h i by (simp_all add: leaf_holds_def)
  show ?thesis using slottedD(6,7) [OF leaf_pageD(1) [OF lp(1)], of i] i
    by (intro read_payload_reads [OF lp(2) _ leaf_pageD(7) [OF lp(1)]]) simp_all
qed

lemma scan_entry_reads:
  assumes h: "leaf_holds m d ss" and i: "i < length ss" and needed: "needed \<le> 12"
  shows "reads m (scan_entry z needed d i) (entry_of (ss ! i))"
proof -
  have lp: "leaf_page d (map stored_cell ss)" "stored_in m (ss ! i)" using h i by (simp_all add: leaf_holds_def)
  have c: "cell_at needed d i = Ok (cell_ptr LEAF_HEADER_SIZE d i, u32_at (stored_cell (ss ! i)) 0)"
    using cell_at_leaf [OF lp(1) _ needed] i by simp
  have r: "rd64 d (cell_ptr LEAF_HEADER_SIZE d i + 4) = Ok (fst (ss ! i))"
    using slotted_read(2) [OF leaf_pageD(1) [OF lp(1)], of i 4] leaf_pageD(5) [OF lp(1), of i] i stored_cell_fields(3) [OF lp(2)] by simp
  have "reads m (op_bind (op_lift (deserialize_row (fst (snd (ss ! i))))) (\<lambda>row. op_return (fst (ss ! i), row))) (entry_of (ss ! i))"
    using reads_bind [OF reads_lift reads_return] by (cases "ss ! i") auto
  then show ?thesis unfolding scan_entry_def c
    by (auto intro!: reads_bind_Ok [OF reads_lift] reads_bind_Ok [OF reads_lift_Ok [OF r]] reads_bind_Ok [OF leaf_payload_reads [OF h i]])
qed

lemma scan_row_reads:
  assumes h: "leaf_holds m d ss" and i: "i < length ss" and needed: "needed \<le> 12"
  shows "reads m (scan_row z needed d i) (row_of (ss ! i))"
proof -
  have lp: "leaf_page d (map stored_cell ss)" using h by (simp add: leaf_holds_def)
  have c: "cell_at needed d i = Ok (cell_ptr LEAF_HEADER_SIZE d i, u32_at (stored_cell (ss ! i)) 0)"
    using cell_at_leaf [OF lp _ needed] i by simp
  have "reads m (op_lift (deserialize_row (fst (snd (ss ! i))))) (row_of (ss ! i))"
    using reads_lift by (cases "ss ! i") auto
  then show ?thesis unfolding scan_row_def c
    by (auto intro!: reads_bind_Ok [OF reads_lift] reads_bind_Ok [OF leaf_payload_reads [OF h i]])
qed

lemma res_map_comp: "res_map (\<lambda>x. f (g x)) xs = res_map f (map g xs)"
  by (induction xs) auto

lemma res_map_length: "res_map f xs = Ok ys \<Longrightarrow> length ys = length xs"
  by (induction xs arbitrary: ys) (auto simp: res_bind_Ok_iff)

lemma nth_upt: "map ((!) ss) [0..<length ss] = ss" "map ((!) ss) (rev [0..<length ss]) = rev ss"
  by (simp_all add: map_nth rev_map [symmetric])

section \<open>Walks\<close>

fun succ_chain :: "page_map \<Rightarrow> (bytes \<Rightarrow> u32) \<Rightarrow> u32 list \<Rightarrow> u32 \<Rightarrow> bool" where
  "succ_chain m nx [] e \<longleftrightarrow> True"
| "succ_chain m nx (p # ps) e \<longleftrightarrow> (\<exists>d. m p = Some d \<and> nx d = hd (ps @ [e])) \<and> succ_chain m nx ps e"

lemma linked_next: "linked m prev ps nxt \<Longrightarrow> succ_chain m get_next_leaf ps nxt"
  by (induction ps arbitrary: prev) auto

lemma succ_chain_snoc: "succ_chain m nx (ps @ [p]) e \<longleftrightarrow> succ_chain m nx ps p \<and> (\<exists>d. m p = Some d \<and> nx d = e)"
  by (induction ps) (auto simp: hd_append)

lemma linked_prev: "linked m prev ps nxt \<Longrightarrow> succ_chain m get_prev_leaf (rev ps) prev"
  by (induction ps arbitrary: prev) (auto simp: succ_chain_snoc)

lemma walk_reads:
  assumes "succ_chain m nx (map fst L) 0" and "0 \<notin> fst ` set L" and "length L \<le> b"
    and "\<And>n ss. (n, ss) \<in> set L \<Longrightarrow> \<exists>d. m n = Some d \<and> leaf_holds m d ss"
    and "\<And>d ss. leaf_holds m d ss \<Longrightarrow> reads m (items d) (res_map e (f ss))"
  shows "reads m (walk_leaves b z items nx (hd (map fst L @ [0]))) (res_map e (concat (map (\<lambda>l. f (snd l)) L)))"
  using assms
proof (induction L arbitrary: b)
  case Nil
  then show ?case by (cases b) (auto intro: reads_return)
next
  case (Cons l L)
  obtain n ss where l: "l = (n, ss)" by (cases l)
  obtain d where d: "m n = Some d" "leaf_holds m d ss" "nx d = hd (map fst L @ [0])" using Cons.prems(1,4) l by fastforce
  obtain b' where b: "b = Suc b'" using Cons.prems(3) by (cases b) auto
  have "reads m (walk_leaves b' z items nx (hd (map fst L @ [0]))) (res_map e (concat (map (\<lambda>l. f (snd l)) L)))"
    using Cons.prems b by (intro Cons.IH) auto
  note tail = reads_bind [OF this reads_return]
  have "reads m (op_bind (items d) (\<lambda>xs. op_bind (walk_leaves b' z items nx (nx d)) (\<lambda>ys. op_return (xs @ ys))))
      (res_map e (concat (map (\<lambda>l. f (snd l)) (l # L))))"
    unfolding d(3) using reads_bind [OF Cons.prems(5) [OF d(2)] tail] by (simp add: l res_map_append)
  then show ?case using d(1) Cons.prems(2) by (auto simp: l b intro!: reads_bind_Ok [OF reads_get])
qed

lemma table_leaves:
  assumes t: "table_in m F t" and b: "card (dom m) < b"
  shows "succ_chain m get_next_leaf (map fst (leaf_rows t)) 0" "succ_chain m get_prev_leaf (map fst (rev (leaf_rows t))) 0"
    "0 \<notin> fst ` set (leaf_rows t)" "length (leaf_rows t) \<le> b"
    "(n, ss) \<in> set (leaf_rows t) \<Longrightarrow> \<exists>d. m n = Some d \<and> leaf_holds m d ss"
    "hd (map fst (leaf_rows t) @ [0]) = hd (leaf_pages t)" "hd (map fst (rev (leaf_rows t)) @ [0]) = last (leaf_pages t)"
proof -
  have ti: "tree_in m t" and ln: "linked m 0 (leaf_pages t) 0" and z: "0 \<notin> set (leaf_pages t)"
    using t leaf_pages_sub [of t] by (auto simp: table_in_def all_pages_def)
  have ne: "leaf_pages t \<noteq> []" using leaf_pages_nonempty [OF ti] .
  show "succ_chain m get_next_leaf (map fst (leaf_rows t)) 0" using linked_next [OF ln] leaf_rows_pages by simp
  show "succ_chain m get_prev_leaf (map fst (rev (leaf_rows t))) 0" using linked_prev [OF ln] leaf_rows_pages by (metis rev_map)
  show "length (leaf_rows t) \<le> b" using table_in_bounds(2) [OF t b] leaf_rows_pages [of t] by (metis length_map)
  show "0 \<notin> fst ` set (leaf_rows t)" using z leaf_rows_pages [of t] by (metis list.set_map)
  show "(n, ss) \<in> set (leaf_rows t) \<Longrightarrow> \<exists>d. m n = Some d \<and> leaf_holds m d ss" by (rule tree_leaves [OF ti])
  show "hd (map fst (leaf_rows t) @ [0]) = hd (leaf_pages t)" using ne by (simp add: leaf_rows_pages)
  show "hd (map fst (rev (leaf_rows t)) @ [0]) = last (leaf_pages t)" using ne by (simp add: rev_map [symmetric] leaf_rows_pages hd_rev)
qed

lemma table_walk:
  assumes t: "table_in m F t" and b: "card (dom m) < b" and items: "\<And>d ss. leaf_holds m d ss \<Longrightarrow> reads m (items d) (res_map e (f ss))"
  shows "reads m (walk_leaves b z items get_next_leaf (hd (leaf_pages t))) (res_map e (concat (map (\<lambda>l. f (snd l)) (leaf_rows t))))"
    "reads m (walk_leaves b z items get_prev_leaf (last (leaf_pages t))) (res_map e (concat (map (\<lambda>l. f (snd l)) (rev (leaf_rows t)))))"
  using walk_reads [of m get_next_leaf "leaf_rows t" b items e f z] walk_reads [of m get_prev_leaf "rev (leaf_rows t)" b items e f z]
    table_leaves [OF t b] items by simp_all

lemma concat_rev: "concat (map (\<lambda>l. rev (snd l)) (rev L)) = rev (concat (map snd L))"
  by (induction L) auto

lemma leaf_cells_count: "leaf_holds m d ss \<Longrightarrow> cell_count d = length ss"
  by (auto simp: leaf_holds_def dest: leaf_pageD(6))

lemma find_leaf_reads:
  assumes "table_in m F t"
  shows "reads m (find_leftmost_leaf z (root_page t)) (Ok (hd (leaf_pages t)))"
    "reads m (find_rightmost_leaf z (root_page t)) (Ok (last (leaf_pages t)))"
  using assms table_in_bounds(1) [OF assms] unfolding find_leftmost_leaf_def find_rightmost_leaf_def
  by (auto intro!: reads_bound leftmost_reads rightmost_reads simp: table_in_def)

text \<open>Every scan is one of these two walks; \<open>item\<close> reads one cell.\<close>

lemma forward_scan:
  assumes t: "table_in m F t" and item: "\<And>d ss i. leaf_holds m d ss \<Longrightarrow> i < length ss \<Longrightarrow> reads m (item d i) (e (ss ! i))"
  shows "reads m (op_bind (find_leftmost_leaf z (root_page t)) (\<lambda>leaf.
      with_bound (\<lambda>n. walk_leaves n z (\<lambda>d. op_map (item d) [0..<cell_count d]) get_next_leaf leaf))) (res_map e (rows t))"
proof (rule reads_bind_Ok [OF find_leaf_reads(1) [OF t]], rule reads_bound)
  fix b assume b: "card (dom m) < b"
  have "reads m (op_map (item d) [0..<cell_count d]) (res_map e (id ss))" if "leaf_holds m d ss" for d ss
    using reads_map [of "[0..<cell_count d]" m "item d" "\<lambda>i. e (ss ! i)"] item [OF that] leaf_cells_count [OF that]
    by (simp add: res_map_comp nth_upt)
  from table_walk(1) [where z = z and f = id, OF t b this]
  show "reads m (walk_leaves b z (\<lambda>d. op_map (item d) [0..<cell_count d]) get_next_leaf (hd (leaf_pages t))) (res_map e (rows t))"
    by (simp add: leaf_rows_rows)
qed

lemma backward_scan:
  assumes t: "table_in m F t" and item: "\<And>d ss i. leaf_holds m d ss \<Longrightarrow> i < length ss \<Longrightarrow> reads m (item d i) (e (ss ! i))"
  shows "reads m (op_bind (find_rightmost_leaf z (root_page t)) (\<lambda>leaf.
      with_bound (\<lambda>n. walk_leaves n z (\<lambda>d. op_map (item d) (rev [0..<cell_count d])) get_prev_leaf leaf))) (res_map e (rev (rows t)))"
proof (rule reads_bind_Ok [OF find_leaf_reads(2) [OF t]], rule reads_bound)
  fix b assume b: "card (dom m) < b"
  have "reads m (op_map (item d) (rev [0..<cell_count d])) (res_map e (rev ss))" if "leaf_holds m d ss" for d ss
    using reads_map [of "rev [0..<cell_count d]" m "item d" "\<lambda>i. e (ss ! i)"] item [OF that] leaf_cells_count [OF that]
    by (simp add: res_map_comp nth_upt)
  from table_walk(2) [where z = z and f = rev, OF t b this]
  show "reads m (walk_leaves b z (\<lambda>d. op_map (item d) (rev [0..<cell_count d])) get_prev_leaf (last (leaf_pages t))) (res_map e (rev (rows t)))"
    by (simp add: concat_rev leaf_rows_rows)
qed

lemma scan_all_reads: "table_in m F t \<Longrightarrow> reads m (scan_all z (root_page t)) (res_map entry_of (rows t))"
  unfolding scan_all_def by (rule forward_scan) (auto intro: scan_entry_reads)

lemma scan_rows_reads: "table_in m F t \<Longrightarrow> reads m (scan_rows z (root_page t)) (res_map row_of (rows t))"
  unfolding scan_rows_def by (rule forward_scan) (auto intro: scan_row_reads)

lemma scan_all_reverse_reads: "table_in m F t \<Longrightarrow> reads m (scan_all_reverse z (root_page t)) (res_map entry_of (rev (rows t)))"
  unfolding scan_all_reverse_def by (rule backward_scan) (auto intro: scan_entry_reads)

section \<open>Scans with a limit\<close>

lemma take_cells_reads:
  assumes "\<And>i. i \<in> set is \<Longrightarrow> reads m (item i) (g i)"
  shows "reads m (take_cells item is limit) (res_bind (res_map g (take limit is)) (\<lambda>xs. Ok (xs, limit < length is)))"
  using assms
proof (induction "is" arbitrary: limit)
  case (Cons i "is")
  show ?case
  proof (cases limit)
    case (Suc l)
    have "reads m (take_cells item is l) (res_bind (res_map g (take l is)) (\<lambda>xs. Ok (xs, l < length is)))"
      using Cons.prems by (intro Cons.IH) auto
    note rest = reads_bind [OF this, where f = "\<lambda>(xs, stop). op_return (x # xs, stop)" and g = "\<lambda>(xs, stop). Ok (x # xs, stop)" for x]
    have "reads m (op_bind (item i) (\<lambda>x. op_bind (take_cells item is l) (\<lambda>(xs, stop). op_return (x # xs, stop))))
        (res_bind (g i) (\<lambda>x. res_bind (res_bind (res_map g (take l is)) (\<lambda>xs. Ok (xs, l < length is))) (\<lambda>(xs, stop). Ok (x # xs, stop))))"
      using Cons.prems by (intro reads_bind rest) (auto intro: reads_return)
    then show ?thesis by (cases "g i"; cases "res_map g (take l is)") (simp_all add: Suc)
  qed (simp add: reads_return)
qed (simp add: reads_return)

lemma walk_limit_reads:
  assumes "succ_chain m nx (map fst L) 0" and "0 \<notin> fst ` set L" and "length L \<le> b"
    and "\<And>n ss. (n, ss) \<in> set L \<Longrightarrow> \<exists>d. m n = Some d \<and> leaf_holds m d ss"
    and "\<And>d ss limit. leaf_holds m d ss \<Longrightarrow>
      reads m (take_cells (item d) (order d) limit) (res_bind (res_map e (take limit (f ss))) (\<lambda>xs. Ok (xs, limit < length (f ss))))"
  shows "reads m (walk_leaves_limit b z item order nx (hd (map fst L @ [0])) limit) (res_map e (take limit (concat (map (\<lambda>l. f (snd l)) L))))"
  using assms
proof (induction L arbitrary: b limit)
  case Nil
  then show ?case by (cases b) (auto intro: reads_return)
next
  case (Cons l L)
  obtain n ss where l: "l = (n, ss)" by (cases l)
  obtain d where d: "m n = Some d" "leaf_holds m d ss" "nx d = hd (map fst L @ [0])" using Cons.prems(1,4) l by fastforce
  obtain b' where b: "b = Suc b'" using Cons.prems(3) by (cases b) auto
  let ?rest = "concat (map (\<lambda>l. f (snd l)) L)"
  have IH: "reads m (walk_leaves_limit b' z item order nx (nx d) limit') (res_map e (take limit' ?rest))" for limit'
    unfolding d(3) using Cons.prems b by (intro Cons.IH) auto
  let ?k = "\<lambda>(xs, stop). if stop then op_return xs
      else op_bind (walk_leaves_limit b' z item order nx (nx d) (limit - length xs)) (\<lambda>ys. op_return (xs @ ys))"
  let ?g = "\<lambda>(xs, stop). if stop then Ok xs else res_bind (res_map e (take (limit - length xs) ?rest)) (\<lambda>ys. Ok (xs @ ys))"
  have "reads m (op_bind (take_cells (item d) (order d) limit) ?k)
      (res_bind (res_bind (res_map e (take limit (f ss))) (\<lambda>xs. Ok (xs, limit < length (f ss)))) ?g)"
    by (intro reads_bind [OF Cons.prems(5) [OF d(2)]]) (auto intro: reads_return reads_bind [OF IH reads_return] split: if_split)
  moreover have "res_bind (res_bind (res_map e (take limit (f ss))) (\<lambda>xs. Ok (xs, limit < length (f ss)))) ?g
      = res_map e (take limit (concat (map (\<lambda>l. f (snd l)) (l # L))))"
  proof (cases "res_map e (take limit (f ss))")
    case (Ok xs)
    then have "length xs = min limit (length (f ss))" using res_map_length [OF Ok] by simp
    then show ?thesis using Ok by (auto simp: l res_map_append min_def)
  qed (simp_all add: l res_map_append)
  ultimately show ?case using d(1) Cons.prems(2) by (auto simp: l b intro!: reads_bind_Ok [OF reads_get])
qed

lemma take_leaf_cells:
  assumes h: "leaf_holds m d ss" and item: "\<And>i. i < length ss \<Longrightarrow> reads m (item i) (e (ss ! i))"
  shows "reads m (take_cells item [0..<cell_count d] limit) (res_bind (res_map e (take limit ss)) (\<lambda>xs. Ok (xs, limit < length ss)))"
    "reads m (take_cells item (rev [0..<cell_count d]) limit) (res_bind (res_map e (take limit (rev ss))) (\<lambda>xs. Ok (xs, limit < length (rev ss))))"
  using take_cells_reads [of "[0..<length ss]" m item "\<lambda>i. e (ss ! i)" limit] take_cells_reads [of "rev [0..<length ss]" m item "\<lambda>i. e (ss ! i)" limit]
    item leaf_cells_count [OF h] by (simp_all add: res_map_comp take_map [symmetric] nth_upt)

lemma forward_limit:
  assumes t: "table_in m F t" and item: "\<And>d ss i. leaf_holds m d ss \<Longrightarrow> i < length ss \<Longrightarrow> reads m (item d i) (e (ss ! i))"
  shows "reads m (op_bind (find_leftmost_leaf z (root_page t)) (\<lambda>leaf.
      with_bound (\<lambda>n. walk_leaves_limit n z item (\<lambda>d. [0..<cell_count d]) get_next_leaf leaf limit))) (res_map e (take limit (rows t)))"
proof (rule reads_bind_Ok [OF find_leaf_reads(1) [OF t]], rule reads_bound)
  fix b assume b: "card (dom m) < b"
  show "reads m (walk_leaves_limit b z item (\<lambda>d. [0..<cell_count d]) get_next_leaf (hd (leaf_pages t)) limit) (res_map e (take limit (rows t)))"
    using walk_limit_reads [of m get_next_leaf "leaf_rows t" b item "\<lambda>d. [0..<cell_count d]" e "\<lambda>ss. ss" z limit]
      table_leaves [OF t b] take_leaf_cells(1) [of m _ _ "item d" e for d] item by (simp add: leaf_rows_rows)
qed

lemma backward_limit:
  assumes t: "table_in m F t" and item: "\<And>d ss i. leaf_holds m d ss \<Longrightarrow> i < length ss \<Longrightarrow> reads m (item d i) (e (ss ! i))"
  shows "reads m (op_bind (find_rightmost_leaf z (root_page t)) (\<lambda>leaf.
      with_bound (\<lambda>n. walk_leaves_limit n z item (\<lambda>d. rev [0..<cell_count d]) get_prev_leaf leaf limit))) (res_map e (take limit (rev (rows t))))"
proof (rule reads_bind_Ok [OF find_leaf_reads(2) [OF t]], rule reads_bound)
  fix b assume b: "card (dom m) < b"
  show "reads m (walk_leaves_limit b z item (\<lambda>d. rev [0..<cell_count d]) get_prev_leaf (last (leaf_pages t)) limit) (res_map e (take limit (rev (rows t))))"
    using walk_limit_reads [of m get_prev_leaf "rev (leaf_rows t)" b item "\<lambda>d. rev [0..<cell_count d]" e rev z limit]
      table_leaves [OF t b] take_leaf_cells(2) [of m _ _ "item d" e for d] item by (simp add: leaf_rows_rows concat_rev)
qed

lemma scan_rows_limit_reads: "table_in m F t \<Longrightarrow> reads m (scan_rows_limit z (root_page t) limit) (res_map row_of (take limit (rows t)))"
  unfolding scan_rows_limit_def by (rule forward_limit) (auto intro: scan_row_reads)

lemma scan_rows_reverse_limit_reads:
  "table_in m F t \<Longrightarrow> reads m (scan_rows_reverse_limit z (root_page t) limit) (res_map row_of (take limit (rev (rows t))))"
  unfolding scan_rows_reverse_limit_def by (rule backward_limit) (auto intro: scan_row_reads)

section \<open>Counting and the largest rowid\<close>

lemma left_children_ok:
  assumes ip: "interior_page d es right"
  shows "i + n \<le> length es \<Longrightarrow> left_children d i n = Ok (map fst (take n (drop i es)))"
proof (induction n arbitrary: i)
  case (Suc n)
  then have i: "i < length es" by simp
  show ?case using interior_child [OF ip i] Suc i by (simp add: Cons_nth_drop_Suc [symmetric])
qed simp

lemma count_children_ok:
  assumes ip: "interior_page d (zip (map root_page ts) ks) (root_page (last ts))" and l: "length ts = Suc (length ks)" and c: "content_offset d + 12 * length ks = PAGE_SIZE"
  shows "count_children d = Ok (map root_page ts)"
proof -
  have n: "cell_count d = length ks" using interior_pageD(5) [OF ip] l by simp
  have "INTERIOR_HEADER_SIZE + 2 * length ks \<le> content_offset d" using slottedD(3) [OF interior_pageD(1) [OF ip]] l by simp
  then have b: "length ks < MAX_INTERIOR_CHILDREN" using c by (simp add: MAX_INTERIOR_CHILDREN_def page_consts)
  have "children (zip (map root_page ts) ks) (root_page (last ts)) = map root_page ts" by (rule children_zip [OF l])
  then show ?thesis using n b left_children_ok [OF ip, of 0 "length ks"] l interior_pageD(3) [OF ip]
    by (simp add: count_children_def children_def)
qed

lemma count_rows_reads: "tree_in m t \<Longrightarrow> height t \<le> b \<Longrightarrow> reads m (count_rows_from b z (root_page t)) (Ok (length (rows t)))"
proof (induction t arbitrary: b)
  case (Leaf n ss)
  then obtain d b' where d: "m n = Some d" "leaf_page d (map stored_cell ss)" "b = Suc b'" by (cases b) auto
  with leaf_pageD(2,6) [OF d(2)] show ?case
    using reads_return [of m "length ss"] by (auto intro!: reads_bind_Ok [OF reads_get])
next
  case (Node n ts ks)
  obtain d where d: "m n = Some d" "interior_page d (zip (map root_page ts) ks) (root_page (last ts))" "length ts = Suc (length ks)"
      "content_offset d + 12 * length ks = PAGE_SIZE" "\<forall>t \<in> set ts. tree_in m t"
    using Node.prems(1) by auto
  obtain b' where b: "b = Suc b'" using Node.prems(2) by (cases b) auto
  have "reads m (op_map (count_rows_from b' z) (map root_page ts)) (Ok (map (\<lambda>t. length (rows t)) ts))"
  proof -
    have "reads m (count_rows_from b' z (root_page t)) (Ok (length (rows t)))" if "t \<in> set ts" for t
      using Node.prems(2) d(5) that height_child [OF that] b by (intro Node.IH [OF that]) auto
    then have "reads m (op_map (\<lambda>t. count_rows_from b' z (root_page t)) ts) (Ok (map (\<lambda>t. length (rows t)) ts))"
      using reads_map [of ts m _ "\<lambda>t. Ok (length (rows t))"] by (simp add: res_map_Ok)
    moreover have "op_map (\<lambda>t. count_rows_from b' z (root_page t)) ts = op_map (count_rows_from b' z) (map root_page ts)"
      by (induction ts) simp_all
    ultimately show ?thesis by simp
  qed
  moreover have "sum_list (map (\<lambda>t. length (rows t)) ts) = length (concat (map rows ts))" by (simp add: length_concat o_def)
  ultimately show ?case using d(1) interior_pageD(2) [OF d(2)] count_children_ok [OF d(2,3,4)] reads_return [of m "sum_list (map (\<lambda>t. length (rows t)) ts)"]
    by (auto simp: b intro!: reads_bind_Ok [OF reads_get] reads_bind_Ok [OF reads_lift_Ok] elim!: reads_bind_Ok)
qed

text \<open>The largest rowid as the code finds it: of the last leaf, or zero if that leaf is empty.\<close>

definition last_rowid :: "btree \<Rightarrow> i64" where
  "last_rowid t = (case rev (snd (last (leaf_rows t))) of [] \<Rightarrow> 0 | s # _ \<Rightarrow> fst s)"

lemma leaf_rows_nonempty: "tree_in m t \<Longrightarrow> leaf_rows t \<noteq> []"
  using leaf_pages_nonempty leaf_rows_pages by (metis list.simps(8))

lemma max_rowid_reads: "tree_in m t \<Longrightarrow> height t \<le> b \<Longrightarrow> reads m (max_rowid_from b z (root_page t)) (Ok (last_rowid t))"
proof (induction t arbitrary: b)
  case (Leaf n ss)
  then obtain d b' where d: "m n = Some d" "leaf_page d (map stored_cell ss)" "b = Suc b'" by (cases b) auto
  have "cell_key True d LEAF_HEADER_SIZE (length ss - 1) = Ok (last_rowid (Leaf n ss))" if ne: "ss \<noteq> []"
  proof -
    obtain ss' s where s: "ss = ss' @ [s]" using ne by (cases ss rule: rev_cases) auto
    have "cell_key True d LEAF_HEADER_SIZE (length ss - 1) = Ok (i64_at (map stored_cell ss ! (length ss - 1)) 4)"
      using cell_key_slotted [OF leaf_pageD(1) [OF d(2)], of "length ss - 1" True] leaf_pageD(5) [OF d(2), of "length ss - 1"] ne by simp
    moreover have "stored_in m s" using Leaf.prems(1) s by auto
    ultimately show ?thesis by (simp add: s last_rowid_def nth_append stored_cell_fields(3) del: stored_in.simps)
  qed
  then show ?case using d leaf_pageD(2,6) [OF d(2)]
    by (cases "ss = []") (auto simp: last_rowid_def intro!: reads_bind_Ok [OF reads_get] reads_return reads_lift_Ok)
next
  case (Node n ts ks)
  obtain d where d: "m n = Some d" "interior_page d (zip (map root_page ts) ks) (root_page (last ts))" "length ts = Suc (length ks)" "\<forall>t \<in> set ts. tree_in m t"
    using Node.prems(1) by auto
  obtain b' where b: "b = Suc b'" using Node.prems(2) by (cases b) auto
  have t: "last ts \<in> set ts" using d(3) by (cases ts) auto
  have IH: "reads m (max_rowid_from b' z (root_page (last ts))) (Ok (last_rowid (last ts)))"
    using Node.prems(2) d(4) t height_child [OF t] b by (intro Node.IH [OF t]) auto
  have "last (leaf_rows (Node n ts ks)) = last (leaf_rows (last ts))"
    using leaf_rows_nonempty [of m "last ts"] d(3,4) t by (cases ts rule: rev_cases) auto
  then show ?case using IH d(1) interior_pageD(2,3) [OF d(2)]
    by (auto simp: b last_rowid_def intro!: reads_bind_Ok [OF reads_get])
qed

end
