(* ===== verification/BTreeFrame.thy ===== *)
theory BTreeFrame
  imports BTreeScan
begin

text \<open>
  What changes of pages leave of a tree: a tree depends on its own pages only; the links of a leaf may change without its rows.
  Then deletion: the leaf of the rowid, the page without the row, and the release of its overflow chain.
\<close>

section \<open>Frames\<close>

lemma chain_in_cong: "(\<And>p. p \<in> set ps \<Longrightarrow> m' p = m p) \<Longrightarrow> chain_in m ps bs \<Longrightarrow> chain_in m' ps bs"
  by (induction m ps bs rule: chain_in.induct) auto

lemma stored_in_cong: "(\<And>p. p \<in> set (snd (snd s)) \<Longrightarrow> m' p = m p) \<Longrightarrow> stored_in m s \<Longrightarrow> stored_in m' s"
  by (cases s) (auto intro: chain_in_cong)

lemma set_chain_pages: "set (chain_pages ss) = (\<Union>s \<in> set ss. set (snd (snd s)))"
  by (auto simp: chain_pages_def)

lemma chain_pages_append [simp]: "chain_pages (xs @ ys) = chain_pages xs @ chain_pages ys" "chain_pages [] = []"
  "chain_pages (s # ys) = snd (snd s) @ chain_pages ys"
  by (simp_all add: chain_pages_def split_def)

text \<open>A write between the header of a page and its cell pointers.\<close>

lemma slotted_links:
  assumes sl: "slotted base d cs" and off: "5 \<le> off" "off + length bs \<le> base"
  shows "slotted base (write_at off bs d) cs" "content_offset (write_at off bs d) = content_offset d"
proof -
  let ?d = "write_at off bs d"
  have b: "base \<le> PAGE_SIZE" and l: "length d = PAGE_SIZE" using slottedD(1,3,4) [OF sl] by simp_all
  then have l': "length ?d = PAGE_SIZE" using off by simp
  have keep: "sub_bytes ?d o2 k = sub_bytes d o2 k" if "o2 + k \<le> 5 \<or> base \<le> o2" "o2 + k \<le> PAGE_SIZE" for o2 k
    using that off l by (intro sub_bytes_write_other) auto
  have u16: "u16_at ?d o2 = u16_at d o2" if "o2 + 2 \<le> 5 \<or> base \<le> o2" "o2 + 2 \<le> PAGE_SIZE" for o2
    using keep [OF that] by (simp add: u16_at_def)
  have f: "cell_count ?d = cell_count d" "content_offset ?d = content_offset d"
    using u16 [of 1] u16 [of 3] by (simp_all add: cell_count_def content_offset_def page_consts)
  have p: "cell_ptr base ?d i = cell_ptr base d i" if "i < length cs" for i
    using u16 [of "base + i * 2"] slottedD(3,4) [OF sl] that by (simp add: cell_ptr_def)
  show "content_offset ?d = content_offset d" by (rule f)
  show "slotted base ?d cs"
    unfolding slotted_def
  proof (intro conjI allI impI)
    fix i assume i: "i < length cs"
    show "content_offset ?d \<le> cell_ptr base ?d i" using p [OF i] f slottedD(5) [OF sl i] by simp
    show "cell_ptr base ?d i + length (cs ! i) \<le> PAGE_SIZE" using p [OF i] slottedD(6) [OF sl i] by simp
    show "sub_bytes ?d (cell_ptr base ?d i) (length (cs ! i)) = cs ! i"
      using p [OF i] slottedD(3) [OF sl] slottedD(5,6,7) [OF sl, of i] i by (simp add: keep)
  next
    fix j i assume "j < length cs" "i < j"
    then show "cells_apart base ?d cs i j" using p [of i] p [of j] slottedD(8) [OF sl, of i j] by (simp add: cells_apart_def)
  qed (use l' f slottedD(2,3,4) [OF sl] in simp_all)
qed

lemma leaf_page_links:
  assumes lp: "leaf_page d cs"
  shows "leaf_page (set_prev_leaf x d) cs" "leaf_page (set_next_leaf x d) cs"
    "get_prev_leaf (set_prev_leaf x d) = x" "get_next_leaf (set_prev_leaf x d) = get_next_leaf d"
    "get_next_leaf (set_next_leaf x d) = x" "get_prev_leaf (set_next_leaf x d) = get_prev_leaf d"
    "content_offset (set_prev_leaf x d) = content_offset d" "content_offset (set_next_leaf x d) = content_offset d"
proof -
  have l: "length d = PAGE_SIZE" by (rule leaf_pageD(7) [OF lp])
  have t: "page_type (write_at off bs d) = page_type d" if "0 < off" "off + length bs \<le> PAGE_SIZE" for off and bs :: bytes
    using that l by (intro page_type_keep sub_bytes_write_other) (auto simp: page_consts)
  note s = slotted_links [OF leaf_pageD(1) [OF lp]]
  show "leaf_page (set_prev_leaf x d) cs" "leaf_page (set_next_leaf x d) cs"
    using lp s(1) t by (simp_all add: leaf_page_def set_prev_leaf_def set_next_leaf_def page_consts)
  show "content_offset (set_prev_leaf x d) = content_offset d" "content_offset (set_next_leaf x d) = content_offset d"
    using s(2) by (simp_all add: set_prev_leaf_def set_next_leaf_def page_consts)
  show "get_prev_leaf (set_prev_leaf x d) = x" "get_next_leaf (set_next_leaf x d) = x"
    by (simp_all add: get_prev_leaf_def set_prev_leaf_def get_next_leaf_def set_next_leaf_def)
  show "get_next_leaf (set_prev_leaf x d) = get_next_leaf d" "get_prev_leaf (set_next_leaf x d) = get_prev_leaf d"
    using l by (simp_all add: get_prev_leaf_def set_prev_leaf_def get_next_leaf_def set_next_leaf_def at_write_other page_consts)
qed

text \<open>Pages that are the same up to the links of leaves.\<close>

definition relinked :: "page_map \<Rightarrow> page_map \<Rightarrow> u32 \<Rightarrow> bool" where
  "relinked m m' p \<longleftrightarrow> m' p = m p \<or> (\<exists>d x. m p = Some d \<and> page_type d = LEAF_TABLE \<and> m' p = Some (set_prev_leaf x d))"

lemma relinked_refl: "m' p = m p \<Longrightarrow> relinked m m' p"
  by (simp add: relinked_def)

lemma tree_in_relinked:
  assumes "tree_in m t" and "\<And>p. p \<in> set (tree_pages t) \<Longrightarrow> relinked m m' p" and "\<And>p. p \<in> set (chain_pages (rows t)) \<Longrightarrow> m' p = m p"
  shows "tree_in m' t"
  using assms
proof (induction t)
  case (Leaf n ss)
  have "\<exists>d. m' n = Some d \<and> leaf_page d (map stored_cell ss)"
    using Leaf.prems(1,2) leaf_page_links(1) by (fastforce simp: relinked_def)
  moreover have "\<forall>s \<in> set ss. stored_in m' s"
    using Leaf.prems(1,3) by (auto simp: set_chain_pages intro!: stored_in_cong [of _ m' m])
  ultimately show ?case by simp
next
  case (Node n ts ks)
  have "m' n = m n" using Node.prems(1) Node.prems(2) [of n] by (auto simp: relinked_def dest: interior_pageD(2))
  moreover have "tree_in m' t" if t: "t \<in> set ts" for t
    using Node.prems t by (intro Node.IH [OF t]) (auto simp: set_chain_pages)
  ultimately show ?case using Node.prems(1) by simp
qed

lemma tree_in_cong: "tree_in m t \<Longrightarrow> (\<And>p. p \<in> set (all_pages t) \<Longrightarrow> m' p = m p) \<Longrightarrow> tree_in m' t"
  by (erule tree_in_relinked) (auto simp: all_pages_def intro: relinked_refl)

lemma linked_cong: "linked m prev ps nxt \<Longrightarrow> (\<And>p. p \<in> set ps \<Longrightarrow> m' p = m p) \<Longrightarrow> linked m' prev ps nxt"
  by (induction ps arbitrary: prev) auto

lemma linked_append:
  "ps \<noteq> [] \<Longrightarrow> linked m prev (ps @ qs) nxt \<longleftrightarrow> linked m prev ps (hd (qs @ [nxt])) \<and> linked m (last ps) qs nxt"
proof (induction ps arbitrary: prev)
  case (Cons p ps)
  show ?case
  proof (cases ps)
    case (Cons q qs')
    then show ?thesis using Cons.IH by auto
  qed simp
qed simp

section \<open>Chains\<close>

lemma chain_in_dom: "chain_in m ps bs \<Longrightarrow> set ps \<subseteq> dom m"
  by (induction m ps bs rule: chain_in.induct) auto

lemma free_chain_runs:
  assumes "chain_in m ps bs" and "distinct ps" and "set ps \<inter> F = {}" and "length ps \<le> b"
    and "\<And>m'. (\<And>p. p \<notin> F \<union> set ps \<Longrightarrow> m' p = m p) \<Longrightarrow> dom m' = dom m \<Longrightarrow> runs (m', F \<union> set ps, k) (f ()) Q"
  shows "runs (m, F, k) (op_bind (free_chain b z (hd ps)) f) Q"
  using assms
proof (induction ps arbitrary: m F bs b)
  case (Cons p ps)
  obtain b' where b: "b = Suc b'" using Cons.prems(4) by (cases b) auto
  obtain d where d: "m p = Some d" "p \<noteq> 0" "u32_at d 0 = hd (ps @ [0])" using Cons.prems(1) by (cases ps) auto
  have "runs (m, F, k) (op_bind (free_page z p) (\<lambda>_. op_bind (free_chain b' z (u32_at d 0)) f)) Q"
  proof (rule runs_free [where m = m and n = p])
    fix m1 assume m1: "\<And>q. q \<notin> insert p F \<Longrightarrow> m1 q = m q" "dom m1 = dom m"
    show "runs (m1, insert p F, k) (op_bind (free_chain b' z (u32_at d 0)) f) Q"
    proof (cases ps)
      case Nil
      have "runs (m1, insert p F, k) (f ()) Q" using Cons.prems(5) [of m1] m1 Nil by simp
      then show ?thesis using d(3) Nil by (cases b') (simp_all add: runs_return_bind)
    next
      case (Cons q qs)
      then have "chain_in m ps (drop OVERFLOW_DATA_SIZE bs)" using Cons.prems(1) by simp
      then have c: "chain_in m1 ps (drop OVERFLOW_DATA_SIZE bs)" using Cons.prems(2,3) by (intro chain_in_cong [of ps m1 m] m1(1)) (auto simp: disjoint_iff)
      have "runs (m1, insert p F, k) (op_bind (free_chain b' z (hd ps)) f) Q"
      proof (rule Cons.IH [OF c])
        fix m' assume m': "\<And>q. q \<notin> insert p F \<union> set ps \<Longrightarrow> m' q = m1 q" "dom m' = dom m1"
        have "runs (m', F \<union> set (p # ps), k) (f ()) Q" using m' m1 by (intro Cons.prems(5)) auto
        then show "runs (m', insert p F \<union> set ps, k) (f ()) Q" by simp
      qed (use Cons.prems(2-4) b in auto)
      then show ?thesis using d(3) Cons by simp
    qed
  qed (use d Cons.prems(3) in auto)
  then show ?case using d by (auto simp: b runs_assoc intro!: runs_get_page)
qed simp

lemma concat_apart: "distinct (concat (map f ts)) \<Longrightarrow> x \<in> set (f t) \<Longrightarrow> x \<in> set (f t') \<Longrightarrow> t \<in> set ts \<Longrightarrow> t' \<in> set ts \<Longrightarrow> t = t'"
  by (induction ts) auto

section \<open>Deletion\<close>

text \<open>The leaf that a descent reaches.\<close>

function leaf_for :: "i64 \<Rightarrow> btree \<Rightarrow> u32 \<times> stored list" where
  "leaf_for r (Leaf n ss) = (n, ss)"
| "leaf_for r (Node n ts ks) =
     (let i = upper_index (map sint ks) (sint r) in if i < length ts then leaf_for r (ts ! i) else (n, []))"
  by pat_completeness auto
termination
  by (relation "measure (\<lambda>(r, t). size t)") (auto simp: less_Suc_eq_le size_list_estimation' dest: nth_mem)

fun remove_row :: "i64 \<Rightarrow> btree \<Rightarrow> btree" where
  "remove_row r (Leaf n ss) = Leaf n (filter (\<lambda>s. fst s \<noteq> r) ss)"
| "remove_row r (Node n ts ks) = Node n (map (remove_row r) ts) ks"

lemma remove_row_pages [simp]: "root_page (remove_row r t) = root_page t" "tree_pages (remove_row r t) = tree_pages t" "leaf_pages (remove_row r t) = leaf_pages t"
proof -
  show "root_page (remove_row r t) = root_page t" by (cases t) simp_all
  show "tree_pages (remove_row r t) = tree_pages t" "leaf_pages (remove_row r t) = leaf_pages t"
    by (induction t) (auto simp: o_def cong: map_cong)
qed

lemma remove_row_rows: "rows (remove_row r t) = filter (\<lambda>s. fst s \<noteq> r) (rows t)"
  by (induction t) (auto simp: o_def filter_concat cong: map_cong)

lemma remove_row_ordered:
  "ordered lo hi t \<Longrightarrow> ordered lo hi (remove_row r t)"
  "ordered_kids lo ts us \<Longrightarrow> ordered_kids lo (map (remove_row r) ts) us"
  by (induction lo hi t and lo ts us rule: ordered_ordered_kids.induct) (auto simp: sorted_wrt_map sorted_wrt_filter split: list.splits)

lemma leaf_for_rows: "tree_in m t \<Longrightarrow> ordered lo hi t \<Longrightarrow> lo \<le> sint r \<Longrightarrow> sint r < hi \<Longrightarrow>
    leaf_for r t \<in> set (leaf_rows t) \<and> contents t r = contents (Leaf (fst (leaf_for r t)) (snd (leaf_for r t))) r"
proof (induction t arbitrary: lo hi)
  case (Node n ts ks)
  then have len: "length ts = Suc (length ks)" and o: "ordered_kids lo ts (map sint ks @ [hi])" by auto
  obtain pre t post kpre kpost lo' hi' us where c: "ts = pre @ t # post" "ks = kpre @ kpost" "length pre = length kpre"
      "length pre = upper_index (map sint ks) (sint r)" "ordered_kids lo pre (map sint kpre)" "lo' = last (lo # map sint kpre)" "ordered lo' hi' t"
      "map sint kpost @ [hi] = hi' # us" "ordered_kids hi' post us" "lo' \<le> sint r" "sint r < hi'"
    by (rule descend [OF o Node.prems(3,4) len])
  have l: "leaf_for r (Node n ts ks) = leaf_for r t" unfolding c(4) [symmetric] leaf_for.simps Let_def by (simp add: c(1) nth_append)
  have t: "t \<in> set ts" using c(1) by simp
  have "contents (Node n ts ks) r = contents t r" using contents_child [OF c(5,9) _ c(11)] c(1,6,10) by simp
  moreover have "leaf_for r t \<in> set (leaf_rows t) \<and> contents t r = contents (Leaf (fst (leaf_for r t)) (snd (leaf_for r t))) r"
    using Node.prems(1) t by (intro Node.IH [OF t _ c(7,10,11)]) simp
  ultimately show ?case using l t by auto
qed (simp add: contents_def)

lemma delete_descend:
  "tree_in m t \<Longrightarrow> ordered lo hi t \<Longrightarrow> lo \<le> sint r \<Longrightarrow> sint r < hi \<Longrightarrow> height t \<le> b \<Longrightarrow>
     (\<And>b'. runs (m, F, k) (delete_from_page (Suc b') z (fst (leaf_for r t)) r) Q) \<Longrightarrow> runs (m, F, k) (delete_from_page b z (root_page t) r) Q"
proof (induction t arbitrary: lo hi b)
  case (Leaf n ss)
  then show ?case by (cases b) (auto simp del: delete_from_page.simps)
next
  case (Node n ts ks)
  obtain d where d: "m n = Some d" "interior_page d (zip (map root_page ts) ks) (root_page (last ts))" "length ts = Suc (length ks)" "\<forall>t \<in> set ts. tree_in m t"
    using Node.prems(1) by auto
  obtain b' where b: "b = Suc b'" using Node.prems(5) by (cases b) auto
  have "ordered_kids lo ts (map sint ks @ [hi])" using Node.prems(2) by simp
  then obtain pre t post kpre kpost lo' hi' us where c: "ts = pre @ t # post" "ks = kpre @ kpost" "length pre = length kpre"
      "length pre = upper_index (map sint ks) (sint r)" "ordered_kids lo pre (map sint kpre)" "lo' = last (lo # map sint kpre)" "ordered lo' hi' t"
      "map sint kpost @ [hi] = hi' # us" "ordered_kids hi' post us" "lo' \<le> sint r" "sint r < hi'"
    by (rule descend [OF _ Node.prems(3,4) d(3)])
  have l: "leaf_for r (Node n ts ks) = leaf_for r t" unfolding c(4) [symmetric] leaf_for.simps Let_def by (simp add: c(1) nth_append)
  have t: "t \<in> set ts" using c(1) by simp
  have "runs (m, F, k) (delete_from_page b' z (root_page t) r) Q"
    using Node.prems(5,6) d(4) t height_child [OF t] b l by (intro Node.IH [OF t _ c(7,10,11)]) (auto simp del: delete_from_page.simps leaf_for.simps)
  then show ?case using d(1) find_child_tree [OF d(2) c(1) d(3) c(4)] interior_pageD(2) [OF d(2)]
    by (auto simp: b intro!: runs_get_page runs_lift_bind)
qed

text \<open>A tree after a change of leaves, leaf by leaf.\<close>

lemma tree_in_remove:
  assumes "tree_in m t" and "\<And>p. p \<in> set (tree_pages t) \<Longrightarrow> p \<notin> set (leaf_pages t) \<Longrightarrow> m' p = m p"
    and "\<And>n ss. (n, ss) \<in> set (leaf_rows t) \<Longrightarrow> \<exists>d. m' n = Some d \<and> leaf_holds m' d (filter (\<lambda>s. fst s \<noteq> r) ss)"
    and "distinct (tree_pages t)"
  shows "tree_in m' (remove_row r t)"
  using assms
proof (induction t)
  case (Node n ts ks)
  have sub: "set (leaf_pages (Node n ts ks)) \<subseteq> set (concat (map tree_pages ts))" using leaf_pages_sub by fastforce
  then have "m' n = m n" using Node.prems(2) [of n] Node.prems(4) by auto
  moreover have "tree_in m' (remove_row r t)" if t: "t \<in> set ts" for t
  proof (rule Node.IH [OF t])
    show "tree_in m t" using Node.prems(1) t by simp
    show "distinct (tree_pages t)" using Node.prems(4) t by (auto simp: distinct_concat_iff)
    fix p assume p: "p \<in> set (tree_pages t)" "p \<notin> set (leaf_pages t)"
    have "p \<notin> set (leaf_pages t')" if t': "t' \<in> set ts" "t' \<noteq> t" for t'
      using concat_apart [of tree_pages ts p t t'] Node.prems(4) p(1) leaf_pages_sub [of t'] t t' by auto
    then have "p \<notin> set (leaf_pages (Node n ts ks))" using p(2) by auto
    then show "m' p = m p" using Node.prems(2) [of p] p t by auto
  qed (use Node.prems(3) t in auto)
  ultimately show ?case using Node.prems(1) by (cases ts rule: rev_cases) (auto simp: o_def last_map)
qed (auto simp: leaf_holds_def)

lemma linked_same:
  "linked m prev ps nxt \<Longrightarrow> (\<And>p d. p \<in> set ps \<Longrightarrow> m p = Some d \<Longrightarrow> \<exists>d'. m' p = Some d' \<and> get_prev_leaf d' = get_prev_leaf d \<and> get_next_leaf d' = get_next_leaf d) \<Longrightarrow>
     linked m' prev ps nxt"
  by (induction ps arbitrary: prev) fastforce+

lemma ordered_distinct:
  assumes "ordered lo hi t"
  shows "distinct (rows t)" "s \<in> set (rows t) \<Longrightarrow> s' \<in> set (rows t) \<Longrightarrow> fst s = fst s' \<Longrightarrow> s = s'"
proof -
  have "distinct (map stored_key (rows t))" using ordered_rows(1) [OF assms] strict_sorted_iff by blast
  then have d: "distinct (rows t)" "inj_on stored_key (set (rows t))" by (simp_all add: distinct_map)
  show "distinct (rows t)" by (rule d)
  show "s \<in> set (rows t) \<Longrightarrow> s' \<in> set (rows t) \<Longrightarrow> fst s = fst s' \<Longrightarrow> s = s'"
    using inj_onD [OF d(2), of s s'] by (cases s; cases s') simp
qed

lemma leaf_rows_sub: "(n, ss) \<in> set (leaf_rows t) \<Longrightarrow> n \<in> set (leaf_pages t) \<and> set ss \<subseteq> set (rows t)"
  by (induction t) fastforce+

lemma chain_pages_distinct: "distinct (chain_pages ss) \<Longrightarrow> s \<in> set ss \<Longrightarrow> distinct (snd (snd s))"
  by (induction ss) auto

lemma chain_pages_filter: "distinct (chain_pages ss) \<Longrightarrow> distinct (chain_pages (filter P ss))"
  by (induction ss) (auto simp: set_chain_pages)

text \<open>The table without a row, from the leaf without it.\<close>

lemma table_in_remove:
  assumes t: "table_in m F t" and lf: "(n, ss) \<in> set (leaf_rows t)" and s: "(r, bs, ps) \<in> set ss" and d: "m n = Some d"
    and d': "m' n = Some d'" "leaf_page d' (map stored_cell (filter (\<lambda>s. fst s \<noteq> r) ss))" "same_links d d'"
    and frame: "\<And>p. p \<notin> F \<union> set ps \<Longrightarrow> p \<noteq> n \<Longrightarrow> m' p = m p"
  shows "table_in m' (F \<union> set ps) (remove_row r t)"
proof -
  have T: "tree_in m t" "ordered (- (2 ^ 63)) (2 ^ 63) t" "linked m 0 (leaf_pages t) 0" "distinct (all_pages t)" "0 \<notin> set (all_pages t)" "set (all_pages t) \<inter> F = {}"
    using t by (simp_all add: table_in_def)
  have ss: "set ss \<subseteq> set (rows t)" using leaf_rows_sub [OF lf] by simp
  have ps: "set ps \<subseteq> set (chain_pages (rows t))" using s ss by (force simp: set_chain_pages)
  have D: "distinct (tree_pages t)" "distinct (chain_pages (rows t))" "set (tree_pages t) \<inter> set (chain_pages (rows t)) = {}"
    using T(4) by (simp_all add: all_pages_def)
  have tree: "p \<notin> F \<union> set ps" if "p \<in> set (tree_pages t)" for p using that T(6) D(3) ps by (auto simp: all_pages_def)
  have n: "n \<in> set (leaf_pages t)" using leaf_rows_sub [OF lf] by simp
  have apart: "p \<notin> set ps" if "s' \<in> set (rows t)" "fst s' \<noteq> r" "p \<in> set (snd (snd s'))" for s' p
    using concat_apart [of "\<lambda>s. snd (snd s)" "rows t" p s' "(r, bs, ps)"] D(2) that s ss by (auto simp: chain_pages_def split_def)
  have chain: "m' p = m p" if s': "s' \<in> set (rows t)" "fst s' \<noteq> r" and p: "p \<in> set (snd (snd s'))" for s' p
  proof (rule frame)
    have "p \<notin> set ps" by (rule apart [OF s' p])
    moreover have "p \<in> set (chain_pages (rows t))" using s'(1) p by (auto simp: set_chain_pages)
    ultimately show "p \<notin> F \<union> set ps" "p \<noteq> n" using T(6) D(3) n leaf_pages_sub [of t] by (auto simp: all_pages_def)
  qed
  have leaf: "\<exists>d. m' n' = Some d \<and> leaf_holds m' d (filter (\<lambda>s. fst s \<noteq> r) ss')" if l': "(n', ss') \<in> set (leaf_rows t)" for n' ss'
  proof -
    have sub: "set ss' \<subseteq> set (rows t)" "n' \<in> set (leaf_pages t)" using leaf_rows_sub [OF l'] by simp_all
    have st: "stored_in m' s'" if "s' \<in> set ss'" "fst s' \<noteq> r" for s'
      using tree_leaves [OF T(1) l'] that sub by (intro stored_in_cong [of s' m' m] chain) (auto simp: leaf_holds_def)
    show ?thesis
    proof (cases "n' = n")
      case True
      then have "ss' = ss" using concat_apart [of "\<lambda>x. [fst x]" "leaf_rows t" n "(n', ss')" "(n, ss)"] lf l' leaf_pages_distinct [OF D(1)]
        by (simp add: leaf_rows_pages [symmetric] concat_map_singleton)
      with d' True st show ?thesis by (auto simp: leaf_holds_def)
    next
      case False
      have "fst s' \<noteq> r" if s': "s' \<in> set ss'" for s'
      proof
        assume "fst s' = r"
        then have "s' = (r, bs, ps)" using ordered_distinct(2) [OF T(2), of s' "(r, bs, ps)"] s s' ss sub by auto
        then have "(n', ss') = (n, ss)"
          using concat_apart [of snd "leaf_rows t" "(r, bs, ps)" "(n', ss')" "(n, ss)"] lf l' s s' ordered_distinct(1) [OF T(2)] by (simp add: leaf_rows_rows)
        with False show False by simp
      qed
      then have "filter (\<lambda>s. fst s \<noteq> r) ss' = ss'" by (simp add: filter_id_conv)
      moreover obtain d2 where d2: "m n' = Some d2" "leaf_holds m d2 ss'" using tree_leaves [OF T(1) l'] by auto
      moreover have "m' n' = m n'" using False tree leaf_pages_sub [of t] sub(2) by (intro frame) auto
      ultimately show ?thesis using st \<open>\<And>s'. s' \<in> set ss' \<Longrightarrow> fst s' \<noteq> r\<close> by (auto simp: leaf_holds_def)
    qed
  qed
  have "tree_in m' (remove_row r t)"
    using tree n by (intro tree_in_remove [OF T(1) _ leaf D(1)] frame) auto
  moreover have "linked m' 0 (leaf_pages t) 0"
  proof (rule linked_same [OF T(3)])
    fix p e assume p: "p \<in> set (leaf_pages t)" "m p = Some e"
    show "\<exists>d'. m' p = Some d' \<and> get_prev_leaf d' = get_prev_leaf e \<and> get_next_leaf d' = get_next_leaf e"
    proof (cases "p = n")
      case True
      then show ?thesis using d d' p(2) same_links_next [OF d'(3)] by simp
    next
      case False
      then show ?thesis using p tree [of p] leaf_pages_sub [of t] frame [of p] by auto
    qed
  qed
  moreover have "all_pages (remove_row r t) = tree_pages t @ chain_pages (filter (\<lambda>s. fst s \<noteq> r) (rows t))"
    by (simp add: all_pages_def remove_row_rows)
  moreover have c: "set (chain_pages (filter (\<lambda>s. fst s \<noteq> r) (rows t))) \<subseteq> set (chain_pages (rows t)) - set ps"
    using apart by (auto simp: set_chain_pages)
  moreover have "distinct (chain_pages (filter (\<lambda>s. fst s \<noteq> r) (rows t)))"
    by (rule chain_pages_filter [OF D(2)])
  ultimately show ?thesis using remove_row_ordered(1) [OF T(2)] T D tree
    by (auto simp: table_in_def all_pages_def)
qed

lemma stored_key_fst: "stored_key s = sint (fst s)"
  by (cases s) simp

lemma sint_eq_iff: "sint (a :: i64) = sint b \<longleftrightarrow> a = b"
  by (auto intro: signed_word_eqI)

lemma stored_filter:
  assumes "\<forall>s \<in> set ss. stored_in m s"
  shows "filter (\<lambda>c. cell_rowid c \<noteq> sint r) (map stored_cell ss) = map stored_cell (filter (\<lambda>s. fst s \<noteq> r) ss)"
proof -
  have "cell_rowid (stored_cell s) = sint r \<longleftrightarrow> fst s = r" if "s \<in> set ss" for s
    using stored_cell_fields(1) [of m s] assms that by (simp add: stored_key_fst sint_eq_iff)
  then show ?thesis by (simp add: filter_map o_def cong: filter_cong)
qed

lemma delete_leaf_runs:
  assumes t: "table_in m F t" and lf: "(n, ss) \<in> set (leaf_rows t)"
    and missing: "sint r \<notin> stored_key ` set ss \<Longrightarrow> Q (Ok False) (m, F, k)"
    and found: "\<And>bs ps m'. (r, bs, ps) \<in> set ss \<Longrightarrow> table_in m' (F \<union> set ps) (remove_row r t) \<Longrightarrow>
      (\<And>p. p \<notin> F \<union> set (all_pages t) \<Longrightarrow> m' p = m p) \<Longrightarrow> dom m' = dom m \<Longrightarrow> Q (Ok True) (m', F \<union> set ps, k)"
  shows "runs (m, F, k) (delete_from_page (Suc b) z n r) Q"
proof -
  have T: "tree_in m t" "distinct (all_pages t)" "set (all_pages t) \<inter> F = {}" using t by (simp_all add: table_in_def)
  obtain d where d: "m n = Some d" "leaf_page d (map stored_cell ss)" "\<forall>s \<in> set ss. stored_in m s"
    using tree_leaves [OF T(1) lf] by (auto simp: leaf_holds_def)
  have sub: "n \<in> set (tree_pages t)" "set ss \<subseteq> set (rows t)" using leaf_rows_sub [OF lf] leaf_pages_sub [of t] by auto
  then have nF: "n \<notin> F" using T(3) by (auto simp: all_pages_def)
  have keys: "cell_rowid ` set (map stored_cell ss) = stored_key ` set ss" using stored_rowids [OF d(3)] by (metis list.set_map)
  let ?k = "\<lambda>(deleted, first). case first of None \<Rightarrow> op_return deleted | Some p \<Rightarrow> op_bind (free_overflow_chain z p) (\<lambda>_. op_return deleted)"
  have "runs (m, F, k) (op_bind (edit_page z n (delete_from_leaf r)) ?k) Q"
  proof (cases "sint r \<in> stored_key ` set ss")
    case False
    then have e: "delete_from_leaf r d = Ok ((False, None), d)" using delete_from_leaf_missing [OF d(2)] keys by simp
    have "m(n \<mapsto> d) = m" using d(1) by (simp add: fun_upd_idem)
    then show ?thesis using missing [OF False] leaf_pageD(7) [OF d(2)]
      by (intro runs_edit [where m = m and g = "delete_from_leaf r", OF d(1) nF e]) (auto intro: runs_return)
  next
    case True
    then obtain bs ps where s: "(r, bs, ps) \<in> set ss" by (auto simp: mem_stored_key)
    let ?c = "stored_cell (r, bs, ps)"
    have st: "stored_in m (r, bs, ps)" using d(3) s by blast
    have cm: "?c \<in> set (map stored_cell ss)" using s by (auto simp del: stored_cell.simps)
    obtain d' where d': "delete_from_leaf r d = Ok ((True, first_overflow ?c), d')" "leaf_page d' (filter (\<lambda>c. cell_rowid c \<noteq> sint r) (map stored_cell ss))" "same_links d d'"
      using delete_from_leaf_found [OF d(2) cm] stored_cell_fields(1) [OF st] by auto
    have lp': "leaf_page d' (map stored_cell (filter (\<lambda>s. fst s \<noteq> r) ss))" using d'(2) stored_filter [OF d(3)] by metis
    have ps: "set ps \<subseteq> set (chain_pages (rows t))" using s sub(2) by (force simp: set_chain_pages)
    then have nps: "n \<notin> set ps" "set ps \<inter> F = {}" using T(2,3) sub(1) by (auto simp: all_pages_def)
    let ?m = "m(n \<mapsto> d')"
    have Q': "Q (Ok True) (m', F \<union> set ps, k)" if m': "\<And>p. p \<notin> F \<union> set ps \<Longrightarrow> m' p = ?m p" "dom m' = dom ?m" for m'
    proof (rule found [OF s])
      show "table_in m' (F \<union> set ps) (remove_row r t)"
        using m' nps nF by (intro table_in_remove [OF t lf s d(1) _ lp' d'(3)]) auto
      show "dom m' = dom m" using m'(2) d(1) by auto
      fix p assume "p \<notin> F \<union> set (all_pages t)"
      then have "p \<notin> F \<union> set ps" "p \<noteq> n" using ps sub(1) by (auto simp: all_pages_def)
      then show "m' p = m p" using m'(1) [of p] by simp
    qed
    have "runs (?m, F, k) (?k (True, first_overflow ?c)) Q"
    proof (cases ps)
      case Nil
      then show ?thesis using stored_first_overflow [OF st] Q' [of ?m] by (simp add: runs_return)
    next
      case (Cons p qs)
      then have "chain_in m ps bs" using st by simp
      then have c: "chain_in ?m ps bs" using nps(1) by (intro chain_in_cong [of ps ?m m]) auto
      have dp: "distinct ps" using chain_pages_distinct [of "rows t" "(r, bs, ps)"] T(2) s sub(2) by (auto simp: all_pages_def)
      have "runs (?m, F, k) (op_bind (free_overflow_chain z p) (\<lambda>_. op_return True)) Q"
        unfolding free_overflow_chain_def
      proof (rule runs_bound_bind)
        fix b assume b: "card (dom ?m) < b"
        have "length ps \<le> card (dom ?m)" using card_mono [of "dom ?m" "set ps"] chain_in_dom [OF c] distinct_card [OF dp] by simp
        then show "runs (?m, F, k) (op_bind (free_chain b z p) (\<lambda>_. op_return True)) Q"
          using free_chain_runs [OF c dp nps(2), of b k "\<lambda>_. op_return True" Q z] b Q' Cons by (simp add: runs_return)
      qed
      then show ?thesis using stored_first_overflow [OF st] Cons by simp
    qed
    then show ?thesis using leaf_pageD(7) [OF lp'] by (intro runs_edit [where m = m and g = "delete_from_leaf r", OF d(1) nF d'(1)])
  qed
  then show ?thesis using d(1) leaf_pageD(2) [OF d(2)] by (auto intro!: runs_get_page)
qed

text \<open>The whole deletion.\<close>

lemma contents_rows:
  assumes "ordered lo hi t"
  shows "contents t r = Some bs \<longleftrightarrow> (\<exists>ps. (r, bs, ps) \<in> set (rows t))" "contents t r = None \<longleftrightarrow> sint r \<notin> stored_key ` set (rows t)"
  using contents_leaf [of "rows t"] ordered_rows(1) [OF assms] by (simp_all add: contents_def)

lemma remove_row_missing: "sint r \<notin> stored_key ` set (rows t) \<Longrightarrow> remove_row r t = t"
proof (induction t)
  case (Leaf n ss)
  then show ?case by (force simp: filter_id_conv stored_key_fst)
next
  case (Node n ts ks)
  then show ?case by (auto intro!: map_idI)
qed

definition deleted_ok :: "page_map \<Rightarrow> u32 set \<Rightarrow> btree \<Rightarrow> i64 \<Rightarrow> page_map \<Rightarrow> u32 set \<Rightarrow> bool" where
  "deleted_ok m F t r m' F' \<longleftrightarrow> table_in m' F' (remove_row r t) \<and> F \<subseteq> F' \<and> F' \<subseteq> F \<union> set (all_pages t)
     \<and> (\<forall>p. p \<notin> F \<union> set (all_pages t) \<longrightarrow> m' p = m p) \<and> dom m' = dom m"

lemma delete_runs:
  assumes t: "table_in m F t"
  shows "runs (m, F, k) (delete_by_rowid z (root_page t) r) (\<lambda>res h. \<exists>m' F'. h = (m', F', k) \<and> res = Ok (contents t r \<noteq> None, root_page t) \<and> deleted_ok m F t r m' F')"
    (is "runs _ _ ?Q")
proof -
  have T: "tree_in m t" "ordered (- (2 ^ 63)) (2 ^ 63) t" using t by (simp_all add: table_in_def)
  obtain n ss where lf: "leaf_for r t = (n, ss)" by (cases "leaf_for r t")
  have l: "(n, ss) \<in> set (leaf_rows t)" "contents t r = contents (Leaf n ss) r"
    using leaf_for_rows [OF T sint_i64_range, of r] lf by simp_all
  have srt: "sorted_wrt (<) (map stored_key ss)"
    using tree_leaves [OF T(1) l(1)] leaf_pageD(4) stored_rowids unfolding leaf_holds_def by metis
  let ?Q1 = "\<lambda>res h. \<exists>m' F'. h = (m', F', k) \<and> res = Ok (contents t r \<noteq> None) \<and> deleted_ok m F t r m' F'"
  have miss: "?Q1 (Ok False) (m, F, k)" if "sint r \<notin> stored_key ` set ss"
  proof -
    have "contents t r = None" using contents_leaf(2) [OF srt] l(2) that by simp
    moreover have "remove_row r t = t" using contents_rows(2) [OF T(2)] calculation by (intro remove_row_missing) simp
    ultimately show ?thesis using t by (simp add: deleted_ok_def)
  qed
  have hit: "?Q1 (Ok True) (m', F \<union> set ps, k)"
    if "(r, bs, ps) \<in> set ss" "table_in m' (F \<union> set ps) (remove_row r t)" "\<And>p. p \<notin> F \<union> set (all_pages t) \<Longrightarrow> m' p = m p" "dom m' = dom m" for bs ps m'
  proof -
    have "contents t r \<noteq> None" using contents_leaf(1) [OF srt] l(2) that(1) by fastforce
    moreover have "set ps \<subseteq> set (all_pages t)" using leaf_rows_sub [OF l(1)] that(1) by (force simp: all_pages_def set_chain_pages)
    ultimately show ?thesis using that by (auto simp: deleted_ok_def)
  qed
  have "runs (m, F, k) (with_bound (\<lambda>n. delete_from_page n z (root_page t) r)) ?Q1"
  proof (rule runs_bound)
    fix b assume b: "card (dom m) < b"
    have leaf: "runs (m, F, k) (delete_from_page (Suc b') z n r) ?Q1" for b'
      by (rule delete_leaf_runs [OF t l(1)]) (use miss hit in auto)
    show "runs (m, F, k) (delete_from_page b z (root_page t) r) ?Q1"
      by (rule delete_descend [OF T sint_i64_range table_in_bounds(1) [OF t b]]) (use leaf lf in \<open>simp del: delete_from_page.simps\<close>)
  qed
  then show ?thesis unfolding delete_by_rowid_def by (rule runs_bind) (auto intro: runs_return)
qed

end
