(* ===== verification/BTreeInsert.thy ===== *)
theory BTreeInsert
  imports BTreeFrame
begin

text \<open>
  Insertion into a B+tree: the overflow chain of a long payload, the insertion into a leaf, the split of a leaf and
  of interior pages, and the new root. The tree afterwards holds the row in addition to the rows from before.
\<close>

section \<open>Overflow chains\<close>

definition fresh :: "page_map \<Rightarrow> u32 set \<Rightarrow> u32 \<Rightarrow> bool" where
  "fresh m F p \<longleftrightarrow> p \<noteq> 0 \<and> (p \<in> F \<or> m p = None)"

lemma fresh_upd: "fresh (m(p \<mapsto> x)) (F - {p}) q \<longleftrightarrow> q \<noteq> p \<and> fresh m F q"
  by (auto simp: fresh_def)

lemma op_bind_assoc: "op_bind (op_bind p f) g = op_bind p (\<lambda>a. op_bind (f a) g)"
  by (auto simp: op_bind_def fun_eq_iff split: prod.split res.split)

lemma op_return_bind [simp]: "op_bind (op_return a) f = f a"
  by (simp add: fun_eq_iff op_bind_def op_return_def)

lemma overflow_data_ok:
  assumes d: "length d = PAGE_SIZE" and c: "length c \<le> OVERFLOW_DATA_SIZE"
  shows "length (overflow_data nx c d) = PAGE_SIZE" "u32_at (overflow_data nx c d) 0 = nx" "sub_bytes (overflow_data nx c d) 4 (length c) = c"
proof -
  let ?d1 = "write_at 4 c (write_at 0 (le_bytes 4 nx) d)"
  have l: "length (write_at 0 (le_bytes 4 nx) d) = PAGE_SIZE" "length ?d1 = PAGE_SIZE" using d c by (simp_all add: page_consts)
  have u: "u32_at ?d1 0 = nx" using l by (simp add: at_write_other page_consts)
  have s: "sub_bytes ?d1 4 (length c) = c" by simp
  show "length (overflow_data nx c d) = PAGE_SIZE" "u32_at (overflow_data nx c d) 0 = nx" "sub_bytes (overflow_data nx c d) 4 (length c) = c"
    using l u s c by (auto simp: overflow_data_def Let_def at_write_other sub_bytes_write_other page_consts)
qed

lemma keeps_overflow: "length c \<le> OVERFLOW_DATA_SIZE \<Longrightarrow> keeps_size (overflow_data nx c)"
  by (simp add: keeps_size_def overflow_data_ok)

lemma chunks_step: "bs \<noteq> [] \<Longrightarrow> chunks OVERFLOW_DATA_SIZE bs = take OVERFLOW_DATA_SIZE bs # chunks OVERFLOW_DATA_SIZE (drop OVERFLOW_DATA_SIZE bs)"
  by (subst chunks.simps) (simp add: page_consts)

lemma chunks_Nil: "chunks OVERFLOW_DATA_SIZE bs = [] \<longleftrightarrow> bs = []"
  by (subst chunks.simps) (simp add: page_consts)

lemma write_chunks_runs:
  assumes "bs \<noteq> []" and "m cur = Some d" and "length d = PAGE_SIZE" and "cur \<notin> F" and "cur \<noteq> 0"
    and "\<And>m' ps. chain_in m' (cur # ps) bs \<Longrightarrow> distinct (cur # ps) \<Longrightarrow> (\<And>p. p \<in> set ps \<Longrightarrow> fresh m F p) \<Longrightarrow>
      (\<And>p. p \<notin> set (cur # ps) \<Longrightarrow> m' p = m p) \<Longrightarrow> runs (m', F - set ps, k) (f ()) Q"
  shows "runs (m, F, k + length (chunks OVERFLOW_DATA_SIZE (drop OVERFLOW_DATA_SIZE bs))) (op_bind (write_chunks z cur (chunks OVERFLOW_DATA_SIZE bs)) f) Q"
  using assms
proof (induction "length bs" arbitrary: bs cur m F d rule: less_induct)
  case less
  let ?c = "take OVERFLOW_DATA_SIZE bs" let ?rest = "drop OVERFLOW_DATA_SIZE bs"
  have c: "length ?c \<le> OVERFLOW_DATA_SIZE" by simp
  note od = overflow_data_ok [OF less.prems(3) c]
  show ?case
  proof (cases "?rest = []")
    case True
    let ?m = "m(cur \<mapsto> overflow_data 0 ?c d)"
    have "runs (?m, F - set [], k) (f ()) Q"
      using True od(1,2) [of 0] od(3) [of 0] less.prems(1,5) by (intro less.prems(6) [of ?m "[]"]) auto
    then have "runs (m, F, k) (op_bind (modify_page z cur (overflow_data 0 ?c)) f) Q"
      using less.prems(2,4) by (intro runs_modify keeps_overflow [OF c]) auto
    then show ?thesis using True chunks_step [OF less.prems(1)] by (simp add: chunks.simps)
  next
    case False
    then obtain c' cs where cs: "chunks OVERFLOW_DATA_SIZE ?rest = c' # cs" using chunks_Nil [of ?rest] by (cases "chunks OVERFLOW_DATA_SIZE ?rest") auto
    have cs': "cs = chunks OVERFLOW_DATA_SIZE (drop OVERFLOW_DATA_SIZE ?rest)" using chunks_step [OF False] cs by simp
    have lt: "length ?rest < length bs" using less.prems(1) by (simp add: page_consts)
    have big: "OVERFLOW_DATA_SIZE < length bs" using False by simp
    have "runs (m, F, Suc (k + length cs)) (op_bind (allocate_page z) (\<lambda>nx. op_bind (modify_page z cur (overflow_data nx ?c)) (\<lambda>_. op_bind (write_chunks z nx (c' # cs)) f))) Q"
    proof (rule runs_allocate)
      fix nx assume nx: "nx \<noteq> 0" "nx \<in> F \<or> m nx = None"
      have ne: "nx \<noteq> cur" using nx less.prems(2,4) by auto
      let ?m1 = "m(nx \<mapsto> zeros, cur \<mapsto> overflow_data nx ?c d)"
      have "runs (?m1, F - {nx}, k + length (chunks OVERFLOW_DATA_SIZE (drop OVERFLOW_DATA_SIZE ?rest))) (op_bind (write_chunks z nx (chunks OVERFLOW_DATA_SIZE ?rest)) f) Q"
      proof (rule less.hyps [OF lt False])
        show "?m1 nx = Some zeros" using ne by simp
        fix m' ps assume m': "chain_in m' (nx # ps) ?rest" "distinct (nx # ps)" "\<And>p. p \<in> set ps \<Longrightarrow> fresh ?m1 (F - {nx}) p"
          "\<And>p. p \<notin> set (nx # ps) \<Longrightarrow> m' p = ?m1 p"
        have fr: "fresh m F p" if "p \<in> set (nx # ps)" for p using m'(3) [of p] that nx m'(2) by (auto simp: fresh_def split: if_splits)
        then have cp: "cur \<notin> set (nx # ps)" using fr [of cur] less.prems(2,4) by (auto simp: fresh_def)
        then have "m' cur = Some (overflow_data nx ?c d)" using m'(4) [of cur] by simp
        then have "chain_in m' (cur # nx # ps) bs" using m'(1) od [of nx] less.prems(5) big by simp
        then have "runs (m', F - set (nx # ps), k) (f ()) Q" using fr cp m'(2,4) by (intro less.prems(6)) auto
        moreover have "F - set (nx # ps) = F - {nx} - set ps" by auto
        ultimately show "runs (m', F - {nx} - set ps, k) (f ()) Q" by metis
      qed (use nx in auto)
      then have "runs (?m1, F - {nx}, k + length cs) (op_bind (write_chunks z nx (c' # cs)) f) Q" using cs cs' by simp
      then show "runs (m(nx \<mapsto> zeros), F - {nx}, k + length cs) (op_bind (modify_page z cur (overflow_data nx ?c)) (\<lambda>_. op_bind (write_chunks z nx (c' # cs)) f)) Q"
        using less.prems(2,4) ne by (intro runs_modify [where d = d] keeps_overflow [OF c]) auto
    qed
    then show ?thesis using cs chunks_step [OF less.prems(1)] by (simp add: op_bind_assoc)
  qed
qed

lemma write_chain_runs:
  assumes "bs \<noteq> []"
    and "\<And>m' ps. chain_in m' ps bs \<Longrightarrow> distinct ps \<Longrightarrow> (\<And>p. p \<in> set ps \<Longrightarrow> fresh m F p) \<Longrightarrow>
      (\<And>p. p \<notin> set ps \<Longrightarrow> m' p = m p) \<Longrightarrow> runs (m', F - set ps, k) (f (hd ps)) Q"
  shows "runs (m, F, k + length (chunks OVERFLOW_DATA_SIZE bs)) (op_bind (write_overflow_chain z bs) f) Q"
proof -
  have "runs (m, F, Suc (k + length (chunks OVERFLOW_DATA_SIZE (drop OVERFLOW_DATA_SIZE bs)))) (op_bind (allocate_page z) (\<lambda>p.
      op_bind (write_chunks z p (chunks OVERFLOW_DATA_SIZE bs)) (\<lambda>_. f p))) Q"
  proof (rule runs_allocate)
    fix p assume p: "p \<noteq> 0" "p \<in> F \<or> m p = None"
    show "runs (m(p \<mapsto> zeros), F - {p}, k + length (chunks OVERFLOW_DATA_SIZE (drop OVERFLOW_DATA_SIZE bs)))
        (op_bind (write_chunks z p (chunks OVERFLOW_DATA_SIZE bs)) (\<lambda>_. f p)) Q"
    proof (rule write_chunks_runs [OF assms(1)])
      fix m' ps assume m': "chain_in m' (p # ps) bs" "distinct (p # ps)" "\<And>q. q \<in> set ps \<Longrightarrow> fresh (m(p \<mapsto> zeros)) (F - {p}) q"
        "\<And>q. q \<notin> set (p # ps) \<Longrightarrow> m' q = (m(p \<mapsto> zeros)) q"
      have "runs (m', F - set (p # ps), k) (f (hd (p # ps))) Q"
        using m' p by (intro assms(2)) (auto simp: fresh_upd, auto simp: fresh_def)
      moreover have "F - set (p # ps) = F - {p} - set ps" by auto
      ultimately show "runs (m', F - {p} - set ps, k) (f p) Q" by (metis list.sel(1))
    qed (use p in auto)
  qed
  then show ?thesis using chunks_step [OF assms(1)] by (simp add: write_overflow_chain_def op_bind_assoc)
qed

section \<open>Filling and splitting a leaf\<close>

lemma keeps_leaf: "keeps_size init_leaf_page" "keeps_size (set_next_leaf x)" "keeps_size (set_prev_leaf x)" "keeps_size (init_interior_page x)"
  using leaf_pageD(7) [OF init_leaf(1)] interior_pageD(6) [OF init_interior(1)]
  by (auto simp: keeps_size_def set_next_leaf_def set_prev_leaf_def page_consts)

lemma insort_last: "(\<And>y. y \<in> set ys \<Longrightarrow> f y < f x) \<Longrightarrow> insort_key f x ys = ys @ [x]"
  for f :: "'a \<Rightarrow> int"
proof (induction ys)
  case (Cons y ys)
  have "f y < f x" by (simp add: Cons.prems)
  then have "\<not> f x \<le> f y" by simp
  with Cons show ?case by simp
qed simp

lemma init_leaf_room: "length d = PAGE_SIZE \<Longrightarrow> leaf_page (init_leaf_page d) [] \<and> leaf_room (init_leaf_page d) = PAGE_SIZE - LEAF_HEADER_SIZE"
  using init_leaf [of d] leaf_pageD(6) [OF init_leaf(1), of d] by (simp add: leaf_room_def)

lemma fill_leaf_runs:
  assumes "m n = Some d" and "n \<notin> F" and "leaf_page d cs" and "\<And>rid c. (rid, c) \<in> set xs \<Longrightarrow> cell_rowid c = sint rid \<and> length c = cell_size c"
    and "sorted_wrt (<) (map cell_rowid (cs @ map snd xs))" and "sum_list (map (\<lambda>x. length (snd x) + 2) xs) \<le> leaf_room d"
    and "\<And>d'. leaf_page d' (cs @ map snd xs) \<Longrightarrow> same_links d d' \<Longrightarrow> runs (m(n \<mapsto> d'), F, k) (f ()) Q"
  shows "runs (m, F, k) (op_bind (fill_leaf z n xs) f) Q"
  using assms
proof (induction xs arbitrary: m d cs)
  case Nil
  have "m(n \<mapsto> d) = m" using Nil.prems(1) by (simp add: fun_upd_idem)
  then show ?case using Nil.prems(3) Nil.prems(7) [of d] by (simp add: same_links_def)
next
  case (Cons x xs)
  obtain rid c where x: "x = (rid, c)" by (cases x)
  have c: "cell_rowid c = sint rid" "length c = cell_size c" using Cons.prems(4) x by auto
  have less: "\<And>y. y \<in> set cs \<Longrightarrow> cell_rowid y < cell_rowid c" using Cons.prems(5) by (auto simp: x sorted_wrt_append)
  then have new: "cell_rowid c \<notin> cell_rowid ` set cs" by force
  obtain d' where d': "insert_cell_into_leaf rid c d = Ok d'" "leaf_page d' (insort_key cell_rowid c cs)" "same_links d d'" "content_offset d' = content_offset d - length c"
    using insert_cell_into_leaf_ok [OF Cons.prems(3) new c(2,1)] Cons.prems(6) by (auto simp: x)
  have lp: "leaf_page d' (cs @ [c])" using d'(2) insort_last [of cs cell_rowid c] less by simp
  have room: "leaf_room d' = leaf_room d - (length c + 2)"
    using leaf_pageD(6) [OF lp] leaf_pageD(6) [OF Cons.prems(3)] d'(4) by (simp add: leaf_room_def)
  have "runs (m(n \<mapsto> d'), F, k) (op_bind (fill_leaf z n xs) f) Q"
  proof (rule Cons.IH [OF _ Cons.prems(2) lp])
    fix d2 assume d2: "leaf_page d2 ((cs @ [c]) @ map snd xs)" "same_links d' d2"
    then have "same_links d d2" using d'(3) by (simp add: same_links_def)
    then have "runs (m(n \<mapsto> d2), F, k) (f ()) Q" using d2(1) by (intro Cons.prems(7)) (simp_all add: x)
    moreover have "m(n \<mapsto> d', n \<mapsto> d2) = m(n \<mapsto> d2)" by simp
    ultimately show "runs (m(n \<mapsto> d', n \<mapsto> d2), F, k) (f ()) Q" by metis
  qed (use Cons.prems(4-6) room in \<open>auto simp: x\<close>)
  then show ?case using Cons.prems(1,2) d'(1) leaf_pageD(7) [OF lp] by (auto simp: x op_bind_assoc intro!: runs_update)
qed

text \<open>The size of a cell follows from its payload.\<close>

definition cell_len :: "bytes \<Rightarrow> nat" where
  "cell_len bs = (if MAX_INLINE_PAYLOAD < length bs then 20 else 12 + length bs)"

definition cells_size :: "stored list \<Rightarrow> nat" where
  "cells_size ss = sum_list (map (\<lambda>s. cell_len (fst (snd s)) + 2) ss)"

definition cells_fit :: "stored list \<Rightarrow> bool" where
  "cells_fit ss \<longleftrightarrow> cells_size ss \<le> PAGE_SIZE - LEAF_HEADER_SIZE"

lemma stored_cell_len: "stored_in m s \<Longrightarrow> length (stored_cell s) = cell_len (fst (snd s))"
  by (cases s) (auto simp: cell_len_def split: list.split if_splits)

text \<open>The rows of a split leaf, and where they are divided.\<close>

definition split_rows :: "stored \<Rightarrow> stored list \<Rightarrow> stored list \<times> stored list" where
  "split_rows s ss = (let i = lower_index (map stored_key ss) (stored_key s); mid = split_mid (Suc (length ss)) i; ss' = insort_key stored_key s ss in
     (take mid ss', drop mid ss'))"

lemma split_mid_less: "split_mid (Suc n) i < Suc n"
  by (auto simp: split_mid_def)

lemma split_position_lower:
  assumes "\<And>x. x \<in> set xs \<Longrightarrow> key x \<noteq> r"
  shows "split_position key r xs = lower_index (map (\<lambda>x. sint (key x)) xs) (sint r)"
proof -
  have "takeWhile (\<lambda>x. \<not> sint r < sint (key x)) xs = takeWhile (\<lambda>x. sint (key x) < sint r) xs"
    using assms by (intro takeWhile_cong) (auto simp: not_less le_less sint_eq_iff)
  then show ?thesis by (simp add: split_position_def lower_index_def takeWhile_map o_def)
qed

lemma runs_modify_to:
  assumes "m n = Some d" and "n \<notin> F" and "keeps_size g" and "m(n \<mapsto> g d) = m'" and "runs (m', F, k) (f ()) Q"
  shows "runs (m, F, k) (op_bind (modify_page z n g) f) Q"
  using assms runs_modify by metis

text \<open>The last part of a split, behind the two filled halves.\<close>

definition link_halves :: "lz4 \<Rightarrow> u32 \<Rightarrow> u32 \<Rightarrow> u32 \<Rightarrow> i64 \<Rightarrow> u32 \<Rightarrow> (pager, insert_result) op" where
  "link_halves z n pv nx divider right =
     op_bind (modify_page z n (set_next_leaf right)) (\<lambda>_. op_bind (modify_page z n (set_prev_leaf pv)) (\<lambda>_.
     op_bind (modify_page z right (set_next_leaf nx)) (\<lambda>_. op_bind (modify_page z right (set_prev_leaf n)) (\<lambda>_.
     op_bind (if nx \<noteq> 0 then modify_page z nx (set_prev_leaf right) else op_return ()) (\<lambda>_. op_return (Split divider right))))))"

definition set_prev_at :: "u32 \<Rightarrow> u32 \<Rightarrow> page_map \<Rightarrow> page_map" where
  "set_prev_at nxt right m = (if nxt = 0 then m else m(nxt := map_option (set_prev_leaf right) (m nxt)))"

lemma split_cells:
  assumes s: "\<forall>x \<in> set ss. stored_in m x" "stored_in m s" and new: "stored_key s \<notin> stored_key ` set ss" and lp: "leaf_page d (map stored_cell ss)"
  defines "old \<equiv> map (\<lambda>x. (fst x, stored_cell x)) ss"
  defines "pos \<equiv> split_position fst (fst s) old"
  shows "collect_leaf_cells d 0 (cell_count d) = Ok old" "pos = lower_index (map stored_key ss) (stored_key s)"
    "list_insert pos (fst s, stored_cell s) old = map (\<lambda>x. (fst x, stored_cell x)) (insort_key stored_key s ss)"
proof -
  show "collect_leaf_cells d 0 (cell_count d) = Ok old"
    using collect_leaf [OF lp, of 0 "length ss"] leaf_pageD(6) [OF lp] s(1) stored_cell_fields(3) [of m] by (simp add: old_def)
  note old = old_def
  have "fst x \<noteq> fst s" if "x \<in> set ss" for x using new that by (metis image_eqI stored_key_fst)
  then have "pos = lower_index (map (\<lambda>x. sint (fst x)) old) (sint (fst s))"
    unfolding pos_def by (intro split_position_lower) (auto simp: old)
  then show pos: "pos = lower_index (map stored_key ss) (stored_key s)" by (simp add: old o_def stored_key_fst [abs_def])
  show "list_insert pos (fst s, stored_cell s) old = map (\<lambda>x. (fst x, stored_cell x)) (insort_key stored_key s ss)"
    unfolding pos list_insert_insort [symmetric] map_list_insert old by (rule refl)
qed

lemma split_leaf_runs:
  assumes n: "m n = Some d" "n \<notin> F" and lp: "leaf_page d (map stored_cell ss)" and s: "\<forall>x \<in> set ss. stored_in m x" "stored_in m s"
    and new: "stored_key s \<notin> stored_key ` set ss" and sp: "split_rows s ss = (xs, ys)" and fit: "cells_fit xs" "cells_fit ys"
    and nxt: "get_next_leaf d \<noteq> 0 \<Longrightarrow> get_next_leaf d \<noteq> n \<and> get_next_leaf d \<notin> F \<and> m (get_next_leaf d) \<noteq> None"
    and Q: "\<And>right d1 d2. fresh m F right \<Longrightarrow> leaf_page d1 (map stored_cell xs) \<Longrightarrow> leaf_page d2 (map stored_cell ys) \<Longrightarrow>
      get_prev_leaf d1 = get_prev_leaf d \<Longrightarrow> get_next_leaf d1 = right \<Longrightarrow> get_prev_leaf d2 = n \<Longrightarrow> get_next_leaf d2 = get_next_leaf d \<Longrightarrow>
      Q (Ok (Split (fst (hd ys)) right)) (set_prev_at (get_next_leaf d) right (m(n \<mapsto> d1, right \<mapsto> d2)), F - {right}, k)"
  shows "runs (m, F, Suc k) (split_leaf z n (fst s) (stored_cell s)) Q"
proof -
  let ?nx = "get_next_leaf d" let ?pv = "get_prev_leaf d"
  define ss' where "ss' = insort_key stored_key s ss"
  define mid where "mid = split_mid (Suc (length ss)) (lower_index (map stored_key ss) (stored_key s))"
  have xy: "xs = take mid ss'" "ys = drop mid ss'" using sp by (simp_all add: split_rows_def Let_def ss'_def mid_def)
  have mid: "mid < length ss'" using split_mid_less by (simp add: mid_def ss'_def)
  then have hd: "fst (hd ys) = fst (ss' ! mid)" by (simp add: xy hd_drop_conv_nth)
  note sc = split_cells [OF s new lp]
  have st: "\<forall>x \<in> set ss'. stored_in m x" using s by (simp add: ss'_def set_insort_key)
  have srt: "sorted_wrt (<) (map stored_key ss)" using leaf_pageD(4) [OF lp] stored_rowids [OF s(1)] by metis
  have srt': "sorted_wrt (<) (map stored_key (xs @ ys))" using sorted_insort_less [OF srt new] by (simp add: xy ss'_def)
  define cells where "cells = map (\<lambda>x. (fst x, stored_cell x))"
  have cells: "\<And>rid c. (rid, c) \<in> set (cells zs) \<Longrightarrow> cell_rowid c = sint rid \<and> length c = cell_size c" "map snd (cells zs) = map stored_cell zs"
      "sum_list (map (\<lambda>x. length (snd x) + 2) (cells zs)) = cells_size zs" "map cell_rowid (map snd (cells zs)) = map stored_key zs"
    if "set zs \<subseteq> set ss'" for zs
  proof -
    have z: "\<forall>x \<in> set zs. stored_in m x" using that st by auto
    show "\<And>rid c. (rid, c) \<in> set (cells zs) \<Longrightarrow> cell_rowid c = sint rid \<and> length c = cell_size c"
      using z stored_cell_fields [of m] by (auto simp: cells_def stored_key_fst simp del: stored_cell.simps)
    show "map snd (cells zs) = map stored_cell zs" by (simp add: cells_def)
    then show "map cell_rowid (map snd (cells zs)) = map stored_key zs" using stored_rowids [OF z] by simp
    have "map (\<lambda>x. length (stored_cell x) + 2) zs = map (\<lambda>x. cell_len (fst (snd x)) + 2) zs" using z stored_cell_len [of m] by simp
    then show "sum_list (map (\<lambda>x. length (snd x) + 2) (cells zs)) = cells_size zs" by (simp add: cells_def cells_size_def o_def cong: map_cong)
  qed
  have sub: "set xs \<subseteq> set ss'" "set ys \<subseteq> set ss'" using xy by (auto dest: in_set_takeD in_set_dropD)
  have links: "runs (m(n \<mapsto> d1, right \<mapsto> d2), F - {right}, k) (link_halves z n ?pv ?nx (fst (hd ys)) right) Q"
    if r: "fresh m F right" and d: "leaf_page d1 (map stored_cell xs)" "leaf_page d2 (map stored_cell ys)" for right d1 d2
  proof -
    have rn: "right \<noteq> n" "?nx \<noteq> 0 \<Longrightarrow> right \<noteq> ?nx" using r n nxt by (auto simp: fresh_def)
    define e1 e2 where "e1 = set_prev_leaf ?pv (set_next_leaf right d1)" and "e2 = set_prev_leaf n (set_next_leaf ?nx d2)"
    let ?m = "m(n \<mapsto> e1, right \<mapsto> e2)"
    have e: "leaf_page e1 (map stored_cell xs)" "leaf_page e2 (map stored_cell ys)" "get_prev_leaf e1 = ?pv" "get_next_leaf e1 = right" "get_prev_leaf e2 = n" "get_next_leaf e2 = ?nx"
      using leaf_page_links [OF d(1)] leaf_page_links [OF leaf_page_links(2) [OF d(1)]] leaf_page_links [OF d(2)] leaf_page_links [OF leaf_page_links(2) [OF d(2)]]
      by (simp_all add: e1_def e2_def)
    have "runs (?m, F - {right}, k) (op_bind (if ?nx \<noteq> 0 then modify_page z ?nx (set_prev_leaf right) else op_return ()) (\<lambda>_. op_return (Split (fst (hd ys)) right))) Q"
    proof (cases "?nx = 0")
      case True
      then show ?thesis using Q [OF r e] by (simp add: set_prev_at_def runs_return)
    next
      case False
      then obtain dn where dn: "m ?nx = Some dn" "?nx \<noteq> n" "?nx \<notin> F" using nxt by auto
      have "Q (Ok (Split (fst (hd ys)) right)) (?m(?nx \<mapsto> set_prev_leaf right dn), F - {right}, k)"
        using Q [OF r e] False dn rn by (simp add: set_prev_at_def)
      then show ?thesis using False dn rn(2) by (auto intro!: runs_modify [where d = dn] keeps_leaf runs_return)
    qed
    note last = this
    have side: "n \<notin> F - {right}" "right \<notin> F - {right}" using n(2) by auto
    show ?thesis unfolding link_halves_def
      by (rule runs_modify_to [where d = d1 and m' = "m(n \<mapsto> set_next_leaf right d1, right \<mapsto> d2)"],
          (use rn(1) side in \<open>simp_all add: keeps_leaf fun_upd_twist\<close>)[4],
          rule runs_modify_to [where d = "set_next_leaf right d1" and m' = "m(n \<mapsto> e1, right \<mapsto> d2)"],
          (use rn(1) side in \<open>simp_all add: keeps_leaf fun_upd_twist e1_def\<close>)[4],
          rule runs_modify_to [where d = d2 and m' = "m(n \<mapsto> e1, right \<mapsto> set_next_leaf ?nx d2)"],
          (use rn(1) side in \<open>simp_all add: keeps_leaf fun_upd_twist\<close>)[4],
          rule runs_modify_to [where d = "set_next_leaf ?nx d2" and m' = ?m],
          (use rn(1) side in \<open>simp_all add: keeps_leaf fun_upd_twist e2_def\<close>)[4], rule last)
  qed
  have right: "runs (m(n \<mapsto> d1), F, Suc k) (op_bind (allocate_page z) (\<lambda>right. op_bind (modify_page z right init_leaf_page) (\<lambda>_.
       op_bind (fill_leaf z right (cells ys)) (\<lambda>_. link_halves z n ?pv ?nx (fst (hd ys)) right)))) Q"
    if d1: "leaf_page d1 (map stored_cell xs)" for d1
  proof (rule runs_allocate)
    fix r assume "r \<noteq> 0" "r \<in> F \<or> (m(n \<mapsto> d1)) r = None"
    then have r: "fresh m F r" using n by (auto simp: fresh_def split: if_splits)
    have "runs (m(n \<mapsto> d1, r \<mapsto> init_leaf_page zeros), F - {r}, k) (op_bind (fill_leaf z r (cells ys)) (\<lambda>_. link_halves z n ?pv ?nx (fst (hd ys)) r)) Q"
    proof (rule fill_leaf_runs [where d = "init_leaf_page zeros" and cs = "[]"])
      fix d2 assume "leaf_page d2 ([] @ map snd (cells ys))"
      then have "leaf_page d2 (map stored_cell ys)" using cells(2) [OF sub(2)] by simp
      from links [OF r(1) d1 this]
      show "runs (m(n \<mapsto> d1, r \<mapsto> init_leaf_page zeros, r \<mapsto> d2), F - {r}, k) (link_halves z n ?pv ?nx (fst (hd ys)) r) Q" by (simp only: fun_upd_upd)
    qed (use cells(1,3,4) [OF sub(2)] srt' fit(2) init_leaf_room [OF length_zeros] in \<open>auto simp: cells_fit_def sorted_wrt_append\<close>)
    then show "runs (m(n \<mapsto> d1, r \<mapsto> zeros), F - {r}, k) (op_bind (modify_page z r init_leaf_page) (\<lambda>_.
       op_bind (fill_leaf z r (cells ys)) (\<lambda>_. link_halves z n ?pv ?nx (fst (hd ys)) r))) Q"
      by (intro runs_modify_to [where d = zeros and m' = "m(n \<mapsto> d1, r \<mapsto> init_leaf_page zeros)"]) (auto simp: keeps_leaf)
  qed
  have d: "length d = PAGE_SIZE" by (rule leaf_pageD(7) [OF lp])
  have left: "runs (m(n \<mapsto> init_leaf_page d), F, Suc k) (op_bind (fill_leaf z n (cells xs)) (\<lambda>_. op_bind (allocate_page z) (\<lambda>right. op_bind (modify_page z right init_leaf_page) (\<lambda>_.
       op_bind (fill_leaf z right (cells ys)) (\<lambda>_. link_halves z n ?pv ?nx (fst (hd ys)) right))))) Q"
  proof (rule fill_leaf_runs [where d = "init_leaf_page d" and cs = "[]"])
    fix d1 assume "leaf_page d1 ([] @ map snd (cells xs))"
    then have "leaf_page d1 (map stored_cell xs)" using cells(2) [OF sub(1)] by simp
    from right [OF this] show "runs (m(n \<mapsto> init_leaf_page d, n \<mapsto> d1), F, Suc k) (op_bind (allocate_page z) (\<lambda>right. op_bind (modify_page z right init_leaf_page) (\<lambda>_.
       op_bind (fill_leaf z right (cells ys)) (\<lambda>_. link_halves z n ?pv ?nx (fst (hd ys)) right)))) Q" by (simp only: fun_upd_upd)
  qed (use cells(1,3,4) [OF sub(1)] srt' fit(1) init_leaf_room [OF d] n(2) in \<open>auto simp: cells_fit_def sorted_wrt_append\<close>)
  have c: "list_insert (lower_index (map stored_key ss) (stored_key s)) (fst s, stored_cell s) (map (\<lambda>x. (fst x, stored_cell x)) ss) = cells ss'"
    using sc(2,3) by (simp add: cells_def ss'_def)
  have xyc: "take mid (cells ss') = cells xs" "drop mid (cells ss') = cells ys" "fst (cells ss' ! mid) = fst (hd ys)" "length (cells ss') = Suc (length ss)"
    using mid hd by (simp_all add: cells_def xy take_map drop_map ss'_def)
  show ?thesis unfolding split_leaf_def Let_def
    by (rule runs_get_page [where m = m, OF n(1)])+
      (auto simp: sc(1,2) c xyc mid_def [symmetric] link_halves_def [symmetric] keeps_leaf n(2) intro!: runs_lift_bind runs_modify [where m = m, OF n(1)] left)
qed

end
