(* ===== verification/BTreeGrow.thy ===== *)
theory BTreeGrow
  imports BTreeInsert "HOL-Library.Multiset"
begin

text \<open>
  How an insertion changes the tree above a leaf. A forest is a sequence of neighbouring trees with the dividers between them;
  an insertion into one of its trees replaces it by one or two trees. \<open>grown\<close> states what holds of the new forest, and the lemmas
  below carry it from a leaf to the root.
\<close>

section \<open>Forests\<close>

definition forest_pages :: "btree list \<Rightarrow> u32 list" where
  "forest_pages ts = concat (map all_pages ts)"

definition forest_leaves :: "btree list \<Rightarrow> u32 list" where
  "forest_leaves ts = concat (map leaf_pages ts)"

definition forest_rows :: "btree list \<Rightarrow> stored list" where
  "forest_rows ts = concat (map rows ts)"

lemma forest_simps [simp]:
  "forest_pages [] = []" "forest_pages (t # ts) = all_pages t @ forest_pages ts" "forest_pages (ts @ ts') = forest_pages ts @ forest_pages ts'"
  "forest_leaves [] = []" "forest_leaves (t # ts) = leaf_pages t @ forest_leaves ts" "forest_leaves (ts @ ts') = forest_leaves ts @ forest_leaves ts'"
  "forest_rows [] = []" "forest_rows (t # ts) = rows t @ forest_rows ts" "forest_rows (ts @ ts') = forest_rows ts @ forest_rows ts'"
  by (simp_all add: forest_pages_def forest_leaves_def forest_rows_def)

lemma all_pages_Leaf [simp]: "all_pages (Leaf n ss) = n # chain_pages ss"
  by (simp add: all_pages_def)

text \<open>Children with their upper bounds, between the leaf before and the leaf after them.\<close>

definition forest :: "page_map \<Rightarrow> u32 set \<Rightarrow> btree list \<Rightarrow> int \<Rightarrow> int list \<Rightarrow> u32 \<Rightarrow> u32 \<Rightarrow> bool" where
  "forest m F ts lo us prev nxt \<longleftrightarrow> (\<forall>t \<in> set ts. tree_in m t) \<and> ordered_kids lo ts us \<and> ts \<noteq> [] \<and> linked m prev (forest_leaves ts) nxt
     \<and> distinct (forest_pages ts) \<and> 0 \<notin> set (forest_pages ts) \<and> set (forest_pages ts) \<inter> F = {}
     \<and> (nxt \<noteq> 0 \<longrightarrow> nxt \<notin> set (forest_pages ts) \<and> nxt \<notin> F \<and> (\<exists>d cs. m nxt = Some d \<and> leaf_page d cs))"

definition grown :: "page_map \<Rightarrow> u32 set \<Rightarrow> btree list \<Rightarrow> u32 \<Rightarrow> i64 \<Rightarrow> bytes \<Rightarrow> page_map \<Rightarrow> u32 set \<Rightarrow> btree list \<Rightarrow> bool" where
  "grown m F ts nxt r bs m' F' ts' \<longleftrightarrow> root_page (hd ts') = root_page (hd ts) \<and> hd (forest_leaves ts') = hd (forest_leaves ts)
     \<and> (\<exists>ps. forest_rows ts' = insort_key stored_key (r, bs, ps) (forest_rows ts))
     \<and> set (forest_pages ts) \<subseteq> set (forest_pages ts') \<and> (\<forall>p \<in> set (forest_pages ts'). p \<in> set (forest_pages ts) \<or> fresh m F p)
     \<and> F' = F - set (forest_pages ts') \<and> (\<forall>p. p \<notin> set (forest_pages ts') \<longrightarrow> p \<noteq> nxt \<longrightarrow> m' p = m p)
     \<and> (nxt \<noteq> 0 \<longrightarrow> (\<exists>d. m nxt = Some d \<and> (m' nxt = Some d \<and> last (forest_leaves ts') = last (forest_leaves ts)
          \<or> m' nxt = Some (set_prev_leaf (last (forest_leaves ts')) d))))"

text \<open>How many pages an insertion may take.\<close>

definition chain_len :: "bytes \<Rightarrow> nat" where
  "chain_len bs = (if MAX_INLINE_PAYLOAD < length bs then length (chunks OVERFLOW_DATA_SIZE bs) else 0)"

fun result_is :: "insert_result \<Rightarrow> btree list \<Rightarrow> i64 list \<Rightarrow> bool" where
  "result_is Done ts ks \<longleftrightarrow> ks = []"
| "result_is (Split divider p) ts ks \<longleftrightarrow> ks = [divider] \<and> (\<exists>t t'. ts = [t, t'] \<and> root_page t' = p)"

section \<open>Leaves\<close>

definition make_cell :: "lz4 \<Rightarrow> i64 \<Rightarrow> bytes \<Rightarrow> (pager, bytes) op" where
  "make_cell z r bs =
     (if MAX_INLINE_PAYLOAD < length bs
      then op_bind (write_overflow_chain z bs) (\<lambda>p. op_return (make_overflow_cell r (word_of_nat (length bs)) p))
      else op_return (make_leaf_cell r bs))"

lemma insert_into_leaf_eq:
  "insert_into_leaf z n d r bs = op_bind (make_cell z r bs) (\<lambda>c.
     if cell_len bs + 2 \<le> leaf_room d then op_bind (update_page_res z n (insert_cell_into_leaf r c)) (\<lambda>_. op_return Done)
     else split_leaf z n r c)"
proof -
  have "insert_cell_into_leaf_raw r bs = insert_cell_into_leaf r (make_leaf_cell r bs)"
    and "insert_overflow_cell_raw r l p = insert_cell_into_leaf r (make_overflow_cell r l p)" for l p
    by (simp_all add: fun_eq_iff leaf_raw_insert overflow_raw_insert_eq)
  then show ?thesis by (simp add: insert_into_leaf_def Let_def make_cell_def cell_len_def leaf_room_def op_bind_assoc mult.commute)
qed

lemma make_cell_runs:
  assumes "length bs < 2 ^ 32"
    and "\<And>m' ps. stored_in m' (r, bs, ps) \<Longrightarrow> distinct ps \<Longrightarrow> (\<And>p. p \<in> set ps \<Longrightarrow> fresh m F p) \<Longrightarrow> (\<And>p. p \<notin> set ps \<Longrightarrow> m' p = m p) \<Longrightarrow>
      runs (m', F - set ps, k) (f (stored_cell (r, bs, ps))) Q"
  shows "runs (m, F, k + chain_len bs) (op_bind (make_cell z r bs) f) Q"
proof (cases "MAX_INLINE_PAYLOAD < length bs")
  case False
  then show ?thesis using assms(2) [of m "[]"] by (simp add: make_cell_def chain_len_def)
next
  case True
  have "runs (m, F, k + length (chunks OVERFLOW_DATA_SIZE bs)) (op_bind (write_overflow_chain z bs) (\<lambda>p. f (make_overflow_cell r (word_of_nat (length bs)) p))) Q"
  proof (rule write_chain_runs)
    show "bs \<noteq> []" using True by auto
    fix m' ps assume m': "chain_in m' ps bs" "distinct ps" "\<And>p. p \<in> set ps \<Longrightarrow> fresh m F p" "\<And>p. p \<notin> set ps \<Longrightarrow> m' p = m p"
    then have "ps \<noteq> []" "stored_in m' (r, bs, ps)" using True assms(1) by auto
    with assms(2) [OF this(2) m'(2-4)] show "runs (m', F - set ps, k) (f (make_overflow_cell r (word_of_nat (length bs)) (hd ps))) Q" by (cases ps) auto
  qed
  then show ?thesis using True by (simp add: make_cell_def chain_len_def op_bind_assoc)
qed

lemma not_fresh: "m p = Some d \<Longrightarrow> p \<notin> F \<Longrightarrow> \<not> fresh m F p"
  by (simp add: fresh_def)

lemma stored_alloc: "stored_in m s \<Longrightarrow> p \<in> set (snd (snd s)) \<Longrightarrow> \<exists>d. m p = Some d"
  using chain_in_dom [of m "snd (snd s)"] by (cases s) (auto split: if_splits)

lemma tree_pages_alloc: "tree_in m t \<Longrightarrow> p \<in> set (all_pages t) \<Longrightarrow> \<exists>d. m p = Some d"
proof (induction t)
  case (Leaf n ss)
  have "\<exists>d. m p = Some d" if "s \<in> set ss" "p \<in> set (snd (snd s))" for s
    using Leaf.prems(1) that stored_alloc [of m s p] by simp
  with Leaf show ?case by (auto simp: set_chain_pages)
qed (auto simp: all_pages_def set_chain_pages)

lemma forest_pages_kept:
  assumes "forest m F ts lo us prev nxt" and "p \<in> set (forest_pages ts)"
  shows "\<not> fresh m F p"
proof -
  obtain t where t: "t \<in> set ts" "p \<in> set (all_pages t)" using assms(2) by (auto simp: forest_pages_def)
  then obtain d where "m p = Some d" using assms(1) tree_pages_alloc [of m t p] by (auto simp: forest_def)
  moreover have "p \<notin> F" using assms by (auto simp: forest_def)
  ultimately show ?thesis by (rule not_fresh)
qed

lemma forest_next_kept: "forest m F ts lo us prev nxt \<Longrightarrow> nxt \<noteq> 0 \<Longrightarrow> \<not> fresh m F nxt"
  by (auto simp: forest_def fresh_def)

lemma mset_chain_insort: "mset (chain_pages (insort_key f s ss)) = mset (snd (snd s)) + mset (chain_pages ss)"
  by (induction ss) (auto simp: ac_simps)

lemma insort_map:
  fixes f :: "'b \<Rightarrow> int"
  shows "(\<And>x. x \<in> insert s (set xs) \<Longrightarrow> f (g x) = h x) \<Longrightarrow> insort_key f (g s) (map g xs) = map g (insort_key h s xs)"
  by (induction xs) auto

text \<open>A leaf and a row whose chain has just been written.\<close>

lemma chain_added:
  assumes fo: "forest m F [Leaf n ss] lo [hi] prev nxt" and s: "stored_in m1 (r, bs, ps)" "distinct ps"
    and m1: "\<forall>p \<in> set ps. fresh m F p" "\<forall>p. p \<notin> set ps \<longrightarrow> m1 p = m p"
  shows "n \<notin> set ps" "nxt \<noteq> 0 \<Longrightarrow> nxt \<notin> set ps" "set ps \<inter> set (chain_pages ss) = {}" "m1 n = m n" "nxt \<noteq> 0 \<Longrightarrow> m1 nxt = m nxt"
    "\<forall>x \<in> set (insort_key stored_key (r, bs, ps) ss). stored_in m1 x" "distinct (n # chain_pages (insort_key stored_key (r, bs, ps) ss))"
    "set (chain_pages (insort_key stored_key (r, bs, ps) ss)) = set ps \<union> set (chain_pages ss)" "0 \<notin> set ps"
proof -
  show n: "n \<notin> set ps" using m1(1) forest_pages_kept [OF fo, of n] by auto
  show nx: "nxt \<noteq> 0 \<Longrightarrow> nxt \<notin> set ps" using m1(1) forest_next_kept [OF fo] by auto
  show c: "set ps \<inter> set (chain_pages ss) = {}" using m1(1) forest_pages_kept [OF fo] by auto
  show "m1 n = m n" "nxt \<noteq> 0 \<Longrightarrow> m1 nxt = m nxt" using m1(2) n nx by auto
  have "stored_in m1 x" if x: "x \<in> set ss" for x
  proof (rule stored_in_cong [of x m1 m])
    show "stored_in m x" using fo x by (auto simp: forest_def)
    fix p assume "p \<in> set (snd (snd x))"
    then have "p \<notin> set ps" using c x by (auto simp: set_chain_pages)
    then show "m1 p = m p" using m1(2) by simp
  qed
  then show "\<forall>x \<in> set (insort_key stored_key (r, bs, ps) ss). stored_in m1 x" using s(1) by (auto simp: set_insort_key)
  have ms: "mset (chain_pages (insort_key stored_key (r, bs, ps) ss)) = mset (ps @ chain_pages ss)" by (simp add: mset_chain_insort)
  then have "set (chain_pages (insort_key stored_key (r, bs, ps) ss)) = set (ps @ chain_pages ss)" by (rule mset_eq_setD)
  then show st: "set (chain_pages (insort_key stored_key (r, bs, ps) ss)) = set ps \<union> set (chain_pages ss)" by simp
  have "distinct (chain_pages (insort_key stored_key (r, bs, ps) ss)) = distinct (ps @ chain_pages ss)" by (rule mset_eq_imp_distinct_iff [OF ms])
  then show "distinct (n # chain_pages (insort_key stored_key (r, bs, ps) ss))" using fo c s(2) n st by (auto simp: forest_def)
  show "0 \<notin> set ps" using m1(1) by (auto simp: fresh_def)
qed

lemma leaf_grown_room:
  assumes fo: "forest m F [Leaf n ss] lo [hi] prev nxt" and s: "stored_in m1 (r, bs, ps)" "distinct ps"
    and m1: "\<forall>p \<in> set ps. fresh m F p" "\<forall>p. p \<notin> set ps \<longrightarrow> m1 p = m p"
    and r: "lo \<le> sint r" "sint r < hi" "sint r \<notin> stored_key ` set ss"
    and d: "m n = Some d" "leaf_page d' (map stored_cell (insort_key stored_key (r, bs, ps) ss))" "same_links d d'"
  defines "ts \<equiv> [Leaf n (insort_key stored_key (r, bs, ps) ss)]"
  shows "forest (m1(n \<mapsto> d')) (F - set ps) ts lo [hi] prev nxt" "grown m F [Leaf n ss] nxt r bs (m1(n \<mapsto> d')) (F - set ps) ts"
proof -
  let ?m = "m1(n \<mapsto> d')" let ?ss = "insort_key stored_key (r, bs, ps) ss"
  note ca = chain_added [OF fo s m1]
  have fo': "sorted_wrt (<) (map stored_key ss)" "\<forall>x \<in> set ss. lo \<le> stored_key x \<and> stored_key x < hi" "lo < hi" "linked m prev [n] nxt"
      "set (n # chain_pages ss) \<inter> F = {}" "0 \<notin> set (n # chain_pages ss)"
      "nxt \<noteq> 0 \<Longrightarrow> nxt \<notin> set (n # chain_pages ss) \<and> nxt \<notin> F \<and> (\<exists>d cs. m nxt = Some d \<and> leaf_page d cs)"
    using fo by (auto simp: forest_def)
  have "tree_in ?m (Leaf n ?ss)"
    using ca(6,7) d(2) by (auto simp: set_chain_pages intro!: stored_in_cong [of _ ?m m1])
  moreover have "sorted_wrt (<) (map stored_key ?ss)" using sorted_insort_less [OF fo'(1), of "(r, bs, ps)"] r(3) by simp
  then have "ordered_kids lo ts [hi]" using fo'(2,3) r by (auto simp: ts_def set_insort_key)
  moreover have "linked ?m prev [n] nxt" using fo'(4) d(1) same_links_next [OF d(3)] by auto
  moreover have nx: "nxt \<noteq> 0 \<Longrightarrow> nxt \<notin> set (forest_pages ts) \<and> ?m nxt = m nxt" using fo'(7) ca(2,5,8) by (auto simp: ts_def)
  ultimately show "forest ?m (F - set ps) ts lo [hi] prev nxt"
    using ca fo' by (simp add: forest_def ts_def) blast
  have "F - set ps = F - set (forest_pages ts)" using fo'(5) ca(8) by (auto simp: ts_def)
  then show "grown m F [Leaf n ss] nxt r bs ?m (F - set ps) ts"
    using ca m1 fo'(7) nx unfolding grown_def by (auto simp: ts_def)
qed

lemma split_rows_parts:
  assumes "split_rows s ss = (xs, ys)"
  shows "xs @ ys = insort_key stored_key s ss" "ys \<noteq> []" "ss \<noteq> [] \<Longrightarrow> xs \<noteq> []"
proof -
  define mid where "mid = split_mid (Suc (length ss)) (lower_index (map stored_key ss) (stored_key s))"
  have xy: "xs = take mid (insort_key stored_key s ss)" "ys = drop mid (insort_key stored_key s ss)"
    using assms by (simp_all add: split_rows_def Let_def mid_def)
  show "xs @ ys = insort_key stored_key s ss" by (simp add: xy)
  show "ys \<noteq> []" using split_mid_less [of "length ss" "lower_index (map stored_key ss) (stored_key s)"] by (simp add: xy mid_def not_le)
  assume "ss \<noteq> []"
  then have "0 < mid" by (cases ss) (auto simp: mid_def split_mid_def)
  then show "xs \<noteq> []" by (simp add: xy)
qed

lemma leaf_grown_split:
  assumes fo: "forest m F [Leaf n ss] lo [hi] prev nxt" and s: "stored_in m1 (r, bs, ps)" "distinct ps"
    and m1: "\<forall>p \<in> set ps. fresh m F p" "\<forall>p. p \<notin> set ps \<longrightarrow> m1 p = m p"
    and r: "lo \<le> sint r" "sint r < hi" "sint r \<notin> stored_key ` set ss"
    and sp: "split_rows (r, bs, ps) ss = (xs, ys)" "ss \<noteq> []" and right: "fresh m1 (F - set ps) right"
    and d1: "leaf_page d1 (map stored_cell xs)" "get_prev_leaf d1 = prev" "get_next_leaf d1 = right"
    and d2: "leaf_page d2 (map stored_cell ys)" "get_prev_leaf d2 = n" "get_next_leaf d2 = nxt"
  defines "ts \<equiv> [Leaf n xs, Leaf right ys]" and "m2 \<equiv> set_prev_at nxt right (m1(n \<mapsto> d1, right \<mapsto> d2))"
  shows "forest m2 (F - set ps - {right}) ts lo [sint (fst (hd ys)), hi] prev nxt" "grown m F [Leaf n ss] nxt r bs m2 (F - set ps - {right}) ts"
proof -
  let ?ss = "insort_key stored_key (r, bs, ps) ss"
  note ca = chain_added [OF fo s m1] and xy = split_rows_parts [OF sp(1)]
  have fo': "sorted_wrt (<) (map stored_key ss)" "\<forall>x \<in> set ss. lo \<le> stored_key x \<and> stored_key x < hi" "lo < hi"
      "set (n # chain_pages ss) \<inter> F = {}" "0 \<notin> set (n # chain_pages ss)"
      "nxt \<noteq> 0 \<Longrightarrow> nxt \<notin> set (n # chain_pages ss) \<and> nxt \<notin> F \<and> (\<exists>d cs. m nxt = Some d \<and> leaf_page d cs)" "\<exists>d. m n = Some d"
    using fo by (auto simp: forest_def)
  have alloc: "\<not> fresh m1 (F - set ps) p" if p: "p \<in> set (chain_pages ?ss)" for p
  proof -
    obtain x where x: "x \<in> set ?ss" "p \<in> set (snd (snd x))" using p unfolding set_chain_pages by blast
    then have "\<exists>d. m1 p = Some d" using ca(6) stored_alloc by blast
    moreover have "p \<notin> F - set ps" using p ca(8) fo'(4) by auto
    ultimately show ?thesis by (auto simp: fresh_def)
  qed
  have rt: "right \<noteq> n" "right \<notin> set (chain_pages ?ss)" "nxt \<noteq> 0 \<Longrightarrow> right \<noteq> nxt" "right \<noteq> 0"
    using right alloc [of right] ca(4,5) fo'(4,6,7) by (auto simp: fresh_def)
  have fr: "fresh m F right" using right rt(2) ca(8) m1(2) [rule_format, of right] by (auto simp: fresh_def)
  have m2: "m2 p = m1 p" if "p \<noteq> n" "p \<noteq> right" "p \<noteq> nxt" for p using that by (simp add: m2_def set_prev_at_def)
  have m2': "m2 n = Some d1" "m2 right = Some d2" "nxt \<noteq> 0 \<Longrightarrow> m2 nxt = map_option (set_prev_leaf right) (m nxt)"
    using rt fo'(6) ca(5) by (auto simp: m2_def set_prev_at_def)
  have nx: "nxt \<noteq> 0 \<Longrightarrow> nxt \<notin> set (chain_pages ?ss)" using fo'(6) ca(2,8) by auto
  have st: "stored_in m2 x" if x: "x \<in> set ?ss" for x
  proof (rule stored_in_cong [of x m2 m1])
    show "stored_in m1 x" using ca(6) x by blast
    fix p assume "p \<in> set (snd (snd x))"
    then have p: "p \<in> set (chain_pages ?ss)" using x by (auto simp: set_chain_pages)
    then have "p \<noteq> 0" using ca(8,9) fo'(5) by auto
    then show "m2 p = m1 p" using p ca(7) rt(2) nx by (intro m2) auto
  qed
  have srt: "sorted_wrt (<) (map stored_key (xs @ ys))" using sorted_insort_less [OF fo'(1), of "(r, bs, ps)"] r(3) xy(1) by simp
  have bnd: "\<forall>x \<in> set (xs @ ys). lo \<le> stored_key x \<and> stored_key x < hi" unfolding xy(1) using fo'(2) r by (auto simp: set_insort_key)
  have ch: "chain_pages ?ss = chain_pages xs @ chain_pages ys" using xy(1) [symmetric] by simp
  have pset: "set (forest_pages ts) = insert n (insert right (set ps \<union> set (chain_pages ss)))" using ca(8) unfolding ch by (auto simp: ts_def)
  obtain y ys' where y: "ys = y # ys'" using xy(2) by (cases ys) auto
  obtain x xs' where x: "xs = x # xs'" using xy(3) [OF sp(2)] by (cases xs) auto
  have hd: "sint (fst (hd ys)) = stored_key y" by (simp add: y stored_key_fst)
  have "stored_key x < stored_key y" "\<forall>x \<in> set xs. stored_key x < stored_key y" "\<forall>x \<in> set ys. stored_key y \<le> stored_key x"
    using srt by (auto simp: x y sorted_wrt_append)
  then have "ordered_kids lo ts [sint (fst (hd ys)), hi]" unfolding hd ts_def using srt bnd by (auto simp: x y sorted_wrt_append)
  moreover have "\<forall>t \<in> set ts. tree_in m2 t"
    using m2' d1(1) d2(1) st unfolding xy(1) [symmetric] by (simp add: ts_def)
  moreover have "linked m2 prev (forest_leaves ts) nxt" using m2' d1 d2 by (simp add: ts_def)
  moreover have "distinct (forest_pages ts)" using ca(7) rt ch by (auto simp: ts_def)
  moreover have "0 \<notin> set (forest_pages ts)" "set (forest_pages ts) \<inter> (F - set ps - {right}) = {}"
    unfolding pset using fo'(4,5) ca(9) rt(4) by auto
  moreover have "nxt \<notin> set (forest_pages ts) \<and> nxt \<notin> F \<and> (\<exists>d cs. m2 nxt = Some d \<and> leaf_page d cs)" if "nxt \<noteq> 0"
    unfolding pset using that nx rt(3) ca(2) fo'(6) m2'(3) leaf_page_links(1) by fastforce
  ultimately show "forest m2 (F - set ps - {right}) ts lo [sint (fst (hd ys)), hi] prev nxt" by (simp add: forest_def ts_def)
  have "F - set ps - {right} = F - set (forest_pages ts)" unfolding pset using fo'(4) by auto
  then show "grown m F [Leaf n ss] nxt r bs m2 (F - set ps - {right}) ts"
    using m1 fr fo'(6) m2'(3) m2 xy(1) unfolding grown_def pset by (auto simp: ts_def)
qed

text \<open>When an insertion into a leaf succeeds: there is room, or the rows can be divided into halves that fit.\<close>

definition leaf_fits :: "bytes \<Rightarrow> i64 \<Rightarrow> bytes \<Rightarrow> stored list \<Rightarrow> bool" where
  "leaf_fits d r bs ss \<longleftrightarrow> cell_len bs + 2 \<le> leaf_room d
     \<or> ss \<noteq> [] \<and> (case split_rows (r, bs, []) ss of (xs, ys) \<Rightarrow> cells_fit xs \<and> cells_fit ys)"

lemma insort_payloads: "map (\<lambda>s. fst (snd s)) (insort_key stored_key (r, bs, ps) ss) = map (\<lambda>s. fst (snd s)) (insort_key stored_key (r, bs, []) ss)"
  by (induction ss) auto

lemma cells_size_payloads: "cells_size ss = sum_list (map (\<lambda>bs. cell_len bs + 2) (map (\<lambda>s. fst (snd s)) ss))"
  by (simp add: cells_size_def o_def)

lemma split_fits_chain:
  assumes "split_rows (r, bs, ps) ss = (xs, ys)" and "split_rows (r, bs, []) ss = (xs', ys')"
  shows "cells_fit xs = cells_fit xs'" "cells_fit ys = cells_fit ys'"
proof -
  have "map (\<lambda>s. fst (snd s)) xs = map (\<lambda>s. fst (snd s)) xs'" "map (\<lambda>s. fst (snd s)) ys = map (\<lambda>s. fst (snd s)) ys'"
    using assms insort_payloads [of r bs ps ss] by (auto simp: split_rows_def Let_def take_map [symmetric] drop_map [symmetric])
  then show "cells_fit xs = cells_fit xs'" "cells_fit ys = cells_fit ys'" by (simp_all add: cells_fit_def cells_size_payloads)
qed

definition inserted :: "page_map \<Rightarrow> u32 set \<Rightarrow> btree list \<Rightarrow> int \<Rightarrow> int \<Rightarrow> u32 \<Rightarrow> u32 \<Rightarrow> i64 \<Rightarrow> bytes \<Rightarrow> nat \<Rightarrow> insert_result res \<Rightarrow> heap \<Rightarrow> bool" where
  "inserted m F t lo hi prev nxt r bs k res h \<longleftrightarrow> (\<exists>ir m' F' k' ts ks. res = Ok ir \<and> h = (m', F', k') \<and> k \<le> k' \<and> result_is ir ts ks
     \<and> forest m' F' ts lo (map sint ks @ [hi]) prev nxt \<and> grown m F t nxt r bs m' F' ts)"

lemma insert_leaf_runs:
  assumes fo: "forest m F [Leaf n ss] lo [hi] prev nxt" and r: "lo \<le> sint r" "sint r < hi" "sint r \<notin> stored_key ` set ss"
    and len: "length bs < 2 ^ 32" and d: "m n = Some d" and fit: "leaf_fits d r bs ss"
  shows "runs (m, F, Suc k + chain_len bs) (insert_into_leaf z n d r bs) (inserted m F [Leaf n ss] lo hi prev nxt r bs k)"
  unfolding insert_into_leaf_eq
proof (rule make_cell_runs [OF len])
  fix m1 ps assume "stored_in m1 (r, bs, ps)" "distinct ps" "\<And>p. p \<in> set ps \<Longrightarrow> fresh m F p" "\<And>p. p \<notin> set ps \<Longrightarrow> m1 p = m p"
  then have m1: "stored_in m1 (r, bs, ps)" "distinct ps" "\<forall>p \<in> set ps. fresh m F p" "\<forall>p. p \<notin> set ps \<longrightarrow> m1 p = m p" by blast+
  let ?s = "(r, bs, ps)" let ?c = "stored_cell ?s" let ?Q = "inserted m F [Leaf n ss] lo hi prev nxt r bs k"
  note ca = chain_added [OF fo m1]
  have lp: "leaf_page d (map stored_cell ss)" "\<forall>x \<in> set ss. stored_in m1 x" and ln: "get_prev_leaf d = prev" "get_next_leaf d = nxt" and nF: "n \<notin> F - set ps"
      and nx: "nxt \<noteq> 0 \<Longrightarrow> nxt \<noteq> n \<and> nxt \<notin> F \<and> (\<exists>d. m nxt = Some d)"
    using fo d ca(6) by (auto simp: forest_def set_insort_key)
  have m1n: "m1 n = Some d" using ca(4) d by simp
  have cr: "cell_rowid (stored_cell x) = stored_key x" if "x \<in> insert ?s (set ss)" for x
    using that lp(2) m1(1) stored_cell_fields(1) [of m1] by blast
  show "runs (m1, F - set ps, Suc k) (if cell_len bs + 2 \<le> leaf_room d then op_bind (update_page_res z n (insert_cell_into_leaf r ?c)) (\<lambda>_. op_return Done)
      else split_leaf z n r ?c) ?Q"
  proof (cases "cell_len bs + 2 \<le> leaf_room d")
    case True
    have new: "cell_rowid ?c \<notin> cell_rowid ` set (map stored_cell ss)" using r(3) cr by (auto simp: image_iff simp del: stored_cell.simps)
    obtain d' where d': "insert_cell_into_leaf r ?c d = Ok d'" "leaf_page d' (insort_key cell_rowid ?c (map stored_cell ss))" "same_links d d'"
      using insert_cell_into_leaf_ok [OF lp(1) new stored_cell_fields(2) [OF m1(1)]] stored_cell_fields(1) [OF m1(1)] stored_cell_len [OF m1(1)] True by auto
    have lp': "leaf_page d' (map stored_cell (insort_key stored_key ?s ss))" using d'(2) insort_map [of ?s ss cell_rowid stored_cell stored_key] cr by (simp del: stored_cell.simps)
    note g = leaf_grown_room [OF fo m1 r d lp' d'(3)]
    have "?Q (Ok Done) (m1(n \<mapsto> d'), F - set ps, Suc k)"
      unfolding inserted_def using g by (intro exI [of _ "[]"] exI conjI) auto
    then have "runs (m1, F - set ps, Suc k) (op_bind (update_page_res z n (insert_cell_into_leaf r ?c)) (\<lambda>_. op_return Done)) ?Q"
      using leaf_pageD(7) [OF lp'] by (intro runs_update [where m = m1 and g = "insert_cell_into_leaf r ?c", OF m1n nF d'(1)] runs_return)
    with True show ?thesis by simp
  next
    case False
    obtain xs ys where sp: "split_rows ?s ss = (xs, ys)" by (cases "split_rows ?s ss")
    have fit': "ss \<noteq> []" "cells_fit xs" "cells_fit ys"
      using fit False split_fits_chain [OF sp] by (auto simp: leaf_fits_def split: prod.splits)
    have "runs (m1, F - set ps, Suc k) (split_leaf z n (fst ?s) ?c) ?Q"
    proof (rule split_leaf_runs [OF m1n nF lp(1,2) m1(1) _ sp fit'(2,3)])
      show "stored_key ?s \<notin> stored_key ` set ss" using r(3) by simp
      show "get_next_leaf d \<noteq> 0 \<Longrightarrow> get_next_leaf d \<noteq> n \<and> get_next_leaf d \<notin> F - set ps \<and> m1 (get_next_leaf d) \<noteq> None" using nx ca(5) ln by auto
      fix right d1 d2 assume a: "fresh m1 (F - set ps) right" "leaf_page d1 (map stored_cell xs)" "leaf_page d2 (map stored_cell ys)"
        "get_prev_leaf d1 = get_prev_leaf d" "get_next_leaf d1 = right" "get_prev_leaf d2 = n" "get_next_leaf d2 = get_next_leaf d"
      note g = leaf_grown_split [OF fo m1 r sp fit'(1) a(1,2) _ a(5,3,6)]
      show "?Q (Ok (Split (fst (hd ys)) right)) (set_prev_at (get_next_leaf d) right (m1(n \<mapsto> d1, right \<mapsto> d2)), F - set ps - {right}, k)"
        unfolding inserted_def using g a(4,7) ln
        by (intro exI [of _ "[fst (hd ys)]"] exI [of _ "[Leaf n xs, Leaf right ys]"] exI conjI) auto
    qed
    with False show ?thesis by simp
  qed
qed

end
