(* ===== verification/BTreeNodes.thy ===== *)
theory BTreeNodes
  imports BTreeGrow
begin

text \<open>
  The insertion above the leaves: a grown child in its parent, the divider in an interior page, the split of an interior page, the
  whole descent, and the new root.
\<close>

section \<open>A grown tree among its neighbours\<close>

lemma linked_app: "linked m prev (ps @ qs) nxt \<longleftrightarrow> linked m prev ps (hd (qs @ [nxt])) \<and> linked m (last (prev # ps)) qs nxt"
  using linked_append [of ps m prev qs nxt] by (cases "ps = []") auto

lemma leaf_page_of: "tree_in m t \<Longrightarrow> p \<in> set (leaf_pages t) \<Longrightarrow> \<exists>d cs. m p = Some d \<and> leaf_page d cs"
  by (induction t) auto

lemma forest_leaves_ne: "(\<forall>t \<in> set ts. tree_in m t) \<Longrightarrow> ts \<noteq> [] \<Longrightarrow> forest_leaves ts \<noteq> []"
  using leaf_pages_nonempty by (cases ts) auto

lemma forest_leaves_sub: "set (forest_leaves ts) \<subseteq> set (forest_pages ts)"
  using leaf_pages_sub by (fastforce simp: forest_leaves_def forest_pages_def all_pages_def)

lemma forestD:
  assumes "forest m F ts lo us prev nxt"
  shows "\<forall>t \<in> set ts. tree_in m t" "ordered_kids lo ts us" "linked m prev (forest_leaves ts) nxt" "distinct (forest_pages ts)"
    "0 \<notin> set (forest_pages ts)" "set (forest_pages ts) \<inter> F = {}"
    "nxt \<noteq> 0 \<longrightarrow> nxt \<notin> set (forest_pages ts) \<and> nxt \<notin> F \<and> (\<exists>d cs. m nxt = Some d \<and> leaf_page d cs)"
  using assms unfolding forest_def by blast+

lemma forest_leaves_distinct: "distinct (forest_pages ts) \<Longrightarrow> distinct (forest_leaves ts)"
proof (induction ts)
  case (Cons t ts)
  then show ?case using leaf_pages_distinct [of t] leaf_pages_sub [of t] forest_leaves_sub [of ts] by (auto simp: all_pages_def)
qed simp

lemma chain_not_leaf:
  assumes "distinct (forest_pages ts)" and "v \<in> set ts" and "p \<in> set (chain_pages (rows v))"
  shows "p \<notin> set (forest_leaves ts)"
proof
  assume "p \<in> set (forest_leaves ts)"
  then obtain w where w: "w \<in> set ts" "p \<in> set (leaf_pages w)" by (auto simp: forest_leaves_def)
  then have p: "p \<in> set (tree_pages w)" using leaf_pages_sub by blast
  then have "v = w" using concat_apart [of all_pages ts p v w] assms w(1) by (auto simp: forest_pages_def all_pages_def)
  moreover have "distinct (all_pages v)" using assms(1,2) by (induction ts) auto
  ultimately show False using p assms(3) by (auto simp: all_pages_def)
qed

text \<open>The first leaf after a tree.\<close>

lemma forest_next:
  assumes fo: "forest m F (pre @ t # post) lo us prev nxt"
  defines "nx \<equiv> hd (forest_leaves post @ [nxt])"
  shows "nx \<noteq> 0 \<Longrightarrow> nx \<notin> set (forest_pages pre) \<and> nx \<notin> set (all_pages t) \<and> nx \<notin> F \<and> (\<exists>d cs. m nx = Some d \<and> leaf_page d cs)"
proof -
  assume nx: "nx \<noteq> 0"
  show ?thesis
  proof (cases "post = []")
    case True
    then show ?thesis using fo nx by (auto simp: nx_def forest_def)
  next
    case False
    have ne: "forest_leaves post \<noteq> []" using fo False by (intro forest_leaves_ne [of post m]) (auto simp: forest_def)
    then have in_post: "nx \<in> set (forest_leaves post)" by (simp add: nx_def)
    then obtain u where u: "u \<in> set post" "nx \<in> set (leaf_pages u)" by (auto simp: forest_leaves_def)
    have "\<exists>d cs. m nx = Some d \<and> leaf_page d cs" using leaf_page_of [OF _ u(2)] u(1) fo by (auto simp: forest_def)
    moreover have "nx \<in> set (forest_pages post)" using in_post forest_leaves_sub by blast
    ultimately show ?thesis using fo by (auto simp: forest_def)
  qed
qed

lemma forest_child:
  assumes fo: "forest m F (pre @ t # post) lo (upre @ u # upost) prev nxt" and len: "length pre = length upre"
  shows "forest m F [t] (last (lo # upre)) [u] (last (prev # forest_leaves pre)) (hd (forest_leaves post @ [nxt]))"
proof -
  have "ordered_kids lo (pre @ t # post) (upre @ u # upost)" using fo by (simp add: forest_def)
  then have "ordered_kids (last (lo # upre)) [t] [u]" using ordered_kids_append [OF len, of lo "t # post" "u # upost"] by simp
  moreover have "linked m (last (prev # forest_leaves pre)) (leaf_pages t) (hd (forest_leaves post @ [nxt]))"
    using fo by (simp add: forest_def linked_app)
  ultimately show ?thesis using forest_next [OF fo] fo by (auto simp: forest_def)
qed

lemma insort_middle:
  fixes f :: "'a \<Rightarrow> int"
  assumes "\<forall>a \<in> set as. f a < f x" and "\<forall>c \<in> set cs. f x < f c"
  shows "insort_key f x (as @ bs @ cs) = as @ insort_key f x bs @ cs"
proof -
  have "insort_key f x (bs @ cs) = insort_key f x bs @ cs"
    using assms(2) by (induction bs) (cases cs, auto)+
  then show ?thesis using assms(1) by (induction as) auto
qed

lemma forest_rows_bounds:
  assumes "ordered_kids lo ts us"
  shows "\<forall>s \<in> set (forest_rows ts). lo \<le> stored_key s \<and> stored_key s < last (lo # us)"
  using ordered_rows(2) [OF assms] by (simp add: forest_rows_def)

lemma forest_extend:
  assumes fo: "forest m F (pre @ t # post) lo (upre @ u # upost) prev nxt" and len: "length pre = length upre"
    and fo': "forest m' F' ts (last (lo # upre)) us (last (prev # forest_leaves pre)) (hd (forest_leaves post @ [nxt]))" and us: "last us = u"
    and g: "grown m F [t] (hd (forest_leaves post @ [nxt])) r bs m' F' ts"
    and r: "last (lo # upre) \<le> sint r" "sint r < u"
  shows "forest m' F' (pre @ ts @ post) lo (upre @ us @ upost) prev nxt" "grown m F (pre @ t # post) nxt r bs m' F' (pre @ ts @ post)"
proof -
  define nx where "nx = hd (forest_leaves post @ [nxt])"
  have T: "\<forall>t \<in> set (pre @ t # post). tree_in m t" "ordered_kids lo (pre @ t # post) (upre @ u # upost)" "linked m prev (forest_leaves (pre @ t # post)) nxt"
      "distinct (forest_pages (pre @ t # post))" "0 \<notin> set (forest_pages (pre @ t # post))" "set (forest_pages (pre @ t # post)) \<inter> F = {}"
      "nxt \<noteq> 0 \<longrightarrow> nxt \<notin> set (forest_pages (pre @ t # post)) \<and> nxt \<notin> F \<and> (\<exists>d cs. m nxt = Some d \<and> leaf_page d cs)"
    using forestD [OF fo] by blast+
  have G: "hd (forest_leaves ts) = hd (leaf_pages t)" "set (all_pages t) \<subseteq> set (forest_pages ts)" "\<forall>p \<in> set (forest_pages ts). p \<in> set (all_pages t) \<or> fresh m F p"
      "F' = F - set (forest_pages ts)" "\<forall>p. p \<notin> set (forest_pages ts) \<longrightarrow> p \<noteq> nx \<longrightarrow> m' p = m p"
      "nx \<noteq> 0 \<longrightarrow> (\<exists>d. m nx = Some d \<and> (m' nx = Some d \<and> last (forest_leaves ts) = last (leaf_pages t) \<or> m' nx = Some (set_prev_leaf (last (forest_leaves ts)) d)))"
      "root_page (hd ts) = root_page t" "\<exists>ps. forest_rows ts = insort_key stored_key (r, bs, ps) (rows t)"
    using g by (simp_all add: grown_def nx_def)
  have T': "\<forall>t \<in> set ts. tree_in m' t" "ordered_kids (last (lo # upre)) ts us" "ts \<noteq> []" "linked m' (last (prev # forest_leaves pre)) (forest_leaves ts) nx"
      "distinct (forest_pages ts)" "0 \<notin> set (forest_pages ts)" "set (forest_pages ts) \<inter> F' = {}"
      "nx \<noteq> 0 \<longrightarrow> nx \<notin> set (forest_pages ts) \<and> (\<exists>d cs. m' nx = Some d \<and> leaf_page d cs)"
    using fo' by (simp_all add: forest_def nx_def)
  have nx: "nx \<noteq> 0 \<Longrightarrow> nx \<notin> set (forest_pages pre) \<and> nx \<notin> set (all_pages t) \<and> nx \<notin> F \<and> (\<exists>d cs. m nx = Some d \<and> leaf_page d cs)"
    using forest_next [OF fo] by (simp add: nx_def)
  have side: "p \<notin> set (forest_pages ts)" if "p \<in> set (forest_pages pre) \<union> set (forest_pages post)" for p
    using that G(3) forest_pages_kept [OF fo, of p] T(4) by auto
  have keep: "m' p = m p" if "p \<in> set (forest_pages pre) \<union> set (forest_pages post)" "p \<noteq> nx" for p using G(5) side that by blast
  have keep_pre: "m' p = m p" if "p \<in> set (forest_pages pre)" for p
    using keep [of p] that nx T(5) by (cases "nx = 0") auto
  have relink: "relinked m m' p" if "p \<in> set (forest_pages post)" for p
  proof (cases "p = nx")
    case True
    then show ?thesis using G(6) nx that T(5) leaf_pageD(2) by (cases "nx = 0") (fastforce simp: relinked_def)+
  next
    case False
    then show ?thesis using keep [of p] that by (simp add: relinked_refl)
  qed
  have post_leaf: "nx \<in> set (forest_leaves post)" if "post \<noteq> []"
    using forest_leaves_ne [of post m] T(1) that by (auto simp: nx_def)
  have tin: "tree_in m' v" if v: "v \<in> set (pre @ ts @ post)" for v
  proof -
    consider "v \<in> set pre" | "v \<in> set ts" | "v \<in> set post" using v by auto
    then show ?thesis
    proof cases
      case 1
      then show ?thesis using T(1) keep_pre by (intro tree_in_cong [of m v m']) (auto simp: forest_pages_def)
    next
      case 2
      then show ?thesis using T'(1) by simp
    next
      case 3
      then have P: "set (all_pages v) \<subseteq> set (forest_pages post)" by (auto simp: forest_pages_def)
      show ?thesis
      proof (rule tree_in_relinked [of m])
        show "tree_in m v" using T(1) 3 by simp
        show "relinked m m' p" if "p \<in> set (tree_pages v)" for p using relink P that by (auto simp: all_pages_def)
        show "m' p = m p" if p: "p \<in> set (chain_pages (rows v))" for p
        proof (rule keep)
          show pp: "p \<in> set (forest_pages pre) \<union> set (forest_pages post)" using P p by (auto simp: all_pages_def)
          have "p \<notin> set (forest_leaves post)" using chain_not_leaf [of post v p] T(4) 3 p by simp
          moreover have "post \<noteq> []" using 3 by auto
          ultimately show "p \<noteq> nx" using post_leaf by auto
        qed
      qed
    qed
  qed
  have ne: "forest_leaves ts \<noteq> []" "leaf_pages t \<noteq> []" using forest_leaves_ne [OF T'(1,3)] leaf_pages_nonempty [of m t] T(1) by auto
  have L: "linked m prev (forest_leaves pre) (hd (leaf_pages t))" "linked m (last (leaf_pages t)) (forest_leaves post) nxt"
    using T(3) ne(2) by (simp_all add: linked_app)
  have Lpre: "linked m' prev (forest_leaves pre) (hd (forest_leaves ts))"
    using L(1) G(1) keep_pre forest_leaves_sub [of pre] by (intro linked_cong [of m _ _ _ m']) auto
  have Lpost: "linked m' (last (forest_leaves ts)) (forest_leaves post) nxt"
  proof (cases "forest_leaves post")
    case (Cons p ps)
    then have p: "nx = p" "p \<noteq> 0" using forest_leaves_sub [of post] T(5) by (auto simp: nx_def)
    have "distinct (forest_leaves post)" using T(4) by (intro forest_leaves_distinct) simp
    then have rest: "linked m' p ps nxt"
      using L(2) Cons p keep forest_leaves_sub [of post] by (intro linked_cong [of m _ _ _ m']) auto
    obtain d where d: "m p = Some d" "get_prev_leaf d = last (leaf_pages t)" "get_next_leaf d = hd (ps @ [nxt])" using L(2) Cons by auto
    have "get_prev_leaf (set_prev_leaf x d) = x \<and> get_next_leaf (set_prev_leaf x d) = get_next_leaf d" for x
      using nx p d(1) leaf_page_links(3,4) by fastforce
    then show ?thesis using G(6) p d rest Cons by auto
  qed simp
  have rows_pre: "\<forall>s \<in> set (forest_rows pre). stored_key s < sint r"
    using forest_rows_bounds [of lo pre upre] ordered_kids_append [OF len, of lo "t # post" "u # upost"] T(2) r(1) by fastforce
  have rows_post: "\<forall>s \<in> set (forest_rows post). sint r < stored_key s"
    using forest_rows_bounds [of u post upost] ordered_kids_append [OF len, of lo "t # post" "u # upost"] T(2) r(2) by fastforce
  have ord: "ordered_kids lo (pre @ ts @ post) (upre @ us @ upost)"
  proof -
    have "ordered_kids lo pre upre" "ordered_kids u post upost" using T(2) ordered_kids_append [OF len, of lo "t # post" "u # upost"] by simp_all
    moreover have "us \<noteq> []" using T'(2,3) by (cases us) (auto dest: ordered_kids_length)
    ultimately show ?thesis using ordered_kids_append [OF len] ordered_kids_append [OF ordered_kids_length [OF T'(2)]] T'(2) us by simp
  qed
  have nxt': "nxt \<notin> set (forest_pages (pre @ ts @ post)) \<and> nxt \<notin> F' \<and> (\<exists>d cs. m' nxt = Some d \<and> leaf_page d cs)" "post \<noteq> [] \<Longrightarrow> m' nxt = m nxt" if "nxt \<noteq> 0"
  proof -
    have a: "nxt \<notin> set (forest_pages pre)" "nxt \<notin> set (forest_pages post)" "nxt \<notin> F" "\<exists>d cs. m nxt = Some d \<and> leaf_page d cs" "nxt \<notin> set (all_pages t)"
      using T(7) that by auto
    have b: "nxt \<notin> set (forest_pages ts)" using G(3) a(3,4,5) by (auto simp: fresh_def)
    show c: "post \<noteq> [] \<Longrightarrow> m' nxt = m nxt" using G(5) b a(2) post_leaf forest_leaves_sub [of post] by auto
    have "\<exists>d cs. m' nxt = Some d \<and> leaf_page d cs" using c a(4) T'(8) that by (cases "post = []") (auto simp: nx_def)
    then show "nxt \<notin> set (forest_pages (pre @ ts @ post)) \<and> nxt \<notin> F' \<and> (\<exists>d cs. m' nxt = Some d \<and> leaf_page d cs)" using a b G(4) by auto
  qed
  have "linked m' prev (forest_leaves (pre @ ts @ post)) nxt" using Lpre Lpost T'(4) ne(1) by (simp add: linked_app nx_def)
  moreover have "distinct (forest_pages (pre @ ts @ post))" using T(4) T'(5) side by auto
  moreover have "0 \<notin> set (forest_pages (pre @ ts @ post))" "set (forest_pages (pre @ ts @ post)) \<inter> F' = {}" using T(5,6) T'(6,7) G(4) by auto
  ultimately show "forest m' F' (pre @ ts @ post) lo (upre @ us @ upost) prev nxt"
    unfolding forest_def using tin ord T'(3) nxt' by blast
  have "F' = F - set (forest_pages (pre @ ts @ post))" using G(4) T(6) by auto
  moreover have "hd (forest_leaves (pre @ ts @ post)) = hd (forest_leaves (pre @ t # post))" "root_page (hd (pre @ ts @ post)) = root_page (hd (pre @ t # post))"
    using G(1,7) ne T'(3) by (auto simp: hd_append)
  moreover have "\<exists>ps. forest_rows (pre @ ts @ post) = insort_key stored_key (r, bs, ps) (forest_rows (pre @ t # post))"
    using G(8) insort_middle [of "forest_rows pre" stored_key _ "forest_rows post" "rows t"] rows_pre rows_post by auto
  moreover have "nxt \<noteq> 0 \<longrightarrow> (\<exists>d. m nxt = Some d \<and> (m' nxt = Some d \<and> last (forest_leaves (pre @ ts @ post)) = last (forest_leaves (pre @ t # post))
      \<or> m' nxt = Some (set_prev_leaf (last (forest_leaves (pre @ ts @ post))) d)))"
    using nxt'(2) T(1,7) G(6) ne forest_leaves_ne [of post m] by (cases "post = []") (auto simp: nx_def)
  moreover have "m' p = m p" if "p \<notin> set (forest_pages (pre @ ts @ post))" "p \<noteq> nxt" for p
    using G(5) that post_leaf forest_leaves_sub [of post] by (cases "post = []") (auto simp: nx_def)
  ultimately show "grown m F (pre @ t # post) nxt r bs m' F' (pre @ ts @ post)"
    unfolding grown_def using G(2,3) by auto
qed

section \<open>A grown forest below its node\<close>

lemma mset_forest: "mset (concat (map tree_pages ts) @ chain_pages (forest_rows ts)) = mset (forest_pages ts)"
  by (induction ts) (auto simp: all_pages_def)

lemma node_pages: "set (all_pages (Node n ts ks)) = insert n (set (forest_pages ts))" "distinct (all_pages (Node n ts ks)) \<longleftrightarrow> n \<notin> set (forest_pages ts) \<and> distinct (forest_pages ts)"
proof -
  have ms: "mset (all_pages (Node n ts ks)) = mset (n # forest_pages ts)"
    using mset_forest [of ts] by (simp add: all_pages_def forest_rows_def)
  then show "set (all_pages (Node n ts ks)) = insert n (set (forest_pages ts))" by (metis mset_eq_setD list.set(2))
  show "distinct (all_pages (Node n ts ks)) \<longleftrightarrow> n \<notin> set (forest_pages ts) \<and> distinct (forest_pages ts)"
    using mset_eq_imp_distinct_iff [OF ms] by simp
qed

lemma node_leaves [simp]: "leaf_pages (Node n ts ks) = forest_leaves ts" "rows (Node n ts ks) = forest_rows ts"
  by (simp_all add: forest_leaves_def forest_rows_def)

declare leaf_pages.simps(2) [simp del] rows.simps(2) [simp del]

text \<open>The page of a node with given children.\<close>

definition node_page :: "bytes \<Rightarrow> btree list \<Rightarrow> i64 list \<Rightarrow> bool" where
  "node_page d ts ks \<longleftrightarrow> interior_page d (zip (map root_page ts) ks) (root_page (last ts)) \<and> content_offset d + 12 * length ks = PAGE_SIZE
     \<and> length ts = Suc (length ks)"

lemma tree_in_node: "tree_in m (Node n ts ks) \<longleftrightarrow> (\<exists>d. m n = Some d \<and> node_page d ts ks) \<and> (\<forall>t \<in> set ts. tree_in m t)"
  by (auto simp: node_page_def)

lemma forest_below:
  assumes "forest m F [Node n ts ks] lo [hi] prev nxt"
  shows "forest m F ts lo (map sint ks @ [hi]) prev nxt" "n \<notin> set (forest_pages ts)" "n \<noteq> 0" "n \<notin> F" "n \<noteq> nxt" "\<exists>d. m n = Some d \<and> node_page d ts ks" "lo < hi"
  using assms node_pages [of n ts ks] by (auto simp: forest_def tree_in_node node_page_def simp del: tree_in.simps)

lemma node_grown:
  assumes fo: "forest m F [Node n ts ks] lo [hi] prev nxt" and fo': "forest m' F' ts' lo (map sint ks' @ [hi]) prev nxt"
    and g: "grown m F ts nxt r bs m' F' ts'" and d: "node_page d' ts' ks'"
  shows "forest (m'(n \<mapsto> d')) F' [Node n ts' ks'] lo [hi] prev nxt" "grown m F [Node n ts ks] nxt r bs (m'(n \<mapsto> d')) F' [Node n ts' ks']"
proof -
  note B = forest_below [OF fo] and D = forestD [OF fo']
  have "\<not> fresh m F n" using forest_pages_kept [OF fo, of n] node_pages(1) [of n ts ks] by simp
  then have n: "n \<notin> set (forest_pages ts')" using g B(2) by (auto simp: grown_def)
  have "tree_in (m'(n \<mapsto> d')) t" if "t \<in> set ts'" for t
    using D(1) that n by - (rule tree_in_cong [of m' t], auto simp: forest_pages_def)
  then have "tree_in (m'(n \<mapsto> d')) (Node n ts' ks')" using d unfolding tree_in_node by auto
  moreover have "linked (m'(n \<mapsto> d')) prev (forest_leaves ts') nxt"
    using D(3) n forest_leaves_sub [of ts'] by (intro linked_cong [of m' _ _ _ "m'(n \<mapsto> d')"]) auto
  moreover have "n \<notin> F'" using g B(4) by (auto simp: grown_def)
  ultimately show "forest (m'(n \<mapsto> d')) F' [Node n ts' ks'] lo [hi] prev nxt"
    using D(2,4-7) B(3,5,7) n unfolding forest_def by (auto simp: node_pages simp del: tree_in.simps)
  show "grown m F [Node n ts ks] nxt r bs (m'(n \<mapsto> d')) F' [Node n ts' ks']"
    using g B(2,4,5) n unfolding grown_def by (auto simp: node_pages)
qed

lemma node_split_grown:
  assumes fo: "forest m F [Node n ts ks] lo [hi] prev nxt" and fo': "forest m' F' ts' lo (map sint ks' @ [hi]) prev nxt"
    and g: "grown m F ts nxt r bs m' F' ts'" and sp: "ts' = tsl @ tsr" "ks' = ksl @ k # ksr"
    and d: "node_page d1 tsl ksl" "node_page d2 tsr ksr" and p: "fresh m' F' p"
  defines "us \<equiv> [Node n tsl ksl, Node p tsr ksr]"
  shows "forest (m'(n \<mapsto> d1, p \<mapsto> d2)) (F' - {p}) us lo [sint k, hi] prev nxt" "grown m F [Node n ts ks] nxt r bs (m'(n \<mapsto> d1, p \<mapsto> d2)) (F' - {p}) us"
proof -
  let ?m = "m'(n \<mapsto> d1, p \<mapsto> d2)"
  note B = forest_below [OF fo] and D = forestD [OF fo']
  have "\<not> fresh m F n" using forest_pages_kept [OF fo, of n] node_pages(1) [of n ts ks] by simp
  then have n: "n \<notin> set (forest_pages ts')" using g B(2) by (auto simp: grown_def)
  have pn: "p \<notin> set (forest_pages ts')" "nxt \<noteq> 0 \<Longrightarrow> p \<noteq> nxt" "p \<noteq> 0" using p forest_pages_kept [OF fo', of p] forest_next_kept [OF fo'] by (auto simp: fresh_def)
  have m'n: "m' n = m n" "n \<notin> F'" using g B(4,5) n by (auto simp: grown_def)
  then have np: "p \<noteq> n" using p B(6) by (auto simp: fresh_def)
  have fr: "fresh m F p" using p pn(1,2) g by (cases "p = nxt") (auto simp: grown_def fresh_def)
  have l: "length tsl = Suc (length ksl)" "length tsr = Suc (length ksr)" using d by (simp_all add: node_page_def)
  have "ordered_kids lo (tsl @ tsr) ((map sint ksl @ [sint k]) @ (map sint ksr @ [hi]))" using D(2) sp by simp
  then have ok: "ordered_kids lo tsl (map sint ksl @ [sint k])" "ordered_kids (sint k) tsr (map sint ksr @ [hi])"
    using ordered_kids_append [of tsl "map sint ksl @ [sint k]" lo tsr] l by simp_all
  have lt: "lo < sint k" "sint k < hi"
    using ordered_kids_bounds [OF ok(1)] ordered_kids_bounds [OF ok(2)] by auto
  have "tree_in ?m t" if "t \<in> set ts'" for t
    using D(1) that n pn by - (rule tree_in_cong [of m' t], auto simp: forest_pages_def)
  then have "tree_in ?m (Node n tsl ksl)" "tree_in ?m (Node p tsr ksr)" using d np sp unfolding tree_in_node by auto
  moreover have "linked ?m prev (forest_leaves ts') nxt"
    using D(3) n pn(1) forest_leaves_sub [of ts'] by (intro linked_cong [of m' _ _ _ ?m]) auto
  moreover have nx: "nxt \<noteq> 0 \<Longrightarrow> ?m nxt = m' nxt" using B(5) pn(2) by auto
  ultimately show "forest ?m (F' - {p}) us lo [sint k, hi] prev nxt"
    using D(4-7) B(3,5) n pn np ok lt m'n(2) sp unfolding us_def forest_def by (auto simp: node_pages simp del: tree_in.simps)
  have "forest_leaves us = forest_leaves ts'" "forest_rows us = forest_rows ts'" "set (forest_pages us) = insert n (insert p (set (forest_pages ts')))"
    "root_page (hd us) = n" by (auto simp: us_def sp node_pages)
  moreover have "F' - {p} = F - insert n (insert p (set (forest_pages ts')))" using g B(4) by (auto simp: grown_def)
  ultimately show "grown m F [Node n ts ks] nxt r bs ?m (F' - {p}) us"
    using g B(2,4,5) fr nx unfolding grown_def by (auto simp: node_pages)
qed

section \<open>Dividers in interior pages\<close>

lemma upper_index_middle: "sorted_wrt (<) (as @ k # bs) \<Longrightarrow> upper_index (as @ bs) k = length as" for k :: int
proof -
  assume a: "sorted_wrt (<) (as @ k # bs)"
  then have "takeWhile (\<lambda>x. x \<le> k) (as @ bs) = as @ takeWhile (\<lambda>x. x \<le> k) bs" by (auto simp: sorted_wrt_append intro!: takeWhile_append2)
  moreover have "takeWhile (\<lambda>x. x \<le> k) bs = []" using a by (cases bs) (auto simp: sorted_wrt_append)
  ultimately show ?thesis by (simp add: upper_index_def)
qed

lemma entries_insert:
  fixes t t2 :: btree
  assumes l: "length pre = length kpre" "length post = length kpost" and k: "sorted_wrt (<) (map sint (kpre @ k # kpost))"
  defines "es \<equiv> zip (map root_page (pre @ t # post)) (kpre @ kpost)" and "i \<equiv> length kpre"
  defines "es' \<equiv> list_insert i (root_page t, k) es"
  shows "upper_index (map entry_key es) (sint k) = i" "length (takeWhile (\<lambda>e. snd e \<noteq> k) es') = i" "k \<in> snd ` set es'"
    "(if i + 1 < length es' then (es'[i + 1 := (root_page t2, snd (es' ! (i + 1)))], root_page (last (pre @ t # post))) else (es', root_page t2))
       = (zip (map root_page (pre @ [t, t2] @ post)) (kpre @ k # kpost), root_page (last (pre @ [t, t2] @ post)))"
proof -
  let ?a = "zip (map root_page pre) kpre"
  have es: "es = ?a @ zip (map root_page (t # post)) kpost" using l(1) by (simp add: es_def)
  have es': "es' = ?a @ (root_page t, k) # zip (map root_page (t # post)) kpost" using l(1) by (simp add: es'_def es list_insert_def i_def)
  have "map entry_key es = map sint (kpre @ kpost)" unfolding es_def using l by (intro entry_keys_zip) simp
  then show "upper_index (map entry_key es) (sint k) = i" using upper_index_middle [of "map sint kpre" "sint k" "map sint kpost"] k by (simp add: i_def)
  have "k \<notin> set kpre" using k by (auto simp: sorted_wrt_append)
  then have "\<forall>e \<in> set ?a. snd e \<noteq> k" by (auto dest: set_zip_rightD)
  then show "length (takeWhile (\<lambda>e. snd e \<noteq> k) es') = i" using l(1) by (simp add: es' i_def takeWhile_append2)
  show "k \<in> snd ` set es'" by (simp add: es')
  show "(if i + 1 < length es' then (es'[i + 1 := (root_page t2, snd (es' ! (i + 1)))], root_page (last (pre @ t # post))) else (es', root_page t2))
       = (zip (map root_page (pre @ [t, t2] @ post)) (kpre @ k # kpost), root_page (last (pre @ [t, t2] @ post)))"
  proof (cases kpost)
    case Nil
    then show ?thesis using l by (simp add: es' i_def)
  next
    case (Cons k' kpost')
    then obtain p post' where "post = p # post'" using l(2) by (cases post) auto
    then show ?thesis using l Cons by (simp add: es' i_def list_update_append nth_append)
  qed
qed

lemma node_page_room: "node_page d ts ks \<Longrightarrow> interior_room d = PAGE_SIZE - (INTERIOR_HEADER_SIZE + 14 * length ks) \<and> INTERIOR_HEADER_SIZE + 14 * length ks \<le> PAGE_SIZE"
  using interior_pageD(5) [of d "zip (map root_page ts) ks" "root_page (last ts)"]
    slottedD(3) [OF interior_pageD(1), of d "zip (map root_page ts) ks" "root_page (last ts)"]
  by (auto simp: node_page_def interior_room_def)

lemma insert_divider_runs:
  assumes n: "m n = Some d" "n \<notin> F" and d: "node_page d (pre @ t # post) (kpre @ kpost)" and l: "length pre = length kpre"
    and k: "sorted_wrt (<) (map sint (kpre @ k # kpost))" and room: "14 \<le> interior_room d"
    and Q: "\<And>d'. node_page d' (pre @ [t, t2] @ post) (kpre @ k # kpost) \<Longrightarrow> Q (Ok Done) (m(n \<mapsto> d'), F, j)"
  shows "runs (m, F, j) (insert_divider z n (root_page t) k (root_page t2)) Q"
proof -
  let ?es = "zip (map root_page (pre @ t # post)) (kpre @ kpost)"
  have ip: "interior_page d ?es (root_page (last (pre @ t # post)))" and c: "content_offset d + 12 * length (kpre @ kpost) = PAGE_SIZE" and l2: "length post = length kpost"
    using d l by (simp_all add: node_page_def)
  note e = entries_insert [OF l l2 k, of t]
  obtain d1 where d1: "insert_interior_cell k (root_page t) d = Ok d1" "interior_page d1 (list_insert (length kpre) (root_page t, k) ?es) (root_page (last (pre @ t # post)))"
      "content_offset d1 = content_offset d - 12"
    using insert_interior_cell_ok [OF ip room, of k "root_page t"] e(1) by auto
  obtain d2 where d2: "replace_child_pointer k (root_page t2) d1 = Ok d2" "content_offset d2 = content_offset d1"
      "interior_page d2 (zip (map root_page (pre @ [t, t2] @ post)) (kpre @ k # kpost)) (root_page (last (pre @ [t, t2] @ post)))"
    using replace_child_pointer_ok [OF d1(2) e(3), of "root_page t2"] e(2) e(4) [of t2] by (auto split: if_splits)
  have "node_page d2 (pre @ [t, t2] @ post) (kpre @ k # kpost)"
    using d2 d1(3) c room l l2 interior_pageD(5) [OF ip] by (simp add: node_page_def interior_room_def)
  then have q: "Q (Ok Done) (m(n \<mapsto> d1, n \<mapsto> d2), F, j)" using Q by simp
  have "14 \<le> content_offset d - (INTERIOR_HEADER_SIZE + cell_count d * 2)" using room by (simp add: interior_room_def mult.commute)
  moreover have "runs (m(n \<mapsto> d1), F, j) (op_bind (update_page_res z n (replace_child_pointer k (root_page t2))) (\<lambda>_. op_return Done)) Q"
    by (rule runs_update [where d = d1 and d' = d2]) (use n(2) d2(1) interior_pageD(6) [OF d2(3)] q in \<open>auto intro: runs_return\<close>)
  then have "runs (m, F, j) (op_bind (update_page_res z n (insert_interior_cell k (root_page t)))
      (\<lambda>_. op_bind (update_page_res z n (replace_child_pointer k (root_page t2))) (\<lambda>_. op_return Done))) Q"
    by (rule runs_update [where d = d and d' = d1, rotated 4]) (use n d1(1) interior_pageD(6) [OF d1(2)] in auto)
  ultimately show ?thesis unfolding insert_divider_def using n(1) by (auto intro!: runs_get_page)
qed

section \<open>The split of an interior page\<close>

lemma upper_index_last: "(\<And>x. x \<in> set ks \<Longrightarrow> x \<le> k) \<Longrightarrow> upper_index ks k = length ks" for k :: int
proof -
  assume "\<And>x. x \<in> set ks \<Longrightarrow> x \<le> k"
  then have "takeWhile (\<lambda>x. x \<le> k) ks = ks" by (simp add: takeWhile_eq_all_conv)
  then show ?thesis by (metis upper_index_def)
qed

lemma fill_interior_runs:
  assumes "m n = Some d" and "n \<notin> F" and "interior_page d es right" and "sorted_wrt (\<le>) (map entry_key (es @ xs))" and "14 * length xs \<le> interior_room d"
    and "\<And>d'. interior_page d' (es @ xs) right \<Longrightarrow> content_offset d' + 12 * length xs = content_offset d \<Longrightarrow> runs (m(n \<mapsto> d'), F, k) (f ()) Q"
  shows "runs (m, F, k) (op_bind (fill_interior z n xs) f) Q"
  using assms
proof (induction xs arbitrary: m d es)
  case Nil
  have "m(n \<mapsto> d) = m" using Nil.prems(1) by (simp add: fun_upd_idem)
  then show ?case using Nil.prems(3) Nil.prems(6) [of d] by simp
next
  case (Cons x xs)
  obtain p key where x: "x = (p, key)" by (cases x)
  have ui: "upper_index (map entry_key es) (sint key) = length es"
    using Cons.prems(4) upper_index_last [of "map entry_key es" "sint key"] by (auto simp: x sorted_wrt_append entry_key_def)
  obtain d' where d': "insert_interior_cell key p d = Ok d'" "interior_page d' (es @ [x]) right" "content_offset d' = content_offset d - 12"
    using insert_interior_cell_ok [OF Cons.prems(3), of key p] Cons.prems(5) ui by (auto simp: x list_insert_def)
  have room: "interior_room d' = interior_room d - 14" "12 \<le> content_offset d"
    using interior_pageD(5) [OF d'(2)] interior_pageD(5) [OF Cons.prems(3)] d'(3) Cons.prems(5) by (auto simp: interior_room_def)
  have "runs (m(n \<mapsto> d'), F, k) (op_bind (fill_interior z n xs) f) Q"
  proof (rule Cons.IH [OF _ Cons.prems(2) d'(2)])
    fix d2 assume d2: "interior_page d2 ((es @ [x]) @ xs) right" "content_offset d2 + 12 * length xs = content_offset d'"
    then have "runs (m(n \<mapsto> d2), F, k) (f ()) Q" using room(2) d'(3) by (intro Cons.prems(6)) simp_all
    moreover have "m(n \<mapsto> d', n \<mapsto> d2) = m(n \<mapsto> d2)" by simp
    ultimately show "runs (m(n \<mapsto> d', n \<mapsto> d2), F, k) (f ()) Q" by metis
  qed (use Cons.prems(4,5) room in auto)
  then have "runs (m, F, k) (op_bind (update_page_res z n (insert_interior_cell key p)) (\<lambda>_. op_bind (fill_interior z n xs) f)) Q"
    by (rule runs_update [where d = d and d' = d', rotated 4]) (use Cons.prems(1,2) d'(1) interior_pageD(6) [OF d'(2)] in auto)
  then show ?case by (simp add: x op_bind_assoc)
qed

lemma fill_new_interior:
  assumes n: "m n = Some d" "n \<notin> F" "length d = PAGE_SIZE" and l: "length ts = Suc (length ks)" and k: "sorted_wrt (<) (map sint ks)"
    and room: "INTERIOR_HEADER_SIZE + 14 * length ks \<le> PAGE_SIZE"
    and Q: "\<And>d'. node_page d' ts ks \<Longrightarrow> runs (m(n \<mapsto> d'), F, j) (f ()) Q"
  shows "runs (m, F, j) (op_bind (modify_page z n (init_interior_page (root_page (last ts)))) (\<lambda>_. op_bind (fill_interior z n (zip (map root_page ts) ks)) f)) Q"
proof (rule runs_modify [where d = d])
  let ?d = "init_interior_page (root_page (last ts)) d" let ?es = "zip (map root_page ts) ks"
  note ii = init_interior [OF n(3), of "root_page (last ts)"]
  have r: "14 * length ?es \<le> interior_room ?d" using ii(2) interior_pageD(5) [OF ii(1)] room l by (simp add: interior_room_def)
  have s: "sorted_wrt (\<le>) (map entry_key ([] @ ?es))" using k l by (simp add: entry_keys_zip) (rule sorted_wrt_mono_rel [of _ "(<)"], auto)
  show "runs (m(n \<mapsto> ?d), F, j) (op_bind (fill_interior z n ?es) f) Q"
  proof (rule fill_interior_runs [OF _ n(2) ii(1) s r])
    fix d' assume d': "interior_page d' ([] @ ?es) (root_page (last ts))" "content_offset d' + 12 * length ?es = content_offset ?d"
    then have "runs (m(n \<mapsto> d'), F, j) (f ()) Q" using ii(2) l by (intro Q) (simp add: node_page_def)
    then show "runs (m(n \<mapsto> ?d, n \<mapsto> d'), F, j) (f ()) Q" by (simp only: fun_upd_upd)
  qed simp
qed (use n in \<open>auto simp: keeps_leaf\<close>)

lemma split_interior_runs:
  assumes n: "m n = Some d" "n \<notin> F" and d: "node_page d (pre @ t # post) (kpre @ kpost)" and l: "length pre = length kpre"
    and k: "sorted_wrt (<) (map sint (kpre @ k # kpost))"
    and Q: "\<And>tsl tsr ksl key ksr d1 d2 p. pre @ [t, t2] @ post = tsl @ tsr \<Longrightarrow> kpre @ k # kpost = ksl @ key # ksr \<Longrightarrow>
      node_page d1 tsl ksl \<Longrightarrow> node_page d2 tsr ksr \<Longrightarrow> fresh m F p \<Longrightarrow> Q (Ok (Split key p)) (m(n \<mapsto> d1, p \<mapsto> d2), F - {p}, j)"
  shows "runs (m, F, Suc j) (split_interior z n k (root_page t) (root_page t2)) Q"
proof -
  define ts where "ts = pre @ [t, t2] @ post"
  define ks where "ks = kpre @ k # kpost"
  define mid where "mid = split_mid (length ks) (length kpre)"
  define es where "es = zip (map root_page (pre @ t # post)) (kpre @ kpost)"
  define right_page where "right_page = root_page (last (pre @ t # post))"
  let ?es = "zip (map root_page (pre @ t # post)) (kpre @ kpost)" let ?cells = "zip (map root_page ts) ks"
  have ip: "interior_page d ?es (root_page (last (pre @ t # post)))" and l2: "length post = length kpost"
    using d l by (simp_all add: node_page_def)
  have room: "INTERIOR_HEADER_SIZE + 14 * length (kpre @ kpost) \<le> PAGE_SIZE" using node_page_room [OF d] by simp
  note e = entries_insert [OF l l2 k, of t]
  have pos: "split_position snd k ?es = length kpre"
    using e(1) by (simp add: split_position_def upper_index_def takeWhile_map o_def entry_key_def [abs_def] not_less)
  have ie: "interior_entries k (root_page t) (root_page t2) ?es (root_page (last (pre @ t # post))) = (?cells, root_page (last ts))"
    unfolding interior_entries_def Let_def pos ts_def ks_def using e(4) [of t2] by (simp split: if_splits)
  have len: "length ts = Suc (length ks)" "length ks = Suc (length (kpre @ kpost))" using l l2 by (simp_all add: ts_def ks_def)
  have mid: "mid < length ks" using split_mid_less [of "length (kpre @ kpost)"] len(2) by (simp add: mid_def)
  define tsl tsr ksl ksr where "tsl = take (Suc mid) ts" and "tsr = drop (Suc mid) ts" and "ksl = take mid ks" and "ksr = drop (Suc mid) ks"
  have ll: "length tsl = Suc (length ksl)" "length tsr = Suc (length ksr)" using mid len by (simp_all add: tsl_def tsr_def ksl_def ksr_def)
  have key: "kpre @ k # kpost = ksl @ (ks ! mid) # ksr" using mid by (simp add: ksl_def ksr_def id_take_nth_drop ks_def [symmetric])
  have srt: "sorted_wrt (<) (map sint ksl)" "sorted_wrt (<) (map sint ksr)" using k unfolding key by (simp_all add: sorted_wrt_append)
  have rm: "INTERIOR_HEADER_SIZE + 14 * length ksl \<le> PAGE_SIZE" "INTERIOR_HEADER_SIZE + 14 * length ksr \<le> PAGE_SIZE"
    using room mid len(2) by (simp_all add: ksl_def ksr_def)
  have c: "snd (?cells ! mid) = ks ! mid" "take mid ?cells = zip (map root_page tsl) ksl" "drop (mid + 1) ?cells = zip (map root_page tsr) ksr"
      "fst (?cells ! mid) = root_page (last tsl)" "root_page (last ts) = root_page (last tsr)" "length ?cells = length ks"
    using mid len by (simp_all add: tsl_def tsr_def ksl_def ksr_def take_zip drop_zip take_map drop_map take_Suc_conv_app_nth last_drop zip_append1)
  have right: "runs (m(n \<mapsto> d1), F, Suc j) (op_bind (allocate_page z) (\<lambda>p. op_bind (modify_page z p (init_interior_page (root_page (last tsr)))) (\<lambda>_.
      op_bind (fill_interior z p (zip (map root_page tsr) ksr)) (\<lambda>_. op_return (Split (ks ! mid) p))))) Q" if d1: "node_page d1 tsl ksl" for d1
  proof (rule runs_allocate)
    fix p assume p: "p \<noteq> 0" "p \<in> F \<or> (m(n \<mapsto> d1)) p = None"
    then have fr: "fresh m F p" using n by (auto simp: fresh_def split: if_splits)
    show "runs (m(n \<mapsto> d1, p \<mapsto> zeros), F - {p}, j) (op_bind (modify_page z p (init_interior_page (root_page (last tsr)))) (\<lambda>_.
      op_bind (fill_interior z p (zip (map root_page tsr) ksr)) (\<lambda>_. op_return (Split (ks ! mid) p)))) Q"
    proof (rule fill_new_interior [where d = zeros, OF _ _ _ ll(2) srt(2) rm(2)])
      fix d2 assume d2: "node_page d2 tsr ksr"
      have "ts = tsl @ tsr" by (simp add: tsl_def tsr_def)
      then have "Q (Ok (Split (ks ! mid) p)) (m(n \<mapsto> d1, p \<mapsto> d2), F - {p}, j)" using key d1 d2 fr by (intro Q) (simp_all add: ts_def)
      then show "runs (m(n \<mapsto> d1, p \<mapsto> zeros, p \<mapsto> d2), F - {p}, j) (op_return (Split (ks ! mid) p)) Q" by (simp only: fun_upd_upd) (rule runs_return)
    qed simp_all
  qed
  have "runs (m, F, Suc j) (op_bind (modify_page z n (init_interior_page (root_page (last tsl)))) (\<lambda>_. op_bind (fill_interior z n (zip (map root_page tsl) ksl)) (\<lambda>_.
      op_bind (allocate_page z) (\<lambda>p. op_bind (modify_page z p (init_interior_page (root_page (last tsr)))) (\<lambda>_.
      op_bind (fill_interior z p (zip (map root_page tsr) ksr)) (\<lambda>_. op_return (Split (ks ! mid) p))))))) Q"
    by (rule fill_new_interior [where d = d, OF n interior_pageD(6) [OF ip] ll(1) srt(1) rm(1) right])
  moreover have "collect_interior_cells d 0 (cell_count d) = Ok es" using collect_interior [OF ip, of 0 "cell_count d"] interior_pageD(5) [OF ip] l l2 by (simp add: es_def)
  moreover have "right_child d = right_page" using interior_pageD(3) [OF ip] by (simp add: right_page_def)
  ultimately show ?thesis unfolding split_interior_def
    by - (rule runs_get_page [where m = m, OF n(1)], rule runs_lift_bind, assumption,
      simp only: ie [folded es_def right_page_def] pos [folded es_def] prod.case Let_def c(6) mid_def [symmetric] c(1-5))
qed

section \<open>The descent\<close>

definition insert_fits :: "page_map \<Rightarrow> btree \<Rightarrow> i64 \<Rightarrow> bytes \<Rightarrow> bool" where
  "insert_fits m t r bs = (case leaf_for r t of (n, ss) \<Rightarrow> case m n of None \<Rightarrow> False | Some d \<Rightarrow> leaf_fits d r bs ss)"

lemma node_kept:
  assumes fo: "forest m F [Node n ts ks] lo [hi] prev nxt" and g: "grown m F ts nxt r bs m' F' ts'"
  shows "m' n = m n" "n \<notin> F'"
proof -
  note B = forest_below [OF fo]
  have "\<not> fresh m F n" using forest_pages_kept [OF fo, of n] node_pages(1) [of n ts ks] by simp
  then have "n \<notin> set (forest_pages ts')" using g B(2) by (auto simp: grown_def)
  then show "m' n = m n" "n \<notin> F'" using g B(4,5) by (auto simp: grown_def)
qed

lemma node_page_cong: "map root_page ts = map root_page ts' \<Longrightarrow> node_page d ts ks = node_page d ts' ks"
proof -
  assume a: "map root_page ts = map root_page ts'"
  have "ts \<noteq> [] \<Longrightarrow> root_page (last ts) = root_page (last ts')" using a by (metis last_map map_is_Nil_conv)
  moreover have "length ts = length ts'" using a by (metis length_map)
  ultimately show ?thesis using a by (cases "ts = []") (auto simp: node_page_def)
qed

text \<open>What a node does with its grown child.\<close>

lemma node_insert_runs:
  assumes fo: "forest m F [Node n ts ks] lo [hi] prev nxt" and ts: "ts = pre @ t # post" and ks: "ks = kpre @ kpost" and len: "length pre = length kpre"
    and hi': "map sint kpost @ [hi] = hi' # us" and r: "last (lo # map sint kpre) \<le> sint r" "sint r < hi'"
    and ir: "result_is ir ts' ks'"
    and fo': "forest m' F' ts' (last (lo # map sint kpre)) (map sint ks' @ [hi']) (last (prev # forest_leaves pre)) (hd (forest_leaves post @ [nxt]))"
    and g: "grown m F [t] (hd (forest_leaves post @ [nxt])) r bs m' F' ts'"
  shows "runs (m', F', Suc k) (case ir of Done \<Rightarrow> op_return Done | Split divider p \<Rightarrow> insert_divider z n (root_page t) divider p) (inserted m F [Node n ts ks] lo hi prev nxt r bs k)"
    (is "runs _ _ ?Q")
proof -
  note B = forest_below [OF fo]
  have us: "map sint ks @ [hi] = map sint kpre @ hi' # us" using ks hi' by simp
  have fts: "forest m F (pre @ t # post) lo (map sint kpre @ hi' # us) prev nxt" using B(1) ts us by simp
  have bnd: "map sint (kpre @ ks' @ kpost) @ [hi] = map sint kpre @ (map sint ks' @ [hi']) @ us" using hi' by simp
  have F1: "forest m' F' (pre @ ts' @ post) lo (map sint (kpre @ ks' @ kpost) @ [hi]) prev nxt"
    and G1: "grown m F ts nxt r bs m' F' (pre @ ts' @ post)"
    using forest_extend [OF fts _ fo' _ g r] len unfolding bnd ts by simp_all
  obtain d where d: "m n = Some d" "node_page d ts ks" using B(6) by auto
  have m'n: "m' n = Some d" "n \<notin> F'" using node_kept [OF fo G1] d(1) by simp_all
  have lts: "length ts' = Suc (length ks')" using ordered_kids_length [OF forestD(2) [OF fo']] by simp
  have rt: "root_page (hd ts') = root_page t" using g by (simp add: grown_def)
  have srt: "sorted_wrt (<) (map sint (kpre @ ks' @ kpost))" using ordered_kids_bounds [OF forestD(2) [OF F1]] by (simp add: sorted_wrt_append)
  have lpost: "length post = length kpost" using d(2) ts ks len by (simp add: node_page_def)
  show ?thesis
  proof (cases ir)
    case Done
    then have ks': "ks' = []" using ir by simp
    then obtain t' where t': "ts' = [t']" using lts by (cases ts') auto
    have np: "node_page d (pre @ ts' @ post) (kpre @ ks' @ kpost)"
      using d(2) rt t' ts ks ks' node_page_cong [of ts "pre @ ts' @ post" d ks] by simp
    have "m'(n \<mapsto> d) = m'" using m'n(1) by (simp add: fun_upd_idem)
    then have "?Q (Ok Done) (m', F', Suc k)"
      using node_grown [OF fo F1 G1 np] unfolding inserted_def by (intro exI [of _ "[]"] exI conjI) auto
    with Done show ?thesis by (simp add: runs_return)
  next
    case (Split divider p)
    then obtain t1 t2 where ts': "ks' = [divider]" "ts' = [t1, t2]" "root_page t2 = p" using ir by auto
    have rt1: "root_page t1 = root_page t" using rt ts'(2) by simp
    have d1: "node_page d (pre @ t1 # post) (kpre @ kpost)"
      using d(2) rt1 ts ks node_page_cong [of "pre @ t1 # post" ts d ks] by simp
    have srt': "sorted_wrt (<) (map sint (kpre @ divider # kpost))" using srt ts'(1) by simp
    note F2 = F1 [unfolded ts'(1,2)] and G2 = G1 [unfolded ts'(1,2)]
    have "runs (m', F', Suc k) (insert_divider z n (root_page t1) divider (root_page t2)) ?Q"
    proof (cases "14 \<le> interior_room d")
      case True
      show ?thesis
      proof (rule insert_divider_runs [where m = m', OF m'n d1 len srt' True])
        fix d' assume "node_page d' (pre @ [t1, t2] @ post) (kpre @ divider # kpost)"
        then have "node_page d' (pre @ [t1, t2] @ post) (kpre @ [divider] @ kpost)" by simp
        from node_grown [OF fo F2 G2 this] show "?Q (Ok Done) (m'(n \<mapsto> d'), F', Suc k)"
          unfolding inserted_def by (intro exI [of _ "[]"] exI conjI) auto
      qed
    next
      case False
      then have full: "\<not> 12 + 2 \<le> content_offset d - (INTERIOR_HEADER_SIZE + cell_count d * 2)" by (simp add: interior_room_def mult.commute)
      have "runs (m', F', Suc k) (split_interior z n divider (root_page t1) (root_page t2)) ?Q"
      proof (rule split_interior_runs [where m = m', OF m'n d1 len srt'])
        fix tsl tsr ksl key ksr e1 e2 q
        assume a: "pre @ [t1, t2] @ post = tsl @ tsr" "kpre @ divider # kpost = ksl @ key # ksr" "node_page e1 tsl ksl" "node_page e2 tsr ksr" "fresh m' F' q"
        have "kpre @ [divider] @ kpost = ksl @ key # ksr" using a(2) by simp
        from node_split_grown [OF fo F2 G2 a(1) this a(3-5)]
        show "?Q (Ok (Split key q)) (m'(n \<mapsto> e1, q \<mapsto> e2), F' - {q}, k)"
          unfolding inserted_def by (intro exI [of _ "[key]"] exI [of _ "[Node n tsl ksl, Node q tsr ksr]"] exI conjI) auto
      qed
      then show ?thesis unfolding insert_divider_def
        by - (rule runs_get_page [where m = m', OF m'n(1)], simp only: full if_False)
    qed
    then show ?thesis using Split ts'(3) rt1 by simp
  qed
qed

end
