(* ===== verification/BTreeTable.thy ===== *)
theory BTreeTable
  imports BTreeNodes
begin

text \<open>
  A B+tree as a table of rows: what creating it, inserting, looking up, scanning, counting, updating and deleting do to a
  pager that holds it.
\<close>

section \<open>Insertion\<close>

lemma inserted_mono: "k \<le> j \<Longrightarrow> inserted m F ts lo hi prev nxt r bs j res h \<Longrightarrow> inserted m F ts lo hi prev nxt r bs k res h"
  unfolding inserted_def using le_trans by blast

lemma insert_page_runs:
  "forest m F [t] lo [hi] prev nxt \<Longrightarrow> lo \<le> sint r \<Longrightarrow> sint r < hi \<Longrightarrow> sint r \<notin> stored_key ` set (rows t) \<Longrightarrow> length bs < 2 ^ 32 \<Longrightarrow>
     height t \<le> b \<Longrightarrow> insert_fits m t r bs \<Longrightarrow>
     runs (m, F, k + height t + chain_len bs) (insert_into_page b z (root_page t) r bs) (inserted m F [t] lo hi prev nxt r bs k)"
proof (induction t arbitrary: lo hi prev nxt b k)
  case (Leaf n ss)
  obtain b' where b: "b = Suc b'" using Leaf.prems(6) by (cases b) auto
  obtain d where d: "m n = Some d" "leaf_page d (map stored_cell ss)" using Leaf.prems(1) by (auto simp: forest_def)
  have "runs (m, F, Suc k + chain_len bs) (insert_into_leaf z n d r bs) (inserted m F [Leaf n ss] lo hi prev nxt r bs k)"
    using Leaf.prems d by (intro insert_leaf_runs) (simp_all add: insert_fits_def)
  then show ?case using d Leaf.prems(5) leaf_pageD(2) [OF d(2)] by (auto simp: b intro!: runs_get_page)
next
  case (Node n ts ks)
  note B = forest_below [OF Node.prems(1)]
  obtain b' where b: "b = Suc b'" using Node.prems(6) by (cases b) auto
  obtain d where d: "m n = Some d" "node_page d ts ks" using B(6) by auto
  have len: "length ts = Suc (length ks)" and ip: "interior_page d (zip (map root_page ts) ks) (root_page (last ts))" using d(2) by (simp_all add: node_page_def)
  have "ordered_kids lo ts (map sint ks @ [hi])" using forestD(2) [OF B(1)] .
  then obtain pre t post kpre kpost lo' hi' us where c: "ts = pre @ t # post" "ks = kpre @ kpost" "length pre = length kpre"
      "length pre = upper_index (map sint ks) (sint r)" "ordered_kids lo pre (map sint kpre)" "lo' = last (lo # map sint kpre)" "ordered lo' hi' t"
      "map sint kpost @ [hi] = hi' # us" "ordered_kids hi' post us" "lo' \<le> sint r" "sint r < hi'"
    by (rule descend [OF _ Node.prems(2,3) len])
  have t: "t \<in> set ts" using c(1) by simp
  have us: "map sint ks @ [hi] = map sint kpre @ hi' # us" using c(2,8) by simp
  have "forest m F (pre @ t # post) lo (map sint kpre @ hi' # us) prev nxt" using B(1) c(1) us by simp
  then have ft: "forest m F [t] lo' [hi'] (last (prev # forest_leaves pre)) (hd (forest_leaves post @ [nxt]))"
    unfolding c(6) by (rule forest_child) (simp add: c(3))
  have new: "sint r \<notin> stored_key ` set (rows t)" using Node.prems(4) c(1) by auto
  have fits: "insert_fits m t r bs" using Node.prems(7) c(1,4) by (simp add: insert_fits_def Let_def nth_append del: map_append split: if_splits)
  define H where "H = foldr max (map height ts) 0"
  have h: "height t \<le> H" using height_child [OF t] by (simp add: H_def)
  have "runs (m, F, (Suc k + (H - height t)) + height t + chain_len bs) (insert_into_page b' z (root_page t) r bs)
      (inserted m F [t] lo' hi' (last (prev # forest_leaves pre)) (hd (forest_leaves post @ [nxt])) r bs (Suc k + (H - height t)))"
    using Node.prems(6) h b by (intro Node.IH [OF t ft c(10,11) new Node.prems(5) _ fits]) (simp add: H_def)
  moreover have "(Suc k + (H - height t)) + height t + chain_len bs = k + height (Node n ts ks) + chain_len bs" using h by (simp add: H_def)
  ultimately have IH: "runs (m, F, k + height (Node n ts ks) + chain_len bs) (insert_into_page b' z (root_page t) r bs)
      (inserted m F [t] lo' hi' (last (prev # forest_leaves pre)) (hd (forest_leaves post @ [nxt])) r bs (Suc k + (H - height t)))" by metis
  have "runs (m, F, k + height (Node n ts ks) + chain_len bs) (op_bind (insert_into_page b' z (root_page t) r bs)
      (\<lambda>ir. case ir of Done \<Rightarrow> op_return Done | Split divider p \<Rightarrow> insert_divider z n (root_page t) divider p)) (inserted m F [Node n ts ks] lo hi prev nxt r bs k)"
  proof (rule runs_bind [OF IH])
    fix ir h' assume "inserted m F [t] lo' hi' (last (prev # forest_leaves pre)) (hd (forest_leaves post @ [nxt])) r bs (Suc k + (H - height t)) (Ok ir) h'"
    then obtain m' F' k' ts' ks' where a: "h' = (m', F', k')" "Suc k + (H - height t) \<le> k'" "result_is ir ts' ks'"
        "forest m' F' ts' lo' (map sint ks' @ [hi']) (last (prev # forest_leaves pre)) (hd (forest_leaves post @ [nxt]))"
        "grown m F [t] (hd (forest_leaves post @ [nxt])) r bs m' F' ts'" by (auto simp: inserted_def)
    then obtain j where j: "k' = Suc j" "k \<le> j" by (cases k') auto
    have "runs (m', F', Suc j) (case ir of Done \<Rightarrow> op_return Done | Split divider p \<Rightarrow> insert_divider z n (root_page t) divider p) (inserted m F [Node n ts ks] lo hi prev nxt r bs j)"
      using a(4) c(6,10,11) by (intro node_insert_runs [OF Node.prems(1) c(1-3,8) _ _ a(3) _ a(5)]) simp_all
    then show "runs h' (case ir of Done \<Rightarrow> op_return Done | Split divider p \<Rightarrow> insert_divider z n (root_page t) divider p) (inserted m F [Node n ts ks] lo hi prev nxt r bs k)"
      unfolding a(1) j(1) by (rule runs_mono) (rule inserted_mono [OF j(2)])
  qed (auto simp: inserted_def)
  then show ?case using d(1) find_child_tree [OF ip c(1) len c(4)] interior_pageD(2) [OF ip] Node.prems(5)
    by (auto simp: b intro!: runs_get_page runs_lift_bind)
qed

text \<open>A whole tree is a forest of one tree without neighbours.\<close>

lemma table_forest: "table_in m F t \<longleftrightarrow> forest m F [t] (- (2 ^ 63)) [2 ^ 63] 0 0"
  by (auto simp: table_in_def forest_def)

text \<open>A table with one more row: its rows, its pages (old ones and fresh ones), and all other pages as before.\<close>

definition row_added :: "page_map \<Rightarrow> u32 set \<Rightarrow> btree \<Rightarrow> i64 \<Rightarrow> bytes \<Rightarrow> page_map \<Rightarrow> u32 set \<Rightarrow> btree \<Rightarrow> bool" where
  "row_added m F t r bs m' F' t' \<longleftrightarrow> table_in m' F' t' \<and> (\<exists>ps. rows t' = insort_key stored_key (r, bs, ps) (rows t))
     \<and> set (all_pages t) \<subseteq> set (all_pages t') \<and> (\<forall>p \<in> set (all_pages t'). p \<in> set (all_pages t) \<or> fresh m F p)
     \<and> F' = F - set (all_pages t') \<and> (\<forall>p. p \<notin> set (all_pages t') \<longrightarrow> p \<noteq> 0 \<longrightarrow> m' p = m p)"

lemma grown_table: "forest m' F' [t'] (- (2 ^ 63)) [2 ^ 63] 0 0 \<Longrightarrow> grown m F [t] 0 r bs m' F' [t'] \<Longrightarrow> row_added m F t r bs m' F' t'"
  by (auto simp: row_added_def grown_def table_forest)

lemma new_root_runs:
  assumes fo: "forest m' F' [t1, t2] (- (2 ^ 63)) [sint divider, 2 ^ 63] 0 0" and g: "grown m F [t] 0 r bs m' F' [t1, t2]"
    and Q: "\<And>n d. row_added m F t r bs (m'(n \<mapsto> d)) (F' - {n}) (Node n [t1, t2] [divider]) \<Longrightarrow> Q (Ok n) (m'(n \<mapsto> d), F' - {n}, k)"
  shows "runs (m', F', Suc k) (new_root z (root_page t1) divider (root_page t2)) Q"
  unfolding new_root_def
proof (rule runs_allocate)
  fix n assume n: "n \<noteq> 0" "n \<in> F' \<or> m' n = None"
  note D = forestD [OF fo]
  let ?p = "init_interior_page (root_page t2) zeros"
  note ii = init_interior [OF length_zeros, of "root_page t2"]
  have "14 \<le> interior_room ?p" using ii(2) interior_pageD(5) [OF ii(1)] by (simp add: interior_room_def page_consts)
  from insert_interior_cell_ok [OF ii(1) this, of divider "root_page t1"] ii(2)
  obtain d where d: "insert_interior_cell divider (root_page t1) ?p = Ok d" "interior_page d [(root_page t1, divider)] (root_page t2)" "content_offset d = PAGE_SIZE - 12"
    by (auto simp: upper_index_def list_insert_def)
  then have np: "node_page d [t1, t2] [divider]" by (simp add: node_page_def page_consts)
  have np': "n \<notin> set (forest_pages [t1, t2])" using forest_pages_kept [OF fo, of n] n by (auto simp: fresh_def)
  have fr: "fresh m F n" using n np' g by (auto simp: grown_def fresh_def)
  have "tree_in (m'(n \<mapsto> d)) u" if "u \<in> {t1, t2}" for u
    using D(1) that np' by - (rule tree_in_cong [of m' u], auto)
  then have "tree_in (m'(n \<mapsto> d)) (Node n [t1, t2] [divider])" using np unfolding tree_in_node by auto
  moreover have "linked (m'(n \<mapsto> d)) 0 (forest_leaves [t1, t2]) 0"
    using D(3) np' forest_leaves_sub [of "[t1, t2]"] by (intro linked_cong [of m' _ _ _ "m'(n \<mapsto> d)"]) auto
  moreover have "ordered (- (2 ^ 63)) (2 ^ 63) (Node n [t1, t2] [divider])" using D(2) by simp
  moreover have "distinct (all_pages (Node n [t1, t2] [divider]))" "0 \<notin> set (all_pages (Node n [t1, t2] [divider]))"
      "set (all_pages (Node n [t1, t2] [divider])) \<inter> (F' - {n}) = {}"
    using D(4-6) np' n(1) unfolding node_pages by auto
  ultimately have "table_in (m'(n \<mapsto> d)) (F' - {n}) (Node n [t1, t2] [divider])" by (simp add: table_in_def del: tree_in.simps ordered.simps)
  then have "row_added m F t r bs (m'(n \<mapsto> d)) (F' - {n}) (Node n [t1, t2] [divider])"
    using g fr unfolding row_added_def grown_def node_pages by auto
  from Q [OF this] have "runs (m'(n \<mapsto> d), F' - {n}, k) (op_return n) Q" by (rule runs_return)
  moreover have "m'(n \<mapsto> zeros, n \<mapsto> ?p, n \<mapsto> d) = m'(n \<mapsto> d)" by simp
  ultimately have last: "runs (m'(n \<mapsto> zeros, n \<mapsto> ?p, n \<mapsto> d), F' - {n}, k) (op_return n) Q" by metis
  show "runs (m'(n \<mapsto> zeros), F' - {n}, k) (op_bind (modify_page z n (init_interior_page (root_page t2))) (\<lambda>_.
      op_bind (update_page_res z n (insert_interior_cell divider (root_page t1))) (\<lambda>_. op_return n))) Q"
    by (rule runs_modify [where d = zeros], simp, simp, rule keeps_leaf, rule runs_update [where d = ?p and d' = d])
      (use d(1) interior_pageD(6) [OF d(2)] last in auto)
qed

lemma insert_payload_runs:
  assumes t: "table_in m F t" and new: "contents t r = None" and len: "length bs < 2 ^ 32" and fits: "insert_fits m t r bs"
    and Q: "\<And>m' F' k' t'. row_added m F t r bs m' F' t' \<Longrightarrow> k \<le> k' \<Longrightarrow> Q (Ok (root_page t')) (m', F', k')"
  shows "runs (m, F, k + Suc (height t) + chain_len bs) (insert_payload z (root_page t) r bs) Q"
proof -
  have fo: "forest m F [t] (- (2 ^ 63)) [2 ^ 63] 0 0" using t by (simp add: table_forest)
  have new': "sint r \<notin> stored_key ` set (rows t)" using contents_rows(2) t new unfolding table_in_def by blast
  have "runs (m, F, k + Suc (height t) + chain_len bs) (with_bound (\<lambda>b. insert_into_page b z (root_page t) r bs)) (inserted m F [t] (- (2 ^ 63)) (2 ^ 63) 0 0 r bs (Suc k))"
  proof (rule runs_bound)
    fix b assume "card (dom m) < b"
    from insert_page_runs [OF fo sint_i64_range new' len table_in_bounds(1) [OF t this] fits, of "Suc k" z]
    show "runs (m, F, k + Suc (height t) + chain_len bs) (insert_into_page b z (root_page t) r bs) (inserted m F [t] (- (2 ^ 63)) (2 ^ 63) 0 0 r bs (Suc k))" by simp
  qed
  then show ?thesis unfolding insert_payload_def
  proof (rule runs_bind)
    fix ir h assume "inserted m F [t] (- (2 ^ 63)) (2 ^ 63) 0 0 r bs (Suc k) (Ok ir) h"
    then obtain m' F' k' ts ks where a: "h = (m', F', k')" "Suc k \<le> k'" "result_is ir ts ks" "forest m' F' ts (- (2 ^ 63)) (map sint ks @ [2 ^ 63]) 0 0" "grown m F [t] 0 r bs m' F' ts"
      by (auto simp: inserted_def)
    have l: "length ts = Suc (length ks)" using ordered_kids_length [OF forestD(2) [OF a(4)]] by simp
    have rt: "root_page (hd ts) = root_page t" using a(5) by (simp add: grown_def)
    show "runs h (case ir of Done \<Rightarrow> op_return (root_page t) | Split divider p \<Rightarrow> new_root z (root_page t) divider p) Q"
    proof (cases ir)
      case Done
      then obtain t' where "ts = [t']" "ks = []" using a(3) l by (cases ts) auto
      then show ?thesis using Q [of m' F' t' k'] grown_table [of m' F' t' m F t r bs] a rt Done by (simp add: runs_return)
    next
      case (Split divider p)
      then obtain t1 t2 where ts: "ts = [t1, t2]" "ks = [divider]" "root_page t2 = p" using a(3) by auto
      obtain j where j: "k' = Suc j" "k \<le> j" using a(2) by (cases k') auto
      have "runs (m', F', Suc j) (new_root z (root_page t1) divider (root_page t2)) Q"
      proof (rule new_root_runs)
        show "forest m' F' [t1, t2] (- (2 ^ 63)) [sint divider, 2 ^ 63] 0 0" "grown m F [t] 0 r bs m' F' [t1, t2]" using a(4,5) ts by simp_all
        fix n d assume "row_added m F t r bs (m'(n \<mapsto> d)) (F' - {n}) (Node n [t1, t2] [divider])"
        from Q [OF this j(2)] show "Q (Ok n) (m'(n \<mapsto> d), F' - {n}, j)" by simp
      qed
      then show ?thesis using Split ts rt a(1) j(1) by simp
    qed
  qed (auto simp: inserted_def)
qed

end
