(* ===== verification/RowTable.thy ===== *)
theory RowTable
  imports ValueTypes
begin

text \<open>
  What a table promises to the virtual machine. Its content is a list of rows in the order of their rowids. The contract
  \<open>row_table\<close> relates the operations to that list; in it, a client that inserts, deletes, looks up, scans and counts in any order
  sees what the list gives. The B+tree instantiates it in theory \<open>BTreeRows\<close>.
\<close>

type_synonym row_list = "(i64 \<times> row) list"

definition rowid_key :: "i64 \<times> row \<Rightarrow> int" where
  "rowid_key x = sint (fst x)"

text \<open>The operations of an implementation, each with the root of the table; an insertion may move the root.\<close>

record 's table_impl =
  t_fits :: "u32 \<Rightarrow> i64 \<Rightarrow> row \<Rightarrow> 's \<Rightarrow> bool"
  t_insert :: "u32 \<Rightarrow> i64 \<Rightarrow> row \<Rightarrow> 's \<Rightarrow> u32 res \<times> 's"
  t_delete :: "u32 \<Rightarrow> i64 \<Rightarrow> 's \<Rightarrow> (bool \<times> u32) res \<times> 's"
  t_find :: "u32 \<Rightarrow> i64 \<Rightarrow> 's \<Rightarrow> (i64 \<times> row) option res \<times> 's"
  t_scan :: "u32 \<Rightarrow> 's \<Rightarrow> row_list res \<times> 's"
  t_scan_back :: "u32 \<Rightarrow> 's \<Rightarrow> row_list res \<times> 's"
  t_count :: "u32 \<Rightarrow> 's \<Rightarrow> nat res \<times> 's"

datatype table_op = InsertRow i64 row | DeleteRow i64 | FindRow i64 | ScanRows | ScanBack | CountRows

text \<open>
  A client with the root it was last given and the rows it expects. The flag turns false when an outcome is not the expected one. A
  rowid that is in the table, a row that is not well-formed, and a row that does not fit are not inserted.
\<close>

fun table_client_step :: "'s table_impl \<Rightarrow> table_op \<Rightarrow> 's \<times> u32 \<times> row_list \<times> bool \<Rightarrow> 's \<times> u32 \<times> row_list \<times> bool" where
  "table_client_step impl (InsertRow r row) (s, root, xs, fine) =
     (if r \<in> fst ` set xs \<or> \<not> wf_row row \<or> \<not> t_fits impl root r row s then (s, root, xs, fine)
      else case t_insert impl root r row s of
          (Ok root', s') \<Rightarrow> (s', root', insort_key rowid_key (r, row) xs, fine)
        | (_, s') \<Rightarrow> (s', root, xs, False))"
| "table_client_step impl (DeleteRow r) (s, root, xs, fine) =
     (case t_delete impl root r s of (res, s') \<Rightarrow> (s', root, filter (\<lambda>x. fst x \<noteq> r) xs, fine \<and> res = Ok (r \<in> fst ` set xs, root)))"
| "table_client_step impl (FindRow r) (s, root, xs, fine) =
     (case t_find impl root r s of (res, s') \<Rightarrow> (s', root, xs, fine \<and> res = Ok (map_option (Pair r) (map_of xs r))))"
| "table_client_step impl ScanRows (s, root, xs, fine) = (case t_scan impl root s of (res, s') \<Rightarrow> (s', root, xs, fine \<and> res = Ok xs))"
| "table_client_step impl ScanBack (s, root, xs, fine) = (case t_scan_back impl root s of (res, s') \<Rightarrow> (s', root, xs, fine \<and> res = Ok (rev xs)))"
| "table_client_step impl CountRows (s, root, xs, fine) = (case t_count impl root s of (res, s') \<Rightarrow> (s', root, xs, fine \<and> res = Ok (length xs)))"

definition table_client_run :: "'s table_impl \<Rightarrow> table_op list \<Rightarrow> 's \<times> u32 \<times> row_list \<times> bool \<Rightarrow> 's \<times> u32 \<times> row_list \<times> bool" where
  "table_client_run impl = fold (table_client_step impl)"

locale row_table =
  fixes holds :: "'s \<Rightarrow> u32 \<Rightarrow> row_list \<Rightarrow> bool" and impl :: "'s table_impl"
  assumes insert_law: "holds s root xs \<Longrightarrow> r \<notin> fst ` set xs \<Longrightarrow> wf_row row \<Longrightarrow> t_fits impl root r row s \<Longrightarrow>
      \<exists>root' s'. t_insert impl root r row s = (Ok root', s') \<and> holds s' root' (insort_key rowid_key (r, row) xs)"
    and delete_law: "holds s root xs \<Longrightarrow> \<exists>s'. t_delete impl root r s = (Ok (r \<in> fst ` set xs, root), s') \<and> holds s' root (filter (\<lambda>x. fst x \<noteq> r) xs)"
    and find_law: "holds s root xs \<Longrightarrow> \<exists>s'. t_find impl root r s = (Ok (map_option (Pair r) (map_of xs r)), s') \<and> holds s' root xs"
    and scan_law: "holds s root xs \<Longrightarrow> \<exists>s'. t_scan impl root s = (Ok xs, s') \<and> holds s' root xs"
    and scan_back_law: "holds s root xs \<Longrightarrow> \<exists>s'. t_scan_back impl root s = (Ok (rev xs), s') \<and> holds s' root xs"
    and count_law: "holds s root xs \<Longrightarrow> \<exists>s'. t_count impl root s = (Ok (length xs), s') \<and> holds s' root xs"
begin

lemma step_fine:
  assumes "holds s root xs"
  shows "\<exists>s' root' xs'. table_client_step impl t (s, root, xs, True) = (s', root', xs', True) \<and> holds s' root' xs'"
proof (cases t)
  case (InsertRow r row)
  then show ?thesis using insert_law [OF assms, of r row] assms by auto
next
  case (DeleteRow r)
  then show ?thesis using delete_law [OF assms, of r] by auto
next
  case (FindRow r)
  then show ?thesis using find_law [OF assms, of r] by auto
qed (use scan_law [OF assms] scan_back_law [OF assms] count_law [OF assms] in auto)

lemma run_fine: "holds s root xs \<Longrightarrow> \<exists>s' root' xs'. table_client_run impl ts (s, root, xs, True) = (s', root', xs', True) \<and> holds s' root' xs'"
  unfolding table_client_run_def
proof (induction ts arbitrary: s root xs)
  case (Cons t ts)
  from step_fine [OF Cons.prems] obtain s1 root1 xs1 where
    "table_client_step impl t (s, root, xs, True) = (s1, root1, xs1, True)" "holds s1 root1 xs1" by blast
  with Cons.IH show ?case by simp
qed simp

end

end
