(* ===== verification/BTreeRows.thy ===== *)
theory BTreeRows
  imports BTreeTable RowTable
begin

text \<open>
  The B+tree as a table: creation, the conditions under which a row fits, and the contract \<open>row_table\<close> on the operations
  of \<^verbatim>\<open>btree.rs\<close>.
\<close>

section \<open>Creation\<close>

lemma create_table_runs:
  assumes Q: "\<And>n d. fresh m F n \<Longrightarrow> leaf_room d = PAGE_SIZE - LEAF_HEADER_SIZE \<Longrightarrow> table_in (m(n \<mapsto> d)) (F - {n}) (Leaf n []) \<Longrightarrow> Q (Ok n) (m(n \<mapsto> d), F - {n}, k)"
  shows "runs (m, F, Suc k) (create_table z) Q"
  unfolding create_table_def
proof (rule runs_allocate)
  fix n assume n: "n \<noteq> 0" "n \<in> F \<or> m n = None"
  let ?d = "init_leaf_page zeros"
  note il = init_leaf [OF length_zeros]
  have "table_in (m(n \<mapsto> ?d)) (F - {n}) (Leaf n [])" using il n by (simp add: table_in_def all_pages_def)
  then have "Q (Ok n) (m(n \<mapsto> ?d), F - {n}, k)" using n init_leaf_room [OF length_zeros] by (intro Q) (auto simp: fresh_def)
  then have "runs (m(n \<mapsto> zeros, n \<mapsto> ?d), F - {n}, k) (op_return n) Q" by (simp add: runs_return)
  then show "runs (m(n \<mapsto> zeros), F - {n}, k) (op_bind (modify_page z n init_leaf_page) (\<lambda>_. op_return n)) Q"
    by (rule runs_modify [where d = zeros, rotated 3]) (auto simp: keeps_leaf)
qed

section \<open>Rows that fit\<close>

lemma slotted_sum:
  assumes sl: "slotted base d cs"
  shows "sum_list (map length cs) + content_offset d \<le> PAGE_SIZE"
proof -
  define I where "I i = {cell_ptr base d i ..< cell_ptr base d i + length (cs ! i)}" for i
  have "I i \<inter> I j = {}" if "i < length cs" "j < length cs" "i \<noteq> j" for i j
    using slottedD(8) [OF sl, of i j] slottedD(8) [OF sl, of j i] that by (auto simp: I_def cells_apart_def neq_iff)
  then have "card (\<Union>i < length cs. I i) = (\<Sum>i < length cs. card (I i))" by (intro card_UN_disjoint) (auto simp: I_def)
  also have "\<dots> = sum_list (map length cs)" by (simp add: I_def sum_list_sum_nth atLeast0LessThan)
  finally have "sum_list (map length cs) = card (\<Union>i < length cs. I i)" by simp
  also have "\<dots> \<le> card {content_offset d ..< PAGE_SIZE}"
    using slottedD(5,6) [OF sl] by (intro card_mono) (fastforce simp: I_def)+
  finally show ?thesis using slottedD(4) [OF sl] by simp
qed

text \<open>The rows of a leaf fit into a leaf.\<close>

lemma leaf_cells_fit:
  assumes lp: "leaf_page d (map stored_cell ss)" and st: "\<forall>s \<in> set ss. stored_in m s"
  shows "cells_fit ss"
proof -
  have "cells_size ss = sum_list (map length (map stored_cell ss)) + 2 * length ss"
    using st by (induction ss) (simp_all add: cells_size_def stored_cell_len [of m])
  then show ?thesis using slotted_sum [OF leaf_pageD(1) [OF lp]] slottedD(3) [OF leaf_pageD(1) [OF lp]] by (simp add: cells_fit_def)
qed

text \<open>A row behind all others fits, unless the leaf at the end has been emptied.\<close>

lemma append_fits:
  assumes t: "table_in m F t" and r: "\<forall>s \<in> set (rows t). stored_key s < sint r" and ne: "snd (leaf_for r t) \<noteq> []"
  shows "insert_fits m t r bs"
proof -
  obtain n ss where lf: "leaf_for r t = (n, ss)" by (cases "leaf_for r t")
  have T: "tree_in m t" "ordered (- (2 ^ 63)) (2 ^ 63) t" using t by (simp_all add: table_in_def)
  have l: "(n, ss) \<in> set (leaf_rows t)" using leaf_for_rows [OF T sint_i64_range, of r] lf by simp
  obtain d where d: "m n = Some d" "leaf_page d (map stored_cell ss)" "\<forall>s \<in> set ss. stored_in m s"
    using tree_leaves [OF T(1) l] by (auto simp: leaf_holds_def)
  have less: "\<And>s. s \<in> set ss \<Longrightarrow> stored_key s < stored_key (r, bs, [])" using r leaf_rows_sub [OF l] by auto
  have "lower_index (map stored_key ss) (sint r) = length ss"
    using less by (simp add: lower_index_def takeWhile_eq_all_conv [THEN iffD2])
  then have "split_rows (r, bs, []) ss = (ss, [(r, bs, [])])"
    using insort_last [of ss stored_key "(r, bs, [])"] less by (simp add: split_rows_def split_mid_def)
  moreover have "cells_fit [(r, bs, [])]" by (simp add: cells_fit_def cells_size_def cell_len_def page_consts)
  ultimately show ?thesis using d ne lf leaf_cells_fit [OF d(2,3)] by (simp add: insert_fits_def leaf_fits_def)
qed

section \<open>Tables in a pager\<close>

text \<open>The rows of a tree are the encoded rows of a table.\<close>

definition encodes :: "stored list \<Rightarrow> row_list \<Rightarrow> bool" where
  "encodes ss xs \<longleftrightarrow> map (\<lambda>s. (fst s, fst (snd s))) ss = map (\<lambda>x. (fst x, serialize_row (snd x))) xs \<and> (\<forall>x \<in> set xs. wf_row (snd x))"

definition table_at :: "pager \<Rightarrow> u32 \<Rightarrow> row_list \<Rightarrow> bool" where
  "table_at pg root xs \<longleftrightarrow> (\<exists>m F k t. heap_is pg (m, F, k) \<and> table_in m F t \<and> root_page t = root \<and> encodes (rows t) xs)"

text \<open>A row fits: its encoding is short enough for a length field, the pages can hold it, and the database may grow by as many pages as it can need.\<close>

definition row_fits :: "u32 \<Rightarrow> i64 \<Rightarrow> row \<Rightarrow> pager \<Rightarrow> bool" where
  "row_fits root r row pg \<longleftrightarrow> length (serialize_row row) < 2 ^ 32 \<and>
     (\<forall>F t. frees pg F \<longrightarrow> table_in (page_value pg) F t \<longrightarrow> root_page t = root \<longrightarrow>
       insert_fits (page_value pg) t r (serialize_row row) \<and> room pg (Suc (height t) + chain_len (serialize_row row)))"

definition btree_impl :: "lz4 \<Rightarrow> pager table_impl" where
  "btree_impl z = \<lparr>t_fits = row_fits, t_insert = btree_insert z, t_delete = delete_by_rowid z, t_find = find_by_rowid z,
     t_scan = scan_all z, t_scan_back = scan_all_reverse z, t_count = count_rows z\<rparr>"

lemma encodes_keys: "encodes ss xs \<Longrightarrow> map fst ss = map fst xs"
proof -
  assume "encodes ss xs"
  then have "map fst (map (\<lambda>s. (fst s, fst (snd s))) ss) = map fst (map (\<lambda>x. (fst x, serialize_row (snd x))) xs)"
    unfolding encodes_def by (rule conjE) (simp only:)
  then show ?thesis by (simp add: comp_def)
qed

lemma encodes_Nil [simp]: "encodes [] xs \<longleftrightarrow> xs = []" "encodes ss [] \<longleftrightarrow> ss = []"
  by (auto simp: encodes_def)

lemma encodes_Cons [simp]: "encodes (s # ss) (x # xs) \<longleftrightarrow> fst s = fst x \<and> fst (snd s) = serialize_row (snd x) \<and> wf_row (snd x) \<and> encodes ss xs"
  by (auto simp: encodes_def)

lemma encodes_length: "encodes ss xs \<Longrightarrow> length ss = length xs"
  using encodes_keys by (metis length_map)

lemma encodes_induct [consumes 1, case_names Nil Cons]:
  assumes "encodes ss xs" and "P [] []"
    and "\<And>s ss x xs. fst s = fst x \<Longrightarrow> fst (snd s) = serialize_row (snd x) \<Longrightarrow> wf_row (snd x) \<Longrightarrow> encodes ss xs \<Longrightarrow> P ss xs \<Longrightarrow> P (s # ss) (x # xs)"
  shows "P ss xs"
  using encodes_length [OF assms(1)] assms(1)
  by (induction ss xs rule: list_induct2) (use assms(2,3) in auto)

lemma encodes_insort:
  assumes "encodes ss xs" and "wf_row row"
  shows "encodes (insort_key stored_key (r, serialize_row row, ps) ss) (insort_key rowid_key (r, row) xs)"
  using assms(1) by (induction rule: encodes_induct) (auto simp: assms(2) rowid_key_def stored_key_fst)

lemma encodes_filter: "encodes ss xs \<Longrightarrow> encodes (filter (\<lambda>s. fst s \<noteq> r) ss) (filter (\<lambda>x. fst x \<noteq> r) xs)"
  by (induction rule: encodes_induct) auto

lemma encodes_rev: "encodes ss xs \<Longrightarrow> encodes (rev ss) (rev xs)"
  by (auto simp: encodes_def rev_map [symmetric])

lemma decode_encoded: "wf_row row \<Longrightarrow> deserialize_row (serialize_row row) = Ok row"
  using deserialize_row_serialize [of row "[]"] by simp

lemma encodes_entries: "encodes ss xs \<Longrightarrow> res_map entry_of ss = Ok xs"
proof (induction rule: encodes_induct)
  case (Cons s ss x xs)
  then show ?case by (cases s; cases x) (simp add: decode_encoded)
qed simp

lemma encodes_contents:
  assumes "encodes (rows t) xs"
  shows "contents t r = map_option serialize_row (map_of xs r)" "map_of xs r = Some row \<Longrightarrow> wf_row row"
proof -
  have "map_of (map (\<lambda>(r, bs, ps). (r, bs)) ss) r = map_option serialize_row (map_of xs r) \<and> (\<forall>row. map_of xs r = Some row \<longrightarrow> wf_row row)" if "encodes ss xs" for ss
    using that by (induction rule: encodes_induct) (auto simp: split_def)
  from this [OF assms] show "contents t r = map_option serialize_row (map_of xs r)" "map_of xs r = Some row \<Longrightarrow> wf_row row" by (auto simp: contents_def)
qed

lemma encodes_lookup: "encodes (rows t) xs \<Longrightarrow> lookup_result t r = Ok (map_option (Pair r) (map_of xs r))"
  using encodes_contents [of t xs r] by (auto simp: lookup_result_def decode_encoded split: option.split)

lemma table_at_reads:
  assumes "table_at pg root xs" and "\<And>m F t. table_in m F t \<Longrightarrow> root_page t = root \<Longrightarrow> encodes (rows t) xs \<Longrightarrow> reads m p v"
  shows "\<exists>pg'. p pg = (v, pg') \<and> table_at pg' root xs"
proof -
  obtain m F k t where h: "heap_is pg (m, F, k)" "table_in m F t" "root_page t = root" "encodes (rows t) xs" using assms(1) by (auto simp: table_at_def)
  from assms(2) [OF h(2-4)] h(1) obtain pg' where "p pg = (v, pg')" "heap_is pg' (m, F, k)" by (rule readsE)
  then show ?thesis using h(2-4) by (auto simp: table_at_def)
qed

lemma count_rows_table: "table_in m F t \<Longrightarrow> reads m (count_rows z (root_page t)) (Ok (length (rows t)))"
  unfolding count_rows_def by (rule reads_bound) (auto intro!: count_rows_reads table_in_bounds simp: table_in_def)

lemma max_rowid_table: "table_in m F t \<Longrightarrow> reads m (max_rowid z (root_page t)) (Ok (last_rowid t))"
  unfolding max_rowid_def by (rule reads_bound) (auto intro!: max_rowid_reads table_in_bounds simp: table_in_def)

lemma insert_table_at:
  assumes t: "table_at pg root xs" and r: "r \<notin> fst ` set xs" and wf: "wf_row row" and fits: "row_fits root r row pg"
  shows "\<exists>root' pg'. btree_insert z root r row pg = (Ok root', pg') \<and> table_at pg' root' (insort_key rowid_key (r, row) xs)"
proof -
  obtain m F k0 t where h: "heap_is pg (m, F, k0)" "table_in m F t" "root_page t = root" "encodes (rows t) xs" using t by (auto simp: table_at_def)
  let ?bs = "serialize_row row" let ?k = "Suc (height t) + chain_len ?bs"
  have pg: "page_value pg = m" "frees pg F" using h(1) by (simp_all add: heap_is.simps)
  have f2: "length ?bs < 2 ^ 32" using fits unfolding row_fits_def by (rule conjunct1)
  have "insert_fits m t r ?bs \<and> room pg ?k"
    using fits [unfolded row_fits_def, THEN conjunct2, rule_format, OF pg(2), of t] h(2,3) by (simp only: pg(1))
  note f = this [THEN conjunct1] f2 this [THEN conjunct2]
  have hp: "heap_is pg (m, F, ?k)" using h(1) f(3) by (simp add: heap_is.simps)
  have new: "contents t r = None" using encodes_contents(1) [OF h(4)] r by (simp add: map_of_eq_None_iff)
  let ?Q = "\<lambda>res hp. \<exists>m' F' k' t'. res = Ok (root_page t') \<and> hp = (m', F', k') \<and> row_added m F t r ?bs m' F' t'"
  have "runs (m, F, 0 + Suc (height t) + chain_len ?bs) (insert_payload z (root_page t) r ?bs) ?Q"
    by (rule insert_payload_runs [OF h(2) new f(2,1)]) auto
  then have "runs (m, F, ?k) (insert_payload z root r ?bs) ?Q" by (simp add: h(3))
  from this hp obtain res pg' h' where a: "insert_payload z root r ?bs pg = (res, pg')" "heap_is pg' h'" "?Q res h'" by (rule runsE)
  then obtain m' F' k' t' where b: "res = Ok (root_page t')" "heap_is pg' (m', F', k')" "row_added m F t r ?bs m' F' t'" by auto
  then have "table_in m' F' t'" "encodes (rows t') (insort_key rowid_key (r, row) xs)"
    using encodes_insort [OF h(4) wf] by (auto simp: row_added_def)
  then show ?thesis using a(1) b by (auto simp: btree_insert_def table_at_def)
qed

lemma delete_table_at:
  assumes t: "table_at pg root xs"
  shows "\<exists>pg'. delete_by_rowid z root r pg = (Ok (r \<in> fst ` set xs, root), pg') \<and> table_at pg' root (filter (\<lambda>x. fst x \<noteq> r) xs)"
proof -
  obtain m F k t where h: "heap_is pg (m, F, k)" "table_in m F t" "root_page t = root" "encodes (rows t) xs" using t by (auto simp: table_at_def)
  from delete_runs [OF h(2), of k z r] h(1) obtain res pg' h' m' F' where
    a: "delete_by_rowid z (root_page t) r pg = (res, pg')" "heap_is pg' h'" "h' = (m', F', k)" "res = Ok (contents t r \<noteq> None, root_page t)" "deleted_ok m F t r m' F'"
    by (rule runsE) blast
  have found: "(contents t r \<noteq> None) = (r \<in> fst ` set xs)" using encodes_contents(1) [OF h(4), of r] by (auto simp: map_of_eq_None_iff)
  have "table_at pg' root (filter (\<lambda>x. fst x \<noteq> r) xs)" unfolding table_at_def
  proof (intro exI conjI)
    show "heap_is pg' (m', F', k)" using a(2) by (simp only: a(3))
    show "table_in m' F' (remove_row r t)" using a(5) by (simp add: deleted_ok_def)
    show "root_page (remove_row r t) = root" using h(3) by (simp add: remove_row_pages(1))
    show "encodes (rows (remove_row r t)) (filter (\<lambda>x. fst x \<noteq> r) xs)" using encodes_filter [OF h(4)] by (simp add: remove_row_rows)
  qed
  with a(1,4) show ?thesis unfolding found h(3) by blast
qed

interpretation bt: row_table table_at "btree_impl z" for z
proof
  fix pg root xs r row
  assume t: "table_at pg root xs"
  show "\<exists>root' pg'. t_insert (btree_impl z) root r row pg = (Ok root', pg') \<and> table_at pg' root' (insort_key rowid_key (r, row) xs)"
    if "r \<notin> fst ` set xs" "wf_row row" "t_fits (btree_impl z) root r row pg"
    using insert_table_at [OF t that(1,2)] that(3) by (simp add: btree_impl_def)
  show "\<exists>pg'. t_delete (btree_impl z) root r pg = (Ok (r \<in> fst ` set xs, root), pg') \<and> table_at pg' root (filter (\<lambda>x. fst x \<noteq> r) xs)"
    using delete_table_at [OF t] by (simp add: btree_impl_def)
  show "\<exists>pg'. t_find (btree_impl z) root r pg = (Ok (map_option (Pair r) (map_of xs r)), pg') \<and> table_at pg' root xs"
    using table_at_reads [OF t, of "find_by_rowid z root r"] find_by_rowid_reads encodes_lookup by (fastforce simp: btree_impl_def)
  show "\<exists>pg'. t_scan (btree_impl z) root pg = (Ok xs, pg') \<and> table_at pg' root xs"
    using table_at_reads [OF t, of "scan_all z root" "Ok xs"] scan_all_reads encodes_entries by (fastforce simp: btree_impl_def)
  show "\<exists>pg'. t_scan_back (btree_impl z) root pg = (Ok (rev xs), pg') \<and> table_at pg' root xs"
    using table_at_reads [OF t, of "scan_all_reverse z root" "Ok (rev xs)"] scan_all_reverse_reads encodes_entries [OF encodes_rev] by (fastforce simp: btree_impl_def)
  show "\<exists>pg'. t_count (btree_impl z) root pg = (Ok (length xs), pg') \<and> table_at pg' root xs"
    using table_at_reads [OF t, of "count_rows z root" "Ok (length xs)"] count_rows_table encodes_length by (fastforce simp: btree_impl_def)
qed

end
