(* ===== verification/BTreeClaims.thy ===== *)
theory BTreeClaims
  imports BTreeRows
begin

text \<open>
  What the B+tree guarantees: it is a list of rows in rowid order, its tables do not disturb each other, rows behind all others can
  always be added, and its loops end. At the end, two cases in which it goes wrong after deletions.
\<close>

section \<open>The row list\<close>

lemma create_table_at:
  assumes inv: "pager_inv pg" and fr: "frees pg F" and rm: "room pg 1"
  shows "\<exists>root pg'. create_table z pg = (Ok root, pg') \<and> table_at pg' root []"
proof -
  have h: "heap_is pg (page_value pg, F, Suc 0)" using assms by (simp add: heap_is.simps)
  have "runs (page_value pg, F, Suc 0) (create_table z) (\<lambda>res h. \<exists>m' F' k n. res = Ok n \<and> h = (m', F', k) \<and> table_in m' F' (Leaf n []))"
    by (rule create_table_runs) blast
  from this h obtain res pg' h' where a: "create_table z pg = (res, pg')" "heap_is pg' h'"
    "\<exists>m' F' k n. res = Ok n \<and> h' = (m', F', k) \<and> table_in m' F' (Leaf n [])" by (rule runsE)
  then obtain m' F' k n where b: "res = Ok n" "h' = (m', F', k)" "table_in m' F' (Leaf n [])" by blast
  have "table_at pg' n []" unfolding table_at_def
    using a(2) b(2,3) by (intro exI [of _ m'] exI [of _ F'] exI [of _ k] exI [of _ "Leaf n []"]) simp
  then show ?thesis using a(1) b(1) by blast
qed



section \<open>Several tables\<close>

lemma table_in_cong:
  assumes t: "table_in m F t" and m: "\<And>p. p \<in> set (all_pages t) \<Longrightarrow> m' p = m p" and F: "set (all_pages t) \<inter> F' = {}"
  shows "table_in m' F' t"
proof -
  have T: "tree_in m t" "linked m 0 (leaf_pages t) 0" using t by (simp_all add: table_in_def)
  have "tree_in m' t" by (rule tree_in_cong [OF T(1)]) (rule m)
  moreover have "linked m' 0 (leaf_pages t) 0"
    by (rule linked_cong [OF T(2)]) (use m leaf_pages_sub [of t] in \<open>auto simp: all_pages_def\<close>)
  ultimately show ?thesis using t F by (simp add: table_in_def)
qed


text \<open>Two tables in a new database.\<close>

lemma two_tables:
  "\<exists>pg m F n n' d. heap_is pg (m, F, 100) \<and> table_in m F (Leaf n []) \<and> table_in m F (Leaf n' []) \<and> n \<noteq> n' \<and> m n = Some d \<and> leaf_room d = PAGE_SIZE - LEAF_HEADER_SIZE"
proof -
  let ?pg = "pager_open_memory (replicate 16 7)"
  let ?Q = "\<lambda>res h. \<exists>m F n n' d. h = (m, F, 100) \<and> table_in m F (Leaf n []) \<and> table_in m F (Leaf n' []) \<and> n \<noteq> n' \<and> m n = Some d \<and> leaf_room d = PAGE_SIZE - LEAF_HEADER_SIZE"
  have h: "heap_is ?pg (page_value ?pg, {}, Suc (Suc 100))"
    using pager_open_memory_inv(1) memory_frees memory_room by (simp add: heap_is.simps)
  have second: "runs (m, F, Suc 100) (create_table z) ?Q"
    if "table_in m F (Leaf n [])" "m n = Some d" "leaf_room d = PAGE_SIZE - LEAF_HEADER_SIZE" for m F n d z
  proof (rule create_table_runs)
    fix n' d' assume n': "fresh m F n'" and t': "table_in (m(n' \<mapsto> d')) (F - {n'}) (Leaf n' [])"
    have ne: "n \<noteq> n'" using n' that(1,2) by (auto simp: fresh_def table_in_def all_pages_def)
    have "table_in (m(n' \<mapsto> d')) (F - {n'}) (Leaf n [])"
      using that(1) ne by (intro table_in_cong [OF that(1)]) (auto simp: all_pages_def table_in_def)
    then show "?Q (Ok n') (m(n' \<mapsto> d'), F - {n'}, 100)" using t' ne that(2,3) by auto
  qed
  have "runs (page_value ?pg, {}, Suc (Suc 100)) (op_bind (create_table z) (\<lambda>_. create_table z)) ?Q" for z
  proof (rule runs_bind)
    show "runs (page_value ?pg, {}, Suc (Suc 100)) (create_table z) (\<lambda>res h. \<exists>m F n d. res = Ok n \<and> h = (m, F, Suc 100) \<and> table_in m F (Leaf n []) \<and> m n = Some d \<and> leaf_room d = PAGE_SIZE - LEAF_HEADER_SIZE)"
      by (rule create_table_runs) auto
  qed (use second in auto)
  from this h show ?thesis by (rule runsE) blast
qed


section \<open>Appending\<close>

definition leaf_open :: "page_map \<Rightarrow> btree \<Rightarrow> i64 \<Rightarrow> bytes \<Rightarrow> bool" where
  "leaf_open m t r bs = (case leaf_for r t of (n, ss) \<Rightarrow> ss \<noteq> [] \<or> (case m n of None \<Rightarrow> False | Some d \<Rightarrow> cell_len bs + 2 \<le> leaf_room d))"

lemma insort_last_row: "(\<And>x. x \<in> set xs \<Longrightarrow> rowid_key x < rowid_key y) \<Longrightarrow> insort_key rowid_key y xs = xs @ [y]"
  by (rule insort_last) simp

text \<open>C7: A row whose rowid is larger than all others can always be added, whatever the sizes of the rows are, as long as the
  database may grow and the last leaf was not emptied by deletions (or has room). The new row is at the end of a scan and a lookup
  finds it.\<close>

theorem btree_append_succeeds:
  assumes pg: "heap_is pg (m, F, k + Suc (height t) + chain_len (serialize_row row))" and t: "table_in m F t" and xs: "encodes (rows t) xs"
    and wf: "wf_row row" and len: "length (serialize_row row) < 2 ^ 32"
    and above: "\<forall>x \<in> set xs. sint (fst x) < sint r" and lo: "leaf_open m t r (serialize_row row)"
  shows "\<exists>root' pg' pg1 pg2. btree_insert z (root_page t) r row pg = (Ok root', pg')
    \<and> scan_all z root' pg' = (Ok (xs @ [(r, row)]), pg1) \<and> find_by_rowid z root' r pg' = (Ok (Some (r, row)), pg2)"
proof -
  let ?bs = "serialize_row row"
  have "\<forall>s \<in> set (rows t). stored_key s < sint r"
  proof
    fix s assume "s \<in> set (rows t)"
    then have "fst s \<in> fst ` set xs" using encodes_keys [OF xs] by (metis image_eqI list.set_map)
    then show "stored_key s < sint r" using above by (auto simp: stored_key_fst)
  qed
  then have fits: "insert_fits m t r ?bs"
    using append_fits [OF t, of r ?bs] lo by (auto simp: leaf_open_def insert_fits_def leaf_fits_def split: prod.splits option.splits)
  have notin: "r \<notin> fst ` set xs" using above by auto
  have new: "contents t r = None" using encodes_contents(1) [OF xs] notin by (simp add: map_of_eq_None_iff)
  let ?Q = "\<lambda>res hp. \<exists>m' F' k' t'. res = Ok (root_page t') \<and> hp = (m', F', k') \<and> row_added m F t r ?bs m' F' t'"
  have "runs (m, F, k + Suc (height t) + chain_len ?bs) (insert_payload z (root_page t) r ?bs) ?Q"
    by (rule insert_payload_runs [OF t new len fits]) blast
  from this pg obtain res pg' h' where a: "insert_payload z (root_page t) r ?bs pg = (res, pg')" "heap_is pg' h'" "?Q res h'" by (rule runsE)
  then obtain m' F' k' t' where b: "res = Ok (root_page t')" "h' = (m', F', k')" "row_added m F t r ?bs m' F' t'" by blast
  have "insort_key rowid_key (r, row) xs = xs @ [(r, row)]" using above by (intro insort_last_row) (auto simp: rowid_key_def)
  then have "encodes (rows t') (xs @ [(r, row)])" "table_in m' F' t'"
    using b(3) encodes_insort [OF xs wf, of r] by (auto simp: row_added_def)
  then have ta: "table_at pg' (root_page t') (xs @ [(r, row)])" unfolding table_at_def
    using a(2) b(2) by (intro exI [of _ m'] exI [of _ F'] exI [of _ k'] exI [of _ t']) simp
  have "map_of (xs @ [(r, row)]) r = Some row" using notin by (simp add: map_add_def map_of_eq_None_iff [THEN iffD2])
  then show ?thesis using a(1) b(1) bt.scan_law [OF ta, of z] bt.find_law [OF ta, of z r]
    by (auto simp: btree_insert_def btree_impl_def)
qed

theorem btree_append_succeeds_witness:
  "\<exists>pg root root' pg' pg1 pg2. btree_insert lz4_off root 7 [Integer 5] pg = (Ok root', pg')
    \<and> scan_all lz4_off root' pg' = (Ok [(7, [Integer 5])], pg1) \<and> find_by_rowid lz4_off root' 7 pg' = (Ok (Some (7, [Integer 5])), pg2)"
proof -
  obtain pg m F n n' d where a: "heap_is pg (m, F, 100)" "table_in m F (Leaf n [])" "m n = Some d" "leaf_room d = PAGE_SIZE - LEAF_HEADER_SIZE"
    using two_tables by blast
  have len: "length (serialize_row [Integer 5]) < 100" by code_simp
  have h: "heap_is pg (m, F, 98 + Suc (height (Leaf n [])) + chain_len (serialize_row [Integer 5]))"
    using a(1) len by (simp add: chain_len_def page_consts)
  have lo: "leaf_open m (Leaf n []) 7 (serialize_row [Integer 5])"
    using a(3,4) len by (simp add: leaf_open_def cell_len_def page_consts)
  have wf: "wf_row [Integer 5]" by code_simp
  show ?thesis using btree_append_succeeds [OF h a(2) _ wf _ _ lo, of "[]" lz4_off] len by simp blast
qed

section \<open>The loops\<close>

lemma reads_fst: "reads m p v \<Longrightarrow> heap_is pg (m, F, k) \<Longrightarrow> fst (p pg) = v"
  by (erule readsE) auto

lemma entry_walk:
  assumes t: "table_in m F t" and w: "length (leaf_pages t) \<le> w"
  shows "reads m (walk_leaves w z (\<lambda>d. op_map (scan_entry z 0 d) [0..<cell_count d]) get_next_leaf (hd (leaf_pages t))) (res_map entry_of (rows t))"
proof -
  note L = table_leaves [OF t lessI]
  have items: "reads m (op_map (scan_entry z 0 d) [0..<cell_count d]) (res_map entry_of (id ss))" if "leaf_holds m d ss" for d ss
    using reads_map [of "[0..<cell_count d]" m "scan_entry z 0 d" "\<lambda>i. entry_of (ss ! i)"] scan_entry_reads [OF that] leaf_cells_count [OF that]
    by (simp add: res_map_comp nth_upt)
  have "length (leaf_rows t) \<le> w" using w leaf_rows_pages [of t] by (metis length_map)
  from walk_reads [where z = z and f = id, OF L(1,3) this L(5) items]
  show ?thesis using leaf_pages_nonempty [of m t] t by (simp add: leaf_rows_pages leaf_rows_rows table_in_def)
qed

text \<open>C8: The descents of the B+tree end after as many steps as the tree is high, and the walks along the leaves after as many as
  it has leaves: with any larger bound a lookup, the row count, the largest rowid, the search for the outer leaves and the walk
  have the same outcome, which is the one the rows of the tree give.\<close>

theorem btree_loops_end:
  assumes pg: "heap_is pg (m, F, k)" and t: "table_in m F t" and b: "height t \<le> b" and w: "length (leaf_pages t) \<le> w"
  shows "fst (find_row b z (root_page t) r pg) = lookup_result t r
    \<and> fst (count_rows_from b z (root_page t) pg) = Ok (length (rows t))
    \<and> fst (max_rowid_from b z (root_page t) pg) = Ok (last_rowid t)
    \<and> fst (leftmost_leaf b z (root_page t) pg) = Ok (hd (leaf_pages t))
    \<and> fst (rightmost_leaf b z (root_page t) pg) = Ok (last (leaf_pages t))
    \<and> fst (walk_leaves w z (\<lambda>d. op_map (scan_entry z 0 d) [0..<cell_count d]) get_next_leaf (hd (leaf_pages t)) pg) = res_map entry_of (rows t)"
proof -
  have T: "tree_in m t" "ordered (- (2 ^ 63)) (2 ^ 63) t" using t by (simp_all add: table_in_def)
  note rf = reads_fst [OF _ pg]
  show ?thesis
    by (intro conjI; rule rf)
      (rule find_row_reads [OF T sint_i64_range b] count_rows_reads [OF T(1) b] max_rowid_reads [OF T(1) b] leftmost_reads [OF T(1) b]
        rightmost_reads [OF T(1) b] entry_walk [OF t w])+
qed

theorem btree_loops_end_witness:
  "\<exists>pg n. fst (find_row 1 lz4_off n 7 pg) = Ok None \<and> fst (count_rows_from 1 lz4_off n pg) = Ok 0 \<and> fst (leftmost_leaf 1 lz4_off n pg) = Ok n
    \<and> fst (walk_leaves 1 lz4_off (\<lambda>d. op_map (scan_entry lz4_off 0 d) [0..<cell_count d]) get_next_leaf n pg) = Ok []"
proof -
  obtain pg m F n where a: "heap_is pg (m, F, 100)" "table_in m F (Leaf n [])" using two_tables by blast
  show ?thesis using btree_loops_end [OF a, of 1 1 lz4_off 7] by (intro exI [of _ pg] exI [of _ n]) (simp add: lookup_result_def contents_def)
qed

section \<open>After deletions\<close>

text \<open>An emptied leaf without room is split into an empty leaf and one with the new row, whose rowid is the divider.\<close>

lemma empty_leaf_splits:
  assumes b: "m b = Some d" "b \<notin> F" and lp: "leaf_page d []" "get_next_leaf d = 0" and full: "leaf_room d < cell_len bs + 2" and inl: "length bs \<le> MAX_INLINE_PAYLOAD"
    and Q: "\<And>right d1 d2. fresh m F right \<Longrightarrow> leaf_page d1 [] \<Longrightarrow> Q (Ok (Split r right)) (m(b \<mapsto> d1, right \<mapsto> d2), F - {right}, k)"
  shows "runs (m, F, Suc k) (insert_into_page (Suc x) z b r bs) Q"
proof -
  let ?s = "(r, bs, []) :: stored"
  have sp: "split_rows ?s [] = ([], [?s])" by (simp add: split_rows_def split_mid_def lower_index_def)
  have fit: "cells_fit []" "cells_fit [?s]" using inl by (simp_all add: cells_fit_def cells_size_def cell_len_def page_consts)
  have "runs (m, F, Suc k) (split_leaf z b (fst ?s) (stored_cell ?s)) Q"
  proof (rule split_leaf_runs [where m = m and ss = "[]", OF b _ _ _ _ sp fit])
    fix right d1 d2
    assume "fresh m F right" "leaf_page d1 (map stored_cell [])"
    then show "Q (Ok (Split (fst (hd [?s])) right)) (set_prev_at (get_next_leaf d) right (m(b \<mapsto> d1, right \<mapsto> d2)), F - {right}, k)"
      using Q lp(2) by (simp add: set_prev_at_def)
  qed (use lp inl in simp_all)
  then have "runs (m, F, Suc k) (insert_into_leaf z b d r bs) Q"
    using full inl by (simp add: insert_into_leaf_eq make_cell_def op_bind_def op_return_def)
  then show ?thesis using b(1) leaf_pageD(2) [OF lp(1)] inl by (auto simp: page_consts intro!: runs_get_page)
qed

text \<open>With a divider equal to one that is there, the pointer to the new page takes the place of the one to the old page.\<close>

lemma equal_divider:
  assumes n: "m n = Some d" "n \<notin> F" and ip: "interior_page d [(a, r)] b" and room: "14 \<le> interior_room d"
    and Q: "\<And>d'. interior_page d' [(a, r), (right, r)] b \<Longrightarrow> Q (Ok Done) (m(n \<mapsto> d'), F, k)"
  shows "runs (m, F, k) (insert_divider z n b r right) Q"
proof -
  have ui: "upper_index (map entry_key [(a, r)]) (sint r) = 1" by (simp add: upper_index_def entry_key_def)
  obtain d1 where d1: "insert_interior_cell r b d = Ok d1" "interior_page d1 [(a, r), (b, r)] b"
    using insert_interior_cell_ok [OF ip room, of r b] unfolding ui by (auto simp: list_insert_def)
  obtain d2 where d2: "replace_child_pointer r right d1 = Ok d2" "interior_page d2 [(a, r), (right, r)] b"
    using replace_child_pointer_ok [OF d1(2), of r right] by auto
  have q: "Q (Ok Done) (m(n \<mapsto> d1, n \<mapsto> d2), F, k)" using Q [OF d2(2)] by simp
  have "runs (m(n \<mapsto> d1), F, k) (op_bind (update_page_res z n (replace_child_pointer r right)) (\<lambda>_. op_return Done)) Q"
    by (rule runs_update [where d = d1 and d' = d2]) (use n(2) d2(1) interior_pageD(6) [OF d2(2)] q in \<open>auto intro: runs_return\<close>)
  then have "runs (m, F, k) (op_bind (update_page_res z n (insert_interior_cell r b))
      (\<lambda>_. op_bind (update_page_res z n (replace_child_pointer r right)) (\<lambda>_. op_return Done))) Q"
    by (rule runs_update [where d = d and d' = d1, rotated 4]) (use n d1(1) interior_pageD(6) [OF d1(2)] in auto)
  moreover have "14 \<le> content_offset d - (INTERIOR_HEADER_SIZE + cell_count d * 2)" using room by (simp add: interior_room_def mult.commute)
  ultimately show ?thesis unfolding insert_divider_def using n(1) by (auto intro!: runs_get_page)
qed

text \<open>When all rows of the right one of two leaves have been deleted, so that the space of its cells is used up, and its divider is
  inserted again as a rowid (an update of its last row deletes and inserts the row), the insertion reports success and the lookup of
  the row finds nothing: the leaf is split with a divider equal to its own, and the interior page keeps the pointer to the empty half
  where the row is looked up.\<close>

lemma btree_insert_row_lost:
  assumes pg: "heap_is pg (m, F, Suc k)" and t: "table_in m F (Node n [Leaf a ss, Leaf b []] [r])" and d: "m b = Some d"
    and full: "leaf_room d < cell_len (serialize_row row) + 2" and inl: "length (serialize_row row) \<le> MAX_INLINE_PAYLOAD"
  shows "\<exists>pg' pg''. btree_insert z n r row pg = (Ok n, pg') \<and> find_by_rowid z n r pg' = (Ok None, pg'')"
proof -
  let ?t = "Node n [Leaf a ss, Leaf b []] [r]" let ?bs = "serialize_row row"
  obtain dn where dn: "m n = Some dn" "node_page dn [Leaf a ss, Leaf b []] [r]"
    using t unfolding table_in_def tree_in_node by blast
  have ip: "interior_page dn [(a, r)] b" using dn(2) by (simp add: node_page_def)
  have lb: "leaf_page d []" "get_next_leaf d = 0" and ne: "n \<noteq> b" "n \<noteq> 0" "b \<noteq> 0" "n \<notin> F" "b \<notin> F"
    using t d by (auto simp: table_in_def all_pages_def)
  have room: "14 \<le> interior_room dn" using node_page_room [OF dn(2)] by (simp add: page_consts)
  have child: "find_child_page dn r = Ok b" using find_child_page_ok [OF ip, of r] by (simp add: children_def upper_index_def entry_key_def)
  define K where "K = (\<lambda>res. case res of Done \<Rightarrow> op_return n | Split divider p \<Rightarrow> new_root z n divider p)"
  let ?Q = "\<lambda>res h. \<exists>m' F' k' d4 d1 right. res = Ok n \<and> h = (m', F', k') \<and> m' n = Some d4 \<and> interior_page d4 [(a, r), (right, r)] b \<and> m' b = Some d1 \<and> leaf_page d1 []"
  let ?Q1 = "\<lambda>res h. \<exists>right d1 d2. res = Ok (Split r right) \<and> h = (m(b \<mapsto> d1, right \<mapsto> d2), F - {right}, k) \<and> fresh m F right \<and> leaf_page d1 []"
  have up: "runs (m(b \<mapsto> d1, right \<mapsto> d2), F - {right}, k) (op_bind (insert_divider z n b r right) K) ?Q" if "fresh m F right" "leaf_page d1 []" for right d1 d2
  proof (rule runs_bind)
    let ?m = "m(b \<mapsto> d1, right \<mapsto> d2)"
    have rn: "right \<noteq> n" "right \<noteq> b" using that(1) dn(1) d ne by (auto simp: fresh_def)
    then have "?m n = Some dn" "n \<notin> F - {right}" using dn(1) ne by auto
    then show "runs (?m, F - {right}, k) (insert_divider z n b r right) (\<lambda>res h. res = Ok Done \<and> (\<exists>d4. interior_page d4 [(a, r), (right, r)] b \<and> h = (?m(n \<mapsto> d4), F - {right}, k)))"
      by (rule equal_divider [where m = ?m and d = dn]) (use ip room in blast)+
    fix res h assume "Ok res = Ok Done \<and> (\<exists>d4. interior_page d4 [(a, r), (right, r)] b \<and> h = (?m(n \<mapsto> d4), F - {right}, k))"
    then obtain d4 where "res = Done" "interior_page d4 [(a, r), (right, r)] b" "h = (?m(n \<mapsto> d4), F - {right}, k)" by blast
    moreover have "(?m(n \<mapsto> d4)) b = Some d1" for d4 using rn ne by simp
    ultimately show "runs h (K res) ?Q" using that(2) by (auto simp: K_def intro!: runs_return)
  qed auto
  have "runs (m, F, Suc k) (insert_payload z n r ?bs) ?Q" unfolding insert_payload_def K_def [symmetric]
  proof (rule runs_bound_bind)
    fix x assume "card (dom m) < x"
    from table_in_bounds(1) [OF t this] obtain y where x: "x = Suc (Suc y)" by (cases x; cases "x - 1") auto
    have "runs (m, F, Suc k) (insert_into_page (Suc y) z b r ?bs) ?Q1"
      by (rule empty_leaf_splits [where m = m, OF d ne(5) lb full inl]) blast
    then have "runs (m, F, Suc k) (op_bind (insert_into_page (Suc y) z b r ?bs)
        (\<lambda>res. op_bind (case res of Done \<Rightarrow> op_return Done | Split divider p \<Rightarrow> insert_divider z n b divider p) K)) ?Q"
      by (rule runs_bind) (use up in auto)
    moreover have "op_bind (insert_into_page x z n r ?bs) K = op_bind (get_page z n) (\<lambda>d. op_bind (if page_type d = LEAF_TABLE then insert_into_leaf z n d r ?bs
        else if page_type d = INTERIOR_TABLE then op_bind (get_page z n) (\<lambda>d'. op_bind (op_lift (find_child_page d' r)) (\<lambda>child.
          op_bind (insert_into_page (Suc y) z child r ?bs) (\<lambda>r. case r of Done \<Rightarrow> op_return Done | Split divider new_page \<Rightarrow> insert_divider z n child divider new_page)))
        else op_fail (invalid_page_type ''invalid'' (page_type d))) K)"
      using inl by (simp add: x page_consts op_bind_assoc del: insert_into_page.simps(2)) (subst insert_into_page.simps(2), simp add: page_consts op_bind_assoc del: insert_into_page.simps(2))
    ultimately show "runs (m, F, Suc k) (op_bind (insert_into_page x z n r ?bs) K) ?Q"
      using dn(1) interior_pageD(2) [OF ip] child by (auto simp: op_bind_assoc simp del: insert_into_page.simps(2) intro!: runs_get_page runs_lift_bind)
  qed
  from this pg obtain res pg' h' where A: "insert_payload z n r ?bs pg = (res, pg')" "heap_is pg' h'" "?Q res h'" by (rule runsE)
  then obtain m' F' k' d4 d1 right where B: "res = Ok n" "heap_is pg' (m', F', k')" "m' n = Some d4" "interior_page d4 [(a, r), (right, r)] b" "m' b = Some d1" "leaf_page d1 []" by blast
  have "reads m' (find_by_rowid z n r) (Ok None)" unfolding find_by_rowid_def
  proof (rule reads_bound)
    fix x assume "card (dom m') < x"
    moreover have "card {n, b} \<le> card (dom m')" using B(3,5) by (intro card_mono) auto
    ultimately obtain y where x: "x = Suc (Suc y)" using ne(1) by (cases x; cases "x - 1") auto
    have "tree_in m' (Leaf b [])" using B(5,6) by simp
    from find_row_leaf [OF this, of y z r] have "reads m' (find_row (Suc y) z b r) (Ok None)" by (simp add: lookup_result_def contents_def del: find_row.simps)
    moreover have "find_child_page d4 r = Ok b" using find_child_page_ok [OF B(4), of r] by (simp add: children_def upper_index_def entry_key_def)
    ultimately show "reads m' (find_row x z n r) (Ok None)" unfolding x
      by (subst find_row.simps(2)) (use B(3) interior_pageD(2) [OF B(4)] in \<open>auto simp del: find_row.simps intro!: reads_bind_Ok [OF reads_get] reads_bind_Ok [OF reads_lift_Ok]\<close>)
  qed
  from this B(2) obtain pg'' where "find_by_rowid z n r pg' = (Ok None, pg'')" by (rule readsE)
  then show ?thesis using A(1) B(1) by (auto simp: btree_insert_def)
qed

text \<open>A tree with an emptied leaf: the left leaf has a row, the space of the right one is used up.\<close>

lemma used_up_leaf:
  defines "d \<equiv> write_page_header \<lparr>ph_page_type = LEAF_TABLE, ph_cell_count = 0, ph_cell_content_offset = 14, ph_right_child = None\<rparr> zeros"
  shows "leaf_page d []" "leaf_room d = 0" "get_next_leaf d = 0"
proof -
  have "length zeros = 4096" by (simp add: zeros_def PAGE_SIZE_def)
  then have f: "length d = PAGE_SIZE" "u16_at d 1 = 0" "u16_at d 3 = 14" "page_type d = LEAF_TABLE" "get_next_leaf d = 0"
    by (simp_all add: d_def write_page_header_def Let_def PAGE_SIZE_def at_write_other get_next_leaf_def page_type_def nth_write_at)
  then show "leaf_page d []" "leaf_room d = 0" "get_next_leaf d = 0"
    by (simp_all add: leaf_page_def leaf_room_def slotted_def cell_count_def content_offset_def u16_to_page_size_def PAGE_SIZE_def LEAF_HEADER_SIZE_def)
qed

lemma three_pages:
  obtains pg m F a b n where "heap_is pg (m, F, 100)" "distinct [0, a, b, n]" "{a, b, n} \<inter> F = {}" "m a \<noteq> None" "m b \<noteq> None" "m n \<noteq> None"
proof -
  let ?pg = "pager_open_memory (replicate 16 7)"
  let ?Q = "\<lambda>res h. \<exists>m F a b n. h = (m, F, 100::nat) \<and> distinct [0, a, b, n] \<and> {a, b, n} \<inter> F = {} \<and> m a \<noteq> None \<and> m b \<noteq> None \<and> m n \<noteq> None"
  have h: "heap_is ?pg (page_value ?pg, {}, Suc (Suc (Suc 100)))"
    using pager_open_memory_inv(1) memory_frees memory_room by (simp add: heap_is.simps)
  have "runs (page_value ?pg, {}, Suc (Suc (Suc 100))) (op_bind (allocate_page z) (\<lambda>a. op_bind (allocate_page z) (\<lambda>b. op_bind (allocate_page z) (\<lambda>n. op_return ())))) ?Q" for z
  proof (rule runs_allocate, rule runs_allocate, rule runs_allocate, rule runs_return)
    fix a b n
    let ?m1 = "(page_value ?pg)(a \<mapsto> zeros)" let ?m2 = "?m1(b \<mapsto> zeros)" let ?m3 = "?m2(n \<mapsto> zeros)"
    assume *: "a \<noteq> 0" "b \<noteq> 0" "b \<in> {} - {a} \<or> ?m1 b = None" "n \<noteq> 0" "n \<in> {} - {a} - {b} \<or> ?m2 n = None"
    then have "b \<noteq> a" "n \<noteq> b" "n \<noteq> a" by (auto split: if_splits)
    with * have "distinct [0, a, b, n]" by simp
    moreover have "{a, b, n} \<inter> ({} - {a} - {b} - {n}) = {}" by blast
    ultimately show "?Q (Ok ()) (?m3, {} - {a} - {b} - {n}, 100)" by (intro exI conjI) (rule refl, assumption+, simp_all)
  qed
  from this h obtain r pg' h' where e: "heap_is pg' h'" "?Q r h'" by (rule runsE)
  from e(2) obtain m F a b n where q: "h' = (m, F, 100) \<and> distinct [0, a, b, n] \<and> {a, b, n} \<inter> F = {} \<and> m a \<noteq> None \<and> m b \<noteq> None \<and> m n \<noteq> None"
    by (elim exE)
  show ?thesis by (rule that [of pg' m F a b n]) (use q e(1) in auto)
qed

lemma rewrite_page:
  assumes "heap_is pg (m, F, k)" and "m p \<noteq> None" and "p \<notin> F" and "length d = PAGE_SIZE"
  shows "\<exists>pg'. heap_is pg' (m(p \<mapsto> d), F, k)"
proof -
  obtain d0 where d0: "m p = Some d0" using assms(2) by blast
  have "runs (m, F, k) (modify_page z p (\<lambda>_. d)) (\<lambda>res h. h = (m(p \<mapsto> d), F, k))" for z
    by (rule runs_modify_last [where m = m, OF d0 assms(3)]) (simp_all add: keeps_size_def assms(4))
  from this assms(1) show ?thesis by (rule runsE) blast
qed

lemma emptied_leaf:
  assumes "length bs \<le> MAX_INLINE_PAYLOAD"
  shows "\<exists>pg m F n a b d. heap_is pg (m, F, 100) \<and> table_in m F (Node n [Leaf a [(1, bs, [])], Leaf b []] [2]) \<and> m b = Some d \<and> leaf_room d = 0"
proof -
  obtain pg m F a b n where h: "heap_is pg (m, F, 100)" "distinct [0, a, b, n]" "{a, b, n} \<inter> F = {}" "m a \<noteq> None" "m b \<noteq> None" "m n \<noteq> None"
    by (rule three_pages)
  let ?s = "(1, bs, []) :: stored"
  define il where "il = init_leaf_page zeros"
  note il = init_leaf [OF length_zeros, folded il_def] init_leaf_room [OF length_zeros, folded il_def]
  have si: "stored_in m ?s" for m using assms by simp
  have c: "cell_rowid (stored_cell ?s) = 1" "length (stored_cell ?s) = cell_size (stored_cell ?s)" "length (stored_cell ?s) \<le> 2100"
    using stored_cell_fields [OF si] stored_cell_len [OF si] assms by (simp_all add: cell_len_def page_consts stored_key_fst del: stored_cell.simps)
  obtain d1 where d1: "leaf_page d1 [stored_cell ?s]" "same_links il d1"
    using insert_cell_into_leaf_ok [OF il(1), of "stored_cell ?s" 1] c il(5) by (auto simp: page_consts simp del: stored_cell.simps)
  define da where "da = set_next_leaf b d1"
  define full where "full = write_page_header \<lparr>ph_page_type = LEAF_TABLE, ph_cell_count = 0, ph_cell_content_offset = 14, ph_right_child = None\<rparr> zeros"
  note full = used_up_leaf [folded full_def]
  define db where "db = set_prev_leaf a full"
  have da: "leaf_page da [stored_cell ?s]" "get_next_leaf da = b" "get_prev_leaf da = 0"
    using leaf_page_links [OF d1(1)] same_links_next [OF d1(2)] il(4) by (simp_all add: da_def del: stored_cell.simps)
  have db: "leaf_page db []" "get_next_leaf db = 0" "get_prev_leaf db = a" "leaf_room db = 0"
    using leaf_page_links [OF full(1)] full leaf_pageD(6) [OF leaf_page_links(1) [OF full(1)]] leaf_pageD(6) [OF full(1)] by (simp_all add: db_def leaf_room_def)
  note ii = init_interior [OF length_zeros, of b]
  have "14 \<le> interior_room (init_interior_page b zeros)" using ii(2) interior_pageD(5) [OF ii(1)] by (simp add: interior_room_def page_consts)
  from insert_interior_cell_ok [OF ii(1) this, of 2 a] ii(2)
  obtain dn where dn: "interior_page dn [(a, 2)] b" "content_offset dn = PAGE_SIZE - 12" by (auto simp: upper_index_def list_insert_def)
  let ?m = "m(a \<mapsto> da, b \<mapsto> db, n \<mapsto> dn)"
  have ln: "length da = PAGE_SIZE" "length db = PAGE_SIZE" "length dn = PAGE_SIZE"
    using slottedD(1) [OF leaf_pageD(1) [OF da(1)]] slottedD(1) [OF leaf_pageD(1) [OF db(1)]] interior_pageD(6) [OF dn(1)] by simp_all
  obtain pg1 where 1: "heap_is pg1 (m(a \<mapsto> da), F, 100)" using rewrite_page [OF h(1,4) _ ln(1)] h(3) by blast
  obtain pg2 where 2: "heap_is pg2 (m(a \<mapsto> da, b \<mapsto> db), F, 100)" using rewrite_page [OF 1 _ _ ln(2), of b] h(2,3,5) by auto
  obtain pg3 where 3: "heap_is pg3 (?m, F, 100)" using rewrite_page [OF 2 _ _ ln(3), of n] h(2,3,6) by auto
  have "table_in ?m F (Node n [Leaf a [?s], Leaf b []] [2])"
    using h(2,3) da db dn assms by (auto simp: table_in_def all_pages_def page_consts stored_key_fst simp del: stored_cell.simps)
  then show ?thesis using 3 db(4) h(2) by (intro exI [of _ pg3] exI [of _ ?m] exI [of _ F] exI [of _ n] exI [of _ a] exI [of _ b] exI [of _ db]) simp
qed

lemma btree_insert_row_lost_witness:
  "\<exists>pg n pg' pg''. btree_insert lz4_off n 2 [Integer 5] pg = (Ok n, pg') \<and> find_by_rowid lz4_off n 2 pg' = (Ok None, pg'')"
proof -
  obtain pg m F n a b d where a: "heap_is pg (m, F, Suc 99)" "table_in m F (Node n [Leaf a [(1, [], [])], Leaf b []] [2])" "m b = Some d" "leaf_room d = 0"
    using emptied_leaf [of "[]"] by auto
  have len: "length (serialize_row [Integer 5]) < 100" by code_simp
  show ?thesis using btree_insert_row_lost [OF a(1,2,3), of "[Integer 5]" lz4_off] a(4) len by (simp add: page_consts) blast
qed

text \<open>The largest rowid of a table, from which the next one is made, is reported as 0 when the last leaf has been emptied,
  whatever rows the other leaves hold.\<close>

lemma max_rowid_misses_rows:
  assumes pg: "heap_is pg (m, F, k)" and t: "table_in m F t" and last: "snd (last (leaf_rows t)) = []"
  shows "\<exists>pg'. max_rowid z (root_page t) pg = (Ok 0, pg')"
proof -
  have "last_rowid t = 0" using last by (simp add: last_rowid_def)
  then show ?thesis using max_rowid_table [OF t, of z] readsE [OF _ pg, of "max_rowid z (root_page t)" "Ok 0"] by metis
qed

lemma max_rowid_misses_rows_witness:
  "\<exists>pg n pg' pg''. scan_all lz4_off n pg = (Ok [(1, [Integer 5])], pg') \<and> max_rowid lz4_off n pg = (Ok 0, pg'')"
proof -
  have len: "length (serialize_row [Integer 5]) < 100" by code_simp
  have wf: "wf_row [Integer 5]" by code_simp
  obtain pg m F n a b where a: "heap_is pg (m, F, 100)" "table_in m F (Node n [Leaf a [(1, serialize_row [Integer 5], [])], Leaf b []] [2])" (is "table_in m F ?t")
    using emptied_leaf [of "serialize_row [Integer 5]"] len by (auto simp: page_consts)
  obtain pg'' where 2: "max_rowid lz4_off n pg = (Ok 0, pg'')" using max_rowid_misses_rows [OF a, of lz4_off] by auto
  have "res_map entry_of (rows ?t) = Ok [(1, [Integer 5])]" using encodes_entries [of "rows ?t" "[(1, [Integer 5])]"] wf by simp
  then obtain pg' where "scan_all lz4_off n pg = (Ok [(1, [Integer 5])], pg')" using scan_all_reads [OF a(2), of lz4_off] readsE [OF _ a(1)] by (metis root_page.simps(2))
  then show ?thesis using 2 by blast
qed

end
