(* ===== verification/Utf8.thy ===== *)
theory Utf8
  imports ValueTypes
begin

text \<open>
  The characters of a Rust string: \<^verbatim>\<open>str::chars\<close> decodes the UTF-8 bytes to Unicode scalar values, \<^verbatim>\<open>String\<close> collects them again.
  On well-formed text the two are inverse to each other.
\<close>

type_synonym uchar = nat

definition unicode_scalar :: "uchar \<Rightarrow> bool" where
  "unicode_scalar c \<longleftrightarrow> c < 0xD800 \<or> 0xE000 \<le> c \<and> c < 0x110000"

text \<open>The six bits of a continuation byte behind the bits before.\<close>

definition six :: "nat \<Rightarrow> u8 \<Rightarrow> nat" where
  "six hi b = hi * 64 + (unat b - 0x80)"

fun text_chars :: "bytes \<Rightarrow> uchar list" where
  "text_chars [] = []"
| "text_chars (a # bs) =
     (if a < 0x80 then unat a # text_chars bs
      else if a < 0xE0 then (case bs of b # r \<Rightarrow> six (unat a - 0xC0) b # text_chars r | _ \<Rightarrow> [])
      else if a < 0xF0 then (case bs of b # c # r \<Rightarrow> six (six (unat a - 0xE0) b) c # text_chars r | _ \<Rightarrow> [])
      else (case bs of b # c # d # r \<Rightarrow> six (six (six (unat a - 0xF0) b) c) d # text_chars r | _ \<Rightarrow> []))"

definition cont_byte :: "nat \<Rightarrow> u8" where
  "cont_byte n = word_of_nat (0x80 + n mod 64)"

definition encode_char :: "uchar \<Rightarrow> bytes" where
  "encode_char n =
     (if n < 0x80 then [word_of_nat n]
      else if n < 0x800 then [word_of_nat (0xC0 + n div 64), cont_byte n]
      else if n < 0x10000 then [word_of_nat (0xE0 + n div 64 div 64), cont_byte (n div 64), cont_byte n]
      else [word_of_nat (0xF0 + n div 64 div 64 div 64), cont_byte (n div 64 div 64), cont_byte (n div 64), cont_byte n])"

definition chars_text :: "uchar list \<Rightarrow> bytes" where
  "chars_text cs = concat (map encode_char cs)"

definition ascii_lower_uchar :: "uchar \<Rightarrow> uchar" where
  "ascii_lower_uchar c = (if 65 \<le> c \<and> c \<le> 90 then c + 32 else c)"

lemma ascii_lower_uchar_idem [simp]: "ascii_lower_uchar (ascii_lower_uchar c) = ascii_lower_uchar c"
  by (simp add: ascii_lower_uchar_def)

section \<open>Bytes as numbers\<close>

lemma u8_unat_cmp: "(a < b) = (unat a < unat b)" "(a \<le> b) = (unat a \<le> unat b)" for a b :: u8
  by (simp_all add: word_less_nat_alt word_le_nat_alt)

lemmas utf8_defs = utf8_cont_def utf8_second_def u8_unat_cmp word_unat_eq_iff

lemma unat_small: "n < 256 \<Longrightarrow> unat (word_of_nat n :: u8) = n"
  by (simp add: unat_of_nat)

lemma unat_word: "unat a = n \<Longrightarrow> word_of_nat n = a" for a :: u8
  by auto

lemma second_cont: "utf8_second a b \<Longrightarrow> utf8_cont b"
  by (auto simp: utf8_defs split: if_splits)

lemma six_digits: "utf8_cont b \<Longrightarrow> six hi b div 64 = hi \<and> cont_byte (six hi b) = b"
proof -
  assume "utf8_cont b"
  then obtain x where x: "unat b = 0x80 + x" "x < 64" by (auto simp: utf8_defs le_iff_add)
  then show ?thesis using unat_word [OF x(1)] by (simp add: six_def cont_byte_def)
qed

lemma cont_byte_unat: "unat (cont_byte n) = 0x80 + n mod 64" "utf8_cont (cont_byte n)"
proof -
  have "n mod 64 < 64" by simp
  then show "unat (cont_byte n) = 0x80 + n mod 64" unfolding cont_byte_def by (intro unat_small) simp
  then show "utf8_cont (cont_byte n)" using \<open>n mod 64 < 64\<close> by (simp add: utf8_defs)
qed

lemma six_join: "six (n div 64) (cont_byte n) = n"
  by (simp add: six_def cont_byte_unat)

lemma lead_byte: "k \<le> unat a \<Longrightarrow> word_of_nat (k + (unat a - k)) = a" for a :: u8
  by simp

lemma six_bounds: "utf8_cont b \<Longrightarrow> hi * 64 \<le> six hi b" "utf8_cont b \<Longrightarrow> six hi b \<le> hi * 64 + 63"
  by (auto simp: six_def utf8_defs)

section \<open>Encoding what was decoded\<close>

lemma encode2:
  assumes "0xC2 \<le> a" "a \<le> 0xDF" and b: "utf8_cont b"
  shows "encode_char (six (unat a - 0xC0) b) = [a, b]"
proof -
  obtain h where h: "unat a = 0xC0 + h" "2 \<le> h" "h \<le> 31" using assms(1,2) by (intro that [of "unat a - 0xC0"]) (auto simp: u8_unat_cmp)
  then have "\<not> six h b < 0x80" "six h b < 0x800" using six_bounds(1) [OF b, of h] six_bounds(2) [OF b, of h] by linarith+
  then show ?thesis using six_digits [OF b, of h] h(1) unat_word [OF h(1)] by (simp add: encode_char_def)
qed

lemma encode3:
  assumes "0xE0 \<le> a" "a \<le> 0xEF" "utf8_second a b" and c: "utf8_cont c"
  shows "encode_char (six (six (unat a - 0xE0) b) c) = [a, b, c]"
proof -
  note b = second_cont [OF assms(3)]
  obtain h where h: "unat a = 0xE0 + h" "h \<le> 15" using assms(1,2) by (intro that [of "unat a - 0xE0"]) (auto simp: u8_unat_cmp)
  obtain x where x: "unat b = 0x80 + x" "h = 0 \<Longrightarrow> 32 \<le> x" using assms(3) h b by (auto simp: utf8_defs le_iff_add split: if_splits)
  have "six h b = h * 64 + x" by (simp add: six_def x(1))
  then have "32 \<le> six h b" "six h b < 1024" using x(2) six_bounds(1) [OF b, of h] six_bounds(2) [OF b, of h] h(2) by (cases "h = 0"; linarith)+
  then have "\<not> six (six h b) c < 0x80" "\<not> six (six h b) c < 0x800" "six (six h b) c < 0x10000" using six_bounds(1) [OF c, of "six h b"] six_bounds(2) [OF c, of "six h b"] by linarith+
  then show ?thesis using six_digits [OF c, of "six h b"] six_digits [OF b, of h] h(1) unat_word [OF h(1)] by (simp add: encode_char_def)
qed

lemma encode4:
  assumes "0xF0 \<le> a" "a \<le> 0xF4" "utf8_second a b" and c: "utf8_cont c" and d: "utf8_cont d"
  shows "encode_char (six (six (six (unat a - 0xF0) b) c) d) = [a, b, c, d]"
proof -
  note b = second_cont [OF assms(3)]
  obtain h where h: "unat a = 0xF0 + h" using assms(1) by (auto simp: u8_unat_cmp le_iff_add)
  obtain x where x: "unat b = 0x80 + x" "h = 0 \<Longrightarrow> 16 \<le> x" using assms(3) h b by (auto simp: utf8_defs le_iff_add split: if_splits)
  let ?m = "six (six h b) c"
  have "six h b = h * 64 + x" by (simp add: six_def x(1))
  then have "16 \<le> six h b" using x(2) six_bounds(1) [OF b, of h] six_bounds(2) [OF b, of h] by (cases "h = 0"; linarith)
  then have "\<not> six ?m d < 0x80" "\<not> six ?m d < 0x800" "\<not> six ?m d < 0x10000" using six_bounds(1) [OF c, of "six h b"] six_bounds(2) [OF c, of "six h b"] six_bounds(1) [OF d, of ?m] six_bounds(2) [OF d, of ?m] by linarith+
  then show ?thesis using six_digits [OF d, of ?m] six_digits [OF c, of "six h b"] six_digits [OF b, of h] h(1) unat_word [OF h(1)]
    by (simp add: encode_char_def)
qed

lemma chars_text_Cons [simp]: "chars_text [] = []" "chars_text (c # cs) = encode_char c @ chars_text cs"
  by (simp_all add: chars_text_def)

lemma encode1: "a < 0x80 \<Longrightarrow> encode_char (unat a) = [a]"
  by (simp add: encode_char_def u8_unat_cmp)

lemma list_cases2: "(bs = [] \<Longrightarrow> P) \<Longrightarrow> (\<And>b. bs = [b] \<Longrightarrow> P) \<Longrightarrow> (\<And>b c r. bs = b # c # r \<Longrightarrow> P) \<Longrightarrow> P"
  by (cases bs; cases "tl bs") auto

lemma list_cases3: "(bs = [] \<Longrightarrow> P) \<Longrightarrow> (\<And>b. bs = [b] \<Longrightarrow> P) \<Longrightarrow> (\<And>b c. bs = [b, c] \<Longrightarrow> P) \<Longrightarrow> (\<And>b c d r. bs = b # c # d # r \<Longrightarrow> P) \<Longrightarrow> P"
  by (cases bs; cases "tl bs"; cases "tl (tl bs)") auto

text \<open>Case analysis on the first byte of a valid text.\<close>

lemma utf8_cases:
  assumes "utf8_valid (a # bs)"
  obtains "a < 0x80" "utf8_valid bs"
  | b r where "bs = b # r" "0xC2 \<le> a" "a \<le> 0xDF" "\<not> a < 0x80" "a < 0xE0" "utf8_cont b" "utf8_valid r"
  | b c r where "bs = b # c # r" "0xE0 \<le> a" "a \<le> 0xEF" "\<not> a < 0x80" "\<not> a < 0xE0" "a < 0xF0" "utf8_second a b" "utf8_cont c" "utf8_valid r"
  | b c d r where "bs = b # c # d # r" "0xF0 \<le> a" "a \<le> 0xF4" "\<not> a < 0x80" "\<not> a < 0xE0" "\<not> a < 0xF0" "utf8_second a b" "utf8_cont c" "utf8_cont d" "utf8_valid r"
proof -
  have *: "0xC2 \<le> a \<Longrightarrow> a \<le> 0xDF \<Longrightarrow> a < 0xE0" "0xE0 \<le> a \<Longrightarrow> \<not> a < 0xE0" "a \<le> 0xEF \<Longrightarrow> a < 0xF0" "0xF0 \<le> a \<Longrightarrow> \<not> a < 0xF0" "0xF0 \<le> a \<Longrightarrow> \<not> a < 0xE0"
    by (simp_all add: u8_unat_cmp)
  consider (1) "a < 0x80" | (2) "\<not> a < 0x80" "0xC2 \<le> a" "a \<le> 0xDF" | (3) "\<not> a < 0x80" "\<not> (0xC2 \<le> a \<and> a \<le> 0xDF)" "0xE0 \<le> a" "a \<le> 0xEF"
    | (4) "\<not> a < 0x80" "\<not> (0xC2 \<le> a \<and> a \<le> 0xDF)" "\<not> (0xE0 \<le> a \<and> a \<le> 0xEF)" "0xF0 \<le> a" "a \<le> 0xF4"
    using assms by (auto split: if_splits)
  then show ?thesis
  proof cases
    case 1
    then show ?thesis using assms that(1) by simp
  next
    case 2
    then show ?thesis using assms * by (cases bs) (auto intro: that(2))
  next
    case 3
    then show ?thesis using assms * by (cases bs rule: list_cases2) (auto intro: that(3))
  next
    case 4
    then show ?thesis using assms * by (cases bs rule: list_cases3) (auto intro: that(4))
  qed
qed

lemma encode_decode: "utf8_valid t \<Longrightarrow> chars_text (text_chars t) = t"
proof (induction t rule: length_induct)
  case (1 t)
  show ?case
  proof (cases t)
    case (Cons a bs)
    with 1(2) have v: "utf8_valid (a # bs)" by simp
    then show ?thesis
      by (cases rule: utf8_cases) (use 1(1) Cons in \<open>simp_all add: encode1 encode2 encode3 encode4\<close>)
  qed simp
qed

section \<open>Decoding what was encoded\<close>

lemma decode_encode_append:
  assumes "unicode_scalar n"
  shows "text_chars (encode_char n @ t) = n # text_chars t \<and> (utf8_valid (encode_char n @ t) \<longleftrightarrow> utf8_valid t)"
proof -
  consider (1) "n < 0x80" | (2) "0x80 \<le> n" "n < 0x800" | (3) "0x800 \<le> n" "n < 0x10000" | (4) "0x10000 \<le> n" by linarith
  then show ?thesis
  proof cases
    case 1
    then show ?thesis by (simp add: encode_char_def u8_unat_cmp unat_small)
  next
    case 2
    have "2 \<le> n div 64" "n div 64 < 32" using 2 by auto
    then have "unat (word_of_nat (0xC0 + n div 64) :: u8) = 0xC0 + n div 64" by (intro unat_small) simp
    then show ?thesis using 2 \<open>2 \<le> n div 64\<close> \<open>n div 64 < 32\<close> six_join [of n] cont_byte_unat(2) [of n] by (simp add: encode_char_def u8_unat_cmp del: of_nat_add)
  next
    case 3
    let ?h = "n div 64 div 64"
    have h: "?h < 16" using 3 by auto
    then have u: "unat (word_of_nat (0xE0 + ?h) :: u8) = 0xE0 + ?h" by (intro unat_small) simp
    have "?h = 0 \<Longrightarrow> 32 \<le> n div 64 mod 64" using 3 by auto
    moreover have "n div 64 mod 64 < 32" if "?h = 13"
    proof -
      have "n < 0xE000" using that by auto
      then have "n div 64 < 864" using assms by (auto simp: unicode_scalar_def)
      then show ?thesis using div_mult_mod_eq [of "n div 64" 64] that by linarith
    qed
    moreover have "n div 64 mod 64 \<le> 63" using mod_less_divisor [of 64 "n div 64"] by linarith
    ultimately have s: "utf8_second (word_of_nat (0xE0 + ?h)) (cont_byte (n div 64))"
      using h u by (auto simp: utf8_second_def utf8_cont_def u8_unat_cmp word_unat_eq_iff cont_byte_unat simp del: of_nat_add)
    show ?thesis using 3 h u s six_join [of n] six_join [of "n div 64"] cont_byte_unat(2) [of n]
      by (simp add: encode_char_def u8_unat_cmp del: of_nat_add)
  next
    case 4
    let ?h = "n div 64 div 64 div 64"
    have h: "?h \<le> 4" using assms 4 by (auto simp: unicode_scalar_def)
    then have u: "unat (word_of_nat (0xF0 + ?h) :: u8) = 0xF0 + ?h" by (intro unat_small) simp
    have "?h = 0 \<Longrightarrow> 16 \<le> n div 64 div 64 mod 64" using 4 by auto
    moreover have "n div 64 div 64 mod 64 < 16" if "?h = 4"
    proof -
      have "n div 64 div 64 < 272" using 4 assms by (auto simp: unicode_scalar_def)
      then show ?thesis using div_mult_mod_eq [of "n div 64 div 64" 64] that by linarith
    qed
    moreover have "n div 64 div 64 mod 64 \<le> 63" using mod_less_divisor [of 64 "n div 64 div 64"] by linarith
    ultimately have s: "utf8_second (word_of_nat (0xF0 + ?h)) (cont_byte (n div 64 div 64))"
      using h u unfolding utf8_second_def utf8_cont_def u8_unat_cmp word_unat_eq_iff cont_byte_unat(1) u by auto
    show ?thesis using 4 h u s six_join [of n] six_join [of "n div 64"] six_join [of "n div 64 div 64"] cont_byte_unat(2) [of n] cont_byte_unat(2) [of "n div 64"]
      by (simp add: encode_char_def u8_unat_cmp del: of_nat_add)
  qed
qed

lemma decode_encode: "list_all unicode_scalar cs \<Longrightarrow> text_chars (chars_text cs) = cs \<and> utf8_valid (chars_text cs)"
  by (induction cs) (simp_all add: decode_encode_append)

end
