(* ===== verification/Like.thy ===== *)
theory Like
  imports Utf8
begin

text \<open>
  SQL patterns, \<^verbatim>\<open>like_match\<close> of \<^verbatim>\<open>src/src/vm/eval_expr.rs\<close>: one loop over text and pattern that returns to the last \<^verbatim>\<open>%\<close> when
  the characters differ. It is compared with the meaning of a pattern, which tries every length for every \<^verbatim>\<open>%\<close>.
\<close>

abbreviation percent :: uchar where "percent \<equiv> 37"
abbreviation underscore :: uchar where "underscore \<equiv> 95"

text \<open>
  One round of the loop while there is text left. The indices \<^verbatim>\<open>ti\<close> and \<^verbatim>\<open>pi\<close> are the rests of text and pattern they point at;
  \<^verbatim>\<open>star_pi\<close> and \<^verbatim>\<open>star_ti\<close> are the rest of the pattern behind the last \<^verbatim>\<open>%\<close> and the rest of the text where it was tried.
  The outcome is the next state, or nothing for \<^verbatim>\<open>return false\<close>.
\<close>

type_synonym like_star = "(uchar list \<times> uchar list) option"
type_synonym like_state = "uchar list \<times> uchar list \<times> like_star"

definition like_retry :: "like_star \<Rightarrow> like_state option" where
  "like_retry star = (case star of None \<Rightarrow> None | Some (sp, st) \<Rightarrow> Some (tl st, sp, Some (sp, tl st)))"

definition like_step :: "uchar option \<Rightarrow> like_state \<Rightarrow> like_state option" where
  "like_step esc s = (case s of (ts, ps, star) \<Rightarrow> (case ps of
       [] \<Rightarrow> like_retry star
     | p # ps' \<Rightarrow>
         if Some p = esc then
           (case ps' of [] \<Rightarrow> None | q # ps'' \<Rightarrow> if hd ts = q then Some (tl ts, ps'', star) else like_retry star)
         else if p = underscore then Some (tl ts, ps', star)
         else if p = percent then Some (ts, ps', Some (ps', ts))
         else if hd ts = p then Some (tl ts, ps', star)
         else like_retry star))"

text \<open>The whole loop; a loop that does not end has no outcome.\<close>

partial_function (option) like_loop :: "uchar option \<Rightarrow> like_state \<Rightarrow> bool option" where
  "like_loop esc s =
     (if fst s = [] then Some (dropWhile (\<lambda>c. c = percent) (fst (snd s)) = [])
      else case like_step esc s of None \<Rightarrow> Some False | Some s' \<Rightarrow> like_loop esc s')"

definition like_match :: "bytes \<Rightarrow> bytes \<Rightarrow> uchar option \<Rightarrow> bool \<Rightarrow> bool option" where
  "like_match txt pattern escape_char case_insensitive =
     (let fold_case = (if case_insensitive then ascii_lower_uchar else (\<lambda>c. c)) in
      like_loop (map_option fold_case escape_char) (map fold_case (text_chars txt), map fold_case (text_chars pattern), None))"

section \<open>The meaning of a pattern\<close>

fun like_spec :: "uchar option \<Rightarrow> uchar list \<Rightarrow> uchar list \<Rightarrow> bool" where
  "like_spec esc [] ts = (ts = [])"
| "like_spec esc (p # ps) ts =
     (if Some p = esc then (case ps of [] \<Rightarrow> False | q # ps' \<Rightarrow> ts \<noteq> [] \<and> hd ts = q \<and> like_spec esc ps' (tl ts))
      else if p = underscore then ts \<noteq> [] \<and> like_spec esc ps (tl ts)
      else if p = percent then list_ex (\<lambda>k. like_spec esc ps (drop k ts)) [0..<Suc (length ts)]
      else ts \<noteq> [] \<and> hd ts = p \<and> like_spec esc ps (tl ts))"

lemma like_spec_percent: "esc \<noteq> Some percent \<Longrightarrow> like_spec esc (percent # ps) ts \<longleftrightarrow> (\<exists>k \<le> length ts. like_spec esc ps (drop k ts))"
  by (auto simp: list_ex_iff less_Suc_eq_le simp del: upt_Suc)

text \<open>A pattern that begins with \<open>n\<close> parts for one character each, and its rest.\<close>

inductive singles :: "uchar option \<Rightarrow> nat \<Rightarrow> uchar list \<Rightarrow> uchar list \<Rightarrow> bool" for esc where
  none: "singles esc 0 ps ps"
| quoted: "singles esc n sp (c # q # ps) \<Longrightarrow> Some c = esc \<Longrightarrow> singles esc (Suc n) sp ps"
| plain: "singles esc n sp (c # ps) \<Longrightarrow> Some c \<noteq> esc \<Longrightarrow> c \<noteq> percent \<Longrightarrow> singles esc (Suc n) sp ps"

lemma singles_spec: "singles esc n sp ps \<Longrightarrow> like_spec esc sp ts \<Longrightarrow> n \<le> length ts \<and> like_spec esc ps (drop n ts)"
  by (induction rule: singles.induct) (auto split: if_splits simp: drop_Suc tl_drop Suc_le_eq)

lemma singles_length: "singles esc n sp ps \<Longrightarrow> length ps \<le> length sp"
  by (induction rule: singles.induct) auto

text \<open>The invariant of the loop: between the last \<^verbatim>\<open>%\<close> and here, every part of the pattern took one character.\<close>

fun like_inv :: "uchar option \<Rightarrow> like_state \<Rightarrow> bool" where
  "like_inv esc (ts, ps, None) = True"
| "like_inv esc (ts, ps, Some (sp, st)) = (\<exists>n \<le> length st. singles esc n sp ps \<and> ts = drop n st)"

fun like_goal :: "uchar option \<Rightarrow> like_state \<Rightarrow> bool" where
  "like_goal esc (ts, ps, None) = like_spec esc ps ts"
| "like_goal esc (ts, ps, Some (sp, st)) = (like_spec esc ps ts \<or> (\<exists>k. 1 \<le> k \<and> k \<le> length st \<and> like_spec esc sp (drop k st)))"

lemma spec_end: "esc \<noteq> Some percent \<Longrightarrow> like_spec esc ps [] \<longleftrightarrow> dropWhile (\<lambda>c. c = percent) ps = []"
  by (induction ps) (auto split: list.splits)

fun like_measure :: "like_state \<Rightarrow> nat \<times> nat \<times> nat" where
  "like_measure (ts, ps, None) = (Suc (length ps), 0, 0)"
| "like_measure (ts, ps, Some (sp, st)) = (length sp, length st, length ts + length ps)"

abbreviation like_smaller :: "(like_state \<times> like_state) set" where
  "like_smaller \<equiv> inv_image (less_than <*lex*> less_than <*lex*> less_than) like_measure"

lemma like_smaller_wf: "wf like_smaller"
  by (intro wf_inv_image wf_lex_prod wf_less_than)

definition step_ok :: "uchar option \<Rightarrow> like_state \<Rightarrow> like_state option \<Rightarrow> bool" where
  "step_ok esc s r = (case r of None \<Rightarrow> \<not> like_goal esc s
     | Some s' \<Rightarrow> like_inv esc s' \<and> (like_goal esc s' \<longleftrightarrow> like_goal esc s) \<and> (s', s) \<in> like_smaller)"

lemma first_or_later: "(\<exists>k \<le> length ts. P (drop k ts)) \<longleftrightarrow> P ts \<or> (\<exists>k. 1 \<le> k \<and> k \<le> length ts \<and> P (drop k ts))"
proof -
  have "P ts" if "k \<le> length ts" "P (drop k ts)" "\<not> (1 \<le> k)" for k using that by (cases k) auto
  moreover have "\<exists>k \<le> length ts. P (drop k ts)" if "P ts" using that by (intro exI [of _ 0]) simp
  ultimately show ?thesis by blast
qed

text \<open>Giving up the current attempt keeps the later ones.\<close>

lemma retry_ok:
  assumes inv: "like_inv esc (ts, ps, star)" and ne: "ts \<noteq> []" and no: "\<not> like_spec esc ps ts"
  shows "step_ok esc (ts, ps, star) (like_retry star)"
proof (cases star)
  case None
  then show ?thesis using no by (simp add: step_ok_def like_retry_def)
next
  case (Some s)
  obtain sp st where s: "s = (sp, st)" by (cases s)
  obtain n where n: "n \<le> length st" "ts = drop n st" using inv Some s by auto
  then obtain x xs where st: "st = x # xs" using ne by (cases st) auto
  have "(\<exists>k. 1 \<le> k \<and> k \<le> length st \<and> like_spec esc sp (drop k st)) \<longleftrightarrow> (\<exists>k \<le> length xs. like_spec esc sp (drop k xs))"
  proof
    assume "\<exists>k. 1 \<le> k \<and> k \<le> length st \<and> like_spec esc sp (drop k st)"
    then obtain k where "1 \<le> k" "k \<le> length st" "like_spec esc sp (drop k st)" by blast
    then show "\<exists>k \<le> length xs. like_spec esc sp (drop k xs)" using st by (cases k) auto
  next
    assume "\<exists>k \<le> length xs. like_spec esc sp (drop k xs)"
    then obtain k where "k \<le> length xs" "like_spec esc sp (drop k xs)" by blast
    then show "\<exists>k. 1 \<le> k \<and> k \<le> length st \<and> like_spec esc sp (drop k st)" using st by (intro exI [of _ "Suc k"]) simp
  qed
  also have "\<dots> \<longleftrightarrow> like_spec esc sp xs \<or> (\<exists>k. 1 \<le> k \<and> k \<le> length xs \<and> like_spec esc sp (drop k xs))"
    by (rule first_or_later)
  finally show ?thesis using no Some s st by (auto simp: step_ok_def like_retry_def intro: singles.none)
qed

lemma advance_ok:
  assumes inv: "like_inv esc (t # ts, ps, star)" and one: "\<And>n sp. singles esc n sp ps \<Longrightarrow> singles esc (Suc n) sp ps'"
    and shorter: "length ps' < length ps" and same: "like_spec esc ps (t # ts) \<longleftrightarrow> like_spec esc ps' ts"
  shows "step_ok esc (t # ts, ps, star) (Some (ts, ps', star))"
proof (cases star)
  case None
  then show ?thesis using shorter same by (simp add: step_ok_def)
next
  case (Some s)
  obtain sp st where s: "s = (sp, st)" by (cases s)
  obtain n where n: "n \<le> length st" "t # ts = drop n st" "singles esc n sp ps" using inv Some s by auto
  have "n < length st" using n(1,2) by (cases "n = length st") auto
  moreover have "ts = drop (Suc n) st" using n(2) by (metis drop_Suc list.sel(3) tl_drop)
  ultimately have "like_inv esc (ts, ps', star)" using one [OF n(3)] Some s by (auto intro!: exI [of _ "Suc n"])
  then show ?thesis using shorter same Some s by (simp add: step_ok_def)
qed

lemma percent_ok:
  assumes inv: "like_inv esc (ts, percent # ps, star)" and esc: "esc \<noteq> Some percent"
  shows "step_ok esc (ts, percent # ps, star) (Some (ts, ps, Some (ps, ts)))"
proof -
  have new: "like_goal esc (ts, ps, Some (ps, ts)) \<longleftrightarrow> like_spec esc (percent # ps) ts"
    unfolding like_spec_percent [OF esc] like_goal.simps by (rule first_or_later [symmetric])
  have start: "like_inv esc (ts, ps, Some (ps, ts))" using singles.none [of esc ps] by (auto intro: exI [of _ 0])
  show ?thesis
  proof (cases star)
    case None
    then show ?thesis using new start by (simp add: step_ok_def del: like_spec.simps like_goal.simps(2) like_inv.simps)
  next
    case (Some s)
    obtain sp st where s: "s = (sp, st)" by (cases s)
    obtain n where n: "n \<le> length st" "ts = drop n st" "singles esc n sp (percent # ps)" using inv Some s by auto
    have "like_spec esc (percent # ps) ts" if "k \<le> length st" "like_spec esc sp (drop k st)" for k
    proof -
      from singles_spec [OF n(3) that(2)] obtain j where "n \<le> length (drop k st)" "j \<le> length (drop n (drop k st))" "like_spec esc ps (drop j (drop n (drop k st)))"
        unfolding like_spec_percent [OF esc] by blast
      then show ?thesis using that(1) unfolding like_spec_percent [OF esc] n(2) by (intro exI [of _ "j + k"]) (auto simp: add.commute add.left_commute)
    qed
    then have "like_goal esc (ts, percent # ps, star) \<longleftrightarrow> like_spec esc (percent # ps) ts" using Some s by (auto simp del: like_spec.simps)
    moreover have "length ps < length sp" using singles_length [OF n(3)] by simp
    ultimately show ?thesis using new start Some s by (simp add: step_ok_def del: like_spec.simps like_goal.simps like_inv.simps)
  qed
qed

lemma like_step_ok:
  assumes inv: "like_inv esc (t # ts, ps, star)" and esc: "esc \<noteq> Some percent"
  shows "step_ok esc (t # ts, ps, star) (like_step esc (t # ts, ps, star))"
proof (cases ps)
  case Nil
  then show ?thesis using retry_ok [OF inv] by (simp add: like_step_def)
next
  case (Cons p ps')
  consider "Some p = esc" "ps' = []" | q ps'' where "Some p = esc" "ps' = q # ps''" | "Some p \<noteq> esc" "p = percent" | "Some p \<noteq> esc" "p \<noteq> percent"
    by (cases ps') auto
  then show ?thesis
  proof cases
    case 1
    then have "like_goal esc (t # ts, ps, star) = False" using inv Cons singles_spec [of esc _ _ "[p]"] by (cases star) (fastforce split: if_splits)+
    then show ?thesis using 1 Cons by (simp add: step_ok_def like_step_def del: like_goal.simps)
  next
    case (2 q ps'')
    have "singles esc (Suc n) sp ps''" if "singles esc n sp ps" for n sp using singles.quoted [of esc n sp p q ps''] that 2 Cons by simp
    then show ?thesis using advance_ok [OF inv, of ps''] retry_ok [OF inv] 2 Cons by (auto simp: like_step_def)
  next
    case 3
    then show ?thesis using percent_ok [of esc "t # ts" ps' star] inv esc Cons by (auto simp: like_step_def)
  next
    case 4
    have "singles esc (Suc n) sp ps'" if "singles esc n sp ps" for n sp using singles.plain [of esc n sp p ps'] that 4 Cons by simp
    then show ?thesis using advance_ok [OF inv, of ps'] retry_ok [OF inv] 4 Cons by (auto simp: like_step_def)
  qed
qed

lemma like_loop_spec:
  assumes "esc \<noteq> Some percent"
  shows "like_inv esc s \<Longrightarrow> like_loop esc s = Some (like_goal esc s)"
proof (induction s rule: wf_induct_rule [OF like_smaller_wf])
  case (1 s)
  note IH = 1(1) and inv = 1(2)
  obtain ts ps star where s: "s = (ts, ps, star)" by (cases s) auto
  show ?case
  proof (cases ts)
    case Nil
    have "like_goal esc s = like_spec esc ps []"
    proof (cases star)
      case (Some x)
      obtain sp st where x: "x = (sp, st)" by (cases x)
      obtain n where n: "n \<le> length st" "[] = drop n st" "singles esc n sp ps" using inv Some x s Nil by auto
      then have "\<not> like_spec esc sp (drop k st)" if "1 \<le> k" "k \<le> length st" for k using singles_spec [OF n(3), of "drop k st"] that by auto
      then show ?thesis using Some x s Nil by auto
    qed (simp add: s Nil)
    then show ?thesis using spec_end [OF assms, of ps] s Nil by (subst like_loop.simps) (simp del: like_goal.simps)
  next
    case (Cons t ts')
    then have ok: "step_ok esc s (like_step esc s)" using like_step_ok [of esc t ts' ps star] inv assms s by simp
    show ?thesis
    proof (cases "like_step esc s")
      case None
      then show ?thesis using ok s Cons by (subst like_loop.simps) (simp add: step_ok_def del: like_goal.simps)
    next
      case (Some s')
      then have "like_loop esc s' = Some (like_goal esc s')" "like_goal esc s' = like_goal esc s" using ok IH by (simp_all add: step_ok_def del: in_inv_image)
      then show ?thesis using Some s Cons by (subst like_loop.simps) (simp del: like_goal.simps)
    qed
  qed
qed

text \<open>With \<^verbatim>\<open>%\<close> as the escape character there is nothing to go back to.\<close>

lemma like_loop_percent: "\<exists>b. like_loop (Some percent) (ts, ps, None) = Some b"
proof (induction "length ps" arbitrary: ts ps rule: less_induct)
  case less
  show ?case
  proof (cases "ts = []")
    case False
    have "\<exists>ts' ps'. s' = (ts', ps', None) \<and> length ps' < length ps" if "like_step (Some percent) (ts, ps, None) = Some s'" for s'
      using that by (auto simp: like_step_def like_retry_def split: list.splits if_splits)
    then show ?thesis using less False by (subst like_loop.simps) (fastforce split: option.splits)
  qed (subst like_loop.simps, simp)
qed

lemma like_match_ends: "\<exists>b. like_match txt pattern escape_char case_insensitive = Some b"
proof -
  have "\<exists>b. like_loop esc (ts, ps, None) = Some b" for esc ts ps
    using like_loop_spec [of esc "(ts, ps, None)"] like_loop_percent [of ts ps] by (cases "esc = Some percent") auto
  then show ?thesis by (simp add: like_match_def Let_def)
qed

text \<open>C21: The matcher, which goes back only to the last \<^verbatim>\<open>%\<close> when the characters differ, always ends, and accepts a text
  exactly if the pattern means it: some choice of a length for every \<^verbatim>\<open>%\<close> works, with \<^verbatim>\<open>_\<close> for one character, the character
  behind an escape character for itself, and letters compared without case where the pattern says so.\<close>

theorem like_match_correct:
  fixes case_insensitive :: bool
  defines "fold_case \<equiv> (if case_insensitive then ascii_lower_uchar else (\<lambda>c. c))"
  assumes "escape_char \<noteq> Some percent"
  shows "like_match txt pattern escape_char case_insensitive
    = Some (like_spec (map_option fold_case escape_char) (map fold_case (text_chars pattern)) (map fold_case (text_chars txt)))"
proof -
  have "map_option fold_case escape_char \<noteq> Some percent"
    using assms(2) by (cases escape_char) (auto simp: fold_case_def ascii_lower_uchar_def split: if_splits)
  then show ?thesis by (simp add: like_match_def like_loop_spec fold_case_def Let_def)
qed

theorem like_match_correct_witness:
  "like_match (map (\<lambda>c. word_of_nat (of_char c)) ''Banana'') (map (\<lambda>c. word_of_nat (of_char c)) ''b%na'') None True = Some True"
proof -
  let ?t = "map (\<lambda>c. word_of_nat (of_char c) :: u8) ''Banana''" let ?p = "map (\<lambda>c. word_of_nat (of_char c) :: u8) ''b%na''"
  have "like_spec None (map ascii_lower_uchar (text_chars ?p)) (map ascii_lower_uchar (text_chars ?t))" by code_simp
  then show ?thesis using like_match_correct [of None ?t ?p True] by simp
qed

end
