(* ===== verification/F64Arith.thy ===== *)
theory F64Arith
  imports Float64
begin

text \<open>
  Arithmetic of Rust's \<^verbatim>\<open>f64\<close>: the exact result of an operation on two finite doubles is rounded to the nearest double, ties to
  even. A finite double is a multiple of the smallest positive one, so the exact results are fractions of integers. Every NaN
  result is the quiet NaN with no payload.
\<close>

section \<open>Rounding\<close>

definition f64_nan :: f64 where
  "f64_nan = word_of_nat (2047 * 2 ^ 52 + 2 ^ 51)"

definition f64_make :: "bool \<Rightarrow> nat \<Rightarrow> f64" where
  "f64_make neg m = word_of_nat ((if neg then 2 ^ 63 else 0) + m)"

definition f64_is_inf :: "f64 \<Rightarrow> bool" where
  "f64_is_inf b \<longleftrightarrow> f64_magnitude b = f64_infinity_bits"

definition f64_is_zero :: "f64 \<Rightarrow> bool" where
  "f64_is_zero b \<longleftrightarrow> f64_magnitude b = 0"

text \<open>The magnitude of a finite double in units of the smallest positive double, \<open>2 powr (- 1074)\<close>.\<close>

definition f64_units :: "f64 \<Rightarrow> nat" where
  "f64_units b =
     (let e = f64_magnitude b div 2 ^ 52; m = f64_magnitude b mod 2 ^ 52 in
      if e = 0 then m else (2 ^ 52 + m) * 2 ^ (e - 1))"

text \<open>The number 1 in these units.\<close>

definition f64_one :: nat where
  "f64_one = 2 ^ 1074"

definition f64_int :: "f64 \<Rightarrow> int" where
  "f64_int b = (if f64_negative b then - int (f64_units b) else int (f64_units b))"

definition div_half_even :: "nat \<Rightarrow> nat \<Rightarrow> nat" where
  "div_half_even p q = (let d = p div q; r = p mod q in if q < 2 * r \<or> 2 * r = q \<and> odd d then Suc d else d)"

text \<open>The magnitude bits of the double nearest to \<open>p / q\<close> units.\<close>

definition f64_round :: "nat \<Rightarrow> nat \<Rightarrow> nat" where
  "f64_round p q = (let e = bit_len (p div q) - 53 in min f64_infinity_bits (e * 2 ^ 52 + div_half_even p (q * 2 ^ e)))"

section \<open>Operations\<close>

definition f64_neg :: "f64 \<Rightarrow> f64" where
  "f64_neg b = f64_make (\<not> f64_negative b) (f64_magnitude b)"

definition f64_add :: "f64 \<Rightarrow> f64 \<Rightarrow> f64" where
  "f64_add a b =
     (if f64_is_nan a \<or> f64_is_nan b then f64_nan
      else if f64_is_inf a then (if f64_is_inf b \<and> f64_negative a \<noteq> f64_negative b then f64_nan else a)
      else if f64_is_inf b then b
      else let s = f64_int a + f64_int b in
        if s = 0 then f64_make (f64_negative a \<and> f64_negative b) 0 else f64_make (s < 0) (f64_round (nat \<bar>s\<bar>) 1))"

definition f64_sub :: "f64 \<Rightarrow> f64 \<Rightarrow> f64" where
  "f64_sub a b = (if f64_is_nan b then f64_nan else f64_add a (f64_neg b))"

definition f64_mul :: "f64 \<Rightarrow> f64 \<Rightarrow> f64" where
  "f64_mul a b =
     (let neg = (f64_negative a \<noteq> f64_negative b) in
      if f64_is_nan a \<or> f64_is_nan b then f64_nan
      else if f64_is_inf a \<and> f64_is_zero b \<or> f64_is_zero a \<and> f64_is_inf b then f64_nan
      else if f64_is_inf a \<or> f64_is_inf b then f64_make neg f64_infinity_bits
      else f64_make neg (f64_round (f64_units a * f64_units b) f64_one))"

definition f64_div :: "f64 \<Rightarrow> f64 \<Rightarrow> f64" where
  "f64_div a b =
     (let neg = (f64_negative a \<noteq> f64_negative b) in
      if f64_is_nan a \<or> f64_is_nan b then f64_nan
      else if f64_is_inf a \<and> f64_is_inf b \<or> f64_is_zero a \<and> f64_is_zero b then f64_nan
      else if f64_is_inf a \<or> f64_is_zero b then f64_make neg f64_infinity_bits
      else if f64_is_inf b then f64_make neg 0
      else f64_make neg (f64_round (f64_units a * f64_one) (f64_units b)))"

text \<open>\<^verbatim>\<open>fract() == 0.0\<close>: the number has no digits behind the point (no infinity or NaN).\<close>

definition f64_is_whole :: "f64 \<Rightarrow> bool" where
  "f64_is_whole b \<longleftrightarrow> f64_magnitude b < f64_infinity_bits \<and> f64_units b mod f64_one = 0"

section \<open>Exact results\<close>

lemma unat_make: "m < 2 ^ 63 \<Longrightarrow> unat (f64_make neg m) = (if neg then 2 ^ 63 else 0) + m"
  unfolding f64_make_def by (subst unat_of_nat) (simp del: of_nat_add)

lemma make_fields [simp]: "m < 2 ^ 63 \<Longrightarrow> f64_magnitude (f64_make neg m) = m" "m < 2 ^ 63 \<Longrightarrow> f64_negative (f64_make neg m) = neg"
  using unat_make [of m neg] by (auto simp: f64_magnitude_def f64_negative_def)

lemma bit_len_unique:
  assumes "2 ^ n \<le> x" and "x < 2 ^ Suc n"
  shows "bit_len x = Suc n"
proof -
  have x: "0 < x" using assms(1) by (rule less_le_trans [rotated]) simp
  have "(2::nat) ^ n < 2 ^ bit_len x" using bit_len_bounds [OF x] assms(1) by linarith
  then have "n < bit_len x" by (rule power_less_imp_less_exp [rotated]) simp
  then show ?thesis using bit_len_le [OF x assms(2)] by simp
qed

lemma div_half_even_exact: "0 < q \<Longrightarrow> div_half_even (x * q) q = x"
  by (simp add: div_half_even_def)

text \<open>A double is the rounding of itself.\<close>

lemma round_units:
  assumes "f64_magnitude b \<le> f64_infinity_bits"
  shows "f64_round (f64_units b) 1 = f64_magnitude b"
proof -
  define M e m where "M = f64_magnitude b" and "e = M div 2 ^ 52" and "m = M mod 2 ^ 52"
  have M: "M = e * 2 ^ 52 + m" and m: "m < 2 ^ 52" by (simp_all add: e_def m_def)
  show ?thesis
  proof (cases e)
    case 0
    then have u: "f64_units b = m" by (simp add: f64_units_def Let_def e_def m_def M_def)
    have "bit_len m \<le> 52" using bit_len_le [of m 52] m by (cases "m = 0") (simp_all add: bit_len.simps [of 0])
    then have "f64_round m 1 = min f64_infinity_bits m" using div_half_even_exact [of 1 m] by (simp add: f64_round_def)
    then show ?thesis using u M 0 assms by (simp add: M_def)
  next
    case (Suc k)
    then have u: "f64_units b = (2 ^ 52 + m) * 2 ^ k" using e_def m_def M_def by (auto simp: f64_units_def Let_def)
    have "bit_len ((2 ^ 52 + m) * 2 ^ k) = Suc (52 + k)"
    proof (rule bit_len_unique)
      show "2 ^ (52 + k) \<le> (2 ^ 52 + m) * 2 ^ k" by (simp only: power_add) simp
      have "(2 ^ 52 + m) * 2 ^ k < (2 * 2 ^ 52) * 2 ^ k" using m by (intro mult_strict_right_mono) simp_all
      then show "(2 ^ 52 + m) * 2 ^ k < 2 ^ Suc (52 + k)" by (simp only: power_add power_Suc mult.assoc)
    qed
    then have "f64_round (f64_units b) 1 = min f64_infinity_bits (k * 2 ^ 52 + (2 ^ 52 + m))"
      using div_half_even_exact [of "2 ^ k" "2 ^ 52 + m"] u by (simp add: f64_round_def Let_def)
    also have "k * 2 ^ 52 + (2 ^ 52 + m) = M" using M Suc by simp
    finally show ?thesis using assms by (simp add: M_def)
  qed
qed

lemma magnitude_bound: "f64_magnitude b < 2 ^ 63"
  by (simp add: f64_magnitude_def)

lemma make_same: "f64_make (f64_negative b) (f64_magnitude b) = b"
proof -
  have "unat b < 2 ^ 64" using unsigned_less [of b] by simp
  then have "(if f64_negative b then 2 ^ 63 else 0) + f64_magnitude b = unat b"
    by (cases "2 ^ 63 \<le> unat b") (simp_all add: f64_negative_def f64_magnitude_def le_mod_geq)
  then show ?thesis by (simp add: f64_make_def)
qed

text \<open>Laws of the arithmetic: negation is an involution, addition and multiplication commute, adding zero changes nothing.\<close>

lemma f64_neg_neg: "f64_neg (f64_neg b) = b"
  using magnitude_bound [of b] make_same [of b] by (simp only: f64_neg_def make_fields) simp

lemma f64_add_commute: "f64_add a b = f64_add b a"
proof -
  have "a = b" if "f64_is_inf a" "f64_is_inf b" "f64_negative a = f64_negative b"
    using that make_same [of a] make_same [of b] by (simp add: f64_is_inf_def)
  then show ?thesis unfolding f64_add_def by (auto simp: add.commute Let_def)
qed

lemma f64_mul_commute: "f64_mul a b = f64_mul b a"
proof -
  have "(f64_negative a \<noteq> f64_negative b) = (f64_negative b \<noteq> f64_negative a)" by blast
  then show ?thesis unfolding f64_mul_def Let_def by (simp only: mult.commute [of "f64_units a"] disj_commute conj_commute)
qed

lemma units_zero: "f64_units b = 0 \<longleftrightarrow> f64_magnitude b = 0"
  by (auto simp: f64_units_def Let_def div_eq_0_iff)

lemma f64_add_zero:
  assumes "\<not> f64_is_nan b" and "\<not> f64_is_zero b"
  shows "f64_add b 0 = b"
proof -
  have z: "f64_magnitude 0 = 0" "\<not> f64_negative 0" "f64_int 0 = 0" by (simp_all add: f64_magnitude_def f64_negative_def f64_int_def f64_units_def)
  have n: "\<not> f64_is_nan 0" "\<not> f64_is_inf 0" using z by (simp_all add: f64_is_nan_def f64_is_inf_def f64_infinity_bits_def)
  have u: "f64_units b \<noteq> 0" using assms(2) by (simp add: units_zero f64_is_zero_def)
  then have "f64_make (f64_int b < 0) (f64_round (nat \<bar>f64_int b\<bar>) 1) = b" if "f64_magnitude b \<le> f64_infinity_bits"
    using round_units [OF that] make_same [of b] by (auto simp: f64_int_def)
  then show ?thesis using assms n z u by (auto simp: f64_add_def Let_def f64_is_nan_def f64_int_def)
qed

end
