(* ===== verification/NumText.thy ===== *)
theory NumText
  imports F64Arith StdLib "HOL-Library.Signed_Division"
begin

text \<open>
  Numbers as text: what \<^verbatim>\<open>parse::<f64>\<close> and \<^verbatim>\<open>{}\<close> of the standard library do, and on them the display and
  the conversions of values and the calendar of \<^verbatim>\<open>src/src/types.rs\<close>.
\<close>

section \<open>ASCII text\<close>

definition ascii :: "string \<Rightarrow> bytes" where
  "ascii s = map (\<lambda>c. word_of_nat (of_char c)) s"

definition text_str :: "bytes \<Rightarrow> string" where
  "text_str t = map (\<lambda>b. char_of (unat b)) t"

definition trim_text :: "bytes \<Rightarrow> bytes" where
  "trim_text t = ascii (trim (text_str t))"

definition is_digit :: "u8 \<Rightarrow> bool" where
  "is_digit b \<longleftrightarrow> 48 \<le> b \<and> b \<le> 57"

definition digits_value :: "bytes \<Rightarrow> nat" where
  "digits_value ds = foldl (\<lambda>n b. n * 10 + (unat b - 48)) 0 ds"

text \<open>A leading sign and the rest.\<close>

definition split_sign :: "bytes \<Rightarrow> bool \<times> bytes" where
  "split_sign t = (case t of [] \<Rightarrow> (False, []) | c # r \<Rightarrow> if c = 45 then (True, r) else if c = 43 then (False, r) else (False, t))"

section \<open>Reading numbers\<close>

text \<open>The magnitude bits of the double nearest to \<open>m\<close> times a power of ten.\<close>

definition decimal_bits :: "nat \<Rightarrow> int \<Rightarrow> nat" where
  "decimal_bits m e = (if 0 \<le> e then f64_round (m * 10 ^ nat e * f64_one) 1 else f64_round (m * f64_one) (10 ^ nat (- e)))"

definition parse_exponent :: "bytes \<Rightarrow> int option" where
  "parse_exponent t =
     (case t of [] \<Rightarrow> Some 0
      | c # r \<Rightarrow> if c \<noteq> 101 \<and> c \<noteq> 69 then None
          else case split_sign r of (neg, ds) \<Rightarrow>
            if ds = [] \<or> \<not> list_all is_digit ds then None
            else Some (if neg then - int (digits_value ds) else int (digits_value ds)))"

definition parse_decimal :: "bytes \<Rightarrow> nat option" where
  "parse_decimal t =
     (let ip = takeWhile is_digit t; r1 = dropWhile is_digit t;
          (fp, r2) = (case r1 of [] \<Rightarrow> ([], []) | c # r \<Rightarrow> if c = 46 then (takeWhile is_digit r, dropWhile is_digit r) else ([], r1))
      in if ip = [] \<and> fp = [] then None
         else map_option (\<lambda>e. decimal_bits (digits_value (ip @ fp)) (e - int (length fp))) (parse_exponent r2))"

definition parse_f64 :: "bytes \<Rightarrow> f64 option" where
  "parse_f64 t =
     (case split_sign t of (neg, r) \<Rightarrow>
        if r = [] then None
        else case parse_decimal r of
            Some m \<Rightarrow> Some (f64_make neg m)
          | None \<Rightarrow>
              let w = to_ascii_lowercase (text_str r) in
              if w = ''inf'' \<or> w = ''infinity'' then Some (f64_make neg f64_infinity_bits)
              else if w = ''nan'' then Some (if neg then f64_neg f64_nan else f64_nan)
              else None)"

section \<open>Showing numbers\<close>

text \<open>
  A double is shown with the fewest decimal digits that are read back as the same double; of two such numbers with the same digits
  the nearer one. \<open>p / q\<close> is the value; there are \<open>k\<close> digits in front of the point (a value below 0.1 has fewer than none).
\<close>

definition digits_before :: "nat \<Rightarrow> nat \<Rightarrow> int" where
  "digits_before p q =
     (if q \<le> p then int (length (show_nat (p div q)))
      else 1 - int (length (takeWhile (\<lambda>j. p * 10 ^ j < q) [0..<400])))"

definition scaled_div :: "nat \<Rightarrow> nat \<Rightarrow> int \<Rightarrow> nat \<times> nat" where
  "scaled_div p q e = (if 0 \<le> e then (p, q * 10 ^ nat e) else (p * 10 ^ nat (- e), q))"

definition candidates :: "nat \<Rightarrow> int \<Rightarrow> nat \<Rightarrow> nat list" where
  "candidates m k n =
     (let e = k - int n; (p, q) = scaled_div (f64_units (f64_make False m)) f64_one e; d = p div q; r = p mod q in
      filter (\<lambda>c. decimal_bits c e = m) (if q \<le> 2 * r then [Suc d, d] else [d, Suc d]))"

definition shortest :: "nat \<Rightarrow> nat \<times> int" where
  "shortest m =
     (let k = digits_before (f64_units (f64_make False m)) f64_one in
      case find (\<lambda>n. candidates m k n \<noteq> []) [1..<18] of
        None \<Rightarrow> (0, 0)
      | Some n \<Rightarrow> let c = hd (candidates m k n) in if c = 10 ^ n then (1, k) else (c, k - int n))"

definition show_decimal :: "nat \<Rightarrow> int \<Rightarrow> string" where
  "show_decimal d e =
     (let ds = show_nat d in
      if 0 \<le> e then ds @ replicate (nat e) (CHR ''0'')
      else let f = nat (- e) in
        if f < length ds then take (length ds - f) ds @ ''.'' @ drop (length ds - f) ds
        else ''0.'' @ replicate (f - length ds) (CHR ''0'') @ ds)"

definition show_f64 :: "f64 \<Rightarrow> string" where
  "show_f64 b =
     (if f64_is_nan b then ''NaN''
      else (if f64_negative b then ''-'' else []) @
        (if f64_is_inf b then ''inf''
         else if f64_is_zero b then ''0''
         else case shortest (f64_magnitude b) of (d, e) \<Rightarrow> show_decimal d e))"

section \<open>Values\<close>

definition hex_encode :: "bytes \<Rightarrow> string" where
  "hex_encode bs = concat (map show_hex2 bs)"

definition value_display :: "value \<Rightarrow> bytes" where
  "value_display v =
     (case v of
        Null \<Rightarrow> ascii ''NULL''
      | Integer i \<Rightarrow> ascii (show_int (sint i))
      | Real r \<Rightarrow> ascii (show_f64 r)
      | Text t \<Rightarrow> t
      | Blob b \<Rightarrow> ascii (CHR ''x'' # CHR 0x27 # hex_encode b @ [CHR 0x27]))"

definition to_f64 :: "value \<Rightarrow> f64 option" where
  "to_f64 v = (case v of Integer i \<Rightarrow> Some (i64_as_f64 i) | Real r \<Rightarrow> Some r | Text t \<Rightarrow> parse_f64 t | _ \<Rightarrow> None)"

text \<open>Seconds since 1970 as year, month, day, hour, minute, second. The intermediate values are 64-bit and far from overflow for
  the seconds of an \<^verbatim>\<open>i64\<close> number of milliseconds; the year is cut to 32 bits as in the source.\<close>

definition epoch_secs_to_datetime :: "nat \<Rightarrow> nat \<times> nat \<times> nat \<times> nat \<times> nat \<times> nat" where
  "epoch_secs_to_datetime secs =
     (let s = secs mod 86400; h = s div 3600; mi = (s mod 3600) div 60; sec = s mod 60;
          days = secs div 86400;
          z = days + 719468;
          era = z div 146097;
          doe = z - era * 146097;
          yoe = (doe - doe div 1460 + doe div 36524 - doe div 146096) div 365;
          y = (yoe + era * 400) mod 2 ^ 32;
          doy = doe - (365 * yoe + yoe div 4 - yoe div 100);
          mp = (5 * doy + 2) div 153;
          d = doy - (153 * mp + 2) div 5 + 1;
          m = (if mp < 10 then mp + 3 else mp - 9);
          y = (if m \<le> 2 then y + 1 else y)
      in (y, m, d, h, mi, sec))"

definition show_padded :: "nat \<Rightarrow> nat \<Rightarrow> string" where
  "show_padded w n = replicate (w - length (show_nat n)) (CHR ''0'') @ show_nat n"

definition format_as_timestamp :: "value \<Rightarrow> bytes" where
  "format_as_timestamp v =
     (case v of
        Integer i \<Rightarrow>
          (let secs = nat (max 0 (sint i sdiv 1000)); ms = nat \<bar>sint i smod 1000\<bar>;
               (y, mo, d, h, mi, s) = epoch_secs_to_datetime secs
           in ascii (show_padded 4 y @ ''-'' @ show_padded 2 mo @ ''-'' @ show_padded 2 d @ ''T'' @ show_padded 2 h @ '':''
                @ show_padded 2 mi @ '':'' @ show_padded 2 s @ ''.'' @ show_padded 3 ms @ ''Z''))
      | Text t \<Rightarrow> t
      | _ \<Rightarrow> value_display v)"

definition format_for_column :: "value \<Rightarrow> data_type \<Rightarrow> bytes" where
  "format_for_column v dtype = (if dtype = DtTimestamp then format_as_timestamp v else value_display v)"

end
