(* ===== verification/Expr.thy ===== *)
theory Expr
  imports Like NumText
begin

text \<open>
  SQL expressions, \<^verbatim>\<open>src/src/sql/ast.rs\<close>, and their evaluation on a row, \<^verbatim>\<open>src/src/vm/eval_expr.rs\<close>: column lookup through the
  rows of enclosing queries, operators with three-valued logic, \<^verbatim>\<open>IN\<close>, \<^verbatim>\<open>LIKE\<close>, \<^verbatim>\<open>BETWEEN\<close>, \<^verbatim>\<open>CASE\<close>, \<^verbatim>\<open>CAST\<close>, subqueries and a part of the
  built-in functions. The evaluator calls other components: the execution of a subquery, the tokenizer (which rests on a dictionary
  crate), the Unicode tables, and the built-in functions that are not written out here; they are fields of the environment.
\<close>

section \<open>Expressions\<close>

datatype binary_operator =
    OpAdd | OpSubtract | OpMultiply | OpDivide | OpModulo
  | OpEqual | OpNotEqual | OpLessThan | OpLessThanOrEqual | OpGreaterThan | OpGreaterThanOrEqual
  | OpAnd | OpOr | OpConcat | OpXor
  | OpBitwiseOr | OpBitwiseAnd | OpBitwiseXor | OpShiftLeft | OpShiftRight | OpFtsMatch

datatype unary_operator = OpMinus | OpNot

datatype cast_target = CastInteger | CastReal | CastText | CastBlob | CastNumeric | CastDate | CastTime | CastTimestamp | CastJson

text \<open>The type of \<^verbatim>\<open>SELECT\<close> statements is a parameter; the window function itself plays no role in an evaluation.\<close>

datatype 'q expr =
    IntegerLiteral i64
  | RealLiteral f64
  | StringLiteral bytes
  | BlobLiteral bytes
  | NullLiteral
  | ColumnRef "string option" string
  | Interval "'q expr" "string option"
  | Collate "'q expr" string
  | BinaryOp "'q expr" binary_operator "'q expr"
  | UnaryOp unary_operator "'q expr"
  | IsNull "'q expr" bool
  | InList "'q expr" "'q expr list" bool
  | LikeExpr "'q expr" "'q expr" "uchar option" bool bool
  | Between "'q expr" "'q expr" "'q expr" bool
  | FunctionCall string "'q expr list" bool
  | WindowFunction
  | Subquery 'q
  | InSubquery "'q expr" 'q bool
  | Exists 'q
  | AnyOp "'q expr" binary_operator 'q
  | AllOp "'q expr" binary_operator 'q
  | Nested "'q expr"
  | Case "'q expr option" "('q expr \<times> 'q expr) list" "'q expr option"
  | Cast "'q expr" cast_target bool
  | MatchAgainst "string list" bytes
  | Placeholder nat

type_synonym col_map = "string \<Rightarrow> nat option"
type_synonym scope = "row \<times> col_map"

text \<open>What an evaluation needs of the virtual machine. A subquery is executed under the rows of the enclosing queries; its result
  is a list of rows, or nothing for a statement that does not return rows.\<close>

record 'q eval_env =
  current_params :: "value list"
  outer_rows :: "scope list"
  session_vars :: "bytes \<Rightarrow> bytes option"
  exec_select :: "scope list \<Rightarrow> 'q \<Rightarrow> row list option res"
  tokenize :: "bytes \<Rightarrow> bytes list"
  to_lowercase :: "bytes \<Rightarrow> bytes"
  to_uppercase :: "bytes \<Rightarrow> bytes"
  is_alphanumeric :: "uchar \<Rightarrow> bool"
  other_function :: "string \<Rightarrow> value res list \<Rightarrow> value res"

definition from_value :: "value \<Rightarrow> 'q expr" where
  "from_value v =
     (case v of Null \<Rightarrow> NullLiteral | Integer i \<Rightarrow> IntegerLiteral i | Real r \<Rightarrow> RealLiteral r | Text t \<Rightarrow> StringLiteral t | Blob b \<Rightarrow> BlobLiteral b)"

definition bool_value :: "bool \<Rightarrow> value" where
  "bool_value b = Integer (if b then 1 else 0)"

section \<open>Names\<close>

text \<open>A column of a row; a row that is too short has NULL there.\<close>

definition column_of :: "scope \<Rightarrow> nat \<Rightarrow> value" where
  "column_of sc i = (if i < length (fst sc) then fst sc ! i else Null)"

definition lookup_column :: "string \<Rightarrow> scope \<Rightarrow> value option" where
  "lookup_column name sc = map_option (column_of sc) (snd sc name)"

fun first_some :: "('a \<Rightarrow> 'b option) \<Rightarrow> 'a list \<Rightarrow> 'b option" where
  "first_some f [] = None"
| "first_some f (x # xs) = (case f x of None \<Rightarrow> first_some f xs | Some y \<Rightarrow> Some y)"

text \<open>The key \<^verbatim>\<open>table.column\<close> is built byte by byte; a byte of a multi-byte character becomes a character of its own.\<close>

definition push_byte_as_char :: "char \<Rightarrow> string" where
  "push_byte_as_char c = (let n = (of_char c :: nat) in if n < 128 then [c] else [char_of (0xC0 + n div 64), char_of (0x80 + n mod 64)])"

definition lower_bytes_as_chars :: "string \<Rightarrow> string" where
  "lower_bytes_as_chars s = concat (map (\<lambda>c. push_byte_as_char (ascii_lower c)) s)"

definition qualified_key :: "string \<Rightarrow> string \<Rightarrow> string" where
  "qualified_key t c = lower_bytes_as_chars t @ ''.'' @ lower_bytes_as_chars c"

definition or_else :: "'a option \<Rightarrow> 'a option \<Rightarrow> 'a option" where
  "or_else a b = (case a of None \<Rightarrow> b | Some x \<Rightarrow> Some x)"

definition eval_column :: "'q eval_env \<Rightarrow> string option \<Rightarrow> string \<Rightarrow> scope \<Rightarrow> value res" where
  "eval_column env tbl column sc =
     (let qualified = (case tbl of None \<Rightarrow> None
            | Some t \<Rightarrow> let key = qualified_key t column in
                or_else (lookup_column key sc) (first_some (lookup_column key) (rev (outer_rows env))));
          lower = to_ascii_lowercase column;
          unqualified = or_else (lookup_column column sc) (if lower \<noteq> column then lookup_column lower sc else None);
          outer = first_some (\<lambda>o'. or_else (lookup_column column o') (lookup_column lower o')) (rev (outer_rows env))
      in case or_else qualified (or_else unqualified outer) of
           Some v \<Rightarrow> Ok v
         | None \<Rightarrow> Err (ColumnNotFound column))"

definition eval_placeholder :: "'q eval_env \<Rightarrow> nat \<Rightarrow> value res" where
  "eval_placeholder env i =
     (let n = length (current_params env) in
      if i < n then Ok (current_params env ! i)
      else Err (RuntimeError (''parameter index '' @ show_nat i @ '' out of range ('' @ show_nat n @ '' parameter''
                 @ (if n = 1 then [] else ''s'') @ '' supplied)'')))"

section \<open>Text\<close>

definition lower_bytes :: "bytes \<Rightarrow> bytes" where
  "lower_bytes t = map (\<lambda>b. if 65 \<le> b \<and> b \<le> 90 then b + 32 else b) t"

definition has_prefix :: "bytes \<Rightarrow> bytes \<Rightarrow> bool" where
  "has_prefix t p \<longleftrightarrow> take (length p) t = p"

text \<open>\<^verbatim>\<open>str::find\<close>: the first byte position of a substring.\<close>

definition text_find :: "bytes \<Rightarrow> bytes \<Rightarrow> nat option" where
  "text_find t p = find (\<lambda>i. has_prefix (drop i t) p) [0..<Suc (length t)]"

definition text_contains :: "bytes \<Rightarrow> bytes \<Rightarrow> bool" where
  "text_contains t p \<longleftrightarrow> text_find t p \<noteq> None"

fun join_texts :: "bytes list \<Rightarrow> bytes" where
  "join_texts [] = []"
| "join_texts [t] = t"
| "join_texts (t # ts) = t @ ascii '' '' @ join_texts ts"

definition texts_of :: "row \<Rightarrow> bytes list" where
  "texts_of r = concat (map (\<lambda>v. case v of Text t \<Rightarrow> [t] | _ \<Rightarrow> []) r)"

definition show_hex_upper :: "bytes \<Rightarrow> string" where
  "show_hex_upper bs = to_ascii_uppercase (hex_encode bs)"

section \<open>Operators\<close>

definition numeric_op :: "(i64 \<Rightarrow> i64 \<Rightarrow> value) \<Rightarrow> (f64 \<Rightarrow> f64 \<Rightarrow> value) \<Rightarrow> value \<Rightarrow> value \<Rightarrow> value" where
  "numeric_op f g l r =
     (case (l, r) of
        (Integer a, Integer b) \<Rightarrow> f a b
      | (Real a, Real b) \<Rightarrow> g a b
      | (Integer a, Real b) \<Rightarrow> g (i64_as_f64 a) b
      | (Real a, Integer b) \<Rightarrow> g a (i64_as_f64 b)
      | _ \<Rightarrow> Null)"

definition int_op :: "(i64 \<Rightarrow> i64 \<Rightarrow> value) \<Rightarrow> value \<Rightarrow> value \<Rightarrow> value" where
  "int_op f l r = (case (l, r) of (Integer a, Integer b) \<Rightarrow> f a b | _ \<Rightarrow> Null)"

definition wrapping_div :: "i64 \<Rightarrow> i64 \<Rightarrow> i64" where
  "wrapping_div a b = word_of_int (sint a sdiv sint b)"

definition wrapping_rem :: "i64 \<Rightarrow> i64 \<Rightarrow> i64" where
  "wrapping_rem a b = word_of_int (sint a smod sint b)"

definition divide_values :: "value \<Rightarrow> value \<Rightarrow> value" where
  "divide_values l r =
     (case (l, r) of
        (Integer a, Integer b) \<Rightarrow> if b = 0 then Null else Integer (wrapping_div a b)
      | (Real a, Real b) \<Rightarrow> if f64_eq b 0 then Null else Real (f64_div a b)
      | (Integer a, Real b) \<Rightarrow> if f64_eq b 0 then Null else Real (f64_div (i64_as_f64 a) b)
      | (Real a, Integer b) \<Rightarrow> if b = 0 then Null else Real (f64_div a (i64_as_f64 b))
      | _ \<Rightarrow> Null)"

definition shift_op :: "(nat \<Rightarrow> i64 \<Rightarrow> i64) \<Rightarrow> value \<Rightarrow> value \<Rightarrow> value" where
  "shift_op f = int_op (\<lambda>a b. if 0 \<le> sint b \<and> sint b < 64 then Integer (f (nat (sint b)) a) else Null)"

definition shr_i64 :: "nat \<Rightarrow> i64 \<Rightarrow> i64" where
  "shr_i64 n a = word_of_int (drop_bit n (sint a))"

definition all_tokens_in :: "bytes list \<Rightarrow> bytes \<Rightarrow> bool" where
  "all_tokens_in tokens t \<longleftrightarrow> list_all (text_contains t) tokens"

definition compare_op :: "(ordering \<Rightarrow> bool) \<Rightarrow> value \<Rightarrow> value \<Rightarrow> value" where
  "compare_op f l r = bool_value (case value_partial_cmp l r of None \<Rightarrow> False | Some c \<Rightarrow> f c)"

text \<open>NULL on one side.\<close>

definition null_op :: "binary_operator \<Rightarrow> value \<Rightarrow> value \<Rightarrow> value" where
  "null_op op l r =
     (if op = OpAnd then
        (if l \<noteq> Null \<and> \<not> is_truthy l \<or> r \<noteq> Null \<and> \<not> is_truthy r then Integer 0 else Null)
      else if op = OpOr then (if is_truthy l \<or> is_truthy r then Integer 1 else Null)
      else Null)"

definition apply_binary_op :: "'q eval_env \<Rightarrow> binary_operator \<Rightarrow> value \<Rightarrow> value \<Rightarrow> value res" where
  "apply_binary_op env op l r =
     (if l = Null \<or> r = Null then Ok (null_op op l r)
      else Ok (case op of
          OpFtsMatch \<Rightarrow>
            (case (l, r) of
               (Text t, Text p) \<Rightarrow> bool_value (tokenize env p \<noteq> [] \<and> all_tokens_in (tokenize env p) (lower_bytes t))
             | _ \<Rightarrow> Integer 0)
        | OpAdd \<Rightarrow> numeric_op (\<lambda>a b. Integer (a + b)) (\<lambda>a b. Real (f64_add a b)) l r
        | OpSubtract \<Rightarrow> numeric_op (\<lambda>a b. Integer (a - b)) (\<lambda>a b. Real (f64_sub a b)) l r
        | OpMultiply \<Rightarrow> numeric_op (\<lambda>a b. Integer (a * b)) (\<lambda>a b. Real (f64_mul a b)) l r
        | OpDivide \<Rightarrow> divide_values l r
        | OpModulo \<Rightarrow> int_op (\<lambda>a b. if b = 0 then Null else Integer (wrapping_rem a b)) l r
        | OpEqual \<Rightarrow> bool_value (value_eq l r)
        | OpNotEqual \<Rightarrow> bool_value (\<not> value_eq l r)
        | OpLessThan \<Rightarrow> compare_op (\<lambda>c. c = Less) l r
        | OpLessThanOrEqual \<Rightarrow> compare_op (\<lambda>c. c \<noteq> Greater) l r
        | OpGreaterThan \<Rightarrow> compare_op (\<lambda>c. c = Greater) l r
        | OpGreaterThanOrEqual \<Rightarrow> compare_op (\<lambda>c. c \<noteq> Less) l r
        | OpAnd \<Rightarrow> bool_value (is_truthy l \<and> is_truthy r)
        | OpOr \<Rightarrow> bool_value (is_truthy l \<or> is_truthy r)
        | OpConcat \<Rightarrow> Text (value_display l @ value_display r)
        | OpXor \<Rightarrow> bool_value (is_truthy l \<noteq> is_truthy r)
        | OpBitwiseOr \<Rightarrow> int_op (\<lambda>a b. Integer (a OR b)) l r
        | OpBitwiseAnd \<Rightarrow> int_op (\<lambda>a b. Integer (a AND b)) l r
        | OpBitwiseXor \<Rightarrow> int_op (\<lambda>a b. Integer (a XOR b)) l r
        | OpShiftLeft \<Rightarrow> shift_op push_bit l r
        | OpShiftRight \<Rightarrow> shift_op shr_i64 l r))"

text \<open>\<^verbatim>\<open>AND\<close> and \<^verbatim>\<open>OR\<close> evaluate their right side only where it matters.\<close>

definition eval_and :: "value res \<Rightarrow> value res \<Rightarrow> value res" where
  "eval_and l r =
     res_bind l (\<lambda>lv. if lv \<noteq> Null \<and> \<not> is_truthy lv then Ok (Integer 0)
     else res_bind r (\<lambda>rv. if rv \<noteq> Null \<and> \<not> is_truthy rv then Ok (Integer 0)
     else if lv = Null \<or> rv = Null then Ok Null else Ok (Integer 1)))"

definition eval_or :: "value res \<Rightarrow> value res \<Rightarrow> value res" where
  "eval_or l r =
     res_bind l (\<lambda>lv. if lv \<noteq> Null \<and> is_truthy lv then Ok (Integer 1)
     else res_bind r (\<lambda>rv. if rv \<noteq> Null \<and> is_truthy rv then Ok (Integer 1)
     else if lv = Null \<or> rv = Null then Ok Null else Ok (Integer 0)))"

text \<open>\<^verbatim>\<open>table MATCH 'words'\<close>: some text of the row contains every word.\<close>

definition eval_fts_match :: "'q eval_env \<Rightarrow> value res \<Rightarrow> row \<Rightarrow> value res" where
  "eval_fts_match env r row =
     (case r of
        Panic \<Rightarrow> Panic
      | Err _ \<Rightarrow> Ok (Integer 0)
      | Ok (Text keyword) \<Rightarrow>
          let tokens = tokenize env keyword in
          if tokens = [] then Ok (Integer 0)
          else Ok (bool_value (all_tokens_in tokens (join_texts (map (to_lowercase env) (texts_of row)))))
      | Ok _ \<Rightarrow> Ok (Integer 0))"

definition eval_binary :: "'q eval_env \<Rightarrow> binary_operator \<Rightarrow> value res \<Rightarrow> value res \<Rightarrow> row \<Rightarrow> value res" where
  "eval_binary env op l r row =
     (if op = OpAnd then eval_and l r
      else if op = OpOr then eval_or l r
      else if op = OpFtsMatch then eval_fts_match env r row
      else res_bind l (\<lambda>lv. res_bind r (\<lambda>rv. apply_binary_op env op lv rv)))"

definition eval_unary :: "unary_operator \<Rightarrow> value \<Rightarrow> value res" where
  "eval_unary op v =
     (case op of
        OpMinus \<Rightarrow> (case v of Integer i \<Rightarrow> Ok (Integer (- i)) | Real r \<Rightarrow> Ok (Real (f64_neg r)) | Null \<Rightarrow> Ok Null
                     | _ \<Rightarrow> Err (TypeError ''cannot negate non-numeric value''))
      | OpNot \<Rightarrow> if v = Null then Ok Null else Ok (bool_value (\<not> is_truthy v)))"

section \<open>Predicates\<close>

text \<open>The loop of \<^verbatim>\<open>IN\<close> over the list: it stops at the first equal item; an error in a later item is not seen.\<close>

fun in_items :: "value \<Rightarrow> value res list \<Rightarrow> bool \<Rightarrow> (bool \<times> bool) res" where
  "in_items v [] has_null = Ok (False, has_null)"
| "in_items v (item # items) has_null =
     res_bind item (\<lambda>iv.
       if iv = Null then in_items v items True
       else if value_eq v iv then Ok (True, has_null)
       else in_items v items has_null)"

definition in_result :: "bool \<Rightarrow> bool \<Rightarrow> bool \<Rightarrow> value" where
  "in_result negated found has_null =
     (if found then bool_value (\<not> negated) else if has_null then Null else bool_value negated)"

definition eval_in_list :: "value \<Rightarrow> value res list \<Rightarrow> bool \<Rightarrow> value res" where
  "eval_in_list v items negated =
     (if v = Null then Ok Null
      else res_bind (in_items v items False) (\<lambda>(found, has_null). Ok (in_result negated found has_null)))"

definition eval_like :: "value \<Rightarrow> value \<Rightarrow> uchar option \<Rightarrow> bool \<Rightarrow> bool \<Rightarrow> value res" where
  "eval_like v p escape_char case_insensitive negated =
     (if v = Null \<or> p = Null then Ok Null
      else case (v, p) of
          (Text t, Text q) \<Rightarrow>
            (case like_match t q escape_char case_insensitive of
               None \<Rightarrow> Panic
             | Some m \<Rightarrow> Ok (bool_value (m \<noteq> negated)))
        | _ \<Rightarrow> Ok (Integer 0))"

definition eval_between :: "value \<Rightarrow> value \<Rightarrow> value \<Rightarrow> bool \<Rightarrow> value" where
  "eval_between v lo hi negated =
     (if v = Null \<or> lo = Null \<or> hi = Null then Null
      else let in_range = ((case value_partial_cmp v lo of None \<Rightarrow> False | Some c \<Rightarrow> c \<noteq> Less)
                         \<and> (case value_partial_cmp v hi of None \<Rightarrow> False | Some c \<Rightarrow> c \<noteq> Greater))
           in bool_value (in_range \<noteq> negated))"

section \<open>Subqueries\<close>

text \<open>The rows of a subquery, executed with the current row as the innermost enclosing one.\<close>

definition subquery_rows :: "'q eval_env \<Rightarrow> scope \<Rightarrow> 'q \<Rightarrow> string \<Rightarrow> row list res" where
  "subquery_rows env sc q err =
     res_bind (exec_select env (outer_rows env @ [sc]) q) (\<lambda>r. case r of Some rows \<Rightarrow> Ok rows | None \<Rightarrow> Err (Internal err))"

definition no_rows_error :: string where
  "no_rows_error = ''subquery did not return rows''"

definition first_column :: "row list \<Rightarrow> value list" where
  "first_column rows = concat (map (take 1) rows)"

definition scalar_subquery :: "row list \<Rightarrow> value" where
  "scalar_subquery rows = (case rows of [] \<Rightarrow> Null | r # _ \<Rightarrow> (case r of [] \<Rightarrow> Null | v # _ \<Rightarrow> v))"

text \<open>The loops of \<^verbatim>\<open>ANY\<close> and \<^verbatim>\<open>ALL\<close>: whether one value has the wanted truth, and whether a NULL came before.\<close>

fun quantified :: "(value \<Rightarrow> value res) \<Rightarrow> bool \<Rightarrow> value list \<Rightarrow> bool \<Rightarrow> (bool \<times> bool) res" where
  "quantified cmp wanted [] has_null = Ok (False, has_null)"
| "quantified cmp wanted (x # xs) has_null =
     (if x = Null then quantified cmp wanted xs True
      else res_bind (cmp x) (\<lambda>c. if is_truthy c = wanted then Ok (True, has_null) else quantified cmp wanted xs has_null))"

definition eval_any :: "'q eval_env \<Rightarrow> value \<Rightarrow> binary_operator \<Rightarrow> value list \<Rightarrow> value res" where
  "eval_any env v op xs =
     res_bind (quantified (apply_binary_op env op v) True xs False) (\<lambda>(found, has_null).
       Ok (if found then Integer 1 else if has_null then Null else Integer 0))"

definition eval_all :: "'q eval_env \<Rightarrow> value \<Rightarrow> binary_operator \<Rightarrow> value list \<Rightarrow> value res" where
  "eval_all env v op xs =
     res_bind (quantified (apply_binary_op env op v) False xs False) (\<lambda>(failed, has_null).
       Ok (if failed then Integer 0 else if has_null then Null else Integer 1))"

section \<open>CASE\<close>

text \<open>The clauses are outcomes of the condition (or value) and of the result; the result of a clause counts only if it is chosen.\<close>

fun simple_case :: "value \<Rightarrow> (value res \<times> value res) list \<Rightarrow> value res \<Rightarrow> value res" where
  "simple_case v [] els = els"
| "simple_case v ((w, t) # cs) els =
     res_bind w (\<lambda>wv. if v \<noteq> Null \<and> wv \<noteq> Null \<and> value_eq v wv then t else simple_case v cs els)"

fun searched_case :: "(value res \<times> value res) list \<Rightarrow> value res \<Rightarrow> value res" where
  "searched_case [] els = els"
| "searched_case ((c, t) # cs) els = res_bind c (\<lambda>cv. if is_truthy cv then t else searched_case cs els)"

section \<open>CAST\<close>

definition cast_failed :: "bool \<Rightarrow> string \<Rightarrow> value res" where
  "cast_failed try_cast msg = (if try_cast then Ok Null else Err (RuntimeError msg))"

definition quoted :: "bytes \<Rightarrow> string" where
  "quoted t = CHR 0x27 # text_str t @ [CHR 0x27]"

definition cast_integer :: "bool \<Rightarrow> value \<Rightarrow> value res" where
  "cast_integer try_cast v =
     (case v of
        Integer i \<Rightarrow> Ok (Integer i)
      | Real r \<Rightarrow> Ok (Integer (f64_as_i64 r))
      | Text s \<Rightarrow>
          (case parse_i64 (trim_text s) of
             Some i \<Rightarrow> Ok (Integer i)
           | None \<Rightarrow> (case parse_f64 (trim_text s) of
               Some f \<Rightarrow> Ok (Integer (f64_as_i64 f))
             | None \<Rightarrow> cast_failed try_cast (''cannot cast '' @ quoted s @ '' to INTEGER'')))
      | Blob _ \<Rightarrow> cast_failed try_cast ''cannot cast BLOB to INTEGER''
      | Null \<Rightarrow> Ok Null)"

definition cast_real :: "bool \<Rightarrow> value \<Rightarrow> value res" where
  "cast_real try_cast v =
     (case v of
        Real r \<Rightarrow> Ok (Real r)
      | Integer i \<Rightarrow> Ok (Real (i64_as_f64 i))
      | Text s \<Rightarrow>
          (case parse_f64 (trim_text s) of
             Some f \<Rightarrow> Ok (Real f)
           | None \<Rightarrow> cast_failed try_cast (''cannot cast '' @ quoted s @ '' to REAL''))
      | Blob _ \<Rightarrow> cast_failed try_cast ''cannot cast BLOB to REAL''
      | Null \<Rightarrow> Ok Null)"

definition cast_numeric :: "bool \<Rightarrow> value \<Rightarrow> value res" where
  "cast_numeric try_cast v =
     (case v of
        Integer i \<Rightarrow> Ok (Integer i)
      | Real r \<Rightarrow>
          if f64_is_whole r \<and> f64_magnitude r < decimal_bits 92 17 then Ok (Integer (f64_as_i64 r)) else Ok (Real r)
      | Text s \<Rightarrow>
          (case parse_i64 (trim_text s) of
             Some i \<Rightarrow> Ok (Integer i)
           | None \<Rightarrow> (case parse_f64 (trim_text s) of
               Some f \<Rightarrow> Ok (Real f)
             | None \<Rightarrow> cast_failed try_cast (''cannot cast '' @ quoted s @ '' to NUMERIC'')))
      | Blob _ \<Rightarrow> cast_failed try_cast ''cannot cast BLOB to NUMERIC''
      | Null \<Rightarrow> Ok Null)"

text \<open>Numbers as text; what happens to a BLOB differs between the targets.\<close>

definition cast_to_text :: "(bytes \<Rightarrow> value) \<Rightarrow> value \<Rightarrow> value" where
  "cast_to_text blob v =
     (case v of
        Text s \<Rightarrow> Text s
      | Integer i \<Rightarrow> Text (ascii (show_int (sint i)))
      | Real r \<Rightarrow> Text (ascii (show_f64 r))
      | Blob b \<Rightarrow> blob b
      | Null \<Rightarrow> Null)"

definition cast_blob :: "value \<Rightarrow> value" where
  "cast_blob v =
     (case v of
        Blob b \<Rightarrow> Blob b
      | Text s \<Rightarrow> Blob s
      | Integer i \<Rightarrow> Blob (ascii (show_int (sint i)))
      | Real r \<Rightarrow> Blob (ascii (show_f64 r))
      | Null \<Rightarrow> Null)"

definition cast_value :: "cast_target \<Rightarrow> bool \<Rightarrow> value \<Rightarrow> value res" where
  "cast_value to_type try_cast v =
     (case to_type of
        CastInteger \<Rightarrow> cast_integer try_cast v
      | CastReal \<Rightarrow> cast_real try_cast v
      | CastNumeric \<Rightarrow> cast_numeric try_cast v
      | CastText \<Rightarrow> Ok (cast_to_text (\<lambda>b. Text (if utf8_valid b then b else ascii (show_hex_upper b))) v)
      | CastBlob \<Rightarrow> Ok (cast_blob v)
      | _ \<Rightarrow> Ok (cast_to_text (\<lambda>_. Null) v))"

definition eval_interval :: "value \<Rightarrow> string option \<Rightarrow> value" where
  "eval_interval v field =
     (case field of
        None \<Rightarrow> v
      | Some f \<Rightarrow> (case v of
            Text s \<Rightarrow> Text (trim_text s @ ascii ('' '' @ f))
          | Integer i \<Rightarrow> Text (ascii (show_int (sint i) @ '' '' @ f))
          | Real r \<Rightarrow> Text (ascii (show_f64 r @ '' '' @ f))
          | _ \<Rightarrow> Null))"

end
