(* ===== verification/ExprFunctions.thy ===== *)
theory ExprFunctions
  imports Expr
begin

text \<open>
  The built-in functions of \<^verbatim>\<open>eval_expr.rs\<close> on text, numbers and NULL, and the evaluator itself. A function gets the outcomes of its
  arguments and looks only at those it needs, in the order of the source.
\<close>

section \<open>Numbers\<close>

definition f64_abs :: "f64 \<Rightarrow> f64" where
  "f64_abs b = f64_make False (f64_magnitude b)"

definition f64_floor :: "f64 \<Rightarrow> f64" where
  "f64_floor b =
     (if f64_infinity_bits \<le> f64_magnitude b \<or> f64_is_whole b then b
      else f64_make (f64_negative b) (nat_to_f64_bits (f64_trunc_magnitude b + (if f64_negative b then 1 else 0))))"

definition f64_ceil :: "f64 \<Rightarrow> f64" where
  "f64_ceil b =
     (if f64_infinity_bits \<le> f64_magnitude b \<or> f64_is_whole b then b
      else f64_make (f64_negative b) (nat_to_f64_bits (f64_trunc_magnitude b + (if f64_negative b then 0 else 1))))"

definition f64_signum :: "f64 \<Rightarrow> f64" where
  "f64_signum b = (if f64_is_nan b then f64_nan else f64_make (f64_negative b) (nat_to_f64_bits 1))"

definition i64_signum :: "i64 \<Rightarrow> i64" where
  "i64_signum v = (if sint v < 0 then - 1 else if v = 0 then 0 else 1)"

definition wrapping_abs :: "i64 \<Rightarrow> i64" where
  "wrapping_abs v = (if sint v < 0 then - v else v)"

text \<open>\<^verbatim>\<open>(v - 1).max(0) as usize\<close>: the position of a one-based index; the subtraction overflows for the smallest integer, a panic in a build with overflow checks.\<close>

definition index_from :: "i64 \<Rightarrow> nat res" where
  "index_from v = (if sint v = - (2 ^ 63) then Panic else Ok (nat (max 0 (sint v - 1))))"

definition clamp_usize :: "i64 \<Rightarrow> nat" where
  "clamp_usize v = nat (max 0 (sint v))"

section \<open>Text\<close>

definition char_count :: "bytes \<Rightarrow> i64" where
  "char_count t = word_of_nat (length (text_chars t))"

function replace_scan :: "bytes \<Rightarrow> bytes \<Rightarrow> bytes \<Rightarrow> bytes" where
  "replace_scan from to [] = []"
| "replace_scan from to (b # t) =
     (if has_prefix (b # t) from then to @ replace_scan from to (drop (length from - 1) t) else b # replace_scan from to t)"
  by pat_completeness auto
termination by (relation "measure (\<lambda>(_, _, t). length t)") auto

definition replace_text :: "bytes \<Rightarrow> bytes \<Rightarrow> bytes \<Rightarrow> bytes" where
  "replace_text t from to =
     (if from = [] then to @ concat (map (\<lambda>c. encode_char c @ to) (text_chars t)) else replace_scan from to t)"

definition trim_chars :: "bool \<Rightarrow> bool \<Rightarrow> uchar list \<Rightarrow> bytes \<Rightarrow> bytes" where
  "trim_chars front back cs t =
     (let inner = (\<lambda>s. if front then dropWhile (\<lambda>c. c \<in> set cs) s else s) (text_chars t) in
      chars_text (if back then rev (dropWhile (\<lambda>c. c \<in> set cs) (rev inner)) else inner))"

definition trim_spaces :: "bool \<Rightarrow> bool \<Rightarrow> bytes \<Rightarrow> bytes" where
  "trim_spaces front back t =
     (let s = text_str t; f = (if front then strip_front whitespaces (length s) s else s) in
      ascii (if back then trim_end f else f))"

definition substr :: "bytes \<Rightarrow> nat \<Rightarrow> nat option \<Rightarrow> bytes" where
  "substr t start len =
     (let chars = text_chars t;
          stop = (case len of Some l \<Rightarrow> min (start + l) (length chars) | None \<Rightarrow> length chars) in
      if length chars \<le> start then [] else chars_text (take (stop - start) (drop start chars)))"

definition overlay :: "bytes \<Rightarrow> bytes \<Rightarrow> nat \<Rightarrow> nat \<Rightarrow> bytes" where
  "overlay t placing from n =
     (let chars = text_chars t in chars_text (take from chars) @ placing @ chars_text (drop (from + n) chars))"

definition instr :: "bytes \<Rightarrow> bytes \<Rightarrow> i64" where
  "instr t p = (case text_find t p of None \<Rightarrow> 0 | Some b \<Rightarrow> char_count (take b t) + 1)"

fun show_hex_nat :: "nat \<Rightarrow> string" where
  "show_hex_nat n = (if n < 16 then [digit_char n] else show_hex_nat (n div 16) @ [digit_char (n mod 16)])"

declare show_hex_nat.simps [simp del]

definition json_escape :: "bytes \<Rightarrow> bytes" where
  "json_escape t = concat (map (\<lambda>b. if b = 92 then [92, 92] else if b = 34 then [92, 34] else [b]) t)"

definition json_element :: "value \<Rightarrow> bytes" where
  "json_element v =
     (case v of
        Null \<Rightarrow> ascii ''null''
      | Integer i \<Rightarrow> ascii (show_int (sint i))
      | Real r \<Rightarrow> ascii (show_f64 r)
      | Text t \<Rightarrow> 34 # json_escape t @ [34]
      | Blob _ \<Rightarrow> 34 # ascii ''<blob>'' @ [34])"

fun join_with :: "bytes \<Rightarrow> bytes list \<Rightarrow> bytes" where
  "join_with sep [] = []"
| "join_with sep [t] = t"
| "join_with sep (t # ts) = t @ sep @ join_with sep ts"

section \<open>Functions\<close>

fun coalesce :: "value res list \<Rightarrow> value res" where
  "coalesce [] = Ok Null"
| "coalesce (a # as) = res_bind a (\<lambda>v. if v \<noteq> Null then Ok v else coalesce as)"

fun all_ok :: "'a res list \<Rightarrow> 'a list res" where
  "all_ok [] = Ok []"
| "all_ok (a # as) = res_bind a (\<lambda>v. res_bind (all_ok as) (\<lambda>vs. Ok (v # vs)))"

definition null_safe_equal :: "value \<Rightarrow> value \<Rightarrow> bool" where
  "null_safe_equal a b = (if a = Null \<and> b = Null then True else if a = Null \<or> b = Null then False else value_eq a b)"

definition fun1 :: "(value \<Rightarrow> value) \<Rightarrow> value res list \<Rightarrow> value res" where
  "fun1 f as = (if as = [] then Ok Null else res_bind (as ! 0) (\<lambda>v. Ok (f v)))"

definition fun2 :: "(value \<Rightarrow> value \<Rightarrow> value) \<Rightarrow> value res list \<Rightarrow> value res" where
  "fun2 f as = (if length as < 2 then Ok Null else res_bind (as ! 0) (\<lambda>v. res_bind (as ! 1) (\<lambda>w. Ok (f v w))))"

definition type_name :: "value \<Rightarrow> string" where
  "type_name v = (case v of Null \<Rightarrow> ''null'' | Integer _ \<Rightarrow> ''integer'' | Real _ \<Rightarrow> ''real'' | Text _ \<Rightarrow> ''text'' | Blob _ \<Rightarrow> ''blob'')"

definition length_value :: "value \<Rightarrow> value" where
  "length_value v =
     (case v of Null \<Rightarrow> Null | Text t \<Rightarrow> Integer (char_count t) | Blob b \<Rightarrow> Integer (word_of_nat (length b))
      | _ \<Rightarrow> Integer (char_count (value_display v)))"

definition with_text :: "value res \<Rightarrow> (bytes \<Rightarrow> value res) \<Rightarrow> value res" where
  "with_text a f = res_bind a (\<lambda>v. case v of Text t \<Rightarrow> f t | _ \<Rightarrow> Ok Null)"

definition with_integer :: "value res \<Rightarrow> (i64 \<Rightarrow> value res) \<Rightarrow> value res" where
  "with_integer a f = res_bind a (\<lambda>v. case v of Integer i \<Rightarrow> f i | _ \<Rightarrow> Ok Null)"

definition substr_function :: "value res list \<Rightarrow> value res" where
  "substr_function as =
     (if length as < 2 then Ok Null
      else with_text (as ! 0) (\<lambda>t. with_integer (as ! 1) (\<lambda>v. res_bind (index_from v) (\<lambda>start.
        if 2 < length as
        then res_bind (as ! 2) (\<lambda>l. Ok (Text (substr t start (case l of Integer n \<Rightarrow> Some (clamp_usize n) | _ \<Rightarrow> None))))
        else Ok (Text (substr t start None))))))"

definition replace_function :: "value res list \<Rightarrow> value res" where
  "replace_function as =
     (if length as < 3 then Ok Null
      else with_text (as ! 0) (\<lambda>t. with_text (as ! 1) (\<lambda>from. with_text (as ! 2) (\<lambda>to. Ok (Text (replace_text t from to))))))"

definition overlay_function :: "value res list \<Rightarrow> value res" where
  "overlay_function as =
     (if length as < 3 then Ok Null
      else with_text (as ! 0) (\<lambda>t. with_text (as ! 1) (\<lambda>placing. with_integer (as ! 2) (\<lambda>v. res_bind (index_from v) (\<lambda>from.
        let whole = length (text_chars placing) in
        if 3 < length as
        then res_bind (as ! 3) (\<lambda>l. Ok (Text (overlay t placing from (case l of Integer n \<Rightarrow> clamp_usize n | _ \<Rightarrow> whole))))
        else Ok (Text (overlay t placing from whole)))))))"

text \<open>\<^verbatim>\<open>TRIM\<close>, \<^verbatim>\<open>LTRIM\<close> and \<^verbatim>\<open>RTRIM\<close>, with the characters to remove as an optional argument.\<close>

definition trim_function :: "bool \<Rightarrow> bool \<Rightarrow> value res list \<Rightarrow> value res" where
  "trim_function front back as =
     (if as = [] then Ok Null
      else res_bind (as ! 0) (\<lambda>v.
        if 1 < length as
        then res_bind (as ! 1) (\<lambda>w. case (v, w) of
            (Text t, Text cs) \<Rightarrow> Ok (Text (trim_chars front back (text_chars cs) t))
          | _ \<Rightarrow> Ok v)
        else case v of Text t \<Rightarrow> Ok (Text (trim_spaces front back t)) | _ \<Rightarrow> Ok v))"

definition factorial_function :: "value \<Rightarrow> value res" where
  "factorial_function v =
     (case v of
        Integer i \<Rightarrow>
          if sint i < 0 then Err (RuntimeError ''FACTORIAL requires a non-negative integer'')
          else if 20 < sint i
          then Err (RuntimeError (''FACTORIAL('' @ show_int (sint i) @ '') overflows i64; maximum supported value is 20''))
          else Ok (Integer (word_of_int (\<Prod>{1..sint i})))
      | _ \<Rightarrow> Ok Null)"

definition char_function :: "value list \<Rightarrow> value" where
  "char_function vs =
     Text (chars_text (concat (map (\<lambda>v. case v of
         Integer i \<Rightarrow> (let c = unat i mod 2 ^ 32 in if unicode_scalar c then [c] else [])
       | _ \<Rightarrow> []) vs)))"

definition session_text :: "bytes option \<Rightarrow> value" where
  "session_text v = (case v of None \<Rightarrow> Null | Some t \<Rightarrow> if t = [] then Null else Text t)"

text \<open>Names are compared without case. A name that is not in this list belongs to the functions of the environment.\<close>

definition call_function :: "'q eval_env \<Rightarrow> string \<Rightarrow> value res list \<Rightarrow> value res" where
  "call_function env name as =
     (let n = to_ascii_uppercase name in
      if n \<in> {''COUNT'', ''SUM'', ''AVG'', ''MIN'', ''MAX''} then (if as = [] then Ok (Integer 1) else as ! 0)
      else if n = ''ABS'' then
        fun1 (\<lambda>v. case v of Integer i \<Rightarrow> Integer (wrapping_abs i) | Real r \<Rightarrow> Real (f64_abs r) | _ \<Rightarrow> Null) as
      else if n = ''UPPER'' then fun1 (\<lambda>v. case v of Text t \<Rightarrow> Text (to_uppercase env t) | _ \<Rightarrow> v) as
      else if n = ''LOWER'' then fun1 (\<lambda>v. case v of Text t \<Rightarrow> Text (to_lowercase env t) | _ \<Rightarrow> v) as
      else if n = ''LENGTH'' then fun1 length_value as
      else if n = ''TYPEOF'' then fun1 (\<lambda>v. Text (ascii (type_name v))) as
      else if n = ''COALESCE'' then coalesce as
      else if n = ''IFNULL'' then
        (if length as < 2 then Ok Null else res_bind (as ! 0) (\<lambda>v. if v = Null then as ! 1 else Ok v))
      else if n = ''SUBSTR'' \<or> n = ''SUBSTRING'' then substr_function as
      else if n = ''REPLACE'' then replace_function as
      else if n = ''TRIM'' then trim_function True True as
      else if n = ''LTRIM'' then trim_function True False as
      else if n = ''RTRIM'' then trim_function False True as
      else if n = ''NULLIF'' then fun2 (\<lambda>a b. if value_eq a b then Null else a) as
      else if n = ''CEIL'' \<or> n = ''CEILING'' then
        fun1 (\<lambda>v. case v of Integer i \<Rightarrow> Integer i | Real r \<Rightarrow> Real (f64_ceil r) | _ \<Rightarrow> Null) as
      else if n = ''FLOOR'' then
        fun1 (\<lambda>v. case v of Integer i \<Rightarrow> Integer i | Real r \<Rightarrow> Real (f64_floor r) | _ \<Rightarrow> Null) as
      else if n = ''INSTR'' then
        fun2 (\<lambda>a b. case (a, b) of
            (Text t, Text p) \<Rightarrow> Integer (instr t p)
          | _ \<Rightarrow> if a = Null \<or> b = Null then Null else Integer 0) as
      else if n = ''OVERLAY'' then overlay_function as
      else if n = ''SIGN'' then
        fun1 (\<lambda>v. case v of Integer i \<Rightarrow> Integer (i64_signum i) | Real r \<Rightarrow> Real (f64_signum r) | _ \<Rightarrow> Null) as
      else if n = ''__IS_DISTINCT_FROM__'' then fun2 (\<lambda>a b. bool_value (\<not> null_safe_equal a b)) as
      else if n = ''__IS_NOT_DISTINCT_FROM__'' then fun2 (\<lambda>a b. bool_value (null_safe_equal a b)) as
      else if n = ''BITWISE_NOT'' then fun1 (\<lambda>v. case v of Integer i \<Rightarrow> Integer (NOT i) | _ \<Rightarrow> Null) as
      else if n = ''FACTORIAL'' then (if as = [] then Ok Null else res_bind (as ! 0) factorial_function)
      else if n = ''JSON_ARRAY'' then
        res_bind (all_ok as) (\<lambda>vs. Ok (Text (ascii ''['' @ join_with (ascii '', '') (map json_element vs) @ ascii '']'')))
      else if n = ''ARRAY_GET'' then Ok Null
      else if n = ''MATCH_AGAINST'' then Ok (Integer 0)
      else if n = ''STARTS_WITH'' then
        fun2 (\<lambda>a b. case (a, b) of (Text t, Text p) \<Rightarrow> bool_value (has_prefix t p) | _ \<Rightarrow> Null) as
      else if n = ''HEX'' then
        fun1 (\<lambda>v. case v of Blob b \<Rightarrow> Text (ascii (show_hex_upper b))
               | Integer i \<Rightarrow> Text (ascii (to_ascii_uppercase (show_hex_nat (unat i)))) | _ \<Rightarrow> Null) as
      else if n = ''UNICODE'' then
        fun1 (\<lambda>v. case v of Text t \<Rightarrow> (case text_chars t of [] \<Rightarrow> Null | c # _ \<Rightarrow> Integer (word_of_nat c)) | _ \<Rightarrow> Null) as
      else if n = ''CHAR'' then res_bind (all_ok as) (\<lambda>vs. Ok (char_function vs))
      else if n = ''AUTH.UID'' \<or> n = ''AUTH_UID'' then Ok (session_text (session_vars env (ascii ''request.jwt.sub'')))
      else if n = ''CURRENT_SETTING'' then
        (if as = [] then Ok Null
         else with_text (as ! 0) (\<lambda>key. Ok (case session_vars env key of Some t \<Rightarrow> Text t | None \<Rightarrow> Null)))
      else if n = ''CURRENT_USER'' then
        Ok (session_text (or_else (session_vars env (ascii ''request.jwt.sub'')) (session_vars env (ascii ''kkdb.current_user''))))
      else other_function env name as)"

section \<open>Evaluation\<close>

text \<open>\<^verbatim>\<open>str::split\<close> by a predicate on characters: the pieces between the separators, empty ones included.\<close>

fun split_chars :: "(uchar \<Rightarrow> bool) \<Rightarrow> uchar list \<Rightarrow> uchar list list" where
  "split_chars sep [] = [[]]"
| "split_chars sep (c # cs) =
     (let ps = split_chars sep cs in if sep c then [] # ps else (c # hd ps) # tl ps)"

definition match_tokens :: "'q eval_env \<Rightarrow> bytes \<Rightarrow> bytes list" where
  "match_tokens env query =
     filter (\<lambda>t. t \<noteq> [])
       (map (\<lambda>w. to_lowercase env (trim_text (chars_text w)))
         (split_chars (\<lambda>c. \<not> is_alphanumeric env c) (text_chars query)))"

definition match_texts :: "string list \<Rightarrow> scope \<Rightarrow> bytes list" where
  "match_texts columns sc =
     (if columns = [] then texts_of (fst sc)
      else texts_of (concat (map (\<lambda>c. case lookup_column (to_ascii_lowercase c) sc of None \<Rightarrow> [] | Some v \<Rightarrow> [v]) columns)))"

text \<open>\<^verbatim>\<open>MATCH (columns) AGAINST (query)\<close>: the share of the words of the query that occur in the columns.\<close>

definition eval_match_against :: "'q eval_env \<Rightarrow> string list \<Rightarrow> bytes \<Rightarrow> scope \<Rightarrow> value" where
  "eval_match_against env columns query sc =
     (let tokens = match_tokens env query;
          haystack = to_lowercase env (concat (map (\<lambda>t. 32 # t) (match_texts columns sc)));
          matched = length (filter (text_contains haystack) tokens)
      in if trim_text query = [] \<or> tokens = [] \<or> matched = 0 then Real 0
         else Real (f64_div (word_of_nat (nat_to_f64_bits matched)) (word_of_nat (nat_to_f64_bits (length tokens)))))"

fun eval_expr :: "'q eval_env \<Rightarrow> 'q expr \<Rightarrow> scope \<Rightarrow> value res" where
  "eval_expr env (IntegerLiteral v) sc = Ok (Integer v)"
| "eval_expr env (RealLiteral v) sc = Ok (Real v)"
| "eval_expr env (StringLiteral s) sc = Ok (Text s)"
| "eval_expr env (BlobLiteral b) sc = Ok (Blob b)"
| "eval_expr env NullLiteral sc = Ok Null"
| "eval_expr env (Placeholder i) sc = eval_placeholder env i"
| "eval_expr env (ColumnRef tbl column) sc = eval_column env tbl column sc"
| "eval_expr env (BinaryOp l op r) sc = eval_binary env op (eval_expr env l sc) (eval_expr env r sc) (fst sc)"
| "eval_expr env (UnaryOp op e) sc = res_bind (eval_expr env e sc) (eval_unary op)"
| "eval_expr env (IsNull e negated) sc =
     res_bind (eval_expr env e sc) (\<lambda>v. Ok (bool_value ((v = Null) \<noteq> negated)))"
| "eval_expr env (InList e items negated) sc =
     res_bind (eval_expr env e sc) (\<lambda>v. eval_in_list v (map (\<lambda>i. eval_expr env i sc) items) negated)"
| "eval_expr env (LikeExpr e p escape_char ci negated) sc =
     res_bind (eval_expr env e sc) (\<lambda>v. res_bind (eval_expr env p sc) (\<lambda>q. eval_like v q escape_char ci negated))"
| "eval_expr env (Between e lo hi negated) sc =
     res_bind (eval_expr env e sc) (\<lambda>v. res_bind (eval_expr env lo sc) (\<lambda>l. res_bind (eval_expr env hi sc) (\<lambda>h.
       Ok (eval_between v l h negated))))"
| "eval_expr env (FunctionCall name args dist) sc = call_function env name (map (\<lambda>a. eval_expr env a sc) args)"
| "eval_expr env (Nested e) sc = eval_expr env e sc"
| "eval_expr env (Subquery q) sc = res_bind (subquery_rows env sc q no_rows_error) (\<lambda>rows. Ok (scalar_subquery rows))"
| "eval_expr env (InSubquery e q negated) sc =
     res_bind (eval_expr env e sc) (\<lambda>v. if v = Null then Ok Null
     else res_bind (subquery_rows env sc q no_rows_error) (\<lambda>rows. eval_in_list v (map Ok (first_column rows)) negated))"
| "eval_expr env (AnyOp e op q) sc =
     res_bind (eval_expr env e sc) (\<lambda>v. if v = Null then Ok Null
     else res_bind (subquery_rows env sc q ''subquery in ANY did not return rows'') (\<lambda>rows. eval_any env v op (first_column rows)))"
| "eval_expr env (AllOp e op q) sc =
     res_bind (eval_expr env e sc) (\<lambda>v. if v = Null then Ok Null
     else res_bind (subquery_rows env sc q ''subquery in ALL did not return rows'') (\<lambda>rows. eval_all env v op (first_column rows)))"
| "eval_expr env (Exists q) sc =
     res_bind (subquery_rows env sc q no_rows_error) (\<lambda>rows. Ok (bool_value (rows \<noteq> [])))"
| "eval_expr env (Case operand whens els) sc =
     (let clauses = map (\<lambda>(w, t). (eval_expr env w sc, eval_expr env t sc)) whens;
          otherwise = (case els of None \<Rightarrow> Ok Null | Some e \<Rightarrow> eval_expr env e sc)
      in case operand of
           None \<Rightarrow> searched_case clauses otherwise
         | Some e \<Rightarrow> res_bind (eval_expr env e sc) (\<lambda>v. simple_case v clauses otherwise))"
| "eval_expr env (Cast e to_type try_cast) sc = res_bind (eval_expr env e sc) (cast_value to_type try_cast)"
| "eval_expr env (Collate e collation) sc = eval_expr env e sc"
| "eval_expr env (Interval e field) sc = res_bind (eval_expr env e sc) (\<lambda>v. Ok (eval_interval v field))"
| "eval_expr env WindowFunction sc = Err (RuntimeError ''window function cannot be evaluated in scalar context'')"
| "eval_expr env (MatchAgainst columns query) sc = Ok (eval_match_against env columns query sc)"

end
