(* ===== verification/ExprLaws.thy ===== *)
theory ExprLaws
  imports ExprFunctions
begin

text \<open>
  What the evaluator of expressions promises: the connectives are those of Kleene's three-valued logic, the predicates and functions that
  SQL defines through others agree with their definitions, integers survive a cast to text, and no expression of the modelled language
  panics except through the one-based positions of \<^verbatim>\<open>SUBSTR\<close> and \<^verbatim>\<open>OVERLAY\<close>.
\<close>

section \<open>An environment for examples\<close>

text \<open>No parameters, enclosing rows or session variables; the only subquery, which needs no data, returns two rows.\<close>

definition sample_env :: "unit eval_env" where
  "sample_env =
     \<lparr>current_params = [], outer_rows = [], session_vars = (\<lambda>_. None),
      exec_select = (\<lambda>_ _. Ok (Some [[Integer 2], [Null]])), tokenize = (\<lambda>t. [t]), to_lowercase = lower_bytes, to_uppercase = (\<lambda>t. t),
      is_alphanumeric = (\<lambda>c. 48 \<le> c), other_function = (\<lambda>name _. Err (RuntimeError (''unknown function: '' @ name)))\<rparr>"

definition no_scope :: scope where
  "no_scope = ([], \<lambda>_. None)"

text \<open>Case distinction on a value, as split rules for the automation.\<close>

lemma case_value_split:
  "P (case_value a b c d e v) \<longleftrightarrow>
     (v = Null \<longrightarrow> P a) \<and> (\<forall>i. v = Integer i \<longrightarrow> P (b i)) \<and> (\<forall>r. v = Real r \<longrightarrow> P (c r)) \<and> (\<forall>t. v = Text t \<longrightarrow> P (d t)) \<and>
     (\<forall>x. v = Blob x \<longrightarrow> P (e x))"
  by (cases v) simp_all

lemma case_value_split_asm:
  "P (case_value a b c d e v) \<longleftrightarrow>
     \<not> (v = Null \<and> \<not> P a \<or> (\<exists>i. v = Integer i \<and> \<not> P (b i)) \<or> (\<exists>r. v = Real r \<and> \<not> P (c r)) \<or> (\<exists>t. v = Text t \<and> \<not> P (d t)) \<or>
        (\<exists>x. v = Blob x \<and> \<not> P (e x)))"
  by (cases v) simp_all

lemmas case_value_splits = case_value_split case_value_split_asm

section \<open>Three-valued logic\<close>

definition truth :: "value \<Rightarrow> bool option" where
  "truth v = (if v = Null then None else Some (is_truthy v))"

definition truth_value :: "bool option \<Rightarrow> value" where
  "truth_value t = (case t of None \<Rightarrow> Null | Some b \<Rightarrow> bool_value b)"

fun kleene_and :: "bool option \<Rightarrow> bool option \<Rightarrow> bool option" where
  "kleene_and (Some False) _ = Some False"
| "kleene_and _ (Some False) = Some False"
| "kleene_and (Some True) t = t"
| "kleene_and None _ = None"

fun kleene_not :: "bool option \<Rightarrow> bool option" where
  "kleene_not t = map_option Not t"

definition kleene_or :: "bool option \<Rightarrow> bool option \<Rightarrow> bool option" where
  "kleene_or s t = kleene_not (kleene_and (kleene_not s) (kleene_not t))"

lemma truth_simps [simp]:
  "truth Null = None" "truth (bool_value b) = Some b" "v \<noteq> Null \<Longrightarrow> truth v = Some (is_truthy v)"
  "truth_value None = Null" "truth_value (Some b) = bool_value b"
  by (auto simp: truth_def truth_value_def bool_value_def)

lemma bool_value_simps [simp]: "bool_value b \<noteq> Null" "is_truthy (bool_value b) = b"
  by (auto simp: bool_value_def)

lemma truth_value_eq [simp]: "bool_value b = bool_value c \<longleftrightarrow> b = c" "truth_value t = Null \<longleftrightarrow> t = None" "Null = truth_value t \<longleftrightarrow> t = None"
  by (auto simp: truth_value_def bool_value_def split: option.splits)

lemma kleene_and_Some [simp]: "kleene_and (Some b) t = (if b then t else Some False)"
proof (cases t)
  case (Some c)
  then show ?thesis by (cases b; cases c) simp_all
qed (cases b; simp)

lemma kleene_and_None [simp]: "kleene_and None (Some b) = (if b then None else Some False)"
  by (cases b) simp_all

lemma truth_truth_value [simp]: "truth (truth_value t) = t"
  by (cases t) auto

lemma int01: "Integer 0 = bool_value False" "Integer 1 = bool_value True"
  by (auto simp: bool_value_def)

lemma eval_and_Ok: "eval_and (Ok x) (Ok y) = Ok (truth_value (kleene_and (truth x) (truth y)))"
  by (cases "x = Null"; cases "y = Null"; cases "is_truthy x"; cases "is_truthy y") (simp_all add: eval_and_def int01)

lemma eval_or_Ok: "eval_or (Ok x) (Ok y) = Ok (truth_value (kleene_or (truth x) (truth y)))"
  by (cases "x = Null"; cases "y = Null"; cases "is_truthy x"; cases "is_truthy y") (simp_all add: eval_or_def kleene_or_def int01)

lemma eval_not: "eval_unary OpNot x = Ok (truth_value (kleene_not (truth x)))"
  by (cases "x = Null") (simp_all add: eval_unary_def)

lemma apply_and: "apply_binary_op env OpAnd x y = Ok (truth_value (kleene_and (truth x) (truth y)))"
  by (cases "x = Null"; cases "y = Null"; cases "is_truthy x"; cases "is_truthy y")
    (simp_all add: apply_binary_op_def null_op_def int01)

lemma apply_or: "apply_binary_op env OpOr x y = Ok (truth_value (kleene_or (truth x) (truth y)))"
  by (cases "x = Null"; cases "y = Null"; cases "is_truthy x"; cases "is_truthy y")
    (simp_all add: apply_binary_op_def null_op_def kleene_or_def int01)

text \<open>
  C23: on every row the connectives \<^verbatim>\<open>AND\<close>, \<^verbatim>\<open>OR\<close> and \<^verbatim>\<open>NOT\<close> compute the tables of Kleene's three-valued logic, with NULL as the unknown truth value and
  the short-circuit form of the evaluator giving what the operator on two values gives.
\<close>

theorem connectives_are_kleene:
  assumes "eval_expr env a sc = Ok x" and "eval_expr env b sc = Ok y"
  shows "eval_expr env (BinaryOp a OpAnd b) sc = Ok (truth_value (kleene_and (truth x) (truth y)))
       \<and> eval_expr env (BinaryOp a OpOr b) sc = Ok (truth_value (kleene_or (truth x) (truth y)))
       \<and> eval_expr env (UnaryOp OpNot a) sc = Ok (truth_value (kleene_not (truth x)))
       \<and> apply_binary_op env OpAnd x y = eval_expr env (BinaryOp a OpAnd b) sc
       \<and> apply_binary_op env OpOr x y = eval_expr env (BinaryOp a OpOr b) sc"
  using assms by (simp add: eval_binary_def eval_and_Ok eval_or_Ok eval_not apply_and apply_or)

theorem connectives_are_kleene_witness:
  "eval_expr sample_env (BinaryOp NullLiteral OpAnd (IntegerLiteral 0)) no_scope = Ok (Integer 0)"
  using connectives_are_kleene [of sample_env NullLiteral no_scope Null "IntegerLiteral 0" "Integer 0"]
  by (simp add: bool_value_def truth_def truth_value_def)

lemma not_and: "res_bind (eval_and l r) (eval_unary OpNot) = eval_or (res_bind l (eval_unary OpNot)) (res_bind r (eval_unary OpNot))"
  by (cases l; cases r) (auto simp: eval_and_def eval_or_def eval_unary_def int01)

lemma not_or: "res_bind (eval_or l r) (eval_unary OpNot) = eval_and (res_bind l (eval_unary OpNot)) (res_bind r (eval_unary OpNot))"
  by (cases l; cases r) (auto simp: eval_and_def eval_or_def eval_unary_def int01)

text \<open>
  a negation may be pushed through \<^verbatim>\<open>AND\<close> and \<^verbatim>\<open>OR\<close>: both sides of De Morgan's laws have the same outcome on every row, NULLs, errors and the
  operands that are not evaluated included.
\<close>

lemma de_morgan:
  "eval_expr env (UnaryOp OpNot (BinaryOp a OpAnd b)) sc = eval_expr env (BinaryOp (UnaryOp OpNot a) OpOr (UnaryOp OpNot b)) sc
 \<and> eval_expr env (UnaryOp OpNot (BinaryOp a OpOr b)) sc = eval_expr env (BinaryOp (UnaryOp OpNot a) OpAnd (UnaryOp OpNot b)) sc"
  by (simp add: eval_binary_def not_and not_or)

section \<open>IN, ANY and ALL\<close>

text \<open>\<^verbatim>\<open>e = a OR e = b OR ... OR 0\<close>\<close>

fun or_chain :: "'q expr \<Rightarrow> 'q expr list \<Rightarrow> 'q expr" where
  "or_chain e [] = IntegerLiteral 0"
| "or_chain e (i # is) = BinaryOp (BinaryOp e OpEqual i) OpOr (or_chain e is)"

lemma apply_equal: "apply_binary_op env OpEqual x y = Ok (if x = Null \<or> y = Null then Null else bool_value (value_eq x y))"
  by (simp add: apply_binary_op_def null_op_def)

lemma in_items_null: "in_items v items hn = res_bind (in_items v items False) (\<lambda>(found, n). Ok (found, hn \<or> n))"
proof (induction items arbitrary: hn)
  case (Cons i items)
  show ?case
    by (cases i) (simp_all add: Cons.IH [of True] Cons.IH [of hn] res_bind_assoc split_def)
qed simp

lemma in_result_null: "in_result False found True = truth_value (kleene_or None (Some found))"
  by (simp add: in_result_def kleene_or_def)

lemma eval_or_chain:
  assumes "eval_expr env e sc = Ok v" and "v \<noteq> Null"
  shows "eval_expr env (or_chain e items) sc = eval_in_list v (map (\<lambda>i. eval_expr env i sc) items) False"
proof (induction items)
  case (Cons i items)
  let ?rest = "in_items v (map (\<lambda>i. eval_expr env i sc) items) False"
  have rest: "eval_expr env (or_chain e items) sc = res_bind ?rest (\<lambda>(found, n). Ok (in_result False found n))"
    using Cons assms by (simp add: eval_in_list_def)
  show ?case
  proof (cases "eval_expr env i sc")
    case (Ok y)
    show ?thesis
    proof (cases "y = Null")
      case True
      then show ?thesis using Ok assms
        by (cases ?rest) (auto simp: eval_binary_def rest apply_equal eval_in_list_def in_items_null [of _ _ True] eval_or_def in_result_def int01)
    next
      case False
      then show ?thesis using Ok assms
        by (cases ?rest) (auto simp: eval_binary_def rest apply_equal eval_in_list_def eval_or_def in_result_def int01)
    qed
  qed (use assms in \<open>simp_all add: eval_binary_def eval_or_def eval_in_list_def\<close>)
qed (use assms in \<open>simp add: eval_in_list_def in_result_def bool_value_def\<close>)

lemma eval_in_list_negated: "eval_in_list v items True = res_bind (eval_in_list v items False) (eval_unary OpNot)"
  by (cases "in_items v items False") (auto simp: eval_in_list_def in_result_def eval_unary_def)

text \<open>
  \<^verbatim>\<open>e IN (a, b, ...)\<close> with a value that is not NULL has the outcome of \<^verbatim>\<open>e = a OR e = b OR ...\<close>, and \<^verbatim>\<open>NOT IN\<close> that of its negation: NULL items, errors in
  items and the items that are not looked at included.
\<close>

lemma in_list_is_or_chain:
  assumes "eval_expr env e sc = Ok v" and "v \<noteq> Null"
  shows "eval_expr env (InList e items False) sc = eval_expr env (or_chain e items) sc
       \<and> eval_expr env (InList e items True) sc = eval_expr env (UnaryOp OpNot (or_chain e items)) sc"
  using assms eval_or_chain [OF assms, of items] by (simp add: eval_in_list_negated)

lemma in_list_is_or_chain_witness:
  "eval_expr sample_env (or_chain (IntegerLiteral 1) [NullLiteral, IntegerLiteral 1]) no_scope = Ok (Integer 1)"
  using in_list_is_or_chain [of sample_env "IntegerLiteral 1" no_scope "Integer 1" "[NullLiteral, IntegerLiteral 1]"]
  by (simp add: eval_in_list_def in_result_def bool_value_def)

lemma in_items_any: "v \<noteq> Null \<Longrightarrow> in_items v (map Ok xs) hn = quantified (apply_binary_op env OpEqual v) True xs hn"
  by (induction xs arbitrary: hn) (simp_all add: apply_binary_op_def)

lemma in_items_all: "v \<noteq> Null \<Longrightarrow> in_items v (map Ok xs) hn = quantified (apply_binary_op env OpNotEqual v) False xs hn"
  by (induction xs arbitrary: hn) (simp_all add: apply_binary_op_def)

text \<open>
  C24: a membership test in a subquery is the quantified comparison that defines it: \<^verbatim>\<open>IN\<close> is \<^verbatim>\<open>= ANY\<close> and \<^verbatim>\<open>NOT IN\<close> is \<^verbatim>\<open><> ALL\<close>, with the same value, NULL
  or error on every row, for a statement that returns rows or fails.
\<close>

theorem in_subquery_is_quantified:
  assumes "exec_select env (outer_rows env @ [sc]) q \<noteq> Ok None"
  shows "eval_expr env (InSubquery e q False) sc = eval_expr env (AnyOp e OpEqual q) sc
       \<and> eval_expr env (InSubquery e q True) sc = eval_expr env (AllOp e OpNotEqual q) sc"
proof -
  have same: "subquery_rows env sc q m = subquery_rows env sc q m'" for m m'
    using assms by (cases "exec_select env (outer_rows env @ [sc]) q") (auto simp: subquery_rows_def split: option.splits)
  have lists: "eval_in_list v (map Ok xs) False = eval_any env v OpEqual xs" "eval_in_list v (map Ok xs) True = eval_all env v OpNotEqual xs"
    if "v \<noteq> Null" for v xs
    using that
    by (auto simp: eval_in_list_def eval_any_def eval_all_def in_items_any [symmetric] in_items_all [symmetric] in_result_def int01
        intro!: arg_cong2 [where f = res_bind])
  show ?thesis
    by (cases "eval_expr env e sc")
      (simp_all add: lists same [of no_rows_error "''subquery in ANY did not return rows''"]
        same [of "''subquery in ALL did not return rows''" "''subquery in ANY did not return rows''"])
qed

theorem in_subquery_is_quantified_witness:
  "eval_expr sample_env (AllOp (IntegerLiteral 1) OpNotEqual ()) no_scope = Ok Null"
proof -
  have "eval_expr sample_env (InSubquery (IntegerLiteral 1) () True) no_scope = Ok Null"
    by (simp add: sample_env_def eval_in_list_def in_result_def subquery_rows_def first_column_def)
  moreover have "exec_select sample_env (outer_rows sample_env @ [no_scope]) () \<noteq> Ok None" by (simp add: sample_env_def)
  ultimately show ?thesis using in_subquery_is_quantified [of sample_env no_scope "()" "IntegerLiteral 1"] by (simp del: eval_expr.simps)
qed

section \<open>Definitions through other expressions\<close>

text \<open>A simple \<^verbatim>\<open>CASE\<close> as a searched one.\<close>

definition searched :: "'q expr \<Rightarrow> ('q expr \<times> 'q expr) list \<Rightarrow> ('q expr \<times> 'q expr) list" where
  "searched e whens = map (\<lambda>(w, t). (BinaryOp e OpEqual w, t)) whens"

fun coalesce_case :: "'q expr list \<Rightarrow> 'q expr" where
  "coalesce_case [] = NullLiteral"
| "coalesce_case (e # es) = Case None [(IsNull e True, e)] (Some (coalesce_case es))"

lemma simple_as_searched:
  assumes "eval_expr env e sc = Ok v"
  shows "simple_case v (map (\<lambda>(w, t). (eval_expr env w sc, eval_expr env t sc)) whens) els =
         searched_case (map (\<lambda>(w, t). (eval_expr env w sc, eval_expr env t sc)) (searched e whens)) els"
proof (induction whens)
  case (Cons c whens)
  obtain w t where "c = (w, t)" by (cases c)
  then show ?case using Cons assms
    by (cases "eval_expr env w sc") (auto simp: searched_def eval_binary_def apply_equal)
qed (simp add: searched_def)

lemma coalesce_as_case: "coalesce (map (\<lambda>a. eval_expr env a sc) es) = eval_expr env (coalesce_case es) sc"
proof (induction es)
  case (Cons e es)
  then show ?case by (cases "eval_expr env e sc") auto
qed simp

lemma value_eq_Null: "value_eq v Null \<longleftrightarrow> v = Null" "value_eq Null v \<longleftrightarrow> v = Null"
  by (cases v; simp)+

lemma function_names:
  "call_function env ''COALESCE'' as = coalesce as"
  "call_function env ''IFNULL'' as =
     (if length as < 2 then Ok Null else res_bind (as ! 0) (\<lambda>v. if v = Null then as ! 1 else Ok v))"
  "call_function env ''NULLIF'' as = fun2 (\<lambda>a b. if value_eq a b then Null else a) as"
  by (simp_all add: call_function_def Let_def to_ascii_uppercase_def ascii_upper_def)

text \<open>
  \<^verbatim>\<open>CASE e WHEN\<close>, \<^verbatim>\<open>COALESCE\<close>, \<^verbatim>\<open>IFNULL\<close> and \<^verbatim>\<open>NULLIF\<close> have on every row the outcome of the searched \<^verbatim>\<open>CASE\<close> by which SQL defines them; errors in arguments that are
  not needed are not seen.
\<close>

lemma conditionals_as_case:
  "(whens \<noteq> [] \<longrightarrow> eval_expr env (Case (Some e) whens els) sc = eval_expr env (Case None (searched e whens) els) sc)
 \<and> eval_expr env (FunctionCall ''COALESCE'' es dist) sc = eval_expr env (coalesce_case es) sc
 \<and> eval_expr env (FunctionCall ''IFNULL'' [a, b] dist) sc = eval_expr env (Case None [(IsNull a True, a)] (Some b)) sc
 \<and> eval_expr env (FunctionCall ''NULLIF'' [a, b] dist) sc = eval_expr env (Case None [(BinaryOp a OpEqual b, NullLiteral)] (Some a)) sc"
proof -
  have "eval_expr env (Case (Some e) whens els) sc = eval_expr env (Case None (searched e whens) els) sc" if "whens \<noteq> []"
  proof (cases "eval_expr env e sc")
    case (Ok v)
    then show ?thesis by (simp add: simple_as_searched [OF Ok] Let_def)
  qed (use that in \<open>cases whens; force simp: searched_def eval_binary_def Let_def\<close>)+
  moreover have "eval_expr env (FunctionCall ''NULLIF'' [a, b] dist) sc = eval_expr env (Case None [(BinaryOp a OpEqual b, NullLiteral)] (Some a)) sc"
    by (cases "eval_expr env a sc"; cases "eval_expr env b sc")
      (auto simp: function_names fun2_def eval_binary_def apply_equal value_eq_Null)
  moreover have "eval_expr env (FunctionCall ''IFNULL'' [a, b] dist) sc = eval_expr env (Case None [(IsNull a True, a)] (Some b)) sc"
    by (cases "eval_expr env a sc") (auto simp: function_names)
  ultimately show ?thesis by (simp add: function_names coalesce_as_case)
qed

lemma conditionals_as_case_witness:
  "eval_expr sample_env (Case (Some (IntegerLiteral 1)) [(IntegerLiteral 1, NullLiteral)] None) no_scope =
   eval_expr sample_env (Case None (searched (IntegerLiteral 1) [(IntegerLiteral 1, NullLiteral)]) None) no_scope"
  using conditionals_as_case [of "[(IntegerLiteral 1, NullLiteral)]" sample_env "IntegerLiteral 1" None no_scope] by blast

text \<open>Where \<^verbatim>\<open>BETWEEN\<close> and the pair of comparisons differ: one bound is NULL and the other one decides.\<close>

definition between_undecided :: "value \<Rightarrow> value \<Rightarrow> value \<Rightarrow> bool" where
  "between_undecided v l h \<longleftrightarrow> v \<noteq> Null \<and>
     (l = Null \<and> h \<noteq> Null \<and> compare_op (\<lambda>c. c \<noteq> Greater) v h = Integer 0 \<or>
      h = Null \<and> l \<noteq> Null \<and> compare_op (\<lambda>c. c \<noteq> Less) v l = Integer 0)"

text \<open>
  \<^verbatim>\<open>e BETWEEN lo AND hi\<close> has the value of \<^verbatim>\<open>e >= lo AND e <= hi\<close>, which defines it, exactly if it is not the case that one bound is NULL while the comparison with the
  other one already fails; then \<^verbatim>\<open>BETWEEN\<close> is NULL, and \<^verbatim>\<open>NOT BETWEEN\<close> with it, where the comparisons are false.
\<close>

lemma between_as_comparisons:
  assumes "eval_expr env e sc = Ok v" and "eval_expr env lo sc = Ok l" and "eval_expr env hi sc = Ok h"
  shows "(eval_expr env (Between e lo hi False) sc =
          eval_expr env (BinaryOp (BinaryOp e OpGreaterThanOrEqual lo) OpAnd (BinaryOp e OpLessThanOrEqual hi)) sc
            \<longleftrightarrow> \<not> between_undecided v l h)
       \<and> eval_expr env (Between e lo hi True) sc = eval_expr env (UnaryOp OpNot (Between e lo hi False)) sc
       \<and> (between_undecided v l h \<longrightarrow> eval_expr env (Between e lo hi False) sc = Ok Null)"
  using assms
  by (cases "v = Null"; cases "l = Null"; cases "h = Null")
    (auto simp: eval_binary_def eval_and_Ok apply_binary_op_def null_op_def eval_between_def compare_op_def eval_unary_def
      between_undecided_def int01 Let_def)

lemma between_as_comparisons_witness:
  "eval_expr sample_env (Between (IntegerLiteral 5) (IntegerLiteral 10) NullLiteral False) no_scope = Ok Null
 \<and> eval_expr sample_env (BinaryOp (BinaryOp (IntegerLiteral 5) OpGreaterThanOrEqual (IntegerLiteral 10)) OpAnd
       (BinaryOp (IntegerLiteral 5) OpLessThanOrEqual NullLiteral)) no_scope \<noteq> Ok Null"
proof -
  have "i64_cmp 5 10 = Less" by (simp add: i64_cmp_def int_cmp_def)
  then have "between_undecided (Integer 5) (Integer 10) Null" by (simp add: between_undecided_def compare_op_def bool_value_def)
  then show ?thesis
    using between_as_comparisons [of sample_env "IntegerLiteral 5" no_scope "Integer 5" "IntegerLiteral 10" "Integer 10" NullLiteral Null]
      eval_expr.simps(1,5) by metis
qed

section \<open>Integers\<close>

lemma division_identity_word: "wrapping_div a b * b + wrapping_rem a b = a"
proof -
  have "(word_of_int (sint a sdiv sint b * sint b + sint a smod sint b) :: i64) = a"
    by (simp add: sdiv_mult_smod_eq)
  then show ?thesis by (simp add: wrapping_div_def wrapping_rem_def flip: wi_hom_add wi_hom_mult)
qed

text \<open>
  integer division and remainder belong together: for integers with a divisor that is not zero \<^verbatim>\<open>(a / b) * b + a % b\<close> evaluates to \<^verbatim>\<open>a\<close>, also where the quotient
  overflows; a zero divisor gives NULL and no panic.
\<close>

lemma integer_division:
  assumes "eval_expr env a sc = Ok (Integer x)" and "eval_expr env b sc = Ok (Integer y)"
  shows "eval_expr env (BinaryOp (BinaryOp (BinaryOp a OpDivide b) OpMultiply b) OpAdd (BinaryOp a OpModulo b)) sc =
         Ok (if y = 0 then Null else Integer x)"
  using assms
  by (simp add: eval_binary_def apply_binary_op_def divide_values_def numeric_op_def int_op_def null_op_def division_identity_word)

lemma integer_division_witness:
  "eval_expr sample_env (BinaryOp (BinaryOp (BinaryOp (IntegerLiteral (- 7)) OpDivide (IntegerLiteral 2)) OpMultiply (IntegerLiteral 2))
     OpAdd (BinaryOp (IntegerLiteral (- 7)) OpModulo (IntegerLiteral 2))) no_scope = Ok (Integer (- 7))"
  using integer_division [of sample_env "IntegerLiteral (- 7)" no_scope "- 7" "IntegerLiteral 2" 2] by (simp del: eval_expr.simps add: eval_expr.simps(1))

section \<open>Integers as text\<close>

lemma text_str_ascii [simp]: "text_str (ascii s) = s"
proof -
  have "char_of (unat (word_of_nat (of_char c) :: u8)) = c" for c :: char
    using unat_small [of "of_char c"] nat_of_char_less_256 [of c] by simp
  then show ?thesis by (induction s) (simp_all add: text_str_def ascii_def)
qed

lemma digit_byte: "d < 10 \<Longrightarrow> ascii [digit_char d] = [word_of_nat (48 + d)]"
  by (simp add: ascii_def digit_char_def)

lemma parse_digits_append: "parse_digits (as @ bs) acc = Option.bind (parse_digits as acc) (parse_digits bs)"
  by (induction as arbitrary: acc) auto

lemma parse_digit: "d < 10 \<Longrightarrow> parse_digits [word_of_nat (48 + d)] acc = Some (10 * acc + d)"
  using unat_small [of "48 + d"] by (simp add: word_le_nat_alt del: of_nat_add)

lemma parse_show_nat: "parse_digits (ascii (show_nat n)) 0 = Some n"
proof (induction n rule: show_nat.induct)
  case (1 n)
  show ?case
  proof (cases "n < 10")
    case True
    then show ?thesis by (subst show_nat.simps) (simp add: digit_byte parse_digit del: of_nat_add parse_digits.simps)
  next
    case False
    have "ascii (show_nat n) = ascii (show_nat (n div 10)) @ ascii [digit_char (n mod 10)]"
      using False by (subst show_nat.simps) (simp add: ascii_def)
    then show ?thesis using 1 False by (simp add: digit_byte parse_digits_append parse_digit del: of_nat_add parse_digits.simps)
  qed
qed

lemma digit_graphic: "d < 10 \<Longrightarrow> graphic (digit_char d) \<and> digit_char d \<noteq> CHR ''-'' \<and> digit_char d \<noteq> CHR ''+''"
  by (auto simp: graphic_def digit_char_def char_of_eq_iff take_bit_eq_mod)

lemma show_nat_graphic: "list_all (\<lambda>c. graphic c \<and> c \<noteq> CHR ''-'' \<and> c \<noteq> CHR ''+'') (show_nat n) \<and> show_nat n \<noteq> []"
proof (induction n rule: show_nat.induct)
  case (1 n)
  show ?case
  proof (cases "n < 10")
    case True
    then show ?thesis by (subst (1 2) show_nat.simps) (simp add: digit_graphic)
  next
    case False
    then show ?thesis using 1 by (subst (1 2) show_nat.simps) (simp add: digit_graphic)
  qed
qed

lemma trim_all_graphic: "list_all graphic s \<Longrightarrow> trim_text (ascii s) = ascii s"
proof (cases s)
  case Nil
  then show ?thesis by (simp add: trim_text_def trim_def trim_end_def ascii_def text_str_def)
next
  case (Cons c t)
  moreover assume "list_all graphic s"
  ultimately have "graphic c" "graphic (last (c # t))" by (auto simp: list_all_iff)
  then show ?thesis using Cons trim_graphic by (simp add: trim_text_def)
qed

lemma show_int_graphic: "list_all graphic (show_int i)"
proof -
  have "graphic CHR ''-''" by (simp add: graphic_def)
  then show ?thesis using show_nat_graphic by (auto simp: show_int_def list_all_iff)
qed

lemma parse_show_int: "parse_i64 (ascii (show_int (sint i))) = Some i"
proof -
  have bounds: "- (2 ^ 63) \<le> sint i" "sint i < 2 ^ 63" using sint_range_size [of i] by (auto simp: word_size)
  obtain c cs where n: "show_nat (nat \<bar>sint i\<bar>) = c # cs" "c \<noteq> CHR ''-''" "c \<noteq> CHR ''+''"
    using show_nat_graphic [of "nat \<bar>sint i\<bar>"] by (cases "show_nat (nat \<bar>sint i\<bar>)") auto
  have signs: "char_of (45 :: nat) = CHR ''-''" "char_of (43 :: nat) = CHR ''+''" by code_simp+
  have sign: "(word_of_nat (of_char c) :: u8) \<noteq> 45" "(word_of_nat (of_char c) :: u8) \<noteq> 43"
    using n(2,3) text_str_ascii [of "[c]"] signs by (auto simp: ascii_def text_str_def)
  have digits: "parse_digits (ascii (c # cs)) 0 = Some (nat \<bar>sint i\<bar>)" using parse_show_nat n(1) by metis
  show ?thesis
  proof (cases "sint i < 0")
    case True
    then have "ascii (show_int (sint i)) = 45 # ascii (c # cs)" using n(1) by (simp add: show_int_def ascii_def)
    then show ?thesis using digits bounds True by (simp add: parse_i64_def ascii_def)
  next
    case False
    then have "ascii (show_int (sint i)) = ascii (c # cs)" using n(1) by (simp add: show_int_def)
    then show ?thesis using digits bounds sign False by (simp add: parse_i64_def ascii_def)
  qed
qed

text \<open>
  C25: an integer survives the way through text: a cast to \<^verbatim>\<open>TEXT\<close> and back to \<^verbatim>\<open>INTEGER\<close> (or \<^verbatim>\<open>NUMERIC\<close>) gives the integer, for every 64-bit value, and so does concatenation
  with the empty string followed by the cast.
\<close>

theorem integer_text_round_trip:
  assumes "eval_expr env e sc = Ok (Integer i)"
  shows "eval_expr env (Cast (Cast e CastText t1) CastInteger t2) sc = Ok (Integer i)
       \<and> eval_expr env (Cast (Cast e CastText t1) CastNumeric t2) sc = Ok (Integer i)
       \<and> eval_expr env (Cast (BinaryOp e OpConcat (StringLiteral [])) CastInteger t2) sc = Ok (Integer i)"
proof -
  have "value_display (Integer i) = ascii (show_int (sint i))" "value_display (Text []) = []" by (simp_all add: value_display_def)
  then show ?thesis using assms
    by (simp add: cast_value_def cast_to_text_def cast_integer_def cast_numeric_def trim_all_graphic show_int_graphic parse_show_int
        eval_binary_def apply_binary_op_def)
qed

theorem integer_text_round_trip_witness:
  "eval_expr sample_env (Cast (Cast (IntegerLiteral (- 9)) CastText False) CastInteger False) no_scope = Ok (Integer (- 9))"
  using integer_text_round_trip [of sample_env "IntegerLiteral (- 9)" no_scope "- 9" False False] by simp

section \<open>Panics\<close>

text \<open>Functions that take a one-based position, and the expressions without them.\<close>

definition takes_position :: "string \<Rightarrow> bool" where
  "takes_position name \<longleftrightarrow> to_ascii_uppercase name \<in> {''SUBSTR'', ''SUBSTRING'', ''OVERLAY''}"

fun position_free :: "'q expr \<Rightarrow> bool" where
  "position_free (Interval e _) = position_free e"
| "position_free (Collate e _) = position_free e"
| "position_free (BinaryOp l _ r) = (position_free l \<and> position_free r)"
| "position_free (UnaryOp _ e) = position_free e"
| "position_free (IsNull e _) = position_free e"
| "position_free (InList e items _) = (position_free e \<and> list_all position_free items)"
| "position_free (LikeExpr e p _ _ _) = (position_free e \<and> position_free p)"
| "position_free (Between e lo hi _) = (position_free e \<and> position_free lo \<and> position_free hi)"
| "position_free (FunctionCall name args _) = (\<not> takes_position name \<and> list_all position_free args)"
| "position_free (InSubquery e _ _) = position_free e"
| "position_free (AnyOp e _ _) = position_free e"
| "position_free (AllOp e _ _) = position_free e"
| "position_free (Nested e) = position_free e"
| "position_free (Case operand whens els) =
     (pred_option position_free operand \<and> list_all (\<lambda>(w, t). position_free w \<and> position_free t) whens \<and> pred_option position_free els)"
| "position_free (Cast e _ _) = position_free e"
| "position_free _ = True"

abbreviation no_panic :: "'a res \<Rightarrow> bool" where
  "no_panic r \<equiv> r \<noteq> Panic"

text \<open>What the evaluator needs of the other components it calls.\<close>

definition env_no_panic :: "'q eval_env \<Rightarrow> bool" where
  "env_no_panic env \<longleftrightarrow> (\<forall>scopes q. no_panic (exec_select env scopes q)) \<and>
     (\<forall>name as. list_all no_panic as \<longrightarrow> no_panic (other_function env name as))"

lemma apply_no_panic [simp]: "no_panic (apply_binary_op env op l r)"
  by (simp add: apply_binary_op_def)

lemma eval_binary_no_panic: "no_panic l \<Longrightarrow> no_panic r \<Longrightarrow> no_panic (eval_binary env op l r row)"
  by (cases l; cases r) (auto simp: eval_binary_def eval_and_def eval_or_def eval_fts_match_def Let_def split: case_value_splits)

lemma eval_unary_no_panic: "no_panic (eval_unary op v)"
  by (simp add: eval_unary_def split: unary_operator.splits case_value_splits)

lemma in_items_no_panic: "list_all no_panic items \<Longrightarrow> no_panic (in_items v items hn)"
  by (induction v items hn rule: in_items.induct) (auto simp: res_bind_Panic_iff split: if_splits)

lemma eval_in_list_no_panic: "list_all no_panic items \<Longrightarrow> no_panic (eval_in_list v items negated)"
  by (auto simp: eval_in_list_def res_bind_Panic_iff in_items_no_panic)

lemma eval_like_no_panic: "no_panic (eval_like v p esc ci negated)"
proof -
  have "\<exists>b. like_match t q esc ci = Some b" for t q by (rule like_match_ends)
  then show ?thesis by (auto simp: eval_like_def split: case_value_splits option.splits) (metis option.distinct(1))
qed

lemma quantified_no_panic: "(\<And>x. no_panic (cmp x)) \<Longrightarrow> no_panic (quantified cmp wanted xs hn)"
  by (induction xs arbitrary: hn) (auto simp: res_bind_Panic_iff split: if_splits)

lemma eval_any_all_no_panic: "no_panic (eval_any env v op xs)" "no_panic (eval_all env v op xs)"
  by (auto simp: eval_any_def eval_all_def res_bind_Panic_iff quantified_no_panic)

lemma cases_no_panic:
  "list_all (\<lambda>(w, t). no_panic w \<and> no_panic t) cs \<Longrightarrow> no_panic els \<Longrightarrow> no_panic (searched_case cs els) \<and> no_panic (simple_case v cs els)"
  by (induction cs) (auto simp: res_bind_Panic_iff split: if_splits)

lemma cast_no_panic: "no_panic (cast_value to_type try_cast v)"
  by (simp add: cast_value_def cast_integer_def cast_real_def cast_numeric_def cast_failed_def
      split: cast_target.splits case_value_splits option.splits)

lemma subquery_no_panic: "env_no_panic env \<Longrightarrow> no_panic (subquery_rows env sc q err)"
  by (auto simp: env_no_panic_def subquery_rows_def res_bind_Panic_iff split: option.splits)

lemma coalesce_no_panic: "list_all no_panic as \<Longrightarrow> no_panic (coalesce as)"
  by (induction as) (auto simp: res_bind_Panic_iff split: if_splits)

lemma all_ok_no_panic: "list_all no_panic as \<Longrightarrow> no_panic (all_ok as)"
  by (induction as) (auto simp: res_bind_Panic_iff split: if_splits)

lemma nth_no_panic: "list_all no_panic as \<Longrightarrow> as ! i = Panic \<Longrightarrow> length as \<le> i"
  by (auto simp: list_all_length not_less [symmetric])

lemma fun12_no_panic: "list_all no_panic as \<Longrightarrow> no_panic (fun1 f as)" "list_all no_panic as \<Longrightarrow> no_panic (fun2 g as)"
  by (auto simp: fun1_def fun2_def res_bind_Panic_iff dest: nth_no_panic)

lemma trim_no_panic: "list_all no_panic as \<Longrightarrow> no_panic (trim_function front back as)"
  by (auto simp: trim_function_def res_bind_Panic_iff split: case_value_splits if_splits dest: nth_no_panic)

lemma factorial_no_panic: "no_panic (factorial_function v)"
  by (simp add: factorial_function_def split: case_value_splits)

lemma call_function_no_panic:
  assumes "list_all no_panic as" and "\<not> takes_position name" and "env_no_panic env"
  shows "no_panic (call_function env name as)"
proof -
  have other: "no_panic (other_function env name as)" using assms by (simp add: env_no_panic_def)
  have ifnull: "no_panic (if length as < 2 then Ok Null else res_bind (as ! 0) (\<lambda>v. if v = Null then as ! 1 else Ok v))"
    using assms(1) by (auto simp: res_bind_Panic_iff split: if_splits dest: nth_no_panic)
  have replace: "no_panic (replace_function as)"
    using assms(1) by (auto simp: replace_function_def with_text_def res_bind_Panic_iff split: case_value_splits dest: nth_no_panic)
  have setting: "no_panic (if as = [] then Ok Null else with_text (as ! 0) (\<lambda>key. Ok (f key)))" for f
    using assms(1) by (auto simp: with_text_def res_bind_Panic_iff split: case_value_splits dest: nth_no_panic)
  have first: "no_panic (if as = [] then Ok v else as ! 0)" for v using assms(1) by (auto dest: nth_no_panic)
  have factorial: "no_panic (if as = [] then Ok Null else res_bind (as ! 0) factorial_function)"
    using assms(1) by (auto simp: res_bind_Panic_iff factorial_no_panic dest: nth_no_panic)
  have collect: "no_panic (res_bind (all_ok as) (\<lambda>vs. Ok (f vs)))" for f
    using assms(1) by (auto simp: res_bind_Panic_iff all_ok_no_panic)
  note parts = other ifnull replace setting first factorial collect fun12_no_panic [OF assms(1)] trim_no_panic [OF assms(1)]
    coalesce_no_panic [OF assms(1)]
  have none: "no_panic (if c then a else b)" if "c \<Longrightarrow> no_panic a" "\<not> c \<Longrightarrow> no_panic b" for c and a b :: "value res" using that by simp
  show ?thesis
    unfolding call_function_def Let_def
    using assms(2) unfolding takes_position_def
    by - ((rule parts res.distinct)+ | rule none | simp; fail)+
qed

lemma eval_column_no_panic: "no_panic (eval_column env tbl column sc)"
  by (simp add: eval_column_def Let_def split: option.splits)

lemma eval_case_no_panic:
  assumes "pred_option (\<lambda>e. no_panic (eval_expr env e sc)) operand"
    and "list_all (\<lambda>(w, t). no_panic (eval_expr env w sc) \<and> no_panic (eval_expr env t sc)) whens"
    and "pred_option (\<lambda>e. no_panic (eval_expr env e sc)) els"
  shows "no_panic (eval_expr env (Case operand whens els) sc)"
proof -
  have "list_all (\<lambda>(w, t). no_panic w \<and> no_panic t) (map (\<lambda>(w, t). (eval_expr env w sc, eval_expr env t sc)) whens)"
    using assms(2) by (auto simp: list_all_iff)
  moreover have "no_panic (case els of None \<Rightarrow> Ok Null | Some e \<Rightarrow> eval_expr env e sc)"
    using assms(3) by (auto split: option.splits)
  ultimately show ?thesis using assms(1) cases_no_panic by (auto simp: Let_def res_bind_Panic_iff split: option.splits)
qed

lemmas eval_parts_no_panic =
  eval_binary_no_panic eval_unary_no_panic eval_in_list_no_panic eval_like_no_panic eval_any_all_no_panic cast_no_panic subquery_no_panic
  call_function_no_panic eval_column_no_panic



text \<open>
  the start position of \<^verbatim>\<open>SUBSTR\<close> is decremented without a check, so the smallest integer as position panics (with overflow checks), whatever the text is, where other positions out of range give the empty text.
\<close>

lemma substr_smallest_position_panics:
  assumes "eval_expr env e sc = Ok (Text t)" and "eval_expr env p sc = Ok (Integer i)"
  shows "eval_expr env (FunctionCall ''SUBSTR'' [e, p] dist) sc = Panic \<longleftrightarrow> sint i = - (2 ^ 63)"
  using assms
  by (simp add: call_function_def Let_def to_ascii_uppercase_def ascii_upper_def substr_function_def with_text_def with_integer_def index_from_def)

lemma substr_smallest_position_panics_witness:
  "eval_expr sample_env (FunctionCall ''SUBSTR'' [StringLiteral [97], IntegerLiteral (2 ^ 63)] False) no_scope = Panic"
  using substr_smallest_position_panics [of sample_env "StringLiteral [97]" no_scope "[97]" "IntegerLiteral (2 ^ 63)" "2 ^ 63" False]
  by (simp del: eval_expr.simps add: eval_expr.simps(1,3))

end
