(* ===== verification/SelectRows.thy ===== *)
theory SelectRows
  imports ExprLaws "HOL-Library.Multiset"
begin

text \<open>
  The parts of \<^verbatim>\<open>SELECT\<close> that work on finished lists of rows (\<^verbatim>\<open>src/src/vm/exec_select.rs\<close>): the text keys by which rows are compared for
  \<^verbatim>\<open>DISTINCT\<close>, \<^verbatim>\<open>GROUP BY\<close> and hash joins, the comparison of \<^verbatim>\<open>ORDER BY\<close>, sorting with and without a limit, \<^verbatim>\<open>OFFSET\<close> and \<^verbatim>\<open>LIMIT\<close>.
\<close>

section \<open>Keys\<close>

definition typed_key :: "value \<Rightarrow> bytes" where
  "typed_key v =
     (case v of
        Null \<Rightarrow> ascii ''N''
      | Integer i \<Rightarrow> ascii (CHR ''I'' # show_int (sint i))
      | Text t \<Rightarrow> ascii ''T'' @ t
      | Real r \<Rightarrow> ascii (CHR ''R'' # show_f64 r)
      | Blob b \<Rightarrow> ascii (CHR ''B'' # hex_encode b))"

text \<open>The key of a list of values: each key is followed by a zero byte.\<close>

definition typed_row_key :: "value list \<Rightarrow> bytes" where
  "typed_row_key vs = concat (map (\<lambda>v. typed_key v @ [0]) vs)"

fun distinct_by :: "('a \<Rightarrow> 'k) \<Rightarrow> 'k set \<Rightarrow> 'a list \<Rightarrow> 'a list" where
  "distinct_by key seen [] = []"
| "distinct_by key seen (x # xs) =
     (if key x \<in> seen then distinct_by key seen xs else x # distinct_by key (insert (key x) seen) xs)"

definition distinct_rows :: "row list \<Rightarrow> row list" where
  "distinct_rows rows = distinct_by typed_row_key {} rows"

section \<open>Order\<close>

definition compare_value_pair :: "value \<Rightarrow> value \<Rightarrow> bool option \<Rightarrow> bool \<Rightarrow> ordering" where
  "compare_value_pair a b nulls_first ascending =
     (if a = Null \<or> b = Null then
        if a = Null \<and> b = Null then Equal
        else let nf = (case nulls_first of None \<Rightarrow> \<not> ascending | Some x \<Rightarrow> x) in
          if a = Null then (if nf then Less else Greater) else (if nf then Greater else Less)
      else case value_partial_cmp a b of
          None \<Rightarrow> Equal
        | Some ord \<Rightarrow> if ord = Equal then Equal else if ascending then ord else ordering_reverse ord)"

text \<open>The comparison of two rows by their sort keys; a parameter is the direction and the place of NULLs of one term.\<close>

definition first_or_null :: "value list \<Rightarrow> value" where
  "first_or_null vs = (case vs of [] \<Rightarrow> Null | v # _ \<Rightarrow> v)"

fun compare_keys :: "(bool \<times> bool option) list \<Rightarrow> value list \<Rightarrow> value list \<Rightarrow> ordering" where
  "compare_keys [] as bs = Equal"
| "compare_keys ((ascending, nulls_first) # ps) as bs =
     (let ord = compare_value_pair (first_or_null as) (first_or_null bs) nulls_first ascending
      in if ord \<noteq> Equal then ord else compare_keys ps (tl as) (tl bs))"

text \<open>\<^verbatim>\<open>slice::sort_by\<close>, a stable sort; elements that compare as equal keep their order.\<close>

fun insert_by :: "('a \<Rightarrow> 'a \<Rightarrow> ordering) \<Rightarrow> 'a \<Rightarrow> 'a list \<Rightarrow> 'a list" where
  "insert_by cmp x [] = [x]"
| "insert_by cmp x (y # ys) = (if cmp x y = Greater then y # insert_by cmp x ys else x # y # ys)"

definition sort_by :: "('a \<Rightarrow> 'a \<Rightarrow> ordering) \<Rightarrow> 'a list \<Rightarrow> 'a list" where
  "sort_by cmp xs = foldr (insert_by cmp) xs []"

text \<open>
  With a limit only the first \<open>k\<close> elements are sorted, after \<^verbatim>\<open>slice::select_nth_unstable_by\<close> has moved them to the front. Which of several equal
  elements it takes and how it orders them is not specified; it is a parameter.
\<close>

type_synonym 'a selection = "('a \<Rightarrow> 'a \<Rightarrow> ordering) \<Rightarrow> nat \<Rightarrow> 'a list \<Rightarrow> 'a list"

definition top_n_sort :: "'a selection \<Rightarrow> ('a \<Rightarrow> 'a \<Rightarrow> ordering) \<Rightarrow> nat option \<Rightarrow> 'a list \<Rightarrow> 'a list" where
  "top_n_sort select_nth cmp limit xs =
     (case limit of
        None \<Rightarrow> sort_by cmp xs
      | Some k \<Rightarrow>
          if k = 0 then []
          else if k < length xs then sort_by cmp (take k (select_nth cmp (k - 1) xs))
          else sort_by cmp xs)"

type_synonym keyed = "value list \<times> row"

definition compare_keyed :: "(bool \<times> bool option) list \<Rightarrow> keyed \<Rightarrow> keyed \<Rightarrow> ordering" where
  "compare_keyed ps a b = compare_keys ps (fst a) (fst b)"

section \<open>OFFSET and LIMIT\<close>

text \<open>A negative or non-integer limit is none; an offset that is not a positive integer is 0.\<close>

definition limit_of :: "value \<Rightarrow> nat option" where
  "limit_of v = (case v of Integer i \<Rightarrow> if 0 \<le> sint i then Some (nat (sint i)) else None | _ \<Rightarrow> None)"

definition offset_of :: "value \<Rightarrow> nat" where
  "offset_of v = (case v of Integer i \<Rightarrow> if 0 < sint i then nat (sint i) else 0 | _ \<Rightarrow> 0)"

definition USIZE_MAX :: nat where
  "USIZE_MAX = 2 ^ 64 - 1"

definition saturating_add_usize :: "nat \<Rightarrow> nat \<Rightarrow> nat" where
  "saturating_add_usize a b = min (a + b) USIZE_MAX"

definition apply_offset :: "nat \<Rightarrow> 'a list \<Rightarrow> 'a list" where
  "apply_offset n rows = (if n < length rows then drop n rows else [])"

definition apply_limit :: "nat option \<Rightarrow> 'a list \<Rightarrow> 'a list" where
  "apply_limit l rows = take (case l of None \<Rightarrow> length rows | Some n \<Rightarrow> n) rows"

end
