(* ===== verification/RowOrder.thy ===== *)
theory RowOrder
  imports SelectRows
begin

text \<open>
  Sorting by a comparison, stated for any comparison that is a total preorder on the elements it meets, and the comparison of \<^verbatim>\<open>ORDER BY\<close> as one:
  sorting gives a sorted, stable permutation, and the limited sort gives its beginning up to the choice among equal elements.
\<close>

section \<open>Sorting by a total preorder\<close>

locale row_order =
  fixes cmp :: "'a \<Rightarrow> 'a \<Rightarrow> ordering" and S :: "'a set"
  assumes flip: "x \<in> S \<Longrightarrow> y \<in> S \<Longrightarrow> cmp y x = ordering_reverse (cmp x y)"
    and trans: "x \<in> S \<Longrightarrow> y \<in> S \<Longrightarrow> z \<in> S \<Longrightarrow> cmp x y \<noteq> Greater \<Longrightarrow> cmp y z \<noteq> Greater \<Longrightarrow> cmp x z \<noteq> Greater"
begin

abbreviation le :: "'a \<Rightarrow> 'a \<Rightarrow> bool" where "le x y \<equiv> cmp x y \<noteq> Greater"
abbreviation eqv :: "'a \<Rightarrow> 'a \<Rightarrow> bool" where "eqv x y \<equiv> cmp x y = Equal"

lemma eqv_iff: "x \<in> S \<Longrightarrow> y \<in> S \<Longrightarrow> eqv x y \<longleftrightarrow> le x y \<and> le y x"
  using flip [of x y] by (cases "cmp x y") auto

lemma refl: "x \<in> S \<Longrightarrow> eqv x x"
  using flip [of x x] by (cases "cmp x x") auto

lemma total: "x \<in> S \<Longrightarrow> y \<in> S \<Longrightarrow> le x y \<or> le y x"
  using flip [of x y] by (cases "cmp x y") auto

lemma eqv_class: "x \<in> S \<Longrightarrow> y \<in> S \<Longrightarrow> p \<in> S \<Longrightarrow> eqv x y \<Longrightarrow> eqv p x \<longleftrightarrow> eqv p y"
  by (meson eqv_iff trans)

lemma set_insert_by [simp]: "set (insert_by cmp x ys) = insert x (set ys)"
  by (induction ys) auto

lemma mset_insert_by [simp]: "mset (insert_by cmp x ys) = add_mset x (mset ys)"
  by (induction ys) auto

lemma mset_sort_by: "mset (sort_by cmp xs) = mset xs"
  by (induction xs) (simp_all add: sort_by_def)

lemma set_sort_by: "set (sort_by cmp xs) = set xs"
  by (metis mset_sort_by set_mset_mset)

lemma sorted_insert_by: "insert x (set ys) \<subseteq> S \<Longrightarrow> sorted_wrt le ys \<Longrightarrow> sorted_wrt le (insert_by cmp x ys)"
proof (induction ys)
  case (Cons y ys)
  show ?case
  proof (cases "cmp x y = Greater")
    case True
    then have "le y x" using total [of x y] Cons.prems(1) by auto
    then show ?thesis using True Cons by auto
  next
    case False
    then have "le x z" if "z \<in> set ys" for z using that trans [of x y z] Cons.prems by auto
    then show ?thesis using False Cons.prems by auto
  qed
qed simp

lemma insert_by_takeWhile:
  "insert x (set ys) \<subseteq> S \<Longrightarrow> insert_by cmp x ys = takeWhile (\<lambda>y. cmp y x = Less) ys @ x # dropWhile (\<lambda>y. cmp y x = Less) ys"
proof (induction ys)
  case (Cons y ys)
  then have "cmp y x = Less \<longleftrightarrow> cmp x y = Greater" using flip [of x y] by (cases "cmp x y") auto
  then show ?case using Cons by auto
qed simp

lemma sorted_sort_by: "set xs \<subseteq> S \<Longrightarrow> sorted_wrt le (sort_by cmp xs)"
proof (induction xs)
  case (Cons x xs)
  then show ?case using sorted_insert_by [of x "sort_by cmp xs"] by (simp add: sort_by_def set_sort_by [unfolded sort_by_def])
qed (simp add: sort_by_def)

lemma stable_insert_by:
  "p \<in> S \<Longrightarrow> insert x (set ys) \<subseteq> S \<Longrightarrow> filter (eqv p) (insert_by cmp x ys) = filter (eqv p) (x # ys)"
proof (induction ys)
  case (Cons y ys)
  have "\<not> (eqv p x \<and> eqv p y)" if "cmp x y = Greater" using that trans [of x p y] eqv_iff [of p x] eqv_iff [of p y] Cons.prems by auto
  then show ?case using Cons by auto
qed simp

lemma stable_sort_by: "p \<in> S \<Longrightarrow> set xs \<subseteq> S \<Longrightarrow> filter (eqv p) (sort_by cmp xs) = filter (eqv p) xs"
proof (induction xs)
  case (Cons x xs)
  then show ?case using stable_insert_by [of p x "sort_by cmp xs"] by (simp add: sort_by_def set_sort_by [unfolded sort_by_def])
qed (simp add: sort_by_def)

text \<open>Two sorted lists with as many elements of each class agree up to equality of their elements.\<close>

lemma sorted_classes:
  assumes "set xs \<subseteq> S" and "set ys \<subseteq> S" and "sorted_wrt le xs" and "sorted_wrt le ys"
    and "\<And>p. p \<in> S \<Longrightarrow> length (filter (eqv p) xs) = length (filter (eqv p) ys)"
  shows "list_all2 eqv xs ys"
  using assms
proof (induction xs arbitrary: ys)
  case Nil
  have "y \<notin> set ys" for y using Nil(2) Nil(5) [of y] refl [of y] by (auto simp: filter_empty_conv)
  then show ?case by (cases ys) auto
next
  case (Cons x xs)
  have x: "x \<in> S" using Cons.prems(1) by simp
  have "filter (eqv x) ys \<noteq> []" using Cons.prems(5) [OF x] refl [OF x] by auto
  then obtain y ys' where ys: "ys = y # ys'" by (cases ys) auto
  have y: "y \<in> S" using Cons.prems(2) ys by simp
  obtain z where z: "z \<in> set ys" "eqv x z" using \<open>filter (eqv x) ys \<noteq> []\<close> by (auto simp: filter_empty_conv)
  have "filter (eqv y) (x # xs) \<noteq> []" using Cons.prems(5) [OF y] refl [OF y] ys by auto
  then obtain w where w: "w \<in> set (x # xs)" "eqv y w" by (auto simp only: filter_empty_conv)
  have "le y z" "le x w" "z \<in> S" "w \<in> S" using z w Cons.prems(1-4) ys refl [OF x] refl [OF y] by auto
  then have xy: "eqv x y" using z(2) w(2) x y by (meson eqv_iff trans)
  have "length (filter (eqv p) xs) = length (filter (eqv p) ys')" if "p \<in> S" for p
    using Cons.prems(5) [OF that] eqv_class [OF x y that xy] ys by (auto split: if_splits)
  then have "list_all2 eqv xs ys'" using Cons.IH [of ys'] Cons.prems(1-4) ys by auto
  then show ?case using xy ys by simp
qed

lemma sorted_same_elements:
  "set xs \<subseteq> S \<Longrightarrow> sorted_wrt le xs \<Longrightarrow> sorted_wrt le ys \<Longrightarrow> mset xs = mset ys \<Longrightarrow> list_all2 eqv xs ys"
  by (rule sorted_classes) (auto dest: mset_eq_setD, metis mset_filter size_mset)

text \<open>What \<^verbatim>\<open>select_nth_unstable_by\<close> documents: a permutation with nothing behind position \<open>i\<close> before anything up to it.\<close>

definition selects :: "'a selection \<Rightarrow> 'a list \<Rightarrow> bool" where
  "selects f xs \<longleftrightarrow> (\<forall>i < length xs. mset (f cmp i xs) = mset xs \<and>
     (\<forall>a \<in> set (take (Suc i) (f cmp i xs)). \<forall>b \<in> set (drop (Suc i) (f cmp i xs)). le a b))"

lemma selects_sort_by:
  assumes "set xs \<subseteq> S"
  shows "selects (\<lambda>cmp i xs. sort_by cmp xs) xs"
proof -
  have "sorted_wrt le (take n (sort_by cmp xs) @ drop n (sort_by cmp xs))" for n using sorted_sort_by [OF assms] by simp
  then show ?thesis by (simp add: selects_def mset_sort_by sorted_wrt_append del: append_take_drop_id)
qed

lemma top_n_is_prefix:
  assumes "set xs \<subseteq> S" and "selects f xs"
  shows "list_all2 eqv (top_n_sort f cmp (Some k) xs) (take k (sort_by cmp xs))"
    and "mset (top_n_sort f cmp (Some k) xs) \<subseteq># mset xs"
proof -
  have whole: "list_all2 eqv (sort_by cmp xs) (sort_by cmp xs)" "length (sort_by cmp xs) = length xs"
    using sorted_same_elements sorted_sort_by assms(1) mset_sort_by set_sort_by by (auto, metis size_mset)
  show "list_all2 eqv (top_n_sort f cmp (Some k) xs) (take k (sort_by cmp xs))"
    and "mset (top_n_sort f cmp (Some k) xs) \<subseteq># mset xs"
  proof -
    consider "k = 0" | "0 < k" "k < length xs" | "0 < k" "length xs \<le> k" by linarith
    then have "list_all2 eqv (top_n_sort f cmp (Some k) xs) (take k (sort_by cmp xs)) \<and> mset (top_n_sort f cmp (Some k) xs) \<subseteq># mset xs"
    proof cases
      case 2
      let ?p = "f cmp (k - 1) xs"
      let ?a = "take k ?p" and ?b = "drop k ?p"
      have p: "mset ?p = mset xs" "\<And>a b. a \<in> set ?a \<Longrightarrow> b \<in> set ?b \<Longrightarrow> le a b"
        using assms(2) 2 by (auto simp: selects_def dest!: spec [of _ "k - 1"])
      have sub: "set ?a \<subseteq> S" "set ?b \<subseteq> S" using mset_eq_setD [OF p(1)] assms(1) set_take_subset [of k ?p] set_drop_subset [of k ?p] by auto
      have "sorted_wrt le (sort_by cmp ?a @ sort_by cmp ?b)"
        using sorted_sort_by sub p(2) by (simp add: sorted_wrt_append set_sort_by)
      moreover have "mset (sort_by cmp ?a @ sort_by cmp ?b) = mset (sort_by cmp xs)"
        using p(1) by (simp only: mset_append mset_sort_by) (metis append_take_drop_id mset_append)
      moreover have "set (sort_by cmp ?a @ sort_by cmp ?b) \<subseteq> S" using sub by (simp add: set_sort_by)
      ultimately have "list_all2 eqv (sort_by cmp ?a @ sort_by cmp ?b) (sort_by cmp xs)"
        using sorted_same_elements sorted_sort_by [OF assms(1)] by blast
      then have "list_all2 eqv (take k (sort_by cmp ?a @ sort_by cmp ?b)) (take k (sort_by cmp xs))" by (rule list_all2_takeI)
      moreover have "length (sort_by cmp ?a) = k"
        using p(1) 2 mset_sort_by [of ?a] by (metis length_take min.absorb2 less_imp_le size_mset)
      moreover have "mset ?a \<subseteq># mset xs" using p(1) by (metis append_take_drop_id mset_append mset_subset_eq_add_left)
      ultimately show ?thesis using 2 by (simp add: top_n_sort_def mset_sort_by)
    qed (use whole in \<open>simp_all add: top_n_sort_def mset_sort_by\<close>)
    then show "list_all2 eqv (top_n_sort f cmp (Some k) xs) (take k (sort_by cmp xs))"
      and "mset (top_n_sort f cmp (Some k) xs) \<subseteq># mset xs" by auto
  qed
qed

end

section \<open>The comparison of ORDER BY\<close>

text \<open>
  Equality of an integer with a real number is not transitive and a NaN is equal to everything here, so a column is sortable if it
  has no real numbers, or no integers and no NaN.
\<close>

datatype sort_kind = ExactColumn | RealColumn

fun sortable_value :: "sort_kind \<Rightarrow> value \<Rightarrow> bool" where
  "sortable_value ExactColumn v = (\<not> (\<exists>r. v = Real r))"
| "sortable_value RealColumn v = ((\<forall>i. v \<noteq> Integer i) \<and> (\<forall>r. v = Real r \<longrightarrow> \<not> f64_is_nan r))"

lemma sortable_comparable:
  assumes "sortable_value k a" and "sortable_value k b" and "a \<noteq> Null" and "b \<noteq> Null"
  obtains ord where "value_partial_cmp a b = Some ord" and "value_partial_cmp b a = Some (ordering_reverse ord)"
proof -
  have "value_partial_cmp a b \<noteq> None"
    using assms by (cases k; cases a; cases b) (auto simp: f64_partial_cmp_None)
  then obtain ord where "value_partial_cmp a b = Some ord" by auto
  moreover from this have "value_partial_cmp b a = Some (ordering_reverse ord)" using value_order_coherent [of b a] by simp
  ultimately show ?thesis by (rule that)
qed

lemma sortable_equal:
  assumes "sortable_value k a" and "sortable_value k b" and "sortable_value k c" and "value_partial_cmp a b = Some Equal"
  shows "value_partial_cmp a c = value_partial_cmp b c"
proof -
  have "value_eq a b" using assms(4) value_order_coherent [of b a] by blast
  then show ?thesis using assms(1-3)
    by (cases k; cases a; cases b; cases c) (auto simp: f64_eq_def f64_partial_cmp_def)
qed

lemma sortable_trans:
  assumes s: "sortable_value k a" "sortable_value k b" "sortable_value k c"
    and "value_partial_cmp a b = Some x" and "value_partial_cmp b c = Some y" and "x \<noteq> Greater" and "y \<noteq> Greater"
  shows "value_partial_cmp a c = Some (if x = Equal then y else Less)"
proof (cases x)
  case Equal
  then show ?thesis using sortable_equal [OF s] assms(4,5) by simp
next
  case Less
  show ?thesis
  proof (cases y)
    case Equal
    have "value_partial_cmp c b = Some Equal" using assms(5) Equal value_order_coherent [of c b] by simp
    then have "value_partial_cmp c a = value_partial_cmp b a" using sortable_equal [OF s(3,2,1)] by simp
    then show ?thesis using \<open>x = Less\<close> assms(4) value_order_coherent [of a c] value_order_coherent [of b a]
      by (cases "value_partial_cmp a c") auto
  next
    case Less
    then show ?thesis using \<open>x = Less\<close> assms(4,5) value_less_trans [of a b c] by simp
  qed (use assms in simp)
qed (use assms in simp)

definition pair_le :: "value \<Rightarrow> value \<Rightarrow> bool option \<Rightarrow> bool \<Rightarrow> bool" where
  "pair_le a b nf asc \<longleftrightarrow> compare_value_pair a b nf asc \<noteq> Greater"

lemma reverse_simps [simp]: "ordering_reverse (ordering_reverse x) = x" "ordering_reverse x = Equal \<longleftrightarrow> x = Equal"
    "Equal = ordering_reverse x \<longleftrightarrow> x = Equal" "ordering_reverse x = Greater \<longleftrightarrow> x = Less" "ordering_reverse x = Less \<longleftrightarrow> x = Greater"
  by (cases x; simp)+

lemma pair_flip:
  assumes "sortable_value k a" and "sortable_value k b"
  shows "compare_value_pair b a nf asc = ordering_reverse (compare_value_pair a b nf asc)"
proof (cases "a = Null \<or> b = Null")
  case False
  then obtain ord where "value_partial_cmp a b = Some ord" "value_partial_cmp b a = Some (ordering_reverse ord)"
    using sortable_comparable [OF assms] by blast
  then show ?thesis using False by (simp add: compare_value_pair_def)
qed (auto simp: compare_value_pair_def Let_def)

lemma pair_trans_values:
  assumes s: "sortable_value k a" "sortable_value k b" "sortable_value k c" and n: "a \<noteq> Null" "b \<noteq> Null" "c \<noteq> Null"
    and ab: "compare_value_pair a b nf asc \<noteq> Greater" and bc: "compare_value_pair b c nf asc \<noteq> Greater"
  shows "compare_value_pair a c nf asc =
    (if compare_value_pair a b nf asc = Equal then compare_value_pair b c nf asc else Less)"
proof -
  obtain x where x: "value_partial_cmp a b = Some x" "value_partial_cmp b a = Some (ordering_reverse x)"
    using sortable_comparable [OF s(1,2) n(1,2)] by blast
  obtain y where y: "value_partial_cmp b c = Some y" "value_partial_cmp c b = Some (ordering_reverse y)"
    using sortable_comparable [OF s(2,3) n(2,3)] by blast
  show ?thesis
  proof (cases asc)
    case True
    then have "x \<noteq> Greater" "y \<noteq> Greater" using ab bc x y n by (auto simp: compare_value_pair_def split: if_splits)
    then show ?thesis using sortable_trans [OF s x(1) y(1)] x y n True by (auto simp: compare_value_pair_def)
  next
    case False
    then have "x \<noteq> Less" "y \<noteq> Less" using ab bc x y n by (auto simp: compare_value_pair_def split: if_splits)
    then have "value_partial_cmp c a = Some (if y = Equal then ordering_reverse x else Less)"
      using sortable_trans [OF s(3,2,1) y(2) x(2)] by auto
    then have "value_partial_cmp a c = Some (if y = Equal then x else Greater)" using value_order_coherent [of a c] by auto
    then show ?thesis using x y n False \<open>x \<noteq> Less\<close> \<open>y \<noteq> Less\<close> by (cases x; cases y) (auto simp: compare_value_pair_def)
  qed
qed

lemma pair_trans:
  assumes "sortable_value k a" "sortable_value k b" "sortable_value k c"
    and "compare_value_pair a b nf asc \<noteq> Greater" and "compare_value_pair b c nf asc \<noteq> Greater"
  shows "compare_value_pair a c nf asc =
    (if compare_value_pair a b nf asc = Equal then compare_value_pair b c nf asc else Less)"
proof (cases "a = Null \<or> b = Null \<or> c = Null")
  case True
  then show ?thesis using assms(4,5)
    by (cases "a = Null"; cases "b = Null"; cases "c = Null")
      (auto simp: compare_value_pair_def Let_def split: if_splits option.splits)
qed (use pair_trans_values assms in blast)

lemma sortable_Null [simp]: "sortable_value k Null"
  by (cases k) auto

lemma sortable_hd: "list_all2 sortable_value ks as \<Longrightarrow> \<exists>k. list_all2 sortable_value (tl ks) (tl as) \<and> k = (if ks = [] then ExactColumn else hd ks) \<and>
    sortable_value k (first_or_null as)"
  by (cases ks; cases as) (auto simp: first_or_null_def)

lemma keys_flip:
  "list_all2 sortable_value ks as \<Longrightarrow> list_all2 sortable_value ks bs \<Longrightarrow> compare_keys ps bs as = ordering_reverse (compare_keys ps as bs)"
proof (induction ps as bs arbitrary: ks rule: compare_keys.induct)
  case (2 asc nf ps as bs)
  obtain k where "list_all2 sortable_value (tl ks) (tl as)" "list_all2 sortable_value (tl ks) (tl bs)"
      "sortable_value k (first_or_null as)" "sortable_value k (first_or_null bs)"
    using sortable_hd [OF 2(2)] sortable_hd [OF 2(3)] by blast
  then show ?case using 2(1) [OF refl] pair_flip [of k "first_or_null as" "first_or_null bs" nf asc] by (simp add: Let_def)
qed simp

lemma keys_trans:
  assumes "list_all2 sortable_value ks as" "list_all2 sortable_value ks bs" "list_all2 sortable_value ks cs"
    and "compare_keys ps as bs \<noteq> Greater" and "compare_keys ps bs cs \<noteq> Greater"
  shows "compare_keys ps as cs \<noteq> Greater"
  using assms
proof (induction ps arbitrary: ks as bs cs)
  case (Cons p ps)
  obtain asc nf where p: "p = (asc, nf)" by (cases p)
  define k where "k = (if ks = [] then ExactColumn else hd ks)"
  have tls: "list_all2 sortable_value (tl ks) (tl as)" "list_all2 sortable_value (tl ks) (tl bs)" "list_all2 sortable_value (tl ks) (tl cs)"
    and hds: "sortable_value k (first_or_null as)" "sortable_value k (first_or_null bs)" "sortable_value k (first_or_null cs)"
    using sortable_hd Cons.prems(1-3) unfolding k_def by blast+
  let ?c = "\<lambda>x y. compare_value_pair (first_or_null x) (first_or_null y) nf asc"
  have step: "compare_keys (p # ps) x y = (if ?c x y \<noteq> Equal then ?c x y else compare_keys ps (tl x) (tl y))" for x y
    by (simp add: p Let_def)
  have le: "?c as bs \<noteq> Greater" "?c bs cs \<noteq> Greater" using Cons.prems(4,5) by (auto simp: step split: if_splits)
  show ?case
  proof (cases "?c as bs = Equal \<and> ?c bs cs = Equal")
    case True
    then show ?thesis using pair_trans [OF hds le] Cons.IH [OF tls] Cons.prems(4,5) by (simp add: step)
  next
    case False
    then have "?c as cs = Less" using pair_trans [OF hds le] le by (cases "?c as bs"; cases "?c bs cs") auto
    then show ?thesis by (simp add: step)
  qed
qed simp

definition sortable_keys :: "sort_kind list \<Rightarrow> keyed set" where
  "sortable_keys kinds = {k. list_all2 sortable_value kinds (fst k)}"

interpretation keyed: row_order "compare_keyed ps" "sortable_keys kinds" for ps kinds
  by unfold_locales (auto simp: compare_keyed_def sortable_keys_def intro: keys_flip dest: keys_trans)

end
