(* ===== verification/SelectFrom.thy ===== *)
theory SelectFrom
  imports RowOrder
begin

text \<open>
  The \<^verbatim>\<open>FROM\<close> clause of \<^verbatim>\<open>src/src/vm/exec_select.rs\<close>: names of columns, joins by a hash table or by nested loops, table functions, views and common
  table expressions. The rows of a stored table and the results of nested statements come from other components and are fields of the environment.
\<close>

section \<open>Statements\<close>

datatype join_type = JoinInner | JoinLeft | JoinRight | JoinCross | JoinLeftSemi | JoinRightSemi | JoinFull | JoinNatural

datatype 'q order_by_item = OrderByItem (order_expr: "'q expr") (ascending: bool) (nulls_first: "bool option")

datatype set_op_kind = UnionAll | UnionDistinct | IntersectAll | IntersectDistinct | ExceptAll | ExceptDistinct

datatype 'q set_op_stmt = SetOpStmt
  (set_kind: set_op_kind) (set_left: 'q) (set_right: 'q) (set_order_by: "'q order_by_item list")
  (set_limit: "'q expr option") (set_offset: "'q expr option")

datatype 'q from_clause =
    FromTable string "string option"
  | FromJoin "'q from_clause" join_type "'q from_clause" "'q expr option"
  | FromSubquery 'q string
  | FromSetOp "'q set_op_stmt" string
  | FromTableFunction string "'q expr list" "string option" "string option"

type_synonym query_result = "string list \<times> row list"
type_synonym ctes = "string \<Rightarrow> query_result option"

record 'q policy_schema =
  policy_role :: "bytes option"
  using_expr :: "'q expr option"

record 'q table_schema =
  col_names :: "string list"
  column_count :: nat
  table_root :: nat
  view_select :: "'q option"
  rls_enabled :: bool
  policies :: "'q policy_schema list"

text \<open>
  The virtual machine as seen by a \<^verbatim>\<open>SELECT\<close>: the evaluator's environment, the results of the common table expressions, the schema, the rows of a
  stored table that the statement may see, and the execution of a nested statement, which has no result if it does not return rows. The B+tree counts rows and
  scans up to a limit; an index scan may replace the scan for a condition; the cost model may give a join order. Of a nested statement the executor reads
  the number of its columns, its condition and the two sides of a union.
\<close>

record 'q vm_env =
  base_env :: "'q eval_env"
  cte_cache :: ctes
  schema_tables :: "string \<Rightarrow> 'q table_schema option"
  scan_table :: "string \<Rightarrow> nat \<Rightarrow> row list res"
  select_query :: "ctes \<Rightarrow> scope list \<Rightarrow> 'q \<Rightarrow> query_result option res"
  output_columns :: "'q \<Rightarrow> nat option"
  query_where :: "'q \<Rightarrow> 'q expr option"
  union_parts :: "'q \<Rightarrow> ('q \<times> 'q) option"
  count_table :: "string \<Rightarrow> nat \<Rightarrow> nat res"
  scan_limited :: "string \<Rightarrow> nat \<Rightarrow> nat \<Rightarrow> row list res"
  try_index_scan :: "'q from_clause \<Rightarrow> 'q expr \<Rightarrow> (row list \<times> string list) option res"
  join_order :: "'q from_clause list \<Rightarrow> nat list option"
  select_nth :: "keyed selection"

definition expr_env :: "'q vm_env \<Rightarrow> 'q eval_env" where
  "expr_env env =
     (base_env env)\<lparr>exec_select := (\<lambda>scopes q. res_bind (select_query env (cte_cache env) scopes q) (\<lambda>r. Ok (map_option snd r)))\<rparr>"

abbreviation eval_in :: "'q vm_env \<Rightarrow> 'q expr \<Rightarrow> row \<Rightarrow> col_map \<Rightarrow> value res" where
  "eval_in env e row m \<equiv> eval_expr (expr_env env) e (row, m)"

definition run_query :: "'q vm_env \<Rightarrow> 'q \<Rightarrow> string \<Rightarrow> query_result res" where
  "run_query env q err =
     res_bind (select_query env (cte_cache env) (outer_rows (base_env env)) q) (\<lambda>r. case r of Some qr \<Rightarrow> Ok qr | None \<Rightarrow> Err (Internal err))"

section \<open>Names\<close>

definition has_upper :: "string \<Rightarrow> bool" where
  "has_upper s \<longleftrightarrow> list_ex (\<lambda>c. ascii_lower c \<noteq> c) s"

definition lowercase_key :: "'q vm_env \<Rightarrow> string \<Rightarrow> string" where
  "lowercase_key env name =
     (if \<not> has_upper name then name
      else if length name \<le> 128 then to_ascii_lowercase name
      else text_str (to_lowercase (base_env env) (ascii name)))"

definition get_table :: "'q vm_env \<Rightarrow> string \<Rightarrow> 'q table_schema res" where
  "get_table env name = (case schema_tables env (lowercase_key env name) of None \<Rightarrow> Err (TableNotFound name) | Some t \<Rightarrow> Ok t)"

text \<open>The key of a column; as in a qualified name, each byte of a name with an upper-case letter becomes a character.\<close>

definition column_key :: "string \<Rightarrow> string" where
  "column_key name = (if has_upper name then lower_bytes_as_chars name else name)"

definition build_col_map :: "string list \<Rightarrow> col_map" where
  "build_col_map names = fold (\<lambda>(i, name) m. m(column_key name \<mapsto> i)) (enumerate 0 names) Map.empty"

text \<open>The names \<^verbatim>\<open>table.column\<close> of the columns from an offset on.\<close>

definition inject_columns :: "string list \<Rightarrow> string list \<Rightarrow> nat \<Rightarrow> nat \<Rightarrow> col_map \<Rightarrow> col_map" where
  "inject_columns tables names offset n m =
     fold (\<lambda>i m. if i < length names then fold (\<lambda>t m. m(qualified_key t (names ! i) \<mapsto> i)) tables m else m) [offset..<offset + n] m"

definition function_column :: "string \<Rightarrow> string option \<Rightarrow> string" where
  "function_column name column =
     (case column of
        Some c \<Rightarrow> c
      | None \<Rightarrow> (let n = to_ascii_uppercase name in
          if n = ''UNNEST'' then ''unnest'' else if n = ''GENERATE_SERIES'' then ''generate_series'' else ''value''))"

definition lower_string :: "'q vm_env \<Rightarrow> string \<Rightarrow> string" where
  "lower_string env s = text_str (to_lowercase (base_env env) (ascii s))"

fun inject_qualified_names :: "'q vm_env \<Rightarrow> 'q from_clause \<Rightarrow> string list \<Rightarrow> col_map \<times> nat \<Rightarrow> col_map \<times> nat" where
  "inject_qualified_names env (FromTable name alias) names (m, offset) =
     (case get_table env name of
        Ok t \<Rightarrow> (inject_columns (name # (case alias of None \<Rightarrow> [] | Some a \<Rightarrow> [a])) names offset (column_count t) m, offset + column_count t)
      | _ \<Rightarrow> (m, offset))"
| "inject_qualified_names env (FromJoin l jt r on) names s =
     inject_qualified_names env r names (inject_qualified_names env l names s)"
| "inject_qualified_names env (FromSubquery q alias) names (m, offset) =
     (case output_columns env q of
        None \<Rightarrow> (m, offset)
      | Some n \<Rightarrow>
          (fold (\<lambda>i m. if i < length names
                       then let m1 = m(qualified_key alias (names ! i) \<mapsto> i); k = to_ascii_lowercase (names ! i)
                            in if m1 k = None then m1(k \<mapsto> i) else m1
                       else m) [offset..<offset + n] m,
           offset + n))"
| "inject_qualified_names env (FromSetOp stmt alias) names s = s"
| "inject_qualified_names env (FromTableFunction name args alias column) names (m, offset) =
     (let t = (case alias of None \<Rightarrow> name | Some a \<Rightarrow> a); key = lower_string env t @ ''.'' @ lower_string env (function_column name column)
      in (if offset < length names then m(key \<mapsto> offset) else m, offset + 1))"

section \<open>Equi-joins\<close>

definition resolve_join_column :: "col_map \<Rightarrow> string option \<Rightarrow> string \<Rightarrow> nat option" where
  "resolve_join_column m tbl column =
     or_else (case tbl of None \<Rightarrow> None | Some t \<Rightarrow> m (qualified_key t column)) (or_else (m (lower_bytes_as_chars column)) (m column))"

definition detect_equi_join :: "'q expr option \<Rightarrow> col_map \<Rightarrow> nat \<Rightarrow> (nat \<times> nat) option" where
  "detect_equi_join on m left_count =
     (case on of
        Some (BinaryOp (ColumnRef lt lc) OpEqual (ColumnRef rt rc)) \<Rightarrow>
          (case (resolve_join_column m lt lc, resolve_join_column m rt rc) of
             (Some li, Some ri) \<Rightarrow>
               if li < left_count \<and> left_count \<le> ri then Some (li, ri - left_count)
               else if ri < left_count \<and> left_count \<le> li then Some (ri, li - left_count)
               else None
           | _ \<Rightarrow> None)
      | _ \<Rightarrow> None)"

text \<open>\<^verbatim>\<open>row[i]\<close>, which panics behind the end of the row.\<close>

definition cell :: "row \<Rightarrow> nat \<Rightarrow> value res" where
  "cell r i = (if i < length r then Ok (r ! i) else Panic)"

text \<open>The hash table over one side: the rows with a key, in order. Rows with NULL are left out.\<close>

fun hash_rows :: "nat \<Rightarrow> row list \<Rightarrow> (bytes \<Rightarrow> row list) \<Rightarrow> (bytes \<Rightarrow> row list) res" where
  "hash_rows idx [] h = Ok h"
| "hash_rows idx (r # rows) h =
     res_bind (cell r idx) (\<lambda>v. if v = Null then hash_rows idx rows h else hash_rows idx rows (h(typed_key v := h (typed_key v) @ [r])))"

fun res_concat_map :: "('a \<Rightarrow> 'b list res) \<Rightarrow> 'a list \<Rightarrow> 'b list res" where
  "res_concat_map f [] = Ok []"
| "res_concat_map f (x # xs) = res_bind (f x) (\<lambda>ys. res_bind (res_concat_map f xs) (\<lambda>zs. Ok (ys @ zs)))"

text \<open>One row of the probing side: the rows of the other side with its key.\<close>

definition probe :: "(bytes \<Rightarrow> row list) \<Rightarrow> nat \<Rightarrow> row \<Rightarrow> row list res" where
  "probe h idx r = res_bind (cell r idx) (\<lambda>v. Ok (if v = Null then [] else h (typed_key v)))"

definition hash_join :: "join_type \<Rightarrow> nat \<Rightarrow> nat \<Rightarrow> nat \<Rightarrow> nat \<Rightarrow> row list \<Rightarrow> row list \<Rightarrow> row list res" where
  "hash_join jt li ri left_width right_width left right =
     (case jt of
        JoinLeft \<Rightarrow>
          res_bind (hash_rows ri right (\<lambda>_. [])) (\<lambda>h. res_concat_map (\<lambda>l. res_bind (probe h li l) (\<lambda>ms.
            Ok (if ms = [] then [l @ replicate right_width Null] else map (\<lambda>r. l @ r) ms))) left)
      | JoinRight \<Rightarrow>
          res_bind (hash_rows li left (\<lambda>_. [])) (\<lambda>h. res_concat_map (\<lambda>r. res_bind (probe h ri r) (\<lambda>ms.
            Ok (if ms = [] then [replicate left_width Null @ r] else map (\<lambda>l. l @ r) ms))) right)
      | JoinLeftSemi \<Rightarrow>
          res_bind (hash_rows ri right (\<lambda>_. [])) (\<lambda>h. res_concat_map (\<lambda>l. res_bind (probe h li l) (\<lambda>ms.
            Ok (if ms = [] then [] else [l]))) left)
      | JoinRightSemi \<Rightarrow>
          res_bind (hash_rows li left (\<lambda>_. [])) (\<lambda>h. res_concat_map (\<lambda>r. res_bind (probe h ri r) (\<lambda>ms.
            Ok (if ms = [] then [] else [r]))) right)
      | _ \<Rightarrow>
          res_bind (hash_rows ri right (\<lambda>_. [])) (\<lambda>h. res_concat_map (\<lambda>l. res_bind (probe h li l) (\<lambda>ms. Ok (map (\<lambda>r. l @ r) ms))) left))"

section \<open>Nested loops\<close>

definition on_holds :: "'q vm_env \<Rightarrow> 'q expr option \<Rightarrow> col_map \<Rightarrow> row \<Rightarrow> bool res" where
  "on_holds env on m row = (case on of None \<Rightarrow> Ok True | Some e \<Rightarrow> res_bind (eval_in env e row m) (\<lambda>v. Ok (is_truthy v)))"

fun res_filter :: "('a \<Rightarrow> bool res) \<Rightarrow> 'a list \<Rightarrow> 'a list res" where
  "res_filter p [] = Ok []"
| "res_filter p (x # xs) = res_bind (p x) (\<lambda>b. res_bind (res_filter p xs) (\<lambda>ys. Ok (if b then x # ys else ys)))"

fun res_any :: "('a \<Rightarrow> bool res) \<Rightarrow> 'a list \<Rightarrow> bool res" where
  "res_any p [] = Ok False"
| "res_any p (x # xs) = res_bind (p x) (\<lambda>b. if b then Ok True else res_any p xs)"

definition loop_join :: "join_type \<Rightarrow> (row \<Rightarrow> bool res) \<Rightarrow> nat \<Rightarrow> nat \<Rightarrow> row list \<Rightarrow> row list \<Rightarrow> row list res" where
  "loop_join jt holds left_width right_width left right =
     (case jt of
        JoinLeft \<Rightarrow> res_concat_map (\<lambda>l. res_bind (res_filter holds (map (\<lambda>r. l @ r) right)) (\<lambda>ms.
            Ok (if ms = [] then [l @ replicate right_width Null] else ms))) left
      | JoinRight \<Rightarrow> res_concat_map (\<lambda>r. res_bind (res_filter holds (map (\<lambda>l. l @ r) left)) (\<lambda>ms.
            Ok (if ms = [] then [replicate left_width Null @ r] else ms))) right
      | JoinLeftSemi \<Rightarrow> res_concat_map (\<lambda>l. res_bind (res_any holds (map (\<lambda>r. l @ r) right)) (\<lambda>b. Ok (if b then [l] else []))) left
      | JoinRightSemi \<Rightarrow> res_concat_map (\<lambda>r. res_bind (res_any holds (map (\<lambda>l. l @ r) left)) (\<lambda>b. Ok (if b then [r] else []))) right
      | _ \<Rightarrow> res_concat_map (\<lambda>l. res_filter holds (map (\<lambda>r. l @ r) right)) left)"

text \<open>\<^verbatim>\<open>FULL JOIN\<close>: the left join, then the right rows that no left row met. The loop notes for each right row whether it was met.\<close>

fun full_loop :: "(row \<Rightarrow> bool res) \<Rightarrow> nat \<Rightarrow> row list \<Rightarrow> row list \<Rightarrow> bool list \<Rightarrow> (row list \<times> bool list) res" where
  "full_loop holds right_width [] right met = Ok ([], met)"
| "full_loop holds right_width (l # left) right met =
     res_bind (all_ok (map (\<lambda>r. holds (l @ r)) right)) (\<lambda>bs.
       let rows = map (\<lambda>(b, r). l @ r) (filter fst (zip bs right)) in
       res_bind (full_loop holds right_width left right (map2 (\<or>) met bs)) (\<lambda>(rest, met').
         Ok ((if rows = [] then [l @ replicate right_width Null] else rows) @ rest, met')))"

definition full_join :: "(row \<Rightarrow> bool res) \<Rightarrow> nat \<Rightarrow> nat \<Rightarrow> row list \<Rightarrow> row list \<Rightarrow> row list res" where
  "full_join holds left_width right_width left right =
     res_bind (full_loop holds right_width left right (replicate (length right) False)) (\<lambda>(rows, met).
       Ok (rows @ map (\<lambda>(b, r). replicate left_width Null @ r) (filter (\<lambda>(b, r). \<not> b) (zip met right))))"

text \<open>\<^verbatim>\<open>NATURAL JOIN\<close>: each column of the left side with the first of the same name on the right.\<close>

definition position_of :: "string \<Rightarrow> string list \<Rightarrow> nat option" where
  "position_of name names = find (\<lambda>i. eq_ignore_ascii_case (names ! i) name) [0..<length names]"

definition common_columns :: "string list \<Rightarrow> string list \<Rightarrow> (nat \<times> nat) list" where
  "common_columns left right =
     concat (map (\<lambda>li. case position_of (left ! li) right of None \<Rightarrow> [] | Some ri \<Rightarrow> [(li, ri)]) [0..<length left])"

fun natural_match :: "(nat \<times> nat) list \<Rightarrow> row \<Rightarrow> row \<Rightarrow> bool res" where
  "natural_match [] l r = Ok True"
| "natural_match ((li, ri) # cs) l r =
     res_bind (cell l li) (\<lambda>a. res_bind (cell r ri) (\<lambda>b. if value_eq a b then natural_match cs l r else Ok False))"

definition without_columns :: "nat set \<Rightarrow> 'a list \<Rightarrow> 'a list" where
  "without_columns shared xs = map snd (filter (\<lambda>(i, x). i \<notin> shared) (enumerate 0 xs))"

definition natural_join :: "string list \<Rightarrow> string list \<Rightarrow> row list \<Rightarrow> row list \<Rightarrow> (row list \<times> string list) res" where
  "natural_join left_cols right_cols left right =
     (let common = common_columns left_cols right_cols; shared = snd ` set common in
      res_bind (res_concat_map (\<lambda>l. res_concat_map (\<lambda>r. res_bind (natural_match common l r) (\<lambda>b.
          Ok (if b then [l @ without_columns shared r] else []))) right) left)
        (\<lambda>rows. Ok (rows, left_cols @ without_columns shared right_cols)))"

definition join_rows :: "'q vm_env \<Rightarrow> join_type \<Rightarrow> 'q expr option \<Rightarrow> col_map \<Rightarrow> row list \<times> string list \<Rightarrow> row list \<times> string list \<Rightarrow>
    (row list \<times> string list) res" where
  "join_rows env jt on m left right =
     (let lw = length (snd left); rw = length (snd right);
          cols = (case jt of JoinLeftSemi \<Rightarrow> snd left | JoinRightSemi \<Rightarrow> snd right | _ \<Rightarrow> snd left @ snd right);
          holds = on_holds env on m
      in case jt of
           JoinNatural \<Rightarrow> natural_join (snd left) (snd right) (fst left) (fst right)
         | JoinFull \<Rightarrow> res_bind (full_join holds lw rw (fst left) (fst right)) (\<lambda>rows. Ok (rows, cols))
         | _ \<Rightarrow>
             res_bind (case detect_equi_join on m lw of
                 Some (li, ri) \<Rightarrow> hash_join jt li ri lw rw (fst left) (fst right)
               | None \<Rightarrow> loop_join jt holds lw rw (fst left) (fst right)) (\<lambda>rows. Ok (rows, cols)))"

section \<open>Set operations\<close>

definition row_key :: "row \<Rightarrow> bytes" where
  "row_key r = concat (map (\<lambda>v. le_bytes 4 (word_of_nat (length (serialize v)) :: u32) @ serialize v) r)"

text \<open>The loops that consume the counts of the right side: \<^verbatim>\<open>INTERSECT ALL\<close> keeps a row while its count lasts, \<^verbatim>\<open>EXCEPT ALL\<close> drops it.\<close>

fun intersect_all :: "('a \<Rightarrow> 'k) \<Rightarrow> ('k \<Rightarrow> nat) \<Rightarrow> 'a list \<Rightarrow> 'a list" where
  "intersect_all key counts [] = []"
| "intersect_all key counts (r # rs) =
     (let k = key r in if 0 < counts k then r # intersect_all key (counts(k := counts k - 1)) rs else intersect_all key counts rs)"

fun except_all :: "('a \<Rightarrow> 'k) \<Rightarrow> ('k \<Rightarrow> nat) \<Rightarrow> 'a list \<Rightarrow> 'a list" where
  "except_all key counts [] = []"
| "except_all key counts (r # rs) =
     (let k = key r in if 0 < counts k then except_all key (counts(k := counts k - 1)) rs else r # except_all key counts rs)"

definition count_keys :: "('a \<Rightarrow> 'k) \<Rightarrow> 'a list \<Rightarrow> 'k \<Rightarrow> nat" where
  "count_keys key rs = fold (\<lambda>r c. c(key r := c (key r) + 1)) rs (\<lambda>_. 0)"

definition set_op_rows :: "set_op_kind \<Rightarrow> row list \<Rightarrow> row list \<Rightarrow> row list" where
  "set_op_rows kind left right =
     (case kind of
        UnionAll \<Rightarrow> left @ right
      | UnionDistinct \<Rightarrow> distinct_by row_key {} (left @ right)
      | IntersectAll \<Rightarrow> intersect_all row_key (count_keys row_key right) left
      | IntersectDistinct \<Rightarrow> distinct_by row_key {} (filter (\<lambda>r. row_key r \<in> set (map row_key right)) left)
      | ExceptAll \<Rightarrow> except_all row_key (count_keys row_key right) left
      | ExceptDistinct \<Rightarrow> distinct_by row_key {} (filter (\<lambda>r. row_key r \<notin> set (map row_key right)) left))"

text \<open>The comparison of its \<^verbatim>\<open>ORDER BY\<close> knows neither \<^verbatim>\<open>NULLS FIRST\<close> nor \<^verbatim>\<open>NULLS LAST\<close>.\<close>

fun compare_set_op_keys :: "bool list \<Rightarrow> value list \<Rightarrow> value list \<Rightarrow> ordering" where
  "compare_set_op_keys [] as bs = Equal"
| "compare_set_op_keys (asc # ps) as bs =
     (let c = (case value_partial_cmp (first_or_null as) (first_or_null bs) of None \<Rightarrow> Equal | Some x \<Rightarrow> x);
          ord = (if asc then c else ordering_reverse c)
      in if ord \<noteq> Equal then ord else compare_set_op_keys ps (tl as) (tl bs))"

text \<open>The value of a sort key; an expression that fails counts as NULL. A panic stays one.\<close>

definition or_null :: "value res \<Rightarrow> value res" where
  "or_null r = (case r of Err _ \<Rightarrow> Ok Null | _ \<Rightarrow> r)"

definition with_keys :: "(row \<Rightarrow> value res list) \<Rightarrow> row list \<Rightarrow> keyed list res" where
  "with_keys key rows = all_ok (map (\<lambda>r. res_bind (all_ok (map or_null (key r))) (\<lambda>ks. Ok (ks, r))) rows)"

definition set_op_limit :: "value \<Rightarrow> nat option" where
  "set_op_limit v = (case v of Integer i \<Rightarrow> Some (nat (max 0 (sint i))) | _ \<Rightarrow> None)"

definition res_option :: "('a \<Rightarrow> 'b res) \<Rightarrow> 'a option \<Rightarrow> 'b option res" where
  "res_option f x = (case x of None \<Rightarrow> Ok None | Some a \<Rightarrow> res_bind (f a) (\<lambda>b. Ok (Some b)))"

definition exec_set_op :: "'q vm_env \<Rightarrow> 'q set_op_stmt \<Rightarrow> query_result res" where
  "exec_set_op env s =
     res_bind (select_query env (cte_cache env) (outer_rows (base_env env)) (set_left s)) (\<lambda>left.
     res_bind (select_query env (cte_cache env) (outer_rows (base_env env)) (set_right s)) (\<lambda>right.
     case (left, right) of
       (None, _) \<Rightarrow> Err (Internal ''set-op left not a query result'')
     | (_, None) \<Rightarrow> Err (Internal ''set-op right not a query result'')
     | (Some (names, ls), Some (_, rs)) \<Rightarrow>
         let m = (fold (\<lambda>(i, n) m. m(n \<mapsto> i)) (enumerate 0 names) Map.empty :: col_map);
             rows = set_op_rows (set_kind s) ls rs in
         res_bind (if set_order_by s = [] then Ok rows
                   else res_bind (with_keys (\<lambda>r. map (\<lambda>i. eval_in env (order_expr i) r m) (set_order_by s)) rows) (\<lambda>keyed.
                     Ok (map snd (sort_by (\<lambda>a b. compare_set_op_keys (map ascending (set_order_by s)) (fst a) (fst b)) keyed)))) (\<lambda>rows.
         res_bind (res_option (\<lambda>e. eval_in env e [] m) (set_offset s)) (\<lambda>off.
         let rows = (case off of None \<Rightarrow> rows | Some v \<Rightarrow> drop (case set_op_limit v of None \<Rightarrow> 0 | Some n \<Rightarrow> n) rows) in
         res_bind (res_option (\<lambda>e. eval_in env e [] m) (set_limit s)) (\<lambda>lim.
         Ok (names, (case lim of None \<Rightarrow> rows | Some v \<Rightarrow> (case set_op_limit v of None \<Rightarrow> rows | Some n \<Rightarrow> take n rows))))))))"

section \<open>Table functions\<close>

definition unescape_quotes :: "bytes \<Rightarrow> bytes" where
  "unescape_quotes t = replace_text t [92, 34] [34]"

definition parse_json_scalar :: "bytes \<Rightarrow> value" where
  "parse_json_scalar t =
     (let s = trim_text t in
      if s = ascii ''null'' then Null
      else if s = ascii ''true'' then Integer 1
      else if s = ascii ''false'' then Integer 0
      else if 2 \<le> length s \<and> hd s = 34 \<and> last s = 34 then Text (unescape_quotes (butlast (tl s)))
      else case parse_i64 s of
          Some i \<Rightarrow> Integer i
        | None \<Rightarrow> (case parse_f64 s of Some f \<Rightarrow> Real f | None \<Rightarrow> Text s))"

definition json_token :: "bytes \<Rightarrow> value list" where
  "json_token token = (if trim_text token = [] then [] else [parse_json_scalar (trim_text token)])"

text \<open>The tokenizer of a JSON array, over the bytes inside the brackets; all characters it looks for are ASCII.\<close>

fun json_tokens :: "bytes \<Rightarrow> bytes \<Rightarrow> bool \<Rightarrow> bool \<Rightarrow> value list" where
  "json_tokens [] token in_string escape = json_token token"
| "json_tokens (c # cs) token in_string escape =
     (if c = 92 \<and> in_string then json_tokens cs (token @ [c]) in_string True
      else if escape then json_tokens cs (token @ [c]) in_string False
      else if c = 34 then json_tokens cs (token @ [c]) (\<not> in_string) escape
      else if c = 44 \<and> \<not> in_string then json_token token @ json_tokens cs [] in_string escape
      else json_tokens cs (token @ [c]) in_string escape)"

fun split_bytes :: "u8 \<Rightarrow> bytes \<Rightarrow> bytes list" where
  "split_bytes sep [] = [[]]"
| "split_bytes sep (b # bs) = (let ps = split_bytes sep bs in if b = sep then [] # ps else (b # hd ps) # tl ps)"

definition unnest_value :: "value \<Rightarrow> value list" where
  "unnest_value v =
     (case v of
        Text s \<Rightarrow>
          (let t = trim_text s in
           if t \<noteq> [] \<and> hd t = 91 \<and> last t = 93 then json_tokens (butlast (tl t)) [] False False
           else map (\<lambda>p. Text (trim_text p)) (split_bytes 44 s))
      | Null \<Rightarrow> []
      | _ \<Rightarrow> [v])"

text \<open>\<^verbatim>\<open>generate_series\<close>: it ends at the limit, at an overflow, or after a million rows, which the first argument counts down.\<close>

fun series :: "nat \<Rightarrow> int \<Rightarrow> int \<Rightarrow> int \<Rightarrow> row list" where
  "series 0 cur stop step = []"
| "series (Suc n) cur stop step =
     (if 0 < step \<and> cur \<le> stop \<or> step < 0 \<and> stop \<le> cur
      then [Integer (word_of_int cur)] # (if - (2 ^ 63) \<le> cur + step \<and> cur + step < 2 ^ 63 then series n (cur + step) stop step else [])
      else [])"

definition series_arg :: "value list \<Rightarrow> nat \<Rightarrow> i64 option" where
  "series_arg vs i =
     (if i < length vs then (case vs ! i of Integer v \<Rightarrow> Some v | Real r \<Rightarrow> Some (f64_as_i64 r) | _ \<Rightarrow> None) else None)"

definition generate_series :: "value list \<Rightarrow> row list res" where
  "generate_series vs =
     (case series_arg vs 0 of
        None \<Rightarrow> Err (RuntimeError ''generate_series: start must be integer'')
      | Some start \<Rightarrow> (case series_arg vs 1 of
          None \<Rightarrow> Err (RuntimeError ''generate_series: stop must be integer'')
        | Some stop \<Rightarrow>
            let step = (case series_arg vs 2 of None \<Rightarrow> 1 | Some s \<Rightarrow> s) in
            if step = 0 then Err (RuntimeError ''generate_series: step must not be zero'')
            else Ok (series 1000000 (sint start) (sint stop) (sint step))))"

definition table_function :: "string \<Rightarrow> value list \<Rightarrow> row list res" where
  "table_function name vs =
     (let n = to_ascii_uppercase name in
      if n = ''UNNEST'' then Ok (map (\<lambda>v. [v]) (unnest_value (first_or_null vs)))
      else if n = ''GENERATE_SERIES'' then generate_series vs
      else Err (RuntimeError (''unsupported table function `'' @ n @ ''` (supported: UNNEST, generate_series)'')))"

section \<open>FROM\<close>

fun eval_from :: "'q vm_env \<Rightarrow> 'q from_clause \<Rightarrow> (row list \<times> string list) res" where
  "eval_from env (FromTable name alias) =
     (case cte_cache env (to_ascii_lowercase name) of
        Some (cols, rows) \<Rightarrow> Ok (rows, cols)
      | None \<Rightarrow>
          res_bind (get_table env name) (\<lambda>t. case view_select t of
              Some q \<Rightarrow> res_bind (run_query env q ''view did not return rows'') (\<lambda>(cols, rows). Ok (rows, cols))
            | None \<Rightarrow> res_bind (scan_table env name (table_root t)) (\<lambda>rows. Ok (rows, col_names t))))"
| "eval_from env (FromJoin l jt r on) =
     res_bind (eval_from env l) (\<lambda>left. res_bind (eval_from env r) (\<lambda>right.
       let cols = snd left @ snd right;
           m = fst (inject_qualified_names env r cols (inject_qualified_names env l cols (build_col_map cols, 0)))
       in join_rows env jt on m left right))"
| "eval_from env (FromSubquery q alias) = res_bind (run_query env q no_rows_error) (\<lambda>(cols, rows). Ok (rows, cols))"
| "eval_from env (FromSetOp stmt alias) = res_bind (exec_set_op env stmt) (\<lambda>(cols, rows). Ok (rows, cols))"
| "eval_from env (FromTableFunction name args alias column) =
     res_bind (all_ok (map (\<lambda>a. eval_in env a [] (\<lambda>_. None)) args)) (\<lambda>vs.
     res_bind (table_function name vs) (\<lambda>rows. Ok (rows, [function_column name column])))"

end
