(* ===== verification/JoinLaws.thy ===== *)
theory JoinLaws
  imports SelectFrom
begin

text \<open>
  Joins meet their specification: the rows a join returns are those of its definition by the \<^verbatim>\<open>ON\<close> condition, in the order of nested loops, whether it
  is executed by loops or by a hash table; the hash table needs key columns without real numbers.
\<close>

section \<open>Loops without errors\<close>

lemma res_filter_Ok: "(\<And>x. x \<in> set xs \<Longrightarrow> p x = Ok (b x)) \<Longrightarrow> res_filter p xs = Ok (filter b xs)"
  by (induction xs) auto

lemma res_any_Ok: "(\<And>x. x \<in> set xs \<Longrightarrow> p x = Ok (b x)) \<Longrightarrow> res_any p xs = Ok (list_ex b xs)"
  by (induction xs) auto

lemma res_concat_map_Ok: "(\<And>x. x \<in> set xs \<Longrightarrow> f x = Ok (g x)) \<Longrightarrow> res_concat_map f xs = Ok (concat (map g xs))"
  by (induction xs) auto

lemma all_ok_Ok: "(\<And>x. x \<in> set xs \<Longrightarrow> f x = Ok (g x)) \<Longrightarrow> all_ok (map f xs) = Ok (map g xs)"
  by (induction xs) auto

section \<open>The meaning of a join\<close>

text \<open>\<open>p l r\<close> is whether the condition holds for a pair of rows.\<close>

definition matches_of :: "(row \<Rightarrow> row \<Rightarrow> bool) \<Rightarrow> row list \<Rightarrow> row \<Rightarrow> row list" where
  "matches_of p right l = filter (p l) right"

definition left_outer :: "(row \<Rightarrow> row \<Rightarrow> bool) \<Rightarrow> nat \<Rightarrow> row list \<Rightarrow> row list \<Rightarrow> row list" where
  "left_outer p right_width left right =
     concat (map (\<lambda>l. if matches_of p right l = [] then [l @ replicate right_width Null] else map (\<lambda>r. l @ r) (matches_of p right l)) left)"

definition join_spec :: "join_type \<Rightarrow> (row \<Rightarrow> row \<Rightarrow> bool) \<Rightarrow> nat \<Rightarrow> nat \<Rightarrow> row list \<Rightarrow> row list \<Rightarrow> row list" where
  "join_spec jt p left_width right_width left right =
     (case jt of
        JoinLeft \<Rightarrow> left_outer p right_width left right
      | JoinRight \<Rightarrow> concat (map (\<lambda>r. let ms = filter (\<lambda>l. p l r) left in
            if ms = [] then [replicate left_width Null @ r] else map (\<lambda>l. l @ r) ms) right)
      | JoinLeftSemi \<Rightarrow> filter (\<lambda>l. \<exists>r \<in> set right. p l r) left
      | JoinRightSemi \<Rightarrow> filter (\<lambda>r. \<exists>l \<in> set left. p l r) right
      | JoinFull \<Rightarrow> left_outer p right_width left right
            @ map (\<lambda>r. replicate left_width Null @ r) (filter (\<lambda>r. \<forall>l \<in> set left. \<not> p l r) right)
      | _ \<Rightarrow> concat (map (\<lambda>l. map (\<lambda>r. l @ r) (matches_of p right l)) left))"

lemma join_spec_cong:
  assumes "\<And>l r. l \<in> set left \<Longrightarrow> r \<in> set right \<Longrightarrow> p l r = q l r"
  shows "join_spec jt p lw rw left right = join_spec jt q lw rw left right"
proof -
  have "filter (p l) right = filter (q l) right" if "l \<in> set left" for l using assms that by (intro filter_cong) auto
  moreover have "filter (\<lambda>l. p l r) left = filter (\<lambda>l. q l r) left" if "r \<in> set right" for r using assms that by (intro filter_cong) auto
  moreover from calculation have "left_outer p rw left right = left_outer q rw left right"
    by (auto simp: left_outer_def matches_of_def intro!: arg_cong [where f = concat] map_cong)
  ultimately show ?thesis using assms
    by (auto simp: join_spec_def matches_of_def Let_def split: join_type.splits intro!: arg_cong [where f = concat] map_cong filter_cong)
qed

lemma filter_as_concat: "filter q xs = concat (map (\<lambda>x. if q x then [x] else []) xs)"
  by (induction xs) auto

lemma pairs_filter: "filter (\<lambda>x. q (take n x) (drop n x)) (map (\<lambda>r. l @ r) rs) = map (\<lambda>r. l @ r) (filter (q l) rs)" if "length l = n"
  using that by (induction rs) auto

lemma filter_map_pair: "\<lbrakk>\<And>r. r \<in> set rs \<Longrightarrow> holds (f r) = Ok (q r)\<rbrakk> \<Longrightarrow> res_filter holds (map f rs) = Ok (map f (filter q rs))"
  by (induction rs) auto

lemma any_map_pair: "\<lbrakk>\<And>r. r \<in> set rs \<Longrightarrow> holds (f r) = Ok (q r)\<rbrakk> \<Longrightarrow> res_any holds (map f rs) = Ok (\<exists>r \<in> set rs. q r)"
  by (induction rs) auto

lemma loop_join_spec:
  assumes ok: "\<And>l r. l \<in> set left \<Longrightarrow> r \<in> set right \<Longrightarrow> holds (l @ r) = Ok (p l r)" and "jt \<noteq> JoinFull"
  shows "loop_join jt holds lw rw left right = Ok (join_spec jt p lw rw left right)"
proof -
  have inner: "res_filter holds (map (\<lambda>r. l @ r) right) = Ok (map (\<lambda>r. l @ r) (filter (p l) right))" if "l \<in> set left" for l
    using that by (intro filter_map_pair ok)
  have outer: "res_filter holds (map (\<lambda>l. l @ r) left) = Ok (map (\<lambda>l. l @ r) (filter (\<lambda>l. p l r) left))" if "r \<in> set right" for r
    using that by (intro filter_map_pair ok)
  have any_right: "res_any holds (map (\<lambda>r. l @ r) right) = Ok (\<exists>r \<in> set right. p l r)" if "l \<in> set left" for l
    using that by (intro any_map_pair ok)
  have any_left: "res_any holds (map (\<lambda>l. l @ r) left) = Ok (\<exists>l \<in> set left. p l r)" if "r \<in> set right" for r
    using that by (intro any_map_pair ok)
  have plain: "res_concat_map (\<lambda>l. res_filter holds (map (\<lambda>r. l @ r) right)) left = Ok (concat (map (\<lambda>l. map (\<lambda>r. l @ r) (filter (p l) right)) left))"
    by (rule res_concat_map_Ok) (rule inner)
  note defs = loop_join_def join_spec_def left_outer_def matches_of_def Let_def
  show ?thesis
  proof (cases jt)
    case JoinLeft
    then show ?thesis unfolding defs by simp (rule res_concat_map_Ok, simp add: inner)
  next
    case JoinRight
    then show ?thesis unfolding defs by simp (rule res_concat_map_Ok, simp add: outer)
  next
    case JoinLeftSemi
    then show ?thesis unfolding defs by simp (subst filter_as_concat, rule res_concat_map_Ok, simp add: any_right)
  next
    case JoinRightSemi
    then show ?thesis unfolding defs by simp (subst filter_as_concat, rule res_concat_map_Ok, simp add: any_left)
  qed (use assms(2) plain in \<open>simp_all add: defs\<close>)
qed

lemma full_loop_spec:
  assumes "\<And>l r. l \<in> set left \<Longrightarrow> r \<in> set right \<Longrightarrow> holds (l @ r) = Ok (p l r)" and "length met = length right"
  shows "full_loop holds rw left right met = Ok (left_outer p rw left right, map (\<lambda>(b, r). b \<or> (\<exists>l \<in> set left. p l r)) (zip met right))"
  using assms
proof (induction left arbitrary: met)
  case Nil
  then show ?case by (simp add: left_outer_def case_prod_beta' map_fst_zip [unfolded fun_eq_iff])
next
  case (Cons l left)
  have bs: "all_ok (map (\<lambda>r. holds (l @ r)) right) = Ok (map (p l) right)" using Cons.prems(1) by (intro all_ok_Ok) simp
  have rows: "map (\<lambda>(b, r). l @ r) (filter fst (zip (map (p l) right) right)) = map (\<lambda>r. l @ r) (filter (p l) right)"
    by (induction right) auto
  have met: "map (\<lambda>(b, r). b \<or> (\<exists>l \<in> set left. p l r)) (zip (map2 (\<or>) met (map (p l) right)) right) =
      map (\<lambda>(b, r). b \<or> (\<exists>l \<in> set (l # left). p l r)) (zip met right)"
    by (rule nth_equalityI) auto
  have "full_loop holds rw left right (map2 (\<or>) met (map (p l) right)) =
      Ok (left_outer p rw left right, map (\<lambda>(b, r). b \<or> (\<exists>l \<in> set (l # left). p l r)) (zip met right))"
    using Cons.IH [of "map2 (\<or>) met (map (p l) right)"] Cons.prems met by simp
  moreover have "(filter fst (zip (map (p l) right) right) = []) = (filter (p l) right = [])" using rows by (metis map_is_Nil_conv)
  ultimately show ?case by (simp add: bs rows Let_def left_outer_def matches_of_def)
qed

lemma full_join_spec:
  assumes "\<And>l r. l \<in> set left \<Longrightarrow> r \<in> set right \<Longrightarrow> holds (l @ r) = Ok (p l r)"
  shows "full_join holds lw rw left right = Ok (join_spec JoinFull p lw rw left right)"
proof -
  have "map (\<lambda>(b, r). f r) (filter (\<lambda>(b, r). \<not> b) (zip (map (\<lambda>(b, r). b \<or> q r) (zip (replicate (length rs) False) rs)) rs)) =
      map f (filter (\<lambda>r. \<not> q r) rs)" for f :: "row \<Rightarrow> row" and q rs
    by (induction rs) auto
  then show ?thesis by (simp add: full_join_def full_loop_spec [where p = p, OF assms] join_spec_def)
qed

section \<open>Hash tables\<close>

lemma hash_rows_Ok:
  "(\<And>r. r \<in> set rows \<Longrightarrow> idx < length r) \<Longrightarrow>
   hash_rows idx rows h = Ok (\<lambda>k. h k @ filter (\<lambda>r. r ! idx \<noteq> Null \<and> typed_key (r ! idx) = k) rows)"
  by (induction rows arbitrary: h) (auto simp: cell_def)

text \<open>The condition a hash join checks.\<close>

definition same_key :: "nat \<Rightarrow> nat \<Rightarrow> row \<Rightarrow> row \<Rightarrow> bool" where
  "same_key li ri l r \<longleftrightarrow> l ! li \<noteq> Null \<and> r ! ri \<noteq> Null \<and> typed_key (l ! li) = typed_key (r ! ri)"

lemma hash_join_spec:
  assumes left: "\<And>l. l \<in> set left \<Longrightarrow> li < length l" and right: "\<And>r. r \<in> set right \<Longrightarrow> ri < length r"
    and "jt \<noteq> JoinFull"
  shows "hash_join jt li ri lw rw left right = Ok (join_spec jt (same_key li ri) lw rw left right)"
proof -
  have probe_right: "probe (\<lambda>k. filter (\<lambda>r. r ! ri \<noteq> Null \<and> typed_key (r ! ri) = k) right) li l = Ok (filter (same_key li ri l) right)"
    if "l \<in> set left" for l
    using left [OF that] by (auto simp: probe_def cell_def same_key_def intro!: filter_cong)
  have probe_left: "probe (\<lambda>k. filter (\<lambda>l. l ! li \<noteq> Null \<and> typed_key (l ! li) = k) left) ri r = Ok (filter (\<lambda>l. same_key li ri l r) left)"
    if "r \<in> set right" for r
    using right [OF that] by (auto simp: probe_def cell_def same_key_def intro!: filter_cong)
  have some: "(filter q xs = []) = (\<not> (\<exists>x \<in> set xs. q x))" for q and xs :: "row list" by (auto simp: filter_empty_conv)
  have plain: "res_concat_map (\<lambda>l. res_bind (probe (\<lambda>k. filter (\<lambda>r. r ! ri \<noteq> Null \<and> typed_key (r ! ri) = k) right) li l) (\<lambda>ms. Ok (map (\<lambda>r. l @ r) ms))) left =
      Ok (concat (map (\<lambda>l. map (\<lambda>r. l @ r) (filter (same_key li ri l) right)) left))"
    by (rule res_concat_map_Ok) (simp add: probe_right)
  note defs = hash_join_def join_spec_def left_outer_def matches_of_def Let_def
  show ?thesis
  proof (cases jt)
    case JoinLeft
    then show ?thesis unfolding defs using hash_rows_Ok [OF right] by simp (rule res_concat_map_Ok, simp add: probe_right)
  next
    case JoinRight
    then show ?thesis unfolding defs using hash_rows_Ok [OF left] by simp (rule res_concat_map_Ok, simp add: probe_left)
  next
    case JoinLeftSemi
    then show ?thesis unfolding defs using hash_rows_Ok [OF right]
      by simp (subst filter_as_concat, rule res_concat_map_Ok, simp add: probe_right some)
  next
    case JoinRightSemi
    then show ?thesis unfolding defs using hash_rows_Ok [OF left]
      by simp (subst filter_as_concat, rule res_concat_map_Ok, simp add: probe_left some)
  qed (use assms(3) hash_rows_Ok [OF right] plain in \<open>simp_all add: defs\<close>)
qed

section \<open>Keys and equality\<close>

definition exact_key :: "value \<Rightarrow> bool" where
  "exact_key v \<longleftrightarrow> (\<forall>r. v \<noteq> Real r)"

lemma ascii_inj: "ascii a = ascii b \<longleftrightarrow> a = b"
  by (metis text_str_ascii)

lemma ascii_simps: "ascii (c # s) = word_of_nat (of_char c) # ascii s" "ascii [] = []"
  by (simp_all add: ascii_def)

lemma show_int_inj: "show_int (sint i) = show_int (sint j) \<longleftrightarrow> i = j" for i j :: i64
  by (metis option.inject parse_show_int)

lemma hex_digit_inj: "a < 16 \<Longrightarrow> b < 16 \<Longrightarrow> digit_char a = digit_char b \<longleftrightarrow> a = b"
  by (auto simp: digit_char_def char_of_eq_iff take_bit_eq_mod split: if_splits)

lemma show_hex2_inj: "show_hex2 a = show_hex2 b \<longleftrightarrow> a = b"
proof -
  have bounds: "unat a < 256" "unat b < 256" using unsigned_less [of a, where ?'a = nat] unsigned_less [of b, where ?'a = nat] by simp_all
  then have "a = b" if "unat a div 16 = unat b div 16" "unat a mod 16 = unat b mod 16"
    using that by (metis div_mult_mod_eq word_unat_eq_iff)
  then show ?thesis using bounds by (auto simp: show_hex2_def hex_digit_inj less_mult_imp_div_less)
qed

lemma hex_encode_inj: "hex_encode a = hex_encode b \<longleftrightarrow> a = b"
proof (induction a arbitrary: b)
  case Nil
  then show ?case by (cases b) (auto simp: hex_encode_def show_hex2_def)
next
  case (Cons x a)
  have len: "length (show_hex2 y) = 2" for y by (simp add: show_hex2_def)
  show ?case
  proof (cases b)
    case Nil
    then show ?thesis by (simp add: hex_encode_def show_hex2_def)
  next
    case (Cons y b')
    then show ?thesis using Cons.IH [of b'] len by (auto simp: hex_encode_def append_eq_append_conv show_hex2_inj)
  qed
qed

lemma typed_key_eq:
  assumes "exact_key a" and "exact_key b" and "a \<noteq> Null" and "b \<noteq> Null"
  shows "typed_key a = typed_key b \<longleftrightarrow> value_eq a b"
  using assms by (cases a; cases b) (auto simp: typed_key_def exact_key_def ascii_simps ascii_inj show_int_inj hex_encode_inj)

section \<open>Columns of a condition\<close>

text \<open>A reference that is found by its qualified name, or by a name in lower-case ASCII.\<close>

definition plain_ref :: "col_map \<Rightarrow> 'q expr \<Rightarrow> bool" where
  "plain_ref m e =
     (case e of
        ColumnRef (Some t) c \<Rightarrow> m (qualified_key t c) \<noteq> None
      | ColumnRef None c \<Rightarrow> lower_bytes_as_chars c = c \<and> m c \<noteq> None
      | _ \<Rightarrow> False)"

lemma plain_ref_resolved:
  assumes "plain_ref m (ColumnRef tbl c)"
  obtains i where "resolve_join_column m tbl c = Some i" and "eval_column env tbl c (row, m) = Ok (column_of (row, m) i)"
proof (cases tbl)
  case None
  then have "resolve_join_column m tbl c = m c" using assms by (auto simp: plain_ref_def resolve_join_column_def or_else_def split: option.splits)
  moreover obtain i where "m c = Some i" using assms None by (auto simp: plain_ref_def)
  moreover from this have "eval_column env tbl c (row, m) = Ok (column_of (row, m) i)"
    using None by (simp add: eval_column_def Let_def lookup_column_def or_else_def)
  ultimately show ?thesis using that by simp
next
  case (Some t)
  then obtain i where "m (qualified_key t c) = Some i" using assms by (auto simp: plain_ref_def)
  moreover from this have "eval_column env tbl c (row, m) = Ok (column_of (row, m) i)"
    using Some by (simp add: eval_column_def Let_def lookup_column_def or_else_def)
  ultimately show ?thesis using Some that by (simp add: resolve_join_column_def or_else_def)
qed

lemma detect_equi_joinE:
  assumes "detect_equi_join on m lw = Some (li, ri)"
  obtains lt lc rt rc a b where "on = Some (BinaryOp (ColumnRef lt lc) OpEqual (ColumnRef rt rc))"
    and "resolve_join_column m lt lc = Some a" and "resolve_join_column m rt rc = Some b"
    and "li < lw" and "a = li \<and> b = lw + ri \<or> a = lw + ri \<and> b = li"
  using assms by (auto simp: detect_equi_join_def split: option.splits expr.splits binary_operator.splits if_splits)

section \<open>Joins\<close>

text \<open>Where the join is executed by a hash table: both columns are found by plain references and hold no real numbers.\<close>

definition hash_safe :: "'q expr option \<Rightarrow> col_map \<Rightarrow> nat \<Rightarrow> row list \<Rightarrow> row list \<Rightarrow> bool" where
  "hash_safe on m left_width left right =
     (case (detect_equi_join on m left_width, on) of
        (Some (li, ri), Some (BinaryOp a OpEqual b)) \<Rightarrow>
          plain_ref m a \<and> plain_ref m b \<and> (\<forall>l \<in> set left. exact_key (l ! li)) \<and> (\<forall>r \<in> set right. ri < length r \<and> exact_key (r ! ri))
      | _ \<Rightarrow> True)"

lemma equal_columns:
  assumes detect: "detect_equi_join on m (length l) = Some (li, ri)" and "ri < length r"
    and on: "on = Some (BinaryOp a OpEqual b)" and plain: "plain_ref m a" "plain_ref m b"
    and exact: "exact_key (l ! li)" "exact_key (r ! ri)"
  shows "on_holds env on m (l @ r) = Ok (same_key li ri l r)"
proof -
  from detect obtain lt lc rt rc i j where refs: "a = ColumnRef lt lc" "b = ColumnRef rt rc"
    and res: "resolve_join_column m lt lc = Some i" "resolve_join_column m rt rc = Some j"
    and li: "li < length l" and ij: "i = li \<and> j = length l + ri \<or> i = length l + ri \<and> j = li"
    using on by (elim detect_equi_joinE) auto
  let ?v = "column_of (l @ r, m)"
  have "eval_column (expr_env env) lt lc (l @ r, m) = Ok (?v i)" "eval_column (expr_env env) rt rc (l @ r, m) = Ok (?v j)"
    using plain_ref_resolved [of m lt lc "expr_env env" "l @ r"] plain_ref_resolved [of m rt rc "expr_env env" "l @ r"] plain refs res by auto
  moreover have "?v li = l ! li" "?v (length l + ri) = r ! ri" using li assms(2) by (simp_all add: column_of_def nth_append)
  moreover have "value_eq x y = value_eq y x" for x y using value_order_coherent [of x y] value_order_coherent [of y x] by (metis ordering_reverse.simps(2) option.map(2))
  ultimately show ?thesis
    using ij typed_key_eq [OF exact] typed_key_eq [OF exact(2,1)]
    by (auto simp: on_holds_def on refs eval_binary_def apply_equal same_key_def)
qed

definition join_columns :: "join_type \<Rightarrow> string list \<Rightarrow> string list \<Rightarrow> string list" where
  "join_columns jt lcols rcols = (case jt of JoinLeftSemi \<Rightarrow> lcols | JoinRightSemi \<Rightarrow> rcols | _ \<Rightarrow> lcols @ rcols)"

text \<open>
  C14: a join returns exactly the rows its \<^verbatim>\<open>ON\<close> condition defines, in the order of nested loops: the matching pairs, for outer joins the rows without partner padded with NULLs,
  for semi-joins the rows with a partner. This holds for the nested loops and for the hash table that replaces them when the condition compares two columns,
  provided those columns hold no real numbers.
\<close>

theorem joins_meet_specification:
  assumes width: "\<And>l. l \<in> set left \<Longrightarrow> length l = length lcols"
    and cond: "\<And>l r. l \<in> set left \<Longrightarrow> r \<in> set right \<Longrightarrow> on_holds env on m (l @ r) = Ok (p l r)"
    and safe: "hash_safe on m (length lcols) left right" and "jt \<noteq> JoinNatural"
  shows "join_rows env jt on m (left, lcols) (right, rcols) =
         Ok (join_spec jt p (length lcols) (length rcols) left right, join_columns jt lcols rcols)"
proof (cases "jt = JoinFull")
  case True
  then show ?thesis using full_join_spec [where p = p and holds = "on_holds env on m", OF cond] by (simp add: join_rows_def join_columns_def)
next
  case False
  have rows: "(case detect_equi_join on m (length lcols) of
        Some (li, ri) \<Rightarrow> hash_join jt li ri (length lcols) (length rcols) left right
      | None \<Rightarrow> loop_join jt (on_holds env on m) (length lcols) (length rcols) left right) = Ok (join_spec jt p (length lcols) (length rcols) left right)"
  proof (cases "detect_equi_join on m (length lcols)")
    case None
    then show ?thesis using loop_join_spec [where p = p and holds = "on_holds env on m", OF cond False] by simp
  next
    case (Some x)
    obtain li ri where d: "detect_equi_join on m (length lcols) = Some (li, ri)" using Some by (cases x) simp
    then obtain a b where on: "on = Some (BinaryOp a OpEqual b)" and li: "li < length lcols" by (elim detect_equi_joinE) auto
    have keys: "p l r = same_key li ri l r" if "l \<in> set left" "r \<in> set right" for l r
      using equal_columns [of on m l li ri r a b env] d on safe cond that width by (auto simp: hash_safe_def)
    have spec: "join_spec jt (same_key li ri) lw rw left right = join_spec jt p lw rw left right" for lw rw
      by (rule join_spec_cong) (simp add: keys)
    have "hash_join jt li ri lw rw left right = Ok (join_spec jt (same_key li ri) lw rw left right)" for lw rw
      using d on safe li width False by (intro hash_join_spec) (auto simp: hash_safe_def)
    then show ?thesis using d spec by simp
  qed
  then show ?thesis using assms(4) False unfolding join_rows_def join_columns_def Let_def fst_conv snd_conv by (cases jt; hypsubst; simp)
qed

text \<open>Two tables with one column each, \<^verbatim>\<open>a.x\<close> and \<^verbatim>\<open>b.y\<close>, joined on their equality.\<close>

definition sample_vm :: "unit vm_env" where
  "sample_vm =
     \<lparr>base_env = sample_env, cte_cache = (\<lambda>_. None), schema_tables = (\<lambda>_. None), scan_table = (\<lambda>_ _. Ok []),
      select_query = (\<lambda>_ _ _. Ok (Some ([''n''], [[Integer 2], [Null]]))), output_columns = (\<lambda>_. None), query_where = (\<lambda>_. None), union_parts = (\<lambda>_. None),
      count_table = (\<lambda>_ _. Ok 0), scan_limited = (\<lambda>_ _ _. Ok []), try_index_scan = (\<lambda>_ _. Ok None), join_order = (\<lambda>_. None),
      select_nth = (\<lambda>cmp i xs. sort_by cmp xs)\<rparr>"

definition xy_map :: col_map where
  "xy_map = [''x'' \<mapsto> 0, ''y'' \<mapsto> 1]"

definition x_is_y :: "unit expr" where
  "x_is_y = BinaryOp (ColumnRef None ''x'') OpEqual (ColumnRef None ''y'')"

lemma x_is_y_columns: "plain_ref xy_map (ColumnRef None ''x'')" "plain_ref xy_map (ColumnRef None ''y'')"
    "detect_equi_join (Some x_is_y) xy_map 1 = Some (0, 0)"
  by (simp_all add: plain_ref_def xy_map_def lower_bytes_as_chars_def push_byte_as_char_def ascii_lower_def x_is_y_def detect_equi_join_def
      resolve_join_column_def or_else_def)

lemma x_is_y_holds: "on_holds sample_vm (Some x_is_y) xy_map [a, b] = Ok (a \<noteq> Null \<and> b \<noteq> Null \<and> value_eq a b)"
  by (simp add: on_holds_def x_is_y_def eval_binary_def eval_column_def Let_def lookup_column_def column_of_def xy_map_def or_else_def apply_equal)

theorem joins_meet_specification_witness:
  "join_rows sample_vm JoinLeft (Some x_is_y) xy_map ([[Integer 1], [Null]], [''x'']) ([[Integer 1], [Integer 1]], [''y'']) =
     Ok ([[Integer 1, Integer 1], [Integer 1, Integer 1], [Null, Null]], [''x'', ''y''])"
proof -
  let ?p = "\<lambda>l r. hd l \<noteq> Null \<and> hd r \<noteq> Null \<and> value_eq (hd l) (hd r)"
  have "on_holds sample_vm (Some x_is_y) xy_map (l @ r) = Ok (?p l r)"
    if "l \<in> set [[Integer 1], [Null]]" "r \<in> set [[Integer 1], [Integer 1]]" for l r
    using that x_is_y_holds by auto
  moreover have "hash_safe (Some x_is_y) xy_map (length [''x'']) [[Integer 1], [Null]] [[Integer 1], [Integer 1]]"
    using x_is_y_columns by (simp add: hash_safe_def x_is_y_def exact_key_def)
  ultimately have "join_rows sample_vm JoinLeft (Some x_is_y) xy_map ([[Integer 1], [Null]], [''x'']) ([[Integer 1], [Integer 1]], [''y'']) =
     Ok (join_spec JoinLeft ?p (length [''x'']) (length [''y'']) [[Integer 1], [Null]] [[Integer 1], [Integer 1]], join_columns JoinLeft [''x''] [''y''])"
    by (intro joins_meet_specification) auto
  then show ?thesis by (simp add: join_spec_def left_outer_def matches_of_def join_columns_def)
qed

text \<open>
  the hash table compares keys with their type, the condition does not: an inner join of an integer with an equal real number by the condition itself finds the pair, the join
  that is executed does not, and a left join pads the row with NULL.
\<close>

lemma hash_join_misses_equal_numbers:
  assumes "value_eq (Integer i) (Real r)"
  shows "on_holds sample_vm (Some x_is_y) xy_map [Integer i, Real r] = Ok True
       \<and> join_rows sample_vm JoinInner (Some x_is_y) xy_map ([[Integer i]], [''x'']) ([[Real r]], [''y'']) = Ok ([], [''x'', ''y''])
       \<and> join_rows sample_vm JoinLeft (Some x_is_y) xy_map ([[Integer i]], [''x'']) ([[Real r]], [''y'']) = Ok ([[Integer i, Null]], [''x'', ''y''])"
  using assms x_is_y_columns(3)
  by (simp add: x_is_y_holds join_rows_def hash_join_def probe_def cell_def typed_key_def ascii_simps)

lemma hash_join_misses_equal_numbers_witness:
  "join_rows sample_vm JoinInner (Some x_is_y) xy_map ([[Integer 0]], [''x'']) ([[Real 0]], [''y'']) = Ok ([], [''x'', ''y''])"
proof -
  have "value_eq (Integer 0) (Real 0)"
    by (simp add: f64_eq_def f64_is_nan_def f64_key_def f64_magnitude_def f64_negative_def i64_as_f64_def nat_to_f64_bits_def)
  then show ?thesis using hash_join_misses_equal_numbers [of 0 0] by simp
qed

end
