(* ===== verification/SetOpLaws.thy ===== *)
theory SetOpLaws
  imports JoinLaws
begin

text \<open>
  Duplicate elimination and the set operations: on rows as the database stores them, their keys are equal exactly for equal rows, and the operations are those on
  multisets (with \<^verbatim>\<open>ALL\<close>) and sets of rows.
\<close>

section \<open>Duplicates\<close>

lemma distinct_by_set: "set (distinct_by key seen xs) \<subseteq> set xs"
  by (induction key seen xs rule: distinct_by.induct) auto

lemma distinct_by_keys: "key ` set (distinct_by key seen xs) = key ` set xs - seen"
  by (induction key seen xs rule: distinct_by.induct) auto

lemma distinct_by_distinct: "distinct (map key (distinct_by key seen xs))"
proof (induction key seen xs rule: distinct_by.induct)
  case (2 key seen x xs)
  then show ?case using distinct_by_keys [of key "insert (key x) seen" xs] by (auto simp: image_iff)
qed simp

lemma distinct_by_inj:
  assumes "inj_on key (set xs)"
  shows "mset (distinct_by key {} xs) = mset_set (set xs)"
proof -
  have "set (distinct_by key {} xs) = set xs"
    using distinct_by_keys [of key "{}" xs] distinct_by_set [of key "{}" xs] assms
    by (metis Diff_empty inj_on_image_eq_iff subset_refl)
  moreover have "distinct (distinct_by key {} xs)" using distinct_by_distinct [of key "{}" xs] by (simp add: distinct_map)
  ultimately show ?thesis by (metis mset_set_set)
qed

lemma count_keys_count: "count_keys key rs k = length (filter (\<lambda>r. key r = k) rs)"
proof -
  have "fold (\<lambda>r c. c(key r := c (key r) + 1)) rs c k = c k + length (filter (\<lambda>r. key r = k) rs)" for c
    by (induction rs arbitrary: c) auto
  then show ?thesis by (simp add: count_keys_def)
qed

lemma intersect_all_count:
  assumes "inj_on key S" and "set xs \<subseteq> S" and "y \<in> S"
  shows "count (mset (intersect_all key counts xs)) y = min (count (mset xs) y) (counts (key y))"
  using assms(2)
proof (induction xs arbitrary: counts)
  case (Cons x xs)
  have key: "key x = key y \<longleftrightarrow> x = y" using assms(1,3) Cons.prems by (auto dest: inj_onD)
  have sub: "set xs \<subseteq> S" using Cons.prems by simp
  note IH = Cons.IH [OF sub]
  show ?case
  proof (cases "x = y")
    case True
    then show ?thesis by (cases "counts (key y)") (simp_all add: IH Let_def)
  next
    case False
    then show ?thesis using key by (simp add: IH Let_def)
  qed
qed simp

lemma except_all_count:
  assumes "inj_on key S" and "set xs \<subseteq> S" and "y \<in> S"
  shows "count (mset (except_all key counts xs)) y = count (mset xs) y - counts (key y)"
  using assms(2)
proof (induction xs arbitrary: counts)
  case (Cons x xs)
  have key: "key x = key y \<longleftrightarrow> x = y" using assms(1,3) Cons.prems by (auto dest: inj_onD)
  have sub: "set xs \<subseteq> S" using Cons.prems by simp
  note IH = Cons.IH [OF sub]
  show ?case
  proof (cases "x = y")
    case True
    then show ?thesis by (cases "counts (key y)") (simp_all add: IH Let_def)
  next
    case False
    then show ?thesis using key by (simp add: IH Let_def)
  qed
qed simp

lemma all_sub: "set (intersect_all key counts xs) \<subseteq> set xs" "set (except_all key counts xs) \<subseteq> set xs"
  by (induction xs arbitrary: counts) (auto simp: Let_def)

lemma count_keys_inj: "inj_on key S \<Longrightarrow> set rs \<subseteq> S \<Longrightarrow> y \<in> S \<Longrightarrow> count_keys key rs (key y) = count (mset rs) y"
proof (induction rs)
  case (Cons r rs)
  then show ?case by (auto simp: count_keys_count dest: inj_onD)
qed (simp add: count_keys_count)

section \<open>Keys of rows\<close>

lemma serialize_size: "wf_value v \<Longrightarrow> length (serialize v) < 2 ^ 32"
  using serialize_length_le [of v] by (cases v) (auto simp: serialized_size.simps MAX_VALUE_LEN_def)

lemma serialize_some: "serialize v \<noteq> []"
  by (cases v) (simp_all add: serialize_simps)

lemma serialize_inj: "wf_value v \<Longrightarrow> wf_value w \<Longrightarrow> serialize v = serialize w \<Longrightarrow> v = w"
  using deserialize_serialize [of v "[]"] deserialize_serialize [of w "[]"] by simp

lemma row_key_inj: "list_all wf_value r \<Longrightarrow> list_all wf_value s \<Longrightarrow> row_key r = row_key s \<Longrightarrow> r = s"
proof (induction r arbitrary: s)
  case Nil
  then show ?case by (cases s) (auto simp: row_key_def serialize_some)
next
  case (Cons v r)
  obtain w s' where s: "s = w # s'" using Cons.prems(3) by (cases s) (simp_all add: row_key_def serialize_some)
  have split: "le_bytes 4 (word_of_nat (length (serialize v)) :: u32) = le_bytes 4 (word_of_nat (length (serialize w)) :: u32)"
      "serialize v @ row_key r = serialize w @ row_key s'"
    using Cons.prems(3) s by (simp_all add: row_key_def append_eq_append_conv)
  then have "(word_of_nat (length (serialize v)) :: u32) = word_of_nat (length (serialize w))" by (metis from_le_u32)
  then have "length (serialize v) = length (serialize w)" using serialize_size Cons.prems s by (simp add: word_of_nat_eq_iff take_bit_nat_eq_self)
  then have "serialize v = serialize w" "row_key r = row_key s'" using split(2) by (simp_all add: append_eq_append_conv)
  then show ?case using serialize_inj [of v w] Cons.IH [of s'] Cons.prems s by simp
qed

lemma row_key_inj_on: "inj_on row_key {r. list_all wf_value r}"
  by (auto intro: inj_onI row_key_inj)

text \<open>
  C15: on well-formed rows the set operations are the operations of multisets: \<^verbatim>\<open>UNION ALL\<close> adds, \<^verbatim>\<open>INTERSECT ALL\<close> takes the smaller and \<^verbatim>\<open>EXCEPT ALL\<close> the difference of the
  multiplicities, and without \<^verbatim>\<open>ALL\<close> each row of the union, intersection and difference comes once.
\<close>

theorem set_operations_on_multisets:
  assumes "\<And>r. r \<in> set left \<union> set right \<Longrightarrow> list_all wf_value r"
  shows "mset (set_op_rows kind left right) =
    (case kind of
       UnionAll \<Rightarrow> mset left + mset right
     | UnionDistinct \<Rightarrow> mset_set (set left \<union> set right)
     | IntersectAll \<Rightarrow> mset left \<inter># mset right
     | IntersectDistinct \<Rightarrow> mset_set (set left \<inter> set right)
     | ExceptAll \<Rightarrow> mset left - mset right
     | ExceptDistinct \<Rightarrow> mset_set (set left - set right))"
proof -
  let ?S = "{r. list_all wf_value r}"
  have sub: "set left \<subseteq> ?S" "set right \<subseteq> ?S" using assms by auto
  have key: "row_key r \<in> set (map row_key right) \<longleftrightarrow> r \<in> set right" if "r \<in> set left" for r
    using that sub row_key_inj_on by (auto simp: inj_on_def subset_iff image_iff)
  have inj: "inj_on row_key (set xs)" if "set xs \<subseteq> ?S" for xs using row_key_inj_on that by (rule inj_on_subset)
  have all: "mset (intersect_all row_key (count_keys row_key right) left) = mset left \<inter># mset right"
      "mset (except_all row_key (count_keys row_key right) left) = mset left - mset right"
  proof -
    show "mset (intersect_all row_key (count_keys row_key right) left) = mset left \<inter># mset right"
    proof (rule multiset_eqI)
      fix r
      show "count (mset (intersect_all row_key (count_keys row_key right) left)) r = count (mset left \<inter># mset right) r"
        using intersect_all_count [OF row_key_inj_on sub(1), of r] count_keys_inj [OF row_key_inj_on sub(2), of r] sub
          all_sub(1) [of row_key "count_keys row_key right" left]
        by (cases "r \<in> ?S") (simp, metis (mono_tags, lifting) count_inter_mset count_diff count_mset_0_iff diff_is_0_eq le0 min_0L subset_iff)
    qed
    show "mset (except_all row_key (count_keys row_key right) left) = mset left - mset right"
    proof (rule multiset_eqI)
      fix r
      show "count (mset (except_all row_key (count_keys row_key right) left)) r = count (mset left - mset right) r"
        using except_all_count [OF row_key_inj_on sub(1), of r] count_keys_inj [OF row_key_inj_on sub(2), of r] sub
          all_sub(2) [of row_key "count_keys row_key right" left]
        by (cases "r \<in> ?S") (simp, metis (mono_tags, lifting) count_inter_mset count_diff count_mset_0_iff diff_is_0_eq le0 min_0L subset_iff)
    qed
  qed
  have filters: "filter (\<lambda>r. row_key r \<in> set (map row_key right)) left = filter (\<lambda>r. r \<in> set right) left"
      "filter (\<lambda>r. row_key r \<notin> set (map row_key right)) left = filter (\<lambda>r. r \<notin> set right) left"
    using key by (auto intro!: filter_cong)
  have once: "mset (distinct_by row_key {} xs) = mset_set (set xs)" if "set xs \<subseteq> ?S" for xs using inj [OF that] by (rule distinct_by_inj)
  have "mset (distinct_by row_key {} (filter q left)) = mset_set {r \<in> set left. q r}" for q
    using once [of "filter q left"] sub(1) by auto
  moreover have "mset (distinct_by row_key {} (left @ right)) = mset_set (set left \<union> set right)" using once [of "left @ right"] sub by simp
  ultimately show ?thesis unfolding set_op_rows_def filters
    by (cases kind) (simp_all add: all Int_def set_diff_eq del: set_map)
qed

theorem set_operations_on_multisets_witness:
  "mset (set_op_rows ExceptAll [[Integer 1], [Integer 1]] [[Integer 1]]) = {#[Integer 1]#}"
  using set_operations_on_multisets [of "[[Integer 1], [Integer 1]]" "[[Integer 1]]" ExceptAll] by simp

end
