(* ===== verification/SelectGroup.thy ===== *)
theory SelectGroup
  imports SelectFrom
begin

text \<open>
  Projection, grouping and aggregation of \<^verbatim>\<open>src/src/vm/exec_select.rs\<close>: the columns of the result, the groups of \<^verbatim>\<open>GROUP BY\<close>, the aggregate functions, and the
  second evaluator, which computes aggregates over a group inside an expression.
\<close>

section \<open>Columns of the result\<close>

datatype 'q select_column =
    AllColumns
  | TableAllColumns string
  | SelectExpr "'q expr" "string option"

definition table_column_indices :: "string \<Rightarrow> string list \<Rightarrow> col_map \<Rightarrow> nat list option" where
  "table_column_indices tbl names m =
     (let is = filter (\<lambda>i. m (qualified_key tbl (names ! i)) = Some i) [0..<length names] in if is = [] then None else Some is)"

definition expr_display_name :: "'q expr \<Rightarrow> string" where
  "expr_display_name e =
     (case e of
        ColumnRef _ column \<Rightarrow> column
      | FunctionCall name _ _ \<Rightarrow> name
      | IntegerLiteral v \<Rightarrow> show_int (sint v)
      | RealLiteral v \<Rightarrow> show_f64 v
      | StringLiteral v \<Rightarrow> quoted v
      | _ \<Rightarrow> ''?'')"

datatype 'q proj = ProjIndex nat | ProjExpr "'q expr"

text \<open>The projection plan of a column: names and sources.\<close>

definition plan_column :: "string list \<Rightarrow> col_map \<Rightarrow> 'q select_column \<Rightarrow> (string \<times> 'q proj) list" where
  "plan_column names m c =
     (case c of
        AllColumns \<Rightarrow> map (\<lambda>i. (names ! i, ProjIndex i)) [0..<length names]
      | TableAllColumns t \<Rightarrow>
          map (\<lambda>i. (names ! i, ProjIndex i)) (case table_column_indices t names m of Some is \<Rightarrow> is | None \<Rightarrow> [0..<length names])
      | SelectExpr e alias \<Rightarrow> [(case alias of Some a \<Rightarrow> a | None \<Rightarrow> expr_display_name e, ProjExpr e)])"

definition plan_columns :: "string list \<Rightarrow> col_map \<Rightarrow> 'q select_column list \<Rightarrow> (string \<times> 'q proj) list" where
  "plan_columns names m cols = concat (map (plan_column names m) cols)"

definition project :: "('q expr \<Rightarrow> value res) \<Rightarrow> row \<Rightarrow> 'q proj \<Rightarrow> value res" where
  "project eval r p = (case p of ProjIndex i \<Rightarrow> Ok (if i < length r then r ! i else Null) | ProjExpr e \<Rightarrow> eval e)"

definition is_identity :: "nat \<Rightarrow> 'q proj list \<Rightarrow> bool" where
  "is_identity n plan \<longleftrightarrow> length plan = n \<and> list_all (\<lambda>i. plan ! i = ProjIndex i) [0..<length plan]"

definition project_columns :: "'q vm_env \<Rightarrow> 'q select_column list \<Rightarrow> row list \<Rightarrow> string list \<Rightarrow> col_map \<Rightarrow> query_result res" where
  "project_columns env cols rows names m =
     (let plan = plan_columns names m cols in
      if is_identity (length names) (map snd plan) then Ok (map fst plan, rows)
      else res_bind (all_ok (map (\<lambda>r. all_ok (map (project (\<lambda>e. eval_in env e r m) r) (map snd plan))) rows))
        (\<lambda>out. Ok (map fst plan, out)))"

section \<open>Aggregates\<close>

definition is_aggregate_name :: "string \<Rightarrow> bool" where
  "is_aggregate_name name \<longleftrightarrow> to_ascii_uppercase name \<in> {''COUNT'', ''SUM'', ''AVG'', ''MIN'', ''MAX''}"

fun expr_has_aggregate :: "'q expr \<Rightarrow> bool" where
  "expr_has_aggregate (FunctionCall name args _) = (is_aggregate_name name \<or> list_ex expr_has_aggregate args)"
| "expr_has_aggregate (BinaryOp l _ r) = (expr_has_aggregate l \<or> expr_has_aggregate r)"
| "expr_has_aggregate (UnaryOp _ e) = expr_has_aggregate e"
| "expr_has_aggregate (Nested e) = expr_has_aggregate e"
| "expr_has_aggregate (IsNull e _) = expr_has_aggregate e"
| "expr_has_aggregate (InList e items _) = (expr_has_aggregate e \<or> list_ex expr_has_aggregate items)"
| "expr_has_aggregate (Between e lo hi _) = (expr_has_aggregate e \<or> expr_has_aggregate lo \<or> expr_has_aggregate hi)"
| "expr_has_aggregate (LikeExpr e p _ _ _) = (expr_has_aggregate e \<or> expr_has_aggregate p)"
| "expr_has_aggregate (InSubquery e _ _) = expr_has_aggregate e"
| "expr_has_aggregate _ = False"

definition has_aggregate :: "'q select_column list \<Rightarrow> bool" where
  "has_aggregate cols \<longleftrightarrow> list_ex (\<lambda>c. case c of SelectExpr e _ \<Rightarrow> expr_has_aggregate e | _ \<Rightarrow> False) cols"

definition count_values :: "bool \<Rightarrow> value list \<Rightarrow> nat" where
  "count_values dist vs =
     (let some = filter (\<lambda>v. v \<noteq> Null) vs in length (if dist then distinct_by typed_key {} some else some))"

text \<open>The loop of \<^verbatim>\<open>SUM\<close>: an integer sum as long as it fits, from then on a real one.\<close>

record sum_state =
  int_sum :: i64
  real_sum :: f64
  is_int :: bool
  has_value :: bool

definition checked_add :: "i64 \<Rightarrow> i64 \<Rightarrow> i64 option" where
  "checked_add a b = (let s = sint a + sint b in if - (2 ^ 63) \<le> s \<and> s < 2 ^ 63 then Some (word_of_int s) else None)"

definition sum_real :: "sum_state \<Rightarrow> f64 \<Rightarrow> sum_state" where
  "sum_real s v =
     s\<lparr>real_sum := f64_add (if is_int s then i64_as_f64 (int_sum s) else real_sum s) v, is_int := False, has_value := True\<rparr>"

definition sum_step :: "value \<Rightarrow> sum_state \<Rightarrow> sum_state" where
  "sum_step v s =
     (case v of
        Integer i \<Rightarrow>
          if is_int s then
            (case checked_add (int_sum s) i of
               Some t \<Rightarrow> s\<lparr>int_sum := t, has_value := True\<rparr>
             | None \<Rightarrow> sum_real s (i64_as_f64 i))
          else sum_real s (i64_as_f64 i)
      | Real r \<Rightarrow> sum_real s r
      | Null \<Rightarrow> s
      | _ \<Rightarrow> (case to_f64 v of Some r \<Rightarrow> sum_real s r | None \<Rightarrow> s))"

definition sum_values :: "value list \<Rightarrow> value" where
  "sum_values vs =
     (let s = fold sum_step vs \<lparr>int_sum = 0, real_sum = 0, is_int = True, has_value = False\<rparr> in
      if \<not> has_value s then Null else if is_int s then Integer (int_sum s) else Real (real_sum s))"

definition avg_values :: "value list \<Rightarrow> value" where
  "avg_values vs =
     (let rs = concat (map (\<lambda>v. case to_f64 v of Some r \<Rightarrow> [r] | None \<Rightarrow> []) vs) in
      if rs = [] then Null else Real (f64_div (fold (\<lambda>r s. f64_add s r) rs 0) (i64_as_f64 (word_of_nat (length rs)))))"

definition extreme_step :: "ordering \<Rightarrow> value \<Rightarrow> value option \<Rightarrow> value option" where
  "extreme_step wanted v best =
     (if v = Null then best
      else Some (case best of None \<Rightarrow> v | Some cur \<Rightarrow> if value_partial_cmp v cur = Some wanted then v else cur))"

definition extreme_value :: "ordering \<Rightarrow> value list \<Rightarrow> value" where
  "extreme_value wanted vs = (case fold (extreme_step wanted) vs None of None \<Rightarrow> Null | Some v \<Rightarrow> v)"

definition eval_aggregate :: "'q vm_env \<Rightarrow> string \<Rightarrow> 'q expr list \<Rightarrow> bool \<Rightarrow> row list \<Rightarrow> col_map \<Rightarrow> value res" where
  "eval_aggregate env name args dist rows m =
     (let n = to_ascii_uppercase name; vals = all_ok (map (\<lambda>r. eval_in env (hd args) r m) rows) in
      if n = ''COUNT'' then
        (if args = [] \<or> hd args = IntegerLiteral 1 then Ok (Integer (word_of_nat (length rows)))
         else res_bind vals (\<lambda>vs. Ok (Integer (word_of_nat (count_values dist vs)))))
      else if n = ''SUM'' then (if args = [] then Ok Null else res_bind vals (\<lambda>vs. Ok (sum_values vs)))
      else if n = ''AVG'' then (if args = [] then Ok Null else res_bind vals (\<lambda>vs. Ok (avg_values vs)))
      else if n = ''MIN'' then (if args = [] then Ok Null else res_bind vals (\<lambda>vs. Ok (extreme_value Less vs)))
      else if n = ''MAX'' then (if args = [] then Ok Null else res_bind vals (\<lambda>vs. Ok (extreme_value Greater vs)))
      else Err (RuntimeError (''unknown aggregate function: '' @ name)))"

section \<open>Expressions over a group\<close>

text \<open>The row is the first one of the group. Forms that are not listed are left to the evaluator of rows, with the aggregates inside them.\<close>

fun eval_expr_with_aggregates :: "'q vm_env \<Rightarrow> 'q expr \<Rightarrow> row \<Rightarrow> col_map \<Rightarrow> row list \<Rightarrow> value res" where
  "eval_expr_with_aggregates env (FunctionCall name args dist) row m rows =
     (if name = ''__win'' then eval_in env (FunctionCall name args dist) row m
      else if is_aggregate_name name then eval_aggregate env name args dist rows m
      else res_bind (all_ok (map (\<lambda>a. eval_expr_with_aggregates env a row m rows) args)) (\<lambda>vs.
        eval_in env (FunctionCall name (map from_value vs) dist) row m))"
| "eval_expr_with_aggregates env (BinaryOp l op r) row m rows =
     (let x = eval_expr_with_aggregates env l row m rows; y = eval_expr_with_aggregates env r row m rows in
      if op = OpAnd then eval_and x y
      else if op = OpOr then eval_or x y
      else res_bind x (\<lambda>v. res_bind y (\<lambda>w. apply_binary_op (expr_env env) op v w)))"
| "eval_expr_with_aggregates env (UnaryOp op e) row m rows =
     res_bind (eval_expr_with_aggregates env e row m rows) (eval_unary op)"
| "eval_expr_with_aggregates env (Nested e) row m rows = eval_expr_with_aggregates env e row m rows"
| "eval_expr_with_aggregates env (IsNull e negated) row m rows =
     res_bind (eval_expr_with_aggregates env e row m rows) (\<lambda>v. Ok (bool_value ((v = Null) \<noteq> negated)))"
| "eval_expr_with_aggregates env (InList e items negated) row m rows =
     res_bind (eval_expr_with_aggregates env e row m rows) (\<lambda>v.
       eval_in_list v (map (\<lambda>i. eval_expr_with_aggregates env i row m rows) items) negated)"
| "eval_expr_with_aggregates env (Between e lo hi negated) row m rows =
     res_bind (eval_expr_with_aggregates env e row m rows) (\<lambda>v.
     res_bind (eval_expr_with_aggregates env lo row m rows) (\<lambda>l.
     res_bind (eval_expr_with_aggregates env hi row m rows) (\<lambda>h. Ok (eval_between v l h negated))))"
| "eval_expr_with_aggregates env (LikeExpr e p escape_char ci negated) row m rows =
     res_bind (eval_expr_with_aggregates env e row m rows) (\<lambda>v.
     res_bind (eval_expr_with_aggregates env p row m rows) (\<lambda>q. eval_like v q escape_char ci negated))"
| "eval_expr_with_aggregates env (Collate e collation) row m rows = eval_expr_with_aggregates env e row m rows"
| "eval_expr_with_aggregates env (Interval e field) row m rows =
     res_bind (eval_expr_with_aggregates env e row m rows) (\<lambda>v. Ok (eval_interval v field))"
| "eval_expr_with_aggregates env e row m rows = eval_in env e row m"

section \<open>GROUP BY\<close>

text \<open>The expression behind an alias of the \<^verbatim>\<open>SELECT\<close> list; the last one with a name counts.\<close>

definition alias_map :: "'q select_column list \<Rightarrow> string \<Rightarrow> 'q expr option" where
  "alias_map cols = fold (\<lambda>c m. case c of SelectExpr e (Some a) \<Rightarrow> m(to_ascii_lowercase a \<mapsto> e) | _ \<Rightarrow> m) cols Map.empty"

definition resolve_group_expr :: "'q select_column list \<Rightarrow> 'q expr \<Rightarrow> 'q expr" where
  "resolve_group_expr cols e =
     (case e of
        ColumnRef None column \<Rightarrow> (case alias_map cols (to_ascii_lowercase column) of Some x \<Rightarrow> x | None \<Rightarrow> e)
      | _ \<Rightarrow> e)"

text \<open>The groups with their keys, in the order in which the keys come first; a row joins the group of its key.\<close>

fun add_to_group :: "'k \<Rightarrow> 'a \<Rightarrow> ('k \<times> 'a list) list \<Rightarrow> ('k \<times> 'a list) list" where
  "add_to_group k r [] = [(k, [r])]"
| "add_to_group k r ((k', rs) # gs) = (if k = k' then (k', rs @ [r]) # gs else (k', rs) # add_to_group k r gs)"

definition group_rows :: "('k \<times> 'a) list \<Rightarrow> ('k \<times> 'a list) list" where
  "group_rows keyed = fold (\<lambda>(k, r) gs. add_to_group k r gs) keyed []"

definition group_key :: "'q vm_env \<Rightarrow> 'q expr list \<Rightarrow> col_map \<Rightarrow> row \<Rightarrow> bytes res" where
  "group_key env exprs m r = res_bind (all_ok (map (\<lambda>e. eval_in env e r m) exprs)) (\<lambda>vs. Ok (typed_row_key vs))"

definition group_output :: "'q vm_env \<Rightarrow> 'q proj list \<Rightarrow> col_map \<Rightarrow> 'q expr option \<Rightarrow> row list \<Rightarrow> row option res" where
  "group_output env plan m having rows =
     (let first = (case rows of [] \<Rightarrow> [] | r # _ \<Rightarrow> r); eval = (\<lambda>e. eval_expr_with_aggregates env e first m rows) in
      res_bind (case having of None \<Rightarrow> Ok True | Some h \<Rightarrow> res_bind (eval h) (\<lambda>v. Ok (is_truthy v))) (\<lambda>keep.
        if keep then res_bind (all_ok (map (project eval first) plan)) (\<lambda>out. Ok (Some out)) else Ok None))"

definition apply_group_by :: "'q vm_env \<Rightarrow> row list \<Rightarrow> 'q expr list \<Rightarrow> 'q select_column list \<Rightarrow> string list \<Rightarrow> col_map \<Rightarrow>
    'q expr option \<Rightarrow> query_result res" where
  "apply_group_by env rows group_exprs cols names m having =
     (let exprs = map (resolve_group_expr cols) group_exprs; plan = plan_columns names m cols in
      res_bind (all_ok (map (\<lambda>r. res_bind (group_key env exprs m r) (\<lambda>k. Ok (k, r))) rows)) (\<lambda>keyed.
      res_bind (all_ok (map (\<lambda>(k, rs). group_output env (map snd plan) m having rs) (group_rows keyed))) (\<lambda>outs.
        Ok (map fst plan, concat (map (\<lambda>o'. case o' of None \<Rightarrow> [] | Some r \<Rightarrow> [r]) outs)))))"

text \<open>Aggregates without \<^verbatim>\<open>GROUP BY\<close>: all rows are one group, also when there are none. \<^verbatim>\<open>HAVING\<close> plays no part.\<close>

definition apply_implicit_aggregate :: "'q vm_env \<Rightarrow> row list \<Rightarrow> 'q select_column list \<Rightarrow> string list \<Rightarrow> col_map \<Rightarrow> query_result res" where
  "apply_implicit_aggregate env rows cols names m =
     (let plan = plan_columns names m cols in
      res_bind (group_output env (map snd plan) m None rows) (\<lambda>out.
        Ok (map fst plan, case out of None \<Rightarrow> [] | Some r \<Rightarrow> [r])))"

end
