(* ===== verification/SelectExec.thy ===== *)
theory SelectExec
  imports SelectGroup
begin

text \<open>
  The execution of a \<^verbatim>\<open>SELECT\<close>, \<^verbatim>\<open>exec_select\<close> of \<^verbatim>\<open>src/src/vm/exec_select.rs\<close>: common table expressions, join reordering, the fast paths for \<^verbatim>\<open>COUNT(*)\<close> and
  \<^verbatim>\<open>LIMIT\<close>, the condition with the policies of row-level security, sorting, projection or grouping, \<^verbatim>\<open>DISTINCT\<close>, \<^verbatim>\<open>OFFSET\<close> and \<^verbatim>\<open>LIMIT\<close>. Window functions, row ids for
  vector search and the row locks of \<^verbatim>\<open>FOR UPDATE\<close> are left out.
\<close>

section \<open>Statements\<close>

datatype 'q cte_definition = CteDefinition (cte_name: string) (cte_columns: "string list") (cte_query: 'q) (is_recursive: bool)

datatype 'q select_stmt = SelectStmt
  (sel_distinct: bool) (sel_columns: "'q select_column list") (sel_from: "'q from_clause option") (where_clause: "'q expr option")
  (group_by: "'q expr list") (having: "'q expr option") (order_by: "'q order_by_item list") (sel_limit: "'q expr option")
  (sel_offset: "'q expr option") (sel_ctes: "'q cte_definition list")

section \<open>Common table expressions\<close>

definition rename_columns :: "string list \<Rightarrow> string list \<Rightarrow> string list" where
  "rename_columns aliases names = map (\<lambda>i. if i < length aliases then aliases ! i else names ! i) [0..<length names]"

definition MAX_RECURSION_DEPTH :: nat where
  "MAX_RECURSION_DEPTH = 1000"

text \<open>The rounds of a recursive expression: each one sees the rows of the round before under the name of the expression.\<close>

fun cte_rounds :: "nat \<Rightarrow> 'q vm_env \<Rightarrow> string \<Rightarrow> string list \<Rightarrow> 'q \<Rightarrow> row list \<Rightarrow> row list res" where
  "cte_rounds 0 env key names q prev = Ok []"
| "cte_rounds (Suc n) env key names q prev =
     (if prev = [] then Ok []
      else res_bind (select_query env ((cte_cache env)(key \<mapsto> (names, prev))) (outer_rows (base_env env)) q) (\<lambda>r.
        case r of
          None \<Rightarrow> Ok []
        | Some (_, rows) \<Rightarrow>
            if rows = [] then Ok []
            else res_bind (cte_rounds n env key names q rows) (\<lambda>rest. Ok (rows @ rest))))"

definition query_or_empty :: "'q vm_env \<Rightarrow> 'q \<Rightarrow> query_result res" where
  "query_or_empty env q =
     res_bind (select_query env (cte_cache env) (outer_rows (base_env env)) q) (\<lambda>r. Ok (case r of None \<Rightarrow> ([], []) | Some qr \<Rightarrow> qr))"

definition eval_recursive_cte :: "'q vm_env \<Rightarrow> 'q cte_definition \<Rightarrow> query_result res" where
  "eval_recursive_cte env c =
     (case union_parts env (cte_query c) of
        None \<Rightarrow> query_or_empty env (cte_query c)
      | Some (anchor, rec_query) \<Rightarrow>
          res_bind (select_query env (cte_cache env) (outer_rows (base_env env)) anchor) (\<lambda>r. case r of
              None \<Rightarrow> Ok ([], [])
            | Some (names, rows) \<Rightarrow>
                let names = (if cte_columns c = [] then names else rename_columns (cte_columns c) names) in
                res_bind (cte_rounds MAX_RECURSION_DEPTH env (to_ascii_lowercase (cte_name c)) names rec_query rows)
                  (\<lambda>more. Ok (names, rows @ more))))"

fun eval_ctes :: "'q vm_env \<Rightarrow> 'q cte_definition list \<Rightarrow> 'q vm_env res" where
  "eval_ctes env [] = Ok env"
| "eval_ctes env (c # cs) =
     res_bind (if is_recursive c then eval_recursive_cte env c else query_or_empty env (cte_query c)) (\<lambda>(names, rows).
       let names = (if cte_columns c = [] then names else rename_columns (cte_columns c) names) in
       eval_ctes (env\<lparr>cte_cache := (cte_cache env)(to_ascii_lowercase (cte_name c) \<mapsto> (names, rows))\<rparr>) cs)"

section \<open>Join order\<close>

fun flatten_inner_joins :: "'q from_clause \<Rightarrow> 'q from_clause list \<times> 'q expr option list" where
  "flatten_inner_joins (FromJoin l jt r on) =
     (if jt = JoinInner \<or> jt = JoinCross
      then (case flatten_inner_joins l of (tables, conds) \<Rightarrow> (tables @ [r], conds @ [on]))
      else ([FromJoin l jt r on], []))"
| "flatten_inner_joins f = ([f], [])"

definition combine_conditions :: "'q expr option list \<Rightarrow> 'q expr option" where
  "combine_conditions conds =
     (case concat (map (\<lambda>c. case c of None \<Rightarrow> [] | Some e \<Rightarrow> [e]) conds) of
        [] \<Rightarrow> None
      | e # es \<Rightarrow> Some (foldl (\<lambda>acc c. BinaryOp acc OpAnd c) e es))"

text \<open>A left-deep tree in which only the last join has a condition, the conjunction of all.\<close>

fun left_deep :: "'q from_clause \<Rightarrow> 'q from_clause list \<Rightarrow> 'q expr option \<Rightarrow> 'q from_clause" where
  "left_deep acc [] on = acc"
| "left_deep acc [t] on = FromJoin acc JoinInner t on"
| "left_deep acc (t # ts) on = left_deep (FromJoin acc JoinInner t None) ts on"

definition reorder_joins :: "'q vm_env \<Rightarrow> 'q from_clause \<Rightarrow> 'q from_clause" where
  "reorder_joins env f =
     (case f of
        FromJoin _ jt _ _ \<Rightarrow>
          if jt = JoinInner \<or> jt = JoinCross then
            (case flatten_inner_joins f of (tables, conds) \<Rightarrow>
              (case join_order env tables of
                 None \<Rightarrow> f
               | Some order \<Rightarrow> (case map (\<lambda>i. tables ! i) order of
                   [] \<Rightarrow> f
                 | t # ts \<Rightarrow> left_deep t ts (combine_conditions conds))))
          else f
      | _ \<Rightarrow> f)"

section \<open>Fast paths\<close>

definition is_count_star :: "'q select_stmt \<Rightarrow> bool" where
  "is_count_star s \<longleftrightarrow>
     where_clause s = None \<and> group_by s = [] \<and> \<not> sel_distinct s \<and> having s = None \<and>
     (case sel_columns s of
        [SelectExpr (FunctionCall name args _) _] \<Rightarrow>
          eq_ignore_ascii_case name ''count'' \<and> (args = [] \<or> hd args = IntegerLiteral 1)
      | _ \<Rightarrow> False)"

definition limit_pushdown :: "'q select_stmt \<Rightarrow> bool" where
  "limit_pushdown s \<longleftrightarrow>
     where_clause s = None \<and> order_by s = [] \<and> group_by s = [] \<and> \<not> sel_distinct s \<and> having s = None \<and> sel_limit s \<noteq> None \<and>
     \<not> has_aggregate (sel_columns s)"

definition rls_on :: "'q vm_env \<Rightarrow> string \<Rightarrow> bool" where
  "rls_on env name = (case get_table env name of Ok t \<Rightarrow> rls_enabled t | _ \<Rightarrow> False)"

abbreviation eval_const :: "'q vm_env \<Rightarrow> 'q expr \<Rightarrow> value res" where
  "eval_const env e \<equiv> eval_in env e [] (\<lambda>_. None)"

definition count_fast_path :: "'q vm_env \<Rightarrow> 'q select_stmt \<Rightarrow> string \<Rightarrow> query_result res" where
  "count_fast_path env s name =
     res_bind (get_table env name) (\<lambda>t. res_bind (count_table env name (table_root t)) (\<lambda>n.
       Ok ([''COUNT(*)''], [[Integer (word_of_nat n)]])))"

definition limited_scan :: "'q vm_env \<Rightarrow> 'q select_stmt \<Rightarrow> string \<Rightarrow> (row list \<times> string list) res" where
  "limited_scan env s name =
     res_bind (eval_const env (the (sel_limit s))) (\<lambda>l.
     res_bind (res_option (eval_const env) (sel_offset s)) (\<lambda>o'.
     let lim = (case limit_of l of None \<Rightarrow> USIZE_MAX | Some n \<Rightarrow> n); off = (case o' of None \<Rightarrow> 0 | Some v \<Rightarrow> offset_of v) in
     res_bind (get_table env name) (\<lambda>t. res_bind (scan_limited env name (table_root t) (saturating_add_usize lim off)) (\<lambda>rows.
       Ok (rows, col_names t)))))"

section \<open>The condition\<close>

fun where_is_fts_match :: "'q expr \<Rightarrow> bool" where
  "where_is_fts_match (BinaryOp l op r) =
     (op = OpFtsMatch \<or> (op = OpAnd \<or> op = OpOr) \<and> (where_is_fts_match l \<or> where_is_fts_match r))"
| "where_is_fts_match _ = False"

fun expr_references_cols :: "string list \<Rightarrow> 'q expr \<Rightarrow> bool" where
  "expr_references_cols cols (ColumnRef _ column) = list_ex (\<lambda>c. eq_ignore_ascii_case c column) cols"
| "expr_references_cols cols (BinaryOp l _ r) = (expr_references_cols cols l \<or> expr_references_cols cols r)"
| "expr_references_cols cols (UnaryOp _ e) = expr_references_cols cols e"
| "expr_references_cols cols (Nested e) = expr_references_cols cols e"
| "expr_references_cols cols (FunctionCall _ args _) = list_ex (expr_references_cols cols) args"
| "expr_references_cols cols (InList e items _) = (expr_references_cols cols e \<or> list_ex (expr_references_cols cols) items)"
| "expr_references_cols cols _ = False"

definition subquery_references_outer :: "'q vm_env \<Rightarrow> 'q \<Rightarrow> string list \<Rightarrow> bool" where
  "subquery_references_outer env q cols = (case query_where env q of None \<Rightarrow> False | Some e \<Rightarrow> expr_references_cols cols e)"

text \<open>A value of a subquery that was executed once; a BLOB becomes NULL.\<close>

definition rewritten_item :: "value \<Rightarrow> 'q expr" where
  "rewritten_item v =
     (case v of Integer i \<Rightarrow> IntegerLiteral i | Real r \<Rightarrow> RealLiteral r | Text t \<Rightarrow> StringLiteral t | _ \<Rightarrow> NullLiteral)"

fun rewrite_uncorrelated_subqueries :: "'q vm_env \<Rightarrow> string list \<Rightarrow> 'q expr \<Rightarrow> 'q expr res" where
  "rewrite_uncorrelated_subqueries env cols (InSubquery e q negated) =
     (if subquery_references_outer env q cols then Ok (InSubquery e q negated)
      else res_bind (query_or_empty env q) (\<lambda>(_, rows). Ok (InList e (map rewritten_item (first_column rows)) negated)))"
| "rewrite_uncorrelated_subqueries env cols (BinaryOp l op r) =
     res_bind (rewrite_uncorrelated_subqueries env cols l) (\<lambda>l'. res_bind (rewrite_uncorrelated_subqueries env cols r) (\<lambda>r'. Ok (BinaryOp l' op r')))"
| "rewrite_uncorrelated_subqueries env cols (UnaryOp op e) = res_bind (rewrite_uncorrelated_subqueries env cols e) (\<lambda>e'. Ok (UnaryOp op e'))"
| "rewrite_uncorrelated_subqueries env cols (Nested e) = res_bind (rewrite_uncorrelated_subqueries env cols e) (\<lambda>e'. Ok (Nested e'))"
| "rewrite_uncorrelated_subqueries env cols e = Ok e"

fun collect_base_tables :: "'q from_clause \<Rightarrow> string list" where
  "collect_base_tables (FromTable name _) = [name]"
| "collect_base_tables (FromJoin l _ r _) = collect_base_tables l @ collect_base_tables r"
| "collect_base_tables _ = []"

definition current_user :: "'q vm_env \<Rightarrow> bytes" where
  "current_user env =
     (let vars = session_vars (base_env env) in
      case or_else (vars (ascii ''request.jwt.sub'')) (vars (ascii ''kkdb.current_user'')) of None \<Rightarrow> [] | Some u \<Rightarrow> u)"

definition table_policies :: "'q vm_env \<Rightarrow> string \<Rightarrow> 'q expr list" where
  "table_policies env name =
     (case schema_tables env (to_ascii_lowercase name) of
        None \<Rightarrow> []
      | Some t \<Rightarrow>
          if rls_enabled t
          then concat (map (\<lambda>p. if policy_role p = None \<or> policy_role p = Some (current_user env)
                 then (case using_expr p of None \<Rightarrow> [] | Some e \<Rightarrow> [e]) else []) (policies t))
          else [])"

definition add_policy :: "'q expr \<Rightarrow> 'q expr option \<Rightarrow> 'q expr option" where
  "add_policy e w = Some (case w of None \<Rightarrow> e | Some x \<Rightarrow> BinaryOp x OpAnd e)"

definition add_policies :: "'q vm_env \<Rightarrow> 'q from_clause option \<Rightarrow> 'q expr option \<Rightarrow> 'q expr option" where
  "add_policies env f w =
     (case f of None \<Rightarrow> w | Some f \<Rightarrow> fold add_policy (concat (map (table_policies env) (collect_base_tables f))) w)"

definition filter_rows :: "'q vm_env \<Rightarrow> 'q expr option \<Rightarrow> col_map \<Rightarrow> row list \<Rightarrow> row list res" where
  "filter_rows env w m rows =
     (case w of None \<Rightarrow> Ok rows | Some e \<Rightarrow> res_filter (\<lambda>r. res_bind (eval_in env e r m) (\<lambda>v. Ok (is_truthy v))) rows)"

section \<open>Rows, order and limits\<close>

text \<open>The rows before the condition, and whether a full-text index has applied the condition already.\<close>

definition scan_from :: "'q vm_env \<Rightarrow> 'q select_stmt \<Rightarrow> (row list \<times> string list \<times> bool) res" where
  "scan_from env s =
     (case sel_from s of
        None \<Rightarrow> Ok ([[]], [], False)
      | Some f \<Rightarrow>
          let plain = res_bind (eval_from env f) (\<lambda>(rows, names). Ok (rows, names, False)) in
          if limit_pushdown s then
            (case f of
               FromTable name _ \<Rightarrow>
                 if rls_on env name then plain else res_bind (limited_scan env s name) (\<lambda>(rows, names). Ok (rows, names, False))
             | _ \<Rightarrow> plain)
          else case where_clause s of
              None \<Rightarrow> plain
            | Some w \<Rightarrow>
                res_bind (try_index_scan env f w) (\<lambda>r. case r of
                    Some (rows, names) \<Rightarrow> Ok (rows, names, where_is_fts_match w)
                  | None \<Rightarrow> plain))"

definition statement_col_map :: "'q vm_env \<Rightarrow> 'q from_clause option \<Rightarrow> string list \<Rightarrow> col_map" where
  "statement_col_map env f names =
     (case f of None \<Rightarrow> build_col_map names | Some f \<Rightarrow> fst (inject_qualified_names env f names (build_col_map names, 0)))"

definition source_rows :: "'q vm_env \<Rightarrow> 'q select_stmt \<Rightarrow> (row list \<times> string list \<times> col_map) res" where
  "source_rows env s =
     res_bind (scan_from env s) (\<lambda>(rows, names, fts_used).
       let m = statement_col_map env (sel_from s) names in
       res_bind (if fts_used then Ok None else res_option (rewrite_uncorrelated_subqueries env names) (where_clause s)) (\<lambda>w.
       res_bind (filter_rows env (add_policies env (sel_from s) w) m rows) (\<lambda>rows. Ok (rows, names, m))))"

definition sort_params :: "'q select_stmt \<Rightarrow> (bool \<times> bool option) list" where
  "sort_params s = map (\<lambda>i. (ascending i, nulls_first i)) (order_by s)"

definition top_n_limit :: "'q vm_env \<Rightarrow> 'q select_stmt \<Rightarrow> nat option res" where
  "top_n_limit env s =
     (case sel_limit s of
        None \<Rightarrow> Ok None
      | Some e \<Rightarrow>
          res_bind (eval_const env e) (\<lambda>v. case limit_of v of
              None \<Rightarrow> Ok None
            | Some n \<Rightarrow> res_bind (res_option (eval_const env) (sel_offset s)) (\<lambda>o'.
                Ok (Some (saturating_add_usize n (case o' of None \<Rightarrow> 0 | Some w \<Rightarrow> offset_of w))))))"

definition pre_sort :: "'q select_stmt \<Rightarrow> bool" where
  "pre_sort s \<longleftrightarrow> order_by s \<noteq> [] \<and> group_by s = [] \<and> \<not> has_aggregate (sel_columns s)"

definition sort_source :: "'q vm_env \<Rightarrow> 'q select_stmt \<Rightarrow> col_map \<Rightarrow> row list \<Rightarrow> row list res" where
  "sort_source env s m rows =
     (if pre_sort s then
        res_bind (top_n_limit env s) (\<lambda>limit.
        res_bind (with_keys (\<lambda>r. map (\<lambda>i. eval_in env (order_expr i) r m) (order_by s)) rows) (\<lambda>keyed.
          Ok (map snd (top_n_sort (select_nth env) (compare_keyed (sort_params s)) limit keyed))))
      else Ok rows)"

definition result_rows :: "'q vm_env \<Rightarrow> 'q select_stmt \<Rightarrow> row list \<Rightarrow> string list \<Rightarrow> col_map \<Rightarrow> query_result res" where
  "result_rows env s rows names m =
     (if group_by s \<noteq> [] then apply_group_by env rows (group_by s) (sel_columns s) names m (having s)
      else if has_aggregate (sel_columns s) then apply_implicit_aggregate env rows (sel_columns s) names m
      else project_columns env (sel_columns s) rows names m)"

text \<open>The sort key of a result row: a position, the name of a result column, or an expression over the result columns.\<close>

definition output_key :: "'q vm_env \<Rightarrow> col_map \<Rightarrow> row \<Rightarrow> 'q expr \<Rightarrow> value res" where
  "output_key env m r e =
     (case e of
        IntegerLiteral n \<Rightarrow> Ok (let i = unat n - 1 in if i < length r then r ! i else Null)
      | ColumnRef _ column \<Rightarrow> Ok (case m (to_ascii_lowercase column) of Some i \<Rightarrow> (if i < length r then r ! i else Null) | None \<Rightarrow> Null)
      | _ \<Rightarrow> eval_in env e r m)"

definition sort_output :: "'q vm_env \<Rightarrow> 'q select_stmt \<Rightarrow> string list \<Rightarrow> row list \<Rightarrow> row list res" where
  "sort_output env s names rows =
     (if order_by s \<noteq> [] \<and> \<not> pre_sort s then
        (let m = (fold (\<lambda>(i, n) m. m(lower_string env n \<mapsto> i)) (enumerate 0 names) Map.empty :: col_map) in
         res_bind (with_keys (\<lambda>r. map (\<lambda>i. output_key env m r (order_expr i)) (order_by s)) rows) (\<lambda>keyed.
         res_bind (top_n_limit env s) (\<lambda>limit.
           Ok (map snd (top_n_sort (select_nth env) (compare_keyed (sort_params s)) limit keyed)))))
      else Ok rows)"

definition cut_rows :: "'q vm_env \<Rightarrow> 'q select_stmt \<Rightarrow> row list \<Rightarrow> row list res" where
  "cut_rows env s rows =
     res_bind (res_option (eval_const env) (sel_offset s)) (\<lambda>o'.
     let rows = (case o' of None \<Rightarrow> rows | Some v \<Rightarrow> apply_offset (offset_of v) rows) in
     res_bind (res_option (eval_const env) (sel_limit s)) (\<lambda>l.
       Ok (case l of None \<Rightarrow> rows | Some v \<Rightarrow> apply_limit (limit_of v) rows)))"

definition finish_select :: "'q vm_env \<Rightarrow> 'q select_stmt \<Rightarrow> row list \<times> string list \<times> col_map \<Rightarrow> query_result res" where
  "finish_select env s src =
     (case src of (rows, names, m) \<Rightarrow>
       res_bind (sort_source env s m rows) (\<lambda>sorted.
       res_bind (result_rows env s sorted names m) (\<lambda>(out_names, out).
       let out = (if sel_distinct s then distinct_rows out else out) in
       res_bind (sort_output env s out_names out) (\<lambda>out.
       res_bind (cut_rows env s out) (\<lambda>out. Ok (out_names, out))))))"

definition with_join_order :: "'q vm_env \<Rightarrow> 'q select_stmt \<Rightarrow> 'q select_stmt" where
  "with_join_order env s = (case s of SelectStmt d c f w g h ob l os ct \<Rightarrow> SelectStmt d c (map_option (reorder_joins env) f) w g h ob l os ct)"

definition exec_select_stmt :: "'q vm_env \<Rightarrow> 'q select_stmt \<Rightarrow> query_result res" where
  "exec_select_stmt env0 s0 =
     res_bind (eval_ctes env0 (sel_ctes s0)) (\<lambda>env.
       let s = with_join_order env s0 in
       case (is_count_star s, sel_from s) of
         (True, Some (FromTable name _)) \<Rightarrow>
           if rls_on env name then res_bind (source_rows env s) (finish_select env s) else count_fast_path env s name
       | _ \<Rightarrow> res_bind (source_rows env s) (finish_select env s))"

end
