(* ===== verification/SelectLaws.thy ===== *)
theory SelectLaws
  imports SetOpLaws SelectExec
begin

text \<open>
  What the execution of a \<^verbatim>\<open>SELECT\<close> promises: row-level security filters every row before anything else sees it, sorting with a limit gives the beginning of the sorted rows,
  the limit pushed into the scan and the subqueries executed in advance do not change a result, groups partition the rows, and the evaluator of groups agrees with that of
  rows. And what it does not: a limit is applied before duplicates are removed, and the fast paths do not know common table expressions.
\<close>

section \<open>A sample database\<close>

text \<open>A table \<^verbatim>\<open>t\<close> with one column \<^verbatim>\<open>x\<close> and three rows; with policies, it shows only the rows that fulfil them.\<close>

definition sample_rows :: "row list" where
  "sample_rows = [[Integer 2], [Integer 1], [Integer 1]]"

definition sample_table :: "unit expr list \<Rightarrow> unit table_schema" where
  "sample_table ps = \<lparr>col_names = [''x''], column_count = 1, table_root = 2, view_select = None, rls_enabled = (ps \<noteq> []),
     policies = map (\<lambda>e. \<lparr>policy_role = None, using_expr = Some e\<rparr>) ps\<rparr>"

definition sample_db :: "unit expr list \<Rightarrow> unit vm_env" where
  "sample_db ps = sample_vm\<lparr>schema_tables := [''t'' \<mapsto> sample_table ps], scan_table := (\<lambda>_ _. Ok sample_rows),
     scan_limited := (\<lambda>_ _ n. Ok (take n sample_rows)), count_table := (\<lambda>_ _. Ok 3)\<rparr>"

definition x_is_one :: "unit expr" where
  "x_is_one = BinaryOp (ColumnRef None ''x'') OpEqual (IntegerLiteral 1)"

definition from_t :: "bool \<Rightarrow> unit order_by_item list \<Rightarrow> unit expr option \<Rightarrow> unit expr option \<Rightarrow> unit select_stmt" where
  "from_t dist ob l os = SelectStmt dist [AllColumns] (Some (FromTable ''t'' None)) None [] None ob l os []"

definition by_x :: "unit order_by_item" where
  "by_x = OrderByItem (ColumnRef None ''x'') True None"

lemma from_t_simps [simp]:
  "sel_distinct (from_t dist ob l os) = dist" "sel_columns (from_t dist ob l os) = [AllColumns]" "sel_from (from_t dist ob l os) = Some (FromTable ''t'' None)"
  "where_clause (from_t dist ob l os) = None" "group_by (from_t dist ob l os) = []" "having (from_t dist ob l os) = None" "order_by (from_t dist ob l os) = ob"
  "sel_limit (from_t dist ob l os) = l" "sel_offset (from_t dist ob l os) = os" "sel_ctes (from_t dist ob l os) = []"
  "\<not> is_count_star (from_t dist ob l os)" "pre_sort (from_t dist ob l os) \<longleftrightarrow> ob \<noteq> []"
  by (simp_all add: from_t_def is_count_star_def pre_sort_def has_aggregate_def)

lemmas sample_defs = sample_db_def sample_table_def sample_rows_def

lemma sample_names:
  "build_col_map [''x''] = [''x'' \<mapsto> 0]" "lowercase_key env ''t'' = ''t''" "to_ascii_lowercase ''t'' = ''t''" "qualified_key ''t'' ''x'' = ''t.x''"
  by (simp_all add: build_col_map_def column_key_def has_upper_def lowercase_key_def to_ascii_lowercase_def ascii_lower_def qualified_key_def
      lower_bytes_as_chars_def push_byte_as_char_def)

lemma sample_policies: "table_policies (sample_db ps) ''t'' = ps"
proof -
  have "concat (map (\<lambda>p. [p]) ps) = ps" for ps :: "unit expr list" by (induction ps) auto
  then show ?thesis by (simp add: table_policies_def sample_defs sample_names comp_def)
qed

lemma sample_map: "statement_col_map (sample_db ps) (Some (FromTable ''t'' None)) [''x''] = [''x'' \<mapsto> 0, ''t.x'' \<mapsto> 0]"
  by (simp add: statement_col_map_def sample_names get_table_def sample_db_def sample_table_def inject_columns_def)

lemma sample_eval:
  "eval_in (sample_db ps) (ColumnRef None ''x'') [v] [''x'' \<mapsto> 0, ''t.x'' \<mapsto> 0] = Ok v"
  "eval_in (sample_db ps) x_is_one [Integer i] [''x'' \<mapsto> 0, ''t.x'' \<mapsto> 0] = Ok (bool_value (i = 1))"
  by (simp_all add: eval_column_def lookup_column_def column_of_def or_else_def x_is_one_def eval_binary_def apply_equal sample_names)

lemma sample_scan:
  "eval_from (sample_db ps) (FromTable ''t'' None) = Ok (sample_rows, [''x''])"
  "with_join_order env (from_t dist ob l os) = from_t dist ob l os"
  by (simp_all add: sample_defs sample_vm_def get_table_def sample_names with_join_order_def reorder_joins_def from_t_def)

lemma sample_exec: "exec_select_stmt env (from_t dist ob l os) = res_bind (source_rows env (from_t dist ob l os)) (finish_select env (from_t dist ob l os))"
  by (simp add: exec_select_stmt_def sample_scan Let_def)

lemma sample_project: "project_columns env [AllColumns] rows [''x''] m = Ok ([''x''], rows)"
  by (simp add: project_columns_def plan_columns_def plan_column_def is_identity_def)

section \<open>Row-level security\<close>

lemma filter_rows_truthy:
  assumes "filter_rows env (Some e) m rows = Ok out" and "r \<in> set out"
  shows "r \<in> set rows \<and> (\<exists>v. eval_in env e r m = Ok v \<and> is_truthy v)"
proof -
  have "r \<in> set xs \<and> (\<exists>v. eval_in env e r m = Ok v \<and> is_truthy v)"
    if "res_filter (\<lambda>r. res_bind (eval_in env e r m) (\<lambda>v. Ok (is_truthy v))) xs = Ok ys" "r \<in> set ys" for xs ys
    using that by (induction xs arbitrary: ys) (auto simp: res_bind_Ok_iff split: if_splits)
  then show ?thesis using assms by (simp add: filter_rows_def)
qed

lemma and_truthy:
  assumes "eval_in env (BinaryOp a OpAnd b) r m = Ok v" and "is_truthy v"
  shows "(\<exists>x. eval_in env a r m = Ok x \<and> is_truthy x) \<and> (\<exists>y. eval_in env b r m = Ok y \<and> is_truthy y)"
  using assms by (auto simp: eval_binary_def eval_and_def res_bind_Ok_iff split: if_splits)

lemma policies_truthy:
  assumes "fold add_policy es w = Some e" and "eval_in env e r m = Ok v" and "is_truthy v"
  shows "(\<forall>p \<in> set es. \<exists>x. eval_in env p r m = Ok x \<and> is_truthy x) \<and> (\<forall>c. w = Some c \<longrightarrow> (\<exists>x. eval_in env c r m = Ok x \<and> is_truthy x))"
  using assms
proof (induction es arbitrary: w)
  case (Cons p es)
  then show ?case
  proof (cases w)
    case None
    then show ?thesis using Cons.IH [of "Some p"] Cons.prems by (simp add: add_policy_def)
  next
    case (Some c)
    then have "\<exists>x. eval_in env (BinaryOp c OpAnd p) r m = Ok x \<and> is_truthy x" "\<forall>p \<in> set es. \<exists>x. eval_in env p r m = Ok x \<and> is_truthy x"
      using Cons.IH [of "Some (BinaryOp c OpAnd p)"] Cons.prems by (simp_all add: add_policy_def del: eval_expr.simps)
    then show ?thesis using and_truthy [of env c p r m] Some by (auto simp del: eval_expr.simps)
  qed
qed simp

lemma fold_policy_some: "es \<noteq> [] \<Longrightarrow> \<exists>e. fold add_policy es w = Some e"
proof -
  have "fold add_policy es (Some x) \<noteq> None" for es :: "'a expr list" and x by (induction es arbitrary: x) (auto simp: add_policy_def)
  then show "es \<noteq> [] \<Longrightarrow> ?thesis" by (cases es) (auto simp: add_policy_def)
qed

lemma source_rows_policies:
  assumes "source_rows env s = Ok (rows, names, m)" and "sel_from s = Some f" and "t \<in> set (collect_base_tables f)"
    and "p \<in> set (table_policies env t)" and "r \<in> set rows"
  shows "\<exists>v. eval_in env p r m = Ok v \<and> is_truthy v"
proof -
  let ?es = "concat (map (table_policies env) (collect_base_tables f))"
  obtain rows0 w where *: "filter_rows env (add_policies env (Some f) w) m rows0 = Ok rows"
    using assms(1,2) by (auto simp: source_rows_def res_bind_Ok_iff Let_def)
  have p: "p \<in> set ?es" using assms(3,4) by auto
  then have "?es \<noteq> []" by (metis empty_iff list.set(1))
  then obtain e where e: "fold add_policy ?es w = Some e" using fold_policy_some by blast
  then obtain v where "eval_in env e r m = Ok v" "is_truthy v"
    using filter_rows_truthy [of env e m rows0 rows r] assms(5) * by (auto simp: add_policies_def)
  then show ?thesis using policies_truthy [OF e] p by blast
qed

lemma flatten_base_tables: "set (concat (map collect_base_tables (fst (flatten_inner_joins f)))) = set (collect_base_tables f)"
  by (induction f) (auto split: prod.splits)

lemma left_deep_base_tables: "collect_base_tables (left_deep acc ts on) = collect_base_tables acc @ concat (map collect_base_tables ts)"
  by (induction acc ts on rule: left_deep.induct) auto

lemma reorder_base_tables:
  assumes "\<And>ts order. join_order env ts = Some order \<Longrightarrow> set order = {..<length ts}"
  shows "set (collect_base_tables (reorder_joins env f)) = set (collect_base_tables f)"
proof (cases "reorder_joins env f = f")
  case False
  then obtain order t ts on where o: "join_order env (fst (flatten_inner_joins f)) = Some order"
    "map ((!) (fst (flatten_inner_joins f))) order = t # ts" "reorder_joins env f = left_deep t ts on"
    by (auto simp: reorder_joins_def split: from_clause.splits if_splits prod.splits option.splits list.splits)
  have "set (t # ts) = set (fst (flatten_inner_joins f))"
    unfolding o(2) [symmetric] using assms [OF o(1)] by (simp add: lessThan_atLeast0 nth_image)
  then have "set (concat (map collect_base_tables (t # ts))) = set (collect_base_tables f)"
    unfolding flatten_base_tables [symmetric] by (simp only: set_concat set_map)
  then show ?thesis by (simp add: o(3) left_deep_base_tables)
qed simp

lemma lowercase_key_short:
  assumes "length name \<le> 128"
  shows "lowercase_key env name = to_ascii_lowercase name"
proof -
  have "\<not> has_upper name \<Longrightarrow> to_ascii_lowercase name = name"
    by (simp add: has_upper_def to_ascii_lowercase_def list_ex_iff map_idI)
  then show ?thesis using assms by (simp add: lowercase_key_def)
qed

lemma protected_is_rls_on:
  assumes "p \<in> set (table_policies env name)" and "length name \<le> 128"
  shows "rls_on env name"
  using assms lowercase_key_short [of name env]
  by (cases "schema_tables env (to_ascii_lowercase name)") (auto simp: rls_on_def get_table_def table_policies_def split: if_splits)

text \<open>
  C13: row-level security cannot be bypassed by the form of a statement: a \<^verbatim>\<open>SELECT\<close> over a protected table never takes the counting shortcut, and every row that reaches sorting,
  grouping or projection satisfies each applicable policy of every table in the \<^verbatim>\<open>FROM\<close> clause, joins included, whatever the condition of the statement, the join order
  and the scan that supplied the rows.
\<close>

theorem policies_hold_for_source_rows:
  assumes "exec_select_stmt env s = Ok res" and "sel_ctes s = []" and "sel_from s = Some f"
    and "\<And>ts order. join_order env ts = Some order \<Longrightarrow> set order = {..<length ts}"
    and "t \<in> set (collect_base_tables f)" and "length t \<le> 128" and "p \<in> set (table_policies env t)"
  shows "\<exists>rows names m. source_rows env (with_join_order env s) = Ok (rows, names, m) \<and>
     finish_select env (with_join_order env s) (rows, names, m) = Ok res \<and>
     (\<forall>r \<in> set rows. \<exists>v. eval_in env p r m = Ok v \<and> is_truthy v)"
proof -
  let ?s = "with_join_order env s"
  have from_clause: "sel_from ?s = Some (reorder_joins env f)" using assms(3) by (cases s) (simp add: with_join_order_def)
  have t: "t \<in> set (collect_base_tables (reorder_joins env f))" using reorder_base_tables [OF assms(4)] assms(5) by simp
  have "rls_on env t" using protected_is_rls_on assms(6,7) by blast
  then have "res_bind (source_rows env ?s) (finish_select env ?s) = Ok res"
    using assms(1,2) from_clause t by (auto simp: exec_select_stmt_def Let_def split: bool.splits from_clause.splits)
  then obtain rows names m where "source_rows env ?s = Ok (rows, names, m)" "finish_select env ?s (rows, names, m) = Ok res"
    by (auto simp: res_bind_Ok_iff)
  then show ?thesis using source_rows_policies [OF _ from_clause t assms(7)] by blast
qed

theorem policies_hold_for_source_rows_witness:
  "\<exists>rows names m. source_rows (sample_db [x_is_one]) (from_t False [] None None) = Ok (rows, names, m) \<and>
     finish_select (sample_db [x_is_one]) (from_t False [] None None) (rows, names, m) = Ok ([''x''], [[Integer 1], [Integer 1]]) \<and>
     (\<forall>r \<in> set rows. \<exists>v. eval_in (sample_db [x_is_one]) x_is_one r m = Ok v \<and> is_truthy v)"
proof -
  let ?env = "sample_db [x_is_one]" and ?s = "from_t False [] None None"
  have "table_policies ?env ''t'' = [x_is_one]" by (rule sample_policies)
  moreover from this have "exec_select_stmt ?env ?s = Ok ([''x''], [[Integer 1], [Integer 1]])"
    by (simp add: sample_exec sample_scan source_rows_def scan_from_def limit_pushdown_def sample_map res_option_def add_policies_def
        add_policy_def filter_rows_def sample_rows_def sample_eval finish_select_def sort_source_def result_rows_def has_aggregate_def
        sample_project sort_output_def cut_rows_def bool_value_def del: eval_expr.simps eval_from.simps)
  moreover have "join_order ?env ts = None" for ts by (simp add: sample_defs sample_vm_def)
  ultimately show ?thesis
    using policies_hold_for_source_rows [of ?env ?s _ "FromTable ''t'' None" "''t''" x_is_one] by (simp add: sample_scan)
qed

section \<open>Order\<close>

text \<open>
  C18: \<^verbatim>\<open>ORDER BY\<close> with a limit, which sorts only the rows the limit needs, returns rows whose sort keys are, position by position, those of the first rows of the full stable
  sort, and never a row twice, if the sort columns are comparable (no NaN, no mixture of integers and real numbers) and selection by position behaves as documented.
\<close>

theorem sorted_with_limit:
  assumes "pre_sort s" and "top_n_limit env s = Ok (Some k)"
    and "with_keys (\<lambda>r. map (\<lambda>i. eval_in env (order_expr i) r m) (order_by s)) rows = Ok keyed"
    and "set keyed \<subseteq> sortable_keys kinds"
    and "keyed.selects (sort_params s) (select_nth env) keyed"
  shows "\<exists>out. sort_source env s m rows = Ok (map snd out) \<and> mset out \<subseteq># mset keyed \<and>
    list_all2 (\<lambda>a b. compare_keyed (sort_params s) a b = Equal) out (take k (sort_by (compare_keyed (sort_params s)) keyed))"
  using assms keyed.top_n_is_prefix [OF assms(4,5), of k] by (auto simp: sort_source_def)

theorem sorted_with_limit_witness:
  "\<exists>out. sort_source (sample_db []) (from_t False [by_x] (Some (IntegerLiteral 2)) None) [''x'' \<mapsto> 0, ''t.x'' \<mapsto> 0] sample_rows = Ok (map snd out) \<and>
     mset out \<subseteq># mset (map (\<lambda>r. (r, r)) sample_rows) \<and>
     list_all2 (\<lambda>a b. compare_keyed [(True, None)] a b = Equal) out (take 2 (sort_by (compare_keyed [(True, None)]) (map (\<lambda>r. (r, r)) sample_rows)))"
proof -
  let ?env = "sample_db []" and ?s = "from_t False [by_x] (Some (IntegerLiteral 2)) None" and ?keyed = "map (\<lambda>r. (r, r)) sample_rows"
  have s: "pre_sort ?s" "sort_params ?s = [(True, None)]" by (simp_all add: sort_params_def by_x_def)
  have k: "set ?keyed \<subseteq> sortable_keys [ExactColumn]" by (auto simp: sortable_keys_def sample_rows_def)
  have "keyed.selects (sort_params ?s) (select_nth ?env) ?keyed" using keyed.selects_sort_by [OF k, of "sort_params ?s"] by (simp add: sample_db_def sample_vm_def)
  moreover have "with_keys (\<lambda>r. map (\<lambda>i. eval_in ?env (order_expr i) r [''x'' \<mapsto> 0, ''t.x'' \<mapsto> 0]) (order_by ?s)) sample_rows = Ok ?keyed"
    by (simp add: with_keys_def by_x_def sample_rows_def sample_eval or_null_def del: eval_expr.simps)
  moreover have "top_n_limit ?env ?s = Ok (Some 2)"
    by (simp add: top_n_limit_def limit_of_def res_option_def saturating_add_usize_def USIZE_MAX_def)
  ultimately show ?thesis using sorted_with_limit [OF s(1) _ _ k, of ?env 2 "[''x'' \<mapsto> 0, ''t.x'' \<mapsto> 0]" sample_rows] unfolding s(2) by blast
qed

text \<open>Without a limit the rows are sorted, stably.\<close>

lemma sorted_without_limit:
  assumes "pre_sort s" and "sel_limit s = None"
    and "with_keys (\<lambda>r. map (\<lambda>i. eval_in env (order_expr i) r m) (order_by s)) rows = Ok keyed"
    and "set keyed \<subseteq> sortable_keys kinds"
  shows "\<exists>out. sort_source env s m rows = Ok (map snd out) \<and> mset out = mset keyed \<and>
    sorted_wrt (\<lambda>a b. compare_keyed (sort_params s) a b \<noteq> Greater) out \<and>
    (\<forall>p \<in> sortable_keys kinds. filter (\<lambda>x. compare_keyed (sort_params s) p x = Equal) out =
       filter (\<lambda>x. compare_keyed (sort_params s) p x = Equal) keyed)"
proof -
  let ?cmp = "compare_keyed (sort_params s)"
  have "sort_source env s m rows = Ok (map snd (sort_by ?cmp keyed))"
    using assms(1-3) by (simp add: sort_source_def top_n_limit_def top_n_sort_def)
  then show ?thesis using keyed.mset_sort_by keyed.sorted_sort_by [OF assms(4)] keyed.stable_sort_by [OF _ assms(4)] by blast
qed

section \<open>The limit in the scan\<close>

lemma all_ok_take: "all_ok xs = Ok ys \<Longrightarrow> all_ok (take n xs) = Ok (take n ys)"
  by (induction xs arbitrary: n ys) (auto simp: res_bind_Ok_iff take_Cons split: nat.splits)

lemma all_ok_length: "all_ok xs = Ok ys \<Longrightarrow> length ys = length xs"
  by (induction xs arbitrary: ys) (auto simp: res_bind_Ok_iff)

lemma project_columns_take:
  assumes "project_columns env cols rows names m = Ok (out_names, out)"
  shows "project_columns env cols (take n rows) names m = Ok (out_names, take n out) \<and> length out = length rows"
  using assms
  by (auto simp: project_columns_def Let_def res_bind_Ok_iff take_map all_ok_length dest: all_ok_take [where n = n] split: if_splits)

lemma cut_take:
  assumes "length rows \<le> USIZE_MAX"
  shows "apply_limit l (apply_offset off (take (saturating_add_usize (case l of None \<Rightarrow> USIZE_MAX | Some n \<Rightarrow> n) off) rows)) = apply_limit l (apply_offset off rows)"
  using assms
  by (cases l) (auto simp: apply_limit_def apply_offset_def saturating_add_usize_def drop_take min_def)

lemma apply_offset_0 [simp]: "apply_offset 0 rows = rows"
  by (simp add: apply_offset_def)

lemma count_star_aggregates: "is_count_star s \<Longrightarrow> has_aggregate (sel_columns s)"
proof -
  have "to_ascii_uppercase ''count'' = ''COUNT''" by code_simp
  then show "is_count_star s \<Longrightarrow> has_aggregate (sel_columns s)"
    by (auto simp: is_count_star_def has_aggregate_def is_aggregate_name_def eq_ignore_ascii_case_def
        split: list.splits select_column.splits expr.splits)
qed

lemma finish_limited:
  assumes "limit_pushdown s" and "sel_limit s = Some e" and "eval_const env e = Ok v" and "length rows \<le> USIZE_MAX"
    and "res_option (eval_const env) (sel_offset s) = Ok o'"
    and "finish_select env s (rows, names, m) = Ok res"
  shows "finish_select env s (take (saturating_add_usize (case limit_of v of None \<Rightarrow> USIZE_MAX | Some n \<Rightarrow> n) (case o' of None \<Rightarrow> 0 | Some w \<Rightarrow> offset_of w)) rows,
    names, m) = Ok res"
proof -
  obtain out_names out where p: "project_columns env (sel_columns s) rows names m = Ok (out_names, out)"
    and res: "res = (out_names, apply_limit (limit_of v) (apply_offset (case o' of None \<Rightarrow> 0 | Some w \<Rightarrow> offset_of w) out))"
    using assms
    by (cases o') (auto simp: finish_select_def limit_pushdown_def sort_source_def pre_sort_def result_rows_def sort_output_def
        cut_rows_def res_bind_Ok_iff res_option_def Let_def)
  note taken = project_columns_take [OF p]
  then have "length out \<le> USIZE_MAX" using assms(4) by simp
  from cut_take [OF this, of "limit_of v" "case o' of None \<Rightarrow> 0 | Some w \<Rightarrow> offset_of w"] show ?thesis using assms(1,2,3,5) taken res
    by (cases o') (auto simp: finish_select_def limit_pushdown_def sort_source_def pre_sort_def result_rows_def sort_output_def
        cut_rows_def res_bind_Ok_iff res_option_def Let_def)
qed

text \<open>
  C19: the limit pushed into the scan does not change a result: for a stored table without policies, if projecting all its rows and cutting the result succeeds, executing the statement,
  which reads only as many rows as limit and offset need, returns the same. The sum of limit and offset saturates, which no table that fits in memory can notice.
\<close>

theorem limit_pushdown_sound:
  assumes "limit_pushdown s" and "sel_ctes s = []" and "sel_from s = Some (FromTable name a)"
    and "length name \<le> 128" and "get_table env name = Ok t" and "\<not> rls_enabled t"
    and "\<And>n. scan_limited env name (table_root t) n = Ok (take n rows)" and "length rows \<le> USIZE_MAX"
    and "finish_select env s (rows, col_names t, statement_col_map env (sel_from s) (col_names t)) = Ok res"
  shows "exec_select_stmt env s = Ok res"
proof -
  have s: "with_join_order env s = s" using assms(3) by (cases s) (simp add: with_join_order_def reorder_joins_def)
  have t: "schema_tables env (to_ascii_lowercase name) = Some t"
    using assms(4,5) by (auto simp: get_table_def lowercase_key_short split: option.splits)
  then have open_table: "rls_on env name = False" "table_policies env name = []" using assms(5,6) by (auto simp: rls_on_def table_policies_def)
  obtain e where e: "sel_limit s = Some e" using assms(1) by (auto simp: limit_pushdown_def)
  obtain v o' where v: "eval_const env e = Ok v" "res_option (eval_const env) (sel_offset s) = Ok o'"
    using assms(9) e by (auto simp: finish_select_def cut_rows_def res_bind_Ok_iff res_option_def Let_def split: option.splits)
  have "res_bind (source_rows env s) (finish_select env s) = Ok res"
    using finish_limited [OF assms(1) e v(1) assms(8) v(2) assms(9)] assms(1,3,5,7) open_table e v
    by (auto simp: source_rows_def scan_from_def limited_scan_def limit_pushdown_def add_policies_def filter_rows_def res_option_def Let_def
        split del: option.split)
  moreover have "\<not> is_count_star s" using assms(1) count_star_aggregates by (auto simp: limit_pushdown_def)
  ultimately show ?thesis using assms(2) s by (simp add: exec_select_stmt_def)
qed

theorem limit_pushdown_sound_witness:
  "exec_select_stmt (sample_db []) (from_t False [] (Some (IntegerLiteral 1)) (Some (IntegerLiteral 1))) = Ok ([''x''], [[Integer 1]])"
proof -
  let ?env = "sample_db []" and ?s = "from_t False [] (Some (IntegerLiteral 1)) (Some (IntegerLiteral 1))"
  have "limit_pushdown ?s" by (simp add: limit_pushdown_def has_aggregate_def)
  moreover have "get_table ?env ''t'' = Ok (sample_table [])" by (simp add: get_table_def sample_names sample_db_def)
  moreover have "scan_limited ?env ''t'' r n = Ok (take n sample_rows)" for r n by (simp add: sample_db_def)
  moreover have "length sample_rows \<le> USIZE_MAX" by (simp add: sample_rows_def USIZE_MAX_def)
  moreover have "finish_select ?env ?s (sample_rows, [''x''], m) = Ok ([''x''], [[Integer 1]])" for m
    by (simp add: finish_select_def sort_source_def result_rows_def has_aggregate_def sample_project sort_output_def cut_rows_def res_option_def
        apply_offset_def apply_limit_def offset_of_def limit_of_def sample_rows_def)
  ultimately show ?thesis using limit_pushdown_sound [of ?s "''t''" None ?env "sample_table []" sample_rows] by (simp add: sample_table_def)
qed

section \<open>Subqueries executed in advance\<close>

fun in_queries :: "'q expr \<Rightarrow> 'q list" where
  "in_queries (InSubquery e q _) = [q]"
| "in_queries (BinaryOp l _ r) = in_queries l @ in_queries r"
| "in_queries (UnaryOp _ e) = in_queries e"
| "in_queries (Nested e) = in_queries e"
| "in_queries _ = []"

lemma eval_rewritten_item: "(\<And>b. v \<noteq> Blob b) \<Longrightarrow> eval_in env (rewritten_item v) row m = Ok v"
  by (cases v) (auto simp: rewritten_item_def)

text \<open>
  C20: executing a membership subquery once, before the rows are filtered, does not change a condition: if the subqueries that are found uncorrelated return the same rows
  in every scope, and no BLOBs, then the rewriting succeeds and the rewritten condition has the same value, or the same error, for every row.
\<close>

theorem rewrite_preserves_evaluation:
  assumes "\<And>q. q \<in> set (in_queries e) \<Longrightarrow> \<not> subquery_references_outer env q cols \<Longrightarrow>
    \<exists>names rows. (\<forall>scopes. select_query env (cte_cache env) scopes q = Ok (Some (names, rows))) \<and> (\<forall>b. Blob b \<notin> set (first_column rows))"
  shows "\<exists>e'. rewrite_uncorrelated_subqueries env cols e = Ok e' \<and> (\<forall>row m. eval_in env e' row m = eval_in env e row m)"
  using assms
proof (induction env cols e rule: rewrite_uncorrelated_subqueries.induct)
  case (1 env cols e q negated)
  show ?case
  proof (cases "subquery_references_outer env q cols")
    case False
    then obtain names rows where q: "\<And>scopes. select_query env (cte_cache env) scopes q = Ok (Some (names, rows))" "\<And>b. Blob b \<notin> set (first_column rows)"
      using 1 by auto
    have items: "map (\<lambda>i. eval_in env i row m) (map rewritten_item (first_column rows)) = map Ok (first_column rows)" for row m
      using q(2) by (auto intro!: eval_rewritten_item)
    have "eval_in env (InList e (map rewritten_item (first_column rows)) negated) row m = eval_in env (InSubquery e q negated) row m" for row m
      unfolding eval_expr.simps items using q(1) by (auto simp: subquery_rows_def expr_env_def eval_in_list_def intro!: arg_cong2 [where f = res_bind])
    then show ?thesis using q(1) False by (auto simp: query_or_empty_def)
  qed simp
qed fastforce+

theorem rewrite_preserves_evaluation_witness:
  "\<exists>e'. rewrite_uncorrelated_subqueries sample_vm [''x''] (InSubquery (ColumnRef None ''x'') () False) = Ok e' \<and>
     (\<forall>row m. eval_in sample_vm e' row m = eval_in sample_vm (InSubquery (ColumnRef None ''x'') () False) row m)"
  by (rule rewrite_preserves_evaluation) (auto simp: sample_vm_def first_column_def)

section \<open>Where a shortcut changes the result\<close>

text \<open>
  with \<^verbatim>\<open>ORDER BY\<close> the limit is applied before duplicates are removed: \<^verbatim>\<open>SELECT DISTINCT x FROM t ORDER BY x\<close> returns 1 and 2 for a column with the values
  2, 1, 1, but with \<^verbatim>\<open>LIMIT 2\<close> the same statement returns only 1.
\<close>

lemma distinct_after_limit:
  "exec_select_stmt (sample_db []) (from_t True [by_x] None None) = Ok ([''x''], [[Integer 1], [Integer 2]]) \<and>
   exec_select_stmt (sample_db []) (from_t True [by_x] (Some (IntegerLiteral 2)) None) = Ok ([''x''], [[Integer 1]])"
proof -
  let ?m = "[''x'' \<mapsto> 0, ''t.x'' \<mapsto> 0]"
  have rows: "source_rows (sample_db []) (from_t True [by_x] l None) = Ok (sample_rows, [''x''], ?m)" for l
    by (simp add: source_rows_def scan_from_def limit_pushdown_def sample_scan sample_map res_option_def add_policies_def sample_policies filter_rows_def
        del: eval_from.simps)
  let ?keyed = "map (\<lambda>r. (r, r)) sample_rows" and ?sorted = "map (\<lambda>r. (r, r)) [[Integer 1], [Integer 1], [Integer 2]]"
  have keys: "with_keys (\<lambda>r. map (\<lambda>i. eval_in (sample_db []) (order_expr i) r ?m) [by_x]) sample_rows = Ok ?keyed"
    by (simp add: with_keys_def sample_rows_def sample_eval or_null_def by_x_def del: eval_expr.simps)
  have params: "sort_params (from_t True [by_x] l None) = [(True, None)]" for l by (simp add: sort_params_def by_x_def)
  have order: "compare_keyed [(True, None)] ([Integer i], r) ([Integer j], r') = i64_cmp i j" for i j r r'
    by (simp add: compare_keyed_def compare_value_pair_def first_or_null_def i64_cmp_def int_cmp_def)
  have cmp: "i64_cmp 2 1 = Greater" "i64_cmp 1 1 = Equal" by (simp_all add: i64_cmp_def int_cmp_def)
  have sorted: "sort_by (compare_keyed [(True, None)]) ?keyed = ?sorted" "sort_by (compare_keyed [(True, None)]) (take 2 ?sorted) = take 2 ?sorted"
    by (simp_all add: sort_by_def sample_rows_def order cmp)
  have keys_differ: "typed_row_key [Integer 1] \<noteq> typed_row_key [Integer 2]" by code_simp
  have limits: "top_n_limit (sample_db []) (from_t True [by_x] None None) = Ok None"
    "top_n_limit (sample_db []) (from_t True [by_x] (Some (IntegerLiteral 2)) None) = Ok (Some 2)"
    by (simp_all add: top_n_limit_def limit_of_def res_option_def saturating_add_usize_def USIZE_MAX_def)
  have top: "top_n_sort (select_nth (sample_db [])) (compare_keyed [(True, None)]) None ?keyed = ?sorted"
    "top_n_sort (select_nth (sample_db [])) (compare_keyed [(True, None)]) (Some 2) ?keyed = take 2 ?sorted"
    using sorted by (simp_all add: top_n_sort_def sample_db_def sample_vm_def) (simp_all add: sample_rows_def)
  have finish: "finish_select (sample_db []) (from_t True [by_x] l None) (sample_rows, [''x''], ?m) =
      res_bind (cut_rows (sample_db []) (from_t True [by_x] l None)
        (distinct_rows (map snd (top_n_sort (select_nth (sample_db [])) (compare_keyed [(True, None)]) lim ?keyed)))) (\<lambda>out. Ok ([''x''], out))"
    if "top_n_limit (sample_db []) (from_t True [by_x] l None) = Ok lim" for l lim
    using that keys by (simp add: finish_select_def sort_source_def params result_rows_def has_aggregate_def sample_project sort_output_def Let_def
        del: list.map)
  show ?thesis
    unfolding sample_exec rows res_bind.simps finish [OF limits(1)] finish [OF limits(2)] top
    using keys_differ by (simp add: distinct_rows_def cut_rows_def res_option_def apply_limit_def limit_of_def)
qed

text \<open>The counting shortcut looks only into the catalogue: counting the rows of a common table expression fails.\<close>

lemma count_ignores_ctes:
  assumes "is_count_star s" and "sel_from s = Some (FromTable name a)" and "eval_ctes env (sel_ctes s) = Ok env'"
    and "schema_tables env' (lowercase_key env' name) = None"
  shows "exec_select_stmt env s = Err (TableNotFound name)"
proof -
  have "is_count_star (with_join_order env' s)" "sel_from (with_join_order env' s) = Some (FromTable name a)"
    using assms(1,2) by (cases s; simp add: with_join_order_def is_count_star_def reorder_joins_def)+
  then show ?thesis using assms(3,4) by (simp add: exec_select_stmt_def count_fast_path_def rls_on_def get_table_def)
qed

end
