(* ===== verification/GroupLaws.thy ===== *)
theory GroupLaws
  imports SetOpLaws SelectGroup
begin

text \<open>
  Grouping and aggregation: \<^verbatim>\<open>GROUP BY\<close> partitions the rows by the values of the grouping expressions and keeps their order, the aggregate functions compute what they
  are called on columns of integers, and the evaluator of groups agrees with that of rows where there is no aggregate.
\<close>

section \<open>Groups\<close>

text \<open>The groups as a definition of them: one for each key, in the order of first occurrence, with all rows of that key.\<close>

definition groups_spec :: "('k \<times> 'a) list \<Rightarrow> ('k \<times> 'a list) list" where
  "groups_spec keyed = map (\<lambda>k. (k, map snd (filter (\<lambda>p. fst p = k) keyed))) (distinct_by id {} (map fst keyed))"

lemma distinct_by_snoc: "distinct_by f seen (xs @ [x]) = distinct_by f seen xs @ (if f x \<in> seen \<or> f x \<in> f ` set xs then [] else [x])"
  by (induction xs arbitrary: seen) auto

lemma add_to_group_map:
  "distinct ks \<Longrightarrow> add_to_group k r (map (\<lambda>x. (x, g x)) ks) =
    (if k \<in> set ks then map (\<lambda>x. (x, if x = k then g x @ [r] else g x)) ks else map (\<lambda>x. (x, g x)) ks @ [(k, [r])])"
  by (induction ks) auto

lemma distinct_distinct_by: "distinct (distinct_by id seen xs) \<and> set (distinct_by id seen xs) = set xs - seen"
  by (induction xs arbitrary: seen) auto

lemma group_rows_spec: "group_rows keyed = groups_spec keyed"
proof (induction keyed rule: rev_induct)
  case (snoc p keyed)
  obtain k r where p: "p = (k, r)" by (cases p)
  have "group_rows (keyed @ [p]) = add_to_group k r (groups_spec keyed)" using snoc by (simp add: group_rows_def p)
  also have "\<dots> = groups_spec (keyed @ [p])"
    using distinct_distinct_by [of "{}" "map fst keyed"]
    by (auto simp: groups_spec_def add_to_group_map distinct_by_snoc p image_iff filter_empty_conv)
  finally show ?case .
qed (simp add: group_rows_def groups_spec_def)

section \<open>Keys of groups\<close>

text \<open>Values whose keys are exact and have no zero byte: no real numbers, and no texts with a NUL.\<close>

definition plain_key :: "value \<Rightarrow> bool" where
  "plain_key v \<longleftrightarrow> exact_key v \<and> (\<forall>t. v = Text t \<longrightarrow> 0 \<notin> set t)"

lemma ascii_no_nul: "CHR 0x00 \<notin> set s \<Longrightarrow> 0 \<notin> set (ascii s)"
proof -
  have "(word_of_nat (of_char c) :: u8) = 0 \<Longrightarrow> c = CHR 0x00" for c
    using ascii_inj [of "[c]" "[CHR 0x00]"] by (simp add: ascii_def)
  then show "CHR 0x00 \<notin> set s \<Longrightarrow> 0 \<notin> set (ascii s)" by (force simp: ascii_def)
qed

lemma digit_no_nul: "d < 16 \<Longrightarrow> digit_char d \<noteq> CHR 0x00"
  by (auto simp: digit_char_def char_of_eq_iff take_bit_eq_mod)

lemma show_nat_no_nul: "CHR 0x00 \<notin> set (show_nat n)"
proof (induction n rule: show_nat.induct)
  case (1 n)
  have "digit_char (n mod 10) \<noteq> CHR 0x00" "n < 10 \<Longrightarrow> digit_char n \<noteq> CHR 0x00" by (rule digit_no_nul; simp)+
  then show ?case using 1 by (subst show_nat.simps) (auto dest: sym)
qed

lemma typed_key_no_nul: "plain_key v \<Longrightarrow> 0 \<notin> set (typed_key v)"
proof -
  have "CHR 0x00 \<notin> set (show_int i)" for i using show_nat_no_nul by (auto simp: show_int_def)
  moreover have "CHR 0x00 \<notin> set (hex_encode b)" for b
  proof -
    have "unat x div 16 < 16" for x :: u8 using unsigned_less [of x, where ?'a = nat] by (simp add: less_mult_imp_div_less)
    then have "digit_char (unat x div 16) \<noteq> CHR 0x00" "digit_char (unat x mod 16) \<noteq> CHR 0x00" for x :: u8 using digit_no_nul by simp_all
    then show ?thesis by (auto simp: hex_encode_def show_hex2_def) metis+
  qed
  ultimately show "plain_key v \<Longrightarrow> 0 \<notin> set (typed_key v)"
    by (cases v) (auto simp: typed_key_def plain_key_def exact_key_def dest!: ascii_no_nul intro!: ascii_no_nul)
qed

lemma typed_key_inj: "plain_key v \<Longrightarrow> plain_key w \<Longrightarrow> typed_key v = typed_key w \<Longrightarrow> v = w"
  by (cases v; cases w) (auto simp: typed_key_def plain_key_def exact_key_def ascii_simps ascii_inj show_int_inj hex_encode_inj)

lemma split_at_nul: "0 \<notin> set a \<Longrightarrow> 0 \<notin> set b \<Longrightarrow> a @ 0 # x = b @ 0 # y \<Longrightarrow> a = b \<and> x = y" for a b :: bytes
  by (induction a arbitrary: b) (auto simp: Cons_eq_append_conv)

lemma typed_row_key_inj: "list_all plain_key r \<Longrightarrow> list_all plain_key s \<Longrightarrow> typed_row_key r = typed_row_key s \<Longrightarrow> r = s"
proof (induction r arbitrary: s)
  case Nil
  then show ?case by (cases s) (simp_all add: typed_row_key_def)
next
  case (Cons v r)
  obtain w s' where s: "s = w # s'" using Cons.prems(3) by (cases s) (simp_all add: typed_row_key_def)
  then have "typed_key v @ 0 # typed_row_key r = typed_key w @ 0 # typed_row_key s'" using Cons.prems(3) by (simp add: typed_row_key_def)
  then have "typed_key v = typed_key w" "typed_row_key r = typed_row_key s'"
    using split_at_nul [OF typed_key_no_nul typed_key_no_nul] Cons.prems(1,2) s by auto
  then show ?case using Cons typed_key_inj s by auto
qed

lemma distinct_by_image:
  assumes "inj_on key (S \<union> set xs)"
  shows "distinct_by id (key ` S) (map key xs) = map key (distinct_by id S xs)"
  using assms
proof (induction xs arbitrary: S)
  case (Cons x xs)
  have "key x \<in> key ` S \<longleftrightarrow> x \<in> S" using Cons.prems by (auto simp: inj_on_def)
  moreover have "inj_on key (insert x S \<union> set xs)" using Cons.prems by (simp add: Un_commute Un_left_commute insert_commute)
  ultimately show ?case using Cons.IH [of S] Cons.IH [of "insert x S"] Cons.prems by (auto simp: inj_on_Un)
qed simp

text \<open>
  C16: \<^verbatim>\<open>GROUP BY\<close> groups by value: with grouping values that are integers, NULLs, BLOBs or texts without NUL, there is one group for each list of values that occurs, in the order of
  first occurrence, its rows are exactly those with these values, in their order, and the result is what the condition and the projection make of each group.
\<close>

theorem group_by_groups_by_value:
  assumes "\<And>r. r \<in> set rows \<Longrightarrow> all_ok (map (\<lambda>e. eval_in env e r m) (map (resolve_group_expr cols) exprs)) = Ok (g r)"
    and "\<And>r. r \<in> set rows \<Longrightarrow> list_all plain_key (g r)"
  shows "apply_group_by env rows exprs cols names m having =
    (let plan = plan_columns names m cols in
     res_bind (all_ok (map (\<lambda>vs. group_output env (map snd plan) m having (filter (\<lambda>r. g r = vs) rows)) (distinct_by id {} (map g rows)))) (\<lambda>outs.
       Ok (map fst plan, concat (map (\<lambda>o'. case o' of None \<Rightarrow> [] | Some r \<Rightarrow> [r]) outs))))"
proof -
  let ?key = "\<lambda>r. typed_row_key (g r)"
  have inj: "inj_on typed_row_key (set (map g rows))" using assms(2) by (auto intro!: inj_onI typed_row_key_inj)
  have keyed: "all_ok (map (\<lambda>r. res_bind (group_key env (map (resolve_group_expr cols) exprs) m r) (\<lambda>k. Ok (k, r))) rows) = Ok (map (\<lambda>r. (?key r, r)) rows)"
    using assms(1) by (intro all_ok_Ok) (simp add: group_key_def)
  have "groups_spec (map (\<lambda>r. (?key r, r)) rows) = map (\<lambda>vs. (typed_row_key vs, filter (\<lambda>r. g r = vs) rows)) (distinct_by id {} (map g rows))"
  proof -
    have "distinct_by id {} (map ?key rows) = map typed_row_key (distinct_by id {} (map g rows))"
      using distinct_by_image [of typed_row_key "{}" "map g rows"] inj by (simp add: comp_def)
    moreover have "map snd (filter (\<lambda>p. fst p = typed_row_key vs) (map (\<lambda>r. (?key r, r)) rows)) = filter (\<lambda>r. g r = vs) rows"
      if "vs \<in> set (distinct_by id {} (map g rows))" for vs
      using that distinct_distinct_by [of "{}" "map g rows"] inj by (auto simp: filter_map comp_def inj_on_def intro!: filter_cong)
    ultimately show ?thesis by (auto simp: groups_spec_def comp_def)
  qed
  then show ?thesis unfolding apply_group_by_def Let_def keyed res_bind.simps group_rows_spec by (simp add: comp_def)
qed

theorem group_by_groups_by_value_witness:
  "apply_group_by sample_vm [[Integer 2], [Null], [Integer 2]] [ColumnRef None ''x''] [SelectExpr (ColumnRef None ''x'') None, SelectExpr (FunctionCall ''COUNT'' [] False) None]
     [''x''] [''x'' \<mapsto> 0] None = Ok ([''x'', ''COUNT''], [[Integer 2, Integer 2], [Null, Integer 1]])"
proof -
  let ?cols = "[SelectExpr (ColumnRef None ''x'') None, SelectExpr (FunctionCall ''COUNT'' [] False) None]" and ?rows = "[[Integer 2], [Null], [Integer 2]]"
  have eval: "eval_in sample_vm (ColumnRef None ''x'') [v] [''x'' \<mapsto> 0] = Ok v" for v
    by (simp add: eval_column_def lookup_column_def column_of_def or_else_def to_ascii_lowercase_def ascii_lower_def)
  have resolve: "resolve_group_expr ?cols (ColumnRef None ''x'') = ColumnRef None ''x''" by (simp add: resolve_group_expr_def alias_map_def)
  have "all_ok (map (\<lambda>e. eval_in sample_vm e r [''x'' \<mapsto> 0]) (map (resolve_group_expr ?cols) [ColumnRef None ''x''])) = Ok (id r)" "list_all plain_key (id r)"
    if "r \<in> set ?rows" for r
    using that eval unfolding list.map resolve by (auto simp: plain_key_def exact_key_def simp del: eval_expr.simps)
  moreover have upper: "to_ascii_uppercase ''COUNT'' = ''COUNT''" by code_simp
  ultimately show ?thesis
    using group_by_groups_by_value [of ?rows sample_vm "[''x'' \<mapsto> 0]" ?cols "[ColumnRef None ''x'']" id "[''x'']" None] eval
    by (simp add: plan_columns_def plan_column_def expr_display_name_def group_output_def project_def is_aggregate_name_def eval_aggregate_def
        del: eval_expr.simps)
qed

section \<open>Aggregates of integer columns\<close>

abbreviation column_value :: "i64 option \<Rightarrow> value" where
  "column_value c \<equiv> (case c of None \<Rightarrow> Null | Some i \<Rightarrow> Integer i)"

fun column_ints :: "i64 option list \<Rightarrow> i64 list" where
  "column_ints [] = []"
| "column_ints (c # cs) = (case c of None \<Rightarrow> column_ints cs | Some i \<Rightarrow> i # column_ints cs)"

definition int_total :: "i64 list \<Rightarrow> int" where
  "int_total is = sum_list (map sint is)"

definition fits_i64 :: "int \<Rightarrow> bool" where
  "fits_i64 i \<longleftrightarrow> - (2 ^ 63) \<le> i \<and> i < 2 ^ 63"

lemma sint_word_of_int_fits: "fits_i64 i \<Longrightarrow> sint (word_of_int i :: i64) = i"
  by (simp add: fits_i64_def sint_sbintrunc' signed_take_bit_int_eq_self)

lemma sint_add_fits: "fits_i64 (sint a + sint b) \<Longrightarrow> sint (a + b) = sint a + sint b" for a b :: i64
  using sint_word_of_int_fits [of "sint a + sint b"] by simp

lemma sum_steps:
  assumes "\<And>n. fits_i64 (sint (int_sum s) + int_total (take n (column_ints os)))" and "is_int s"
  shows "fold sum_step (map column_value os) s =
    s\<lparr>int_sum := word_of_int (sint (int_sum s) + int_total (column_ints os)), has_value := has_value s \<or> column_ints os \<noteq> []\<rparr>"
  using assms
proof (induction os arbitrary: s)
  case (Cons c os)
  show ?case
  proof (cases c)
    case (Some i)
    have fits: "fits_i64 (sint (int_sum s) + sint i)" using Cons.prems(1) [of 1] Some by (simp add: int_total_def)
    let ?s = "s\<lparr>int_sum := word_of_int (sint (int_sum s) + sint i), has_value := True\<rparr>"
    have step: "sum_step (Integer i) s = ?s" using Cons.prems(2) fits by (simp add: sum_step_def checked_add_def fits_i64_def Let_def)
    have "fits_i64 (sint (int_sum ?s) + int_total (take n (column_ints os)))" for n
      using Cons.prems(1) [of "Suc n"] Some fits by (simp add: int_total_def sint_add_fits add.assoc)
    from Cons.IH [of ?s, OF this] show ?thesis using Some Cons.prems(2) step fits
      by (simp add: int_total_def sint_add_fits add.assoc)
  qed (use Cons in \<open>simp add: sum_step_def\<close>)
qed (simp add: int_total_def)

lemma extreme_steps:
  "fold (extreme_step ord) (map column_value os) (map_option Integer b) =
     map_option Integer (fold (\<lambda>i b. Some (case b of None \<Rightarrow> i | Some j \<Rightarrow> if i64_cmp i j = ord then i else j)) (column_ints os) b)"
proof (induction os arbitrary: b)
  case (Cons c os)
  show ?case
  proof (cases c)
    case (Some i)
    have "extreme_step ord (Integer i) (map_option Integer b) = map_option Integer (Some (case b of None \<Rightarrow> i | Some j \<Rightarrow> if i64_cmp i j = ord then i else j))"
      by (cases b) (auto simp: extreme_step_def)
    then show ?thesis using Some Cons [of "Some (case b of None \<Rightarrow> i | Some j \<Rightarrow> if i64_cmp i j = ord then i else j)"] by simp
  qed (use Cons in \<open>simp add: extreme_step_def\<close>)
qed simp

lemma extreme_fold:
  assumes "ord = Less \<or> ord = Greater"
  shows "\<exists>w \<in> insert j (set xs). fold (\<lambda>i b. Some (case b of None \<Rightarrow> i | Some j \<Rightarrow> if i64_cmp i j = ord then i else j)) xs (Some j) = Some w \<and>
    (\<forall>x \<in> insert j (set xs). if ord = Less then sint w \<le> sint x else sint x \<le> sint w)"
  using assms
proof (induction xs arbitrary: j)
  case (Cons i xs)
  have "i64_cmp i j = Less \<longleftrightarrow> sint i < sint j" "i64_cmp i j = Greater \<longleftrightarrow> sint j < sint i" by (auto simp: i64_cmp_def int_cmp_def)
  then show ?case using Cons.IH [of "if i64_cmp i j = ord then i else j"] Cons.prems by (auto split: if_splits)
qed simp

lemma extreme_of_ints:
  assumes "ord = Less \<or> ord = Greater" and "column_ints os \<noteq> []"
  shows "\<exists>w \<in> set (column_ints os). extreme_value ord (map column_value os) = Integer w \<and>
    (\<forall>x \<in> set (column_ints os). if ord = Less then sint w \<le> sint x else sint x \<le> sint w)"
proof -
  obtain i xs where ints: "column_ints os = i # xs" using assms(2) by (cases "column_ints os") auto
  show ?thesis using extreme_fold [OF assms(1), of i xs] extreme_steps [of ord os None] ints by (auto simp: extreme_value_def)
qed

lemma count_of_ints: "count_values False (map column_value os) = length (column_ints os)"
  by (induction os) (auto simp: count_values_def split: option.splits)

text \<open>
  C17: on a column of integers and NULLs the aggregate functions compute what they are called, NULLs left out: \<^verbatim>\<open>COUNT\<close> the number of integers, \<^verbatim>\<open>SUM\<close> their exact sum as long as the
  running total fits 64 bits, \<^verbatim>\<open>MIN\<close> and \<^verbatim>\<open>MAX\<close> a smallest and a largest of them; without any integer the last three are NULL.
\<close>

theorem aggregates_of_integer_columns:
  assumes "all_ok (map (\<lambda>r. eval_in env e r m) rows) = Ok (map column_value os)" and "e \<noteq> IntegerLiteral 1"
    and "\<And>n. fits_i64 (int_total (take n (column_ints os)))"
  shows "eval_aggregate env ''COUNT'' [e] False rows m = Ok (Integer (word_of_nat (length (column_ints os)))) \<and>
    (if column_ints os = []
     then (\<forall>f \<in> {''SUM'', ''MIN'', ''MAX''}. eval_aggregate env f [e] False rows m = Ok Null)
     else (\<exists>w. eval_aggregate env ''SUM'' [e] False rows m = Ok (Integer w) \<and> sint w = int_total (column_ints os)) \<and>
          (\<exists>w \<in> set (column_ints os). eval_aggregate env ''MIN'' [e] False rows m = Ok (Integer w) \<and> (\<forall>x \<in> set (column_ints os). sint w \<le> sint x)) \<and>
          (\<exists>w \<in> set (column_ints os). eval_aggregate env ''MAX'' [e] False rows m = Ok (Integer w) \<and> (\<forall>x \<in> set (column_ints os). sint x \<le> sint w)))"
proof -
  let ?ints = "column_ints os" and ?vs = "map column_value os"
  have names: "to_ascii_uppercase ''COUNT'' = ''COUNT''" "to_ascii_uppercase ''SUM'' = ''SUM''" "to_ascii_uppercase ''MIN'' = ''MIN''"
    "to_ascii_uppercase ''MAX'' = ''MAX''" by code_simp+
  have agg: "eval_aggregate env ''COUNT'' [e] False rows m = Ok (Integer (word_of_nat (count_values False ?vs)))"
    "eval_aggregate env ''SUM'' [e] False rows m = Ok (sum_values ?vs)" "eval_aggregate env ''MIN'' [e] False rows m = Ok (extreme_value Less ?vs)"
    "eval_aggregate env ''MAX'' [e] False rows m = Ok (extreme_value Greater ?vs)"
    using assms(1,2) by (simp_all add: eval_aggregate_def names)
  have sum: "sum_values ?vs = (if ?ints = [] then Null else Integer (word_of_int (int_total ?ints)))"
    using sum_steps [of "\<lparr>int_sum = 0, real_sum = 0, is_int = True, has_value = False\<rparr>" os] assms(3) by (simp add: sum_values_def)
  have "sint (word_of_int (int_total ?ints) :: i64) = int_total ?ints" using assms(3) [of "length ?ints"] by (simp add: sint_word_of_int_fits)
  then show ?thesis
    using agg sum count_of_ints [of os] extreme_of_ints [of Less os] extreme_of_ints [of Greater os] extreme_steps [of Less os None] extreme_steps [of Greater os None]
    by (cases "?ints = []") (simp_all add: extreme_value_def)
qed

theorem aggregates_of_integer_columns_witness:
  "eval_aggregate sample_vm ''COUNT'' [ColumnRef None ''x''] False [[Integer 5], [Null], [Integer 7]] [''x'' \<mapsto> 0] = Ok (Integer 2) \<and>
   (\<exists>w. eval_aggregate sample_vm ''SUM'' [ColumnRef None ''x''] False [[Integer 5], [Null], [Integer 7]] [''x'' \<mapsto> 0] = Ok (Integer w) \<and> sint w = 12)"
proof -
  let ?rows = "[[Integer 5], [Null], [Integer 7]]" and ?os = "[Some 5, None, Some (7 :: i64)]" and ?m = "[''x'' \<mapsto> 0]"
  have "all_ok (map (\<lambda>r. eval_in sample_vm (ColumnRef None ''x'') r ?m) ?rows) = Ok (map column_value ?os)"
    by (simp add: eval_column_def lookup_column_def column_of_def or_else_def to_ascii_lowercase_def ascii_lower_def)
  moreover have "fits_i64 (int_total (take n (column_ints ?os)))" for n
    by (simp add: fits_i64_def int_total_def take_Cons split: nat.splits)
  ultimately show ?thesis
    using aggregates_of_integer_columns [of sample_vm "ColumnRef None ''x''" ?m ?rows ?os] by (simp add: int_total_def)
qed

section \<open>The two evaluators\<close>

text \<open>
  An expression without aggregate functions and full-text operators. The evaluator of groups computes the arguments of a function first, all of them, so it can fail where
  the evaluator of rows does not look at an argument.
\<close>

fun row_expr :: "'q expr \<Rightarrow> bool" where
  "row_expr (FunctionCall name args _) = (\<not> is_aggregate_name name \<and> list_all row_expr args)"
| "row_expr (BinaryOp l op r) = (op \<noteq> OpFtsMatch \<and> row_expr l \<and> row_expr r)"
| "row_expr (UnaryOp _ e) = row_expr e"
| "row_expr (Nested e) = row_expr e"
| "row_expr (IsNull e _) = row_expr e"
| "row_expr (InList e items _) = (row_expr e \<and> list_all row_expr items)"
| "row_expr (Between e lo hi _) = (row_expr e \<and> row_expr lo \<and> row_expr hi)"
| "row_expr (LikeExpr e p _ _ _) = (row_expr e \<and> row_expr p)"
| "row_expr (Collate e _) = row_expr e"
| "row_expr (Interval e _) = row_expr e"
| "row_expr _ = True"

lemma eval_from_value: "eval_in env (from_value v) row m = Ok v"
  by (cases v) (simp_all add: from_value_def)

lemma all_ok_agree: "all_ok (map f xs) = Ok vs \<Longrightarrow> (\<And>x v. x \<in> set xs \<Longrightarrow> f x = Ok v \<Longrightarrow> g x = Ok v) \<Longrightarrow> map g xs = map Ok vs"
  by (induction xs arbitrary: vs) (auto simp: res_bind_Ok_iff)

lemma in_items_agree:
  "in_items v (map f xs) hn = Ok p \<Longrightarrow> (\<And>x u. x \<in> set xs \<Longrightarrow> f x = Ok u \<Longrightarrow> g x = Ok u) \<Longrightarrow> in_items v (map g xs) hn = Ok p"
proof (induction xs arbitrary: hn)
  case (Cons x xs)
  then obtain u where "f x = Ok u" by (auto simp: res_bind_Ok_iff)
  moreover from this have "g x = Ok u" using Cons.prems(2) by simp
  ultimately show ?case using Cons by (auto split: if_splits)
qed simp

lemma in_list_agree:
  assumes "eval_in_list u (map f xs) negated = Ok v" and "\<And>x w. x \<in> set xs \<Longrightarrow> f x = Ok w \<Longrightarrow> g x = Ok w"
  shows "eval_in_list u (map g xs) negated = Ok v"
proof (cases "u = Null")
  case False
  then obtain p where "in_items u (map f xs) False = Ok p" "v = (case p of (found, has_null) \<Rightarrow> in_result negated found has_null)"
    using assms(1) by (auto simp: eval_in_list_def res_bind_Ok_iff)
  then show ?thesis using in_items_agree [of u f xs False p g] assms(2) False by (cases p) (simp add: eval_in_list_def)
qed (use assms(1) in \<open>simp add: eval_in_list_def\<close>)

lemma binary_agree:
  assumes "eval_binary env op x y row = Ok v" and "\<And>u. x = Ok u \<Longrightarrow> x' = Ok u" and "\<And>u. y = Ok u \<Longrightarrow> y' = Ok u" and "op \<noteq> OpFtsMatch"
  shows "eval_binary env op x' y' row = Ok v"
proof -
  obtain a where a: "x = Ok a" "x' = Ok a" using assms(1,2,4) by (auto simp: eval_binary_def eval_and_def eval_or_def res_bind_Ok_iff split: if_splits)
  show ?thesis using assms(1,3,4) a(2) unfolding a(1) by (cases y) (auto simp: eval_binary_def eval_and_def eval_or_def split: if_splits)
qed

text \<open>
  the evaluator that computes aggregates over a group is an extension of the evaluator of rows: on an expression without aggregate functions, what it returns for a group is
  what the expression is worth on the first row of the group.
\<close>

lemma group_evaluator_extends_row_evaluator:
  assumes "eval_expr_with_aggregates env e row m rows = Ok v" and "row_expr e"
  shows "eval_in env e row m = Ok v"
  using assms
proof (induction env e row m rows arbitrary: v rule: eval_expr_with_aggregates.induct)
  case (1 env name args dist row m rows)
  show ?case
  proof (cases "name = ''__win''")
    case False
    then obtain vs where vs: "all_ok (map (\<lambda>a. eval_expr_with_aggregates env a row m rows) args) = Ok vs"
      "eval_in env (FunctionCall name (map from_value vs) dist) row m = Ok v"
      using 1(2,3) by (auto simp: res_bind_Ok_iff simp del: eval_expr.simps)
    have "map (\<lambda>a. eval_in env a row m) args = map Ok vs" using vs(1)
      by (rule all_ok_agree) (use 1 False in \<open>auto simp: list_all_iff simp del: eval_expr.simps\<close>)
    then show ?thesis using vs(2) by (simp add: comp_def eval_from_value [unfolded comp_def])
  qed (use 1 in simp)
next
  case (2 env l op r row m rows)
  let ?x = "eval_expr_with_aggregates env l row m rows" and ?y = "eval_expr_with_aggregates env r row m rows"
  have sub: "?x = Ok u \<Longrightarrow> eval_in env l row m = Ok u" "?y = Ok u \<Longrightarrow> eval_in env r row m = Ok u" for u using 2 by simp_all
  have "eval_binary (expr_env env) op ?x ?y row = Ok v" using 2(3,4) by (auto simp: eval_binary_def Let_def)
  then have "eval_binary (expr_env env) op (eval_in env l row m) (eval_in env r row m) row = Ok v"
    by (rule binary_agree) (use sub 2(4) in simp_all)
  then show ?case by simp
next
  case (6 env e items negated row m rows)
  then obtain u where u: "eval_expr_with_aggregates env e row m rows = Ok u"
    "eval_in_list u (map (\<lambda>i. eval_expr_with_aggregates env i row m rows) items) negated = Ok v" by (auto simp: res_bind_Ok_iff)
  have "eval_in_list u (map (\<lambda>i. eval_in env i row m) items) negated = Ok v"
    by (rule in_list_agree [OF u(2)]) (use 6(2,4) u(1) in \<open>auto simp: list_all_iff\<close>)
  then show ?case using 6 u by simp
qed (auto simp: res_bind_Ok_iff)

lemma group_evaluator_extends_row_evaluator_witness:
  "eval_in sample_vm (BinaryOp (ColumnRef None ''x'') OpEqual (IntegerLiteral 5)) [Integer 5] [''x'' \<mapsto> 0] = Ok (Integer 1)"
proof -
  have "eval_expr_with_aggregates sample_vm (BinaryOp (ColumnRef None ''x'') OpEqual (IntegerLiteral 5)) [Integer 5] [''x'' \<mapsto> 0] [[Integer 5], [Integer 6]] = Ok (Integer 1)"
    by (simp add: eval_column_def lookup_column_def column_of_def or_else_def to_ascii_lowercase_def ascii_lower_def apply_equal bool_value_def)
  then show ?thesis by (rule group_evaluator_extends_row_evaluator) simp
qed

end
