(* ===== verification/IndexCache.thy ===== *)
theory IndexCache
  imports SelectExec RowTable
begin

text \<open>
  Secondary indexes as the virtual machine uses them (\<^verbatim>\<open>src/src/vm/execute.rs\<close>): an index is a table of its own whose rows hold the indexed values and, last, the rowid of the table row.
  Its content is kept in memory in three forms: by the key of the first value, by rowid, and sorted by the first value.
\<close>

section \<open>Keys\<close>

definition index_eq_key :: "value \<Rightarrow> bytes" where
  "index_eq_key v =
     (case v of
        Integer i \<Rightarrow> ascii ''N'' @ le_bytes 8 (i64_as_f64 i)
      | Real r \<Rightarrow> ascii ''N'' @ le_bytes 8 r
      | Text t \<Rightarrow> ascii ''T'' @ t
      | Blob b \<Rightarrow> ascii ''B'' @ b
      | Null \<Rightarrow> ascii ''Z'')"

definition flip_comparison_operator :: "binary_operator \<Rightarrow> binary_operator option" where
  "flip_comparison_operator op =
     (case op of
        OpEqual \<Rightarrow> Some OpEqual
      | OpLessThan \<Rightarrow> Some OpGreaterThan
      | OpLessThanOrEqual \<Rightarrow> Some OpGreaterThanOrEqual
      | OpGreaterThan \<Rightarrow> Some OpLessThan
      | OpGreaterThanOrEqual \<Rightarrow> Some OpLessThanOrEqual
      | _ \<Rightarrow> None)"

definition value_has_total_order :: "value \<Rightarrow> bool" where
  "value_has_total_order v \<longleftrightarrow> value_partial_cmp v v \<noteq> None"

definition cmp_value_total :: "value \<Rightarrow> value \<Rightarrow> ordering" where
  "cmp_value_total a b = (case value_partial_cmp a b of None \<Rightarrow> Equal | Some ord \<Rightarrow> ord)"

section \<open>The cache of an index\<close>

record index_cache =
  eq_map :: "bytes \<Rightarrow> i64 list"
  rowid_map :: "i64 \<Rightarrow> i64 option"
  ordered_entries :: "(value \<times> i64) list"

definition cmp_entries :: "value \<times> i64 \<Rightarrow> value \<times> i64 \<Rightarrow> ordering" where
  "cmp_entries a b =
     (let ord = cmp_value_total (fst a) (fst b) in if ord = Equal then i64_cmp (snd a) (snd b) else ord)"

text \<open>An entry that counts: at least one value before the rowid.\<close>

definition index_entry_of :: "row \<Rightarrow> (value \<times> i64) option" where
  "index_entry_of r =
     (if length r < 2 then None else case List.last r of Integer i \<Rightarrow> Some (hd r, i) | _ \<Rightarrow> None)"

definition load_entry :: "i64 \<times> row \<Rightarrow> index_cache \<Rightarrow> index_cache" where
  "load_entry e c =
     (case index_entry_of (snd e) of
        None \<Rightarrow> c
      | Some (v, rowid) \<Rightarrow>
          c\<lparr>eq_map := (eq_map c)(index_eq_key v := eq_map c (index_eq_key v) @ [rowid]),
            rowid_map := (rowid_map c)(rowid \<mapsto> fst e),
            ordered_entries := (if value_has_total_order v then ordered_entries c @ [(v, rowid)] else ordered_entries c)\<rparr>)"

definition load_index_cache :: "row_list \<Rightarrow> index_cache" where
  "load_index_cache entries =
     (let c = fold load_entry entries \<lparr>eq_map = (\<lambda>_. []), rowid_map = Map.empty, ordered_entries = []\<rparr>
      in c\<lparr>ordered_entries := sort_by cmp_entries (ordered_entries c)\<rparr>)"

definition ensure_index_cache_loaded :: "row_list \<Rightarrow> index_cache option \<Rightarrow> index_cache" where
  "ensure_index_cache_loaded entries cache = (case cache of Some c \<Rightarrow> c | None \<Rightarrow> load_index_cache entries)"

text \<open>
  \<^verbatim>\<open>slice::partition_point\<close> on a list whose elements with the property come first.
\<close>

definition partition_point :: "('a \<Rightarrow> bool) \<Rightarrow> 'a list \<Rightarrow> nat" where
  "partition_point p xs = length (takeWhile p xs)"

definition entry_position :: "value \<Rightarrow> i64 \<Rightarrow> (value \<times> i64) list \<Rightarrow> nat" where
  "entry_position v rowid xs =
     partition_point (\<lambda>(w, r). cmp_value_total w v = Less \<or> cmp_value_total w v = Equal \<and> sint r < sint rowid) xs"

definition index_cache_insert :: "value \<Rightarrow> i64 \<Rightarrow> i64 \<Rightarrow> index_cache option \<Rightarrow> index_cache option" where
  "index_cache_insert v rowid entry_rowid cache =
     map_option (\<lambda>c. c\<lparr>
        eq_map := (eq_map c)(index_eq_key v := eq_map c (index_eq_key v) @ [rowid]),
        rowid_map := (rowid_map c)(rowid \<mapsto> entry_rowid),
        ordered_entries :=
          (if value_has_total_order v then
             (let pos = entry_position v rowid (ordered_entries c) in take pos (ordered_entries c) @ (v, rowid) # drop pos (ordered_entries c))
           else ordered_entries c)\<rparr>) cache"

definition index_cache_delete :: "value \<Rightarrow> i64 \<Rightarrow> index_cache option \<Rightarrow> index_cache option" where
  "index_cache_delete v rowid cache =
     map_option (\<lambda>c. c\<lparr>
        eq_map := (eq_map c)(index_eq_key v := filter (\<lambda>r. r \<noteq> rowid) (eq_map c (index_eq_key v))),
        rowid_map := (rowid_map c)(rowid := None),
        ordered_entries :=
          (let xs = ordered_entries c; pos = entry_position v rowid xs in
           if pos < length xs \<and> value_eq (fst (xs ! pos)) v \<and> snd (xs ! pos) = rowid then take pos xs @ drop (Suc pos) xs else xs)\<rparr>) cache"

section \<open>Lookups\<close>

definition lower_bound_index_entries :: "(value \<times> i64) list \<Rightarrow> value \<Rightarrow> nat" where
  "lower_bound_index_entries xs v = partition_point (\<lambda>(w, _). cmp_value_total w v = Less) xs"

definition upper_bound_index_entries :: "(value \<times> i64) list \<Rightarrow> value \<Rightarrow> nat" where
  "upper_bound_index_entries xs v = partition_point (\<lambda>(w, _). cmp_value_total w v = Less \<or> cmp_value_total w v = Equal) xs"

text \<open>\<^verbatim>\<open>entries[start..end]\<close> panics when the bounds are reversed.\<close>

definition slice_table_rowids :: "(value \<times> i64) list \<Rightarrow> nat \<Rightarrow> nat \<Rightarrow> i64 list res" where
  "slice_table_rowids xs start stop = (if stop < start then Panic else Ok (map snd (take (stop - start) (drop start xs))))"

definition range_bounds_for_comparison :: "(value \<times> i64) list \<Rightarrow> binary_operator \<Rightarrow> value \<Rightarrow> nat \<times> nat" where
  "range_bounds_for_comparison xs op v =
     (case op of
        OpLessThan \<Rightarrow> (0, lower_bound_index_entries xs v)
      | OpLessThanOrEqual \<Rightarrow> (0, upper_bound_index_entries xs v)
      | OpGreaterThan \<Rightarrow> (upper_bound_index_entries xs v, length xs)
      | OpGreaterThanOrEqual \<Rightarrow> (lower_bound_index_entries xs v, length xs)
      | _ \<Rightarrow> (0, 0))"

definition index_rowids_for_value :: "index_cache \<Rightarrow> value \<Rightarrow> i64 list" where
  "index_rowids_for_value c v = eq_map c (index_eq_key v)"

definition index_rowids_for_comparison :: "index_cache \<Rightarrow> binary_operator \<Rightarrow> value \<Rightarrow> i64 list res" where
  "index_rowids_for_comparison c op v =
     (if v = Null then Ok []
      else if op = OpEqual then Ok (index_rowids_for_value c v)
      else if \<not> value_has_total_order v then Ok []
      else case range_bounds_for_comparison (ordered_entries c) op v of (start, stop) \<Rightarrow> slice_table_rowids (ordered_entries c) start stop)"

definition index_rowids_for_between :: "index_cache \<Rightarrow> value \<Rightarrow> value \<Rightarrow> i64 list res" where
  "index_rowids_for_between c low high =
     (if low = Null \<or> high = Null \<or> \<not> value_has_total_order low \<or> \<not> value_has_total_order high \<or> cmp_value_total low high = Greater then Ok []
      else slice_table_rowids (ordered_entries c) (lower_bound_index_entries (ordered_entries c) low) (upper_bound_index_entries (ordered_entries c) high))"

definition index_entry_rowid_for_table_rowid :: "index_cache \<Rightarrow> i64 \<Rightarrow> i64 option" where
  "index_entry_rowid_for_table_rowid c rowid = rowid_map c rowid"

text \<open>
  From 96 rowids on, one scan replaces the single lookups. A rowid that is asked for twice is then returned once, without the scan twice.
\<close>

definition BULK_SCAN_THRESHOLD :: nat where
  "BULK_SCAN_THRESHOLD = 96"

fun take_rows :: "i64 list \<Rightarrow> (i64 \<Rightarrow> row option) \<Rightarrow> row_list" where
  "take_rows [] m = []"
| "take_rows (r # rs) m = (case m r of None \<Rightarrow> take_rows rs m | Some row \<Rightarrow> (r, row) # take_rows rs (m(r := None)))"

definition fetch_rows_by_rowids :: "row_list \<Rightarrow> i64 list \<Rightarrow> row_list" where
  "fetch_rows_by_rowids rows rowids =
     (if BULK_SCAN_THRESHOLD \<le> length rowids then take_rows rowids (map_of rows)
      else concat (map (\<lambda>r. case map_of rows r of None \<Rightarrow> [] | Some row \<Rightarrow> [(r, row)]) rowids))"

end
