(* ===== verification/IndexLaws.thy ===== *)
theory IndexLaws
  imports IndexCache RowOrder
begin

text \<open>
  The cache of an index is exactly what loading the index gives, through any history of lookups, insertions and deletions; and a lookup of a range finds the rows of the range,
  if the column has no NULLs and its values are comparable.
\<close>

section \<open>The order of the entries\<close>

lemma cmp_value_total_flip: "cmp_value_total b a = ordering_reverse (cmp_value_total a b)"
  using value_order_coherent [of b a] by (cases "value_partial_cmp a b") (auto simp: cmp_value_total_def)

lemma total_comparable:
  assumes "sortable_value k a" and "sortable_value k b"
  shows "value_partial_cmp a b = Some (cmp_value_total a b)"
proof -
  have "value_partial_cmp a b \<noteq> None" using assms by (cases k; cases a; cases b) (auto simp: f64_partial_cmp_None)
  then show ?thesis by (auto simp: cmp_value_total_def)
qed

lemma total_trans:
  assumes "sortable_value k a" "sortable_value k b" "sortable_value k c" and "cmp_value_total a b \<noteq> Greater" and "cmp_value_total b c \<noteq> Greater"
  shows "cmp_value_total a c = (if cmp_value_total a b = Equal then cmp_value_total b c else Less)"
  using sortable_trans [OF assms(1-3) total_comparable [OF assms(1,2)] total_comparable [OF assms(2,3)] assms(4,5)] by (simp add: cmp_value_total_def)

interpretation entry_order: row_order cmp_entries "{p. sortable_value k (fst p)}" for k
proof
  fix x y :: "value \<times> i64"
  show "cmp_entries y x = ordering_reverse (cmp_entries x y)"
    using cmp_value_total_flip [of "fst y" "fst x"] by (auto simp: cmp_entries_def Let_def i64_cmp_def int_cmp_def)
next
  fix x y z :: "value \<times> i64"
  assume s: "x \<in> {p. sortable_value k (fst p)}" "y \<in> {p. sortable_value k (fst p)}" "z \<in> {p. sortable_value k (fst p)}"
    and xy: "cmp_entries x y \<noteq> Greater" and yz: "cmp_entries y z \<noteq> Greater"
  have "cmp_value_total (fst x) (fst y) \<noteq> Greater" "cmp_value_total (fst y) (fst z) \<noteq> Greater"
    using xy yz by (auto simp: cmp_entries_def Let_def split: if_splits)
  then show "cmp_entries x z \<noteq> Greater"
    using total_trans [of k "fst x" "fst y" "fst z"] s xy yz
    by (auto simp: cmp_entries_def Let_def i64_cmp_def int_cmp_def split: if_splits)
qed

lemma cmp_entries_Equal: "cmp_entries a b = Equal \<Longrightarrow> snd a = snd b"
  by (auto simp: cmp_entries_def Let_def i64_cmp_def int_cmp_def intro: signed_word_eqI split: if_splits)

lemma entries_sorted_unique:
  assumes "set xs \<subseteq> {p. sortable_value k (fst p)}" and "sorted_wrt (\<lambda>a b. cmp_entries a b \<noteq> Greater) xs"
    and "sorted_wrt (\<lambda>a b. cmp_entries a b \<noteq> Greater) ys" and "mset xs = mset ys" and "distinct (map snd xs)"
  shows "xs = ys"
proof -
  have "list_all2 (\<lambda>a b. cmp_entries a b = Equal) xs ys" using entry_order.sorted_same_elements assms(1-4) by blast
  then have "map snd xs = map snd ys" by (induction rule: list_all2_induct) (auto dest: cmp_entries_Equal)
  moreover have "inj_on snd (set xs \<union> set ys)" using mset_eq_setD [OF assms(4)] assms(5) by (simp add: distinct_map)
  ultimately show ?thesis by (rule map_inj_on)
qed

lemma sortable_total: "sortable_value k v \<Longrightarrow> value_has_total_order v"
  using total_comparable [of k v v] by (simp add: value_has_total_order_def)

section \<open>The cache through a history\<close>

text \<open>The entry of a table row.\<close>

definition entry_pair :: "i64 \<times> row \<Rightarrow> value \<times> i64" where
  "entry_pair e = the (index_entry_of (snd e))"

lemma entry_pair_row [simp]: "index_entry_of (v # vs @ [Integer rowid]) = Some (v, rowid)" "entry_pair (n, v # vs @ [Integer rowid]) = (v, rowid)"
  by (simp_all add: index_entry_of_def entry_pair_def)

definition indexed :: "sort_kind \<Rightarrow> row_list \<Rightarrow> bool" where
  "indexed k es \<longleftrightarrow> (\<forall>e \<in> set es. \<exists>v vs rowid. snd e = v # vs @ [Integer rowid] \<and> sortable_value k v) \<and> distinct (map fst es) \<and>
     distinct (map (snd \<circ> entry_pair) es)"

lemma load_entries:
  assumes "\<forall>e \<in> set es. \<exists>v vs rowid. snd e = v # vs @ [Integer rowid] \<and> sortable_value k v"
  shows "fold load_entry es c =
    \<lparr>eq_map = (\<lambda>key. eq_map c key @ map snd (filter (\<lambda>p. index_eq_key (fst p) = key) (map entry_pair es))),
     rowid_map = rowid_map c ++ map_of (rev (map (\<lambda>e. (snd (entry_pair e), fst e)) es)),
     ordered_entries = ordered_entries c @ map entry_pair es\<rparr>"
  using assms
proof (induction es arbitrary: c)
  case (Cons e es)
  obtain v vs rowid where e: "snd e = v # vs @ [Integer rowid]" "sortable_value k v" using Cons.prems by auto
  then have pair: "entry_pair e = (v, rowid)" "index_entry_of (snd e) = Some (v, rowid)" by (simp_all add: entry_pair_def)
  show ?case using Cons sortable_total [OF e(2)] pair
    by (simp add: load_entry_def map_add_def fun_eq_iff split: option.splits)
qed (simp add: fun_eq_iff)

lemma load_indexed:
  assumes "indexed k es"
  shows "load_index_cache es =
    \<lparr>eq_map = (\<lambda>key. map snd (filter (\<lambda>p. index_eq_key (fst p) = key) (map entry_pair es))),
     rowid_map = map_of (rev (map (\<lambda>e. (snd (entry_pair e), fst e)) es)), ordered_entries = sort_by cmp_entries (map entry_pair es)\<rparr>"
  using load_entries [of es k] assms by (simp add: load_index_cache_def indexed_def)

text \<open>
  What can happen to an index: it is created empty; a lookup loads the cache; a row is inserted with a new rowid under a number above all others; the entry of a row is
  deleted; the cache is dropped.
\<close>

inductive index_history :: "sort_kind \<Rightarrow> row_list \<Rightarrow> index_cache option \<Rightarrow> bool" for k where
  created: "index_history k [] None"
| looked_up: "index_history k es c \<Longrightarrow> index_history k es (Some (ensure_index_cache_loaded es c))"
| inserted: "index_history k es c \<Longrightarrow> sortable_value k v \<Longrightarrow> rowid \<notin> set (map (snd \<circ> entry_pair) es) \<Longrightarrow> n \<notin> set (map fst es) \<Longrightarrow>
    index_history k (es @ [(n, v # vs @ [Integer rowid])]) (index_cache_insert v rowid n c)"
| deleted: "index_history k es c \<Longrightarrow> (n, v # vs @ [Integer rowid]) \<in> set es \<Longrightarrow>
    index_history k (filter (\<lambda>e. fst e \<noteq> n) es) (index_cache_delete v rowid c)"
| dropped: "index_history k es c \<Longrightarrow> index_history k es None"

lemma history_indexed: "index_history k es c \<Longrightarrow> indexed k es"
proof (induction rule: index_history.induct)
  case (inserted es c v rowid n vs)
  then show ?case by (auto simp: indexed_def)
next
  case (deleted es c n v vs rowid)
  then show ?case by (auto simp: indexed_def distinct_map_filter)
qed (simp_all add: indexed_def)

lemma entry_position_split:
  "take (entry_position v rowid xs) xs = takeWhile (\<lambda>x. cmp_entries x (v, rowid) = Less) xs"
  "drop (entry_position v rowid xs) xs = dropWhile (\<lambda>x. cmp_entries x (v, rowid) = Less) xs"
proof -
  have "(\<lambda>(w, r). cmp_value_total w v = Less \<or> cmp_value_total w v = Equal \<and> sint r < sint rowid) = (\<lambda>x. cmp_entries x (v, rowid) = Less)"
    by (auto simp: fun_eq_iff cmp_entries_def Let_def i64_cmp_def int_cmp_def)
  then show "take (entry_position v rowid xs) xs = takeWhile (\<lambda>x. cmp_entries x (v, rowid) = Less) xs"
    "drop (entry_position v rowid xs) xs = dropWhile (\<lambda>x. cmp_entries x (v, rowid) = Less) xs"
    by (simp_all add: entry_position_def partition_point_def takeWhile_eq_take [symmetric] dropWhile_eq_drop [symmetric])
qed

lemma sort_append_entry:
  assumes "\<forall>p \<in> set (xs @ [(v, rowid)]). sortable_value k (fst p)" and "distinct (map snd (xs @ [(v, rowid)]))"
  shows "take (entry_position v rowid (sort_by cmp_entries xs)) (sort_by cmp_entries xs) @ (v, rowid) # drop (entry_position v rowid (sort_by cmp_entries xs)) (sort_by cmp_entries xs) =
    sort_by cmp_entries (xs @ [(v, rowid)])"
proof -
  let ?S = "{p. sortable_value k (fst p)}" and ?xs = "sort_by cmp_entries xs" and ?p = "(v, rowid)"
  have sub: "insert ?p (set ?xs) \<subseteq> ?S" using assms(1) by (auto simp: entry_order.set_sort_by)
  have "insert_by cmp_entries ?p ?xs = sort_by cmp_entries (xs @ [?p])"
  proof (rule entries_sorted_unique [of _ k])
    show "sorted_wrt (\<lambda>a b. cmp_entries a b \<noteq> Greater) (insert_by cmp_entries ?p ?xs)"
      using sub assms(1) by (intro entry_order.sorted_insert_by entry_order.sorted_sort_by) auto
    show "sorted_wrt (\<lambda>a b. cmp_entries a b \<noteq> Greater) (sort_by cmp_entries (xs @ [?p]))"
      using assms(1) by (intro entry_order.sorted_sort_by) auto
    show "mset (insert_by cmp_entries ?p ?xs) = mset (sort_by cmp_entries (xs @ [?p]))" by (simp add: entry_order.mset_sort_by)
    then have "mset (map snd (insert_by cmp_entries ?p ?xs)) = mset (map snd (xs @ [?p]))" by (simp add: entry_order.mset_sort_by)
    then show "distinct (map snd (insert_by cmp_entries ?p ?xs))" using assms(2) by (metis mset_eq_imp_distinct_iff)
  qed (use sub in simp)
  then show ?thesis using entry_order.insert_by_takeWhile [OF sub] by (simp add: entry_position_split)
qed

lemma distinct_sort_entries: "distinct (map snd (sort_by cmp_entries xs)) = distinct (map snd xs)"
  by (rule mset_eq_imp_distinct_iff) (simp add: entry_order.mset_sort_by)

text \<open>In a sorted list with distinct rowids an entry comes right after the smaller ones.\<close>

lemma entry_at_position:
  assumes "set ys \<subseteq> {p. sortable_value k (fst p)}" and "sorted_wrt (\<lambda>a b. cmp_entries a b \<noteq> Greater) ys" and "distinct (map snd ys)" and "p \<in> set ys"
  shows "\<exists>rest. ys = takeWhile (\<lambda>x. cmp_entries x p = Less) ys @ p # rest"
proof -
  have refl: "cmp_entries p p = Equal" using entry_order.refl [of p k] assms(1,4) by auto
  have in_drop: "p \<in> set (dropWhile (\<lambda>x. cmp_entries x p = Less) ys)"
  proof (rule ccontr)
    assume "p \<notin> set (dropWhile (\<lambda>x. cmp_entries x p = Less) ys)"
    then have "p \<in> set (takeWhile (\<lambda>x. cmp_entries x p = Less) ys)" using assms(4) by (metis Un_iff set_append takeWhile_dropWhile_id)
    then show False using refl by (auto dest: set_takeWhileD)
  qed
  then obtain h rest where d: "dropWhile (\<lambda>x. cmp_entries x p = Less) ys = h # rest" by (cases "dropWhile (\<lambda>x. cmp_entries x p = Less) ys") auto
  then have ys: "ys = takeWhile (\<lambda>x. cmp_entries x p = Less) ys @ h # rest" by (metis takeWhile_dropWhile_id)
  have h: "cmp_entries h p \<noteq> Less" using d by (auto simp: dropWhile_eq_Cons_conv)
  have "h \<in> set ys" using d by (metis list.set_intros(1) set_dropWhileD)
  have "cmp_entries h p \<noteq> Greater"
  proof (cases "h = p")
    case False
    have "sorted_wrt (\<lambda>a b. cmp_entries a b \<noteq> Greater) (takeWhile (\<lambda>x. cmp_entries x p = Less) ys @ h # rest)" using assms(2) by (simp only: ys [symmetric])
    then have "sorted_wrt (\<lambda>a b. cmp_entries a b \<noteq> Greater) (h # rest)" by (simp only: sorted_wrt_append)
    then show ?thesis using False in_drop d by auto
  qed (simp add: refl)
  then have "snd h = snd p" using h cmp_entries_Equal by (cases "cmp_entries h p") auto
  then have "h = p" using assms(3,4) \<open>h \<in> set ys\<close> by (auto simp: distinct_map dest: inj_onD)
  then show ?thesis using ys by blast
qed

lemma remove_at_length: "ys = a @ p # rest \<Longrightarrow> length a < length ys \<and> ys ! length a = p \<and> take (length a) ys @ drop (Suc (length a)) ys = a @ rest"
  by simp

lemma sort_delete_entry:
  assumes "\<forall>p \<in> set xs. sortable_value k (fst p)" and "distinct (map snd xs)" and "(v, rowid) \<in> set xs"
  shows "(let ys = sort_by cmp_entries xs; pos = entry_position v rowid ys in
      if pos < length ys \<and> value_eq (fst (ys ! pos)) v \<and> snd (ys ! pos) = rowid then take pos ys @ drop (Suc pos) ys else ys) =
    sort_by cmp_entries (filter (\<lambda>x. snd x \<noteq> rowid) xs)"
proof -
  let ?le = "\<lambda>a b. cmp_entries a b \<noteq> Greater"
  define ys where "ys = sort_by cmp_entries xs"
  define a where "a = takeWhile (\<lambda>x. cmp_entries x (v, rowid) = Less) ys"
  have sets: "set ys = set xs" "mset ys = mset xs" "distinct (map snd ys)"
    using assms(2) unfolding ys_def by (simp_all only: entry_order.set_sort_by entry_order.mset_sort_by distinct_sort_entries)
  have sub: "set ys \<subseteq> {p. sortable_value k (fst p)}" and sorted: "sorted_wrt ?le ys"
    using assms(1) sets entry_order.sorted_sort_by [of xs k] by (auto simp: ys_def)
  obtain rest where rest: "ys = a @ (v, rowid) # rest"
    using entry_at_position [OF sub sorted sets(3), of "(v, rowid)"] assms(3) sets(1) unfolding a_def by blast
  have pos: "entry_position v rowid ys = length a"
    unfolding a_def entry_position_def partition_point_def
    by (rule arg_cong [of _ _ length], rule takeWhile_cong) (auto simp: cmp_entries_def Let_def i64_cmp_def int_cmp_def)
  have "value_eq v v" using assms(1,3) sub rest entry_order.refl [of "(v, rowid)" k]
    total_comparable [of k v v] value_order_coherent [of v v] by (auto simp: cmp_entries_def Let_def split: if_splits)
  then have "(let pos = entry_position v rowid ys in if pos < length ys \<and> value_eq (fst (ys ! pos)) v \<and> snd (ys ! pos) = rowid
      then take pos ys @ drop (Suc pos) ys else ys) = a @ rest"
    using remove_at_length [OF rest] pos by (simp add: Let_def)
  also have "\<dots> = sort_by cmp_entries (filter (\<lambda>x. snd x \<noteq> rowid) xs)"
  proof (rule entries_sorted_unique [of _ k])
    have "filter (\<lambda>x. snd x \<noteq> rowid) ys = a @ rest"
    proof -
      have "\<forall>x \<in> set a \<union> set rest. snd x \<noteq> rowid" using sets(3) unfolding rest by force
      then show ?thesis unfolding rest by (simp add: filter_id_conv)
    qed
    then show "mset (a @ rest) = mset (sort_by cmp_entries (filter (\<lambda>x. snd x \<noteq> rowid) xs))"
      using sets(2) by (metis entry_order.mset_sort_by mset_filter)
    show "sorted_wrt ?le (sort_by cmp_entries (filter (\<lambda>x. snd x \<noteq> rowid) xs))" using assms(1) by (intro entry_order.sorted_sort_by [of _ k]) auto
  qed (use sub sorted sets(3) in \<open>auto simp: rest sorted_wrt_append\<close>)
  finally show ?thesis unfolding ys_def by (simp add: Let_def)
qed

lemma same_entry:
  assumes "distinct (map fst es)" and "distinct (map (snd \<circ> entry_pair) es)" and "e \<in> set es" and "x \<in> set es"
  shows "fst x = fst e \<longleftrightarrow> snd (entry_pair x) = snd (entry_pair e)"
proof -
  have "inj_on fst (set es)" "inj_on (snd \<circ> entry_pair) (set es)" using assms(1,2) by (simp_all add: distinct_map)
  then show ?thesis using assms(3,4) by (metis comp_apply inj_on_def)
qed

lemma rowid_map_filter:
  assumes "distinct (map fst es)" and "distinct (map (snd \<circ> entry_pair) es)" and "e \<in> set es"
  shows "map_of (rev (map (\<lambda>e. (snd (entry_pair e), fst e)) (filter (\<lambda>x. fst x \<noteq> fst e) es))) =
    (map_of (rev (map (\<lambda>e. (snd (entry_pair e), fst e)) es)))(snd (entry_pair e) := None)"
proof -
  let ?f = "\<lambda>e. (snd (entry_pair e), fst e)"
  have same: "fst x = fst e \<longleftrightarrow> snd (entry_pair x) = snd (entry_pair e)" if "x \<in> set es" for x
    using same_entry assms that by blast
  then have "filter (\<lambda>x. fst x \<noteq> fst e) es = filter (\<lambda>x. snd (entry_pair x) \<noteq> snd (entry_pair e)) es" by (intro filter_cong) auto
  then have "rev (map ?f (filter (\<lambda>x. fst x \<noteq> fst e) es)) = filter (\<lambda>p. fst p \<noteq> snd (entry_pair e)) (rev (map ?f es))"
    by (simp add: filter_map rev_filter rev_map comp_def)
  then show ?thesis using map_of_filter [of "\<lambda>k. k \<noteq> snd (entry_pair e)" "rev (map ?f es)"] by (simp only:) (auto simp: restrict_map_def)
qed

lemma indexed_pairs:
  assumes "indexed k es"
  shows "\<forall>p \<in> set (map entry_pair es). sortable_value k (fst p)" and "distinct (map snd (map entry_pair es))"
proof -
  show "\<forall>p \<in> set (map entry_pair es). sortable_value k (fst p)"
  proof
    fix p
    assume "p \<in> set (map entry_pair es)"
    then obtain e where e: "e \<in> set es" "p = entry_pair e" by auto
    then obtain v vs rowid where "snd e = v # vs @ [Integer rowid]" "sortable_value k v" using assms by (auto simp: indexed_def)
    then show "sortable_value k (fst p)" using e(2) by (simp add: entry_pair_def)
  qed
  show "distinct (map snd (map entry_pair es))" using assms by (simp add: indexed_def comp_def)
qed

lemma eq_map_filter:
  assumes "distinct (map snd ps)" and "(v, rowid) \<in> set ps"
  shows "(\<lambda>key. map snd (filter (\<lambda>p. index_eq_key (fst p) = key) (filter (\<lambda>p. snd p \<noteq> rowid) ps))) =
    (\<lambda>key. map snd (filter (\<lambda>p. index_eq_key (fst p) = key) ps))
      (index_eq_key v := filter (\<lambda>r. r \<noteq> rowid) (map snd (filter (\<lambda>p. index_eq_key (fst p) = index_eq_key v) ps)))"
proof
  fix key
  have "snd p \<noteq> rowid" if "p \<in> set ps" "index_eq_key (fst p) \<noteq> index_eq_key v" for p
  proof
    assume "snd p = rowid"
    moreover have "inj_on snd (set ps)" using assms(1) by (simp add: distinct_map)
    ultimately have "p = (v, rowid)" using assms(2) that(1) by (metis inj_on_def snd_conv)
    then show False using that(2) by simp
  qed
  then have "key \<noteq> index_eq_key v \<Longrightarrow> filter (\<lambda>p. snd p \<noteq> rowid \<and> index_eq_key (fst p) = key) ps = filter (\<lambda>p. index_eq_key (fst p) = key) ps"
    by (intro filter_cong) auto
  then show "map snd (filter (\<lambda>p. index_eq_key (fst p) = key) (filter (\<lambda>p. snd p \<noteq> rowid) ps)) =
    ((\<lambda>key. map snd (filter (\<lambda>p. index_eq_key (fst p) = key) ps))
      (index_eq_key v := filter (\<lambda>r. r \<noteq> rowid) (map snd (filter (\<lambda>p. index_eq_key (fst p) = index_eq_key v) ps)))) key"
    by (auto simp: filter_map comp_def conj_commute)
qed

text \<open>
  C11: the cache of an index never deviates from the index: through any history of lookups, insertions of new rows, deletions of rows and cache drops, the three forms in which the entries
  are kept in memory, incrementally updated, are exactly those that a fresh load of the index would build.
\<close>

theorem index_cache_exact:
  assumes "index_history k es (Some c)"
  shows "c = load_index_cache es"
proof -
  have "cache = Some c \<longrightarrow> c = load_index_cache es" if "index_history k es cache" for cache c es
    using that
  proof (induction arbitrary: c rule: index_history.induct)
    case (looked_up es cache)
    then show ?case by (cases cache) (auto simp: ensure_index_cache_loaded_def)
  next
    case (inserted es cache v rowid n vs)
    let ?e = "(n, v # vs @ [Integer rowid])"
    have ix: "indexed k es" "indexed k (es @ [?e])"
      using history_indexed inserted.hyps index_history.inserted [OF inserted.hyps] by blast+
    have ordered: "(let pos = entry_position v rowid (sort_by cmp_entries (map entry_pair es)) in
        take pos (sort_by cmp_entries (map entry_pair es)) @ (v, rowid) # drop pos (sort_by cmp_entries (map entry_pair es))) =
        sort_by cmp_entries (map entry_pair es @ [(v, rowid)])"
      using sort_append_entry [of "map entry_pair es" v rowid k] indexed_pairs [OF ix(2)] by (simp add: Let_def)
    show ?case
    proof (intro impI)
      assume "index_cache_insert v rowid n cache = Some c"
      then obtain d where d: "cache = Some d" "index_cache_insert v rowid n (Some d) = Some c" by (cases cache) (auto simp: index_cache_insert_def)
      then have "d = load_index_cache es" using inserted.IH by blast
      then show "c = load_index_cache (es @ [?e])" using d(2) ordered sortable_total [OF inserted.hyps(2)]
        unfolding index_cache_insert_def load_indexed [OF ix(1)] load_indexed [OF ix(2)] by (auto simp: fun_eq_iff)
    qed
  next
    case (deleted es cache n v vs rowid)
    let ?e = "(n, v # vs @ [Integer rowid])" and ?es = "filter (\<lambda>x. fst x \<noteq> n) es"
    have ix: "indexed k es" "indexed k ?es" using history_indexed deleted.hyps index_history.deleted [OF deleted.hyps] by blast+
    have same: "fst x = n \<longleftrightarrow> snd (entry_pair x) = rowid" if "x \<in> set es" for x
      using same_entry [OF _ _ deleted.hyps(2) that] ix(1) by (simp add: indexed_def)
    have pairs: "map entry_pair ?es = filter (\<lambda>p. snd p \<noteq> rowid) (map entry_pair es)"
      using same by (simp add: filter_map comp_def cong: filter_cong)
    have p: "(v, rowid) \<in> set (map entry_pair es)" using deleted.hyps(2) by (force intro: rev_image_eqI)
    have rowids: "map_of (rev (map (\<lambda>e. (snd (entry_pair e), fst e)) ?es)) = (map_of (rev (map (\<lambda>e. (snd (entry_pair e), fst e)) es)))(rowid := None)"
      using rowid_map_filter [OF _ _ deleted.hyps(2)] ix(1) by (simp add: indexed_def)
    note ordered = sort_delete_entry [OF indexed_pairs [OF ix(1)] p]
    show ?case
    proof (intro impI)
      assume "index_cache_delete v rowid cache = Some c"
      then obtain d where d: "cache = Some d" "index_cache_delete v rowid (Some d) = Some c" by (cases cache) (auto simp: index_cache_delete_def)
      then have "d = load_index_cache es" using deleted.IH by blast
      then show "c = load_index_cache ?es" using d(2) ordered eq_map_filter [OF indexed_pairs(2) [OF ix(1)] p] rowids
        unfolding index_cache_delete_def load_indexed [OF ix(1)] load_indexed [OF ix(2)] pairs by simp
    qed
  qed simp_all
  then show ?thesis using assms by blast
qed

theorem index_cache_exact_witness:
  "index_cache_delete (Text [1]) 5 (index_cache_insert (Text [1]) 5 1 (Some (load_index_cache []))) = Some (load_index_cache [])"
proof -
  let ?c = "index_cache_insert (Text [1]) 5 1 (Some (load_index_cache []))" and ?e = "(1, [Text [1], Integer 5])"
  have "index_history ExactColumn [] (Some (load_index_cache []))"
    using index_history.looked_up [OF index_history.created] by (simp add: ensure_index_cache_loaded_def)
  then have "index_history ExactColumn [?e] ?c" using index_history.inserted [of ExactColumn "[]" _ "Text [1]" 5 1 "[]"] by simp
  then have "index_history ExactColumn [] (index_cache_delete (Text [1]) 5 ?c)"
    using index_history.deleted [of ExactColumn "[?e]" ?c 1 "Text [1]" "[]" 5] by simp
  moreover obtain d where "index_cache_delete (Text [1]) 5 ?c = Some d" by (simp add: index_cache_delete_def index_cache_insert_def)
  ultimately show ?thesis using index_cache_exact [of ExactColumn "[]" d] by simp
qed

section \<open>Ranges\<close>

lemma partition_sorted:
  assumes "sorted_wrt (\<lambda>a b. cmp_entries a b \<noteq> Greater) xs" and "set xs \<subseteq> S" and "\<And>x y. x \<in> S \<Longrightarrow> y \<in> S \<Longrightarrow> cmp_entries x y \<noteq> Greater \<Longrightarrow> P y \<Longrightarrow> P x"
  shows "take (partition_point P xs) xs = filter P xs" and "drop (partition_point P xs) xs = filter (\<lambda>x. \<not> P x) xs"
proof -
  have "takeWhile P xs = filter P xs \<and> dropWhile P xs = filter (\<lambda>x. \<not> P x) xs"
    using assms(1,2)
  proof (induction xs)
    case (Cons x xs)
    show ?case
    proof (cases "P x")
      case False
      then have "\<forall>y \<in> set xs. \<not> P y" using Cons.prems assms(3) [of x] by auto
      then show ?thesis using False by (auto simp: filter_empty_conv intro!: filter_True [symmetric])
    qed (use Cons in auto)
  qed simp
  then show "take (partition_point P xs) xs = filter P xs" "drop (partition_point P xs) xs = filter (\<lambda>x. \<not> P x) xs"
    unfolding partition_point_def takeWhile_eq_take [symmetric] dropWhile_eq_drop [symmetric] by auto
qed

lemma cmp_entries_value: "cmp_entries x y \<noteq> Greater \<Longrightarrow> cmp_value_total (fst x) (fst y) \<noteq> Greater"
  by (auto simp: cmp_entries_def Let_def split: if_splits)

text \<open>The entries below a value, and those up to it, come first.\<close>

lemma bounds_split:
  assumes "\<forall>p \<in> set xs. sortable_value k (fst p)" and "sortable_value k v"
  shows "take (lower_bound_index_entries (sort_by cmp_entries xs) v) (sort_by cmp_entries xs) = filter (\<lambda>p. cmp_value_total (fst p) v = Less) (sort_by cmp_entries xs)"
    and "drop (lower_bound_index_entries (sort_by cmp_entries xs) v) (sort_by cmp_entries xs) = filter (\<lambda>p. cmp_value_total (fst p) v \<noteq> Less) (sort_by cmp_entries xs)"
    and "take (upper_bound_index_entries (sort_by cmp_entries xs) v) (sort_by cmp_entries xs) = filter (\<lambda>p. cmp_value_total (fst p) v \<noteq> Greater) (sort_by cmp_entries xs)"
    and "drop (upper_bound_index_entries (sort_by cmp_entries xs) v) (sort_by cmp_entries xs) = filter (\<lambda>p. cmp_value_total (fst p) v = Greater) (sort_by cmp_entries xs)"
proof -
  let ?ys = "sort_by cmp_entries xs" and ?S = "{p. sortable_value k (fst p)}"
  have ys: "sorted_wrt (\<lambda>a b. cmp_entries a b \<noteq> Greater) ?ys" "set ?ys \<subseteq> ?S"
    using assms(1) entry_order.sorted_sort_by [of xs k] by (auto simp: entry_order.set_sort_by)
  have down: "cmp_value_total (fst x) v = Less" "cmp_value_total (fst x) v \<noteq> Greater"
    if "x \<in> ?S" "y \<in> ?S" "cmp_entries x y \<noteq> Greater" and "cmp_value_total (fst y) v = Less" for x y
    using that total_trans [of k "fst x" "fst y" v] cmp_entries_value [of x y] assms(2) by (auto split: if_splits)
  have down': "cmp_value_total (fst x) v \<noteq> Greater"
    if "x \<in> ?S" "y \<in> ?S" "cmp_entries x y \<noteq> Greater" and "cmp_value_total (fst y) v \<noteq> Greater" for x y
    using that total_trans [of k "fst x" "fst y" v] cmp_entries_value [of x y] assms(2) by (auto split: if_splits)
  have le: "(\<lambda>(w, _). cmp_value_total w v = Less \<or> cmp_value_total w v = Equal) = (\<lambda>p. cmp_value_total (fst p) v \<noteq> Greater)"
    by (auto simp: fun_eq_iff) (metis ordering.exhaust)
  have lt: "(\<lambda>(w, _). cmp_value_total w v = Less) = (\<lambda>p. cmp_value_total (fst p) v = Less)" by (auto simp: fun_eq_iff)
  note lower = partition_sorted [OF ys, of "\<lambda>p. cmp_value_total (fst p) v = Less"]
  note upper = partition_sorted [OF ys, of "\<lambda>p. cmp_value_total (fst p) v \<noteq> Greater"]
  show "take (lower_bound_index_entries ?ys v) ?ys = filter (\<lambda>p. cmp_value_total (fst p) v = Less) ?ys"
    "drop (lower_bound_index_entries ?ys v) ?ys = filter (\<lambda>p. cmp_value_total (fst p) v \<noteq> Less) ?ys"
    using lower down unfolding lower_bound_index_entries_def lt by blast+
  show "take (upper_bound_index_entries ?ys v) ?ys = filter (\<lambda>p. cmp_value_total (fst p) v \<noteq> Greater) ?ys"
    "drop (upper_bound_index_entries ?ys v) ?ys = filter (\<lambda>p. cmp_value_total (fst p) v = Greater) ?ys"
    using upper down' unfolding upper_bound_index_entries_def le not_not by blast+
qed

definition range_operators :: "binary_operator set" where
  "range_operators = {OpLessThan, OpLessThanOrEqual, OpGreaterThan, OpGreaterThanOrEqual}"

definition range_hit :: "binary_operator \<Rightarrow> ordering \<Rightarrow> bool" where
  "range_hit op c = (case op of OpLessThan \<Rightarrow> c = Less | OpLessThanOrEqual \<Rightarrow> c \<noteq> Greater | OpGreaterThan \<Rightarrow> c = Greater | _ \<Rightarrow> c \<noteq> Less)"

lemma range_hit_iff:
  assumes "value_partial_cmp w v = Some (cmp_value_total w v)" and "w \<noteq> Null" and "v \<noteq> Null" and "op \<in> range_operators"
  shows "range_hit op (cmp_value_total w v) \<longleftrightarrow> (\<exists>t. apply_binary_op env op w v = Ok t \<and> is_truthy t)"
  using assms by (auto simp: range_operators_def range_hit_def apply_binary_op_def compare_op_def bool_value_def split: if_splits)

lemma comparison_rowids:
  assumes "indexed k es" and "sortable_value k v" and "v \<noteq> Null" and "op \<in> range_operators"
  shows "index_rowids_for_comparison (load_index_cache es) op v =
    Ok (map snd (filter (\<lambda>p. range_hit op (cmp_value_total (fst p) v)) (sort_by cmp_entries (map entry_pair es))))"
proof -
  note split = bounds_split [OF indexed_pairs(1) [OF assms(1)] assms(2)]
  have slices: "slice_table_rowids ys 0 n = Ok (map snd (take n ys))" "slice_table_rowids ys (lower_bound_index_entries ys v) (length ys) = Ok (map snd (drop (lower_bound_index_entries ys v) ys))"
    "slice_table_rowids ys (upper_bound_index_entries ys v) (length ys) = Ok (map snd (drop (upper_bound_index_entries ys v) ys))" for ys n
    by (simp_all add: slice_table_rowids_def lower_bound_index_entries_def upper_bound_index_entries_def partition_point_def leD length_takeWhile_le)
  show ?thesis using assms(3,4) sortable_total [OF assms(2)]
    by (auto simp: range_operators_def index_rowids_for_comparison_def load_indexed [OF assms(1)] range_bounds_for_comparison_def slices split range_hit_def)
qed

text \<open>
  C12: a range lookup through an index, which \<^verbatim>\<open>UPDATE\<close> and \<^verbatim>\<open>DELETE\<close> trust without looking at the condition again, finds exactly the rows for which the comparison is true, each once, if the
  indexed column has no NULL and its values are comparable.
\<close>

theorem index_range_lookup_correct:
  assumes "indexed k es" and "sortable_value k v" and "v \<noteq> Null" and "op \<in> range_operators" and "\<forall>e \<in> set es. fst (entry_pair e) \<noteq> Null"
  shows "\<exists>rowids. index_rowids_for_comparison (load_index_cache es) op v = Ok rowids \<and> distinct rowids \<and>
    set rowids = snd ` {p \<in> entry_pair ` set es. \<exists>t. apply_binary_op env op (fst p) v = Ok t \<and> is_truthy t}"
proof -
  let ?ps = "map entry_pair es"
  have "distinct (map snd (filter P (sort_by cmp_entries ?ps)))" for P
    using indexed_pairs(2) [OF assms(1)] distinct_sort_entries [of ?ps] by (simp add: distinct_map_filter)
  moreover have "value_partial_cmp (fst p) v = Some (cmp_value_total (fst p) v)" if "p \<in> set ?ps" for p
    using total_comparable indexed_pairs(1) [OF assms(1)] assms(2) that by blast
  then have "range_hit op (cmp_value_total (fst p) v) \<longleftrightarrow> (\<exists>t. apply_binary_op env op (fst p) v = Ok t \<and> is_truthy t)" if "p \<in> set ?ps" for p
    using that assms(3-5) range_hit_iff [of "fst p" v op env] by auto
  then have "{p \<in> set ?ps. range_hit op (cmp_value_total (fst p) v)} = {p \<in> set ?ps. \<exists>t. apply_binary_op env op (fst p) v = Ok t \<and> is_truthy t}" by blast
  then have "set (map snd (filter (\<lambda>p. range_hit op (cmp_value_total (fst p) v)) (sort_by cmp_entries ?ps))) =
    snd ` {p \<in> entry_pair ` set es. \<exists>t. apply_binary_op env op (fst p) v = Ok t \<and> is_truthy t}"
    by (simp add: entry_order.set_sort_by)
  ultimately show ?thesis unfolding comparison_rowids [OF assms(1-4)] by blast
qed

theorem index_range_lookup_correct_witness:
  "\<exists>rowids. index_rowids_for_comparison (load_index_cache [(1, [Integer 5, Integer 10]), (2, [Integer 3, Integer 11])]) OpLessThan (Integer 4) = Ok rowids \<and> distinct rowids \<and> set rowids = {11}"
proof -
  let ?es = "[(1, [Integer 5, Integer 10]), (2, [Integer 3, Integer 11])] :: row_list"
  have ix: "indexed ExactColumn ?es" using entry_pair_row(2) [of _ _ "[]"] by (auto simp: indexed_def)
  have cmp: "i64_cmp 5 4 = Greater" "i64_cmp 3 4 = Less" by (simp_all add: i64_cmp_def int_cmp_def)
  have pairs: "entry_pair (1, [Integer 5, Integer 10]) = (Integer 5, 10)" "entry_pair (2, [Integer 3, Integer 11]) = (Integer 3, 11)"
    using entry_pair_row(2) [of _ _ "[]"] by simp_all
  have ops: "apply_binary_op sample_env OpLessThan (Integer 5) (Integer 4) = Ok (Integer 0)" "apply_binary_op sample_env OpLessThan (Integer 3) (Integer 4) = Ok (Integer 1)"
    using cmp by (simp_all add: apply_binary_op_def compare_op_def bool_value_def)
  have "{p \<in> entry_pair ` set ?es. \<exists>t. apply_binary_op sample_env OpLessThan (fst p) (Integer 4) = Ok t \<and> is_truthy t} = {(Integer 3, 11)}"
    using ops by (auto simp: pairs)
  then show ?thesis using index_range_lookup_correct [OF ix, of "Integer 4" OpLessThan sample_env] entry_pair_row(2) [of _ _ "[]"] by (simp add: range_operators_def)
qed

text \<open>
  NULLs are kept in the sorted form below every value, so a lookup of the values below a bound returns them although the comparison with NULL is not true.
\<close>

lemma range_lookup_returns_nulls:
  assumes "indexed k es" and "sortable_value k v" and "v \<noteq> Null" and "e \<in> set es" and "entry_pair e = (Null, rowid)"
  shows "\<exists>rowids. index_rowids_for_comparison (load_index_cache es) OpLessThan v = Ok rowids \<and> rowid \<in> set rowids"
    and "apply_binary_op env OpLessThan Null v = Ok Null"
proof -
  have "cmp_value_total Null v = Less" using assms(3) by (cases v) (auto simp: cmp_value_total_def)
  moreover have "(Null, rowid) \<in> set (sort_by cmp_entries (map entry_pair es))" using assms(4,5) by (force simp: entry_order.set_sort_by)
  ultimately have "(Null, rowid) \<in> set (filter (\<lambda>p. range_hit OpLessThan (cmp_value_total (fst p) v)) (sort_by cmp_entries (map entry_pair es)))"
    by (simp add: range_hit_def)
  from imageI [OF this, of snd]
  have "rowid \<in> set (map snd (filter (\<lambda>p. range_hit OpLessThan (cmp_value_total (fst p) v)) (sort_by cmp_entries (map entry_pair es))))"
    by (simp only: set_map snd_conv)
  then show "\<exists>rowids. index_rowids_for_comparison (load_index_cache es) OpLessThan v = Ok rowids \<and> rowid \<in> set rowids"
    using comparison_rowids [OF assms(1-3), of OpLessThan] by (simp add: range_operators_def)
  show "apply_binary_op env OpLessThan Null v = Ok Null" by (simp add: apply_binary_op_def null_op_def)
qed

text \<open>The key of an integer is that of its nearest real number, so different integers can share one.\<close>

lemma index_key_collision:
  "index_eq_key (Integer 9007199254740992) = index_eq_key (Integer 9007199254740993)" "\<not> value_eq (Integer 9007199254740992) (Integer 9007199254740993)"
  by (simp_all add: index_eq_key_def f64_cmp_eval)

end
