(* ===== verification/DmlState.thy ===== *)
theory DmlState
  imports IndexCache RowLocks Binlog Pager BTreePage
begin

text \<open>
  The state that \<^verbatim>\<open>INSERT\<close>, \<^verbatim>\<open>UPDATE\<close> and \<^verbatim>\<open>DELETE\<close> change, and the maintenance of secondary indexes and constraints (\<^verbatim>\<open>src/src/vm/exec_dml.rs\<close>). The content of a table and of an
  index is its list of rows in the order of their rowids, as theory \<open>BTreeRows\<close> shows for the B+tree; root pages are left out. SQL text that triggers and foreign keys run, and the
  full-text and vector indexes, are parameters.
\<close>

section \<open>Schema and state\<close>

datatype trigger_timing = BeforeTrigger | AfterTrigger
datatype trigger_event = InsertEvent | UpdateEvent | DeleteEvent
datatype fk_action = FkRestrict | FkCascade | FkSetNull

record column_info =
  ci_name :: string
  ci_primary_key :: bool
  ci_not_null :: bool
  ci_index :: nat

record foreign_key =
  fk_col_name :: string
  fk_col_index :: nat
  fk_ref_table :: string
  fk_ref_col :: "string option"
  fk_delete_action :: fk_action
  fk_update_action :: fk_action

record index_schema =
  idx_name :: string
  idx_table :: string
  idx_columns :: "string list"
  idx_unique :: bool

record trigger_schema =
  tr_timing :: trigger_timing
  tr_event :: trigger_event
  tr_body :: bytes

record 'q table_info =
  ti_name :: string
  ti_columns :: "column_info list"
  ti_col_names :: "string list"
  next_rowid :: i64
  foreign_keys :: "foreign_key list"
  check_constraints :: "(string option \<times> 'q expr) list"

text \<open>
  Tables and indexes under their lower-case names; \<open>own_file\<close> has the tables with a file of their own, all others are in the file of the catalogue. The last field is the state of the
  full-text and vector indexes.
\<close>

record ('q, 'x) database =
  table_infos :: "string \<Rightarrow> 'q table_info option"
  table_list :: "string list"
  table_rows :: "string \<Rightarrow> row_list"
  own_file :: "string set"
  indexes_by_table :: "string \<Rightarrow> index_schema list"
  index_entries :: "string \<Rightarrow> row_list"
  index_caches :: "string \<Rightarrow> index_cache option"
  triggers_by_table :: "string \<Rightarrow> trigger_schema list"
  binlog_events :: "log_record list"
  undo_entries :: "undo_entry list"
  lock_manager :: row_lock_manager
  pager_txid :: "u64 option"
  current_txn :: u64
  search_indexes :: 'x

text \<open>
  The parameters: the virtual machine as the evaluator sees it in a state, the execution of SQL text, the largest rowid of an index as \<^verbatim>\<open>max_rowid\<close> reports it (theory \<open>BTreeClaims\<close>
  shows that it can miss rows), a new transaction number, the maintenance of full-text and vector indexes, what is left of their changes after a rollback, and the outcome of the pager's
  commit.
\<close>

record ('q, 'x) dml_params =
  vm_of :: "('q, 'x) database \<Rightarrow> 'q vm_env"
  execute_sql :: "bytes \<Rightarrow> (('q, 'x) database, unit) op"
  max_rowid_of :: "row_list \<Rightarrow> i64"
  new_txid :: "('q, 'x) database \<Rightarrow> u64"
  fts_insert :: "string \<Rightarrow> i64 \<Rightarrow> row \<Rightarrow> ('x, unit) op"
  fts_delete :: "string \<Rightarrow> i64 \<Rightarrow> ('x, unit) op"
  vec_insert :: "string \<Rightarrow> i64 \<Rightarrow> row \<Rightarrow> ('x, unit) op"
  vec_delete :: "string \<Rightarrow> i64 \<Rightarrow> 'x \<Rightarrow> 'x"
  search_rollback :: "'x \<Rightarrow> 'x \<Rightarrow> 'x"
  commit_pages :: "('q, 'x) database \<Rightarrow> unit res"

type_synonym ('q, 'x, 'a) dml = "(('q, 'x) database, 'a) op"

definition op_result :: "'a res \<Rightarrow> ('s, 'a) op" where
  "op_result r = (\<lambda>s. (r, s))"

definition table_key :: "('q, 'x) dml_params \<Rightarrow> ('q, 'x) database \<Rightarrow> string \<Rightarrow> string" where
  "table_key p db name = lowercase_key (vm_of p db) name"

definition table_info_of :: "('q, 'x) dml_params \<Rightarrow> string \<Rightarrow> ('q, 'x, 'q table_info) dml" where
  "table_info_of p name = op_get (\<lambda>db. case table_infos db (table_key p db name) of
       None \<Rightarrow> op_fail (TableNotFound name)
     | Some t \<Rightarrow> op_return t)"

definition on_search_indexes :: "('x, unit) op \<Rightarrow> ('q, 'x, unit) dml" where
  "on_search_indexes f = (\<lambda>db. case f (search_indexes db) of (r, x) \<Rightarrow> (r, db\<lparr>search_indexes := x\<rparr>))"

definition eval_row :: "('q, 'x) dml_params \<Rightarrow> 'q expr \<Rightarrow> row \<Rightarrow> col_map \<Rightarrow> ('q, 'x, value) dml" where
  "eval_row p e row m = op_get (\<lambda>db. op_result (eval_in (vm_of p db) e row m))"

fun op_each :: "('a \<Rightarrow> ('s, unit) op) \<Rightarrow> 'a list \<Rightarrow> ('s, unit) op" where
  "op_each f [] = op_return ()"
| "op_each f (x # xs) = op_bind (f x) (\<lambda>_. op_each f xs)"

fun op_collect :: "('a \<Rightarrow> ('s, 'b) op) \<Rightarrow> 'a list \<Rightarrow> ('s, 'b list) op" where
  "op_collect f [] = op_return []"
| "op_collect f (x # xs) = op_bind (f x) (\<lambda>y. op_bind (op_collect f xs) (\<lambda>ys. op_return (y # ys)))"

section \<open>Rows of a table\<close>

text \<open>The operations of the B+tree on a list of rows.\<close>

definition store_insert :: "i64 \<Rightarrow> row \<Rightarrow> row_list \<Rightarrow> row_list res" where
  "store_insert rowid row xs =
     (if rowid \<in> fst ` set xs then Err (unique_error rowid) else Ok (insort_key rowid_key (rowid, row) xs))"

definition store_delete :: "i64 \<Rightarrow> row_list \<Rightarrow> row_list" where
  "store_delete rowid xs = filter (\<lambda>x. fst x \<noteq> rowid) xs"

definition insert_row_op :: "string \<Rightarrow> i64 \<Rightarrow> row \<Rightarrow> ('q, 'x, unit) dml" where
  "insert_row_op key rowid row = op_get (\<lambda>db. op_bind (op_result (store_insert rowid row (table_rows db key))) (\<lambda>xs.
     op_modify (\<lambda>db. db\<lparr>table_rows := (table_rows db)(key := xs)\<rparr>)))"

definition delete_row_op :: "string \<Rightarrow> i64 \<Rightarrow> ('q, 'x, unit) dml" where
  "delete_row_op key rowid = op_modify (\<lambda>db. db\<lparr>table_rows := (table_rows db)(key := store_delete rowid (table_rows db key))\<rparr>)"

definition update_row_op :: "string \<Rightarrow> i64 \<Rightarrow> row \<Rightarrow> ('q, 'x, unit) dml" where
  "update_row_op key rowid row = op_bind (delete_row_op key rowid) (\<lambda>_. insert_row_op key rowid row)"

section \<open>Indexes\<close>

definition index_name_key :: "('q, 'x) dml_params \<Rightarrow> ('q, 'x) database \<Rightarrow> index_schema \<Rightarrow> string" where
  "index_name_key p db idx = lower_string (vm_of p db) (idx_name idx)"

definition indexes_for_table :: "('q, 'x) dml_params \<Rightarrow> ('q, 'x) database \<Rightarrow> string \<Rightarrow> index_schema list" where
  "indexes_for_table p db name = indexes_by_table db (table_key p db name)"

definition loaded_cache :: "('q, 'x) dml_params \<Rightarrow> index_schema \<Rightarrow> ('q, 'x, index_cache) dml" where
  "loaded_cache p idx = op_get (\<lambda>db.
     let key = index_name_key p db idx; c = ensure_index_cache_loaded (index_entries db key) (index_caches db key) in
     op_bind (op_modify (\<lambda>db. db\<lparr>index_caches := (index_caches db)(key \<mapsto> c)\<rparr>)) (\<lambda>_. op_return c))"

definition find_column_index :: "column_info list \<Rightarrow> string \<Rightarrow> nat option" where
  "find_column_index cols name = map_option ci_index (find (\<lambda>c. eq_ignore_ascii_case (ci_name c) name) cols)"

definition value_at :: "row \<Rightarrow> nat \<Rightarrow> value" where
  "value_at row i = (if i < length row then row ! i else Null)"

text \<open>The indexed values of a row; a column that the table does not have is left out.\<close>

definition index_values :: "column_info list \<Rightarrow> index_schema \<Rightarrow> row \<Rightarrow> value list" where
  "index_values cols idx row =
     concat (map (\<lambda>n. case find_column_index cols n of None \<Rightarrow> [] | Some i \<Rightarrow> [value_at row i]) (idx_columns idx))"

definition unique_violation :: "string \<Rightarrow> index_schema \<Rightarrow> kkdb_error" where
  "unique_violation name idx = ConstraintViolation (''UNIQUE constraint failed: '' @ name @ ''.'' @ text_str (join_with (ascii '', '') (map ascii (idx_columns idx))))"

text \<open>An entry of the index with the same key that belongs to another row.\<close>

definition entry_conflicts :: "value list \<Rightarrow> i64 option \<Rightarrow> row \<Rightarrow> bool" where
  "entry_conflicts keys ignored r \<longleftrightarrow>
     length keys + 1 \<le> length r \<and> list_all2 value_eq (take (length keys) r) keys \<and>
     (case List.last r of Integer x \<Rightarrow> Some x \<noteq> ignored | _ \<Rightarrow> True)"

definition unique_index_conflict_exists :: "('q, 'x) dml_params \<Rightarrow> index_schema \<Rightarrow> value list \<Rightarrow> i64 option \<Rightarrow> ('q, 'x, bool) dml" where
  "unique_index_conflict_exists p idx keys ignored =
     (if keys = [] then op_return False
      else op_bind (loaded_cache p idx) (\<lambda>c. op_get (\<lambda>db.
        let candidates = filter (\<lambda>r. Some r \<noteq> ignored) (index_rowids_for_value c (hd keys));
            numbers = concat (map (\<lambda>r. case index_entry_rowid_for_table_rowid c r of None \<Rightarrow> [] | Some n \<Rightarrow> [n]) candidates);
            found = concat (map (\<lambda>n. case map_of (index_entries db (index_name_key p db idx)) n of None \<Rightarrow> [] | Some r \<Rightarrow> [r]) numbers)
        in op_return (list_ex (entry_conflicts keys ignored) found))))"

text \<open>Addition of one with overflow checks, as a build with assertions has it.\<close>

definition i64_succ :: "i64 \<Rightarrow> i64 res" where
  "i64_succ i = (if sint i = 2 ^ 63 - 1 then Panic else Ok (i + 1))"

definition insert_index_entry :: "('q, 'x) dml_params \<Rightarrow> string \<Rightarrow> column_info list \<Rightarrow> i64 \<Rightarrow> row \<Rightarrow> index_schema \<Rightarrow> ('q, 'x, unit) dml" where
  "insert_index_entry p name cols rowid row idx =
     (let vals = index_values cols idx row in
      op_bind (if idx_unique idx \<and> Null \<notin> set vals then unique_index_conflict_exists p idx vals (Some rowid) else op_return False) (\<lambda>conflict.
        if conflict then op_fail (unique_violation name idx)
        else op_get (\<lambda>db.
          let key = index_name_key p db idx in
          op_bind (op_result (i64_succ (max_rowid_of p (index_entries db key)))) (\<lambda>n.
          op_bind (op_result (store_insert n (vals @ [Integer rowid]) (index_entries db key))) (\<lambda>es.
          op_modify (\<lambda>db. db\<lparr>index_entries := (index_entries db)(key := es),
            index_caches := (case vals of [] \<Rightarrow> index_caches db
              | v # _ \<Rightarrow> (index_caches db)(key := index_cache_insert v rowid n (index_caches db key)))\<rparr>))))))"

definition insert_index_entries :: "('q, 'x) dml_params \<Rightarrow> string \<Rightarrow> i64 \<Rightarrow> row \<Rightarrow> ('q, 'x, unit) dml" where
  "insert_index_entries p name rowid row = op_get (\<lambda>db.
     if indexes_for_table p db name = [] then op_return ()
     else op_bind (table_info_of p name) (\<lambda>t. op_each (insert_index_entry p name (ti_columns t) rowid row) (indexes_for_table p db name)))"

definition delete_index_entry :: "('q, 'x) dml_params \<Rightarrow> i64 \<Rightarrow> index_schema \<Rightarrow> ('q, 'x, unit) dml" where
  "delete_index_entry p rowid idx =
     op_bind (loaded_cache p idx) (\<lambda>c.
       case index_entry_rowid_for_table_rowid c rowid of
         None \<Rightarrow> op_return ()
       | Some n \<Rightarrow> op_get (\<lambda>db.
           let key = index_name_key p db idx in
           op_modify (\<lambda>db. db\<lparr>index_entries := (index_entries db)(key := store_delete n (index_entries db key)),
             index_caches := (case map_of (index_entries db key) n of
                 Some (v # _) \<Rightarrow> (index_caches db)(key := index_cache_delete v rowid (index_caches db key))
               | _ \<Rightarrow> index_caches db)\<rparr>)))"

definition delete_index_entries :: "('q, 'x) dml_params \<Rightarrow> string \<Rightarrow> i64 \<Rightarrow> ('q, 'x, unit) dml" where
  "delete_index_entries p name rowid = op_get (\<lambda>db. op_each (delete_index_entry p rowid) (indexes_for_table p db name))"

text \<open>The key of a row in a unique index; here a missing column is an error.\<close>

definition unique_key :: "string \<Rightarrow> column_info list \<Rightarrow> index_schema \<Rightarrow> row \<Rightarrow> value list res" where
  "unique_key name cols idx row =
     all_ok (map (\<lambda>n. case find_column_index cols n of None \<Rightarrow> Err (ColumnNotFound (name @ ''.'' @ n)) | Some i \<Rightarrow> Ok (value_at row i)) (idx_columns idx))"

definition validate_unique_index :: "('q, 'x) dml_params \<Rightarrow> string \<Rightarrow> column_info list \<Rightarrow> i64 \<Rightarrow> row \<Rightarrow> i64 option \<Rightarrow> index_schema \<Rightarrow> ('q, 'x, unit) dml" where
  "validate_unique_index p name cols rowid row ignored idx =
     (if \<not> idx_unique idx then op_return ()
      else op_bind (op_result (unique_key name cols idx row)) (\<lambda>keys.
        if Null \<in> set keys then op_return ()
        else op_bind (unique_index_conflict_exists p idx keys (or_else ignored (Some rowid))) (\<lambda>conflict.
          if conflict then op_fail (unique_violation name idx) else op_return ())))"

definition validate_unique_indexes_for_row :: "('q, 'x) dml_params \<Rightarrow> string \<Rightarrow> i64 \<Rightarrow> row \<Rightarrow> i64 option \<Rightarrow> ('q, 'x, unit) dml" where
  "validate_unique_indexes_for_row p name rowid row ignored = op_get (\<lambda>db.
     if indexes_for_table p db name = [] then op_return ()
     else op_bind (table_info_of p name) (\<lambda>t.
       op_each (validate_unique_index p name (ti_columns t) rowid row ignored) (indexes_for_table p db name)))"

section \<open>Foreign keys\<close>

definition primary_key_index :: "column_info list \<Rightarrow> nat option" where
  "primary_key_index cols = map_option ci_index (find ci_primary_key cols)"

definition referenced_column :: "column_info list \<Rightarrow> string option \<Rightarrow> nat option" where
  "referenced_column cols ref = (case ref of Some c \<Rightarrow> find_column_index cols c | None \<Rightarrow> primary_key_index cols)"

definition fk_value_exists_in_parent :: "('q, 'x) dml_params \<Rightarrow> string \<Rightarrow> string option \<Rightarrow> value \<Rightarrow> ('q, 'x, bool) dml" where
  "fk_value_exists_in_parent p name ref v =
     op_bind (table_info_of p name) (\<lambda>t. op_get (\<lambda>db.
       let i = (case referenced_column (ti_columns t) ref of None \<Rightarrow> 0 | Some i \<Rightarrow> i) in
       op_return (list_ex (\<lambda>x. i < length (snd x) \<and> value_eq (snd x ! i) v) (table_rows db (table_key p db name)))))"

definition check_fk :: "('q, 'x) dml_params \<Rightarrow> string \<Rightarrow> row \<Rightarrow> foreign_key \<Rightarrow> ('q, 'x, unit) dml" where
  "check_fk p name row fk =
     (let v = value_at row (fk_col_index fk) in
      if v = Null then op_return ()
      else op_bind (fk_value_exists_in_parent p (fk_ref_table fk) (fk_ref_col fk) v) (\<lambda>found.
        if found then op_return ()
        else op_fail (ConstraintViolation (''FOREIGN KEY constraint failed: '' @ name @ ''.'' @ fk_col_name fk @ '' references '' @ fk_ref_table fk))))"

definition check_fk_on_insert :: "('q, 'x) dml_params \<Rightarrow> string \<Rightarrow> row \<Rightarrow> ('q, 'x, unit) dml" where
  "check_fk_on_insert p name row = op_bind (table_info_of p name) (\<lambda>t. op_each (check_fk p name row) (foreign_keys t))"

text \<open>A value as SQL text; BLOBs have none.\<close>

definition sql_literal :: "value \<Rightarrow> bytes option" where
  "sql_literal v =
     (case v of
        Integer i \<Rightarrow> Some (ascii (show_int (sint i)))
      | Real r \<Rightarrow> Some (ascii (show_f64 r))
      | Text t \<Rightarrow> Some (39 # concat (map (\<lambda>b. if b = 39 then [39, 39] else [b]) t) @ [39])
      | _ \<Rightarrow> None)"

definition sql_update :: "string \<Rightarrow> string \<Rightarrow> bytes \<Rightarrow> bytes \<Rightarrow> bytes" where
  "sql_update tbl col new old =
     ascii (''UPDATE '' @ tbl @ '' SET '' @ col @ '' = '') @ new @ ascii ('' WHERE '' @ col @ '' = '') @ old"

definition enforce_fk_delete :: "('q, 'x) dml_params \<Rightarrow> string \<Rightarrow> row \<Rightarrow> string \<Rightarrow> foreign_key \<Rightarrow> ('q, 'x, unit) dml" where
  "enforce_fk_delete p parent row child fk =
     (if \<not> eq_ignore_ascii_case (fk_ref_table fk) parent then op_return ()
      else op_bind (table_info_of p parent) (\<lambda>t.
        case referenced_column (ti_columns t) (fk_ref_col fk) of
          None \<Rightarrow> op_return ()
        | Some i \<Rightarrow>
            if \<not> i < length row \<or> row ! i = Null then op_return ()
            else case fk_delete_action fk of
                FkCascade \<Rightarrow> (case sql_literal (row ! i) of None \<Rightarrow> op_return ()
                  | Some l \<Rightarrow> execute_sql p (ascii (''DELETE FROM '' @ child @ '' WHERE '' @ fk_col_name fk @ '' = '') @ l))
              | FkSetNull \<Rightarrow> (case sql_literal (row ! i) of None \<Rightarrow> op_return ()
                  | Some l \<Rightarrow> execute_sql p (sql_update child (fk_col_name fk) (ascii ''NULL'') l))
              | FkRestrict \<Rightarrow> op_bind (fk_value_exists_in_parent p child (Some (fk_col_name fk)) (row ! i)) (\<lambda>has_child.
                  if has_child then op_fail (ConstraintViolation (''FOREIGN KEY constraint failed: deleting from '' @ parent @ '' has dependent rows in '' @ child))
                  else op_return ())))"

definition enforce_fk_parent_delete :: "('q, 'x) dml_params \<Rightarrow> string \<Rightarrow> row \<Rightarrow> ('q, 'x, unit) dml" where
  "enforce_fk_parent_delete p parent row = op_get (\<lambda>db.
     op_each (\<lambda>child. op_get (\<lambda>db. case table_infos db (table_key p db child) of
         None \<Rightarrow> op_return ()
       | Some t \<Rightarrow> op_each (enforce_fk_delete p parent row child) (foreign_keys t))) (table_list db))"

definition enforce_fk_update :: "('q, 'x) dml_params \<Rightarrow> string \<Rightarrow> row \<Rightarrow> row \<Rightarrow> string \<Rightarrow> foreign_key \<Rightarrow> ('q, 'x, unit) dml" where
  "enforce_fk_update p parent old_row new_row child fk =
     (if \<not> eq_ignore_ascii_case (fk_ref_table fk) parent then op_return ()
      else op_bind (table_info_of p parent) (\<lambda>t.
        let i = (case referenced_column (ti_columns t) (fk_ref_col fk) of None \<Rightarrow> 0 | Some i \<Rightarrow> i);
            old = value_at old_row i; new = value_at new_row i in
        if value_eq old new \<or> old = Null then op_return ()
        else case (sql_literal old, if new = Null then Some (ascii ''NULL'') else sql_literal new) of
            (Some old_lit, Some new_lit) \<Rightarrow>
              (case fk_update_action fk of
                 FkCascade \<Rightarrow> execute_sql p (sql_update child (fk_col_name fk) new_lit old_lit)
               | FkSetNull \<Rightarrow> execute_sql p (sql_update child (fk_col_name fk) (ascii ''NULL'') old_lit)
               | FkRestrict \<Rightarrow> op_bind (fk_value_exists_in_parent p child (Some (fk_col_name fk)) old) (\<lambda>has_child.
                   if has_child then op_fail (ConstraintViolation (''FOREIGN KEY constraint failed: updating '' @ parent @ '' changes referenced value in '' @ child @ ''.'' @ fk_col_name fk))
                   else op_return ()))
          | _ \<Rightarrow> op_return ()))"

definition enforce_fk_parent_update :: "('q, 'x) dml_params \<Rightarrow> string \<Rightarrow> row \<Rightarrow> row \<Rightarrow> ('q, 'x, unit) dml" where
  "enforce_fk_parent_update p parent old_row new_row = op_get (\<lambda>db.
     op_each (\<lambda>child. op_get (\<lambda>db. case table_infos db (table_key p db child) of
         None \<Rightarrow> op_return ()
       | Some t \<Rightarrow> op_each (enforce_fk_update p parent old_row new_row child) (foreign_keys t))) (table_list db))"

section \<open>CHECK constraints\<close>

text \<open>Constraints have an evaluator of their own. Arithmetic that overflows panics.\<close>

definition chk_cmp :: "value \<Rightarrow> value \<Rightarrow> int" where
  "chk_cmp l r =
     (let reals = (\<lambda>a b. case f64_partial_cmp a b of Some Less \<Rightarrow> - 1 | Some Greater \<Rightarrow> 1 | _ \<Rightarrow> 0);
          ords = (\<lambda>c. case c of Less \<Rightarrow> - 1 | Equal \<Rightarrow> 0 | Greater \<Rightarrow> 1) in
      case (l, r) of
        (Integer a, Integer b) \<Rightarrow> ords (i64_cmp a b)
      | (Real a, Real b) \<Rightarrow> reals a b
      | (Integer a, Real b) \<Rightarrow> reals (i64_as_f64 a) b
      | (Real a, Integer b) \<Rightarrow> reals a (i64_as_f64 b)
      | (Text a, Text b) \<Rightarrow> ords (bytes_cmp a b)
      | _ \<Rightarrow> 0)"

definition checked :: "int \<Rightarrow> value res" where
  "checked i = (if - (2 ^ 63) \<le> i \<and> i < 2 ^ 63 then Ok (Integer (word_of_int i)) else Panic)"

definition chk_arith :: "(int \<Rightarrow> int \<Rightarrow> int) \<Rightarrow> (f64 \<Rightarrow> f64 \<Rightarrow> f64) \<Rightarrow> value \<Rightarrow> value \<Rightarrow> value res" where
  "chk_arith on_ints on_reals l r =
     (case (l, r) of
        (Integer a, Integer b) \<Rightarrow> checked (on_ints (sint a) (sint b))
      | (Real a, Real b) \<Rightarrow> Ok (Real (on_reals a b))
      | (Integer a, Real b) \<Rightarrow> Ok (Real (on_reals (i64_as_f64 a) b))
      | (Real a, Integer b) \<Rightarrow> Ok (Real (on_reals a (i64_as_f64 b)))
      | _ \<Rightarrow> Ok Null)"

definition chk_truthy :: "value \<Rightarrow> bool" where
  "chk_truthy v \<longleftrightarrow> v \<noteq> Integer 0 \<and> v \<noteq> Null"

definition chk_binary :: "binary_operator \<Rightarrow> value \<Rightarrow> value \<Rightarrow> value res" where
  "chk_binary op l r =
     (let compare = (\<lambda>b. Ok (if l = Null \<or> r = Null then Null else bool_value b)) in
      case op of
        OpEqual \<Rightarrow> compare (value_eq l r)
      | OpNotEqual \<Rightarrow> compare (\<not> value_eq l r)
      | OpLessThan \<Rightarrow> compare (chk_cmp l r < 0)
      | OpLessThanOrEqual \<Rightarrow> compare (chk_cmp l r \<le> 0)
      | OpGreaterThan \<Rightarrow> compare (0 < chk_cmp l r)
      | OpGreaterThanOrEqual \<Rightarrow> compare (0 \<le> chk_cmp l r)
      | OpAdd \<Rightarrow> chk_arith (+) f64_add l r
      | OpSubtract \<Rightarrow> chk_arith (-) f64_sub l r
      | OpMultiply \<Rightarrow> chk_arith (*) f64_mul l r
      | OpDivide \<Rightarrow>
          (case (l, r) of
             (Integer a, Integer b) \<Rightarrow> if b = 0 then Ok Null else checked (sgn (sint a) * sgn (sint b) * (\<bar>sint a\<bar> div \<bar>sint b\<bar>))
           | _ \<Rightarrow> Ok Null)
      | OpAnd \<Rightarrow> Ok (bool_value (chk_truthy l \<and> chk_truthy r))
      | OpOr \<Rightarrow> Ok (bool_value (chk_truthy l \<or> chk_truthy r))
      | _ \<Rightarrow> Ok Null)"

definition first_position :: "('a \<Rightarrow> bool) \<Rightarrow> 'a list \<Rightarrow> nat option" where
  "first_position P xs = (let n = length (takeWhile (\<lambda>x. \<not> P x) xs) in if n < length xs then Some n else None)"

definition check_column :: "'q vm_env \<Rightarrow> string list \<Rightarrow> row \<Rightarrow> string \<Rightarrow> value" where
  "check_column env names row column =
     (case first_position (\<lambda>n. lower_string env n = lower_string env column) names of
        None \<Rightarrow> Null
      | Some i \<Rightarrow> value_at row i)"

fun eval_check_expr_simple :: "'q vm_env \<Rightarrow> string list \<Rightarrow> row \<Rightarrow> 'q expr \<Rightarrow> value res" where
  "eval_check_expr_simple env names row (IntegerLiteral i) = Ok (Integer i)"
| "eval_check_expr_simple env names row (RealLiteral r) = Ok (Real r)"
| "eval_check_expr_simple env names row (StringLiteral s) = Ok (Text s)"
| "eval_check_expr_simple env names row NullLiteral = Ok Null"
| "eval_check_expr_simple env names row (ColumnRef tbl column) = Ok (check_column env names row column)"
| "eval_check_expr_simple env names row (BinaryOp l op r) =
     res_bind (eval_check_expr_simple env names row l) (\<lambda>a. res_bind (eval_check_expr_simple env names row r) (\<lambda>b. chk_binary op a b))"
| "eval_check_expr_simple env names row (IsNull e negated) =
     res_bind (eval_check_expr_simple env names row e) (\<lambda>v. Ok (bool_value ((v = Null) \<noteq> negated)))"
| "eval_check_expr_simple env names row (UnaryOp op e) =
     res_bind (eval_check_expr_simple env names row e) (\<lambda>v.
       case op of
         OpNot \<Rightarrow> Ok (bool_value (\<not> chk_truthy v))
       | OpMinus \<Rightarrow> (case v of Integer i \<Rightarrow> checked (- sint i) | Real r \<Rightarrow> Ok (Real (f64_neg r)) | _ \<Rightarrow> Ok Null))"
| "eval_check_expr_simple env names row _ = Ok Null"

definition check_constraint :: "'q vm_env \<Rightarrow> string \<Rightarrow> string list \<Rightarrow> row \<Rightarrow> string option \<times> 'q expr \<Rightarrow> unit res" where
  "check_constraint env tbl names row c =
     res_bind (eval_check_expr_simple env names row (snd c)) (\<lambda>v.
       if v = Integer 0
       then Err (ConstraintViolation (''CHECK constraint '' @ (case fst c of None \<Rightarrow> ''CHECK'' | Some n \<Rightarrow> n) @ '' failed for table '' @ tbl))
       else Ok ())"

definition check_constraints_for_row :: "('q, 'x) dml_params \<Rightarrow> string \<Rightarrow> row \<Rightarrow> ('q, 'x, unit) dml" where
  "check_constraints_for_row p name row =
     op_bind (table_info_of p name) (\<lambda>t. op_get (\<lambda>db.
       op_each (\<lambda>c. op_result (check_constraint (vm_of p db) name (ti_col_names t) row c)) (check_constraints t)))"

section \<open>Triggers\<close>

definition has_prefix :: "bytes \<Rightarrow> bytes \<Rightarrow> bool" where
  "has_prefix pre t \<longleftrightarrow> take (length pre) t = pre"

definition has_suffix :: "bytes \<Rightarrow> bytes \<Rightarrow> bool" where
  "has_suffix post t \<longleftrightarrow> has_prefix (rev post) (rev t)"

text \<open>The statements of a trigger body; a body that is only a keyword has none.\<close>

definition trigger_statements :: "'q vm_env \<Rightarrow> bytes \<Rightarrow> bytes list" where
  "trigger_statements env body =
     (let inner = trim_text body; upper = to_uppercase (base_env env) inner in
      if eq_ignore_ascii_case (text_str inner) ''BEGIN'' \<or> eq_ignore_ascii_case (text_str inner) ''END'' then []
      else let inner = (if has_prefix (ascii ''BEGIN'') upper \<and> has_suffix (ascii ''END'') upper
                        then trim_text (take (length inner - 8) (drop 5 inner)) else inner) in
        filter (\<lambda>s. s \<noteq> []) (map trim_text (split_bytes 59 inner)))"

text \<open>What a trigger statement returns is ignored.\<close>

definition run_ignoring :: "('s, 'a) op \<Rightarrow> ('s, unit) op" where
  "run_ignoring f = (\<lambda>s. case f s of (Panic, s') \<Rightarrow> (Panic, s') | (_, s') \<Rightarrow> (Ok (), s'))"

definition fire_triggers :: "('q, 'x) dml_params \<Rightarrow> string \<Rightarrow> trigger_timing \<Rightarrow> trigger_event \<Rightarrow> ('q, 'x, unit) dml" where
  "fire_triggers p name timing event = op_get (\<lambda>db.
     let bodies = map tr_body (filter (\<lambda>t. tr_timing t = timing \<and> tr_event t = event) (triggers_by_table db (lower_string (vm_of p db) name))) in
     op_each (\<lambda>s. run_ignoring (execute_sql p s)) (concat (map (trigger_statements (vm_of p db)) bodies)))"

end
