(* ===== verification/Dml.thy ===== *)
theory Dml
  imports DmlState
begin

text \<open>
  \<^verbatim>\<open>INSERT\<close>, \<^verbatim>\<open>UPDATE\<close> and \<^verbatim>\<open>DELETE\<close> (\<^verbatim>\<open>src/src/vm/exec_dml.rs\<close>): the assignment of rowids, the four policies for conflicts, constraints, indexes, binary log, undo entries and row locks in the order of
  the code, the implicit transaction of an \<^verbatim>\<open>INSERT\<close>, and the choice of rows through an index. A statement of a trigger is taken not to end the transaction it runs in.
\<close>

section \<open>Statements\<close>

datatype 'q insert_source = InsertValues "'q expr list list" | InsertSelect 'q

datatype 'q conflict_policy =
    ConflictError
  | ConflictReplace
  | ConflictIgnore
  | ConflictUpdate "(string \<times> 'q expr) list"

record 'q insert_stmt =
  ins_table :: string
  ins_columns :: "string list option"
  ins_source :: "'q insert_source"
  ins_conflict :: "'q conflict_policy"
  ins_returning :: "'q expr list option"

record 'q update_stmt =
  upd_table :: string
  upd_assignments :: "(string \<times> 'q expr) list"
  upd_where :: "'q expr option"
  upd_returning :: "'q expr list option"

record 'q delete_stmt =
  del_table :: string
  del_where :: "'q expr option"
  del_returning :: "'q expr list option"

datatype exec_result =
    ExecOk string
  | RowsAffected nat string
  | QueryResult "string list" "row list"
  | ExplainResult string

section \<open>Parts of all three\<close>

definition row_cell :: "row \<Rightarrow> nat \<Rightarrow> value res" where
  "row_cell row i = (if i < length row then Ok (row ! i) else Panic)"

definition in_txn :: "('q, 'x) database \<Rightarrow> bool" where
  "in_txn db \<longleftrightarrow> pager_txid db \<noteq> None"

definition log_event :: "(u64 \<Rightarrow> log_record) \<Rightarrow> ('q, 'x, unit) dml" where
  "log_event f = op_modify (\<lambda>db. db\<lparr>binlog_events := binlog_events db @ [f (case pager_txid db of None \<Rightarrow> 0 | Some t \<Rightarrow> t)]\<rparr>)"

definition push_undo :: "(u64 \<Rightarrow> undo_entry) \<Rightarrow> ('q, 'x, unit) dml" where
  "push_undo f = op_get (\<lambda>db.
     if in_txn db \<and> current_txn db \<noteq> 0 then op_modify (\<lambda>db. db\<lparr>undo_entries := undo_entries db @ [f (current_txn db)]\<rparr>) else op_return ())"

definition lock_row :: "string \<Rightarrow> i64 \<Rightarrow> ('q, 'x, unit) dml" where
  "lock_row name rowid = op_get (\<lambda>db.
     if in_txn db \<and> current_txn db \<noteq> 0
     then case try_lock_row name rowid (current_txn db) (lock_manager db) of (r, m) \<Rightarrow>
       op_bind (op_modify (\<lambda>db. db\<lparr>lock_manager := m\<rparr>)) (\<lambda>_. op_result r)
     else op_return ())"

definition find_row_op :: "string \<Rightarrow> i64 \<Rightarrow> ('q, 'x, row option) dml" where
  "find_row_op key rowid = op_get (\<lambda>db. op_return (map_of (table_rows db key) rowid))"

definition vec_delete_op :: "('q, 'x) dml_params \<Rightarrow> string \<Rightarrow> i64 \<Rightarrow> ('q, 'x, unit) dml" where
  "vec_delete_op p name rowid = op_modify (\<lambda>db. db\<lparr>search_indexes := vec_delete p name rowid (search_indexes db)\<rparr>)"

definition search_insert :: "('q, 'x) dml_params \<Rightarrow> string \<Rightarrow> i64 \<Rightarrow> row \<Rightarrow> ('q, 'x, unit) dml" where
  "search_insert p name rowid row =
     op_bind (on_search_indexes (fts_insert p name rowid row)) (\<lambda>_. on_search_indexes (vec_insert p name rowid row))"

definition build_table_col_map :: "column_info list \<Rightarrow> col_map" where
  "build_table_col_map cols = fold (\<lambda>c m. m(to_ascii_lowercase (ci_name c) \<mapsto> ci_index c)) cols Map.empty"

fun returning_row :: "'q vm_env \<Rightarrow> col_map \<Rightarrow> row \<Rightarrow> 'q expr list \<Rightarrow> row res" where
  "returning_row env m row [] = Ok []"
| "returning_row env m row (e # es) =
     res_bind (case e of ColumnRef t c \<Rightarrow> if c = ''*'' then Ok row else res_bind (eval_in env e row m) (\<lambda>v. Ok [v])
               | _ \<Rightarrow> res_bind (eval_in env e row m) (\<lambda>v. Ok [v])) (\<lambda>vs.
     res_bind (returning_row env m row es) (\<lambda>ws. Ok (vs @ ws)))"

definition returning_names :: "'q expr list \<Rightarrow> string list" where
  "returning_names es = map (\<lambda>(i, e). case e of ColumnRef t c \<Rightarrow> c | _ \<Rightarrow> ''col'' @ show_nat i) (enumerate 0 es)"

definition returning_result :: "('q, 'x) dml_params \<Rightarrow> string \<Rightarrow> 'q expr list \<Rightarrow> row list \<Rightarrow> ('q, 'x, exec_result) dml" where
  "returning_result p name es rows =
     op_bind (table_info_of p name) (\<lambda>t. op_get (\<lambda>db.
     op_bind (op_result (all_ok (map (\<lambda>r. returning_row (vm_of p db) (build_table_col_map (ti_columns t)) r es) rows))) (\<lambda>out.
     op_return (QueryResult (returning_names es) out))))"

section \<open>INSERT\<close>

definition column_indices :: "column_info list \<Rightarrow> string list option \<Rightarrow> nat list res" where
  "column_indices cols names =
     (case names of
        None \<Rightarrow> Ok [0..<length cols]
      | Some ns \<Rightarrow> all_ok (map (\<lambda>c. case first_position (\<lambda>tc. eq_ignore_ascii_case (ci_name tc) c) cols of
            None \<Rightarrow> Err (ColumnNotFound c) | Some i \<Rightarrow> Ok i) ns))"

definition place_values :: "nat \<Rightarrow> nat list \<Rightarrow> value list \<Rightarrow> row" where
  "place_values n indices vals = fold (\<lambda>(i, v) row. row[i := v]) (zip indices vals) (replicate n Null)"

text \<open>The rowid of a new row, the next free rowid, and the row, which gets its rowid as the primary key when that is NULL.\<close>

definition assign_rowid :: "nat option \<Rightarrow> i64 \<Rightarrow> row \<Rightarrow> (i64 \<times> i64 \<times> row) res" where
  "assign_rowid pk next_id row =
     (case pk of
        None \<Rightarrow> res_bind (i64_succ next_id) (\<lambda>n. Ok (next_id, n, row))
      | Some i \<Rightarrow> res_bind (row_cell row i) (\<lambda>v.
          case v of
            Integer rid \<Rightarrow> if sint next_id \<le> sint rid then res_bind (i64_succ rid) (\<lambda>n. Ok (rid, n, row)) else Ok (rid, next_id, row)
          | Null \<Rightarrow> res_bind (i64_succ next_id) (\<lambda>n. Ok (next_id, n, row[i := Integer next_id]))
          | _ \<Rightarrow> res_bind (i64_succ next_id) (\<lambda>n. Ok (next_id, n, row))))"

fun check_not_null :: "string \<Rightarrow> row \<Rightarrow> column_info list \<Rightarrow> unit res" where
  "check_not_null name row [] = Ok ()"
| "check_not_null name row (c # cs) =
     (if ci_not_null c \<and> \<not> ci_primary_key c
      then res_bind (row_cell row (ci_index c)) (\<lambda>v.
        if v = Null then Err (ConstraintViolation (''NOT NULL constraint failed: '' @ name @ ''.'' @ ci_name c)) else check_not_null name row cs)
      else check_not_null name row cs)"

text \<open>Each policy returns whether the row counts as inserted. Only the default policy logs its rows for \<^verbatim>\<open>ROLLBACK\<close>.\<close>

definition insert_or_error :: "('q, 'x) dml_params \<Rightarrow> string \<Rightarrow> string \<Rightarrow> i64 \<Rightarrow> row \<Rightarrow> ('q, 'x, bool) dml" where
  "insert_or_error p name key rowid row =
     op_bind (validate_unique_indexes_for_row p name rowid row None) (\<lambda>_.
     op_bind (insert_row_op key rowid row) (\<lambda>_.
     op_bind (insert_index_entries p name rowid row) (\<lambda>_.
     op_bind (search_insert p name rowid row) (\<lambda>_.
     op_bind (log_event (\<lambda>t. Insert t (ascii name) rowid row)) (\<lambda>_.
     op_bind (push_undo (UndoInsert name rowid)) (\<lambda>_.
     op_bind (fire_triggers p name AfterTrigger InsertEvent) (\<lambda>_. op_return True)))))))"

text \<open>Only a violated constraint is a conflict; another error of the check is dropped.\<close>

definition unique_conflict :: "('q, 'x) dml_params \<Rightarrow> string \<Rightarrow> i64 \<Rightarrow> row \<Rightarrow> ('q, 'x, bool) dml" where
  "unique_conflict p name rowid row = (\<lambda>db.
     case validate_unique_indexes_for_row p name rowid row None db of
       (Panic, db') \<Rightarrow> (Panic, db')
     | (Err (ConstraintViolation _), db') \<Rightarrow> (Ok True, db')
     | (_, db') \<Rightarrow> (Ok False, db'))"

definition insert_or_ignore :: "('q, 'x) dml_params \<Rightarrow> string \<Rightarrow> string \<Rightarrow> nat option \<Rightarrow> i64 \<Rightarrow> row \<Rightarrow> ('q, 'x, bool) dml" where
  "insert_or_ignore p name key pk rowid row =
     op_bind (unique_conflict p name rowid row) (\<lambda>conflict.
     op_bind (find_row_op key rowid) (\<lambda>found.
     if conflict \<or> pk \<noteq> None \<and> found \<noteq> None then op_return False
     else op_bind (insert_row_op key rowid row) (\<lambda>_.
       op_bind (insert_index_entries p name rowid row) (\<lambda>_.
       op_bind (log_event (\<lambda>t. Insert t (ascii name) rowid row)) (\<lambda>_.
       op_bind (fire_triggers p name AfterTrigger InsertEvent) (\<lambda>_. op_return True))))))"

text \<open>The first row whose value in a column equals the given one.\<close>

definition row_with_value :: "row_list \<Rightarrow> nat \<Rightarrow> value \<Rightarrow> i64 option" where
  "row_with_value rows i v = map_option fst (find (\<lambda>x. i < length (snd x) \<and> value_eq (snd x ! i) v) rows)"

definition existing_rowid_for_pk :: "row_list \<Rightarrow> nat option \<Rightarrow> row \<Rightarrow> i64 option" where
  "existing_rowid_for_pk rows pk row =
     (case pk of
        None \<Rightarrow> None
      | Some i \<Rightarrow> (case value_at row i of
          Integer k \<Rightarrow> if map_of rows k \<noteq> None then Some k else None
        | v \<Rightarrow> row_with_value rows i v))"

definition index_key :: "value list \<Rightarrow> bytes" where
  "index_key vs = concat (map (\<lambda>v. let e = serialize v in le_bytes 4 (word_of_nat (length e) :: u32) @ e) vs)"

text \<open>The rows that a unique index holds under the key of the new row.\<close>

definition conflicting_rowids :: "('q, 'x) dml_params \<Rightarrow> ('q, 'x) database \<Rightarrow> column_info list \<Rightarrow> i64 \<Rightarrow> row \<Rightarrow> index_schema \<Rightarrow> i64 list res" where
  "conflicting_rowids p db cols rowid row idx =
     (if \<not> idx_unique idx then Ok []
      else res_bind (all_ok (concat (map (\<lambda>n. case find_column_index cols n of None \<Rightarrow> [] | Some i \<Rightarrow> [row_cell row i]) (idx_columns idx)))) (\<lambda>keys.
        if Null \<in> set keys then Ok []
        else Ok (concat (map (\<lambda>(n, r). case (if r = [] then Null else List.last r) of
            Integer t \<Rightarrow> if t \<noteq> rowid \<and> index_key (butlast r) = index_key keys then [t] else []
          | _ \<Rightarrow> []) (index_entries db (index_name_key p db idx))))))"

definition replace_conflicts :: "('q, 'x) dml_params \<Rightarrow> string \<Rightarrow> i64 \<Rightarrow> row \<Rightarrow> ('q, 'x, i64 list) dml" where
  "replace_conflicts p name rowid row = op_get (\<lambda>db.
     if filter idx_unique (indexes_for_table p db name) = [] then op_return []
     else op_bind (table_info_of p name) (\<lambda>t.
       op_bind (op_result (all_ok (map (conflicting_rowids p db (ti_columns t) rowid row) (indexes_for_table p db name)))) (\<lambda>ids.
       op_return (concat ids))))"

definition remove_conflicting :: "('q, 'x) dml_params \<Rightarrow> string \<Rightarrow> string \<Rightarrow> i64 \<Rightarrow> ('q, 'x, unit) dml" where
  "remove_conflicting p name key rowid =
     op_bind (on_search_indexes (fts_delete p name rowid)) (\<lambda>_.
     op_bind (delete_index_entries p name rowid) (\<lambda>_. delete_row_op key rowid))"

definition remove_for_pk :: "('q, 'x) dml_params \<Rightarrow> string \<Rightarrow> string \<Rightarrow> i64 \<Rightarrow> ('q, 'x, unit) dml" where
  "remove_for_pk p name key rowid =
     op_bind (find_row_op key rowid) (\<lambda>old.
     op_bind (remove_conflicting p name key rowid) (\<lambda>_.
     case old of None \<Rightarrow> op_return () | Some r \<Rightarrow> push_undo (UndoDelete name rowid r)))"

definition insert_or_replace :: "('q, 'x) dml_params \<Rightarrow> string \<Rightarrow> string \<Rightarrow> nat option \<Rightarrow> i64 \<Rightarrow> row \<Rightarrow> ('q, 'x, bool) dml" where
  "insert_or_replace p name key pk rowid row =
     op_bind (op_get (\<lambda>db. case existing_rowid_for_pk (table_rows db key) pk row of
         None \<Rightarrow> op_return () | Some k \<Rightarrow> remove_for_pk p name key k)) (\<lambda>_.
     op_bind (replace_conflicts p name rowid row) (\<lambda>ids.
     op_bind (op_each (remove_conflicting p name key) ids) (\<lambda>_.
     op_bind (insert_row_op key rowid row) (\<lambda>_.
     op_bind (insert_index_entries p name rowid row) (\<lambda>_.
     op_bind (search_insert p name rowid row) (\<lambda>_.
     op_bind (log_event (\<lambda>t. Insert t (ascii name) rowid row)) (\<lambda>_.
     op_bind (fire_triggers p name AfterTrigger InsertEvent) (\<lambda>_. op_return True))))))))"

text \<open>
  The assignments of \<^verbatim>\<open>ON CONFLICT DO UPDATE\<close>, which see the old row; an unknown column is skipped.
\<close>

fun upsert_row :: "'q vm_env \<Rightarrow> 'q table_info \<Rightarrow> row \<Rightarrow> (string \<times> 'q expr) list \<Rightarrow> row \<Rightarrow> row res" where
  "upsert_row env t old [] row = Ok row"
| "upsert_row env t old ((c, e) # as) row =
     (case find_column_index (ti_columns t) c of
        None \<Rightarrow> upsert_row env t old as row
      | Some i \<Rightarrow>
          res_bind (eval_in env e old (fold (\<lambda>(i, n) m. m(to_ascii_lowercase n \<mapsto> i)) (enumerate 0 (ti_col_names t)) Map.empty)) (\<lambda>v.
          upsert_row env t old as (row[i := v])))"

definition upsert_existing :: "('q, 'x) dml_params \<Rightarrow> string \<Rightarrow> string \<Rightarrow> (string \<times> 'q expr) list \<Rightarrow> i64 \<Rightarrow> ('q, 'x, bool) dml" where
  "upsert_existing p name key assignments rowid =
     op_bind (find_row_op key rowid) (\<lambda>found. let old = (case found of None \<Rightarrow> [] | Some r \<Rightarrow> r) in
     op_bind (table_info_of p name) (\<lambda>t. op_get (\<lambda>db.
     op_bind (op_result (upsert_row (vm_of p db) t old assignments old)) (\<lambda>new.
     op_bind (check_constraints_for_row p name new) (\<lambda>_.
     op_bind (check_fk_on_insert p name new) (\<lambda>_.
     op_bind (on_search_indexes (fts_delete p name rowid)) (\<lambda>_.
     op_bind (delete_index_entries p name rowid) (\<lambda>_.
     op_bind (validate_unique_indexes_for_row p name rowid new (Some rowid)) (\<lambda>_.
     op_bind (update_row_op key rowid new) (\<lambda>_.
     op_bind (insert_index_entries p name rowid new) (\<lambda>_.
     op_bind (on_search_indexes (fts_insert p name rowid new)) (\<lambda>_.
     op_bind (vec_delete_op p name rowid) (\<lambda>_.
     op_bind (on_search_indexes (vec_insert p name rowid new)) (\<lambda>_.
     op_bind (log_event (\<lambda>t. Update t (ascii name) rowid old new)) (\<lambda>_.
     op_bind (lock_row name rowid) (\<lambda>_.
     op_bind (push_undo (UndoUpdate name rowid old)) (\<lambda>_. op_return True)))))))))))))))))"

definition insert_or_update :: "('q, 'x) dml_params \<Rightarrow> string \<Rightarrow> string \<Rightarrow> nat option \<Rightarrow> (string \<times> 'q expr) list \<Rightarrow> i64 \<Rightarrow> row \<Rightarrow> ('q, 'x, bool) dml" where
  "insert_or_update p name key pk assignments rowid row = op_get (\<lambda>db.
     let i = (case pk of None \<Rightarrow> 0 | Some i \<Rightarrow> i) in
     case row_with_value (table_rows db key) i (value_at row i) of
       Some k \<Rightarrow> upsert_existing p name key assignments k
     | None \<Rightarrow>
         op_bind (insert_row_op key rowid row) (\<lambda>_.
         op_bind (run_ignoring (insert_index_entries p name rowid row)) (\<lambda>_.
         op_bind (search_insert p name rowid row) (\<lambda>_.
         op_bind (fire_triggers p name AfterTrigger InsertEvent) (\<lambda>_. op_return True)))))"

definition insert_with_policy :: "('q, 'x) dml_params \<Rightarrow> 'q insert_stmt \<Rightarrow> string \<Rightarrow> nat option \<Rightarrow> i64 \<Rightarrow> row \<Rightarrow> ('q, 'x, bool) dml" where
  "insert_with_policy p s key pk rowid row =
     (case ins_conflict s of
        ConflictError \<Rightarrow> insert_or_error p (ins_table s) key rowid row
      | ConflictIgnore \<Rightarrow> insert_or_ignore p (ins_table s) key pk rowid row
      | ConflictReplace \<Rightarrow> insert_or_replace p (ins_table s) key pk rowid row
      | ConflictUpdate as \<Rightarrow> insert_or_update p (ins_table s) key pk as rowid row)"

text \<open>One row: its rowid, the triggers and checks before the conflict policy, and the policy. The results are the next rowid, whether the row counts, and the row.\<close>

definition insert_one :: "('q, 'x) dml_params \<Rightarrow> 'q insert_stmt \<Rightarrow> 'q table_info \<Rightarrow> string \<Rightarrow> nat list \<Rightarrow> i64 \<Rightarrow> value list \<Rightarrow> ('q, 'x, i64 \<times> bool \<times> row) dml" where
  "insert_one p s t key indices next_id vals =
     (if length vals \<noteq> length indices then op_fail (ColumnCountMismatch (length indices) (length vals))
      else op_bind (op_result (assign_rowid (primary_key_index (ti_columns t)) next_id (place_values (length (ti_columns t)) indices vals))) (\<lambda>(rowid, next', row).
        op_bind (fire_triggers p (ins_table s) BeforeTrigger InsertEvent) (\<lambda>_.
        op_bind (op_result (check_not_null (ti_name t) row (ti_columns t))) (\<lambda>_.
        op_bind (check_fk_on_insert p (ins_table s) row) (\<lambda>_.
        op_bind (check_constraints_for_row p (ins_table s) row) (\<lambda>_.
        op_bind (insert_with_policy p s key (primary_key_index (ti_columns t)) rowid row) (\<lambda>counted.
        op_return (next', counted, row))))))))"

fun insert_each :: "('q, 'x) dml_params \<Rightarrow> 'q insert_stmt \<Rightarrow> 'q table_info \<Rightarrow> string \<Rightarrow> nat list \<Rightarrow> i64 \<Rightarrow> value list list \<Rightarrow> ('q, 'x, i64 \<times> row list) dml" where
  "insert_each p s t key indices next_id [] = op_return (next_id, [])"
| "insert_each p s t key indices next_id (v # vs) =
     op_bind (insert_one p s t key indices next_id v) (\<lambda>(next', counted, row).
     op_bind (insert_each p s t key indices next' vs) (\<lambda>(final, rows).
     op_return (final, if counted then row # rows else rows)))"

definition save_next_rowid :: "('q, 'x) dml_params \<Rightarrow> string \<Rightarrow> i64 \<Rightarrow> ('q, 'x, unit) dml" where
  "save_next_rowid p name n =
     op_bind (table_info_of p name) (\<lambda>t. op_modify (\<lambda>db. db\<lparr>table_infos := (table_infos db)(table_key p db name \<mapsto> t\<lparr>next_rowid := n\<rparr>)\<rparr>))"

text \<open>\<^verbatim>\<open>RETURNING\<close> has only the rows of the default policy.\<close>

definition insert_value_rows :: "('q, 'x) dml_params \<Rightarrow> 'q insert_stmt \<Rightarrow> value list list \<Rightarrow> ('q, 'x, exec_result) dml" where
  "insert_value_rows p s vals =
     op_bind (table_info_of p (ins_table s)) (\<lambda>t. op_get (\<lambda>db.
     op_bind (op_result (column_indices (ti_columns t) (ins_columns s))) (\<lambda>indices.
     op_bind (insert_each p s t (table_key p db (ins_table s)) indices (next_rowid t) vals) (\<lambda>(next', rows).
     op_bind (save_next_rowid p (ins_table s) next') (\<lambda>_.
     case ins_returning s of
       Some es \<Rightarrow> returning_result p (ins_table s) es (if ins_conflict s = ConflictError then rows else [])
     | None \<Rightarrow> op_return (RowsAffected (length rows) (show_nat (length rows) @ '' row(s) inserted'')))))))"

subsection \<open>The implicit transaction\<close>

text \<open>
  A rollback brings back the pages of the catalogue's file, the schema, and no cache; tables with a file of their own, and their indexes, keep what was written.
\<close>

definition index_in_own_file :: "('q, 'x) dml_params \<Rightarrow> ('q, 'x) database \<Rightarrow> string \<Rightarrow> bool" where
  "index_in_own_file p db i \<longleftrightarrow> (\<exists>t\<in>own_file db. i \<in> index_name_key p db ` set (indexes_by_table db t))"

definition without_index_caches :: "('q, 'x) database \<Rightarrow> ('q, 'x) database" where
  "without_index_caches db = db\<lparr>index_caches := Map.empty\<rparr>"

definition rollback_insert :: "('q, 'x) dml_params \<Rightarrow> ('q, 'x) database \<Rightarrow> ('q, 'x) database \<Rightarrow> ('q, 'x) database" where
  "rollback_insert p old db = without_index_caches (db\<lparr>
     table_infos := table_infos old, table_list := table_list old, indexes_by_table := indexes_by_table old, triggers_by_table := triggers_by_table old,
     table_rows := (\<lambda>t. if t \<in> own_file old then table_rows db t else table_rows old t),
     index_entries := (\<lambda>i. if index_in_own_file p old i then index_entries db i else index_entries old i),
     search_indexes := search_rollback p (search_indexes old) (search_indexes db),
     pager_txid := None\<rparr>)"

definition in_implicit_txn :: "('q, 'x) dml_params \<Rightarrow> ('q, 'x, 'a) dml \<Rightarrow> ('q, 'x, 'a) dml" where
  "in_implicit_txn p f = (\<lambda>db.
     if in_txn db then f db
     else case f (db\<lparr>pager_txid := Some (new_txid p db)\<rparr>) of
         (Ok r, db') \<Rightarrow> (case commit_pages p db' of
             Ok _ \<Rightarrow> (Ok r, db'\<lparr>pager_txid := None\<rparr>)
           | Err e \<Rightarrow> (Err e, rollback_insert p db db')
           | Panic \<Rightarrow> (Panic, db'))
       | (Err e, db') \<Rightarrow> (Err e, rollback_insert p db db')
       | (Panic, db') \<Rightarrow> (Panic, db'))"

definition insert_batch_raw :: "('q, 'x) dml_params \<Rightarrow> string \<Rightarrow> value list list \<Rightarrow> ('q, 'x, exec_result) dml" where
  "insert_batch_raw p name vals =
     in_implicit_txn p (insert_value_rows p
       \<lparr>ins_table = name, ins_columns = None, ins_source = InsertValues [], ins_conflict = ConflictError, ins_returning = None\<rparr> vals)"

definition insert_source_rows :: "'q vm_env \<Rightarrow> 'q insert_source \<Rightarrow> value list list res" where
  "insert_source_rows env src =
     (case src of
        InsertValues ess \<Rightarrow> all_ok (map (\<lambda>es. all_ok (map (\<lambda>e. eval_in env e [] Map.empty) es)) ess)
      | InsertSelect q \<Rightarrow> res_bind (run_query env q ''INSERT SELECT: exec_select did not return rows'') (\<lambda>r. Ok (snd r)))"

definition exec_insert :: "('q, 'x) dml_params \<Rightarrow> 'q insert_stmt \<Rightarrow> ('q, 'x, exec_result) dml" where
  "exec_insert p s = op_get (\<lambda>db.
     op_bind (op_result (insert_source_rows (vm_of p db) (ins_source s))) (\<lambda>vals. in_implicit_txn p (insert_value_rows p s vals)))"

section \<open>The rows of UPDATE and DELETE\<close>

datatype dml_lookup =
    LookupEq "value"
  | LookupIn "value list"
  | LookupComparison binary_operator "value"
  | LookupBetween "value" "value"

definition eval_constant_expr :: "'q vm_env \<Rightarrow> 'q expr \<Rightarrow> value option res" where
  "eval_constant_expr env e = (case eval_in env e [] Map.empty of Ok v \<Rightarrow> Ok (Some v) | Err _ \<Rightarrow> Ok None | Panic \<Rightarrow> Panic)"

text \<open>The column, the operator as seen from the column, and the expression it is compared with.\<close>

definition comparison_parts :: "'q expr \<Rightarrow> binary_operator \<Rightarrow> 'q expr \<Rightarrow> (string \<times> binary_operator \<times> 'q expr) option" where
  "comparison_parts l op r =
     (case (l, r) of
        (ColumnRef t c, _) \<Rightarrow> Some (c, op, r)
      | (_, ColumnRef t c) \<Rightarrow> map_option (\<lambda>op'. (c, op', l)) (flip_comparison_operator op)
      | _ \<Rightarrow> None)"

fun constant_values :: "'q vm_env \<Rightarrow> 'q expr list \<Rightarrow> value list option res" where
  "constant_values env [] = Ok (Some [])"
| "constant_values env (e # es) =
     res_bind (eval_constant_expr env e) (\<lambda>v. case v of
       None \<Rightarrow> Ok None
     | Some w \<Rightarrow> res_bind (constant_values env es) (\<lambda>ws. Ok (map_option (\<lambda>ws. if w = Null then ws else w # ws) ws)))"

definition dml_lookup_of :: "'q vm_env \<Rightarrow> 'q expr \<Rightarrow> (string \<times> dml_lookup) option res" where
  "dml_lookup_of env e =
     (case e of
        BinaryOp l op r \<Rightarrow>
          (case comparison_parts l op r of
             None \<Rightarrow> Ok None
           | Some (c, op', other) \<Rightarrow> res_bind (eval_constant_expr env other) (\<lambda>v. Ok (case v of
               None \<Rightarrow> None
             | Some w \<Rightarrow>
                 if op' = OpEqual then Some (c, LookupEq w)
                 else if op' \<in> {OpLessThan, OpLessThanOrEqual, OpGreaterThan, OpGreaterThanOrEqual} then Some (c, LookupComparison op' w)
                 else None)))
      | InList (ColumnRef t c) es negated \<Rightarrow>
          if negated then Ok None else res_bind (constant_values env es) (\<lambda>vs. Ok (map_option (\<lambda>vs. (c, LookupIn vs)) vs))
      | Between (ColumnRef t c) low high negated \<Rightarrow>
          if negated then Ok None
          else res_bind (eval_constant_expr env low) (\<lambda>l. case l of
              None \<Rightarrow> Ok None
            | Some lv \<Rightarrow> res_bind (eval_constant_expr env high) (\<lambda>h. Ok (map_option (\<lambda>hv. (c, LookupBetween lv hv)) h)))
      | _ \<Rightarrow> Ok None)"

definition lookup_rowids :: "index_cache \<Rightarrow> dml_lookup \<Rightarrow> i64 list res" where
  "lookup_rowids c l =
     (case l of
        LookupEq v \<Rightarrow> Ok (if v = Null then [] else index_rowids_for_value c v)
      | LookupIn vs \<Rightarrow> Ok (rev (remdups (rev (concat (map (index_rowids_for_value c) vs)))))
      | LookupComparison op v \<Rightarrow> index_rowids_for_comparison c op v
      | LookupBetween low high \<Rightarrow> index_rowids_for_between c low high)"

text \<open>A lookup that gives nothing without the index does not load its cache.\<close>

definition needs_index :: "dml_lookup \<Rightarrow> bool" where
  "needs_index l = (case l of LookupEq v \<Rightarrow> v \<noteq> Null | LookupIn vs \<Rightarrow> vs \<noteq> [] | _ \<Rightarrow> True)"

definition try_dml_index_rowids :: "('q, 'x) dml_params \<Rightarrow> string \<Rightarrow> 'q expr \<Rightarrow> ('q, 'x, i64 list option) dml" where
  "try_dml_index_rowids p name e = op_get (\<lambda>db.
     op_bind (op_result (dml_lookup_of (vm_of p db) e)) (\<lambda>found. case found of
       None \<Rightarrow> op_return None
     | Some (col, l) \<Rightarrow>
         (case find (\<lambda>idx. idx_columns idx \<noteq> [] \<and> eq_ignore_ascii_case (hd (idx_columns idx)) col) (indexes_for_table p db name) of
            None \<Rightarrow> op_return None
          | Some idx \<Rightarrow>
              if needs_index l
              then op_bind (loaded_cache p idx) (\<lambda>c. op_bind (op_result (lookup_rowids c l)) (\<lambda>ids. op_return (Some ids)))
              else op_return (Some []))))"

definition dml_index_rowids :: "('q, 'x) dml_params \<Rightarrow> string \<Rightarrow> 'q expr option \<Rightarrow> ('q, 'x, i64 list option) dml" where
  "dml_index_rowids p name w = (case w of None \<Rightarrow> op_return None | Some e \<Rightarrow> try_dml_index_rowids p name e)"

text \<open>The condition on a row of a full scan.\<close>

definition row_matches :: "'q vm_env \<Rightarrow> col_map \<Rightarrow> 'q expr option \<Rightarrow> row \<Rightarrow> bool res" where
  "row_matches env m w row =
     (case w of None \<Rightarrow> Ok True | Some e \<Rightarrow> res_bind (eval_in env e row m) (\<lambda>v. Ok (is_truthy v)))"

section \<open>UPDATE\<close>

definition assignment_indices :: "col_map \<Rightarrow> (string \<times> 'q expr) list \<Rightarrow> (nat \<times> 'q expr) list res" where
  "assignment_indices m as =
     all_ok (map (\<lambda>(c, e). case m (to_ascii_lowercase c) of None \<Rightarrow> Err (ColumnNotFound c) | Some i \<Rightarrow> Ok (i, e)) as)"

fun assigned_row :: "'q vm_env \<Rightarrow> col_map \<Rightarrow> row \<Rightarrow> (nat \<times> 'q expr) list \<Rightarrow> row \<Rightarrow> row res" where
  "assigned_row env m old [] row = Ok row"
| "assigned_row env m old ((i, e) # as) row =
     res_bind (eval_in env e old m) (\<lambda>v. if i < length row then assigned_row env m old as (row[i := v]) else Panic)"

fun rows_to_update :: "'q vm_env \<Rightarrow> col_map \<Rightarrow> 'q expr option \<Rightarrow> (nat \<times> 'q expr) list \<Rightarrow> row_list \<Rightarrow> (i64 \<times> row \<times> row) list res" where
  "rows_to_update env m w as [] = Ok []"
| "rows_to_update env m w as ((rowid, row) # rows) =
     res_bind (row_matches env m w row) (\<lambda>hit.
     if hit
     then res_bind (assigned_row env m row as row) (\<lambda>new. res_bind (rows_to_update env m w as rows) (\<lambda>out. Ok ((rowid, row, new) # out)))
     else rows_to_update env m w as rows)"

definition update_one :: "('q, 'x) dml_params \<Rightarrow> string \<Rightarrow> i64 \<times> row \<times> row \<Rightarrow> ('q, 'x, unit) dml" where
  "update_one p name x = (case x of (rowid, old, new) \<Rightarrow>
     op_bind (fire_triggers p name BeforeTrigger UpdateEvent) (\<lambda>_.
     op_bind (check_constraints_for_row p name new) (\<lambda>_.
     op_bind (on_search_indexes (fts_delete p name rowid)) (\<lambda>_.
     op_bind (vec_delete_op p name rowid) (\<lambda>_.
     op_bind (delete_index_entries p name rowid) (\<lambda>_.
     op_bind (validate_unique_indexes_for_row p name rowid new (Some rowid)) (\<lambda>_.
     op_bind (op_get (\<lambda>db. update_row_op (table_key p db name) rowid new)) (\<lambda>_.
     op_bind (insert_index_entries p name rowid new) (\<lambda>_.
     op_bind (search_insert p name rowid new) (\<lambda>_.
     op_bind (log_event (\<lambda>t. Update t (ascii name) rowid old new)) (\<lambda>_.
     op_bind (lock_row name rowid) (\<lambda>_.
     op_bind (push_undo (UndoUpdate name rowid old)) (\<lambda>_.
     op_bind (enforce_fk_parent_update p name old new) (\<lambda>_.
     fire_triggers p name AfterTrigger UpdateEvent))))))))))))))"

text \<open>The rows found through an index are not checked against the condition again.\<close>

definition exec_update :: "('q, 'x) dml_params \<Rightarrow> 'q update_stmt \<Rightarrow> ('q, 'x, exec_result) dml" where
  "exec_update p s =
     op_bind (table_info_of p (upd_table s)) (\<lambda>t. let m = build_col_map (map ci_name (ti_columns t)) in
     op_bind (op_result (assignment_indices m (upd_assignments s))) (\<lambda>as.
     op_bind (dml_index_rowids p (upd_table s) (upd_where s)) (\<lambda>ids. op_get (\<lambda>db.
     let rows = table_rows db (table_key p db (upd_table s)) in
     op_bind (op_result (case ids of
         Some found \<Rightarrow> rows_to_update (vm_of p db) m None as (fetch_rows_by_rowids rows found)
       | None \<Rightarrow> rows_to_update (vm_of p db) m (upd_where s) as rows)) (\<lambda>todo.
     op_bind (op_each (update_one p (upd_table s)) todo) (\<lambda>_.
     case upd_returning s of
       Some es \<Rightarrow> returning_result p (upd_table s) es (map (snd \<circ> snd) todo)
     | None \<Rightarrow> op_return (RowsAffected (length todo) (show_nat (length todo) @ '' row(s) updated''))))))))"

section \<open>DELETE\<close>

fun rows_to_delete :: "'q vm_env \<Rightarrow> col_map \<Rightarrow> 'q expr option \<Rightarrow> row_list \<Rightarrow> i64 list res" where
  "rows_to_delete env m w [] = Ok []"
| "rows_to_delete env m w ((rowid, row) # rows) =
     res_bind (row_matches env m w row) (\<lambda>hit.
     res_bind (rows_to_delete env m w rows) (\<lambda>ids. Ok (if hit then rowid # ids else ids)))"

definition delete_one :: "('q, 'x) dml_params \<Rightarrow> string \<Rightarrow> i64 \<Rightarrow> ('q, 'x, row option) dml" where
  "delete_one p name rowid =
     op_bind (fire_triggers p name BeforeTrigger DeleteEvent) (\<lambda>_. op_get (\<lambda>db. let key = table_key p db name in
     op_bind (find_row_op key rowid) (\<lambda>parent.
     op_bind (case parent of None \<Rightarrow> op_return () | Some r \<Rightarrow> enforce_fk_parent_delete p name r) (\<lambda>_.
     op_bind (on_search_indexes (fts_delete p name rowid)) (\<lambda>_.
     op_bind (vec_delete_op p name rowid) (\<lambda>_.
     op_bind (delete_index_entries p name rowid) (\<lambda>_.
     op_bind (find_row_op key rowid) (\<lambda>old.
     op_bind (delete_row_op key rowid) (\<lambda>_.
     op_bind (lock_row name rowid) (\<lambda>_.
     op_bind (case old of None \<Rightarrow> op_return () | Some r \<Rightarrow> push_undo (UndoDelete name rowid r)) (\<lambda>_.
     op_bind (log_event (\<lambda>t. Delete t (ascii name) rowid old)) (\<lambda>_.
     op_bind (fire_triggers p name AfterTrigger DeleteEvent) (\<lambda>_. op_return old)))))))))))))"

definition exec_delete :: "('q, 'x) dml_params \<Rightarrow> 'q delete_stmt \<Rightarrow> ('q, 'x, exec_result) dml" where
  "exec_delete p s =
     op_bind (table_info_of p (del_table s)) (\<lambda>t. let m = build_col_map (map ci_name (ti_columns t)) in
     op_bind (dml_index_rowids p (del_table s) (del_where s)) (\<lambda>ids. op_get (\<lambda>db.
     op_bind (op_result (case ids of
         Some found \<Rightarrow> Ok found
       | None \<Rightarrow> rows_to_delete (vm_of p db) m (del_where s) (table_rows db (table_key p db (del_table s))))) (\<lambda>todo.
     op_bind (op_collect (delete_one p (del_table s)) todo) (\<lambda>olds.
     case del_returning s of
       Some es \<Rightarrow>
         op_bind (returning_result p (del_table s) es (concat (map (\<lambda>r. case r of None \<Rightarrow> [] | Some r \<Rightarrow> [r]) olds))) (\<lambda>out.
         op_bind (log_event Commit) (\<lambda>_. op_return out))
     | None \<Rightarrow> op_return (RowsAffected (length todo) (show_nat (length todo) @ '' row(s) deleted'')))))))"

end
