(* ===== verification/DmlIndexes.thy ===== *)
theory DmlIndexes
  imports Dml
begin

text \<open>
  Secondary indexes follow their table. An invariant relates the rows of every table to the entries and the cache of each of its indexes; the operations on rows and on index entries keep
  it in pairs, and so do the statements that succeed.
\<close>

section \<open>Operations that succeed, and operations that keep an invariant\<close>

definition triple :: "('s \<Rightarrow> bool) \<Rightarrow> ('s, 'a) op \<Rightarrow> ('a \<Rightarrow> 's \<Rightarrow> bool) \<Rightarrow> bool" where
  "triple P f Q \<longleftrightarrow> (\<forall>s a s'. P s \<longrightarrow> f s = (Ok a, s') \<longrightarrow> Q a s')"

definition keeps :: "('s \<Rightarrow> bool) \<Rightarrow> ('s, 'a) op \<Rightarrow> bool" where
  "keeps P f \<longleftrightarrow> (\<forall>s. P s \<longrightarrow> P (snd (f s)))"

named_theorems keeps_intros

lemma tripleD: "triple P f Q \<Longrightarrow> P s \<Longrightarrow> f s = (Ok a, s') \<Longrightarrow> Q a s'"
  by (simp add: triple_def)

lemma keepsD: "keeps P f \<Longrightarrow> P s \<Longrightarrow> P (snd (f s))"
  by (simp add: keeps_def)

lemma keeps_triple: "keeps P f \<Longrightarrow> triple P f (\<lambda>_. P)"
  unfolding keeps_def triple_def by (metis snd_conv)

lemma triple_bind: "triple P f Q \<Longrightarrow> (\<And>a. triple (Q a) (g a) R) \<Longrightarrow> triple P (op_bind f g) R"
  by (fastforce simp: triple_def op_bind_def split: prod.splits res.splits)

lemma triple_then: "keeps P f \<Longrightarrow> (\<And>a. triple P (g a) R) \<Longrightarrow> triple P (op_bind f g) R"
  by (rule triple_bind [OF keeps_triple])

lemma triple_get: "(\<And>s. P s \<Longrightarrow> triple (\<lambda>s'. s' = s) (f s) Q) \<Longrightarrow> triple P (op_get f) Q"
  by (simp add: triple_def op_get_def)

lemma triple_get_any: "(\<And>s. P s \<Longrightarrow> triple P (f s) Q) \<Longrightarrow> triple P (op_get f) Q"
  by (simp add: triple_def op_get_def)

lemma triple_weaken: "triple P f Q \<Longrightarrow> (\<And>s. P' s \<Longrightarrow> P s) \<Longrightarrow> (\<And>a s. Q a s \<Longrightarrow> Q' a s) \<Longrightarrow> triple P' f Q'"
  unfolding triple_def by blast

lemma triple_return: "(\<And>s. P s \<Longrightarrow> Q a s) \<Longrightarrow> triple P (op_return a) Q"
  by (simp add: triple_def op_return_def)

lemma triple_modify: "(\<And>s. P s \<Longrightarrow> Q () (f s)) \<Longrightarrow> triple P (op_modify f) Q"
  by (simp add: triple_def op_modify_def)

lemma triple_result: "(\<And>a s. r = Ok a \<Longrightarrow> P s \<Longrightarrow> Q a s) \<Longrightarrow> triple P (op_result r) Q"
  by (auto simp: triple_def op_result_def)

lemma triple_fail: "triple P (op_fail e) Q"
  by (simp add: triple_def op_fail_def)

lemma keeps_return [keeps_intros]: "keeps P (op_return a)"
  by (simp add: keeps_def op_return_def)

lemma keeps_fail [keeps_intros]: "keeps P (op_fail e)"
  by (simp add: keeps_def op_fail_def)

lemma keeps_result [keeps_intros]: "keeps P (op_result r)"
  by (simp add: keeps_def op_result_def)

lemma keeps_bind [keeps_intros]: "keeps P f \<Longrightarrow> (\<And>a. keeps P (g a)) \<Longrightarrow> keeps P (op_bind f g)"
  by (fastforce simp: keeps_def op_bind_def split: prod.splits res.splits)

lemma keeps_get [keeps_intros]: "(\<And>s. P s \<Longrightarrow> keeps P (f s)) \<Longrightarrow> keeps P (op_get f)"
  by (simp add: keeps_def op_get_def)

lemma keeps_modify: "(\<And>s. P s \<Longrightarrow> P (f s)) \<Longrightarrow> keeps P (op_modify f)"
  by (simp add: keeps_def op_modify_def)

lemma keeps_each [keeps_intros]: "(\<And>x. x \<in> set xs \<Longrightarrow> keeps P (f x)) \<Longrightarrow> keeps P (op_each f xs)"
  by (induction xs) (simp_all add: keeps_intros)

lemma keeps_ignoring [keeps_intros]: "keeps P f \<Longrightarrow> keeps P (run_ignoring f)"
  by (auto simp: keeps_def run_ignoring_def split: prod.splits res.splits)

lemma triple_each: "(\<And>x. x \<in> set xs \<Longrightarrow> triple P (f x) (\<lambda>_. P)) \<Longrightarrow> triple P (op_each f xs) (\<lambda>_. P)"
  by (induction xs) (auto intro!: triple_bind triple_return)

lemma triple_map: "(\<And>x. x \<in> set xs \<Longrightarrow> triple P (f x) (\<lambda>_. P)) \<Longrightarrow> triple P (op_collect f xs) (\<lambda>_. P)"
  by (induction xs) (auto intro!: triple_bind [where Q = "\<lambda>_. P"] triple_return)

lemma keeps_if [keeps_intros]: "keeps P f \<Longrightarrow> keeps P g \<Longrightarrow> keeps P (if b then f else g)"
  by simp

lemma keeps_option [keeps_intros]: "keeps P f \<Longrightarrow> (\<And>x. keeps P (g x)) \<Longrightarrow> keeps P (case x of None \<Rightarrow> f | Some x \<Rightarrow> g x)"
  by (simp split: option.split)

section \<open>Entries and cache of one index\<close>

definition row_entry :: "column_info list \<Rightarrow> index_schema \<Rightarrow> i64 \<times> row \<Rightarrow> row" where
  "row_entry cols idx x = index_values cols idx (snd x) @ [Integer (fst x)]"

text \<open>One entry for every row, under different numbers.\<close>

definition indexes_rows :: "column_info list \<Rightarrow> index_schema \<Rightarrow> (i64 \<times> row) set \<Rightarrow> row_list \<Rightarrow> bool" where
  "indexes_rows cols idx rows es \<longleftrightarrow>
     (\<exists>n \<in> set (idx_columns idx). find_column_index cols n \<noteq> None) \<and> distinct (map fst es) \<and> inj_on snd (set es) \<and> snd ` set es = row_entry cols idx ` rows"

text \<open>The cache knows the number and the first value of each entry.\<close>

definition cache_of :: "row_list \<Rightarrow> index_cache \<Rightarrow> bool" where
  "cache_of es c \<longleftrightarrow>
     (\<forall>r n. rowid_map c r = Some n \<longleftrightarrow> (\<exists>e \<in> set es. fst e = n \<and> List.last (snd e) = Integer r)) \<and>
     (\<forall>key r. r \<in> set (eq_map c key) \<longleftrightarrow> (\<exists>e \<in> set es. List.last (snd e) = Integer r \<and> index_eq_key (hd (snd e)) = key))"

lemma index_values_nonempty: "n \<in> set (idx_columns idx) \<Longrightarrow> find_column_index cols n \<noteq> None \<Longrightarrow> index_values cols idx row \<noteq> []"
  by (force simp: index_values_def)

lemma indexed_values: "indexes_rows cols idx rows es \<Longrightarrow> index_values cols idx row \<noteq> []"
  using index_values_nonempty by (auto simp: indexes_rows_def)

lemma last_row_entry [simp]: "List.last (row_entry cols idx x) = Integer (fst x)"
  by (simp add: row_entry_def)

lemma row_entry_shape:
  assumes "n \<in> set (idx_columns idx)" and "find_column_index cols n \<noteq> None"
  shows "index_entry_of (row_entry cols idx x) = Some (hd (row_entry cols idx x), fst x)" and "row_entry cols idx x \<noteq> []"
  using index_values_nonempty [OF assms, of "snd x"] by (cases "index_values cols idx (snd x)"; simp add: row_entry_def index_entry_of_def)+

text \<open>Entries that can be loaded: each has a value and a rowid, and no two have the same rowid.\<close>

definition loadable :: "row_list \<Rightarrow> bool" where
  "loadable es \<longleftrightarrow> (\<forall>e \<in> set es. \<exists>r. index_entry_of (snd e) = Some (hd (snd e), r) \<and> List.last (snd e) = Integer r) \<and> distinct (map (List.last \<circ> snd) es)"

lemma indexes_loadable:
  assumes "indexes_rows cols idx rows es" and "inj_on fst rows"
  shows "loadable es"
proof -
  obtain n where n: "n \<in> set (idx_columns idx)" "find_column_index cols n \<noteq> None" and d: "distinct (map fst es)" "inj_on snd (set es)" "snd ` set es = row_entry cols idx ` rows"
    using assms(1) by (auto simp: indexes_rows_def)
  have "inj_on List.last (row_entry cols idx ` rows)" using assms(2) by (auto simp: inj_on_def)
  then have "inj_on (List.last \<circ> snd) (set es)" using d(2,3) by (simp add: comp_inj_on)
  moreover have "distinct es" using d(1) by (simp add: distinct_map)
  moreover have "\<exists>x. snd e = row_entry cols idx x" if "e \<in> set es" for e using d(3) that by (metis imageE imageI)
  then have "\<exists>r. index_entry_of (snd e) = Some (hd (snd e), r) \<and> List.last (snd e) = Integer r" if "e \<in> set es" for e
    using row_entry_shape(1) [OF n] that by (metis last_row_entry)
  ultimately show ?thesis unfolding loadable_def by (simp add: distinct_map)
qed

text \<open>One more entry in the maps of a cache.\<close>

lemma cache_more:
  assumes "cache_of es c" and "set es' = insert (n, e) (set es)" and "List.last e = Integer r" and "\<forall>x \<in> set es. List.last (snd x) \<noteq> Integer r"
    and "rowid_map c' = (rowid_map c)(r \<mapsto> n)" and "eq_map c' = (eq_map c)(index_eq_key (hd e) := eq_map c (index_eq_key (hd e)) @ [r])"
  shows "cache_of es' c'"
proof -
  have "rowid_map c' r' = Some m \<longleftrightarrow> (\<exists>x \<in> set es'. fst x = m \<and> List.last (snd x) = Integer r')" for r' m
  proof (cases "r' = r")
    case True
    then show ?thesis using assms(2-5) by auto
  next
    case False
    then show ?thesis using assms(1-3,5) by (simp add: cache_of_def)
  qed
  moreover have "r' \<in> set (eq_map c' key) \<longleftrightarrow> (\<exists>x \<in> set es'. List.last (snd x) = Integer r' \<and> index_eq_key (hd (snd x)) = key)" for r' key
  proof -
    have "r' \<in> set (eq_map c key) \<longleftrightarrow> (\<exists>x \<in> set es. List.last (snd x) = Integer r' \<and> index_eq_key (hd (snd x)) = key)"
      using assms(1) by (simp add: cache_of_def)
    then show ?thesis using assms(2,3,6) by auto
  qed
  ultimately show ?thesis by (simp add: cache_of_def)
qed

lemma load_cache_of: "loadable es \<Longrightarrow> cache_of es (load_index_cache es)"
proof -
  let ?c0 = "\<lparr>eq_map = (\<lambda>_. []), rowid_map = Map.empty, ordered_entries = []\<rparr>"
  have "loadable es \<Longrightarrow> cache_of es (fold load_entry es ?c0)"
  proof (induction es rule: rev_induct)
    case Nil
    show ?case by (simp add: cache_of_def)
  next
    case (snoc e es)
    have l: "loadable es" using snoc.prems by (auto simp: loadable_def)
    obtain r where r: "index_entry_of (snd e) = Some (hd (snd e), r)" "List.last (snd e) = Integer r" using snoc.prems by (auto simp: loadable_def)
    have new: "List.last (snd x) \<noteq> Integer r" if "x \<in> set es" for x using snoc.prems that r(2) by (force simp: loadable_def)
    have "rowid_map (load_entry e c) = (rowid_map c)(r \<mapsto> fst e)"
      "eq_map (load_entry e c) = (eq_map c)(index_eq_key (hd (snd e)) := eq_map c (index_eq_key (hd (snd e))) @ [r])" for c
      by (simp_all add: load_entry_def r(1))
    then show ?case using cache_more [OF snoc.IH [OF l], of "es @ [e]" "fst e" "snd e" r] r(2) new by simp
  qed
  then show "loadable es \<Longrightarrow> cache_of es (load_index_cache es)" by (simp add: load_index_cache_def Let_def cache_of_def)
qed

subsection \<open>Insertion\<close>

lemma store_insert_Ok:
  assumes "store_insert n r es = Ok es'"
  shows "set es' = insert (n, r) (set es)" and "n \<notin> fst ` set es" and "distinct (map fst es) \<Longrightarrow> distinct (map fst es')"
proof -
  show new: "n \<notin> fst ` set es" and s: "set es' = insert (n, r) (set es)" using assms by (auto simp: store_insert_def set_insort_key split: if_splits)
  have es': "es' = insort_key rowid_key (n, r) es" using assms by (auto simp: store_insert_def split: if_splits)
  show "distinct (map fst es')" if "distinct (map fst es)"
  proof -
    have "(n, r) \<notin> set es" using new by force
    then have "distinct es'" using that unfolding es' by (simp add: distinct_map distinct_insort)
    moreover have "inj_on fst (set es')" using that new unfolding s by (auto simp: distinct_map)
    ultimately show ?thesis by (simp add: distinct_map)
  qed
qed

lemma indexes_insert:
  assumes "indexes_rows cols idx rows es" and "store_insert n (row_entry cols idx x) es = Ok es'" and "fst x \<notin> fst ` rows"
  shows "indexes_rows cols idx (insert x rows) es'"
proof -
  have s: "set es' = insert (n, row_entry cols idx x) (set es)" "distinct (map fst es')"
    using store_insert_Ok [OF assms(2)] assms(1) by (auto simp: indexes_rows_def)
  have "row_entry cols idx x \<notin> snd ` set es"
  proof
    assume "row_entry cols idx x \<in> snd ` set es"
    then obtain y where "y \<in> rows" "row_entry cols idx x = row_entry cols idx y" using assms(1) by (auto simp: indexes_rows_def)
    then have "Integer (fst x) = Integer (fst y)" by (metis last_row_entry)
    then show False using \<open>y \<in> rows\<close> assms(3) by auto
  qed
  then have "inj_on snd (insert (n, row_entry cols idx x) (set es))" using assms(1) by (auto simp: indexes_rows_def)
  then show ?thesis using assms(1) s unfolding indexes_rows_def by auto
qed

lemma cache_insert_of:
  assumes "cache_of es c" and "store_insert n e es = Ok es'" and "List.last e = Integer r" and "\<forall>x \<in> set es. List.last (snd x) \<noteq> Integer r"
    and "index_cache_insert (hd e) r n (Some c) = Some c'"
  shows "cache_of es' c'"
  using cache_more [OF assms(1) _ assms(3,4), of es' n c'] store_insert_Ok(1) [OF assms(2)] assms(5) by (auto simp: index_cache_insert_def)

subsection \<open>Deletion\<close>

text \<open>With one entry for every row, the number of an entry and the rowid in it determine each other.\<close>

lemma entry_identity:
  assumes "indexes_rows cols idx rows es" and "inj_on fst rows" and "e \<in> set es" and "x \<in> set es"
  shows "fst x = fst e \<longleftrightarrow> List.last (snd x) = List.last (snd e)"
proof -
  have "loadable es" using indexes_loadable assms(1,2) .
  then have "inj_on (List.last \<circ> snd) (set es)" "inj_on fst (set es)" using assms(1) by (simp_all add: loadable_def indexes_rows_def distinct_map)
  then show ?thesis using assms(3,4) by (metis comp_apply inj_on_def)
qed

lemma indexes_delete:
  assumes "indexes_rows cols idx rows es" and "inj_on fst rows" and "e \<in> set es" and "List.last (snd e) = Integer r"
  shows "indexes_rows cols idx {x \<in> rows. fst x \<noteq> r} (store_delete (fst e) es)"
proof -
  have d: "distinct (map fst es)" "inj_on snd (set es)" "snd ` set es = row_entry cols idx ` rows" using assms(1) by (auto simp: indexes_rows_def)
  have "{x \<in> set es. fst x \<noteq> fst e} = {x \<in> set es. List.last (snd x) \<noteq> Integer r}" using entry_identity [OF assms(1-3)] assms(4) by auto
  then have "snd ` set (store_delete (fst e) es) = {v \<in> snd ` set es. List.last v \<noteq> Integer r}" by (auto simp: store_delete_def)
  also have "\<dots> = row_entry cols idx ` {x \<in> rows. fst x \<noteq> r}" unfolding d(3) by auto
  finally have "snd ` set (store_delete (fst e) es) = row_entry cols idx ` {x \<in> rows. fst x \<noteq> r}" .
  moreover have "distinct (map fst (store_delete (fst e) es))" using d(1) by (simp add: store_delete_def distinct_map_filter)
  moreover have "inj_on snd (set (store_delete (fst e) es))" using d(2) by (rule inj_on_subset) (auto simp: store_delete_def)
  ultimately show ?thesis using assms(1) by (simp add: indexes_rows_def)
qed

lemma bex_without: "(\<exists>x \<in> {x \<in> S. f x \<noteq> a}. f x = b \<and> P x) \<longleftrightarrow> b \<noteq> a \<and> (\<exists>x \<in> S. f x = b \<and> P x)"
  by auto

lemma cache_delete_of:
  assumes "cache_of es c" and "\<And>x. x \<in> set es \<Longrightarrow> fst x = n \<longleftrightarrow> List.last (snd x) = Integer r" and "\<And>x. x \<in> set es \<Longrightarrow> fst x = n \<Longrightarrow> snd x = e"
    and "index_cache_delete (hd e) r (Some c) = Some c'"
  shows "cache_of (store_delete n es) c'"
proof -
  have c': "rowid_map c' = (rowid_map c)(r := None)" "eq_map c' = (eq_map c)(index_eq_key (hd e) := filter (\<lambda>x. x \<noteq> r) (eq_map c (index_eq_key (hd e))))"
    using assms(4) by (auto simp: index_cache_delete_def)
  have es: "set (store_delete n es) = {x \<in> set es. List.last (snd x) \<noteq> Integer r}" using assms(2) by (auto simp: store_delete_def)
  have "rowid_map c' r' = Some m \<longleftrightarrow> (\<exists>x \<in> set (store_delete n es). fst x = m \<and> List.last (snd x) = Integer r')" for r' m
  proof -
    have "rowid_map c r' = Some m \<longleftrightarrow> (\<exists>x \<in> set es. fst x = m \<and> List.last (snd x) = Integer r')" using assms(1) by (simp add: cache_of_def)
    then show ?thesis unfolding es c' by (cases "r' = r") force+
  qed
  moreover have "r' \<in> set (eq_map c' key) \<longleftrightarrow> (\<exists>x \<in> set (store_delete n es). List.last (snd x) = Integer r' \<and> index_eq_key (hd (snd x)) = key)" for r' key
  proof -
    have "r' \<in> set (eq_map c key) \<longleftrightarrow> (\<exists>x \<in> set es. List.last (snd x) = Integer r' \<and> index_eq_key (hd (snd x)) = key)"
      using assms(1) by (simp add: cache_of_def)
    moreover have "index_eq_key (hd (snd x)) = index_eq_key (hd e)" if "x \<in> set es" "List.last (snd x) = Integer r" for x
      using assms(2,3) that by metis
    ultimately have "r' = r \<Longrightarrow> r' \<in> set (eq_map c key) \<Longrightarrow> key = index_eq_key (hd e)"
      and "r' \<in> set (eq_map c key) \<longleftrightarrow> (\<exists>x \<in> set es. List.last (snd x) = Integer r' \<and> index_eq_key (hd (snd x)) = key)" by metis+
    then show ?thesis unfolding es c' bex_without by auto
  qed
  ultimately show ?thesis by (simp add: cache_of_def)
qed

section \<open>The indexes of all tables\<close>

text \<open>Names do not depend on the state.\<close>

definition fixed_names :: "('q, 'x) dml_params \<Rightarrow> (index_schema \<Rightarrow> string) \<Rightarrow> (string \<Rightarrow> string) \<Rightarrow> bool" where
  "fixed_names p nk tk \<longleftrightarrow> (\<forall>db. index_name_key p db = nk \<and> table_key p db = tk)"

lemma fixed_namesD [simp]: "fixed_names p nk tk \<Longrightarrow> index_name_key p db = nk" "fixed_names p nk tk \<Longrightarrow> table_key p db = tk"
  "fixed_names p nk tk \<Longrightarrow> indexes_for_table p db name = indexes_by_table db (tk name)"
  by (simp_all add: fixed_names_def indexes_for_table_def)

text \<open>
  Two rows have the same key of an index: the key has no NULL, the values are equal, and the first values have the same key in the cache, which is how the code finds candidates.
\<close>

definition same_index_key :: "column_info list \<Rightarrow> index_schema \<Rightarrow> row \<Rightarrow> row \<Rightarrow> bool" where
  "same_index_key cols idx a b \<longleftrightarrow>
     (let x = index_values cols idx a; y = index_values cols idx b in Null \<notin> set y \<and> list_all2 value_eq x y \<and> index_eq_key (hd x) = index_eq_key (hd y))"

definition unique_in :: "column_info list \<Rightarrow> index_schema \<Rightarrow> (i64 \<times> row) set \<Rightarrow> bool" where
  "unique_in cols idx rows \<longleftrightarrow> (idx_unique idx \<longrightarrow> (\<forall>x \<in> rows. \<forall>y \<in> rows. same_index_key cols idx (snd x) (snd y) \<longrightarrow> fst x = fst y))"

lemma value_eq_commute: "value_eq a b = value_eq b a"
  using value_order_coherent [of b a] value_order_coherent [of a b] by (cases "value_partial_cmp a b") auto

lemma same_index_key_commute: "same_index_key cols idx a b = same_index_key cols idx b a"
proof -
  have nulls: "Null \<in> set x \<longleftrightarrow> Null \<in> set y" if "list_all2 value_eq x y" for x y
    using that by (induction rule: list_all2_induct) (auto simp: value_eq_Null)
  have "value_eq\<inverse>\<inverse> = value_eq" unfolding fun_eq_iff conversep_iff using value_eq_commute by blast
  then have flip: "list_all2 value_eq x y = list_all2 value_eq y x" for x y using list.rel_flip [of value_eq x y] by simp
  have "same_index_key cols idx b a" if "same_index_key cols idx a b" for a b
    using that nulls [of "index_values cols idx a" "index_values cols idx b"] iffD1 [OF flip, of "index_values cols idx a" "index_values cols idx b"] by (simp add: same_index_key_def Let_def)
  then show ?thesis by blast
qed

lemma unique_subset: "unique_in cols idx rows \<Longrightarrow> rows' \<subseteq> rows \<Longrightarrow> unique_in cols idx rows'"
  unfolding unique_in_def by blast

lemma unique_insert:
  assumes "unique_in cols idx rows" and "idx_unique idx \<Longrightarrow> \<forall>y \<in> rows. \<not> same_index_key cols idx (snd y) (snd x)"
  shows "unique_in cols idx (insert x rows)"
  unfolding unique_in_def using assms iffD1 [OF same_index_key_commute, of cols idx "snd x"] by (auto simp: unique_in_def)

definition proper_rows :: "column_info list \<Rightarrow> index_schema \<Rightarrow> (i64 \<times> row) set \<Rightarrow> bool" where
  "proper_rows cols idx rows \<longleftrightarrow> inj_on fst rows \<and> unique_in cols idx rows"

definition index_ok :: "(index_schema \<Rightarrow> string) \<Rightarrow> ('q, 'x) database \<Rightarrow> column_info list \<Rightarrow> index_schema \<Rightarrow> (i64 \<times> row) set \<Rightarrow> bool" where
  "index_ok nk db cols idx rows \<longleftrightarrow>
     proper_rows cols idx rows \<and> indexes_rows cols idx rows (index_entries db (nk idx)) \<and> (\<forall>c. index_caches db (nk idx) = Some c \<longrightarrow> cache_of (index_entries db (nk idx)) c)"

text \<open>\<open>R\<close> gives the rows that an index is to have entries for; no two indexes share a name.\<close>

definition indexes_ok :: "(index_schema \<Rightarrow> string) \<Rightarrow> (string \<Rightarrow> index_schema \<Rightarrow> (i64 \<times> row) set) \<Rightarrow> ('q, 'x) database \<Rightarrow> bool" where
  "indexes_ok nk R db \<longleftrightarrow>
     (\<forall>k t idx. table_infos db k = Some t \<longrightarrow> idx \<in> set (indexes_by_table db k) \<longrightarrow> index_ok nk db (ti_columns t) idx (R k idx)) \<and>
     (\<forall>k k' i i'. i \<in> set (indexes_by_table db k) \<longrightarrow> i' \<in> set (indexes_by_table db k') \<longrightarrow> nk i = nk i' \<longrightarrow> k = k' \<and> i = i') \<and>
     (\<forall>k. distinct (indexes_by_table db k))"

text \<open>The same with the schema and the rows fixed.\<close>

definition indexes_at :: "(string \<Rightarrow> 'q table_info option) \<Rightarrow> (string \<Rightarrow> index_schema list) \<Rightarrow> (string \<Rightarrow> row_list) \<Rightarrow> (index_schema \<Rightarrow> string) \<Rightarrow>
    (string \<Rightarrow> index_schema \<Rightarrow> (i64 \<times> row) set) \<Rightarrow> ('q, 'x) database \<Rightarrow> bool" where
  "indexes_at ti ib tr nk R db \<longleftrightarrow> table_infos db = ti \<and> indexes_by_table db = ib \<and> table_rows db = tr \<and> indexes_ok nk R db"

lemma change_index:
  assumes "indexes_at ti ib tr nk R db" and "idx \<in> set (ib k)"
    and "\<And>t. ti k = Some t \<Longrightarrow> proper_rows (ti_columns t) idx rows \<and> indexes_rows (ti_columns t) idx rows es \<and> (\<forall>x. c = Some x \<longrightarrow> cache_of es x)"
  shows "indexes_at ti ib tr nk (R(k := (R k)(idx := rows))) (db\<lparr>index_entries := (index_entries db)(nk idx := es), index_caches := (index_caches db)(nk idx := c)\<rparr>)"
proof -
  let ?db = "db\<lparr>index_entries := (index_entries db)(nk idx := es), index_caches := (index_caches db)(nk idx := c)\<rparr>"
  have old: "indexes_ok nk R db" "table_infos db = ti" "indexes_by_table db = ib" "table_rows db = tr" using assms(1) by (auto simp: indexes_at_def)
  have "index_ok nk ?db (ti_columns t) i ((R(k := (R k)(idx := rows))) k' i)" if "ti k' = Some t" "i \<in> set (ib k')" for k' t i
  proof (cases "nk i = nk idx")
    case True
    then have "k' = k" "i = idx" using old that(2) assms(2) unfolding indexes_ok_def by blast+
    then show ?thesis using assms(3) that(1) by (simp add: index_ok_def)
  next
    case False
    then have "(R(k := (R k)(idx := rows))) k' i = R k' i" by auto
    moreover have "index_ok nk db (ti_columns t) i (R k' i)" using old that unfolding indexes_ok_def by blast
    ultimately show ?thesis using False by (simp add: index_ok_def)
  qed
  then have "indexes_ok nk (R(k := (R k)(idx := rows))) ?db" using old unfolding indexes_ok_def by simp
  then show ?thesis using old by (simp add: indexes_at_def)
qed

lemma indexes_atD:
  assumes "indexes_at ti ib tr nk R db" and "idx \<in> set (ib k)" and "ti k = Some t"
  shows "inj_on fst (R k idx)" and "indexes_rows (ti_columns t) idx (R k idx) (index_entries db (nk idx))"
    and "index_caches db (nk idx) = Some c \<Longrightarrow> cache_of (index_entries db (nk idx)) c" and "unique_in (ti_columns t) idx (R k idx)"
  using assms by (auto simp: indexes_at_def indexes_ok_def index_ok_def proper_rows_def)

lemma entry_nonempty: "indexes_rows cols idx rows es \<Longrightarrow> e \<in> set es \<Longrightarrow> snd e \<noteq> []"
  unfolding indexes_rows_def by (metis imageE imageI row_entry_shape(2))

lemma cache_rowid_None: "cache_of es c \<Longrightarrow> rowid_map c r = None \<Longrightarrow> e \<in> set es \<Longrightarrow> List.last (snd e) \<noteq> Integer r"
  unfolding cache_of_def by (metis option.distinct(1))

subsection \<open>Loading a cache\<close>

lemma loaded_cache_eq:
  assumes "fixed_names p nk tk"
  shows "loaded_cache p idx db = (let c = ensure_index_cache_loaded (index_entries db (nk idx)) (index_caches db (nk idx)) in
    (Ok c, db\<lparr>index_caches := (index_caches db)(nk idx \<mapsto> c)\<rparr>))"
  using assms by (simp add: loaded_cache_def op_get_def op_bind_def op_modify_def op_return_def Let_def)

lemma loaded_cache_of:
  assumes "indexes_at ti ib tr nk R db" and "idx \<in> set (ib k)" and "ti k = Some t"
  shows "cache_of (index_entries db (nk idx)) (ensure_index_cache_loaded (index_entries db (nk idx)) (index_caches db (nk idx)))"
  using indexes_atD [OF assms] load_cache_of indexes_loadable by (auto simp: ensure_index_cache_loaded_def split: option.split)

lemma loaded_cache_triple:
  assumes "fixed_names p nk tk" and "idx \<in> set (ib k)"
  shows "triple (indexes_at ti ib tr nk R) (loaded_cache p idx)
    (\<lambda>c db. indexes_at ti ib tr nk R db \<and> index_caches db (nk idx) = Some c \<and> (ti k \<noteq> None \<longrightarrow> cache_of (index_entries db (nk idx)) c))"
  unfolding triple_def
proof (intro allI impI)
  fix db c db' assume at: "indexes_at ti ib tr nk R db" and run: "loaded_cache p idx db = (Ok c, db')"
  have c: "c = ensure_index_cache_loaded (index_entries db (nk idx)) (index_caches db (nk idx))" "db' = db\<lparr>index_caches := (index_caches db)(nk idx \<mapsto> c)\<rparr>"
    using run by (auto simp: loaded_cache_eq [OF assms(1)] Let_def)
  have db': "db' = db\<lparr>index_entries := (index_entries db)(nk idx := index_entries db (nk idx)), index_caches := (index_caches db)(nk idx := Some c)\<rparr>" using c(2) by simp
  have "indexes_at ti ib tr nk (R(k := (R k)(idx := R k idx))) db'" unfolding db'
    using loaded_cache_of [OF at assms(2)] indexes_atD [OF at assms(2)] c(1) by (intro change_index [OF at assms(2)]) (auto simp: proper_rows_def)
  then show "indexes_at ti ib tr nk R db' \<and> index_caches db' (nk idx) = Some c \<and> (ti k \<noteq> None \<longrightarrow> cache_of (index_entries db' (nk idx)) c)"
    using loaded_cache_of [OF at assms(2)] c by auto
qed

lemma keeps_loaded_cache:
  assumes "fixed_names p nk tk" and "idx \<in> set (ib k)"
  shows "keeps (indexes_at ti ib tr nk R) (loaded_cache p idx)"
  using tripleD [OF loaded_cache_triple [where ib = ib and k = k, OF assms]] unfolding keeps_def by (auto simp: loaded_cache_eq [OF assms(1)] Let_def)

subsection \<open>Changing entries\<close>

lemma delete_index_entry_triple:
  assumes "fixed_names p nk tk" and "idx \<in> set (ib k)"
  shows "triple (indexes_at ti ib tr nk R) (delete_index_entry p rowid idx) (\<lambda>_. indexes_at ti ib tr nk (R(k := (R k)(idx := {x \<in> R k idx. fst x \<noteq> rowid}))))"
  unfolding delete_index_entry_def
proof (rule triple_bind [OF loaded_cache_triple [where ib = ib and k = k, OF assms]])
  fix c
  show "triple (\<lambda>db. indexes_at ti ib tr nk R db \<and> index_caches db (nk idx) = Some c \<and> (ti k \<noteq> None \<longrightarrow> cache_of (index_entries db (nk idx)) c))
    (case index_entry_rowid_for_table_rowid c rowid of None \<Rightarrow> op_return ()
       | Some n \<Rightarrow> op_get (\<lambda>db. let key = index_name_key p db idx in
           op_modify (\<lambda>db. db\<lparr>index_entries := (index_entries db)(key := store_delete n (index_entries db key)),
             index_caches := (case map_of (index_entries db key) n of
                 Some (v # _) \<Rightarrow> (index_caches db)(key := index_cache_delete v rowid (index_caches db key))
               | _ \<Rightarrow> index_caches db)\<rparr>)))
    (\<lambda>_. indexes_at ti ib tr nk (R(k := (R k)(idx := {x \<in> R k idx. fst x \<noteq> rowid}))))"
    unfolding triple_def index_entry_rowid_for_table_rowid_def
  proof (intro allI impI, elim conjE)
    fix db a db' assume at: "indexes_at ti ib tr nk R db" and cached: "index_caches db (nk idx) = Some c" and of: "ti k \<noteq> None \<longrightarrow> cache_of (index_entries db (nk idx)) c"
      and run: "(case rowid_map c rowid of None \<Rightarrow> op_return ()
       | Some n \<Rightarrow> op_get (\<lambda>db. let key = index_name_key p db idx in
           op_modify (\<lambda>db. db\<lparr>index_entries := (index_entries db)(key := store_delete n (index_entries db key)),
             index_caches := (case map_of (index_entries db key) n of
                 Some (v # _) \<Rightarrow> (index_caches db)(key := index_cache_delete v rowid (index_caches db key))
               | _ \<Rightarrow> index_caches db)\<rparr>))) db = (Ok a, db')"
    show "indexes_at ti ib tr nk (R(k := (R k)(idx := {x \<in> R k idx. fst x \<noteq> rowid}))) db'"
    proof (cases "rowid_map c rowid")
      case None
      have "{x \<in> R k idx. fst x \<noteq> rowid} = R k idx" if t: "ti k = Some t" for t
      proof -
        have "Integer rowid \<notin> (List.last \<circ> snd) ` set (index_entries db (nk idx))" using cache_rowid_None of t None by (metis (no_types, lifting) comp_apply imageE option.distinct(1))
        moreover have "(List.last \<circ> snd) ` set (index_entries db (nk idx)) = (\<lambda>x. Integer (fst x)) ` R k idx"
          using indexes_atD(2) [OF at assms(2) t] unfolding image_comp [symmetric] indexes_rows_def by (simp add: image_comp comp_def)
        ultimately show ?thesis by auto
      qed
      then have "indexes_at ti ib tr nk (R(k := (R k)(idx := {x \<in> R k idx. fst x \<noteq> rowid}))) (db\<lparr>index_entries := (index_entries db)(nk idx := index_entries db (nk idx)), index_caches := (index_caches db)(nk idx := Some c)\<rparr>)"
        using indexes_atD [OF at assms(2)] of by (intro change_index [OF at assms(2)]) (auto simp: proper_rows_def)
      moreover have "(index_caches db)(nk idx := Some c) = index_caches db" using cached by auto
      ultimately show ?thesis using run None by (simp add: op_return_def)
    next
      case (Some n)
      let ?es = "index_entries db (nk idx)" and ?c = "case map_of (index_entries db (nk idx)) n of Some (v # _) \<Rightarrow> index_cache_delete v rowid (Some c) | _ \<Rightarrow> Some c"
      have db': "db' = db\<lparr>index_entries := (index_entries db)(nk idx := store_delete n ?es), index_caches := (index_caches db)(nk idx := ?c)\<rparr>"
        using run Some cached assms(1) by (auto simp: op_get_def op_modify_def Let_def fun_upd_idem split: option.split list.split)
      show ?thesis unfolding db'
      proof (rule change_index [OF at assms(2)])
        fix t assume t: "ti k = Some t"
        note ok = indexes_atD [OF at assms(2) t]
        obtain e where e: "e \<in> set ?es" "fst e = n" "List.last (snd e) = Integer rowid" using of t Some by (auto simp: cache_of_def)
        obtain v vs where v: "snd e = v # vs" using entry_nonempty [OF ok(2) e(1)] by (cases "snd e") auto
        have m: "map_of ?es n = Some (snd e)" using e(1,2) ok(2) by (auto simp: indexes_rows_def)
        have same: "fst x = n \<longleftrightarrow> List.last (snd x) = Integer rowid" if "x \<in> set ?es" for x using entry_identity [OF ok(2,1) e(1) that] e by simp
        have only: "snd x = snd e" if "x \<in> set ?es" "fst x = n" for x using that m ok(2) by (metis indexes_rows_def map_of_eq_Some_iff option.inject prod.collapse)
        have "cache_of (store_delete n ?es) x" if "?c = Some x" for x
          using cache_delete_of [where c = c and c' = x, OF _ same only] of t that m v by simp
        moreover have "proper_rows (ti_columns t) idx {x \<in> R k idx. fst x \<noteq> rowid}"
          using inj_on_subset [OF ok(1)] unique_subset [OF ok(4)] by (auto simp: proper_rows_def)
        ultimately show "proper_rows (ti_columns t) idx {x \<in> R k idx. fst x \<noteq> rowid} \<and> indexes_rows (ti_columns t) idx {x \<in> R k idx. fst x \<noteq> rowid} (store_delete n ?es) \<and>
            (\<forall>x. ?c = Some x \<longrightarrow> cache_of (store_delete n ?es) x)"
          using indexes_delete [OF ok(2,1) e(1,3)] e(2) by auto
      qed
    qed
  qed
qed

lemma keeps_unique_conflict:
  assumes "fixed_names p nk tk" and "idx \<in> set (ib k)"
  shows "keeps (indexes_at ti ib tr nk R) (unique_index_conflict_exists p idx keys ignored)"
  unfolding unique_index_conflict_exists_def Let_def
  by (intro keeps_intros keeps_loaded_cache [where ib = ib and k = k, OF assms])

text \<open>The check finds every row with the same key, other than the ignored one.\<close>

definition no_conflict :: "column_info list \<Rightarrow> index_schema \<Rightarrow> value list \<Rightarrow> i64 option \<Rightarrow> (i64 \<times> row) set \<Rightarrow> bool" where
  "no_conflict cols idx keys ignored rows \<longleftrightarrow> (\<forall>x \<in> rows. Some (fst x) \<noteq> ignored \<longrightarrow>
     \<not> (list_all2 value_eq (index_values cols idx (snd x)) keys \<and> index_eq_key (hd (index_values cols idx (snd x))) = index_eq_key (hd keys)))"

lemma candidates_complete:
  assumes "indexes_rows cols idx rows es" and "cache_of es c" and x: "x \<in> rows" "Some (fst x) \<noteq> ignored"
    and "list_all2 value_eq (index_values cols idx (snd x)) keys" and "index_eq_key (hd (index_values cols idx (snd x))) = index_eq_key (hd keys)"
  shows "\<exists>r \<in> set (index_rowids_for_value c (hd keys)). Some r \<noteq> ignored \<and>
    (\<exists>n e. index_entry_rowid_for_table_rowid c r = Some n \<and> map_of es n = Some e \<and> entry_conflicts keys ignored e)"
proof -
  obtain e where e: "e \<in> set es" "snd e = row_entry cols idx x" using assms(1) x(1) unfolding indexes_rows_def by (metis (no_types, lifting) imageE imageI)
  obtain v vs where v: "index_values cols idx (snd x) = v # vs" using indexed_values [OF assms(1)] by (metis neq_Nil_conv)
  have "fst x \<in> set (index_rowids_for_value c (hd keys))" using assms(2,6) e v unfolding cache_of_def index_rowids_for_value_def by (auto simp: row_entry_def intro!: bexI [of _ e])
  moreover have "index_entry_rowid_for_table_rowid c (fst x) = Some (fst e)" using assms(2) e unfolding cache_of_def index_entry_rowid_for_table_rowid_def by auto
  moreover have "map_of es (fst e) = Some (snd e)" using assms(1) e(1) by (simp add: indexes_rows_def)
  moreover have "entry_conflicts keys ignored (snd e)" using assms(5) x(2) by (simp add: e(2) entry_conflicts_def row_entry_def list_all2_lengthD)
  ultimately show ?thesis using x(2) by blast
qed

lemma unique_conflict_triple:
  assumes "fixed_names p nk tk" and "idx \<in> set (ib k)" and "ti k = Some t" and "keys \<noteq> []"
  shows "triple (indexes_at ti ib tr nk R) (unique_index_conflict_exists p idx keys ignored)
    (\<lambda>b db. indexes_at ti ib tr nk R db \<and> (\<not> b \<longrightarrow> no_conflict (ti_columns t) idx keys ignored (R k idx)))"
proof -
  have "no_conflict (ti_columns t) idx keys ignored (R k idx)"
    if at: "indexes_at ti ib tr nk R db" and c: "cache_of (index_entries db (nk idx)) c"
      and none: "\<not> list_ex (entry_conflicts keys ignored) (concat (map (\<lambda>n. case map_of (index_entries db (nk idx)) n of None \<Rightarrow> [] | Some r \<Rightarrow> [r])
        (concat (map (\<lambda>r. case index_entry_rowid_for_table_rowid c r of None \<Rightarrow> [] | Some n \<Rightarrow> [n]) (filter (\<lambda>r. Some r \<noteq> ignored) (index_rowids_for_value c (hd keys)))))))" for db c
  proof (rule ccontr)
    assume "\<not> no_conflict (ti_columns t) idx keys ignored (R k idx)"
    then obtain x where x: "x \<in> R k idx" "Some (fst x) \<noteq> ignored" "list_all2 value_eq (index_values (ti_columns t) idx (snd x)) keys"
      "index_eq_key (hd (index_values (ti_columns t) idx (snd x))) = index_eq_key (hd keys)" unfolding no_conflict_def by blast
    from candidates_complete [OF indexes_atD(2) [OF at assms(2,3)] c x] obtain r n e where
      "r \<in> set (index_rowids_for_value c (hd keys))" "Some r \<noteq> ignored" "index_entry_rowid_for_table_rowid c r = Some n"
      "map_of (index_entries db (nk idx)) n = Some e" "entry_conflicts keys ignored e" by blast
    then show False using none by (auto simp: list_ex_iff)
  qed
  note complete = this
  show ?thesis unfolding unique_index_conflict_exists_def Let_def fixed_namesD(1) [OF assms(1)]
    using assms(3,4) complete
    by (auto intro!: triple_bind [OF loaded_cache_triple [where ib = ib and k = k, OF assms(1,2)]] triple_get triple_return)
qed

lemma put_index_entry:
  assumes at: "indexes_at ti ib tr nk R db" and idx: "idx \<in> set (ib k)" and t: "ti k = Some t" and new: "rowid \<notin> fst ` R k idx"
    and put: "store_insert n (row_entry (ti_columns t) idx (rowid, row)) (index_entries db (nk idx)) = Ok es"
    and unique: "idx_unique idx \<Longrightarrow> Null \<notin> set (index_values (ti_columns t) idx row) \<Longrightarrow> no_conflict (ti_columns t) idx (index_values (ti_columns t) idx row) (Some rowid) (R k idx)"
  shows "indexes_at ti ib tr nk (R(k := (R k)(idx := insert (rowid, row) (R k idx))))
    (db\<lparr>index_entries := (index_entries db)(nk idx := es),
        index_caches := (case index_values (ti_columns t) idx row of [] \<Rightarrow> index_caches db
          | v # _ \<Rightarrow> (index_caches db)(nk idx := index_cache_insert v rowid n (index_caches db (nk idx))))\<rparr>)"
proof -
  let ?e = "row_entry (ti_columns t) idx (rowid, row)"
  note ok = indexes_atD [OF at idx t]
  obtain v vs where v: "index_values (ti_columns t) idx row = v # vs"
    using indexed_values [OF ok(2)] by (metis neq_Nil_conv)
  have hd: "hd ?e = v" by (simp add: row_entry_def v)
  have fresh: "\<forall>x \<in> set (index_entries db (nk idx)). List.last (snd x) \<noteq> Integer rowid"
  proof
    fix x assume "x \<in> set (index_entries db (nk idx))"
    then obtain y where "y \<in> R k idx" "snd x = row_entry (ti_columns t) idx y" using ok(2) unfolding indexes_rows_def by (metis imageE imageI)
    then show "List.last (snd x) \<noteq> Integer rowid" using new by auto
  qed
  have "cache_of es x" if "index_cache_insert v rowid n (index_caches db (nk idx)) = Some x" for x
  proof (cases "index_caches db (nk idx)")
    case (Some c)
    then show ?thesis using cache_insert_of [OF ok(3) [OF Some] put _ fresh, of x] that hd by simp
  qed (use that in \<open>simp add: index_cache_insert_def\<close>)
  moreover have "inj_on fst (insert (rowid, row) (R k idx))" using ok(1) new by (auto simp: inj_on_def)
  moreover have "unique_in (ti_columns t) idx (insert (rowid, row) (R k idx))"
  proof (rule unique_insert [OF ok(4)])
    assume "idx_unique idx"
    then show "\<forall>y \<in> R k idx. \<not> same_index_key (ti_columns t) idx (snd y) (snd (rowid, row))"
      using unique new unfolding no_conflict_def same_index_key_def Let_def by force
  qed
  ultimately show ?thesis using change_index [OF at idx, of "insert (rowid, row) (R k idx)" es] indexes_insert [OF ok(2) put] new t v by (simp add: proper_rows_def)
qed

lemma insert_index_entry_triple:
  assumes "fixed_names p nk tk" and idx: "idx \<in> set (ib k)" and t: "ti k = Some t" and new: "rowid \<notin> fst ` R k idx"
  shows "triple (indexes_at ti ib tr nk R) (insert_index_entry p name (ti_columns t) rowid row idx)
    (\<lambda>_. indexes_at ti ib tr nk (R(k := (R k)(idx := insert (rowid, row) (R k idx)))))"
  unfolding insert_index_entry_def Let_def
proof (rule triple_bind)
  let ?vals = "index_values (ti_columns t) idx row"
  let ?Q = "\<lambda>b db. indexes_at ti ib tr nk R db \<and> (\<not> b \<longrightarrow> idx_unique idx \<longrightarrow> Null \<notin> set ?vals \<longrightarrow> no_conflict (ti_columns t) idx ?vals (Some rowid) (R k idx))"
  have vals: "?vals \<noteq> []" if "indexes_at ti ib tr nk R db" for db :: "('a, 'b) database"
    by (rule indexed_values [OF indexes_atD(2) [OF that idx t]])
  show "triple (indexes_at ti ib tr nk R)
      (if idx_unique idx \<and> Null \<notin> set ?vals then unique_index_conflict_exists p idx ?vals (Some rowid) else op_return False) ?Q"
  proof (cases "idx_unique idx \<and> Null \<notin> set ?vals \<and> ?vals \<noteq> []")
    case True
    then show ?thesis using triple_weaken [OF unique_conflict_triple [where ib = ib and k = k and ti = ti, OF assms(1) idx t]] by auto
  next
    case False
    then show ?thesis using vals by (cases "idx_unique idx \<and> Null \<notin> set ?vals") (auto simp: triple_def op_return_def)
  qed
  fix conflict
  show "triple (?Q conflict) (if conflict then op_fail (unique_violation name idx) else op_get (\<lambda>db.
      op_bind (op_result (i64_succ (max_rowid_of p (index_entries db (index_name_key p db idx))))) (\<lambda>n.
      op_bind (op_result (store_insert n (?vals @ [Integer rowid]) (index_entries db (index_name_key p db idx)))) (\<lambda>es.
      op_modify (\<lambda>db'. db'\<lparr>index_entries := (index_entries db')(index_name_key p db idx := es),
        index_caches := (case ?vals of [] \<Rightarrow> index_caches db'
          | v # _ \<Rightarrow> (index_caches db')(index_name_key p db idx := index_cache_insert v rowid n (index_caches db' (index_name_key p db idx))))\<rparr>)))))
    (\<lambda>_. indexes_at ti ib tr nk (R(k := (R k)(idx := insert (rowid, row) (R k idx)))))"
  proof (cases conflict)
    case False
    have nm: "index_name_key p db = nk" for db using assms(1) by simp
    show ?thesis using False put_index_entry [where ti = ti and ib = ib and k = k and R = R and nk = nk and row = row, OF _ idx t new]
      unfolding nm by (auto simp: triple_def op_get_def op_bind_def op_result_def op_modify_def row_entry_def split: res.splits)
  qed (simp add: triple_fail)
qed

subsection \<open>All indexes of a table\<close>

lemma delete_entries_triple:
  assumes "fixed_names p nk tk" and "set ixs \<subseteq> set (ib k)"
  shows "triple (indexes_at ti ib tr nk R) (op_each (delete_index_entry p rowid) ixs)
    (\<lambda>_. indexes_at ti ib tr nk (R(k := (\<lambda>i. if i \<in> set ixs then {x \<in> R k i. fst x \<noteq> rowid} else R k i))))"
  using assms(2)
proof (induction ixs arbitrary: R)
  case (Cons i ixs)
  let ?R = "R(k := (R k)(i := {x \<in> R k i. fst x \<noteq> rowid}))"
  have eq: "?R(k := (\<lambda>j. if j \<in> set ixs then {x \<in> ?R k j. fst x \<noteq> rowid} else ?R k j)) = R(k := (\<lambda>j. if j \<in> set (i # ixs) then {x \<in> R k j. fst x \<noteq> rowid} else R k j))"
    by (auto simp: fun_eq_iff)
  have i: "i \<in> set (ib k)" "set ixs \<subseteq> set (ib k)" using Cons.prems by auto
  show ?case unfolding op_each.simps
    by (rule triple_bind [OF delete_index_entry_triple [where ib = ib and k = k, OF assms(1) i(1)] Cons.IH [OF i(2), of ?R, unfolded eq]])
qed (simp add: triple_return)

lemma insert_entries_triple:
  assumes "fixed_names p nk tk" and "ti k = Some t" and "set ixs \<subseteq> set (ib k)" and "distinct ixs" and "\<forall>i \<in> set ixs. rowid \<notin> fst ` R k i"
  shows "triple (indexes_at ti ib tr nk R) (op_each (insert_index_entry p name (ti_columns t) rowid row) ixs)
    (\<lambda>_. indexes_at ti ib tr nk (R(k := (\<lambda>i. if i \<in> set ixs then insert (rowid, row) (R k i) else R k i))))"
  using assms(3-5)
proof (induction ixs arbitrary: R)
  case (Cons i ixs)
  let ?R = "R(k := (R k)(i := insert (rowid, row) (R k i)))"
  have eq: "?R(k := (\<lambda>j. if j \<in> set ixs then insert (rowid, row) (?R k j) else ?R k j)) = R(k := (\<lambda>j. if j \<in> set (i # ixs) then insert (rowid, row) (R k j) else R k j))"
    by (auto simp: fun_eq_iff)
  have i: "i \<in> set (ib k)" "rowid \<notin> fst ` R k i" and ixs: "set ixs \<subseteq> set (ib k)" "distinct ixs" "\<forall>j \<in> set ixs. rowid \<notin> fst ` ?R k j"
    using Cons.prems by auto
  show ?case unfolding op_each.simps
    by (rule triple_bind [OF insert_index_entry_triple [where ib = ib and k = k and R = R and ti = ti, OF assms(1) i(1) assms(2) i(2)] Cons.IH [of ?R, OF ixs, unfolded eq]])
qed (simp add: triple_return)

section \<open>The invariant\<close>

text \<open>
  Every index has exactly one entry for each row of its table, with the row's values, and a cache that knows them.
\<close>

definition rows_indexed :: "(index_schema \<Rightarrow> string) \<Rightarrow> ('q, 'x) database \<Rightarrow> bool" where
  "rows_indexed nk db \<longleftrightarrow> (\<forall>k. distinct (map fst (table_rows db k))) \<and> indexes_ok nk (\<lambda>k _. set (table_rows db k)) db"

text \<open>The same, but for one row that the indexes of its table do not have.\<close>

definition rows_indexed_but :: "(index_schema \<Rightarrow> string) \<Rightarrow> string \<Rightarrow> i64 \<Rightarrow> ('q, 'x) database \<Rightarrow> bool" where
  "rows_indexed_but nk key rowid db \<longleftrightarrow> (\<forall>k. distinct (map fst (table_rows db k))) \<and>
     indexes_ok nk (\<lambda>k _. {x \<in> set (table_rows db k). k = key \<longrightarrow> fst x \<noteq> rowid}) db"

lemma indexes_ok_cong:
  assumes "indexes_ok nk R db" and "\<And>k i. i \<in> set (indexes_by_table db k) \<Longrightarrow> R k i = R' k i"
  shows "indexes_ok nk R' db"
proof -
  have "index_ok nk db (ti_columns t) i (R' k i)" if "table_infos db k = Some t" "i \<in> set (indexes_by_table db k)" for k t i
    using assms that unfolding indexes_ok_def by metis
  then show ?thesis using assms(1) unfolding indexes_ok_def by blast
qed

lemma triple_indexes_at:
  fixes f :: "('q, 'x, 'a) dml"
  assumes "\<And>ti ib tr. triple (indexes_at ti ib tr nk (R tr)) f (\<lambda>_ db. indexes_at ti ib tr nk (R' tr ib) db)"
    and "\<And>db :: ('q, 'x) database. indexes_ok nk (R' (table_rows db) (indexes_by_table db)) db \<Longrightarrow> indexes_ok nk (Q (table_rows db)) db"
  shows "triple (\<lambda>db. P (table_rows db) \<and> indexes_ok nk (R (table_rows db)) db) f (\<lambda>_ db. P (table_rows db) \<and> indexes_ok nk (Q (table_rows db)) db)"
  unfolding triple_def
proof (intro allI impI, elim conjE)
  fix db a db' assume P: "P (table_rows db)" and ok: "indexes_ok nk (R (table_rows db)) db" and run: "f db = (Ok a, db')"
  have "indexes_at (table_infos db) (indexes_by_table db) (table_rows db) nk (R' (table_rows db) (indexes_by_table db)) db'"
    using tripleD [OF assms(1) _ run] ok by (simp add: indexes_at_def)
  then show "P (table_rows db') \<and> indexes_ok nk (Q (table_rows db')) db'" using P assms(2) [of db'] by (simp add: indexes_at_def)
qed

lemma delete_index_entries_triple:
  assumes "fixed_names p nk tk"
  shows "triple (rows_indexed nk) (delete_index_entries p name rowid) (\<lambda>_. rows_indexed_but nk (tk name) rowid)"
  unfolding rows_indexed_def [abs_def] rows_indexed_but_def [abs_def]
proof (rule triple_indexes_at)
  fix ti ib tr
  show "triple (indexes_at ti ib tr nk (\<lambda>k _. set (tr k))) (delete_index_entries p name rowid)
    (\<lambda>_. indexes_at ti ib tr nk ((\<lambda>k _. set (tr k))(tk name := (\<lambda>i. if i \<in> set (ib (tk name)) then {x \<in> set (tr (tk name)). fst x \<noteq> rowid} else set (tr (tk name))))))"
    unfolding delete_index_entries_def
  proof (rule triple_get_any)
    fix db :: "('a, 'b) database" assume "indexes_at ti ib tr nk (\<lambda>k _. set (tr k)) db"
    then have "indexes_for_table p db name = ib (tk name)" using assms by (auto simp: indexes_at_def)
    then show "triple (indexes_at ti ib tr nk (\<lambda>k _. set (tr k))) (op_each (delete_index_entry p rowid) (indexes_for_table p db name))
      (\<lambda>_. indexes_at ti ib tr nk ((\<lambda>k _. set (tr k))(tk name := (\<lambda>i. if i \<in> set (ib (tk name)) then {x \<in> set (tr (tk name)). fst x \<noteq> rowid} else set (tr (tk name))))))"
      using delete_entries_triple [where ib = ib and k = "tk name" and ixs = "ib (tk name)", OF assms] by simp
  qed
qed (erule indexes_ok_cong, auto)

lemma keeps_indexes_at:
  fixes f :: "('q, 'x, 'a) dml"
  assumes "\<And>ti ib tr R. keeps (indexes_at ti ib tr nk R) f"
  shows "keeps (rows_indexed nk) f" and "keeps (rows_indexed_but nk key rowid) f"
proof -
  have "indexes_ok nk R (snd (f db)) \<and> table_rows (snd (f db)) = table_rows db" if "indexes_ok nk R db" for R db
    using keepsD [OF assms, of "table_infos db" "indexes_by_table db" "table_rows db" R db] that by (auto simp: indexes_at_def)
  note kept = this
  show "keeps (rows_indexed nk) f" unfolding keeps_def
  proof (intro allI impI)
    fix db :: "('q, 'x) database" assume "rows_indexed nk db"
    then show "rows_indexed nk (snd (f db))" using kept [of "\<lambda>k _. set (table_rows db k)" db] by (simp add: rows_indexed_def)
  qed
  show "keeps (rows_indexed_but nk key rowid) f" unfolding keeps_def
  proof (intro allI impI)
    fix db :: "('q, 'x) database" assume "rows_indexed_but nk key rowid db"
    then show "rows_indexed_but nk key rowid (snd (f db))"
      using kept [of "\<lambda>k _. {x \<in> set (table_rows db k). k = key \<longrightarrow> fst x \<noteq> rowid}" db] by (simp add: rows_indexed_but_def)
  qed
qed

lemma table_info_triple: "fixed_names p nk tk \<Longrightarrow> triple P (table_info_of p name) (\<lambda>t db. P db \<and> table_infos db (tk name) = Some t)"
  by (auto simp: triple_def table_info_of_def op_get_def op_fail_def op_return_def split: option.splits)

lemma keeps_table_info [keeps_intros]: "keeps P (table_info_of p name)"
  unfolding table_info_of_def by (intro keeps_intros)

lemma insert_index_entries_triple:
  assumes "fixed_names p nk tk"
  shows "triple (\<lambda>db. rows_indexed_but nk (tk name) rowid db \<and> (rowid, row) \<in> set (table_rows db (tk name))) (insert_index_entries p name rowid row) (\<lambda>_. rows_indexed nk)"
  unfolding triple_def
proof (intro allI impI, elim conjE)
  fix db a db' assume but: "rows_indexed_but nk (tk name) rowid db" and row: "(rowid, row) \<in> set (table_rows db (tk name))"
    and run: "insert_index_entries p name rowid row db = (Ok a, db')"
  let ?k = "tk name" and ?ib = "indexes_by_table db" and ?tr = "table_rows db"
  let ?R = "\<lambda>k (_ :: index_schema). {x \<in> set (?tr k). k = ?k \<longrightarrow> fst x \<noteq> rowid}"
  let ?R' = "?R(?k := (\<lambda>i. if i \<in> set (?ib ?k) then insert (rowid, row) (?R ?k i) else ?R ?k i))"
  have at: "indexes_at (table_infos db) ?ib ?tr nk ?R db" and d: "\<forall>k. distinct (map fst (?tr k))" using but by (simp_all add: rows_indexed_but_def indexes_at_def)
  have R: "insert (rowid, row) {x \<in> set (?tr ?k). fst x \<noteq> rowid} = set (?tr ?k)" using row eq_key_imp_eq_value [OF spec [OF d]] by auto
  have same: "?R' k i = set (?tr k)" if "i \<in> set (?ib k)" for k i
    using that by (cases "k = ?k") (simp_all add: R)
  have "indexes_at (table_infos db) ?ib ?tr nk ?R' db'"
  proof (cases "?ib ?k = []")
    case True
    then have "db' = db" using run assms by (simp add: insert_index_entries_def op_get_def op_return_def)
    then show ?thesis using at True by (simp add: fun_upd_idem)
  next
    case False
    then obtain t where t: "table_infos db ?k = Some t" "op_each (insert_index_entry p name (ti_columns t) rowid row) (?ib ?k) db = (Ok a, db')"
      using run assms by (auto simp: insert_index_entries_def op_get_def op_bind_def table_info_of_def op_fail_def op_return_def split: option.splits)
    have "distinct (?ib ?k)" using at by (simp add: indexes_at_def indexes_ok_def)
    then show ?thesis using tripleD [OF insert_entries_triple [where ti = "table_infos db" and ib = ?ib and k = ?k and R = ?R and ixs = "?ib ?k", OF assms t(1)] at t(2)] by auto
  qed
  then have db': "indexes_ok nk ?R' db'" "indexes_by_table db' = ?ib" "table_rows db' = ?tr" by (simp_all add: indexes_at_def)
  have "indexes_ok nk (\<lambda>k _. set (?tr k)) db'" by (rule indexes_ok_cong [OF db'(1)]) (rule same, simp only: db'(2))
  then show "rows_indexed nk db'" using d db'(3) by (simp add: rows_indexed_def)
qed

subsection \<open>Rows\<close>

lemma indexes_ok_rows [simp]: "indexes_ok nk R (db\<lparr>table_rows := x\<rparr>) = indexes_ok nk R db"
  by (simp add: indexes_ok_def index_ok_def)

lemma insert_row_triple:
  "triple (rows_indexed nk) (insert_row_op key rowid row) (\<lambda>_ db. rows_indexed_but nk key rowid db \<and> (rowid, row) \<in> set (table_rows db key))"
  unfolding triple_def
proof (intro allI impI)
  fix db a db' assume ok: "rows_indexed nk db" and run: "insert_row_op key rowid row db = (Ok a, db')"
  obtain xs where xs: "store_insert rowid row (table_rows db key) = Ok xs" "db' = db\<lparr>table_rows := (table_rows db)(key := xs)\<rparr>"
    using run by (auto simp: insert_row_op_def op_get_def op_bind_def op_result_def op_modify_def split: res.splits)
  note ins = store_insert_Ok [OF xs(1)]
  have "{x \<in> set xs. fst x \<noteq> rowid} = set (table_rows db key)" using ins(1,2) by force
  then have "(\<lambda>k (_ :: index_schema). {x \<in> set (((table_rows db)(key := xs)) k). k = key \<longrightarrow> fst x \<noteq> rowid}) = (\<lambda>k _. set (table_rows db k))" by (auto simp: fun_eq_iff)
  then show "rows_indexed_but nk key rowid db' \<and> (rowid, row) \<in> set (table_rows db' key)"
    using ok ins(1,3) unfolding xs(2) rows_indexed_but_def rows_indexed_def by auto
qed

lemma delete_row_triple: "triple (rows_indexed_but nk key rowid) (delete_row_op key rowid) (\<lambda>_. rows_indexed nk)"
proof -
  have "(\<lambda>k (_ :: index_schema). set (((table_rows db)(key := store_delete rowid (table_rows db key))) k)) = (\<lambda>k _. {x \<in> set (table_rows db k). k = key \<longrightarrow> fst x \<noteq> rowid})" for db :: "('a, 'b) database"
    by (auto simp: fun_eq_iff store_delete_def)
  then show ?thesis by (auto simp: triple_def delete_row_op_def op_modify_def rows_indexed_def rows_indexed_but_def store_delete_def distinct_map_filter)
qed

lemma update_row_triple:
  "triple (rows_indexed_but nk key rowid) (update_row_op key rowid row) (\<lambda>_ db. rows_indexed_but nk key rowid db \<and> (rowid, row) \<in> set (table_rows db key))"
  unfolding update_row_op_def by (rule triple_bind [OF delete_row_triple insert_row_triple])

end
