(* ===== verification/DmlLaws.thy ===== *)
theory DmlLaws
  imports DmlIndexes JoinLaws
begin

text \<open>
  What \<^verbatim>\<open>INSERT\<close>, \<^verbatim>\<open>UPDATE\<close> and \<^verbatim>\<open>DELETE\<close> guarantee: secondary indexes follow their tables.
\<close>

section \<open>Operations that leave rows and indexes alone\<close>

lemma indexes_ok_fields [simp]:
  "indexes_ok nk R (db\<lparr>binlog_events := a\<rparr>) = indexes_ok nk R db" "indexes_ok nk R (db\<lparr>undo_entries := b\<rparr>) = indexes_ok nk R db"
  "indexes_ok nk R (db\<lparr>lock_manager := c\<rparr>) = indexes_ok nk R db" "indexes_ok nk R (db\<lparr>search_indexes := d\<rparr>) = indexes_ok nk R db"
  "indexes_ok nk R (db\<lparr>pager_txid := e\<rparr>) = indexes_ok nk R db"
  by (simp_all add: indexes_ok_def index_ok_def)

text \<open>Both forms of the invariant look only at the schema, the rows, the index entries and the caches.\<close>

definition row_invariant :: "(('q, 'x) database \<Rightarrow> bool) \<Rightarrow> bool" where
  "row_invariant P \<longleftrightarrow> (\<forall>db a b c d e. P db \<longrightarrow>
     P (db\<lparr>binlog_events := a\<rparr>) \<and> P (db\<lparr>undo_entries := b\<rparr>) \<and> P (db\<lparr>lock_manager := c\<rparr>) \<and> P (db\<lparr>search_indexes := d\<rparr>) \<and> P (db\<lparr>pager_txid := e\<rparr>))"

lemma row_invariants [simp]: "row_invariant (rows_indexed nk)" "row_invariant (rows_indexed_but nk key rowid)"
  by (simp_all add: row_invariant_def rows_indexed_def rows_indexed_but_def)

lemma keeps_log [keeps_intros]: "row_invariant P \<Longrightarrow> keeps P (log_event f)"
  unfolding log_event_def by (rule keeps_modify) (simp add: row_invariant_def)

lemma keeps_undo [keeps_intros]: "row_invariant P \<Longrightarrow> keeps P (push_undo f)"
  unfolding push_undo_def by (intro keeps_intros keeps_modify) (simp add: row_invariant_def)

lemma keeps_lock [keeps_intros]: "row_invariant P \<Longrightarrow> keeps P (lock_row name rowid)"
  unfolding lock_row_def by (auto intro!: keeps_intros keeps_modify simp: row_invariant_def split: prod.split)

lemma keeps_search [keeps_intros]:
  assumes "row_invariant P"
  shows "keeps P (on_search_indexes f)" "keeps P (vec_delete_op p name rowid)" "keeps P (search_insert p name rowid row)"
proof -
  show on: "keeps P (on_search_indexes f)" for f using assms by (auto simp: keeps_def on_search_indexes_def row_invariant_def split: prod.split)
  show "keeps P (vec_delete_op p name rowid)" unfolding vec_delete_op_def by (rule keeps_modify) (use assms in \<open>simp add: row_invariant_def\<close>)
  show "keeps P (search_insert p name rowid row)" unfolding search_insert_def by (intro keeps_intros on)
qed

lemma keeps_find_row [keeps_intros]: "keeps P (find_row_op key rowid)"
  unfolding find_row_op_def by (intro keeps_intros)

lemma keeps_fk_lookup [keeps_intros]: "keeps P (fk_value_exists_in_parent p name ref v)"
  unfolding fk_value_exists_in_parent_def Let_def by (intro keeps_intros)

lemma keeps_checks [keeps_intros]: "keeps P (check_fk_on_insert p name row)" "keeps P (check_constraints_for_row p name row)"
  unfolding check_fk_on_insert_def check_fk_def check_constraints_for_row_def Let_def by (intro keeps_intros)+

lemma keeps_returning [keeps_intros]: "keeps P (returning_result p name es rows)"
  unfolding returning_result_def by (intro keeps_intros)

text \<open>SQL text of triggers and foreign keys is assumed to keep the invariant.\<close>

definition sql_keeps :: "('q, 'x) dml_params \<Rightarrow> (('q, 'x) database \<Rightarrow> bool) \<Rightarrow> bool" where
  "sql_keeps p P \<longleftrightarrow> (\<forall>s. keeps P (execute_sql p s))"

lemma keeps_triggers [keeps_intros]: "sql_keeps p P \<Longrightarrow> keeps P (fire_triggers p name timing event)"
  unfolding fire_triggers_def Let_def by (intro keeps_intros) (simp add: sql_keeps_def)

lemma keeps_fk_delete [keeps_intros]: "sql_keeps p P \<Longrightarrow> keeps P (enforce_fk_parent_delete p name row)"
  unfolding enforce_fk_parent_delete_def enforce_fk_delete_def
  by (intro keeps_intros) (auto simp: sql_keeps_def intro!: keeps_intros split: fk_action.split)

lemma keeps_fk_update [keeps_intros]: "sql_keeps p P \<Longrightarrow> keeps P (enforce_fk_parent_update p name old new)"
  unfolding enforce_fk_parent_update_def enforce_fk_update_def Let_def
  by (intro keeps_intros) (auto simp: sql_keeps_def intro!: keeps_intros split: fk_action.split option.split)

subsection \<open>Checks of unique indexes\<close>

lemma validate_keeps_at:
  assumes "fixed_names p nk tk"
  shows "keeps (indexes_at ti ib tr nk R) (validate_unique_indexes_for_row p name rowid row ignored)"
  unfolding validate_unique_indexes_for_row_def
proof (intro keeps_intros)
  fix db t idx assume "indexes_at ti ib tr nk R db" and "idx \<in> set (indexes_for_table p db name)"
  then have "idx \<in> set (ib (tk name))" using assms by (auto simp: indexes_at_def)
  then show "keeps (indexes_at ti ib tr nk R) (validate_unique_index p name (ti_columns t) rowid row ignored idx)"
    unfolding validate_unique_index_def by (intro keeps_intros keeps_unique_conflict [where ib = ib and k = "tk name", OF assms])
qed

lemma keeps_validate [keeps_intros]:
  assumes "fixed_names p nk tk"
  shows "keeps (rows_indexed nk) (validate_unique_indexes_for_row p name rowid row ignored)"
    "keeps (rows_indexed_but nk key rowid') (validate_unique_indexes_for_row p name rowid row ignored)"
  using keeps_indexes_at validate_keeps_at [OF assms] by blast+

lemma keeps_unique_check [keeps_intros]:
  assumes "fixed_names p nk tk"
  shows "keeps (rows_indexed nk) (unique_conflict p name rowid row)"
proof -
  have "snd (unique_conflict p name rowid row db) = snd (validate_unique_indexes_for_row p name rowid row None db)" for db
    by (simp add: unique_conflict_def split: prod.split res.split kkdb_error.split)
  then show ?thesis using keeps_validate(1) [OF assms] by (simp add: keeps_def)
qed

section \<open>One row\<close>

text \<open>An operation that keeps the invariant when it succeeds.\<close>

abbreviation maintains :: "(('q, 'x) database \<Rightarrow> bool) \<Rightarrow> ('q, 'x, 'a) dml \<Rightarrow> bool" where
  "maintains P f \<equiv> triple P f (\<lambda>_. P)"

lemma maintains_then: "maintains P f \<Longrightarrow> (\<And>a. maintains P (g a)) \<Longrightarrow> maintains P (op_bind f g)"
  by (rule triple_bind)

lemma maintains_get: "(\<And>s. maintains P (f s)) \<Longrightarrow> maintains P (op_get f)"
  by (rule triple_get_any)

text \<open>A row and its entries, put in and taken out together.\<close>

lemma put_row:
  assumes "fixed_names p nk tk" and "\<And>a. triple (rows_indexed nk) (g a) Q"
  shows "triple (rows_indexed nk) (op_bind (insert_row_op (tk name) rowid row) (\<lambda>_. op_bind (insert_index_entries p name rowid row) g)) Q"
  by (rule triple_bind [OF insert_row_triple triple_bind [OF insert_index_entries_triple [OF assms(1)] assms(2)]])

lemma maintains_remove_conflicting: "fixed_names p nk tk \<Longrightarrow> maintains (rows_indexed nk) (remove_conflicting p name (tk name) rowid)"
  unfolding remove_conflicting_def
  by (rule triple_then [OF keeps_search(1) triple_bind [OF delete_index_entries_triple delete_row_triple]]) simp_all

lemma insert_or_error_maintains:
  assumes "fixed_names p nk tk" and "sql_keeps p (rows_indexed nk)"
  shows "maintains (rows_indexed nk) (insert_or_error p name (tk name) rowid row)"
  unfolding insert_or_error_def using assms
  by (intro triple_then [OF keeps_validate(1)] put_row keeps_triple) (auto intro!: keeps_intros)

lemma insert_or_ignore_maintains:
  assumes "fixed_names p nk tk" and "sql_keeps p (rows_indexed nk)"
  shows "maintains (rows_indexed nk) (insert_or_ignore p name (tk name) pk rowid row)"
  unfolding insert_or_ignore_def
proof (intro triple_then [OF keeps_unique_check [OF assms(1)]] triple_then [OF keeps_find_row])
  fix conflict found
  show "maintains (rows_indexed nk) (if conflict \<or> pk \<noteq> None \<and> found \<noteq> None then op_return False
     else op_bind (insert_row_op (tk name) rowid row) (\<lambda>_. op_bind (insert_index_entries p name rowid row) (\<lambda>_.
       op_bind (log_event (\<lambda>t. Insert t (ascii name) rowid row)) (\<lambda>_.
       op_bind (fire_triggers p name AfterTrigger InsertEvent) (\<lambda>_. op_return True)))))"
  proof (cases "conflict \<or> pk \<noteq> None \<and> found \<noteq> None")
    case False
    then show ?thesis using assms by (simp only: if_False) (intro put_row keeps_triple, auto intro!: keeps_intros)
  next
    case True
    then show ?thesis by (simp only: if_True) (rule keeps_triple [OF keeps_return])
  qed
qed

lemma insert_or_replace_maintains:
  assumes "fixed_names p nk tk" and "sql_keeps p (rows_indexed nk)"
  shows "maintains (rows_indexed nk) (insert_or_replace p name (tk name) pk rowid row)"
proof -
  have "maintains (rows_indexed nk) (remove_for_pk p name (tk name) k)" for k
    unfolding remove_for_pk_def
    by (intro triple_then [OF keeps_find_row] maintains_then maintains_remove_conflicting [OF assms(1)] keeps_triple) (simp add: keeps_intros)
  then have pk: "maintains (rows_indexed nk) (op_get (\<lambda>db. case existing_rowid_for_pk (table_rows db (tk name)) pk row of None \<Rightarrow> op_return () | Some k \<Rightarrow> remove_for_pk p name (tk name) k))"
    by (auto intro!: maintains_get keeps_triple [OF keeps_return] split: option.split)
  have ids: "maintains (rows_indexed nk) (replace_conflicts p name rowid row)"
    unfolding replace_conflicts_def by (intro keeps_triple keeps_intros)
  have each: "maintains (rows_indexed nk) (op_each (remove_conflicting p name (tk name)) ids)" for ids
    by (intro triple_each maintains_remove_conflicting [OF assms(1)])
  have put: "maintains (rows_indexed nk) (op_bind (insert_row_op (tk name) rowid row) (\<lambda>_. op_bind (insert_index_entries p name rowid row) (\<lambda>_.
     op_bind (search_insert p name rowid row) (\<lambda>_. op_bind (log_event (\<lambda>t. Insert t (ascii name) rowid row)) (\<lambda>_.
     op_bind (fire_triggers p name AfterTrigger InsertEvent) (\<lambda>_. op_return True))))))"
    using assms by (intro put_row keeps_triple) (auto intro!: keeps_intros)
  show ?thesis unfolding insert_or_replace_def by (rule maintains_then [OF pk maintains_then [OF ids maintains_then [OF each put]]])
qed

text \<open>
  Taking out the entries of a row, checking the new row against the unique indexes, and putting it in: the middle of \<^verbatim>\<open>UPDATE\<close> and of \<^verbatim>\<open>ON CONFLICT DO UPDATE\<close>.
\<close>

lemma change_row:
  assumes "fixed_names p nk tk" and "\<And>a. triple (rows_indexed nk) (g a) Q"
  shows "triple (rows_indexed nk) (op_bind (delete_index_entries p name rowid) (\<lambda>_.
    op_bind (validate_unique_indexes_for_row p name rowid new ignored) (\<lambda>_. op_bind (update_row_op (tk name) rowid new) (\<lambda>_.
    op_bind (insert_index_entries p name rowid new) g)))) Q"
  by (rule triple_bind [OF delete_index_entries_triple [OF assms(1)] triple_then [OF keeps_validate(2) [OF assms(1)]
    triple_bind [OF update_row_triple triple_bind [OF insert_index_entries_triple [OF assms(1)] assms(2)]]]])

lemma upsert_existing_maintains:
  assumes "fixed_names p nk tk"
  shows "maintains (rows_indexed nk) (upsert_existing p name (tk name) assignments rowid)"
  unfolding upsert_existing_def Let_def
  by (intro triple_then [OF keeps_find_row] triple_then [OF keeps_table_info] maintains_get triple_then [OF keeps_result] triple_then [OF keeps_checks(2)]
      triple_then [OF keeps_checks(1)] triple_then [OF keeps_search(1)] change_row [OF assms] keeps_triple) (auto intro!: keeps_intros)

lemma update_one_maintains:
  assumes "fixed_names p nk tk" and "sql_keeps p (rows_indexed nk)"
  shows "maintains (rows_indexed nk) (update_one p name x)"
proof -
  obtain rowid old new where x: "x = (rowid, old, new)" by (cases x) auto
  have get: "op_get (\<lambda>db. update_row_op (table_key p db name) rowid new) = update_row_op (tk name) rowid new" using assms(1) by (simp add: op_get_def fun_eq_iff)
  show ?thesis unfolding update_one_def x prod.case get
    using assms by (intro triple_then [OF keeps_triggers] triple_then [OF keeps_checks(2)] triple_then [OF keeps_search(1)] triple_then [OF keeps_search(2)] change_row keeps_triple)
      (auto intro!: keeps_intros)
qed

lemma delete_one_maintains:
  assumes "fixed_names p nk tk" and "sql_keeps p (rows_indexed nk)"
  shows "maintains (rows_indexed nk) (delete_one p name rowid)"
proof -
  have drop: "triple (rows_indexed nk) (op_bind (delete_index_entries p name rowid) (\<lambda>_. op_bind (find_row_op (tk name) rowid) (\<lambda>old. op_bind (delete_row_op (tk name) rowid) (g old)))) Q"
    if "\<And>old a. triple (rows_indexed nk) (g old a) Q" for g Q
    by (rule triple_bind [OF delete_index_entries_triple [OF assms(1)] triple_then [OF keeps_find_row triple_bind [OF delete_row_triple that]]])
  show ?thesis unfolding delete_one_def Let_def fixed_namesD(2) [OF assms(1)]
    using assms by (intro triple_then [OF keeps_triggers] maintains_get triple_then [OF keeps_find_row] triple_then [OF keeps_option] triple_then [OF keeps_search(1)]
        triple_then [OF keeps_search(2)] drop keeps_triple) (auto intro!: keeps_intros)
qed

section \<open>Statements\<close>

lemma save_next_rowid_maintains:
  assumes "fixed_names p nk tk"
  shows "maintains (rows_indexed nk) (save_next_rowid p name n)"
proof -
  have "rows_indexed nk (db\<lparr>table_infos := (table_infos db)(tk name \<mapsto> t\<lparr>next_rowid := n\<rparr>)\<rparr>)" if "rows_indexed nk db" "table_infos db (tk name) = Some t" for db t
    using that by (auto simp: rows_indexed_def indexes_ok_def index_ok_def)
  then show ?thesis unfolding save_next_rowid_def fixed_namesD(2) [OF assms] by (intro triple_bind [OF table_info_triple [OF assms]] triple_modify) auto
qed

definition row_policy :: "'q insert_stmt \<Rightarrow> bool" where
  "row_policy s \<longleftrightarrow> (\<forall>as. ins_conflict s \<noteq> ConflictUpdate as)"

lemma insert_one_maintains:
  assumes "fixed_names p nk tk" and "sql_keeps p (rows_indexed nk)" and "row_policy s"
  shows "maintains (rows_indexed nk) (insert_one p s t (tk (ins_table s)) indices n vals)"
proof -
  have policy: "maintains (rows_indexed nk) (insert_with_policy p s (tk (ins_table s)) pk rowid row)" for pk rowid row
    using assms insert_or_error_maintains [OF assms(1,2)] insert_or_ignore_maintains [OF assms(1,2)] insert_or_replace_maintains [OF assms(1,2)]
    by (auto simp: insert_with_policy_def row_policy_def split: conflict_policy.split)
  show ?thesis
  proof (cases "length vals = length indices")
    case True
    have "maintains (rows_indexed nk) (op_bind (fire_triggers p (ins_table s) BeforeTrigger InsertEvent) (\<lambda>_.
        op_bind (op_result (check_not_null (ti_name t) row (ti_columns t))) (\<lambda>_. op_bind (check_fk_on_insert p (ins_table s) row) (\<lambda>_.
        op_bind (check_constraints_for_row p (ins_table s) row) (\<lambda>_. op_bind (insert_with_policy p s (tk (ins_table s)) pk rowid row) (\<lambda>counted.
        op_return (next', counted, row)))))))" for rowid next' row pk
      by (intro triple_then [OF keeps_triggers [OF assms(2)]] triple_then [OF keeps_result] triple_then [OF keeps_checks(1)] triple_then [OF keeps_checks(2)]
          maintains_then [OF policy] keeps_triple [OF keeps_return])
    then show ?thesis using True unfolding insert_one_def by (auto intro!: triple_then [OF keeps_result] split: prod.split)
  qed (simp add: insert_one_def triple_fail)
qed

lemma insert_each_maintains:
  assumes "fixed_names p nk tk" and "sql_keeps p (rows_indexed nk)" and "row_policy s"
  shows "maintains (rows_indexed nk) (insert_each p s t (tk (ins_table s)) indices n vals)"
  by (induction vals arbitrary: n) (auto intro!: maintains_then insert_one_maintains assms keeps_triple [OF keeps_return] split: prod.split)

lemma insert_value_rows_maintains:
  assumes "fixed_names p nk tk" and "sql_keeps p (rows_indexed nk)" and "row_policy s"
  shows "maintains (rows_indexed nk) (insert_value_rows p s vals)"
proof -
  have "maintains (rows_indexed nk) (op_bind (save_next_rowid p (ins_table s) next') (\<lambda>_. case ins_returning s of
      Some es \<Rightarrow> returning_result p (ins_table s) es (if ins_conflict s = ConflictError then rows else [])
    | None \<Rightarrow> op_return (RowsAffected (length rows) (show_nat (length rows) @ '' row(s) inserted''))))" for next' rows
    by (intro maintains_then [OF save_next_rowid_maintains [OF assms(1)]] keeps_triple keeps_intros)
  then show ?thesis unfolding insert_value_rows_def fixed_namesD(2) [OF assms(1)]
    by (intro triple_then [OF keeps_table_info] maintains_get triple_then [OF keeps_result] maintains_then [OF insert_each_maintains [OF assms]]) (auto split: prod.split)
qed

lemma in_implicit_txn_maintains:
  assumes "maintains (rows_indexed nk) f"
  shows "maintains (rows_indexed nk) (in_implicit_txn p f)"
  unfolding triple_def
proof (intro allI impI)
  fix db a db' assume ok: "rows_indexed nk db" and run: "in_implicit_txn p f db = (Ok a, db')"
  have start: "rows_indexed nk (db\<lparr>pager_txid := Some (new_txid p db)\<rparr>)" using ok by (simp add: rows_indexed_def)
  show "rows_indexed nk db'"
  proof (cases "in_txn db")
    case True
    then show ?thesis using run tripleD [OF assms ok] by (simp add: in_implicit_txn_def)
  next
    case False
    then obtain db1 where "f (db\<lparr>pager_txid := Some (new_txid p db)\<rparr>) = (Ok a, db1)" "db' = db1\<lparr>pager_txid := None\<rparr>"
      using run by (auto simp: in_implicit_txn_def split: prod.splits res.splits)
    then show ?thesis using tripleD [OF assms start] by (simp add: rows_indexed_def)
  qed
qed

lemma exec_insert_maintains:
  assumes "fixed_names p nk tk" and "sql_keeps p (rows_indexed nk)" and "row_policy s"
  shows "maintains (rows_indexed nk) (exec_insert p s)"
  unfolding exec_insert_def
  by (intro maintains_get triple_then [OF keeps_result] in_implicit_txn_maintains insert_value_rows_maintains [OF assms])

lemma insert_batch_raw_maintains:
  assumes "fixed_names p nk tk" and "sql_keeps p (rows_indexed nk)"
  shows "maintains (rows_indexed nk) (insert_batch_raw p name vals)"
  unfolding insert_batch_raw_def by (intro in_implicit_txn_maintains insert_value_rows_maintains [OF assms]) (simp add: row_policy_def)

lemma keeps_index_rowids:
  fixes p :: "('q, 'x) dml_params"
  assumes "fixed_names p nk tk"
  shows "keeps (rows_indexed nk) (dml_index_rowids p name w)"
proof (rule keeps_indexes_at)
  fix ti ib tr and R :: "string \<Rightarrow> index_schema \<Rightarrow> (i64 \<times> row) set"
  have "keeps (indexes_at ti ib tr nk R) (try_dml_index_rowids p name e)" for e
    unfolding try_dml_index_rowids_def
  proof (rule keeps_get, rule keeps_bind [OF keeps_result])
    fix db :: "('q, 'x) database" and found assume at: "indexes_at ti ib tr nk R db"
    show "keeps (indexes_at ti ib tr nk R) (case found of None \<Rightarrow> op_return None | Some (col, l) \<Rightarrow>
        (case find (\<lambda>idx. idx_columns idx \<noteq> [] \<and> eq_ignore_ascii_case (hd (idx_columns idx)) col) (indexes_for_table p db name) of None \<Rightarrow> op_return None
          | Some idx \<Rightarrow> if needs_index l then op_bind (loaded_cache p idx) (\<lambda>c. op_bind (op_result (lookup_rowids c l)) (\<lambda>ids. op_return (Some ids))) else op_return (Some [])))"
      using at assms keeps_loaded_cache [where ib = ib and k = "tk name", OF assms]
      by (auto intro!: keeps_intros simp: indexes_at_def find_Some_iff split: option.split)
  qed
  then show "keeps (indexes_at ti ib tr nk R) (dml_index_rowids p name w)" unfolding dml_index_rowids_def by (intro keeps_intros)
qed

lemma exec_update_maintains:
  assumes "fixed_names p nk tk" and "sql_keeps p (rows_indexed nk)"
  shows "maintains (rows_indexed nk) (exec_update p s)"
  unfolding exec_update_def Let_def
  by (intro triple_then [OF keeps_table_info] triple_then [OF keeps_result] triple_then [OF keeps_index_rowids [OF assms(1)]] maintains_get
      maintains_then [OF triple_each] update_one_maintains [OF assms]) (auto intro!: keeps_triple keeps_intros split: option.split)

lemma exec_delete_maintains:
  assumes "fixed_names p nk tk" and "sql_keeps p (rows_indexed nk)"
  shows "maintains (rows_indexed nk) (exec_delete p s)"
  unfolding exec_delete_def Let_def
  by (intro triple_then [OF keeps_table_info] triple_then [OF keeps_index_rowids [OF assms(1)]] maintains_get triple_then [OF keeps_result]
      maintains_then [OF triple_map] delete_one_maintains [OF assms]) (auto intro!: keeps_triple keeps_intros split: option.split)

section \<open>Sequences of statements\<close>

text \<open>
  Statements that succeed, whatever they find, and failed \<^verbatim>\<open>INSERT\<close>s outside a transaction when all tables are in the file of the catalogue.
\<close>

inductive dml_step :: "('q, 'x) dml_params \<Rightarrow> ('q, 'x) database \<Rightarrow> ('q, 'x) database \<Rightarrow> bool" for p where
  inserted: "exec_insert p s db = (Ok r, db') \<Longrightarrow> row_policy s \<Longrightarrow> dml_step p db db'"
| batch_inserted: "insert_batch_raw p name vals db = (Ok r, db') \<Longrightarrow> dml_step p db db'"
| updated: "exec_update p u db = (Ok r, db') \<Longrightarrow> dml_step p db db'"
| deleted: "exec_delete p d db = (Ok r, db') \<Longrightarrow> dml_step p db db'"
| insert_failed: "exec_insert p s db = (Err e, db') \<Longrightarrow> \<not> in_txn db \<Longrightarrow> own_file db = {} \<Longrightarrow> dml_step p db db'"

lemma rollback_indexed:
  assumes "rows_indexed nk db" and "own_file db = {}"
  shows "rows_indexed nk (rollback_insert p db db')"
  using assms by (simp add: rollback_insert_def without_index_caches_def index_in_own_file_def rows_indexed_def indexes_ok_def index_ok_def)

lemma failed_insert_indexed:
  assumes "exec_insert p s db = (Err e, db')" and "\<not> in_txn db" and "own_file db = {}" and "rows_indexed nk db"
  shows "rows_indexed nk db'"
  using assms rollback_indexed [OF assms(4,3)]
  by (auto simp: exec_insert_def op_get_def op_bind_def op_result_def in_implicit_txn_def split: res.splits prod.splits)


subsection \<open>An example\<close>

definition sample_dml :: "(unit, unit) dml_params" where
  "sample_dml =
     \<lparr>vm_of = (\<lambda>_. sample_vm), execute_sql = (\<lambda>_. op_return ()), max_rowid_of = (\<lambda>es. if es = [] then 0 else fst (List.last es)), new_txid = (\<lambda>_. 1),
      fts_insert = (\<lambda>_ _ _. op_return ()), fts_delete = (\<lambda>_ _. op_return ()), vec_insert = (\<lambda>_ _ _. op_return ()), vec_delete = (\<lambda>_ _ x. x),
      search_rollback = (\<lambda>a b. a), commit_pages = (\<lambda>_. Ok ())\<rparr>"

lemma sample_dml_fields [simp]:
  "vm_of sample_dml db = sample_vm" "execute_sql sample_dml sql = op_return ()" "fts_delete sample_dml name rowid = op_return ()" "vec_delete sample_dml name rowid x = x"
  "fts_insert sample_dml name rowid row = op_return ()" "vec_insert sample_dml name rowid row = op_return ()"
  by (simp_all add: sample_dml_def)

definition x_index :: index_schema where
  "x_index = \<lparr>idx_name = ''i'', idx_table = ''t'', idx_columns = [''x''], idx_unique = True\<rparr>"

definition x_table :: "unit table_info" where
  "x_table = \<lparr>ti_name = ''t'', ti_columns = [\<lparr>ci_name = ''x'', ci_primary_key = False, ci_not_null = True, ci_index = 0\<rparr>], ti_col_names = [''x''], next_rowid = 2,
     foreign_keys = [], check_constraints = []\<rparr>"

definition sample_database :: "(unit, unit) database" where
  "sample_database =
     \<lparr>table_infos = [''t'' \<mapsto> x_table], table_list = [''t''], table_rows = (\<lambda>_. [])(''t'' := [(1, [Integer 5])]), own_file = {},
      indexes_by_table = (\<lambda>_. [])(''t'' := [x_index]), index_entries = (\<lambda>_. [])(''i'' := [(1, [Integer 5, Integer 1])]), index_caches = Map.empty,
      triggers_by_table = (\<lambda>_. []), binlog_events = [], undo_entries = [], lock_manager = row_lock_manager_new, pager_txid = None, current_txn = 0, search_indexes = ()\<rparr>"

definition sample_index_key :: "index_schema \<Rightarrow> string" where
  "sample_index_key idx = lower_string sample_vm (idx_name idx)"

lemma sample_fixed_names: "fixed_names sample_dml sample_index_key (lowercase_key sample_vm)"
  unfolding fixed_names_def by (intro allI conjI ext) (simp_all add: index_name_key_def table_key_def sample_index_key_def)

lemma sample_keys: "sample_index_key x_index = ''i''" "lowercase_key sample_vm ''t'' = ''t''" "lower_string sample_vm ''t'' = ''t''"
  by (code_simp, code_simp, code_simp)

lemma x_index_values [simp]: "index_values (ti_columns x_table) x_index [v] = [v]"
  by (simp add: index_values_def x_index_def x_table_def find_column_index_def value_at_def eq_ignore_ascii_case_def)

lemma sample_indexed: "rows_indexed sample_index_key sample_database"
proof -
  have "indexes_rows (ti_columns x_table) x_index {(1, [Integer 5])} [(1, [Integer 5, Integer 1])]"
    by (auto simp: indexes_rows_def row_entry_def) (simp add: x_index_def x_table_def find_column_index_def eq_ignore_ascii_case_def)
  then have "index_ok sample_index_key sample_database (ti_columns x_table) x_index {(1, [Integer 5])}"
    by (simp add: index_ok_def proper_rows_def unique_in_def sample_keys sample_database_def)
  then show ?thesis by (auto simp: rows_indexed_def indexes_ok_def sample_database_def)
qed

definition delete_all :: "unit delete_stmt" where
  "delete_all = \<lparr>del_table = ''t'', del_where = None, del_returning = None\<rparr>"

lemmas op_defs = op_bind_def op_get_def op_return_def op_result_def op_modify_def

lemma sample_table_key [simp]: "table_key sample_dml db ''t'' = ''t''" "index_name_key sample_dml db x_index = ''i''" "indexes_for_table sample_dml db ''t'' = indexes_by_table db ''t''"
  using sample_keys by (simp_all add: table_key_def indexes_for_table_def index_name_key_def sample_index_key_def)

lemma sample_cache: "rowid_map (load_index_cache [(1, [Integer 5, Integer 1])]) 1 = Some 1"
  by (simp add: load_index_cache_def load_entry_def index_entry_of_def Let_def)

text \<open>The deletion of the row of the example, in a state without triggers and without a cache.\<close>

lemma sample_delete_one:
  "\<exists>db. delete_one sample_dml ''t'' 1 sample_database = (Ok (Some [Integer 5]), db) \<and> table_rows db ''t'' = []"
proof -
  have no_triggers: "fire_triggers sample_dml ''t'' timing event db = (Ok (), db)" if "triggers_by_table db = (\<lambda>_. [])" for timing event db
    using that by (simp add: fire_triggers_def op_defs)
  have fk: "enforce_fk_parent_delete sample_dml ''t'' row sample_database = (Ok (), sample_database)" for row
    by (simp add: enforce_fk_parent_delete_def op_defs sample_database_def x_table_def)
  have del: "\<exists>db. delete_index_entries sample_dml ''t'' 1 sample_database = (Ok (), db) \<and> table_rows db ''t'' = [(1, [Integer 5])] \<and> triggers_by_table db = (\<lambda>_. []) \<and> pager_txid db = None"
    by (simp add: delete_index_entries_def delete_index_entry_def loaded_cache_def ensure_index_cache_loaded_def index_entry_rowid_for_table_rowid_def sample_cache
        op_defs Let_def sample_database_def)
  have "triggers_by_table sample_database = (\<lambda>_. [])" "table_rows sample_database ''t'' = [(1, [Integer 5])]" by (simp_all add: sample_database_def)
  moreover have same: "db\<lparr>search_indexes := ()\<rparr> = db" for db :: "(unit, unit) database" by (cases db) simp
  ultimately show ?thesis using del
    by (auto simp: same Let_def delete_one_def op_defs no_triggers fk find_row_op_def on_search_indexes_def vec_delete_op_def delete_row_op_def lock_row_def push_undo_def in_txn_def
        log_event_def store_delete_def)
qed

lemma sample_delete: "\<exists>db. exec_delete sample_dml delete_all sample_database = (Ok (RowsAffected 1 ''1 row(s) deleted''), db) \<and> table_rows db ''t'' = []"
proof -
  have "table_info_of sample_dml ''t'' sample_database = (Ok x_table, sample_database)" by (simp add: table_info_of_def op_defs sample_database_def)
  moreover have "table_rows sample_database ''t'' = [(1, [Integer 5])]" by (simp add: sample_database_def)
  moreover have "show_nat (Suc 0) = ''1''" by code_simp
  ultimately show ?thesis using sample_delete_one
    by (auto simp: exec_delete_def delete_all_def dml_index_rowids_def row_matches_def op_defs Let_def)
qed


text \<open>
  \<^verbatim>\<open>UPDATE\<close> has no implicit transaction: when the new row is refused by a unique index, the entries of the row are already gone from all indexes, and the row is still in the table.
\<close>

lemma refused_update_loses_entries:
  assumes "fixed_names p nk tk" and "rows_indexed nk db" and "delete_index_entries p name rowid db = (Ok (), db1)"
    and "validate_unique_indexes_for_row p name rowid new (Some rowid) db1 = (Err e, db2)"
  shows "rows_indexed_but nk (tk name) rowid db2"
  using keepsD [OF keeps_validate(2) [OF assms(1)], of "tk name" rowid db1 name rowid new "Some rowid"] tripleD [OF delete_index_entries_triple [OF assms(1)] assms(2,3)] assms(4)
  by simp

section \<open>Constraints\<close>

lemma bind_Ok: "op_bind f g s = (Ok b, s'') \<longleftrightarrow> (\<exists>a s'. f s = (Ok a, s') \<and> g a s' = (Ok b, s''))"
  by (auto simp: op_bind_def split: prod.splits res.splits)

lemma each_Ok:
  assumes "op_each f xs s = (Ok (), s')" and "\<And>x s. snd (f x s) = s"
  shows "s' = s \<and> (\<forall>x \<in> set xs. f x s = (Ok (), s))"
  using assms(1)
proof (induction xs)
  case (Cons x xs)
  then obtain s1 where "f x s = (Ok (), s1)" "op_each f xs s1 = (Ok (), s')" by (auto simp: bind_Ok)
  then show ?case using Cons.IH assms(2) [of x s] by auto
qed (simp add: op_return_def)

lemma check_not_null_Ok:
  "check_not_null name row cols = Ok () \<Longrightarrow> c \<in> set cols \<Longrightarrow> ci_not_null c \<Longrightarrow> \<not> ci_primary_key c \<Longrightarrow> ci_index c < length row \<and> row ! ci_index c \<noteq> Null"
  by (induction cols) (auto simp: row_cell_def split: if_splits)

text \<open>The value of a foreign key is NULL or in the referenced column of a row of the parent table.\<close>

definition fk_holds :: "('q, 'x) dml_params \<Rightarrow> ('q, 'x) database \<Rightarrow> row \<Rightarrow> foreign_key \<Rightarrow> bool" where
  "fk_holds p db row fk \<longleftrightarrow> (let v = value_at row (fk_col_index fk) in v = Null \<or>
     (\<exists>t. table_infos db (table_key p db (fk_ref_table fk)) = Some t \<and> (\<exists>x \<in> set (table_rows db (table_key p db (fk_ref_table fk))).
        let i = (case referenced_column (ti_columns t) (fk_ref_col fk) of None \<Rightarrow> 0 | Some i \<Rightarrow> i) in i < length (snd x) \<and> value_eq (snd x ! i) v)))"

lemma table_info_Ok: "table_info_of p name db = (Ok t, db') \<longleftrightarrow> db' = db \<and> table_infos db (table_key p db name) = Some t"
  by (auto simp: table_info_of_def op_get_def op_fail_def op_return_def split: option.splits)

lemma check_fk_state: "snd (check_fk p name row fk db) = db"
  by (auto simp: check_fk_def fk_value_exists_in_parent_def table_info_of_def op_defs op_fail_def Let_def split: option.splits)

lemma check_fk_Ok: "check_fk p name row fk db = (Ok (), db) \<Longrightarrow> fk_holds p db row fk"
  by (auto simp: check_fk_def fk_value_exists_in_parent_def fk_holds_def bind_Ok table_info_Ok op_get_def op_return_def op_fail_def Let_def list_ex_iff split: if_splits)

lemma check_fk_on_insert_Ok:
  assumes "check_fk_on_insert p name row db = (Ok (), db')"
  shows "db' = db \<and> (\<exists>t. table_infos db (table_key p db name) = Some t \<and> (\<forall>fk \<in> set (foreign_keys t). fk_holds p db row fk))"
proof -
  obtain t where t: "table_infos db (table_key p db name) = Some t" "op_each (check_fk p name row) (foreign_keys t) db = (Ok (), db')"
    using assms by (auto simp: check_fk_on_insert_def bind_Ok table_info_Ok)
  show ?thesis using each_Ok [OF t(2) check_fk_state] check_fk_Ok t(1) by blast
qed

lemma check_constraints_Ok:
  assumes "check_constraints_for_row p name row db = (Ok (), db')" and "table_infos db (table_key p db name) = Some t"
  shows "db' = db \<and> (\<forall>c \<in> set (check_constraints t). \<exists>v. eval_check_expr_simple (vm_of p db) (ti_col_names t) row (snd c) = Ok v \<and> v \<noteq> Integer 0)"
proof -
  have "op_each (\<lambda>c. op_result (check_constraint (vm_of p db) name (ti_col_names t) row c)) (check_constraints t) db = (Ok (), db')"
    using assms by (auto simp: check_constraints_for_row_def bind_Ok table_info_Ok op_get_def)
  from each_Ok [OF this] have "db' = db \<and> (\<forall>c \<in> set (check_constraints t). check_constraint (vm_of p db) name (ti_col_names t) row c = Ok ())"
    by (simp add: op_result_def)
  moreover have "\<exists>v. e = Ok v \<and> v \<noteq> Integer 0" if "res_bind e (\<lambda>v. if v = Integer 0 then Err err else Ok ()) = Ok ()" for e err
    using that by (cases e) (auto split: if_splits)
  ultimately show ?thesis unfolding check_constraint_def by blast
qed


definition insert_x :: "unit insert_stmt" where
  "insert_x = \<lparr>ins_table = ''t'', ins_columns = None, ins_source = InsertValues [], ins_conflict = ConflictError, ins_returning = None\<rparr>"


end
