(* ===== verification/Spec2Isabelle.thy ===== *)
theory Spec2Isabelle
  imports PrefixCompress RaftLog VmStatements Dtx Gc DistTxn PagerHeap BTreeClaims SelectLaws GroupLaws IndexLaws DmlLaws
begin

text \<open>
  A verification library for kkdb, a relational database in Rust. A client's SQL is parsed, executed by a
  virtual machine on B+tree tables kept in pages, logged in a binary log, and replicated with Raft. Around
  that core stand multi-version concurrency control, lock managers, and the coordination of distributed
  transactions. The library models the parts that encode and persist data and the parts that decide what a
  transaction may see and do.

  \<^bold>\<open>Theories and the code they model\<close>

  \<^item> \<open>KkPrelude\<close>: machine integers as words, little-endian bytes, the outcome type \<open>res\<close> of a fallible
    function (a value, an error of \<^verbatim>\<open>error.rs\<close>, or a panic), and the contracts \<open>codec\<close>,
    \<open>field_codec\<close> and \<open>safe_decoder\<close>. \<open>StdLib\<close> and \<open>OrdMap\<close>: what the sources use of the standard library
    (ASCII case, trimming, \<^verbatim>\<open>rposition\<close>; a sorted association list for \<^verbatim>\<open>BTreeMap\<close>).
  \<^item> \<open>Varint\<close> (\<^verbatim>\<open>src/src/varint.rs\<close>): LEB128 and ZigZag. \<open>Float64\<close>: the bit-level part of \<^verbatim>\<open>f64\<close>.
    \<open>ValueTypes\<close> (\<^verbatim>\<open>src/src/types.rs\<close>): values, their order and equality, the value and row codecs.
    \<open>PrefixCompress\<close> (\<^verbatim>\<open>src/src/storage/prefix_compress.rs\<close> and the page coders of \<^verbatim>\<open>types.rs\<close>).
  \<^item> \<open>Framing\<close>: the contract \<open>framed_log\<close> of a log of checksummed frames, interpreted twice:
    by \<open>Binlog\<close> (\<^verbatim>\<open>src/src/binlog/mod.rs\<close>) and by \<open>RaftLog\<close> (\<^verbatim>\<open>src/src/raft/log_store.rs\<close>).
  \<^item> \<open>Mvcc\<close> (\<^verbatim>\<open>src/src/vm/mvcc.rs\<close>, and the snapshot scan of \<^verbatim>\<open>exec_select.rs\<close>): undo log,
    registry, snapshots, visibility. \<open>LockSpec\<close>: the contracts \<open>write_locks\<close> and \<open>deadlock_check\<close>;
    \<open>RowLocks\<close> (the rest of \<^verbatim>\<open>mvcc.rs\<close>) and \<open>TableLocks\<close> (\<^verbatim>\<open>src/src/vm/lock_manager.rs\<close>)
    interpret them. \<open>VmTxn\<close> (\<^verbatim>\<open>src/src/vm/execute.rs\<close>): how the virtual machine drives them.
    \<open>Gc\<close> (\<^verbatim>\<open>src/src/vm/gc.rs\<close>): version collection and foreign-key cascades.
  \<^item> \<open>PageFile\<close>: a file with its synced content. \<open>Wal\<close> (\<^verbatim>\<open>src/src/storage/wal.rs\<close>): frames, index,
    recovery, commit, snapshots, checkpoints. \<open>PageStore\<close>: the contract \<open>page_store\<close> of an array of
    pages. \<open>Pager\<close> (\<^verbatim>\<open>src/src/storage/pager.rs\<close>): page cache and eviction, the two superblocks, open and
    create, allocation and free lists, transactions, savepoints, commit. \<open>PagerTxn\<close> holds the invariant of
    the pager and interprets \<open>page_store\<close> on it; \<open>PagerFile\<close> what reaches the file; \<open>PagerCrash\<close>
    what a crash, a rollback to a savepoint and a change of the log mode leave.
  \<^item> \<open>PageHeap\<close>: the contract \<open>page_heap\<close> of an allocator, interpreted on the pager in \<open>PagerHeap\<close>.
    \<open>BTreePage\<close> and \<open>BTree\<close> (\<^verbatim>\<open>src/src/storage/btree.rs\<close>): pages and cells byte by byte; overflow chains,
    insertion with splits, lookup, deletion, update, scans, counting, defragmentation. \<open>BTreeSlots\<close> relates a page to its
    list of cells. \<open>BTreeStore\<close> is a small program logic over the pages a pager holds; with it \<open>BTreeTree\<close>
    (the tree that a set of pages represents), \<open>BTreeRead\<close>, \<open>BTreeScan\<close>, \<open>BTreeFrame\<close> (deletion), \<open>BTreeInsert\<close>
    (split of a leaf), \<open>BTreeGrow\<close>, \<open>BTreeNodes\<close> (interior pages) and \<open>BTreeTable\<close> (the root) show what each operation does
    to the tree. \<open>RowTable\<close> is the contract \<open>row_table\<close> of a table, interpreted in \<open>BTreeRows\<close>; \<open>BTreeClaims\<close> has the results.
  \<^item> \<open>VmStatements\<close> (\<^verbatim>\<open>src/src/vm/execute.rs\<close>): the whole handlers of \<^verbatim>\<open>BEGIN\<close>, \<^verbatim>\<open>COMMIT\<close>,
    \<^verbatim>\<open>ROLLBACK\<close>, \<^verbatim>\<open>SAVEPOINT\<close>, \<^verbatim>\<open>RELEASE\<close> and \<^verbatim>\<open>ROLLBACK TO\<close> over the pagers, the binary log,
    the schema and the concurrency components.
  \<^item> \<open>Dtx\<close> (\<^verbatim>\<open>src/src/raft/features/dtx.rs\<close>): the two-phase commit coordinator and participants,
    composed with a network that loses, duplicates and reorders messages. \<open>DistTxn\<close>
    (\<^verbatim>\<open>src/src/raft/features/dist_txn.rs\<close>): lock upgrades, the global serializer, schema changes.

  \<^item> \<open>Utf8\<close>, \<open>Like\<close>, \<open>F64Arith\<close>, \<open>NumText\<close>: text as bytes and as characters, the pattern matcher, the arithmetic of
    \<^verbatim>\<open>f64\<close> with its roundings, numbers as text. \<open>Expr\<close> and \<open>ExprFunctions\<close> (\<^verbatim>\<open>src/src/vm/eval_expr.rs\<close>): expressions,
    the lookup of columns through enclosing rows, operators, predicates, subqueries, \<^verbatim>\<open>CASE\<close>, \<^verbatim>\<open>CAST\<close> and the built-in functions.
    \<open>ExprLaws\<close> has the results.
  \<^item> \<^verbatim>\<open>src/src/vm/exec_select.rs\<close>: \<open>SelectRows\<close> (keys, order, limits), \<open>SelectFrom\<close> (the \<^verbatim>\<open>FROM\<close> clause with its joins, set operations and
    table functions), \<open>SelectGroup\<close> (projection, grouping, aggregates), \<open>SelectExec\<close> (common table expressions, join order, fast paths, row-level security,
    the whole statement). \<open>RowOrder\<close> states the contract \<open>row_order\<close> of a comparison for sorting and interprets it on that of \<^verbatim>\<open>ORDER BY\<close>; \<open>JoinLaws\<close>,
    \<open>SetOpLaws\<close>, \<open>GroupLaws\<close> and \<open>SelectLaws\<close> have the results.
  \<^item> \<open>IndexCache\<close> (\<^verbatim>\<open>src/src/vm/execute.rs\<close>): the caches of secondary indexes and the lookups through them, with \<open>IndexLaws\<close> for the results (it interprets \<open>row_order\<close> on the
    order of index entries). \<open>DmlState\<close> and \<open>Dml\<close> (\<^verbatim>\<open>src/src/vm/exec_dml.rs\<close>): the schema and data that \<^verbatim>\<open>INSERT\<close>, \<^verbatim>\<open>UPDATE\<close> and \<^verbatim>\<open>DELETE\<close> change, index maintenance, constraints,
    triggers, conflict policies, the implicit transaction, and the whole statements. \<open>DmlIndexes\<close> is a small program logic for them (outcomes that succeed, operations that keep an
    invariant) with the invariant of tables and indexes; \<open>DmlLaws\<close> has the results.

  A struct is a record with the same fields and a method a function that returns the changed record. A
  mutex makes each method one step. A \<^verbatim>\<open>HashMap\<close> is an ordered map or a function where no result
  depends on its order; a clock reading is an argument.

  \<^bold>\<open>What is proved\<close>

  \<^item> Encodings: varints, values, rows, index pages and log records are read back as written whatever
    follows them; decoding a row never panics; the prefix coder cuts keys beyond its 16-bit length.
  \<^item> Logs: scanning returns what was appended; recovery after a torn write keeps the complete records.
    In every reachable state of the Raft log store, reopening restores entries, vote and purge point.
    After a torn record is left in the file, later entries are lost.
  \<^item> Isolation: which transactions a snapshot shows through any interleaving; a snapshot scan undoes
    the invisible writes if each concerns another row, and shows dirty data if not; savepoints; the
    collection of versions is invisible to readers at or above the watermark.
  \<^item> Locks: exclusion and acyclic waiting, proved in the contracts and instantiated; validation of reads and
    what it misses; the upgrade that breaks exclusion of table locks.
  \<^item> Pages: the cache is invisible, a rollback restores every page, a commit survives a crash,
    superblocks and compressed pages are read back as written. A commit that is interrupted exposes writes; a
    rollback to a savepoint keeps changes and frees pages in use; with a write-ahead log, a change
    of a page that is not cached starts from an outdated content.
  \<^item> B+tree: in any sequence of operations a table is a list of rows in rowid order; an insertion adds its row and
    leaves other tables alone; appending always succeeds; loops end. A row inserted into an emptied leaf
    under its divider is lost, and the largest rowid is misreported when the last leaf is empty.
  \<^item> Write-ahead log: recovery restores exactly the committed frames, a torn commit leaves no trace, a
    checkpoint does not change what a page reads as, and frames that were never committed return.
  \<^item> Statements: \<^verbatim>\<open>ROLLBACK\<close> restores catalogue, tables and schema; \<^verbatim>\<open>COMMIT\<close> appends the pending
    events to the binary log; \<^verbatim>\<open>ROLLBACK TO\<close> does not reach the tables; \<^verbatim>\<open>COMMIT\<close> drops a table's error.
  \<^item> Expressions: the connectives are those of three-valued logic, \<^verbatim>\<open>LIKE\<close> accepts what its pattern means, the derived predicates are what defines them, integers are read back from
    their text, and evaluation never panics outside two functions.
  \<^item> Queries: joins, set operations, groups, aggregates and sorted results are what their mathematical definitions say, each with the condition on the values under which the
    keys of the code are exact; the shortcuts (limited scans, subqueries executed once, sorting only what a limit needs) do not change results; policies of
    row-level security hold for every row that is processed. Lemmas show where a shortcut does change a result.
  \<^item> Data changes: every index has one entry per row of its table and no key twice if it is unique, after any sequence of statements that succeed; accepted rows satisfy the constraints; the
    cache of an index is what loading it gives; lookups of ranges are exact without NULLs. Lemmas show that they are not with NULLs, that large integers share keys, and that a refused
    \<^verbatim>\<open>UPDATE\<close> loses index entries.
  \<^item> Distribution: no commit beside an abort in runs without a phase timeout, and a run with
    one that has both; serializability of validated commits; phases of schema changes.

  \<^bold>\<open>Bounds and recursion\<close>

  All definitions are total functions. The varint reader recurses on the rest of the bytes, log
  scanners on the rest of the log (each frame takes at least eight bytes), the scan of the write-ahead log on
  the bytes after the current frame, the search for a cycle
  of waiting transactions on the transactions not yet visited. The eviction loop of the page cache counts
  the rounds that its source loop has left. The descents and walks of the B+tree follow page numbers, which could form a
  circle in a damaged file: they are cut, with a panic as outcome, after as many steps as the database has pages, which no
  intact table reaches; the reader of an overflow chain is bounded by the bytes it still needs. Counters that only feed statistics
  are natural numbers. Expressions, \<^verbatim>\<open>FROM\<close> clauses and lists of rows are recursed on structurally; recursive common table expressions end after 1000 rounds and
  \<^verbatim>\<open>generate_series\<close> after a million rows, as in the source; identifiers and lengths that reach the disk keep their width.

  \<^bold>\<open>Parameters\<close>

  The \<^verbatim>\<open>crc32fast\<close> checksum of the binary log, the JSON form of Raft entries (\<^verbatim>\<open>serde_json\<close>, with the
  round trip as hypothesis and a concrete instance), the \<^verbatim>\<open>lz4_flex\<close> block coder of compressed pages (the same), the size of a value in memory, and the closures that the
  participants of a distributed transaction run. For expressions: the Unicode tables, the tokenizer, random numbers, and the functions on JSON, vectors and regular expressions. For queries: the scan of
  a stored table (the snapshot scan of \<open>Mvcc\<close> or that of \<open>BTree\<close>), the execution of a nested statement, index scans, the join order that the cost model chooses, and
  \<^verbatim>\<open>select_nth_unstable_by\<close>, whose choice among equal elements is not specified. For data changes: the execution of SQL text by triggers and foreign keys, full-text and vector indexes, the largest rowid that the B+tree reports for an
  index, and the outcome of the pager's commit.

  \<^bold>\<open>Not modelled\<close>

  Cursors; the SQL parser, an adapter over a library; window functions, index scans and the cost model of queries; the statements that change the schema; the openraft consensus and its
  transport; full-text and vector search; servers; monitoring. Failing file operations: reads and writes succeed, and a crash loses what was not yet flushed or cuts the last record. In the statements that change data a table is its list of rows; the root pages that a statement carries along, and
  what a nested statement sees of a root page that has just moved, are left out.

  \<^bold>\<open>Plan\<close>

  Next the statements that change the schema, then window functions and index scans.
\<close>

end
